(* ===== verification/Prelude.thy ===== *)
theory Prelude
  imports Main "HOL-Library.Word"
begin

text \<open>
  Shared notions of the development: the integer types of \<^verbatim>\<open>include/c/types.h\<close>, the ways a
  C function of the interpreter can stop without returning, a bind for such results, and
  the arithmetic that relates natural numbers to little-endian lists of 32-bit words.
\<close>

unbundle bit_operations_syntax

type_synonym c3_w = "32 word"
type_synonym c3_y = "8 word"
type_synonym c3_d = "64 word"

named_theorems bits_simps \<open>bit-level facts on words, slabs and atoms\<close>
named_theorems res_simps \<open>evaluation of results and binds\<close>

section \<open>Results\<close>

text \<open>
  \<open>Bail m\<close> is \<^verbatim>\<open>u2_cm_bail(m)\<close>, the jump to the local trap with the mote \<open>m\<close>;
  \<open>Abort\<close> is a failed \<^verbatim>\<open>c3_assert\<close>; \<open>Wild\<close> is an access outside of the object the
  code means to access, about which C promises nothing.
\<close>

datatype fault = Bail nat | Abort | Wild

type_synonym 'a res = "fault + 'a"

definition rbind :: "'a res \<Rightarrow> ('a \<Rightarrow> 'b res) \<Rightarrow> 'b res" where
  "rbind m f = (case m of Inl e \<Rightarrow> Inl e | Inr x \<Rightarrow> f x)"

lemma rbind_Inl [simp, res_simps]: "rbind (Inl e) f = Inl e"
  by (simp add: rbind_def)

lemma rbind_Inr [simp, res_simps]: "rbind (Inr x) f = f x"
  by (simp add: rbind_def)

lemma rbind_eq_Inr: "rbind m f = Inr y \<longleftrightarrow> (\<exists>x. m = Inr x \<and> f x = Inr y)"
  by (cases m) auto

lemma rbind_eq_Inl: "rbind m f = Inl e \<longleftrightarrow> m = Inl e \<or> (\<exists>x. m = Inr x \<and> f x = Inl e)"
  by (cases m) auto

lemma rbind_cong [fundef_cong]:
  "m = m' \<Longrightarrow> (\<And>x. m' = Inr x \<Longrightarrow> f x = g x) \<Longrightarrow> rbind m f = rbind m' g"
  by (cases m') auto

section \<open>Bit lengths\<close>

text \<open>The number of bits of a natural number, the reference for every measuring routine.\<close>

fun nbits :: "nat \<Rightarrow> nat" where
  "nbits n = (if n = 0 then 0 else Suc (nbits (n div 2)))"

declare nbits.simps [simp del]

lemma nbits_0 [simp]: "nbits 0 = 0"
  by (simp add: nbits.simps)

lemma nbits_pos: "0 < n \<Longrightarrow> nbits n = Suc (nbits (n div 2))"
  by (simp add: nbits.simps)

lemma nbits_eq_0 [simp]: "nbits n = 0 \<longleftrightarrow> n = 0"
  by (cases "n = 0") (simp_all add: nbits_pos)

lemma nbits_le_iff: "nbits n \<le> k \<longleftrightarrow> n < 2 ^ k"
proof (induction n arbitrary: k rule: nbits.induct)
  case (1 n)
  show ?case
  proof (cases "n = 0")
    case True
    then show ?thesis by simp
  next
    case False
    then have "nbits n \<le> k \<longleftrightarrow> 0 < k \<and> nbits (n div 2) \<le> k - 1"
      by (cases k) (simp_all add: nbits_pos [of n])
    also have "\<dots> \<longleftrightarrow> 0 < k \<and> n div 2 < 2 ^ (k - 1)"
      using 1 False by blast
    also have "\<dots> \<longleftrightarrow> n < 2 ^ k"
      using False by (cases k) auto
    finally show ?thesis .
  qed
qed

lemma less_two_power_nbits: "n < 2 ^ nbits n"
  by (simp add: nbits_le_iff [symmetric])

lemma nbits_less_iff: "k < nbits n \<longleftrightarrow> 2 ^ k \<le> n"
  using nbits_le_iff [of n k] by linarith

lemma nbits_eqI: "2 ^ k \<le> n \<Longrightarrow> n < 2 ^ Suc k \<Longrightarrow> nbits n = Suc k"
  using nbits_le_iff [of n "Suc k"] nbits_less_iff [of k n] by simp

lemma nbits_add_power: "0 < h \<Longrightarrow> l < 2 ^ k \<Longrightarrow> nbits (l + 2 ^ k * h) = k + nbits h"
proof -
  assume h: "0 < h" and l: "l < 2 ^ k"
  obtain j where j: "nbits h = Suc j"
    using h by (cases "nbits h") auto
  have lo: "2 ^ j \<le> h" using j nbits_less_iff [of j h] by simp
  have hi: "Suc h \<le> 2 ^ Suc j" using j nbits_le_iff [of h "Suc j"] by simp
  have "2 ^ k * 2 ^ j \<le> 2 ^ k * h" using lo by simp
  moreover have "l + 2 ^ k * h < 2 ^ k * Suc h" using l by simp
  moreover have "2 ^ k * Suc h \<le> 2 ^ k * 2 ^ Suc j" using hi by (simp only: mult_le_mono2)
  ultimately have "2 ^ (k + j) \<le> l + 2 ^ k * h" "l + 2 ^ k * h < 2 ^ Suc (k + j)"
    unfolding power_add power_Suc by linarith+
  then show ?thesis using j by (simp add: nbits_eqI)
qed

lemma nbits_mono: "m \<le> n \<Longrightarrow> nbits m \<le> nbits n"
  using less_two_power_nbits [of n] by (simp add: nbits_le_iff)

lemma bit_imp_less_nbits: "bit (n::nat) i \<Longrightarrow> i < nbits n"
  using bit_nat_iff by (metis div_less bit_iff_odd even_zero leI nbits_le_iff)

lemma not_bit_ge_nbits: "nbits n \<le> i \<Longrightarrow> \<not> bit (n::nat) i"
  using bit_imp_less_nbits by fastforce

lemma bit_top: "0 < n \<Longrightarrow> bit (n::nat) (nbits n - 1)"
proof -
  assume n: "0 < n"
  then obtain k where k: "nbits n = Suc k" by (cases "nbits n") auto
  have "n div 2 ^ k < 2" using less_two_power_nbits [of n] k
    by (simp add: less_mult_imp_div_less mult.commute)
  moreover have "1 \<le> n div 2 ^ k" using k nbits_less_iff [of k n]
    by (simp add: less_eq_div_iff_mult_less_eq)
  ultimately have "n div 2 ^ k = 1" by linarith
  then show ?thesis using k by (simp add: bit_iff_odd)
qed

section \<open>Numbers and lists of words\<close>

text \<open>
  \<open>words_atom ws\<close> is the number a word buffer denotes, least significant word first;
  \<open>atom_words n\<close> is the shortest buffer that denotes \<open>n\<close>.
\<close>

primrec words_atom :: "c3_w list \<Rightarrow> nat" where
  "words_atom [] = 0"
| "words_atom (w # ws) = unat w + 2 ^ 32 * words_atom ws"

fun atom_words :: "nat \<Rightarrow> c3_w list" where
  "atom_words n = (if n = 0 then [] else of_nat n # atom_words (n div 2 ^ 32))"

declare atom_words.simps [simp del]

lemma atom_words_0 [simp]: "atom_words 0 = []"
  by (simp add: atom_words.simps)

lemma atom_words_pos: "0 < n \<Longrightarrow> atom_words n = of_nat n # atom_words (n div 2 ^ 32)"
  by (simp add: atom_words.simps)

lemma atom_words_eq_Nil [simp]: "atom_words n = [] \<longleftrightarrow> n = 0"
  by (cases "n = 0") (simp_all add: atom_words_pos)

lemma words_atom_atom_words [simp]: "words_atom (atom_words n) = n"
proof (induction n rule: atom_words.induct)
  case (1 n)
  then show ?case
    by (cases "n = 0") (simp_all add: atom_words_pos unat_of_nat)
qed

lemma words_atom_append:
  "words_atom (xs @ ys) = words_atom xs + 2 ^ (32 * length xs) * words_atom ys"
  by (induction xs) (simp_all add: algebra_simps power_add)

lemma words_atom_zeros [simp]: "words_atom (replicate n 0) = 0"
  by (induction n) simp_all

lemma unat_c3_w: "unat (w :: c3_w) < 2 ^ 32"
proof -
  have "unat w < 2 ^ LENGTH(32)" by (rule unsigned_less)
  then show ?thesis by simp
qed

lemma unat_of_nat_c3_w: "n < 2 ^ 32 \<Longrightarrow> unat (of_nat n :: c3_w) = n"
  by (simp add: unat_of_nat)

lemma unat_drop_c3_w: "unat (drop_bit k (w :: c3_w)) = unat w div 2 ^ k"
  using unat_drop_bit_eq [of k w] by (simp add: drop_bit_eq_div [of k "unat w"])

lemma unat_push_c3_w:
  assumes "unat w * 2 ^ k < 2 ^ 32"
  shows "unat (push_bit k (w :: c3_w)) = unat w * 2 ^ k"
proof -
  have "push_bit k w = of_nat (unat w * 2 ^ k)"
    by (simp add: push_bit_eq_mult)
  then show ?thesis using unat_of_nat_c3_w [OF assms] by simp
qed

lemma unat_add_c3_w: "unat a + unat b < 2 ^ 32 \<Longrightarrow> unat (a + b :: c3_w) = unat a + unat b"
  using unat_add_lem [of a b] by simp

lemma unat_sub_c3_w: "unat b \<le> unat a \<Longrightarrow> unat (a - b :: c3_w) = unat a - unat b"
  by (simp add: unat_sub word_le_nat_alt)

lemma unat_one_push_c3_w: "k < 32 \<Longrightarrow> unat (2 ^ k :: c3_w) = 2 ^ k"
proof -
  assume "k < 32"
  then have "(2::nat) ^ k < 2 ^ 32" by (intro power_strict_increasing) simp_all
  then show ?thesis using unat_of_nat_c3_w [of "2 ^ k"] by simp
qed

lemma unat_mask_c3_w: "k < 32 \<Longrightarrow> unat (2 ^ k - 1 :: c3_w) = 2 ^ k - 1"
  using unat_one_push_c3_w [of k] by (simp add: unat_sub_c3_w)

lemmas unat_c3_w_simps =
  unat_of_nat_c3_w unat_drop_c3_w unat_push_c3_w unat_add_c3_w unat_sub_c3_w
  unat_one_push_c3_w unat_mask_c3_w

lemma words_atom_less: "words_atom ws < 2 ^ (32 * length ws)"
proof (induction ws)
  case Nil
  then show ?case by simp
next
  case (Cons w ws)
  have "unat w < 2 ^ 32" by (rule unat_c3_w)
  moreover have "Suc (words_atom ws) * 2 ^ 32 \<le> 2 ^ (32 * length ws) * 2 ^ 32"
    using Cons by (intro mult_le_mono1) simp
  ultimately show ?case by (simp add: power_add)
qed

lemma bit_add_disjoint:
  fixes a h :: nat
  assumes "a < 2 ^ k"
  shows "bit (a + 2 ^ k * h) i = (if i < k then bit a i else bit h (i - k))"
proof -
  have "a AND push_bit k h = 0"
    using not_bit_ge_nbits [of a] assms
    by (auto simp: bit_eq_iff bit_simps simp flip: nbits_le_iff)
  then have "a + 2 ^ k * h = a OR push_bit k h"
    using disjunctive_add_eq_or [of a "push_bit k h"] by (simp add: push_bit_eq_mult mult.commute)
  then show ?thesis
    using not_bit_ge_nbits [of a i] assms by (auto simp: bit_simps simp flip: nbits_le_iff)
qed

lemma bit_words_atom [bits_simps]:
  "bit (words_atom ws) i \<longleftrightarrow> i div 32 < length ws \<and> bit (ws ! (i div 32)) (i mod 32)"
proof (induction ws arbitrary: i)
  case Nil
  then show ?case by simp
next
  case (Cons w ws)
  have w: "unat w < 2 ^ 32" by (rule unat_c3_w)
  show ?case
  proof (cases "i < 32")
    case True
    then show ?thesis
      using bit_add_disjoint [OF w, of "words_atom ws" i] by (simp add: bit_simps)
  next
    case False
    then have "i div 32 = Suc ((i - 32) div 32)" "i mod 32 = (i - 32) mod 32"
      by (simp_all add: le_div_geq le_mod_geq)
    then show ?thesis
      using False Cons bit_add_disjoint [OF w, of "words_atom ws" i] by simp
  qed
qed

lemma nbits_unat_le: "nbits (unat (w :: c3_w)) \<le> 32"
  using unat_c3_w [of w] by (simp add: nbits_le_iff)

lemma nbits_unat_pos: "(w :: c3_w) \<noteq> 0 \<Longrightarrow> 0 < nbits (unat w)"
  using nbits_eq_0 [of "unat w"] by (simp add: unat_eq_zero del: nbits_eq_0)

lemma nbits_words_atom:
  assumes "ws \<noteq> []" "last ws \<noteq> 0"
  shows "nbits (words_atom ws) = 32 * (length ws - 1) + nbits (unat (last ws))"
proof -
  have "words_atom ws = words_atom (butlast ws @ [last ws])" using assms by simp
  also have "\<dots> = words_atom (butlast ws) + 2 ^ (32 * (length ws - 1)) * unat (last ws)"
    by (simp only: words_atom_append) simp
  also have "nbits \<dots> = 32 * (length ws - 1) + nbits (unat (last ws))"
    using assms words_atom_less [of "butlast ws"]
    by (intro nbits_add_power) (simp_all add: unat_gt_0)
  finally show ?thesis .
qed

lemma digit_unique:
  fixes x y a b m :: nat
  assumes "x < m" "y < m" "x + m * a = y + m * b"
  shows "x = y" and "a = b"
proof -
  have "(x + m * a) mod m = (y + m * b) mod m" "(x + m * a) div m = (y + m * b) div m"
    using assms(3) by simp_all
  then show "x = y" "a = b" using assms(1,2) by simp_all
qed

lemma words_atom_inject:
  assumes "length xs = length ys" "words_atom xs = words_atom ys"
  shows "xs = ys"
  using assms
proof (induction xs ys rule: list_induct2)
  case Nil
  then show ?case by simp
next
  case (Cons x xs y ys)
  have "unat x < 2 ^ 32" "unat y < 2 ^ 32" using unat_c3_w [of x] unat_c3_w [of y] by simp_all
  moreover have "unat x + 2 ^ 32 * words_atom xs = unat y + 2 ^ 32 * words_atom ys"
    using Cons.prems by simp
  ultimately have "unat x = unat y" "words_atom xs = words_atom ys"
    by (rule digit_unique)+
  with Cons.IH show ?case by (simp add: word_unat_eq_iff)
qed

lemma last_atom_words [simp]: "0 < n \<Longrightarrow> last (atom_words n) \<noteq> 0"
proof (induction n rule: atom_words.induct)
  case (1 n)
  show ?case
  proof (cases "n div 2 ^ 32 = 0")
    case True
    then have "n < 2 ^ 32" by (simp add: div_eq_0_iff)
    with 1 True show ?thesis
      by (simp add: atom_words_pos [of n] word_of_nat_eq_0_iff nat_dvd_not_less)
  next
    case False
    with 1 show ?thesis by (simp add: atom_words_pos [of n])
  qed
qed

lemma length_atom_words: "length (atom_words n) = (nbits n + 31) div 32"
proof (cases "n = 0")
  case True
  then show ?thesis by simp
next
  case False
  let ?ws = "atom_words n"
  have ne: "?ws \<noteq> []" and l: "last ?ws \<noteq> 0" using False by simp_all
  have "nbits n = 32 * (length ?ws - 1) + nbits (unat (last ?ws))"
    using nbits_words_atom [OF ne l] by simp
  moreover have "0 < nbits (unat (last ?ws))" using l by (rule nbits_unat_pos)
  moreover have "nbits (unat (last ?ws)) \<le> 32" by (rule nbits_unat_le)
  moreover have "0 < length ?ws" using ne by simp
  ultimately show ?thesis by linarith
qed

lemma atom_words_unique:
  assumes "ws = [] \<or> last ws \<noteq> 0"
  shows "atom_words (words_atom ws) = ws"
proof (cases "ws = []")
  case True
  then show ?thesis by simp
next
  case False
  with assms have l: "last ws \<noteq> 0" by simp
  have n: "nbits (words_atom ws) = 32 * (length ws - 1) + nbits (unat (last ws))"
    using False l by (rule nbits_words_atom)
  have "0 < nbits (unat (last ws))" "nbits (unat (last ws)) \<le> 32"
    using l by (simp_all add: nbits_unat_pos nbits_unat_le)
  moreover have "0 < length ws" using False by simp
  ultimately have "length (atom_words (words_atom ws)) = length ws"
    unfolding length_atom_words n by linarith
  then show ?thesis by (rule words_atom_inject) simp
qed

lemma nth_atom_words:
  assumes "i < length (atom_words n)"
  shows "atom_words n ! i = of_nat (n div 2 ^ (32 * i))"
proof (rule bit_word_eqI)
  fix j :: nat
  assume j: "j < LENGTH(32)"
  then have d: "(32 * i + j) div 32 = i" "(32 * i + j) mod 32 = j" by simp_all
  have "bit (atom_words n ! i) j \<longleftrightarrow> bit n (32 * i + j)"
    using bit_words_atom [of "atom_words n" "32 * i + j"] assms d by simp
  then show "bit (atom_words n ! i) j = bit (of_nat (n div 2 ^ (32 * i)) :: c3_w) j"
    using j by (simp add: bit_simps drop_bit_eq_div [symmetric])
qed

end
