(* ===== verification/Noun.thy ===== *)
theory Noun
  imports Prelude
begin

text \<open>
  Nouns, loobeans, motes and hoon lists as the interpreter sees them. A noun is an atom (a
  natural number) or a cell; the word-level representation of atoms is in the theory on
  atoms. \<^verbatim>\<open>u2_weak\<close> values, which may be \<^verbatim>\<open>u2_none\<close>, are options.
\<close>

datatype noun = Atom nat | Cell noun noun

type_synonym u2_weak = "noun option"

section \<open>Motes\<close>

text \<open>A mote is four characters packed in a word, first character lowest.\<close>

definition c3_s4 :: "char \<Rightarrow> char \<Rightarrow> char \<Rightarrow> char \<Rightarrow> nat" where
  "c3_s4 a b c d =
     push_bit 24 (of_char d) OR (push_bit 16 (of_char c) OR (push_bit 8 (of_char b) OR of_char a))"

definition c3__exit :: nat where
  "c3__exit = c3_s4 (CHR ''e'') (CHR ''x'') (CHR ''i'') (CHR ''t'')"

definition c3__fail :: nat where
  "c3__fail = c3_s4 (CHR ''f'') (CHR ''a'') (CHR ''i'') (CHR ''l'')"

definition c3__need :: nat where
  "c3__need = c3_s4 (CHR ''n'') (CHR ''e'') (CHR ''e'') (CHR ''d'')"

section \<open>Loobeans and shape tests\<close>

abbreviation (input) u2_yes :: nat where "u2_yes \<equiv> 0"
abbreviation (input) u2_no :: nat where "u2_no \<equiv> 1"
abbreviation (input) u2_nul :: noun where "u2_nul \<equiv> Atom 0"

definition u2_say :: "bool \<Rightarrow> noun" where
  "u2_say x = Atom (if x then u2_yes else u2_no)"

primrec u2_dust :: "noun \<Rightarrow> bool" where
  "u2_dust (Atom _) = False"
| "u2_dust (Cell _ _) = True"

abbreviation u2_stud :: "noun \<Rightarrow> bool" where
  "u2_stud a \<equiv> \<not> u2_dust a"

lemma u2_say_eq [simp]: "u2_say x = u2_say y \<longleftrightarrow> x = y"
  by (simp add: u2_say_def)

lemma u2_say_yes [simp]: "u2_say x = Atom 0 \<longleftrightarrow> x"
  by (simp add: u2_say_def)

lemma u2_dust_iff: "u2_dust a \<longleftrightarrow> (\<exists>h t. a = Cell h t)"
  by (cases a) simp_all

section \<open>Hoon lists and units\<close>

primrec noun_list :: "noun list \<Rightarrow> noun" where
  "noun_list [] = Atom 0"
| "noun_list (x # xs) = Cell x (noun_list xs)"

fun list_noun :: "noun \<Rightarrow> noun list option" where
  "list_noun (Atom a) = (if a = 0 then Some [] else None)"
| "list_noun (Cell h t) = map_option (Cons h) (list_noun t)"

lemma list_noun_noun_list [simp]: "list_noun (noun_list xs) = Some xs"
  by (induction xs) simp_all

lemma list_noun_Some [simp]: "list_noun a = Some xs \<longleftrightarrow> a = noun_list xs"
proof
  show "list_noun a = Some xs \<Longrightarrow> a = noun_list xs"
    by (induction a arbitrary: xs rule: list_noun.induct) (auto split: if_splits)
qed simp

lemma noun_list_inject [simp]: "noun_list xs = noun_list ys \<longleftrightarrow> xs = ys"
  by (metis list_noun_noun_list option.inject)

end
