(* ===== verification/Atoms.thy ===== *)
theory Atoms
  imports Noun
begin

text \<open>
  Atoms as \<^verbatim>\<open>f/loom.c\<close> reads them: the test for a direct atom, the accessors of an
  indirect atom's word buffer, measuring (\<^verbatim>\<open>u2_met\<close>), single bits, bytes, words and
  double words, and \<^verbatim>\<open>u2_chop\<close>, the copy routine every bloq jet is built on.

  An atom is a natural number; its word buffer is \<open>atom_words\<close>, and an atom below
  \<open>2\<^sup>3\<^sup>1\<close> is direct and has no buffer. Loop counters and sizes are 32-bit words as in the
  code; shift amounts (\<^verbatim>\<open>c3_g\<close>, \<^verbatim>\<open>c3_y\<close>), all below 32, are natural numbers. Reading past
  the end of a buffer or writing past the end of a slab is \<open>Wild\<close>.
\<close>

section \<open>Representation\<close>

definition u2_fly_is_cat :: "nat \<Rightarrow> bool" where
  "u2_fly_is_cat a \<longleftrightarrow> a < 2 ^ 31"

definition u2_pug_len :: "nat \<Rightarrow> c3_w" where
  "u2_pug_len a = of_nat (length (atom_words a))"

definition u2_pug_buf :: "nat \<Rightarrow> c3_w \<Rightarrow> c3_w res" where
  "u2_pug_buf a i =
     (if unat i < length (atom_words a) then Inr (atom_words a ! unat i) else Inl Wild)"

definition u2_atom_word :: "nat \<Rightarrow> c3_w \<Rightarrow> c3_w res" where
  "u2_atom_word a i =
     (if u2_fly_is_cat a then Inr (if i \<noteq> 0 then 0 else of_nat a) else u2_pug_buf a i)"

text \<open>
  Atoms the loom can hold: fewer than \<open>2\<^sup>2\<^sup>7\<close> words, the limit \<^verbatim>\<open>u2_rl_words\<close> and
  \<^verbatim>\<open>u2_rl_bytes\<close> impose (and \<^verbatim>\<open>u2_mp\<close> asserts), so that a bit position fits in a word.
\<close>

definition atom_fits :: "nat \<Rightarrow> bool" where
  "atom_fits a \<longleftrightarrow> length (atom_words a) < 2 ^ 27"

lemma cat_fits: "u2_fly_is_cat a \<Longrightarrow> atom_fits a"
proof -
  assume "u2_fly_is_cat a"
  then have "nbits a \<le> 31" by (simp add: u2_fly_is_cat_def nbits_le_iff)
  then have "(nbits a + 31) div 32 \<le> 1" by linarith
  then show ?thesis by (simp add: atom_fits_def length_atom_words)
qed

lemma atom_fits_nbits: "atom_fits a \<Longrightarrow> nbits a \<le> 2 ^ 32 - 32"
  by (simp add: atom_fits_def length_atom_words)

lemma atom_fits_mono: "a \<le> b \<Longrightarrow> atom_fits b \<Longrightarrow> atom_fits a"
  using nbits_mono [of a b] div_le_mono [of "nbits a + 31" "nbits b + 31" 32]
  by (simp add: atom_fits_def length_atom_words)

section \<open>Measuring\<close>

definition builtin_clz :: "c3_w \<Rightarrow> nat" where
  "builtin_clz w = length (takeWhile Not (map (bit w) (rev [0..<32])))"

definition c3_bits_word :: "c3_w \<Rightarrow> nat" where
  "c3_bits_word w = (if w \<noteq> 0 then 32 - builtin_clz w else 0)"

definition u2_met :: "nat \<Rightarrow> nat \<Rightarrow> c3_w" where
  "u2_met a_y b =
     (if b = 0 then 0
      else
        let gal_w = (if u2_fly_is_cat b then 0 else u2_pug_len b - 1);
            daz_w = (if u2_fly_is_cat b then of_nat b else atom_words b ! unat gal_w)
        in if a_y < 3 then
             let col_w = of_nat (c3_bits_word daz_w);
                 bif_w = col_w + push_bit 5 gal_w
             in drop_bit a_y (bif_w + (push_bit a_y 1 - 1))
           else if a_y = 3 then
             push_bit 2 gal_w +
             (if drop_bit 24 daz_w \<noteq> 0 then 4
              else if drop_bit 16 daz_w \<noteq> 0 then 3
              else if drop_bit 8 daz_w \<noteq> 0 then 2 else 1)
           else if a_y = 4 then
             push_bit 1 gal_w + (if drop_bit 16 daz_w \<noteq> 0 then 2 else 1)
           else
             let gow_y = a_y - 5
             in drop_bit gow_y ((gal_w + 1) + (push_bit gow_y 1 - 1)))"

text \<open>The reference: the number of bloqs of \<open>2\<^sup>a\<close> bits, rounded up.\<close>

definition met :: "nat \<Rightarrow> nat \<Rightarrow> nat" where
  "met a b = (nbits b + (2 ^ a - 1)) div 2 ^ a"

lemma builtin_clz_nbits:
  assumes "w \<noteq> 0"
  shows "builtin_clz w = 32 - nbits (unat w)"
proof -
  let ?n = "nbits (unat w)"
  have n: "0 < ?n" "?n \<le> 32" using assms by (simp_all add: nbits_unat_pos nbits_unat_le)
  have top: "bit w (?n - 1)"
    using bit_top [of "unat w"] assms by (simp add: unat_gt_0 bit_simps)
  have zero: "\<not> bit w i" if "?n \<le> i" for i
    using not_bit_ge_nbits [OF that] bit_imp_le_length [of w i] by (auto simp: bit_simps)
  have "rev [0..<32] = rev [?n..<32] @ (?n - 1) # rev [0..<?n - 1]"
  proof -
    have "[0..<32] = [0..<?n - 1] @ [?n - 1..<32]"
      using n upt_add_eq_append [of 0 "?n - 1" "32 - (?n - 1)"] by simp
    also have "[?n - 1..<32] = (?n - 1) # [?n..<32]"
      using n upt_conv_Cons [of "?n - 1" 32] by simp
    finally show ?thesis by simp
  qed
  then show ?thesis
    using top zero by (simp add: builtin_clz_def takeWhile_append takeWhile_eq_all_conv [THEN iffD2])
qed

lemma c3_bits_word_nbits [simp]: "c3_bits_word w = nbits (unat w)"
  using nbits_unat_le [of w] by (simp add: c3_bits_word_def builtin_clz_nbits)

lemma met_0 [simp]: "met a 0 = 0"
  by (simp add: met_def)

lemma met_le_iff: "met a b \<le> k \<longleftrightarrow> b < 2 ^ (2 ^ a * k)"
proof -
  obtain m where m: "(2::nat) ^ a = Suc m" by (metis nat.exhaust power_not_zero zero_neq_numeral)
  have "met a b \<le> k \<longleftrightarrow> (nbits b + m) div Suc m < Suc k"
    unfolding met_def m by auto
  also have "\<dots> \<longleftrightarrow> nbits b + m < Suc k * Suc m"
    by (rule div_less_iff_less_mult) simp
  also have "\<dots> \<longleftrightarrow> nbits b \<le> Suc m * k"
    by (auto simp: algebra_simps)
  finally show ?thesis by (simp add: nbits_le_iff m)
qed

lemma met_ceil:
  assumes "0 < n" "(n - 1) * 2 ^ a < nbits b" "nbits b \<le> n * 2 ^ a"
  shows "met a b = n"
proof (rule antisym)
  show "met a b \<le> n" using assms(3) by (simp add: met_le_iff nbits_le_iff [symmetric] mult.commute)
  show "n \<le> met a b"
    using assms(1,2) met_le_iff [of a b "n - 1"] nbits_le_iff [of b "2 ^ a * (n - 1)"]
    by (simp add: mult.commute)
qed

lemma met_bits: "nbits b \<le> met a b * 2 ^ a"
  using met_le_iff [of a b "met a b"] by (simp add: nbits_le_iff mult.commute)

lemma met_eq_0 [simp]: "met a b = 0 \<longleftrightarrow> b = 0"
  using met_le_iff [of a b 0] by auto

lemma met_0_nbits [simp]: "met 0 b = nbits b"
  by (simp add: met_def)

lemma met_5: "met 5 b = length (atom_words b)"
  by (simp add: met_def length_atom_words)

lemma met_mono: "b \<le> c \<Longrightarrow> met a b \<le> met a c"
  unfolding met_def by (intro div_le_mono add_le_mono1 nbits_mono)

text \<open>Measuring in two steps: first in words, then in bloqs of words.\<close>

lemma met_words: "met (5 + g) b = (length (atom_words b) + (2 ^ g - 1)) div 2 ^ g"
proof (rule order_antisym)
  let ?l = "length (atom_words b)"
  obtain m where m: "(2::nat) ^ g = Suc m" by (metis nat.exhaust power_not_zero zero_neq_numeral)
  have le: "met (5 + g) b \<le> k \<longleftrightarrow> (?l + (2 ^ g - 1)) div 2 ^ g \<le> k" for k
  proof -
    have "met (5 + g) b \<le> k \<longleftrightarrow> met 5 b \<le> 2 ^ g * k"
      by (simp add: met_le_iff power_add mult.assoc)
    also have "\<dots> \<longleftrightarrow> ?l + m < Suc k * Suc m"
      by (auto simp: met_5 m algebra_simps)
    also have "\<dots> \<longleftrightarrow> (?l + m) div Suc m < Suc k"
      by (rule div_less_iff_less_mult [symmetric]) simp
    finally show ?thesis by (auto simp: m)
  qed
  show "met (5 + g) b \<le> (?l + (2 ^ g - 1)) div 2 ^ g" using le by blast
  show "(?l + (2 ^ g - 1)) div 2 ^ g \<le> met (5 + g) b" using le by blast
qed

text \<open>The top word of an atom and the words below it, as \<^verbatim>\<open>u2_met\<close> takes them.\<close>

lemma gal_daz:
  assumes "0 < b" "atom_fits b"
  defines "gal_w \<equiv> if u2_fly_is_cat b then 0 else u2_pug_len b - 1"
  defines "daz_w \<equiv> if u2_fly_is_cat b then of_nat b else atom_words b ! unat gal_w"
  shows "unat gal_w = length (atom_words b) - 1"
    and "daz_w = last (atom_words b)"
    and "nbits b = 32 * (length (atom_words b) - 1) + nbits (unat daz_w)"
proof -
  have ne: "atom_words b \<noteq> []" "last (atom_words b) \<noteq> 0" using assms(1) by simp_all
  have len: "length (atom_words b) < 2 ^ 27" using assms(2) by (simp add: atom_fits_def)
  have cat: "atom_words b = [of_nat b]" if "u2_fly_is_cat b"
    using that assms(1) by (simp add: u2_fly_is_cat_def atom_words_pos)
  have pug: "unat (u2_pug_len b - 1) = length (atom_words b) - 1"
    using len ne by (simp add: u2_pug_len_def unat_sub unat_of_nat_c3_w word_le_nat_alt Suc_le_eq)
  show gal: "unat gal_w = length (atom_words b) - 1"
    using cat pug by (auto simp: gal_w_def)
  show daz: "daz_w = last (atom_words b)"
    using cat gal ne by (auto simp: daz_w_def last_conv_nth)
  show "nbits b = 32 * (length (atom_words b) - 1) + nbits (unat daz_w)"
    using nbits_words_atom [OF ne] by (simp add: daz)
qed

lemma drop_bit_eq_0_c3_w: "drop_bit k (w :: c3_w) = 0 \<longleftrightarrow> nbits (unat w) \<le> k"
  by (simp add: unat_eq_zero [symmetric] unat_drop_c3_w div_eq_0_iff nbits_le_iff)

lemma u2_met_small:
  assumes "0 < b" "atom_fits b" "a < 3"
  shows "unat (u2_met a b) = met a b"
proof -
  let ?l = "length (atom_words b)"
  define gal where "gal = (if u2_fly_is_cat b then 0 else u2_pug_len b - 1)"
  define daz :: c3_w where "daz = (if u2_fly_is_cat b then of_nat b else atom_words b ! unat gal)"
  note g = gal_daz [OF assms(1,2), folded gal_def, folded daz_def]
  have l: "?l < 2 ^ 27" using assms(2) by (simp add: atom_fits_def)
  have push: "unat (push_bit 5 gal) = 32 * (?l - 1)"
    using g(1) l by (simp add: unat_push_c3_w)
  have col: "unat (of_nat (nbits (unat daz)) :: c3_w) = nbits (unat daz)"
    using nbits_unat_le [of daz] by (intro unat_of_nat_c3_w) simp
  have bif: "unat (of_nat (nbits (unat daz)) + push_bit 5 gal :: c3_w) = nbits b"
    using atom_fits_nbits [OF assms(2)] g(3) col push by (subst unat_add_c3_w) simp_all
  have "a = 0 \<or> a = 1 \<or> a = 2" using assms(3) by linarith
  then have mask: "(2 :: nat) ^ a - 1 < 32" by auto
  have "unat (of_nat (nbits (unat daz)) + push_bit 5 gal + (push_bit a 1 - 1) :: c3_w) =
      nbits b + (2 ^ a - 1)"
    using atom_fits_nbits [OF assms(2)] bif mask assms(3)
    by (subst unat_add_c3_w) (simp_all add: unat_mask_c3_w)
  then show ?thesis
    using assms by (simp add: u2_met_def Let_def gal_def [symmetric] daz_def [symmetric]
        unat_drop_c3_w met_def)
qed

lemma u2_met_3:
  assumes "0 < b" "atom_fits b"
  shows "unat (u2_met 3 b) = met 3 b"
proof -
  let ?l = "length (atom_words b)"
  define gal where "gal = (if u2_fly_is_cat b then 0 else u2_pug_len b - 1)"
  define daz :: c3_w where "daz = (if u2_fly_is_cat b then of_nat b else atom_words b ! unat gal)"
  note g = gal_daz [OF assms, folded gal_def, folded daz_def]
  define k :: nat where
    "k = (if 24 < nbits (unat daz) then 4 else if 16 < nbits (unat daz) then 3
          else if 8 < nbits (unat daz) then 2 else 1)"
  have l: "?l < 2 ^ 27" "0 < ?l" using assms by (simp_all add: atom_fits_def)
  have n: "0 < nbits (unat daz)" "nbits (unat daz) \<le> 32"
    using g(2) assms(1) by (simp_all add: nbits_unat_pos nbits_unat_le)
  have k: "0 < k" "k \<le> 4" "(k - 1) * 8 < nbits (unat daz)" "nbits (unat daz) \<le> k * 8"
    using n by (auto simp: k_def)
  have "unat (u2_met 3 b) = unat (push_bit 2 gal + of_nat k)"
    using assms(1) by (simp add: u2_met_def Let_def gal_def [symmetric] daz_def [symmetric]
        drop_bit_eq_0_c3_w not_le k_def)
  also have "\<dots> = 4 * (?l - 1) + k"
    using g(1) l k by (subst unat_add_c3_w) (simp_all add: unat_push_c3_w unat_of_nat_c3_w)
  also have "\<dots> = met 3 b"
    using g(3) k l by (intro met_ceil [symmetric]) simp_all
  finally show ?thesis .
qed

lemma u2_met_4:
  assumes "0 < b" "atom_fits b"
  shows "unat (u2_met 4 b) = met 4 b"
proof -
  let ?l = "length (atom_words b)"
  define gal where "gal = (if u2_fly_is_cat b then 0 else u2_pug_len b - 1)"
  define daz :: c3_w where "daz = (if u2_fly_is_cat b then of_nat b else atom_words b ! unat gal)"
  note g = gal_daz [OF assms, folded gal_def, folded daz_def]
  define k :: nat where "k = (if 16 < nbits (unat daz) then 2 else 1)"
  have l: "?l < 2 ^ 27" "0 < ?l" using assms by (simp_all add: atom_fits_def)
  have n: "0 < nbits (unat daz)" "nbits (unat daz) \<le> 32"
    using g(2) assms(1) by (simp_all add: nbits_unat_pos nbits_unat_le)
  have k: "0 < k" "k \<le> 2" "(k - 1) * 16 < nbits (unat daz)" "nbits (unat daz) \<le> k * 16"
    using n by (auto simp: k_def)
  have "unat (u2_met 4 b) = unat (push_bit 1 gal + of_nat k)"
    using assms(1) by (simp add: u2_met_def Let_def gal_def [symmetric] daz_def [symmetric]
        drop_bit_eq_0_c3_w not_le k_def)
  also have "\<dots> = 2 * (?l - 1) + k"
    using g(1) l k unat_push_c3_w [of gal 1]
    by (subst unat_add_c3_w) (simp_all add: unat_of_nat_c3_w)
  also have "\<dots> = met 4 b"
    using g(3) k l by (intro met_ceil [symmetric]) simp_all
  finally show ?thesis .
qed

lemma u2_met_words:
  assumes "0 < b" "atom_fits b" "5 \<le> a" "a < 32"
  shows "unat (u2_met a b) = met a b"
proof -
  let ?l = "length (atom_words b)"
  define gal where "gal = (if u2_fly_is_cat b then 0 else u2_pug_len b - 1)"
  have l: "?l < 2 ^ 27" "0 < ?l" using assms by (simp_all add: atom_fits_def)
  have g: "unat gal = ?l - 1" using gal_daz(1) [OF assms(1,2)] by (simp add: gal_def)
  have p: "(2 :: nat) ^ (a - 5) \<le> 2 ^ 26" using assms(4) by (intro power_increasing) simp_all
  have "unat (gal + 1) = ?l" using g l by (subst unat_add_c3_w) simp_all
  then have "unat (gal + 1 + (push_bit (a - 5) 1 - 1)) = ?l + (2 ^ (a - 5) - 1)"
    using l p assms(4) by (subst unat_add_c3_w) (simp_all add: unat_mask_c3_w)
  moreover have "met a b = (?l + (2 ^ (a - 5) - 1)) div 2 ^ (a - 5)"
    using met_words [of "a - 5" b] assms(3) by simp
  moreover have "u2_met a b = drop_bit (a - 5) (gal + 1 + (push_bit (a - 5) 1 - 1))"
    using assms by (simp add: u2_met_def Let_def gal_def [symmetric])
  ultimately show ?thesis by (simp add: unat_drop_c3_w)
qed

lemma u2_met_correct:
  assumes "atom_fits b" "a < 32"
  shows "unat (u2_met a b) = met a b"
proof (cases "b = 0")
  case True
  then show ?thesis by (simp add: u2_met_def)
next
  case False
  consider "a < 3" | "a = 3" | "a = 4" | "5 \<le> a" by linarith
  then show ?thesis
    using False assms by cases (simp_all add: u2_met_small u2_met_3 u2_met_4 u2_met_words)
qed

section \<open>Bits, bytes, words\<close>

definition u2_bit :: "c3_w \<Rightarrow> nat \<Rightarrow> c3_w" where
  "u2_bit a_w b =
     (if u2_fly_is_cat b then
        (if a_w \<ge> 31 then 0 else 1 AND drop_bit (unat a_w) (of_nat b))
      else
        let vut_y = a_w AND 31; pix_w = drop_bit 5 a_w
        in if pix_w \<ge> u2_pug_len b then 0
           else 1 AND drop_bit (unat vut_y) (atom_words b ! unat pix_w))"

definition u2_byte :: "c3_w \<Rightarrow> nat \<Rightarrow> c3_y" where
  "u2_byte a_w b =
     (if u2_fly_is_cat b then
        (if a_w > 3 then 0 else ucast (255 AND drop_bit (unat (push_bit 3 a_w)) (of_nat b :: c3_w)))
      else
        let vut_y = a_w AND 3; pix_w = drop_bit 2 a_w
        in if pix_w \<ge> u2_pug_len b then 0
           else ucast (255 AND drop_bit (unat (push_bit 3 vut_y)) (atom_words b ! unat pix_w)))"

primrec u2_bytes_loop :: "nat \<Rightarrow> c3_w \<Rightarrow> nat \<Rightarrow> c3_y list" where
  "u2_bytes_loop 0 a_w d = []"
| "u2_bytes_loop (Suc n) a_w d = u2_byte a_w d # u2_bytes_loop n (a_w + 1) d"

definition u2_bytes :: "c3_w \<Rightarrow> c3_w \<Rightarrow> nat \<Rightarrow> c3_y list" where
  "u2_bytes a_w b_w d = u2_bytes_loop (unat b_w) a_w d"

definition u2_word :: "c3_w \<Rightarrow> nat \<Rightarrow> c3_w" where
  "u2_word a_w b =
     (if u2_fly_is_cat b then (if a_w > 0 then 0 else of_nat b)
      else if a_w \<ge> u2_pug_len b then 0 else atom_words b ! unat a_w)"

definition u2_chub :: "c3_w \<Rightarrow> nat \<Rightarrow> c3_d" where
  "u2_chub a_w b =
     (let wlo_w = u2_word (a_w * 2) b; whi_w = u2_word (1 + a_w * 2) b
      in push_bit 32 (ucast whi_w) OR ucast wlo_w)"

primrec u2_words_loop :: "nat \<Rightarrow> c3_w \<Rightarrow> nat \<Rightarrow> c3_w list" where
  "u2_words_loop 0 a_w d = []"
| "u2_words_loop (Suc n) a_w d = u2_word a_w d # u2_words_loop n (a_w + 1) d"

definition u2_words :: "c3_w \<Rightarrow> c3_w \<Rightarrow> nat \<Rightarrow> c3_w list" where
  "u2_words a_w b_w d = u2_words_loop (unat b_w) a_w d"

lemma atom_words_cat: "u2_fly_is_cat b \<Longrightarrow> atom_words b = (if b = 0 then [] else [of_nat b])"
  by (auto simp: u2_fly_is_cat_def atom_words_pos)

lemma unat_pug_len: "atom_fits b \<Longrightarrow> unat (u2_pug_len b) = length (atom_words b)"
  by (simp add: atom_fits_def u2_pug_len_def unat_of_nat_c3_w)

lemma bit_atom_words [bits_simps]:
  "i < length (atom_words b) \<Longrightarrow> bit (atom_words b ! i) j \<longleftrightarrow> j < 32 \<and> bit b (32 * i + j)"
  using bit_words_atom [of "atom_words b" "32 * i + j"] bit_imp_le_length [of "atom_words b ! i" j]
  by auto

lemma not_bit_past_words: "length (atom_words b) \<le> i div 32 \<Longrightarrow> \<not> bit b i"
  using bit_words_atom [of "atom_words b" i] by simp

lemma u2_word_correct:
  assumes "atom_fits b"
  shows "u2_word a_w b = of_nat (b div 2 ^ (32 * unat a_w))"
proof (cases "u2_fly_is_cat b")
  case True
  have "b < 2 ^ (32 * unat a_w)" if "0 < a_w"
  proof -
    have "32 \<le> 32 * unat a_w" using that by (simp add: word_less_nat_alt)
    then have "(2::nat) ^ 32 \<le> 2 ^ (32 * unat a_w)" by (rule power_increasing) simp
    then show ?thesis using True by (simp add: u2_fly_is_cat_def)
  qed
  then show ?thesis
    using True by (cases "a_w = 0") (simp_all add: u2_word_def word_gt_0)
next
  case False
  show ?thesis
  proof (cases "unat a_w < length (atom_words b)")
    case in_range: True
    then show ?thesis
      using False assms nth_atom_words [OF in_range]
      by (simp add: u2_word_def word_le_nat_alt unat_pug_len)
  next
    case out: False
    then have "(2::nat) ^ (32 * length (atom_words b)) \<le> 2 ^ (32 * unat a_w)"
      by (intro power_increasing) simp_all
    then have "b < 2 ^ (32 * unat a_w)"
      using words_atom_less [of "atom_words b"] unfolding words_atom_atom_words
      by (rule less_le_trans [rotated])
    then show ?thesis
      using out False assms by (simp add: u2_word_def word_le_nat_alt unat_pug_len)
  qed
qed

lemma bit_u2_word:
  assumes "atom_fits b" "j < 32"
  shows "bit (u2_word a_w b) j \<longleftrightarrow> bit b (32 * unat a_w + j)"
  using assms by (simp add: u2_word_correct bit_simps drop_bit_eq_div [symmetric] add.commute)

lemma unat_and_31: "unat (a AND 31 :: c3_w) = unat a mod 32"
  using take_bit_eq_mask [of 5 "unat a"]
  by (simp add: unsigned_and_eq take_bit_eq_mod mask_eq_exp_minus_1)

lemma unat_and_3: "unat (a AND 3 :: c3_w) = unat a mod 4"
  using take_bit_eq_mask [of 2 "unat a"]
  by (simp add: unsigned_and_eq take_bit_eq_mod mask_eq_exp_minus_1)

lemma one_and_drop_bit: "1 AND drop_bit k (w :: c3_w) = of_bool (bit w k)"
  by (simp add: one_and_eq bit_iff_odd_drop_bit mod_2_eq_odd)

lemma u2_bit_correct:
  assumes "atom_fits b"
  shows "u2_bit a_w b = of_bool (bit b (unat a_w))"
proof (cases "u2_fly_is_cat b")
  case True
  then have "nbits b \<le> 31" by (simp add: u2_fly_is_cat_def nbits_le_iff)
  then have "\<not> bit b (unat a_w)" if "31 \<le> unat a_w" using that by (simp add: not_bit_ge_nbits)
  with True show ?thesis
    by (auto simp: u2_bit_def one_and_drop_bit word_le_nat_alt bit_simps)
next
  case False
  have d: "32 * (unat a_w div 32) + unat a_w mod 32 = unat a_w" by simp
  show ?thesis
  proof (cases "unat a_w div 32 < length (atom_words b)")
    case True
    then show ?thesis
      using False assms d bit_atom_words [OF True, of "unat a_w mod 32"]
      by (simp add: u2_bit_def one_and_drop_bit word_le_nat_alt unat_drop_c3_w unat_pug_len unat_and_31)
  next
    case out: False
    then show ?thesis
      using False assms not_bit_past_words [of b "unat a_w"]
      by (simp add: u2_bit_def word_le_nat_alt unat_drop_c3_w unat_pug_len)
  qed
qed

text \<open>The byte read from a word at a byte offset below 4.\<close>

lemma byte_of_word:
  assumes "k < 4"
  shows "bit (ucast (255 AND drop_bit (8 * k) (w :: c3_w)) :: c3_y) j \<longleftrightarrow> j < 8 \<and> bit w (8 * k + j)"
proof -
  have "bit (255 :: c3_w) j \<longleftrightarrow> j < 8" for j
    using bit_mask_iff [of 8 j, where 'a = c3_w] by (auto simp: mask_eq_exp_minus_1)
  then show ?thesis by (auto simp: bit_simps)
qed

lemma bit_u2_byte:
  assumes "atom_fits b"
  shows "bit (u2_byte a_w b) j \<longleftrightarrow> j < 8 \<and> bit b (8 * unat a_w + j)"
proof (cases "u2_fly_is_cat b")
  case True
  show ?thesis
  proof (cases "unat a_w \<le> 3")
    case le: True
    then have "unat (push_bit 3 a_w) = 8 * unat a_w"
      using unat_push_c3_w [of a_w 3] by simp
    then show ?thesis
      using True le byte_of_word [of "unat a_w" "of_nat b" j]
      by (auto simp: u2_byte_def word_less_nat_alt bit_simps)
  next
    case gt: False
    have "nbits b \<le> 31" using True by (simp add: u2_fly_is_cat_def nbits_le_iff)
    then have "\<not> bit b (8 * unat a_w + j)" using gt by (intro not_bit_ge_nbits) linarith
    with gt True show ?thesis by (simp add: u2_byte_def word_less_nat_alt)
  qed
next
  case False
  let ?p = "unat a_w div 4" and ?v = "unat a_w mod 4"
  have d: "32 * ?p + (8 * ?v + j) = 8 * unat a_w + j" by presburger
  have v: "unat (push_bit 3 (a_w AND 3)) = 8 * ?v"
    using unat_push_c3_w [of "a_w AND 3" 3] by (simp add: unat_and_3)
  show ?thesis
  proof (cases "?p < length (atom_words b)")
    case True
    then have "u2_byte a_w b = ucast (255 AND drop_bit (8 * ?v) (atom_words b ! ?p))"
      using False assms v
      by (simp add: u2_byte_def Let_def word_le_nat_alt unat_drop_c3_w unat_pug_len
          del: push_bit_and)
    moreover have "8 * ?v + j < 32" if "j < 8" using that by linarith
    ultimately show ?thesis
      using d byte_of_word [of ?v "atom_words b ! ?p" j] bit_atom_words [OF True, of "8 * ?v + j"]
      by (metis mod_less_divisor zero_less_numeral)
  next
    case out: False
    have "\<not> bit b (8 * unat a_w + j)" if "j < 8"
      using out that by (intro not_bit_past_words) linarith
    then show ?thesis
      using False out assms by (auto simp: u2_byte_def word_le_nat_alt unat_drop_c3_w unat_pug_len)
  qed
qed

lemma u2_byte_correct:
  assumes "atom_fits b"
  shows "unat (u2_byte a_w b) = b div 2 ^ (8 * unat a_w) mod 256"
proof -
  have "unat (u2_byte a_w b) = take_bit 8 (drop_bit (8 * unat a_w) b)"
    by (rule bit_eqI) (auto simp: bit_u2_byte [OF assms] bit_simps add.commute)
  then show ?thesis by (simp add: take_bit_eq_mod drop_bit_eq_div)
qed

lemma u2_chub_correct:
  assumes "atom_fits b" "unat a_w < 2 ^ 31"
  shows "u2_chub a_w b = of_nat (b div 2 ^ (64 * unat a_w))"
proof (rule bit_word_eqI)
  fix j :: nat
  assume "j < LENGTH(64)"
  then have j: "j < 64" by simp
  have lo: "unat (a_w * 2) = 2 * unat a_w"
    using assms(2) unat_push_c3_w [of a_w 1] by (simp add: push_bit_eq_mult)
  have hi: "unat (1 + a_w * 2) = 1 + 2 * unat a_w"
    using assms(2) lo by (subst unat_add_c3_w) simp_all
  have "bit (u2_chub a_w b) j \<longleftrightarrow> bit b (64 * unat a_w + j)"
  proof (cases "j < 32")
    case True
    then show ?thesis using bit_u2_word [OF assms(1) True, of "a_w * 2"]
      by (simp add: u2_chub_def Let_def bit_simps lo)
  next
    case False
    then show ?thesis
      using j bit_u2_word [OF assms(1), of "j - 32" "1 + a_w * 2"]
        bit_imp_le_length [of "u2_word (a_w * 2) b" j]
      by (auto simp: u2_chub_def Let_def bit_simps hi)
  qed
  then show "bit (u2_chub a_w b) j = bit (of_nat (b div 2 ^ (64 * unat a_w)) :: c3_d) j"
    using j by (simp add: bit_simps drop_bit_eq_div [symmetric] add.commute)
qed

section \<open>Chopping\<close>

text \<open>
  \<^verbatim>\<open>u2_chop\<close> XORs a span of bloqs of an atom into a slab. Below word size it goes bloq by
  bloq (\<open>chop_bits\<close>, the count of remaining bloqs first); from word size on it goes word
  by word, \<open>chop_span\<close> being the inner loop over the words of a bloq and \<open>chop_bloqs\<close>
  the outer loop.
\<close>

definition chop_src :: "nat \<Rightarrow> c3_w \<Rightarrow> c3_w \<Rightarrow> c3_w res" where
  "chop_src src len_w i = (if i \<ge> len_w then Inr 0 else u2_atom_word src i)"

definition slab_xor :: "c3_w list \<Rightarrow> c3_w \<Rightarrow> c3_w \<Rightarrow> c3_w list res" where
  "slab_xor dst i x =
     (if unat i < length dst then Inr (dst[unat i := dst ! unat i XOR x]) else Inl Wild)"

primrec chop_bits ::
  "nat \<Rightarrow> c3_w \<Rightarrow> c3_w \<Rightarrow> c3_w \<Rightarrow> c3_w \<Rightarrow> c3_w \<Rightarrow> nat \<Rightarrow> c3_w list \<Rightarrow> c3_w list res" where
  "chop_bits 0 san_w mek_w baf_w bat_w len_w src dst = Inr dst"
| "chop_bits (Suc n) san_w mek_w baf_w bat_w len_w src dst =
     (let waf_w = drop_bit 5 baf_w; raf_g = baf_w AND 31;
          wat_w = drop_bit 5 bat_w; rat_g = bat_w AND 31
      in rbind (chop_src src len_w waf_w) (\<lambda>hop_w.
           let hop_w = drop_bit (unat raf_g) hop_w AND mek_w
           in rbind (slab_xor dst wat_w (push_bit (unat rat_g) hop_w)) (\<lambda>dst.
                chop_bits n san_w mek_w (baf_w + san_w) (bat_w + san_w) len_w src dst)))"

primrec chop_span ::
  "nat \<Rightarrow> c3_w \<Rightarrow> c3_w \<Rightarrow> c3_w \<Rightarrow> c3_w \<Rightarrow> nat \<Rightarrow> c3_w list \<Rightarrow> c3_w list res" where
  "chop_span 0 j_w wuf_w wut_w len_w src dst = Inr dst"
| "chop_span (Suc n) j_w wuf_w wut_w len_w src dst =
     rbind (chop_src src len_w (wuf_w + j_w)) (\<lambda>x.
     rbind (slab_xor dst (wut_w + j_w) x) (\<lambda>dst.
       chop_span n (j_w + 1) wuf_w wut_w len_w src dst))"

primrec chop_bloqs ::
  "nat \<Rightarrow> c3_w \<Rightarrow> nat \<Rightarrow> c3_w \<Rightarrow> c3_w \<Rightarrow> c3_w \<Rightarrow> nat \<Rightarrow> c3_w list \<Rightarrow> c3_w list res" where
  "chop_bloqs 0 i_w hut_g fum_w tou_w len_w src dst = Inr dst"
| "chop_bloqs (Suc n) i_w hut_g fum_w tou_w len_w src dst =
     (let wuf_w = push_bit hut_g (fum_w + i_w); wut_w = push_bit hut_g (tou_w + i_w)
      in rbind (chop_span (2 ^ hut_g) 0 wuf_w wut_w len_w src dst) (\<lambda>dst.
           chop_bloqs n (i_w + 1) hut_g fum_w tou_w len_w src dst))"

definition u2_chop ::
  "nat \<Rightarrow> c3_w \<Rightarrow> c3_w \<Rightarrow> c3_w \<Rightarrow> c3_w list \<Rightarrow> nat \<Rightarrow> c3_w list res" where
  "u2_chop met_g fum_w wid_w tou_w dst src =
     (let len_w = (if u2_fly_is_cat src then 1 else u2_pug_len src)
      in if met_g < 5 then
           let san_w = push_bit met_g 1;
               mek_w = push_bit (unat san_w) 1 - 1;
               baf_w = push_bit met_g fum_w;
               bat_w = push_bit met_g tou_w
           in chop_bits (unat wid_w) san_w mek_w baf_w bat_w len_w src dst
         else
           chop_bloqs (unat wid_w) 0 (met_g - 5) fum_w tou_w len_w src dst)"

lemma chop_src_word:
  assumes "atom_fits src"
  shows "chop_src src (if u2_fly_is_cat src then 1 else u2_pug_len src) i = Inr (u2_word i src)"
  using assms
  by (auto simp: chop_src_def u2_word_def u2_atom_word_def u2_pug_buf_def word_le_nat_alt
      unat_pug_len word_less_nat_alt unat_eq_zero Suc_le_eq unat_gt_0)

text \<open>XORing a short field into one word of a slab.\<close>

lemma slab_xor_field:
  assumes "unat i < length dst" "r + n \<le> 32" "unat x < 2 ^ n"
  shows "\<exists>dst'. slab_xor dst i (push_bit r x) = Inr dst' \<and> length dst' = length dst \<and>
    words_atom dst' = words_atom dst XOR push_bit (32 * unat i + r) (unat x)"
proof -
  let ?d = "dst[unat i := dst ! unat i XOR push_bit r x]"
  have x: "\<not> bit x j" if "n \<le> j" for j
    using not_bit_ge_nbits [of "unat x" j] bit_imp_le_length [of x j] that assms(3)
    by (auto simp: bit_simps nbits_le_iff [symmetric])
  have "words_atom ?d = words_atom dst XOR push_bit (32 * unat i + r) (unat x)"
  proof (rule bit_eqI)
    fix k :: nat
    consider (same) "k div 32 = unat i" | (above) "unat i < k div 32" | (below) "k div 32 < unat i"
      by linarith
    then show "bit (words_atom ?d) k = bit (words_atom dst XOR push_bit (32 * unat i + r) (unat x)) k"
    proof cases
      case same
      have k: "k = 32 * unat i + k mod 32" using div_mult_mod_eq [of k 32] same by simp
      then have "32 * unat i + r \<le> k \<longleftrightarrow> r \<le> k mod 32" "k - (32 * unat i + r) = k mod 32 - r"
        by linarith+
      then show ?thesis
        using assms(1) same by (auto simp: bit_words_atom bit_simps)
    next
      case above
      then have "n \<le> k - (32 * unat i + r)" using assms(2) by linarith
      then show ?thesis using above x [of "k - (32 * unat i + r)"] by (auto simp: bit_words_atom bit_simps)
    next
      case below
      then have "\<not> 32 * unat i + r \<le> k" by linarith
      then show ?thesis using below by (auto simp: bit_words_atom bit_simps)
    qed
  qed
  then show ?thesis using assms(1) by (simp add: slab_xor_def)
qed

text \<open>Adjacent fields join.\<close>

lemma fields_join:
  "(d XOR push_bit t (take_bit m (drop_bit f s))) XOR
     push_bit (t + m) (take_bit n (drop_bit (f + m) s)) =
   (d XOR push_bit t (take_bit (m + n) (drop_bit f s)) :: nat)"
  by (rule bit_eqI) (auto simp: bit_simps algebra_simps)

lemma unat_hop:
  assumes "atom_fits src" "f < 2 ^ 32" "f mod 32 + k \<le> 32" "k < 32"
  shows "unat (drop_bit (f mod 32) (u2_word (of_nat (f div 32)) src) AND (2 ^ k - 1)) =
    take_bit k (drop_bit f src)"
proof (rule bit_eqI)
  fix j :: nat
  have w: "unat (of_nat (f div 32) :: c3_w) = f div 32"
    using assms(2) by (intro unat_of_nat_c3_w) simp
  have d: "32 * (f div 32) + (f mod 32 + j) = f + j" by simp
  have "bit (2 ^ k - 1 :: c3_w) j \<longleftrightarrow> j < k"
    using assms(4) bit_mask_iff [of k j, where 'a = c3_w] by (auto simp: mask_eq_exp_minus_1)
  then show "bit (unat (drop_bit (f mod 32) (u2_word (of_nat (f div 32)) src) AND (2 ^ k - 1))) j =
      bit (take_bit k (drop_bit f src)) j"
    using assms bit_u2_word [OF assms(1), of "f mod 32 + j" "of_nat (f div 32)"] w d
    by (auto simp: bit_simps ac_simps)
qed

text \<open>What a chop leaves in the slab, as a relation between the slabs before and after.\<close>

definition chopped :: "c3_w list \<Rightarrow> nat \<Rightarrow> nat \<Rightarrow> nat \<Rightarrow> nat \<Rightarrow> c3_w list \<Rightarrow> bool" where
  "chopped dst t m f src dst' \<longleftrightarrow>
     length dst' = length dst \<and>
     words_atom dst' = words_atom dst XOR push_bit t (take_bit m (drop_bit f src))"

lemma chopped_0 [simp]: "chopped dst t 0 f src dst"
  by (simp add: chopped_def)

lemma chopped_join:
  "chopped dst t m f src dst1 \<Longrightarrow> chopped dst1 (t + m) n (f + m) src dst2 \<Longrightarrow>
   chopped dst t (m + n) f src dst2"
  by (simp add: chopped_def fields_join)

lemma bloq_in_word:
  fixes x :: nat
  assumes "g < 5" "2 ^ g dvd x"
  shows "x mod 32 + 2 ^ g \<le> 32"
proof -
  let ?m = "2 ^ g :: nat"
  have "?m dvd 2 ^ 5" using assms(1) by (intro le_imp_power_dvd) simp
  then have m32: "?m dvd 32" by simp
  then have "?m dvd x mod 32" using assms(2) by (simp add: dvd_mod_iff)
  then obtain q where q: "x mod 32 = ?m * q" by (elim dvdE)
  obtain p where p: "32 = ?m * p" using m32 by (elim dvdE)
  have "?m * q < ?m * p" using q p mod_less_divisor [of 32 x] by simp
  then have "?m * Suc q \<le> ?m * p" by (intro mult_le_mono2) simp
  then show ?thesis using q p by simp
qed

lemma word_index:
  assumes "f < 2 ^ 32"
  shows "drop_bit 5 (of_nat f :: c3_w) = of_nat (f div 32)"
    and "unat (of_nat f AND 31 :: c3_w) = f mod 32"
    and "unat (of_nat (f div 32) :: c3_w) = f div 32"
proof -
  have f: "unat (of_nat f :: c3_w) = f" using assms by (rule unat_of_nat_c3_w)
  show d: "unat (of_nat (f div 32) :: c3_w) = f div 32" using assms by (intro unat_of_nat_c3_w) simp
  show "drop_bit 5 (of_nat f :: c3_w) = of_nat (f div 32)"
    using f d by (simp add: word_unat_eq_iff unat_drop_c3_w del: of_nat_div)
  show "unat (of_nat f AND 31 :: c3_w) = f mod 32" using f by (simp add: unat_and_31)
qed

abbreviation chop_len :: "nat \<Rightarrow> c3_w" where
  "chop_len src \<equiv> (if u2_fly_is_cat src then 1 else u2_pug_len src)"

lemma chop_bits_step:
  assumes "atom_fits src" "g < 5" "2 ^ g dvd f" "2 ^ g dvd t"
    and "f < 2 ^ 32" "t < 2 ^ 32" "t < 32 * length dst"
  shows "\<exists>dst1. chopped dst t (2 ^ g) f src dst1 \<and>
    chop_bits (Suc n) (2 ^ g) (2 ^ 2 ^ g - 1) (of_nat f) (of_nat t) (chop_len src) src dst =
    chop_bits n (2 ^ g) (2 ^ 2 ^ g - 1) (of_nat (f + 2 ^ g)) (of_nat (t + 2 ^ g)) (chop_len src) src dst1"
proof -
  let ?m = "2 ^ g :: nat"
  have m: "?m < 32" using assms(2) power_strict_increasing [of g 5 "2::nat"] by simp
  note f = word_index [OF assms(5)] and t = word_index [OF assms(6)]
  define hop where "hop = drop_bit (f mod 32) (u2_word (of_nat (f div 32)) src) AND (2 ^ ?m - 1)"
  have hop: "unat hop = take_bit ?m (drop_bit f src)"
    unfolding hop_def using assms(1,5) bloq_in_word [OF assms(2,3)] m by (rule unat_hop)
  have in_slab: "t div 32 < length dst" using assms(7) by (simp add: div_less_iff_less_mult mult.commute)
  obtain dst1 where x: "slab_xor dst (of_nat (t div 32)) (push_bit (t mod 32) hop) = Inr dst1"
    and d1: "length dst1 = length dst"
      "words_atom dst1 = words_atom dst XOR push_bit (32 * (t div 32) + t mod 32) (unat hop)"
    using slab_xor_field [of "of_nat (t div 32)" dst "t mod 32" ?m hop]
      bloq_in_word [OF assms(2,4)] hop in_slab t(3) by auto
  have "chopped dst t ?m f src dst1" using d1 hop by (simp add: chopped_def)
  moreover have "chop_bits (Suc n) (2 ^ g) (2 ^ ?m - 1) (of_nat f) (of_nat t) (chop_len src) src dst =
      chop_bits n (2 ^ g) (2 ^ ?m - 1) (of_nat (f + ?m)) (of_nat (t + ?m)) (chop_len src) src dst1"
    using x by (simp only: chop_bits.simps Let_def f t chop_src_word [OF assms(1)]
        rbind_Inr hop_def [symmetric]) simp
  ultimately show ?thesis by blast
qed

lemma chop_bits_correct:
  assumes "atom_fits src" "g < 5"
    and "2 ^ g dvd f" "2 ^ g dvd t"
    and "f + n * 2 ^ g \<le> 2 ^ 32" "t + n * 2 ^ g \<le> 2 ^ 32" "t + n * 2 ^ g \<le> 32 * length dst"
  shows "\<exists>dst'. chop_bits n (2 ^ g) (2 ^ 2 ^ g - 1) (of_nat f) (of_nat t) (chop_len src) src dst =
      Inr dst' \<and> chopped dst t (n * 2 ^ g) f src dst'"
  using assms(3-)
proof (induction n arbitrary: f t dst)
  case 0
  then show ?case by simp
next
  case (Suc n)
  have pos: "(0::nat) < 2 ^ g" by simp
  have b: "f < 2 ^ 32" "t < 2 ^ 32" "t < 32 * length dst"
    using Suc.prems(3-5) pos unfolding mult_Suc by linarith+
  obtain dst1 where c1: "chopped dst t (2 ^ g) f src dst1"
    and step: "chop_bits (Suc n) (2 ^ g) (2 ^ 2 ^ g - 1) (of_nat f) (of_nat t) (chop_len src) src dst =
      chop_bits n (2 ^ g) (2 ^ 2 ^ g - 1) (of_nat (f + 2 ^ g)) (of_nat (t + 2 ^ g)) (chop_len src) src dst1"
    using chop_bits_step [OF assms(1,2) Suc.prems(1,2) b] by blast
  obtain dst' where
    "chop_bits n (2 ^ g) (2 ^ 2 ^ g - 1) (of_nat (f + 2 ^ g)) (of_nat (t + 2 ^ g)) (chop_len src) src dst1
      = Inr dst'"
    and c2: "chopped dst1 (t + 2 ^ g) (n * 2 ^ g) (f + 2 ^ g) src dst'"
    using Suc.IH [of "f + 2 ^ g" "t + 2 ^ g" dst1] Suc.prems c1 by (auto simp: chopped_def)
  then show ?case using step chopped_join [OF c1 c2] by auto
qed

lemma chop_span_correct:
  assumes "atom_fits src"
    and "unat wuf + j + n \<le> 2 ^ 32" "unat wut + j + n \<le> 2 ^ 32" "unat wut + j + n \<le> length dst"
  shows "\<exists>dst'. chop_span n (of_nat j) wuf wut (chop_len src) src dst = Inr dst' \<and>
    chopped dst (32 * (unat wut + j)) (32 * n) (32 * (unat wuf + j)) src dst'"
  using assms(2-)
proof (induction n arbitrary: j dst)
  case 0
  then show ?case by simp
next
  case (Suc n)
  have j: "unat (of_nat j :: c3_w) = j" using Suc.prems(1) by (intro unat_of_nat_c3_w) linarith
  have uf: "unat (wuf + of_nat j) = unat wuf + j" and ut: "unat (wut + of_nat j) = unat wut + j"
    using Suc.prems j by (simp_all add: unat_add_c3_w)
  define x where "x = u2_word (wuf + of_nat j) src"
  have "unat x = take_bit 32 (drop_bit (32 * (unat wuf + j)) src)"
    using assms(1) by (simp add: x_def u2_word_correct uf unat_of_nat drop_bit_eq_div take_bit_eq_mod)
  then obtain dst1 where s1: "slab_xor dst (wut + of_nat j) x = Inr dst1"
    and c1: "chopped dst (32 * (unat wut + j)) 32 (32 * (unat wuf + j)) src dst1"
    using slab_xor_field [of "wut + of_nat j" dst 0 32 x] unat_c3_w [of x] Suc.prems(3) ut
    by (auto simp: chopped_def)
  obtain dst' where s2: "chop_span n (of_nat (Suc j)) wuf wut (chop_len src) src dst1 = Inr dst'"
    and c2: "chopped dst1 (32 * (unat wut + j) + 32) (32 * n) (32 * (unat wuf + j) + 32) src dst'"
    using Suc.IH [of "Suc j" dst1] Suc.prems c1 by (auto simp: chopped_def algebra_simps)
  have "chop_span (Suc n) (of_nat j) wuf wut (chop_len src) src dst = Inr dst'"
    using s1 s2 by (simp only: chop_span.simps chop_src_word [OF assms(1)] rbind_Inr
        x_def [symmetric]) (simp add: add.commute)
  then show ?case using chopped_join [OF c1 c2] by auto
qed

lemma chop_bloqs_correct:
  assumes "atom_fits src" "h < 27"
    and "(unat fum + i + n) * 2 ^ h \<le> 2 ^ 32" "(unat tou + i + n) * 2 ^ h \<le> 2 ^ 32"
    and "(unat tou + i + n) * 2 ^ h \<le> length dst"
  shows "\<exists>dst'. chop_bloqs n (of_nat i) h fum tou (chop_len src) src dst = Inr dst' \<and>
    chopped dst ((unat tou + i) * 2 ^ (5 + h)) (n * 2 ^ (5 + h)) ((unat fum + i) * 2 ^ (5 + h)) src dst'"
  using assms(3-)
proof (induction n arbitrary: i dst)
  case 0
  then show ?case by simp
next
  case (Suc n)
  have pos: "(0::nat) < 2 ^ h" by simp
  have suc: "(x + i + Suc n) * 2 ^ h = (x + i) * 2 ^ h + 2 ^ h + n * 2 ^ h" for x :: nat
    by (simp add: algebra_simps)
  have lim: "x + i < 2 ^ 32" "(x + i) * 2 ^ h < 2 ^ 32" "(x + i) * 2 ^ h + 2 ^ h \<le> 2 ^ 32"
    if "(x + i + Suc n) * 2 ^ h \<le> 2 ^ 32" for x :: nat
  proof -
    show *: "(x + i) * 2 ^ h < 2 ^ 32" "(x + i) * 2 ^ h + 2 ^ h \<le> 2 ^ 32"
      using that pos unfolding suc by linarith+
    show "x + i < 2 ^ 32" using *(1) by (rule le_less_trans [rotated]) simp
  qed
  have sh: "unat (push_bit h (w + of_nat i)) = (unat w + i) * 2 ^ h"
    if "(unat w + i + Suc n) * 2 ^ h \<le> 2 ^ 32" for w :: c3_w
  proof -
    have "unat (of_nat i :: c3_w) = i" using lim(1) [OF that] by (intro unat_of_nat_c3_w) linarith
    then have "unat (w + of_nat i) = unat w + i" using lim(1) [OF that] by (simp add: unat_add_c3_w)
    then show ?thesis using lim(2) [OF that] by (simp add: unat_push_c3_w)
  qed
  note f = sh [OF Suc.prems(1)] and t = sh [OF Suc.prems(2)]
  have len: "(unat tou + i) * 2 ^ h + 2 ^ h \<le> length dst" using Suc.prems(3) unfolding suc by linarith
  obtain dst1 where s1: "chop_span (2 ^ h) 0 (push_bit h (fum + of_nat i)) (push_bit h (tou + of_nat i))
      (chop_len src) src dst = Inr dst1"
    and c1: "chopped dst ((unat tou + i) * 2 ^ (5 + h)) (2 ^ (5 + h)) ((unat fum + i) * 2 ^ (5 + h)) src dst1"
    using chop_span_correct [OF assms(1), of "push_bit h (fum + of_nat i)" 0 "2 ^ h"
        "push_bit h (tou + of_nat i)" dst] lim(3) [OF Suc.prems(1)] lim(3) [OF Suc.prems(2)] len
    by (auto simp: f t power_add algebra_simps)
  obtain dst' where s2: "chop_bloqs n (of_nat (Suc i)) h fum tou (chop_len src) src dst1 = Inr dst'"
    and c2: "chopped dst1 ((unat tou + i) * 2 ^ (5 + h) + 2 ^ (5 + h)) (n * 2 ^ (5 + h))
      ((unat fum + i) * 2 ^ (5 + h) + 2 ^ (5 + h)) src dst'"
    using Suc.IH [of "Suc i" dst1] Suc.prems c1 by (auto simp: chopped_def algebra_simps)
  have "chop_bloqs (Suc n) (of_nat i) h fum tou (chop_len src) src dst = Inr dst'"
    using s1 s2 by (simp add: Let_def add.commute)
  then show ?case using chopped_join [OF c1 c2] by auto
qed

text \<open>Spans of bloqs whose positions the loops can count.\<close>

definition bloq_span :: "nat \<Rightarrow> nat \<Rightarrow> bool" where
  "bloq_span g n \<longleftrightarrow> (if g < 5 then n * 2 ^ g \<le> 2 ^ 32 else n * 2 ^ (g - 5) \<le> 2 ^ 32)"

lemma u2_chop_correct:
  assumes "atom_fits src" "g < 32"
    and "bloq_span g (unat fum + unat wid)" "bloq_span g (unat tou + unat wid)"
    and "(unat tou + unat wid) * 2 ^ g \<le> 32 * length dst"
  shows "\<exists>dst'. u2_chop g fum wid tou dst src = Inr dst' \<and>
    chopped dst (unat tou * 2 ^ g) (unat wid * 2 ^ g) (unat fum * 2 ^ g) src dst'"
proof (cases "g < 5")
  case True
  have "push_bit g w = of_nat (unat w * 2 ^ g)" for w :: c3_w by (simp add: push_bit_eq_mult)
  moreover have "unat (2 ^ g :: c3_w) = 2 ^ g" using True by (simp add: unat_one_push_c3_w)
  ultimately show ?thesis
    using chop_bits_correct [OF assms(1) True, of "unat fum * 2 ^ g" "unat tou * 2 ^ g" "unat wid" dst]
      True assms(3-5)
    by (simp add: u2_chop_def Let_def bloq_span_def algebra_simps del: of_nat_mult)
next
  case False
  then obtain h where g: "g = 5 + h" using le_Suc_ex not_less by blast
  then show ?thesis
    using chop_bloqs_correct [OF assms(1), of h fum 0 "unat wid" tou dst] assms(2-5)
    by (simp add: u2_chop_def bloq_span_def power_add algebra_simps)
qed

section \<open>Properties\<close>

text \<open>
  C34: \<^verbatim>\<open>u2_met\<close> counts bloqs: for every atom the loom can hold and every bloq size below 32,
  what it returns is at most \<open>k\<close> exactly when the atom fits in \<open>k\<close> bloqs of \<open>2\<^sup>a\<close> bits. No word
  operation in it overflows.
\<close>

theorem u2_met_least:
  assumes "atom_fits b" "a < 32"
  shows "unat (u2_met a b) \<le> k \<longleftrightarrow> b < 2 ^ (2 ^ a * k)"
  using u2_met_correct [OF assms] by (simp add: met_le_iff)

theorem u2_met_least_witness: "unat (u2_met 3 0x123456789) \<le> 5 \<longleftrightarrow> (0x123456789::nat) < 2 ^ (2 ^ 3 * 5)"
  by (rule u2_met_least) (simp_all add: atom_fits_def atom_words_pos)

text \<open>
  C28: \<^verbatim>\<open>u2_chop\<close> is safe and exact: when the slab is long enough for the span that is written
  and the positions can be counted in a word, it never leaves the slab, keeps its length, and XORs
  the chosen span of bloqs of the source into the chosen position.
\<close>

theorem u2_chop_exact:
  assumes "atom_fits src" "g < 32"
    and "bloq_span g (unat fum + unat wid)" "bloq_span g (unat tou + unat wid)"
    and "(unat tou + unat wid) * 2 ^ g \<le> 32 * length dst"
  shows "\<exists>dst'. u2_chop g fum wid tou dst src = Inr dst' \<and> length dst' = length dst \<and>
    words_atom dst' = words_atom dst XOR
      push_bit (unat tou * 2 ^ g) (take_bit (unat wid * 2 ^ g) (drop_bit (unat fum * 2 ^ g) src))"
  using u2_chop_correct [OF assms] unfolding chopped_def by blast

theorem u2_chop_exact_witness:
  "\<exists>dst'. u2_chop 3 1 2 3 [0, 0] 0x123456 = Inr dst' \<and> length dst' = length [0 :: c3_w, 0] \<and>
    words_atom dst' = words_atom [0, 0] XOR
      push_bit (unat (3 :: c3_w) * 2 ^ 3) (take_bit (unat (2 :: c3_w) * 2 ^ 3)
        (drop_bit (unat (1 :: c3_w) * 2 ^ 3) 0x123456))"
  by (rule u2_chop_exact) (simp_all add: bloq_span_def atom_fits_def atom_words_pos)

end
