(* ===== verification/Bpt.thy ===== *)
theory Bpt
  imports Atoms
begin

text \<open>
  The bitmapped Patricia tree of \<^verbatim>\<open>outside/bpt/bitmapped_patricia_tree.c\<close>, a map from 32-bit keys that the
  nounhash of \<^verbatim>\<open>f/nash.c\<close> is built on: lookup and insertion. A key has seven chunks, six of five bits and a
  last one of two, the first at the top. An inner node keeps the chunks its keys share, the chunk it
  branches on, a mask of the values of that chunk it has children for, and the children in the order of the
  mask. A null tree is \<open>None\<close>; trees that are not sealed are updated in place, which a functional
  update describes. Reference counts are left out. An index outside the array of children is a wild access.
\<close>

type_synonym bpt_key_t = c3_w

datatype 'v bpt =
    BPT_LEAF bpt_key_t 'v
  | BPT_INNER_NODE bpt_key_t nat c3_w "'v bpt list"

section \<open>Chunks\<close>

definition MAX_CHUNKS :: nat where "MAX_CHUNKS = 7"
definition CHUNK_LENGTH :: nat where "CHUNK_LENGTH = 5"
definition LAST_CHUNK_LENGTH :: nat where "LAST_CHUNK_LENGTH = 2"
definition KEY_LENGTH :: nat where "KEY_LENGTH = 32"

definition builtin_popcount :: "c3_w \<Rightarrow> nat" where
  "builtin_popcount w = length (filter (bit w) [0..<32])"

definition bpt_compute_child_index :: "c3_w \<Rightarrow> nat \<Rightarrow> nat" where
  "bpt_compute_child_index bitmask child_number = builtin_popcount (bitmask AND (push_bit child_number 1 - 1))"

definition bpt_offset_of_key :: "bpt_key_t \<Rightarrow> nat \<Rightarrow> nat" where
  "bpt_offset_of_key key chunk_number =
     (let shift = (if chunk_number \<le> MAX_CHUNKS - 2 then LAST_CHUNK_LENGTH else 0) +
                  (if chunk_number \<le> MAX_CHUNKS - 3 then (MAX_CHUNKS - 2 - chunk_number) * CHUNK_LENGTH else 0)
      in unat (drop_bit shift key AND
           (if chunk_number = MAX_CHUNKS - 1 then push_bit LAST_CHUNK_LENGTH 1 - 1 else 0x1f)))"

definition bpt_prefix_of_key :: "bpt_key_t \<Rightarrow> nat \<Rightarrow> bpt_key_t" where
  "bpt_prefix_of_key key chunk_number =
     (if chunk_number = MAX_CHUNKS then key
      else key AND push_bit (KEY_LENGTH - chunk_number * CHUNK_LENGTH) (push_bit (chunk_number * CHUNK_LENGTH) 1 - 1))"

definition bpt_find_diverging_chunk :: "bpt_key_t \<Rightarrow> bpt_key_t \<Rightarrow> nat" where
  "bpt_find_diverging_chunk a b = builtin_clz (a XOR b) div CHUNK_LENGTH"

primrec bpt_branching_chunk :: "'v bpt \<Rightarrow> nat" where
  "bpt_branching_chunk (BPT_LEAF prefix value) = MAX_CHUNKS"
| "bpt_branching_chunk (BPT_INNER_NODE prefix branching_chunk bitmask children) = branching_chunk"

primrec bpt_prefix :: "'v bpt \<Rightarrow> bpt_key_t" where
  "bpt_prefix (BPT_LEAF prefix value) = prefix"
| "bpt_prefix (BPT_INNER_NODE prefix branching_chunk bitmask children) = prefix"

section \<open>Lookup and insertion\<close>

lemma size_child [termination_simp]: "i < length children \<Longrightarrow> size (children ! i) < Suc (size_list size children)"
  using size_list_estimation' [OF nth_mem order_refl] by (simp add: less_Suc_eq_le)

fun bpt_get_leaf :: "'v bpt \<Rightarrow> bpt_key_t \<Rightarrow> 'v option res" where
  "bpt_get_leaf (BPT_LEAF prefix value) key = Inr (if prefix = key then Some value else None)"
| "bpt_get_leaf (BPT_INNER_NODE prefix branching_chunk bitmask children) key =
     (let child_number = bpt_offset_of_key key branching_chunk
      in if push_bit child_number 1 AND bitmask \<noteq> 0 then
           let child_index = bpt_compute_child_index bitmask child_number
           in if child_index < length children then bpt_get_leaf (children ! child_index) key else Inl Wild
         else Inr None)"

definition bpt_get :: "'v bpt option \<Rightarrow> bpt_key_t \<Rightarrow> 'v option res" where
  "bpt_get bpt key = (case bpt of None \<Rightarrow> Inr None | Some bpt \<Rightarrow> bpt_get_leaf bpt key)"

definition bpt_has_key :: "'v bpt option \<Rightarrow> bpt_key_t \<Rightarrow> bool res" where
  "bpt_has_key bpt key = rbind (bpt_get bpt key) (\<lambda>leaf. Inr (leaf \<noteq> None))"

definition bpt_split :: "'v bpt \<Rightarrow> bpt_key_t \<Rightarrow> 'v \<Rightarrow> 'v bpt" where
  "bpt_split bpt key value =
     (let prefix = bpt_prefix bpt;
          diverging_chunk = bpt_find_diverging_chunk key prefix;
          my_number_in_parent = bpt_offset_of_key prefix diverging_chunk;
          their_number_in_parent = bpt_offset_of_key key diverging_chunk
      in BPT_INNER_NODE (bpt_prefix_of_key prefix diverging_chunk) diverging_chunk
           (push_bit my_number_in_parent 1 OR push_bit their_number_in_parent 1)
           (if my_number_in_parent < their_number_in_parent then [bpt, BPT_LEAF key value]
            else [BPT_LEAF key value, bpt]))"

fun bpt_assoc_in :: "'v bpt \<Rightarrow> bpt_key_t \<Rightarrow> 'v \<Rightarrow> 'v bpt res" where
  "bpt_assoc_in (BPT_LEAF prefix old) key value =
     Inr (if bpt_prefix_of_key key MAX_CHUNKS \<noteq> prefix then bpt_split (BPT_LEAF prefix old) key value
          else BPT_LEAF prefix value)"
| "bpt_assoc_in (BPT_INNER_NODE prefix branching_chunk bitmask children) key value =
     (if bpt_prefix_of_key key branching_chunk \<noteq> prefix then
        Inr (bpt_split (BPT_INNER_NODE prefix branching_chunk bitmask children) key value)
      else
        let child_number = bpt_offset_of_key key branching_chunk;
            child_index = bpt_compute_child_index bitmask child_number
        in if push_bit child_number 1 AND bitmask \<noteq> 0 then
             if child_index < length children then
               rbind (bpt_assoc_in (children ! child_index) key value) (\<lambda>new_child.
                 Inr (BPT_INNER_NODE prefix branching_chunk bitmask (children[child_index := new_child])))
             else Inl Wild
           else if child_index \<le> length children then
             Inr (BPT_INNER_NODE prefix branching_chunk (bitmask OR push_bit child_number 1)
               (take child_index children @ BPT_LEAF key value # drop child_index children))
           else Inl Wild)"

definition bpt_assoc :: "'v bpt option \<Rightarrow> bpt_key_t \<Rightarrow> 'v \<Rightarrow> 'v bpt res" where
  "bpt_assoc bpt key value =
     (case bpt of None \<Rightarrow> Inr (BPT_LEAF key value) | Some bpt \<Rightarrow> bpt_assoc_in bpt key value)"

text \<open>
  Removal. The recursive call can return the child it was given, changed in place or not; it then stays
  where it is.
\<close>

fun bpt_dissoc_in :: "'v bpt \<Rightarrow> bpt_key_t \<Rightarrow> 'v bpt option res" where
  "bpt_dissoc_in (BPT_LEAF prefix value) key =
     Inr (if bpt_prefix_of_key key MAX_CHUNKS \<noteq> prefix then Some (BPT_LEAF prefix value) else None)"
| "bpt_dissoc_in (BPT_INNER_NODE prefix branching_chunk bitmask children) key =
     (let bpt = BPT_INNER_NODE prefix branching_chunk bitmask children
      in if bpt_prefix_of_key key branching_chunk \<noteq> prefix then Inr (Some bpt)
      else
        let child_number = bpt_offset_of_key key branching_chunk
        in if push_bit child_number 1 AND bitmask \<noteq> 0 then
             let child_index = bpt_compute_child_index bitmask child_number;
                 number_of_children = builtin_popcount bitmask
             in if child_index < length children then
                  rbind (bpt_dissoc_in (children ! child_index) key) (\<lambda>new_child.
                    case new_child of
                      None \<Rightarrow>
                        if number_of_children = 2 then
                          (if 1 - child_index < length children then Inr (Some (children ! (1 - child_index)))
                           else Inl Wild)
                        else Inr (Some (BPT_INNER_NODE prefix branching_chunk (bitmask AND NOT (push_bit child_number 1))
                               (take child_index children @ drop (child_index + 1) children)))
                    | Some new_child \<Rightarrow>
                        Inr (Some (BPT_INNER_NODE prefix branching_chunk bitmask (children[child_index := new_child]))))
                else Inl Wild
           else Inr (Some bpt))"

definition bpt_dissoc :: "'v bpt option \<Rightarrow> bpt_key_t \<Rightarrow> 'v bpt option res" where
  "bpt_dissoc bpt key = (case bpt of None \<Rightarrow> Inr None | Some bpt \<Rightarrow> bpt_dissoc_in bpt key)"

section \<open>Chunks as bits\<close>

lemmas bpt_consts = MAX_CHUNKS_def CHUNK_LENGTH_def LAST_CHUNK_LENGTH_def KEY_LENGTH_def

lemma bit_prefix:
  assumes "c \<le> 7"
  shows "bit (bpt_prefix_of_key key c) i \<longleftrightarrow> bit key i \<and> 32 - 5 * c \<le> i"
proof (cases "c = 7")
  case False
  have "i + c * 5 - 32 < c * 5" if "i < 32" "32 - c * 5 \<le> i" "c \<noteq> 0" using that by simp
  then show ?thesis
    using False assms bit_imp_le_length [of key i]
    by (cases "c = 0") (auto simp: bpt_prefix_of_key_def bpt_consts mask_eq_exp_minus_1 [symmetric] bit_simps mult.commute)
qed (simp add: bpt_prefix_of_key_def bpt_consts)

lemma bit_offset:
  assumes "c \<le> 6"
  shows "bit (bpt_offset_of_key key c) j \<longleftrightarrow> j < 32 - 5 * c - (27 - 5 * c) \<and> bit key (27 - 5 * c + j)"
proof -
  have m: "(0x1f :: c3_w) = mask 5" "push_bit 2 1 - 1 = (mask 2 :: c3_w)" "(3 :: c3_w) = mask 2" by (simp_all add: mask_eq_exp_minus_1)
  consider "c \<le> 4" | "c = 5" | "c = 6" using assms by linarith
  then show ?thesis
  proof cases
    case 1
    then have "2 + (5 - c) * 5 = 27 - 5 * c" by simp
    then have "bpt_offset_of_key key c = unat (drop_bit (27 - 5 * c) key AND mask 5)"
      using 1 unfolding bpt_offset_of_key_def bpt_consts m by simp
    then show ?thesis using 1 by (auto simp: bit_simps)
  qed (auto simp: bpt_offset_of_key_def bpt_consts m bit_simps simp del: mask_numeral)
qed

lemma bit_eq_all: "(a :: bpt_key_t) = b \<longleftrightarrow> (\<forall>i. bit a i = bit b i)"
  by (auto intro: bit_eqI)

lemma prefix_eq_iff:
  assumes "c \<le> 7"
  shows "bpt_prefix_of_key a c = bpt_prefix_of_key b c \<longleftrightarrow> (\<forall>i\<ge>32 - 5 * c. bit a i = bit b i)"
  using assms by (auto simp: bit_eq_all bit_prefix)

lemma prefix_prefix: "c \<le> d \<Longrightarrow> d \<le> 7 \<Longrightarrow> bpt_prefix_of_key (bpt_prefix_of_key k d) c = bpt_prefix_of_key k c"
  by (auto simp: bit_eq_iff bit_prefix)

lemma prefix_mono:
  "bpt_prefix_of_key a d = bpt_prefix_of_key b d \<Longrightarrow> c \<le> d \<Longrightarrow> d \<le> 7 \<Longrightarrow>
   bpt_prefix_of_key a c = bpt_prefix_of_key b c"
  by (metis prefix_prefix)

lemma prefix_Suc:
  assumes "c \<le> 6"
  shows "bpt_prefix_of_key a (Suc c) = bpt_prefix_of_key b (Suc c) \<longleftrightarrow>
     bpt_prefix_of_key a c = bpt_prefix_of_key b c \<and> bpt_offset_of_key a c = bpt_offset_of_key b c"
proof -
  have "bpt_offset_of_key a c = bpt_offset_of_key b c \<longleftrightarrow>
      (\<forall>j. j < 32 - 5 * c - (27 - 5 * c) \<longrightarrow> bit a (27 - 5 * c + j) = bit b (27 - 5 * c + j))"
    using assms by (auto simp: bit_eq_iff bit_offset)
  also have "\<dots> \<longleftrightarrow> (\<forall>i. 27 - 5 * c \<le> i \<and> i < 32 - 5 * c \<longrightarrow> bit a i = bit b i)"
  proof (rule iffI; intro allI impI)
    fix i assume "\<forall>j. j < 32 - 5 * c - (27 - 5 * c) \<longrightarrow> bit a (27 - 5 * c + j) = bit b (27 - 5 * c + j)"
      and i: "27 - 5 * c \<le> i \<and> i < 32 - 5 * c"
    moreover have "i - (27 - 5 * c) < 32 - 5 * c - (27 - 5 * c)" using i by linarith
    ultimately show "bit a i = bit b i" by (metis le_add_diff_inverse)
  qed simp
  finally have off: "bpt_offset_of_key a c = bpt_offset_of_key b c \<longleftrightarrow>
      (\<forall>i. 27 - 5 * c \<le> i \<and> i < 32 - 5 * c \<longrightarrow> bit a i = bit b i)" .
  have "bpt_prefix_of_key a (Suc c) = bpt_prefix_of_key b (Suc c) \<longleftrightarrow> (\<forall>i\<ge>27 - 5 * c. bit a i = bit b i)"
    using assms prefix_eq_iff [of "Suc c" a b] by simp
  moreover have "bpt_prefix_of_key a c = bpt_prefix_of_key b c \<longleftrightarrow> (\<forall>i\<ge>32 - 5 * c. bit a i = bit b i)"
    using assms prefix_eq_iff [of c a b] by simp
  moreover have "27 - 5 * c \<le> i" if "32 - 5 * c \<le> i" for i using that by linarith
  ultimately show ?thesis unfolding off by (meson not_le)
qed

lemma offset_less: "c \<le> 6 \<Longrightarrow> bpt_offset_of_key key c < 32"
proof -
  assume c: "c \<le> 6"
  have "take_bit 5 (bpt_offset_of_key key c) = bpt_offset_of_key key c"
    using c by (auto simp: bit_eq_iff bit_take_bit_iff bit_offset)
  then show ?thesis using take_bit_nat_less_exp [of 5 "bpt_offset_of_key key c"] by simp
qed

lemma diverging:
  assumes "a \<noteq> b" "c \<le> 7"
  shows "bpt_prefix_of_key a c = bpt_prefix_of_key b c \<longleftrightarrow> c \<le> bpt_find_diverging_chunk a b"
    and "bpt_find_diverging_chunk a b \<le> 6"
proof -
  let ?w = "a XOR b"
  let ?n = "nbits (unat ?w)"
  have w: "?w \<noteq> 0" using assms by (auto simp: bit_eq_iff bit_simps)
  have n: "0 < ?n" "?n \<le> 32" using w by (simp_all add: nbits_unat_pos nbits_unat_le)
  have top: "bit ?w (?n - 1)" using bit_top [of "unat ?w"] w by (simp add: unat_gt_0 bit_simps)
  have zero: "\<not> bit ?w i" if "?n \<le> i" for i
    using not_bit_ge_nbits [OF that] bit_imp_le_length [of ?w i] by (auto simp: bit_simps)
  have dc: "bpt_find_diverging_chunk a b = (32 - ?n) div 5"
    using w by (simp add: bpt_find_diverging_chunk_def bpt_consts builtin_clz_nbits)
  show "bpt_find_diverging_chunk a b \<le> 6" using n by (simp add: dc)
  have "(\<forall>i\<ge>32 - 5 * c. bit a i = bit b i) \<longleftrightarrow> (\<forall>i\<ge>32 - 5 * c. \<not> bit ?w i)"
    using bit_imp_le_length [of a] bit_imp_le_length [of b] by (auto simp: bit_xor_iff)
  also have "\<dots> \<longleftrightarrow> ?n - 1 < 32 - 5 * c"
  proof
    assume "\<forall>i\<ge>32 - 5 * c. \<not> bit ?w i"
    then show "?n - 1 < 32 - 5 * c" using top by (meson not_le)
  next
    assume "?n - 1 < 32 - 5 * c"
    then show "\<forall>i\<ge>32 - 5 * c. \<not> bit ?w i" using zero n by auto
  qed
  also have "\<dots> \<longleftrightarrow> c \<le> (32 - ?n) div 5" using n by (auto simp: less_eq_div_iff_mult_less_eq)
  finally show "bpt_prefix_of_key a c = bpt_prefix_of_key b c \<longleftrightarrow> c \<le> bpt_find_diverging_chunk a b"
    using assms by (simp add: prefix_eq_iff dc)
qed

section \<open>Masks and child indices\<close>

definition mask_below :: "c3_w \<Rightarrow> nat \<Rightarrow> nat set" where
  "mask_below m n = {i. i < n \<and> bit m i}"

lemma finite_mask_below [simp]: "finite (mask_below m n)"
  by (simp add: mask_below_def)

lemma popcount_card: "builtin_popcount m = card (mask_below m 32)"
proof -
  have "builtin_popcount m = card (set (filter (bit m) [0..<32]))"
    unfolding builtin_popcount_def by (rule distinct_card [symmetric]) simp
  also have "set (filter (bit m) [0..<32]) = mask_below m 32" by (auto simp: mask_below_def)
  finally show ?thesis .
qed

lemma child_index_card:
  assumes "n < 32"
  shows "bpt_compute_child_index m n = card (mask_below m n)"
proof -
  have "mask_below (m AND mask n) 32 = mask_below m n"
    using assms by (auto simp: mask_below_def bit_simps)
  then show ?thesis
    by (simp add: bpt_compute_child_index_def popcount_card mask_eq_exp_minus_1 [symmetric])
qed

lemma mask_below_mono: "i \<le> n \<Longrightarrow> mask_below m i \<subseteq> mask_below m n"
  by (auto simp: mask_below_def)

lemma child_index_less:
  assumes "bit m n" "n < k" "k \<le> 32"
  shows "card (mask_below m n) < card (mask_below m k)"
proof (rule psubset_card_mono)
  have "n \<in> mask_below m k" "n \<notin> mask_below m n" using assms by (auto simp: mask_below_def)
  then show "mask_below m n \<subset> mask_below m k" using mask_below_mono [of n k m] assms by auto
qed simp

lemma child_index_inj:
  assumes "bit m i" "bit m j" "card (mask_below m i) = card (mask_below m j)"
  shows "i = j"
proof -
  have "i < 32" "j < 32" using assms bit_imp_le_length [of m] by auto
  then show ?thesis
    using child_index_less [of m i j] child_index_less [of m j i] assms by (metis less_imp_le linorder_neqE_nat less_irrefl)
qed

lemma child_bit:
  assumes "n < 32"
  shows "2 ^ n AND m = 0 \<longleftrightarrow> \<not> bit (m :: c3_w) n"
  using assms by (auto simp: bit_eq_all bit_simps)

text \<open>Setting a bit that was clear moves the children above it up by one.\<close>

lemma mask_below_set:
  assumes "n < 32" "\<not> bit m n"
  shows "card (mask_below (m OR push_bit n 1) k) = card (mask_below m k) + of_bool (n < k)"
proof -
  have "mask_below (m OR push_bit n 1) k = (if n < k then insert n (mask_below m k) else mask_below m k)"
    using assms by (auto simp: mask_below_def bit_simps)
  then show ?thesis using assms by (auto simp: mask_below_def)
qed

lemma mask_below_clear:
  assumes "n < 32" "bit m n"
  shows "card (mask_below m k) = card (mask_below (m AND NOT (push_bit n 1)) k) + of_bool (n < k)"
proof -
  have "mask_below m k = (if n < k then insert n (mask_below (m AND NOT (push_bit n 1)) k)
        else mask_below (m AND NOT (push_bit n 1)) k)"
    using assms bit_imp_le_length [of m] by (auto simp: mask_below_def bit_simps)
  then show ?thesis using assms by (auto simp: mask_below_def bit_simps)
qed

section \<open>The invariant\<close>

text \<open>
  A node branches on a chunk of the key and its prefix has nothing below that chunk; it has a child for
  each bit of its mask, and a child branches further down and agrees with the node's prefix, and with the
  number of its bit on the node's chunk.
\<close>

definition child_ok :: "bpt_key_t \<Rightarrow> nat \<Rightarrow> nat \<Rightarrow> 'v bpt \<Rightarrow> bool" where
  "child_ok p c n t \<longleftrightarrow>
     c < bpt_branching_chunk t \<and> bpt_prefix_of_key (bpt_prefix t) c = p \<and> bpt_offset_of_key (bpt_prefix t) c = n"

fun bpt_ok :: "'v bpt \<Rightarrow> bool" where
  "bpt_ok (BPT_LEAF prefix value) = True"
| "bpt_ok (BPT_INNER_NODE p c m ch) \<longleftrightarrow>
     c \<le> 6 \<and> bpt_prefix_of_key p c = p \<and> length ch = builtin_popcount m \<and> list_all bpt_ok ch \<and>
     list_all (\<lambda>n. bit m n \<longrightarrow> child_ok p c n (ch ! bpt_compute_child_index m n)) [0..<32]"

lemma child_index_bound: "bit m n \<Longrightarrow> length ch = builtin_popcount m \<Longrightarrow> bpt_compute_child_index m n < length ch"
  using bit_imp_le_length [of m n] child_index_less [of m n 32] by (simp add: child_index_card popcount_card)

lemma bpt_ok_childD:
  assumes "bpt_ok (BPT_INNER_NODE p c m ch)" "bit m n"
  shows "bpt_compute_child_index m n < length ch" "bpt_ok (ch ! bpt_compute_child_index m n)"
    "child_ok p c n (ch ! bpt_compute_child_index m n)"
  using assms child_index_bound [of m n ch] bit_imp_le_length [of m n]
  by (auto simp: list_all_iff)

lemma branching_le: "bpt_ok t \<Longrightarrow> bpt_branching_chunk t \<le> 7"
  by (cases t) (auto simp: MAX_CHUNKS_def)

lemma prefix_of_ok: "bpt_ok t \<Longrightarrow> bpt_prefix_of_key (bpt_prefix t) (bpt_branching_chunk t) = bpt_prefix t"
  by (cases t) (auto simp: bpt_prefix_of_key_def)

text \<open>The map a tree stands for.\<close>

definition bpt_map :: "'v bpt \<Rightarrow> bpt_key_t \<Rightarrow> 'v option" where
  "bpt_map t k = (case bpt_get_leaf t k of Inr r \<Rightarrow> r | Inl _ \<Rightarrow> None)"

lemma bpt_map_leaf [simp]: "bpt_map (BPT_LEAF p v) = [p \<mapsto> v]"
  by (auto simp: bpt_map_def)

lemma bpt_get_leaf_node:
  assumes "bpt_ok (BPT_INNER_NODE p c m ch)"
  shows "bpt_get_leaf (BPT_INNER_NODE p c m ch) k =
    (if bit m (bpt_offset_of_key k c) then bpt_get_leaf (ch ! bpt_compute_child_index m (bpt_offset_of_key k c)) k
     else Inr None)"
  using assms bpt_ok_childD(1) [OF assms] offset_less [of c k] by (simp add: Let_def child_bit)

lemma bpt_map_node:
  assumes "bpt_ok (BPT_INNER_NODE p c m ch)"
  shows "bpt_map (BPT_INNER_NODE p c m ch) k =
    (if bit m (bpt_offset_of_key k c) then bpt_map (ch ! bpt_compute_child_index m (bpt_offset_of_key k c)) k
     else None)"
  using bpt_get_leaf_node [OF assms, of k] by (simp add: bpt_map_def del: bpt_get_leaf.simps)

lemma bpt_get_leaf_map: "bpt_ok t \<Longrightarrow> bpt_get_leaf t k = Inr (bpt_map t k)"
proof (induction t k rule: bpt_get_leaf.induct)
  case (2 p c m ch k)
  let ?n = "bpt_offset_of_key k c"
  have n: "?n < 32" using 2(2) offset_less by simp
  show ?case
  proof (cases "bit m ?n")
    case True
    note child = bpt_ok_childD [OF 2(2) True]
    then show ?thesis
      using 2(1) [OF refl _ refl] True child_bit [OF n, of m] bpt_get_leaf_node [OF 2(2), of k]
      by (simp add: bpt_map_node [OF 2(2)] del: bpt_get_leaf.simps)
  next
    case False
    then show ?thesis using bpt_get_leaf_node [OF 2(2), of k] by (simp add: bpt_map_node [OF 2(2)] del: bpt_get_leaf.simps)
  qed
qed simp

text \<open>Every key of a tree has its prefix.\<close>

lemma bpt_map_prefix:
  "bpt_ok t \<Longrightarrow> bpt_map t k \<noteq> None \<Longrightarrow> bpt_prefix_of_key k (bpt_branching_chunk t) = bpt_prefix t"
proof (induction t)
  case (BPT_INNER_NODE p c m ch)
  let ?n = "bpt_offset_of_key k c"
  let ?t = "ch ! bpt_compute_child_index m ?n"
  have bit: "bit m ?n" and in_child: "bpt_map ?t k \<noteq> None"
    using BPT_INNER_NODE.prems bpt_map_node [OF BPT_INNER_NODE.prems(1), of k] by (auto split: if_splits)
  note child = bpt_ok_childD [OF BPT_INNER_NODE.prems(1) bit]
  have "bpt_prefix_of_key k (bpt_branching_chunk ?t) = bpt_prefix ?t"
    by (rule BPT_INNER_NODE.IH [OF nth_mem [OF child(1)] child(2) in_child])
  then have "bpt_prefix_of_key k c = bpt_prefix_of_key (bpt_prefix ?t) c"
    using child(3) branching_le [OF child(2)] prefix_prefix [of c "bpt_branching_chunk ?t" k] by (simp add: child_ok_def)
  then show ?case using child(3) by (simp add: child_ok_def)
qed (simp add: MAX_CHUNKS_def bpt_prefix_of_key_def split: if_splits)

section \<open>Insertion\<close>

lemma child_ok_agree:
  assumes "c \<le> 6"
  shows "child_ok (bpt_prefix_of_key k c) c (bpt_offset_of_key k c) t \<longleftrightarrow>
    c < bpt_branching_chunk t \<and> bpt_prefix_of_key (bpt_prefix t) (Suc c) = bpt_prefix_of_key k (Suc c)"
  using assms prefix_Suc by (auto simp: child_ok_def)

text \<open>A fork of two trees that part at a chunk.\<close>

definition bpt_fork :: "nat \<Rightarrow> 'v bpt \<Rightarrow> 'v bpt \<Rightarrow> 'v bpt" where
  "bpt_fork c t u =
     BPT_INNER_NODE (bpt_prefix_of_key (bpt_prefix t) c) c
       (push_bit (bpt_offset_of_key (bpt_prefix t) c) 1 OR push_bit (bpt_offset_of_key (bpt_prefix u) c) 1)
       (if bpt_offset_of_key (bpt_prefix t) c < bpt_offset_of_key (bpt_prefix u) c then [t, u] else [u, t])"

lemma bpt_split_fork: "bpt_split t key v = bpt_fork (bpt_find_diverging_chunk key (bpt_prefix t)) t (BPT_LEAF key v)"
  by (simp add: bpt_split_def bpt_fork_def Let_def)

lemma mask_below_pair:
  assumes "i < 32" "j < 32"
  shows "mask_below (push_bit i 1 OR push_bit j 1) k = (if i < k then {i} else {}) \<union> (if j < k then {j} else {})"
  using assms by (auto simp: mask_below_def bit_simps)

lemma bpt_fork_ok:
  assumes t: "bpt_ok t" "c < bpt_branching_chunk t" and u: "bpt_ok u" "c < bpt_branching_chunk u"
    and eq: "bpt_prefix_of_key (bpt_prefix t) c = bpt_prefix_of_key (bpt_prefix u) c"
    and ne: "bpt_offset_of_key (bpt_prefix t) c \<noteq> bpt_offset_of_key (bpt_prefix u) c"
  shows "bpt_ok (bpt_fork c t u)"
    and "bpt_map (bpt_fork c t u) k =
      (if bpt_offset_of_key k c = bpt_offset_of_key (bpt_prefix t) c then bpt_map t k
       else if bpt_offset_of_key k c = bpt_offset_of_key (bpt_prefix u) c then bpt_map u k else None)"
proof -
  let ?i = "bpt_offset_of_key (bpt_prefix t) c" and ?j = "bpt_offset_of_key (bpt_prefix u) c"
  let ?m = "push_bit ?i 1 OR push_bit ?j (1 :: c3_w)" and ?ch = "if ?i < ?j then [t, u] else [u, t]"
  have c: "c \<le> 6" using t branching_le [of t] by simp
  then have ij: "?i < 32" "?j < 32" by (simp_all add: offset_less)
  have idx: "bpt_compute_child_index ?m ?i = of_bool (?j < ?i)" "bpt_compute_child_index ?m ?j = of_bool (?i < ?j)"
    unfolding child_index_card [OF ij(1)] child_index_card [OF ij(2)] mask_below_pair [OF ij] by simp_all
  have nth: "?ch ! bpt_compute_child_index ?m ?i = t" "?ch ! bpt_compute_child_index ?m ?j = u"
    using ne unfolding idx by auto
  have bits: "bit ?m n \<longleftrightarrow> n = ?i \<or> n = ?j" for n using ij by (auto simp: bit_simps)
  have len: "length ?ch = builtin_popcount ?m"
    using ij ne unfolding popcount_card mask_below_pair [OF ij] by simp
  have ok: "child_ok (bpt_prefix_of_key (bpt_prefix t) c) c n (?ch ! bpt_compute_child_index ?m n)" if "bit ?m n" for n
    using that nth t u eq unfolding bits by (auto simp: child_ok_def)
  show *: "bpt_ok (bpt_fork c t u)"
    using c len ok t u by (simp add: bpt_fork_def prefix_prefix list_all_iff)
  show "bpt_map (bpt_fork c t u) k =
      (if bpt_offset_of_key k c = ?i then bpt_map t k else if bpt_offset_of_key k c = ?j then bpt_map u k else None)"
    using bpt_map_node [OF * [unfolded bpt_fork_def], of k] nth bits by (simp add: bpt_fork_def)
qed

text \<open>What the insertion of a key leaves of a tree's place in its parent.\<close>

definition keeps_place :: "bpt_key_t \<Rightarrow> 'v bpt \<Rightarrow> 'v bpt \<Rightarrow> bool" where
  "keeps_place k t t' \<longleftrightarrow>
     (\<forall>c<bpt_branching_chunk t. bpt_prefix_of_key (bpt_prefix t) (Suc c) = bpt_prefix_of_key k (Suc c) \<longrightarrow>
        c < bpt_branching_chunk t' \<and> bpt_prefix_of_key (bpt_prefix t') (Suc c) = bpt_prefix_of_key k (Suc c))"

lemma bpt_split_ok:
  assumes ok: "bpt_ok t" and ne: "bpt_prefix_of_key k (bpt_branching_chunk t) \<noteq> bpt_prefix t"
  shows "bpt_ok (bpt_split t k v)" "bpt_map (bpt_split t k v) x = (if x = k then Some v else bpt_map t x)"
    "keeps_place k t (bpt_split t k v)"
proof -
  let ?p = "bpt_prefix t" and ?d = "bpt_find_diverging_chunk k (bpt_prefix t)"
  have kp: "k \<noteq> ?p" using ne prefix_of_ok [OF ok] by auto
  note div = diverging [OF kp]
  have d: "?d < bpt_branching_chunk t" "?d \<le> 6"
    using div branching_le [OF ok] ne prefix_of_ok [OF ok] by (metis not_le, simp)
  have eq: "bpt_prefix_of_key ?p ?d = bpt_prefix_of_key k ?d" using div(1) [of ?d] d by simp
  have off: "bpt_offset_of_key ?p ?d \<noteq> bpt_offset_of_key k ?d"
    using div(1) [of "Suc ?d"] prefix_Suc [OF d(2), of k ?p] d eq by auto
  have leaf: "?d < bpt_branching_chunk (BPT_LEAF k v)" using d by (simp add: MAX_CHUNKS_def)
  note fork = bpt_fork_ok [OF ok d(1) _ leaf, simplified, OF eq off]
  show "bpt_ok (bpt_split t k v)" using fork(1) by (simp add: bpt_split_fork)
  have "bpt_map t x = None" if "bpt_offset_of_key x ?d \<noteq> bpt_offset_of_key ?p ?d" for x
  proof (rule ccontr)
    assume "bpt_map t x \<noteq> None"
    then have "bpt_prefix_of_key x (Suc ?d) = bpt_prefix_of_key ?p (Suc ?d)"
      using bpt_map_prefix [OF ok] prefix_prefix [of "Suc ?d" "bpt_branching_chunk t" x] d branching_le [OF ok] by simp
    then show False using that prefix_Suc [OF d(2)] by simp
  qed
  then show "bpt_map (bpt_split t k v) x = (if x = k then Some v else bpt_map t x)"
    using off by (auto simp: bpt_split_fork fork(2))
  show "keeps_place k t (bpt_split t k v)"
    unfolding keeps_place_def
  proof (intro allI impI)
    fix c assume c: "c < bpt_branching_chunk t" "bpt_prefix_of_key ?p (Suc c) = bpt_prefix_of_key k (Suc c)"
    then have "Suc c \<le> ?d" using div(1) [of "Suc c"] branching_le [OF ok] by simp
    then show "c < bpt_branching_chunk (bpt_split t k v) \<and>
        bpt_prefix_of_key (bpt_prefix (bpt_split t k v)) (Suc c) = bpt_prefix_of_key k (Suc c)"
      using c d by (simp add: bpt_split_fork bpt_fork_def prefix_prefix)
  qed
qed

lemma bpt_set_child:
  assumes ok: "bpt_ok (BPT_INNER_NODE p c m ch)" and bit: "bit m (bpt_offset_of_key k c)"
    and i: "i = bpt_compute_child_index m (bpt_offset_of_key k c)"
    and t': "bpt_ok t'" "child_ok p c (bpt_offset_of_key k c) t'"
  shows "bpt_ok (BPT_INNER_NODE p c m (ch[i := t']))"
    and "bpt_map (BPT_INNER_NODE p c m (ch[i := t'])) x =
      (if bpt_offset_of_key x c = bpt_offset_of_key k c then bpt_map t' x else bpt_map (BPT_INNER_NODE p c m ch) x)"
proof -
  let ?n = "bpt_offset_of_key k c"
  have inj: "bpt_compute_child_index m n = i \<longleftrightarrow> n = ?n" if "bit m n" for n
    using that bit i child_index_inj [of m n ?n] bit_imp_le_length [of m] by (auto simp: child_index_card)
  have nth: "ch[i := t'] ! bpt_compute_child_index m n = (if n = ?n then t' else ch ! bpt_compute_child_index m n)"
    if "bit m n" for n
    using inj [OF that] bpt_ok_childD(1) [OF ok that] by (auto simp: nth_list_update)
  show *: "bpt_ok (BPT_INNER_NODE p c m (ch[i := t']))"
    using ok t' nth bpt_ok_childD(1) [OF ok bit] i
    by (auto simp: list_all_iff dest!: set_update_subset_insert [THEN subsetD])
  show "bpt_map (BPT_INNER_NODE p c m (ch[i := t'])) x =
      (if bpt_offset_of_key x c = ?n then bpt_map t' x else bpt_map (BPT_INNER_NODE p c m ch) x)"
    using bit nth by (auto simp: bpt_map_node [OF *] bpt_map_node [OF ok])
qed

lemma bpt_add_child:
  assumes ok: "bpt_ok (BPT_INNER_NODE p c m ch)" and bit: "\<not> bit m n" "n < 32"
    and i: "i = bpt_compute_child_index m n" and t': "bpt_ok t'" "child_ok p c n t'"
  shows "i \<le> length ch" "bpt_ok (BPT_INNER_NODE p c (m OR push_bit n 1) (take i ch @ t' # drop i ch))"
    and "bpt_map (BPT_INNER_NODE p c (m OR push_bit n 1) (take i ch @ t' # drop i ch)) x =
      (if bpt_offset_of_key x c = n then bpt_map t' x else bpt_map (BPT_INNER_NODE p c m ch) x)"
proof -
  let ?m = "m OR push_bit n 1" and ?ch = "take i ch @ t' # drop i ch"
  have c: "c \<le> 6" and len: "length ch = card (mask_below m 32)" using ok by (simp_all add: popcount_card)
  have i': "i = card (mask_below m n)" using i bit by (simp add: child_index_card)
  show le: "i \<le> length ch" unfolding i' len using bit by (intro card_mono mask_below_mono) simp_all
  have bits: "bit ?m n' \<longleftrightarrow> n' = n \<or> bit m n'" for n' using bit by (auto simp: bit_simps)
  have nth: "?ch ! bpt_compute_child_index ?m n' = (if n' = n then t' else ch ! bpt_compute_child_index m n')"
    if "bit ?m n'" for n'
  proof -
    have n': "n' < 32" using that bit_imp_le_length [of ?m n'] by simp
    have idx: "bpt_compute_child_index ?m n' = bpt_compute_child_index m n' + of_bool (n < n')"
      using n' mask_below_set [OF bit(2,1), of n'] by (simp add: child_index_card)
    have "n' = n \<or> bit m n'" using that bits by simp
    then consider "n' = n" | "n' < n" "bit m n'" | "n < n'" by linarith
    then show ?thesis
    proof cases
      case 2
      then have "bpt_compute_child_index m n' < i" using child_index_less [of m n' n] bit n' i' by (simp add: child_index_card)
      then show ?thesis using 2 idx le by (simp add: nth_append)
    next
      case 3
      then have "i \<le> bpt_compute_child_index m n'"
        unfolding i' child_index_card [OF n'] by (intro card_mono mask_below_mono) simp_all
      then show ?thesis using 3 idx le by (simp add: nth_append Suc_diff_le)
    qed (use idx i le in \<open>simp add: nth_append\<close>)
  qed
  show *: "bpt_ok (BPT_INNER_NODE p c ?m ?ch)"
    using ok t' le mask_below_set [OF bit(2,1), of 32] bit bits nth c
    by (auto simp: list_all_iff popcount_card dest: in_set_takeD in_set_dropD)
  show "bpt_map (BPT_INNER_NODE p c ?m ?ch) x =
      (if bpt_offset_of_key x c = n then bpt_map t' x else bpt_map (BPT_INNER_NODE p c m ch) x)"
    using bits nth bpt_map_node [OF *, of x] bpt_map_node [OF ok, of x] by (auto simp del: push_bit_of_1)
qed

lemma bpt_assoc_in_ok:
  "bpt_ok t \<Longrightarrow> \<exists>t'. bpt_assoc_in t k v = Inr t' \<and> bpt_ok t' \<and>
     (\<forall>x. bpt_map t' x = (if x = k then Some v else bpt_map t x)) \<and> keeps_place k t t'"
proof (induction t k v rule: bpt_assoc_in.induct)
  case (1 p old k v)
  then show ?case
  proof (cases "k = p")
    case False
    then show ?thesis
      using bpt_split_ok [of "BPT_LEAF p old" k v] by (simp add: bpt_prefix_of_key_def)
  qed (auto simp: bpt_prefix_of_key_def keeps_place_def)
next
  case (2 p c m ch k v)
  let ?t = "BPT_INNER_NODE p c m ch" and ?n = "bpt_offset_of_key k c"
  let ?i = "bpt_compute_child_index m ?n"
  have c: "c \<le> 6" "bpt_prefix_of_key p c = p" using 2(2) by simp_all
  have n: "?n < 32" using c offset_less by simp
  show ?case
  proof (cases "bpt_prefix_of_key k c = p")
    case False
    then show ?thesis using bpt_split_ok [of ?t k v] 2(2) by simp
  next
    case p: True
    have place: "child_ok p c ?n u \<longleftrightarrow> c < bpt_branching_chunk u \<and> bpt_prefix_of_key (bpt_prefix u) (Suc c) = bpt_prefix_of_key k (Suc c)"
      for u :: "'a bpt" using child_ok_agree [OF c(1), of k u] p by simp
    have kp: "keeps_place k ?t (BPT_INNER_NODE p c m' ch')" for m' ch' by (simp add: keeps_place_def)
    show ?thesis
    proof (cases "bit m ?n")
      case True
      note child = bpt_ok_childD [OF 2(2) True]
      have "2 ^ ?n AND m \<noteq> 0" using True child_bit [OF n] by simp
      then obtain t' where t': "bpt_assoc_in (ch ! ?i) k v = Inr t'" "bpt_ok t'"
          "\<And>x. bpt_map t' x = (if x = k then Some v else bpt_map (ch ! ?i) x)" "keeps_place k (ch ! ?i) t'"
        using 2(1) [OF _ refl refl] p child by auto
      have "child_ok p c ?n t'" using t'(4) child(3) unfolding place by (auto simp: keeps_place_def)
      note set = bpt_set_child [OF 2(2) True refl t'(2) this]
      have "bpt_map (BPT_INNER_NODE p c m (ch[?i := t'])) x = (if x = k then Some v else bpt_map ?t x)" for x
        using True by (auto simp: set(2) t'(3) bpt_map_node [OF 2(2)])
      then show ?thesis using \<open>2 ^ ?n AND m \<noteq> 0\<close> p child(1) t'(1) set(1) kp by (simp add: Let_def del: bpt_ok.simps)
    next
      case False
      have leaf: "bpt_ok (BPT_LEAF k v)" "child_ok p c ?n (BPT_LEAF k v)"
        using c p by (simp_all add: child_ok_def MAX_CHUNKS_def)
      note add = bpt_add_child [OF 2(2) False n refl leaf]
      have "bpt_map (BPT_INNER_NODE p c (m OR push_bit ?n 1) (take ?i ch @ BPT_LEAF k v # drop ?i ch)) x =
          (if x = k then Some v else bpt_map ?t x)" for x
        using False add(3) by (auto simp: bpt_map_node [OF 2(2)])
      then show ?thesis using False child_bit [OF n] p add(1,2) kp by (simp add: Let_def del: bpt_ok.simps)
    qed
  qed
qed

section \<open>Removal\<close>

lemma bpt_remove_child:
  assumes ok: "bpt_ok (BPT_INNER_NODE p c m ch)" and bit: "bit m n"
    and i: "i = bpt_compute_child_index m n"
  shows "bpt_ok (BPT_INNER_NODE p c (m AND NOT (push_bit n 1)) (take i ch @ drop (Suc i) ch))"
    and "bpt_map (BPT_INNER_NODE p c (m AND NOT (push_bit n 1)) (take i ch @ drop (Suc i) ch)) x =
      (if bpt_offset_of_key x c = n then None else bpt_map (BPT_INNER_NODE p c m ch) x)"
proof -
  let ?m = "m AND NOT (push_bit n 1)" and ?ch = "take i ch @ drop (Suc i) ch"
  have n: "n < 32" using bit bit_imp_le_length [of m n] by simp
  have le: "i < length ch" using bpt_ok_childD(1) [OF ok bit] i by simp
  have i': "i = card (mask_below m n)" using i n by (simp add: child_index_card)
  have bits: "bit ?m n' \<longleftrightarrow> n' \<noteq> n \<and> bit m n'" for n'
    using n bit_imp_le_length [of m n'] by (auto simp: bit_simps)
  have nth: "?ch ! bpt_compute_child_index ?m n' = ch ! bpt_compute_child_index m n'" if "bit ?m n'" for n'
  proof -
    have n': "n' < 32" "bit m n'" "n' \<noteq> n" using that bits bit_imp_le_length [of ?m n'] by auto
    have idx: "bpt_compute_child_index m n' = bpt_compute_child_index ?m n' + of_bool (n < n')"
      using n' mask_below_clear [OF n bit, of n'] by (simp add: child_index_card)
    show ?thesis
    proof (cases "n' < n")
      case True
      then have "bpt_compute_child_index m n' < i" using child_index_less [of m n' n] n n' i' by (simp add: child_index_card)
      then show ?thesis using True idx le by (simp add: nth_append)
    next
      case False
      then have "n < n'" using n' by simp
      then have "i < bpt_compute_child_index m n'"
        unfolding i' child_index_card [OF n'(1)] using bit n' by (intro child_index_less) simp_all
      then show ?thesis using \<open>n < n'\<close> idx le by (simp add: nth_append)
    qed
  qed
  have "length ?ch = builtin_popcount ?m" using ok le mask_below_clear [OF n bit, of 32] n by (simp add: popcount_card)
  then show *: "bpt_ok (BPT_INNER_NODE p c ?m ?ch)"
    using ok le bits nth by (auto simp: list_all_iff dest: in_set_takeD in_set_dropD)
  show "bpt_map (BPT_INNER_NODE p c ?m ?ch) x =
      (if bpt_offset_of_key x c = n then None else bpt_map (BPT_INNER_NODE p c m ch) x)"
    using bits nth bpt_map_node [OF *, of x] bpt_map_node [OF ok, of x] by (auto simp del: push_bit_of_1)
qed

text \<open>Of two children, the one that is left stands for what is left.\<close>

lemma bpt_other_child:
  assumes ok: "bpt_ok (BPT_INNER_NODE p c m ch)" and bit: "bit m n"
    and i: "i = bpt_compute_child_index m n" and two: "builtin_popcount m = 2"
  shows "\<exists>n'. n' \<noteq> n \<and> bit m n' \<and> bpt_compute_child_index m n' = 1 - i \<and> (\<forall>k. bit m k \<longrightarrow> k = n \<or> k = n')"
proof -
  have n: "n < 32" using bit bit_imp_le_length [of m n] by simp
  have "card (mask_below m 32 - {n}) = 1"
    using two bit n by (simp add: popcount_card mask_below_def card_Diff_singleton)
  then obtain n' where n': "mask_below m 32 - {n} = {n'}" by (auto simp: card_1_singleton_iff)
  then have b: "n' \<noteq> n" "bit m n'" "n' < 32" by (auto simp: mask_below_def)
  have all: "k = n \<or> k = n'" if "bit m k" for k
    using that n' bit_imp_le_length [of m k] by (auto simp: mask_below_def)
  have below: "mask_below m k = (if n < k then {n} else {}) \<union> (if n' < k then {n'} else {})" for k
    using all bit b by (auto simp: mask_below_def)
  have "bpt_compute_child_index m n' = 1 - i"
    using b(1) unfolding i child_index_card [OF b(3)] child_index_card [OF n] below by auto
  then show ?thesis using b all by blast
qed

lemma child_ok_down:
  assumes "child_ok p' c' n' (BPT_INNER_NODE p c m ch)" "child_ok p c n u" "c \<le> 6"
  shows "child_ok p' c' n' u"
proof -
  have c: "c' < c" "bpt_prefix_of_key (bpt_prefix u) c = bpt_prefix_of_key p c"
    using assms prefix_prefix [of c c "bpt_prefix u"] by (auto simp: child_ok_def)
  have "bpt_prefix_of_key (bpt_prefix u) (Suc c') = bpt_prefix_of_key p (Suc c')"
    using prefix_mono [OF c(2), of "Suc c'"] c assms(3) by simp
  then show ?thesis using assms c prefix_Suc [of c' "bpt_prefix u" p] by (auto simp: child_ok_def)
qed

lemma bpt_map_other_child:
  assumes ok: "bpt_ok (BPT_INNER_NODE p c m ch)" and n': "bit m n'" "n' \<noteq> n"
    and only: "\<And>k. bit m k \<Longrightarrow> k = n \<or> k = n'"
    and none: "\<And>x. bpt_offset_of_key x c = n \<Longrightarrow> x \<noteq> k \<Longrightarrow> bpt_map (BPT_INNER_NODE p c m ch) x = None"
    and k: "bpt_offset_of_key k c = n"
  shows "bpt_map (ch ! bpt_compute_child_index m n') x = (if x = k then None else bpt_map (BPT_INNER_NODE p c m ch) x)"
proof (cases "bpt_offset_of_key x c = n'")
  case True
  then show ?thesis using n' k bpt_map_node [OF ok, of x] by auto
next
  case False
  let ?u = "ch ! bpt_compute_child_index m n'"
  note child = bpt_ok_childD [OF ok n'(1)]
  have c: "c < bpt_branching_chunk ?u" "c \<le> 6" using child(3) ok by (auto simp: child_ok_def)
  have "bpt_map ?u x = None"
  proof (rule ccontr)
    assume "bpt_map ?u x \<noteq> None"
    then have "bpt_prefix_of_key x (Suc c) = bpt_prefix_of_key (bpt_prefix ?u) (Suc c)"
      using bpt_map_prefix [OF child(2)] prefix_prefix [of "Suc c" "bpt_branching_chunk ?u" x] c branching_le [OF child(2)] by simp
    then show False using False child(3) prefix_Suc [OF c(2)] by (simp add: child_ok_def)
  qed
  then show ?thesis using False only none bpt_map_node [OF ok, of x] by metis
qed

lemma bpt_dissoc_in_ok:
  "bpt_ok t \<Longrightarrow> \<exists>r. bpt_dissoc_in t k = Inr r \<and>
     (case r of None \<Rightarrow> \<forall>x. x \<noteq> k \<longrightarrow> bpt_map t x = None
      | Some t' \<Rightarrow> bpt_ok t' \<and> (\<forall>x. bpt_map t' x = (if x = k then None else bpt_map t x)) \<and>
          (\<forall>p c n. child_ok p c n t \<longrightarrow> child_ok p c n t'))"
proof (induction t k rule: bpt_dissoc_in.induct)
  case (2 p c m ch k)
  let ?t = "BPT_INNER_NODE p c m ch" and ?n = "bpt_offset_of_key k c"
  let ?i = "bpt_compute_child_index m ?n"
  have c: "c \<le> 6" using 2(2) by simp
  have n: "?n < 32" using c offset_less by simp
  have kn: "bpt_map ?t x = None" if "bpt_prefix_of_key x c \<noteq> p" for x
    using bpt_map_prefix [OF 2(2), of x] that by (cases "bpt_map ?t x") auto
  show ?case
  proof (cases "bpt_prefix_of_key k c = p \<and> bit m ?n")
    case False
    then have "bpt_map ?t k = None" using kn [of k] bpt_map_node [OF 2(2), of k] by auto
    moreover have "bpt_dissoc_in ?t k = Inr (Some ?t)" using False child_bit [OF n, of m] by (auto simp: Let_def)
    ultimately show ?thesis using 2(2) by (auto simp del: bpt_ok.simps)
  next
    case True
    then have bit: "bit m ?n" and p: "bpt_prefix_of_key k c = p" by simp_all
    note child = bpt_ok_childD [OF 2(2) bit]
    have b: "2 ^ ?n AND m \<noteq> 0" using bit child_bit [OF n] by simp
    obtain r where r: "bpt_dissoc_in (ch ! ?i) k = Inr r" "case r of None \<Rightarrow> \<forall>x. x \<noteq> k \<longrightarrow> bpt_map (ch ! ?i) x = None
        | Some t' \<Rightarrow> bpt_ok t' \<and> (\<forall>x. bpt_map t' x = (if x = k then None else bpt_map (ch ! ?i) x)) \<and>
            (\<forall>p c n. child_ok p c n (ch ! ?i) \<longrightarrow> child_ok p c n t')"
      using 2(1) [OF refl _ refl] p b child by auto
    show ?thesis
    proof (cases r)
      case None
      have other: "bpt_map ?t x = None" if "bpt_offset_of_key x c = ?n" "x \<noteq> k" for x
        using r(2) None that bpt_map_node [OF 2(2), of x] by (auto split: if_splits)
      show ?thesis
      proof (cases "builtin_popcount m = 2")
        case True
        obtain n' where n': "n' \<noteq> ?n" "bit m n'" "bpt_compute_child_index m n' = 1 - ?i" "\<And>k. bit m k \<Longrightarrow> k = ?n \<or> k = n'"
          using bpt_other_child [OF 2(2) bit refl True] by blast
        note u = bpt_ok_childD [OF 2(2) n'(2), unfolded n'(3)]
        have "bpt_dissoc_in ?t k = Inr (Some (ch ! (1 - ?i)))"
          using p b child(1) u(1) True r(1) None by (simp add: Let_def)
        moreover have "bpt_map (ch ! (1 - ?i)) x = (if x = k then None else bpt_map ?t x)" for x
          using bpt_map_other_child [OF 2(2) n'(2,1,4) other refl] by (simp add: n'(3))
        ultimately show ?thesis using u(2,3) child_ok_down c by (auto simp del: bpt_dissoc_in.simps)
      next
        case False
        note rem = bpt_remove_child [OF 2(2) bit refl]
        have "bpt_dissoc_in ?t k = Inr (Some (BPT_INNER_NODE p c (m AND NOT (push_bit ?n 1)) (take ?i ch @ drop (Suc ?i) ch)))"
          using p b child(1) False r(1) None by (simp add: Let_def)
        then show ?thesis using rem other by (auto simp: child_ok_def simp del: bpt_dissoc_in.simps bpt_ok.simps push_bit_of_1)
      qed
    next
      case (Some t')
      then have t': "bpt_ok t'" "child_ok p c ?n t'" "\<And>x. bpt_map t' x = (if x = k then None else bpt_map (ch ! ?i) x)"
        using r(2) child(3) by auto
      note set = bpt_set_child [OF 2(2) bit refl t'(1,2)]
      have "bpt_dissoc_in ?t k = Inr (Some (BPT_INNER_NODE p c m (ch[?i := t'])))"
        using p b child(1) r(1) Some by (simp add: Let_def)
      moreover have "bpt_map (BPT_INNER_NODE p c m (ch[?i := t'])) x = (if x = k then None else bpt_map ?t x)" for x
        using bit by (auto simp: set(2) t'(3) bpt_map_node [OF 2(2)])
      ultimately show ?thesis using set(1) by (auto simp: child_ok_def simp del: bpt_dissoc_in.simps bpt_ok.simps)
    qed
  qed
qed (auto simp: bpt_prefix_of_key_def)

section \<open>The tree as a map\<close>

definition bpt_wf :: "'v bpt option \<Rightarrow> bool" where
  "bpt_wf bpt = (case bpt of None \<Rightarrow> True | Some t \<Rightarrow> bpt_ok t)"

definition bpt_look :: "'v bpt option \<Rightarrow> bpt_key_t \<Rightarrow> 'v option" where
  "bpt_look bpt = (case bpt of None \<Rightarrow> Map.empty | Some t \<Rightarrow> bpt_map t)"

lemma bpt_wf_simps [simp]: "bpt_wf None" "bpt_wf (Some t) = bpt_ok t" "bpt_look None = Map.empty" "bpt_look (Some t) = bpt_map t"
  by (simp_all add: bpt_wf_def bpt_look_def)

text \<open>What a client of a tree of keys relies on, with the tree, its map and its operations left open.\<close>

locale key_tree =
  fixes wf :: "'t option \<Rightarrow> bool" and look :: "'t option \<Rightarrow> 'k \<Rightarrow> 'v option"
    and get :: "'t option \<Rightarrow> 'k \<Rightarrow> 'v option res" and assoc :: "'t option \<Rightarrow> 'k \<Rightarrow> 'v \<Rightarrow> 't res"
    and dissoc :: "'t option \<Rightarrow> 'k \<Rightarrow> 't option res"
  assumes wf_empty: "wf None" and look_empty: "look None k = None"
    and get_look: "wf t \<Longrightarrow> get t k = Inr (look t k)"
    and assoc_look: "wf t \<Longrightarrow> \<exists>t'. assoc t k v = Inr t' \<and> wf (Some t') \<and> look (Some t') = (look t)(k \<mapsto> v)"
    and dissoc_look: "wf t \<Longrightarrow> \<exists>t'. dissoc t k = Inr t' \<and> wf t' \<and> look t' = (look t)(k := None)"
begin

lemma assoc_get:
  assumes "wf t"
  obtains t' where "assoc t k v = Inr t'" "wf (Some t')" "\<And>x. get (Some t') x = (if x = k then Inr (Some v) else get t x)"
proof -
  obtain t' where "assoc t k v = Inr t'" "wf (Some t')" "look (Some t') = (look t)(k \<mapsto> v)"
    using assoc_look [OF assms] by blast
  then show thesis using that [of t'] get_look [OF assms] get_look [of "Some t'"] by simp
qed

lemma dissoc_get:
  assumes "wf t"
  obtains t' where "dissoc t k = Inr t'" "wf t'" "\<And>x. get t' x = (if x = k then Inr None else get t x)"
proof -
  obtain t' where "dissoc t k = Inr t'" "wf t'" "look t' = (look t)(k := None)"
    using dissoc_look [OF assms] by blast
  then show thesis using that [of t'] get_look [OF assms] get_look [of t'] by simp
qed

end

interpretation bpt: key_tree bpt_wf bpt_look bpt_get bpt_assoc bpt_dissoc
proof
  fix t :: "'v bpt option" and k v
  show "bpt_get t k = Inr (bpt_look t k)" if "bpt_wf t"
    using that bpt_get_leaf_map by (cases t) (simp_all add: bpt_get_def)
  show "\<exists>t'. bpt_assoc t k v = Inr t' \<and> bpt_wf (Some t') \<and> bpt_look (Some t') = (bpt_look t)(k \<mapsto> v)" if "bpt_wf t"
  proof (cases t)
    case (Some u)
    then show ?thesis using that bpt_assoc_in_ok [of u k v] by (auto simp: bpt_assoc_def fun_eq_iff)
  qed (simp add: bpt_assoc_def)
  show "\<exists>t'. bpt_dissoc t k = Inr t' \<and> bpt_wf t' \<and> bpt_look t' = (bpt_look t)(k := None)" if "bpt_wf t"
  proof (cases t)
    case (Some u)
    then have "bpt_ok u" using that by simp
    then obtain r where r: "bpt_dissoc_in u k = Inr r" "case r of None \<Rightarrow> \<forall>x. x \<noteq> k \<longrightarrow> bpt_map u x = None
      | Some t' \<Rightarrow> bpt_ok t' \<and> (\<forall>x. bpt_map t' x = (if x = k then None else bpt_map u x)) \<and>
          (\<forall>p c n. child_ok p c n u \<longrightarrow> child_ok p c n t')"
      using bpt_dissoc_in_ok [of u k] by auto
    then show ?thesis using Some by (cases r) (auto simp: bpt_dissoc_def fun_eq_iff)
  qed (simp add: bpt_dissoc_def fun_eq_iff)
qed simp_all

text \<open>
  C12: On every well-formed tree \<^verbatim>\<open>bpt_assoc\<close> returns a well-formed tree in which the key has the value, and every
  other key what it had; every index it computes is inside the array of children.
\<close>

theorem bpt_assoc_get:
  assumes "bpt_wf t"
  shows "\<exists>t'. bpt_assoc t key value = Inr t' \<and> bpt_wf (Some t') \<and>
    (\<forall>k. bpt_get (Some t') k = (if k = key then Inr (Some value) else bpt_get t k))"
  using bpt.assoc_get [OF assms] by metis

theorem bpt_assoc_get_witness:
  "bpt_wf (Some (BPT_LEAF 5 True)) \<and> (\<exists>t'. bpt_assoc (Some (BPT_LEAF 5 True)) 0x80000005 False = Inr t' \<and>
     bpt_get (Some t') 5 = Inr (Some True) \<and> bpt_get (Some t') 0x80000005 = Inr (Some False))"
  using bpt_assoc_get [of "Some (BPT_LEAF 5 True)" "0x80000005" False] by (auto simp: bpt_get_def)

text \<open>
  On every well-formed tree \<^verbatim>\<open>bpt_dissoc\<close> returns a well-formed tree, or none, in which the key is gone and
  every other key has what it had.
\<close>

theorem bpt_dissoc_get:
  assumes "bpt_wf t"
  shows "\<exists>t'. bpt_dissoc t key = Inr t' \<and> bpt_wf t' \<and>
    (\<forall>k. bpt_get t' k = (if k = key then Inr None else bpt_get t k))"
  using bpt.dissoc_get [OF assms] by metis

theorem bpt_dissoc_get_witness:
  "bpt_wf (Some (BPT_LEAF 5 True)) \<and> (\<exists>t'. bpt_dissoc (Some (BPT_LEAF 5 True)) 5 = Inr t' \<and> bpt_get t' 5 = Inr None)"
  using bpt_dissoc_get [of "Some (BPT_LEAF 5 True)" 5] by auto

end
