(* ===== verification/Rail.thy ===== *)
theory Rail
  imports Atoms
begin

text \<open>
  Making nouns, \<^verbatim>\<open>f/rail.c\<close>: slabs and their conversion to atoms (\<^verbatim>\<open>u2_rl_slab\<close>,
  \<^verbatim>\<open>u2_rl_slaq\<close>, \<^verbatim>\<open>u2_rl_mint\<close>, \<^verbatim>\<open>u2_rl_moot\<close>, \<^verbatim>\<open>u2_rl_malt\<close>), atoms from word and byte
  buffers (\<^verbatim>\<open>u2_rl_words\<close>, \<^verbatim>\<open>u2_rl_bytes\<close>), cells, lists, tuples, the successor, edits by
  axis, and the transfer of atoms to and from GMP integers.

  An atom under construction is a \<open>u2_atom_rep\<close>, a direct word or a word buffer. The allocator
  is not part of this theory: the definitions are of a rail with room for what they make, so
  \<^verbatim>\<open>u2_rl_open\<close> answers yes and \<^verbatim>\<open>u2_rl_slab\<close> never returns 0. (Without room the code calls
  \<^verbatim>\<open>u2_loop_signal_memory\<close>, whose assertion ends the process, or, as \<^verbatim>\<open>u2_rl_words\<close> does when
  \<^verbatim>\<open>u2_rl_open\<close> refuses, returns \<^verbatim>\<open>u2_none\<close>.) The limit the code itself sets, an atom
  of \<open>2\<^sup>2\<^sup>7\<close> words, is a branch of \<^verbatim>\<open>u2_rl_words\<close> and \<^verbatim>\<open>u2_rl_bytes\<close>: it makes the same call, so
  it is the failed assertion \<open>Inl Abort\<close>, never a \<^verbatim>\<open>u2_none\<close>.
\<close>

section \<open>Atom representations\<close>

datatype u2_atom_rep = Cat c3_w | Pug "c3_w list"

primrec atom_of :: "u2_atom_rep \<Rightarrow> nat" where
  "atom_of (Cat w) = unat w"
| "atom_of (Pug ws) = words_atom ws"

text \<open>
  The canonical representation: a direct atom is below \<open>2\<^sup>3\<^sup>1\<close>, an indirect one is not and
  has no leading zero word. Equality of atoms (\<^verbatim>\<open>_sing_x\<close>) relies on it.
\<close>

primrec rep_ok :: "u2_atom_rep \<Rightarrow> bool" where
  "rep_ok (Cat w) \<longleftrightarrow> unat w < 2 ^ 31"
| "rep_ok (Pug ws) \<longleftrightarrow> ws \<noteq> [] \<and> last ws \<noteq> 0 \<and> \<not> u2_fly_is_cat (words_atom ws)"

definition rep_of :: "nat \<Rightarrow> u2_atom_rep" where
  "rep_of a = (if u2_fly_is_cat a then Cat (of_nat a) else Pug (atom_words a))"

lemma atom_of_rep_of [simp]: "atom_of (rep_of a) = a"
  by (simp add: rep_of_def u2_fly_is_cat_def unat_of_nat_c3_w)

lemma rep_ok_rep_of [simp]: "rep_ok (rep_of a)"
  by (auto simp: rep_of_def u2_fly_is_cat_def unat_of_nat_c3_w)

lemma rep_of_atom_of: "rep_ok r \<Longrightarrow> rep_of (atom_of r) = r"
  by (cases r) (auto simp: rep_of_def u2_fly_is_cat_def atom_words_unique)

lemma rep_ok_inject: "rep_ok r \<Longrightarrow> rep_ok s \<Longrightarrow> atom_of r = atom_of s \<longleftrightarrow> r = s"
  by (metis rep_of_atom_of)

section \<open>Slabs\<close>

definition u2_rl_slab :: "c3_w \<Rightarrow> c3_w list" where
  "u2_rl_slab len_w = replicate (unat len_w) 0"

definition u2_rl_slaq :: "nat \<Rightarrow> c3_w \<Rightarrow> c3_w list" where
  "u2_rl_slaq met_g len_w = u2_rl_slab (drop_bit 5 (push_bit met_g len_w + 31))"

text \<open>
  \<^verbatim>\<open>u2_rl_mint\<close> keeps the first \<open>len\<close> words; returning the tail of the block to the free
  list has no effect on the atom.
\<close>

definition u2_rl_mint :: "c3_w list \<Rightarrow> nat \<Rightarrow> u2_atom_rep" where
  "u2_rl_mint sal len_w =
     (if len_w = 0 then Cat 0
      else if len_w = 1 \<and> drop_bit 31 (sal ! 0) = 0 then Cat (sal ! 0)
      else Pug (take len_w sal))"

definition u2_rl_moot :: "c3_w list \<Rightarrow> u2_atom_rep res" where
  "u2_rl_moot sal =
     (if sal = [] then Inl Wild
      else if last sal = 0 then Inl Abort
      else if length sal = 1 \<and> drop_bit 31 (last sal) = 0 then Inr (Cat (last sal))
      else Inr (Pug sal))"

text \<open>The loop that drops leading zero words, in \<^verbatim>\<open>u2_rl_malt\<close> and \<^verbatim>\<open>u2_rl_words\<close>.\<close>

primrec strip_len :: "'a::zero list \<Rightarrow> nat \<Rightarrow> nat" where
  "strip_len ws 0 = 0"
| "strip_len ws (Suc n) = (if ws ! n \<noteq> 0 then Suc n else strip_len ws n)"

definition u2_rl_malt :: "c3_w list \<Rightarrow> u2_atom_rep" where
  "u2_rl_malt sal = u2_rl_mint sal (strip_len sal (length sal))"

definition u2_rl_words :: "c3_w list \<Rightarrow> u2_atom_rep res" where
  "u2_rl_words b_w =
     (let a_w = strip_len b_w (length b_w)
      in if a_w = 0 then Inr (Cat 0)
         else if a_w = 1 \<and> drop_bit 31 (b_w ! 0) = 0 then Inr (Cat (b_w ! 0))
         else if a_w \<ge> 2 ^ 27 then Inl Abort
         else Inr (Pug (take a_w b_w)))"

lemma strip_len_le: "strip_len ws n \<le> n"
  by (induction n) auto

lemma strip_len_last: "0 < strip_len ws n \<Longrightarrow> ws ! (strip_len ws n - 1) \<noteq> 0"
  by (induction n) auto

lemma strip_len_zero: "strip_len ws n \<le> i \<Longrightarrow> i < n \<Longrightarrow> ws ! i = 0"
  by (induction n) (auto simp: less_Suc_eq split: if_splits)

lemma words_atom_strip: "words_atom (take (strip_len ws (length ws)) ws) = words_atom ws"
proof -
  let ?k = "strip_len ws (length ws)"
  have "drop ?k ws = replicate (length ws - ?k) 0"
    by (rule nth_equalityI) (auto intro: strip_len_zero [of ws "length ws"])
  then have "words_atom ws = words_atom (take ?k ws @ replicate (length ws - ?k) 0)"
    by (metis append_take_drop_id)
  then show ?thesis by (simp add: words_atom_append)
qed

lemma last_strip:
  assumes "0 < strip_len ws (length ws)"
  shows "last (take (strip_len ws (length ws)) ws) \<noteq> 0"
proof -
  let ?k = "strip_len ws (length ws)"
  have "?k \<le> length ws" by (rule strip_len_le)
  then have "last (take ?k ws) = ws ! (?k - 1)" using assms by (subst last_conv_nth) auto
  then show ?thesis using strip_len_last [OF assms] by simp
qed

lemma words_atom_large:
  assumes "ws \<noteq> []" "last ws \<noteq> 0" "length ws = 1 \<longrightarrow> drop_bit 31 (ws ! 0) \<noteq> 0"
  shows "\<not> u2_fly_is_cat (words_atom ws)"
proof -
  have "nbits (words_atom ws) = 32 * (length ws - 1) + nbits (unat (last ws))"
    using assms(1,2) by (rule nbits_words_atom)
  moreover have "0 < nbits (unat (last ws))" using assms(2) by (rule nbits_unat_pos)
  moreover have "31 < nbits (unat (last ws))" if "length ws = 1"
    using assms(3) that by (cases ws) (auto simp: drop_bit_eq_0_c3_w)
  moreover have "length ws = 1 \<or> 2 \<le> length ws" using assms(1) by (cases ws) (auto simp: Suc_le_eq)
  ultimately have "31 < nbits (words_atom ws)" by linarith
  then show ?thesis by (simp add: u2_fly_is_cat_def nbits_less_iff not_less)
qed

lemma u2_rl_mint_ok:
  assumes "len = strip_len ws (length ws)"
  shows "rep_ok (u2_rl_mint ws len)" and "atom_of (u2_rl_mint ws len) = words_atom ws"
proof -
  have le: "len \<le> length ws" by (simp add: assms strip_len_le)
  have take: "words_atom (take len ws) = words_atom ws" by (simp add: assms words_atom_strip)
  have last: "last (take len ws) \<noteq> 0" if "0 < len" using last_strip [of ws] that assms by simp
  have small: "take len ws = [ws ! 0]" if "len = 1" using that le by (cases ws) auto
  show "atom_of (u2_rl_mint ws len) = words_atom ws"
    using take small by (auto simp: u2_rl_mint_def)
  show "rep_ok (u2_rl_mint ws len)"
  proof (cases "len = 0 \<or> len = 1 \<and> drop_bit 31 (ws ! 0) = 0")
    case True
    then show ?thesis by (auto simp: u2_rl_mint_def drop_bit_eq_0_c3_w nbits_le_iff)
  next
    case False
    then have pos: "0 < len" and ne: "take len ws \<noteq> []" using le by auto
    have "\<not> u2_fly_is_cat (words_atom (take len ws))"
      using False le by (intro words_atom_large [OF ne last [OF pos]]) (auto simp: min_def)
    then show ?thesis using False ne last [OF pos] by (auto simp: u2_rl_mint_def)
  qed
qed

lemma u2_rl_malt_ok [simp]: "rep_ok (u2_rl_malt sal)"
  by (simp add: u2_rl_malt_def u2_rl_mint_ok)

lemma atom_of_u2_rl_malt [simp]: "atom_of (u2_rl_malt sal) = words_atom sal"
  by (simp add: u2_rl_malt_def u2_rl_mint_ok)

lemma strip_len_atom_words: "strip_len ws (length ws) = length (atom_words (words_atom ws))"
proof -
  let ?k = "strip_len ws (length ws)"
  have "?k \<le> length ws" by (rule strip_len_le)
  then have "take ?k ws = [] \<or> last (take ?k ws) \<noteq> 0" using last_strip [of ws] by auto
  then have "atom_words (words_atom (take ?k ws)) = take ?k ws" by (rule atom_words_unique)
  with \<open>?k \<le> length ws\<close> show ?thesis by (simp add: words_atom_strip)
qed

lemma u2_rl_words_correct:
  "u2_rl_words ws = (if atom_fits (words_atom ws) then Inr (rep_of (words_atom ws)) else Inl Abort)"
proof -
  let ?k = "strip_len ws (length ws)"
  have fits: "atom_fits (words_atom ws) \<longleftrightarrow> ?k < 2 ^ 27"
    by (simp add: atom_fits_def strip_len_atom_words)
  have "u2_rl_words ws = (if ?k < 2 ^ 27 then Inr (u2_rl_malt ws) else Inl Abort)"
    by (simp add: u2_rl_words_def u2_rl_malt_def u2_rl_mint_def Let_def not_less)
  moreover have "u2_rl_malt ws = rep_of (words_atom ws)"
    using rep_of_atom_of [of "u2_rl_malt ws"] by simp
  ultimately show ?thesis by (simp add: fits)
qed

section \<open>Atoms from bytes\<close>

primrec bytes_atom :: "c3_y list \<Rightarrow> nat" where
  "bytes_atom [] = 0"
| "bytes_atom (b # bs) = unat b + 2 ^ 8 * bytes_atom bs"

primrec bytes_fill :: "c3_y list \<Rightarrow> nat \<Rightarrow> c3_w list \<Rightarrow> c3_w list" where
  "bytes_fill [] i_w buf = buf"
| "bytes_fill (b # bs) i_w buf =
     bytes_fill bs (Suc i_w)
       (buf[i_w div 4 := buf ! (i_w div 4) OR push_bit (i_w mod 4 * 8) (ucast b)])"

definition u2_rl_bytes :: "c3_y list \<Rightarrow> u2_atom_rep res" where
  "u2_rl_bytes b_y =
     (let a_w = strip_len b_y (length b_y)
      in if a_w = 0 then Inr (Cat 0)
         else if a_w = 1 then Inr (Cat (ucast (b_y ! 0)))
         else if a_w = 2 then Inr (Cat (ucast (b_y ! 0) OR push_bit 8 (ucast (b_y ! 1))))
         else if a_w = 3 then
           Inr (Cat (ucast (b_y ! 0) OR push_bit 8 (ucast (b_y ! 1)) OR push_bit 16 (ucast (b_y ! 2))))
         else if a_w = 4 \<and> b_y ! 3 \<le> 0x7f then
           Inr (Cat (ucast (b_y ! 0) OR push_bit 8 (ucast (b_y ! 1)) OR push_bit 16 (ucast (b_y ! 2))
             OR push_bit 24 (ucast (b_y ! 3))))
         else
           let len_w = (a_w + 3) div 4
           in if len_w \<ge> 2 ^ 27 then Inl Abort
              else Inr (Pug (bytes_fill (take a_w b_y) 0 (replicate len_w 0))))"

definition u2_rl_string :: "c3_y list \<Rightarrow> u2_atom_rep res" where
  "u2_rl_string a_c = u2_rl_bytes a_c"

lemma bytes_atom_append: "bytes_atom (bs @ cs) = bytes_atom bs + 2 ^ (8 * length bs) * bytes_atom cs"
  by (induction bs) (simp_all add: algebra_simps power_add)

lemma bytes_atom_zeros [simp]: "bytes_atom (replicate n 0) = 0"
  by (induction n) simp_all

lemma unat_c3_y: "unat (b :: c3_y) < 2 ^ 8"
  using unsigned_less [of b] by simp

lemma bit_bytes_atom_Cons:
  "bit (bytes_atom (b # bs)) j = (if j < 8 then bit b j else bit (bytes_atom bs) (j - 8))"
  using bit_add_disjoint [OF unat_c3_y [of b], of "bytes_atom bs" j] by (simp add: bit_unsigned_iff)

lemma bytes_atom_less: "bytes_atom bs < 2 ^ (8 * length bs)"
proof (induction bs)
  case (Cons b bs)
  have "unat b < 2 ^ 8" by (rule unat_c3_y)
  moreover have "2 ^ 8 * Suc (bytes_atom bs) \<le> 2 ^ 8 * 2 ^ (8 * length bs)"
    using Cons by (intro mult_le_mono2) simp
  ultimately show ?case by (simp add: power_add)
qed simp

lemma bit_words_atom_update:
  assumes "k < length buf"
  shows "bit (words_atom (buf[k := buf ! k OR x])) j \<longleftrightarrow>
    bit (words_atom buf) j \<or> j div 32 = k \<and> bit x (j mod 32)"
  using assms by (auto simp: bit_words_atom nth_list_update bit_or_iff)

lemma byte_place:
  "j div 32 = i div 4 \<and> bit (push_bit (i mod 4 * 8) (ucast (b :: c3_y)) :: c3_w) (j mod 32) \<longleftrightarrow>
   8 * i \<le> j \<and> j < 8 * i + 8 \<and> bit b (j - 8 * i)"
proof (cases "j div 32 = i div 4")
  case True
  have "j = 32 * (i div 4) + j mod 32" using True by (metis mult_div_mod_eq)
  moreover have "8 * i = 32 * (i div 4) + i mod 4 * 8" using mult_div_mod_eq [of 4 i] by linarith
  ultimately have "j - 8 * i = j mod 32 - i mod 4 * 8" "8 * i \<le> j \<longleftrightarrow> i mod 4 * 8 \<le> j mod 32"
    by linarith+
  moreover have "j - 8 * i < 8" "j < 8 * i + 8" if "bit b (j - 8 * i)"
    using bit_imp_le_length [OF that] by simp_all
  ultimately show ?thesis using True by (auto simp: bit_simps)
next
  case False
  have "j div 32 = i div 4" if "8 * i \<le> j" "j < 8 * i + 8"
  proof -
    have "j div 8 = i" using that by (intro div_nat_eqI) simp_all
    then show ?thesis using div_mult2_eq [of j 8 4] by simp
  qed
  then show ?thesis using False by blast
qed

lemma bit_bytes_fill:
  "i + length bs \<le> 4 * length buf \<Longrightarrow>
   bit (words_atom (bytes_fill bs i buf)) j \<longleftrightarrow>
     bit (words_atom buf) j \<or> 8 * i \<le> j \<and> bit (bytes_atom bs) (j - 8 * i)"
proof (induction bs arbitrary: i buf)
  case (Cons b bs)
  have "i div 4 < length buf" using Cons.prems by (simp add: div_less_iff_less_mult)
  moreover have "j - 8 * i - 8 = j - 8 * Suc i" "8 * Suc i \<le> j \<longleftrightarrow> 8 * i \<le> j \<and> \<not> j - 8 * i < 8" by auto
  moreover have "8 * i \<le> j \<Longrightarrow> j < 8 * i + 8 \<longleftrightarrow> j - 8 * i < 8" by auto
  ultimately show ?case
    using Cons by (auto simp: bit_words_atom_update byte_place bit_bytes_atom_Cons simp del: bytes_atom.simps)
qed simp

lemma length_bytes_fill [simp]: "length (bytes_fill bs i buf) = length buf"
  by (induction bs arbitrary: i buf) simp_all

lemma words_atom_bytes_fill:
  "length bs \<le> 4 * n \<Longrightarrow> words_atom (bytes_fill bs 0 (replicate n 0)) = bytes_atom bs"
  by (rule bit_eqI) (simp add: bit_bytes_fill)

lemma bytes_atom_strip: "bytes_atom (take (strip_len bs (length bs)) bs) = bytes_atom bs"
proof -
  let ?k = "strip_len bs (length bs)"
  have "drop ?k bs = replicate (length bs - ?k) 0"
    by (rule nth_equalityI) (auto intro: strip_len_zero [of bs "length bs"])
  then have "bytes_atom bs = bytes_atom (take ?k bs @ replicate (length bs - ?k) 0)"
    by (metis append_take_drop_id)
  then show ?thesis by (simp add: bytes_atom_append)
qed

lemma nbits_bytes_atom:
  assumes "bs \<noteq> []" "last bs \<noteq> 0"
  shows "nbits (bytes_atom bs) = 8 * (length bs - 1) + nbits (unat (last bs))"
proof -
  have "bs = butlast bs @ [last bs]" using assms(1) by simp
  then have "bytes_atom bs = bytes_atom (butlast bs) + 2 ^ (8 * (length bs - 1)) * unat (last bs)"
    by (metis (no_types) bytes_atom_append bytes_atom.simps add.right_neutral length_butlast mult_0_right)
  moreover have "bytes_atom (butlast bs) < 2 ^ (8 * (length bs - 1))"
    using bytes_atom_less [of "butlast bs"] by simp
  ultimately show ?thesis using assms(2) by (simp add: nbits_add_power unat_gt_0)
qed

lemma bytes_fill_canonical:
  assumes "bs \<noteq> []" "last bs \<noteq> 0"
  shows "bytes_fill bs 0 (replicate ((length bs + 3) div 4) 0) = atom_words (bytes_atom bs)"
proof (rule words_atom_inject)
  let ?n = "(length bs + 3) div 4"
  have n: "nbits (bytes_atom bs) = 8 * (length bs - 1) + nbits (unat (last bs))"
    using assms by (rule nbits_bytes_atom)
  have "nbits (unat (last bs)) \<le> 8" using unat_c3_y [of "last bs"] by (simp add: nbits_le_iff)
  moreover have "0 < nbits (unat (last bs))" using assms(2) by (simp add: zero_less_iff_neq_zero unat_eq_0)
  moreover obtain l where l: "length bs = Suc l" using assms(1) by (cases bs) auto
  ultimately have "(8 * (length bs - 1) + nbits (unat (last bs)) + 31) div 8 = length bs + 3"
    unfolding l by (intro div_nat_eqI) auto
  then show "length (bytes_fill bs 0 (replicate ?n 0)) = length (atom_words (bytes_atom bs))"
    using div_mult2_eq [of "8 * (length bs - 1) + nbits (unat (last bs)) + 31" 8 4]
    by (simp add: length_atom_words n)
  show "words_atom (bytes_fill bs 0 (replicate ?n 0)) = words_atom (atom_words (bytes_atom bs))"
    by (subst words_atom_bytes_fill) (simp_all, linarith?)
qed

lemma u2_rl_bytes_cat:
  assumes "0 < length bs" "length bs \<le> 4" "words_atom (bytes_fill bs 0 [0]) < 2 ^ 31"
  shows "Cat (hd (bytes_fill bs 0 [0])) = rep_of (bytes_atom bs)"
proof -
  have "words_atom (bytes_fill bs 0 (replicate 1 0)) = bytes_atom bs"
    using assms(2) by (intro words_atom_bytes_fill) simp
  moreover obtain w where "bytes_fill bs 0 [0] = [w]"
    using length_bytes_fill [of bs 0 "[0]"] by (auto simp: length_Suc_conv simp del: length_bytes_fill)
  ultimately show ?thesis using assms(3) by (auto simp: rep_of_def u2_fly_is_cat_def word_unat_eq_iff unat_of_nat_c3_w)
qed

lemma u2_rl_bytes_nonempty:
  fixes bs :: "c3_y list"
  assumes "bs \<noteq> []" "last bs \<noteq> 0"
  shows "length bs \<le> 3 \<or> length bs = 4 \<and> bs ! 3 \<le> 0x7f \<longleftrightarrow> u2_fly_is_cat (bytes_atom bs)"
proof -
  have n: "nbits (bytes_atom bs) = 8 * (length bs - 1) + nbits (unat (last bs))"
    using assms by (rule nbits_bytes_atom)
  have "nbits (unat (last bs)) \<le> 8" using unat_c3_y [of "last bs"] by (simp add: nbits_le_iff)
  moreover have "0 < nbits (unat (last bs))" using assms(2) by (simp add: zero_less_iff_neq_zero unat_eq_0)
  moreover have "length bs = 4 \<Longrightarrow> bs ! 3 \<le> 0x7f \<longleftrightarrow> nbits (unat (last bs)) \<le> 7"
    using assms(1) by (simp add: last_conv_nth nbits_le_iff word_le_nat_alt)  auto
  moreover have "u2_fly_is_cat (bytes_atom bs) \<longleftrightarrow> nbits (bytes_atom bs) \<le> 31"
    by (simp add: u2_fly_is_cat_def nbits_le_iff)
  moreover obtain l where l: "length bs = Suc l" using assms(1) by (cases bs) auto
  moreover consider "l \<le> 2" | "l = 3" | "4 \<le> l" by linarith
  ultimately show ?thesis unfolding n l diff_Suc_1 by cases (simp, simp, linarith)
qed

lemma u2_rl_bytes_small:
  assumes "length cs = strip_len bs (length bs)" "\<And>i. i < length cs \<Longrightarrow> bs ! i = cs ! i"
    and "length cs = 1 \<or> length cs = 2 \<or> length cs = 3 \<or> length cs = 4 \<and> cs ! 3 \<le> 0x7f"
  shows "u2_rl_bytes bs = Inr (Cat (hd (bytes_fill cs 0 [0])))"
proof -
  have nth: "0 < length cs \<Longrightarrow> bs ! 0 = cs ! 0" "1 < length cs \<Longrightarrow> bs ! 1 = cs ! 1"
    "2 < length cs \<Longrightarrow> bs ! 2 = cs ! 2" "3 < length cs \<Longrightarrow> bs ! 3 = cs ! 3"
    using assms(2) by simp_all
  consider a where "cs = [a]" | a b where "cs = [a, b]" | a b c where "cs = [a, b, c]"
    | a b c d where "cs = [a, b, c, d]" "d \<le> 0x7f"
    using assms(3) by (auto simp: length_Suc_conv numeral_eq_Suc)
  then show ?thesis
    using nth by cases (simp_all add: u2_rl_bytes_def assms(1) [symmetric] ac_simps)
qed

lemma u2_rl_bytes_correct:
  "u2_rl_bytes bs = (if atom_fits (bytes_atom bs) then Inr (rep_of (bytes_atom bs)) else Inl Abort)"
proof (cases "strip_len bs (length bs) = 0")
  case True
  then have "bytes_atom bs = 0" using bytes_atom_strip [of bs] by simp
  then show ?thesis
    using True by (simp add: u2_rl_bytes_def atom_fits_def rep_of_def u2_fly_is_cat_def)
next
  case False
  define cs where "cs = take (strip_len bs (length bs)) bs"
  have len: "length cs = strip_len bs (length bs)" using strip_len_le [of bs] by (simp add: cs_def)
  have ne: "cs \<noteq> []" "last cs \<noteq> 0"
    using False len last_strip [of bs] by (auto simp: cs_def)
  have nth: "\<And>i. i < length cs \<Longrightarrow> bs ! i = cs ! i" by (simp add: cs_def)
  have val: "bytes_atom bs = bytes_atom cs" by (simp add: cs_def bytes_atom_strip)
  have words: "bytes_fill cs 0 (replicate ((length cs + 3) div 4) 0) = atom_words (bytes_atom cs)"
    using ne by (rule bytes_fill_canonical)
  consider "u2_fly_is_cat (bytes_atom cs)" "length cs = 1 \<or> length cs = 2 \<or> length cs = 3 \<or>
      length cs = 4 \<and> cs ! 3 \<le> 0x7f"
    | "\<not> u2_fly_is_cat (bytes_atom cs)" "3 < length cs" "\<not> (length cs = 4 \<and> cs ! 3 \<le> 0x7f)"
    using u2_rl_bytes_nonempty [OF ne] ne(1) length_greater_0_conv [of cs] by linarith
  then show ?thesis
  proof cases
    case 1
    then have "words_atom (bytes_fill cs 0 (replicate 1 0)) = bytes_atom cs"
      by (intro words_atom_bytes_fill) auto
    then have "Cat (hd (bytes_fill cs 0 [0])) = rep_of (bytes_atom cs)"
      using 1 ne by (intro u2_rl_bytes_cat) (auto simp: u2_fly_is_cat_def)
    moreover have "u2_rl_bytes bs = Inr (Cat (hd (bytes_fill cs 0 [0])))"
      using u2_rl_bytes_small [OF len nth 1(2)] .
    ultimately show ?thesis using 1(1) by (simp add: val cat_fits)
  next
    case 2
    then have "u2_rl_bytes bs = (if 2 ^ 27 \<le> (length cs + 3) div 4 then Inl Abort
        else Inr (Pug (bytes_fill cs 0 (replicate ((length cs + 3) div 4) 0))))"
      using nth [of 3] cs_def [folded len] by (auto simp: u2_rl_bytes_def Let_def len [symmetric])
    moreover have "length (atom_words (bytes_atom cs)) = (length cs + 3) div 4"
      unfolding words [symmetric] by simp
    ultimately show ?thesis using 2(1) by (simp add: val words atom_fits_def rep_of_def not_less)
  qed
qed

section \<open>GMP integers\<close>

text \<open>
  The multiple-precision library is not part of the repository. It is a record of the
  operations the code calls, and \<open>gmp_laws\<close> is what GMP documents of them for the
  non-negative numbers the interpreter works with: \<open>val\<close> is the integer a value stands for,
  \<^verbatim>\<open>mpz_size\<close> counts 64-bit limbs, and \<^verbatim>\<open>mpz_import\<close> and \<^verbatim>\<open>mpz_export\<close> are used with least
  significant word first and 4-byte words.
\<close>

record 'm gmp =
  mpz_init_set_ui :: "c3_w \<Rightarrow> 'm"
  mpz_import :: "c3_w list \<Rightarrow> 'm"
  mpz_export :: "'m \<Rightarrow> c3_w list"
  mpz_size :: "'m \<Rightarrow> nat"
  mpz_cmp :: "'m \<Rightarrow> 'm \<Rightarrow> int"
  mpz_add :: "'m \<Rightarrow> 'm \<Rightarrow> 'm"
  mpz_sub :: "'m \<Rightarrow> 'm \<Rightarrow> 'm"
  mpz_mul :: "'m \<Rightarrow> 'm \<Rightarrow> 'm"
  mpz_tdiv_q :: "'m \<Rightarrow> 'm \<Rightarrow> 'm"
  mpz_tdiv_r :: "'m \<Rightarrow> 'm \<Rightarrow> 'm"
  mpz_add_ui :: "'m \<Rightarrow> nat \<Rightarrow> 'm"
  mpz_sub_ui :: "'m \<Rightarrow> nat \<Rightarrow> 'm"
  mpz_mul_2exp :: "'m \<Rightarrow> nat \<Rightarrow> 'm"

definition u2_mp :: "'m gmp \<Rightarrow> nat \<Rightarrow> 'm res" where
  "u2_mp G b =
     (if u2_fly_is_cat b then Inr (mpz_init_set_ui G (of_nat b))
      else if drop_bit 27 (u2_pug_len b) \<noteq> 0 then Inl Abort
      else Inr (mpz_import G (atom_words b)))"

definition u2_rl_mp :: "'m gmp \<Rightarrow> 'm \<Rightarrow> u2_weak res" where
  "u2_rl_mp G a_mp =
     (let pyg_w = mpz_size G a_mp * 2;
          exp = mpz_export G a_mp;
          buz_w = exp @ replicate (pyg_w - length exp) 0
      in rbind (u2_rl_words buz_w) (\<lambda>r. Inr (Some (Atom (atom_of r)))))"

definition u2_rl_vint :: "'m gmp \<Rightarrow> u2_weak \<Rightarrow> u2_weak res" where
  "u2_rl_vint G a =
     (case a of
        None \<Rightarrow> Inr None
      | Some (Cell _ _) \<Rightarrow> Inr None
      | Some (Atom n) \<Rightarrow>
          (if u2_fly_is_cat n then
             let vin_w = of_nat n + 1
             in if n = 0x7fffffff then
                  rbind (u2_rl_words [vin_w]) (\<lambda>r. Inr (Some (Atom (atom_of r))))
                else Inr (Some (Atom (unat vin_w)))
           else rbind (u2_mp G n) (\<lambda>a_mp. u2_rl_mp G (mpz_add_ui G a_mp 1))))"

text \<open>What a number becomes when it is made into a noun: a failed assertion when it is too large.\<close>

definition atom_weak :: "nat \<Rightarrow> u2_weak res" where
  "atom_weak a = (if atom_fits a then Inr (Some (Atom a)) else Inl Abort)"

lemma atom_weak_words [simp]:
  "rbind (u2_rl_words ws) (\<lambda>r. Inr (Some (Atom (atom_of r)))) = atom_weak (words_atom ws)"
  by (simp add: atom_weak_def u2_rl_words_correct)

locale gmp_laws =
  fixes G :: "'m gmp" and val :: "'m \<Rightarrow> int"
  assumes val_set_ui: "val (mpz_init_set_ui G w) = int (unat w)"
    and val_import: "val (mpz_import G ws) = int (words_atom ws)"
    and export: "0 \<le> val m \<Longrightarrow> mpz_export G m = atom_words (nat (val m))"
    and size: "0 \<le> val m \<Longrightarrow> mpz_size G m = (nbits (nat (val m)) + 63) div 64"
    and cmp: "mpz_cmp G m n < 0 \<longleftrightarrow> val m < val n" "mpz_cmp G m n > 0 \<longleftrightarrow> val m > val n"
    and add: "val (mpz_add G m n) = val m + val n"
    and sub: "val (mpz_sub G m n) = val m - val n"
    and mul: "val (mpz_mul G m n) = val m * val n"
    and tdiv_q: "0 \<le> val m \<Longrightarrow> 0 < val n \<Longrightarrow> val (mpz_tdiv_q G m n) = val m div val n"
    and tdiv_r: "0 \<le> val m \<Longrightarrow> 0 < val n \<Longrightarrow> val (mpz_tdiv_r G m n) = val m mod val n"
    and add_ui: "val (mpz_add_ui G m k) = val m + int k"
    and sub_ui: "val (mpz_sub_ui G m k) = val m - int k"
    and mul_2exp: "val (mpz_mul_2exp G m k) = val m * 2 ^ k"
begin

lemma u2_mp_val:
  assumes "atom_fits a"
  obtains m where "u2_mp G a = Inr m" "val m = int a"
proof (cases "u2_fly_is_cat a")
  case True
  then show thesis
    using that by (simp add: u2_mp_def val_set_ui u2_fly_is_cat_def unat_of_nat_c3_w)
next
  case False
  have "nbits (length (atom_words a)) \<le> 27"
    using assms by (simp add: atom_fits_def nbits_le_iff)
  then show thesis
    using False that assms by (simp add: u2_mp_def val_import drop_bit_eq_0_c3_w unat_pug_len)
qed

lemma u2_rl_mp_val:
  assumes "val m = int a"
  shows "u2_rl_mp G m = atom_weak a"
  using assms by (simp add: u2_rl_mp_def Let_def export words_atom_append)

lemma vint:
  assumes "atom_fits a"
  shows "u2_rl_vint G (Some (Atom a)) = atom_weak (a + 1)"
proof (cases "u2_fly_is_cat a")
  case True
  then have "a + 1 < 2 ^ 32" by (simp add: u2_fly_is_cat_def)
  then have "unat (of_nat a + 1 :: c3_w) = a + 1"
    using unat_of_nat_c3_w [of "a + 1"] by (simp add: add.commute)
  moreover have "atom_fits (a + 1)" if "a \<noteq> 0x7fffffff"
    using True that by (intro cat_fits) (simp add: u2_fly_is_cat_def)
  ultimately show ?thesis
    using True by (auto simp: u2_rl_vint_def Let_def atom_weak_def)
next
  case False
  obtain m where "u2_mp G a = Inr m" "val m = int a" using u2_mp_val [OF assms] .
  then show ?thesis
    using False u2_rl_mp_val [of "mpz_add_ui G m 1" "a + 1"]
    by (simp add: u2_rl_vint_def add_ui)
qed

end

text \<open>The reference instance: integers themselves.\<close>

definition gmp_int :: "int gmp" where
  "gmp_int = \<lparr>mpz_init_set_ui = (\<lambda>w. int (unat w)), mpz_import = (\<lambda>ws. int (words_atom ws)),
     mpz_export = (\<lambda>m. atom_words (nat m)), mpz_size = (\<lambda>m. (nbits (nat m) + 63) div 64),
     mpz_cmp = (\<lambda>m n. m - n), mpz_add = (+), mpz_sub = (-), mpz_mul = (*),
     mpz_tdiv_q = (div), mpz_tdiv_r = (mod), mpz_add_ui = (\<lambda>m k. m + int k),
     mpz_sub_ui = (\<lambda>m k. m - int k), mpz_mul_2exp = (\<lambda>m k. m * 2 ^ k)\<rparr>"

interpretation gmp_ref: gmp_laws gmp_int "\<lambda>m. m"
  by unfold_locales (simp_all add: gmp_int_def)

section \<open>Reading back what was written\<close>

lemma u2_words_loop_nth:
  "u2_words_loop n a d = map (\<lambda>i. u2_word (a + of_nat i) d) [0..<n]"
  by (induction n arbitrary: a) (simp_all add: upt_conv_Cons map_Suc_upt [symmetric] add.assoc comp_def del: upt_Suc)

lemma u2_bytes_loop_nth:
  "u2_bytes_loop n a d = map (\<lambda>i. u2_byte (a + of_nat i) d) [0..<n]"
  by (induction n arbitrary: a) (simp_all add: upt_conv_Cons map_Suc_upt [symmetric] add.assoc comp_def del: upt_Suc)

lemma bit_bytes_atom:
  "bit (bytes_atom bs) j \<longleftrightarrow> j div 8 < length bs \<and> bit (bs ! (j div 8)) (j mod 8)"
proof (induction bs arbitrary: j)
  case (Cons b bs)
  show ?case
  proof (cases "j < 8")
    case True
    then show ?thesis by (simp add: bit_bytes_atom_Cons del: bytes_atom.simps)
  next
    case False
    then have "j div 8 = Suc ((j - 8) div 8)" "j mod 8 = (j - 8) mod 8"
      by (simp_all add: le_div_geq le_mod_geq)
    then show ?thesis using False Cons by (simp add: bit_bytes_atom_Cons del: bytes_atom.simps)
  qed
qed simp

lemma u2_words_words_atom:
  assumes "atom_fits (words_atom ws)" "length ws < 2 ^ 32"
  shows "u2_words 0 (of_nat (length ws)) (words_atom ws) = ws"
proof (rule nth_equalityI)
  have len: "unat (of_nat (length ws) :: c3_w) = length ws" using assms(2) by (rule unat_of_nat_c3_w)
  then show "length (u2_words 0 (of_nat (length ws)) (words_atom ws)) = length ws"
    by (simp add: u2_words_def u2_words_loop_nth)
  fix i assume "i < length (u2_words 0 (of_nat (length ws)) (words_atom ws))"
  then have i: "i < length ws" using len by (simp add: u2_words_def u2_words_loop_nth)
  then have u: "unat (of_nat i :: c3_w) = i" using assms(2) by (intro unat_of_nat_c3_w) linarith
  have "u2_word (of_nat i) (words_atom ws) = ws ! i"
    by (rule bit_word_eqI) (use i u in \<open>simp add: bit_u2_word [OF assms(1)] bit_words_atom\<close>)
  then show "u2_words 0 (of_nat (length ws)) (words_atom ws) ! i = ws ! i"
    using i len by (simp add: u2_words_def u2_words_loop_nth)
qed

lemma u2_bytes_bytes_atom:
  assumes "atom_fits (bytes_atom bs)" "length bs < 2 ^ 32"
  shows "u2_bytes 0 (of_nat (length bs)) (bytes_atom bs) = bs"
proof (rule nth_equalityI)
  have len: "unat (of_nat (length bs) :: c3_w) = length bs" using assms(2) by (rule unat_of_nat_c3_w)
  then show "length (u2_bytes 0 (of_nat (length bs)) (bytes_atom bs)) = length bs"
    by (simp add: u2_bytes_def u2_bytes_loop_nth)
  fix i assume "i < length (u2_bytes 0 (of_nat (length bs)) (bytes_atom bs))"
  then have i: "i < length bs" using len by (simp add: u2_bytes_def u2_bytes_loop_nth)
  then have u: "unat (of_nat i :: c3_w) = i" using assms(2) by (intro unat_of_nat_c3_w) linarith
  have "u2_byte (of_nat i) (bytes_atom bs) = bs ! i"
    by (rule bit_word_eqI) (use i u in \<open>simp add: bit_u2_byte [OF assms(1)] bit_bytes_atom\<close>)
  then show "u2_bytes 0 (of_nat (length bs)) (bytes_atom bs) ! i = bs ! i"
    using i len by (simp add: u2_bytes_def u2_bytes_loop_nth)
qed

section \<open>Properties\<close>

text \<open>
  Bytes survive the trip through an atom: \<^verbatim>\<open>u2_rl_bytes\<close> makes a canonical atom of every
  byte buffer whose value the loom can hold (the others fail an assertion), whatever branch it
  takes for its length, and \<^verbatim>\<open>u2_bytes\<close> reads the same bytes back.
\<close>

theorem u2_rl_bytes_roundtrip:
  assumes "atom_fits (bytes_atom bs)" "length bs < 2 ^ 32"
  shows "\<exists>r. u2_rl_bytes bs = Inr r \<and> rep_ok r \<and> u2_bytes 0 (of_nat (length bs)) (atom_of r) = bs"
  using u2_bytes_bytes_atom [OF assms] assms(1) by (simp add: u2_rl_bytes_correct)

theorem u2_rl_bytes_roundtrip_witness:
  "\<exists>r. u2_rl_bytes [1, 2, 3, 255, 0] = Inr r \<and> rep_ok r \<and>
     u2_bytes 0 (of_nat (length [1 :: c3_y, 2, 3, 255, 0])) (atom_of r) = [1, 2, 3, 255, 0]"
  by (rule u2_rl_bytes_roundtrip) (simp_all add: atom_fits_def atom_words_pos)

text \<open>
  Words survive the trip through an atom: \<^verbatim>\<open>u2_rl_words\<close> makes a canonical atom exactly
  of the word buffers whose value the loom can hold, and \<^verbatim>\<open>u2_words\<close> reads the same words back.
\<close>

theorem u2_rl_words_roundtrip:
  assumes "length ws < 2 ^ 32"
  shows "case u2_rl_words ws of
      Inl j \<Rightarrow> j = Abort \<and> \<not> atom_fits (words_atom ws)
    | Inr r \<Rightarrow> rep_ok r \<and> u2_words 0 (of_nat (length ws)) (atom_of r) = ws"
  using u2_words_words_atom [OF _ assms] by (simp add: u2_rl_words_correct)

theorem u2_rl_words_roundtrip_witness:
  "case u2_rl_words [7, 9, 0] of
      Inl j \<Rightarrow> j = Abort \<and> \<not> atom_fits (words_atom [7, 9, 0])
    | Inr r \<Rightarrow> rep_ok r \<and> u2_words 0 (of_nat (length [7 :: c3_w, 9, 0])) (atom_of r) = [7, 9, 0]"
  by (rule u2_rl_words_roundtrip) simp

text \<open>
  \<^verbatim>\<open>u2_rl_malt\<close> makes the canonical atom of a slab: the representation it chooses has the
  value of the slab, and two slabs give the same representation exactly when they have the
  same value, which is what makes equality of atoms by words sound.
\<close>

theorem u2_rl_malt_canonical:
  "rep_ok (u2_rl_malt xs) \<and> atom_of (u2_rl_malt xs) = words_atom xs \<and>
   (u2_rl_malt xs = u2_rl_malt ys \<longleftrightarrow> words_atom xs = words_atom ys)"
  using rep_ok_inject [of "u2_rl_malt xs" "u2_rl_malt ys"] by auto

text \<open>
  \<^verbatim>\<open>u2_rl_vint\<close> increments every atom, on its direct, boundary and indirect branches, given
  what GMP documents of the functions it calls; when the successor does not fit, the assertion
  of \<^verbatim>\<open>u2_loop_signal_memory\<close> fails.
\<close>

theorem u2_rl_vint_increments:
  assumes "gmp_laws G val" "atom_fits a"
  shows "u2_rl_vint G (Some (Atom a)) = (if atom_fits (a + 1) then Inr (Some (Atom (a + 1))) else Inl Abort)"
  using gmp_laws.vint [OF assms] by (simp add: atom_weak_def)

theorem u2_rl_vint_increments_witness:
  "u2_rl_vint gmp_int (Some (Atom 0x7fffffff)) =
     (if atom_fits (0x7fffffff + 1) then Inr (Some (Atom (0x7fffffff + 1))) else Inl Abort)"
  by (rule u2_rl_vint_increments [OF gmp_ref.gmp_laws_axioms]) (simp add: atom_fits_def atom_words_pos)

end
