(* ===== verification/Loom.thy ===== *)
theory Loom
  imports Rail
begin

text \<open>
  Taking nouns apart, \<^verbatim>\<open>f/loom.c\<close>: heads and tails, word axes, the fragment at an axis
  (\<^verbatim>\<open>u2_frag\<close>), many fragments at once (\<^verbatim>\<open>u2_mean\<close>), the factoring functions \<^verbatim>\<open>u2_as_*\<close>, the
  order \<^verbatim>\<open>u2_nord\<close>; and their counterpart in \<^verbatim>\<open>f/rail.c\<close> that builds a noun with fragments
  replaced (\<^verbatim>\<open>u2_rl_molt\<close>).

  The fragment functions are related to \<open>slot\<close>, the tree addressing of the nock
  specification.
\<close>

section \<open>Heads and tails\<close>

text \<open>
  The macros \<^verbatim>\<open>u2_h\<close> and \<^verbatim>\<open>u2_t\<close> read memory through their argument without a test; on an
  atom they read an unrelated word. \<^verbatim>\<open>u2_none\<close> has the bit pattern of a cell, so
  \<^verbatim>\<open>u2_sh\<close> and \<^verbatim>\<open>u2_st\<close> pass it through and read everything else.
\<close>

fun u2_h :: "noun \<Rightarrow> noun res" where
  "u2_h (Cell h t) = Inr h"
| "u2_h (Atom a) = Inl Wild"

fun u2_t :: "noun \<Rightarrow> noun res" where
  "u2_t (Cell h t) = Inr t"
| "u2_t (Atom a) = Inl Wild"

definition u2_sh :: "u2_weak \<Rightarrow> u2_weak res" where
  "u2_sh a = (case a of None \<Rightarrow> Inr None | Some n \<Rightarrow> rbind (u2_h n) (\<lambda>h. Inr (Some h)))"

definition u2_st :: "u2_weak \<Rightarrow> u2_weak res" where
  "u2_st a = (case a of None \<Rightarrow> Inr None | Some n \<Rightarrow> rbind (u2_t n) (\<lambda>t. Inr (Some t)))"

lemma u2_st_simps [simp]:
  "u2_st None = Inr None" "u2_st (Some (Cell h t)) = Inr (Some t)" "u2_st (Some (Atom a)) = Inl Wild"
  by (simp_all add: u2_st_def)

lemma u2_sh_simps [simp]:
  "u2_sh None = Inr None" "u2_sh (Some (Cell h t)) = Inr (Some h)" "u2_sh (Some (Atom a)) = Inl Wild"
  by (simp_all add: u2_sh_def)

section \<open>Word axes\<close>

text \<open>The macros shift by the depth of the axis, which is defined for axes of at least 2.\<close>

definition u2_ax_dep :: "c3_w \<Rightarrow> nat" where
  "u2_ax_dep a_w = c3_bits_word a_w - 1"

definition u2_ax_cap :: "c3_w \<Rightarrow> c3_w" where
  "u2_ax_cap a_w = 2 OR drop_bit (u2_ax_dep a_w - 1) a_w"

definition u2_ax_mas :: "c3_w \<Rightarrow> c3_w" where
  "u2_ax_mas a_w =
     (a_w AND NOT (push_bit (u2_ax_dep a_w) 1)) OR push_bit (u2_ax_dep a_w - 1) 1"

definition u2_ax_peg :: "c3_w \<Rightarrow> c3_w \<Rightarrow> c3_w" where
  "u2_ax_peg a_w b_w =
     push_bit (u2_ax_dep b_w) a_w OR (b_w AND NOT (push_bit (u2_ax_dep b_w) 1))"

section \<open>Tree addressing\<close>

fun slot :: "nat \<Rightarrow> noun \<Rightarrow> noun option" where
  "slot n b =
     (if n = 0 then None
      else if n = 1 then Some b
      else case slot (n div 2) b of
             Some (Cell h t) \<Rightarrow> Some (if even n then h else t)
           | _ \<Rightarrow> None)"

declare slot.simps [simp del]

lemma slot_0 [simp]: "slot 0 b = None"
  by (simp add: slot.simps)

lemma slot_1 [simp]: "slot (Suc 0) b = Some b"
  by (simp add: slot.simps)

text \<open>Axis arithmetic: the depth, the first step, what follows it, and composition.\<close>

definition ax_cap :: "nat \<Rightarrow> nat" where
  "ax_cap a = a div 2 ^ (nbits a - 2)"

definition ax_mas :: "nat \<Rightarrow> nat" where
  "ax_mas a = a mod 2 ^ (nbits a - 2) + 2 ^ (nbits a - 2)"

definition ax_peg :: "nat \<Rightarrow> nat \<Rightarrow> nat" where
  "ax_peg a b = a * 2 ^ (nbits b - 1) + b mod 2 ^ (nbits b - 1)"

lemma nbits_Suc_0 [simp]: "nbits (Suc 0) = 1"
  by (simp add: nbits_pos)

lemma slot_step:
  assumes "2 \<le> n"
  shows "slot n b = Option.bind (slot (n div 2) b)
    (\<lambda>c. case c of Cell h t \<Rightarrow> Some (if even n then h else t) | Atom _ \<Rightarrow> None)"
  using assms by (subst slot.simps) (auto split: option.split noun.split)

lemma slot_path:
  assumes "0 < a" "r < 2 ^ d"
  shows "slot (a * 2 ^ d + r) b = Option.bind (slot a b) (slot (2 ^ d + r))"
  using assms(2)
proof (induction d arbitrary: r)
  case 0
  then show ?case by (simp cong: bind_option_cong)
next
  case (Suc d)
  have half: "(c * 2 ^ Suc d + r) div 2 = c * 2 ^ d + r div 2" "2 \<le> c * 2 ^ Suc d + r"
    "even (c * 2 ^ Suc d + r) = even r" if "0 < c" for c
  proof -
    have *: "c * 2 ^ Suc d + r = 2 * (c * 2 ^ d) + r" by simp
    have "1 \<le> c * 2 ^ d" using that by (simp add: Suc_le_eq)
    then show "(c * 2 ^ Suc d + r) div 2 = c * 2 ^ d + r div 2" "2 \<le> c * 2 ^ Suc d + r"
      "even (c * 2 ^ Suc d + r) = even r" unfolding * by (linarith | simp)+
  qed
  have "r div 2 < 2 ^ d" using Suc.prems by auto
  then have IH: "slot (a * 2 ^ d + r div 2) b = Option.bind (slot a b) (slot (2 ^ d + r div 2))"
    by (rule Suc.IH)
  show ?case
    using half [OF assms(1)] half [of 1]
    by (simp add: slot_step [of "a * 2 ^ Suc d + r"] slot_step [of "2 ^ Suc d + r"] IH
        del: power_Suc)
qed

lemma ax_split:
  assumes "0 < b"
  shows "b = 2 ^ (nbits b - 1) + b mod 2 ^ (nbits b - 1)"
proof -
  define k where "k = nbits b - 1"
  have "nbits b = Suc k" using assms nbits_eq_0 [of b] unfolding k_def by linarith
  then have "2 ^ k \<le> b" "b < 2 ^ Suc k"
    using nbits_less_iff [of k b] nbits_le_iff [of b "Suc k"] by simp_all
  then have "b div 2 ^ k = 1" by (intro div_nat_eqI) simp_all
  then have "b = 2 ^ k + b mod 2 ^ k" using div_mult_mod_eq [of b "2 ^ k"] by simp
  then show ?thesis by (simp add: k_def)
qed

lemma slot_peg:
  assumes "0 < a" "0 < b"
  shows "slot (ax_peg a b) n = Option.bind (slot a n) (slot b)"
  using slot_path [OF assms(1), of "b mod 2 ^ (nbits b - 1)" "nbits b - 1" n] ax_split [OF assms(2)]
  by (simp add: ax_peg_def)

section \<open>Fragments\<close>

primrec frag_loop :: "nat \<Rightarrow> c3_w \<Rightarrow> noun \<Rightarrow> u2_weak" where
  "frag_loop 0 a_w b = Some b"
| "frag_loop (Suc dep_w) a_w b =
     (case b of
        Atom _ \<Rightarrow> None
      | Cell h t \<Rightarrow> frag_loop dep_w a_w (if 1 AND drop_bit dep_w a_w = 0 then h else t))"

definition frag_word :: "c3_w \<Rightarrow> noun \<Rightarrow> u2_weak res" where
  "frag_word a_w b = (if a_w = 0 then Inl Abort else Inr (frag_loop (u2_ax_dep a_w) a_w b))"

text \<open>\<^verbatim>\<open>_frag_deep\<close> reads through its argument when it looks like a cell, and \<^verbatim>\<open>u2_none\<close> does.\<close>

definition frag_deep :: "c3_w \<Rightarrow> u2_weak \<Rightarrow> u2_weak res" where
  "frag_deep a_w b = (case b of None \<Rightarrow> Inl Wild | Some n \<Rightarrow> Inr (frag_loop 32 a_w n))"

primrec frag_phat_loop :: "nat \<Rightarrow> c3_w list \<Rightarrow> u2_weak \<Rightarrow> u2_weak res" where
  "frag_phat_loop 0 buf b = Inr b"
| "frag_phat_loop (Suc len_w) buf b =
     rbind (frag_deep (buf ! len_w) b)
       (\<lambda>b. if b = None then Inr b else frag_phat_loop len_w buf b)"

definition frag_phat :: "nat \<Rightarrow> noun \<Rightarrow> u2_weak res" where
  "frag_phat a b =
     (let len_w = length (atom_words a)
      in rbind (frag_word (atom_words a ! (len_w - 1)) b)
           (\<lambda>b. frag_phat_loop (len_w - 1) (atom_words a) b))"

definition u2_frag :: "noun \<Rightarrow> noun \<Rightarrow> u2_weak res" where
  "u2_frag a b =
     (case a of
        Cell _ _ \<Rightarrow> Inr None
      | Atom n \<Rightarrow>
          (if n = 0 then Inr None
           else if u2_fly_is_cat n then frag_word (of_nat n) b
           else frag_phat n b))"

lemma frag_loop_slot: "frag_loop d w b = slot (2 ^ d + unat w mod 2 ^ d) b"
proof (induction d arbitrary: b)
  case 0
  then show ?case by simp
next
  case (Suc d)
  let ?r = "unat w mod 2 ^ d" and ?x = "of_bool (bit w d) :: nat"
  have r: "?r < 2 ^ d" by simp
  have "bit w d = bit (unat w) d" by (auto simp: bit_unsigned_iff dest: bit_imp_le_length)
  then have "?x = unat w div 2 ^ d mod 2" by (simp add: bit_iff_odd of_bool_odd_eq_mod_2)
  then have "unat w mod 2 ^ Suc d = ?x * 2 ^ d + ?r"
    using mod_mult2_eq [of "unat w" "2 ^ d" 2] by (simp add: mult.commute)
  then have eq: "2 ^ Suc d + unat w mod 2 ^ Suc d = (2 + ?x) * 2 ^ d + ?r"
    by (simp add: distrib_right)
  have "slot (2 ^ Suc d + unat w mod 2 ^ Suc d) b = Option.bind (slot (2 + ?x) b) (slot (2 ^ d + ?r))"
    unfolding eq by (rule slot_path [OF _ r]) simp
  moreover have "slot (2 + ?x) b = (case b of Atom _ \<Rightarrow> None | Cell h t \<Rightarrow> Some (if bit w d then t else h))"
    by (simp add: slot_step split: noun.split)
  ultimately show ?case
    using Suc.IH by (simp add: one_and_drop_bit split: noun.split)
qed

lemma frag_word_slot: "w \<noteq> 0 \<Longrightarrow> frag_word w b = Inr (slot (unat w) b)"
  using ax_split [of "unat w"] by (simp add: frag_word_def frag_loop_slot u2_ax_dep_def unat_gt_0)

lemma frag_phat_loop_slot:
  assumes "0 < a" "n \<le> length buf"
  shows "frag_phat_loop n buf (slot a b) =
    (if 0 < n \<and> slot a b = None then Inl Wild
     else Inr (slot (a * 2 ^ (32 * n) + words_atom (take n buf)) b))"
  using assms
proof (induction n arbitrary: a)
  case 0
  then show ?case by simp
next
  case (Suc n)
  let ?w = "buf ! n"
  define c where "c = a * 2 ^ 32 + unat ?w"
  define v where "v = a * 2 ^ (32 * Suc n) + words_atom (take (Suc n) buf)"
  have pos: "0 < c" using Suc.prems(1) by (simp add: c_def)
  have deep: "slot c b = Option.bind (slot a b) (frag_loop 32 ?w)"
    unfolding c_def using slot_path [OF Suc.prems(1) unat_c3_w, of ?w b] unat_c3_w [of ?w]
    by (simp add: frag_loop_slot cong: bind_option_cong)
  have "words_atom (take (Suc n) buf) = words_atom (take n buf) + 2 ^ (32 * n) * unat ?w"
    using Suc.prems(2) by (simp add: take_Suc_conv_app_nth words_atom_append)
  then have v: "v = c * 2 ^ (32 * n) + words_atom (take n buf)"
    by (simp add: c_def v_def algebra_simps power_add)
  have IH: "frag_phat_loop n buf (slot c b) = (if 0 < n \<and> slot c b = None then Inl Wild else Inr (slot v b))"
    unfolding v using Suc.prems pos by (intro Suc.IH) auto
  have "slot v b = None" if "slot c b = None"
    unfolding v using that pos Suc.prems words_atom_less [of "take n buf"]
    by (subst slot_path) (auto simp: min_absorb2)
  then have "frag_phat_loop (Suc n) buf (slot a b) = (if slot a b = None then Inl Wild else Inr (slot v b))"
    using deep IH by (cases "slot a b") (auto simp: frag_deep_def)
  then show ?case by (simp add: v_def)
qed

lemma u2_frag_slot:
  "u2_frag (Atom a) b =
     (if 2 ^ 32 \<le> a \<and> slot (unat (last (atom_words a))) b = None then Inl Wild
      else Inr (slot a b))"
proof (cases "u2_fly_is_cat a")
  case True
  then show ?thesis
    using frag_word_slot [of "of_nat a" b]
    by (auto simp: u2_frag_def u2_fly_is_cat_def unat_of_nat_c3_w simp flip: unat_gt_0)
next
  case False
  define ws where "ws = atom_words a"
  have pos: "0 < a" using False by (simp add: u2_fly_is_cat_def)
  then have ne: "ws \<noteq> []" and last: "last ws \<noteq> 0" by (simp_all add: ws_def)
  have split: "ws = take (length ws - 1) ws @ [last ws]"
    using append_butlast_last_id [OF ne] by (simp add: butlast_conv_take)
  have val: "a = unat (last ws) * 2 ^ (32 * (length ws - 1)) + words_atom (take (length ws - 1) ws)"
    using arg_cong [OF split, of words_atom] by (simp add: words_atom_append ws_def mult.commute add.commute)
  have big: "2 ^ 32 \<le> a \<longleftrightarrow> 0 < length ws - 1"
    using less_eq_div_iff_mult_less_eq [of 32 2 "nbits a + 31"]
    unfolding ws_def length_atom_words nbits_less_iff [symmetric] by linarith
  have "u2_frag (Atom a) b = frag_phat_loop (length ws - 1) ws (slot (unat (last ws)) b)"
    using False pos ne last frag_word_slot [OF last]
    by (simp add: u2_frag_def frag_phat_def Let_def last_conv_nth flip: ws_def)
  also have "\<dots> = (if 0 < length ws - 1 \<and> slot (unat (last ws)) b = None then Inl Wild
     else Inr (slot a b))"
    using last by (subst val, intro frag_phat_loop_slot) (simp_all add: unat_gt_0)
  finally show ?thesis unfolding big ws_def .
qed

lemma u2_frag_word: "a < 2 ^ 32 \<Longrightarrow> u2_frag (Atom a) b = Inr (slot a b)"
  by (simp add: u2_frag_slot)

section \<open>Many fragments\<close>

text \<open>
  \<^verbatim>\<open>_mean_cut\<close> takes one step off every axis and returns where the tail axes start. The
  macros it applies shift by a negative amount on axis 1.
\<close>

primrec mean_cut_loop :: "c3_w list \<Rightarrow> nat \<Rightarrow> nat option \<Rightarrow> (nat \<times> c3_w list) res" where
  "mean_cut_loop [] i_w cut_t = Inr (case cut_t of Some cut_w \<Rightarrow> cut_w | None \<Rightarrow> i_w, [])"
| "mean_cut_loop (axe_w # axs) i_w cut_t =
     (if axe_w = 0 \<or> axe_w = 1 then Inl Wild
      else rbind (mean_cut_loop axs (Suc i_w)
             (if cut_t = None \<and> u2_ax_cap axe_w = 3 then Some i_w else cut_t))
             (\<lambda>(cut_w, mas). Inr (cut_w, u2_ax_mas axe_w # mas)))"

definition mean_cut :: "c3_w list \<Rightarrow> (nat \<times> c3_w list) res" where
  "mean_cut axs = mean_cut_loop axs 0 None"

fun mean_extract :: "noun \<Rightarrow> c3_w list \<Rightarrow> noun list option res" where
  "mean_extract som axs =
     (if axs = [] then Inr (Some [])
      else if axs = [1] then Inr (Some [som])
      else case som of
             Atom _ \<Rightarrow> Inr None
           | Cell h t \<Rightarrow>
               rbind (mean_cut axs) (\<lambda>(cut_w, mas).
               rbind (mean_extract h (take cut_w mas)) (\<lambda>hs.
                 case hs of
                   None \<Rightarrow> Inr None
                 | Some hs \<Rightarrow>
                     rbind (mean_extract t (drop cut_w mas)) (\<lambda>ts.
                       Inr (map_option ((@) hs) ts)))))"

declare mean_extract.simps [simp del]

text \<open>
  The argument list of \<^verbatim>\<open>u2_mean\<close> is the list of its axes; what it writes through its pointers
  is the list of fragments in the same order. Callers read them only when it returns
  \<^verbatim>\<open>u2_yes\<close>.
\<close>

definition u2_mean :: "noun \<Rightarrow> c3_w list \<Rightarrow> noun list option res" where
  "u2_mean som axs = mean_extract som axs"

lemma ax_cap_mas:
  assumes "2 \<le> a"
  shows "a = ax_cap a * 2 ^ (nbits a - 2) + a mod 2 ^ (nbits a - 2)"
    and "ax_cap a = 2 \<or> ax_cap a = 3" and "ax_mas a < a" and "0 < ax_mas a"
proof -
  define k where k: "k = nbits a - 2"
  show eq: "a = ax_cap a * 2 ^ (nbits a - 2) + a mod 2 ^ (nbits a - 2)"
    unfolding ax_cap_def by (rule div_mult_mod_eq [symmetric])
  have "1 < nbits a" using assms nbits_less_iff [of 1 a] by simp
  then have "nbits a = Suc (Suc k)" by (simp add: k)
  then have "2 * 2 ^ k \<le> a" "a < 4 * 2 ^ k"
    using nbits_less_iff [of "Suc k" a] nbits_le_iff [of a "Suc (Suc k)"] by simp_all
  then have "2 \<le> ax_cap a" "ax_cap a < 4"
    unfolding ax_cap_def k [symmetric] by (simp_all add: less_eq_div_iff_mult_less_eq div_less_iff_less_mult)
  then show cap: "ax_cap a = 2 \<or> ax_cap a = 3" by linarith
  have m: "a mod 2 ^ k < 2 ^ k" by simp
  have "2 * 2 ^ k \<le> ax_cap a * 2 ^ k" using \<open>2 \<le> ax_cap a\<close> by (intro mult_right_mono) auto
  moreover have "(0::nat) < 2 ^ k" by simp
  ultimately show "ax_mas a < a" unfolding ax_mas_def k [symmetric] using eq [folded k] m by linarith
  show "0 < ax_mas a" by (simp add: ax_mas_def)
qed

lemma sum_list_less:
  assumes "xs \<noteq> []" "list_all (\<lambda>a. 2 \<le> a) xs"
  shows "sum_list (map ax_mas xs) < sum_list xs"
  using assms
proof (induction xs rule: list_nonempty_induct)
  case (cons x xs)
  then show ?case using ax_cap_mas(3) [of x] by simp
qed (simp add: ax_cap_mas(3))

lemma sum_list_parts:
  assumes "xs \<noteq> []" "list_all (\<lambda>a. 2 \<le> a) xs"
  shows "sum_list (map ax_mas (takeWhile P xs)) < sum_list xs"
    and "sum_list (map ax_mas (dropWhile P xs)) < sum_list xs"
proof -
  have "map ax_mas xs = map ax_mas (takeWhile P xs) @ map ax_mas (dropWhile P xs)"
    by (simp flip: map_append)
  then show "sum_list (map ax_mas (takeWhile P xs)) < sum_list xs"
    "sum_list (map ax_mas (dropWhile P xs)) < sum_list xs"
    using sum_list_less [OF assms] by simp_all
qed

text \<open>
  The order the comment in the source asks for: no axis lies inside another, and the axes
  into the head precede those into the tail, at every level.
\<close>

function axes_sorted :: "nat list \<Rightarrow> bool" where
  "axes_sorted axs =
     (if axs = [] \<or> axs = [1] then True
      else if list_all (\<lambda>a. 2 \<le> a) axs then
        list_all (\<lambda>a. ax_cap a = 3) (dropWhile (\<lambda>a. ax_cap a = 2) axs) \<and>
        axes_sorted (map ax_mas (takeWhile (\<lambda>a. ax_cap a = 2) axs)) \<and>
        axes_sorted (map ax_mas (dropWhile (\<lambda>a. ax_cap a = 2) axs))
      else False)"
  by pat_completeness auto

termination
  by (relation "measure sum_list") (simp_all add: sum_list_parts)

declare axes_sorted.simps [simp del]

text \<open>The word axis macros compute the axis arithmetic.\<close>

lemma u2_ax_cap_correct:
  assumes "2 \<le> unat a"
  shows "unat (u2_ax_cap a) = ax_cap (unat a)"
proof -
  have "unat (u2_ax_cap a) = 2 OR ax_cap (unat a)"
    by (simp add: u2_ax_cap_def u2_ax_dep_def unsigned_or_eq unat_drop_c3_w ax_cap_def diff_diff_add
        numeral_2_eq_2 [symmetric] del: One_nat_def)
  then show ?thesis using ax_cap_mas(2) [OF assms] by auto
qed

lemma u2_ax_mas_correct:
  assumes "2 \<le> unat a"
  shows "unat (u2_ax_mas a) = ax_mas (unat a)"
proof (rule bit_eqI)
  fix i
  define k where "k = nbits (unat a) - 2"
  have "1 < nbits (unat a)" using assms nbits_less_iff [of 1 "unat a"] by simp
  then have n: "nbits (unat a) = Suc (Suc k)" by (simp add: k_def)
  have k: "Suc k < 32" using n nbits_unat_le [of a] by simp
  have top: "\<not> bit a i" if "Suc k < i"
    using not_bit_ge_nbits [of "unat a" i] that n by (auto simp: bit_simps dest: bit_imp_le_length)
  have "ax_mas (unat a) = unat a mod 2 ^ k + 2 ^ k * 1" by (simp add: ax_mas_def k_def)
  then have "bit (ax_mas (unat a)) i = (if i < k then bit (unat a mod 2 ^ k) i else bit (1::nat) (i - k))"
    using bit_add_disjoint [of "unat a mod 2 ^ k" k 1 i] by simp
  also have "\<dots> = (if i < k then bit a i else i = k)"
    using k by (auto simp: bit_simps bit_1_iff simp flip: take_bit_eq_mod)
  also have "\<dots> = bit (unat (u2_ax_mas a)) i"
    using k top by (cases "Suc k < i") (auto simp: u2_ax_mas_def u2_ax_dep_def n bit_simps)
  finally show "bit (unat (u2_ax_mas a)) i = bit (ax_mas (unat a)) i" by simp
qed

lemma slot_cap_mas:
  assumes "2 \<le> a"
  shows "slot a (Cell h t) = slot (ax_mas a) (if ax_cap a = 2 then h else t)"
    and "slot a (Atom x) = None"
proof -
  have "slot a b = Option.bind (slot (ax_cap a) b) (slot (ax_mas a))" for b
  proof -
    have "0 < ax_cap a" using ax_cap_mas(2) [OF assms] by auto
    from slot_path [OF this, of "a mod 2 ^ (nbits a - 2)" "nbits a - 2" b]
    show ?thesis using ax_cap_mas(1) [OF assms] by (simp add: ax_mas_def add.commute)
  qed
  moreover have "slot (ax_cap a) (Cell h t) = Some (if ax_cap a = 2 then h else t)"
    "slot (ax_cap a) (Atom x) = None"
    using ax_cap_mas(2) [OF assms] by (auto simp: slot_step)
  ultimately show "slot a (Cell h t) = slot (ax_mas a) (if ax_cap a = 2 then h else t)"
    and "slot a (Atom x) = None" by simp_all
qed

lemma mean_cut_loop_correct:
  assumes "list_all (\<lambda>a. 2 \<le> unat a) axs"
  shows "mean_cut_loop axs i c =
    Inr (case c of Some k \<Rightarrow> k | None \<Rightarrow> i + length (takeWhile (\<lambda>a. ax_cap (unat a) = 2) axs),
         map u2_ax_mas axs)"
  using assms
proof (induction axs arbitrary: i c)
  case (Cons a axs)
  have "unat a \<noteq> 0" "unat a \<noteq> 1" using Cons.prems by auto
  then have ne: "a \<noteq> 0" "a \<noteq> 1" by auto
  have "u2_ax_cap a = 3 \<longleftrightarrow> ax_cap (unat a) = 3"
    using u2_ax_cap_correct [of a] Cons.prems by (auto simp: unat_numeral word_unat_eq_iff)
  then have "u2_ax_cap a = 3 \<longleftrightarrow> ax_cap (unat a) \<noteq> 2"
    using ax_cap_mas(2) [of "unat a"] Cons.prems by auto
  then show ?case using Cons ne by (auto split: option.split)
qed (simp split: option.split)

lemma those_append:
  "those (xs @ ys) = (case those xs of None \<Rightarrow> None | Some as \<Rightarrow> map_option ((@) as) (those ys))"
  by (induction xs) (cases "those ys"; auto split: option.split)+

lemma map_slot_cap:
  assumes "list_all (\<lambda>a. 2 \<le> unat a) axs"
  shows "list_all (\<lambda>a. ax_cap (unat a) = 2) axs \<Longrightarrow>
      map (\<lambda>a. slot (unat a) (Cell h t)) axs = map (\<lambda>a. slot (unat a) h) (map u2_ax_mas axs)"
    and "list_all (\<lambda>a. ax_cap (unat a) = 3) axs \<Longrightarrow>
      map (\<lambda>a. slot (unat a) (Cell h t)) axs = map (\<lambda>a. slot (unat a) t) (map u2_ax_mas axs)"
  using assms by (auto simp: list_all_iff slot_cap_mas u2_ax_mas_correct)

lemma map_unat_mas:
  "list_all (\<lambda>a. 2 \<le> unat a) axs \<Longrightarrow> map unat (map u2_ax_mas axs) = map ax_mas (map unat axs)"
  by (auto simp: list_all_iff u2_ax_mas_correct)

abbreviation head_axes :: "c3_w list \<Rightarrow> c3_w list" where
  "head_axes \<equiv> takeWhile (\<lambda>a. ax_cap (unat a) = 2)"

abbreviation tail_axes :: "c3_w list \<Rightarrow> c3_w list" where
  "tail_axes \<equiv> dropWhile (\<lambda>a. ax_cap (unat a) = 2)"

lemma axes_sorted_parts:
  assumes "axes_sorted (map unat axs)" "axs \<noteq> []" "axs \<noteq> [1]"
  shows "list_all (\<lambda>a. 2 \<le> unat a) axs"
    and "list_all (\<lambda>a. 2 \<le> unat a) (head_axes axs)" and "list_all (\<lambda>a. 2 \<le> unat a) (tail_axes axs)"
    and "list_all (\<lambda>a. ax_cap (unat a) = 2) (head_axes axs)"
    and "list_all (\<lambda>a. ax_cap (unat a) = 3) (tail_axes axs)"
    and "axes_sorted (map unat (map u2_ax_mas (head_axes axs)))"
    and "axes_sorted (map unat (map u2_ax_mas (tail_axes axs)))"
proof -
  have "map unat axs \<noteq> [1]" using assms(3) by (auto simp: word_unat_eq_iff)
  then have sorted: "list_all (\<lambda>a. 2 \<le> unat a) axs" "list_all (\<lambda>a. ax_cap (unat a) = 3) (tail_axes axs)"
    "axes_sorted (map ax_mas (map unat (head_axes axs)))"
    "axes_sorted (map ax_mas (map unat (tail_axes axs)))"
    using assms(1,2)
    by (subst (asm) axes_sorted.simps;
        simp add: list.pred_map comp_def takeWhile_map dropWhile_map split: if_splits)+
  then show "list_all (\<lambda>a. 2 \<le> unat a) axs" "list_all (\<lambda>a. ax_cap (unat a) = 3) (tail_axes axs)"
    by simp_all
  show parts: "list_all (\<lambda>a. 2 \<le> unat a) (head_axes axs)" "list_all (\<lambda>a. 2 \<le> unat a) (tail_axes axs)"
    "list_all (\<lambda>a. ax_cap (unat a) = 2) (head_axes axs)"
    using sorted(1) by (auto simp: list_all_iff dest: set_takeWhileD set_dropWhileD)
  show "axes_sorted (map unat (map u2_ax_mas (head_axes axs)))"
    "axes_sorted (map unat (map u2_ax_mas (tail_axes axs)))"
    using sorted(3,4) parts by (simp_all only: map_unat_mas)
qed

lemma mean_cut_correct:
  assumes "list_all (\<lambda>a. 2 \<le> unat a) axs"
  obtains cut_w where "mean_cut axs = Inr (cut_w, map u2_ax_mas axs)"
    "take cut_w (map u2_ax_mas axs) = map u2_ax_mas (head_axes axs)"
    "drop cut_w (map u2_ax_mas axs) = map u2_ax_mas (tail_axes axs)"
proof
  show "mean_cut axs = Inr (length (head_axes axs), map u2_ax_mas axs)"
    using mean_cut_loop_correct [OF assms] by (simp add: mean_cut_def)
qed (simp_all add: take_map drop_map takeWhile_eq_take [symmetric] dropWhile_eq_drop [symmetric])

lemma mean_extract_correct:
  assumes "axes_sorted (map unat axs)"
  shows "mean_extract som axs = Inr (those (map (\<lambda>a. slot (unat a) som) axs))"
  using assms
proof (induction som arbitrary: axs)
  case (Atom x)
  show ?case
  proof (cases "axs = [] \<or> axs = [1]")
    case False
    then show ?thesis
      using axes_sorted_parts(1) [OF Atom] by (cases axs) (auto simp: mean_extract.simps slot_cap_mas)
  qed (auto simp: mean_extract.simps)
next
  case (Cell h t)
  show ?case
  proof (cases "axs = [] \<or> axs = [1]")
    case False
    note parts = axes_sorted_parts [OF Cell.prems]
    obtain cut_w where "mean_cut axs = Inr (cut_w, map u2_ax_mas axs)"
      "take cut_w (map u2_ax_mas axs) = map u2_ax_mas (head_axes axs)"
      "drop cut_w (map u2_ax_mas axs) = map u2_ax_mas (tail_axes axs)"
      using mean_cut_correct parts(1) False by blast
    moreover have "mean_extract h (map u2_ax_mas (head_axes axs)) =
        Inr (those (map (\<lambda>a. slot (unat a) (Cell h t)) (head_axes axs)))"
      using Cell.IH(1) parts False by (simp add: map_slot_cap del: map_map)
    moreover have "mean_extract t (map u2_ax_mas (tail_axes axs)) =
        Inr (those (map (\<lambda>a. slot (unat a) (Cell h t)) (tail_axes axs)))"
      using Cell.IH(2) parts False by (simp add: map_slot_cap del: map_map)
    moreover have "map (\<lambda>a. slot (unat a) (Cell h t)) axs = map (\<lambda>a. slot (unat a) (Cell h t)) (head_axes axs) @
        map (\<lambda>a. slot (unat a) (Cell h t)) (tail_axes axs)"
      by (simp flip: map_append)
    ultimately show ?thesis
      using False by (simp add: mean_extract.simps [of _ axs] those_append split: option.split)
  qed (auto simp: mean_extract.simps)
qed

lemma u2_mean_correct:
  "axes_sorted (map unat axs) \<Longrightarrow> u2_mean som axs = Inr (those (map (\<lambda>a. slot (unat a) som) axs))"
  by (simp add: u2_mean_def mean_extract_correct)

text \<open>The argument shapes the jets use: a sample of one, two, three or four parts.\<close>

lemma axes_sorted_jets:
  "axes_sorted [12, 13]" "axes_sorted [6, 7]" "axes_sorted [12, 26, 27]" "axes_sorted [12, 52, 53, 27]"
  "axes_sorted [6, 30]" "axes_sorted [12, 13, 30]" "axes_sorted [12, 26, 27, 30]"
  by code_simp+

section \<open>Cells, lists and tuples\<close>

definition u2_rl_cell :: "u2_weak \<Rightarrow> u2_weak \<Rightarrow> u2_weak" where
  "u2_rl_cell a b = (case (a, b) of (Some h, Some t) \<Rightarrow> Some (Cell h t) | _ \<Rightarrow> None)"

text \<open>The arguments before the terminating \<^verbatim>\<open>u2_none\<close>.\<close>

definition u2_rl_list :: "noun list \<Rightarrow> u2_weak" where
  "u2_rl_list yit = fold (\<lambda>y woq. u2_rl_cell (Some y) woq) (rev yit) (Some u2_nul)"

definition u2_rl_rack :: "noun list \<Rightarrow> u2_weak" where
  "u2_rl_rack yit =
     (if yit = [] then None
      else fold (\<lambda>y woq. u2_rl_cell (Some y) woq) (rev (butlast yit)) (Some (last yit)))"

lemma u2_rl_cell_Some [simp]: "u2_rl_cell (Some h) (Some t) = Some (Cell h t)"
  by (simp add: u2_rl_cell_def)

lemma u2_rl_list_correct: "u2_rl_list xs = Some (noun_list xs)"
  by (induction xs) (simp_all add: u2_rl_list_def)

fun noun_tuple :: "noun list \<Rightarrow> noun" where
  "noun_tuple [x] = x"
| "noun_tuple (x # xs) = Cell x (noun_tuple xs)"
| "noun_tuple [] = Atom 0"

lemma u2_rl_rack_correct: "xs \<noteq> [] \<Longrightarrow> u2_rl_rack xs = Some (noun_tuple xs)"
  by (induction xs rule: noun_tuple.induct) (simp_all add: u2_rl_rack_def)

section \<open>Edits\<close>

text \<open>
  \<^verbatim>\<open>_molt_cut\<close> is \<^verbatim>\<open>_mean_cut\<close> on pairs of an axis and a noun. An edit below an atom makes
  the cells it needs, with 0 in the places it does not mention.
\<close>

definition molt_cut :: "(c3_w \<times> noun) list \<Rightarrow> (nat \<times> (c3_w \<times> noun) list) res" where
  "molt_cut pms_m =
     rbind (mean_cut_loop (map fst pms_m) 0 None)
       (\<lambda>(cut_w, mas). Inr (cut_w, zip mas (map snd pms_m)))"

lemma mean_cut_loop_Inr:
  "mean_cut_loop axs i c = Inr (k, mas) \<Longrightarrow> list_all (\<lambda>a. 2 \<le> unat a) axs"
proof (induction axs arbitrary: i c mas)
  case (Cons a axs)
  have "2 \<le> unat a" if "a \<noteq> 0" "a \<noteq> 1"
    using that by (metis One_nat_def Suc_leI le_neq_implies_less less_2_cases_iff linorder_not_le
        unat_eq_zero unsigned_1 word_unat_eq_iff)
  then show ?case using Cons by (auto simp: rbind_eq_Inr split: if_splits)
qed simp

lemma molt_cut_Inr:
  assumes "molt_cut pms = Inr (k, mas)"
  shows "list_all (\<lambda>a. 2 \<le> unat a) (map fst pms)"
    "mas = map (map_prod u2_ax_mas id) pms" "k = length (head_axes (map fst pms))"
proof -
  show all: "list_all (\<lambda>a. 2 \<le> unat a) (map fst pms)"
    using assms mean_cut_loop_Inr by (auto simp: molt_cut_def rbind_eq_Inr)
  show "mas = map (map_prod u2_ax_mas id) pms" "k = length (head_axes (map fst pms))"
    using assms by (auto simp: molt_cut_def mean_cut_loop_correct [OF all] zip_map_map zip_same_conv_map map_prod_def
        case_prod_unfold)
qed

lemma sum_list_mas:
  assumes "xs \<noteq> []" "list_all (\<lambda>a. 2 \<le> unat a) xs"
  shows "sum_list (map unat (take k (map u2_ax_mas xs))) < sum_list (map unat xs)"
    "sum_list (map unat (drop k (map u2_ax_mas xs))) < sum_list (map unat xs)"
proof -
  let ?m = "map unat (map u2_ax_mas xs)"
  have "sum_list ?m < sum_list (map unat xs)"
    using sum_list_less [of "map unat xs"] assms by (simp only: map_unat_mas) (simp add: list.pred_map comp_def)
  moreover have "sum_list ?m = sum_list (take k ?m) + sum_list (drop k ?m)"
    by (metis append_take_drop_id sum_list_append)
  ultimately show "sum_list (map unat (take k (map u2_ax_mas xs))) < sum_list (map unat xs)"
    "sum_list (map unat (drop k (map u2_ax_mas xs))) < sum_list (map unat xs)"
    by (simp_all add: take_map drop_map)
qed

lemma molt_cut_less:
  assumes "molt_cut pms = Inr (k, mas)" "pms \<noteq> []"
  shows "sum_list (map (unat \<circ> fst) (take k mas)) < sum_list (map (unat \<circ> fst) pms)"
    "sum_list (map (unat \<circ> fst) (drop k mas)) < sum_list (map (unat \<circ> fst) pms)"
  using sum_list_mas [of "map fst pms" k] molt_cut_Inr [OF assms(1)] assms(2)
  by (simp_all add: take_map drop_map comp_def)

function molt_apply :: "noun \<Rightarrow> (c3_w \<times> noun) list \<Rightarrow> noun res" where
  "molt_apply som pms_m =
     (if pms_m = [] then Inr som
      else if length pms_m = 1 \<and> fst (hd pms_m) = 1 then Inr (snd (hd pms_m))
      else rbind (molt_cut pms_m) (\<lambda>(cut_w, pms_m).
           case som of
             Atom _ \<Rightarrow>
               rbind (molt_apply u2_nul (take cut_w pms_m)) (\<lambda>h.
               rbind (molt_apply u2_nul (drop cut_w pms_m)) (\<lambda>t. Inr (Cell h t)))
           | Cell p q \<Rightarrow>
               rbind (molt_apply p (take cut_w pms_m)) (\<lambda>h.
               rbind (molt_apply q (drop cut_w pms_m)) (\<lambda>t. Inr (Cell h t)))))"
  by pat_completeness auto

termination
  by (relation "measure (\<lambda>(som, pms). sum_list (map (unat \<circ> fst) pms))") (auto simp: molt_cut_less)

declare molt_apply.simps [simp del]

definition u2_rl_molt :: "noun \<Rightarrow> (c3_w \<times> noun) list \<Rightarrow> noun res" where
  "u2_rl_molt som pms_m = molt_apply som pms_m"

text \<open>Two axes into disjoint parts of a noun.\<close>

function ax_apart :: "nat \<Rightarrow> nat \<Rightarrow> bool" where
  "ax_apart a b =
     (if 2 \<le> a \<and> 2 \<le> b then ax_cap a \<noteq> ax_cap b \<or> ax_apart (ax_mas a) (ax_mas b) else False)"
  by pat_completeness auto

termination
  by (relation "measure fst") (simp_all add: ax_cap_mas)

declare ax_apart.simps [simp del]

definition molted :: "noun \<Rightarrow> (c3_w \<times> noun) list \<Rightarrow> noun \<Rightarrow> bool" where
  "molted som pms r \<longleftrightarrow>
     (\<forall>(a, v) \<in> set pms. slot (unat a) r = Some v) \<and>
     (\<forall>b x. slot b som = Some x \<longrightarrow> (\<forall>a \<in> fst ` set pms. ax_apart (unat a) b) \<longrightarrow> slot b r = Some x)"

lemma molted_cell:
  assumes "axes_sorted (map unat (map fst pms))" "pms \<noteq> []" "map fst pms \<noteq> [1]"
    and "molt_cut pms = Inr (k, mas)"
    and h: "molted p (take k mas) h" and t: "molted q (drop k mas) t"
    and som: "som = Cell p q \<or> (\<exists>x. som = Atom x)"
  shows "molted som pms (Cell h t)"
proof -
  note cut = molt_cut_Inr [OF assms(4)]
  have split: "set pms = set (take k pms) \<union> set (drop k pms)" 
    by (metis append_take_drop_id set_append)
  have "head_axes (map fst pms) = map fst (take k pms)" "tail_axes (map fst pms) = map fst (drop k pms)"
    by (simp_all add: cut(3) take_map [symmetric] drop_map [symmetric] takeWhile_eq_take [symmetric]
        dropWhile_eq_drop [symmetric])
  then have caps: "\<And>a v. (a, v) \<in> set (take k pms) \<Longrightarrow> 2 \<le> unat a \<and> ax_cap (unat a) = 2"
    "\<And>a v. (a, v) \<in> set (drop k pms) \<Longrightarrow> 2 \<le> unat a \<and> ax_cap (unat a) = 3"
    using axes_sorted_parts(2-5) [OF assms(1) _ assms(3)] assms(2) by (force simp: list_all_iff)+
  have below: "\<And>a v. (a, v) \<in> set (take k pms) \<Longrightarrow> slot (unat (u2_ax_mas a)) h = Some v"
    "\<And>a v. (a, v) \<in> set (drop k pms) \<Longrightarrow> slot (unat (u2_ax_mas a)) t = Some v"
    using h t by (force simp: molted_def cut(2) take_map drop_map)+
  have at: "slot (unat a) (Cell h t) = Some v" if "(a, v) \<in> set pms" for a v
    using that below [of a v] caps [of a v] unfolding split
    by (auto simp: slot_cap_mas u2_ax_mas_correct)
  have frame: "slot b (Cell h t) = Some x"
    if b: "slot b som = Some x" and apart: "\<forall>a \<in> fst ` set pms. ax_apart (unat a) b" for b x
  proof -
    obtain a where "a \<in> fst ` set pms" using assms(2) by (cases pms) auto
    then have 2: "2 \<le> b" using apart ax_apart.simps [of "unat a" b] by (auto split: if_splits)
    then have som': "som = Cell p q" using som b by (auto simp: slot_cap_mas)
    have rest: "ax_apart (unat (u2_ax_mas a)) (ax_mas b)"
      if "(a, v) \<in> set pms" "ax_cap (unat a) = ax_cap b" for a v
    proof -
      have "2 \<le> unat a" "ax_apart (unat a) b" using that(1) apart cut(1) by (force simp: list_all_iff)+
      then show ?thesis
        using that(2) ax_apart.simps [of "unat a" b] 2 by (simp add: u2_ax_mas_correct)
    qed
    show ?thesis
    proof (cases "ax_cap b = 2")
      case True
      then have "\<forall>a \<in> fst ` set (take k mas). ax_apart (unat a) (ax_mas b)"
        using rest caps(1) by (force simp: cut(2) take_map split)
      then show ?thesis using True h b 2 by (simp add: som' slot_cap_mas molted_def)
    next
      case False
      then have "\<forall>a \<in> fst ` set (drop k mas). ax_apart (unat a) (ax_mas b)"
        using rest caps(2) ax_cap_mas(2) [OF 2] by (force simp: cut(2) drop_map split)
      then show ?thesis using False t b 2 by (simp add: som' slot_cap_mas molted_def)
    qed
  qed
  show ?thesis using at frame by (auto simp: molted_def)
qed

lemma molt_cut_sorted:
  assumes "axes_sorted (map unat (map fst pms))" "pms \<noteq> []" "map fst pms \<noteq> [1]"
  obtains k mas where "molt_cut pms = Inr (k, mas)"
    "axes_sorted (map unat (map fst (take k mas)))" "axes_sorted (map unat (map fst (drop k mas)))"
proof -
  have ne: "map fst pms \<noteq> []" using assms(2) by simp
  note parts = axes_sorted_parts [OF assms(1) ne assms(3)]
  obtain k mas where cut: "molt_cut pms = Inr (k, mas)"
    using mean_cut_loop_correct [OF parts(1)] by (simp add: molt_cut_def)
  note mas = molt_cut_Inr [OF cut]
  have "head_axes (map fst pms) = map fst (take k pms)" "tail_axes (map fst pms) = map fst (drop k pms)"
    by (simp_all add: mas(3) takeWhile_eq_take [symmetric] dropWhile_eq_drop [symmetric]
        flip: take_map drop_map)
  then have "map fst (take k mas) = map u2_ax_mas (head_axes (map fst pms))"
    "map fst (drop k mas) = map u2_ax_mas (tail_axes (map fst pms))"
    by (simp_all add: mas(2) take_map drop_map)
  then show thesis using that [OF cut] parts(6,7) by simp
qed

lemma molt_apply_correct:
  assumes "axes_sorted (map unat (map fst pms))"
  shows "\<exists>r. molt_apply som pms = Inr r \<and> molted som pms r"
  using assms
proof (induction som pms rule: molt_apply.induct)
  case (1 som pms)
  consider "pms = []" | v where "pms = [(1, v)]" | "pms \<noteq> []" "map fst pms \<noteq> [1]"
    by (cases "pms = []"; cases "map fst pms = [1]") auto
  then show ?case
  proof cases
    case 3
    then have guard: "pms \<noteq> []" "\<not> (length pms = 1 \<and> fst (hd pms) = 1)" by (cases pms; auto)+
    obtain k mas where cut: "molt_cut pms = Inr (k, mas)"
      "axes_sorted (map unat (map fst (take k mas)))" "axes_sorted (map unat (map fst (drop k mas)))"
      using molt_cut_sorted [OF "1.prems" 3] .
    obtain p q where som: "som = Cell p q \<or> (\<exists>x. som = Atom x) \<and> p = u2_nul \<and> q = u2_nul"
      by (cases som) auto
    have IH: "\<exists>h. molt_apply p (take k mas) = Inr h \<and> molted p (take k mas) h"
      "\<exists>t. molt_apply q (drop k mas) = Inr t \<and> molted q (drop k mas) t"
      using som "1.IH" [OF guard cut(1) refl] cut(2,3) by auto
    then show ?thesis
      using molted_cell [OF "1.prems" 3 cut(1), of p _ q _ som] som guard cut(1)
      by (auto simp: molt_apply.simps [of som pms])
  qed (auto simp: molt_apply.simps molted_def ax_apart.simps [of "Suc 0"])
qed

lemma u2_rl_molt_correct:
  assumes "axes_sorted (map unat (map fst pms))"
  obtains r where "u2_rl_molt som pms = Inr r" "molted som pms r"
  using molt_apply_correct [OF assms, of som] unfolding u2_rl_molt_def by blast

lemma those_SomeI: "\<forall>x \<in> set xs. f x = Some (g x) \<Longrightarrow> those (map f xs) = Some (map g xs)"
  by (induction xs) auto

lemma u2_mean_molt:
  assumes "axes_sorted (map unat (map fst pms))"
  shows "rbind (u2_rl_molt som pms) (\<lambda>r. u2_mean r (map fst pms)) = Inr (Some (map snd pms))"
proof -
  obtain r where "u2_rl_molt som pms = Inr r" "molted som pms r" by (rule u2_rl_molt_correct [OF assms])
  moreover from this have "those (map (\<lambda>p. slot (unat (fst p)) r) pms) = Some (map snd pms)"
    by (intro those_SomeI) (auto simp: molted_def)
  ultimately show ?thesis by (simp add: u2_mean_correct [OF assms] comp_def)
qed

section \<open>Factoring\<close>

text \<open>
  The out-parameters are the value of the option. \<^verbatim>\<open>u2_sing\<close> decides equality of nouns, which
  the theory on hashes shows for the representation.
\<close>

definition u2_as_bush :: "noun \<Rightarrow> (noun \<times> noun) option" where
  "u2_as_bush a =
     (case a of Atom _ \<Rightarrow> None | Cell b c \<Rightarrow> (case b of Atom _ \<Rightarrow> None | Cell _ _ \<Rightarrow> Some (b, c)))"

definition u2_as_cell :: "noun \<Rightarrow> (noun \<times> noun) option" where
  "u2_as_cell a = (case a of Atom _ \<Rightarrow> None | Cell b c \<Rightarrow> Some (b, c))"

definition u2_as_trel :: "noun \<Rightarrow> (noun \<times> noun \<times> noun) option" where
  "u2_as_trel a =
     Option.bind (u2_as_cell a) (\<lambda>(b, guf).
     Option.bind (u2_as_cell guf) (\<lambda>(c, d). Some (b, c, d)))"

definition u2_as_qual :: "noun \<Rightarrow> (noun \<times> noun \<times> noun \<times> noun) option" where
  "u2_as_qual a =
     Option.bind (u2_as_cell a) (\<lambda>(b, guf).
     Option.bind (u2_as_trel guf) (\<lambda>(c, d, e). Some (b, c, d, e)))"

definition u2_as_quil :: "noun \<Rightarrow> (noun \<times> noun \<times> noun \<times> noun \<times> noun) option" where
  "u2_as_quil a =
     Option.bind (u2_as_cell a) (\<lambda>(b, guf).
     Option.bind (u2_as_qual guf) (\<lambda>(c, d, e, f). Some (b, c, d, e, f)))"

definition u2_as_hext :: "noun \<Rightarrow> (noun \<times> noun \<times> noun \<times> noun \<times> noun \<times> noun) option" where
  "u2_as_hext a =
     Option.bind (u2_as_cell a) (\<lambda>(b, guf).
     Option.bind (u2_as_quil guf) (\<lambda>(c, d, e, f, g). Some (b, c, d, e, f, g)))"

definition u2_as_p :: "noun \<Rightarrow> noun \<Rightarrow> noun option" where
  "u2_as_p a b = Option.bind (u2_as_cell a) (\<lambda>(feg, nux). if feg = b then Some nux else None)"

definition u2_as_pq :: "noun \<Rightarrow> noun \<Rightarrow> (noun \<times> noun) option" where
  "u2_as_pq a b = Option.bind (u2_as_p a b) u2_as_cell"

definition u2_as_pqr :: "noun \<Rightarrow> noun \<Rightarrow> (noun \<times> noun \<times> noun) option" where
  "u2_as_pqr a b = Option.bind (u2_as_p a b) u2_as_trel"

definition u2_as_pqrs :: "noun \<Rightarrow> noun \<Rightarrow> (noun \<times> noun \<times> noun \<times> noun) option" where
  "u2_as_pqrs a b = Option.bind (u2_as_p a b) u2_as_qual"

lemma u2_as_cell_Some [simp]: "u2_as_cell a = Some (b, c) \<longleftrightarrow> a = Cell b c"
  by (auto simp: u2_as_cell_def split: noun.splits)

lemma u2_as_Some [simp]:
  "u2_as_trel a = Some (b, c, d) \<longleftrightarrow> a = noun_tuple [b, c, d]"
  "u2_as_qual a = Some (b, c, d, e) \<longleftrightarrow> a = noun_tuple [b, c, d, e]"
  "u2_as_quil a = Some (b, c, d, e, f) \<longleftrightarrow> a = noun_tuple [b, c, d, e, f]"
  "u2_as_hext a = Some (b, c, d, e, f, g) \<longleftrightarrow> a = noun_tuple [b, c, d, e, f, g]"
  by (auto simp: u2_as_trel_def u2_as_qual_def u2_as_quil_def u2_as_hext_def bind_eq_Some_conv)

lemma u2_as_p_Some [simp]:
  "u2_as_p a b = Some c \<longleftrightarrow> a = Cell b c"
  "u2_as_pq a b = Some (c, d) \<longleftrightarrow> a = noun_tuple [b, c, d]"
  "u2_as_pqr a b = Some (c, d, e) \<longleftrightarrow> a = noun_tuple [b, c, d, e]"
  "u2_as_pqrs a b = Some (c, d, e, f) \<longleftrightarrow> a = noun_tuple [b, c, d, e, f]"
  by (auto simp: u2_as_p_def u2_as_pq_def u2_as_pqr_def u2_as_pqrs_def bind_eq_Some_conv)

section \<open>The order of nouns\<close>

text \<open>
  \<^verbatim>\<open>u2_nord\<close> returns 0, 1 or 2. The test of pointer equality it starts with is not visible
  at this level: \<open>u2_nord_refl\<close> shows that it changes no result. The loop over the words of two
  indirect atoms of the same length runs from the least significant word up.
\<close>

primrec nord_words :: "c3_w list \<Rightarrow> c3_w list \<Rightarrow> nat" where
  "nord_words [] bs = 1"
| "nord_words (a # as) bs =
     (if a \<noteq> hd bs then (if a < hd bs then 0 else 2) else nord_words as (tl bs))"

definition nord_atom :: "nat \<Rightarrow> nat \<Rightarrow> nat" where
  "nord_atom a b =
     (if u2_fly_is_cat a then
        if u2_fly_is_cat b then if a = b then 1 else if a < b then 0 else 2
        else 0
      else if u2_fly_is_cat b then 2
      else let w_rez = length (atom_words a); w_mox = length (atom_words b)
           in if w_rez \<noteq> w_mox then (if w_rez < w_mox then 0 else 2)
              else nord_words (atom_words a) (atom_words b))"

fun u2_nord :: "noun \<Rightarrow> noun \<Rightarrow> nat" where
  "u2_nord (Atom a) (Atom b) = nord_atom a b"
| "u2_nord (Atom a) (Cell _ _) = 0"
| "u2_nord (Cell _ _) (Atom b) = 2"
| "u2_nord (Cell a b) (Cell c d) = (let x = u2_nord a c in if x = 1 then u2_nord b d else x)"

lemma nord_words_eq: "length as = length bs \<Longrightarrow> nord_words as bs = 1 \<longleftrightarrow> as = bs"
  by (induction as bs rule: list_induct2) auto

lemma nord_atom_eq: "nord_atom a b = 1 \<longleftrightarrow> a = b"
proof -
  have "nord_words (atom_words a) (atom_words b) = 1 \<longleftrightarrow> a = b"
    if "length (atom_words a) = length (atom_words b)"
    using nord_words_eq [OF that] by (metis words_atom_atom_words)
  then show ?thesis by (auto simp: nord_atom_def Let_def)
qed

lemma u2_nord_eq: "u2_nord a b = 1 \<longleftrightarrow> a = b"
  by (induction a b rule: u2_nord.induct) (auto simp: Let_def nord_atom_eq simp del: One_nat_def)

lemma u2_nord_refl: "u2_nord a a = 1"
  using u2_nord_eq [of a a] by simp

text \<open>On direct atoms, and on atoms of different lengths, the order is that of the numbers.\<close>

lemma length_atom_words_less: "length (atom_words a) < length (atom_words b) \<Longrightarrow> a < b"
  by (metis length_atom_words div_le_mono add_le_mono1 nbits_mono not_le)

lemma nord_atom_correct:
  assumes "u2_fly_is_cat a \<or> u2_fly_is_cat b \<or> length (atom_words a) \<noteq> length (atom_words b)"
  shows "nord_atom a b = (if a < b then 0 else if a = b then 1 else 2)"
  using assms length_atom_words_less [of a b] length_atom_words_less [of b a]
  by (auto simp: nord_atom_def Let_def u2_fly_is_cat_def)

lemma u2_nord_wrong: "u2_nord (Atom (2 * 2 ^ 32)) (Atom (2 ^ 32 + 1)) = 0"
  by (simp add: nord_atom_def u2_fly_is_cat_def atom_words_pos Let_def)

section \<open>Properties\<close>

text \<open>
  C25: what \<^verbatim>\<open>u2_frag\<close> returns for every axis: the fragment that tree addressing defines, or
  \<^verbatim>\<open>u2_none\<close> when there is none; except that for an axis of more than one word whose top word
  already leads out of the noun, it follows \<^verbatim>\<open>u2_none\<close> as if it were a cell and reads wild memory.
\<close>

theorem u2_frag_exact:
  "u2_frag (Atom a) b =
     (if 2 ^ 32 \<le> a \<and> slot (unat (last (atom_words a))) b = None then Inl Wild
      else Inr (slot a b))"
  by (rule u2_frag_slot)

text \<open>
  The untested \<^verbatim>\<open>u2_none\<close> in \<^verbatim>\<open>_frag_phat\<close> at work: asking the atom 0 for its fragment at
  axis \<open>2\<^sup>3\<^sup>3\<close>, for which the answer is that there is none, reads wild memory.
\<close>

theorem u2_frag_wild: "u2_frag (Atom (2 ^ 33)) (Atom 0) = Inl Wild \<and> slot (2 ^ 33) (Atom 0) = None"
proof -
  have "last (atom_words (2 ^ 33)) = 2" by (simp add: atom_words_pos)
  then show ?thesis by (simp add: u2_frag_slot slot_cap_mas)
qed

text \<open>
  C29: \<^verbatim>\<open>u2_mean\<close> with axes in tree order returns all the fragments in the order of the axes,
  or \<^verbatim>\<open>u2_no\<close> when one of them does not exist; it never shifts by a negative amount.
\<close>

theorem u2_mean_exact:
  assumes "axes_sorted (map unat axs)"
  shows "u2_mean som axs = Inr (those (map (\<lambda>a. slot (unat a) som) axs))"
  using assms by (rule u2_mean_correct)

theorem u2_mean_exact_witness:
  "u2_mean (Cell (Atom 1) (Cell (Cell (Atom 2) (Atom 3)) (Atom 4))) [12, 13] =
     Inr (those (map (\<lambda>a. slot (unat a) (Cell (Atom 1) (Cell (Cell (Atom 2) (Atom 3)) (Atom 4))))
       [12, 13 :: c3_w]))"
  by (rule u2_mean_exact) (simp add: axes_sorted_jets)

text \<open>
  C30: \<^verbatim>\<open>u2_rl_molt\<close> edits what it is told to and nothing else: with axes in tree order it
  succeeds, and the result is \<open>molted\<close>: every fragment it was given is at its axis in the
  result, and every fragment of the original that is apart from all the axes is unchanged.
\<close>

theorem u2_rl_molt_edits:
  assumes "axes_sorted (map unat (map fst pms))"
  shows "\<exists>r. u2_rl_molt som pms = Inr r \<and> molted som pms r"
  using molt_apply_correct [OF assms, of som] unfolding u2_rl_molt_def .

theorem u2_rl_molt_edits_witness:
  "\<exists>r. u2_rl_molt (Cell (Atom 1) (Cell (Atom 2) (Atom 3))) [(12, Atom 8), (13, Atom 9)] = Inr r \<and>
    molted (Cell (Atom 1) (Cell (Atom 2) (Atom 3))) [(12, Atom 8), (13, Atom 9)] r"
  by (rule u2_rl_molt_edits) (simp add: axes_sorted_jets)

text \<open>
  \<^verbatim>\<open>u2_mean\<close> after \<^verbatim>\<open>u2_rl_molt\<close> with the same axes returns the nouns that were put in.
\<close>

theorem u2_mean_after_molt:
  assumes "axes_sorted (map unat (map fst pms))"
  shows "rbind (u2_rl_molt som pms) (\<lambda>r. u2_mean r (map fst pms)) = Inr (Some (map snd pms))"
  using assms by (rule u2_mean_molt)

theorem u2_mean_after_molt_witness:
  "rbind (u2_rl_molt (Atom 5) [(6, Atom 8), (7, Atom 9)])
     (\<lambda>r. u2_mean r (map fst [(6, Atom 8), (7, Atom 9)])) = Inr (Some (map snd [(6 :: c3_w, Atom 8), (7, Atom 9)]))"
  by (rule u2_mean_after_molt) (simp add: axes_sorted_jets)

text \<open>
  \<^verbatim>\<open>u2_nord\<close> decides equality, and orders atoms by value when one of them is direct or they
  differ in length; but of two indirect atoms of the same length it compares the least
  significant word first, and calls \<open>2 * 2\<^sup>3\<^sup>2\<close> less than \<open>2\<^sup>3\<^sup>2 + 1\<close>.
\<close>

theorem u2_nord_order:
  assumes "u2_fly_is_cat a \<or> length (atom_words a) \<noteq> length (atom_words b)"
  shows "(u2_nord m n = 1 \<longleftrightarrow> m = n) \<and>
   u2_nord (Atom a) (Atom b) = (if a < b then 0 else if a = b then 1 else 2) \<and>
   u2_nord (Atom (2 * 2 ^ 32)) (Atom (2 ^ 32 + 1)) = 0"
  using assms u2_nord_eq u2_nord_wrong nord_atom_correct [of a b] by (auto simp del: One_nat_def)

theorem u2_nord_order_witness:
  "(u2_nord (Cell (Atom 1) (Atom 2)) (Atom 2) = 1 \<longleftrightarrow> Cell (Atom 1) (Atom 2) = Atom 2) \<and>
   u2_nord (Atom 3) (Atom 4) = (if (3::nat) < 4 then 0 else if (3::nat) = 4 then 1 else 2) \<and>
   u2_nord (Atom (2 * 2 ^ 32)) (Atom (2 ^ 32 + 1)) = 0"
  by (rule u2_nord_order) (simp add: u2_fly_is_cat_def)

end
