(* ===== verification/Mug.thy ===== *)
theory Mug
  imports Loom
begin

text \<open>
  The hash of nouns and their equality, \<^verbatim>\<open>f/loom.c\<close>: \<^verbatim>\<open>u2_mug\<close>, a 31-bit FNV hash that is
  never 0 and is cached in the noun, and \<^verbatim>\<open>u2_sing\<close>, which uses cached hashes to tell nouns
  apart.

  The hash functions are word arithmetic. Caching is modelled on an explicit heap: a fly is a
  direct word or the address of a box, a box holds its cached hash and either the words of an
  atom or the flies of a cell. \<open>noun_at\<close> says which noun a fly stands for; \<open>mugs_ok\<close> is the
  invariant of the caches.
\<close>

section \<open>The hash functions\<close>

definition mug_fnv :: "c3_w \<Rightarrow> c3_w" where
  "mug_fnv has_w = has_w * 16777619"

definition mug_out :: "c3_w \<Rightarrow> c3_w" where
  "mug_out has_w = drop_bit 31 has_w XOR (has_w AND 0x7fffffff)"

text \<open>
  Every hash is computed from a start value, and computed again from the next start value when
  it comes out as 0. Multiplication by an odd number is injective, so at most two start values
  give 0 and the search ends.
\<close>

lemma mug_fnv_inverse: "mug_fnv x * 0x359c449b = x"
proof -
  have "(16777619 :: c3_w) * 0x359c449b = 1" by simp
  then show ?thesis unfolding mug_fnv_def mult.assoc by (simp only: mult_1_right)
qed

lemma mug_fnv_inject [simp]: "mug_fnv x = mug_fnv y \<longleftrightarrow> x = y"
  by (metis mug_fnv_inverse)

lemma mask_31: "(0x7fffffff :: c3_w) = mask 31"
  by (simp add: mask_eq_exp_minus_1)

lemma unat_and_mask_31: "unat (w AND 0x7fffffff :: c3_w) = unat w mod 2 ^ 31"
  unfolding mask_31 take_bit_eq_mask [symmetric] unsigned_take_bit_eq
  by (rule take_bit_eq_mod)

lemma mug_out_eq_0: "mug_out w = 0 \<longleftrightarrow> w = 0 \<or> w = 0x80000001"
proof
  assume "mug_out w = 0"
  then have "drop_bit 31 w = w AND 0x7fffffff" by (auto simp: mug_out_def bit_eq_iff bit_simps)
  then have "unat w div 2 ^ 31 = unat w mod 2 ^ 31"
    by (metis unat_drop_c3_w unat_and_mask_31)
  moreover have "unat w div 2 ^ 31 = 0 \<or> unat w div 2 ^ 31 = 1"
    using unat_c3_w [of w] by (simp add: less_mult_imp_div_less less_2_cases_iff [symmetric])
  ultimately have "unat w = 0 \<or> unat w = 0x80000001"
    using div_mult_mod_eq [of "unat w" "2 ^ 31"] by auto
  then have "unat w = unat (0 :: c3_w) \<or> unat w = unat (0x80000001 :: c3_w)" by simp
  then show "w = 0 \<or> w = 0x80000001" by (simp only: word_unat_eq_iff)
qed (auto simp: mug_out_def)

lemma mug_out_less: "unat (mug_out w) < 2 ^ 31"
proof -
  have "drop_bit 31 (mug_out w) = 0"
    unfolding mug_out_def mask_31 by (rule bit_word_eqI) (auto simp: bit_simps dest: bit_imp_le_length)
  then show ?thesis by (simp add: drop_bit_eq_0_c3_w nbits_le_iff)
qed

lemma mug_search:
  fixes f :: "c3_w \<Rightarrow> c3_w"
  assumes "inj f"
  obtains k where "mug_out (f (w + of_nat k)) \<noteq> 0"
proof (rule ccontr)
  assume "\<not> thesis"
  then have zero: "mug_out (f (w + of_nat k)) = 0" for k using that by blast
  have "f (w + of_nat k) \<in> {0, 0x80000001}" for k using zero [of k] by (simp add: mug_out_eq_0)
  from this [of 0] this [of 1] this [of 2]
  have "f w = f (w + 1) \<or> f w = f (w + 2) \<or> f (w + 1) = f (w + 2)" by auto
  then show False using assms by (simp add: inj_eq)
qed

definition mug_steps :: "(c3_w \<Rightarrow> c3_w) \<Rightarrow> c3_w \<Rightarrow> nat" where
  "mug_steps f w = (LEAST k. mug_out (f (w + of_nat k)) \<noteq> 0)"

lemma mug_steps_less:
  assumes "inj f" "mug_out (f w) = 0"
  shows "mug_steps f (w + 1) < mug_steps f w"
proof -
  let ?P = "\<lambda>k. mug_out (f (w + of_nat k)) \<noteq> 0"
  obtain n where "?P n" using mug_search [OF assms(1)] .
  then have P: "?P (mug_steps f w)" unfolding mug_steps_def by (rule LeastI)
  then obtain k where k: "mug_steps f w = Suc k" using assms(2) by (cases "mug_steps f w") auto
  then have "mug_out (f (w + 1 + of_nat k)) \<noteq> 0" using P by (simp add: add.assoc)
  then have "mug_steps f (w + 1) \<le> k" unfolding mug_steps_def by (rule Least_le)
  then show ?thesis by (simp add: k)
qed

section \<open>Hashing cells, bytes and words\<close>

abbreviation (input) mug_bot :: "c3_w \<Rightarrow> c3_w \<Rightarrow> c3_w" where
  "mug_bot lef_w rit_w \<equiv> mug_fnv (lef_w XOR mug_fnv rit_w)"

lemma xor_inject [simp]: "(a :: c3_w) XOR b = a XOR c \<longleftrightarrow> b = c" "b XOR a = c XOR a \<longleftrightarrow> b = c"
  by (auto simp: bit_eq_iff bit_simps)

lemma inj_mug_bot: "inj (\<lambda>rit_w. mug_bot lef_w rit_w)"
  by (rule injI) simp

function mug_both :: "c3_w \<Rightarrow> c3_w \<Rightarrow> c3_w" where
  "mug_both lef_w rit_w =
     (let bot_w = mug_fnv (lef_w XOR mug_fnv rit_w);
          out_w = mug_out bot_w
      in if out_w \<noteq> 0 then out_w else mug_both lef_w (rit_w + 1))"
  by pat_completeness auto

termination
  by (relation "measure (\<lambda>(lef_w, rit_w). mug_steps (mug_bot lef_w) rit_w)")
    (simp_all add: mug_steps_less [OF inj_mug_bot])

definition u2_mug_both :: "c3_w \<Rightarrow> c3_w \<Rightarrow> c3_w" where
  "u2_mug_both lef_w rit_w = mug_both lef_w rit_w"

primrec mug_bytes_in :: "c3_w \<Rightarrow> c3_y list \<Rightarrow> c3_w" where
  "mug_bytes_in off_w [] = off_w"
| "mug_bytes_in off_w (b # byt_y) = mug_bytes_in (mug_fnv (off_w XOR ucast b)) byt_y"

lemma inj_mug_bytes_in: "inj (\<lambda>off_w. mug_bytes_in off_w byt_y)"
proof (rule injI)
  have "mug_bytes_in x byt_y = mug_bytes_in y byt_y \<longleftrightarrow> x = y" for x y
    by (induction byt_y arbitrary: x y) simp_all
  then show "x = y" if "mug_bytes_in x byt_y = mug_bytes_in y byt_y" for x y
    using that by simp
qed

function mug_bytes :: "c3_w \<Rightarrow> c3_y list \<Rightarrow> c3_w" where
  "mug_bytes off_w byt_y =
     (let has_w = mug_bytes_in off_w byt_y;
          out_w = mug_out has_w
      in if out_w \<noteq> 0 then out_w else mug_bytes (off_w + 1) byt_y)"
  by pat_completeness auto

termination
  by (relation "measure (\<lambda>(off_w, byt_y). mug_steps (\<lambda>off_w. mug_bytes_in off_w byt_y) off_w)")
    (simp_all add: mug_steps_less [OF inj_mug_bytes_in])

text \<open>
  The words of an atom are hashed byte by byte, least significant first, without the leading
  zero bytes of the last word.
\<close>

definition mug_word_full :: "c3_w \<Rightarrow> c3_w \<Rightarrow> c3_w" where
  "mug_word_full off_w x_w =
     (let a_y = ucast (x_w AND 0xff) :: c3_y;
          b_y = ucast (drop_bit 8 x_w AND 0xff) :: c3_y;
          c_y = ucast (drop_bit 16 x_w AND 0xff) :: c3_y;
          d_y = ucast (drop_bit 24 x_w AND 0xff) :: c3_y;
          off_w = mug_fnv (off_w XOR ucast a_y);
          off_w = mug_fnv (off_w XOR ucast b_y);
          off_w = mug_fnv (off_w XOR ucast c_y)
      in mug_fnv (off_w XOR ucast d_y))"

definition mug_word_last :: "c3_w \<Rightarrow> c3_w \<Rightarrow> c3_w" where
  "mug_word_last off_w x_w =
     (if x_w \<noteq> 0 then
        let off_w = mug_fnv (off_w XOR (x_w AND 0xff)); x_w = drop_bit 8 x_w
        in if x_w \<noteq> 0 then
             let off_w = mug_fnv (off_w XOR (x_w AND 0xff)); x_w = drop_bit 8 x_w
             in if x_w \<noteq> 0 then
                  let off_w = mug_fnv (off_w XOR (x_w AND 0xff)); x_w = drop_bit 8 x_w
                  in if x_w \<noteq> 0 then mug_fnv (off_w XOR (x_w AND 0xff)) else off_w
                else off_w
           else off_w
      else off_w)"

definition mug_words_in :: "c3_w \<Rightarrow> c3_w list \<Rightarrow> c3_w" where
  "mug_words_in off_w wod_w =
     (if wod_w = [] then off_w
      else mug_word_last (foldl mug_word_full off_w (butlast wod_w)) (last wod_w))"

lemma mug_word_full_inject: "mug_word_full x w = mug_word_full y w \<longleftrightarrow> x = y"
  by (simp add: mug_word_full_def Let_def)

lemma mug_word_last_inject: "mug_word_last x w = mug_word_last y w \<longleftrightarrow> x = y"
  by (simp add: mug_word_last_def Let_def)

lemma inj_mug_words_in: "inj (\<lambda>off_w. mug_words_in off_w wod_w)"
proof (rule injI)
  have fold: "foldl mug_word_full x ws = foldl mug_word_full y ws \<longleftrightarrow> x = y" for x y ws
    by (induction ws arbitrary: x y) (simp_all add: mug_word_full_inject)
  show "x = y" if "mug_words_in x wod_w = mug_words_in y wod_w" for x y
    using that by (simp add: mug_words_in_def mug_word_last_inject fold split: if_splits)
qed

function mug_words :: "c3_w \<Rightarrow> c3_w list \<Rightarrow> c3_w" where
  "mug_words off_w wod_w =
     (let has_w = mug_words_in off_w wod_w;
          out_w = mug_out has_w
      in if out_w \<noteq> 0 then out_w else mug_words (off_w + 1) wod_w)"
  by pat_completeness auto

termination
  by (relation "measure (\<lambda>(off_w, wod_w). mug_steps (\<lambda>off_w. mug_words_in off_w wod_w) off_w)")
    (simp_all add: mug_steps_less [OF inj_mug_words_in])

declare mug_both.simps [simp del] mug_bytes.simps [simp del] mug_words.simps [simp del]

definition u2_mug_words :: "c3_w list \<Rightarrow> c3_w" where
  "u2_mug_words buf_w = mug_words 2166136261 buf_w"

definition u2_mug_string :: "c3_y list \<Rightarrow> c3_w" where
  "u2_mug_string a_c = mug_bytes 2166136261 a_c"

text \<open>A hash is never 0, so that 0 can stand for no cached hash, and it is a direct atom.\<close>

lemma mug_both_range: "mug_both l r \<noteq> 0 \<and> unat (mug_both l r) < 2 ^ 31"
  by (induction l r rule: mug_both.induct) (subst (1 2) mug_both.simps, auto simp: Let_def mug_out_less [simplified])

lemma mug_bytes_range: "mug_bytes w bs \<noteq> 0 \<and> unat (mug_bytes w bs) < 2 ^ 31"
  by (induction w bs rule: mug_bytes.induct) (subst (1 2) mug_bytes.simps, auto simp: Let_def mug_out_less [simplified])

lemma mug_words_range: "mug_words w ws \<noteq> 0 \<and> unat (mug_words w ws) < 2 ^ 31"
  by (induction w ws rule: mug_words.induct) (subst (1 2) mug_words.simps, auto simp: Let_def mug_out_less [simplified])

section \<open>The hash of a noun\<close>

text \<open>What the hash of a noun is, without caches.\<close>

primrec mug :: "noun \<Rightarrow> c3_w" where
  "mug (Atom a) = mug_words 2166136261 (atom_words a)"
| "mug (Cell a b) = mug_both (mug a) (mug b)"

lemma mug_range: "mug n \<noteq> 0 \<and> unat (mug n) < 2 ^ 31"
  by (cases n) (simp_all add: mug_words_range [simplified] mug_both_range [simplified])

lemma mug_nonzero [simp]: "mug n \<noteq> 0"
  using mug_range by simp

section \<open>Nouns in memory\<close>

datatype u2_fly = Fcat c3_w | Fdog nat

text \<open>A box: \<^verbatim>\<open>u2_loom_atom\<close> or \<^verbatim>\<open>u2_loom_cell\<close>, its cached hash first.\<close>

datatype u2_box = Bpug c3_w "c3_w list" | Bpom c3_w u2_fly u2_fly

type_synonym u2_heap = "nat \<rightharpoonup> u2_box"

primrec u2_at_dog_mug :: "u2_box \<Rightarrow> c3_w" where
  "u2_at_dog_mug (Bpug m _) = m"
| "u2_at_dog_mug (Bpom m _ _) = m"

primrec set_mug :: "c3_w \<Rightarrow> u2_box \<Rightarrow> u2_box" where
  "set_mug m (Bpug _ ws) = Bpug m ws"
| "set_mug m (Bpom _ h t) = Bpom m h t"

inductive noun_at :: "u2_heap \<Rightarrow> u2_fly \<Rightarrow> noun \<Rightarrow> bool" where
  at_cat: "unat w < 2 ^ 31 \<Longrightarrow> noun_at H (Fcat w) (Atom (unat w))"
| at_pug: "H p = Some (Bpug m ws) \<Longrightarrow> rep_ok (Pug ws) \<Longrightarrow> noun_at H (Fdog p) (Atom (words_atom ws))"
| at_pom: "H p = Some (Bpom m h t) \<Longrightarrow> noun_at H h a \<Longrightarrow> noun_at H t b \<Longrightarrow>
    noun_at H (Fdog p) (Cell a b)"

inductive_cases noun_at_FcatE: "noun_at H (Fcat w) n"
inductive_cases noun_at_FdogE: "noun_at H (Fdog p) n"
inductive_simps noun_at_Fcat [simp]: "noun_at H (Fcat w) n"

lemma noun_at_det: "noun_at H f m \<Longrightarrow> noun_at H f n \<Longrightarrow> m = n"
proof (induction arbitrary: n rule: noun_at.induct)
  case (at_pug H p m ws)
  then show ?case by (auto elim!: noun_at_FdogE)
next
  case (at_pom H p m h t a b)
  show ?case using at_pom.prems at_pom.hyps(1) at_pom.IH by (cases rule: noun_at_FdogE) auto
qed simp

definition mugs_ok :: "u2_heap \<Rightarrow> bool" where
  "mugs_ok H \<longleftrightarrow> (\<forall>p b n. H p = Some b \<longrightarrow> noun_at H (Fdog p) n \<longrightarrow>
     u2_at_dog_mug b = 0 \<or> u2_at_dog_mug b = mug n)"

text \<open>Two heaps with the same contents up to cached hashes.\<close>

definition same_boxes :: "u2_heap \<Rightarrow> u2_heap \<Rightarrow> bool" where
  "same_boxes H K \<longleftrightarrow> (\<forall>p. map_option (set_mug 0) (H p) = map_option (set_mug 0) (K p))"

lemma same_boxes_refl [simp]: "same_boxes H H"
  by (simp add: same_boxes_def)

lemma same_boxes_sym: "same_boxes H K \<Longrightarrow> same_boxes K H"
  by (simp add: same_boxes_def)

lemma same_boxes_trans: "same_boxes H K \<Longrightarrow> same_boxes K L \<Longrightarrow> same_boxes H L"
  by (simp add: same_boxes_def)

lemma set_mug_eq:
  "set_mug 0 b = Bpug m ws \<longleftrightarrow> m = 0 \<and> (\<exists>k. b = Bpug k ws)"
  "set_mug 0 b = Bpom m h t \<longleftrightarrow> m = 0 \<and> (\<exists>k. b = Bpom k h t)"
  by (cases b; auto)+

lemma same_boxes_box:
  assumes "same_boxes H K"
  shows "H p = Some (Bpug m ws) \<Longrightarrow> \<exists>k. K p = Some (Bpug k ws)"
    and "H p = Some (Bpom m h t) \<Longrightarrow> \<exists>k. K p = Some (Bpom k h t)"
proof -
  have eq: "map_option (set_mug 0) (K p) = map_option (set_mug 0) (H p)"
    using assms by (simp add: same_boxes_def)
  show "\<exists>k. K p = Some (Bpug k ws)" if "H p = Some (Bpug m ws)"
    using eq that by (auto simp: set_mug_eq)
  show "\<exists>k. K p = Some (Bpom k h t)" if "H p = Some (Bpom m h t)"
    using eq that by (auto simp: set_mug_eq)
qed

lemma noun_at_same: "noun_at H f n \<Longrightarrow> same_boxes H K \<Longrightarrow> noun_at K f n"
proof (induction rule: noun_at.induct)
  case (at_pug H p m ws)
  then show ?case using same_boxes_box(1) [OF at_pug(3,1)] by (auto intro: noun_at.at_pug)
next
  case (at_pom H p m h t a b)
  then show ?case using same_boxes_box(2) [OF at_pom(6,1)] by (auto intro: noun_at.at_pom)
qed simp

section \<open>Hashing in memory\<close>

text \<open>
  \<^verbatim>\<open>u2_mug\<close> recurses through the cells in memory, with the body of \<^verbatim>\<open>u2_mug_cell\<close> in place;
  not returning is \<open>None\<close>. It stores the hash it computed.
\<close>

definition store_mug :: "nat \<Rightarrow> c3_w \<Rightarrow> u2_heap \<Rightarrow> u2_heap" where
  "store_mug p m H = H(p := map_option (set_mug m) (H p))"

partial_function (option) u2_mug :: "u2_heap \<Rightarrow> u2_fly \<Rightarrow> (c3_w \<times> u2_heap) res option" where
  "u2_mug H veb =
     (case veb of
        Fcat x_w \<Rightarrow> Some (Inr (mug_words 2166136261 (if x_w \<noteq> 0 then [x_w] else []), H))
      | Fdog p \<Rightarrow>
          (case H p of
             None \<Rightarrow> Some (Inl Wild)
           | Some b \<Rightarrow>
               if u2_at_dog_mug b \<noteq> 0 then Some (Inr (u2_at_dog_mug b, H))
               else case b of
                 Bpom _ hed tel \<Rightarrow>
                   Option.bind (u2_mug H hed) (\<lambda>r. case r of
                     Inl e \<Rightarrow> Some (Inl e)
                   | Inr (lus_w, H) \<Rightarrow>
                       Option.bind (u2_mug H tel) (\<lambda>r. case r of
                         Inl e \<Rightarrow> Some (Inl e)
                       | Inr (biq_w, H) \<Rightarrow>
                           let mug_w = u2_mug_both lus_w biq_w
                           in Some (Inr (mug_w, store_mug p mug_w H))))
               | Bpug _ ws \<Rightarrow>
                   let mug_w = mug_words 2166136261 ws
                   in Some (Inr (mug_w, store_mug p mug_w H))))"

lemma same_boxes_store [simp]: "same_boxes H (store_mug p m H)"
proof -
  have "set_mug 0 (set_mug m b) = set_mug 0 b" for b by (cases b) simp_all
  then show ?thesis by (simp add: same_boxes_def store_mug_def option.map_comp comp_def)
qed

lemma mugs_ok_store:
  assumes "mugs_ok H" "noun_at H (Fdog p) n"
  shows "mugs_ok (store_mug p (mug n) H)"
proof -
  have "same_boxes (store_mug p (mug n) H) H" by (rule same_boxes_sym) simp
  then have at: "noun_at (store_mug p (mug n) H) f k \<Longrightarrow> noun_at H f k" for f k
    by (rule noun_at_same [rotated])
  have mug: "u2_at_dog_mug (set_mug m b) = m" for m b by (cases b) simp_all
  show ?thesis unfolding mugs_ok_def
  proof (intro allI impI)
    fix q b k
    assume b: "store_mug p (mug n) H q = Some b" and k: "noun_at (store_mug p (mug n) H) (Fdog q) k"
    show "u2_at_dog_mug b = 0 \<or> u2_at_dog_mug b = mug k"
    proof (cases "q = p")
      case True
      then have "k = n" using at [OF k] noun_at_det assms(2) by blast
      then show ?thesis using b True mug by (auto simp: store_mug_def)
    next
      case False
      then show ?thesis using b at [OF k] assms(1) by (auto simp: store_mug_def mugs_ok_def)
    qed
  qed
qed

definition mug_done :: "u2_heap \<Rightarrow> u2_fly \<Rightarrow> noun \<Rightarrow> bool" where
  "mug_done H f n \<longleftrightarrow> (\<exists>K. u2_mug H f = Some (Inr (mug n, K)) \<and> mugs_ok K \<and> same_boxes H K)"

lemma mugs_okD:
  "mugs_ok H \<Longrightarrow> H p = Some b \<Longrightarrow> noun_at H (Fdog p) n \<Longrightarrow>
    u2_at_dog_mug b = 0 \<or> u2_at_dog_mug b = mug n"
  unfolding mugs_ok_def by blast

lemma u2_mug_atom:
  assumes "noun_at H f (Atom a)" "mugs_ok H"
  shows "mug_done H f (Atom a)"
  using assms(1)
proof (cases rule: noun_at.cases)
  case (at_cat w)
  then show ?thesis
    using assms(2) unfolding mug_done_def
    by (subst u2_mug.simps) (auto simp: atom_words_cat u2_fly_is_cat_def unat_eq_0)
next
  case (at_pug p m ws)
  then have "atom_words a = ws" by (simp add: atom_words_unique)
  moreover have "m = 0 \<or> m = mug (Atom a)" using mugs_okD [of H p _ "Atom a"] assms at_pug by fastforce
  moreover have "mugs_ok (store_mug p (mug (Atom a)) H)" using assms at_pug by (simp only: mugs_ok_store)
  ultimately show ?thesis
    using at_pug assms(2) unfolding mug_done_def by (subst u2_mug.simps) (auto simp: Let_def)
qed

lemma u2_mug_pom:
  assumes "noun_at H (Fdog p) (Cell a b)" "mugs_ok H" "H p = Some (Bpom m h t)"
    and "mug_done H h a" and IH: "\<And>K. mugs_ok K \<Longrightarrow> same_boxes H K \<Longrightarrow> mug_done K t b"
  shows "mug_done H (Fdog p) (Cell a b)"
proof -
  have m: "m = 0 \<or> m = mug (Cell a b)" using mugs_okD [OF assms(2,3,1)] by simp
  obtain K where K: "u2_mug H h = Some (Inr (mug a, K))" "mugs_ok K" "same_boxes H K"
    using assms(4) unfolding mug_done_def by blast
  obtain L where L: "u2_mug K t = Some (Inr (mug b, L))" "mugs_ok L" "same_boxes K L"
    using IH [OF K(2,3)] unfolding mug_done_def by blast
  have HL: "same_boxes H L" using K(3) L(3) by (rule same_boxes_trans)
  have "mugs_ok (store_mug p (mug (Cell a b)) L)"
    using mugs_ok_store [OF L(2)] noun_at_same [OF assms(1) HL] by blast
  moreover have "same_boxes H (store_mug p (mug (Cell a b)) L)"
    using HL same_boxes_store by (rule same_boxes_trans)
  ultimately show ?thesis
    using m assms(2,3) K(1) L(1) unfolding mug_done_def
    by (subst u2_mug.simps) (auto simp: Let_def u2_mug_both_def)
qed

lemma u2_mug_correct:
  assumes "noun_at H f n" "mugs_ok H"
  shows "mug_done H f n"
  using assms
proof (induction n arbitrary: H f rule: noun.induct)
  case (Atom a)
  then show ?case by (rule u2_mug_atom)
next
  case (Cell a b)
  from Cell.prems(1) obtain p m h t where f: "f = Fdog p" and box: "H p = Some (Bpom m h t)"
    and at: "noun_at H h a" "noun_at H t b" by (auto elim: noun_at.cases)
  show ?case unfolding f
    using Cell.prems Cell.IH at noun_at_same box by (intro u2_mug_pom [where m = m and h = h and t = t]) (auto simp: f)
qed

definition u2_mug_cell :: "u2_heap \<Rightarrow> u2_fly \<Rightarrow> u2_fly \<Rightarrow> (c3_w \<times> u2_heap) res option" where
  "u2_mug_cell H hed tel =
     Option.bind (u2_mug H hed) (\<lambda>r. case r of
       Inl e \<Rightarrow> Some (Inl e)
     | Inr (lus_w, H) \<Rightarrow>
         Option.bind (u2_mug H tel) (\<lambda>r. case r of
           Inl e \<Rightarrow> Some (Inl e)
         | Inr (biq_w, H) \<Rightarrow> Some (Inr (u2_mug_both lus_w biq_w, H))))"

lemma u2_mug_cell_correct:
  assumes "noun_at H h a" "noun_at H t b" "mugs_ok H"
  shows "\<exists>K. u2_mug_cell H h t = Some (Inr (mug (Cell a b), K)) \<and> mugs_ok K \<and> same_boxes H K"
proof -
  obtain K where K: "u2_mug H h = Some (Inr (mug a, K))" "mugs_ok K" "same_boxes H K"
    using u2_mug_correct [OF assms(1,3)] unfolding mug_done_def by blast
  obtain L where L: "u2_mug K t = Some (Inr (mug b, L))" "mugs_ok L" "same_boxes K L"
    using u2_mug_correct [OF noun_at_same [OF assms(2) K(3)] K(2)] unfolding mug_done_def by blast
  then show ?thesis
    using K same_boxes_trans [OF K(3) L(3)] by (auto simp: u2_mug_cell_def u2_mug_both_def)
qed

section \<open>Equality in memory\<close>

partial_function (option) sing_x :: "u2_heap \<Rightarrow> u2_fly \<Rightarrow> u2_fly \<Rightarrow> bool res option" where
  "sing_x H a b =
     (if a = b then Some (Inr True)
      else case (a, b) of
        (Fdog p, Fdog q) \<Rightarrow>
          (case (H p, H q) of
             (Some (Bpug m as), Some (Bpug k bs)) \<Rightarrow>
               if m \<noteq> 0 \<and> k \<noteq> 0 \<and> m \<noteq> k then Some (Inr False)
               else if length as \<noteq> length bs then Some (Inr False)
               else Some (Inr (list_all2 (=) as bs))
           | (Some (Bpom m h t), Some (Bpom k i u)) \<Rightarrow>
               if m \<noteq> 0 \<and> k \<noteq> 0 \<and> m \<noteq> k then Some (Inr False)
               else Option.bind (sing_x H h i) (\<lambda>r. case r of
                 Inl e \<Rightarrow> Some (Inl e)
               | Inr x \<Rightarrow> if \<not> x then Some (Inr False) else sing_x H t u)
           | (Some _, Some _) \<Rightarrow> Some (Inr False)
           | _ \<Rightarrow> Some (Inl Wild))
      | _ \<Rightarrow> Some (Inr False))"

definition u2_sing :: "u2_heap \<Rightarrow> u2_fly \<Rightarrow> u2_fly \<Rightarrow> bool res option" where
  "u2_sing H a b = sing_x H a b"

lemma noun_at_atom:
  assumes "noun_at H f (Atom a)"
  shows "(u2_fly_is_cat a \<and> f = Fcat (of_nat a)) \<or>
    (\<exists>p m. f = Fdog p \<and> H p = Some (Bpug m (atom_words a)) \<and> \<not> u2_fly_is_cat a)"
  using assms by (cases rule: noun_at.cases) (auto simp: u2_fly_is_cat_def atom_words_unique)

lemma atom_words_inject: "atom_words a = atom_words b \<longleftrightarrow> a = b"
  by (metis words_atom_atom_words)

lemma of_nat_inject_cat: "u2_fly_is_cat a \<Longrightarrow> u2_fly_is_cat b \<Longrightarrow> (of_nat a :: c3_w) = of_nat b \<longleftrightarrow> a = b"
  by (metis atom_of_rep_of rep_of_def)

lemma noun_at_cell:
  assumes "noun_at H f (Cell a b)"
  obtains p m h t where "f = Fdog p" "H p = Some (Bpom m h t)" "noun_at H h a" "noun_at H t b"
  using assms by (cases rule: noun_at.cases) auto

lemma mugs_differ:
  assumes "mugs_ok H" "noun_at H (Fdog p) m" "noun_at H (Fdog q) n" "H p = Some b" "H q = Some c"
    and "u2_at_dog_mug b \<noteq> 0" "u2_at_dog_mug c \<noteq> 0" "u2_at_dog_mug b \<noteq> u2_at_dog_mug c"
  shows "m \<noteq> n"
  using assms mugs_okD [OF assms(1,4,2)] mugs_okD [OF assms(1,5,3)] by auto

lemma sing_x_atoms:
  assumes "noun_at H f (Atom a)" "noun_at H g (Atom b)" "mugs_ok H"
  shows "sing_x H f g = Some (Inr (a = b))"
proof (cases "u2_fly_is_cat a \<or> u2_fly_is_cat b")
  case True
  then have "f = g \<longleftrightarrow> a = b"
    using noun_at_atom [OF assms(1)] noun_at_atom [OF assms(2)] of_nat_inject_cat [of a b] by auto
  moreover have "\<not> (\<exists>p q. f = Fdog p \<and> g = Fdog q)"
    using True noun_at_atom [OF assms(1)] noun_at_atom [OF assms(2)] by auto
  ultimately show ?thesis by (subst sing_x.simps) (auto split: u2_fly.split)
next
  case False
  then obtain p m q k where f: "f = Fdog p" "H p = Some (Bpug m (atom_words a))"
    and g: "g = Fdog q" "H q = Some (Bpug k (atom_words b))"
    using noun_at_atom [OF assms(1)] noun_at_atom [OF assms(2)] by auto
  have "a \<noteq> b" if "m \<noteq> 0" "k \<noteq> 0" "m \<noteq> k"
    using mugs_differ [OF assms(3) assms(1) [unfolded f(1)] assms(2) [unfolded g(1)] f(2) g(2)] that by simp
  then show ?thesis
    using f g by (subst sing_x.simps) (auto simp: list.rel_eq atom_words_inject)
qed

lemma sing_x_correct:
  assumes "noun_at H f m" "noun_at H g n" "mugs_ok H"
  shows "sing_x H f g = Some (Inr (m = n))"
  using assms(1,2)
proof (induction m arbitrary: f g n rule: noun.induct)
  case (Atom a)
  show ?case
  proof (cases n)
    case (Cell b c)
    from Atom.prems(2) [unfolded Cell] obtain q k h t where "g = Fdog q" "H q = Some (Bpom k h t)"
      by (rule noun_at_cell)
    then show ?thesis
      using noun_at_atom [OF Atom.prems(1)] Cell by (subst sing_x.simps) auto
  qed (use Atom.prems assms(3) sing_x_atoms in simp)
next
  case (Cell a b)
  from Cell.prems(1) obtain p m h t where f: "f = Fdog p" "H p = Some (Bpom m h t)"
    and fat: "noun_at H h a" "noun_at H t b" by (rule noun_at_cell)
  show ?case
  proof (cases n)
    case (Atom x)
    then show ?thesis
      using f noun_at_atom [of H g x] Cell.prems(2) by (subst sing_x.simps) auto
  next
    case n: (Cell c d)
    from Cell.prems(2) [unfolded n] obtain q k i u where g: "g = Fdog q" "H q = Some (Bpom k i u)"
      and gat: "noun_at H i c" "noun_at H u d" by (rule noun_at_cell)
    have "Cell a b \<noteq> n" if "m \<noteq> 0" "k \<noteq> 0" "m \<noteq> k"
      using mugs_differ [OF assms(3) Cell.prems(1) [unfolded f(1)] Cell.prems(2) [unfolded g(1)] f(2) g(2)] that
      by simp
    moreover have "Cell a b = n" if "p = q"
      using noun_at_det [OF Cell.prems(1)] Cell.prems(2) f(1) g(1) that by simp
    ultimately show ?thesis
      using f g n Cell.IH(1) [OF fat(1) gat(1)] Cell.IH(2) [OF fat(2) gat(2)]
      by (subst sing_x.simps) auto
  qed
qed

lemma u2_sing_correct:
  "noun_at H f m \<Longrightarrow> noun_at H g n \<Longrightarrow> mugs_ok H \<Longrightarrow> u2_sing H f g = Some (Inr (m = n))"
  by (simp add: u2_sing_def sing_x_correct)

text \<open>Equality with a cell or tuple given by its parts.\<close>

definition u2_sing_cell :: "u2_heap \<Rightarrow> u2_fly \<Rightarrow> u2_fly \<Rightarrow> u2_fly \<Rightarrow> bool res option" where
  "u2_sing_cell H p q b =
     (case b of
        Fcat _ \<Rightarrow> Some (Inr False)
      | Fdog r \<Rightarrow>
          (case H r of
             None \<Rightarrow> Some (Inl Wild)
           | Some (Bpug _ _) \<Rightarrow> Some (Inr False)
           | Some (Bpom _ h t) \<Rightarrow>
               Option.bind (u2_sing H p h) (\<lambda>x. case x of
                 Inl e \<Rightarrow> Some (Inl e)
               | Inr x \<Rightarrow> if x then u2_sing H q t else Some (Inr False))))"

definition u2_sing_trel :: "u2_heap \<Rightarrow> u2_fly \<Rightarrow> u2_fly \<Rightarrow> u2_fly \<Rightarrow> u2_fly \<Rightarrow> bool res option" where
  "u2_sing_trel H p q r b =
     (case b of
        Fcat _ \<Rightarrow> Some (Inr False)
      | Fdog a \<Rightarrow>
          (case H a of
             None \<Rightarrow> Some (Inl Wild)
           | Some (Bpug _ _) \<Rightarrow> Some (Inr False)
           | Some (Bpom _ h t) \<Rightarrow>
               Option.bind (u2_sing H p h) (\<lambda>x. case x of
                 Inl e \<Rightarrow> Some (Inl e)
               | Inr x \<Rightarrow> if x then u2_sing_cell H q r t else Some (Inr False))))"

definition u2_sing_qual ::
  "u2_heap \<Rightarrow> u2_fly \<Rightarrow> u2_fly \<Rightarrow> u2_fly \<Rightarrow> u2_fly \<Rightarrow> u2_fly \<Rightarrow> bool res option" where
  "u2_sing_qual H p q r s b =
     (case b of
        Fcat _ \<Rightarrow> Some (Inr False)
      | Fdog a \<Rightarrow>
          (case H a of
             None \<Rightarrow> Some (Inl Wild)
           | Some (Bpug _ _) \<Rightarrow> Some (Inr False)
           | Some (Bpom _ h t) \<Rightarrow>
               Option.bind (u2_sing H p h) (\<lambda>x. case x of
                 Inl e \<Rightarrow> Some (Inl e)
               | Inr x \<Rightarrow> if x then u2_sing_trel H q r s t else Some (Inr False))))"

lemma noun_at_cases:
  assumes "noun_at H f n"
  obtains w where "f = Fcat w" "\<not> u2_dust n"
  | p m ws where "f = Fdog p" "H p = Some (Bpug m ws)" "\<not> u2_dust n"
  | p m h t a b where "f = Fdog p" "H p = Some (Bpom m h t)" "noun_at H h a" "noun_at H t b" "n = Cell a b"
  using assms by (cases rule: noun_at.cases) auto

lemma u2_sing_cell_correct:
  assumes "noun_at H p a" "noun_at H q b" "noun_at H f n" "mugs_ok H"
  shows "u2_sing_cell H p q f = Some (Inr (Cell a b = n))"
  using assms(3)
  by (cases rule: noun_at_cases)
    (use assms(1,2,4) in \<open>auto simp: u2_sing_cell_def u2_sing_correct\<close>)

lemma u2_sing_trel_correct:
  assumes "noun_at H p a" "noun_at H q b" "noun_at H r c" "noun_at H f n" "mugs_ok H"
  shows "u2_sing_trel H p q r f = Some (Inr (noun_tuple [a, b, c] = n))"
  using assms(4)
  by (cases rule: noun_at_cases)
    (use assms(1-3,5) in \<open>auto simp: u2_sing_trel_def u2_sing_correct u2_sing_cell_correct\<close>)

lemma u2_sing_qual_correct:
  assumes "noun_at H p a" "noun_at H q b" "noun_at H r c" "noun_at H s d" "noun_at H f n" "mugs_ok H"
  shows "u2_sing_qual H p q r s f = Some (Inr (noun_tuple [a, b, c, d] = n))"
  using assms(5)
  by (cases rule: noun_at_cases)
    (use assms(1-4,6) in \<open>auto simp: u2_sing_qual_def u2_sing_correct u2_sing_trel_correct\<close>)

section \<open>Strings and words hash alike\<close>

abbreviation (input) bytes_word :: "c3_y list \<Rightarrow> c3_w" where
  "bytes_word bs \<equiv> of_nat (bytes_atom bs)"

lemma unat_bytes_word: "length bs \<le> 4 \<Longrightarrow> unat (bytes_word bs) = bytes_atom bs"
proof (rule unat_of_nat_c3_w)
  assume "length bs \<le> 4"
  then have "(2::nat) ^ (8 * length bs) \<le> 2 ^ 32" by (intro power_increasing) simp_all
  then show "bytes_atom bs < 2 ^ 32" using bytes_atom_less [of bs] by linarith
qed

lemma bytes_word_low: "bytes_word (b # bs) AND 0xff = ucast b"
proof -
  have "(0xff :: c3_w) = mask 8" by (simp add: mask_eq_exp_minus_1)
  then have "bytes_word (b # bs) AND 0xff = take_bit 8 (bytes_word (b # bs))"
    by (simp only: take_bit_eq_mask)
  also have "\<dots> = ucast b"
    by (rule bit_word_eqI)
      (auto simp: bit_simps bit_of_nat_iff bit_bytes_atom_Cons simp del: bytes_atom.simps dest: bit_imp_le_length)
  finally show ?thesis .
qed

lemma bytes_word_shift: "length bs \<le> 3 \<Longrightarrow> drop_bit 8 (bytes_word (b # bs)) = bytes_word bs"
proof -
  assume "length bs \<le> 3"
  then have "unat (drop_bit 8 (bytes_word (b # bs))) = bytes_atom (b # bs) div 2 ^ 8"
    "unat (bytes_word bs) = bytes_atom bs"
    by (simp_all only: unat_drop_c3_w) (subst unat_bytes_word, simp_all)+
  moreover have "bytes_atom (b # bs) div 2 ^ 8 = bytes_atom bs"
    using unat_c3_y [of b] by simp
  ultimately show ?thesis by (simp add: word_unat_eq_iff)
qed

lemma bytes_atom_eq_0: "bs \<noteq> [] \<Longrightarrow> last bs \<noteq> 0 \<Longrightarrow> bytes_atom bs \<noteq> 0"
  by (induction bs) (auto simp: unat_gt_0 split: if_splits)

lemma bytes_word_eq_0:
  "length bs \<le> 4 \<Longrightarrow> bs = [] \<or> last bs \<noteq> 0 \<Longrightarrow> bytes_word bs = 0 \<longleftrightarrow> bs = []"
  using unat_bytes_word [of bs] bytes_atom_eq_0 [of bs] by (cases "bs = []") (auto simp: unat_eq_0)

lemma mug_word_last_bytes:
  assumes "length bs \<le> 4" "bs = [] \<or> last bs \<noteq> 0"
  shows "mug_word_last off (bytes_word bs) = mug_bytes_in off bs"
proof -
  consider "bs = []" | a where "bs = [a]" | a b where "bs = [a, b]" | a b c where "bs = [a, b, c]"
    | a b c d where "bs = [a, b, c, d]"
    using assms(1) by (auto simp: le_Suc_eq length_Suc_conv numeral_eq_Suc)
  then show ?thesis
    using assms(2)
    by cases (simp_all add: mug_word_last_def bytes_word_low bytes_word_shift bytes_word_eq_0
        del: bytes_atom.simps)
qed

lemma mug_word_full_bytes:
  "mug_word_full off (bytes_word [a, b, c, d]) = mug_bytes_in off [a, b, c, d]"
proof -
  have "drop_bit 16 w = drop_bit 8 (drop_bit 8 w)" "drop_bit 24 w = drop_bit 8 (drop_bit 8 (drop_bit 8 w))"
    for w :: c3_w by simp_all
  moreover have "ucast (ucast x :: c3_w) = x" for x :: c3_y by (rule bit_word_eqI) (simp add: bit_simps)
  ultimately show ?thesis
    by (simp add: mug_word_full_def Let_def bytes_word_low bytes_word_shift del: bytes_atom.simps drop_bit_drop_bit)
qed

lemma mug_words_in_Cons: "ws \<noteq> [] \<Longrightarrow> mug_words_in off (w # ws) = mug_words_in (mug_word_full off w) ws"
  by (simp add: mug_words_in_def)

lemma atom_words_bytes_chunk:
  assumes "rest \<noteq> []" "last rest \<noteq> 0"
  shows "atom_words (bytes_atom (a # b # c # d # rest)) =
    bytes_word [a, b, c, d] # atom_words (bytes_atom rest)"
proof -
  let ?l = "bytes_atom [a, b, c, d]" and ?n = "bytes_atom (a # b # c # d # rest)"
  have n: "?n = ?l + 2 ^ 32 * bytes_atom rest"
    using bytes_atom_append [of "[a, b, c, d]" rest] by simp
  have "?l < 2 ^ 32" using bytes_atom_less [of "[a, b, c, d]"] by simp
  then have "?n div 2 ^ 32 = bytes_atom rest" unfolding n by simp
  moreover have "(of_nat ?n :: c3_w) = bytes_word [a, b, c, d]"
  proof -
    have "(of_nat (2 ^ 32) :: c3_w) = 0" by simp
    then show ?thesis unfolding n of_nat_add of_nat_mult by (simp only: mult_zero_left add_0_right)
  qed
  moreover have "0 < ?n" using bytes_atom_eq_0 [of "a # b # c # d # rest"] assms by simp
  ultimately show ?thesis by (simp only: atom_words_pos)
qed

lemma mug_words_in_bytes:
  "bs = [] \<or> last bs \<noteq> 0 \<Longrightarrow> mug_words_in off (atom_words (bytes_atom bs)) = mug_bytes_in off bs"
proof (induction "length bs" arbitrary: bs off rule: less_induct)
  case less
  show ?case
  proof (cases "length bs \<le> 4")
    case True
    have "bytes_atom bs < 2 ^ 32" using unat_bytes_word [OF True] unat_c3_w by metis
    then have "atom_words (bytes_atom bs) = (if bs = [] then [] else [bytes_word bs])"
      using bytes_atom_eq_0 [of bs] less.prems by (auto simp: atom_words_pos)
    then show ?thesis
      using mug_word_last_bytes [OF True less.prems] by (auto simp: mug_words_in_def)
  next
    case False
    then obtain a b c d rest where bs: "bs = a # b # c # d # rest" "rest \<noteq> []"
      by (auto simp: neq_Nil_conv not_le numeral_eq_Suc Suc_less_eq2 length_Suc_conv dest!: Suc_leI)
        (metis length_Suc_conv less_eq_Suc_le Suc_le_length_iff list.size(3) not_less_eq_eq)
    then have last: "last rest \<noteq> 0" using less.prems by auto
    show ?thesis
      using less.hyps [of rest] bs last bytes_atom_eq_0 [OF bs(2) last]
      by (simp add: atom_words_bytes_chunk mug_words_in_Cons mug_word_full_bytes del: bytes_atom.simps)
  qed
qed

lemma mug_words_bytes:
  "bs = [] \<or> last bs \<noteq> 0 \<Longrightarrow> mug_words off (atom_words (bytes_atom bs)) = mug_bytes off bs"
  by (induction off bs rule: mug_bytes.induct)
    (subst mug_bytes.simps, subst mug_words.simps, simp add: mug_words_in_bytes Let_def)

lemma u2_mug_string_correct:
  "0 \<notin> set bs \<Longrightarrow> u2_mug_string bs = mug (Atom (bytes_atom bs))"
proof -
  assume "0 \<notin> set bs"
  then have "bs = [] \<or> last bs \<noteq> 0" by (metis last_in_set)
  then show ?thesis using mug_words_bytes [of bs 2166136261] by (simp only: u2_mug_string_def mug.simps)
qed

section \<open>Properties\<close>

text \<open>
  The hash of a noun is a non-zero direct atom, so that the zero in a new box can mean that
  nothing is cached; the searches for it end, being total functions.
\<close>

theorem mug_is_cat: "mug n \<noteq> 0 \<and> u2_fly_is_cat (unat (mug n))"
  using mug_range [of n] by (simp add: u2_fly_is_cat_def)

text \<open>
  C27: \<^verbatim>\<open>u2_mug\<close> returns on every noun in memory whose caches are right, returns the hash of the
  noun, changes nothing but caches, and leaves the caches right.
\<close>

theorem u2_mug_caches:
  assumes "noun_at H f n" "mugs_ok H"
  shows "\<exists>K. u2_mug H f = Some (Inr (mug n, K)) \<and> mugs_ok K \<and> same_boxes H K \<and>
    (\<forall>g m. noun_at H g m \<longleftrightarrow> noun_at K g m)"
proof -
  obtain K where "u2_mug H f = Some (Inr (mug n, K))" "mugs_ok K" "same_boxes H K"
    using u2_mug_correct [OF assms] unfolding mug_done_def by blast
  then show ?thesis using noun_at_same same_boxes_sym by blast
qed

theorem u2_mug_caches_witness:
  "\<exists>K. u2_mug (\<lambda>p. if p = 0 then Some (Bpom 0 (Fcat 1) (Fcat 2)) else None) (Fdog 0) =
      Some (Inr (mug (Cell (Atom (unat (1 :: c3_w))) (Atom (unat (2 :: c3_w)))), K)) \<and> mugs_ok K \<and>
      same_boxes (\<lambda>p. if p = 0 then Some (Bpom 0 (Fcat 1) (Fcat 2)) else None) K \<and>
      (\<forall>g m. noun_at (\<lambda>p. if p = 0 then Some (Bpom 0 (Fcat 1) (Fcat 2)) else None) g m \<longleftrightarrow> noun_at K g m)"
proof (rule u2_mug_caches)
  let ?H = "\<lambda>p :: nat. if p = 0 then Some (Bpom 0 (Fcat 1) (Fcat 2)) else None"
  show "noun_at ?H (Fdog 0) (Cell (Atom (unat (1 :: c3_w))) (Atom (unat (2 :: c3_w))))"
    by (rule at_pom [where m = 0 and h = "Fcat 1" and t = "Fcat 2"]) simp_all
  show "mugs_ok ?H" by (simp add: mugs_ok_def)
qed

text \<open>
  C26: \<^verbatim>\<open>u2_sing\<close> decides equality of nouns in memory, whatever hashes are cached, as long as the
  cached ones are right.
\<close>

theorem u2_sing_decides:
  assumes "noun_at H f m" "noun_at H g n" "mugs_ok H"
  shows "u2_sing H f g = Some (Inr (m = n))"
  using assms by (rule u2_sing_correct)

theorem u2_sing_decides_witness:
  "u2_sing (\<lambda>p. if p = 0 then Some (Bpom 0 (Fcat 1) (Fcat 2)) else None) (Fdog 0) (Fcat 3) =
     Some (Inr (Cell (Atom (unat (1 :: c3_w))) (Atom (unat (2 :: c3_w))) = Atom (unat (3 :: c3_w))))"
proof (rule u2_sing_decides)
  let ?H = "\<lambda>p :: nat. if p = 0 then Some (Bpom 0 (Fcat 1) (Fcat 2)) else None"
  show "noun_at ?H (Fdog 0) (Cell (Atom (unat (1 :: c3_w))) (Atom (unat (2 :: c3_w))))"
    by (rule at_pom [where m = 0 and h = "Fcat 1" and t = "Fcat 2"]) simp_all
  show "mugs_ok ?H" by (simp add: mugs_ok_def)
qed simp

text \<open>
  A C string and the atom made of it hash alike: \<^verbatim>\<open>u2_mug_string\<close>, which runs over bytes, and
  \<^verbatim>\<open>u2_mug\<close>, which runs over words, agree on every string.
\<close>

theorem u2_mug_string_agrees:
  assumes "0 \<notin> set s" "u2_rl_string s = Inr r"
  shows "u2_mug_string s = mug (Atom (atom_of r))"
  using u2_mug_string_correct [OF assms(1)] assms(2)
  by (auto simp: u2_rl_string_def u2_rl_bytes_correct split: if_splits)

theorem u2_mug_string_agrees_witness: "u2_mug_string [104, 105] = mug (Atom (atom_of (Cat 0x6968)))"
  by (rule u2_mug_string_agrees) (simp_all add: u2_rl_string_def u2_rl_bytes_def)

end
