(* ===== verification/Nash.thy ===== *)
theory Nash
  imports Bpt Mug
begin

text \<open>
  The nounhash of \<^verbatim>\<open>f/nash.c\<close>, a table from nouns to pointers that the serialisers and the drivers keep outside
  the loom. A Patricia tree maps the hash of a key to a bucket, an array of pairs of a key and a value. Buckets
  are allocated once and then changed through the pointer that the tree has, so the model keeps them in a list
  and lets the tree map a hash to a position of that list; \<^verbatim>\<open>con_w\<close> is the length of a bucket. A bucket's keys are
  different nouns of one loom, fewer than \<open>2\<^sup>3\<^sup>2\<close>, so the count does not wrap. Nouns are compared and
  hashed as the theory on hashes shows that \<^verbatim>\<open>u2_sing\<close> and \<^verbatim>\<open>u2_mug\<close> do.
\<close>

record 'v u2_nash =
  na_sto :: "nat bpt option"
  na_buc :: "(noun \<times> 'v) list list"

section \<open>Operations\<close>

definition u2_na_make :: "'v u2_nash" where
  "u2_na_make = \<lparr>na_sto = None, na_buc = []\<rparr>"

text \<open>The loop over a bucket: the position of the first pair with the key.\<close>

primrec na_scan :: "(noun \<times> 'v) list \<Rightarrow> noun \<Rightarrow> nat \<Rightarrow> nat option" where
  "na_scan [] key i = None"
| "na_scan (kv # kvs) key i = (if fst kv = key then Some i else na_scan kvs key (i + 1))"

definition na_bucket :: "'v u2_nash \<Rightarrow> c3_w \<Rightarrow> nat res" where
  "na_bucket nas_u tom =
     rbind (bpt_get (na_sto nas_u) tom) (\<lambda>buc_u. case buc_u of
       None \<Rightarrow> Inl Wild
     | Some p \<Rightarrow> if p < length (na_buc nas_u) then Inr p else Inl Wild)"

definition u2_na_put :: "'v u2_nash \<Rightarrow> noun \<Rightarrow> 'v \<Rightarrow> 'v u2_nash res" where
  "u2_na_put nas_u key val =
     (let tom = mug key
      in rbind (bpt_has_key (na_sto nas_u) tom) (\<lambda>has.
         rbind (if \<not> has then
                  rbind (bpt_assoc (na_sto nas_u) tom (length (na_buc nas_u))) (\<lambda>ots.
                    Inr (nas_u\<lparr>na_sto := Some ots, na_buc := na_buc nas_u @ [[]]\<rparr>))
                else Inr nas_u) (\<lambda>nas_u.
         rbind (na_bucket nas_u tom) (\<lambda>p.
           let sto_u = na_buc nas_u ! p
           in case na_scan sto_u key 0 of
                Some i \<Rightarrow> Inr (nas_u\<lparr>na_buc := (na_buc nas_u)[p := sto_u[i := (fst (sto_u ! i), val)]]\<rparr>)
              | None \<Rightarrow> Inr (nas_u\<lparr>na_buc := (na_buc nas_u)[p := sto_u @ [(key, val)]]\<rparr>)))))"

definition u2_na_get_ptr :: "'v u2_nash \<Rightarrow> noun \<Rightarrow> 'v option res" where
  "u2_na_get_ptr nas_u key =
     (let tom = mug key
      in rbind (bpt_has_key (na_sto nas_u) tom) (\<lambda>has.
         if \<not> has then Inr None
         else rbind (na_bucket nas_u tom) (\<lambda>p.
           let sto_u = na_buc nas_u ! p
           in case na_scan sto_u key 0 of
                Some i \<Rightarrow> Inr (Some (snd (sto_u ! i)))
              | None \<Rightarrow> Inr None)))"

text \<open>Found or not, the caller of \<^verbatim>\<open>u2_na_get\<close> gets the pointer as a noun, or \<^verbatim>\<open>u2_none\<close>.\<close>

definition u2_na_get :: "'v u2_nash \<Rightarrow> noun \<Rightarrow> 'v option res" where
  "u2_na_get nas_u key = rbind (u2_na_get_ptr nas_u key) (\<lambda>may. case may of None \<Rightarrow> Inr None | Some v \<Rightarrow> Inr (Some v))"

section \<open>The invariant and the map\<close>

definition bucket_ok :: "c3_w \<Rightarrow> (noun \<times> 'v) list \<Rightarrow> bool" where
  "bucket_ok tom kvs \<longleftrightarrow> distinct (map fst kvs) \<and> (\<forall>k\<in>fst ` set kvs. mug k = tom)"

text \<open>Each hash has a bucket of its own, and the bucket has different keys of that hash.\<close>

definition na_ok :: "'v u2_nash \<Rightarrow> bool" where
  "na_ok nas \<longleftrightarrow> bpt_wf (na_sto nas) \<and>
     (\<forall>tom p. bpt_look (na_sto nas) tom = Some p \<longrightarrow> p < length (na_buc nas) \<and> bucket_ok tom (na_buc nas ! p)) \<and>
     (\<forall>s t p. bpt_look (na_sto nas) s = Some p \<longrightarrow> bpt_look (na_sto nas) t = Some p \<longrightarrow> s = t)"

definition na_look :: "'v u2_nash \<Rightarrow> noun \<Rightarrow> 'v option" where
  "na_look nas key = (case bpt_look (na_sto nas) (mug key) of None \<Rightarrow> None | Some p \<Rightarrow> map_of (na_buc nas ! p) key)"

lemma na_scan_spec:
  "case na_scan kvs key i of
     Some j \<Rightarrow> i \<le> j \<and> j - i < length kvs \<and> fst (kvs ! (j - i)) = key \<and> map_of kvs key = Some (snd (kvs ! (j - i)))
   | None \<Rightarrow> key \<notin> fst ` set kvs \<and> map_of kvs key = None"
proof (induction kvs arbitrary: i)
  case (Cons kv kvs)
  then show ?case using Cons [of "i + 1"] by (cases kv) (auto split: option.splits simp: Suc_diff_le dest!: Suc_diff_Suc)
qed simp

lemma map_of_update:
  assumes "distinct (map fst kvs)" "j < length kvs" "fst (kvs ! j) = key"
  shows "map_of (kvs[j := (key, val)]) = (map_of kvs)(key \<mapsto> val)" "map fst (kvs[j := (key, val)]) = map fst kvs"
proof -
  show "map fst (kvs[j := (key, val)]) = map fst kvs"
    using assms by (metis fst_conv list_update_id map_update)
  show "map_of (kvs[j := (key, val)]) = (map_of kvs)(key \<mapsto> val)"
    using assms
  proof (induction kvs arbitrary: j)
    case (Cons kv kvs)
    then show ?case by (cases j; cases kv) (auto simp: fun_eq_iff)
  qed simp
qed

lemma na_bucket_ok:
  assumes "na_ok nas" "bpt_look (na_sto nas) tom = Some p"
  shows "na_bucket nas tom = Inr p" "p < length (na_buc nas)" "bucket_ok tom (na_buc nas ! p)"
  using assms bpt.get_look [of "na_sto nas" tom] by (auto simp: na_ok_def na_bucket_def)

lemma bpt_has_key_look: "bpt_wf t \<Longrightarrow> bpt_has_key t k = Inr (bpt_look t k \<noteq> None)"
  by (simp add: bpt_has_key_def bpt.get_look)

lemma na_get_look:
  assumes "na_ok nas"
  shows "u2_na_get_ptr nas key = Inr (na_look nas key)"
proof (cases "bpt_look (na_sto nas) (mug key)")
  case None
  then show ?thesis using assms by (simp add: u2_na_get_ptr_def na_look_def bpt_has_key_look na_ok_def)
next
  case (Some p)
  note b = na_bucket_ok [OF assms Some]
  show ?thesis
    using Some b assms na_scan_spec [where kvs = "na_buc nas ! p" and key = key and i = 0]
    by (auto simp: u2_na_get_ptr_def na_look_def bpt_has_key_look na_ok_def split: option.splits)
qed

text \<open>Changing the bucket of a hash.\<close>

lemma na_set_bucket:
  assumes ok: "na_ok nas" and p: "bpt_look (na_sto nas) (mug key) = Some p" and b: "bucket_ok (mug key) kvs"
    and look: "map_of kvs = (map_of (na_buc nas ! p))(key \<mapsto> val)"
  shows "na_ok (nas\<lparr>na_buc := (na_buc nas)[p := kvs]\<rparr>)"
    "na_look (nas\<lparr>na_buc := (na_buc nas)[p := kvs]\<rparr>) = (na_look nas)(key \<mapsto> val)"
proof -
  have inj: "t = mug key" if "bpt_look (na_sto nas) t = Some p" for t using ok p that by (auto simp: na_ok_def)
  have lt: "p < length (na_buc nas)" using na_bucket_ok [OF ok p] by simp
  have nth: "(na_buc nas)[p := kvs] ! q = (if q = p then kvs else na_buc nas ! q)" for q using lt by (simp add: nth_list_update)
  show "na_ok (nas\<lparr>na_buc := (na_buc nas)[p := kvs]\<rparr>)"
    using ok b by (auto simp: na_ok_def nth dest: inj)
  show "na_look (nas\<lparr>na_buc := (na_buc nas)[p := kvs]\<rparr>) = (na_look nas)(key \<mapsto> val)"
    using p look by (auto simp: na_look_def nth fun_eq_iff dest: inj split: option.splits)
qed

text \<open>Adding an empty bucket for a new hash.\<close>

lemma na_new_bucket:
  assumes ok: "na_ok nas" and none: "bpt_look (na_sto nas) tom = None"
  obtains ots where "bpt_assoc (na_sto nas) tom (length (na_buc nas)) = Inr ots"
    "na_ok (nas\<lparr>na_sto := Some ots, na_buc := na_buc nas @ [[]]\<rparr>)"
    "na_look (nas\<lparr>na_sto := Some ots, na_buc := na_buc nas @ [[]]\<rparr>) = na_look nas"
    "bpt_look (Some ots) tom = Some (length (na_buc nas))"
proof -
  obtain ots where ots: "bpt_assoc (na_sto nas) tom (length (na_buc nas)) = Inr ots" "bpt_wf (Some ots)"
      "bpt_look (Some ots) = (bpt_look (na_sto nas))(tom \<mapsto> length (na_buc nas))"
    using bpt.assoc_look [of "na_sto nas" tom "length (na_buc nas)"] ok unfolding na_ok_def by blast
  let ?nas = "nas\<lparr>na_sto := Some ots, na_buc := na_buc nas @ [[]]\<rparr>"
  have lt: "p < length (na_buc nas)" if "bpt_look (na_sto nas) t = Some p" for t p
    using ok that by (auto simp: na_ok_def)
  have "na_ok ?nas"
    using ok ots(2) unfolding na_ok_def
    by (simp add: ots(3) nth_append bucket_ok_def del: bpt_wf_simps(2,4)) (metis lt less_irrefl less_Suc_eq)
  moreover have "na_look ?nas = na_look nas"
    using none lt by (auto simp: na_look_def ots(3) nth_append fun_eq_iff simp del: bpt_wf_simps(4) split: option.splits)
  ultimately show thesis using that [of ots] ots by simp
qed

lemma na_put_bucket:
  assumes ok: "na_ok nas" and p: "bpt_look (na_sto nas) (mug key) = Some p"
  shows "\<exists>nas'. (let sto_u = na_buc nas ! p
           in case na_scan sto_u key 0 of
                Some i \<Rightarrow> Inr (nas\<lparr>na_buc := (na_buc nas)[p := sto_u[i := (fst (sto_u ! i), val)]]\<rparr>)
              | None \<Rightarrow> Inr (nas\<lparr>na_buc := (na_buc nas)[p := sto_u @ [(key, val)]]\<rparr>)) = (Inr nas' :: 'v u2_nash res) \<and>
     na_ok nas' \<and> na_look nas' = (na_look nas)(key \<mapsto> val)"
proof -
  let ?b = "na_buc nas ! p"
  note b = na_bucket_ok(3) [OF ok p]
  show ?thesis
  proof (cases "na_scan ?b key 0")
    case None
    then have new: "key \<notin> fst ` set ?b" "map_of ?b key = None" using na_scan_spec [where kvs = ?b and key = key and i = 0] by simp_all
    then have "map_of (?b @ [(key, val)]) = (map_of ?b)(key \<mapsto> val)"
      by (simp add: map_add_def fun_eq_iff split: option.split)
    moreover have "bucket_ok (mug key) (?b @ [(key, val)])" using b new by (auto simp: bucket_ok_def)
    ultimately show ?thesis using None na_set_bucket [OF ok p] by simp
  next
    case (Some i)
    then have i: "i < length ?b" "fst (?b ! i) = key"
      using na_scan_spec [where kvs = ?b and key = key and i = 0] by simp_all
    note upd = map_of_update [OF _ i, of val]
    have "bucket_ok (mug key) (?b[i := (key, val)])"
      using b upd(2) set_map [of fst] unfolding bucket_ok_def by metis
    moreover have "map_of (?b[i := (key, val)]) = (map_of ?b)(key \<mapsto> val)" using upd(1) b by (simp add: bucket_ok_def)
    ultimately show ?thesis using Some i(2) na_set_bucket [OF ok p] by simp
  qed
qed

lemma na_put_look:
  assumes ok: "na_ok nas"
  shows "\<exists>nas'. u2_na_put nas key val = Inr nas' \<and> na_ok nas' \<and> na_look nas' = (na_look nas)(key \<mapsto> val)"
proof (cases "bpt_look (na_sto nas) (mug key)")
  case None
  obtain ots where ots: "bpt_assoc (na_sto nas) (mug key) (length (na_buc nas)) = Inr ots"
      "na_ok (nas\<lparr>na_sto := Some ots, na_buc := na_buc nas @ [[]]\<rparr>)"
      "na_look (nas\<lparr>na_sto := Some ots, na_buc := na_buc nas @ [[]]\<rparr>) = na_look nas"
      "bpt_look (Some ots) (mug key) = Some (length (na_buc nas))"
    using na_new_bucket [OF ok None] by blast
  let ?nas = "nas\<lparr>na_sto := Some ots, na_buc := na_buc nas @ [[]]\<rparr>"
  have p: "bpt_look (na_sto ?nas) (mug key) = Some (length (na_buc nas))" using ots(4) by simp
  show ?thesis
    using na_put_bucket [OF ots(2) p, of val] na_bucket_ok(1) [OF ots(2) p] None ots(1,3) ok
    by (simp add: u2_na_put_def bpt_has_key_look na_ok_def)
next
  case (Some p)
  show ?thesis
    using na_put_bucket [OF ok Some, of val] na_bucket_ok(1) [OF ok Some] Some ok
    by (simp add: u2_na_put_def bpt_has_key_look na_ok_def)
qed

section \<open>The interface\<close>

text \<open>What the serialisers rely on of a table of nouns.\<close>

locale noun_table =
  fixes ok :: "'t \<Rightarrow> bool" and look :: "'t \<Rightarrow> 'k \<Rightarrow> 'v option" and make :: 't
    and get :: "'t \<Rightarrow> 'k \<Rightarrow> 'v option res" and put :: "'t \<Rightarrow> 'k \<Rightarrow> 'v \<Rightarrow> 't res"
  assumes ok_make: "ok make" and look_make: "look make = Map.empty"
    and get_look: "ok t \<Longrightarrow> get t k = Inr (look t k)"
    and put_look: "ok t \<Longrightarrow> \<exists>t'. put t k v = Inr t' \<and> ok t' \<and> look t' = (look t)(k \<mapsto> v)"
begin

lemma get_make: "get make k = Inr None"
  by (simp add: get_look ok_make look_make)

lemma put_get:
  assumes "ok t"
  obtains t' where "put t k v = Inr t'" "ok t'" "\<And>x. get t' x = (if x = k then Inr (Some v) else get t x)"
proof -
  obtain t' where "put t k v = Inr t'" "ok t'" "look t' = (look t)(k \<mapsto> v)" using put_look [OF assms] by blast
  then show thesis using that [of t'] get_look [OF assms] get_look [of t'] by simp
qed

end

interpretation na: noun_table na_ok na_look u2_na_make u2_na_get u2_na_put
proof
  show "na_ok u2_na_make" by (simp add: na_ok_def u2_na_make_def)
  show "na_look u2_na_make = Map.empty" by (simp add: na_look_def u2_na_make_def fun_eq_iff)
  show "u2_na_get t k = Inr (na_look t k)" if "na_ok t" for t :: "'v u2_nash" and k
    using na_get_look [OF that] by (simp add: u2_na_get_def split: option.split)
qed (rule na_put_look)

text \<open>
  C11: The nounhash is a map of nouns: on a table that the operations made, \<^verbatim>\<open>u2_na_put\<close> returns a table in which
  the key has the value and every other noun, of the same hash or not, what it had.
\<close>

theorem u2_na_put_get:
  assumes "na_ok nas"
  shows "\<exists>nas'. u2_na_put nas key val = Inr nas' \<and> na_ok nas' \<and>
    (\<forall>n. u2_na_get nas' n = (if n = key then Inr (Some val) else u2_na_get nas n))"
  using na.put_get [OF assms] by metis

theorem u2_na_put_get_witness:
  "na_ok (u2_na_make :: nat u2_nash) \<and> (\<exists>nas'. u2_na_put u2_na_make (Cell (Atom 1) (Atom 2)) (3 :: nat) = Inr nas' \<and>
     u2_na_get nas' (Cell (Atom 1) (Atom 2)) = Inr (Some 3) \<and> u2_na_get nas' (Atom 1) = Inr None)"
  using u2_na_put_get [of u2_na_make "Cell (Atom 1) (Atom 2)" "3 :: nat"] na.ok_make na.get_make by auto

end
