(* ===== verification/Jets.thy ===== *)
theory Jets
  imports Mug
begin

text \<open>
  What the jets share: the checks of the sample that every \<^verbatim>\<open>j2_mb\<close> wrapper starts with, the
  checked accessors of \<^verbatim>\<open>f/bail.c\<close>, and the passing of an intermediate result to the next
  function. A jet returns a noun, \<^verbatim>\<open>u2_none\<close> (\<open>Inr None\<close>), or leaves through \<^verbatim>\<open>u2_bl_bail\<close>.
\<close>

section \<open>Bails\<close>

definition u2_bl_bail :: "nat \<Rightarrow> 'a res" where
  "u2_bl_bail how_l = Inl (Bail how_l)"

text \<open>\<^verbatim>\<open>u2_bl_error\<close> pushes its message on the trace and exits.\<close>

definition u2_bl_error :: "'a res" where
  "u2_bl_error = u2_bl_bail c3__exit"

definition u2_bl_good :: "u2_weak \<Rightarrow> noun res" where
  "u2_bl_good som = (case som of None \<Rightarrow> u2_bl_bail c3__exit | Some n \<Rightarrow> Inr n)"

definition u2_bi_h :: "noun \<Rightarrow> noun res" where
  "u2_bi_h a = (if \<not> u2_dust a then u2_bl_bail c3__exit else u2_h a)"

definition u2_bi_t :: "noun \<Rightarrow> noun res" where
  "u2_bi_t a = (if \<not> u2_dust a then u2_bl_bail c3__exit else u2_t a)"

definition u2_bi_frag :: "noun \<Rightarrow> noun \<Rightarrow> noun res" where
  "u2_bi_frag a b = rbind (u2_frag a b) (\<lambda>c. case c of None \<Rightarrow> u2_bl_bail c3__exit | Some n \<Rightarrow> Inr n)"

lemma u2_bi_simps [simp]:
  "u2_bi_h (Cell h t) = Inr h" "u2_bi_t (Cell h t) = Inr t"
  "u2_bi_h (Atom a) = Inl (Bail c3__exit)" "u2_bi_t (Atom a) = Inl (Bail c3__exit)"
  by (simp_all add: u2_bi_h_def u2_bi_t_def u2_bl_bail_def)

section \<open>Samples\<close>

text \<open>
  The axes of a core: the sample at 6, its parts below 12 and 13, the context at 7, and the
  sample of a core in the context at 30.
\<close>

definition sam_noun :: "noun \<Rightarrow> (noun \<Rightarrow> 'a res) \<Rightarrow> 'a res" where
  "sam_noun cor f =
     rbind (u2_frag (Atom 6) cor) (\<lambda>a. case a of None \<Rightarrow> u2_bl_bail c3__exit | Some a \<Rightarrow> f a)"

definition sam_atom :: "noun \<Rightarrow> (nat \<Rightarrow> 'a res) \<Rightarrow> 'a res" where
  "sam_atom cor f =
     sam_noun cor (\<lambda>a. case a of Atom a \<Rightarrow> f a | Cell _ _ \<Rightarrow> u2_bl_bail c3__exit)"

definition sam_nouns2 :: "noun \<Rightarrow> (noun \<Rightarrow> noun \<Rightarrow> 'a res) \<Rightarrow> 'a res" where
  "sam_nouns2 cor f =
     rbind (u2_mean cor [12, 13]) (\<lambda>r. case r of Some [a, b] \<Rightarrow> f a b | _ \<Rightarrow> u2_bl_bail c3__exit)"

definition sam_atoms2 :: "noun \<Rightarrow> (nat \<Rightarrow> nat \<Rightarrow> 'a res) \<Rightarrow> 'a res" where
  "sam_atoms2 cor f =
     sam_nouns2 cor (\<lambda>a b. case (a, b) of (Atom a, Atom b) \<Rightarrow> f a b | _ \<Rightarrow> u2_bl_bail c3__exit)"

definition sam_atoms3 :: "noun \<Rightarrow> (nat \<Rightarrow> nat \<Rightarrow> nat \<Rightarrow> 'a res) \<Rightarrow> 'a res" where
  "sam_atoms3 cor f =
     rbind (u2_mean cor [12, 26, 27]) (\<lambda>r. case r of
       Some [Atom a, Atom b, Atom c] \<Rightarrow> f a b c
     | _ \<Rightarrow> u2_bl_bail c3__exit)"

definition sam_atoms4 :: "noun \<Rightarrow> (nat \<Rightarrow> nat \<Rightarrow> nat \<Rightarrow> nat \<Rightarrow> 'a res) \<Rightarrow> 'a res" where
  "sam_atoms4 cor f =
     rbind (u2_mean cor [12, 52, 53, 27]) (\<lambda>r. case r of
       Some [Atom a, Atom b, Atom c, Atom d] \<Rightarrow> f a b c d
     | _ \<Rightarrow> u2_bl_bail c3__exit)"

text \<open>A core with a given sample.\<close>

definition gate :: "noun \<Rightarrow> noun \<Rightarrow> noun \<Rightarrow> noun" where
  "gate bat sam con = Cell bat (Cell sam con)"

lemma slot_Cell:
  "2 \<le> n \<Longrightarrow> slot n (Cell h t) = slot (ax_mas n) (if ax_cap n = 2 then h else t)"
  by (rule slot_cap_mas)

lemma ax_simps [simp]:
  "ax_cap 2 = 2" "ax_cap 3 = 3" "ax_cap 4 = 2" "ax_cap 5 = 2" "ax_cap 6 = 3" "ax_cap 7 = 3"
  "ax_cap 12 = 3" "ax_cap 13 = 3" "ax_cap 26 = 3" "ax_cap 27 = 3" "ax_cap 10 = 2" "ax_cap 11 = 2"
  "ax_cap 52 = 3" "ax_cap 53 = 3" "ax_cap 30 = 3" "ax_cap 14 = 3" "ax_cap 20 = 2" "ax_cap 21 = 2"
  "ax_mas 2 = 1" "ax_mas 3 = 1" "ax_mas 4 = 2" "ax_mas 5 = 3" "ax_mas 6 = 2" "ax_mas 7 = 3"
  "ax_mas 12 = 4" "ax_mas 13 = 5" "ax_mas 26 = 10" "ax_mas 27 = 11" "ax_mas 10 = 6" "ax_mas 11 = 7"
  "ax_mas 52 = 20" "ax_mas 53 = 21" "ax_mas 30 = 14" "ax_mas 14 = 6" "ax_mas 20 = 12" "ax_mas 21 = 13"
  by (simp_all add: ax_cap_def ax_mas_def nbits_pos)

lemma slot_gate [simp]:
  "slot 6 (gate bat sam con) = Some sam" "slot 7 (gate bat sam con) = Some con"
  "slot 12 (gate bat (Cell a b) con) = Some a" "slot 13 (gate bat (Cell a b) con) = Some b"
  "slot 26 (gate bat (Cell a (Cell b c)) con) = Some b"
  "slot 27 (gate bat (Cell a (Cell b c)) con) = Some c"
  "slot 52 (gate bat (Cell a (Cell (Cell b c) d)) con) = Some b"
  "slot 53 (gate bat (Cell a (Cell (Cell b c) d)) con) = Some c"
  "slot 30 (gate bat sam (gate bat' sam' con')) = Some sam'"
  by (simp_all add: gate_def slot_Cell)

lemma u2_mean_jets:
  "u2_mean cor [12, 13] = Inr (those [slot 12 cor, slot 13 cor])"
  "u2_mean cor [6, 30] = Inr (those [slot 6 cor, slot 30 cor])"
  "u2_mean cor [12, 13, 30] = Inr (those [slot 12 cor, slot 13 cor, slot 30 cor])"
  "u2_mean cor [12, 26, 27] = Inr (those [slot 12 cor, slot 26 cor, slot 27 cor])"
  "u2_mean cor [12, 52, 53, 27] = Inr (those [slot 12 cor, slot 52 cor, slot 53 cor, slot 27 cor])"
  using axes_sorted_jets by (simp_all add: u2_mean_correct)

lemma sam_noun_gate [simp]: "sam_noun (gate bat a con) f = f a"
  by (simp add: sam_noun_def u2_frag_word)

lemma sam_atom_gate [simp]:
  "sam_atom (gate bat (Atom a) con) f = f a"
  "sam_atom (gate bat (Cell h t) con) f = Inl (Bail c3__exit)"
  by (simp_all add: sam_atom_def u2_bl_bail_def)

lemma sam_nouns2_gate [simp]: "sam_nouns2 (gate bat (Cell a b) con) f = f a b"
  by (simp add: sam_nouns2_def u2_mean_jets)

lemma sam_atoms2_gate [simp]:
  "sam_atoms2 (gate bat (Cell (Atom a) (Atom b)) con) f = f a b"
  by (simp add: sam_atoms2_def)

lemma sam_atoms3_gate [simp]:
  "sam_atoms3 (gate bat (Cell (Atom a) (Cell (Atom b) (Atom c))) con) f = f a b c"
  by (simp add: sam_atoms3_def u2_mean_jets)

lemma sam_atoms4_gate [simp]:
  "sam_atoms4 (gate bat (Cell (Atom a) (Cell (Cell (Atom b) (Atom c)) (Atom d))) con) f = f a b c d"
  by (simp add: sam_atoms4_def u2_mean_jets)

text \<open>A core without an argument of the right shape: the wrapper exits.\<close>

lemma sam_noun_bail: "slot 6 cor = None \<Longrightarrow> sam_noun cor f = Inl (Bail c3__exit)"
  by (simp add: sam_noun_def u2_frag_word u2_bl_bail_def)

lemma sam_atoms2_bail:
  assumes "\<nexists>a b. slot 12 cor = Some (Atom a) \<and> slot 13 cor = Some (Atom b)"
  shows "sam_atoms2 cor f = Inl (Bail c3__exit)"
  using assms
  by (auto simp: sam_atoms2_def sam_nouns2_def u2_mean_jets u2_bl_bail_def split: option.split noun.split)

section \<open>Intermediate results\<close>

text \<open>
  A result handed to a function that asserts that its argument is a noun and an atom; and a
  machine word used as a direct atom: with its top bit set it is not one.
\<close>

definition atom_arg :: "u2_weak \<Rightarrow> nat res" where
  "atom_arg a = (case a of Some (Atom a) \<Rightarrow> Inr a | _ \<Rightarrow> Inl Abort)"

definition cat_noun :: "c3_w \<Rightarrow> nat res" where
  "cat_noun w = (if unat w < 2 ^ 31 then Inr (unat w) else Inl Wild)"

definition rep_noun :: "u2_atom_rep \<Rightarrow> noun" where
  "rep_noun r = Atom (atom_of r)"

lemma atom_arg_simps [simp]: "atom_arg (Some (Atom a)) = Inr a" "atom_arg None = Inl Abort"
  by (simp_all add: atom_arg_def)

lemma rep_noun_malt [simp]: "rep_noun (u2_rl_malt ws) = Atom (words_atom ws)"
  by (simp add: rep_noun_def)

lemma cat_noun_of_nat [simp]: "n < 2 ^ 31 \<Longrightarrow> cat_noun (of_nat n) = Inr n"
  by (simp add: cat_noun_def unat_of_nat_c3_w)

end
