(* ===== verification/Jets1.thy ===== *)
theory Jets1
  imports Jets
begin

text \<open>
  The arithmetic jets, \<^verbatim>\<open>gen164/1\<close>. Each function \<^verbatim>\<open>j2_mbc(Pt1, f)\<close> moves its arguments to
  GMP integers and back; its wrapper \<^verbatim>\<open>j2_mb(Pt1, f)\<close> takes the arguments from the sample of a
  core. The jets must compute what the hoon functions of the same name do: total arithmetic on
  the naturals, with \<^verbatim>\<open>sub\<close>, \<^verbatim>\<open>dec\<close>, \<^verbatim>\<open>div\<close> and \<^verbatim>\<open>mod\<close> crashing where the function is undefined.
\<close>

section \<open>The jets\<close>

definition j2_mbc_add :: "'m gmp \<Rightarrow> nat \<Rightarrow> nat \<Rightarrow> u2_weak res" where
  "j2_mbc_add G a b =
     rbind (u2_mp G a) (\<lambda>a_mp.
     rbind (u2_mp G b) (\<lambda>b_mp.
       u2_rl_mp G (mpz_add G a_mp b_mp)))"

definition j2_mb_add :: "'m gmp \<Rightarrow> noun \<Rightarrow> u2_weak res" where
  "j2_mb_add G cor = sam_atoms2 cor (j2_mbc_add G)"

definition j2_mbc_inc :: "'m gmp \<Rightarrow> nat \<Rightarrow> u2_weak res" where
  "j2_mbc_inc G a = u2_rl_vint G (Some (Atom a))"

definition j2_mbc_dec :: "'m gmp \<Rightarrow> nat \<Rightarrow> u2_weak res" where
  "j2_mbc_dec G a =
     (if a = 0 then u2_bl_error
      else rbind (u2_mp G a) (\<lambda>a_mp. u2_rl_mp G (mpz_sub_ui G a_mp 1)))"

definition j2_mb_dec :: "'m gmp \<Rightarrow> noun \<Rightarrow> u2_weak res" where
  "j2_mb_dec G cor = sam_atom cor (j2_mbc_dec G)"

definition j2_mbc_div :: "'m gmp \<Rightarrow> nat \<Rightarrow> nat \<Rightarrow> u2_weak res" where
  "j2_mbc_div G a b =
     (if b = 0 then u2_bl_bail c3__exit
      else rbind (u2_mp G a) (\<lambda>a_mp.
           rbind (u2_mp G b) (\<lambda>b_mp.
             u2_rl_mp G (mpz_tdiv_q G a_mp b_mp))))"

definition j2_mb_div :: "'m gmp \<Rightarrow> noun \<Rightarrow> u2_weak res" where
  "j2_mb_div G cor = sam_atoms2 cor (j2_mbc_div G)"

definition j2_mbc_gte :: "'m gmp \<Rightarrow> nat \<Rightarrow> nat \<Rightarrow> u2_weak res" where
  "j2_mbc_gte G a b =
     rbind (u2_mp G a) (\<lambda>a_mp.
     rbind (u2_mp G b) (\<lambda>b_mp.
       Inr (Some (u2_say (mpz_cmp G a_mp b_mp \<ge> 0)))))"

definition j2_mb_gte :: "'m gmp \<Rightarrow> noun \<Rightarrow> u2_weak res" where
  "j2_mb_gte G cor = sam_atoms2 cor (j2_mbc_gte G)"

definition j2_mbc_gth :: "'m gmp \<Rightarrow> nat \<Rightarrow> nat \<Rightarrow> u2_weak res" where
  "j2_mbc_gth G a b =
     rbind (u2_mp G a) (\<lambda>a_mp.
     rbind (u2_mp G b) (\<lambda>b_mp.
       Inr (Some (u2_say (mpz_cmp G a_mp b_mp > 0)))))"

definition j2_mb_gth :: "'m gmp \<Rightarrow> noun \<Rightarrow> u2_weak res" where
  "j2_mb_gth G cor = sam_atoms2 cor (j2_mbc_gth G)"

definition j2_mbc_lte :: "'m gmp \<Rightarrow> nat \<Rightarrow> nat \<Rightarrow> u2_weak res" where
  "j2_mbc_lte G a b =
     rbind (u2_mp G a) (\<lambda>a_mp.
     rbind (u2_mp G b) (\<lambda>b_mp.
       Inr (Some (u2_say (mpz_cmp G a_mp b_mp \<le> 0)))))"

definition j2_mb_lte :: "'m gmp \<Rightarrow> noun \<Rightarrow> u2_weak res" where
  "j2_mb_lte G cor = sam_atoms2 cor (j2_mbc_lte G)"

definition j2_mbc_lth :: "'m gmp \<Rightarrow> nat \<Rightarrow> nat \<Rightarrow> u2_weak res" where
  "j2_mbc_lth G a b =
     rbind (u2_mp G a) (\<lambda>a_mp.
     rbind (u2_mp G b) (\<lambda>b_mp.
       Inr (Some (u2_say (mpz_cmp G a_mp b_mp < 0)))))"

definition j2_mb_lth :: "'m gmp \<Rightarrow> noun \<Rightarrow> u2_weak res" where
  "j2_mb_lth G cor = sam_atoms2 cor (j2_mbc_lth G)"

definition j2_mbc_mod :: "'m gmp \<Rightarrow> nat \<Rightarrow> nat \<Rightarrow> u2_weak res" where
  "j2_mbc_mod G a b =
     (if b = 0 then u2_bl_bail c3__exit
      else rbind (u2_mp G a) (\<lambda>a_mp.
           rbind (u2_mp G b) (\<lambda>b_mp.
             u2_rl_mp G (mpz_tdiv_r G a_mp b_mp))))"

definition j2_mb_mod :: "'m gmp \<Rightarrow> noun \<Rightarrow> u2_weak res" where
  "j2_mb_mod G cor = sam_atoms2 cor (j2_mbc_mod G)"

definition j2_mbc_mul :: "'m gmp \<Rightarrow> nat \<Rightarrow> nat \<Rightarrow> u2_weak res" where
  "j2_mbc_mul G a b =
     rbind (u2_mp G a) (\<lambda>a_mp.
     rbind (u2_mp G b) (\<lambda>b_mp.
       u2_rl_mp G (mpz_mul G a_mp b_mp)))"

definition j2_mb_mul :: "'m gmp \<Rightarrow> noun \<Rightarrow> u2_weak res" where
  "j2_mb_mul G cor = sam_atoms2 cor (j2_mbc_mul G)"

definition j2_mbc_sub :: "'m gmp \<Rightarrow> nat \<Rightarrow> nat \<Rightarrow> u2_weak res" where
  "j2_mbc_sub G a b =
     rbind (u2_mp G a) (\<lambda>a_mp.
     rbind (u2_mp G b) (\<lambda>b_mp.
       if mpz_cmp G a_mp b_mp < 0 then u2_bl_error
       else u2_rl_mp G (mpz_sub G a_mp b_mp)))"

definition j2_mb_sub :: "'m gmp \<Rightarrow> noun \<Rightarrow> u2_weak res" where
  "j2_mb_sub G cor = sam_atoms2 cor (j2_mbc_sub G)"

section \<open>Correctness\<close>

context gmp_laws
begin

lemma cmp_le: "mpz_cmp G m n \<ge> 0 \<longleftrightarrow> val m \<ge> val n" "mpz_cmp G m n \<le> 0 \<longleftrightarrow> val m \<le> val n"
  using cmp [of m n] by linarith+

lemma mp_arith:
  assumes "atom_fits a" "atom_fits b"
  shows mbc_add: "j2_mbc_add G a b = atom_weak (a + b)"
    and mbc_mul: "j2_mbc_mul G a b = atom_weak (a * b)"
    and mbc_sub: "j2_mbc_sub G a b = (if a < b then Inl (Bail c3__exit) else Inr (Some (Atom (a - b))))"
    and mbc_div: "j2_mbc_div G a b = (if b = 0 then Inl (Bail c3__exit) else Inr (Some (Atom (a div b))))"
    and mbc_mod: "j2_mbc_mod G a b = (if b = 0 then Inl (Bail c3__exit) else Inr (Some (Atom (a mod b))))"
proof -
  obtain m n where m: "u2_mp G a = Inr m" "val m = int a" and n: "u2_mp G b = Inr n" "val n = int b"
    using u2_mp_val [OF assms(1)] u2_mp_val [OF assms(2)] by metis
  show "j2_mbc_add G a b = atom_weak (a + b)"
    using u2_rl_mp_val [of "mpz_add G m n" "a + b"] m n by (simp add: j2_mbc_add_def add)
  show "j2_mbc_mul G a b = atom_weak (a * b)"
    using u2_rl_mp_val [of "mpz_mul G m n" "a * b"] m n by (simp add: j2_mbc_mul_def mul)
  have fits: "atom_weak k = Inr (Some (Atom k))" if "k \<le> a" for k
    using atom_fits_mono [OF that assms(1)] by (simp add: atom_weak_def)
  show "j2_mbc_sub G a b = (if a < b then Inl (Bail c3__exit) else Inr (Some (Atom (a - b))))"
    using u2_rl_mp_val [of "mpz_sub G m n" "a - b"] m n fits [of "a - b"]
    by (auto simp: j2_mbc_sub_def sub cmp u2_bl_error_def u2_bl_bail_def)
  show "j2_mbc_div G a b = (if b = 0 then Inl (Bail c3__exit) else Inr (Some (Atom (a div b))))"
    using u2_rl_mp_val [of "mpz_tdiv_q G m n" "a div b"] m n fits [of "a div b"]
    by (auto simp: j2_mbc_div_def tdiv_q u2_bl_bail_def zdiv_int)
  show "j2_mbc_mod G a b = (if b = 0 then Inl (Bail c3__exit) else Inr (Some (Atom (a mod b))))"
    using u2_rl_mp_val [of "mpz_tdiv_r G m n" "a mod b"] m n fits [of "a mod b"]
    by (auto simp: j2_mbc_mod_def tdiv_r u2_bl_bail_def zmod_int)
qed

lemma mp_compare:
  assumes "atom_fits a" "atom_fits b"
  shows mbc_gte: "j2_mbc_gte G a b = Inr (Some (u2_say (a \<ge> b)))"
    and mbc_gth: "j2_mbc_gth G a b = Inr (Some (u2_say (a > b)))"
    and mbc_lte: "j2_mbc_lte G a b = Inr (Some (u2_say (a \<le> b)))"
    and mbc_lth: "j2_mbc_lth G a b = Inr (Some (u2_say (a < b)))"
proof -
  obtain m n where "u2_mp G a = Inr m" "val m = int a" and "u2_mp G b = Inr n" "val n = int b"
    using u2_mp_val [OF assms(1)] u2_mp_val [OF assms(2)] by metis
  then show "j2_mbc_gte G a b = Inr (Some (u2_say (a \<ge> b)))"
    "j2_mbc_gth G a b = Inr (Some (u2_say (a > b)))"
    "j2_mbc_lte G a b = Inr (Some (u2_say (a \<le> b)))"
    "j2_mbc_lth G a b = Inr (Some (u2_say (a < b)))"
    by (simp_all add: j2_mbc_gte_def j2_mbc_gth_def j2_mbc_lte_def j2_mbc_lth_def cmp cmp_le)
qed

lemma mbc_inc: "atom_fits a \<Longrightarrow> j2_mbc_inc G a = atom_weak (a + 1)"
  by (simp add: j2_mbc_inc_def vint)

lemma mbc_dec:
  assumes "atom_fits a"
  shows "j2_mbc_dec G a = (if a = 0 then Inl (Bail c3__exit) else Inr (Some (Atom (a - 1))))"
proof -
  obtain m where "u2_mp G a = Inr m" "val m = int a" using u2_mp_val [OF assms] .
  moreover have "atom_weak (a - 1) = Inr (Some (Atom (a - 1)))"
    using atom_fits_mono [of "a - 1" a] assms by (simp add: atom_weak_def)
  ultimately show ?thesis
    using u2_rl_mp_val [of "mpz_sub_ui G m 1" "a - 1"]
    by (auto simp: j2_mbc_dec_def sub_ui u2_bl_error_def u2_bl_bail_def)
qed

end

section \<open>Properties\<close>

text \<open>
  C31: the arithmetic jets compute the arithmetic of the naturals on the sample of a core:
  \<^verbatim>\<open>add\<close> and \<^verbatim>\<open>mul\<close> up to the largest atom, past which the assertion of
  \<^verbatim>\<open>u2_loop_signal_memory\<close> fails, and \<^verbatim>\<open>sub\<close>, \<^verbatim>\<open>dec\<close>, \<^verbatim>\<open>div\<close> and \<^verbatim>\<open>mod\<close> exactly, leaving with an
  exit on underflow and on division by zero. What GMP documents of the functions they call is a
  hypothesis.
\<close>

theorem jets_arithmetic:
  assumes "gmp_laws G val" "atom_fits a" "atom_fits b"
    and cor: "cor = gate bat (Cell (Atom a) (Atom b)) con"
  shows "j2_mb_add G cor = (if atom_fits (a + b) then Inr (Some (Atom (a + b))) else Inl Abort) \<and>
    j2_mb_mul G cor = (if atom_fits (a * b) then Inr (Some (Atom (a * b))) else Inl Abort) \<and>
    j2_mb_sub G cor = (if a < b then Inl (Bail c3__exit) else Inr (Some (Atom (a - b)))) \<and>
    j2_mb_div G cor = (if b = 0 then Inl (Bail c3__exit) else Inr (Some (Atom (a div b)))) \<and>
    j2_mb_mod G cor = (if b = 0 then Inl (Bail c3__exit) else Inr (Some (Atom (a mod b)))) \<and>
    j2_mb_dec G (gate bat (Atom a) con) =
      (if a = 0 then Inl (Bail c3__exit) else Inr (Some (Atom (a - 1))))"
  using gmp_laws.mp_arith [OF assms(1-3)] gmp_laws.mbc_dec [OF assms(1,2)]
  by (simp add: cor j2_mb_add_def j2_mb_mul_def j2_mb_sub_def j2_mb_div_def j2_mb_mod_def
      j2_mb_dec_def atom_weak_def)

theorem jets_arithmetic_witness:
  "j2_mb_sub gmp_int (gate (Atom 0) (Cell (Atom 2 ) (Atom 3)) (Atom 0)) = Inl (Bail c3__exit) \<and>
   j2_mb_div gmp_int (gate (Atom 0) (Cell (Atom 7) (Atom 2)) (Atom 0)) = Inr (Some (Atom 3))"
  using jets_arithmetic [OF gmp_ref.gmp_laws_axioms _ _ refl, of 2 3 "Atom 0" "Atom 0"]
    jets_arithmetic [OF gmp_ref.gmp_laws_axioms _ _ refl, of 7 2 "Atom 0" "Atom 0"]
  by (simp add: atom_fits_def atom_words_pos)

text \<open>
  the comparison jets answer yes (0) or no (1) according to the order of the naturals.
\<close>

theorem jets_comparison:
  assumes "gmp_laws G val" "atom_fits a" "atom_fits b"
    and cor: "cor = gate bat (Cell (Atom a) (Atom b)) con"
  shows "j2_mb_lth G cor = Inr (Some (Atom (if a < b then 0 else 1))) \<and>
    j2_mb_lte G cor = Inr (Some (Atom (if a \<le> b then 0 else 1))) \<and>
    j2_mb_gth G cor = Inr (Some (Atom (if a > b then 0 else 1))) \<and>
    j2_mb_gte G cor = Inr (Some (Atom (if a \<ge> b then 0 else 1)))"
  using gmp_laws.mp_compare [OF assms(1-3)]
  by (simp add: cor j2_mb_lth_def j2_mb_lte_def j2_mb_gth_def j2_mb_gte_def u2_say_def)

theorem jets_comparison_witness:
  "j2_mb_lth gmp_int (gate (Atom 0) (Cell (Atom 2) (Atom 3)) (Atom 0)) = Inr (Some (Atom 0))"
  using jets_comparison [OF gmp_ref.gmp_laws_axioms _ _ refl, of 2 3 "Atom 0" "Atom 0"]
  by (simp add: atom_fits_def atom_words_pos)

end
