(* ===== verification/Jets3.thy ===== *)
theory Jets3
  imports Jets1
begin

text \<open>
  The jets of bit and bloq arithmetic, \<^verbatim>\<open>gen164/3\<close>. A bloq of size \<open>a\<close> is \<open>2\<^sup>a\<close> bits; the
  jets take a slab of zero words, chop the arguments into it and make it an atom. The lemmas
  give each jet as arithmetic on the naturals, which is what the hoon functions do, under
  the condition that the bits of the slab can be counted in a word. \<^verbatim>\<open>u2_rl_slaq\<close> does not check
  that condition: by \<open>lsh_wild\<close> a left shift by words that violates it writes outside its slab.
\<close>

section \<open>Shifts and cuts\<close>

text \<open>The test of the bloq size that these jets start with.\<close>

definition bloq_bad :: "nat \<Rightarrow> bool" where
  "bloq_bad a \<longleftrightarrow> \<not> u2_fly_is_cat a \<or> a \<ge> 32"

definition j2_mbc_bex :: "'m gmp \<Rightarrow> nat \<Rightarrow> u2_weak res" where
  "j2_mbc_bex G a =
     (if \<not> u2_fly_is_cat a then u2_bl_bail c3__fail
      else u2_rl_mp G (mpz_mul_2exp G (mpz_init_set_ui G 1) a))"

definition j2_mb_bex :: "'m gmp \<Rightarrow> noun \<Rightarrow> u2_weak res" where
  "j2_mb_bex G cor = sam_atom cor (j2_mbc_bex G)"

definition j2_mbc_cat :: "nat \<Rightarrow> nat \<Rightarrow> nat \<Rightarrow> u2_weak res" where
  "j2_mbc_cat a b c =
     (if bloq_bad a then u2_bl_bail c3__fail
      else let lew_w = u2_met a b; ler_w = u2_met a c; all_w = lew_w + ler_w
           in if all_w = 0 then Inr (Some (Atom 0))
              else rbind (u2_chop a 0 lew_w 0 (u2_rl_slaq a all_w) b) (\<lambda>sal.
                   rbind (u2_chop a 0 ler_w lew_w sal c) (\<lambda>sal.
                     Inr (Some (rep_noun (u2_rl_malt sal))))))"

definition j2_mb_cat :: "noun \<Rightarrow> u2_weak res" where
  "j2_mb_cat cor = sam_atoms3 cor j2_mbc_cat"

definition j2_mbc_cut :: "nat \<Rightarrow> nat \<Rightarrow> nat \<Rightarrow> nat \<Rightarrow> u2_weak res" where
  "j2_mbc_cut a b c d =
     (if bloq_bad a then u2_bl_bail c3__fail
      else if \<not> u2_fly_is_cat b then Inr (Some (Atom 0))
      else let c = (if u2_fly_is_cat c then c else 0x7fffffff);
               b_w = of_nat b; c_w = of_nat c; len_w = u2_met a d
           in if c_w = 0 \<or> b_w \<ge> len_w then Inr (Some (Atom 0))
              else let c_w = (if b_w + c_w > len_w then len_w - b_w else c_w)
                   in if b_w = 0 \<and> c_w = len_w then Inr (Some (Atom d))
                      else rbind (u2_chop a b_w c_w 0 (u2_rl_slaq a c_w) d) (\<lambda>sal.
                             Inr (Some (rep_noun (u2_rl_malt sal)))))"

definition j2_mb_cut :: "noun \<Rightarrow> u2_weak res" where
  "j2_mb_cut cor = sam_atoms4 cor j2_mbc_cut"

definition j2_mbc_end :: "nat \<Rightarrow> nat \<Rightarrow> nat \<Rightarrow> u2_weak res" where
  "j2_mbc_end a b c =
     (if bloq_bad a then u2_bl_bail c3__fail
      else if \<not> u2_fly_is_cat b then Inr (Some (Atom c))
      else let b_w = of_nat b; len_w = u2_met a c
           in if b_w = 0 then Inr (Some (Atom 0))
              else if b_w \<ge> len_w then Inr (Some (Atom c))
              else rbind (u2_chop a 0 b_w 0 (u2_rl_slaq a b_w) c) (\<lambda>sal.
                     Inr (Some (rep_noun (u2_rl_malt sal)))))"

definition j2_mb_end :: "noun \<Rightarrow> u2_weak res" where
  "j2_mb_end cor = sam_atoms3 cor j2_mbc_end"

definition j2_mbc_lsh :: "nat \<Rightarrow> nat \<Rightarrow> nat \<Rightarrow> u2_weak res" where
  "j2_mbc_lsh a b c =
     (if bloq_bad a then u2_bl_bail c3__fail
      else if \<not> u2_fly_is_cat b then u2_bl_bail c3__fail
      else let b_w = of_nat b; len_w = u2_met a c
           in if len_w = 0 then Inr (Some (Atom 0))
              else if b_w + len_w < len_w then u2_bl_bail c3__exit
              else rbind (u2_chop a 0 len_w b_w (u2_rl_slaq a (b_w + len_w)) c) (\<lambda>sal.
                     Inr (Some (rep_noun (u2_rl_malt sal)))))"

definition j2_mb_lsh :: "noun \<Rightarrow> u2_weak res" where
  "j2_mb_lsh cor = sam_atoms3 cor j2_mbc_lsh"

definition j2_mbc_rsh :: "nat \<Rightarrow> nat \<Rightarrow> nat \<Rightarrow> u2_weak res" where
  "j2_mbc_rsh a b c =
     (if bloq_bad a then u2_bl_bail c3__fail
      else if \<not> u2_fly_is_cat b then Inr (Some (Atom 0))
      else let b_w = of_nat b; len_w = u2_met a c
           in if b_w \<ge> len_w then Inr (Some (Atom 0))
              else rbind (u2_chop a b_w (len_w - b_w) 0 (u2_rl_slaq a (len_w - b_w)) c) (\<lambda>sal.
                     Inr (Some (rep_noun (u2_rl_malt sal)))))"

definition j2_mb_rsh :: "noun \<Rightarrow> u2_weak res" where
  "j2_mb_rsh cor = sam_atoms3 cor j2_mbc_rsh"

definition j2_mbc_met :: "nat \<Rightarrow> nat \<Rightarrow> u2_weak res" where
  "j2_mbc_met a b =
     (if bloq_bad a then Inr (Some (Atom (if b = 0 then 0 else 1)))
      else let met_w = u2_met a b
           in if unat met_w \<ge> 2 ^ 31 then rbind (u2_rl_words [met_w]) (\<lambda>r. Inr (Some (rep_noun r)))
              else Inr (Some (Atom (unat (u2_met a b)))))"

definition j2_mb_met :: "noun \<Rightarrow> u2_weak res" where
  "j2_mb_met cor = sam_atoms2 cor j2_mbc_met"

lemma length_slaq:
  assumes "unat len * 2 ^ g + 31 < 2 ^ 32"
  shows "unat len * 2 ^ g \<le> 32 * length (u2_rl_slaq g len)"
    and "words_atom (u2_rl_slaq g len) = 0"
proof -
  have "unat (push_bit g len) = unat len * 2 ^ g" using assms by (intro unat_push_c3_w) simp
  then have "unat (push_bit g len + 31) = unat len * 2 ^ g + 31"
    using assms unat_add_c3_w [of "push_bit g len" 31] by simp
  then have "length (u2_rl_slaq g len) = (unat len * 2 ^ g + 31) div 32"
    by (simp add: u2_rl_slaq_def u2_rl_slab_def unat_drop_c3_w)
  then show "unat len * 2 ^ g \<le> 32 * length (u2_rl_slaq g len)" by simp
  show "words_atom (u2_rl_slaq g len) = 0" by (simp add: u2_rl_slaq_def u2_rl_slab_def)
qed

lemma bloq_span_bits: "n * 2 ^ g \<le> 2 ^ 32 \<Longrightarrow> bloq_span g n"
proof -
  assume a: "n * 2 ^ g \<le> 2 ^ 32"
  have "n * 2 ^ (g - 5) \<le> n * 2 ^ g" by (intro mult_le_mono2 power_increasing) simp_all
  then show ?thesis using a unfolding bloq_span_def by (metis order_trans)
qed

lemma met_bits_upper: "met g c * 2 ^ g < nbits c + 2 ^ g"
proof -
  have "met g c * 2 ^ g \<le> nbits c + (2 ^ g - 1)"
    unfolding met_def by (rule div_times_less_eq_dividend)
  moreover have "(0::nat) < 2 ^ g" by simp
  ultimately show ?thesis by linarith
qed

lemma bloq_span_met:
  assumes "atom_fits c" "g < 32" "n \<le> met g c"
  shows "bloq_span g n"
proof (cases "g < 5")
  case True
  have "(2::nat) ^ g \<le> 16" using power_increasing [of g 4 "2::nat"] True by simp
  moreover have "n * 2 ^ g \<le> met g c * 2 ^ g" using assms(3) by (rule mult_le_mono1)
  moreover have "nbits c \<le> 4294967264" using atom_fits_nbits [OF assms(1)] by simp
  ultimately have "n * 2 ^ g \<le> 4294967296" using met_bits_upper [of g c] by linarith
  then show ?thesis by (intro bloq_span_bits) simp
next
  case False
  then obtain h where g: "g = 5 + h" using le_Suc_ex not_less by blast
  have "(2::nat) ^ h \<le> 67108864" using power_increasing [of h 26 "2::nat"] assms(2) g by simp
  moreover have "n * 2 ^ h \<le> met g c * 2 ^ h" using assms(3) by (rule mult_le_mono1)
  moreover have "met g c * 2 ^ h \<le> length (atom_words c) + (2 ^ h - 1)"
    unfolding g met_words by (rule div_times_less_eq_dividend)
  moreover have "length (atom_words c) < 134217728" using assms(1) by (simp add: atom_fits_def)
  ultimately have "n * 2 ^ h \<le> 4294967296" by linarith
  then show ?thesis by (simp add: bloq_span_def g)
qed

lemma chop_slaq:
  assumes "atom_fits src" "g < 32" "unat fum + unat wid \<le> met g src"
    and "unat len = unat tou + unat wid" "unat len * 2 ^ g + 31 < 2 ^ 32"
  obtains sal where "u2_chop g fum wid tou (u2_rl_slaq g len) src = Inr sal"
    "words_atom sal = push_bit (unat tou * 2 ^ g) (take_bit (unat wid * 2 ^ g) (drop_bit (unat fum * 2 ^ g) src))"
proof -
  have "bloq_span g (unat fum + unat wid)" using bloq_span_met assms(1-3) by blast
  moreover have "bloq_span g (unat tou + unat wid)"
    using assms(4,5) by (intro bloq_span_bits) simp
  ultimately show thesis
    using u2_chop_correct [of src g fum wid tou "u2_rl_slaq g len"] assms(1,2,4)
      length_slaq [OF assms(5)] that
    by (auto simp: chopped_def)
qed

lemma take_met [simp]: "take_bit (met g c * 2 ^ g) c = c"
  using met_bits [of c g] by (simp add: take_bit_nat_eq_self_iff nbits_le_iff)

lemma bloq_bad_iff [simp]: "bloq_bad a \<longleftrightarrow> 32 \<le> a"
  by (auto simp: bloq_bad_def u2_fly_is_cat_def)

lemma unat_u2_met [simp]: "atom_fits b \<Longrightarrow> a < 32 \<Longrightarrow> unat (u2_met a b) = met a b"
  by (rule u2_met_correct)

lemma u2_met_0 [simp]: "u2_met a 0 = 0"
  by (simp add: u2_met_def)

lemma xor_push:
  assumes "(b::nat) < 2 ^ k"
  shows "b XOR push_bit k c = b + push_bit k c"
proof -
  have "b AND push_bit k c = 0"
    using not_bit_ge_nbits [of b] assms by (auto simp: bit_eq_iff bit_simps simp flip: nbits_le_iff)
  then show ?thesis by (rule disjunctive_add_eq_xor [symmetric])
qed

lemma u2_met_eq_0: "atom_fits b \<Longrightarrow> a < 32 \<Longrightarrow> u2_met a b = 0 \<longleftrightarrow> b = 0"
  using u2_met_correct [of b a] by (auto simp: unat_eq_0 [symmetric])

lemma lsh_correct:
  assumes "a < 32" "u2_fly_is_cat b" "atom_fits c" "(b + met a c) * 2 ^ a + 31 < 2 ^ 32"
  shows "j2_mbc_lsh a b c = Inr (Some (Atom (c * 2 ^ (b * 2 ^ a))))"
proof (cases "c = 0")
  case True
  then show ?thesis using assms by (simp add: j2_mbc_lsh_def u2_met_eq_0)
next
  case False
  have "b + met a c \<le> (b + met a c) * 2 ^ a" by simp
  then have sum: "b + met a c < 2 ^ 32" using assms(4) by linarith
  have b: "unat (of_nat b :: c3_w) = b" using assms(2) by (simp add: unat_of_nat_c3_w u2_fly_is_cat_def)
  have len: "unat (of_nat b + u2_met a c) = b + met a c"
    using sum b assms(1,3) by (simp add: unat_add_c3_w)
  obtain sal where "u2_chop a 0 (u2_met a c) (of_nat b) (u2_rl_slaq a (of_nat b + u2_met a c)) c = Inr sal"
    "words_atom sal = push_bit (b * 2 ^ a) (take_bit (met a c * 2 ^ a) c)"
    using chop_slaq [of c a 0 "u2_met a c" "of_nat b + u2_met a c" "of_nat b"] assms b len by auto
  then show ?thesis
    using False assms(1-3) len
    by (simp add: j2_mbc_lsh_def Let_def u2_met_eq_0 word_less_nat_alt push_bit_eq_mult)
qed

lemma rsh_correct:
  assumes "a < 32" "u2_fly_is_cat b" "atom_fits c" "(met a c - b) * 2 ^ a + 31 < 2 ^ 32"
  shows "j2_mbc_rsh a b c = Inr (Some (Atom (c div 2 ^ (b * 2 ^ a))))"
proof -
  have b: "unat (of_nat b :: c3_w) = b" using assms(2) by (simp add: unat_of_nat_c3_w u2_fly_is_cat_def)
  show ?thesis
  proof (cases "met a c \<le> b")
    case True
    then have "c < 2 ^ (b * 2 ^ a)" by (simp add: met_le_iff mult.commute)
    then show ?thesis using True assms b by (simp add: j2_mbc_rsh_def Let_def word_le_nat_alt)
  next
    case False
    then have len: "unat (u2_met a c - of_nat b) = met a c - b"
      using b assms by (simp add: unat_sub_c3_w)
    obtain sal where "u2_chop a (of_nat b) (u2_met a c - of_nat b) 0 (u2_rl_slaq a (u2_met a c - of_nat b)) c = Inr sal"
      "words_atom sal = take_bit ((met a c - b) * 2 ^ a) (drop_bit (b * 2 ^ a) c)"
      using chop_slaq [of c a "of_nat b" "u2_met a c - of_nat b" "u2_met a c - of_nat b" 0] assms b len False by auto
    moreover have "take_bit ((met a c - b) * 2 ^ a) (drop_bit (b * 2 ^ a) c) = drop_bit (b * 2 ^ a) c"
    proof -
      have "(met a c - b) * 2 ^ a + b * 2 ^ a = met a c * 2 ^ a" using False by (simp flip: distrib_right)
      then show ?thesis using take_bit_drop_bit [of _ "b * 2 ^ a" c] by (metis take_met)
    qed
    ultimately show ?thesis
      using False assms b by (simp add: j2_mbc_rsh_def Let_def word_le_nat_alt drop_bit_eq_div)
  qed
qed

lemma end_correct:
  assumes "a < 32" "atom_fits c" "u2_fly_is_cat b \<or> met a c \<le> b"
  shows "j2_mbc_end a b c = Inr (Some (Atom (c mod 2 ^ (b * 2 ^ a))))"
proof (cases "met a c \<le> b")
  case True
  then have "c < 2 ^ (b * 2 ^ a)" by (simp add: met_le_iff mult.commute)
  moreover have "c = 0" if "b = 0" using True that by simp
  moreover have "unat (of_nat b :: c3_w) = b" if "u2_fly_is_cat b"
    using that by (simp add: unat_of_nat_c3_w u2_fly_is_cat_def)
  ultimately show ?thesis
    using True assms by (auto simp: j2_mbc_end_def Let_def word_le_nat_alt)
next
  case False
  have met: "met a c * 2 ^ a < nbits c + 2 ^ a" by (rule met_bits_upper)
  have "Suc b * 2 ^ a \<le> met a c * 2 ^ a" using False by (intro mult_le_mono1) simp
  then have bits: "b * 2 ^ a < nbits c" using met unfolding mult_Suc by linarith
  have small: "b * 2 ^ a + 31 < 2 ^ 32" using bits atom_fits_nbits [OF assms(2)] by linarith
  have cat: "u2_fly_is_cat b" using assms(3) False by simp
  then have b: "unat (of_nat b :: c3_w) = b" by (simp add: unat_of_nat_c3_w u2_fly_is_cat_def)
  obtain sal where "u2_chop a 0 (of_nat b) 0 (u2_rl_slaq a (of_nat b)) c = Inr sal"
    "words_atom sal = take_bit (b * 2 ^ a) c"
    using chop_slaq [of c a 0 "of_nat b" "of_nat b" 0] assms b False small by auto
  then show ?thesis
    using False cat assms b
    by (auto simp: j2_mbc_end_def Let_def word_le_nat_alt take_bit_eq_mod unat_eq_0 [symmetric])
qed

lemma cat_correct:
  assumes "a < 32" "atom_fits b" "atom_fits c" "(met a b + met a c) * 2 ^ a + 31 < 2 ^ 32"
  shows "j2_mbc_cat a b c = Inr (Some (Atom (b + c * 2 ^ (met a b * 2 ^ a))))"
proof (cases "b = 0 \<and> c = 0")
  case True
  then show ?thesis using assms(1) by (simp add: j2_mbc_cat_def Let_def)
next
  case False
  let ?l = "u2_met a b" and ?r = "u2_met a c"
  have "met a b + met a c \<le> (met a b + met a c) * 2 ^ a" by simp
  then have "met a b + met a c < 2 ^ 32" using assms(4) by linarith
  then have all: "unat (?l + ?r) = met a b + met a c" using assms(1-3) by (simp add: unat_add_c3_w)
  then have nz: "?l + ?r \<noteq> 0" using False by (auto simp: unat_eq_0 [symmetric])
  let ?sal = "u2_rl_slaq a (?l + ?r)"
  have bits: "(met a b + met a c) * 2 ^ a \<le> 32 * length ?sal" "words_atom ?sal = 0"
    using length_slaq [of "?l + ?r" a] assms(4) all by simp_all
  have "bloq_span a (met a b + met a c)" using assms(4) by (intro bloq_span_bits) simp
  then have span: "bloq_span a (met a b)" "bloq_span a (met a c)" "bloq_span a (met a b + met a c)"
    by (auto simp: bloq_span_def distrib_right split: if_splits)
  obtain s1 where s1: "u2_chop a 0 ?l 0 ?sal b = Inr s1" "chopped ?sal 0 (met a b * 2 ^ a) 0 b s1"
    using u2_chop_correct [of b a 0 ?l 0 ?sal] assms(1,2) span bits(1) by (auto simp: distrib_right)
  obtain s2 where s2: "u2_chop a 0 ?r ?l s1 c = Inr s2"
      "chopped s1 (met a b * 2 ^ a) (met a c * 2 ^ a) 0 c s2"
    using u2_chop_correct [of c a 0 ?r ?l s1] assms(1-3) span bits(1) s1(2) by (auto simp: chopped_def)
  have "words_atom s2 = b XOR push_bit (met a b * 2 ^ a) c"
    using s1(2) s2(2) bits(2) by (simp add: chopped_def)
  also have "\<dots> = b + push_bit (met a b * 2 ^ a) c"
    using met_bits [of b a] by (intro xor_push) (simp flip: nbits_le_iff)
  finally show ?thesis
    using nz s1(1) s2(1) assms(1) by (simp add: j2_mbc_cat_def Let_def push_bit_eq_mult)
qed

text \<open>The width \<^verbatim>\<open>cut\<close> works with: what remains of the atom, when that is less than asked for.\<close>

abbreviation (input) cut_max :: "nat \<Rightarrow> nat" where
  "cut_max c \<equiv> (if u2_fly_is_cat c then c else 0x7fffffff)"

definition cut_wid :: "nat \<Rightarrow> nat \<Rightarrow> nat \<Rightarrow> nat \<Rightarrow> nat" where
  "cut_wid a b c d = (if b + cut_max c > met a d then met a d - b else cut_max c)"

lemma cut_wid_value:
  assumes "b < met a d" "u2_fly_is_cat c \<or> met a d - b < 2 ^ 31"
  shows "take_bit (cut_wid a b c d * 2 ^ a) (drop_bit (b * 2 ^ a) d) =
    d div 2 ^ (b * 2 ^ a) mod 2 ^ (c * 2 ^ a)"
proof -
  let ?x = "d div 2 ^ (b * 2 ^ a)"
  have "d < 2 ^ (b * 2 ^ a + (met a d - b) * 2 ^ a)"
    using met_bits [of d a] assms(1) by (simp add: nbits_le_iff flip: distrib_right)
  then have x: "?x < 2 ^ ((met a d - b) * 2 ^ a)"
    by (simp add: power_add div_less_iff_less_mult mult.commute)
  have "cut_wid a b c d = c \<or> cut_wid a b c d = met a d - b \<and> met a d - b \<le> c"
    using assms(2) by (auto simp: cut_wid_def u2_fly_is_cat_def)
  moreover have "?x < 2 ^ (c * 2 ^ a)" if "met a d - b \<le> c"
  proof -
    have "(2::nat) ^ ((met a d - b) * 2 ^ a) \<le> 2 ^ (c * 2 ^ a)"
      using that by (intro power_increasing mult_le_mono1) simp_all
    then show ?thesis using x by linarith
  qed
  ultimately show ?thesis using x by (auto simp: take_bit_eq_mod drop_bit_eq_div)
qed

lemma unat_cut_wid:
  assumes "a < 32" "u2_fly_is_cat b" "atom_fits d" "b < met a d"
  shows "unat (if of_nat b + of_nat (cut_max c) > u2_met a d then u2_met a d - of_nat b
    else (of_nat (cut_max c) :: c3_w)) = cut_wid a b c d"
proof -
  have b: "unat (of_nat b :: c3_w) = b" and c: "unat (of_nat (cut_max c) :: c3_w) = cut_max c"
    using assms(2) by (simp_all add: unat_of_nat_c3_w u2_fly_is_cat_def)
  moreover have "unat (of_nat b + of_nat (cut_max c) :: c3_w) = b + cut_max c"
    using b c assms(2) by (subst unat_add_c3_w) (auto simp: u2_fly_is_cat_def)
  ultimately show ?thesis
    using assms(1,3,4) unfolding cut_wid_def word_less_nat_alt by (simp add: unat_sub_c3_w)
qed

lemma cut_correct:
  assumes "a < 32" "u2_fly_is_cat b" "u2_fly_is_cat c \<or> met a d - b < 2 ^ 31" "atom_fits d"
    and "(met a d - b) * 2 ^ a + 31 < 2 ^ 32"
  shows "j2_mbc_cut a b c d = Inr (Some (Atom (d div 2 ^ (b * 2 ^ a) mod 2 ^ (c * 2 ^ a))))"
proof (cases "met a d \<le> b \<or> c = 0")
  case True
  then have "d div 2 ^ (b * 2 ^ a) mod 2 ^ (c * 2 ^ a) = 0" by (auto simp: met_le_iff mult.commute)
  moreover have "unat (of_nat b :: c3_w) = b"
    using assms(2) by (simp add: unat_of_nat_c3_w u2_fly_is_cat_def)
  ultimately show ?thesis
    using True assms(1,2,4) by (auto simp: j2_mbc_cut_def Let_def word_le_nat_alt u2_fly_is_cat_def)
next
  case False
  define c1 where "c1 = cut_max c"
  define c_w where "c_w = (if of_nat b + of_nat c1 > u2_met a d then u2_met a d - of_nat b
    else (of_nat c1 :: c3_w))"
  have lt: "b < met a d" using False by simp
  have b: "unat (of_nat b :: c3_w) = b" and c: "(of_nat c1 :: c3_w) \<noteq> 0"
    using assms(2) False
    by (simp_all add: unat_of_nat_c3_w u2_fly_is_cat_def unat_eq_0 [symmetric] c1_def)
  have w: "unat c_w = cut_wid a b c d"
    unfolding c_w_def c1_def using unat_cut_wid assms(1,2,4) lt by blast
  have le: "b + cut_wid a b c d \<le> met a d" using lt by (simp add: cut_wid_def)
  have "cut_wid a b c d * 2 ^ a \<le> (met a d - b) * 2 ^ a" using le by (intro mult_le_mono1) simp
  then have small: "cut_wid a b c d * 2 ^ a + 31 < 2 ^ 32" using assms(5) by linarith
  obtain sal where sal: "u2_chop a (of_nat b) c_w 0 (u2_rl_slaq a c_w) d = Inr sal"
    "words_atom sal = take_bit (cut_wid a b c d * 2 ^ a) (drop_bit (b * 2 ^ a) d)"
    using chop_slaq [of d a "of_nat b" c_w c_w 0] assms(1,4) b w le small by auto
  have all: "take_bit (cut_wid a b c d * 2 ^ a) (drop_bit (b * 2 ^ a) d) = d" if "of_nat b = (0 :: c3_w)" "c_w = u2_met a d"
    using that w b assms(1,4) take_met [of a d] by simp
  have "j2_mbc_cut a b c d = (if of_nat b = (0 :: c3_w) \<and> c_w = u2_met a d then Inr (Some (Atom d))
     else rbind (u2_chop a (of_nat b) c_w 0 (u2_rl_slaq a c_w) d) (\<lambda>sal. Inr (Some (rep_noun (u2_rl_malt sal)))))"
    unfolding c_w_def using assms(1,2,4) b c lt 
    by (simp add: j2_mbc_cut_def Let_def word_le_nat_alt not_le flip: c1_def)
  then show ?thesis
    using sal all cut_wid_value [OF lt assms(3)] by auto
qed

lemma met_correct:
  assumes "atom_fits b"
  shows "j2_mbc_met a b = Inr (Some (Atom (met a b)))"
proof (cases "a < 32")
  case True
  have "rep_noun (rep_of n) = Atom n" for n by (simp add: rep_noun_def)
  moreover have "atom_fits (met a b)"
  proof -
    have "nbits (met a b) \<le> 32" using unat_c3_w [of "u2_met a b"] True assms by (simp add: nbits_le_iff)
    then show ?thesis by (simp add: atom_fits_def length_atom_words div_less_iff_less_mult)
  qed
  ultimately show ?thesis
    using True assms by (simp add: j2_mbc_met_def Let_def u2_rl_words_correct)
next
  case False
  have "met a b = 1" if "b \<noteq> 0"
  proof -
    have "(2::nat) ^ 32 \<le> 2 ^ a" using False by (intro power_increasing) simp_all
    then have "nbits b \<le> 2 ^ a" using atom_fits_nbits [OF assms] by linarith
    then have "met a b \<le> 1" by (simp add: met_le_iff nbits_le_iff)
    then show ?thesis using that met_eq_0 [of a b] by linarith
  qed
  then show ?thesis using False by (simp add: j2_mbc_met_def)
qed

text \<open>
  A chop by words either writes outside the slab or has had every word it writes inside it.
\<close>

lemma chop_span_bounds:
  assumes "atom_fits src"
  shows "chop_span n j wuf wut (chop_len src) src dst = Inl Wild \<or>
    (\<exists>dst'. chop_span n j wuf wut (chop_len src) src dst = Inr dst' \<and> length dst' = length dst \<and>
      (\<forall>k<n. unat (wut + (j + of_nat k)) < length dst))"
proof (induction n arbitrary: j dst)
  case (Suc n)
  let ?dst = "dst[unat (wut + j) := dst ! unat (wut + j) XOR u2_word (wuf + j) src]"
  have step: "chop_span (Suc n) j wuf wut (chop_len src) src dst =
      (if unat (wut + j) < length dst then chop_span n (j + 1) wuf wut (chop_len src) src ?dst else Inl Wild)"
    by (simp only: chop_span.simps chop_src_word [OF assms] slab_xor_def) simp
  have "unat (wut + (j + of_nat k)) < length dst"
    if "k < Suc n" "unat (wut + j) < length dst" "\<forall>k<n. unat (wut + (j + 1 + of_nat k)) < length dst" for k
    using that by (cases k) (auto simp: algebra_simps)
  then show ?case unfolding step using Suc.IH [of "j + 1" ?dst] by auto
qed simp

lemma chop_bloqs_bounds:
  assumes "atom_fits src"
  shows "chop_bloqs n i h fum tou (chop_len src) src dst = Inl Wild \<or>
    (\<exists>dst'. chop_bloqs n i h fum tou (chop_len src) src dst = Inr dst' \<and> length dst' = length dst \<and>
      (\<forall>k<n. \<forall>l<2 ^ h. unat (push_bit h (tou + (i + of_nat k)) + of_nat l) < length dst))"
proof (induction n arbitrary: i dst)
  case (Suc n)
  have "unat (push_bit h (tou + (i + of_nat k)) + of_nat l) < length dst"
    if "k < Suc n" "l < 2 ^ h" "\<forall>l<2 ^ h. unat (push_bit h (tou + i) + of_nat l) < length dst"
      "\<forall>k<n. \<forall>l<2 ^ h. unat (push_bit h (tou + (i + 1 + of_nat k)) + of_nat l) < length dst" for k l
    using that by (cases k) (auto simp: algebra_simps)
  note rest = this
  let ?next = "\<lambda>dst. chop_bloqs n (i + 1) h fum tou (chop_len src) src dst"
  from chop_span_bounds [OF assms, of "2 ^ h" 0 "push_bit h (fum + i)" "push_bit h (tou + i)" dst] show ?case
  proof (elim disjE exE conjE)
    fix dst1 assume span: "chop_span (2 ^ h) 0 (push_bit h (fum + i)) (push_bit h (tou + i)) (chop_len src) src dst = Inr dst1"
      "length dst1 = length dst" "\<forall>k<2 ^ h. unat (push_bit h (tou + i) + (0 + of_nat k)) < length dst"
    then have "chop_bloqs (Suc n) i h fum tou (chop_len src) src dst = ?next dst1" by (simp add: Let_def)
    then show ?thesis using Suc.IH [of "i + 1" dst1] span rest by fastforce
  qed (simp add: Let_def)
qed simp

lemma slaq_wraps:
  assumes "unat len = n" "5 \<le> a"
  shows "length (u2_rl_slaq a len) = n * 2 ^ (a - 5) mod 2 ^ 27"
proof -
  obtain h where a: "a = 5 + h" using assms(2) le_Suc_ex by blast
  have "push_bit a len = of_nat (n * 2 ^ a)" using assms(1) by (auto simp: push_bit_eq_mult)
  then have "unat (push_bit a len) = n * 2 ^ a mod 2 ^ 32" by (simp add: unat_of_nat del: of_nat_mult)
  also have "\<dots> = 32 * (n * 2 ^ h mod 2 ^ 27)" by (simp add: a power_add mult_mod_right ac_simps)
  finally have p: "unat (push_bit a len) = 32 * (n * 2 ^ h mod 2 ^ 27)" .
  have "n * 2 ^ h mod 2 ^ 27 < 2 ^ 27" by simp
  then have "unat (push_bit a len + 31) = 32 * (n * 2 ^ h mod 2 ^ 27) + 31"
    using p by (simp add: unat_add_c3_w)
  then show ?thesis by (simp add: u2_rl_slaq_def u2_rl_slab_def unat_drop_c3_w a)
qed

lemma lsh_wild:
  assumes "5 \<le> a" "a < 32" "u2_fly_is_cat b" "atom_fits c" "c \<noteq> 0"
    and W: "2 ^ 27 \<le> (b + met a c) * 2 ^ (a - 5)" "(b + met a c) * 2 ^ (a - 5) \<le> 2 ^ 32"
  shows "j2_mbc_lsh a b c = Inl Wild"
proof -
  define h m where "h = a - 5" and "m = met a c"
  note V = W [folded h_def m_def]
  let ?sal = "u2_rl_slaq a (of_nat b + u2_met a c)"
  have m: "unat (u2_met a c) = m" "0 < m" using assms(2,4) by (simp_all add: m_def) (use assms(5) met_eq_0 [of a c] in linarith)
  have b: "unat (of_nat b :: c3_w) = b" using assms(3) by (simp add: unat_of_nat_c3_w u2_fly_is_cat_def)
  have "(2::nat) ^ 30 * 2 ^ 5 \<le> 2 ^ 30 * 2 ^ a" using assms(1) by (intro mult_le_mono2 power_increasing) simp_all
  then have "nbits c \<le> 2 ^ a * 2 ^ 30" using atom_fits_nbits [OF assms(4)] by simp
  then have "m \<le> 2 ^ 30" by (simp only: m_def met_le_iff nbits_le_iff)
  then have sum: "b + m < 2 ^ 32" using assms(3) by (simp add: u2_fly_is_cat_def)
  then have len: "unat (of_nat b + u2_met a c) = b + m" using m b by (simp add: unat_add_c3_w)
  have slab: "length ?sal = (b + m) * 2 ^ h mod 2 ^ 27" using slaq_wraps [OF len assms(1)] by (simp add: h_def)
  have "(b + m - 1) * 2 ^ h + 2 ^ h = (b + m) * 2 ^ h" using m(2) by (cases m) (simp_all add: algebra_simps)
  moreover have pos: "(0::nat) < 2 ^ h" by simp
  ultimately have W': "(b + m - 1) * 2 ^ h < 2 ^ 32" "(b + m - 1) * 2 ^ h + (2 ^ h - 1) = (b + m) * 2 ^ h - 1"
    using V(2) by linarith+
  obtain k where k: "m = Suc k" using m(2) by (cases m) auto
  have "unat (of_nat k :: c3_w) = k" using sum k by (intro unat_of_nat_c3_w) linarith
  then have "unat (of_nat b + of_nat k :: c3_w) = b + m - 1" using sum k b by (simp add: unat_add_c3_w)
  then have "unat (push_bit h (of_nat b + of_nat k :: c3_w)) = (b + m - 1) * 2 ^ h"
    using W'(1) by (simp add: unat_push_c3_w)
  moreover have "(2::nat) ^ h - 1 < 2 ^ 32" using W' V(2) pos by linarith
  then have "unat (of_nat (2 ^ h - 1) :: c3_w) = 2 ^ h - 1" by (rule unat_of_nat_c3_w)
  ultimately have idx: "unat (push_bit h (of_nat b + of_nat k) + of_nat (2 ^ h - 1) :: c3_w) = (b + m) * 2 ^ h - 1"
    using W' V by (subst unat_add_c3_w) linarith+
  have "length ?sal < 2 ^ 27" unfolding slab by simp
  then have out: "\<not> unat (push_bit h (of_nat b + (0 + of_nat k)) + of_nat (2 ^ h - 1) :: c3_w) < length ?sal"
    unfolding add_0 idx using V(1) by linarith
  have "k < m" "(2::nat) ^ h - 1 < 2 ^ h" using k pos by simp_all
  then have "chop_bloqs m 0 h 0 (of_nat b) (chop_len c) c ?sal = Inl Wild"
    using chop_bloqs_bounds [OF assms(4), of m 0 h 0 "of_nat b" ?sal] out by blast
  then show ?thesis
    using assms(1-3) m sum len b by (auto simp: j2_mbc_lsh_def bloq_bad_def u2_chop_def Let_def h_def word_less_nat_alt u2_met_eq_0)
qed

context gmp_laws
begin

lemma mbc_bex: "j2_mbc_bex G a = (if u2_fly_is_cat a then atom_weak (2 ^ a) else Inl (Bail c3__fail))"
proof -
  have "val (mpz_mul_2exp G (mpz_init_set_ui G 1) a) = int (2 ^ a)" by (simp add: mul_2exp val_set_ui)
  then show ?thesis
    using u2_rl_mp_val by (simp add: j2_mbc_bex_def u2_bl_bail_def)
qed

end

section \<open>Properties\<close>

text \<open>
  C32: the bloq jets \<^verbatim>\<open>lsh\<close>, \<^verbatim>\<open>rsh\<close>, \<^verbatim>\<open>end\<close> and \<^verbatim>\<open>cat\<close> are multiplication, division, remainder and
  concatenation by powers of two, and stay inside their slabs, for every bloq size below 32 as
  long as the bits of the result can be counted in a word.
\<close>

theorem jets_bloqs:
  assumes "a < 32" "u2_fly_is_cat b" "atom_fits c" "(b + met a c) * 2 ^ a + 31 < 2 ^ 32"
    and "atom_fits d" "(met a d + met a c) * 2 ^ a + 31 < 2 ^ 32"
  shows "j2_mbc_lsh a b c = Inr (Some (Atom (c * 2 ^ (b * 2 ^ a)))) \<and>
    j2_mbc_rsh a b c = Inr (Some (Atom (c div 2 ^ (b * 2 ^ a)))) \<and>
    j2_mbc_end a b c = Inr (Some (Atom (c mod 2 ^ (b * 2 ^ a)))) \<and>
    j2_mbc_cat a d c = Inr (Some (Atom (d + c * 2 ^ (met a d * 2 ^ a))))"
proof -
  have "(met a c - b) * 2 ^ a \<le> (b + met a c) * 2 ^ a" by (intro mult_le_mono1) simp
  then have "(met a c - b) * 2 ^ a + 31 < 2 ^ 32" using assms(4) by linarith
  then show ?thesis
    using assms lsh_correct rsh_correct end_correct cat_correct by blast
qed

theorem jets_bloqs_witness:
  "j2_mbc_lsh 3 2 0x1234 = Inr (Some (Atom (0x1234 * 2 ^ (2 * 2 ^ 3)))) \<and>
    j2_mbc_rsh 3 2 0x1234 = Inr (Some (Atom (0x1234 div 2 ^ (2 * 2 ^ 3)))) \<and>
    j2_mbc_end 3 2 0x1234 = Inr (Some (Atom (0x1234 mod 2 ^ (2 * 2 ^ 3)))) \<and>
    j2_mbc_cat 3 0x56 0x1234 = Inr (Some (Atom (0x56 + 0x1234 * 2 ^ (met 3 0x56 * 2 ^ 3))))"
  by (rule jets_bloqs) (simp_all add: atom_fits_def atom_words_pos u2_fly_is_cat_def met_def nbits_pos)

text \<open>
  \<^verbatim>\<open>cut\<close> takes a range of bloqs out of an atom, also when the range reaches past its end or
  its width is not a direct atom.
\<close>

theorem jet_cut:
  assumes "a < 32" "u2_fly_is_cat b" "u2_fly_is_cat c \<or> met a d - b < 2 ^ 31" "atom_fits d"
    and "(met a d - b) * 2 ^ a + 31 < 2 ^ 32"
  shows "j2_mb_cut (gate bat (Cell (Atom a) (Cell (Cell (Atom b) (Atom c)) (Atom d))) con) =
    Inr (Some (Atom (d div 2 ^ (b * 2 ^ a) mod 2 ^ (c * 2 ^ a))))"
  using cut_correct [OF assms] by (simp add: j2_mb_cut_def)

theorem jet_cut_witness:
  "j2_mb_cut (gate (Atom 0) (Cell (Atom 3) (Cell (Cell (Atom 1) (Atom 2)) (Atom 0x12345678))) (Atom 0)) =
    Inr (Some (Atom (0x12345678 div 2 ^ (1 * 2 ^ 3) mod 2 ^ (2 * 2 ^ 3))))"
  by (rule jet_cut) (simp_all add: atom_fits_def atom_words_pos u2_fly_is_cat_def met_def nbits_pos)

text \<open>
  C35: the size of a slab is computed in 32 bits without a check. From bloqs of a word up, every left shift
  whose result has at least \<open>2\<^sup>2\<^sup>7\<close> and at most \<open>2\<^sup>3\<^sup>2\<close> words passes the overflow test of \<^verbatim>\<open>lsh\<close>,
  gets from \<^verbatim>\<open>u2_rl_slaq\<close> a slab whose length is the number of words modulo \<open>2\<^sup>2\<^sup>7\<close>, and writes outside it.
\<close>

theorem lsh_slab_overflow:
  assumes "5 \<le> a" "a < 32" "u2_fly_is_cat b" "atom_fits c" "c \<noteq> 0"
    and "2 ^ 27 \<le> (b + met a c) * 2 ^ (a - 5)" "(b + met a c) * 2 ^ (a - 5) \<le> 2 ^ 32"
  shows "j2_mb_lsh (gate bat (Cell (Atom a) (Cell (Atom b) (Atom c))) con) = Inl Wild"
  using lsh_wild [OF assms] by (simp add: j2_mb_lsh_def)

theorem lsh_slab_overflow_witness:
  "j2_mb_lsh (gate (Atom 0) (Cell (Atom 5) (Cell (Atom (2 ^ 27 - 1)) (Atom 1))) (Atom 0)) = Inl Wild"
  by (rule lsh_slab_overflow) (simp_all add: u2_fly_is_cat_def cat_fits met_5 atom_words_pos)

end
