(* ===== verification/Bitwise.thy ===== *)
theory Bitwise
  imports Jets3
begin

text \<open>
  The rest of the bit arithmetic of \<^verbatim>\<open>gen164/3\<close>: the bitwise operations \<^verbatim>\<open>con\<close>, \<^verbatim>\<open>dis\<close> and
  \<^verbatim>\<open>mix\<close>, which combine the words of two atoms in a slab, and the axis arithmetic \<^verbatim>\<open>cap\<close>, \<^verbatim>\<open>mas\<close>
  and \<^verbatim>\<open>peg\<close>, which agrees with tree addressing.
\<close>

section \<open>Bitwise operations\<close>

text \<open>The loop that combines the words of a slab with the words of an atom.\<close>

primrec slab_loop ::
  "(c3_w \<Rightarrow> c3_w \<Rightarrow> c3_w) \<Rightarrow> (c3_w \<Rightarrow> c3_w res) \<Rightarrow> nat \<Rightarrow> c3_w \<Rightarrow> c3_w list \<Rightarrow> c3_w list res" where
  "slab_loop opr src 0 i_w sal = Inr sal"
| "slab_loop opr src (Suc n) i_w sal =
     rbind (src i_w) (\<lambda>x.
       if unat i_w < length sal
       then slab_loop opr src n (i_w + 1) (sal[unat i_w := opr (sal ! unat i_w) x])
       else Inl Wild)"

definition j2_mbc_con :: "nat \<Rightarrow> nat \<Rightarrow> u2_weak res" where
  "j2_mbc_con a b =
     (let lna_w = u2_met 5 a; lnb_w = u2_met 5 b
      in if lna_w = 0 \<and> lnb_w = 0 then Inr (Some (Atom 0))
         else rbind (u2_chop 5 0 lna_w 0 (u2_rl_slab (max lna_w lnb_w)) a) (\<lambda>sal.
              rbind (slab_loop (OR) (u2_atom_word b) (unat lnb_w) 0 sal) (\<lambda>sal.
                Inr (Some (rep_noun (u2_rl_malt sal))))))"

definition j2_mb_con :: "noun \<Rightarrow> u2_weak res" where
  "j2_mb_con cor = sam_atoms2 cor j2_mbc_con"

definition j2_mbc_dis :: "nat \<Rightarrow> nat \<Rightarrow> u2_weak res" where
  "j2_mbc_dis a b =
     (let lna_w = u2_met 5 a; lnb_w = u2_met 5 b
      in if lna_w = 0 \<and> lnb_w = 0 then Inr (Some (Atom 0))
         else let len_w = max lna_w lnb_w
              in rbind (u2_chop 5 0 lna_w 0 (u2_rl_slab len_w) a) (\<lambda>sal.
                 rbind (slab_loop (AND) (\<lambda>i_w. if i_w \<ge> lnb_w then Inr 0 else u2_atom_word b i_w)
                          (unat len_w) 0 sal) (\<lambda>sal.
                   Inr (Some (rep_noun (u2_rl_malt sal))))))"

definition j2_mb_dis :: "noun \<Rightarrow> u2_weak res" where
  "j2_mb_dis cor = sam_atoms2 cor j2_mbc_dis"

definition j2_mbc_mix :: "nat \<Rightarrow> nat \<Rightarrow> u2_weak res" where
  "j2_mbc_mix a b =
     (let lna_w = u2_met 5 a; lnb_w = u2_met 5 b
      in if lna_w = 0 \<and> lnb_w = 0 then Inr (Some (Atom 0))
         else rbind (u2_chop 5 0 lna_w 0 (u2_rl_slab (max lna_w lnb_w)) a) (\<lambda>sal.
              rbind (slab_loop (XOR) (u2_atom_word b) (unat lnb_w) 0 sal) (\<lambda>sal.
                Inr (Some (rep_noun (u2_rl_malt sal))))))"

definition j2_mb_mix :: "noun \<Rightarrow> u2_weak res" where
  "j2_mb_mix cor = sam_atoms2 cor j2_mbc_mix"

lemma slab_loop_from:
  assumes "\<forall>j < k + n. k \<le> j \<longrightarrow> src (of_nat j) = Inr (f j)" "k + n \<le> length sal" "k + n < 2 ^ 32"
  shows "\<exists>sal'. slab_loop opr src n (of_nat k) sal = Inr sal' \<and> length sal' = length sal \<and>
    (\<forall>j < length sal. sal' ! j = (if k \<le> j \<and> j < k + n then opr (sal ! j) (f j) else sal ! j))"
  using assms
proof (induction n arbitrary: k sal)
  case (Suc n)
  have k: "unat (of_nat k :: c3_w) = k" using Suc.prems(3) by (intro unat_of_nat_c3_w) simp
  let ?sal = "sal[k := opr (sal ! k) (f k)]"
  obtain sal' where "slab_loop opr src n (of_nat (Suc k)) ?sal = Inr sal'" "length sal' = length ?sal"
    and nth: "\<forall>j < length ?sal. sal' ! j = (if Suc k \<le> j \<and> j < Suc k + n then opr (?sal ! j) (f j) else ?sal ! j)"
    using Suc.IH [of "Suc k" ?sal] Suc.prems by auto
  moreover have "slab_loop opr src (Suc n) (of_nat k) sal = slab_loop opr src n (of_nat (Suc k)) ?sal"
    using Suc.prems(1,2) by (simp add: k add.commute)
  moreover have "sal' ! j = (if k \<le> j \<and> j < k + Suc n then opr (sal ! j) (f j) else sal ! j)"
    if "j < length sal" for j
    using nth that by (cases "j = k") auto
  ultimately show ?case by auto
qed auto

lemma atom_word_nth:
  "i < length (atom_words b) \<Longrightarrow> atom_fits b \<Longrightarrow> u2_atom_word b (of_nat i) = Inr (atom_words b ! i)"
  by (auto simp: u2_atom_word_def u2_pug_buf_def atom_words_cat unat_of_nat_c3_w atom_fits_def split: if_splits)

lemma chop_slab:
  assumes "atom_fits a" "met 5 a \<le> unat len"
  obtains sal where "u2_chop 5 0 (u2_met 5 a) 0 (u2_rl_slab len) a = Inr sal"
    "length sal = unat len" "words_atom sal = a"
proof -
  have "bloq_span 5 (met 5 a)" using bloq_span_met [OF assms(1) _ order_refl] by simp
  then show thesis
    using u2_chop_correct [of a 5 0 "u2_met 5 a" 0 "u2_rl_slab len"] assms that take_met [of 5 a]
    by (auto simp: chopped_def u2_rl_slab_def)
qed

lemma met_5_small: "atom_fits a \<Longrightarrow> met 5 a < 2 ^ 27"
  by (simp add: met_5 atom_fits_def)

lemma unat_max: "unat (max a b :: c3_w) = max (unat a) (unat b)"
  by (simp add: max_def word_le_nat_alt)

lemma slab_loop_bits:
  assumes "words_atom sal = a" "length sal = len" "n \<le> len" "len < 2 ^ 32"
    and "\<forall>j < n. src (of_nat j) = Inr (f j)"
  obtains sal' where "slab_loop opr src n 0 sal = Inr sal'"
    "\<And>j. bit (words_atom sal') j = (j div 32 < len \<and>
       bit (if j div 32 < n then opr (sal ! (j div 32)) (f (j div 32)) else sal ! (j div 32)) (j mod 32))"
    "\<And>j. bit a j = (j div 32 < len \<and> bit (sal ! (j div 32)) (j mod 32))"
proof -
  obtain sal' where "slab_loop opr src n (of_nat 0) sal = Inr sal'" "length sal' = length sal"
    "\<forall>j < length sal. sal' ! j = (if 0 \<le> j \<and> j < 0 + n then opr (sal ! j) (f j) else sal ! j)"
    using slab_loop_from [of 0 n src f sal opr] assms by auto
  then show thesis using assms(1,2) by (intro that [of sal']) (auto simp: bit_words_atom)
qed

lemma mix_con_correct:
  assumes "atom_fits a" "atom_fits b"
  shows con_correct: "j2_mbc_con a b = Inr (Some (Atom (a OR b)))"
    and mix_correct: "j2_mbc_mix a b = Inr (Some (Atom (a XOR b)))"
proof -
  let ?la = "u2_met 5 a" and ?lb = "u2_met 5 b"
  have len: "unat (max ?la ?lb) = max (met 5 a) (met 5 b)" using assms by (simp add: unat_max)
  then obtain sal where sal: "u2_chop 5 0 ?la 0 (u2_rl_slab (max ?la ?lb)) a = Inr sal"
      "length sal = max (met 5 a) (met 5 b)" "words_atom sal = a"
    using chop_slab [OF assms(1), of "max ?la ?lb"] by auto
  have src: "\<forall>j < met 5 b. u2_atom_word b (of_nat j) = Inr (atom_words b ! j)"
    using assms(2) by (simp add: met_5 atom_word_nth)
  have small: "max (met 5 a) (met 5 b) < 2 ^ 32"
    using met_5_small [OF assms(1)] met_5_small [OF assms(2)] by simp
  note loop = slab_loop_bits [OF sal(3,2) max.cobounded2 small src]
  have bits: "bit b j = (j div 32 < met 5 b \<and> bit (atom_words b ! (j div 32)) (j mod 32))" for j
    using bit_words_atom [of "atom_words b" j] by (simp add: met_5)
  have "\<exists>s. slab_loop (OR) (u2_atom_word b) (met 5 b) 0 sal = Inr s \<and> words_atom s = a OR b"
    by (rule loop [of "(OR)"]) (force simp: bit_eq_iff bit_simps bits)
  moreover have "\<exists>s. slab_loop (XOR) (u2_atom_word b) (met 5 b) 0 sal = Inr s \<and> words_atom s = a XOR b"
    by (rule loop [of "(XOR)"]) (force simp: bit_eq_iff bit_simps bits)
  ultimately obtain s1 s2
    where s1: "slab_loop (OR) (u2_atom_word b) (met 5 b) 0 sal = Inr s1" "words_atom s1 = a OR b"
      and s2: "slab_loop (XOR) (u2_atom_word b) (met 5 b) 0 sal = Inr s2" "words_atom s2 = a XOR b"
    by blast
  have zero: "?la = 0 \<longleftrightarrow> a = 0" "?lb = 0 \<longleftrightarrow> b = 0" using assms by (simp_all add: u2_met_eq_0)
  show "j2_mbc_con a b = Inr (Some (Atom (a OR b)))"
    using sal(1) s1 assms(2) by (simp add: j2_mbc_con_def Let_def zero)
  show "j2_mbc_mix a b = Inr (Some (Atom (a XOR b)))"
    using sal(1) s2 assms(2) by (simp add: j2_mbc_mix_def Let_def zero)
qed

lemma dis_correct:
  assumes "atom_fits a" "atom_fits b"
  shows "j2_mbc_dis a b = Inr (Some (Atom (a AND b)))"
proof -
  let ?la = "u2_met 5 a" and ?lb = "u2_met 5 b"
  let ?src = "\<lambda>i_w. if i_w \<ge> ?lb then Inr 0 else u2_atom_word b i_w"
  let ?len = "max (met 5 a) (met 5 b)"
  have len: "unat (max ?la ?lb) = ?len" using assms by (simp add: unat_max)
  then obtain sal where sal: "u2_chop 5 0 ?la 0 (u2_rl_slab (max ?la ?lb)) a = Inr sal"
      "length sal = ?len" "words_atom sal = a"
    using chop_slab [OF assms(1), of "max ?la ?lb"] by auto
  have small: "?len < 2 ^ 32"
    using met_5_small [OF assms(1)] met_5_small [OF assms(2)] by simp
  have src: "\<forall>j < ?len. ?src (of_nat j) = Inr (if j < met 5 b then atom_words b ! j else 0)"
  proof (intro allI impI)
    fix j assume "j < ?len"
    then have "unat (of_nat j :: c3_w) = j" using small by (intro unat_of_nat_c3_w) linarith
    then show "?src (of_nat j) = Inr (if j < met 5 b then atom_words b ! j else 0)"
      using assms(2) by (simp add: word_le_nat_alt met_5 atom_word_nth)
  qed
  have bits: "bit b j = (j div 32 < met 5 b \<and> bit (atom_words b ! (j div 32)) (j mod 32))" for j
    using bit_words_atom [of "atom_words b" j] by (simp add: met_5)
  have "\<exists>s. slab_loop (AND) ?src ?len 0 sal = Inr s \<and> words_atom s = a AND b"
    by (rule slab_loop_bits [OF sal(3,2) order_refl small src, of "(AND)"])
      (force simp: bit_eq_iff bit_simps bits)
  then show ?thesis
    using sal(1) len assms by (auto simp: j2_mbc_dis_def Let_def u2_met_eq_0)
qed

section \<open>Axis arithmetic\<close>

definition j2_mbc_cap :: "nat \<Rightarrow> u2_weak res" where
  "j2_mbc_cap a =
     (let met_w = u2_met 0 a
      in if met_w < 2 then u2_bl_bail c3__exit
         else if u2_bit (met_w - 2) a = 1 then Inr (Some (Atom 3))
         else Inr (Some (Atom 2)))"

definition j2_mb_cap :: "noun \<Rightarrow> u2_weak res" where
  "j2_mb_cap cor = sam_atom cor j2_mbc_cap"

definition j2_mbc_mas :: "'m gmp \<Rightarrow> nat \<Rightarrow> u2_weak res" where
  "j2_mbc_mas G a =
     (let b_w = u2_met 0 a
      in if b_w < 2 then u2_bl_bail c3__exit
         else rbind (j2_mbc_bex G (unat (b_w - 1))) (\<lambda>c.
              rbind (j2_mbc_bex G (unat (b_w - 2))) (\<lambda>d.
              rbind (rbind (atom_arg c) (\<lambda>c. j2_mbc_sub G a c)) (\<lambda>e.
              rbind (atom_arg e) (\<lambda>e. rbind (atom_arg d) (\<lambda>d. j2_mbc_con e d))))))"

definition j2_mb_mas :: "'m gmp \<Rightarrow> noun \<Rightarrow> u2_weak res" where
  "j2_mb_mas G cor = sam_atom cor (j2_mbc_mas G)"

definition j2_mbc_peg :: "'m gmp \<Rightarrow> nat \<Rightarrow> nat \<Rightarrow> u2_weak res" where
  "j2_mbc_peg G a b =
     rbind (cat_noun (u2_met 0 b)) (\<lambda>c.
     rbind (j2_mbc_dec G c) (\<lambda>d.
     rbind (atom_arg d) (\<lambda>d.
     rbind (j2_mbc_lsh 0 d 1) (\<lambda>e.
     rbind (atom_arg e) (\<lambda>e.
     rbind (j2_mbc_sub G b e) (\<lambda>f.
     rbind (j2_mbc_lsh 0 d a) (\<lambda>g.
     rbind (atom_arg f) (\<lambda>f.
     rbind (atom_arg g) (\<lambda>g. j2_mbc_add G f g)))))))))"

definition j2_mb_peg :: "'m gmp \<Rightarrow> noun \<Rightarrow> u2_weak res" where
  "j2_mb_peg G cor =
     sam_atoms2 cor (\<lambda>a b. if a = 0 \<or> b = 0 then u2_bl_bail c3__exit else j2_mbc_peg G a b)"

lemma two_le_nbits: "2 \<le> a \<longleftrightarrow> 2 \<le> nbits a"
  using nbits_less_iff [of 1 a] by auto

lemma ax_cap_bit:
  assumes "2 \<le> a"
  shows "ax_cap a = (if bit a (nbits a - 2) then 3 else 2)"
  using ax_cap_mas(2) [OF assms] by (auto simp: ax_cap_def bit_iff_odd)

lemma cap_correct:
  assumes "atom_fits a"
  shows "j2_mbc_cap a = (if 2 \<le> a then Inr (Some (Atom (ax_cap a))) else Inl (Bail c3__exit))"
proof -
  have met: "unat (u2_met 0 a) = nbits a" using assms by simp
  have guard: "u2_met 0 a < 2 \<longleftrightarrow> \<not> 2 \<le> a"
    using met two_le_nbits [of a] by (simp add: word_less_nat_alt not_le)
  have "u2_bit (u2_met 0 a - 2) a = of_bool (bit a (nbits a - 2))" if "2 \<le> a"
  proof -
    have "unat (u2_met 0 a - 2) = nbits a - 2"
      using that met two_le_nbits [of a] by (subst unat_sub_c3_w) simp_all
    then show ?thesis using assms by (simp add: u2_bit_correct)
  qed
  then show ?thesis
    by (auto simp: j2_mbc_cap_def Let_def guard ax_cap_bit u2_bl_bail_def)
qed

lemma mas_bits:
  assumes "2 \<le> a"
  shows "(a - 2 ^ (nbits a - 1)) OR 2 ^ (nbits a - 2) = ax_mas a"
proof (rule bit_eqI)
  fix i
  define k where "k = nbits a - 2"
  have n: "nbits a = Suc (Suc k)" using two_le_nbits [of a] assms by (simp add: k_def)
  have "a - 2 ^ Suc k = a mod 2 ^ Suc k" using ax_split [of a] assms n by simp
  then have "a - 2 ^ Suc k = take_bit (Suc k) a" by (simp add: take_bit_eq_mod)
  then have "bit ((a - 2 ^ Suc k) OR 2 ^ k) i = (i < k \<and> bit a i \<or> i = k)"
    by (auto simp: bit_simps less_Suc_eq)
  moreover have "bit (ax_mas a) i = (if i < k then bit a i else i = k)"
  proof -
    have "bit (ax_mas a) i = (if i < k then bit (a mod 2 ^ k) i else bit (1::nat) (i - k))"
      using bit_add_disjoint [of "a mod 2 ^ k" k 1 i] by (simp add: ax_mas_def k_def)
    then show ?thesis by (auto simp: bit_1_iff bit_take_bit_iff simp del: One_nat_def simp flip: take_bit_eq_mod)
  qed
  ultimately show "bit ((a - 2 ^ (nbits a - 1)) OR 2 ^ (nbits a - 2)) i = bit (ax_mas a) i"
    by (auto simp: n)
qed

context gmp_laws
begin

lemma mbc_mas:
  assumes "atom_fits a" "nbits a \<le> 2 ^ 31"
  shows "j2_mbc_mas G a = (if 2 \<le> a then Inr (Some (Atom (ax_mas a))) else Inl (Bail c3__exit))"
proof (cases "2 \<le> a")
  case True
  define n where "n = nbits a"
  have n2: "2 \<le> n" using True two_le_nbits by (simp add: n_def)
  have met: "unat (u2_met 0 a) = n" using assms(1) by (simp add: n_def)
  then have w: "unat (u2_met 0 a - 1) = n - 1" "unat (u2_met 0 a - 2) = n - 2"
    using n2 unat_sub_c3_w [of 1 "u2_met 0 a"] unat_sub_c3_w [of 2 "u2_met 0 a"] by simp_all
  have le: "2 ^ (n - 1) \<le> a" using nbits_less_iff [of "n - 1" a] n2 by (simp add: n_def)
  have le2: "(2::nat) ^ (n - 2) \<le> 2 ^ (n - 1)" by (intro power_increasing) simp_all
  have fits: "atom_fits (2 ^ (n - 1))" "atom_fits (2 ^ (n - 2))" "atom_fits (a - 2 ^ (n - 1))"
    using atom_fits_mono [OF le assms(1)] atom_fits_mono [OF order_trans [OF le2 le] assms(1)]
      atom_fits_mono [OF diff_le_self assms(1)] by simp_all
  have cat: "u2_fly_is_cat (n - 1)" "u2_fly_is_cat (n - 2)"
    using assms(2) n2 by (simp_all add: u2_fly_is_cat_def n_def)
  have "j2_mbc_mas G a = j2_mbc_con (a - 2 ^ (n - 1)) (2 ^ (n - 2))"
    using n2 met w cat fits le assms(1)
    by (simp add: j2_mbc_mas_def Let_def word_less_nat_alt mbc_bex mbc_sub atom_weak_def)
  then show ?thesis
    using True fits mas_bits [OF True] by (simp add: con_correct n_def)
next
  case False
  have "unat (u2_met 0 a) = nbits a" using assms(1) by simp
  then have "u2_met 0 a < 2" using False two_le_nbits [of a] by (simp add: word_less_nat_alt)
  then show ?thesis using False by (simp add: j2_mbc_mas_def u2_bl_bail_def)
qed

lemma mbc_peg:
  assumes "atom_fits a" "atom_fits b" "0 < a" "0 < b" "nbits b < 2 ^ 31" "nbits a + nbits b + 31 < 2 ^ 32"
  shows "j2_mbc_peg G a b = atom_weak (ax_peg a b)"
proof -
  define d where "d = nbits b - 1"
  have n: "nbits b = Suc d" using assms(4) by (cases "nbits b") (auto simp: d_def)
  have met: "cat_noun (u2_met 0 b) = Inr (Suc d)" using assms(2,5) n by (simp add: cat_noun_def)
  have "atom_fits (Suc d)" using assms(5) n by (intro cat_fits) (simp add: u2_fly_is_cat_def)
  then have dec: "j2_mbc_dec G (Suc d) = Inr (Some (Atom d))" by (simp add: mbc_dec)
  have cat: "u2_fly_is_cat d" using assms(5) n by (simp add: u2_fly_is_cat_def)
  have "nbits 1 = 1" by (simp add: nbits_pos)
  then have lsh: "j2_mbc_lsh 0 d 1 = Inr (Some (Atom (2 ^ d)))" "j2_mbc_lsh 0 d a = Inr (Some (Atom (a * 2 ^ d)))"
    using lsh_correct [of 0 d 1] lsh_correct [of 0 d a] cat assms n
    by (simp_all add: cat_fits u2_fly_is_cat_def)
  have le: "2 ^ d \<le> b" using nbits_less_iff [of d b] n by simp
  have split: "b - 2 ^ d = b mod 2 ^ d" using ax_split [OF assms(4)] n by simp
  have fits: "atom_fits (2 ^ d)" "atom_fits (b - 2 ^ d)" 
    using atom_fits_mono [OF le assms(2)] atom_fits_mono [OF diff_le_self assms(2)] by simp_all
  have "nbits (a * 2 ^ d) = d + nbits a" using nbits_add_power [of a 0 d] assms(3) by (simp add: mult.commute)
  then have "atom_fits (a * 2 ^ d)"
    using assms(6) n unfolding atom_fits_def length_atom_words by (simp add: div_less_iff_less_mult)
  then show ?thesis
    using met dec lsh fits le assms(2) split
    by (simp add: j2_mbc_peg_def mbc_sub mbc_add ax_peg_def n add.commute)
qed

end

section \<open>Properties\<close>

text \<open>
  C24: \<^verbatim>\<open>con\<close>, \<^verbatim>\<open>dis\<close> and \<^verbatim>\<open>mix\<close> are bitwise or, and and exclusive or of any two atoms the loom can
  hold, of equal or different lengths.
\<close>

theorem jets_bitwise:
  assumes "atom_fits a" "atom_fits b"
    and cor: "cor = gate bat (Cell (Atom a) (Atom b)) con"
  shows "j2_mb_con cor = Inr (Some (Atom (a OR b))) \<and>
    j2_mb_dis cor = Inr (Some (Atom (a AND b))) \<and>
    j2_mb_mix cor = Inr (Some (Atom (a XOR b)))"
  using mix_con_correct [OF assms(1,2)] dis_correct [OF assms(1,2)]
  by (simp add: cor j2_mb_con_def j2_mb_dis_def j2_mb_mix_def)

theorem jets_bitwise_witness:
  "j2_mb_mix (gate (Atom 0) (Cell (Atom 0x123456789) (Atom 5)) (Atom 0)) =
    Inr (Some (Atom (0x123456789 XOR 5)))"
  using jets_bitwise [OF _ _ refl, of "0x123456789" 5 "Atom 0" "Atom 0"] by (simp add: atom_fits_def atom_words_pos)

text \<open>
  The axis jets agree with tree addressing: \<^verbatim>\<open>peg\<close> composes axes, and \<^verbatim>\<open>cap\<close> and \<^verbatim>\<open>mas\<close> split an
  axis into its first step and the rest, so that following the parts is following the axis.
\<close>

theorem jets_axes:
  assumes "gmp_laws G val" "atom_fits a" "atom_fits b" "2 \<le> a" "0 < b"
    and "nbits a < 2 ^ 31" "nbits b < 2 ^ 31" "nbits a + nbits b + 31 < 2 ^ 32" "atom_fits (ax_peg a b)"
  shows "\<exists>p c m. j2_mbc_peg G a b = Inr (Some (Atom p)) \<and>
    j2_mbc_cap a = Inr (Some (Atom c)) \<and> j2_mbc_mas G a = Inr (Some (Atom m)) \<and>
    (\<forall>n. slot p n = Option.bind (slot a n) (slot b)) \<and>
    (\<forall>n. slot a n = Option.bind (slot c n) (slot m))"
proof -
  have "slot a n = Option.bind (slot (ax_cap a) n) (slot (ax_mas a))" for n
  proof -
    have "0 < ax_cap a" using ax_cap_mas(2) [OF assms(4)] by auto
    from slot_path [OF this, of "a mod 2 ^ (nbits a - 2)" "nbits a - 2" n]
    show ?thesis using ax_cap_mas(1) [OF assms(4)] by (simp add: ax_mas_def add.commute)
  qed
  moreover have "0 < a" "nbits a \<le> 2 ^ 31" using assms(4,6) by simp_all
  ultimately show ?thesis
    using slot_peg [OF _ assms(5), of a] gmp_laws.mbc_peg [OF assms(1,2,3) _ assms(5,7,8)] assms(4,9)
      gmp_laws.mbc_mas [OF assms(1,2)] cap_correct [OF assms(2)]
    by (simp add: atom_weak_def)
qed

theorem jets_axes_witness:
  "\<exists>p c m. j2_mbc_peg gmp_int 5 6 = Inr (Some (Atom p)) \<and>
    j2_mbc_cap 5 = Inr (Some (Atom c)) \<and> j2_mbc_mas gmp_int 5 = Inr (Some (Atom m)) \<and>
    (\<forall>n. slot p n = Option.bind (slot 5 n) (slot 6)) \<and>
    (\<forall>n. slot 5 n = Option.bind (slot c n) (slot m))"
  by (rule jets_axes [OF gmp_ref.gmp_laws_axioms])
    (simp_all add: atom_fits_def atom_words_pos nbits_pos ax_peg_def)

end
