(* ===== verification/Lists3.thy ===== *)
theory Lists3
  imports Bitwise
begin

text \<open>
  The jets of \<^verbatim>\<open>gen164/3\<close> that assemble an atom from a list, \<^verbatim>\<open>can\<close> and \<^verbatim>\<open>rap\<close>, and take one apart, \<^verbatim>\<open>rip\<close>. The
  first two walk the list twice, to measure a slab and then to chop the atoms into it.
\<close>

section \<open>The jets\<close>

fun can_measure :: "noun \<Rightarrow> c3_w \<Rightarrow> c3_w res" where
  "can_measure (Atom cab) tot_w = (if cab = 0 then Inr tot_w else u2_bl_bail c3__fail)"
| "can_measure (Cell (Cell (Atom pi_cab) (Atom qi_cab)) t_cab) tot_w =
     (if \<not> u2_fly_is_cat pi_cab then u2_bl_bail c3__fail
      else if tot_w + of_nat pi_cab < tot_w then u2_bl_bail c3__fail
      else can_measure t_cab (tot_w + of_nat pi_cab))"
| "can_measure (Cell i_cab t_cab) tot_w = u2_bl_bail c3__fail"

fun can_chop :: "nat \<Rightarrow> noun \<Rightarrow> c3_w \<Rightarrow> c3_w list \<Rightarrow> c3_w list res" where
  "can_chop a_g (Atom cab) pos_w sal = (if cab = 0 then Inr sal else Inl Wild)"
| "can_chop a_g (Cell (Cell (Atom pi_cab) (Atom qi_cab)) t_cab) pos_w sal =
     rbind (u2_chop a_g 0 (of_nat pi_cab) pos_w sal qi_cab) (\<lambda>sal.
       can_chop a_g t_cab (pos_w + of_nat pi_cab) sal)"
| "can_chop a_g (Cell i_cab t_cab) pos_w sal = Inl Wild"

definition j2_mbc_can :: "nat \<Rightarrow> noun \<Rightarrow> u2_weak res" where
  "j2_mbc_can a b =
     (if bloq_bad a then u2_bl_bail c3__fail
      else rbind (can_measure b 0) (\<lambda>tot_w.
        if tot_w = 0 then Inr (Some (Atom 0))
        else rbind (can_chop a b 0 (u2_rl_slaq a tot_w)) (\<lambda>sal.
          Inr (Some (rep_noun (u2_rl_malt sal))))))"

definition sam_atom_noun_fail :: "noun \<Rightarrow> (nat \<Rightarrow> noun \<Rightarrow> 'a res) \<Rightarrow> 'a res" where
  "sam_atom_noun_fail cor f =
     rbind (u2_mean cor [12, 13]) (\<lambda>r. case r of Some [Atom a, b] \<Rightarrow> f a b | _ \<Rightarrow> u2_bl_bail c3__fail)"

definition j2_mb_can :: "noun \<Rightarrow> u2_weak res" where
  "j2_mb_can cor = sam_atom_noun_fail cor j2_mbc_can"

fun rap_measure :: "nat \<Rightarrow> noun \<Rightarrow> c3_w \<Rightarrow> c3_w res" where
  "rap_measure a_g (Atom cab) tot_w = (if cab = 0 then Inr tot_w else u2_bl_bail c3__exit)"
| "rap_measure a_g (Cell (Cell _ _) t_cab) tot_w = u2_bl_bail c3__exit"
| "rap_measure a_g (Cell (Atom h_cab) t_cab) tot_w =
     (let len_w = u2_met a_g h_cab
      in if tot_w + len_w < tot_w then u2_bl_bail c3__fail
         else rap_measure a_g t_cab (tot_w + len_w))"

fun rap_chop :: "nat \<Rightarrow> noun \<Rightarrow> c3_w \<Rightarrow> c3_w list \<Rightarrow> c3_w list res" where
  "rap_chop a_g (Atom cab) pos_w sal = (if cab = 0 then Inr sal else Inl Wild)"
| "rap_chop a_g (Cell (Cell _ _) t_cab) pos_w sal = Inl Wild"
| "rap_chop a_g (Cell (Atom h_cab) t_cab) pos_w sal =
     (let len_w = u2_met a_g h_cab
      in rbind (u2_chop a_g 0 len_w pos_w sal h_cab) (\<lambda>sal. rap_chop a_g t_cab (pos_w + len_w) sal))"

definition j2_mbc_rap :: "nat \<Rightarrow> noun \<Rightarrow> u2_weak res" where
  "j2_mbc_rap a b =
     (if bloq_bad a then u2_bl_bail c3__exit
      else rbind (rap_measure a b 0) (\<lambda>tot_w.
        if tot_w = 0 then Inr (Some (Atom 0))
        else rbind (rap_chop a b 0 (u2_rl_slaq a tot_w)) (\<lambda>sal.
          Inr (Some (rep_noun (u2_rl_malt sal))))))"

definition j2_mb_rap :: "noun \<Rightarrow> u2_weak res" where
  "j2_mb_rap cor =
     sam_nouns2 cor (\<lambda>a b. case a of Atom a \<Rightarrow> j2_mbc_rap a b | Cell _ _ \<Rightarrow> u2_bl_bail c3__exit)"

text \<open>\<^verbatim>\<open>rip\<close> goes from the top bloq down; a bloq of at least a word is copied word by word.\<close>

primrec rip_bits :: "nat \<Rightarrow> nat \<Rightarrow> c3_w \<Rightarrow> c3_w \<Rightarrow> nat \<Rightarrow> u2_weak \<Rightarrow> u2_weak res" where
  "rip_bits 0 a_g met_w i_w b pir = Inr pir"
| "rip_bits (Suc n) a_g met_w i_w b pir =
     (let mek_w = push_bit (2 ^ a_g) 1 - 1;
          pat_w = met_w - (i_w + 1);
          bit_w = push_bit a_g pat_w;
          wor_w = drop_bit 5 bit_w;
          sif_w = bit_w AND 31
      in rbind (u2_atom_word b wor_w) (\<lambda>src_w.
           let rip_w = drop_bit (unat sif_w) src_w AND mek_w
           in rip_bits n a_g met_w (i_w + 1) b (u2_rl_cell (Some (Atom (unat rip_w))) pir)))"

primrec rip_copy :: "nat \<Rightarrow> nat \<Rightarrow> c3_w \<Rightarrow> c3_w \<Rightarrow> c3_w list res" where
  "rip_copy 0 b wut_w j_w = Inr []"
| "rip_copy (Suc n) b wut_w j_w =
     rbind (u2_atom_word b (wut_w + j_w)) (\<lambda>x. rbind (rip_copy n b wut_w (j_w + 1)) (\<lambda>xs. Inr (x # xs)))"

primrec rip_words :: "nat \<Rightarrow> nat \<Rightarrow> c3_w \<Rightarrow> c3_w \<Rightarrow> c3_w \<Rightarrow> nat \<Rightarrow> u2_weak \<Rightarrow> u2_weak res" where
  "rip_words 0 san_g met_w tub_w i_w b pir = Inr pir"
| "rip_words (Suc n) san_g met_w tub_w i_w b pir =
     (let pat_w = met_w - (i_w + 1);
          wut_w = push_bit san_g pat_w;
          sap_w = (if i_w = 0 then tub_w else push_bit san_g 1)
      in rbind (rip_copy (unat sap_w) b wut_w 0) (\<lambda>sal.
           rip_words n san_g met_w tub_w (i_w + 1) b (u2_rl_cell (Some (rep_noun (u2_rl_malt sal))) pir)))"

definition j2_mbc_rip :: "nat \<Rightarrow> nat \<Rightarrow> u2_weak res" where
  "j2_mbc_rip a b =
     (if bloq_bad a then u2_bl_bail c3__fail
      else let met_w = u2_met a b
           in if a < 5 then rip_bits (unat met_w) a met_w 0 b (Some u2_nul)
              else let len_w = u2_met 5 b;
                       san_w = push_bit (a - 5) 1;
                       dif_w = push_bit (a - 5) met_w - len_w;
                       tub_w = (if dif_w = 0 then san_w else san_w - dif_w)
                   in rip_words (unat met_w) (a - 5) met_w tub_w 0 b (Some u2_nul))"

definition j2_mb_rip :: "noun \<Rightarrow> u2_weak res" where
  "j2_mb_rip cor = sam_atoms2 cor j2_mbc_rip"

section \<open>Assembling\<close>

text \<open>What a list of fields spells, first field lowest: each has a width in bits and a value that is cut to it.\<close>

primrec fields_len :: "(nat \<times> nat) list \<Rightarrow> nat" where
  "fields_len [] = 0"
| "fields_len (f # fs) = fst f + fields_len fs"

primrec fields_val :: "(nat \<times> nat) list \<Rightarrow> nat" where
  "fields_val [] = 0"
| "fields_val (f # fs) = snd f mod 2 ^ fst f + 2 ^ fst f * fields_val fs"

lemma fields_append [simp]:
  "fields_len (fs @ gs) = fields_len fs + fields_len gs"
  "fields_val (fs @ gs) = fields_val fs + 2 ^ fields_len fs * fields_val gs"
  by (induction fs) (simp_all add: algebra_simps power_add)

lemma fields_val_less: "fields_val fs < 2 ^ fields_len fs"
proof (induction fs)
  case (Cons f fs)
  have "snd f mod 2 ^ fst f + 2 ^ fst f * fields_val fs < 2 ^ fst f * Suc (fields_val fs)" by simp
  also have "\<dots> \<le> 2 ^ fst f * 2 ^ fields_len fs" using Cons by (intro mult_le_mono2) simp
  finally show ?case by (simp add: power_add)
qed simp

lemma chop_field:
  assumes "atom_fits src" "g < 32" "words_atom sal < 2 ^ (unat pos * 2 ^ g)"
    and "(unat pos + unat wid) * 2 ^ g \<le> 32 * length sal" "(unat pos + unat wid) * 2 ^ g \<le> 2 ^ 32"
  obtains sal' where "u2_chop g 0 wid pos sal src = Inr sal'" "length sal' = length sal"
    "words_atom sal' = words_atom sal + 2 ^ (unat pos * 2 ^ g) * (src mod 2 ^ (unat wid * 2 ^ g))"
proof -
  have "bloq_span g (unat pos + unat wid)" using assms(5) by (rule bloq_span_bits)
  moreover have "unat wid * 2 ^ g \<le> (unat pos + unat wid) * 2 ^ g" by (intro mult_le_mono1) simp
  then have "unat wid * 2 ^ g \<le> 2 ^ 32" using assms(5) by (rule order_trans)
  then have "bloq_span g (unat (0 :: c3_w) + unat wid)" by (intro bloq_span_bits) simp
  ultimately obtain sal' where "u2_chop g 0 wid pos sal src = Inr sal'" "length sal' = length sal"
      "words_atom sal' = words_atom sal XOR push_bit (unat pos * 2 ^ g) (take_bit (unat wid * 2 ^ g) src)"
    using u2_chop_correct [OF assms(1,2), of 0 wid pos sal] assms(4) by (auto simp: chopped_def)
  then show thesis
    using that [of sal'] xor_push [OF assms(3)] by (simp add: push_bit_eq_mult take_bit_eq_mod)
qed

definition pair_noun :: "nat \<times> nat \<Rightarrow> noun" where
  "pair_noun f = Cell (Atom (fst f)) (Atom (snd f))"

definition bloq_fields :: "nat \<Rightarrow> (nat \<times> nat) list \<Rightarrow> (nat \<times> nat) list" where
  "bloq_fields a fs = map (\<lambda>f. (fst f * 2 ^ a, snd f)) fs"

lemma bloq_fields_simps [simp]:
  "bloq_fields a [] = []" "bloq_fields a (f # fs) = (fst f * 2 ^ a, snd f) # bloq_fields a fs"
  "fields_len (bloq_fields a fs) = fields_len fs * 2 ^ a" "bloq_fields 0 fs = fs"
  by (induction fs) (simp_all add: bloq_fields_def add_mult_distrib)

lemma can_measure_total:
  assumes "unat tot + fields_len fs < 2 ^ 32" "\<forall>f\<in>set fs. fst f < 2 ^ 31"
  shows "can_measure (noun_list (map pair_noun fs)) tot = Inr (tot + of_nat (fields_len fs))"
  using assms
proof (induction fs arbitrary: tot)
  case (Cons f fs)
  have u: "unat (tot + of_nat (fst f)) = unat tot + fst f"
    using Cons.prems unat_of_nat_c3_w [of "fst f"] unat_add_c3_w [of tot "of_nat (fst f)"] by simp
  then have "\<not> tot + of_nat (fst f) < tot" by (simp add: word_less_nat_alt)
  then show ?case
    using Cons.IH [of "tot + of_nat (fst f)"] Cons.prems u by (simp add: pair_noun_def u2_fly_is_cat_def add.assoc)
qed simp

lemma can_chop_fields:
  assumes "g < 32" "\<forall>f\<in>set fs. fst f < 2 ^ 32 \<and> atom_fits (snd f)"
    and "words_atom sal < 2 ^ (unat pos * 2 ^ g)"
    and "(unat pos + fields_len fs) * 2 ^ g \<le> 32 * length sal" "(unat pos + fields_len fs) * 2 ^ g < 2 ^ 32"
  shows "\<exists>sal'. can_chop g (noun_list (map pair_noun fs)) pos sal = Inr sal' \<and>
    words_atom sal' = words_atom sal + 2 ^ (unat pos * 2 ^ g) * fields_val (bloq_fields g fs)"
  using assms(2-)
proof (induction fs arbitrary: pos sal)
  case (Cons f fs)
  let ?w = "of_nat (fst f) :: c3_w"
  have w: "unat ?w = fst f" using Cons.prems(1) by (simp add: unat_of_nat_c3_w)
  have le: "(unat pos + fst f) * 2 ^ g \<le> (unat pos + fields_len (f # fs)) * 2 ^ g" by (intro mult_le_mono1) simp
  have cap: "(unat pos + unat ?w) * 2 ^ g \<le> 32 * length sal" "(unat pos + unat ?w) * 2 ^ g \<le> 2 ^ 32"
    using le Cons.prems(3,4) unfolding w by linarith+
  have "unat pos + fst f \<le> (unat pos + fst f) * 2 ^ g" by simp
  then have "unat pos + fst f < 2 ^ 32" using le Cons.prems(4) by linarith
  then have u: "unat (pos + ?w) = unat pos + fst f" using w by (subst unat_add_c3_w) simp_all
  obtain s where s: "u2_chop g 0 ?w pos sal (snd f) = Inr s" "length s = length sal"
      "words_atom s = words_atom sal + 2 ^ (unat pos * 2 ^ g) * (snd f mod 2 ^ (fst f * 2 ^ g))"
    using chop_field [OF _ assms(1) Cons.prems(2) cap, of "snd f"] Cons.prems(1) w by auto
  have "words_atom s < 2 ^ (unat pos * 2 ^ g) * (1 + snd f mod 2 ^ (fst f * 2 ^ g))" using s(3) Cons.prems(2) by simp
  also have "\<dots> \<le> 2 ^ (unat pos * 2 ^ g) * 2 ^ (fst f * 2 ^ g)" by (intro mult_le_mono2) (simp add: Suc_leI)
  finally have "words_atom s < 2 ^ (unat (pos + ?w) * 2 ^ g)" by (simp add: u add_mult_distrib power_add)
  then obtain s' where "can_chop g (noun_list (map pair_noun fs)) (pos + ?w) s = Inr s'"
      "words_atom s' = words_atom s + 2 ^ (unat (pos + ?w) * 2 ^ g) * fields_val (bloq_fields g fs)"
    using Cons.IH [of s "pos + ?w"] Cons.prems s(2) by (auto simp: u add.assoc)
  then show ?case using s by (simp add: pair_noun_def [of f] u algebra_simps power_add)
qed simp

lemma can_correct:
  assumes "a < 32" "\<forall>f\<in>set fs. fst f < 2 ^ 31 \<and> atom_fits (snd f)" "fields_len fs * 2 ^ a + 31 < 2 ^ 32"
  shows "j2_mbc_can a (noun_list (map pair_noun fs)) = Inr (Some (Atom (fields_val (bloq_fields a fs))))"
proof -
  have "fields_len fs \<le> fields_len fs * 2 ^ a" by simp
  then have n: "fields_len fs < 2 ^ 32" using assms(3) by linarith
  then have u: "unat (of_nat (fields_len fs) :: c3_w) = fields_len fs" by (rule unat_of_nat_c3_w)
  have fs: "\<forall>f\<in>set fs. fst f < 2 ^ 32 \<and> atom_fits (snd f)" using assms(2) by force
  have m: "can_measure (noun_list (map pair_noun fs)) 0 = Inr (of_nat (fields_len fs))"
    using can_measure_total [of 0 fs] n assms(2) by simp
  show ?thesis
  proof (cases "fields_len fs = 0")
    case True
    then have "fields_val (bloq_fields a fs) = 0" using fields_val_less [of "bloq_fields a fs"] by simp
    then show ?thesis using True m assms(1) by (simp add: j2_mbc_can_def)
  next
    case False
    then have "of_nat (fields_len fs) \<noteq> (0 :: c3_w)" using u by (metis unat_0)
    then show ?thesis
      using can_chop_fields [OF assms(1) fs, of "u2_rl_slaq a (of_nat (fields_len fs))" 0] m assms(1,3)
        length_slaq [of "of_nat (fields_len fs)" a] u
      by (auto simp: j2_mbc_can_def)
  qed
qed

definition met_fields :: "nat \<Rightarrow> nat list \<Rightarrow> (nat \<times> nat) list" where
  "met_fields a xs = map (\<lambda>x. (met a x, x)) xs"

lemma u2_met_of_nat: "atom_fits x \<Longrightarrow> a < 32 \<Longrightarrow> u2_met a x = of_nat (met a x)"
  by (metis unat_u2_met word_nat_cases unat_of_nat_c3_w unat_c3_w word_unat_eq_iff)

lemma rap_measure_total:
  assumes "a < 32" "\<forall>x\<in>set xs. atom_fits x" "unat tot + fields_len (met_fields a xs) < 2 ^ 32"
  shows "rap_measure a (noun_list (map Atom xs)) tot = Inr (tot + of_nat (fields_len (met_fields a xs)))"
  using assms(2-)
proof (induction xs arbitrary: tot)
  case (Cons x xs)
  have u: "unat (tot + u2_met a x) = unat tot + met a x"
    using Cons.prems unat_add_c3_w [of tot "u2_met a x"] assms(1) by (simp add: met_fields_def)
  then have "\<not> tot + u2_met a x < tot" by (simp add: word_less_nat_alt)
  then show ?case
    using Cons.IH [of "tot + u2_met a x"] Cons.prems u assms(1) by (simp add: met_fields_def u2_met_of_nat add.assoc)
qed (simp add: met_fields_def)

lemma rap_chop_can:
  "a < 32 \<Longrightarrow> \<forall>x\<in>set xs. atom_fits x \<Longrightarrow>
   rap_chop a (noun_list (map Atom xs)) pos sal = can_chop a (noun_list (map pair_noun (met_fields a xs))) pos sal"
  by (induction xs arbitrary: pos sal) (auto simp: met_fields_def pair_noun_def u2_met_of_nat Let_def comp_def intro!: rbind_cong)

lemma rap_correct:
  assumes "a < 32" "\<forall>x\<in>set xs. atom_fits x" "fields_len (met_fields a xs) * 2 ^ a + 31 < 2 ^ 32"
  shows "j2_mbc_rap a (noun_list (map Atom xs)) = Inr (Some (Atom (fields_val (bloq_fields a (met_fields a xs)))))"
proof -
  let ?fs = "met_fields a xs"
  have "fields_len ?fs \<le> fields_len ?fs * 2 ^ a" by simp
  then have n: "fields_len ?fs < 2 ^ 32" using assms(3) by linarith
  then have u: "unat (of_nat (fields_len ?fs) :: c3_w) = fields_len ?fs" by (rule unat_of_nat_c3_w)
  have fs: "\<forall>f\<in>set ?fs. fst f < 2 ^ 32 \<and> atom_fits (snd f)"
    using assms(1,2) unat_c3_w by (force simp: met_fields_def simp flip: unat_u2_met)
  have m: "rap_measure a (noun_list (map Atom xs)) 0 = Inr (of_nat (fields_len ?fs))"
    using rap_measure_total [of a xs 0] n assms(1,2) by simp
  show ?thesis
  proof (cases "fields_len ?fs = 0")
    case True
    then have "fields_val (bloq_fields a ?fs) = 0" using fields_val_less [of "bloq_fields a ?fs"] by simp
    then show ?thesis using True m assms(1) by (simp add: j2_mbc_rap_def)
  next
    case False
    then have "of_nat (fields_len ?fs) \<noteq> (0 :: c3_w)" using u by (metis unat_0)
    then show ?thesis
      using can_chop_fields [OF assms(1) fs, of "u2_rl_slaq a (of_nat (fields_len ?fs))" 0] m assms
        length_slaq [of "of_nat (fields_len ?fs)" a] u
      by (auto simp: j2_mbc_rap_def rap_chop_can)
  qed
qed

section \<open>Taking apart\<close>

definition bloq_at :: "nat \<Rightarrow> nat \<Rightarrow> nat \<Rightarrow> nat" where
  "bloq_at a b i = b div 2 ^ (i * 2 ^ a) mod 2 ^ 2 ^ a"

definition bloqs :: "nat \<Rightarrow> nat \<Rightarrow> nat list" where
  "bloqs a b = map (bloq_at a b) [0..<met a b]"

lemma met_less_iff: "n < met a b \<longleftrightarrow> n * 2 ^ a < nbits b"
  using met_le_iff [of a b n] nbits_less_iff [of "n * 2 ^ a" b] by (auto simp: mult.commute not_le [symmetric])

lemma rip_word:
  assumes "a < 5" "n < met a b" "atom_fits b"
  shows "u2_atom_word b (of_nat (n * 2 ^ a div 32)) = Inr (atom_words b ! (n * 2 ^ a div 32))"
    and "unat (drop_bit (n * 2 ^ a mod 32) (atom_words b ! (n * 2 ^ a div 32)) AND (push_bit (2 ^ a) 1 - 1)) = bloq_at a b n"
proof -
  have lt: "n * 2 ^ a < nbits b" using assms(2) by (simp add: met_less_iff)
  then have i: "n * 2 ^ a div 32 < length (atom_words b)" by (simp add: length_atom_words)
  then show "u2_atom_word b (of_nat (n * 2 ^ a div 32)) = Inr (atom_words b ! (n * 2 ^ a div 32))"
    using assms(3) by (rule atom_word_nth)
  have p: "(2::nat) ^ a \<le> 16" using power_increasing [of a 4 "2::nat"] assms(1) by simp
  have 32: "32 = 2 ^ a * (2::nat) ^ (5 - a)" using assms(1) by (simp flip: power_add)
  have "n * 2 ^ a mod 32 = 2 ^ a * (n mod 2 ^ (5 - a))" unfolding 32 by (simp add: mult.commute)
  also have "\<dots> + 2 ^ a = 2 ^ a * Suc (n mod 2 ^ (5 - a))" by simp
  also have "\<dots> \<le> 2 ^ a * 2 ^ (5 - a)" by (intro mult_le_mono2) (simp add: Suc_leI)
  finally have top: "n * 2 ^ a mod 32 + 2 ^ a \<le> 32" unfolding 32 [symmetric] by simp
  have word: "bit (atom_words b ! (n * 2 ^ a div 32)) j \<longleftrightarrow> bit b (32 * (n * 2 ^ a div 32) + j)" if "j < 32" for j
    using bit_words_atom [of "atom_words b" "32 * (n * 2 ^ a div 32) + j"] i that by simp
  have "bit (bloq_at a b n) j \<longleftrightarrow> j < 2 ^ a \<and> bit b (n * 2 ^ a + j)" for j
    by (simp add: bloq_at_def bit_simps flip: take_bit_eq_mod drop_bit_eq_div)
  then show "unat (drop_bit (n * 2 ^ a mod 32) (atom_words b ! (n * 2 ^ a div 32)) AND (push_bit (2 ^ a) 1 - 1)) = bloq_at a b n"
    using top p word by (auto simp: bit_eq_iff bit_simps simp flip: mask_eq_exp_minus_1 add.assoc)
qed

lemma rip_bits_correct:
  assumes "a < 5" "atom_fits b" "unat met_w = met a b"
  shows "unat i_w + n = met a b \<Longrightarrow>
    rip_bits n a met_w i_w b (Some (noun_list ps)) = Inr (Some (noun_list (map (\<lambda>i. Atom (bloq_at a b i)) [0..<n] @ ps)))"
proof (induction n arbitrary: i_w ps)
  case (Suc n)
  have n: "n < met a b" using Suc.prems by simp
  have m: "met a b < 2 ^ 32" using unat_c3_w [of met_w] assms(3) by simp
  have i1: "unat (i_w + 1) = unat i_w + 1" using Suc.prems m unat_add_c3_w [of i_w 1] by simp
  have pat: "unat (met_w - (i_w + 1)) = n" using Suc.prems assms(3) i1 by (subst unat_sub_c3_w) simp_all
  have "n * 2 ^ a < 2 ^ 32" using n atom_fits_nbits [OF assms(2)] by (simp add: met_less_iff)
  then have bit: "unat (push_bit a (met_w - (i_w + 1))) = n * 2 ^ a" by (subst unat_push_c3_w) (simp_all add: pat)
  have wor: "drop_bit 5 (push_bit a (met_w - (i_w + 1))) = of_nat (n * 2 ^ a div 32)"
  proof -
    have "n * 2 ^ a div 32 < 2 ^ 32" using \<open>n * 2 ^ a < 2 ^ 32\<close> by (rule le_less_trans [OF div_le_dividend])
    then show ?thesis using bit unat_of_nat_c3_w by (simp add: word_unat_eq_iff unat_drop_c3_w)
  qed
  have sif: "unat (push_bit a (met_w - (i_w + 1)) AND 31) = n * 2 ^ a mod 32"
    by (simp add: unat_and_31 bit)
  note w = rip_word [OF assms(1) n assms(2)]
  show ?case
    using Suc.IH [of "i_w + 1" "Atom (bloq_at a b n) # ps"] Suc.prems i1 w
    by (simp add: Let_def wor sif)
qed simp

lemma rip_copy_words:
  assumes "atom_fits b" "unat wut + unat j + n \<le> length (atom_words b)"
  shows "rip_copy n b wut j = Inr (take n (drop (unat wut + unat j) (atom_words b)))"
  using assms(2)
proof (induction n arbitrary: j)
  case (Suc n)
  have l: "length (atom_words b) < 2 ^ 27" using assms(1) by (simp add: atom_fits_def)
  have u: "unat (wut + j) = unat wut + unat j" "unat (j + 1) = unat j + 1"
    using Suc.prems l by (simp_all add: unat_add_c3_w)
  have "u2_atom_word b (wut + j) = Inr (atom_words b ! unat (wut + j))"
    using atom_word_nth [of "unat (wut + j)" b] Suc.prems assms(1) u by simp
  then show ?case
    using Suc.IH [of "j + 1"] Suc.prems by (simp add: u take_Suc_conv_app_nth drop_Suc Cons_nth_drop_Suc [symmetric])
qed simp

lemma words_atom_slice: "words_atom (take m (drop n (atom_words b))) = b div 2 ^ (32 * n) mod 2 ^ (32 * m)"
proof (rule bit_eqI)
  fix j
  have l: "nbits b \<le> 32 * length (atom_words b)" by (simp add: length_atom_words)
  have "bit b (32 * n + j) \<Longrightarrow> (32 * n + j) div 32 < length (atom_words b)"
    using bit_imp_less_nbits [of b "32 * n + j"] l by (simp add: div_less_iff_less_mult mult.commute)
  moreover have "j div 32 < m \<longleftrightarrow> j < 32 * m" by (simp add: div_less_iff_less_mult mult.commute)
  ultimately show "bit (words_atom (take m (drop n (atom_words b)))) j = bit (b div 2 ^ (32 * n) mod 2 ^ (32 * m)) j"
    using bit_words_atom [of "atom_words b" "32 * n + j"]
    by (auto simp: bit_words_atom bit_simps add.commute simp flip: take_bit_eq_mod drop_bit_eq_div)
qed

text \<open>The words of a bloq: the top bloq may be short.\<close>

definition rip_len :: "nat \<Rightarrow> nat \<Rightarrow> nat \<Rightarrow> nat" where
  "rip_len h b n = (if Suc n = met (5 + h) b then length (atom_words b) - n * 2 ^ h else 2 ^ h)"

lemma rip_len_bounds:
  assumes "n < met (5 + h) b"
  shows "n * 2 ^ h + rip_len h b n \<le> length (atom_words b)" "n * 2 ^ h < length (atom_words b)" "rip_len h b n \<le> 2 ^ h"
    and "met (5 + h) b * 2 ^ h < length (atom_words b) + 2 ^ h"
proof -
  let ?L = "length (atom_words b)"
  have less: "k < met (5 + h) b \<longleftrightarrow> k * 2 ^ h < ?L" for k
  proof -
    have "k < met (5 + h) b \<longleftrightarrow> k * 2 ^ h * 32 < nbits b" by (simp add: met_less_iff power_add ac_simps)
    also have "\<dots> \<longleftrightarrow> k * 2 ^ h < ?L" unfolding length_atom_words by linarith
    finally show ?thesis .
  qed
  show n: "n * 2 ^ h < ?L" using assms less by simp
  show top: "met (5 + h) b * 2 ^ h < ?L + 2 ^ h"
  proof (cases "met (5 + h) b")
    case (Suc m)
    then show ?thesis using less [of m] by simp
  qed simp
  show "n * 2 ^ h + rip_len h b n \<le> ?L"
  proof (cases "Suc n = met (5 + h) b")
    case False
    then have "Suc n * 2 ^ h < ?L" using assms less [of "Suc n"] by simp
    then show ?thesis using False by (simp add: rip_len_def)
  qed (use n in \<open>simp add: rip_len_def\<close>)
  show "rip_len h b n \<le> 2 ^ h"
  proof (cases "Suc n = met (5 + h) b")
    case True
    then have "\<not> Suc n * 2 ^ h < ?L" using less [of "Suc n"] by simp
    then have "?L - n * 2 ^ h \<le> 2 ^ h" by simp
    then show ?thesis by (simp add: rip_len_def)
  qed (simp add: rip_len_def)
qed

lemma rip_slice:
  assumes "n < met (5 + h) b"
  shows "words_atom (take (rip_len h b n) (drop (n * 2 ^ h) (atom_words b))) = bloq_at (5 + h) b n"
proof (cases "Suc n = met (5 + h) b")
  case True
  have e: "32 * (n * 2 ^ h) = n * 2 ^ (5 + h)" by (simp add: power_add)
  have "b < 2 ^ (2 ^ (5 + h) * Suc n)" using met_le_iff [of "5 + h" b "Suc n"] True by simp
  then have "b div 2 ^ (n * 2 ^ (5 + h)) < 2 ^ 2 ^ (5 + h)"
    by (simp add: div_less_iff_less_mult power_add [symmetric] add.commute mult.commute)
  moreover have "take (rip_len h b n) (drop (n * 2 ^ h) (atom_words b)) = drop (n * 2 ^ h) (atom_words b)"
    using True by (simp add: rip_len_def)
  moreover have "words_atom (drop (n * 2 ^ h) (atom_words b)) = b div 2 ^ (32 * (n * 2 ^ h))"
  proof -
    have "b div 2 ^ (32 * (n * 2 ^ h)) \<le> b" by simp
    then have "b div 2 ^ (32 * (n * 2 ^ h)) < 2 ^ (32 * length (atom_words b))"
      using words_atom_less [of "atom_words b"] by (simp only: words_atom_atom_words)
    then show ?thesis using words_atom_slice [of "length (atom_words b)" "n * 2 ^ h" b] by simp
  qed
  ultimately show ?thesis by (simp add: bloq_at_def e)
next
  case False
  then show ?thesis by (simp add: words_atom_slice rip_len_def bloq_at_def power_add ac_simps)
qed

lemma rip_words_correct:
  assumes "5 + h < 32" "atom_fits b" "unat met_w = met (5 + h) b" "met (5 + h) b \<noteq> 0"
    and tub: "unat tub_w = rip_len h b (met (5 + h) b - 1)"
  shows "unat i_w + n = met (5 + h) b \<Longrightarrow>
    rip_words n h met_w tub_w i_w b (Some (noun_list ps)) =
      Inr (Some (noun_list (map (\<lambda>i. Atom (bloq_at (5 + h) b i)) [0..<n] @ ps)))"
proof (induction n arbitrary: i_w ps)
  case (Suc n)
  have n: "n < met (5 + h) b" using Suc.prems by simp
  note len = rip_len_bounds [OF n]
  have l: "length (atom_words b) < 2 ^ 27" using assms(2) by (simp add: atom_fits_def)
  have m: "met (5 + h) b < 2 ^ 32" using unat_c3_w [of met_w] assms(3) by simp
  have i1: "unat (i_w + 1) = unat i_w + 1" using Suc.prems m unat_add_c3_w [of i_w 1] by simp
  have pat: "unat (met_w - (i_w + 1)) = n" using Suc.prems assms(3) i1 by (subst unat_sub_c3_w) simp_all
  have wut: "unat (push_bit h (met_w - (i_w + 1))) = n * 2 ^ h"
    using len(2) l by (subst unat_push_c3_w) (simp_all add: pat)
  have sap: "unat (if i_w = 0 then tub_w else push_bit h 1) = rip_len h b n"
  proof (cases "i_w = 0")
    case True
    then have "met (5 + h) b - 1 = n" using Suc.prems by simp
    then show ?thesis using True tub by simp
  next
    case False
    then have "unat i_w \<noteq> 0" by (simp add: unat_eq_0)
    then show ?thesis using False Suc.prems assms(1) by (simp add: rip_len_def unat_one_push_c3_w)
  qed
  have "rip_copy (rip_len h b n) b (push_bit h (met_w - (i_w + 1))) 0 = Inr (take (rip_len h b n) (drop (n * 2 ^ h) (atom_words b)))"
    using rip_copy_words [OF assms(2), of "push_bit h (met_w - (i_w + 1))" 0 "rip_len h b n"] wut len(1) by simp
  then show ?case
    using Suc.IH [of "i_w + 1" "Atom (bloq_at (5 + h) b n) # ps"] Suc.prems i1 rip_slice [OF n]
    by (simp add: Let_def sap)
qed simp

lemma rip_correct:
  assumes "a < 32" "atom_fits b"
  shows "j2_mbc_rip a b = Inr (Some (noun_list (map Atom (bloqs a b))))"
proof (cases "a < 5")
  case True
  then show ?thesis
    using rip_bits_correct [OF True assms(2), of "u2_met a b" 0 "met a b" "[]"] assms
    by (simp add: j2_mbc_rip_def bloqs_def comp_def)
next
  case False
  then obtain h where h: "a = 5 + h" using le_Suc_ex not_less by blast
  let ?m = "met (5 + h) b" and ?L = "length (atom_words b)"
  show ?thesis
  proof (cases "b = 0")
    case True
    then show ?thesis using False assms(1) by (simp add: j2_mbc_rip_def bloqs_def)
  next
    case pos: False
    then have m: "0 < ?m" using nbits_pos [of b] by (simp add: met_less_iff)
    then have m1: "?m - 1 < ?m" by simp
    note len = rip_len_bounds [OF m1]
    have l: "?L < 2 ^ 27" using assms(2) by (simp add: atom_fits_def)
    have s: "(2::nat) ^ h \<le> 2 ^ 26" using assms(1) h by (intro power_increasing) simp_all
    have met: "unat (push_bit h (u2_met (5 + h) b)) = ?m * 2 ^ h"
      using len(4) l s assms h by (subst unat_push_c3_w) simp_all
    have le: "?L \<le> ?m * 2 ^ h"
    proof -
      have "\<not> ?m * 2 ^ (5 + h) < nbits b" using met_less_iff [of ?m "5 + h" b] by simp
      then show ?thesis unfolding length_atom_words by (simp add: power_add)
    qed
    have dif: "unat (push_bit h (u2_met (5 + h) b) - u2_met 5 b) = ?m * 2 ^ h - ?L"
      using met le assms(2) by (subst unat_sub_c3_w) (simp_all add: met_5)
    let ?d = "push_bit h (u2_met (5 + h) b) - u2_met 5 b"
    have san: "unat (2 ^ h :: c3_w) = 2 ^ h" using h assms(1) by (simp add: unat_one_push_c3_w)
    have last: "rip_len h b (?m - 1) = ?L - (?m - 1) * 2 ^ h" using m by (simp add: rip_len_def)
    have "(?m - 1) * 2 ^ h = ?m * 2 ^ h - 2 ^ h" "2 ^ h \<le> ?m * 2 ^ h" using m by (simp_all add: diff_mult_distrib)
    moreover have "unat (2 ^ h - ?d) = 2 ^ h - (?m * 2 ^ h - ?L)" using len(4) by (subst unat_sub_c3_w) (simp_all add: san dif)
    ultimately have "unat (if ?d = 0 then push_bit h 1 else push_bit h 1 - ?d) = rip_len h b (?m - 1)"
      using len(2,4) le unfolding last
      by (auto simp: san dif unat_eq_0 [symmetric])
    note r = rip_words_correct [of h b "u2_met (5 + h) b" _ 0 ?m "[]", OF _ assms(2) _ _ this]
    show ?thesis using r False assms m h pos by (auto simp: j2_mbc_rip_def bloqs_def comp_def Let_def)
  qed
qed

lemma bloqs_val:
  "fields_val (bloq_fields a (map (\<lambda>i. (1, bloq_at a b i)) [0..<n])) = b mod 2 ^ (n * 2 ^ a)"
proof (induction n)
  case (Suc n)
  have len: "fields_len (bloq_fields a (map (\<lambda>i. (1, bloq_at a b i)) [0..<n])) = n * 2 ^ a"
    by (induction n) (simp_all add: bloq_fields_def)
  have "b mod 2 ^ (Suc n * 2 ^ a) = b mod 2 ^ (n * 2 ^ a) + 2 ^ (n * 2 ^ a) * bloq_at a b n"
    using mod_mult2_eq [of b "2 ^ (n * 2 ^ a)" "2 ^ 2 ^ a"] by (simp add: bloq_at_def power_add [symmetric] add.commute)
  then show ?case using Suc len by (simp add: bloq_fields_def bloq_at_def)
qed simp

text \<open>
  C33: \<^verbatim>\<open>rip\<close> takes an atom apart into its bloqs, lowest first and as many as \<^verbatim>\<open>met\<close> counts, for bloqs below and
  above the size of a word, and \<^verbatim>\<open>can\<close> on fields of one bloq each puts the atom back together.
\<close>

theorem rip_can_roundtrip:
  assumes "a < 32" "atom_fits b" "met a b * 2 ^ a + 31 < 2 ^ 32"
  shows "j2_mbc_rip a b = Inr (Some (noun_list (map Atom (bloqs a b)))) \<and>
    j2_mbc_can a (noun_list (map (\<lambda>x. pair_noun (1, x)) (bloqs a b))) = Inr (Some (Atom b))"
proof
  show "j2_mbc_rip a b = Inr (Some (noun_list (map Atom (bloqs a b))))" using assms by (intro rip_correct)
  let ?fs = "map (\<lambda>i. (1 :: nat, bloq_at a b i)) [0..<met a b]"
  have "fields_len (map (\<lambda>i. (1 :: nat, bloq_at a b i)) [0..<n]) = n" for n by (induction n) simp_all
  moreover have "atom_fits (bloq_at a b i)" for i
  proof -
    have "bloq_at a b i \<le> b" unfolding bloq_at_def by (meson div_le_dividend mod_less_eq_dividend order_trans)
    then show ?thesis using assms(2) by (rule atom_fits_mono)
  qed
  ultimately have "j2_mbc_can a (noun_list (map pair_noun ?fs)) = Inr (Some (Atom (fields_val (bloq_fields a ?fs))))"
    using assms by (intro can_correct) auto
  moreover have "b mod 2 ^ (met a b * 2 ^ a) = b" using take_met [of a b] by (simp add: take_bit_eq_mod)
  ultimately show "j2_mbc_can a (noun_list (map (\<lambda>x. pair_noun (1, x)) (bloqs a b))) = Inr (Some (Atom b))"
    by (simp add: bloqs_val bloqs_def comp_def del: One_nat_def)
qed

theorem rip_can_roundtrip_witness:
  "j2_mbc_rip 3 0x120034 = Inr (Some (noun_list (map Atom (bloqs 3 0x120034)))) \<and>
    j2_mbc_can 3 (noun_list (map (\<lambda>x. pair_noun (1, x)) (bloqs 3 0x120034))) = Inr (Some (Atom 0x120034))"
  by (rule rip_can_roundtrip) (simp_all add: atom_fits_def atom_words_pos met_def nbits_pos)

end
