(* ===== verification/Jets2.thy ===== *)
theory Jets2
  imports Jets
begin

text \<open>
  The jets of part 2, \<^verbatim>\<open>gen164/2\<close>, that do not call gates: lists and units. A list is a noun, so a jet can meet
  one that does not end in 0; taking the tail of a non-zero atom without a test is \<open>Wild\<close>. In \<^verbatim>\<open>scag\<close> the
  accumulator starts out uninitialised, and \<^verbatim>\<open>u2_ckb_flop\<close> follows it.
\<close>

section \<open>Units\<close>

definition u2_rl_lone :: "u2_weak \<Rightarrow> u2_weak" where
  "u2_rl_lone a = u2_rl_cell a (Some u2_nul)"

definition u2_rl_unit :: "u2_weak \<Rightarrow> u2_weak" where
  "u2_rl_unit a = u2_rl_cell (Some u2_nul) a"

definition j2_mbc_need :: "noun \<Rightarrow> u2_weak res" where
  "j2_mbc_need a = (if a = Atom 0 then u2_bl_bail c3__exit else u2_st (Some a))"

definition j2_mb_need :: "noun \<Rightarrow> u2_weak res" where
  "j2_mb_need cor = sam_noun cor j2_mbc_need"

definition j2_mbc_drop :: "noun \<Rightarrow> u2_weak res" where
  "j2_mbc_drop a = (if a = Atom 0 then Inr (Some u2_nul) else rbind (u2_st (Some a)) (\<lambda>t. Inr (u2_rl_lone t)))"

definition j2_mb_drop :: "noun \<Rightarrow> u2_weak res" where
  "j2_mb_drop cor =
     rbind (u2_frag (Atom 6) cor) (\<lambda>a. case a of None \<Rightarrow> Inr None | Some a \<Rightarrow> j2_mbc_drop a)"

section \<open>Lists\<close>

primrec j2_mbc_weld :: "noun \<Rightarrow> noun \<Rightarrow> u2_weak res" where
  "j2_mbc_weld (Atom a) b = (if a = 0 then Inr (Some b) else u2_bl_bail c3__exit)"
| "j2_mbc_weld (Cell h t) b = rbind (j2_mbc_weld t b) (\<lambda>r. Inr (u2_rl_cell (Some h) r))"

definition j2_mb_weld :: "noun \<Rightarrow> u2_weak res" where
  "j2_mb_weld cor = sam_nouns2 cor j2_mbc_weld"

primrec flop_loop :: "noun \<Rightarrow> u2_weak \<Rightarrow> u2_weak res" where
  "flop_loop (Atom a) b = (if a = 0 then Inr b else u2_bl_bail c3__exit)"
| "flop_loop (Cell h t) b = flop_loop t (u2_rl_cell (Some h) b)"

definition j2_mbc_flop :: "noun \<Rightarrow> u2_weak res" where
  "j2_mbc_flop a = flop_loop a (Some (Atom 0))"

definition j2_mb_flop :: "noun \<Rightarrow> u2_weak res" where
  "j2_mb_flop cor = sam_noun cor j2_mbc_flop"

primrec lent_loop :: "'m gmp \<Rightarrow> noun \<Rightarrow> u2_weak \<Rightarrow> u2_weak res" where
  "lent_loop G (Atom a) len = (if a = 0 then Inr len else u2_bl_bail c3__exit)"
| "lent_loop G (Cell h t) len = rbind (u2_rl_vint G len) (\<lambda>len. lent_loop G t len)"

definition j2_mbc_lent :: "'m gmp \<Rightarrow> noun \<Rightarrow> u2_weak res" where
  "j2_mbc_lent G a = lent_loop G a (Some (Atom 0))"

definition j2_mb_lent :: "'m gmp \<Rightarrow> noun \<Rightarrow> u2_weak res" where
  "j2_mb_lent G cor = sam_noun cor (j2_mbc_lent G)"

definition sam_atom_noun :: "noun \<Rightarrow> (nat \<Rightarrow> noun \<Rightarrow> 'a res) \<Rightarrow> 'a res" where
  "sam_atom_noun cor f =
     sam_nouns2 cor (\<lambda>a b. case a of Atom a \<Rightarrow> f a b | Cell _ _ \<Rightarrow> u2_bl_bail c3__exit)"

primrec slag_loop :: "nat \<Rightarrow> noun \<Rightarrow> noun" where
  "slag_loop 0 b = b"
| "slag_loop (Suc len_w) b = (case b of Atom _ \<Rightarrow> u2_nul | Cell _ t \<Rightarrow> slag_loop len_w t)"

definition j2_mbc_slag :: "nat \<Rightarrow> noun \<Rightarrow> u2_weak res" where
  "j2_mbc_slag a b = (if \<not> u2_fly_is_cat a then u2_bl_bail c3__fail else Inr (Some (slag_loop a b)))"

definition j2_mb_slag :: "noun \<Rightarrow> u2_weak res" where
  "j2_mb_slag cor = sam_atom_noun cor j2_mbc_slag"

primrec snag_loop :: "nat \<Rightarrow> noun \<Rightarrow> u2_weak res" where
  "snag_loop 0 b = (case b of Atom _ \<Rightarrow> u2_bl_bail c3__exit | Cell h _ \<Rightarrow> Inr (Some h))"
| "snag_loop (Suc len_w) b = (case b of Atom _ \<Rightarrow> u2_bl_bail c3__exit | Cell _ t \<Rightarrow> snag_loop len_w t)"

definition j2_mbc_snag :: "nat \<Rightarrow> noun \<Rightarrow> u2_weak res" where
  "j2_mbc_snag a b = (if \<not> u2_fly_is_cat a then u2_bl_bail c3__fail else snag_loop a b)"

definition j2_mb_snag :: "noun \<Rightarrow> u2_weak res" where
  "j2_mb_snag cor = sam_atom_noun cor j2_mbc_snag"

text \<open>
  The loop of \<^verbatim>\<open>scag\<close>: it returns 0 as soon as the list is too short; when it has taken all its items,
  the reversed list it passes on ends in the uninitialised accumulator.
\<close>

primrec scag_loop :: "nat \<Rightarrow> noun \<Rightarrow> u2_weak res" where
  "scag_loop 0 b = Inl Wild"
| "scag_loop (Suc i_w) b = (case b of Atom _ \<Rightarrow> Inr (Some u2_nul) | Cell _ t \<Rightarrow> scag_loop i_w t)"

definition j2_mbc_scag :: "nat \<Rightarrow> noun \<Rightarrow> u2_weak res" where
  "j2_mbc_scag a b =
     (if \<not> u2_fly_is_cat a then u2_bl_bail c3__fail
      else if a = 0 then Inr (Some u2_nul)
      else scag_loop a b)"

definition j2_mb_scag :: "noun \<Rightarrow> u2_weak res" where
  "j2_mb_scag cor = sam_atom_noun cor j2_mbc_scag"

section \<open>Correctness\<close>

lemma weld_correct: "j2_mbc_weld (noun_list xs) b = Inr (Some (foldr Cell xs b))"
  by (induction xs) simp_all

lemma foldr_Cell [simp]: "foldr Cell xs (noun_list ys) = noun_list (xs @ ys)"
  by (induction xs) simp_all

lemma flop_loop_correct: "flop_loop (noun_list xs) (Some (noun_list ys)) = Inr (Some (noun_list (rev xs @ ys)))"
proof (induction xs arbitrary: ys)
  case (Cons x xs)
  then show ?case using Cons.IH [of "x # ys"] by simp
qed simp

lemma flop_correct: "j2_mbc_flop (noun_list xs) = Inr (Some (noun_list (rev xs)))"
  using flop_loop_correct [of xs "[]"] by (simp add: j2_mbc_flop_def)

context gmp_laws
begin

lemma lent_loop:
  "atom_fits (n + length xs) \<Longrightarrow> lent_loop G (noun_list xs) (Some (Atom n)) = Inr (Some (Atom (n + length xs)))"
proof (induction xs arbitrary: n)
  case (Cons x xs)
  have fits: "atom_fits n" "atom_fits (n + 1)"
    using atom_fits_mono [OF _ Cons.prems] by simp_all
  then show ?case using Cons.IH [of "n + 1"] Cons.prems vint [OF fits(1)] by (simp add: atom_weak_def)
qed simp

lemma lent: "atom_fits (length xs) \<Longrightarrow> j2_mbc_lent G (noun_list xs) = Inr (Some (Atom (length xs)))"
  using lent_loop [of 0 xs] by (simp add: j2_mbc_lent_def)

end

lemma slag_loop_correct: "slag_loop n (noun_list xs) = noun_list (drop n xs)"
  by (induction n arbitrary: xs) (simp, rename_tac xs, case_tac xs, simp_all)

lemma snag_loop_correct:
  "snag_loop n (noun_list xs) = (if n < length xs then Inr (Some (xs ! n)) else Inl (Bail c3__exit))"
  by (induction n arbitrary: xs; rename_tac xs, case_tac xs) (simp_all add: u2_bl_bail_def)

lemma scag_loop_correct:
  "0 < n \<Longrightarrow> scag_loop n (noun_list xs) = (if n \<le> length xs then Inl Wild else Inr (Some u2_nul))"
proof (induction n arbitrary: xs)
  case (Suc n)
  then show ?case by (cases xs; cases n) auto
qed simp

lemma sam_atom_noun_gate [simp]: "sam_atom_noun (gate bat (Cell (Atom a) b) con) f = f a b"
  by (simp add: sam_atom_noun_def)

section \<open>Properties\<close>

text \<open>
  C38: on lists the jets are the list functions: \<^verbatim>\<open>weld\<close> appends, \<^verbatim>\<open>flop\<close> reverses, \<^verbatim>\<open>lent\<close> counts, \<^verbatim>\<open>slag\<close>
  drops, and \<^verbatim>\<open>snag\<close> indexes and exits past the end.
\<close>

theorem jets_lists:
  assumes "gmp_laws G val" "atom_fits (length xs)" "u2_fly_is_cat n"
  shows "j2_mb_weld (gate bat (Cell (noun_list xs) (noun_list ys)) con) = Inr (Some (noun_list (xs @ ys))) \<and>
    j2_mb_flop (gate bat (noun_list xs) con) = Inr (Some (noun_list (rev xs))) \<and>
    j2_mb_lent G (gate bat (noun_list xs) con) = Inr (Some (Atom (length xs))) \<and>
    j2_mb_slag (gate bat (Cell (Atom n) (noun_list xs)) con) = Inr (Some (noun_list (drop n xs))) \<and>
    j2_mb_snag (gate bat (Cell (Atom n) (noun_list xs)) con) =
      (if n < length xs then Inr (Some (xs ! n)) else Inl (Bail c3__exit))"
  using assms by (simp add: j2_mb_weld_def weld_correct j2_mb_flop_def flop_correct j2_mb_lent_def gmp_laws.lent
      j2_mb_slag_def j2_mbc_slag_def slag_loop_correct j2_mb_snag_def j2_mbc_snag_def snag_loop_correct)

theorem jets_lists_witness:
  "j2_mb_weld (gate (Atom 0) (Cell (noun_list [Atom 1]) (noun_list [Atom 2])) (Atom 0)) =
     Inr (Some (noun_list ([Atom 1] @ [Atom 2]))) \<and>
    j2_mb_flop (gate (Atom 0) (noun_list [Atom 1]) (Atom 0)) = Inr (Some (noun_list (rev [Atom 1]))) \<and>
    j2_mb_lent gmp_int (gate (Atom 0) (noun_list [Atom 1]) (Atom 0)) = Inr (Some (Atom (length [Atom 1]))) \<and>
    j2_mb_slag (gate (Atom 0) (Cell (Atom 0) (noun_list [Atom 1])) (Atom 0)) = Inr (Some (noun_list (drop 0 [Atom 1]))) \<and>
    j2_mb_snag (gate (Atom 0) (Cell (Atom 0) (noun_list [Atom 1])) (Atom 0)) =
      (if 0 < length [Atom 1] then Inr (Some ([Atom 1] ! 0)) else Inl (Bail c3__exit))"
  by (rule jets_lists [OF gmp_ref.gmp_laws_axioms]) (simp_all add: cat_fits u2_fly_is_cat_def)

text \<open>
  \<^verbatim>\<open>scag\<close> does not return the first items of a list: it reads through its uninitialised accumulator when
  the list has enough of them, and returns the empty list when it has fewer.
\<close>

theorem scag_broken:
  assumes "u2_fly_is_cat n" "0 < n"
  shows "j2_mb_scag (gate bat (Cell (Atom n) (noun_list xs)) con) =
    (if n \<le> length xs then Inl Wild else Inr (Some (noun_list [])))"
  using assms by (simp add: j2_mb_scag_def j2_mbc_scag_def scag_loop_correct)

theorem scag_broken_witness:
  "j2_mb_scag (gate (Atom 0) (Cell (Atom 1) (noun_list [Atom 7])) (Atom 0)) = Inl Wild \<and>
   j2_mb_scag (gate (Atom 0) (Cell (Atom 2) (noun_list [Atom 7])) (Atom 0)) = Inr (Some (noun_list []))"
  using scag_broken [of 1 _ "[Atom 7]"] scag_broken [of 2 _ "[Atom 7]"] by (simp add: u2_fly_is_cat_def)

end
