(* ===== verification/Jam.thy ===== *)
theory Jam
  imports Nash Lists3 Jets2
begin

text \<open>
  Serialisation, \<^verbatim>\<open>gen164/5\<close>: \<^verbatim>\<open>mat\<close> and \<^verbatim>\<open>rub\<close> write and read an atom of any length as a string of bits, \<^verbatim>\<open>jam\<close>
  and \<^verbatim>\<open>cue\<close> a noun, with a back reference in place of a noun that has been written before. Both keep a
  nounhash: \<^verbatim>\<open>jam\<close> of the positions where nouns were written, \<^verbatim>\<open>cue\<close> of the nouns read at each position. The cells
  in which these functions hand each other several results are tuples here.

  The tables hold no references. The positions in them are direct atoms as long as they are below
  \<open>2\<^sup>3\<^sup>1\<close>; a longer one is freed while the table still refers to it, so using it is \<open>Wild\<close>.
\<close>

section \<open>Atoms as strings of bits\<close>

text \<open>An intermediate result as an argument, and as a part of a cell.\<close>

definition jarg :: "u2_weak res \<Rightarrow> (nat \<Rightarrow> 'a res) \<Rightarrow> 'a res" where
  "jarg r f = rbind r (\<lambda>a. rbind (atom_arg a) f)"

definition garg :: "u2_weak res \<Rightarrow> (nat \<Rightarrow> 'a res) \<Rightarrow> 'a res" where
  "garg r f = rbind r (\<lambda>a. case a of None \<Rightarrow> u2_bl_bail c3__exit | Some n \<Rightarrow> rbind (atom_arg (Some n)) f)"

lemma arg_simps [simp]:
  "jarg (Inr (Some (Atom a))) f = f a" "garg (Inr (Some (Atom a))) f = f a"
  "jarg (Inl e) f = Inl e" "garg (Inl e) f = Inl e"
  by (simp_all add: jarg_def garg_def)

definition j2_mby_mat :: "'m gmp \<Rightarrow> nat \<Rightarrow> (nat \<times> nat) res" where
  "j2_mby_mat G a =
     (if a = 0 then Inr (1, 1)
      else jarg (j2_mbc_met 0 a) (\<lambda>b.
           jarg (j2_mbc_met 0 b) (\<lambda>c.
           jarg (j2_mbc_dec G c) (\<lambda>u.
           jarg (j2_mbc_add G c c) (\<lambda>v.
           jarg (j2_mbc_bex G c) (\<lambda>w.
           jarg (j2_mbc_end 0 u b) (\<lambda>x.
           jarg (j2_mbc_lsh 0 u a) (\<lambda>y.
           jarg (j2_mbc_mix x y) (\<lambda>z.
           garg (j2_mbc_add G v b) (\<lambda>p.
           garg (j2_mbc_cat 0 w z) (\<lambda>q. Inr (p, q))))))))))))"

definition j2_mb_mat :: "'m gmp \<Rightarrow> noun \<Rightarrow> u2_weak res" where
  "j2_mb_mat G cor =
     rbind (u2_frag (Atom 6) cor) (\<lambda>a. case a of
       None \<Rightarrow> u2_bl_bail c3__fail
     | Some a \<Rightarrow> rbind (atom_arg (Some a)) (\<lambda>a. rbind (j2_mby_mat G a) (\<lambda>(p, q). Inr (Some (Cell (Atom p) (Atom q))))))"

text \<open>
  The loop of \<^verbatim>\<open>rub\<close> that counts zero bits. It stops at the latest two bits after the end of \<open>b\<close>, so the fuel
  that \<^verbatim>\<open>rub\<close> starts it with is never used up.
\<close>

primrec rub_loop :: "'m gmp \<Rightarrow> nat \<Rightarrow> nat \<Rightarrow> nat \<Rightarrow> nat \<Rightarrow> nat res" where
  "rub_loop G 0 x m b = Inl Wild"
| "rub_loop G (Suc n) x m b =
     jarg (j2_mbc_cut 0 x 1 b) (\<lambda>i.
       if i = 0 then
         jarg (j2_mbc_inc G x) (\<lambda>y.
         rbind (j2_mbc_gth G x m) (\<lambda>g.
           if g = Some (Atom u2_yes) then u2_bl_bail c3__exit else rub_loop G n y m b))
       else Inr x)"

definition j2_mby_rub :: "'m gmp \<Rightarrow> nat \<Rightarrow> nat \<Rightarrow> (nat \<times> nat) res" where
  "j2_mby_rub G a b =
     rbind (cat_noun (u2_met 0 b)) (\<lambda>len.
     jarg (j2_mbc_add G a len) (\<lambda>m.
     rbind (rub_loop G (nbits b + 2) a m b) (\<lambda>x.
       if x = a then Inr (1, 0)
       else
         jarg (j2_mbc_sub G x a) (\<lambda>c.
         jarg (j2_mbc_inc G x) (\<lambda>d.
         jarg (j2_mbc_dec G c) (\<lambda>x.
         jarg (j2_mbc_bex G x) (\<lambda>y.
         jarg (j2_mbc_cut 0 d x b) (\<lambda>z.
         jarg (j2_mbc_add G y z) (\<lambda>e.
         jarg (j2_mbc_add G c c) (\<lambda>w.
         jarg (j2_mbc_add G w e) (\<lambda>y.
         jarg (j2_mbc_add G d x) (\<lambda>z.
         garg (j2_mbc_add G w e) (\<lambda>p.
         garg (j2_mbc_cut 0 z e b) (\<lambda>q. Inr (p, q)))))))))))))))"

definition j2_mb_rub :: "'m gmp \<Rightarrow> noun \<Rightarrow> u2_weak res" where
  "j2_mb_rub G cor =
     rbind (u2_mean cor [12, 13]) (\<lambda>r. case r of
       Some [Atom a, Atom b] \<Rightarrow> rbind (j2_mby_rub G a b) (\<lambda>(p, q). Inr (Some (Cell (Atom p) (Atom q))))
     | _ \<Rightarrow> u2_bl_bail c3__fail)"

section \<open>Nouns as strings of bits\<close>

definition jam_in_flat :: "'m gmp \<Rightarrow> nat \<Rightarrow> noun \<Rightarrow> (nat \<times> noun) res" where
  "jam_in_flat G a l =
     rbind (j2_mby_mat G a) (\<lambda>(h_d, t_d).
     garg (j2_mbc_add G 1 h_d) (\<lambda>x.
     garg (j2_mbc_lsh 0 1 t_d) (\<lambda>y.
       Inr (x, Cell (Cell (Atom x) (Atom y)) l))))"

definition jam_in_ptr :: "'m gmp \<Rightarrow> nat \<Rightarrow> noun \<Rightarrow> (nat \<times> noun) res" where
  "jam_in_ptr G u_c l =
     rbind (j2_mby_mat G u_c) (\<lambda>(h_d, t_d).
     jarg (j2_mbc_lsh 0 2 t_d) (\<lambda>x.
     garg (j2_mbc_add G 2 h_d) (\<lambda>y.
     garg (j2_mbc_mix 3 x) (\<lambda>z.
       Inr (y, Cell (Cell (Atom y) (Atom z)) l)))))"

text \<open>\<^verbatim>\<open>jam_in\<close>, with \<^verbatim>\<open>jam_in_pair\<close> in its place for a cell that has not been seen.\<close>

primrec jam_in :: "'m gmp \<Rightarrow> noun \<Rightarrow> nat \<Rightarrow> noun \<Rightarrow> nat u2_nash \<Rightarrow> ((nat \<times> noun) \<times> nat u2_nash) res" where
  "jam_in G (Atom a) b l T_m =
     rbind (u2_na_get T_m (Atom a)) (\<lambda>c. case c of
       None \<Rightarrow> rbind (u2_na_put T_m (Atom a) b) (\<lambda>T_m. rbind (jam_in_flat G a l) (\<lambda>x. Inr (x, T_m)))
     | Some c \<Rightarrow>
         if \<not> u2_fly_is_cat c then Inl Wild
         else if u2_met 0 a \<le> u2_met 0 c then rbind (jam_in_flat G a l) (\<lambda>x. Inr (x, T_m))
         else rbind (jam_in_ptr G c l) (\<lambda>x. Inr (x, T_m)))"
| "jam_in G (Cell h_a t_a) b l T_m =
     rbind (u2_na_get T_m (Cell h_a t_a)) (\<lambda>c. case c of
       None \<Rightarrow>
         rbind (u2_na_put T_m (Cell h_a t_a) b) (\<lambda>T_m.
           let w = Cell (Cell (Atom 2) (Atom 1)) l
           in jarg (j2_mbc_add G 2 b) (\<lambda>x.
              rbind (jam_in G h_a x w T_m) (\<lambda>((p_d, q_d), T_m).
              jarg (j2_mbc_add G x p_d) (\<lambda>y.
              rbind (jam_in G t_a y q_d T_m) (\<lambda>((p_e, q_e), T_m).
              jarg (j2_mbc_add G p_d p_e) (\<lambda>z.
              garg (j2_mbc_add G 2 z) (\<lambda>p. Inr ((p, q_e), T_m))))))))
     | Some c \<Rightarrow> if \<not> u2_fly_is_cat c then Inl Wild else rbind (jam_in_ptr G c l) (\<lambda>x. Inr (x, T_m)))"

definition j2_mby_jam :: "'m gmp \<Rightarrow> noun \<Rightarrow> u2_weak res" where
  "j2_mby_jam G a =
     rbind (jam_in G a 0 u2_nul u2_na_make) (\<lambda>((p, l), T_m).
     rbind (j2_mbc_flop l) (\<lambda>q. case q of None \<Rightarrow> Inl Wild | Some q \<Rightarrow> j2_mbc_can 0 q))"

definition j2_mb_jam :: "'m gmp \<Rightarrow> noun \<Rightarrow> u2_weak res" where
  "j2_mb_jam G cor =
     rbind (u2_frag (Atom 6) cor) (\<lambda>a. case a of None \<Rightarrow> u2_bl_bail c3__fail | Some a \<Rightarrow> j2_mby_jam G a)"

text \<open>Every nested call of \<^verbatim>\<open>cue_in\<close> is at least two bits further on, so the number of bits bounds the depth.\<close>

definition cue_put :: "noun u2_nash \<Rightarrow> nat \<Rightarrow> noun \<Rightarrow> noun u2_nash res" where
  "cue_put T_r b q = (if u2_fly_is_cat b then u2_na_put T_r (Atom b) q else Inl Wild)"

primrec cue_in :: "'m gmp \<Rightarrow> nat \<Rightarrow> nat \<Rightarrow> nat \<Rightarrow> noun u2_nash \<Rightarrow> ((nat \<times> noun) \<times> noun u2_nash) res" where
  "cue_in G 0 a b T_r = Inl Wild"
| "cue_in G (Suc n) a b T_r =
     jarg (j2_mbc_cut 0 b 1 a) (\<lambda>i.
       if i = 0 then
         jarg (j2_mbc_inc G b) (\<lambda>x.
         rbind (j2_mby_rub G x a) (\<lambda>(h_c, t_c).
         rbind (cue_put T_r b (Atom t_c)) (\<lambda>T_r.
         garg (j2_mbc_inc G h_c) (\<lambda>p. Inr ((p, Atom t_c), T_r)))))
       else
         jarg (j2_mbc_add G 2 b) (\<lambda>c.
         jarg (j2_mbc_inc G b) (\<lambda>l.
         jarg (j2_mbc_cut 0 l 1 a) (\<lambda>i.
           if i = 0 then
             rbind (cue_in G n a c T_r) (\<lambda>((p_u, q_u), T_r).
             jarg (j2_mbc_add G p_u c) (\<lambda>x.
             rbind (cue_in G n a x T_r) (\<lambda>((p_v, q_v), T_r).
             jarg (j2_mbc_add G p_u p_v) (\<lambda>y.
             rbind (cue_put T_r b (Cell q_u q_v)) (\<lambda>T_r.
             garg (j2_mbc_add G 2 y) (\<lambda>p. Inr ((p, Cell q_u q_v), T_r)))))))
           else
             rbind (j2_mby_rub G c a) (\<lambda>(h_d, t_d).
             rbind (u2_na_get T_r (Atom t_d)) (\<lambda>x. case x of
               None \<Rightarrow> u2_bl_bail c3__exit
             | Some q \<Rightarrow> garg (j2_mbc_add G 2 h_d) (\<lambda>p. Inr ((p, q), T_r))))))))"

definition j2_mby_cue :: "'m gmp \<Rightarrow> nat \<Rightarrow> noun res" where
  "j2_mby_cue G a = rbind (cue_in G (nbits a + 1) a 0 u2_na_make) (\<lambda>((p, q), T_r). Inr q)"

definition j2_mb_cue :: "'m gmp \<Rightarrow> noun \<Rightarrow> u2_weak res" where
  "j2_mb_cue G cor =
     rbind (u2_frag (Atom 6) cor) (\<lambda>a. case a of
       None \<Rightarrow> u2_bl_bail c3__fail
     | Some a \<Rightarrow> rbind (atom_arg (Some a)) (\<lambda>a. rbind (j2_mby_cue G a) (\<lambda>n. Inr (Some n))))"

section \<open>What \<^verbatim>\<open>mat\<close> writes and \<^verbatim>\<open>rub\<close> reads\<close>

definition mat_len :: "nat \<Rightarrow> nat" where
  "mat_len a = (if a = 0 then 1 else 2 * nbits (nbits a) + nbits a)"

definition mat_val :: "nat \<Rightarrow> nat" where
  "mat_val a =
     (if a = 0 then 1
      else let b = nbits a; c = nbits b
           in 2 ^ c + 2 ^ (c + 1) * (b mod 2 ^ (c - 1) + 2 ^ (c - 1) * a))"

lemma fits_nbits: "nbits a \<le> 2 ^ 31 + 2 ^ 16 \<Longrightarrow> atom_fits a"
  by (simp add: atom_fits_def length_atom_words div_less_iff_less_mult)

lemma atom_weak_fits [simp]: "atom_fits a \<Longrightarrow> atom_weak a = Inr (Some (Atom a))"
  by (simp add: atom_weak_def)

lemma small_fits: "a < 2 ^ 40 \<Longrightarrow> atom_fits a"
  using nbits_le_iff [of a 40] by (intro fits_nbits) simp

lemma nbits_gr_0 [simp]: "0 < nbits a \<longleftrightarrow> 0 < a"
  using nbits_eq_0 [of a] by linarith

lemma nbits_small: "b < 2 ^ 31 \<Longrightarrow> nbits b \<le> 31"
  by (simp add: nbits_le_iff)

lemma mat_val_nbits: "nbits (mat_val a) = mat_len a"
proof (cases "a = 0")
  case False
  let ?b = "nbits a" and ?c = "nbits (nbits a)"
  have c: "0 < ?c" using False by (simp add: nbits_pos)
  let ?z = "?b mod 2 ^ (?c - 1) + 2 ^ (?c - 1) * a"
  have z: "nbits ?z = ?c - 1 + ?b" using False by (intro nbits_add_power) simp_all
  have "0 < ?z" using False by simp
  then have "nbits (2 ^ ?c + 2 ^ (?c + 1) * ?z) = ?c + 1 + nbits ?z" by (intro nbits_add_power) simp_all
  then show ?thesis using False c z by (simp add: mat_val_def mat_len_def Let_def)
qed (simp add: mat_val_def mat_len_def nbits_pos)

lemma cut_val:
  assumes "nbits A < 2 ^ 31"
  shows "j2_mbc_cut 0 x w A = Inr (Some (Atom (A div 2 ^ x mod 2 ^ w)))"
proof (cases "u2_fly_is_cat x")
  case True
  have "nbits A - x < 2 ^ 31" using assms by (rule le_less_trans [OF diff_le_self])
  then show ?thesis using cut_correct [of 0 x w A] True assms fits_nbits [of A] by simp
next
  case False
  then have "A < 2 ^ x" using assms by (simp add: u2_fly_is_cat_def flip: nbits_le_iff)
  then show ?thesis using False by (simp add: j2_mbc_cut_def)
qed

lemma cut_bit:
  assumes "nbits A < 2 ^ 31"
  shows "j2_mbc_cut 0 x (Suc 0) A = Inr (Some (Atom (of_bool (bit A x))))"
  using cut_val [OF assms, of x 1] by (simp add: bit_iff_odd mod2_eq_if)

text \<open>A field of an atom: the bits from a position on.\<close>

definition field_at :: "nat \<Rightarrow> nat \<Rightarrow> nat \<Rightarrow> nat \<Rightarrow> bool" where
  "field_at A p n v \<longleftrightarrow> A div 2 ^ p mod 2 ^ n = v"

lemma field_bit: "field_at A p n v \<Longrightarrow> i < n \<Longrightarrow> bit A (p + i) = bit v i"
  unfolding field_at_def by (auto simp: bit_simps simp flip: take_bit_eq_mod drop_bit_eq_div)

lemma field_split:
  assumes "u < 2 ^ m"
  shows "field_at A p (m + n) (u + 2 ^ m * v) \<longleftrightarrow> field_at A p m u \<and> field_at A (p + m) n v"
proof -
  have e: "A div 2 ^ p mod 2 ^ (m + n) = A div 2 ^ p mod 2 ^ m + 2 ^ m * (A div 2 ^ (p + m) mod 2 ^ n)"
  proof -
    have "A div 2 ^ (p + m) = A div 2 ^ p div 2 ^ m" by (simp add: power_add div_mult2_eq)
    then show ?thesis using mod_mult2_eq [of "A div 2 ^ p" "2 ^ m" "2 ^ n"] by (simp add: power_add)
  qed
  show ?thesis
  proof
    assume "field_at A p (m + n) (u + 2 ^ m * v)"
    then have eq: "A div 2 ^ p mod 2 ^ m + 2 ^ m * (A div 2 ^ (p + m) mod 2 ^ n) = u + 2 ^ m * v"
      unfolding field_at_def e .
    from arg_cong [OF this, of "\<lambda>x. x mod 2 ^ m"] arg_cong [OF this, of "\<lambda>x. x div 2 ^ m"]
    show "field_at A p m u \<and> field_at A (p + m) n v" using assms by (simp add: field_at_def)
  qed (simp add: field_at_def e)
qed

lemma field_mat:
  assumes "0 < a" "b = nbits a" "c = nbits b" "field_at A p (mat_len a) (mat_val a)"
  shows "field_at A p c 0" "field_at A (p + c) 1 1" "field_at A (p + c + 1) (c - 1) (b mod 2 ^ (c - 1))"
    "field_at A (p + c + 1 + (c - 1)) b a"
proof -
  have c: "0 < c" using assms by simp
  have len: "mat_len a = c + (1 + (c - 1 + b))"
    and val: "mat_val a = 0 + 2 ^ c * (1 + 2 ^ 1 * (b mod 2 ^ (c - 1) + 2 ^ (c - 1) * a))"
    using assms c by (simp_all add: mat_len_def mat_val_def Let_def algebra_simps)
  have f: "field_at A p (c + (1 + (c - 1 + b))) (0 + 2 ^ c * (1 + 2 ^ 1 * (b mod 2 ^ (c - 1) + 2 ^ (c - 1) * a)))"
    using assms(4) unfolding len val .
  have g: "field_at A p c 0 \<and> field_at A (p + c) (1 + (c - 1 + b)) (1 + 2 ^ 1 * (b mod 2 ^ (c - 1) + 2 ^ (c - 1) * a))"
    by (rule iffD1 [OF field_split f]) simp
  have h: "field_at A (p + c) 1 1 \<and> field_at A (p + c + 1) (c - 1 + b) (b mod 2 ^ (c - 1) + 2 ^ (c - 1) * a)"
    by (rule iffD1 [OF field_split g [THEN conjunct2]]) simp
  have "field_at A (p + c + 1) (c - 1) (b mod 2 ^ (c - 1)) \<and> field_at A (p + c + 1 + (c - 1)) b a"
    by (rule iffD1 [OF field_split h [THEN conjunct2]]) simp
  then show "field_at A p c 0" "field_at A (p + c) 1 1" "field_at A (p + c + 1) (c - 1) (b mod 2 ^ (c - 1))"
    "field_at A (p + c + 1 + (c - 1)) b a"
    using g h by blast+
qed

lemma nbits_top: "0 < b \<Longrightarrow> 2 ^ (nbits b - 1) + b mod 2 ^ (nbits b - 1) = b"
proof -
  assume b: "0 < b"
  then have "b div 2 ^ (nbits b - 1) = 1"
  proof -
    have "b < 2 ^ Suc (nbits b - 1)" using b less_two_power_nbits [of b] by simp
    moreover have "2 ^ (nbits b - 1) \<le> b" using b nbits_less_iff [of "nbits b - 1" b] by simp
    ultimately show ?thesis by (simp add: div_nat_eqI)
  qed
  then show ?thesis using div_mult_mod_eq [of b "2 ^ (nbits b - 1)"] by simp
qed

text \<open>The result of \<^verbatim>\<open>rub\<close> when the first set bit from position \<open>a\<close> is the one after \<open>k\<close> zeros.\<close>

definition rub_out :: "nat \<Rightarrow> nat \<Rightarrow> nat \<Rightarrow> nat \<times> nat" where
  "rub_out a k A =
     (if k = 0 then (1, 0)
      else let e = 2 ^ (k - 1) + A div 2 ^ (a + k + 1) mod 2 ^ (k - 1)
           in (k + k + e, A div 2 ^ (a + k + 1 + (k - 1)) mod 2 ^ e))"

context gmp_laws
begin

lemma mbc_bex: "u2_fly_is_cat a \<Longrightarrow> j2_mbc_bex G a = atom_weak (2 ^ a)"
  using u2_rl_mp_val [of "mpz_mul_2exp G (mpz_init_set_ui G 1) a" "2 ^ a"]
  by (simp add: j2_mbc_bex_def mul_2exp val_set_ui)

lemma mat_correct:
  assumes "nbits a < 2 ^ 31"
  shows "j2_mby_mat G a = Inr (mat_len a, mat_val a)"
proof (cases "a = 0")
  case False
  let ?b = "nbits a" and ?c = "nbits (nbits a)"
  have "?c \<noteq> 0" using False by simp
  then have c: "0 < ?c" "?c \<le> 31" using nbits_small [OF assms] by simp_all
  have fa: "atom_fits a" "atom_fits ?b" "atom_fits ?c" "atom_fits (?c + ?c)" "atom_fits (?c + ?c + ?b)"
    using assms c by (auto intro: fits_nbits small_fits)
  let ?x = "?b mod 2 ^ (?c - 1)" and ?y = "a * 2 ^ (?c - 1)"
  have x: "?x < 2 ^ (?c - 1)" by simp
  let ?z = "?x + 2 ^ (?c - 1) * a"
  have nz: "nbits ?z = ?c - 1 + ?b" using False by (intro nbits_add_power) simp_all
  have ny: "nbits ?y = ?c - 1 + ?b" using nbits_add_power [of a 0 "?c - 1"] False by (simp add: mult.commute)
  have fy: "atom_fits ?y" "atom_fits ?x" "atom_fits ?z" "atom_fits (2 ^ ?c)"
    using assms c ny nz nbits_le_iff [of "2 ^ ?c" 32] power_strict_increasing [of ?c 32 "2::nat"]
      atom_fits_mono [OF mod_less_eq_dividend fa(2)]
    by (auto intro!: fits_nbits)
  have cat: "u2_fly_is_cat ?c" "u2_fly_is_cat (?c - 1)" using c by (simp_all add: u2_fly_is_cat_def)
  have lsh: "j2_mbc_lsh 0 (?c - 1) a = Inr (Some (Atom ?y))"
    using lsh_correct [of 0 "?c - 1" a] fa cat assms c by simp
  have "?x XOR ?y = ?z" using xor_push [OF x, of a] by (simp add: push_bit_eq_mult mult.commute)
  then have mix: "j2_mbc_mix ?x ?y = Inr (Some (Atom ?z))" using mix_correct [OF fy(2,1)] by simp
  have m: "nbits (2 ^ ?c) = ?c + 1" using nbits_eqI [of ?c "2 ^ ?c"] by simp
  have ct: "j2_mbc_cat 0 (2 ^ ?c) ?z = Inr (Some (Atom (mat_val a)))"
    using cat_correct [of 0 "2 ^ ?c" ?z] fy assms c nz m False
    by (simp add: mat_val_def Let_def mult.commute)
  show ?thesis
    using False fa fy cat c lsh mix ct mbc_dec [of ?c] mbc_add [of ?c ?c] mbc_add [of "?c + ?c" ?b]
    by (simp add: j2_mby_mat_def met_correct mbc_bex end_correct mat_len_def)
qed (simp add: j2_mby_mat_def mat_len_def mat_val_def)

lemma rub_loop_found:
  assumes A: "nbits A < 2 ^ 31"
  shows "\<forall>i<k. \<not> bit A (x + i) \<Longrightarrow> bit A (x + k) \<Longrightarrow> k < n \<Longrightarrow> x + k \<le> m + 1 \<Longrightarrow> m < 2 ^ 35 \<Longrightarrow>
    rub_loop G n x m A = Inr (x + k)"
proof (induction n arbitrary: x k)
  case (Suc n)
  show ?case
  proof (cases k)
    case 0
    then show ?thesis using Suc.prems by (simp add: cut_bit [OF A])
  next
    case (Suc k')
    have "\<not> bit A x" using Suc.prems(1) Suc by (metis add_0_right zero_less_Suc)
    moreover have "\<forall>i<k'. \<not> bit A (Suc x + i)" using Suc.prems(1) Suc by auto
    ultimately show ?thesis
      using Suc.IH [of k' "Suc x"] Suc.prems Suc small_fits [of x] small_fits [of "Suc x"] small_fits [of m]
        mbc_inc [of x] mbc_gth [of x m]
      by (simp add: cut_bit [OF A])
  qed
qed simp

lemma rub_loop_none:
  assumes A: "nbits A < 2 ^ 31" and m: "atom_fits (m + 2)"
  shows "\<forall>i\<ge>x. \<not> bit A i \<Longrightarrow> m + 1 - x < n \<Longrightarrow> x \<le> m + 1 \<Longrightarrow> rub_loop G n x m A = Inl (Bail c3__exit)"
proof (induction n arbitrary: x)
  case (Suc n)
  have fits: "atom_fits x" "atom_fits (Suc x)" "atom_fits m" using Suc.prems m by (auto elim!: atom_fits_mono [rotated])
  have "\<not> bit A x" using Suc.prems(1) by simp
  then show ?case
    using Suc.IH [of "Suc x"] Suc.prems fits mbc_inc [of x] mbc_gth [of x m]
    by (cases "m < x") (auto simp add: cut_bit [OF A] u2_bl_bail_def)
qed simp

lemma rub_none:
  assumes "nbits A < 2 ^ 31" "\<forall>i\<ge>a. \<not> bit A i" "nbits a \<le> 2 ^ 31 + 2 ^ 15"
  shows "j2_mby_rub G a A = Inl (Bail c3__exit)"
proof -
  have "a + nbits A + 2 < 2 ^ nbits a + 2 ^ 32" using less_two_power_nbits [of a] assms(1) by simp
  also have "\<dots> \<le> 2 ^ (nbits a + 32) + 2 ^ (nbits a + 32)" by (intro add_mono power_increasing) simp_all
  also have "\<dots> = 2 ^ (nbits a + 33)" by (simp add: power_add)
  finally have "atom_fits (a + nbits A + 2)"
    using assms(3) nbits_le_iff [of "a + nbits A + 2" "nbits a + 33"] by (intro fits_nbits) simp
  moreover have "unat (u2_met 0 A) < 2 ^ 31" using assms(1) fits_nbits [of A] by simp
  ultimately show ?thesis
    using rub_loop_none [OF assms(1), of "a + nbits A" a "nbits A + 2"] assms mbc_add [of a "nbits A"]
      atom_fits_mono [of _ "a + nbits A + 2"] fits_nbits [of A]
    by (simp add: j2_mby_rub_def cat_noun_def)
qed

lemma rub_found:
  assumes A: "nbits A < 2 ^ 31" and k: "\<forall>i<k. \<not> bit A (a + i)" "bit A (a + k)"
  shows "j2_mby_rub G a A = Inr (rub_out a k A)"
proof -
  have ak: "a + k < nbits A" using k(2) by (rule bit_imp_less_nbits)
  have fits: "atom_fits n" if "n < 2 ^ 35" for n using that by (intro small_fits) simp
  have met: "cat_noun (u2_met 0 A) = Inr (nbits A)" using A fits_nbits [of A] by (simp add: cat_noun_def)
  have loop: "rub_loop G (nbits A + 2) a (a + nbits A) A = Inr (a + k)"
    using A k ak by (intro rub_loop_found) auto
  show ?thesis
  proof (cases "k = 0")
    case True
    then show ?thesis using met loop A ak fits mbc_add [of a "nbits A"] by (simp add: j2_mby_rub_def rub_out_def)
  next
    case False
    let ?z = "A div 2 ^ (a + k + 1) mod 2 ^ (k - 1)" and ?y = "(2::nat) ^ (k - 1)"
    have z: "?z < ?y" by simp
    have p: "?y + ?y = 2 ^ k" using False by (cases k) simp_all
    have nb: "nbits n \<le> k + 2" if "n < 2 ^ (k + 2)" for n using that by (simp add: nbits_le_iff)
    have "k < 2 ^ k" by (rule less_exp)
    have lt: "?y + ?z < 2 ^ (k + 2)" "k + k + (?y + ?z) < 2 ^ (k + 2)" "?y < 2 ^ (k + 2)" "?z < 2 ^ (k + 2)"
    proof -
      have "(2::nat) ^ (k + 2) = 4 * 2 ^ k" by (simp add: power_add)
      then show "?y + ?z < 2 ^ (k + 2)" "k + k + (?y + ?z) < 2 ^ (k + 2)" "?y < 2 ^ (k + 2)" "?z < 2 ^ (k + 2)"
        using z p \<open>k < 2 ^ k\<close> by linarith+
    qed
    have "k + 2 \<le> 2 ^ 31 + 2 ^ 16" using ak A by simp
    then have f: "atom_fits (?y + ?z)" "atom_fits (k + k + (?y + ?z))" "atom_fits ?y" "atom_fits ?z"
      using lt nb by (meson fits_nbits order_trans)+
    show ?thesis
      using False met loop A ak fits f mbc_add [of a "nbits A"] mbc_sub [of "a + k" a] mbc_inc [of "a + k"] mbc_dec [of k]
        mbc_bex [of "k - 1"] mbc_add [of ?y ?z] mbc_add [of k k] mbc_add [of "k + k" "?y + ?z"] mbc_add [of "Suc (a + k)" "k - 1"]
      by (simp add: j2_mby_rub_def rub_out_def cut_val [OF A] u2_fly_is_cat_def Let_def)
  qed
qed

lemma rub_read:
  assumes A: "nbits A < 2 ^ 31" and at: "field_at A p (mat_len a) (mat_val a)"
  shows "j2_mby_rub G p A = Inr (mat_len a, a)"
proof (cases "a = 0")
  case True
  then have "bit A (p + 0)" using field_bit [OF at, of 0] by (simp add: mat_len_def mat_val_def bit_0)
  then show ?thesis using rub_found [OF A, of 0 p] True by (simp add: rub_out_def mat_len_def)
next
  case False
  let ?b = "nbits a" and ?c = "nbits (nbits a)"
  note f = field_mat [OF _ refl refl at]
  have c: "0 < ?c" using False by simp
  have "\<not> bit A (p + i)" if "i < ?c" for i using field_bit [OF f(1) that] False by simp
  moreover have "bit A (p + ?c)" using field_bit [OF f(2), of 0] False by (simp add: bit_0)
  ultimately have "j2_mby_rub G p A = Inr (rub_out p ?c A)" by (intro rub_found [OF A]) auto
  moreover have "A div 2 ^ (p + ?c + 1) mod 2 ^ (?c - 1) = ?b mod 2 ^ (?c - 1)" using f(3) False by (simp add: field_at_def)
  moreover have "2 ^ (?c - 1) + ?b mod 2 ^ (?c - 1) = ?b" using nbits_top [of ?b] False by simp
  moreover have "A div 2 ^ (p + ?c + 1 + (?c - 1)) mod 2 ^ ?b = a" using f(4) False by (simp add: field_at_def)
  ultimately show ?thesis using False c by (simp add: rub_out_def mat_len_def Let_def)
qed

lemma mat_len_cat: "c < 2 ^ 31 \<Longrightarrow> mat_len c \<le> 41"
  using nbits_small [of c] nbits_le_iff [of "nbits c" 5] by (simp add: mat_len_def)

lemma jam_in_flat_correct:
  assumes "nbits a < 2 ^ 31"
  shows "jam_in_flat G a l = Inr (1 + mat_len a, Cell (pair_noun (1 + mat_len a, 2 * mat_val a)) l)"
proof -
  have len: "mat_len a < 2 ^ 31 + 100" using assms nbits_small [of "nbits a"] by (simp add: mat_len_def)
  then have f: "atom_fits (mat_len a)" "atom_fits (Suc (mat_len a))" "atom_fits 1" "atom_fits (mat_val a)"
    using small_fits [of "mat_len a"] small_fits [of "Suc (mat_len a)"] small_fits [of 1] fits_nbits [of "mat_val a"]
    by (simp_all add: mat_val_nbits)
  have "j2_mbc_lsh 0 1 (mat_val a) = Inr (Some (Atom (mat_val a * 2)))"
    using lsh_correct [of 0 1 "mat_val a"] f(4) len by (simp add: u2_fly_is_cat_def mat_val_nbits)
  then show ?thesis
    using f mbc_add [of 1 "mat_len a"] mat_correct [OF assms] by (simp add: jam_in_flat_def pair_noun_def mult.commute)
qed

lemma jam_in_ptr_correct:
  assumes "u2_fly_is_cat c"
  shows "jam_in_ptr G c l = Inr (2 + mat_len c, Cell (pair_noun (2 + mat_len c, 3 + 4 * mat_val c)) l)"
proof -
  have "nbits c \<le> 31" using assms by (simp add: u2_fly_is_cat_def nbits_le_iff)
  have len: "mat_len c \<le> 41" using assms by (simp add: u2_fly_is_cat_def mat_len_cat)
  then have f: "atom_fits (mat_len c)" "atom_fits (2 + mat_len c)" "atom_fits 2" "atom_fits (mat_val c)" "atom_fits 3"
    using small_fits [of "mat_len c"] small_fits [of "2 + mat_len c"] small_fits [of 2] small_fits [of 3] fits_nbits [of "mat_val c"]
    by (simp_all add: mat_val_nbits)
  have lsh: "j2_mbc_lsh 0 2 (mat_val c) = Inr (Some (Atom (mat_val c * 4)))"
    using lsh_correct [of 0 2 "mat_val c"] f(4) len by (simp add: u2_fly_is_cat_def mat_val_nbits)
  have "nbits (mat_val c * 4) \<le> 2 + mat_len c"
  proof -
    have "mat_val c < 2 ^ mat_len c" using less_two_power_nbits [of "mat_val c"] by (simp add: mat_val_nbits)
    then show ?thesis by (simp add: nbits_le_iff)
  qed
  then have f4: "atom_fits (mat_val c * 4)" using len by (intro fits_nbits) simp
  have "3 XOR push_bit 2 (mat_val c) = 3 + 4 * mat_val c" using xor_push [of 3 2 "mat_val c"] by (simp add: push_bit_eq_mult)
  then have "j2_mbc_mix 3 (mat_val c * 4) = Inr (Some (Atom (3 + 4 * mat_val c)))"
    using mix_correct [OF f(5) f4] by (simp add: push_bit_eq_mult)
  then show ?thesis
    using f lsh mbc_add [of 2 "mat_len c"] mat_correct [of c] \<open>nbits c \<le> 31\<close> by (simp add: jam_in_ptr_def pair_noun_def)
qed

lemma cue_flat:
  assumes A: "nbits A < 2 ^ 31" and at: "field_at A b (1 + mat_len a) (2 * mat_val a)"
    and b: "b < 2 ^ 31" "nbits a < 2 ^ 31" and S: "na_ok S" and k: "0 < k"
  obtains S' where "cue_in G k A b S = Inr ((1 + mat_len a, Atom a), S')" "na_ok S'"
    "na_look S' = (na_look S)(Atom b \<mapsto> Atom a)"
proof -
  obtain S' where S': "u2_na_put S (Atom b) (Atom a) = Inr S'" "na_ok S'" "na_look S' = (na_look S)(Atom b \<mapsto> Atom a)"
    using na.put_look [OF S] by blast
  obtain n where k': "k = Suc n" using k by (cases k) simp_all
  have f: "field_at A b 1 0 \<and> field_at A (b + 1) (mat_len a) (mat_val a)"
    using field_split [of 0 1 A b "mat_len a" "mat_val a"] at by simp
  have len: "mat_len a < 2 ^ 31 + 100" using b nbits_small [of "nbits a"] by (simp add: mat_len_def)
  have fits: "atom_fits b" "atom_fits (Suc b)" "atom_fits (mat_len a)" "atom_fits (Suc (mat_len a))"
    using b len by (auto intro!: small_fits)
  have "\<not> bit A b" using field_bit [of A b 1 0 0] f by simp
  then have "cue_in G k A b S = Inr ((1 + mat_len a, Atom a), S')"
    using rub_read [OF A, of "Suc b" a] f S' fits b mbc_inc [of b] mbc_inc [of "mat_len a"]
    by (simp add: k' cut_bit [OF A] cue_put_def u2_fly_is_cat_def)
  then show thesis using S' that by blast
qed

lemma cue_ptr:
  assumes A: "nbits A < 2 ^ 31" and at: "field_at A b (2 + mat_len c) (3 + 4 * mat_val c)"
    and b: "b < 2 ^ 31" "c < 2 ^ 31" and S: "na_ok S" "na_look S (Atom c) = Some a" and k: "0 < k"
  shows "cue_in G k A b S = Inr ((2 + mat_len c, a), S)"
proof -
  obtain n where k': "k = Suc n" using k by (cases k) simp_all
  have f: "field_at A b 2 3 \<and> field_at A (b + 2) (mat_len c) (mat_val c)"
    using field_split [of 3 2 A b "mat_len c" "mat_val c"] at by simp
  have "bit A (b + 0)" "bit A (b + 1)" using field_bit [of A b 2 3 0] field_bit [of A b 2 3 1] f by (simp_all add: bit_simps)
  moreover have "mat_len c < 2 ^ 31" using mat_len_cat [OF b(2)] by simp
  then have fits: "atom_fits 2" "atom_fits b" "atom_fits (Suc b)" "atom_fits (Suc (Suc b))" "atom_fits (mat_len c)" "atom_fits (Suc (Suc (mat_len c)))"
    using b by (auto intro!: small_fits)
  ultimately show ?thesis
    using rub_read [OF A, of "Suc (Suc b)" c] f S fits mbc_inc [of b] mbc_add [of 2 b] mbc_add [of 2 "mat_len c"]
    by (simp add: k' cut_bit [OF A] na.get_look)
qed

end

section \<open>Jam and cue\<close>

text \<open>A bound on the bits that \<^verbatim>\<open>jam\<close> writes for a noun.\<close>

primrec jam_weight :: "noun \<Rightarrow> nat" where
  "jam_weight (Atom a) = 3 + 2 * nbits (nbits a) + nbits a"
| "jam_weight (Cell h t) = 45 + jam_weight h + jam_weight t"

abbreviation fields_noun :: "(nat \<times> nat) list \<Rightarrow> noun" where
  "fields_noun fs \<equiv> noun_list (map pair_noun fs)"

text \<open>
  What a run of \<^verbatim>\<open>jam_in\<close> at position \<open>b\<close> promises about the fields it writes and the table it leaves: the fields
  can be handed to \<^verbatim>\<open>can\<close> and the last one ends in a one; new entries of the table are positions of this
  noun; and wherever an atom has these fields, \<^verbatim>\<open>cue_in\<close> reads the noun back, provided that its own table has
  the nouns of the old table that are not larger.
\<close>

definition fields_ok :: "(nat \<times> nat) list \<Rightarrow> bool" where
  "fields_ok fs \<longleftrightarrow> fs \<noteq> [] \<and> (\<forall>f\<in>set fs. fst f < 2 ^ 31 \<and> atom_fits (snd f)) \<and> 
     0 < fst (last fs) \<and> nbits (snd (last fs)) = fst (last fs)"

definition jam_grows :: "nat u2_nash \<Rightarrow> nat \<Rightarrow> nat \<Rightarrow> nat u2_nash \<Rightarrow> bool" where
  "jam_grows T b p T' \<longleftrightarrow> (\<forall>n i. na_look T' n = Some i \<longrightarrow> na_look T n = Some i \<or> b \<le> i \<and> i < b + p)"

definition knows :: "nat u2_nash \<Rightarrow> noun u2_nash \<Rightarrow> nat \<Rightarrow> bool" where
  "knows T S m \<longleftrightarrow> (\<forall>n i. na_look T n = Some i \<longrightarrow> size n \<le> m \<longrightarrow> na_look S (Atom i) = Some n)"

definition jam_reads :: "'m gmp \<Rightarrow> nat u2_nash \<Rightarrow> noun \<Rightarrow> nat \<Rightarrow> nat \<Rightarrow> nat \<Rightarrow> nat u2_nash \<Rightarrow> bool" where
  "jam_reads G T a b p v T' \<longleftrightarrow>
     (\<forall>A S k. nbits A < 2 ^ 31 \<longrightarrow> field_at A b p v \<longrightarrow> na_ok S \<longrightarrow> p \<le> k \<longrightarrow> knows T S (size a) \<longrightarrow>
       (\<exists>S'. cue_in G k A b S = Inr ((p, a), S') \<and> na_ok S' \<and>
          (\<forall>i<b. na_look S' (Atom i) = na_look S (Atom i)) \<and>
          (\<forall>n i. na_look T' n = Some i \<longrightarrow> na_look T n = Some i \<or> na_look S' (Atom i) = Some n)))"

definition jam_good :: "'m gmp \<Rightarrow> nat u2_nash \<Rightarrow> noun \<Rightarrow> nat \<Rightarrow> (nat \<times> nat) list \<Rightarrow> nat u2_nash \<Rightarrow> bool" where
  "jam_good G T a b fs T' \<longleftrightarrow> na_ok T' \<and> fields_ok fs \<and> 0 < fields_len fs \<and> fields_len fs \<le> jam_weight a \<and>
     jam_grows T b (fields_len fs) T' \<and> jam_reads G T a b (fields_len fs) (fields_val fs) T'"

context gmp_laws
begin

lemma flat_good:
  assumes a: "b + jam_weight (Atom a) < 2 ^ 31" and T': "na_ok T'"
    and look: "\<And>n i. na_look T' n = Some i \<Longrightarrow> na_look T n = Some i \<or> n = Atom a \<and> i = b"
  shows "jam_good G T (Atom a) b [(1 + mat_len a, 2 * mat_val a)] T'"
proof -
  let ?p = "1 + mat_len a"
  have len: "?p \<le> jam_weight (Atom a)" "nbits a < 2 ^ 31" using a by (simp_all add: mat_len_def)
  have nb: "nbits (2 * mat_val a) = ?p"
  proof -
    have "0 < mat_val a" using mat_val_nbits [of a] by (metis nbits_gr_0 mat_len_def add_gr_0 zero_less_one nbits_eq_0 neq0_conv)
    then show ?thesis using nbits_add_power [of "mat_val a" 0 1] by (simp add: mat_val_nbits)
  qed
  then have lt: "2 * mat_val a < 2 ^ ?p" using less_two_power_nbits [of "2 * mat_val a"] by simp
  have "jam_reads G T (Atom a) b ?p (2 * mat_val a) T'"
    unfolding jam_reads_def
  proof (intro allI impI)
    fix A k :: nat and S :: "noun u2_nash"
    assume A: "nbits A < 2 ^ 31" and at: "field_at A b ?p (2 * mat_val a)" and S: "na_ok S" and k: "?p \<le> k"
    obtain S' where "cue_in G k A b S = Inr ((?p, Atom a), S')" "na_ok S'" "na_look S' = (na_look S)(Atom b \<mapsto> Atom a)"
      using cue_flat [OF A at _ len(2) S, of k] a k by auto
    then show "\<exists>S'. cue_in G k A b S = Inr ((?p, Atom a), S') \<and> na_ok S' \<and>
          (\<forall>i<b. na_look S' (Atom i) = na_look S (Atom i)) \<and>
          (\<forall>n i. na_look T' n = Some i \<longrightarrow> na_look T n = Some i \<or> na_look S' (Atom i) = Some n)"
      using look by fastforce
  qed
  moreover have "jam_grows T b ?p T'" unfolding jam_grows_def by (auto dest!: look)
  ultimately show ?thesis
    using T' len a nb lt by (auto simp: jam_good_def fields_ok_def intro!: fits_nbits)
qed

lemma ptr_good:
  assumes c: "na_look T a = Some c" "c < b" and T: "na_ok T" and b: "b + jam_weight a < 2 ^ 31"
    and len: "2 + mat_len c \<le> jam_weight a"
  shows "jam_good G T a b [(2 + mat_len c, 3 + 4 * mat_val c)] T"
proof -
  let ?p = "2 + mat_len c"
  have nb: "nbits (3 + 4 * mat_val c) = ?p"
  proof -
    have "0 < mat_val c" using mat_val_nbits [of c] by (metis nbits_gr_0 mat_len_def add_gr_0 zero_less_one nbits_eq_0 neq0_conv)
    then show ?thesis using nbits_add_power [of "mat_val c" 3 2] by (simp add: mat_val_nbits)
  qed
  then have lt: "3 + 4 * mat_val c < 2 ^ ?p" using less_two_power_nbits [of "3 + 4 * mat_val c"] by simp
  have "jam_reads G T a b ?p (3 + 4 * mat_val c) T"
    unfolding jam_reads_def
  proof (intro allI impI)
    fix A k :: nat and S :: "noun u2_nash"
    assume A: "nbits A < 2 ^ 31" and at: "field_at A b ?p (3 + 4 * mat_val c)" and S: "na_ok S" and k: "?p \<le> k"
      and kn: "knows T S (size a)"
    have "na_look S (Atom c) = Some a" using kn c(1) by (auto simp: knows_def)
    then have "cue_in G k A b S = Inr ((?p, a), S)" using cue_ptr [OF A at _ _ S] b c(2) k by simp
    then show "\<exists>S'. cue_in G k A b S = Inr ((?p, a), S') \<and> na_ok S' \<and>
          (\<forall>i<b. na_look S' (Atom i) = na_look S (Atom i)) \<and>
          (\<forall>n i. na_look T n = Some i \<longrightarrow> na_look T n = Some i \<or> na_look S' (Atom i) = Some n)"
      using S by blast
  qed
  then show ?thesis
    using T len b nb lt by (auto simp: jam_good_def fields_ok_def jam_grows_def intro!: fits_nbits)
qed

text \<open>The bits of a pair, and how \<^verbatim>\<open>cue_in\<close> reads them.\<close>

lemma cue_pair:
  assumes A: "nbits A < 2 ^ 31" and at: "field_at A b 2 1" and b: "b + 2 + p + q < 2 ^ 31"
    and u: "cue_in G n A (b + 2) S = Inr ((p, h), S1)" and v: "cue_in G n A (b + 2 + p) S1 = Inr ((q, t), S2)"
    and S2: "na_ok S2"
  obtains S' where "cue_in G (Suc n) A b S = Inr ((2 + (p + q), Cell h t), S')" "na_ok S'"
    "na_look S' = (na_look S2)(Atom b \<mapsto> Cell h t)"
proof -
  obtain S' where S': "u2_na_put S2 (Atom b) (Cell h t) = Inr S'" "na_ok S'" "na_look S' = (na_look S2)(Atom b \<mapsto> Cell h t)"
    using na.put_look [OF S2] by blast
  have bits: "bit A (b + 0)" "\<not> bit A (b + 1)"
    using field_bit [OF at, of 0] field_bit [OF at, of 1] by (simp_all add: bit_0 bit_1_iff)
  have fits: "atom_fits n" if "n \<le> b + 2 + p + q" for n using that b by (intro small_fits) simp
  have "cue_in G (Suc n) A b S = Inr ((2 + (p + q), Cell h t), S')"
    using bits u v S' b fits mbc_inc [of b] mbc_add [of 2 b] mbc_add [of p "2 + b"] mbc_add [of p q] mbc_add [of 2 "p + q"]
    by (simp add: cut_bit [OF A] cue_put_def u2_fly_is_cat_def add.commute add.left_commute)
  then show thesis using S' that by blast
qed

lemma pair_reads:
  assumes T1: "na_look T1 = (na_look T)(Cell h t \<mapsto> b)" and old: "\<And>n i. na_look T n = Some i \<Longrightarrow> i < b"
    and w: "b + 2 + p + q < 2 ^ 31" and u: "u < 2 ^ p" "0 < p"
    and gh: "jam_grows T1 (b + 2) p T2" and rh: "jam_reads G T1 h (b + 2) p u T2"
    and gt: "jam_grows T2 (b + 2 + p) q T3" and rt: "jam_reads G T2 t (b + 2 + p) q v T3"
  shows "jam_reads G T (Cell h t) b (2 + (p + q)) (1 + 2 ^ 2 * (u + 2 ^ p * v)) T3"
  unfolding jam_reads_def
proof (intro allI impI)
  fix A k :: nat and S :: "noun u2_nash"
  assume A: "nbits A < 2 ^ 31" and at: "field_at A b (2 + (p + q)) (1 + 2 ^ 2 * (u + 2 ^ p * v))"
    and S: "na_ok S" and k: "2 + (p + q) \<le> k" and kn: "knows T S (size (Cell h t))"
  obtain k' where k': "k = Suc k'" "p \<le> k'" "q \<le> k'" using k by (cases k) auto
  have f: "field_at A b 2 1 \<and> field_at A (b + 2) (p + q) (u + 2 ^ p * v)" by (rule iffD1 [OF field_split at]) simp
  have g: "field_at A (b + 2) p u \<and> field_at A (b + 2 + p) q v" by (rule iffD1 [OF field_split [OF u(1)] f [THEN conjunct2]])
  have "knows T1 S (size h)" using kn by (auto simp: knows_def T1)
  note rh' = rh [unfolded jam_reads_def, rule_format, OF A g [THEN conjunct1] S k'(2) this]
  then obtain S1 where S1: "cue_in G k' A (b + 2) S = Inr ((p, h), S1)" "na_ok S1"
      "\<And>i. i < b + 2 \<Longrightarrow> na_look S1 (Atom i) = na_look S (Atom i)"
      "\<And>n i. na_look T2 n = Some i \<Longrightarrow> na_look T1 n = Some i \<or> na_look S1 (Atom i) = Some n"
    by blast
  have "knows T2 S1 (size t)"
    unfolding knows_def
  proof (intro allI impI)
    fix n i assume n: "na_look T2 n = Some i" "size n \<le> size t"
    have "n \<noteq> Cell h t" using n(2) by auto
    then have "na_look S1 (Atom i) = Some n \<or> na_look T n = Some i"
      using S1(4) [OF n(1)] by (auto simp: T1)
    then show "na_look S1 (Atom i) = Some n"
      using old [of n i] S1(3) [of i] kn n(2) by (auto simp: knows_def)
  qed
  note rt' = rt [unfolded jam_reads_def, rule_format, OF A g [THEN conjunct2] S1(2) k'(3) this]
  then obtain S2 where S2: "cue_in G k' A (b + 2 + p) S1 = Inr ((q, t), S2)" "na_ok S2"
      "\<And>i. i < b + 2 + p \<Longrightarrow> na_look S2 (Atom i) = na_look S1 (Atom i)"
      "\<And>n i. na_look T3 n = Some i \<Longrightarrow> na_look T2 n = Some i \<or> na_look S2 (Atom i) = Some n"
    by blast
  obtain S' where S': "cue_in G (Suc k') A b S = Inr ((2 + (p + q), Cell h t), S')" "na_ok S'"
      "na_look S' = (na_look S2)(Atom b \<mapsto> Cell h t)"
    using cue_pair [OF A _ w S1(1) S2(1,2)] f by blast
  have "na_look T n = Some i \<or> na_look S' (Atom i) = Some n" if T3: "na_look T3 n = Some i" for n i
  proof (cases "na_look T2 n = Some i")
    case False
    then have "na_look S2 (Atom i) = Some n" "b + 2 + p \<le> i"
      using S2(4) [OF T3] gt T3 unfolding jam_grows_def by auto
    then show ?thesis using S'(3) by simp
  next
    case T2: True
    show ?thesis
    proof (cases "na_look T1 n = Some i")
      case True
      then show ?thesis using S'(3) by (auto simp: T1 split: if_splits)
    next
      case False
      then have "na_look S1 (Atom i) = Some n" "b + 2 \<le> i" "i < b + 2 + p"
        using S1(4) [OF T2] gh T2 unfolding jam_grows_def by auto
      then show ?thesis using S'(3) S2(3) [of i] by simp
    qed
  qed
  moreover have "na_look S' (Atom i) = na_look S (Atom i)" if "i < b" for i
    using that S'(3) S2(3) [of i] S1(3) [of i] by simp
  ultimately show "\<exists>S'. cue_in G k A b S = Inr ((2 + (p + q), Cell h t), S') \<and> na_ok S' \<and>
      (\<forall>i<b. na_look S' (Atom i) = na_look S (Atom i)) \<and>
      (\<forall>n i. na_look T3 n = Some i \<longrightarrow> na_look T n = Some i \<or> na_look S' (Atom i) = Some n)"
    using S' k' by blast
qed

lemma pair_good:
  assumes T1: "na_look T1 = (na_look T)(Cell h t \<mapsto> b)" and old: "\<And>n i. na_look T n = Some i \<Longrightarrow> i < b"
    and w: "b + jam_weight (Cell h t) < 2 ^ 31"
    and gh: "jam_good G T1 h (b + 2) fh T2" and gt: "jam_good G T2 t (b + 2 + fields_len fh) ft T3"
  shows "jam_good G T (Cell h t) b ((2, 1) # fh @ ft) T3"
proof -
  let ?p = "fields_len fh" and ?q = "fields_len ft"
  have p: "0 < ?p" "?p \<le> jam_weight h" "?q \<le> jam_weight t" "fields_ok fh" "fields_ok ft" "na_ok T3"
    using gh gt by (auto simp: jam_good_def)
  have grow: "jam_grows T1 (b + 2) ?p T2" "jam_grows T2 (b + 2 + ?p) ?q T3"
    "jam_reads G T1 h (b + 2) ?p (fields_val fh) T2" "jam_reads G T2 t (b + 2 + ?p) ?q (fields_val ft) T3"
    using gh gt by (auto simp: jam_good_def)
  have "b + 2 + ?p + ?q < 2 ^ 31" using w p by simp
  from pair_reads [OF T1 old this fields_val_less p(1) grow(1,3,2,4)]
  have "jam_reads G T (Cell h t) b (2 + (?p + ?q)) (1 + 2 ^ 2 * (fields_val fh + 2 ^ ?p * fields_val ft)) T3" .
  moreover have "jam_grows T b (2 + (?p + ?q)) T3"
    unfolding jam_grows_def
  proof (intro allI impI)
    fix n i assume T3: "na_look T3 n = Some i"
    then consider "b + 2 + ?p \<le> i" "i < b + 2 + ?p + ?q" | "b + 2 \<le> i" "i < b + 2 + ?p" | "na_look T1 n = Some i"
      using grow(1,2) unfolding jam_grows_def by blast
    then show "na_look T n = Some i \<or> b \<le> i \<and> i < b + (2 + (?p + ?q))"
      by cases (auto simp: T1 split: if_splits)
  qed
  moreover have "fields_ok ((2, 1) # fh @ ft)" using p(4,5) small_fits [of 1] by (auto simp: fields_ok_def)
  ultimately show ?thesis using p by (simp add: jam_good_def)
qed

lemma jam_in_atom_good:
  assumes b: "b + jam_weight (Atom a) < 2 ^ 31" and T: "na_ok T" and old: "\<And>n i. na_look T n = Some i \<Longrightarrow> i < b"
  shows "\<exists>fs T'. jam_in G (Atom a) b (fields_noun l) T = Inr ((fields_len fs, fields_noun (rev fs @ l)), T') \<and>
    jam_good G T (Atom a) b fs T'"
proof -
  have nb: "nbits a < 2 ^ 31" using b by simp
  let ?f = "(1 + mat_len a, 2 * mat_val a)"
  note get = na.get_look [OF T] jam_in_flat_correct [OF nb]
  show ?thesis
  proof (cases "na_look T (Atom a)")
    case None
    obtain T' where T': "u2_na_put T (Atom a) b = Inr T'" "na_ok T'" "na_look T' = (na_look T)(Atom a \<mapsto> b)"
      using na.put_look [OF T] by blast
    have "jam_good G T (Atom a) b [?f] T'" using T' by (intro flat_good b) (auto split: if_splits)
    moreover have "jam_in G (Atom a) b (fields_noun l) T = Inr ((fields_len [?f], fields_noun (rev [?f] @ l)), T')"
      using None T' by (simp add: get)
    ultimately show ?thesis by blast
  next
    case (Some c)
    then have c: "c < b" using old by blast
    then have cat: "u2_fly_is_cat c" "c < 2 ^ 31" using b by (simp_all add: u2_fly_is_cat_def)
    have met: "u2_met 0 a \<le> u2_met 0 c \<longleftrightarrow> nbits a \<le> nbits c"
      using nb cat nbits_small [of c] fits_nbits [of a] small_fits [of c] by (simp add: word_le_nat_alt)
    show ?thesis
    proof (cases "nbits a \<le> nbits c")
      case True
      have "jam_good G T (Atom a) b [?f] T" using T by (intro flat_good b) auto
      moreover have "jam_in G (Atom a) b (fields_noun l) T = Inr ((fields_len [?f], fields_noun (rev [?f] @ l)), T)"
        using Some True met cat by (simp add: get)
      ultimately show ?thesis by blast
    next
      case False
      let ?g = "(2 + mat_len c, 3 + 4 * mat_val c)"
      have "2 + mat_len c \<le> jam_weight (Atom a)" using False nbits_mono [of "nbits c" "nbits a"] by (auto simp: mat_len_def)
      then have "jam_good G T (Atom a) b [?g] T" using ptr_good [OF Some c T b] by simp
      moreover have "jam_in G (Atom a) b (fields_noun l) T = Inr ((fields_len [?g], fields_noun (rev [?g] @ l)), T)"
        using Some False met cat jam_in_ptr_correct [OF cat(1)] by (simp add: get)
      ultimately show ?thesis by blast
    qed
  qed
qed

lemma jam_in_seen_good:
  assumes c: "na_look T (Cell h t) = Some c" "c < b" and T: "na_ok T" and b: "b + jam_weight (Cell h t) < 2 ^ 31"
  shows "\<exists>fs T'. jam_in G (Cell h t) b (fields_noun l) T = Inr ((fields_len fs, fields_noun (rev fs @ l)), T') \<and>
    jam_good G T (Cell h t) b fs T'"
proof -
  have cat: "u2_fly_is_cat c" "c < 2 ^ 31" using b c by (simp_all add: u2_fly_is_cat_def)
  let ?g = "(2 + mat_len c, 3 + 4 * mat_val c)"
  have "jam_good G T (Cell h t) b [?g] T" using ptr_good [OF c T b] mat_len_cat [OF cat(2)] by simp
  moreover have "jam_in G (Cell h t) b (fields_noun l) T = Inr ((fields_len [?g], fields_noun (rev [?g] @ l)), T)"
    using c cat jam_in_ptr_correct [OF cat(1)] by (simp add: na.get_look [OF T])
  ultimately show ?thesis by blast
qed

lemma jam_in_pair:
  assumes T: "na_ok T" "na_look T (Cell h t) = None" "u2_na_put T (Cell h t) b = Inr T1"
    and h: "jam_in G h (b + 2) (fields_noun ((2, 1) # l)) T1 = Inr ((p, q_d), T2)"
    and t: "jam_in G t (b + 2 + p) q_d T2 = Inr ((q, q_e), T3)" and b: "b + 2 + p + q < 2 ^ 31"
  shows "jam_in G (Cell h t) b (fields_noun l) T = Inr ((2 + (p + q), q_e), T3)"
proof -
  have fits: "atom_fits n" if "n \<le> b + 2 + p + q" for n using that b by (intro small_fits) simp
  have "j2_mbc_add G 2 b = Inr (Some (Atom (b + 2)))" "j2_mbc_add G (b + 2) p = Inr (Some (Atom (b + 2 + p)))"
    "j2_mbc_add G p q = Inr (Some (Atom (p + q)))" "j2_mbc_add G 2 (p + q) = Inr (Some (Atom (2 + (p + q))))"
    using fits mbc_add [of 2 b] mbc_add [of "b + 2" p] mbc_add [of p q] mbc_add [of 2 "p + q"] by (simp_all add: add.commute)
  then show ?thesis using T h t by (simp add: na.get_look pair_noun_def)
qed

lemma jam_in_good:
  assumes "b + jam_weight a < 2 ^ 31" "na_ok T" "\<And>n i. na_look T n = Some i \<Longrightarrow> i < b"
  shows "\<exists>fs T'. jam_in G a b (fields_noun l) T = Inr ((fields_len fs, fields_noun (rev fs @ l)), T') \<and> jam_good G T a b fs T'"
  using assms
proof (induction a arbitrary: b l T)
  case (Cell h t)
  show ?case
  proof (cases "na_look T (Cell h t)")
    case None
    obtain T1 where T1: "u2_na_put T (Cell h t) b = Inr T1" "na_ok T1" "na_look T1 = (na_look T)(Cell h t \<mapsto> b)"
      using na.put_look [OF Cell.prems(2)] by blast
    have old: "i < b + 2" if "na_look T1 n = Some i" for n i
      using that Cell.prems(3) [of n i] T1(3) by (auto split: if_splits)
    then obtain fh T2 where h: "jam_in G h (b + 2) (fields_noun ((2, 1) # l)) T1 =
        Inr ((fields_len fh, fields_noun (rev fh @ (2, 1) # l)), T2)" "jam_good G T1 h (b + 2) fh T2"
      using Cell.IH(1) [of "b + 2" T1 "(2, 1) # l"] T1(2) Cell.prems(1) by auto
    let ?p = "fields_len fh"
    have hp: "?p \<le> jam_weight h" "na_ok T2" "jam_grows T1 (b + 2) ?p T2" using h(2) by (simp_all add: jam_good_def)
    have "i < b + 2 + ?p" if "na_look T2 n = Some i" for n i
      using that hp(3) old [of n i] unfolding jam_grows_def by fastforce
    then obtain ft T3 where t: "jam_in G t (b + 2 + ?p) (fields_noun (rev fh @ (2, 1) # l)) T2 =
        Inr ((fields_len ft, fields_noun (rev ft @ rev fh @ (2, 1) # l)), T3)" "jam_good G T2 t (b + 2 + ?p) ft T3"
      using Cell.IH(2) [of "b + 2 + ?p" T2 "rev fh @ (2, 1) # l"] hp Cell.prems(1) by auto
    have "fields_len ft \<le> jam_weight t" using t(2) by (simp add: jam_good_def)
    then have "jam_in G (Cell h t) b (fields_noun l) T =
        Inr ((fields_len ((2, 1) # fh @ ft), fields_noun (rev ((2, 1) # fh @ ft) @ l)), T3)"
      using jam_in_pair [OF Cell.prems(2) None T1(1) h(1) t(1)] hp(1) Cell.prems(1) by (simp del: jam_in.simps)
    moreover have "jam_good G T (Cell h t) b ((2, 1) # fh @ ft) T3"
      by (rule pair_good [OF T1(3) Cell.prems(3,1) h(2) t(2)])
    ultimately show ?thesis by blast
  qed (use jam_in_seen_good Cell.prems in blast)
qed (rule jam_in_atom_good)

lemma jam_cue:
  assumes "jam_weight n < 2 ^ 31"
  obtains A where "j2_mby_jam G n = Inr (Some (Atom A))" "j2_mby_cue G A = Inr n" "nbits A \<le> jam_weight n"
proof -
  have T0: "na_ok (u2_na_make :: nat u2_nash)" "na_look (u2_na_make :: nat u2_nash) = Map.empty"
    and S0: "na_ok (u2_na_make :: noun u2_nash)"
    by (rule na.ok_make na.look_make)+
  obtain fs T where jam: "jam_in G n 0 (fields_noun []) u2_na_make = Inr ((fields_len fs, fields_noun (rev fs @ [])), T)"
      and good: "jam_good G u2_na_make n 0 fs T"
    using jam_in_good [of 0 n u2_na_make "[]"] assms T0 by auto
  let ?A = "fields_val fs" and ?p = "fields_len fs"
  have ok: "fields_ok fs" "?p \<le> jam_weight n" and reads: "jam_reads G u2_na_make n 0 ?p ?A T"
    using good by (simp_all add: jam_good_def)
  have nb: "nbits ?A = ?p"
  proof -
    obtain gs f where fs: "fs = gs @ [f]" using ok(1) by (metis fields_ok_def append_butlast_last_id)
    then have f: "nbits (snd f) = fst f" "snd f mod 2 ^ fst f = snd f"
      using ok(1) less_two_power_nbits [of "snd f"] by (simp_all add: fields_ok_def)
    have "0 < nbits (snd f)" using ok(1) f(1) by (simp add: fs fields_ok_def)
    then have "0 < snd f" by simp
    then show ?thesis
      using nbits_add_power [of "snd f" "fields_val gs" "fields_len gs"] fields_val_less [of gs] f by (simp add: fs)
  qed
  have can: "j2_mbc_can 0 (fields_noun fs) = Inr (Some (Atom ?A))"
    using can_correct [of 0 fs] ok assms by (simp add: fields_ok_def)
  have "?A div 2 ^ 0 mod 2 ^ ?p = ?A" using fields_val_less [of fs] by simp
  then have at: "field_at ?A 0 ?p ?A" by (simp add: field_at_def)
  have "nbits ?A < 2 ^ 31" "?p \<le> nbits ?A + 1" using nb ok(2) assms by simp_all
  moreover have "knows u2_na_make u2_na_make (size n)" by (simp add: knows_def T0(2))
  ultimately obtain S where "cue_in G (nbits ?A + 1) ?A 0 u2_na_make = Inr ((?p, n), S)"
    using reads [unfolded jam_reads_def, rule_format, OF _ at S0] by blast
  then have "j2_mby_cue G ?A = Inr n" by (simp add: j2_mby_cue_def)
  moreover have "j2_mby_jam G n = Inr (Some (Atom ?A))"
    using jam can flop_correct [of "map pair_noun (rev fs)"] by (simp add: j2_mby_jam_def rev_map)
  ultimately show thesis using that nb ok(2) by simp
qed

end

section \<open>Cue on any atom\<close>

text \<open>A result, or an exit; the lengths that \<^verbatim>\<open>cue_in\<close> adds up are bounded, so that they are atoms.\<close>

definition cue_len :: "nat \<Rightarrow> nat \<Rightarrow> nat" where
  "cue_len N k = 2 ^ (N + 2) + k * (N + 3)"

lemma cue_len_nbits:
  assumes "N < 2 ^ 31" "k \<le> N + 1" "x \<le> cue_len N k + c" "c < 2 ^ 40"
  shows "nbits x \<le> 2 ^ 31 + 2 ^ 15" "atom_fits x"
proof -
  have "k * (N + 3) \<le> 2 ^ 32 * 2 ^ 32" using assms(1,2) by (intro mult_le_mono) simp_all
  then have "x < 2 ^ (N + 2) + 2 ^ 65" using assms(3,4) by (simp add: cue_len_def)
  also have "\<dots> \<le> 2 ^ (N + 65) + 2 ^ (N + 65)" by (intro add_mono power_increasing) simp_all
  also have "\<dots> = 2 ^ (N + 66)" by (simp add: power_add)
  finally have "nbits x \<le> N + 66" by (simp add: nbits_le_iff)
  then show "nbits x \<le> 2 ^ 31 + 2 ^ 15" using assms(1) by simp
  then show "atom_fits x" by (intro fits_nbits) simp
qed

definition cue_safe :: "nat \<Rightarrow> nat \<Rightarrow> nat \<Rightarrow> ((nat \<times> noun) \<times> noun u2_nash) res \<Rightarrow> bool" where
  "cue_safe N k b r \<longleftrightarrow> r = Inl (Bail c3__exit) \<or>
     (\<exists>p q S. r = Inr ((p, q), S) \<and> na_ok S \<and> b < N \<and> p \<le> cue_len N k)"

context gmp_laws
begin

lemma rub_safe:
  assumes A: "nbits A < 2 ^ 31" and a: "nbits a \<le> 2 ^ 31 + 2 ^ 15"
  shows "j2_mby_rub G a A = Inl (Bail c3__exit) \<or>
    (\<exists>p q. j2_mby_rub G a A = Inr (p, q) \<and> p < 2 ^ (nbits A + 2) \<and> a < nbits A)"
proof (cases "\<exists>k. bit A (a + k)")
  case False
  then have "\<forall>i\<ge>a. \<not> bit A i" by (metis le_add_diff_inverse)
  then show ?thesis using rub_none [OF A _ a] by blast
next
  case True
  then obtain k where k: "bit A (a + k)" "\<forall>i<k. \<not> bit A (a + i)"
    using exists_least_iff [of "\<lambda>k. bit A (a + k)"] by blast
  have ak: "a + k < nbits A" using k(1) by (rule bit_imp_less_nbits)
  have "fst (rub_out a k A) < 2 ^ (nbits A + 2)"
  proof (cases "k = 0")
    case False
    let ?z = "A div 2 ^ (a + k + 1) mod 2 ^ (k - 1)"
    have "?z < 2 ^ (k - 1)" by simp
    moreover have "(2::nat) ^ (k - 1) + 2 ^ (k - 1) = 2 ^ k" using False by (cases k) simp_all
    ultimately have "k + k + (2 ^ (k - 1) + ?z) < 2 ^ k + 2 ^ k + 2 ^ k" using less_exp [of k] by linarith
    also have "\<dots> \<le> 2 ^ (k + 2)" by (simp add: power_add)
    also have "\<dots> \<le> 2 ^ (nbits A + 2)" using ak by (intro power_increasing) simp_all
    finally show ?thesis using False by (simp add: rub_out_def Let_def)
  next
    case True
    have "(1::nat) < 2 ^ (nbits A + 2)" by (rule one_less_power) simp_all
    then show ?thesis using True by (simp add: rub_out_def)
  qed
  then show ?thesis using rub_found [OF A k(2,1)] ak by (cases "rub_out a k A") auto
qed

lemma cue_flat_safe:
  assumes A: "nbits A < 2 ^ 31" and b: "nbits (Suc b) \<le> 2 ^ 31 + 2 ^ 15" and S: "na_ok S"
    and nb: "\<not> bit A b" and k: "k < nbits A + 1"
  shows "cue_safe (nbits A) (Suc k) b (cue_in G (Suc k) A b S)"
proof -
  have fb: "atom_fits b" "atom_fits (Suc b)" using fits_nbits [of "Suc b"] b atom_fits_mono [of b "Suc b"] by simp_all
  consider "j2_mby_rub G (Suc b) A = Inl (Bail c3__exit)"
    | p q where "j2_mby_rub G (Suc b) A = Inr (p, q)" "p < 2 ^ (nbits A + 2)" "Suc b < nbits A"
    using rub_safe [OF A b] by blast
  then show ?thesis
  proof cases
    case 1
    then show ?thesis using nb fb mbc_inc [of b] by (simp add: cut_bit [OF A] cue_safe_def)
  next
    case 2
    obtain S' where S': "u2_na_put S (Atom b) (Atom q) = Inr S'" "na_ok S'" using na.put_look [OF S] by blast
    have le: "Suc p \<le> cue_len (nbits A) (Suc k)" using 2(2) by (simp add: cue_len_def)
    have "atom_fits (Suc p)" using cue_len_nbits(2) [OF A, of "Suc k" "Suc p" 0] le k by simp
    moreover have "atom_fits p" using calculation atom_fits_mono [of p "Suc p"] by simp
    ultimately show ?thesis
      using nb fb 2 S' le A mbc_inc [of b] mbc_inc [of p]
      by (simp add: cut_bit [OF A] cue_put_def u2_fly_is_cat_def cue_safe_def)
  qed
qed

lemma cue_ptr_safe:
  assumes A: "nbits A < 2 ^ 31" and S: "na_ok S" and bits: "bit A b" "bit A (Suc b)" and k: "k < nbits A + 1"
  shows "cue_safe (nbits A) (Suc k) b (cue_in G (Suc k) A b S)"
proof -
  have b: "b < nbits A" using bits(1) by (rule bit_imp_less_nbits)
  then have fb: "atom_fits 2" "atom_fits b" "atom_fits (Suc b)" "atom_fits (Suc (Suc b))" using A by (auto intro!: small_fits)
  have "nbits (Suc (Suc b)) \<le> 40" using b A by (simp add: nbits_le_iff)
  then consider "j2_mby_rub G (Suc (Suc b)) A = Inl (Bail c3__exit)"
    | p q where "j2_mby_rub G (Suc (Suc b)) A = Inr (p, q)" "p < 2 ^ (nbits A + 2)"
    using rub_safe [OF A, of "Suc (Suc b)"] by auto
  then show ?thesis
  proof cases
    case 1
    then show ?thesis using bits fb mbc_inc [of b] mbc_add [of 2 b] by (simp add: cut_bit [OF A] cue_safe_def)
  next
    case 2
    have le: "2 + p \<le> cue_len (nbits A) (Suc k)" using 2(2) by (simp add: cue_len_def)
    have "atom_fits (2 + p)" using cue_len_nbits(2) [OF A, of "Suc k" "2 + p" 0] le k by simp
    moreover have "atom_fits p" using calculation atom_fits_mono [of p "2 + p"] by simp
    ultimately show ?thesis
      using bits fb 2 S le b mbc_inc [of b] mbc_add [of 2 b] mbc_add [of 2 p]
      by (simp add: cut_bit [OF A] na.get_look cue_safe_def u2_bl_bail_def split: option.split)
  qed
qed

lemma cue_pair_safe:
  assumes A: "nbits A < 2 ^ 31" and bits: "bit A b" "\<not> bit A (Suc b)" and k: "Suc k \<le> nbits A + 1"
    and u: "cue_in G k A (Suc (Suc b)) S = Inr ((p, q), S1)" and fits: "atom_fits (p + Suc (Suc b))" "atom_fits p"
    and v: "cue_safe (nbits A) k (p + Suc (Suc b)) (cue_in G k A (p + Suc (Suc b)) S1)"
  shows "cue_safe (nbits A) (Suc k) b (cue_in G (Suc k) A b S)"
proof -
  let ?x = "p + Suc (Suc b)"
  have b: "b < nbits A" using bits(1) by (rule bit_imp_less_nbits)
  then have fb: "atom_fits 2" "atom_fits b" "atom_fits (Suc b)" "atom_fits (Suc (Suc b))" using A by (auto intro!: small_fits)
  note step = bits fb fits u mbc_inc [of b] mbc_add [of 2 b] mbc_add [of p "Suc (Suc b)"]
  show ?thesis
  proof (cases "cue_in G k A ?x S1 = Inl (Bail c3__exit)")
    case True
    then show ?thesis using step by (simp add: cut_bit [OF A] cue_safe_def)
  next
    case False
    then obtain pv qv S2 where v: "cue_in G k A ?x S1 = Inr ((pv, qv), S2)" "na_ok S2" "?x < nbits A" "pv \<le> cue_len (nbits A) k"
      using v by (auto simp: cue_safe_def)
    obtain S' where S': "u2_na_put S2 (Atom b) (Cell q qv) = Inr S'" "na_ok S'" using na.put_look [OF v(2)] by blast
    have le: "2 + (p + pv) \<le> cue_len (nbits A) (Suc k)" using v(3,4) by (simp add: cue_len_def)
    have "atom_fits (2 + (p + pv))" using cue_len_nbits(2) [OF A, of "Suc k" "2 + (p + pv)" 0] le k by simp
    moreover have "atom_fits (p + pv)" "atom_fits pv"
      using calculation atom_fits_mono [of _ "2 + (p + pv)"] by simp_all
    ultimately show ?thesis
      using step v S' le b A mbc_add [of p pv] mbc_add [of 2 "p + pv"]
      by (simp add: cut_bit [OF A] cue_put_def u2_fly_is_cat_def cue_safe_def)
  qed
qed

lemma cue_in_safe:
  assumes A: "nbits A < 2 ^ 31"
  shows "k \<le> nbits A + 1 \<Longrightarrow> nbits A - b < k \<Longrightarrow> nbits (Suc b) \<le> 2 ^ 31 + 2 ^ 15 \<Longrightarrow> na_ok S \<Longrightarrow>
    cue_safe (nbits A) k b (cue_in G k A b S)"
proof (induction k arbitrary: b S)
  case (Suc k)
  consider "\<not> bit A b" | "bit A b" "bit A (Suc b)" | "bit A b" "\<not> bit A (Suc b)" by blast
  then show ?case
  proof cases
    case 3
    have b: "b < nbits A" using 3(1) by (rule bit_imp_less_nbits)
    have fb: "atom_fits 2" "atom_fits b" "atom_fits (Suc b)" "atom_fits (Suc (Suc b))" using A b by (auto intro!: small_fits)
    have "nbits (Suc (Suc (Suc b))) \<le> 40" using b A by (simp add: nbits_le_iff)
    then have u: "cue_safe (nbits A) k (Suc (Suc b)) (cue_in G k A (Suc (Suc b)) S)"
      using Suc.IH [of "Suc (Suc b)" S] Suc.prems b by simp
    note step = 3 fb mbc_inc [of b] mbc_add [of 2 b]
    show ?thesis
    proof (cases "cue_in G k A (Suc (Suc b)) S = Inl (Bail c3__exit)")
      case True
      then show ?thesis using step by (simp add: cut_bit [OF A] cue_safe_def)
    next
      case False
      then obtain p q S1 where u: "cue_in G k A (Suc (Suc b)) S = Inr ((p, q), S1)" "na_ok S1" "p \<le> cue_len (nbits A) k"
        using u by (auto simp: cue_safe_def)
      let ?x = "p + Suc (Suc b)"
      have x: "nbits (Suc ?x) \<le> 2 ^ 31 + 2 ^ 15" "atom_fits ?x" "atom_fits p"
        using cue_len_nbits(1) [OF A, of k "Suc ?x" "b + 3"] cue_len_nbits(2) [OF A, of k ?x "b + 3"]
          cue_len_nbits(2) [OF A, of k p 0] u(3) Suc.prems(1) b A by simp_all
      have v: "cue_safe (nbits A) k ?x (cue_in G k A ?x S1)"
        using Suc.IH [of ?x S1] Suc.prems b x(1) u(2) by simp
      show ?thesis
        using cue_pair_safe [OF A 3 Suc.prems(1) u(1) x(2,3) v] .
    qed
  qed (use cue_flat_safe [OF A] cue_ptr_safe [OF A] Suc.prems in auto)
qed simp

end

text \<open>
  C1: \<^verbatim>\<open>cue\<close> reads back what \<^verbatim>\<open>jam\<close> writes: for every noun that would take fewer than \<open>2\<^sup>3\<^sup>1\<close> bits written out
  without back references (\<open>jam_weight\<close>) \<^verbatim>\<open>jam\<close> returns an atom, of no more bits than that, on which \<^verbatim>\<open>cue\<close> returns the noun. Back references to equal
  nouns that were written before are resolved, in whatever order they come.
\<close>

theorem cue_jam:
  assumes "gmp_laws G val" "jam_weight n < 2 ^ 31"
  shows "\<exists>A. j2_mby_jam G n = Inr (Some (Atom A)) \<and> nbits A \<le> jam_weight n \<and> j2_mby_cue G A = Inr n"
  using gmp_laws.jam_cue [OF assms] by metis

theorem cue_jam_witness:
  "\<exists>A. j2_mby_jam gmp_int (Cell (Cell (Atom 7) (Atom 300)) (Cell (Atom 7) (Atom 300))) = Inr (Some (Atom A)) \<and>
     j2_mby_cue gmp_int A = Inr (Cell (Cell (Atom 7) (Atom 300)) (Cell (Atom 7) (Atom 300)))"
proof -
  have "jam_weight (Cell (Cell (Atom 7) (Atom 300)) (Cell (Atom 7) (Atom 300))) < 2 ^ 31" by (simp add: nbits_pos)
  from cue_jam [OF gmp_ref.gmp_laws_axioms this] show ?thesis by blast
qed

text \<open>
  C2: \<^verbatim>\<open>cue\<close> is safe on every atom of fewer than \<open>2\<^sup>3\<^sup>1\<close> bits, such as a packet from the network: it returns a noun or
  exits, in a recursion no deeper than the number of bits, and neither trips an assertion nor runs wild.
\<close>

theorem cue_total:
  assumes "gmp_laws G val" "nbits A < 2 ^ 31"
  shows "j2_mby_cue G A = Inl (Bail c3__exit) \<or> (\<exists>n. j2_mby_cue G A = Inr n)"
proof -
  have "cue_safe (nbits A) (nbits A + 1) 0 (cue_in G (nbits A + 1) A 0 u2_na_make)"
    using gmp_laws.cue_in_safe [OF assms, of "nbits A + 1" 0 u2_na_make] na.ok_make by (simp add: nbits_pos)
  then show ?thesis by (auto simp: j2_mby_cue_def cue_safe_def)
qed

theorem cue_total_witness:
  "j2_mby_cue gmp_int 0 = Inl (Bail c3__exit) \<or> (\<exists>n. j2_mby_cue gmp_int 0 = Inr n)"
  by (rule cue_total [OF gmp_ref.gmp_laws_axioms]) simp

end
