(* ===== verification/Orders.thy ===== *)
theory Orders
  imports Jets1 "HOL-Library.Product_Lexorder"
begin

text \<open>
  The orders on nouns, \<^verbatim>\<open>gen164/3\<close>: \<^verbatim>\<open>dor\<close> goes into the nouns, \<^verbatim>\<open>gor\<close> compares hashes first, \<^verbatim>\<open>hor\<close> looks at the head
  and the tail of a cell, and \<^verbatim>\<open>vor\<close> compares the hashes of hashes. Sets and maps are trees that are sorted
  by \<^verbatim>\<open>hor\<close> or \<^verbatim>\<open>gor\<close> from left to right and by \<^verbatim>\<open>vor\<close> from top to bottom. Each is shown to be a linear order: the
  order of the values of an injective key.
\<close>

section \<open>The jets\<close>

fun j2_mbc_dor :: "'m gmp \<Rightarrow> noun \<Rightarrow> noun \<Rightarrow> u2_weak res" where
  "j2_mbc_dor G (Atom a) (Atom b) = (if a = b then Inr (Some (Atom u2_yes)) else j2_mbc_lth G a b)"
| "j2_mbc_dor G (Atom a) (Cell h_b t_b) = Inr (Some (Atom u2_yes))"
| "j2_mbc_dor G (Cell h_a t_a) (Atom b) = Inr (Some (Atom u2_no))"
| "j2_mbc_dor G (Cell h_a t_a) (Cell h_b t_b) =
     (if Cell h_a t_a = Cell h_b t_b then Inr (Some (Atom u2_yes))
      else if h_a = h_b then j2_mbc_dor G t_a t_b
      else j2_mbc_dor G h_a h_b)"

definition j2_mb_dor :: "'m gmp \<Rightarrow> noun \<Rightarrow> u2_weak res" where
  "j2_mb_dor G cor = sam_nouns2 cor (j2_mbc_dor G)"

definition j2_mbc_gor :: "'m gmp \<Rightarrow> noun \<Rightarrow> noun \<Rightarrow> u2_weak res" where
  "j2_mbc_gor G a b =
     (let c_w = mug a; d_w = mug b
      in if c_w = d_w then j2_mbc_dor G a b
         else Inr (Some (Atom (if c_w < d_w then u2_yes else u2_no))))"

definition j2_mb_gor :: "'m gmp \<Rightarrow> noun \<Rightarrow> u2_weak res" where
  "j2_mb_gor G cor = sam_nouns2 cor (j2_mbc_gor G)"

definition j2_mbc_hor :: "'m gmp \<Rightarrow> noun \<Rightarrow> noun \<Rightarrow> u2_weak res" where
  "j2_mbc_hor G a b =
     (case (a, b) of
        (Atom _, Atom _) \<Rightarrow> j2_mbc_gor G a b
      | (Atom _, Cell _ _) \<Rightarrow> Inr (Some (Atom u2_yes))
      | (Cell _ _, Atom _) \<Rightarrow> Inr (Some (Atom u2_no))
      | (Cell h_a t_a, Cell h_b t_b) \<Rightarrow>
          if h_a = h_b then j2_mbc_gor G t_a t_b else j2_mbc_gor G h_a h_b)"

definition j2_mb_hor :: "'m gmp \<Rightarrow> noun \<Rightarrow> u2_weak res" where
  "j2_mb_hor G cor = sam_nouns2 cor (j2_mbc_hor G)"

text \<open>The hash of a hash: a hash is below \<open>2\<^sup>3\<^sup>1\<close>, so it is an atom as it is.\<close>

definition j2_mbc_vor :: "'m gmp \<Rightarrow> noun \<Rightarrow> noun \<Rightarrow> u2_weak res" where
  "j2_mbc_vor G a b =
     (let c_w = mug (Atom (unat (mug a))); d_w = mug (Atom (unat (mug b)))
      in if c_w = d_w then j2_mbc_dor G a b
         else Inr (Some (Atom (if c_w < d_w then u2_yes else u2_no))))"

definition j2_mb_vor :: "'m gmp \<Rightarrow> noun \<Rightarrow> u2_weak res" where
  "j2_mb_vor G cor = sam_nouns2 cor (j2_mbc_vor G)"

definition j2_mb_mug :: "noun \<Rightarrow> u2_weak res" where
  "j2_mb_mug cor = sam_noun cor (\<lambda>sam. Inr (Some (Atom (unat (mug sam)))))"

section \<open>Nouns in order\<close>

fun noun_le :: "noun \<Rightarrow> noun \<Rightarrow> bool" where
  "noun_le (Atom a) (Atom b) \<longleftrightarrow> a \<le> b"
| "noun_le (Atom a) (Cell h t) \<longleftrightarrow> True"
| "noun_le (Cell h t) (Atom b) \<longleftrightarrow> False"
| "noun_le (Cell h t) (Cell h' t') \<longleftrightarrow> (if h = h' then noun_le t t' else noun_le h h')"

lemma noun_le_refl: "noun_le a a"
  by (induction a) simp_all

lemma noun_le_antisym: "noun_le a b \<Longrightarrow> noun_le b a \<Longrightarrow> a = b"
  by (induction a b rule: noun_le.induct) (auto split: if_splits)

lemma noun_le_linear: "noun_le a b \<or> noun_le b a"
  by (induction a b rule: noun_le.induct) auto

lemma noun_le_trans: "noun_le a b \<Longrightarrow> noun_le b c \<Longrightarrow> noun_le a c"
proof (induction a arbitrary: b c)
  case (Atom a)
  then show ?case by (cases b; cases c) auto
next
  case (Cell h t)
  then show ?case
    by (cases b; cases c) (auto split: if_splits dest: noun_le_antisym)
qed

instantiation noun :: linorder
begin

definition less_eq_noun :: "noun \<Rightarrow> noun \<Rightarrow> bool" where
  "less_eq_noun = noun_le"

definition less_noun :: "noun \<Rightarrow> noun \<Rightarrow> bool" where
  "less_noun a b \<longleftrightarrow> noun_le a b \<and> a \<noteq> b"

instance
proof
  show "x \<le> y \<or> y \<le> x" for x y :: noun by (simp add: less_eq_noun_def noun_le_linear)
qed (auto simp: less_eq_noun_def less_noun_def noun_le_refl intro: noun_le_trans noun_le_antisym dest: noun_le_antisym)

end

section \<open>Keys\<close>

definition gor_key :: "noun \<Rightarrow> c3_w \<times> noun" where
  "gor_key a = (mug a, a)"

definition vor_key :: "noun \<Rightarrow> c3_w \<times> noun" where
  "vor_key a = (mug (Atom (unat (mug a))), a)"

primrec hor_key :: "noun \<Rightarrow> bool \<times> (c3_w \<times> noun) \<times> (c3_w \<times> noun)" where
  "hor_key (Atom a) = (False, gor_key (Atom a), gor_key (Atom a))"
| "hor_key (Cell h t) = (True, gor_key h, gor_key t)"

lemma gor_key_eq [simp]: "gor_key a = gor_key b \<longleftrightarrow> a = b"
  by (auto simp: gor_key_def)

lemma vor_key_eq [simp]: "vor_key a = vor_key b \<longleftrightarrow> a = b"
  by (auto simp: vor_key_def)

lemma hor_key_eq [simp]: "hor_key a = hor_key b \<longleftrightarrow> a = b"
  by (cases a; cases b) auto

primrec noun_fits :: "noun \<Rightarrow> bool" where
  "noun_fits (Atom a) = atom_fits a"
| "noun_fits (Cell h t) \<longleftrightarrow> noun_fits h \<and> noun_fits t"

context gmp_laws
begin

lemma dor_le: "noun_fits a \<Longrightarrow> noun_fits b \<Longrightarrow> j2_mbc_dor G a b = Inr (Some (u2_say (a \<le> b)))"
proof (induction a b rule: noun_le.induct)
  case (1 a b)
  then show ?case using mbc_lth [of a b] by (auto simp: less_eq_noun_def u2_say_def)
qed (auto simp: less_eq_noun_def u2_say_def noun_le_refl)

lemma gor_le:
  assumes "noun_fits a" "noun_fits b"
  shows "j2_mbc_gor G a b = Inr (Some (u2_say (gor_key a \<le> gor_key b)))"
  using dor_le [OF assms] by (cases "mug a = mug b") (auto simp: j2_mbc_gor_def gor_key_def u2_say_def less_eq_prod_def Let_def)

lemma vor_le:
  assumes "noun_fits a" "noun_fits b"
  shows "j2_mbc_vor G a b = Inr (Some (u2_say (vor_key a \<le> vor_key b)))"
  using dor_le [OF assms]
  by (cases "mug (Atom (unat (mug a))) = mug (Atom (unat (mug b)))")
    (auto simp: j2_mbc_vor_def vor_key_def u2_say_def less_eq_prod_def Let_def simp del: mug.simps)

lemma hor_le:
  assumes "noun_fits a" "noun_fits b"
  shows "j2_mbc_hor G a b = Inr (Some (u2_say (hor_key a \<le> hor_key b)))"
  using assms
  by (cases a; cases b) (auto simp: j2_mbc_hor_def gor_le u2_say_def less_eq_prod_def gor_key_def)

end

text \<open>
  The four orders on nouns are linear orders: \<^verbatim>\<open>dor\<close>, \<^verbatim>\<open>gor\<close>, \<^verbatim>\<open>hor\<close> and \<^verbatim>\<open>vor\<close> always answer, and answer yes exactly when
  the key of the first noun, which determines the noun, is not above the key of the second.
\<close>

theorem orders_linear:
  assumes "gmp_laws G val" "noun_fits a" "noun_fits b"
  shows "j2_mbc_dor G a b = Inr (Some (u2_say (a \<le> b))) \<and>
    j2_mbc_gor G a b = Inr (Some (u2_say (gor_key a \<le> gor_key b))) \<and> (gor_key a = gor_key b \<longleftrightarrow> a = b) \<and>
    j2_mbc_hor G a b = Inr (Some (u2_say (hor_key a \<le> hor_key b))) \<and> (hor_key a = hor_key b \<longleftrightarrow> a = b) \<and>
    j2_mbc_vor G a b = Inr (Some (u2_say (vor_key a \<le> vor_key b))) \<and> (vor_key a = vor_key b \<longleftrightarrow> a = b)"
  using gmp_laws.dor_le [OF assms] gmp_laws.gor_le [OF assms] gmp_laws.hor_le [OF assms] gmp_laws.vor_le [OF assms] by simp

theorem orders_linear_witness:
  "j2_mbc_dor gmp_int (Atom 3) (Cell (Atom 1) (Atom 2)) = Inr (Some (Atom 0)) \<and>
    j2_mbc_hor gmp_int (Cell (Atom 1) (Atom 2)) (Atom 3) = Inr (Some (Atom 1))"
  using orders_linear [OF gmp_ref.gmp_laws_axioms, of "Atom 3" "Cell (Atom 1) (Atom 2)"]
    orders_linear [OF gmp_ref.gmp_laws_axioms, of "Cell (Atom 1) (Atom 2)" "Atom 3"]
  by (simp add: atom_fits_def atom_words_pos less_eq_noun_def less_eq_prod_def u2_say_def)

end
