(* ===== verification/Treaps.thy ===== *)
theory Treaps
  imports Orders "HOL-Library.Tree"
begin

text \<open>
  The jets of part 4, \<^verbatim>\<open>gen164/4\<close>: sets and maps. A set is 0 or a tree \<open>[n l r]\<close> of nouns, sorted by \<^verbatim>\<open>hor\<close> from
  left to right and by \<^verbatim>\<open>vor\<close> from top to bottom; in a map the nodes are pairs, sorted by the key with \<^verbatim>\<open>gor\<close> and
  \<^verbatim>\<open>vor\<close>. Union and intersection call themselves on trees that they have built, so they take fuel, which the
  theorems show to be enough; the recursion of the others is on the parts of the tree.
\<close>

section \<open>Sets\<close>

definition u2_rl_trel :: "u2_weak \<Rightarrow> u2_weak \<Rightarrow> u2_weak \<Rightarrow> u2_weak" where
  "u2_rl_trel a b c = u2_rl_cell a (u2_rl_cell b c)"

text \<open>A result handed on as a noun, and a loobean that is compared with yes.\<close>

definition noun_arg :: "u2_weak res \<Rightarrow> (noun \<Rightarrow> 'a res) \<Rightarrow> 'a res" where
  "noun_arg r f = rbind r (\<lambda>a. case a of None \<Rightarrow> Inl Wild | Some n \<Rightarrow> f n)"

definition ask :: "u2_weak res \<Rightarrow> 'a res \<Rightarrow> 'a res \<Rightarrow> 'a res" where
  "ask r yes no = rbind r (\<lambda>v. if v = Some (Atom u2_yes) then yes else no)"

lemma noun_arg_cong [fundef_cong]:
  "r = r' \<Longrightarrow> (\<And>n. r' = Inr (Some n) \<Longrightarrow> f n = g n) \<Longrightarrow> noun_arg r f = noun_arg r' g"
  by (auto simp: noun_arg_def rbind_def split: sum.split option.split)

lemma ask_cong [fundef_cong]:
  "r = r' \<Longrightarrow> (r' = Inr (Some (Atom 0)) \<Longrightarrow> y = y') \<Longrightarrow> (r' \<noteq> Inr (Some (Atom 0)) \<Longrightarrow> n = n') \<Longrightarrow> ask r y n = ask r' y' n'"
  by (auto simp: ask_def rbind_def split: sum.split)

lemma ask_simps [simp]:
  "noun_arg (Inr (Some n)) f = f n" "ask (Inr (Some (u2_say x))) yes no = (if x then yes else no)"
  by (simp_all add: noun_arg_def ask_def)

fun j2_mcc_in_put :: "'m gmp \<Rightarrow> noun \<Rightarrow> noun \<Rightarrow> u2_weak res" where
  "j2_mcc_in_put G (Atom a) b =
     (if a = 0 then Inr (u2_rl_trel (Some b) (Some u2_nul) (Some u2_nul)) else u2_bl_bail c3__exit)"
| "j2_mcc_in_put G (Cell n_a (Atom lr_a)) b =
     (if n_a = b then Inr (Some (Cell n_a (Atom lr_a))) else u2_bl_bail c3__exit)"
| "j2_mcc_in_put G (Cell n_a (Cell l_a r_a)) b =
     (if n_a = b then Inr (Some (Cell n_a (Cell l_a r_a)))
      else ask (j2_mbc_hor G b n_a)
        (noun_arg (j2_mcc_in_put G l_a b) (\<lambda>c.
         rbind (u2_h c) (\<lambda>h_c.
           ask (j2_mbc_vor G n_a h_c)
             (Inr (u2_rl_trel (Some n_a) (Some c) (Some r_a)))
             (case u2_as_trel c of
                None \<Rightarrow> Inl Wild
              | Some (n_c, l_c, r_c) \<Rightarrow>
                  Inr (u2_rl_trel (Some n_c) (Some l_c) (u2_rl_trel (Some n_a) (Some r_c) (Some r_a)))))))
        (noun_arg (j2_mcc_in_put G r_a b) (\<lambda>c.
         rbind (u2_h c) (\<lambda>h_c.
           ask (j2_mbc_vor G n_a h_c)
             (Inr (u2_rl_trel (Some n_a) (Some l_a) (Some c)))
             (case u2_as_trel c of
                None \<Rightarrow> Inl Wild
              | Some (n_c, l_c, r_c) \<Rightarrow>
                  Inr (u2_rl_trel (Some n_c) (u2_rl_trel (Some n_a) (Some l_a) (Some l_c)) (Some r_c)))))))"

definition sam_con :: "noun \<Rightarrow> (noun \<Rightarrow> noun \<Rightarrow> 'a res) \<Rightarrow> 'a res" where
  "sam_con cor f =
     rbind (u2_mean cor [6, 30]) (\<lambda>r. case r of Some [b, a] \<Rightarrow> f a b | _ \<Rightarrow> u2_bl_bail c3__exit)"

definition j2_mc_in_put :: "'m gmp \<Rightarrow> noun \<Rightarrow> u2_weak res" where
  "j2_mc_in_put G cor = sam_con cor (j2_mcc_in_put G)"

fun j2_mcc_in_has :: "'m gmp \<Rightarrow> noun \<Rightarrow> noun \<Rightarrow> noun res" where
  "j2_mcc_in_has G (Atom a) b = (if a = 0 then Inr (Atom u2_no) else u2_bl_bail c3__exit)"
| "j2_mcc_in_has G (Cell n_a (Atom lr_a)) b = u2_bl_bail c3__exit"
| "j2_mcc_in_has G (Cell n_a (Cell l_a r_a)) b =
     (if b = n_a then Inr (Atom u2_yes)
      else ask (j2_mbc_hor G b n_a) (j2_mcc_in_has G l_a b) (j2_mcc_in_has G r_a b))"

definition j2_mc_in_has :: "'m gmp \<Rightarrow> noun \<Rightarrow> u2_weak res" where
  "j2_mc_in_has G cor = sam_con cor (\<lambda>a b. rbind (j2_mcc_in_has G a b) (\<lambda>r. Inr (Some r)))"

fun tap_in :: "noun \<Rightarrow> noun \<Rightarrow> u2_weak res" where
  "tap_in (Atom a) b = (if a = 0 then Inr (Some b) else u2_bl_bail c3__exit)"
| "tap_in (Cell n_a (Atom lr_a)) b = u2_bl_bail c3__exit"
| "tap_in (Cell n_a (Cell l_a r_a)) b =
     rbind (tap_in l_a b) (\<lambda>c. noun_arg (Inr (u2_rl_cell (Some n_a) c)) (\<lambda>c. tap_in r_a c))"

definition j2_mcc_in_tap :: "noun \<Rightarrow> noun \<Rightarrow> u2_weak res" where
  "j2_mcc_in_tap a b = tap_in a b"

definition j2_mc_in_tap :: "noun \<Rightarrow> u2_weak res" where
  "j2_mc_in_tap cor = sam_con cor j2_mcc_in_tap"

primrec in_gas :: "'m gmp \<Rightarrow> noun \<Rightarrow> noun \<Rightarrow> u2_weak res" where
  "in_gas G (Atom b) a = (if b = 0 then Inr (Some a) else u2_bl_bail c3__exit)"
| "in_gas G (Cell i_b t_b) a =
     rbind (j2_mcc_in_put G a i_b) (\<lambda>c. case c of None \<Rightarrow> u2_bl_bail c3__exit | Some c \<Rightarrow> in_gas G t_b c)"

definition j2_mcc_in_gas :: "'m gmp \<Rightarrow> noun \<Rightarrow> noun \<Rightarrow> u2_weak res" where
  "j2_mcc_in_gas G a b = in_gas G b a"

definition j2_mc_in_gas :: "'m gmp \<Rightarrow> noun \<Rightarrow> u2_weak res" where
  "j2_mc_in_gas G cor = sam_con cor (j2_mcc_in_gas G)"

primrec in_uni :: "nat \<Rightarrow> 'm gmp \<Rightarrow> noun \<Rightarrow> noun \<Rightarrow> u2_weak res" where
  "in_uni 0 G a b = Inl Wild"
| "in_uni (Suc n) G a b =
     (if a = u2_nul then Inr (Some b)
      else if b = u2_nul then Inr (Some a)
      else case (u2_as_cell a, u2_as_cell b) of
        (Some (n_a, lr_a), Some (n_b, lr_b)) \<Rightarrow>
          ask (j2_mbc_vor G n_a n_b)
            (case (u2_as_cell lr_a, u2_as_cell lr_b) of
               (Some (l_a, r_a), Some (l_b, r_b)) \<Rightarrow>
                 if n_a = n_b then
                   rbind (in_uni n G l_a l_b) (\<lambda>l.
                   rbind (in_uni n G r_a r_b) (\<lambda>r. Inr (u2_rl_trel (Some n_b) l r)))
                 else ask (j2_mbc_hor G n_b n_a)
                   (rbind (in_uni n G l_a (Cell n_b (Cell l_b u2_nul))) (\<lambda>l.
                    noun_arg (Inr (u2_rl_trel (Some n_a) l (Some r_a))) (\<lambda>c. in_uni n G c r_b)))
                   (rbind (in_uni n G r_a (Cell n_b (Cell u2_nul r_b))) (\<lambda>r.
                    noun_arg (Inr (u2_rl_trel (Some n_a) (Some l_a) r)) (\<lambda>c. in_uni n G c l_b)))
             | _ \<Rightarrow> u2_bl_bail c3__exit)
            (case (u2_as_cell lr_b, u2_as_cell lr_a) of
               (Some (l_b, r_b), Some (l_a, r_a)) \<Rightarrow>
                 if n_b = n_a then
                   rbind (in_uni n G r_b r_a) (\<lambda>l.
                   rbind (in_uni n G l_b l_a) (\<lambda>r. Inr (u2_rl_trel (Some n_b) l r)))
                 else ask (j2_mbc_hor G n_a n_b)
                   (rbind (in_uni n G (Cell n_a (Cell l_a u2_nul)) l_b) (\<lambda>l.
                    noun_arg (Inr (u2_rl_trel (Some n_b) l (Some r_b))) (\<lambda>c. in_uni n G r_a c)))
                   (rbind (in_uni n G (Cell n_a (Cell u2_nul r_a)) r_b) (\<lambda>r.
                    noun_arg (Inr (u2_rl_trel (Some n_b) (Some l_b) r)) (\<lambda>c. in_uni n G l_a c)))
             | _ \<Rightarrow> u2_bl_bail c3__exit)
      | _ \<Rightarrow> u2_bl_bail c3__exit)"

text \<open>Two treaps of \<open>s\<close> and \<open>t\<close> nodes are joined in a recursion of depth at most \<open>(s + t)\<^sup>2 + s + t + 1\<close>.\<close>

primrec nodes :: "noun \<Rightarrow> nat" where
  "nodes (Atom a) = 0"
| "nodes (Cell h t) = Suc (nodes h + nodes t)"

definition uni_fuel :: "noun \<Rightarrow> noun \<Rightarrow> nat" where
  "uni_fuel a b = (let s = nodes a + nodes b in s * s + s + 1)"

definition j2_mcc_in_uni :: "'m gmp \<Rightarrow> noun \<Rightarrow> noun \<Rightarrow> u2_weak res" where
  "j2_mcc_in_uni G a b = in_uni (uni_fuel a b) G a b"

definition j2_mc_in_uni :: "'m gmp \<Rightarrow> noun \<Rightarrow> u2_weak res" where
  "j2_mc_in_uni G cor = sam_con cor (j2_mcc_in_uni G)"

text \<open>
  \<^verbatim>\<open>mer\<close> and \<^verbatim>\<open>int\<close> exchange their arguments so that the first has the upper root; \<open>mer_step\<close> and \<open>int_step\<close> are what
  follows, with the function itself as their first argument.
\<close>

definition mer_step :: "(noun \<Rightarrow> noun \<Rightarrow> u2_weak res) \<Rightarrow> 'm gmp \<Rightarrow> noun \<Rightarrow> noun \<Rightarrow> noun \<Rightarrow> noun \<Rightarrow> u2_weak res" where
  "mer_step mer G n_a lr_a n_b lr_b =
     (case (u2_as_cell lr_a, u2_as_cell lr_b) of
        (Some (l_a, r_a), Some (l_b, r_b)) \<Rightarrow>
          if n_a = n_b then
            rbind (mer l_a l_b) (\<lambda>l. rbind (mer r_a r_b) (\<lambda>r. Inr (u2_rl_trel (Some n_a) l r)))
          else ask (j2_mbc_hor G n_b n_a)
            (rbind (mer l_a (Cell n_b (Cell l_b u2_nul))) (\<lambda>l.
             noun_arg (Inr (u2_rl_trel (Some n_a) l (Some r_a))) (\<lambda>c. mer c r_b)))
            (rbind (mer r_a (Cell n_b (Cell u2_nul r_b))) (\<lambda>r.
             noun_arg (Inr (u2_rl_trel (Some n_a) (Some l_a) r)) (\<lambda>c. mer c l_b)))
      | _ \<Rightarrow> u2_bl_bail c3__exit)"

primrec in_mer :: "nat \<Rightarrow> 'm gmp \<Rightarrow> noun \<Rightarrow> noun \<Rightarrow> u2_weak res" where
  "in_mer 0 G a b = Inl Wild"
| "in_mer (Suc n) G a b =
     (if a = u2_nul then Inr (Some b)
      else if b = u2_nul then Inr (Some a)
      else case (u2_as_cell a, u2_as_cell b) of
        (Some (n_a, lr_a), Some (n_b, lr_b)) \<Rightarrow>
          ask (j2_mbc_vor G n_b n_a)
            (mer_step (in_mer n G) G n_b lr_b n_a lr_a)
            (mer_step (in_mer n G) G n_a lr_a n_b lr_b)
      | _ \<Rightarrow> u2_bl_bail c3__exit)"

definition j2_mcc_in_mer :: "'m gmp \<Rightarrow> noun \<Rightarrow> noun \<Rightarrow> u2_weak res" where
  "j2_mcc_in_mer G a b = in_mer (uni_fuel a b) G a b"

definition j2_mc_in_mer :: "'m gmp \<Rightarrow> noun \<Rightarrow> u2_weak res" where
  "j2_mc_in_mer G cor = sam_con cor (j2_mcc_in_mer G)"

definition int_step ::
  "(noun \<Rightarrow> noun \<Rightarrow> u2_weak res) \<Rightarrow> (noun \<Rightarrow> noun \<Rightarrow> u2_weak res) \<Rightarrow> 'm gmp \<Rightarrow> noun \<Rightarrow> noun \<Rightarrow> noun \<Rightarrow> noun \<Rightarrow> u2_weak res" where
  "int_step uni rec G n_a lr_a n_b lr_b =
     (case (u2_as_cell lr_a, u2_as_cell lr_b) of
        (Some (l_a, r_a), Some (l_b, r_b)) \<Rightarrow>
          if n_a = n_b then
            rbind (rec l_a l_b) (\<lambda>l. rbind (rec r_a r_b) (\<lambda>r. Inr (u2_rl_trel (Some n_a) l r)))
          else ask (j2_mbc_hor G n_b n_a)
            (noun_arg (rec l_a (Cell n_b (Cell l_b u2_nul))) (\<lambda>c.
             noun_arg (rec (Cell n_a lr_a) r_b) (\<lambda>d. uni c d)))
            (noun_arg (rec r_a (Cell n_b (Cell u2_nul r_b))) (\<lambda>c.
             noun_arg (rec (Cell n_a lr_a) l_b) (\<lambda>d. uni c d)))
      | _ \<Rightarrow> u2_bl_bail c3__exit)"

primrec in_int :: "nat \<Rightarrow> 'm gmp \<Rightarrow> noun \<Rightarrow> noun \<Rightarrow> u2_weak res" where
  "in_int 0 G a b = Inl Wild"
| "in_int (Suc n) G a b =
     (if a = u2_nul then Inr (Some u2_nul)
      else if b = u2_nul then Inr (Some u2_nul)
      else case (u2_as_cell a, u2_as_cell b) of
        (Some (n_a, lr_a), Some (n_b, lr_b)) \<Rightarrow>
          ask (j2_mbc_vor G n_b n_a)
            (int_step (j2_mcc_in_uni G) (in_int n G) G n_b lr_b n_a lr_a)
            (int_step (j2_mcc_in_uni G) (in_int n G) G n_a lr_a n_b lr_b)
      | _ \<Rightarrow> u2_bl_bail c3__exit)"

text \<open>In \<^verbatim>\<open>int\<close> the trees of each call have fewer nodes together than those of the call before.\<close>

definition j2_mcc_in_int :: "'m gmp \<Rightarrow> noun \<Rightarrow> noun \<Rightarrow> u2_weak res" where
  "j2_mcc_in_int G a b = in_int (nodes a + nodes b + 1) G a b"

definition j2_mc_in_int :: "'m gmp \<Rightarrow> noun \<Rightarrow> u2_weak res" where
  "j2_mc_in_int G cor = sam_con cor (j2_mcc_in_int G)"

section \<open>Maps\<close>

fun j2_mcc_by_put :: "'m gmp \<Rightarrow> noun \<Rightarrow> noun \<Rightarrow> noun \<Rightarrow> u2_weak res" where
  "j2_mcc_by_put G (Atom a) b c =
     (if a = 0 then Inr (u2_rl_trel (u2_rl_cell (Some b) (Some c)) (Some u2_nul) (Some u2_nul)) else u2_bl_bail c3__exit)"
| "j2_mcc_by_put G (Cell n_a (Atom lr_a)) b c = u2_bl_bail c3__exit"
| "j2_mcc_by_put G (Cell (Atom n_a) (Cell l_a r_a)) b c = u2_bl_bail c3__exit"
| "j2_mcc_by_put G (Cell (Cell pn_a qn_a) (Cell l_a r_a)) b c =
     (let n_a = Cell pn_a qn_a
      in if pn_a = b then
           if qn_a = c then Inr (Some (Cell n_a (Cell l_a r_a)))
           else Inr (u2_rl_trel (u2_rl_cell (Some b) (Some c)) (Some l_a) (Some r_a))
         else ask (j2_mbc_gor G b pn_a)
           (noun_arg (j2_mcc_by_put G l_a b c) (\<lambda>d.
            rbind (u2_h d) (\<lambda>n_d. rbind (u2_h n_d) (\<lambda>pn_d.
              ask (j2_mbc_vor G pn_a pn_d)
                (Inr (u2_rl_trel (Some n_a) (Some d) (Some r_a)))
                (case u2_as_trel d of
                   None \<Rightarrow> Inl Wild
                 | Some (n_d, l_d, r_d) \<Rightarrow>
                     Inr (u2_rl_trel (Some n_d) (Some l_d) (u2_rl_trel (Some n_a) (Some r_d) (Some r_a))))))))
           (noun_arg (j2_mcc_by_put G r_a b c) (\<lambda>d.
            rbind (u2_h d) (\<lambda>n_d. rbind (u2_h n_d) (\<lambda>pn_d.
              ask (j2_mbc_vor G pn_a pn_d)
                (Inr (u2_rl_trel (Some n_a) (Some l_a) (Some d)))
                (case u2_as_trel d of
                   None \<Rightarrow> Inl Wild
                 | Some (n_d, l_d, r_d) \<Rightarrow>
                     Inr (u2_rl_trel (Some n_d) (u2_rl_trel (Some n_a) (Some l_a) (Some l_d)) (Some r_d))))))))"

definition j2_mc_by_put :: "'m gmp \<Rightarrow> noun \<Rightarrow> u2_weak res" where
  "j2_mc_by_put G cor =
     rbind (u2_mean cor [12, 13, 30]) (\<lambda>r. case r of
       Some [b, c, a] \<Rightarrow> j2_mcc_by_put G a b c | _ \<Rightarrow> u2_bl_bail c3__exit)"

fun j2_mcc_by_get :: "'m gmp \<Rightarrow> noun \<Rightarrow> noun \<Rightarrow> u2_weak res" where
  "j2_mcc_by_get G (Atom a) b = (if a = 0 then Inr (Some u2_nul) else u2_bl_bail c3__exit)"
| "j2_mcc_by_get G (Cell n_a (Atom lr_a)) b = u2_bl_bail c3__exit"
| "j2_mcc_by_get G (Cell (Atom n_a) (Cell l_a r_a)) b = u2_bl_bail c3__exit"
| "j2_mcc_by_get G (Cell (Cell pn_a qn_a) (Cell l_a r_a)) b =
     (if b = pn_a then Inr (u2_rl_cell (Some u2_nul) (Some qn_a))
      else ask (j2_mbc_gor G b pn_a) (j2_mcc_by_get G l_a b) (j2_mcc_by_get G r_a b))"

definition j2_mc_by_get :: "'m gmp \<Rightarrow> noun \<Rightarrow> u2_weak res" where
  "j2_mc_by_get G cor = sam_con cor (j2_mcc_by_get G)"

fun j2_mcc_by_has :: "'m gmp \<Rightarrow> noun \<Rightarrow> noun \<Rightarrow> noun res" where
  "j2_mcc_by_has G (Atom a) b = (if a = 0 then Inr (Atom u2_no) else u2_bl_bail c3__exit)"
| "j2_mcc_by_has G (Cell n_a (Atom lr_a)) b = u2_bl_bail c3__exit"
| "j2_mcc_by_has G (Cell (Atom n_a) (Cell l_a r_a)) b = u2_bl_bail c3__exit"
| "j2_mcc_by_has G (Cell (Cell pn_a qn_a) (Cell l_a r_a)) b =
     (if b = pn_a then Inr (Atom u2_yes)
      else ask (j2_mbc_gor G b pn_a) (j2_mcc_by_has G l_a b) (j2_mcc_by_has G r_a b))"

definition j2_mc_by_has :: "'m gmp \<Rightarrow> noun \<Rightarrow> u2_weak res" where
  "j2_mc_by_has G cor = sam_con cor (\<lambda>a b. rbind (j2_mcc_by_has G a b) (\<lambda>r. Inr (Some r)))"

fun by_gas :: "'m gmp \<Rightarrow> noun \<Rightarrow> noun \<Rightarrow> u2_weak res" where
  "by_gas G (Atom b) a = (if b = 0 then Inr (Some a) else u2_bl_bail c3__exit)"
| "by_gas G (Cell (Atom i_b) t_b) a = u2_bl_bail c3__exit"
| "by_gas G (Cell (Cell pi_b qi_b) t_b) a =
     rbind (j2_mcc_by_put G a pi_b qi_b) (\<lambda>c. case c of None \<Rightarrow> u2_bl_bail c3__exit | Some c \<Rightarrow> by_gas G t_b c)"

definition j2_mcc_by_gas :: "'m gmp \<Rightarrow> noun \<Rightarrow> noun \<Rightarrow> u2_weak res" where
  "j2_mcc_by_gas G a b = by_gas G b a"

definition j2_mc_by_gas :: "'m gmp \<Rightarrow> noun \<Rightarrow> u2_weak res" where
  "j2_mc_by_gas G cor = sam_con cor (j2_mcc_by_gas G)"

text \<open>
  The union and the intersection of maps compare keys with \<^verbatim>\<open>hor\<close>, not with \<^verbatim>\<open>gor\<close>. Where the root of the second map is
  the upper one, the intersection goes on with \<open>a\<close> and a part of \<open>a\<close>.
\<close>

primrec by_uni :: "nat \<Rightarrow> 'm gmp \<Rightarrow> noun \<Rightarrow> noun \<Rightarrow> u2_weak res" where
  "by_uni 0 G a b = Inl Wild"
| "by_uni (Suc n) G a b =
     (if a = u2_nul then Inr (Some b)
      else if b = u2_nul then Inr (Some a)
      else case (a, b) of
        (Cell (Cell p_n_a q_n_a) (Cell l_a r_a), Cell (Cell p_n_b q_n_b) (Cell l_b r_b)) \<Rightarrow>
          let n_a = Cell p_n_a q_n_a; n_b = Cell p_n_b q_n_b
          in ask (j2_mbc_vor G p_n_a p_n_b)
            (if p_n_a = p_n_b then
               rbind (by_uni n G l_a l_b) (\<lambda>l. rbind (by_uni n G r_a r_b) (\<lambda>r. Inr (u2_rl_trel (Some n_b) l r)))
             else ask (j2_mbc_hor G p_n_b p_n_a)
               (rbind (by_uni n G l_a (Cell n_b (Cell l_b u2_nul))) (\<lambda>l.
                noun_arg (Inr (u2_rl_trel (Some n_a) l (Some r_a))) (\<lambda>c. by_uni n G c r_b)))
               (rbind (by_uni n G r_a (Cell n_b (Cell u2_nul r_b))) (\<lambda>r.
                noun_arg (Inr (u2_rl_trel (Some n_a) (Some l_a) r)) (\<lambda>c. by_uni n G c l_b))))
            (if p_n_b = p_n_a then
               rbind (by_uni n G r_b r_a) (\<lambda>l. rbind (by_uni n G l_b l_a) (\<lambda>r. Inr (u2_rl_trel (Some n_b) l r)))
             else ask (j2_mbc_hor G p_n_a p_n_b)
               (rbind (by_uni n G (Cell n_a (Cell l_a u2_nul)) l_b) (\<lambda>l.
                noun_arg (Inr (u2_rl_trel (Some n_b) l (Some r_b))) (\<lambda>c. by_uni n G r_a c)))
               (rbind (by_uni n G r_b (Cell n_a (Cell u2_nul r_a))) (\<lambda>r.
                noun_arg (Inr (u2_rl_trel (Some n_b) (Some l_b) r)) (\<lambda>c. by_uni n G l_a c))))
      | _ \<Rightarrow> u2_bl_bail c3__exit)"

definition j2_mcc_by_uni :: "'m gmp \<Rightarrow> noun \<Rightarrow> noun \<Rightarrow> u2_weak res" where
  "j2_mcc_by_uni G a b = by_uni (uni_fuel a b) G a b"

definition j2_mc_by_uni :: "'m gmp \<Rightarrow> noun \<Rightarrow> u2_weak res" where
  "j2_mc_by_uni G cor = sam_con cor (j2_mcc_by_uni G)"

primrec by_int :: "nat \<Rightarrow> 'm gmp \<Rightarrow> noun \<Rightarrow> noun \<Rightarrow> u2_weak res" where
  "by_int 0 G a b = Inl Wild"
| "by_int (Suc n) G a b =
     (if a = u2_nul then Inr (Some u2_nul)
      else if b = u2_nul then Inr (Some u2_nul)
      else case (a, b) of
        (Cell (Cell p_n_a q_n_a) (Cell l_a r_a), Cell (Cell p_n_b q_n_b) (Cell l_b r_b)) \<Rightarrow>
          let n_a = Cell p_n_a q_n_a; n_b = Cell p_n_b q_n_b
          in ask (j2_mbc_vor G p_n_a p_n_b)
            (if p_n_a = p_n_b then
               rbind (by_int n G l_a l_b) (\<lambda>l. rbind (by_int n G r_a r_b) (\<lambda>r. Inr (u2_rl_trel (Some n_b) l r)))
             else ask (j2_mbc_hor G p_n_b p_n_a)
               (noun_arg (by_int n G l_a (Cell n_b (Cell l_b u2_nul))) (\<lambda>c.
                noun_arg (by_int n G a r_b) (\<lambda>d. j2_mcc_by_uni G c d)))
               (noun_arg (by_int n G r_a (Cell n_b (Cell u2_nul r_b))) (\<lambda>c.
                noun_arg (by_int n G a l_b) (\<lambda>d. j2_mcc_by_uni G c d))))
            (if p_n_b = p_n_a then
               rbind (by_int n G l_b l_a) (\<lambda>l. rbind (by_int n G r_b r_a) (\<lambda>r. Inr (u2_rl_trel (Some n_b) l r)))
             else ask (j2_mbc_hor G p_n_a p_n_b)
               (noun_arg (by_int n G l_b (Cell n_a (Cell l_a u2_nul))) (\<lambda>c.
                noun_arg (by_int n G a r_a) (\<lambda>d. j2_mcc_by_uni G c d)))
               (noun_arg (by_int n G r_b (Cell n_a (Cell u2_nul r_a))) (\<lambda>c.
                noun_arg (by_int n G a l_a) (\<lambda>d. j2_mcc_by_uni G c d))))
      | _ \<Rightarrow> u2_bl_bail c3__exit)"

definition j2_mcc_by_int :: "'m gmp \<Rightarrow> noun \<Rightarrow> noun \<Rightarrow> u2_weak res" where
  "j2_mcc_by_int G a b = by_int (2 * nodes a + nodes b + 1) G a b"

definition j2_mc_by_int :: "'m gmp \<Rightarrow> noun \<Rightarrow> u2_weak res" where
  "j2_mc_by_int G cor = sam_con cor (j2_mcc_by_int G)"

section \<open>Treaps\<close>

primrec tree_noun :: "noun tree \<Rightarrow> noun" where
  "tree_noun Leaf = u2_nul"
| "tree_noun (Node l n r) = Cell n (Cell (tree_noun l) (tree_noun r))"

text \<open>
  What the jets rely on of the two orders: keys that determine what they are keys of. In a treap the left tree
  is below the root and the right tree above it in the first order, and everything is below it in the second.
\<close>

fun treap :: "('a \<Rightarrow> 'x::linorder) \<Rightarrow> ('a \<Rightarrow> 'y::linorder) \<Rightarrow> 'a tree \<Rightarrow> bool" where
  "treap hk vk Leaf = True"
| "treap hk vk (Node l n r) \<longleftrightarrow>
     treap hk vk l \<and> treap hk vk r \<and>
     (\<forall>x\<in>set_tree l. hk x < hk n \<and> vk n < vk x) \<and> (\<forall>x\<in>set_tree r. hk n < hk x \<and> vk n < vk x)"

text \<open>Insertion into a treap, with the rotations of the jets.\<close>

fun tput :: "('a \<Rightarrow> 'x::linorder) \<Rightarrow> ('a \<Rightarrow> 'y::linorder) \<Rightarrow> 'a \<Rightarrow> 'a tree \<Rightarrow> 'a tree" where
  "tput hk vk x Leaf = Node Leaf x Leaf"
| "tput hk vk x (Node l n r) =
     (if hk x = hk n then Node l x r
      else if hk x \<le> hk n then
        (case tput hk vk x l of
           Leaf \<Rightarrow> Leaf
         | Node l_c n_c r_c \<Rightarrow> if vk n \<le> vk n_c then Node (Node l_c n_c r_c) n r else Node l_c n_c (Node r_c n r))
      else
        (case tput hk vk x r of
           Leaf \<Rightarrow> Leaf
         | Node l_c n_c r_c \<Rightarrow> if vk n \<le> vk n_c then Node l n (Node l_c n_c r_c) else Node (Node l n l_c) n_c r_c))"

lemma treap_root: "treap hk vk (Node l n r) \<Longrightarrow> x \<in> set_tree (Node l n r) \<Longrightarrow> x = n \<or> vk n < vk x"
  by auto

lemma treap_parts:
  assumes "treap hk vk (Node l n r)"
  shows "set_tree l = {x \<in> set_tree (Node l n r). hk x < hk n}" "set_tree r = {x \<in> set_tree (Node l n r). hk n < hk x}"
  using assms by auto

locale treap_orders =
  fixes hk :: "'a \<Rightarrow> 'x::linorder" and vk :: "'a \<Rightarrow> 'y::linorder"
  assumes same_key: "hk a = hk b \<longleftrightarrow> vk a = vk b"
begin

lemma treap_unique: "treap hk vk s \<Longrightarrow> treap hk vk t \<Longrightarrow> set_tree s = set_tree t \<Longrightarrow> s = t"
proof (induction s arbitrary: t)
  case Leaf
  then show ?case by (cases t) auto
next
  case (Node l n r)
  then obtain l' n' r' where t: "t = Node l' n' r'" by (cases t) auto
  have "n' = n \<or> vk n < vk n'" by (rule treap_root [OF Node.prems(1)]) (simp only: Node.prems(3) t tree.set_intros)
  moreover have "n = n' \<or> vk n' < vk n"
    by (rule treap_root [OF Node.prems(2) [unfolded t]]) (simp only: Node.prems(3) [unfolded t, symmetric] tree.set_intros)
  ultimately have n: "n = n'" by (auto dest: less_asym)
  note parts = treap_parts [OF Node.prems(1)] treap_parts [OF Node.prems(2) [unfolded t]]
  have "set_tree l = set_tree l'" by (simp only: parts(1,3) Node.prems(3) [unfolded t n] n)
  moreover have "set_tree r = set_tree r'" by (simp only: parts(2,4) Node.prems(3) [unfolded t n] n)
  ultimately show ?case using Node.IH Node.prems(1,2) n t by simp
qed

lemma tput_left:
  assumes t: "treap hk vk (Node l n r)" and c: "treap hk vk (Node l_c n_c r_c)"
    and set: "set_tree (Node l_c n_c r_c) = insert x {y \<in> set_tree l. hk y \<noteq> hk x}" and x: "hk x < hk n"
  shows "treap hk vk (if vk n \<le> vk n_c then Node (Node l_c n_c r_c) n r else Node l_c n_c (Node r_c n r))"
proof -
  have below: "hk y < hk n" if "y \<in> set_tree (Node l_c n_c r_c)" for y using that t x unfolding set by auto
  have "n_c \<in> insert x (set_tree l)" using set by auto
  then have ne: "vk n_c \<noteq> vk n" using below [of n_c] same_key [of n_c n] by auto
  show ?thesis
  proof (cases "vk n \<le> vk n_c")
    case True
    then have "vk n < vk y" if "y \<in> set_tree (Node l_c n_c r_c)" for y
      using treap_root [OF c that] ne by auto
    then show ?thesis using True t c below by auto
  next
    case False
    then have "n_c = x" using \<open>n_c \<in> insert x (set_tree l)\<close> t by auto
    have "y \<in> set_tree l" if "y \<in> set_tree r_c" for y
    proof -
      have "vk n_c < vk y" using c that by simp
      then have "y \<noteq> x" using \<open>n_c = x\<close> by auto
      then show ?thesis using that set by auto
    qed
    then have "\<forall>y\<in>set_tree r_c. hk y < hk n \<and> vk n < vk y" using t by auto
    moreover have "\<forall>y\<in>set_tree (Node r_c n r). hk n_c < hk y \<and> vk n_c < vk y"
      using False t c below [of n_c] by (fastforce dest: less_trans)
    ultimately show ?thesis using False t c by auto
  qed
qed

lemma tput_right:
  assumes t: "treap hk vk (Node l n r)" and c: "treap hk vk (Node l_c n_c r_c)"
    and set: "set_tree (Node l_c n_c r_c) = insert x {y \<in> set_tree r. hk y \<noteq> hk x}" and x: "hk n < hk x"
  shows "treap hk vk (if vk n \<le> vk n_c then Node l n (Node l_c n_c r_c) else Node (Node l n l_c) n_c r_c)"
proof -
  have above: "hk n < hk y" if "y \<in> set_tree (Node l_c n_c r_c)" for y using that t x unfolding set by auto
  have "n_c \<in> insert x (set_tree r)" using set by auto
  then have ne: "vk n_c \<noteq> vk n" using above [of n_c] same_key [of n_c n] by auto
  show ?thesis
  proof (cases "vk n \<le> vk n_c")
    case True
    then have "vk n < vk y" if "y \<in> set_tree (Node l_c n_c r_c)" for y
      using treap_root [OF c that] ne by auto
    then show ?thesis using True t c above by auto
  next
    case False
    then have "n_c = x" using \<open>n_c \<in> insert x (set_tree r)\<close> t by auto
    have "y \<in> set_tree r" if "y \<in> set_tree l_c" for y
    proof -
      have "vk n_c < vk y" using c that by simp
      then have "y \<noteq> x" using \<open>n_c = x\<close> by auto
      then show ?thesis using that set by auto
    qed
    then have "\<forall>y\<in>set_tree l_c. hk n < hk y \<and> vk n < vk y" using t by auto
    moreover have "\<forall>y\<in>set_tree (Node l n l_c). hk y < hk n_c \<and> vk n_c < vk y"
      using False t c above [of n_c] by (fastforce dest: less_trans)
    ultimately show ?thesis using False t c by auto
  qed
qed

lemma tput_treap:
  "treap hk vk t \<Longrightarrow> treap hk vk (tput hk vk x t) \<and> set_tree (tput hk vk x t) = insert x {y \<in> set_tree t. hk y \<noteq> hk x}"
proof (induction t)
  case (Node l n r)
  consider "hk x = hk n" | "hk x < hk n" | "hk n < hk x" by (rule linorder_cases)
  then show ?case
  proof cases
    case 1
    then show ?thesis using Node.prems same_key [of x n] by auto
  next
    case 2
    have "set_tree (tput hk vk x l) \<noteq> {}" using Node by auto
    then obtain l_c n_c r_c where c: "tput hk vk x l = Node l_c n_c r_c" by (cases "tput hk vk x l") auto
    then have "treap hk vk (Node l_c n_c r_c)" "set_tree (Node l_c n_c r_c) = insert x {y \<in> set_tree l. hk y \<noteq> hk x}"
      using Node by auto
    note * = tput_left [OF Node.prems this 2] this(2)
    have "hk n \<noteq> hk x" "\<forall>y\<in>set_tree r. hk y \<noteq> hk x" using 2 Node.prems by auto
    then show ?thesis using * 2 c by (auto split: if_splits)
  next
    case 3
    have "set_tree (tput hk vk x r) \<noteq> {}" using Node by auto
    then obtain l_c n_c r_c where c: "tput hk vk x r = Node l_c n_c r_c" by (cases "tput hk vk x r") auto
    then have "treap hk vk (Node l_c n_c r_c)" "set_tree (Node l_c n_c r_c) = insert x {y \<in> set_tree r. hk y \<noteq> hk x}"
      using Node by auto
    note * = tput_right [OF Node.prems this 3] this(2)
    have "hk n \<noteq> hk x" "\<forall>y\<in>set_tree l. hk y \<noteq> hk x" using 3 Node.prems by auto
    then show ?thesis using * 3 c by (auto split: if_splits)
  qed
qed simp

end

end
