(* ===== verification/Sets.thy ===== *)
theory Sets
  imports Treaps
begin

text \<open>
  What the jets of sets do. A noun is a set, \<open>is_set a S\<close>, when it is the tree of a treap in the orders \<^verbatim>\<open>hor\<close> and \<^verbatim>\<open>vor\<close>
  whose nodes are the elements of \<open>S\<close>. There is one such noun for each \<open>S\<close>, and the jets are the operations on \<open>S\<close>.
\<close>

section \<open>Joining treaps\<close>

text \<open>
  \<open>u\<close> joins \<open>s\<close> and \<open>t\<close>: its keys are the keys of both, and its nodes come from them.
\<close>

definition joins :: "('a \<Rightarrow> 'x::linorder) \<Rightarrow> ('a \<Rightarrow> 'y::linorder) \<Rightarrow> 'a tree \<Rightarrow> 'a tree \<Rightarrow> 'a tree \<Rightarrow> bool" where
  "joins hk vk u s t \<longleftrightarrow>
     treap hk vk u \<and> set_tree u \<subseteq> set_tree s \<union> set_tree t \<and> hk ` set_tree u = hk ` set_tree s \<union> hk ` set_tree t"

text \<open>
  The depth of the recursion: each call has fewer nodes, or no more nodes and a smaller tree under the lower root.
\<close>

fun low :: "('a \<Rightarrow> 'y::linorder) \<Rightarrow> 'a tree \<Rightarrow> 'a tree \<Rightarrow> nat" where
  "low vk (Node l n r) (Node l' n' r') =
     (if vk n < vk n' then size (Node l' n' r') else if vk n' < vk n then size (Node l n r) else 0)"
| "low vk s t = 0"

definition work :: "('a \<Rightarrow> 'y::linorder) \<Rightarrow> 'a tree \<Rightarrow> 'a tree \<Rightarrow> nat" where
  "work vk s t = (size s + size t) * (size s + size t) + low vk s t"

lemma joins_sym: "joins hk vk u s t \<longleftrightarrow> joins hk vk u t s"
  by (auto simp: joins_def Un_commute)

lemma low_sym: "low vk s t = low vk t s"
  by (cases "(vk, s, t)" rule: low.cases) auto

lemma work_sym: "work vk s t = work vk t s"
  by (simp add: work_def low_sym add.commute)

lemma low_le: "low vk s t \<le> size s + size t"
  by (cases "(vk, s, t)" rule: low.cases) auto

lemma work_le: "work vk s t \<le> (size s + size t) * (size s + size t) + (size s + size t)"
  by (simp add: work_def low_le)

lemma work_less_total: "size s' + size t' < size s + size t \<Longrightarrow> work vk s' t' < work vk s t"
proof -
  assume *: "size s' + size t' < size s + size t" (is "?m < ?n")
  have "work vk s' t' \<le> ?m * Suc ?m" using work_le [of vk s' t'] by simp
  also have "\<dots> < Suc ?m * Suc ?m" by simp
  also have "\<dots> \<le> ?n * ?n" using * by (intro mult_le_mono) auto
  finally show ?thesis by (simp add: work_def)
qed

lemma work_less_low:
  assumes "size s' + size t' \<le> size s + size t" "low vk s' t' < low vk s t"
  shows "work vk s' t' < work vk s t"
  using mult_le_mono [OF assms(1) assms(1)] assms(2) by (simp add: work_def)

context treap_orders
begin

lemma joins_leaf: "treap hk vk t \<Longrightarrow> joins hk vk t Leaf t" "treap hk vk t \<Longrightarrow> joins hk vk t t Leaf"
  by (auto simp: joins_def)

lemma treap_size: "treap hk vk t \<Longrightarrow> size t = card (hk ` set_tree t)"
proof (induction t)
  case (Node l n r)
  then have "hk ` set_tree l \<inter> hk ` set_tree r = {}" "hk n \<notin> hk ` set_tree l \<union> hk ` set_tree r" by force+
  moreover have "hk ` set_tree (Node l n r) = insert (hk n) (hk ` set_tree l \<union> hk ` set_tree r)" by auto
  ultimately show ?case using Node by (simp add: card_Un_disjoint)
qed simp

lemma treap_distinct: "treap hk vk t \<Longrightarrow> distinct (inorder t)"
  using treap_size [of t] card_image_le [of "set_tree t" hk] card_length [of "inorder t"] card_distinct [of "inorder t"] by simp

lemma joins_size: "joins hk vk u s t \<Longrightarrow> treap hk vk s \<Longrightarrow> treap hk vk t \<Longrightarrow> size u \<le> size s + size t"
  unfolding joins_def using treap_size card_Un_le by metis

lemma joins_all: "joins hk vk u s t \<Longrightarrow> \<forall>x\<in>set_tree s. P x \<Longrightarrow> \<forall>x\<in>set_tree t. P x \<Longrightarrow> \<forall>x\<in>set_tree u. P x"
  unfolding joins_def by blast

lemma joins_same:
  assumes t: "treap hk vk (Node l n r)" "treap hk vk (Node l' n' r')" and n: "hk n = hk n'"
    and j: "joins hk vk u l l'" "joins hk vk v r r'" and m: "m = n \<or> m = n'"
  shows "joins hk vk (Node u m v) (Node l n r) (Node l' n' r')"
proof -
  have v: "vk n = vk n'" using n same_key by simp
  have "\<forall>x\<in>set_tree u. hk x < hk m \<and> vk m < vk x" by (rule joins_all [OF j(1)]) (use t n v m in auto)
  moreover have "\<forall>x\<in>set_tree v. hk m < hk x \<and> vk m < vk x" by (rule joins_all [OF j(2)]) (use t n v m in auto)
  ultimately have "treap hk vk (Node u m v)" using j by (simp add: joins_def)
  moreover have "hk m = hk n" using m n by auto
  ultimately show ?thesis using j n m unfolding joins_def by auto
qed

lemma treap_halves:
  assumes "treap hk vk (Node l' n' r')"
  shows "treap hk vk (Node l' n' Leaf)" "work vk l (Node l' n' Leaf) < work vk (Node l n r) (Node l' n' r')"
    "treap hk vk (Node Leaf n' r')" "work vk r (Node Leaf n' r') < work vk (Node l n r) (Node l' n' r')"
    "work vk l l' < work vk (Node l n r) (Node l' n' r')" "work vk r r' < work vk (Node l n r) (Node l' n' r')"
  using assms by (auto intro: work_less_total)

lemma joins_below:
  assumes t: "treap hk vk (Node l n r)" "treap hk vk (Node l' n' r')" and n: "vk n < vk n'" "hk n' < hk n"
    and j: "joins hk vk u l (Node l' n' Leaf)"
  shows "treap hk vk (Node u n r)" "joins hk vk v (Node u n r) r' \<Longrightarrow> joins hk vk v (Node l n r) (Node l' n' r')"
    "work vk (Node u n r) r' < work vk (Node l n r) (Node l' n' r')"
proof -
  have l': "\<forall>x\<in>set_tree (Node l' n' Leaf). hk x < hk n \<and> vk n < vk x" using t(2) n by auto
  have "\<forall>x\<in>set_tree u. hk x < hk n \<and> vk n < vk x" by (rule joins_all [OF j _ l']) (use t(1) in simp)
  then show *: "treap hk vk (Node u n r)" using j t(1) by (simp add: joins_def)
  have "treap hk vk (Node l' n' Leaf)" using t(2) by simp
  then have "size u \<le> Suc (size l + size l')" using joins_size [OF j] t by simp
  moreover have "low vk (Node u n r) r' < low vk (Node l n r) (Node l' n' r')" using t(2) n by (cases r') auto
  ultimately show "work vk (Node u n r) r' < work vk (Node l n r) (Node l' n' r')"
    by (intro work_less_low) auto
  show "joins hk vk v (Node l n r) (Node l' n' r')" if "joins hk vk v (Node u n r) r'"
    using that j unfolding joins_def by auto
qed

lemma joins_above:
  assumes t: "treap hk vk (Node l n r)" "treap hk vk (Node l' n' r')" and n: "vk n < vk n'" "hk n < hk n'"
    and j: "joins hk vk u r (Node Leaf n' r')"
  shows "treap hk vk (Node l n u)" "joins hk vk v (Node l n u) l' \<Longrightarrow> joins hk vk v (Node l n r) (Node l' n' r')"
    "work vk (Node l n u) l' < work vk (Node l n r) (Node l' n' r')"
proof -
  have r': "\<forall>x\<in>set_tree (Node Leaf n' r'). hk n < hk x \<and> vk n < vk x" using t(2) n by auto
  have "\<forall>x\<in>set_tree u. hk n < hk x \<and> vk n < vk x" by (rule joins_all [OF j _ r']) (use t(1) in simp)
  then show *: "treap hk vk (Node l n u)" using j t(1) by (simp add: joins_def)
  have "treap hk vk (Node Leaf n' r')" using t(2) by simp
  then have "size u \<le> Suc (size r + size r')" using joins_size [OF j] t by simp
  moreover have "low vk (Node l n u) l' < low vk (Node l n r) (Node l' n' r')" using t(2) n by (cases l') auto
  ultimately show "work vk (Node l n u) l' < work vk (Node l n r) (Node l' n' r')"
    by (intro work_less_low) auto
  show "joins hk vk v (Node l n r) (Node l' n' r')" if "joins hk vk v (Node l n u) l'"
    using that j unfolding joins_def by auto
qed

end

interpretation si: treap_orders hor_key vor_key
  by unfold_locales simp

section \<open>Sets\<close>

abbreviation all_fit :: "noun tree \<Rightarrow> bool" where
  "all_fit t \<equiv> \<forall>x\<in>set_tree t. noun_fits x"

definition is_set :: "noun \<Rightarrow> noun set \<Rightarrow> bool" where
  "is_set a S \<longleftrightarrow> (\<exists>t. a = tree_noun t \<and> treap hor_key vor_key t \<and> set_tree t = S \<and> all_fit t)"

lemma tree_noun_inj: "tree_noun s = tree_noun t \<Longrightarrow> s = t"
proof (induction s arbitrary: t)
  case Leaf
  then show ?case by (cases t) auto
next
  case (Node l n r)
  then show ?case by (cases t) auto
qed

lemma is_set_unique: "is_set a S \<Longrightarrow> is_set b S \<Longrightarrow> a = b"
  unfolding is_set_def using si.treap_unique by auto

lemma is_set_elements: "is_set a S \<Longrightarrow> is_set a T \<Longrightarrow> S = T"
  unfolding is_set_def using tree_noun_inj by blast

lemma is_setI: "treap hor_key vor_key t \<Longrightarrow> all_fit t \<Longrightarrow> set_tree t = S \<Longrightarrow> is_set (tree_noun t) S"
  by (auto simp: is_set_def)

lemma tput_set_le: "set_tree (tput hk vk x t) \<subseteq> insert x (set_tree t)"
  by (induction t) (auto split: tree.splits if_splits)

lemma tput_Leaf [simp]: "tput hk vk x t \<noteq> Leaf"
  by (induction t) (auto split: tree.splits)

lemma tput_cases: "(\<And>l n r. tput hk vk x t = Node l n r \<Longrightarrow> P) \<Longrightarrow> P"
  by (cases "tput hk vk x t") auto

lemma trel_simps:
  "u2_as_cell (Cell a b) = Some (a, b)" "u2_as_trel (Cell a (Cell b c)) = Some (a, b, c)"
  "u2_rl_trel (Some a) (Some b) (Some c) = Some (Cell a (Cell b c))"
  by (simp_all add: u2_as_cell_def u2_as_trel_def u2_rl_trel_def)

lemma size_nodes: "size t \<le> nodes (tree_noun t)"
  by (induction t) auto

context gmp_laws
begin

lemma in_put_tput:
  "all_fit t \<Longrightarrow> noun_fits b \<Longrightarrow>
   j2_mcc_in_put G (tree_noun t) b = Inr (Some (tree_noun (tput hor_key vor_key b t)))"
proof (induction t)
  case (Node l n r)
  obtain l1 n1 r1 where l: "tput hor_key vor_key b l = Node l1 n1 r1" by (rule tput_cases)
  obtain l2 n2 r2 where r: "tput hor_key vor_key b r = Node l2 n2 r2" by (rule tput_cases)
  have "noun_fits n1" using tput_set_le [of hor_key vor_key b l] Node.prems unfolding l by auto
  moreover have "noun_fits n2" using tput_set_le [of hor_key vor_key b r] Node.prems unfolding r by auto
  ultimately show ?case using Node l r by (auto simp: hor_le vor_le trel_simps)
qed (simp add: trel_simps)

lemma in_has_elem:
  "treap hor_key vor_key t \<Longrightarrow> all_fit t \<Longrightarrow> noun_fits b \<Longrightarrow> j2_mcc_in_has G (tree_noun t) b = Inr (u2_say (b \<in> set_tree t))"
proof (induction t)
  case (Node l n r)
  have "b \<notin> set_tree r" if "hor_key b \<le> hor_key n" using that Node.prems(1) by auto
  moreover have "b \<notin> set_tree l" if "\<not> hor_key b \<le> hor_key n" using that Node.prems(1) by auto
  ultimately show ?case using Node by (cases "b = n") (auto simp: hor_le u2_say_def [of True])
qed (simp add: u2_say_def)

end

text \<open>\<^verbatim>\<open>tap\<close> lists the elements in front of a list, the greatest first.\<close>

lemma tap_in_inorder: "tap_in (tree_noun t) (noun_list ys) = Inr (Some (noun_list (rev (inorder t) @ ys)))"
  by (induction t arbitrary: ys) (simp_all flip: noun_list.simps(2))

context gmp_laws
begin

lemma in_put_set:
  assumes "is_set a S" "noun_fits b"
  shows "\<exists>c. j2_mcc_in_put G a b = Inr (Some c) \<and> is_set c (insert b S)"
proof -
  obtain t where t: "a = tree_noun t" "treap hor_key vor_key t" "set_tree t = S" "all_fit t"
    using assms(1) unfolding is_set_def by blast
  have "treap hor_key vor_key (tput hor_key vor_key b t)" "set_tree (tput hor_key vor_key b t) = insert b S"
    using si.tput_treap [OF t(2), of b] t(3) by auto
  then have "is_set (tree_noun (tput hor_key vor_key b t)) (insert b S)" using t(3,4) assms(2) by (intro is_setI) auto
  then show ?thesis using in_put_tput [OF t(4) assms(2)] t(1) by auto
qed

lemma in_gas_set:
  "is_set a S \<Longrightarrow> \<forall>x\<in>set xs. noun_fits x \<Longrightarrow>
   \<exists>c. j2_mcc_in_gas G a (noun_list xs) = Inr (Some c) \<and> is_set c (S \<union> set xs)"
proof (induction xs arbitrary: a S)
  case (Cons x xs)
  obtain c where "j2_mcc_in_put G a x = Inr (Some c)" "is_set c (insert x S)" using in_put_set [of a S x] Cons.prems by auto
  then show ?case using Cons.IH [of c "insert x S"] Cons.prems by (simp add: j2_mcc_in_gas_def)
qed (simp add: j2_mcc_in_gas_def)

end

section \<open>Union\<close>

text \<open>A function on nouns joins two treaps.\<close>

definition unites :: "(noun \<Rightarrow> noun \<Rightarrow> u2_weak res) \<Rightarrow> noun tree \<Rightarrow> noun tree \<Rightarrow> bool" where
  "unites f s t \<longleftrightarrow> (\<exists>u. f (tree_noun s) (tree_noun t) = Inr (Some (tree_noun u)) \<and> joins hor_key vor_key u s t)"

lemma unitesI: "f (tree_noun s) (tree_noun t) = Inr (Some (tree_noun u)) \<Longrightarrow> joins hor_key vor_key u s t \<Longrightarrow> unites f s t"
  by (auto simp: unites_def)

lemma unites_flip: "unites (\<lambda>x y. f y x) s t \<longleftrightarrow> unites f t s"
  by (simp add: unites_def joins_sym)

context gmp_laws
begin

lemma mer_step_unites:
  assumes s: "s = Node l n r" and t: "t = Node l' n' r'"
    and treaps: "treap hor_key vor_key s" "treap hor_key vor_key t" and fit: "all_fit s" "all_fit t" and n: "vor_key n \<le> vor_key n'"
    and rec: "\<And>s' t'. \<lbrakk>treap hor_key vor_key s'; treap hor_key vor_key t'; all_fit s'; all_fit t'; work vor_key s' t' < work vor_key s t\<rbrakk>
      \<Longrightarrow> unites f s' t'"
  shows "\<exists>u. mer_step f G n (Cell (tree_noun l) (tree_noun r)) n' (Cell (tree_noun l') (tree_noun r')) = Inr (Some (tree_noun u)) \<and>
    joins hor_key vor_key u s t"
proof -
  note tr = treaps [unfolded s t] and halves = si.treap_halves [OF treaps(2) [unfolded t]]
  have fits: "noun_fits n" "noun_fits n'" "all_fit l" "all_fit r" "all_fit l'" "all_fit r'" using fit s t by auto
  consider "n = n'" | "n \<noteq> n'" "hor_key n' < hor_key n" | "n \<noteq> n'" "hor_key n < hor_key n'"
    using hor_key_eq [of n n'] by (metis linorder_cases)
  then show ?thesis
  proof cases
    case 1
    obtain u where u: "f (tree_noun l) (tree_noun l') = Inr (Some (tree_noun u))" "joins hor_key vor_key u l l'"
      using rec [of l l'] tr fits halves(5) s t unfolding unites_def by auto
    obtain v where v: "f (tree_noun r) (tree_noun r') = Inr (Some (tree_noun v))" "joins hor_key vor_key v r r'"
      using rec [of r r'] tr fits halves(6) s t unfolding unites_def by auto
    have "joins hor_key vor_key (Node u n v) s t" using si.joins_same [OF tr _ u(2) v(2)] 1 s t by simp
    then show ?thesis using u(1) v(1) 1 by (intro exI [of _ "Node u n v"]) (simp add: mer_step_def trel_simps)
  next
    case 2
    have lt: "vor_key n < vor_key n'" using n 2(1) by (simp add: less_le)
    obtain u where u: "f (tree_noun l) (tree_noun (Node l' n' Leaf)) = Inr (Some (tree_noun u))" "joins hor_key vor_key u l (Node l' n' Leaf)"
      using rec [of l "Node l' n' Leaf"] tr fits halves(2) s t unfolding unites_def by auto
    note b = si.joins_below [OF tr lt 2(2) u(2)]
    have "all_fit (Node u n r)" using u(2) fits unfolding joins_def by auto
    then obtain v where v: "f (tree_noun (Node u n r)) (tree_noun r') = Inr (Some (tree_noun v))" "joins hor_key vor_key v (Node u n r) r'"
      using rec [of "Node u n r" r'] b(1,3) tr fits s t unfolding unites_def by auto
    then show ?thesis using u(1) 2 fits b(2) [OF v(2)] s t
      by (intro exI [of _ v]) (auto simp: mer_step_def trel_simps hor_le)
  next
    case 3
    have lt: "vor_key n < vor_key n'" using n 3(1) by (simp add: less_le)
    obtain u where u: "f (tree_noun r) (tree_noun (Node Leaf n' r')) = Inr (Some (tree_noun u))" "joins hor_key vor_key u r (Node Leaf n' r')"
      using rec [of r "Node Leaf n' r'"] tr fits halves(4) s t unfolding unites_def by auto
    note b = si.joins_above [OF tr lt 3(2) u(2)]
    have "all_fit (Node l n u)" using u(2) fits unfolding joins_def by auto
    then obtain v where v: "f (tree_noun (Node l n u)) (tree_noun l') = Inr (Some (tree_noun v))" "joins hor_key vor_key v (Node l n u) l'"
      using rec [of "Node l n u" l'] b(1,3) tr fits s t unfolding unites_def by auto
    then show ?thesis using u(1) 3 fits b(2) [OF v(2)] s t
      by (intro exI [of _ v]) (auto simp: mer_step_def trel_simps hor_le)
  qed
qed

end

lemma unites_leaf:
  assumes "treap hor_key vor_key s" "treap hor_key vor_key t" "s = Leaf \<or> t = Leaf"
  shows "unites (in_uni (Suc k) G) s t" "unites (in_mer (Suc k) G) s t"
proof -
  have "unites f s t" if "f (tree_noun s) (tree_noun t) = Inr (Some (tree_noun (if s = Leaf then t else s)))" for f
    using assms(3)
  proof
    assume "s = Leaf"
    then show ?thesis using unitesI [where f = f and s = s and t = t, OF that] si.joins_leaf(1) [OF assms(2)] by simp
  next
    assume "t = Leaf"
    then show ?thesis using unitesI [where f = f and s = s and t = t, OF that] si.joins_leaf [OF assms(1)] by (cases "s = Leaf") auto
  qed
  then show "unites (in_uni (Suc k) G) s t" "unites (in_mer (Suc k) G) s t" using assms(3) by (cases s; auto)+
qed

lemma in_uni_step:
  "n_a \<noteq> n_b \<or> r = Inr (Some (u2_say True)) \<Longrightarrow> j2_mbc_vor G n_a n_b = r \<Longrightarrow>
   in_uni (Suc k) G (Cell n_a (Cell l_a r_a)) (Cell n_b (Cell l_b r_b)) =
   ask r (mer_step (in_uni k G) G n_a (Cell l_a r_a) n_b (Cell l_b r_b))
     (mer_step (\<lambda>x y. in_uni k G y x) G n_b (Cell l_b r_b) n_a (Cell l_a r_a))"
  by (auto simp: mer_step_def trel_simps)

context gmp_laws
begin

lemma in_uni_unites:
  "treap hor_key vor_key s \<Longrightarrow> treap hor_key vor_key t \<Longrightarrow> all_fit s \<Longrightarrow> all_fit t \<Longrightarrow> work vor_key s t < k \<Longrightarrow> unites (in_uni k G) s t"
proof (induction k arbitrary: s t)
  case (Suc k)
  show ?case
  proof (cases "s = Leaf \<or> t = Leaf")
    case True
    then show ?thesis using unites_leaf Suc.prems by blast
  next
    case False
    then obtain l n r l' n' r' where s: "s = Node l n r" and t: "t = Node l' n' r'" by (meson tree.exhaust)
    have fits: "noun_fits n" "noun_fits n'" using Suc.prems s t by auto
    note vor = vor_le [OF fits]
    show ?thesis
    proof (cases "vor_key n \<le> vor_key n'")
      case True
      have "unites (in_uni k G) s' t'" if "treap hor_key vor_key s'" "treap hor_key vor_key t'" "all_fit s'" "all_fit t'"
        "work vor_key s' t' < work vor_key s t" for s' t' using Suc.IH [OF that(1-4)] that(5) Suc.prems(5) by simp
      from mer_step_unites [OF s t Suc.prems(1-4) True this] obtain u where
        u: "mer_step (in_uni k G) G n (Cell (tree_noun l) (tree_noun r)) n' (Cell (tree_noun l') (tree_noun r')) = Inr (Some (tree_noun u))"
        "joins hor_key vor_key u s t" by blast
      show ?thesis by (rule unitesI [OF _ u(2)]) (simp add: s t in_uni_step [OF _ vor] True u(1) del: in_uni.simps)
    next
      case False
      then have n: "vor_key n' \<le> vor_key n" "n \<noteq> n'" by auto
      have "unites (\<lambda>x y. in_uni k G y x) s' t'"
        if "treap hor_key vor_key s'" "treap hor_key vor_key t'" "all_fit s'" "all_fit t'" "work vor_key s' t' < work vor_key t s" for s' t'
        unfolding unites_flip [of "in_uni k G"] using Suc.IH [OF that(2,1,4,3)] that(5) Suc.prems(5) by (simp add: work_sym [of _ t s] work_sym [of _ t' s'])
      from mer_step_unites [OF t s Suc.prems(2,1,4,3) n(1) this] obtain u where
        u: "mer_step (\<lambda>x y. in_uni k G y x) G n' (Cell (tree_noun l') (tree_noun r')) n (Cell (tree_noun l) (tree_noun r)) = Inr (Some (tree_noun u))"
        "joins hor_key vor_key u t s" by blast
      show ?thesis by (rule unitesI [OF _ u(2) [THEN joins_sym [THEN iffD1]]]) (simp add: s t in_uni_step [OF _ vor] False n(2) u(1) del: in_uni.simps)
    qed
  qed
qed simp

lemma in_mer_unites:
  "treap hor_key vor_key s \<Longrightarrow> treap hor_key vor_key t \<Longrightarrow> all_fit s \<Longrightarrow> all_fit t \<Longrightarrow> work vor_key s t < k \<Longrightarrow> unites (in_mer k G) s t"
proof (induction k arbitrary: s t)
  case (Suc k)
  show ?case
  proof (cases "s = Leaf \<or> t = Leaf")
    case True
    then show ?thesis using unites_leaf Suc.prems by blast
  next
    case False
    then obtain l n r l' n' r' where s: "s = Node l n r" and t: "t = Node l' n' r'" by (meson tree.exhaust)
    have fits: "noun_fits n" "noun_fits n'" using Suc.prems s t by auto
    note vor = vor_le [OF fits(2,1)]
    have rec: "unites (in_mer k G) s' t'" if "treap hor_key vor_key s'" "treap hor_key vor_key t'" "all_fit s'" "all_fit t'"
      "work vor_key s' t' < work vor_key s t" for s' t' using Suc.IH [OF that(1-4)] that(5) Suc.prems(5) by simp
    show ?thesis
    proof (cases "vor_key n' \<le> vor_key n")
      case True
      from mer_step_unites [OF t s Suc.prems(2,1,4,3) True rec [unfolded work_sym [of _ s t]]] obtain u where
        u: "mer_step (in_mer k G) G n' (Cell (tree_noun l') (tree_noun r')) n (Cell (tree_noun l) (tree_noun r)) = Inr (Some (tree_noun u))"
        "joins hor_key vor_key u t s" by blast
      show ?thesis by (rule unitesI [OF _ u(2) [THEN joins_sym [THEN iffD1]]]) (simp add: s t trel_simps vor True u(1))
    next
      case False
      then have "vor_key n \<le> vor_key n'" by simp
      from mer_step_unites [OF s t Suc.prems(1-4) this rec] obtain u where
        u: "mer_step (in_mer k G) G n (Cell (tree_noun l) (tree_noun r)) n' (Cell (tree_noun l') (tree_noun r')) = Inr (Some (tree_noun u))"
        "joins hor_key vor_key u s t" by blast
      show ?thesis by (rule unitesI [OF _ u(2)]) (simp add: s t trel_simps vor False u(1))
    qed
  qed
qed simp

end

lemma work_fuel: "work vk s t < uni_fuel (tree_noun s) (tree_noun t)"
proof -
  let ?m = "size s + size t" and ?n = "nodes (tree_noun s) + nodes (tree_noun t)"
  have "?m \<le> ?n" using size_nodes [of s] size_nodes [of t] by simp
  then have "?m * ?m + ?m \<le> ?n * ?n + ?n" using mult_le_mono [of ?m ?n ?m ?n] by linarith
  then show ?thesis using work_le [of vk s t] by (simp add: uni_fuel_def Let_def)
qed

lemma unites_set:
  assumes "is_set a S" "is_set b T"
    and "\<And>s t. \<lbrakk>treap hor_key vor_key s; treap hor_key vor_key t; all_fit s; all_fit t; a = tree_noun s; b = tree_noun t\<rbrakk> \<Longrightarrow> unites f s t"
  shows "\<exists>c. f a b = Inr (Some c) \<and> is_set c (S \<union> T)"
proof -
  obtain s where s: "a = tree_noun s" "treap hor_key vor_key s" "set_tree s = S" "all_fit s"
    using assms(1) unfolding is_set_def by blast
  obtain t where t: "b = tree_noun t" "treap hor_key vor_key t" "set_tree t = T" "all_fit t"
    using assms(2) unfolding is_set_def by blast
  obtain u where u: "f a b = Inr (Some (tree_noun u))" "joins hor_key vor_key u s t"
    using assms(3) [OF s(2) t(2) s(4) t(4) s(1) t(1)] s(1) t(1) unfolding unites_def by blast
  have "hor_key ` set_tree u = hor_key ` (S \<union> T)" using u(2) s(3) t(3) by (simp add: joins_def image_Un)
  then have "set_tree u = S \<union> T" by (subst (asm) inj_image_eq_iff) (auto intro: injI)
  moreover have "all_fit u" using u(2) s(4) t(4) unfolding joins_def by auto
  ultimately show ?thesis using u by (auto simp: joins_def intro!: is_setI)
qed

context gmp_laws
begin

lemma in_uni_set: "is_set a S \<Longrightarrow> is_set b T \<Longrightarrow> \<exists>c. j2_mcc_in_uni G a b = Inr (Some c) \<and> is_set c (S \<union> T)"
  unfolding j2_mcc_in_uni_def by (rule unites_set [where f = "\<lambda>a b. in_uni (uni_fuel a b) G a b"])
    (auto simp: unites_def intro: in_uni_unites [unfolded unites_def] work_fuel)

lemma in_mer_set: "is_set a S \<Longrightarrow> is_set b T \<Longrightarrow> \<exists>c. j2_mcc_in_mer G a b = Inr (Some c) \<and> is_set c (S \<union> T)"
  unfolding j2_mcc_in_mer_def by (rule unites_set [where f = "\<lambda>a b. in_mer (uni_fuel a b) G a b"])
    (auto simp: unites_def intro: in_mer_unites [unfolded unites_def] work_fuel)

end

section \<open>Intersection\<close>

lemma is_set_empty: "is_set u2_nul {}"
  using is_setI [of Leaf "{}"] by simp

lemma is_set_node:
  assumes "is_set a S" "is_set b T" "noun_fits n"
    "\<forall>x\<in>S. hor_key x < hor_key n \<and> vor_key n < vor_key x" "\<forall>x\<in>T. hor_key n < hor_key x \<and> vor_key n < vor_key x"
  shows "is_set (Cell n (Cell a b)) (insert n (S \<union> T))"
proof -
  obtain s t where "a = tree_noun s" "treap hor_key vor_key s" "set_tree s = S" "all_fit s"
    "b = tree_noun t" "treap hor_key vor_key t" "set_tree t = T" "all_fit t"
    using assms(1,2) unfolding is_set_def by blast
  then show ?thesis using is_setI [of "Node s n t" "insert n (S \<union> T)"] assms(3-5) by auto
qed

lemma treap_sets:
  assumes "treap hor_key vor_key (Node l n r)" "all_fit (Node l n r)"
  shows "is_set (tree_noun l) (set_tree l)" "is_set (tree_noun r) (set_tree r)"
    "is_set (tree_noun (Node l n Leaf)) (insert n (set_tree l))" "is_set (tree_noun (Node Leaf n r)) (insert n (set_tree r))"
    "is_set (tree_noun (Node l n r)) (set_tree (Node l n r))"
  by (rule is_setI; use assms in auto)+

lemma keys_apart: "\<forall>x\<in>A. f x < c \<Longrightarrow> \<forall>x\<in>B. c \<le> f x \<Longrightarrow> A \<inter> B = {}" for c :: "'x::linorder"
  by force

definition meets :: "(noun \<Rightarrow> noun \<Rightarrow> u2_weak res) \<Rightarrow> noun tree \<Rightarrow> noun tree \<Rightarrow> bool" where
  "meets f s t \<longleftrightarrow> (\<exists>c. f (tree_noun s) (tree_noun t) = Inr (Some c) \<and> is_set c (set_tree s \<inter> set_tree t))"

context gmp_laws
begin

lemma int_step_meets:
  assumes s: "s = Node l n r" and t: "t = Node l' n' r'"
    and treaps: "treap hor_key vor_key s" "treap hor_key vor_key t" and fit: "all_fit s" "all_fit t" and n: "vor_key n \<le> vor_key n'"
    and rec: "\<And>s' t'. \<lbrakk>treap hor_key vor_key s'; treap hor_key vor_key t'; all_fit s'; all_fit t'; size s' + size t' < size s + size t\<rbrakk>
      \<Longrightarrow> meets f s' t'"
  shows "\<exists>c. int_step (j2_mcc_in_uni G) f G n (Cell (tree_noun l) (tree_noun r)) n' (Cell (tree_noun l') (tree_noun r')) = Inr (Some c) \<and>
    is_set c (set_tree s \<inter> set_tree t)"
proof -
  note tr = treaps [unfolded s t]
  have fits: "noun_fits n" "noun_fits n'" "all_fit l" "all_fit r" "all_fit l'" "all_fit r'" using fit s t by auto
  consider "n = n'" | "n \<noteq> n'" "hor_key n' < hor_key n" | "n \<noteq> n'" "hor_key n < hor_key n'"
    using hor_key_eq [of n n'] by (metis linorder_cases)
  then show ?thesis
  proof cases
    case 1
    have "meets f l l'" "meets f r r'" by (rule rec; use tr fits s t in simp)+
    then obtain c d where c: "f (tree_noun l) (tree_noun l') = Inr (Some c)" "is_set c (set_tree l \<inter> set_tree l')"
      and d: "f (tree_noun r) (tree_noun r') = Inr (Some d)" "is_set d (set_tree r \<inter> set_tree r')" unfolding meets_def by blast
    have apart: "set_tree l \<inter> set_tree r' = {}" "set_tree r \<inter> set_tree l' = {}" "n' \<notin> set_tree l" "n' \<notin> set_tree r"
      using tr 1 by force+
    have "set_tree s \<inter> set_tree t = insert n (set_tree l \<inter> set_tree l' \<union> set_tree r \<inter> set_tree r')" using apart 1 s t by auto
    moreover have "is_set (Cell n (Cell c d)) \<dots>" using is_set_node [OF c(2) d(2) fits(1)] tr(1) by auto
    ultimately show ?thesis using c(1) d(1) 1 by (simp add: int_step_def trel_simps)
  next
    case 2
    have "meets f l (Node l' n' Leaf)" "meets f s r'" by (rule rec; use treaps tr fits fit s t in simp)+
    then obtain c d where c: "f (tree_noun l) (tree_noun (Node l' n' Leaf)) = Inr (Some c)" "is_set c (set_tree l \<inter> set_tree (Node l' n' Leaf))"
      and d: "f (tree_noun s) (tree_noun r') = Inr (Some d)" "is_set d (set_tree s \<inter> set_tree r')" unfolding meets_def by blast
    have apart: "set_tree (Node l' n' Leaf) \<inter> set_tree (Node Leaf n r) = {}"
      by (rule keys_apart [of _ hor_key "hor_key n"]) (use tr 2 in auto)
    have "set_tree s \<inter> set_tree t = set_tree l \<inter> set_tree (Node l' n' Leaf) \<union> set_tree s \<inter> set_tree r'" using apart s t by auto
    then show ?thesis using in_uni_set [OF c(2) d(2)] c(1) d(1) 2 fits s by (auto simp: int_step_def trel_simps hor_le)
  next
    case 3
    have "meets f r (Node Leaf n' r')" "meets f s l'" by (rule rec; use treaps tr fits fit s t in simp)+
    then obtain c d where c: "f (tree_noun r) (tree_noun (Node Leaf n' r')) = Inr (Some c)" "is_set c (set_tree r \<inter> set_tree (Node Leaf n' r'))"
      and d: "f (tree_noun s) (tree_noun l') = Inr (Some d)" "is_set d (set_tree s \<inter> set_tree l')" unfolding meets_def by blast
    have apart: "set_tree (Node l n Leaf) \<inter> set_tree (Node Leaf n' r') = {}"
      by (rule keys_apart [of _ hor_key "hor_key n'"]) (use tr 3 in auto)
    have "set_tree s \<inter> set_tree t = set_tree r \<inter> set_tree (Node Leaf n' r') \<union> set_tree s \<inter> set_tree l'" using apart s t by auto
    then show ?thesis using in_uni_set [OF c(2) d(2)] c(1) d(1) 3 fits s by (auto simp: int_step_def trel_simps hor_le)
  qed
qed

lemma in_int_meets:
  "treap hor_key vor_key s \<Longrightarrow> treap hor_key vor_key t \<Longrightarrow> all_fit s \<Longrightarrow> all_fit t \<Longrightarrow> size s + size t < k \<Longrightarrow> meets (in_int k G) s t"
proof (induction k arbitrary: s t)
  case (Suc k)
  show ?case
  proof (cases "s = Leaf \<or> t = Leaf")
    case True
    then show ?thesis using is_set_empty by (cases s) (auto simp: meets_def)
  next
    case False
    then obtain l n r l' n' r' where s: "s = Node l n r" and t: "t = Node l' n' r'" by (meson tree.exhaust)
    have fits: "noun_fits n" "noun_fits n'" using Suc.prems s t by auto
    note vor = vor_le [OF fits(2,1)]
    have rec: "meets (in_int k G) s' t'" if "treap hor_key vor_key s'" "treap hor_key vor_key t'" "all_fit s'" "all_fit t'"
      "size s' + size t' < size s + size t" for s' t' using Suc.IH [OF that(1-4)] that(5) Suc.prems(5) by simp
    show ?thesis
    proof (cases "vor_key n' \<le> vor_key n")
      case True
      obtain c where c: "int_step (j2_mcc_in_uni G) (in_int k G) G n' (Cell (tree_noun l') (tree_noun r')) n (Cell (tree_noun l) (tree_noun r)) = Inr (Some c)"
        "is_set c (set_tree t \<inter> set_tree s)"
        using int_step_meets [OF t s Suc.prems(2,1,4,3) True rec [unfolded add.commute [of "size s" "size t"]]] by blast
      then have "in_int (Suc k) G (tree_noun s) (tree_noun t) = Inr (Some c)" by (simp add: s t trel_simps vor True)
      then show ?thesis using c(2) unfolding meets_def Int_commute [of "set_tree s"] by blast
    next
      case False
      then have "vor_key n \<le> vor_key n'" by simp
      then obtain c where c: "int_step (j2_mcc_in_uni G) (in_int k G) G n (Cell (tree_noun l) (tree_noun r)) n' (Cell (tree_noun l') (tree_noun r')) = Inr (Some c)"
        "is_set c (set_tree s \<inter> set_tree t)" using int_step_meets [OF s t Suc.prems(1-4) _ rec] by blast
      then have "in_int (Suc k) G (tree_noun s) (tree_noun t) = Inr (Some c)" by (simp add: s t trel_simps vor False)
      then show ?thesis using c(2) unfolding meets_def by blast
    qed
  qed
qed simp

lemma in_int_set:
  assumes "is_set a S" "is_set b T"
  shows "\<exists>c. j2_mcc_in_int G a b = Inr (Some c) \<and> is_set c (S \<inter> T)"
proof -
  obtain s where s: "a = tree_noun s" "treap hor_key vor_key s" "set_tree s = S" "all_fit s"
    using assms(1) unfolding is_set_def by blast
  obtain t where t: "b = tree_noun t" "treap hor_key vor_key t" "set_tree t = T" "all_fit t"
    using assms(2) unfolding is_set_def by blast
  have "meets (in_int (nodes a + nodes b + 1) G) s t"
    by (rule in_int_meets [OF s(2) t(2) s(4) t(4)]) (use size_nodes [of s] size_nodes [of t] s(1) t(1) in simp)
  then show ?thesis using s t by (simp add: meets_def j2_mcc_in_int_def)
qed

end

section \<open>The jets of sets\<close>

text \<open>The core of a set operation: its argument over the core of the set.\<close>

abbreviation set_core :: "noun \<Rightarrow> noun \<Rightarrow> noun \<Rightarrow> noun \<Rightarrow> noun \<Rightarrow> noun" where
  "set_core bat b bat' a con \<equiv> gate bat b (gate bat' a con)"

lemma sam_con_core [simp]: "sam_con (set_core bat b bat' a con) f = f a b"
  by (simp add: sam_con_def u2_mean_jets)

text \<open>
  C20: the jets of a set refine the operations on the set of its elements. \<^verbatim>\<open>put\<close> gives the set with one element more,
  \<^verbatim>\<open>gas\<close> with the elements of a list, both again as a treap in the orders \<^verbatim>\<open>hor\<close> and \<^verbatim>\<open>vor\<close>; \<^verbatim>\<open>has\<close> says whether a noun is an
  element.
\<close>

theorem sets_refine:
  assumes "gmp_laws G val" "is_set a S" "noun_fits x" "\<forall>y\<in>set xs. noun_fits y"
  shows "(\<exists>c. j2_mc_in_put G (set_core bat x bat' a con) = Inr (Some c) \<and> is_set c (insert x S)) \<and>
    (\<exists>c. j2_mc_in_gas G (set_core bat (noun_list xs) bat' a con) = Inr (Some c) \<and> is_set c (S \<union> set xs)) \<and>
    j2_mc_in_has G (set_core bat x bat' a con) = Inr (Some (u2_say (x \<in> S)))"
proof -
  obtain t where t: "a = tree_noun t" "treap hor_key vor_key t" "set_tree t = S" "all_fit t"
    using assms(2) unfolding is_set_def by blast
  show ?thesis using gmp_laws.in_put_set [OF assms(1-3)] gmp_laws.in_gas_set [OF assms(1,2,4)]
    gmp_laws.in_has_elem [OF assms(1) t(2,4) assms(3)] t(1,3)
    by (simp add: j2_mc_in_put_def j2_mc_in_gas_def j2_mc_in_has_def)
qed

theorem sets_refine_witness:
  "\<exists>c. j2_mc_in_gas gmp_int (set_core (Atom 0) (noun_list [Atom 5, Atom 9]) (Atom 0) (Atom 0) (Atom 0)) = Inr (Some c) \<and>
     is_set c ({} \<union> set [Atom 5, Atom 9])"
  by (rule sets_refine [OF gmp_ref.gmp_laws_axioms is_set_empty, of "Atom 0", THEN conjunct2, THEN conjunct1])
    (auto simp: atom_fits_def atom_words_pos)

text \<open>
  C21: the jets \<^verbatim>\<open>uni\<close> and \<^verbatim>\<open>mer\<close> of two sets end and give the set of the elements of both, the same noun; \<^verbatim>\<open>int\<close> ends and
  gives the set of the common elements.
\<close>

theorem sets_union_intersection:
  assumes "gmp_laws G val" "is_set a S" "is_set b T"
  shows "\<exists>c d. j2_mc_in_uni G (set_core bat b bat' a con) = Inr (Some c) \<and> j2_mc_in_mer G (set_core bat b bat' a con) = Inr (Some c) \<and>
    is_set c (S \<union> T) \<and> j2_mc_in_int G (set_core bat b bat' a con) = Inr (Some d) \<and> is_set d (S \<inter> T)"
proof -
  obtain c c' d where c: "j2_mcc_in_uni G a b = Inr (Some c)" "is_set c (S \<union> T)"
    "j2_mcc_in_mer G a b = Inr (Some c')" "is_set c' (S \<union> T)" and d: "j2_mcc_in_int G a b = Inr (Some d)" "is_set d (S \<inter> T)"
    using gmp_laws.in_uni_set [OF assms] gmp_laws.in_mer_set [OF assms] gmp_laws.in_int_set [OF assms] by blast
  have "c' = c" by (rule is_set_unique [OF c(4,2)])
  then show ?thesis using c d by (simp add: j2_mc_in_uni_def j2_mc_in_mer_def j2_mc_in_int_def)
qed

lemma is_set_single: "noun_fits x \<Longrightarrow> is_set (Cell x (Cell u2_nul u2_nul)) {x}"
  using is_setI [of "Node Leaf x Leaf" "{x}"] by simp

theorem sets_union_intersection_witness:
  "\<exists>c d. j2_mc_in_uni gmp_int (set_core (Atom 0) (Cell (Atom 7) (Cell u2_nul u2_nul)) (Atom 0) (Cell (Atom 5) (Cell u2_nul u2_nul)) (Atom 0)) = Inr (Some c) \<and>
     j2_mc_in_mer gmp_int (set_core (Atom 0) (Cell (Atom 7) (Cell u2_nul u2_nul)) (Atom 0) (Cell (Atom 5) (Cell u2_nul u2_nul)) (Atom 0)) = Inr (Some c) \<and>
     is_set c ({Atom 5} \<union> {Atom 7}) \<and>
     j2_mc_in_int gmp_int (set_core (Atom 0) (Cell (Atom 7) (Cell u2_nul u2_nul)) (Atom 0) (Cell (Atom 5) (Cell u2_nul u2_nul)) (Atom 0)) = Inr (Some d) \<and>
     is_set d ({Atom 5} \<inter> {Atom 7})"
  by (rule sets_union_intersection [OF gmp_ref.gmp_laws_axioms is_set_single is_set_single]) (simp_all add: atom_fits_def atom_words_pos)

text \<open>
  C22: a set has one representation: the noun that \<^verbatim>\<open>gas\<close> builds of a list depends only on the elements of the list, not on
  their order or number, and \<^verbatim>\<open>tap\<close> lists each of them once.
\<close>

theorem sets_canonical:
  assumes "gmp_laws G val" "\<forall>x\<in>set xs. noun_fits x" "set xs = set ys"
  shows "\<exists>c zs. j2_mcc_in_gas G u2_nul (noun_list xs) = Inr (Some c) \<and> j2_mcc_in_gas G u2_nul (noun_list ys) = Inr (Some c) \<and>
    j2_mc_in_tap (set_core bat u2_nul bat' c con) = Inr (Some (noun_list zs)) \<and> set zs = set xs \<and> distinct zs"
proof -
  obtain c where c: "j2_mcc_in_gas G u2_nul (noun_list xs) = Inr (Some c)" "is_set c (set xs)"
    using gmp_laws.in_gas_set [OF assms(1) is_set_empty assms(2)] by auto
  obtain d where d: "j2_mcc_in_gas G u2_nul (noun_list ys) = Inr (Some d)" "is_set d (set xs)"
    using gmp_laws.in_gas_set [OF assms(1) is_set_empty assms(2) [unfolded assms(3)]] unfolding assms(3) by auto
  have "d = c" by (rule is_set_unique [OF d(2) c(2)])
  obtain t where t: "c = tree_noun t" "treap hor_key vor_key t" "set_tree t = set xs"
    using c(2) unfolding is_set_def by blast
  have "tap_in c u2_nul = Inr (Some (noun_list (rev (inorder t))))" using tap_in_inorder [of t "[]"] t(1) by simp
  moreover have "distinct (inorder t)" using t(2) si.treap_distinct by blast
  ultimately show ?thesis using c(1) d(1) \<open>d = c\<close> t(3)
    by (intro exI [of _ c] exI [of _ "rev (inorder t)"]) (simp add: j2_mc_in_tap_def j2_mcc_in_tap_def)
qed

theorem sets_canonical_witness:
  "\<exists>c zs. j2_mcc_in_gas gmp_int u2_nul (noun_list [Atom 3, Atom 4, Atom 3]) = Inr (Some c) \<and>
    j2_mcc_in_gas gmp_int u2_nul (noun_list [Atom 4, Atom 3]) = Inr (Some c) \<and>
    j2_mc_in_tap (set_core (Atom 0) u2_nul (Atom 0) c (Atom 0)) = Inr (Some (noun_list zs)) \<and>
    set zs = set [Atom 3, Atom 4, Atom 3] \<and> distinct zs"
  by (rule sets_canonical [OF gmp_ref.gmp_laws_axioms]) (auto simp: atom_fits_def atom_words_pos)

end
