(* ===== verification/Maps.thy ===== *)
theory Maps
  imports Sets
begin

text \<open>
  What the jets of maps do. A noun is a map, \<open>is_map a m\<close>, when it is the tree of a treap of pairs, sorted by their keys
  in the orders \<^verbatim>\<open>gor\<close> and \<^verbatim>\<open>vor\<close>. \<^verbatim>\<open>put\<close>, \<^verbatim>\<open>gas\<close>, \<^verbatim>\<open>get\<close> and \<^verbatim>\<open>has\<close> are the operations on \<open>m\<close>; \<^verbatim>\<open>uni\<close> and \<^verbatim>\<open>int\<close> are not.
\<close>

section \<open>Maps\<close>

primrec khd :: "noun \<Rightarrow> noun" where
  "khd (Atom a) = Atom a"
| "khd (Cell p q) = p"

definition by_hk :: "noun \<Rightarrow> c3_w \<times> noun" where
  "by_hk n = gor_key (khd n)"

definition by_vk :: "noun \<Rightarrow> c3_w \<times> noun" where
  "by_vk n = vor_key (khd n)"

lemma by_keys [simp]: "by_hk (Cell p q) = gor_key p" "by_vk (Cell p q) = vor_key p"
  by (simp_all add: by_hk_def by_vk_def)

interpretation ma: treap_orders by_hk by_vk
  by unfold_locales (simp add: by_hk_def by_vk_def)

abbreviation all_pairs :: "noun tree \<Rightarrow> bool" where
  "all_pairs t \<equiv> \<forall>x\<in>set_tree t. \<exists>k v. x = Cell k v \<and> noun_fits k \<and> noun_fits v"

definition is_map :: "noun \<Rightarrow> (noun \<rightharpoonup> noun) \<Rightarrow> bool" where
  "is_map a m \<longleftrightarrow>
     (\<exists>t. a = tree_noun t \<and> treap by_hk by_vk t \<and> all_pairs t \<and> (\<forall>k v. m k = Some v \<longleftrightarrow> Cell k v \<in> set_tree t))"

lemma is_map_unique:
  assumes "is_map a m" "is_map b m"
  shows "a = b"
proof -
  obtain s t where s: "a = tree_noun s" "treap by_hk by_vk s" "all_pairs s" "\<forall>k v. m k = Some v \<longleftrightarrow> Cell k v \<in> set_tree s"
    and t: "b = tree_noun t" "treap by_hk by_vk t" "all_pairs t" "\<forall>k v. m k = Some v \<longleftrightarrow> Cell k v \<in> set_tree t"
    using assms unfolding is_map_def by blast
  have "x \<in> set_tree s \<longleftrightarrow> x \<in> set_tree t" for x using s(3,4) t(3,4) by (cases x) auto
  then have "set_tree s = set_tree t" by blast
  then show ?thesis using ma.treap_unique [OF s(2) t(2)] s(1) t(1) by simp
qed

lemma is_map_empty: "is_map u2_nul Map.empty"
  unfolding is_map_def by (rule exI [of _ Leaf]) simp

lemma pair_root:
  assumes "tput hk vk (Cell b c) t = Node l n r" "all_pairs t" "noun_fits b"
  shows "\<exists>k v. n = Cell k v \<and> noun_fits k"
proof -
  have "n = Cell b c \<or> n \<in> set_tree t" using tput_set_le [of hk vk "Cell b c" t] unfolding assms(1) by auto
  then show ?thesis using assms(2,3) by blast
qed

context gmp_laws
begin

lemma by_put_tput:
  "all_pairs t \<Longrightarrow> noun_fits b \<Longrightarrow> noun_fits c \<Longrightarrow>
   j2_mcc_by_put G (tree_noun t) b c = Inr (Some (tree_noun (tput by_hk by_vk (Cell b c) t)))"
proof (induction t)
  case (Node l n r)
  obtain k v where n: "n = Cell k v" "noun_fits k" using Node.prems by auto
  obtain l1 n1 r1 where l: "tput by_hk by_vk (Cell b c) l = Node l1 n1 r1" by (rule tput_cases)
  obtain l2 n2 r2 where r: "tput by_hk by_vk (Cell b c) r = Node l2 n2 r2" by (rule tput_cases)
  obtain k1 v1 where n1: "n1 = Cell k1 v1" "noun_fits k1"
    using pair_root [OF l] Node.prems by auto
  obtain k2 v2 where n2: "n2 = Cell k2 v2" "noun_fits k2"
    using pair_root [OF r] Node.prems by auto
  show ?case using Node n n1 n2 l r by (auto simp: gor_le vor_le trel_simps Let_def)
qed (simp add: trel_simps)

lemma by_get_lookup:
  "treap by_hk by_vk t \<Longrightarrow> all_pairs t \<Longrightarrow> noun_fits b \<Longrightarrow>
   j2_mcc_by_get G (tree_noun t) b = Inr (Some u2_nul) \<and> (\<forall>v. Cell b v \<notin> set_tree t) \<or>
   (\<exists>v. j2_mcc_by_get G (tree_noun t) b = Inr (Some (Cell u2_nul v)) \<and> Cell b v \<in> set_tree t)"
proof (induction t)
  case (Node l n r)
  obtain k v where n: "n = Cell k v" "noun_fits k" using Node.prems by auto
  have "Cell b w \<notin> set_tree r" if "gor_key b \<le> gor_key k" for w using that Node.prems(1) n by auto
  moreover have "Cell b w \<notin> set_tree l" if "\<not> gor_key b \<le> gor_key k" for w using that Node.prems(1) n by auto
  ultimately show ?case using Node n by (cases "b = k") (auto simp: gor_le)
qed simp

lemma by_has_lookup:
  "treap by_hk by_vk t \<Longrightarrow> all_pairs t \<Longrightarrow> noun_fits b \<Longrightarrow>
   j2_mcc_by_has G (tree_noun t) b = Inr (u2_say (\<exists>v. Cell b v \<in> set_tree t))"
proof (induction t)
  case (Node l n r)
  obtain k v where n: "n = Cell k v" "noun_fits k" using Node.prems by auto
  have "Cell b w \<notin> set_tree r" if "gor_key b \<le> gor_key k" for w using that Node.prems(1) n by auto
  moreover have "Cell b w \<notin> set_tree l" if "\<not> gor_key b \<le> gor_key k" for w using that Node.prems(1) n by auto
  moreover have "j2_mcc_by_has G (tree_noun (Node l n r)) b = Inr (u2_say True)" if "b = k" using that n by (simp add: u2_say_def)
  ultimately show ?case using Node n by (cases "b = k") (auto simp: gor_le)
qed (simp add: u2_say_def)

lemma by_put_map:
  assumes "is_map a m" "noun_fits b" "noun_fits c"
  shows "\<exists>d. j2_mcc_by_put G a b c = Inr (Some d) \<and> is_map d (m(b \<mapsto> c))"
proof -
  obtain t where t: "a = tree_noun t" "treap by_hk by_vk t" "all_pairs t" "\<forall>k v. m k = Some v \<longleftrightarrow> Cell k v \<in> set_tree t"
    using assms(1) unfolding is_map_def by blast
  let ?u = "tput by_hk by_vk (Cell b c) t"
  have u: "treap by_hk by_vk ?u" "set_tree ?u = insert (Cell b c) {y \<in> set_tree t. by_hk y \<noteq> by_hk (Cell b c)}"
    using ma.tput_treap [OF t(2)] by auto
  have "all_pairs ?u" using t(3) assms(2,3) unfolding u(2) by auto
  moreover have "(m(b \<mapsto> c)) k = Some v \<longleftrightarrow> Cell k v \<in> set_tree ?u" for k v using t(4) unfolding u(2) by auto
  ultimately have "is_map (tree_noun ?u) (m(b \<mapsto> c))" unfolding is_map_def using u(1) by blast
  then show ?thesis using by_put_tput [OF t(3) assms(2,3)] t(1) by blast
qed

text \<open>The list that \<^verbatim>\<open>gas\<close> takes: pairs of keys and values, the later ones winning.\<close>

lemma by_gas_map:
  "is_map a m \<Longrightarrow> \<forall>(k, v)\<in>set kvs. noun_fits k \<and> noun_fits v \<Longrightarrow>
   \<exists>d. j2_mcc_by_gas G a (noun_list (map (\<lambda>(k, v). Cell k v) kvs)) = Inr (Some d) \<and> is_map d (m ++ map_of (rev kvs))"
proof (induction kvs arbitrary: a m)
  case (Cons kv kvs)
  obtain k v where kv: "kv = (k, v)" "noun_fits k" "noun_fits v" using Cons.prems(2) by (cases kv) auto
  obtain d where d: "j2_mcc_by_put G a k v = Inr (Some d)" "is_map d (m(k \<mapsto> v))"
    using by_put_map [OF Cons.prems(1) kv(2,3)] by blast
  have eq: "m(k \<mapsto> v) ++ map_of (rev kvs) = m ++ map_of (rev (kv # kvs))"
    unfolding kv(1) by (rule ext) (simp add: map_add_def split: option.split)
  have "\<forall>(k, v)\<in>set kvs. noun_fits k \<and> noun_fits v" using Cons.prems(2) by simp
  then obtain e where e: "by_gas G (noun_list (map (\<lambda>(k, v). Cell k v) kvs)) d = Inr (Some e)" "is_map e (m ++ map_of (rev (kv # kvs)))"
    using Cons.IH [OF d(2)] unfolding j2_mcc_by_gas_def eq by blast
  have "j2_mcc_by_gas G a (noun_list (map (\<lambda>(k, v). Cell k v) (kv # kvs))) = Inr (Some e)"
    using d(1) e(1) kv(1) by (simp add: j2_mcc_by_gas_def)
  with e(2) show ?case by blast
qed (simp add: j2_mcc_by_gas_def)

end

text \<open>
  C23: the jets of a map refine the operations on the partial function of its pairs: \<^verbatim>\<open>put\<close> is the update of one key, \<^verbatim>\<open>gas\<close>
  the updates of a list in turn, \<^verbatim>\<open>get\<close> the lookup, as a unit, and \<^verbatim>\<open>has\<close> the test of a key. Maps with the same pairs are the
  same noun.
\<close>

theorem maps_refine:
  assumes "gmp_laws G val" "is_map a m" "noun_fits k" "noun_fits v" "\<forall>(k, v)\<in>set kvs. noun_fits k \<and> noun_fits v"
  shows "(\<exists>d. j2_mc_by_put G (set_core bat (Cell k v) bat' a con) = Inr (Some d) \<and> is_map d (m(k \<mapsto> v))) \<and>
    (\<exists>d. j2_mc_by_gas G (set_core bat (noun_list (map (\<lambda>(k, v). Cell k v) kvs)) bat' a con) = Inr (Some d) \<and>
       is_map d (m ++ map_of (rev kvs))) \<and>
    j2_mc_by_get G (set_core bat k bat' a con) = Inr (Some (case m k of None \<Rightarrow> u2_nul | Some w \<Rightarrow> Cell u2_nul w)) \<and>
    j2_mc_by_has G (set_core bat k bat' a con) = Inr (Some (u2_say (m k \<noteq> None))) \<and> (is_map b m \<longrightarrow> b = a)"
proof -
  obtain t where t: "a = tree_noun t" "treap by_hk by_vk t" "all_pairs t" and m: "m j = Some w \<longleftrightarrow> Cell j w \<in> set_tree t" for j w
    using assms(2) unfolding is_map_def by blast
  have "j2_mcc_by_get G a k = Inr (Some (case m k of None \<Rightarrow> u2_nul | Some w \<Rightarrow> Cell u2_nul w))"
    using gmp_laws.by_get_lookup [OF assms(1) t(2,3) assms(3)] t(1) m [of k, symmetric] by (cases "m k") auto
  moreover have "j2_mcc_by_has G a k = Inr (u2_say (m k \<noteq> None))"
    using gmp_laws.by_has_lookup [OF assms(1) t(2,3) assms(3)] t(1) m [of k] by auto
  ultimately show ?thesis
    using gmp_laws.by_put_map [OF assms(1-4)] gmp_laws.by_gas_map [OF assms(1,2,5)] is_map_unique [OF _ assms(2)]
    by (simp add: j2_mc_by_put_def j2_mc_by_gas_def j2_mc_by_get_def j2_mc_by_has_def u2_mean_jets)
qed

theorem maps_refine_witness:
  "\<exists>d. j2_mc_by_gas gmp_int (set_core (Atom 0) (noun_list (map (\<lambda>(k, v). Cell k v) [(Atom 1, Atom 5), (Atom 1, Atom 6)])) (Atom 0) u2_nul (Atom 0)) = Inr (Some d) \<and>
     is_map d (Map.empty ++ map_of (rev [(Atom 1, Atom 5), (Atom 1, Atom 6)]))"
  by (rule maps_refine [OF gmp_ref.gmp_laws_axioms is_map_empty, of "Atom 0" "Atom 0", THEN conjunct2, THEN conjunct1])
    (auto simp: atom_fits_def atom_words_pos)

section \<open>Union and intersection of maps\<close>

text \<open>A map of one pair, and evaluation of hashes.\<close>

definition single :: "noun \<Rightarrow> noun \<Rightarrow> noun" where
  "single k v = Cell (Cell k v) (Cell u2_nul u2_nul)"

lemma is_map_single:
  assumes "noun_fits k" "noun_fits v"
  shows "is_map (single k v) [k \<mapsto> v]"
  unfolding is_map_def by (rule exI [of _ "Node Leaf (Cell k v) Leaf"]) (use assms in \<open>auto simp: single_def\<close>)

lemmas mug_eval = mug_words.simps mug_both.simps mug_words_in_def mug_word_last_def mug_fnv_def mug_out_def Let_def

lemma mug_values:
  "mug (Atom 0) = 18652612" "mug (Atom 18652612) = 83379353"
  "mug (Atom 1) = 67918732" "mug (Atom 67918732) = 991546673"
  "mug (Atom 2) = 118251589" "mug (Atom 118251589) = 222948601"
  "mug (Atom 3) = 101473970" "mug (Atom 101473970) = 1904778675"
  "mug (Cell (Atom 0) (Atom 0)) = 1097343833" "mug (Atom 1097343833) = 1040954098"
  "mug (Cell (Atom 0) (Atom 1)) = 578976737" "mug (Atom 578976737) = 1606731732"
  by (simp_all add: mug_eval atom_words_pos)

text \<open>
  C40: \<^verbatim>\<open>uni\<close> of two maps compares keys with \<^verbatim>\<open>hor\<close>, the other jets compare them with \<^verbatim>\<open>gor\<close>. Where the two orders differ, a
  key of the second map goes to the wrong side, and \<^verbatim>\<open>get\<close> does not find it in the union: the union is not a map of the
  pairs of both.
\<close>

theorem by_uni_loses_keys:
  assumes "gmp_laws G val" "noun_fits j" "noun_fits v" "noun_fits k" "noun_fits w" "vor_key j < vor_key k" "gor_key k < gor_key j" "hor_key j < hor_key k"
  shows "is_map (single j v) [j \<mapsto> v] \<and> is_map (single k w) [k \<mapsto> w] \<and>
    (\<exists>c. j2_mcc_by_uni G (single j v) (single k w) = Inr (Some c) \<and> j2_mcc_by_get G c k = Inr (Some u2_nul) \<and>
       (\<forall>m. m k \<noteq> None \<longrightarrow> \<not> is_map c m))"
proof -
  have jk: "j \<noteq> k" using assms(6) by auto
  let ?c = "Cell (Cell j v) (Cell u2_nul (single k w))"
  have vor: "j2_mbc_vor G j k = Inr (Some (u2_say True))"
    using gmp_laws.vor_le [OF assms(1,2,4)] less_imp_le [OF assms(6)] by simp
  have hor: "j2_mbc_hor G k j = Inr (Some (u2_say False))"
    using gmp_laws.hor_le [OF assms(1,4,2)] assms(8) by (simp flip: not_less)
  have gor: "j2_mbc_gor G k j = Inr (Some (u2_say True))"
    using gmp_laws.gor_le [OF assms(1,4,2)] less_imp_le [OF assms(7)] by simp
  have "j2_mcc_by_uni G (single j v) (single k w) = Inr (Some ?c)"
    using jk vor hor by (simp add: j2_mcc_by_uni_def uni_fuel_def single_def trel_simps numeral_eq_Suc Let_def)
  moreover have get: "j2_mcc_by_get G ?c k = Inr (Some u2_nul)"
    using jk gor by simp
  moreover have "\<not> is_map ?c m" if "m k \<noteq> None" for m
  proof
    assume "is_map ?c m"
    then obtain t where t: "?c = tree_noun t" "treap by_hk by_vk t" "all_pairs t" "\<forall>k v. m k = Some v \<longleftrightarrow> Cell k v \<in> set_tree t"
      unfolding is_map_def by blast
    then show False using gmp_laws.by_get_lookup [OF assms(1) t(2,3) assms(4)] get that by auto
  qed
  ultimately show ?thesis using is_map_single assms(2-5) by blast
qed

theorem by_uni_loses_keys_witness:
  "is_map (single (Cell (Atom 0) (Atom 0)) (Atom 5)) [Cell (Atom 0) (Atom 0) \<mapsto> Atom 5] \<and>
   is_map (single (Cell (Atom 0) (Atom 1)) (Atom 7)) [Cell (Atom 0) (Atom 1) \<mapsto> Atom 7] \<and>
   (\<exists>c. j2_mcc_by_uni gmp_int (single (Cell (Atom 0) (Atom 0)) (Atom 5)) (single (Cell (Atom 0) (Atom 1)) (Atom 7)) = Inr (Some c) \<and>
      j2_mcc_by_get gmp_int c (Cell (Atom 0) (Atom 1)) = Inr (Some u2_nul) \<and>
      (\<forall>m. m (Cell (Atom 0) (Atom 1)) \<noteq> None \<longrightarrow> \<not> is_map c m))"
  by (rule by_uni_loses_keys [OF gmp_ref.gmp_laws_axioms])
    (simp_all add: atom_fits_def atom_words_pos vor_key_def gor_key_def mug_values del: mug.simps One_nat_def)

text \<open>
  \<^verbatim>\<open>int\<close> of two maps without a common key can keep a pair of the first one: where the root of the second map is above
  the root of the first, the search goes on in the first map instead of the second.
\<close>

theorem by_int_keeps_foreign_keys:
  assumes "gmp_laws G val" "noun_fits i" "noun_fits j" "noun_fits k" "vor_key j < vor_key i" "vor_key i < vor_key k"
    "hor_key i < hor_key j" "hor_key i < hor_key k"
  shows "j2_mcc_by_int G (Cell (Cell i u) (Cell u2_nul (single k w))) (single j v) = Inr (Some (single k w)) \<and> k \<noteq> j"
proof -
  have ne: "i \<noteq> j" "i \<noteq> k" using assms(5,6) by auto
  have "vor_key j < vor_key k" using assms(5,6) by (rule less_trans)
  then have "k \<noteq> j" by auto
  have vor: "j2_mbc_vor G i j = Inr (Some (u2_say False))" "j2_mbc_vor G i k = Inr (Some (u2_say True))"
    "j2_mbc_vor G k k = Inr (Some (u2_say True))"
    using gmp_laws.vor_le [OF assms(1)] assms(2-6) by (simp_all add: less_imp_le flip: not_less)
  have hor: "j2_mbc_hor G i j = Inr (Some (u2_say True))" "j2_mbc_hor G k i = Inr (Some (u2_say False))"
    using gmp_laws.hor_le [OF assms(1)] assms(2-4,7,8) by (simp_all add: less_imp_le flip: not_less)
  show ?thesis using ne vor hor \<open>k \<noteq> j\<close>
    by (simp add: j2_mcc_by_int_def j2_mcc_by_uni_def uni_fuel_def single_def trel_simps numeral_eq_Suc Let_def)
qed

theorem by_int_keeps_foreign_keys_witness:
  "j2_mcc_by_int gmp_int (Cell (Cell (Atom 1) (Atom 7)) (Cell u2_nul (single (Atom 3) (Atom 8)))) (single (Atom 2) (Atom 9)) =
     Inr (Some (single (Atom 3) (Atom 8))) \<and> Atom 3 \<noteq> Atom 2"
  by (rule by_int_keeps_foreign_keys [OF gmp_ref.gmp_laws_axioms])
    (simp_all add: atom_fits_def atom_words_pos vor_key_def gor_key_def mug_values del: mug.simps One_nat_def)

end
