(* ===== verification/Cash.thy ===== *)
theory Cash
  imports Mug
begin

text \<open>
  The hash table of products, \<^verbatim>\<open>f/cash.c\<close>, behind the memo cache of a rail and the dashboard
  of cores. A slot is empty, holds one entry, or holds a table of 16 slots, which is probed
  linearly while it has few entries (collision mode) and indexed by the next four bits of
  the key when it has many (radix mode).

  The list of samples in an entry holds further pointers to the same noun, so at the level of
  nouns it is one sample. Lookups of cells and tuples by their parts are lookups of the noun.
  The code passes the number of key bits already used as \<open>sif_w\<close>; the model passes
  the number \<open>d\<close> of levels that remain, with \<open>sif_w = 32 - 4 * d\<close>. Below the last level the key
  is used up and a table stays in collision mode. (There the code shifts a word by 32 to
  choose where probing starts, which C leaves undefined; the model starts at 0.)

  The code tells the three kinds of a slot by the top bits of its first word, which in an entry is the mote
  of the function; the model has a constructor for each kind and takes the mote as a number. The two agree on motes
  below \<open>2\<^sup>3\<^sup>1\<close>, as all that are used are: 0, 1, and texts of four characters.
\<close>

section \<open>Slots\<close>

datatype u2_slot =
    Slot_a nat noun noun
  | Slot_b bool nat "u2_slot list"
  | Slot_c

definition u2_tune_cash_hi :: nat where
  "u2_tune_cash_hi = 10"

definition cs_key :: "nat \<times> noun \<Rightarrow> c3_w" where
  "cs_key k = mug (Atom (fst k)) XOR mug (snd k)"

definition cs_sif :: "nat \<Rightarrow> nat" where
  "cs_sif d = 32 - 4 * d"

definition cs_nib :: "c3_w \<Rightarrow> nat \<Rightarrow> nat" where
  "cs_nib key_w sif_w = unat (drop_bit sif_w key_w AND 15)"

section \<open>Lookup\<close>

primrec cs_find_coll :: "nat \<Rightarrow> nat \<Rightarrow> u2_slot list \<Rightarrow> nat \<times> noun \<Rightarrow> u2_weak" where
  "cs_find_coll 0 j_w sid k = None"
| "cs_find_coll (Suc n) j_w sid k =
     (case sid ! j_w of
        Slot_a sel sam pro \<Rightarrow>
          if (sel, sam) = k then Some pro else cs_find_coll n ((j_w + 1) mod 16) sid k
      | _ \<Rightarrow> cs_find_coll n ((j_w + 1) mod 16) sid k)"

function cs_find_1 :: "u2_slot \<Rightarrow> c3_w \<Rightarrow> nat \<Rightarrow> nat \<times> noun \<Rightarrow> u2_weak" where
  "cs_find_1 (Slot_a sel sam pro) key_w sif_w k = (if (sel, sam) = k then Some pro else None)"
| "cs_find_1 Slot_c key_w sif_w k = None"
| "cs_find_1 (Slot_b coll rag sid) key_w sif_w k =
     (let i_w = cs_nib key_w sif_w
      in if coll then cs_find_coll 16 i_w sid k
         else if i_w < length sid then cs_find_1 (sid ! i_w) key_w (sif_w + 4) k
         else None)"
  by pat_completeness auto

termination
  by (relation "measure (\<lambda>(lot, _). size lot)")
    (auto simp: less_Suc_eq_le intro!: trans_le_add2 size_list_estimation' [OF nth_mem])

definition u2_cs_find :: "u2_slot \<Rightarrow> nat \<Rightarrow> noun \<Rightarrow> u2_weak" where
  "u2_cs_find lot sel_m sam = cs_find_1 lot (cs_key (sel_m, sam)) 0 (sel_m, sam)"

section \<open>Insertion\<close>

definition cs_save_c :: "nat \<times> noun \<Rightarrow> noun \<Rightarrow> u2_slot" where
  "cs_save_c k pro = Slot_a (fst k) (snd k) pro"

primrec cs_save_coll ::
  "nat \<Rightarrow> nat \<Rightarrow> u2_slot list \<Rightarrow> nat \<times> noun \<Rightarrow> noun \<Rightarrow> bool \<times> u2_slot list" where
  "cs_save_coll 0 j_w sid k pro = (False, sid)"
| "cs_save_coll (Suc n) j_w sid k pro =
     (case sid ! j_w of
        Slot_a sel sam old \<Rightarrow>
          if (sel, sam) = k then (False, sid[j_w := Slot_a sel sam pro])
          else cs_save_coll n ((j_w + 1) mod 16) sid k pro
      | Slot_c \<Rightarrow> (True, sid[j_w := cs_save_c k pro])
      | Slot_b _ _ _ \<Rightarrow> cs_save_coll n ((j_w + 1) mod 16) sid k pro)"

text \<open>
  The functions that recurse take \<^verbatim>\<open>_cs_save_in\<close> for the next level as an argument; the product
  they return says whether an entry was added, and what the slot has become.
\<close>

type_synonym cs_saver = "u2_slot \<Rightarrow> c3_w \<Rightarrow> nat \<times> noun \<Rightarrow> noun \<Rightarrow> (bool \<times> u2_slot) res"

definition cs_save_radx ::
  "cs_saver \<Rightarrow> nat \<Rightarrow> nat \<Rightarrow> u2_slot list \<Rightarrow> c3_w \<Rightarrow> nat \<times> noun \<Rightarrow> noun \<Rightarrow> (bool \<times> nat \<times> u2_slot list) res" where
  "cs_save_radx save_in sif_w rag sid key_w k pro =
     (let i_w = cs_nib key_w sif_w
      in rbind (save_in (sid ! i_w) key_w k pro)
           (\<lambda>(ave, lot). Inr (ave, (if ave then rag + 1 else rag), sid[i_w := lot])))"

primrec cs_more_loop ::
  "cs_saver \<Rightarrow> nat \<Rightarrow> u2_slot list \<Rightarrow> nat \<Rightarrow> u2_slot list \<Rightarrow> (nat \<times> u2_slot list) res" where
  "cs_more_loop save_in sif_w [] rag dis = Inr (rag, dis)"
| "cs_more_loop save_in sif_w (tol # sid) rag dis =
     (case tol of
        Slot_a sel sam pro \<Rightarrow>
          rbind (cs_save_radx save_in sif_w rag dis (cs_key (sel, sam)) (sel, sam) pro)
            (\<lambda>(ave, rag, dis). cs_more_loop save_in sif_w sid rag dis)
      | _ \<Rightarrow> cs_more_loop save_in sif_w sid rag dis)"

definition cs_more_b :: "cs_saver \<Rightarrow> nat \<Rightarrow> u2_slot list \<Rightarrow> (nat \<times> u2_slot list) res" where
  "cs_more_b save_in sif_w sid = cs_more_loop save_in sif_w sid 0 (replicate 16 Slot_c)"

definition cs_save_b ::
  "cs_saver \<Rightarrow> nat \<Rightarrow> bool \<Rightarrow> nat \<Rightarrow> u2_slot list \<Rightarrow> c3_w \<Rightarrow> nat \<times> noun \<Rightarrow> noun \<Rightarrow> (bool \<times> u2_slot) res" where
  "cs_save_b save_in sif_w coll rag sid key_w k pro =
     (if coll then
        if rag \<ge> u2_tune_cash_hi \<and> sif_w \<noteq> 32 then
          rbind (cs_more_b save_in sif_w sid) (\<lambda>(rag, sid).
          rbind (cs_save_radx save_in sif_w rag sid key_w k pro) (\<lambda>(ave, rag, sid).
            Inr (ave, Slot_b False rag sid)))
        else
          let (ave, sid) = cs_save_coll 16 (cs_nib key_w sif_w) sid k pro
          in Inr (ave, Slot_b True (if ave then rag + 1 else rag) sid)
      else
        rbind (cs_save_radx save_in sif_w rag sid key_w k pro) (\<lambda>(ave, rag, sid).
          Inr (ave, Slot_b False rag sid)))"

definition cs_save_a ::
  "cs_saver \<Rightarrow> nat \<Rightarrow> nat \<Rightarrow> noun \<Rightarrow> noun \<Rightarrow> c3_w \<Rightarrow> nat \<times> noun \<Rightarrow> noun \<Rightarrow> (bool \<times> u2_slot) res" where
  "cs_save_a save_in sif_w lus pes rop key_w k pro =
     (if (lus, pes) = k then Inr (False, Slot_a lus pes pro)
      else
        rbind (cs_save_b save_in sif_w True 0 (replicate 16 Slot_c) (cs_key (lus, pes)) (lus, pes) rop)
          (\<lambda>(ave, lot).
             if \<not> ave then Inl Abort
             else case lot of
                    Slot_b coll rag sid \<Rightarrow> cs_save_b save_in sif_w coll rag sid key_w k pro
                  | _ \<Rightarrow> Inl Wild))"

primrec cs_save_in :: "nat \<Rightarrow> cs_saver" where
  "cs_save_in 0 lot key_w k pro =
     (case lot of
        Slot_a lus pes rop \<Rightarrow> cs_save_a (\<lambda>_ _ _ _. Inl Wild) (cs_sif 0) lus pes rop key_w k pro
      | Slot_b coll rag sid \<Rightarrow> cs_save_b (\<lambda>_ _ _ _. Inl Wild) (cs_sif 0) coll rag sid key_w k pro
      | Slot_c \<Rightarrow> Inr (True, cs_save_c k pro))"
| "cs_save_in (Suc d) lot key_w k pro =
     (case lot of
        Slot_a lus pes rop \<Rightarrow> cs_save_a (cs_save_in d) (cs_sif (Suc d)) lus pes rop key_w k pro
      | Slot_b coll rag sid \<Rightarrow> cs_save_b (cs_save_in d) (cs_sif (Suc d)) coll rag sid key_w k pro
      | Slot_c \<Rightarrow> Inr (True, cs_save_c k pro))"

definition u2_cs_save :: "u2_slot \<Rightarrow> nat \<Rightarrow> noun \<Rightarrow> noun \<Rightarrow> u2_slot res" where
  "u2_cs_save lot sel_m sam pro =
     rbind (cs_save_in 8 lot (cs_key (sel_m, sam)) (sel_m, sam) pro) (\<lambda>(ave, lot). Inr lot)"

section \<open>The entries of a slot\<close>

fun slot_entries :: "u2_slot \<Rightarrow> ((nat \<times> noun) \<times> noun) list" where
  "slot_entries (Slot_a sel sam pro) = [((sel, sam), pro)]"
| "slot_entries (Slot_b _ _ sid) = concat (map slot_entries sid)"
| "slot_entries Slot_c = []"

abbreviation slot_keys :: "u2_slot \<Rightarrow> (nat \<times> noun) list" where
  "slot_keys lot \<equiv> map fst (slot_entries lot)"

abbreviation slot_at :: "u2_slot list \<Rightarrow> nat \<Rightarrow> nat \<times> noun \<Rightarrow> noun \<Rightarrow> bool" where
  "slot_at sid q k v \<equiv> sid ! q = Slot_a (fst k) (snd k) v"

primrec slot_leaf :: "u2_slot \<Rightarrow> bool" where
  "slot_leaf (Slot_a _ _ _) = True"
| "slot_leaf (Slot_b _ _ _) = False"
| "slot_leaf Slot_c = True"

text \<open>
  The invariant. A table in collision mode holds entries and empty slots only, no key twice,
  and no empty slot between the place where the search for an entry starts and the entry; it
  counts its entries, and keeps below the limit unless the key is used up. In radix mode, the
  keys of the entries in each slot go on with the index of the slot.
\<close>

definition coll_ok :: "nat \<Rightarrow> nat \<Rightarrow> u2_slot list \<Rightarrow> bool" where
  "coll_ok sif rag sid \<longleftrightarrow> length sid = 16 \<and> list_all slot_leaf sid \<and>
     (\<forall>q<16. \<forall>r<16. \<forall>k v w. slot_at sid q k v \<longrightarrow> slot_at sid r k w \<longrightarrow> q = r) \<and>
     (\<forall>t<16. \<forall>k v. slot_at sid ((cs_nib (cs_key k) sif + t) mod 16) k v \<longrightarrow>
        (\<forall>u<t. sid ! ((cs_nib (cs_key k) sif + u) mod 16) \<noteq> Slot_c)) \<and>
     rag = card {q. q < 16 \<and> sid ! q \<noteq> Slot_c} \<and>
     (sif \<noteq> 32 \<longrightarrow> rag \<le> u2_tune_cash_hi)"

definition keys_under :: "nat \<Rightarrow> c3_w \<Rightarrow> u2_slot \<Rightarrow> bool" where
  "keys_under sif p lot \<longleftrightarrow> (\<forall>k \<in> set (slot_keys lot). take_bit sif (cs_key k) = p)"

primrec slot_ok :: "nat \<Rightarrow> c3_w \<Rightarrow> u2_slot \<Rightarrow> bool" where
  "slot_ok 0 p lot \<longleftrightarrow> keys_under (cs_sif 0) p lot \<and>
     (case lot of Slot_b coll rag sid \<Rightarrow> coll \<and> coll_ok (cs_sif 0) rag sid | _ \<Rightarrow> True)"
| "slot_ok (Suc d) p lot \<longleftrightarrow> keys_under (cs_sif (Suc d)) p lot \<and>
     (case lot of
        Slot_b coll rag sid \<Rightarrow>
          if coll then coll_ok (cs_sif (Suc d)) rag sid
          else length sid = 16 \<and>
            (\<forall>i<16. slot_ok d (p OR push_bit (cs_sif (Suc d)) (of_nat i)) (sid ! i))
      | _ \<Rightarrow> True)"

lemma mask_15: "(15 :: c3_w) = mask 4"
  by (simp add: mask_eq_exp_minus_1)

lemma cs_nib_less [simp]: "cs_nib key sif < 16"
proof -
  have "unat (take_bit 4 w :: c3_w) < 2 ^ 4" for w
    by (simp only: unsigned_take_bit_eq take_bit_nat_less_exp)
  then have "unat (take_bit 4 (drop_bit sif key)) < 2 ^ 4" .
  then show ?thesis by (simp add: cs_nib_def mask_15 take_bit_eq_mask)
qed

lemma cs_nib_word: "of_nat (cs_nib key sif) = take_bit 4 (drop_bit sif key)"
  unfolding cs_nib_def mask_15 take_bit_eq_mask by simp

lemma take_bit_nib: "take_bit (sif + 4) key = take_bit sif key OR push_bit sif (of_nat (cs_nib key sif))"
  unfolding cs_nib_word by (rule bit_word_eqI) (auto simp: bit_simps)

lemma cs_nib_unique:
  assumes "take_bit (sif + 4) key = take_bit sif key OR push_bit sif (of_nat i)" "i < 16" "sif + 4 \<le> 32"
  shows "cs_nib key sif = i"
proof -
  have "drop_bit sif (take_bit sif key OR push_bit sif (of_nat i)) = take_bit (32 - sif) (of_nat i)"
    by (rule bit_word_eqI) (auto simp: bit_simps)
  then have "take_bit 4 (drop_bit sif key) = take_bit (32 - sif) (of_nat i)"
    using assms(1) by (metis add_diff_cancel_left' drop_bit_take_bit)
  moreover have "take_bit (32 - sif) (of_nat i :: c3_w) = of_nat i"
  proof -
    have "4 \<le> 32 - sif" using assms(3) by linarith
    then have "(2::nat) ^ 4 \<le> 2 ^ (32 - sif)" by (rule power_increasing) simp
    then have "i < 2 ^ (32 - sif)" using assms(2) by simp
    then have "take_bit (32 - sif) i = i" by (simp add: take_bit_nat_eq_self_iff)
    then show ?thesis by (metis of_nat_take_bit)
  qed
  ultimately have "(of_nat (cs_nib key sif) :: c3_w) = of_nat i" by (simp add: cs_nib_word)
  moreover have "unat (of_nat n :: c3_w) = n" if "n < 16" for n using that by (intro unat_of_nat_c3_w) simp
  ultimately show ?thesis using assms(2) cs_nib_less by metis
qed

lemma cs_sif_simps: "d < 8 \<Longrightarrow> cs_sif (Suc d) + 4 = cs_sif d" "cs_sif 8 = 0" "cs_sif 0 = 32"
  "cs_sif d \<le> 32" "cs_sif (Suc d) \<noteq> 32"
  by (simp_all add: cs_sif_def)

section \<open>What saving does to the entries\<close>

abbreviation slot_set :: "u2_slot \<Rightarrow> ((nat \<times> noun) \<times> noun) set" where
  "slot_set lot \<equiv> set (slot_entries lot)"

definition saved :: "('k \<times> 'v) set \<Rightarrow> 'k \<Rightarrow> 'v \<Rightarrow> bool \<Rightarrow> ('k \<times> 'v) set \<Rightarrow> bool" where
  "saved E k v ave E' \<longleftrightarrow> E' = insert (k, v) {e \<in> E. fst e \<noteq> k} \<and> (ave \<longleftrightarrow> k \<notin> fst ` E)"

definition refused ::
  "((nat \<times> noun) \<times> noun) set \<Rightarrow> nat \<times> noun \<Rightarrow> bool \<Rightarrow> ((nat \<times> noun) \<times> noun) set \<Rightarrow> bool" where
  "refused E k ave E' \<longleftrightarrow> E' = E \<and> \<not> ave \<and> k \<notin> fst ` E \<and>
     16 \<le> card {k' \<in> fst ` E. cs_key k' = cs_key k}"

lemma slot_set_b: "slot_set (Slot_b coll rag sid) = (\<Union>lot\<in>set sid. slot_set lot)"
  by simp

lemma slot_set_nth: "length sid = 16 \<Longrightarrow> slot_set (Slot_b coll rag sid) = (\<Union>i<16. slot_set (sid ! i))"
proof -
  assume "length sid = 16"
  then have "set sid = (!) sid ` {..<16}" by (auto simp: set_conv_nth)
  then show ?thesis by simp
qed

lemma slot_leaf_set: "slot_leaf lot \<Longrightarrow> e \<in> slot_set lot \<longleftrightarrow> lot = Slot_a (fst (fst e)) (snd (fst e)) (snd e)"
  by (cases lot) auto

lemma slot_set_leafs:
  "length sid = 16 \<Longrightarrow> list_all slot_leaf sid \<Longrightarrow>
   e \<in> slot_set (Slot_b coll rag sid) \<longleftrightarrow> (\<exists>q<16. slot_at sid q (fst e) (snd e))"
  unfolding slot_set_nth by (simp add: list_all_length slot_leaf_set Bex_def)

lemma saved_mono:
  "saved E k v ave E' \<Longrightarrow> k \<notin> fst ` F \<Longrightarrow> saved (E \<union> F) k v ave (E' \<union> F)"
  unfolding saved_def by (auto simp: image_Un) (metis fst_conv image_eqI)+

lemma refused_mono:
  assumes "refused E k ave E'" "k \<notin> fst ` F" "finite (E \<union> F)"
  shows "refused (E \<union> F) k ave (E' \<union> F)"
proof -
  have "card {k' \<in> fst ` E. cs_key k' = cs_key k} \<le> card {k' \<in> fst ` (E \<union> F). cs_key k' = cs_key k}"
    using assms(3) by (intro card_mono) auto
  then show ?thesis using assms unfolding refused_def by auto
qed

section \<open>Collision mode\<close>

lemma probe_shift: "((j + 1) mod 16 + t) mod 16 = (j + Suc t) mod (16::nat)"
  by (simp add: mod_simps)

lemma probe_reach:
  assumes "i < 16" "q < (16::nat)" obtains t where "t < 16" "(i + t) mod 16 = q"
proof
  show "(q + 16 - i) mod 16 < 16" by simp
  show "(i + (q + 16 - i) mod 16) mod 16 = q" using assms by (simp add: mod_simps)
qed

lemma probe_inj:
  assumes "i < 16" "s < 16" "t < 16" "(i + s) mod 16 = (i + t) mod (16::nat)"
  shows "s = t"
proof -
  have "n mod 16 = (if n < 16 then n else n - 16)" if "n < 32" for n :: nat using that by (simp add: mod_if)
  then show ?thesis using assms by (simp split: if_splits)
qed

lemma find_coll_sound:
  "cs_find_coll n j sid k = Some v \<Longrightarrow> j < 16 \<Longrightarrow> \<exists>q<16. slot_at sid q k v"
  by (induction n arbitrary: j) (auto split: u2_slot.splits if_splits)

lemma find_coll_found:
  "slot_at sid ((j + t) mod 16) k v \<Longrightarrow> t < n \<Longrightarrow> j < 16 \<Longrightarrow> cs_find_coll n j sid k \<noteq> None"
proof (induction n arbitrary: j t)
  case (Suc n)
  show ?case
  proof (cases t)
    case 0
    then show ?thesis using Suc.prems by simp
  next
    case (Suc t')
    have "cs_find_coll n ((j + 1) mod 16) sid k \<noteq> None"
      using Suc.IH [of "(j + 1) mod 16" t'] Suc.prems unfolding probe_shift Suc by simp
    then show ?thesis by (auto split: u2_slot.splits)
  qed
qed simp

lemma coll_okD:
  assumes "coll_ok sif rag sid"
  shows "length sid = 16" "list_all slot_leaf sid"
    "\<And>q r k v w. q < 16 \<Longrightarrow> r < 16 \<Longrightarrow> slot_at sid q k v \<Longrightarrow> slot_at sid r k w \<Longrightarrow> q = r"
    "\<And>t k v u. t < 16 \<Longrightarrow> slot_at sid ((cs_nib (cs_key k) sif + t) mod 16) k v \<Longrightarrow> u < t \<Longrightarrow>
       sid ! ((cs_nib (cs_key k) sif + u) mod 16) \<noteq> Slot_c"
    "rag = card {q. q < 16 \<and> sid ! q \<noteq> Slot_c}"
    "sif \<noteq> 32 \<Longrightarrow> rag \<le> u2_tune_cash_hi"
  using assms unfolding coll_ok_def by blast+

lemma coll_okI:
  assumes "length sid = 16" "list_all slot_leaf sid"
    "\<And>q r k v w. q < 16 \<Longrightarrow> r < 16 \<Longrightarrow> slot_at sid q k v \<Longrightarrow> slot_at sid r k w \<Longrightarrow> q = r"
    "\<And>t k v u. t < 16 \<Longrightarrow> slot_at sid ((cs_nib (cs_key k) sif + t) mod 16) k v \<Longrightarrow> u < t \<Longrightarrow>
       sid ! ((cs_nib (cs_key k) sif + u) mod 16) \<noteq> Slot_c"
    "rag = card {q. q < 16 \<and> sid ! q \<noteq> Slot_c}"
    "sif \<noteq> 32 \<Longrightarrow> rag \<le> u2_tune_cash_hi"
  shows "coll_ok sif rag sid"
  using assms unfolding coll_ok_def by blast

lemma find_coll_correct:
  assumes "coll_ok sif rag sid"
  shows "cs_find_coll 16 (cs_nib key sif) sid k = Some v \<longleftrightarrow> (k, v) \<in> slot_set (Slot_b coll rag sid)"
    (is "?f = Some v \<longleftrightarrow> ?in v")
proof -
  note ok = coll_okD [OF assms]
  have at: "?in w \<longleftrightarrow> (\<exists>q<16. slot_at sid q k w)" for w by (simp only: slot_set_leafs [OF ok(1,2)] fst_conv snd_conv)
  show ?thesis
  proof
    show "?f = Some v \<Longrightarrow> ?in v" unfolding at by (rule find_coll_sound [OF _ cs_nib_less])
  next
    assume "?in v"
    then obtain q where q: "q < 16" "slot_at sid q k v" unfolding at by blast
    then obtain t where "t < 16" "(cs_nib key sif + t) mod 16 = q" using probe_reach [OF cs_nib_less] by metis
    then obtain w where w: "?f = Some w" using find_coll_found [of sid "cs_nib key sif" t k v 16] q by auto
    then obtain r where "r < 16" "slot_at sid r k w" using find_coll_sound [OF w] by auto
    then show "?f = Some v" using w q ok(3) by fastforce
  qed
qed

definition passed :: "u2_slot list \<Rightarrow> nat \<times> noun \<Rightarrow> nat \<Rightarrow> nat \<Rightarrow> bool" where
  "passed sid k j t \<longleftrightarrow>
     (\<forall>u<t. sid ! ((j + u) mod 16) \<noteq> Slot_c \<and> (\<forall>v. \<not> slot_at sid ((j + u) mod 16) k v))"

lemma passed_Suc:
  "j < 16 \<Longrightarrow> sid ! j \<noteq> Slot_c \<Longrightarrow> (\<And>v. \<not> slot_at sid j k v) \<Longrightarrow> passed sid k ((j + 1) mod 16) t \<Longrightarrow>
   passed sid k j (Suc t)"
  unfolding passed_def probe_shift All_less_Suc2 by simp

inductive probed :: "nat \<Rightarrow> nat \<Rightarrow> u2_slot list \<Rightarrow> nat \<times> noun \<Rightarrow> noun \<Rightarrow> bool \<times> u2_slot list \<Rightarrow> bool"
  for n j sid k pro where
    probed_full: "passed sid k j n \<Longrightarrow> probed n j sid k pro (False, sid)"
  | probed_hit: "t < n \<Longrightarrow> passed sid k j t \<Longrightarrow> slot_at sid ((j + t) mod 16) k v \<Longrightarrow>
      probed n j sid k pro (False, sid[(j + t) mod 16 := cs_save_c k pro])"
  | probed_empty: "t < n \<Longrightarrow> passed sid k j t \<Longrightarrow> sid ! ((j + t) mod 16) = Slot_c \<Longrightarrow>
      probed n j sid k pro (True, sid[(j + t) mod 16 := cs_save_c k pro])"

lemma probed_step:
  assumes "probed n ((j + 1) mod 16) sid k pro r" "j < 16" "sid ! j \<noteq> Slot_c" "\<And>v. \<not> slot_at sid j k v"
  shows "probed (Suc n) j sid k pro r"
  using assms(1)
proof cases
  case probed_full
  then show ?thesis using assms(2-) passed_Suc probed.probed_full by metis
next
  case (probed_hit t v)
  then show ?thesis using assms(2-) passed_Suc probed.probed_hit [of "Suc t"] unfolding probe_shift by simp
next
  case (probed_empty t)
  then show ?thesis using assms(2-) passed_Suc probed.probed_empty [of "Suc t"] unfolding probe_shift by simp
qed

lemma save_coll_probed: "j < 16 \<Longrightarrow> probed n j sid k pro (cs_save_coll n j sid k pro)"
proof (induction n arbitrary: j)
  case 0
  then show ?case by (simp add: probed_full passed_def)
next
  case (Suc n)
  have step: "probed (Suc n) j sid k pro (cs_save_coll n ((j + 1) mod 16) sid k pro)"
    if "sid ! j \<noteq> Slot_c" "\<And>v. \<not> slot_at sid j k v"
    using Suc that by (intro probed_step) simp_all
  note now = probed_hit [of 0 "Suc n" sid k j] probed_empty [of 0 "Suc n" sid k j]
  show ?case
    using Suc.prems step now by (cases k) (auto simp: passed_def cs_save_c_def split: u2_slot.splits)
qed

lemma coll_update:
  assumes "length sid = 16" "list_all slot_leaf sid" "q < 16"
  shows "list_all slot_leaf (sid[q := cs_save_c k pro])"
    "slot_at (sid[q := cs_save_c k pro]) r k' v \<longleftrightarrow> (if r = q then k' = k \<and> v = pro else slot_at sid r k' v)"
    "sid[q := cs_save_c k pro] ! r = Slot_c \<longleftrightarrow> r \<noteq> q \<and> sid ! r = Slot_c"
  using assms by (auto simp: list_all_length nth_list_update cs_save_c_def prod_eq_iff)

lemma coll_hit:
  assumes "coll_ok sif rag sid" "q < 16" "slot_at sid q k v"
  shows "coll_ok sif rag (sid[q := cs_save_c k pro])"
proof -
  note ok = coll_okD [OF assms(1)]
  note upd = coll_update [OF ok(1,2) assms(2), of k pro]
  have "r \<noteq> q \<and> sid ! r \<noteq> Slot_c \<or> r = q \<longleftrightarrow> sid ! r \<noteq> Slot_c" for r using assms(3) by auto
  then have "{r. r < 16 \<and> sid[q := cs_save_c k pro] ! r \<noteq> Slot_c} = {r. r < 16 \<and> sid ! r \<noteq> Slot_c}"
    unfolding upd by blast
  then have card: "rag = card {r. r < 16 \<and> sid[q := cs_save_c k pro] ! r \<noteq> Slot_c}" using ok(5) by simp
  show ?thesis
  proof (rule coll_okI)
    fix r r' k' v' w
    assume *: "r < 16" "r' < 16" "slot_at (sid[q := cs_save_c k pro]) r k' v'" "slot_at (sid[q := cs_save_c k pro]) r' k' w"
    have "\<exists>v. slot_at sid r k' v" "\<exists>v. slot_at sid r' k' v"
      using *(3,4) assms(3) unfolding upd by (auto split: if_splits)
    then show "r = r'" using ok(3) [OF *(1,2)] by blast
  next
    fix t k' v' u
    assume *: "t < 16" "slot_at (sid[q := cs_save_c k pro]) ((cs_nib (cs_key k') sif + t) mod 16) k' v'" "u < t"
    then have "\<exists>v. slot_at sid ((cs_nib (cs_key k') sif + t) mod 16) k' v" using assms(3) unfolding upd by metis
    then show "sid[q := cs_save_c k pro] ! ((cs_nib (cs_key k') sif + u) mod 16) \<noteq> Slot_c"
      using ok(4) [OF *(1) _ *(3)] unfolding upd by blast
  qed (use ok upd card in simp_all)
qed

lemma coll_absent:
  assumes "coll_ok sif rag sid" "t < 16" "passed sid k (cs_nib (cs_key k) sif) t"
    "sid ! ((cs_nib (cs_key k) sif + t) mod 16) = Slot_c" "q < 16"
  shows "\<not> slot_at sid q k v"
proof
  assume *: "slot_at sid q k v"
  obtain s where s: "s < 16" "(cs_nib (cs_key k) sif + s) mod 16 = q" using probe_reach [OF cs_nib_less assms(5)] .
  have "s \<noteq> t" using * s(2) assms(4) by auto
  moreover have "\<not> s < t" using assms(3) s(2) * unfolding passed_def by blast
  moreover have "\<not> t < s" using coll_okD(4) [OF assms(1) s(1), of k v t] s(2) * assms(4) by blast
  ultimately show False by simp
qed

lemma coll_fill:
  assumes "coll_ok sif rag sid" "sif = 32 \<or> rag < u2_tune_cash_hi" "t < 16"
    "passed sid k (cs_nib (cs_key k) sif) t" "q = (cs_nib (cs_key k) sif + t) mod 16" "sid ! q = Slot_c"
  shows "coll_ok sif (rag + 1) (sid[q := cs_save_c k pro])"
proof -
  note ok = coll_okD [OF assms(1)]
  have q: "q < 16" using assms(5) by simp
  note upd = coll_update [OF ok(1,2) q, of k pro]
  note no_k = coll_absent [OF assms(1,3,4) assms(6) [unfolded assms(5)]]
  have "{r. r < 16 \<and> sid[q := cs_save_c k pro] ! r \<noteq> Slot_c} = insert q {r. r < 16 \<and> sid ! r \<noteq> Slot_c}"
    unfolding upd using q by blast
  then have card: "card {r. r < 16 \<and> sid[q := cs_save_c k pro] ! r \<noteq> Slot_c} = rag + 1"
    using assms(6) ok(5) by simp
  have probe: "sid[q := cs_save_c k pro] ! ((cs_nib (cs_key k') sif + u) mod 16) \<noteq> Slot_c"
    if *: "s < 16" "slot_at (sid[q := cs_save_c k pro]) ((cs_nib (cs_key k') sif + s) mod 16) k' v" "u < s" for s k' v u
  proof (cases "(cs_nib (cs_key k') sif + s) mod 16 = q")
    case True
    then have k': "k' = k" using *(2) unfolding upd by simp
    then have "(cs_nib (cs_key k) sif + s) mod 16 = (cs_nib (cs_key k) sif + t) mod 16"
      using True assms(5) by blast
    then have "s = t" by (rule probe_inj [OF cs_nib_less *(1) assms(3)])
    then show ?thesis using assms(4) *(3) unfolding upd k' passed_def by blast
  next
    case False
    then show ?thesis using *(2) ok(4) [OF *(1) _ *(3)] unfolding upd by simp
  qed
  show ?thesis
  proof (rule coll_okI [OF _ upd(1) _ probe card [symmetric]])
    fix r r' k' v' w
    assume *: "r < 16" "r' < 16" "slot_at (sid[q := cs_save_c k pro]) r k' v'" "slot_at (sid[q := cs_save_c k pro]) r' k' w"
    have **: "k' = k \<longrightarrow> r = q" "k' = k \<longrightarrow> r' = q"
      using *(3,4) no_k [OF *(1)] no_k [OF *(2)] unfolding upd by (auto split: if_splits)
    show "r = r'"
    proof (cases "k' = k")
      case False
      then show ?thesis using *(3,4) ok(3) [OF *(1,2), of k' v' w] unfolding upd by (simp split: if_splits)
    qed (use ** in simp)
  qed (use ok(1) assms(2) in auto)
qed

lemma coll_update_set:
  assumes "coll_ok sif rag sid" "q < 16" "\<And>e. e \<in> slot_set (sid ! q) \<Longrightarrow> fst e = k"
    "\<And>r v. r < 16 \<Longrightarrow> r \<noteq> q \<Longrightarrow> \<not> slot_at sid r k v"
  shows "slot_set (Slot_b coll rag' (sid[q := cs_save_c k pro])) =
    insert (k, pro) {e \<in> slot_set (Slot_b coll rag sid). fst e \<noteq> k}"
proof -
  note ok = coll_okD [OF assms(1)]
  note upd = coll_update [OF ok(1,2) assms(2), of k pro]
  have leaf: "slot_leaf (sid ! q)" using ok(1,2) assms(2) by (simp add: list_all_length)
  have q: "slot_at sid q k' v \<Longrightarrow> k' = k" for k' v using assms(3) [of "(k', v)"] slot_leaf_set [OF leaf] by simp
  define S where "S = slot_set (Slot_b coll rag sid)"
  define S' where "S' = slot_set (Slot_b coll rag' (sid[q := cs_save_c k pro]))"
  have S: "(k', v) \<in> S \<longleftrightarrow> (\<exists>r<16. slot_at sid r k' v)" for k' v
    unfolding S_def slot_set_leafs [OF ok(1,2)] by simp
  have S': "(k', v) \<in> S' \<longleftrightarrow> k' = k \<and> v = pro \<or> (\<exists>r<16. r \<noteq> q \<and> slot_at sid r k' v)" for k' v
    unfolding S'_def slot_set_leafs [OF _ upd(1), simplified length_list_update, OF ok(1)] upd using assms(2) by auto
  have "(k', v) \<in> S' \<longleftrightarrow> (k', v) \<in> insert (k, pro) {e \<in> S. fst e \<noteq> k}" for k' v
    unfolding insert_iff mem_Collect_eq prod.inject S S' fst_conv using q assms(4) by metis
  then show ?thesis unfolding S_def [symmetric] S'_def [symmetric] by auto
qed

lemma fst_image_iff: "k \<in> fst ` S \<longleftrightarrow> (\<exists>v. (k, v) \<in> S)"
  by force

lemma coll_key_iff:
  assumes "coll_ok sif rag sid"
  shows "k \<in> fst ` slot_set (Slot_b coll rag sid) \<longleftrightarrow> (\<exists>q<16. \<exists>v. slot_at sid q k v)"
  unfolding fst_image_iff slot_set_leafs [OF coll_okD(1,2) [OF assms]] by auto

lemma coll_card:
  assumes "coll_ok sif rag sid" shows "card (fst ` slot_set (Slot_b coll rag sid)) = rag"
proof -
  note ok = coll_okD [OF assms]
  have key: "\<exists>k v. slot_at sid q k v" if "q < 16" "sid ! q \<noteq> Slot_c" for q
    using ok(1,2) that by (cases "sid ! q") (auto simp: list_all_length)
  have "bij_betw (\<lambda>q. case sid ! q of Slot_a sel sam _ \<Rightarrow> (sel, sam) | _ \<Rightarrow> undefined)
     {q. q < 16 \<and> sid ! q \<noteq> Slot_c} (fst ` slot_set (Slot_b coll rag sid))" (is "bij_betw ?g ?Q ?K")
  proof (rule bij_betw_imageI)
    have g: "slot_at sid q k v \<Longrightarrow> ?g q = k" for q k v by simp
    show "inj_on ?g ?Q"
    proof (rule inj_onI)
      fix q r assume *: "q \<in> ?Q" "r \<in> ?Q" "?g q = ?g r"
      then obtain k v k' w where "slot_at sid q k v" "slot_at sid r k' w" using key [of q] key [of r] by blast
      then show "q = r" using * g [of q k v] g [of r k' w] ok(3) [of q r k v w] by simp
    qed
    show "?g ` ?Q = ?K"
    proof (intro equalityI subsetI)
      fix k assume "k \<in> ?g ` ?Q"
      then obtain q where q: "q < 16" "sid ! q \<noteq> Slot_c" "k = ?g q" by blast
      then obtain k' v where "slot_at sid q k' v" using key by blast
      then show "k \<in> ?K" using coll_key_iff [OF assms] q(1,3) g by blast
    next
      fix k assume "k \<in> ?K"
      then obtain q v where "q < 16" "slot_at sid q k v" using coll_key_iff [OF assms] by blast
      then show "k \<in> ?g ` ?Q" using g by (intro image_eqI [of _ _ q]) simp_all
    qed
  qed
  from trans [OF bij_betw_same_card [OF this, symmetric] ok(5) [symmetric]] show ?thesis .
qed

lemma coll_full:
  assumes "coll_ok sif rag sid" "passed sid k (cs_nib (cs_key k) sif) 16"
  shows "rag = 16" "k \<notin> fst ` slot_set (Slot_b coll rag sid)"
proof -
  have all: "sid ! q \<noteq> Slot_c \<and> (\<forall>v. \<not> slot_at sid q k v)" if "q < 16" for q
    using assms(2) probe_reach [OF cs_nib_less that] unfolding passed_def by metis
  then have "{q. q < 16 \<and> sid ! q \<noteq> Slot_c} = {..<16}" by auto
  then show "rag = 16" using coll_okD(5) [OF assms(1)] by simp
  show "k \<notin> fst ` slot_set (Slot_b coll rag sid)" using coll_key_iff [OF assms(1)] all by blast
qed

abbreviation outcome ::
  "((nat \<times> noun) \<times> noun) set \<Rightarrow> nat \<times> noun \<Rightarrow> noun \<Rightarrow> bool \<Rightarrow> ((nat \<times> noun) \<times> noun) set \<Rightarrow> bool" where
  "outcome E k pro ave E' \<equiv> saved E k pro ave E' \<or> refused E k ave E'"

lemma save_coll_ok:
  assumes "coll_ok sif rag sid" "sif = 32 \<or> rag < u2_tune_cash_hi"
    "cs_save_coll 16 (cs_nib (cs_key k) sif) sid k pro = (ave, sid')"
  shows "coll_ok sif (if ave then rag + 1 else rag) sid'"
    "saved (slot_set (Slot_b True rag sid)) k pro ave (slot_set (Slot_b True rag' sid')) \<or>
     sid' = sid \<and> \<not> ave \<and> rag = 16 \<and> k \<notin> fst ` slot_set (Slot_b True rag sid)" (is "saved ?E _ _ _ ?E' \<or> _")
proof -
  let ?i = "cs_nib (cs_key k) sif"
  have "probed 16 ?i sid k pro (ave, sid')" using save_coll_probed [OF cs_nib_less] assms(3) by metis
  then have "coll_ok sif (if ave then rag + 1 else rag) sid' \<and>
    (saved ?E k pro ave ?E' \<or> sid' = sid \<and> \<not> ave \<and> rag = 16 \<and> k \<notin> fst ` ?E)"
  proof cases
    case probed_full
    then show ?thesis using assms(1) coll_full [OF assms(1)] by simp
  next
    case (probed_hit t v)
    let ?q = "(?i + t) mod 16"
    have q: "?q < 16" by simp
    have "?E' = insert (k, pro) {e \<in> ?E. fst e \<noteq> k}"
      unfolding probed_hit(2)
    proof (rule coll_update_set [OF assms(1) q])
      show "fst e = k" if "e \<in> slot_set (sid ! ?q)" for e using that probed_hit(5) by simp
      show "\<not> slot_at sid r k w" if "r < 16" "r \<noteq> ?q" for r w
        using that coll_okD(3) [OF assms(1) that(1) q, of k w v] probed_hit(5) by blast
    qed
    moreover have "k \<in> fst ` ?E" unfolding coll_key_iff [OF assms(1)] using q probed_hit(5) by blast
    ultimately show ?thesis
      using coll_hit [OF assms(1) q probed_hit(5), of pro] probed_hit(1,2) unfolding saved_def by simp
  next
    case (probed_empty t)
    let ?q = "(?i + t) mod 16"
    have q: "?q < 16" by simp
    note no_k = coll_absent [OF assms(1) probed_empty(3,4,5)]
    have "?E' = insert (k, pro) {e \<in> ?E. fst e \<noteq> k}"
      unfolding probed_empty(2) using no_k probed_empty(5) by (intro coll_update_set [OF assms(1) q]) simp_all
    moreover have "k \<notin> fst ` ?E" unfolding coll_key_iff [OF assms(1)] using no_k by blast
    ultimately show ?thesis
      using coll_fill [OF assms(1,2) probed_empty(3,4) refl probed_empty(5), of pro] probed_empty(1,2)
      unfolding saved_def by simp
  qed
  then show "coll_ok sif (if ave then rag + 1 else rag) sid'"
    "saved ?E k pro ave ?E' \<or> sid' = sid \<and> \<not> ave \<and> rag = 16 \<and> k \<notin> fst ` ?E" by blast+
qed

section \<open>Radix mode and the levels\<close>

lemma keys_under_iff: "keys_under sif p lot \<longleftrightarrow> (\<forall>k \<in> fst ` slot_set lot. take_bit sif (cs_key k) = p)"
  by (simp add: keys_under_def)

lemma keys_under_outcome:
  "keys_under sif p lot \<Longrightarrow> take_bit sif (cs_key k) = p \<Longrightarrow>
   outcome (slot_set lot) k pro ave (slot_set lot') \<Longrightarrow> keys_under sif p lot'"
  unfolding keys_under_iff saved_def refused_def by (auto simp del: slot_entries.simps)

lemma slot_ok_keys: "slot_ok d p lot \<Longrightarrow> keys_under (cs_sif d) p lot"
  by (cases d) auto

definition good_saver :: "nat \<Rightarrow> cs_saver \<Rightarrow> bool" where
  "good_saver d save \<longleftrightarrow> (\<forall>p lot k pro. slot_ok d p lot \<longrightarrow> take_bit (cs_sif d) (cs_key k) = p \<longrightarrow>
     (\<exists>ave lot'. save lot (cs_key k) k pro = Inr (ave, lot') \<and> slot_ok d p lot' \<and>
        outcome (slot_set lot) k pro ave (slot_set lot')))"

definition radx_ok :: "nat \<Rightarrow> c3_w \<Rightarrow> u2_slot list \<Rightarrow> bool" where
  "radx_ok d p sid \<longleftrightarrow> length sid = 16 \<and>
     (\<forall>i<16. slot_ok d (p OR push_bit (cs_sif (Suc d)) (of_nat i)) (sid ! i))"

lemma radx_elsewhere:
  assumes "radx_ok d p sid" "d < 8" "take_bit (cs_sif (Suc d)) (cs_key k) = p" "i < 16"
    "k \<in> fst ` slot_set (sid ! i)"
  shows "cs_nib (cs_key k) (cs_sif (Suc d)) = i"
proof (rule cs_nib_unique [OF _ assms(4)])
  have "take_bit (cs_sif d) (cs_key k) = p OR push_bit (cs_sif (Suc d)) (of_nat i)"
    using assms slot_ok_keys unfolding radx_ok_def keys_under_iff by blast
  then show "take_bit (cs_sif (Suc d) + 4) (cs_key k) =
      take_bit (cs_sif (Suc d)) (cs_key k) OR push_bit (cs_sif (Suc d)) (of_nat i)"
    using assms(2,3) cs_sif_simps(1) by simp
  show "cs_sif (Suc d) + 4 \<le> 32" using assms(2) cs_sif_simps(1,4) by simp
qed

lemma radx_set_update:
  assumes "length sid = 16" "i < 16"
  shows "slot_set (Slot_b coll rag sid) = slot_set (sid ! i) \<union> (\<Union>j\<in>{..<16} - {i}. slot_set (sid ! j))"
    "slot_set (Slot_b coll rag (sid[i := lot])) = slot_set lot \<union> (\<Union>j\<in>{..<16} - {i}. slot_set (sid ! j))"
  using assms by (auto simp del: slot_entries.simps simp: slot_set_nth nth_list_update split: if_splits)

lemma save_radx_ok:
  assumes "good_saver d save" "radx_ok d p sid" "d < 8" "take_bit (cs_sif (Suc d)) (cs_key k) = p"
  obtains ave sid' where
    "cs_save_radx save (cs_sif (Suc d)) rag sid (cs_key k) k pro = Inr (ave, (if ave then rag + 1 else rag), sid')"
    "radx_ok d p sid'"
    "\<And>c r r'. outcome (slot_set (Slot_b c r sid)) k pro ave (slot_set (Slot_b c r' sid'))"
proof -
  let ?sif = "cs_sif (Suc d)" and ?i = "cs_nib (cs_key k) (cs_sif (Suc d))"
  have len: "length sid = 16" and at: "\<And>i. i < 16 \<Longrightarrow> slot_ok d (p OR push_bit ?sif (of_nat i)) (sid ! i)"
    using assms(2) unfolding radx_ok_def by auto
  have "take_bit (cs_sif d) (cs_key k) = p OR push_bit ?sif (of_nat ?i)"
    using take_bit_nib [of ?sif "cs_key k"] assms(4) cs_sif_simps(1) [OF assms(3)] by simp
  then obtain ave lot where lot: "save (sid ! ?i) (cs_key k) k pro = Inr (ave, lot)"
      "slot_ok d (p OR push_bit ?sif (of_nat ?i)) lot" "outcome (slot_set (sid ! ?i)) k pro ave (slot_set lot)"
    using assms(1) at [OF cs_nib_less] unfolding good_saver_def by blast
  let ?F = "\<Union>j\<in>{..<16} - {?i}. slot_set (sid ! j)"
  have no_k: "k \<notin> fst ` ?F" using radx_elsewhere [OF assms(2,3,4)] by (auto simp: image_UN)
  have fin: "finite (slot_set (sid ! ?i) \<union> ?F)" by simp
  have out: "outcome (slot_set (sid ! ?i) \<union> ?F) k pro ave (slot_set lot \<union> ?F)"
    using lot(3) saved_mono [OF _ no_k] refused_mono [OF _ no_k fin] by blast
  show thesis
  proof (rule that)
    show "cs_save_radx save ?sif rag sid (cs_key k) k pro = Inr (ave, (if ave then rag + 1 else rag), sid[?i := lot])"
      by (simp add: cs_save_radx_def Let_def lot(1))
    show "radx_ok d p (sid[?i := lot])"
      using len at lot(2) unfolding radx_ok_def by (simp add: nth_list_update)
    show "outcome (slot_set (Slot_b c r sid)) k pro ave (slot_set (Slot_b c r' (sid[?i := lot])))" for c r r'
      using out unfolding radx_set_update [OF len cs_nib_less [of "cs_key k" ?sif]] .
  qed
qed

lemma more_loop_ok:
  assumes "good_saver d save" "d < 8" "list_all slot_leaf tols"
    "\<And>k. k \<in> fst ` (\<Union>lot\<in>set tols. slot_set lot) \<Longrightarrow> take_bit (cs_sif (Suc d)) (cs_key k) = p"
    "distinct (map fst (concat (map slot_entries tols)))"
    "fst ` slot_set (Slot_b c 0 dis) \<inter> fst ` (\<Union>lot\<in>set tols. slot_set lot) = {}"
    "card (fst ` (slot_set (Slot_b c 0 dis) \<union> (\<Union>lot\<in>set tols. slot_set lot))) < 16"
    "radx_ok d p dis"
  shows "\<exists>rag' dis'. cs_more_loop save (cs_sif (Suc d)) tols rag dis = Inr (rag', dis') \<and> radx_ok d p dis' \<and>
     slot_set (Slot_b c 0 dis') = slot_set (Slot_b c 0 dis) \<union> (\<Union>lot\<in>set tols. slot_set lot)"
  using assms(3-8)
proof (induction tols arbitrary: rag dis)
  case Nil
  then show ?case by simp
next
  case (Cons tol tols)
  show ?case
  proof (cases tol)
    case Slot_c
    then show ?thesis using Cons.prems Cons.IH [of dis rag] by simp
  next
    case (Slot_b coll r sid)
    then show ?thesis using Cons.prems by simp
  next
    case (Slot_a sel sam pro)
    let ?k = "(sel, sam)" and ?T = "\<Union>lot\<in>set tols. slot_set lot" and ?D = "slot_set (Slot_b c 0 dis)"
    have "take_bit (cs_sif (Suc d)) (cs_key ?k) = p" using Cons.prems(2) [of ?k] Slot_a by force
    then obtain ave dis' where r: "cs_save_radx save (cs_sif (Suc d)) rag dis (cs_key ?k) ?k pro =
          Inr (ave, (if ave then rag + 1 else rag), dis')" "radx_ok d p dis'"
        "outcome ?D ?k pro ave (slot_set (Slot_b c 0 dis'))"
      using save_radx_ok [OF assms(1) Cons.prems(6) assms(2)] by metis
    have new: "?k \<notin> fst ` ?D" using Cons.prems(4) Slot_a by (auto simp del: slot_entries.simps simp: slot_entries.simps(1))
    have "card {k' \<in> fst ` ?D. cs_key k' = cs_key ?k} \<le> card (fst ` (?D \<union> (\<Union>lot\<in>set (tol # tols). slot_set lot)))"
      by (rule card_mono) auto
    then have "\<not> refused ?D ?k ave (slot_set (Slot_b c 0 dis'))" using Cons.prems(5) unfolding refused_def by linarith
    then have D': "slot_set (Slot_b c 0 dis') = insert (?k, pro) ?D"
      using r(3) new unfolding saved_def by (auto simp del: slot_entries.simps simp: fst_image_iff)
    have tk: "?k \<notin> fst ` ?T" using Cons.prems(3) Slot_a by (auto simp: image_UN)
    have all: "?D \<union> (\<Union>lot\<in>set (tol # tols). slot_set lot) = slot_set (Slot_b c 0 dis') \<union> ?T"
      unfolding D' using Slot_a by auto
    have "\<exists>rag' dis''. cs_more_loop save (cs_sif (Suc d)) tols (if ave then rag + 1 else rag) dis' = Inr (rag', dis'') \<and>
        radx_ok d p dis'' \<and> slot_set (Slot_b c 0 dis'') = slot_set (Slot_b c 0 dis') \<union> ?T"
    proof (rule Cons.IH [OF _ _ _ _ _ r(2)])
      show "fst ` slot_set (Slot_b c 0 dis') \<inter> fst ` ?T = {}"
        using Cons.prems(4) tk unfolding D' by (auto simp del: slot_entries.simps)
      show "card (fst ` (slot_set (Slot_b c 0 dis') \<union> ?T)) < 16" using Cons.prems(5) unfolding all .
    qed (use Cons.prems(1-3) Slot_a in auto)
    then show ?thesis unfolding all using Slot_a r(1) by (auto simp del: slot_entries.simps)
  qed
qed

lemma coll_distinct:
  assumes "coll_ok sif rag sid"
  shows "distinct (map fst (concat (map slot_entries sid)))"
proof (rule card_distinct)
  note ok = coll_okD [OF assms]
  have one: "slot_leaf lot \<Longrightarrow> length (slot_entries lot) = (if lot \<noteq> Slot_c then 1 else 0)" for lot by (cases lot) auto
  have "length (concat (map slot_entries sid)) = (\<Sum>lot\<leftarrow>sid. if lot \<noteq> Slot_c then 1 else 0)"
    using ok(2) one by (simp add: length_concat comp_def list_all_iff cong: map_cong)
  also have "\<dots> = length (filter (\<lambda>lot. lot \<noteq> Slot_c) sid)"
    by (simp add: sum_list_map_filter' [symmetric] sum_list_triv)
  also have "\<dots> = rag" using ok(1,5) by (simp add: length_filter_conv_card)
  finally show "card (set (map fst (concat (map slot_entries sid)))) = length (map fst (concat (map slot_entries sid)))"
    using coll_card [OF assms, of True] by simp
qed

lemma radx_empty: "radx_ok d p (replicate 16 Slot_c)" "slot_set (Slot_b c r (replicate 16 Slot_c)) = {}"
  by (cases d) (simp_all add: radx_ok_def keys_under_def)

lemma more_b_ok:
  assumes "good_saver d save" "d < 8" "coll_ok (cs_sif (Suc d)) rag sid" "keys_under (cs_sif (Suc d)) p (Slot_b True rag sid)"
  obtains rag' sid' where "cs_more_b save (cs_sif (Suc d)) sid = Inr (rag', sid')" "radx_ok d p sid'"
    "\<And>c r r'. slot_set (Slot_b c r' sid') = slot_set (Slot_b c r sid)"
proof -
  note ok = coll_okD [OF assms(3)]
  have "\<exists>rag' dis'. cs_more_loop save (cs_sif (Suc d)) sid 0 (replicate 16 Slot_c) = Inr (rag', dis') \<and> radx_ok d p dis' \<and>
     slot_set (Slot_b True 0 dis') = slot_set (Slot_b True 0 (replicate 16 Slot_c)) \<union> (\<Union>lot\<in>set sid. slot_set lot)"
  proof (rule more_loop_ok [OF assms(1,2) ok(2) _ coll_distinct [OF assms(3)] _ _ radx_empty(1)])
    show "take_bit (cs_sif (Suc d)) (cs_key k) = p" if "k \<in> fst ` (\<Union>lot\<in>set sid. slot_set lot)" for k
      using that assms(4) unfolding keys_under_iff slot_set_b by blast
    show "card (fst ` (slot_set (Slot_b True 0 (replicate 16 Slot_c)) \<union> (\<Union>lot\<in>set sid. slot_set lot))) < 16"
      using coll_card [OF assms(3), of True] ok(6) cs_sif_simps(5)
      unfolding slot_set_b [symmetric] by (simp add: radx_empty(2) u2_tune_cash_hi_def)
  qed (simp add: radx_empty(2))
  then show thesis using that by (auto simp: cs_more_b_def radx_empty(2))
qed

lemma slot_ok_b:
  "slot_ok (Suc d) p (Slot_b coll rag sid) \<longleftrightarrow> keys_under (cs_sif (Suc d)) p (Slot_b coll rag sid) \<and>
     (if coll then coll_ok (cs_sif (Suc d)) rag sid else radx_ok d p sid)"
  by (simp add: radx_ok_def)

lemma save_b_radx_ok:
  assumes "good_saver d save" "d < 8" "radx_ok d p sid" "keys_under (cs_sif (Suc d)) p (Slot_b False r sid)"
    "take_bit (cs_sif (Suc d)) (cs_key k) = p"
  shows "\<exists>ave rag' sid'. cs_save_radx save (cs_sif (Suc d)) rag sid (cs_key k) k pro = Inr (ave, rag', sid') \<and>
     slot_ok (Suc d) p (Slot_b False rag' sid') \<and>
     (\<forall>c r. outcome (slot_set (Slot_b c r sid)) k pro ave (slot_set (Slot_b False rag' sid')))"
proof -
  obtain ave sid' where *: "cs_save_radx save (cs_sif (Suc d)) rag sid (cs_key k) k pro =
        Inr (ave, (if ave then rag + 1 else rag), sid')" "radx_ok d p sid'"
      "\<And>c r r'. outcome (slot_set (Slot_b c r sid)) k pro ave (slot_set (Slot_b c r' sid'))"
    using save_radx_ok [OF assms(1,3,2,5)] by metis
  have "keys_under (cs_sif (Suc d)) p (Slot_b False r' sid')" for r'
    using keys_under_outcome [OF assms(4,5) *(3)] .
  then show ?thesis using * unfolding slot_ok_b by (auto simp del: slot_entries.simps simp: slot_set_b)
qed

lemma save_coll_outcome:
  assumes "coll_ok sif rag sid" "sif = 32 \<or> rag < u2_tune_cash_hi" "keys_under sif p (Slot_b True rag sid)"
    "take_bit sif (cs_key k) = p"
  obtains ave sid' where "cs_save_coll 16 (cs_nib (cs_key k) sif) sid k pro = (ave, sid')"
    "coll_ok sif (if ave then rag + 1 else rag) sid'"
    "outcome (slot_set (Slot_b True rag sid)) k pro ave (slot_set (Slot_b True (if ave then rag + 1 else rag) sid'))"
proof -
  let ?E = "slot_set (Slot_b True rag sid)"
  obtain ave sid' where r: "cs_save_coll 16 (cs_nib (cs_key k) sif) sid k pro = (ave, sid')" by fastforce
  note ok = save_coll_ok [OF assms(1,2) r]
  have "refused ?E k ave ?E" if full: "\<not> ave" "rag = 16" "k \<notin> fst ` ?E"
  proof -
    have "sif = 32" using assms(2) full(2) by (simp add: u2_tune_cash_hi_def)
    then have "{k' \<in> fst ` ?E. cs_key k' = cs_key k} = fst ` ?E"
      using assms(3,4) unfolding keys_under_iff by (auto simp del: slot_entries.simps simp: take_bit_word_eq_self)
    then show ?thesis using full coll_card [OF assms(1), of True] unfolding refused_def by simp
  qed
  then show thesis using that [OF r ok(1)] ok(2) [of "if ave then rag + 1 else rag"] by (metis slot_set_b)
qed

lemma save_b_ok:
  assumes "good_saver d save" "d < 8" "slot_ok (Suc d) p (Slot_b coll rag sid)" "take_bit (cs_sif (Suc d)) (cs_key k) = p"
  shows "\<exists>ave lot'. cs_save_b save (cs_sif (Suc d)) coll rag sid (cs_key k) k pro = Inr (ave, lot') \<and>
     slot_ok (Suc d) p lot' \<and> outcome (slot_set (Slot_b coll rag sid)) k pro ave (slot_set lot')"
proof -
  have under: "keys_under (cs_sif (Suc d)) p (Slot_b coll' rag' sid)" for coll' rag'
    using assms(3) unfolding slot_ok_b keys_under_iff by simp
  show ?thesis
  proof (cases coll)
    case False
    then have "radx_ok d p sid" using assms(3) unfolding slot_ok_b by simp
    then obtain ave rag' sid' where
        *: "cs_save_radx save (cs_sif (Suc d)) rag sid (cs_key k) k pro = Inr (ave, rag', sid')"
        "slot_ok (Suc d) p (Slot_b False rag' sid')"
        "\<And>c r. outcome (slot_set (Slot_b c r sid)) k pro ave (slot_set (Slot_b False rag' sid'))"
      using save_b_radx_ok [OF assms(1,2) _ under assms(4)] by blast
    have "cs_save_b save (cs_sif (Suc d)) coll rag sid (cs_key k) k pro = Inr (ave, Slot_b False rag' sid')"
      using False by (simp add: cs_save_b_def *(1))
    then show ?thesis using *(2) *(3) [of coll rag] by blast
  next
    case True
    then have ok: "coll_ok (cs_sif (Suc d)) rag sid" using assms(3) unfolding slot_ok_b by simp
    show ?thesis
    proof (cases "rag \<ge> u2_tune_cash_hi")
      case False
      then obtain ave sid' where *: "cs_save_coll 16 (cs_nib (cs_key k) (cs_sif (Suc d))) sid k pro = (ave, sid')"
          "coll_ok (cs_sif (Suc d)) (if ave then rag + 1 else rag) sid'"
          "outcome (slot_set (Slot_b True rag sid)) k pro ave (slot_set (Slot_b True (if ave then rag + 1 else rag) sid'))"
        using save_coll_outcome [OF ok _ under assms(4)] by (metis not_le)
      have "keys_under (cs_sif (Suc d)) p (Slot_b True (if ave then rag + 1 else rag) sid')"
        by (rule keys_under_outcome [OF under assms(4) *(3)])
      then show ?thesis
        using True False * unfolding slot_ok_b cs_save_b_def by (simp del: slot_entries.simps)
    next
      case hi: True
      obtain rag' sid' where more: "cs_more_b save (cs_sif (Suc d)) sid = Inr (rag', sid')" "radx_ok d p sid'"
          "\<And>c r r'. slot_set (Slot_b c r' sid') = slot_set (Slot_b c r sid)"
        using more_b_ok [OF assms(1,2) ok under] by metis
      have "keys_under (cs_sif (Suc d)) p (Slot_b False rag' sid')"
        using under [of False rag] unfolding keys_under_iff more(3) [of False rag' rag] .
      then obtain ave rag'' sid'' where
          *: "cs_save_radx save (cs_sif (Suc d)) rag' sid' (cs_key k) k pro = Inr (ave, rag'', sid'')"
          "slot_ok (Suc d) p (Slot_b False rag'' sid'')"
          "\<And>c r. outcome (slot_set (Slot_b c r sid')) k pro ave (slot_set (Slot_b False rag'' sid''))"
        using save_b_radx_ok [OF assms(1,2) more(2) _ assms(4)] by blast
      have "cs_save_b save (cs_sif (Suc d)) coll rag sid (cs_key k) k pro = Inr (ave, Slot_b False rag'' sid'')"
        using True hi cs_sif_simps(5) by (simp add: cs_save_b_def more(1) *(1))
      then show ?thesis using *(2) *(3) [of coll rag] unfolding more(3) [of coll rag rag] by blast
    qed
  qed
qed

lemma save_b_0_ok:
  assumes "slot_ok 0 p (Slot_b coll rag sid)" "take_bit (cs_sif 0) (cs_key k) = p"
  shows "\<exists>ave lot'. cs_save_b save (cs_sif 0) coll rag sid (cs_key k) k pro = Inr (ave, lot') \<and>
     slot_ok 0 p lot' \<and> outcome (slot_set (Slot_b coll rag sid)) k pro ave (slot_set lot')"
proof -
  have ok: coll "coll_ok (cs_sif 0) rag sid" "keys_under (cs_sif 0) p (Slot_b True rag sid)" using assms(1) by auto
  obtain ave sid' where *: "cs_save_coll 16 (cs_nib (cs_key k) (cs_sif 0)) sid k pro = (ave, sid')"
      "coll_ok (cs_sif 0) (if ave then rag + 1 else rag) sid'"
      "outcome (slot_set (Slot_b True rag sid)) k pro ave (slot_set (Slot_b True (if ave then rag + 1 else rag) sid'))"
    using save_coll_outcome [OF ok(2) _ ok(3) assms(2)] cs_sif_simps(3) by metis
  have "keys_under (cs_sif 0) p (Slot_b True (if ave then rag + 1 else rag) sid')"
    by (rule keys_under_outcome [OF ok(3) assms(2) *(3)])
  then show ?thesis using ok * cs_sif_simps(3) unfolding cs_save_b_def by (simp del: slot_entries.simps)
qed

lemma coll_ok_empty: "coll_ok sif 0 (replicate 16 Slot_c)"
  by (rule coll_okI) (simp_all add: list_all_length)

lemma slot_ok_simps:
  "slot_ok d p Slot_c" "slot_ok d p (Slot_a sel sam pro) \<longleftrightarrow> take_bit (cs_sif d) (cs_key (sel, sam)) = p"
  "slot_ok d p (Slot_b True 0 (replicate 16 Slot_c))"
  by (cases d; auto simp: keys_under_def coll_ok_empty)+

lemma save_a_ok:
  assumes save_b: "\<And>coll rag sid k pro. slot_ok d p (Slot_b coll rag sid) \<Longrightarrow> take_bit (cs_sif d) (cs_key k) = p \<Longrightarrow>
      \<exists>ave lot'. cs_save_b save (cs_sif d) coll rag sid (cs_key k) k pro = Inr (ave, lot') \<and>
        slot_ok d p lot' \<and> outcome (slot_set (Slot_b coll rag sid)) k pro ave (slot_set lot')"
    and ok: "slot_ok d p (Slot_a sel sam rop)" and k: "take_bit (cs_sif d) (cs_key k) = p"
  shows "\<exists>ave lot'. cs_save_a save (cs_sif d) sel sam rop (cs_key k) k pro = Inr (ave, lot') \<and>
     slot_ok d p lot' \<and> outcome (slot_set (Slot_a sel sam rop)) k pro ave (slot_set lot')"
proof (cases "(sel, sam) = k")
  case True
  then have "saved (slot_set (Slot_a sel sam rop)) k pro False (slot_set (Slot_a sel sam pro))"
    by (auto simp: saved_def)
  then show ?thesis using True ok by (auto simp: cs_save_a_def slot_ok_simps simp del: slot_entries.simps)
next
  case False
  let ?e = "replicate 16 Slot_c"
  have k': "take_bit (cs_sif d) (cs_key (sel, sam)) = p" using ok by (simp add: slot_ok_simps)
  obtain ave lot where r: "cs_save_b save (cs_sif d) True 0 ?e (cs_key (sel, sam)) (sel, sam) rop = Inr (ave, lot)"
      "slot_ok d p lot" "outcome (slot_set (Slot_b True 0 ?e)) (sel, sam) rop ave (slot_set lot)"
    using save_b [OF slot_ok_simps(3) k'] by blast
  have lot: "ave" "slot_set lot = {((sel, sam), rop)}"
    using r(3) unfolding radx_empty(2) saved_def refused_def by auto
  obtain coll rag sid where b: "lot = Slot_b coll rag sid"
    using r(1) unfolding cs_save_b_def by (auto simp: u2_tune_cash_hi_def Let_def split: prod.splits)
  obtain ave' lot' where r': "cs_save_b save (cs_sif d) coll rag sid (cs_key k) k pro = Inr (ave', lot')"
      "slot_ok d p lot'" "outcome (slot_set lot) k pro ave' (slot_set lot')"
    using save_b [OF r(2) [unfolded b] k] b by blast
  then show ?thesis using False r(1) lot(1) lot(2) b by (auto simp: cs_save_a_def simp del: slot_entries.simps(2))
qed

lemma save_c_ok:
  "take_bit (cs_sif d) (cs_key k) = p \<Longrightarrow> slot_ok d p (cs_save_c k pro)"
  "saved (slot_set Slot_c) k pro True (slot_set (cs_save_c k pro))"
  by (simp_all add: cs_save_c_def slot_ok_simps saved_def)

lemma good_saver_save_in: "d \<le> 8 \<Longrightarrow> good_saver d (cs_save_in d)"
proof (induction d)
  case 0
  have "\<exists>ave lot'. cs_save_in 0 lot (cs_key k) k pro = Inr (ave, lot') \<and> slot_ok 0 p lot' \<and>
      outcome (slot_set lot) k pro ave (slot_set lot')"
    if ok: "slot_ok 0 p lot" "take_bit (cs_sif 0) (cs_key k) = p" for p lot k pro
  proof (cases lot)
    case (Slot_a sel sam rop)
    show ?thesis
      using save_a_ok [OF save_b_0_ok ok [unfolded Slot_a]] unfolding Slot_a cs_save_in.simps u2_slot.case .
  next
    case (Slot_b coll rag sid)
    show ?thesis using save_b_0_ok [OF ok [unfolded Slot_b]] unfolding Slot_b cs_save_in.simps u2_slot.case .
  next
    case Slot_c
    show ?thesis unfolding Slot_c cs_save_in.simps u2_slot.case using save_c_ok(1) [OF ok(2), of pro] save_c_ok(2) [of k pro] by blast
  qed
  then show ?case unfolding good_saver_def by blast
next
  case (Suc d)
  then have d: "good_saver d (cs_save_in d)" "d < 8" by simp_all
  have "\<exists>ave lot'. cs_save_in (Suc d) lot (cs_key k) k pro = Inr (ave, lot') \<and> slot_ok (Suc d) p lot' \<and>
      outcome (slot_set lot) k pro ave (slot_set lot')"
    if ok: "slot_ok (Suc d) p lot" "take_bit (cs_sif (Suc d)) (cs_key k) = p" for p lot k pro
  proof (cases lot)
    case (Slot_a sel sam rop)
    show ?thesis
      using save_a_ok [OF save_b_ok [OF d] ok [unfolded Slot_a]] unfolding Slot_a cs_save_in.simps u2_slot.case .
  next
    case (Slot_b coll rag sid)
    show ?thesis using save_b_ok [OF d ok [unfolded Slot_b]] unfolding Slot_b cs_save_in.simps u2_slot.case .
  next
    case Slot_c
    show ?thesis unfolding Slot_c cs_save_in.simps u2_slot.case using save_c_ok(1) [OF ok(2), of pro] save_c_ok(2) [of k pro] by blast
  qed
  then show ?case unfolding good_saver_def by blast
qed

lemma cs_find_1_correct:
  assumes "slot_ok d p lot" "d \<le> 8" "take_bit (cs_sif d) (cs_key k) = p"
  shows "cs_find_1 lot (cs_key k) (cs_sif d) k = Some v \<longleftrightarrow> (k, v) \<in> slot_set lot"
  using assms
proof (induction d arbitrary: p lot)
  case 0
  then show ?case
    using find_coll_correct [of "cs_sif 0"]
    by (cases lot) (auto simp: Let_def simp del: slot_entries.simps simp: slot_entries.simps(1,3))
next
  case (Suc d)
  show ?case
  proof (cases lot)
    case (Slot_b coll rag sid)
    let ?sif = "cs_sif (Suc d)" and ?i = "cs_nib (cs_key k) (cs_sif (Suc d))"
    show ?thesis
    proof (cases coll)
      case True
      then show ?thesis
        using Suc.prems(1) find_coll_correct [of ?sif rag sid] unfolding Slot_b slot_ok_b
        by (simp add: Let_def del: slot_entries.simps)
    next
      case False
      then have ok: "radx_ok d p sid" using Suc.prems(1) unfolding Slot_b slot_ok_b by simp
      have len: "length sid = 16" using ok by (simp add: radx_ok_def)
      have d: "d < 8" "?sif + 4 = cs_sif d" using Suc.prems(2) cs_sif_simps(1) by simp_all
      have "take_bit (cs_sif d) (cs_key k) = p OR push_bit ?sif (of_nat ?i)"
        using take_bit_nib [of ?sif "cs_key k"] Suc.prems(3) d(2) by simp
      then have IH: "cs_find_1 (sid ! ?i) (cs_key k) (cs_sif d) k = Some v \<longleftrightarrow> (k, v) \<in> slot_set (sid ! ?i)"
        using Suc.IH [of "p OR push_bit ?sif (of_nat ?i)"] ok d(1) unfolding radx_ok_def by simp
      have "(k, v) \<in> slot_set lot \<longleftrightarrow> (k, v) \<in> slot_set (sid ! ?i)"
        unfolding Slot_b slot_set_nth [OF len] using radx_elsewhere [OF ok d(1) Suc.prems(3)]
        by (auto simp: fst_image_iff)
      then show ?thesis using IH False len d(2) unfolding Slot_b by (simp add: Let_def del: slot_entries.simps)
    qed
  qed auto
qed

section \<open>The table as a map\<close>

definition cash_ok :: "u2_slot \<Rightarrow> bool" where
  "cash_ok lot \<longleftrightarrow> slot_ok 8 0 lot"

definition cash_map :: "u2_slot \<Rightarrow> nat \<times> noun \<Rightarrow> noun option" where
  "cash_map lot k = u2_cs_find lot (fst k) (snd k)"

lemma cash_map_iff: "cash_ok lot \<Longrightarrow> cash_map lot k = Some v \<longleftrightarrow> (k, v) \<in> slot_set lot"
  using cs_find_1_correct [of 8 0 lot k v] by (simp add: cash_ok_def cash_map_def u2_cs_find_def cs_sif_simps)

lemma map_eq_Some_iff: "f = g \<longleftrightarrow> (\<forall>k v. f k = Some v \<longleftrightarrow> g k = Some v)"
  by (auto simp: fun_eq_iff) (metis not_Some_eq)

lemma u2_cs_save_correct:
  assumes "cash_ok lot"
  obtains lot' where "u2_cs_save lot sel sam pro = Inr lot'" "cash_ok lot'"
    "cash_map lot' = (cash_map lot)((sel, sam) \<mapsto> pro) \<or>
     cash_map lot' = cash_map lot \<and> cash_map lot (sel, sam) = None \<and>
       16 \<le> card {k \<in> dom (cash_map lot). cs_key k = cs_key (sel, sam)}"
proof -
  let ?k = "(sel, sam)"
  obtain ave lot' where r: "cs_save_in 8 lot (cs_key ?k) ?k pro = Inr (ave, lot')" "cash_ok lot'"
      "outcome (slot_set lot) ?k pro ave (slot_set lot')"
    using good_saver_save_in [of 8] assms unfolding good_saver_def cash_ok_def
    by (metis cs_sif_simps(2) le_refl take_bit_0)
  have find: "cash_map lot k = Some v \<longleftrightarrow> (k, v) \<in> slot_set lot" "cash_map lot' k = Some v \<longleftrightarrow> (k, v) \<in> slot_set lot'" for k v
    using cash_map_iff assms r(2) by blast+
  have dom: "fst ` slot_set lot = dom (cash_map lot)" unfolding dom_def by (auto simp: fst_image_iff find)
  have "cash_map lot' = (cash_map lot)(?k \<mapsto> pro)" if "saved (slot_set lot) ?k pro ave (slot_set lot')"
    using that unfolding map_eq_Some_iff saved_def by (simp add: find) blast
  then have "cash_map lot' = (cash_map lot)(?k \<mapsto> pro) \<or> cash_map lot' = cash_map lot \<and> cash_map lot ?k = None \<and>
      16 \<le> card {k \<in> dom (cash_map lot). cs_key k = cs_key ?k}"
    using r(3) find unfolding refused_def dom map_eq_Some_iff by auto
  then show thesis using that [of lot'] r(1,2) by (simp add: u2_cs_save_def)
qed

section \<open>Samples given by their parts\<close>

text \<open>
  The lookups of a cell, a triple, a quadruple and of a cell whose head is a C string walk the
  table alike and differ in how they compare a sample. A C string is the list of its bytes up to the
  final zero; \<^verbatim>\<open>u2_sing_c\<close> compares a signed \<open>char\<close> with an unsigned byte.
\<close>

definition u2_sing_c :: "c3_y list \<Rightarrow> noun \<Rightarrow> bool" where
  "u2_sing_c a_c b =
     (case b of
        Cell _ _ \<Rightarrow> False
      | Atom n \<Rightarrow> \<forall>i < unat (of_nat (length a_c) :: c3_w). uint (u2_byte (of_nat i) n) = sint (a_c ! i))"

fun cs_find_sap_cell :: "noun \<Rightarrow> noun \<Rightarrow> noun \<Rightarrow> bool" where
  "cs_find_sap_cell a_sam b_sam (Cell h t) = (a_sam = h \<and> b_sam = t)"
| "cs_find_sap_cell a_sam b_sam (Atom _) = False"

fun cs_find_sap_mixt :: "c3_y list \<Rightarrow> noun \<Rightarrow> noun \<Rightarrow> bool" where
  "cs_find_sap_mixt a_sam_c b_sam (Cell h t) = (u2_sing_c a_sam_c h \<and> b_sam = t)"
| "cs_find_sap_mixt a_sam_c b_sam (Atom _) = False"

fun cs_find_sap_trel :: "noun \<Rightarrow> noun \<Rightarrow> noun \<Rightarrow> noun \<Rightarrow> bool" where
  "cs_find_sap_trel a_sam b_sam c_sam (Cell h t) = (a_sam = h \<and> cs_find_sap_cell b_sam c_sam t)"
| "cs_find_sap_trel a_sam b_sam c_sam (Atom _) = False"

fun cs_find_sap_qual :: "noun \<Rightarrow> noun \<Rightarrow> noun \<Rightarrow> noun \<Rightarrow> noun \<Rightarrow> bool" where
  "cs_find_sap_qual a_sam b_sam c_sam d_sam (Cell h t) = (a_sam = h \<and> cs_find_sap_trel b_sam c_sam d_sam t)"
| "cs_find_sap_qual a_sam b_sam c_sam d_sam (Atom _) = False"

primrec cs_find_coll_by :: "(noun \<Rightarrow> bool) \<Rightarrow> nat \<Rightarrow> nat \<Rightarrow> u2_slot list \<Rightarrow> nat \<Rightarrow> u2_weak" where
  "cs_find_coll_by sap 0 j_w sid sel_m = None"
| "cs_find_coll_by sap (Suc n) j_w sid sel_m =
     (case sid ! j_w of
        Slot_a sel sam pro \<Rightarrow>
          if sel_m = sel \<and> sap sam then Some pro else cs_find_coll_by sap n ((j_w + 1) mod 16) sid sel_m
      | _ \<Rightarrow> cs_find_coll_by sap n ((j_w + 1) mod 16) sid sel_m)"

function cs_find_by :: "(noun \<Rightarrow> bool) \<Rightarrow> u2_slot \<Rightarrow> c3_w \<Rightarrow> nat \<Rightarrow> nat \<Rightarrow> u2_weak" where
  "cs_find_by sap (Slot_a sel sam pro) key_w sif_w sel_m = (if sel_m = sel \<and> sap sam then Some pro else None)"
| "cs_find_by sap Slot_c key_w sif_w sel_m = None"
| "cs_find_by sap (Slot_b coll rag sid) key_w sif_w sel_m =
     (let i_w = cs_nib key_w sif_w
      in if coll then cs_find_coll_by sap 16 i_w sid sel_m
         else if i_w < length sid then cs_find_by sap (sid ! i_w) key_w (sif_w + 4) sel_m
         else None)"
  by pat_completeness auto

termination
  by (relation "measure (\<lambda>(_, lot, _). size lot)")
    (auto simp: less_Suc_eq_le intro!: trans_le_add2 size_list_estimation' [OF nth_mem])

definition cs_find_2 :: "u2_slot \<Rightarrow> c3_w \<Rightarrow> nat \<Rightarrow> nat \<Rightarrow> noun \<Rightarrow> noun \<Rightarrow> u2_weak" where
  "cs_find_2 lot key_w sif_w sel_m a b = cs_find_by (cs_find_sap_cell a b) lot key_w sif_w sel_m"

definition cs_find_2m :: "u2_slot \<Rightarrow> c3_w \<Rightarrow> nat \<Rightarrow> nat \<Rightarrow> c3_y list \<Rightarrow> noun \<Rightarrow> u2_weak" where
  "cs_find_2m lot key_w sif_w sel_m a_c b = cs_find_by (cs_find_sap_mixt a_c b) lot key_w sif_w sel_m"

definition cs_find_3 :: "u2_slot \<Rightarrow> c3_w \<Rightarrow> nat \<Rightarrow> nat \<Rightarrow> noun \<Rightarrow> noun \<Rightarrow> noun \<Rightarrow> u2_weak" where
  "cs_find_3 lot key_w sif_w sel_m a b c = cs_find_by (cs_find_sap_trel a b c) lot key_w sif_w sel_m"

definition cs_find_4 :: "u2_slot \<Rightarrow> c3_w \<Rightarrow> nat \<Rightarrow> nat \<Rightarrow> noun \<Rightarrow> noun \<Rightarrow> noun \<Rightarrow> noun \<Rightarrow> u2_weak" where
  "cs_find_4 lot key_w sif_w sel_m a b c d = cs_find_by (cs_find_sap_qual a b c d) lot key_w sif_w sel_m"

definition u2_mug_trel :: "noun \<Rightarrow> noun \<Rightarrow> noun \<Rightarrow> c3_w" where
  "u2_mug_trel a b c = u2_mug_both (mug a) (u2_mug_both (mug b) (mug c))"

definition u2_mug_qual :: "noun \<Rightarrow> noun \<Rightarrow> noun \<Rightarrow> noun \<Rightarrow> c3_w" where
  "u2_mug_qual a b c d = u2_mug_both (mug a) (u2_mug_both (mug b) (u2_mug_both (mug c) (mug d)))"

definition u2_cs_find_cell :: "u2_slot \<Rightarrow> nat \<Rightarrow> noun \<Rightarrow> noun \<Rightarrow> u2_weak" where
  "u2_cs_find_cell lot sel_m a b =
     cs_find_2 lot (mug (Atom sel_m) XOR u2_mug_both (mug a) (mug b)) 0 sel_m a b"

definition u2_cs_find_mixt :: "u2_slot \<Rightarrow> nat \<Rightarrow> c3_y list \<Rightarrow> noun \<Rightarrow> u2_weak" where
  "u2_cs_find_mixt lot sel_m a_c b =
     cs_find_2m lot (mug (Atom sel_m) XOR u2_mug_both (u2_mug_string a_c) (mug b)) 0 sel_m a_c b"

definition u2_cs_find_trel :: "u2_slot \<Rightarrow> nat \<Rightarrow> noun \<Rightarrow> noun \<Rightarrow> noun \<Rightarrow> u2_weak" where
  "u2_cs_find_trel lot sel_m a b c =
     cs_find_3 lot (mug (Atom sel_m) XOR u2_mug_trel a b c) 0 sel_m a b c"

definition u2_cs_find_qual :: "u2_slot \<Rightarrow> nat \<Rightarrow> noun \<Rightarrow> noun \<Rightarrow> noun \<Rightarrow> noun \<Rightarrow> u2_weak" where
  "u2_cs_find_qual lot sel_m a b c d =
     cs_find_4 lot (mug (Atom sel_m) XOR u2_mug_qual a b c d) 0 sel_m a b c d"

definition u2_cs_save_cell :: "u2_slot \<Rightarrow> nat \<Rightarrow> noun \<Rightarrow> noun \<Rightarrow> noun \<Rightarrow> u2_slot res" where
  "u2_cs_save_cell lot sel_m a b pro = u2_cs_save lot sel_m (Cell a b) pro"

definition u2_cs_save_mixt :: "u2_slot \<Rightarrow> nat \<Rightarrow> c3_y list \<Rightarrow> noun \<Rightarrow> noun \<Rightarrow> u2_slot res" where
  "u2_cs_save_mixt lot sel_m a_c b pro =
     rbind (u2_rl_string a_c) (\<lambda>r. u2_cs_save lot sel_m (Cell (Atom (atom_of r)) b) pro)"

definition u2_cs_save_trel :: "u2_slot \<Rightarrow> nat \<Rightarrow> noun \<Rightarrow> noun \<Rightarrow> noun \<Rightarrow> noun \<Rightarrow> u2_slot res" where
  "u2_cs_save_trel lot sel_m a b c pro = u2_cs_save lot sel_m (Cell a (Cell b c)) pro"

definition u2_cs_save_qual :: "u2_slot \<Rightarrow> nat \<Rightarrow> noun \<Rightarrow> noun \<Rightarrow> noun \<Rightarrow> noun \<Rightarrow> noun \<Rightarrow> u2_slot res" where
  "u2_cs_save_qual lot sel_m a b c d pro =
     u2_cs_save lot sel_m (Cell a (Cell b (Cell c d))) pro"

definition u2_cs_init :: u2_slot where
  "u2_cs_init = Slot_c"

lemma cs_find_by_eq: "cs_find_by (\<lambda>pes. pes = sam) lot key sif sel = cs_find_1 lot key sif (sel, sam)"
proof (induction lot key sif "(sel, sam)" rule: cs_find_1.induct)
  case (3 coll rag sid key sif)
  have "cs_find_coll_by (\<lambda>pes. pes = sam) n j sid sel = cs_find_coll n j sid (sel, sam)" for n j
    by (induction n arbitrary: j) (auto split: u2_slot.splits)
  then show ?case using 3 by (simp add: Let_def)
qed auto

lemma cs_find_sap_eqs:
  "cs_find_sap_cell a b = (\<lambda>pes. pes = Cell a b)"
  "cs_find_sap_trel a b c = (\<lambda>pes. pes = Cell a (Cell b c))"
  "cs_find_sap_qual a b c d = (\<lambda>pes. pes = Cell a (Cell b (Cell c d)))"
proof -
  have *: "cs_find_sap_cell a b pes = (pes = Cell a b)" for a b pes by (cases pes) auto
  have **: "cs_find_sap_trel a b c pes = (pes = Cell a (Cell b c))" for a b c pes by (cases pes) (auto simp: *)
  have "cs_find_sap_qual a b c d pes = (pes = Cell a (Cell b (Cell c d)))" for pes by (cases pes) (auto simp: **)
  with * ** show "cs_find_sap_cell a b = (\<lambda>pes. pes = Cell a b)"
    "cs_find_sap_trel a b c = (\<lambda>pes. pes = Cell a (Cell b c))"
    "cs_find_sap_qual a b c d = (\<lambda>pes. pes = Cell a (Cell b (Cell c d)))" by (intro ext; simp)+
qed

lemmas cs_find_parts_defs =
  u2_cs_find_cell_def u2_cs_find_trel_def u2_cs_find_qual_def cs_find_2_def cs_find_3_def cs_find_4_def
  u2_mug_trel_def u2_mug_qual_def u2_mug_both_def

lemma cs_find_parts_eq:
  "u2_cs_find_cell lot sel a b = u2_cs_find lot sel (Cell a b)"
  "u2_cs_find_trel lot sel a b c = u2_cs_find lot sel (Cell a (Cell b c))"
  "u2_cs_find_qual lot sel a b c d = u2_cs_find lot sel (Cell a (Cell b (Cell c d)))"
  by (simp_all add: cs_find_parts_defs cs_find_sap_eqs cs_find_by_eq u2_cs_find_def cs_key_def)

lemma sint_ascii: "c < 128 \<Longrightarrow> sint (c :: c3_y) = uint c"
proof -
  assume "c < 128"
  then have "uint c < 2 ^ 7" by (simp add: word_less_alt)
  then have "signed_take_bit 7 (uint c) = uint c"
    by (intro signed_take_bit_int_eq_self) (simp_all add: order_trans [OF _ uint_ge_0])
  then show ?thesis by (simp add: sint_uint)
qed

lemma bytes_prefix_iff:
  assumes "atom_fits n" "length s < 2 ^ 32"
  shows "(\<forall>i < length s. u2_byte (of_nat i) n = s ! i) \<longleftrightarrow> take_bit (8 * length s) n = bytes_atom s"
proof
  have i: "unat (of_nat i :: c3_w) = i" if "i < length s" for i
    using that assms(2) by (intro unat_of_nat_c3_w) linarith
  {
    assume *: "\<forall>i < length s. u2_byte (of_nat i) n = s ! i"
    show "take_bit (8 * length s) n = bytes_atom s"
    proof (rule bit_eqI)
      fix j
      have "j < 8 * length s \<longleftrightarrow> j div 8 < length s" by (simp add: div_less_iff_less_mult mult.commute)
      moreover have "bit n j = bit (s ! (j div 8)) (j mod 8)" if "j div 8 < length s"
      proof -
        have "bit (u2_byte (of_nat (j div 8)) n) (j mod 8) = bit n j"
          using i [OF that] by (simp add: bit_u2_byte [OF assms(1)])
        then show ?thesis using * that by simp
      qed
      ultimately show "bit (take_bit (8 * length s) n) j = bit (bytes_atom s) j"
        by (auto simp: bit_take_bit_iff bit_bytes_atom)
    qed
  next
    assume *: "take_bit (8 * length s) n = bytes_atom s"
    show "\<forall>i < length s. u2_byte (of_nat i) n = s ! i"
    proof (intro allI impI bit_word_eqI)
      fix k j assume k: "k < length s" and j: "j < LENGTH(8)"
      have "8 * k + j < 8 * length s" using k j by simp
      then have "bit n (8 * k + j) = bit (bytes_atom s) (8 * k + j)" using * by (metis bit_take_bit_iff)
      then show "bit (u2_byte (of_nat k) n) j = bit (s ! k) j"
        using i [OF k] j k by (simp add: bit_u2_byte [OF assms(1)] bit_bytes_atom)
    qed
  }
qed

lemma u2_sing_c_atom:
  assumes "atom_fits n" "length s < 2 ^ 32" "\<forall>c\<in>set s. c < 128"
  shows "u2_sing_c s (Atom n) \<longleftrightarrow> take_bit (8 * length s) n = bytes_atom s"
proof -
  have len: "unat (of_nat (length s) :: c3_w) = length s" by (rule unat_of_nat_c3_w) (rule assms(2))
  have "u2_sing_c s (Atom n) \<longleftrightarrow> (\<forall>i < length s. u2_byte (of_nat i) n = s ! i)"
    using assms(3) by (simp add: u2_sing_c_def len sint_ascii word_uint_eq_iff)
  then show ?thesis using bytes_prefix_iff [OF assms(1,2)] by simp
qed

section \<open>A memo table\<close>

text \<open>
  What the clients of the table rely on: a product is stored, or the table is left as it was
  because it has no room; and a key that is present is always updated. What was stored in a series of
  saves follows from that.
\<close>

primrec save_all :: "('t \<Rightarrow> 'k \<Rightarrow> 'v \<Rightarrow> 't res) \<Rightarrow> 't \<Rightarrow> ('k \<times> 'v) list \<Rightarrow> 't res" where
  "save_all save t [] = Inr t"
| "save_all save t (e # es) = rbind (save t (fst e) (snd e)) (\<lambda>t. save_all save t es)"

locale memo_table =
  fixes ok :: "'t \<Rightarrow> bool" and find :: "'t \<Rightarrow> 'k \<Rightarrow> 'v option"
    and save :: "'t \<Rightarrow> 'k \<Rightarrow> 'v \<Rightarrow> 't res" and room :: "'k set \<Rightarrow> 'k \<Rightarrow> bool"
  assumes save: "ok t \<Longrightarrow> \<exists>t'. save t k v = Inr t' \<and> ok t' \<and>
      (find t' = (find t)(k \<mapsto> v) \<or> find t' = find t \<and> find t k = None \<and> \<not> room (dom (find t)) k)"
    and room_mono: "room B k \<Longrightarrow> A \<subseteq> B \<Longrightarrow> room A k"
begin

lemma saveE:
  assumes "ok t"
  obtains t' where "save t k v = Inr t'" "ok t'" "find t' = (find t)(k \<mapsto> v)"
  | t' where "save t k v = Inr t'" "ok t'" "find t' = find t" "find t k = None" "\<not> room (dom (find t)) k"
  using save [OF assms] by metis

lemma history_sound:
  "ok t \<Longrightarrow> \<exists>t'. save_all save t es = Inr t' \<and> ok t' \<and> find t' \<subseteq>\<^sub>m find t ++ map_of (rev es)"
proof (induction es arbitrary: t)
  case (Cons e es)
  obtain t1 where t1: "save t (fst e) (snd e) = Inr t1" "ok t1" "find t1 \<subseteq>\<^sub>m (find t)(fst e \<mapsto> snd e)"
  proof (rule saveE [OF Cons.prems, of "fst e" "snd e"])
    fix t' assume *: "save t (fst e) (snd e) = Inr t'" "ok t'" "find t' = find t" "find t (fst e) = None"
    then have "find t' \<subseteq>\<^sub>m (find t)(fst e \<mapsto> snd e)" by (auto simp: map_le_def)
    then show thesis using that * by blast
  qed (use that in simp)
  obtain t' where t': "save_all save t1 es = Inr t'" "ok t'" "find t' \<subseteq>\<^sub>m find t1 ++ map_of (rev es)"
    using Cons.IH [OF t1(2)] by blast
  have "find t1 ++ map_of (rev es) \<subseteq>\<^sub>m (find t)(fst e \<mapsto> snd e) ++ map_of (rev es)"
    using t1(3) unfolding map_le_def by (auto simp: dom_def map_add_def split: option.splits)
  then have "find t' \<subseteq>\<^sub>m find t ++ map_of (rev (e # es))"
    using map_le_trans [OF t'(3)] by (cases e) simp
  then show ?case using t1(1) t'(1,2) by simp
qed (simp add: map_le_def)

lemma history_complete:
  assumes "ok t" "\<And>k. k \<in> fst ` set es \<Longrightarrow> room (dom (find t) \<union> fst ` set es) k"
  shows "\<exists>t'. save_all save t es = Inr t' \<and> ok t' \<and> find t' = find t ++ map_of (rev es)"
  using assms
proof (induction es arbitrary: t)
  case (Cons e es)
  have "room (dom (find t)) (fst e)" by (rule room_mono [OF Cons.prems(2)]) auto
  then obtain t1 where t1: "save t (fst e) (snd e) = Inr t1" "ok t1" "find t1 = (find t)(fst e \<mapsto> snd e)"
    using saveE [OF Cons.prems(1), of "fst e" "snd e"] by metis
  have "room (dom (find t1) \<union> fst ` set es) k" if "k \<in> fst ` set es" for k
    using Cons.prems(2) [of k] that by (rule_tac room_mono) (auto simp: t1(3))
  then obtain t' where "save_all save t1 es = Inr t'" "ok t'" "find t' = find t1 ++ map_of (rev es)"
    using Cons.IH [OF t1(2)] by blast
  then show ?case using t1 by (cases e) simp
qed simp

end

abbreviation cs_save :: "u2_slot \<Rightarrow> nat \<times> noun \<Rightarrow> noun \<Rightarrow> u2_slot res" where
  "cs_save lot k pro \<equiv> u2_cs_save lot (fst k) (snd k) pro"

definition cash_room :: "(nat \<times> noun) set \<Rightarrow> nat \<times> noun \<Rightarrow> bool" where
  "cash_room K k \<longleftrightarrow> finite {k' \<in> K. k' \<noteq> k \<and> cs_key k' = cs_key k} \<and>
     card {k' \<in> K. k' \<noteq> k \<and> cs_key k' = cs_key k} < 16"

interpretation cash: memo_table cash_ok cash_map cs_save cash_room
proof
  fix lot k pro assume "cash_ok lot"
  then obtain lot' where *: "cs_save lot k pro = Inr lot'" "cash_ok lot'"
    "cash_map lot' = (cash_map lot)(k \<mapsto> pro) \<or> cash_map lot' = cash_map lot \<and> cash_map lot k = None \<and>
       16 \<le> card {k' \<in> dom (cash_map lot). cs_key k' = cs_key k}"
    using u2_cs_save_correct [of lot "fst k" "snd k" pro] by auto
  have "{k' \<in> dom (cash_map lot). k' \<noteq> k \<and> cs_key k' = cs_key k} = {k' \<in> dom (cash_map lot). cs_key k' = cs_key k}"
    if "cash_map lot k = None" using that by auto
  then have "\<not> cash_room (dom (cash_map lot)) k"
    if "cash_map lot k = None" "16 \<le> card {k' \<in> dom (cash_map lot). cs_key k' = cs_key k}"
    using that unfolding cash_room_def by simp
  with *(3) have "cash_map lot' = (cash_map lot)(k \<mapsto> pro) \<or>
      cash_map lot' = cash_map lot \<and> cash_map lot k = None \<and> \<not> cash_room (dom (cash_map lot)) k" by blast
  with *(1,2) show "\<exists>t'. cs_save lot k pro = Inr t' \<and> cash_ok t' \<and> (cash_map t' = (cash_map lot)(k \<mapsto> pro) \<or>
      cash_map t' = cash_map lot \<and> cash_map lot k = None \<and> \<not> cash_room (dom (cash_map lot)) k)"
    by (intro exI conjI)
next
  fix B k A assume *: "cash_room B k" "A \<subseteq> B"
  have "{k' \<in> A. k' \<noteq> k \<and> cs_key k' = cs_key k} \<subseteq> {k' \<in> B. k' \<noteq> k \<and> cs_key k' = cs_key k}" using *(2) by blast
  then show "cash_room A k" using *(1) unfolding cash_room_def by (metis (no_types, lifting) card_mono finite_subset order_le_less_trans)
qed

lemma cash_ok_init [simp]: "cash_ok u2_cs_init" "cash_map u2_cs_init = Map.empty"
  by (auto simp: u2_cs_init_def cash_ok_def slot_ok_simps cash_map_def u2_cs_find_def)

section \<open>The table of a rail\<close>

text \<open>
  Only a rail of kind \<open>c3__rock\<close> has a table; on others nothing is found and nothing is kept.
  \<open>u2_rl_save\<close> returns the product and the new table.
\<close>

record u2_rail =
  hip_m :: nat
  lot_r :: u2_slot

definition c3__rock :: nat where "c3__rock = 0x6b636f72"
definition c3__sand :: nat where "c3__sand = 0x646e6173"

definition u2_rl_find :: "u2_rail \<Rightarrow> nat \<Rightarrow> noun \<Rightarrow> u2_weak" where
  "u2_rl_find ral fun_m sam = (if c3__rock \<noteq> hip_m ral then None else u2_cs_find (lot_r ral) fun_m sam)"

definition u2_rl_find_cell :: "u2_rail \<Rightarrow> nat \<Rightarrow> noun \<Rightarrow> noun \<Rightarrow> u2_weak" where
  "u2_rl_find_cell ral fun_m a b =
     (if c3__rock \<noteq> hip_m ral then None else u2_cs_find_cell (lot_r ral) fun_m a b)"

definition u2_rl_find_trel :: "u2_rail \<Rightarrow> nat \<Rightarrow> noun \<Rightarrow> noun \<Rightarrow> noun \<Rightarrow> u2_weak" where
  "u2_rl_find_trel ral fun_m a b c =
     (if c3__rock \<noteq> hip_m ral then None else u2_cs_find_trel (lot_r ral) fun_m a b c)"

definition u2_rl_find_qual :: "u2_rail \<Rightarrow> nat \<Rightarrow> noun \<Rightarrow> noun \<Rightarrow> noun \<Rightarrow> noun \<Rightarrow> u2_weak" where
  "u2_rl_find_qual ral fun_m a b c d =
     (if c3__rock \<noteq> hip_m ral then None else u2_cs_find_qual (lot_r ral) fun_m a b c d)"

definition u2_rl_save :: "u2_rail \<Rightarrow> nat \<Rightarrow> noun \<Rightarrow> noun \<Rightarrow> (noun \<times> u2_rail) res" where
  "u2_rl_save ral fun_m sam pro =
     (if c3__rock \<noteq> hip_m ral then Inr (pro, ral)
      else rbind (u2_cs_save (lot_r ral) fun_m sam pro) (\<lambda>lot. Inr (pro, ral\<lparr>lot_r := lot\<rparr>)))"

definition u2_rl_uniq :: "u2_rail \<Rightarrow> noun \<Rightarrow> (noun \<times> u2_rail) res" where
  "u2_rl_uniq ral som =
     (if c3__rock \<noteq> hip_m ral then Inr (som, ral)
      else rbind (u2_cs_save (lot_r ral) 1 som som) (\<lambda>lot. Inr (som, ral\<lparr>lot_r := lot\<rparr>)))"

definition u2_rl_save_cell :: "u2_rail \<Rightarrow> nat \<Rightarrow> noun \<Rightarrow> noun \<Rightarrow> noun \<Rightarrow> (noun \<times> u2_rail) res" where
  "u2_rl_save_cell ral fun_m a b pro =
     (if c3__rock \<noteq> hip_m ral then Inr (pro, ral)
      else rbind (u2_cs_save_cell (lot_r ral) fun_m a b pro) (\<lambda>lot. Inr (pro, ral\<lparr>lot_r := lot\<rparr>)))"

definition u2_rl_save_trel :: "u2_rail \<Rightarrow> nat \<Rightarrow> noun \<Rightarrow> noun \<Rightarrow> noun \<Rightarrow> noun \<Rightarrow> (noun \<times> u2_rail) res" where
  "u2_rl_save_trel ral fun_m a b c pro =
     (if c3__rock \<noteq> hip_m ral then Inr (pro, ral)
      else rbind (u2_cs_save_trel (lot_r ral) fun_m a b c pro) (\<lambda>lot. Inr (pro, ral\<lparr>lot_r := lot\<rparr>)))"

definition u2_rl_save_qual ::
  "u2_rail \<Rightarrow> nat \<Rightarrow> noun \<Rightarrow> noun \<Rightarrow> noun \<Rightarrow> noun \<Rightarrow> noun \<Rightarrow> (noun \<times> u2_rail) res" where
  "u2_rl_save_qual ral fun_m a b c d pro =
     (if c3__rock \<noteq> hip_m ral then Inr (pro, ral)
      else rbind (u2_cs_save_qual (lot_r ral) fun_m a b c d pro) (\<lambda>lot. Inr (pro, ral\<lparr>lot_r := lot\<rparr>)))"

section \<open>Properties\<close>

lemma cash_history_lemma:
  "\<exists>lot. save_all cs_save u2_cs_init es = Inr lot \<and> cash_ok lot \<and>
     (\<forall>k. u2_cs_find lot (fst k) (snd k) \<in> {None, map_of (rev es) k}) \<and>
     ((\<forall>k. card {k' \<in> fst ` set es. cs_key k' = cs_key k} \<le> 16) \<longrightarrow>
       (\<forall>k. u2_cs_find lot (fst k) (snd k) = map_of (rev es) k))"
proof -
  obtain lot where lot: "save_all cs_save u2_cs_init es = Inr lot" "cash_ok lot" "cash_map lot \<subseteq>\<^sub>m map_of (rev es)"
    using cash.history_sound [of u2_cs_init es] by auto
  have "cash_map lot k \<in> {None, map_of (rev es) k}" for k
    using lot(3) unfolding map_le_def by (cases "k \<in> dom (cash_map lot)") auto
  moreover have "cash_map lot = map_of (rev es)"
    if "\<And>k. card {k' \<in> fst ` set es. cs_key k' = cs_key k} \<le> 16"
  proof -
    have "cash_room (fst ` set es) k" if "k \<in> fst ` set es" for k
    proof -
      have "{k' \<in> fst ` set es. k' \<noteq> k \<and> cs_key k' = cs_key k} \<subset> {k' \<in> fst ` set es. cs_key k' = cs_key k}"
        using that by auto
      from psubset_card_mono [OF _ this] show ?thesis
        using \<open>\<And>k. card {k' \<in> fst ` set es. cs_key k' = cs_key k} \<le> 16\<close> [of k] by (simp add: cash_room_def)
    qed
    then show ?thesis using cash.history_complete [of u2_cs_init es] lot(1) by auto
  qed
  ultimately show ?thesis
    using lot(1,2) by (intro exI [of _ lot] conjI impI) (simp_all add: cash_map_def [symmetric])
qed

text \<open>
  C36: a series of saves into a new table never fails, and a later lookup gives the product saved last
  for that function and sample, or none; it is never another product. None is lost as long as
  at most 16 of the saved entries share each 32-bit key.
\<close>

theorem cash_history:
  "\<exists>lot. save_all cs_save u2_cs_init es = Inr lot \<and> cash_ok lot \<and>
     (\<forall>k. u2_cs_find lot (fst k) (snd k) \<in> {None, map_of (rev es) k}) \<and>
     ((\<forall>k. card {k' \<in> fst ` set es. cs_key k' = cs_key k} \<le> 16) \<longrightarrow>
       (\<forall>k. u2_cs_find lot (fst k) (snd k) = map_of (rev es) k))"
  by (rule cash_history_lemma)

theorem cash_history_witness:
  "\<exists>lot. save_all cs_save u2_cs_init [((0, Atom 7), Atom 8), ((0, Atom 7), Atom 9)] = Inr lot \<and>
     u2_cs_find lot 0 (Atom 7) = Some (Atom 9)"
proof -
  let ?es = "[((0, Atom 7), Atom 8), ((0::nat, Atom 7), Atom 9)]"
  have "card {k' \<in> fst ` set ?es. cs_key k' = cs_key k} \<le> card {(0::nat, Atom 7)}" for k
    by (rule card_mono) auto
  then have "card {k' \<in> fst ` set ?es. cs_key k' = cs_key k} \<le> 16" for k by (rule order_trans) simp
  moreover obtain lot where lot: "save_all cs_save u2_cs_init ?es = Inr lot"
    "(\<forall>k. card {k' \<in> fst ` set ?es. cs_key k' = cs_key k} \<le> 16) \<longrightarrow>
      (\<forall>k. u2_cs_find lot (fst k) (snd k) = map_of (rev ?es) k)"
    using cash_history [of ?es] by blast
  ultimately have "\<forall>k. u2_cs_find lot (fst k) (snd k) = map_of (rev ?es) k" by blast
  from this [rule_format, of "(0, Atom 7)"] have "u2_cs_find lot 0 (Atom 7) = Some (Atom 9)" by simp
  then show ?thesis using lot(1) by blast
qed

text \<open>
  A save into a well-formed table returns a well-formed table, and at any function and sample a
  lookup then gives what an update of a map gives, or, only when the sample was not in the table and
  16 others have its key, what it gave before.
\<close>

theorem u2_cs_save_refines:
  assumes "cash_ok lot"
  shows "\<exists>lot'. u2_cs_save lot sel sam pro = Inr lot' \<and> cash_ok lot' \<and>
    (cash_map lot' = (cash_map lot)((sel, sam) \<mapsto> pro) \<or>
     cash_map lot' = cash_map lot \<and> cash_map lot (sel, sam) = None \<and>
       16 \<le> card {k \<in> dom (cash_map lot). cs_key k = cs_key (sel, sam)})"
proof -
  obtain lot' where "u2_cs_save lot sel sam pro = Inr lot'" "cash_ok lot'"
    "cash_map lot' = (cash_map lot)((sel, sam) \<mapsto> pro) \<or>
     cash_map lot' = cash_map lot \<and> cash_map lot (sel, sam) = None \<and>
       16 \<le> card {k \<in> dom (cash_map lot). cs_key k = cs_key (sel, sam)}"
    by (rule u2_cs_save_correct [OF assms])
  then show ?thesis by (intro exI [of _ lot'] conjI)
qed

theorem u2_cs_save_refines_witness:
  "\<exists>lot'. u2_cs_save (Slot_a 3 (Atom 1) (Atom 2)) 3 (Atom 1) (Atom 5) = Inr lot' \<and> cash_ok lot' \<and>
    cash_map lot' (3, Atom 1) = Some (Atom 5)"
proof -
  have "cash_ok (Slot_a 3 (Atom 1) (Atom 2))" by (simp add: cash_ok_def slot_ok_simps cs_sif_simps)
  moreover have "cash_map (Slot_a 3 (Atom 1) (Atom 2)) (3, Atom 1) = Some (Atom 2)"
    by (simp add: cash_map_def u2_cs_find_def)
  ultimately show ?thesis using u2_cs_save_refines [of "Slot_a 3 (Atom 1) (Atom 2)" 3 "Atom 1" "Atom 5"]
    by (metis fun_upd_same option.distinct(1))
qed

text \<open>
  Looking a cell, a triple or a quadruple up by its parts gives what looking the noun up gives, in
  any table.
\<close>

theorem u2_cs_find_parts:
  "u2_cs_find_cell lot sel a b = u2_cs_find lot sel (Cell a b) \<and>
   u2_cs_find_trel lot sel a b c = u2_cs_find lot sel (Cell a (Cell b c)) \<and>
   u2_cs_find_qual lot sel a b c d = u2_cs_find lot sel (Cell a (Cell b (Cell c d)))"
  by (simp add: cs_find_parts_eq)

text \<open>
  \<open>u2_sing_c\<close> does not tell whether an atom is a given ASCII string, as its comment says, but
  whether the string is a prefix of the atom.
\<close>

theorem u2_sing_c_prefix:
  assumes "atom_fits n" "length s < 2 ^ 32" "\<forall>c\<in>set s. c < 128"
  shows "u2_sing_c s (Atom n) \<longleftrightarrow> (\<exists>m. n = bytes_atom s + 2 ^ (8 * length s) * m)"
proof -
  have "take_bit (8 * length s) n = bytes_atom s \<longleftrightarrow> (\<exists>m. n = bytes_atom s + 2 ^ (8 * length s) * m)"
    using bytes_atom_less [of s] by (auto simp: take_bit_eq_mod) (metis add.commute mult_div_mod_eq)
  then show ?thesis using u2_sing_c_atom [OF assms] by simp
qed

theorem u2_sing_c_prefix_witness:
  "u2_sing_c [97, 98] (Atom 0x636261)"
proof -
  have "\<exists>m. 0x636261 = bytes_atom [97, 98] + 2 ^ (8 * length [97 :: c3_y, 98]) * m"
    by (rule exI [of _ "0x63"]) simp
  then show ?thesis
    using u2_sing_c_prefix [of "0x636261" "[97, 98]"] cat_fits [of "0x636261"] by (simp add: u2_fly_is_cat_def)
qed

text \<open>
  so a product saved for a cell whose head is the atom \<^verbatim>\<open>abc\<close> is returned when the cell with the
  C string \<^verbatim>\<open>ab\<close> and the same tail is looked up, which was never saved.
\<close>

theorem u2_cs_find_mixt_prefix:
  "\<exists>lot. u2_cs_save u2_cs_init sel (Cell (Atom 0x636261) b) pro = Inr lot \<and>
     u2_cs_find lot sel (Cell (Atom (bytes_atom [97, 98])) b) = None \<and>
     u2_cs_find_mixt lot sel [97, 98] b = Some pro"
proof -
  have "u2_sing_c [97, 98] (Atom 0x636261)"
    using u2_sing_c_atom [of "0x636261" "[97, 98]"] cat_fits [of "0x636261"]
    by (simp add: u2_fly_is_cat_def take_bit_eq_mod)
  moreover have "cs_save_in (Suc n) Slot_c key k pro = Inr (True, cs_save_c k pro)" for n key k pro by simp
  from this [of 7] have "cs_save_in 8 Slot_c key k pro = Inr (True, cs_save_c k pro)" for key k by simp
  ultimately show ?thesis
    by (simp add: u2_cs_save_def u2_cs_init_def cs_save_c_def u2_cs_find_mixt_def cs_find_2m_def u2_cs_find_def)
qed

end
