(* ===== verification/Dash.thy ===== *)
theory Dash
  imports Cash Loom
begin

text \<open>
  The dashboard of cores, \<^verbatim>\<open>f/dash.c\<close>. A chip \<open>[dac bat pet]\<close> describes a core the program has declared
  with a hint: its disc \<open>dac\<close> (name and hooks), its battery, and, unless it has no parent, the axis of the
  parent core in it and the parent's chip. The table \<open>des\<close> maps a battery to the list of the chips with
  that battery. Chips are nouns, as in the code; reading a part that is not there is \<open>Wild\<close>.
\<close>

section \<open>Finding a chip\<close>

fun ds_mate :: "noun \<Rightarrow> noun \<Rightarrow> bool res" where
  "ds_mate (Cell dac (Cell bat (Atom pet))) cor =
     (if pet = 0 then rbind (u2_h cor) (\<lambda>h. Inr (bat = h)) else Inl Wild)"
| "ds_mate (Cell dac (Cell bat (Cell axe led))) cor =
     rbind (u2_frag axe cor) (\<lambda>ruc.
       case ruc of
         None \<Rightarrow> Inr False
       | Some ruc \<Rightarrow>
           rbind (ds_mate led ruc) (\<lambda>y.
             if \<not> y then Inr False else rbind (u2_h cor) (\<lambda>h. Inr (bat = h))))"
| "ds_mate _ cor = Inl Wild"

primrec ds_scan :: "noun \<Rightarrow> noun \<Rightarrow> u2_weak res" where
  "ds_scan (Atom a) cor = (if a = 0 then Inr None else Inl Wild)"
| "ds_scan (Cell i_pug t_pug) cor =
     rbind (ds_mate i_pug cor) (\<lambda>y. if y then Inr (Some i_pug) else ds_scan t_pug cor)"

definition u2_ds_find :: "u2_slot \<Rightarrow> noun \<Rightarrow> u2_weak res" where
  "u2_ds_find des cor =
     (case cor of
        Atom _ \<Rightarrow> Inr None
      | Cell bat _ \<Rightarrow> (case u2_cs_find des 0 bat of None \<Rightarrow> Inr None | Some pug \<Rightarrow> ds_scan pug cor))"

section \<open>Making a chip\<close>

primrec ds_cop_loop :: "nat \<Rightarrow> noun \<Rightarrow> bool" where
  "ds_cop_loop 0 cop = False"
| "ds_cop_loop (Suc n) cop =
     (case cop of
        Atom _ \<Rightarrow> True
      | Cell h t \<Rightarrow> if \<not> u2_stud h then False else ds_cop_loop n t)"

definition ds_good_cop :: "noun \<Rightarrow> bool" where
  "ds_good_cop cop = ds_cop_loop 4 cop"

fun ds_good_bud :: "noun \<Rightarrow> bool" where
  "ds_good_bud (Atom a) = (a = 0)"
| "ds_good_bud (Cell p (Atom q)) = (p = Atom 1 \<and> q = 0 \<or> p = Atom 0)"
| "ds_good_bud (Cell p (Cell q r)) = (p = Atom 10 \<and> ds_good_bud r)"

fun ds_good_pic :: "noun \<Rightarrow> bool" where
  "ds_good_pic (Atom a) = (a = 0)"
| "ds_good_pic (Cell (Cell p q) t) = u2_stud p"
| "ds_good_pic (Cell (Atom _) t) = False"

text \<open>The formula of the parent, without the hints around it.\<close>

fun ds_bud :: "noun \<Rightarrow> noun res" where
  "ds_bud (Atom _) = Inl Wild"
| "ds_bud (Cell p q) =
     (if p = Atom 10 then case q of Atom _ \<Rightarrow> Inl Wild | Cell _ r \<Rightarrow> ds_bud r
      else Inr (Cell p q))"

definition ds_pet :: "u2_slot \<Rightarrow> noun \<Rightarrow> noun \<Rightarrow> u2_weak res" where
  "ds_pet des bud_clu cor =
     (if bud_clu = Atom 0 then Inr (Some u2_nul)
      else rbind (ds_bud bud_clu) (\<lambda>bud.
           rbind (u2_h bud) (\<lambda>h.
             if h = Atom 1 then Inr (Some u2_nul)
             else rbind (u2_t bud) (\<lambda>axe.
                  rbind (u2_frag axe cor) (\<lambda>ruc.
                    case ruc of
                      None \<Rightarrow> Inr None
                    | Some ruc \<Rightarrow>
                        rbind (u2_ds_find des ruc) (\<lambda>led.
                          case led of
                            None \<Rightarrow> Inl Abort
                          | Some led \<Rightarrow> Inr (Some (Cell axe led))))))))"

definition ds_chip :: "u2_slot \<Rightarrow> noun \<Rightarrow> noun \<Rightarrow> u2_weak res" where
  "ds_chip des clu cor =
     (case u2_as_trel clu of
        None \<Rightarrow> Inr None
      | Some (bud_clu, cop_clu, pic_clu) \<Rightarrow>
          if \<not> ds_good_bud bud_clu \<or> \<not> ds_good_cop cop_clu \<or> \<not> ds_good_pic pic_clu then Inr None
          else rbind (u2_t clu) (\<lambda>dac.
               rbind (u2_h cor) (\<lambda>bat.
               rbind (ds_pet des bud_clu cor) (\<lambda>pet.
                 case pet of
                   None \<Rightarrow> Inr None
                 | Some pet \<Rightarrow> Inr (Some (Cell dac (Cell bat pet)))))))"

definition u2_ds_wipe :: "u2_slot \<Rightarrow> u2_slot" where
  "u2_ds_wipe des = u2_cs_init"

text \<open>
  The product is the core itself, or, when the battery of the chip is another copy of the core's
  battery, the core on that copy. The code checks the new entry with a search whose result it drops; the
  search has to return, though.
\<close>

definition u2_ds_mine :: "u2_slot \<Rightarrow> noun \<Rightarrow> noun \<Rightarrow> (noun \<times> u2_slot) res" where
  "u2_ds_mine des clu cor =
     (case cor of
        Atom _ \<Rightarrow> Inr (cor, des)
      | Cell bat pay \<Rightarrow>
          let pug = (case u2_cs_find des 0 bat of None \<Rightarrow> u2_nul | Some pug \<Rightarrow> pug)
          in rbind (ds_scan pug cor) (\<lambda>xip.
               case xip of
                 Some xip \<Rightarrow>
                   rbind (u2_t xip) (\<lambda>x. rbind (u2_h x) (\<lambda>bat_xip.
                     Inr (if bat_xip \<noteq> bat then Cell bat_xip pay else cor, des)))
               | None \<Rightarrow>
                   rbind (ds_chip des clu cor) (\<lambda>xip.
                     case xip of
                       None \<Rightarrow> Inr (cor, des)
                     | Some xip \<Rightarrow>
                         rbind (u2_t xip) (\<lambda>x. rbind (u2_h x) (\<lambda>bat_xip.
                         rbind (u2_cs_save des 0 bat_xip (Cell xip pug)) (\<lambda>des.
                         rbind (case u2_cs_find des 0 bat_xip of
                                  None \<Rightarrow> Inl Wild
                                | Some poo \<Rightarrow> ds_scan poo cor) (\<lambda>_.
                           Inr (if bat_xip \<noteq> bat then Cell bat_xip pay else cor, des)))))))) "

section \<open>Hooks\<close>

primrec ds_leap_loop :: "noun \<Rightarrow> c3_y list \<Rightarrow> u2_weak res" where
  "ds_leap_loop (Atom a) tam_c = (if a = 0 then Inr None else Inl Wild)"
| "ds_leap_loop (Cell i_pic t_pic) tam_c =
     rbind (u2_h i_pic) (\<lambda>h.
       if u2_sing_c tam_c h then rbind (u2_t i_pic) (\<lambda>fol. Inr (Some fol))
       else ds_leap_loop t_pic tam_c)"

definition ds_leap :: "noun \<Rightarrow> c3_y list \<Rightarrow> u2_weak res" where
  "ds_leap xip tam_c =
     rbind (u2_h xip) (\<lambda>dac. rbind (u2_t dac) (\<lambda>pic. ds_leap_loop pic tam_c))"

fun ds_look_loop :: "noun \<Rightarrow> c3_y list \<Rightarrow> c3_w \<Rightarrow> u2_weak res" where
  "ds_look_loop (Cell dac (Cell bat (Atom pet))) tam_c axe_l =
     rbind (ds_leap (Cell dac (Cell bat (Atom pet))) tam_c) (\<lambda>fol.
       case fol of
         None \<Rightarrow> if pet = 0 then Inr None else Inl Wild
       | Some fol \<Rightarrow> Inr (Some (if axe_l \<noteq> 1 then Cell (Atom 7) (Cell (Cell (Atom 0) (Atom (unat axe_l))) fol) else fol)))"
| "ds_look_loop (Cell dac (Cell bat (Cell pax led))) tam_c axe_l =
     rbind (ds_leap (Cell dac (Cell bat (Cell pax led))) tam_c) (\<lambda>fol.
       case fol of
         None \<Rightarrow>
           (case pax of
              Cell _ _ \<Rightarrow> Inl Abort
            | Atom n \<Rightarrow>
                if \<not> u2_fly_is_cat n then Inl Abort
                else if u2_ax_dep axe_l + u2_ax_dep (of_nat n) > 30 then Inl Abort
                else ds_look_loop led tam_c (u2_ax_peg axe_l (of_nat n)))
       | Some fol \<Rightarrow> Inr (Some (if axe_l \<noteq> 1 then Cell (Atom 7) (Cell (Cell (Atom 0) (Atom (unat axe_l))) fol) else fol)))"
| "ds_look_loop _ tam_c axe_l = Inl Wild"

definition u2_ds_look :: "u2_slot \<Rightarrow> noun \<Rightarrow> c3_y list \<Rightarrow> u2_weak res" where
  "u2_ds_look des cor tam_c =
     rbind (u2_ds_find des cor) (\<lambda>xip. case xip of None \<Rightarrow> Inr None | Some xip \<Rightarrow> ds_look_loop xip tam_c 1)"

section \<open>What a chip says of a core\<close>

fun mates :: "noun \<Rightarrow> noun \<Rightarrow> bool" where
  "mates (Cell dac (Cell bat (Atom pet))) (Cell h t) = (bat = h)"
| "mates (Cell dac (Cell bat (Cell (Atom axe) led))) (Cell h t) =
     (bat = h \<and> (case slot axe (Cell h t) of None \<Rightarrow> False | Some ruc \<Rightarrow> mates led ruc))"
| "mates _ _ = False"

lemma u2_frag_eq_Inr: "u2_frag axe b = Inr (Some c) \<Longrightarrow> \<exists>a. axe = Atom a \<and> slot a b = Some c"
proof (cases axe)
  case (Atom a)
  then show "u2_frag axe b = Inr (Some c) \<Longrightarrow> ?thesis" by (auto simp: u2_frag_slot split: if_splits)
qed (simp add: u2_frag_def)

lemma u2_frag_eq_None: "u2_frag axe b = Inr None \<Longrightarrow> (\<exists>l r. axe = Cell l r) \<or> (\<exists>a. axe = Atom a \<and> slot a b = None)"
  by (cases axe) (auto simp: u2_frag_slot split: if_splits)

lemma u2_h_eq_Inr [simp]: "u2_h n = Inr h \<longleftrightarrow> (\<exists>t. n = Cell h t)"
  by (cases n) simp_all

lemma u2_t_eq_Inr [simp]: "u2_t n = Inr t \<longleftrightarrow> (\<exists>h. n = Cell h t)"
  by (cases n) simp_all

lemma ds_mate_mates: "ds_mate xip cor = Inr y \<Longrightarrow> y = mates xip cor"
proof (induction xip cor arbitrary: y rule: ds_mate.induct)
  case (1 dac bat pet cor)
  then show ?case by (cases cor) (auto split: if_splits)
next
  case (2 dac bat axe led cor)
  then obtain ruc where ruc: "u2_frag axe cor = Inr ruc" by (auto simp: rbind_eq_Inr)
  show ?case
  proof (cases ruc)
    case None
    then have "\<not> y" using 2 ruc by simp
    moreover have "\<not> mates (Cell dac (Cell bat (Cell axe led))) cor"
      using u2_frag_eq_None [OF ruc [unfolded None]] by (cases cor) auto
    ultimately show ?thesis by simp
  next
    case (Some c)
    then obtain a where a: "axe = Atom a" "slot a cor = Some c" using u2_frag_eq_Inr ruc by blast
    obtain z where z: "ds_mate led c = Inr z" using 2 ruc Some by (auto simp: rbind_eq_Inr)
    then have "z = mates led c" using 2(1) [OF ruc Some] by blast
    then show ?thesis using 2(2) ruc Some z a by (cases cor) (auto simp: rbind_eq_Inr split: if_splits)
  qed
qed simp_all

lemma ds_scan_mates: "ds_scan pug cor = Inr (Some xip) \<Longrightarrow> ds_mate xip cor = Inr True"
  by (induction pug) (auto simp: rbind_eq_Inr split: if_splits)

lemma u2_ds_find_mates:
  assumes "u2_ds_find des cor = Inr (Some xip)"
  shows "ds_mate xip cor = Inr True" "mates xip cor"
proof -
  show "ds_mate xip cor = Inr True"
    using assms ds_scan_mates by (auto simp: u2_ds_find_def split: noun.splits option.splits)
  then show "mates xip cor" using ds_mate_mates by blast
qed

lemma ds_mate_battery:
  "ds_mate xip (Cell bat pay) = Inr True \<Longrightarrow> \<exists>dac pet. xip = Cell dac (Cell bat pet)"
  by (induction xip "Cell bat pay" rule: ds_mate.induct)
    (auto simp: rbind_eq_Inr split: if_splits option.splits)

lemma ds_chip_shape:
  assumes "ds_chip des clu (Cell bat pay) = Inr (Some xip)"
  shows "\<exists>dac pet. xip = Cell dac (Cell bat pet) \<and> u2_t clu = Inr dac \<and> ds_mate xip (Cell bat pay) = Inr True"
proof -
  obtain bud cop pic where clu: "u2_as_trel clu = Some (bud, cop, pic)"
    using assms by (cases "u2_as_trel clu") (auto simp: ds_chip_def)
  obtain dac pet where r: "u2_t clu = Inr dac" "ds_pet des bud (Cell bat pay) = Inr (Some pet)" "xip = Cell dac (Cell bat pet)"
    using assms clu by (auto simp: ds_chip_def rbind_eq_Inr split: if_splits option.splits)
  have "pet = u2_nul \<or> (\<exists>axe led ruc. pet = Cell axe led \<and> u2_frag axe (Cell bat pay) = Inr (Some ruc) \<and>
      u2_ds_find des ruc = Inr (Some led))"
    using r(2) by (auto simp: ds_pet_def rbind_eq_Inr split: if_splits option.splits)
  then have "ds_mate xip (Cell bat pay) = Inr True"
    using u2_ds_find_mates(1) by (auto simp: r(3))
  then show ?thesis using r by blast
qed

text \<open>The invariant of the table: the chips listed under a battery carry it, and the lists end.\<close>

fun chips_of :: "noun \<Rightarrow> noun \<Rightarrow> bool" where
  "chips_of bat (Atom a) = (a = 0)"
| "chips_of bat (Cell (Cell dac (Cell b pet)) t) = (b = bat \<and> chips_of bat t)"
| "chips_of bat (Cell _ t) = False"

definition des_ok :: "u2_slot \<Rightarrow> bool" where
  "des_ok des \<longleftrightarrow> cash_ok des \<and> (\<forall>bat pug. u2_cs_find des 0 bat = Some pug \<longrightarrow> chips_of bat pug)"

lemma cs_save_find:
  assumes "cash_ok des" "u2_cs_save des sel sam pro = Inr des'"
  shows "cash_ok des'" "u2_cs_find des' sel' sam' = Some v \<Longrightarrow>
    (if (sel', sam') = (sel, sam) then v = pro else u2_cs_find des sel' sam' = Some v)"
proof -
  obtain lot' where *: "u2_cs_save des sel sam pro = Inr lot'" "cash_ok lot'"
    "cash_map lot' = (cash_map des)((sel, sam) \<mapsto> pro) \<or>
     cash_map lot' = cash_map des \<and> cash_map des (sel, sam) = None \<and>
       16 \<le> card {k \<in> dom (cash_map des). cs_key k = cs_key (sel, sam)}"
    by (rule u2_cs_save_correct [OF assms(1)])
  then have "lot' = des'" using assms(2) by simp
  then show "cash_ok des'" using * by simp
  assume "u2_cs_find des' sel' sam' = Some v"
  then have "cash_map des' (sel', sam') = Some v" by (simp add: cash_map_def)
  moreover have "cash_map des' = (cash_map des)((sel, sam) \<mapsto> pro) \<or> cash_map des' = cash_map des \<and> cash_map des (sel, sam) = None"
    using *(3) \<open>lot' = des'\<close> by blast
  ultimately have "if (sel', sam') = (sel, sam) then v = pro else cash_map des (sel', sam') = Some v"
    by (auto split: if_splits)
  then show "if (sel', sam') = (sel, sam) then v = pro else u2_cs_find des sel' sam' = Some v"
    by (auto simp: cash_map_def split: if_splits)
qed

lemma u2_ds_mine_cases:
  assumes "u2_ds_mine des clu (Cell bat pay) = Inr (cor', des')"
  obtains "cor' = Cell bat pay" "des' = des"
  | dac pet pug where "cor' = Cell bat pay" "u2_t clu = Inr dac"
      "pug = (case u2_cs_find des 0 bat of None \<Rightarrow> u2_nul | Some pug \<Rightarrow> pug)"
      "u2_cs_save des 0 bat (Cell (Cell dac (Cell bat pet)) pug) = Inr des'"
      "u2_cs_find des' 0 bat \<noteq> None" "ds_mate (Cell dac (Cell bat pet)) (Cell bat pay) = Inr True"
proof -
  define pug where "pug = (case u2_cs_find des 0 bat of None \<Rightarrow> u2_nul | Some pug \<Rightarrow> pug)"
  obtain xip where scan: "ds_scan pug (Cell bat pay) = Inr xip"
    using assms by (auto simp: u2_ds_mine_def pug_def [symmetric] rbind_eq_Inr)
  show thesis
  proof (cases xip)
    case (Some x)
    then obtain dac pet where "x = Cell dac (Cell bat pet)"
      using ds_mate_battery [OF ds_scan_mates] scan by blast
    then show thesis using that(1) assms scan Some by (simp add: u2_ds_mine_def pug_def [symmetric])
  next
    case None
    then obtain x where x: "ds_chip des clu (Cell bat pay) = Inr x"
      using assms scan by (auto simp: u2_ds_mine_def pug_def [symmetric] rbind_eq_Inr)
    show thesis
    proof (cases x)
      case None
      then show thesis using that(1) assms scan \<open>xip = None\<close> x by (simp add: u2_ds_mine_def pug_def [symmetric])
    next
      case (Some chip)
      then obtain dac pet where chip: "chip = Cell dac (Cell bat pet)" "u2_t clu = Inr dac" "ds_mate chip (Cell bat pay) = Inr True"
        using ds_chip_shape x by blast
      show thesis
        by (rule that(2) [OF _ chip(2) pug_def, of pet])
          (use assms scan \<open>xip = None\<close> x Some chip in
            \<open>auto simp: u2_ds_mine_def pug_def [symmetric] rbind_eq_Inr split: option.splits\<close>)
    qed
  qed
qed

lemma u2_ds_mine_correct:
  assumes "u2_ds_mine des clu cor = Inr (cor', des')"
  shows "cor' = cor" "des_ok des \<Longrightarrow> des_ok des'"
proof -
  have "cor' = cor \<and> (des_ok des \<longrightarrow> des_ok des')"
  proof (cases cor)
    case (Atom a)
    then show ?thesis using assms by (simp add: u2_ds_mine_def)
  next
    case (Cell bat pay)
    from assms [unfolded Cell] show ?thesis
    proof (cases rule: u2_ds_mine_cases)
      case 1
      then show ?thesis using Cell by simp
    next
      case (2 dac pet pug)
      have "des_ok des'" if ok: "des_ok des"
      proof -
        note save = cs_save_find [OF _ 2(4)]
        have cash: "cash_ok des" using ok by (simp add: des_ok_def)
        have pug: "chips_of bat pug" using ok 2(3) by (auto simp: des_ok_def split: option.splits)
        have "chips_of b q" if "u2_cs_find des' 0 b = Some q" for b q
          using save(2) [OF cash that] ok pug by (auto simp: des_ok_def split: if_splits)
        then show "des_ok des'" using save(1) [OF cash] by (simp add: des_ok_def)
      qed
      then show ?thesis using 2(1) Cell by blast
    qed
  qed
  then show "cor' = cor" "des_ok des \<Longrightarrow> des_ok des'" by blast+
qed

text \<open>Registering a core that has no chip yet, and leaving alone one that has.\<close>

lemma ds_find_scan:
  "u2_ds_find des (Cell bat pay) = ds_scan (case u2_cs_find des 0 bat of None \<Rightarrow> u2_nul | Some pug \<Rightarrow> pug) (Cell bat pay)"
  by (simp add: u2_ds_find_def split: option.split)

lemma ds_mine_known:
  assumes "u2_ds_find des (Cell bat pay) = Inr (Some xip)"
  shows "u2_ds_mine des clu (Cell bat pay) = Inr (Cell bat pay, des)"
proof -
  obtain dac pet where "xip = Cell dac (Cell bat pet)"
    using ds_mate_battery [OF u2_ds_find_mates(1) [OF assms]] by blast
  then show ?thesis using assms by (simp add: u2_ds_mine_def ds_find_scan)
qed

lemma ds_mine_new:
  assumes "des_ok des" "u2_ds_find des (Cell bat pay) = Inr None" "ds_chip des clu (Cell bat pay) = Inr (Some xip)"
    "card {k \<in> dom (cash_map des). cs_key k = cs_key (0, bat)} < 16"
  obtains des' where "u2_ds_mine des clu (Cell bat pay) = Inr (Cell bat pay, des')"
    "u2_ds_find des' (Cell bat pay) = Inr (Some xip)"
    "\<And>b. b \<noteq> bat \<Longrightarrow> u2_cs_find des' 0 b = u2_cs_find des 0 b"
proof -
  define pug where "pug = (case u2_cs_find des 0 bat of None \<Rightarrow> u2_nul | Some pug \<Rightarrow> pug)"
  obtain dac pet where xip: "xip = Cell dac (Cell bat pet)" "ds_mate xip (Cell bat pay) = Inr True"
    using ds_chip_shape [OF assms(3)] by blast
  have cash: "cash_ok des" using assms(1) by (simp add: des_ok_def)
  obtain des' where save: "u2_cs_save des 0 bat (Cell xip pug) = Inr des'"
    "cash_map des' = (cash_map des)((0, bat) \<mapsto> Cell xip pug)"
    by (rule u2_cs_save_correct [OF cash, of 0 bat "Cell xip pug"]) (use assms(4) that in auto)
  have find: "u2_cs_find des' 0 b = (if b = bat then Some (Cell xip pug) else u2_cs_find des 0 b)" for b
    using fun_cong [OF save(2), of "(0, b)"] by (simp add: cash_map_def split: if_splits)
  have "u2_ds_find des' (Cell bat pay) = Inr (Some xip)" using find [of bat] xip(2) by (simp add: u2_ds_find_def)
  moreover have "u2_ds_mine des clu (Cell bat pay) = Inr (Cell bat pay, des')"
    using assms(2,3) save(1) find [of bat] xip
    by (simp add: u2_ds_mine_def ds_find_scan pug_def [symmetric])
  ultimately show thesis using that find by simp
qed

lemma des_ok_init [simp]: "des_ok u2_cs_init"
  using cash_ok_init(1) by (auto simp: des_ok_def u2_cs_init_def u2_cs_find_def)

section \<open>Hooks\<close>

text \<open>
  The formula of a hook is looked for in the chip of a core, then in the chips of its parents. Under
  the asserted bound on the depth of the axis, the word arithmetic of \<^verbatim>\<open>u2_ax_peg\<close> composes axes.
\<close>

lemma unat_ax_peg:
  assumes "a \<noteq> 0" "b \<noteq> 0" "u2_ax_dep a + u2_ax_dep b \<le> 30"
  shows "unat (u2_ax_peg a b) = ax_peg (unat a) (unat b)"
proof (rule bit_eqI)
  fix i
  define k where "k = nbits (unat b) - 1"
  have nb: "nbits (unat b) = Suc k" "nbits (unat a) + k \<le> 31"
    using assms nbits_pos [of "unat a"] nbits_pos [of "unat b"]
    by (simp_all add: k_def u2_ax_dep_def unat_gt_0)
  have low: "\<not> bit x j" if "nbits (unat x) \<le> j" for x :: c3_w and j
  proof -
    have "unat x < 2 ^ j" using that nbits_le_iff by blast
    then have "\<not> bit (unat x) j" by (simp add: bit_iff_odd)
    then show ?thesis by (auto simp: bit_unsigned_iff dest: bit_imp_le_length)
  qed
  have "ax_peg (unat a) (unat b) = take_bit k (unat b) + 2 ^ k * unat a"
    by (simp add: ax_peg_def nb take_bit_eq_mod mult.commute)
  then have "bit (ax_peg (unat a) (unat b)) i = (if i < k then bit (unat b) i else bit (unat a) (i - k))"
    by (simp add: bit_add_disjoint [OF take_bit_nat_less_exp] bit_take_bit_iff)
  also have "\<dots> = (if i < k then bit b i else bit a (i - k))"
    by (auto simp: bit_unsigned_iff dest: bit_imp_le_length)
  also have "\<dots> \<longleftrightarrow> bit (u2_ax_peg a b) i"
    using low [of b i] low [of a "i - k"] nb
    by (cases "i < k"; cases "i = k"; cases "i < 32") (auto simp: u2_ax_peg_def u2_ax_dep_def bit_simps k_def [symmetric] dest: bit_imp_le_length)
  finally show "bit (unat (u2_ax_peg a b)) i = bit (ax_peg (unat a) (unat b)) i"
    by (auto simp: bit_unsigned_iff dest: bit_imp_le_length)
qed

lemma ds_look_loop_sound:
  assumes "ds_look_loop xip tam axe = Inr (Some f)" "mates xip c" "axe \<noteq> 0" "slot (unat axe) cor = Some c"
  shows "\<exists>a c' xip' fol. slot a cor = Some c' \<and> mates xip' c' \<and> ds_leap xip' tam = Inr (Some fol) \<and>
    f = (if a = 1 then fol else Cell (Atom 7) (Cell (Cell (Atom 0) (Atom a)) fol))"
  using assms
proof (induction xip tam axe arbitrary: c rule: ds_look_loop.induct)
  case (1 dac bat pet tam axe)
  let ?xip = "Cell dac (Cell bat (Atom pet))"
  obtain fol where "ds_leap ?xip tam = Inr (Some fol)"
      "f = (if axe = 1 then fol else Cell (Atom 7) (Cell (Cell (Atom 0) (Atom (unat axe))) fol))"
    using 1 by (auto simp: rbind_eq_Inr split: option.splits if_splits)
  then show ?case using 1(2,4) by (intro exI [of _ "unat axe"] exI [of _ c] exI [of _ ?xip] exI [of _ fol]) (simp add: word_unat_eq_iff)
next
  case (2 dac bat pax led tam axe)
  let ?xip = "Cell dac (Cell bat (Cell pax led))"
  obtain fo where fo: "ds_leap ?xip tam = Inr fo" using 2(2) by (auto simp: rbind_eq_Inr)
  show ?case
  proof (cases fo)
    case (Some fol)
    then have "f = (if axe = 1 then fol else Cell (Atom 7) (Cell (Cell (Atom 0) (Atom (unat axe))) fol))"
      using 2(2) fo by (auto split: if_splits)
    then show ?thesis using 2(3,5) fo Some
      by (intro exI [of _ "unat axe"] exI [of _ c] exI [of _ ?xip] exI [of _ fol]) (simp add: word_unat_eq_iff)
  next
    case None
    then obtain n where n: "pax = Atom n" "u2_fly_is_cat n" "u2_ax_dep axe + u2_ax_dep (of_nat n) \<le> 30"
        "ds_look_loop led tam (u2_ax_peg axe (of_nat n)) = Inr (Some f)"
      using 2(2) fo by (auto split: noun.splits if_splits)
    obtain ruc where ruc: "slot n c = Some ruc" "mates led ruc"
      using 2(3) n(1) by (cases c) (auto split: option.splits)
    then have "n \<noteq> 0" by (cases "n = 0") auto
    have un: "unat (of_nat n :: c3_w) = n" using n(2) by (intro unat_of_nat_c3_w) (simp add: u2_fly_is_cat_def)
    then have n0: "(of_nat n :: c3_w) \<noteq> 0" using \<open>n \<noteq> 0\<close> by auto
    note peg = unat_ax_peg [OF 2(4) n0 n(3), unfolded un]
    have pos: "0 < unat axe" using 2(4) by (simp add: unat_gt_0)
    have "slot (unat (u2_ax_peg axe (of_nat n))) cor = Some ruc"
      unfolding peg using slot_peg [OF pos, of n cor] \<open>n \<noteq> 0\<close> 2(5) ruc(1) by simp
    moreover have "u2_ax_peg axe (of_nat n) \<noteq> 0" using calculation by (metis slot_0 option.distinct(1) unsigned_0)
    ultimately show ?thesis using 2(1) [OF fo None n(1) _ _ n(4) ruc(2)] n(2,3) by auto
  qed
qed simp_all

lemma ds_good_cop_atom [simp]: "ds_good_cop (Atom a)"
proof -
  have "ds_cop_loop (Suc n) (Atom a)" for n by simp
  from this [of 3] show ?thesis by (simp add: ds_good_cop_def)
qed

section \<open>Properties\<close>



text \<open>
  When a chip is found for a core, the chip's battery is the core's and the same holds of the
  parent at the chip's axis, all the way up; and the formula of a hook found for the core is the hook of
  one of these chips, applied to the ancestor it belongs to.
\<close>

theorem u2_ds_look_sound:
  assumes "u2_ds_look des cor tam = Inr (Some f)"
  shows "\<exists>a c xip fol. slot a cor = Some c \<and> mates xip c \<and> ds_leap xip tam = Inr (Some fol) \<and>
    f = (if a = 1 then fol else Cell (Atom 7) (Cell (Cell (Atom 0) (Atom a)) fol))"
proof -
  obtain xip where xip: "u2_ds_find des cor = Inr (Some xip)" "ds_look_loop xip tam 1 = Inr (Some f)"
    using assms by (auto simp: u2_ds_look_def rbind_eq_Inr split: option.splits)
  show ?thesis using ds_look_loop_sound [OF xip(2) u2_ds_find_mates(2) [OF xip(1)]] by simp
qed

theorem u2_ds_look_sound_witness:
  "\<exists>a c xip fol. slot a (Cell (Atom 5) (Atom 6)) = Some c \<and> mates xip c \<and> ds_leap xip [] = Inr (Some fol) \<and>
    Atom 9 = (if a = 1 then fol else Cell (Atom 7) (Cell (Cell (Atom 0) (Atom a)) fol))"
proof (rule u2_ds_look_sound)
  let ?xip = "Cell (Cell (Atom 7) (Cell (Cell (Atom 0) (Atom 9)) (Atom 0))) (Cell (Atom 5) (Atom 0))"
  show "u2_ds_look (Slot_a 0 (Atom 5) (Cell ?xip (Atom 0))) (Cell (Atom 5) (Atom 6)) [] = Inr (Some (Atom 9))"
    by (simp add: u2_ds_look_def u2_ds_find_def u2_cs_find_def ds_leap_def u2_sing_c_def)
qed

text \<open>
  Two ways a program can stop the interpreter with a hint. Registering a core whose clue names a
  parent that is not on the dashboard fails an assertion; and once a core is registered with its parent
  at axis 3, looking up a core with the same battery and an atom in place of the parent reads the atom as a
  cell.
\<close>

theorem u2_ds_unchecked:
  "u2_ds_mine u2_cs_init (Cell (Cell (Atom 0) (Atom 3)) (Cell (Atom 7) (Atom 0))) (Cell (Atom 5) (Cell (Atom 6) (Atom 0))) =
     Inl Abort \<and>
   u2_ds_find (Slot_a 0 (Atom 5) (Cell (Cell (Cell (Atom 7) (Atom 0)) (Cell (Atom 5)
     (Cell (Atom 3) (Cell (Cell (Atom 8) (Atom 0)) (Cell (Atom 6) (Atom 0)))))) (Atom 0))) (Cell (Atom 5) (Atom 1)) = Inl Wild"
proof
  have 3: "u2_frag (Atom 3) (Cell h t) = Inr (Some t)" for h t
    by (simp add: u2_frag_slot slot.simps [of 3])
  show "u2_ds_mine u2_cs_init (Cell (Cell (Atom 0) (Atom 3)) (Cell (Atom 7) (Atom 0))) (Cell (Atom 5) (Cell (Atom 6) (Atom 0))) =
     Inl Abort"
    by (simp add: u2_ds_mine_def u2_cs_find_def u2_cs_init_def ds_chip_def u2_as_trel_def u2_as_cell_def
        ds_pet_def 3 u2_ds_find_def Let_def)
  show "u2_ds_find (Slot_a 0 (Atom 5) (Cell (Cell (Cell (Atom 7) (Atom 0)) (Cell (Atom 5)
     (Cell (Atom 3) (Cell (Cell (Atom 8) (Atom 0)) (Cell (Atom 6) (Atom 0)))))) (Atom 0))) (Cell (Atom 5) (Atom 1)) = Inl Wild"
    by (simp add: u2_ds_find_def u2_cs_find_def 3)
qed

end
