(* ===== verification/Wire.thy ===== *)
theory Wire
  imports Dash Jets
begin

text \<open>
  The state of the interpreter, the wire, and the control flow its parts share: results that return, jump to
  a trap or end the process, from \<^verbatim>\<open>f/coal.c\<close>.

  The wire keeps the trace, the stack of traps with the trace each has saved, the namespace gates, the
  dashboard, its rail with the table of products, and the state of each jet. A function that the code runs on
  the wire is a function from the wire to an outcome and a wire; no outcome (\<open>None\<close>) stands for a run
  that has used up its fuel. \<open>Jump d hoe\<close> is the \<open>longjmp\<close> with the noun \<open>hoe\<close> to the trap that
  has \<open>d\<close> traps below it, \<open>Dead\<close> a failed assertion or a wild access. Profiling and printing are left out.
\<close>

section \<open>State and outcomes\<close>

record jet_sat =
  jet_live :: bool
  jet_test :: bool
  jet_leak :: bool
  jet_memo :: bool

record u2_wire =
  tax :: "noun list"
  kit :: "noun list list"
  lad :: noun
  des :: u2_slot
  rail :: u2_rail
  sat :: "nat \<Rightarrow> jet_sat"
  Flag_Abort :: bool

datatype jump = Jump nat noun | Dead fault

type_synonym 'a nk = "u2_wire \<Rightarrow> ((jump + 'a) \<times> u2_wire) option"

definition nk_return :: "'a \<Rightarrow> 'a nk" where
  "nk_return x s = Some (Inr x, s)"

definition nk_dead :: "fault \<Rightarrow> 'a nk" where
  "nk_dead e s = Some (Inl (Dead e), s)"

definition nk_bind :: "'a nk \<Rightarrow> ('a \<Rightarrow> 'b nk) \<Rightarrow> 'b nk" where
  "nk_bind m f s =
     (case m s of
        None \<Rightarrow> None
      | Some (Inl j, s) \<Rightarrow> Some (Inl j, s)
      | Some (Inr x, s) \<Rightarrow> f x s)"

definition nk_get :: "(u2_wire \<Rightarrow> 'a nk) \<Rightarrow> 'a nk" where
  "nk_get f s = f s s"

definition nk_put :: "(u2_wire \<Rightarrow> u2_wire) \<Rightarrow> unit nk" where
  "nk_put f s = Some (Inr (), f s)"

section \<open>Traps\<close>

fun cm_jack :: "noun list \<Rightarrow> noun list \<Rightarrow> noun list res" where
  "cm_jack old nuw =
     (if nuw = old then Inr []
      else case nuw of
             [] \<Rightarrow> Inl Wild
           | tac # cur \<Rightarrow> rbind (cm_jack old cur) (\<lambda>jaq. Inr (tac # jaq)))"

declare cm_jack.simps [simp del]

definition u2_cm_rind :: "u2_wire \<Rightarrow> u2_wire" where
  "u2_cm_rind s = s\<lparr>kit := tax s # kit s\<rparr>"

definition u2_cm_wail :: "noun nk" where
  "u2_cm_wail s =
     (case kit s of
        [] \<Rightarrow> nk_dead Wild s
      | old # _ \<Rightarrow>
          (case cm_jack old (tax s) of
             Inl e \<Rightarrow> nk_dead e s
           | Inr jaq \<Rightarrow> nk_return (noun_list jaq) (s\<lparr>tax := old\<rparr>)))"

definition nk_jump :: "noun \<Rightarrow> 'a nk" where
  "nk_jump hoe s = Some (Inl (Jump (length (tl (kit s))) hoe), s\<lparr>kit := tl (kit s)\<rparr>)"

definition u2_cm_bail :: "noun \<Rightarrow> 'a nk" where
  "u2_cm_bail how =
     nk_get (\<lambda>s. if Flag_Abort s then nk_dead Abort
                 else nk_bind u2_cm_wail (\<lambda>jaq. nk_jump (Cell how jaq)))"

definition u2_cm_bowl :: "noun \<Rightarrow> 'a nk" where
  "u2_cm_bowl how = nk_bind u2_cm_wail (\<lambda>_. nk_jump how)"

definition u2_cm_done :: "unit nk" where
  "u2_cm_done s = (if kit s = [] then nk_dead Abort s else nk_return () (s\<lparr>kit := tl (kit s)\<rparr>))"

text \<open>The \<open>if ( 0 != (hoe = u2_cm_trap()) ) handler else body\<close> of the code.\<close>

definition u2_cm_trap :: "'a nk \<Rightarrow> (noun \<Rightarrow> 'a nk) \<Rightarrow> 'a nk" where
  "u2_cm_trap body handler s =
     (case body (u2_cm_rind s) of
        Some (Inl (Jump d hoe), s') \<Rightarrow>
          if d = length (kit s) then handler hoe s' else Some (Inl (Jump d hoe), s')
      | r \<Rightarrow> r)"

definition nk_exit :: "'a nk" where
  "nk_exit = u2_cm_bail (Atom c3__exit)"

definition nk_res :: "'a res \<Rightarrow> 'a nk" where
  "nk_res r =
     (case r of
        Inr x \<Rightarrow> nk_return x
      | Inl (Bail how_l) \<Rightarrow> u2_cm_bail (Atom how_l)
      | Inl e \<Rightarrow> nk_dead e)"

definition nk_good :: "u2_weak \<Rightarrow> noun nk" where
  "nk_good som = (case som of None \<Rightarrow> nk_exit | Some x \<Rightarrow> nk_return x)"

section \<open>Reasoning about outcomes\<close>

text \<open>
  \<open>nk_ends P m s\<close>: if the run \<open>m\<close> from \<open>s\<close> has an outcome, it and the final wire satisfy \<open>P\<close>.
\<close>

definition nk_ends :: "(jump + 'a \<Rightarrow> u2_wire \<Rightarrow> bool) \<Rightarrow> 'a nk \<Rightarrow> u2_wire \<Rightarrow> bool" where
  "nk_ends P m s \<longleftrightarrow> (\<forall>r s'. m s = Some (r, s') \<longrightarrow> P r s')"

named_theorems nk_rules \<open>introduction rules for runs\<close>

lemma nk_ends_return [nk_rules]: "P (Inr x) s \<Longrightarrow> nk_ends P (nk_return x) s"
  by (simp add: nk_ends_def nk_return_def)

lemma nk_ends_dead [nk_rules]: "P (Inl (Dead e)) s \<Longrightarrow> nk_ends P (nk_dead e) s"
  by (simp add: nk_ends_def nk_dead_def)

lemma nk_ends_bind:
  assumes "nk_ends Q m s" "\<And>j s'. Q (Inl j) s' \<Longrightarrow> P (Inl j) s'" "\<And>x s'. Q (Inr x) s' \<Longrightarrow> nk_ends P (f x) s'"
  shows "nk_ends P (nk_bind m f) s"
  using assms by (fastforce simp: nk_ends_def nk_bind_def split: option.splits sum.splits)

lemma nk_ends_get [nk_rules]: "nk_ends P (f s) s \<Longrightarrow> nk_ends P (nk_get f) s"
  by (simp add: nk_ends_def nk_get_def)

lemma nk_ends_put [nk_rules]: "P (Inr ()) (f s) \<Longrightarrow> nk_ends P (nk_put f) s"
  by (simp add: nk_ends_def nk_put_def)

lemma nk_ends_conseq: "nk_ends Q m s \<Longrightarrow> (\<And>r s'. Q r s' \<Longrightarrow> P r s') \<Longrightarrow> nk_ends P m s"
  by (auto simp: nk_ends_def)

lemma nk_ends_trap:
  assumes "nk_ends Q body (u2_cm_rind s)" "\<And>d hoe s'. Q (Inl (Jump d hoe)) s' \<Longrightarrow> nk_ends P (handler hoe) s'"
    "\<And>d hoe s'. Q (Inl (Jump d hoe)) s' \<Longrightarrow> P (Inl (Jump d hoe)) s'"
    "\<And>e s'. Q (Inl (Dead e)) s' \<Longrightarrow> P (Inl (Dead e)) s'" "\<And>x s'. Q (Inr x) s' \<Longrightarrow> P (Inr x) s'"
  shows "nk_ends P (u2_cm_trap body handler) s"
  using assms unfolding nk_ends_def u2_cm_trap_def
  by (auto split: option.splits sum.splits jump.splits if_splits)

end
