(* ===== verification/Nock5.thy ===== *)
theory Nock5
  imports Loom
begin

text \<open>
  What the interpreter has to compute. \<open>nock5\<close> is the definition of Nock in \<^verbatim>\<open>Spec/nock/5.txt\<close>, one rule
  for each of its reductions; a subject and a formula have no product when the reductions do not end.
  \<open>nock_in\<close> states the meaning of the operators 6 to 10 directly, and adds operator 11, by which a
  program that runs virtually loads from a namespace: a list of gates, the innermost first. Without a
  namespace the two agree.
\<close>

section \<open>The definition of Nock\<close>

definition wut :: "noun \<Rightarrow> noun" where
  "wut a = (case a of Cell _ _ \<Rightarrow> Atom 0 | Atom _ \<Rightarrow> Atom 1)"

definition tis :: "noun \<Rightarrow> noun \<Rightarrow> noun" where
  "tis a b = Atom (if a = b then 0 else 1)"

abbreviation op :: "nat \<Rightarrow> noun \<Rightarrow> noun" where
  "op n b \<equiv> Cell (Atom n) b"

abbreviation op2 :: "nat \<Rightarrow> noun \<Rightarrow> noun \<Rightarrow> noun" where
  "op2 n b c \<equiv> Cell (Atom n) (Cell b c)"

abbreviation op3 :: "nat \<Rightarrow> noun \<Rightarrow> noun \<Rightarrow> noun \<Rightarrow> noun" where
  "op3 n b c d \<equiv> Cell (Atom n) (Cell b (Cell c d))"

inductive nock5 :: "noun \<Rightarrow> noun \<Rightarrow> noun \<Rightarrow> bool" where
  nock5_cons: "nock5 a (Cell b c) x \<Longrightarrow> nock5 a d y \<Longrightarrow> nock5 a (Cell (Cell b c) d) (Cell x y)"
| nock5_0: "slot b a = Some p \<Longrightarrow> nock5 a (op 0 (Atom b)) p"
| nock5_1: "nock5 a (op 1 b) b"
| nock5_2: "nock5 a b x \<Longrightarrow> nock5 a c y \<Longrightarrow> nock5 x y p \<Longrightarrow> nock5 a (op2 2 b c) p"
| nock5_3: "nock5 a b x \<Longrightarrow> nock5 a (op 3 b) (wut x)"
| nock5_4: "nock5 a b (Atom n) \<Longrightarrow> nock5 a (op 4 b) (Atom (n + 1))"
| nock5_5: "nock5 a b (Cell x y) \<Longrightarrow> nock5 a (op 5 b) (tis x y)"
| nock5_6: "nock5 a (op2 2 (op 0 (Atom 1)) (op2 2 (op 1 (Cell c d)) (Cell (op 1 (Atom 0))
    (op2 2 (op 1 (Cell (Atom 2) (Atom 3))) (Cell (op 1 (Atom 0)) (op 4 (op 4 b))))))) p \<Longrightarrow>
    nock5 a (op3 6 b c d) p"
| nock5_7: "nock5 a (op2 2 b (op 1 c)) p \<Longrightarrow> nock5 a (op2 7 b c) p"
| nock5_8: "nock5 a (op2 7 (Cell (op2 7 (op 0 (Atom 1)) b) (op 0 (Atom 1))) c) p \<Longrightarrow> nock5 a (op2 8 b c) p"
| nock5_9: "nock5 a (op2 7 c (op2 2 (op 0 (Atom 1)) (op 0 b))) p \<Longrightarrow> nock5 a (op2 9 b c) p"
| nock5_10: "nock5 a (op2 8 c (op2 7 (op 0 (Atom 3)) d)) p \<Longrightarrow> nock5 a (op2 10 (Cell b c) d) p"
| nock5_10_atom: "nock5 a c p \<Longrightarrow> nock5 a (op2 10 (Atom b) c) p"

section \<open>Direct rules, with a namespace\<close>

inductive nock_in :: "noun \<Rightarrow> noun \<Rightarrow> noun \<Rightarrow> noun \<Rightarrow> bool" where
  nock_cons: "nock_in lad a (Cell b c) x \<Longrightarrow> nock_in lad a d y \<Longrightarrow> nock_in lad a (Cell (Cell b c) d) (Cell x y)"
| nock_0: "slot b a = Some p \<Longrightarrow> nock_in lad a (op 0 (Atom b)) p"
| nock_1: "nock_in lad a (op 1 b) b"
| nock_2: "nock_in lad a b x \<Longrightarrow> nock_in lad a c y \<Longrightarrow> nock_in lad x y p \<Longrightarrow> nock_in lad a (op2 2 b c) p"
| nock_3: "nock_in lad a b x \<Longrightarrow> nock_in lad a (op 3 b) (wut x)"
| nock_4: "nock_in lad a b (Atom n) \<Longrightarrow> nock_in lad a (op 4 b) (Atom (n + 1))"
| nock_5: "nock_in lad a b (Cell x y) \<Longrightarrow> nock_in lad a (op 5 b) (tis x y)"
| nock_6_yes: "nock_in lad a b (Atom 0) \<Longrightarrow> nock_in lad a c p \<Longrightarrow> nock_in lad a (op3 6 b c d) p"
| nock_6_no: "nock_in lad a b (Atom 1) \<Longrightarrow> nock_in lad a d p \<Longrightarrow> nock_in lad a (op3 6 b c d) p"
| nock_7: "nock_in lad a b x \<Longrightarrow> nock_in lad x c p \<Longrightarrow> nock_in lad a (op2 7 b c) p"
| nock_8: "nock_in lad a b x \<Longrightarrow> nock_in lad (Cell x a) c p \<Longrightarrow> nock_in lad a (op2 8 b c) p"
| nock_9: "nock_in lad a c x \<Longrightarrow> slot b x = Some f \<Longrightarrow> nock_in lad x f p \<Longrightarrow> nock_in lad a (op2 9 (Atom b) c) p"
| nock_10: "nock_in lad a c x \<Longrightarrow> nock_in lad a d p \<Longrightarrow> nock_in lad a (op2 10 (Cell b c) d) p"
| nock_10_atom: "nock_in lad a c p \<Longrightarrow> nock_in lad a (op2 10 (Atom b) c) p"
| nock_11: "nock_in (Cell (Cell bat (Cell sam con)) lad) a b gof \<Longrightarrow>
    nock_in lad (Cell bat (Cell gof con)) bat (Cell h p) \<Longrightarrow>
    nock_in (Cell (Cell bat (Cell sam con)) lad) a (op 11 b) p"

inductive_simps nock_in_cons: "nock_in lad a (Cell (Cell b c) d) p"
inductive_simps nock_in_atom [simp]: "nock_in lad a (Atom n) p"
inductive_simps nock_in_0: "nock_in lad a (op 0 b) p"
inductive_simps nock_in_1 [simp]: "nock_in lad a (op 1 b) p"
inductive_simps nock_in_Suc_0 [simp]: "nock_in lad a (op (Suc 0) b) p"
inductive_simps nock_in_2_cell: "nock_in lad a (op2 2 b c) p"
inductive_simps nock_in_3: "nock_in lad a (op 3 b) p"
inductive_simps nock_in_4: "nock_in lad a (op 4 b) p"
inductive_simps nock_in_5: "nock_in lad a (op 5 b) p"
inductive_simps nock_in_6: "nock_in lad a (op3 6 b c d) p"
inductive_simps nock_in_7: "nock_in lad a (op2 7 b c) p"
inductive_simps nock_in_8: "nock_in lad a (op2 8 b c) p"
inductive_simps nock_in_9: "nock_in lad a (op2 9 b c) p"
inductive_simps nock_in_10: "nock_in lad a (op2 10 b c) p"
inductive_simps nock_in_11: "nock_in lad a (op 11 b) p"

lemmas nock_in_simps =
  nock_in_cons nock_in_0 nock_in_2_cell nock_in_3 nock_in_4 nock_in_5 nock_in_6 nock_in_7 nock_in_8 nock_in_9
  nock_in_10 nock_in_11

lemma nock_in_det: "nock_in lad a f p \<Longrightarrow> nock_in lad a f q \<Longrightarrow> p = q"
proof (induction arbitrary: q rule: nock_in.induct)
  case nock_cons
  from nock_cons.prems show ?case unfolding nock_in_cons by (auto dest: nock_cons.IH simp: nock_cons.hyps)
next
  case nock_0
  then show ?case by (auto simp: nock_in_0)
next
  case nock_1
  then show ?case by (auto simp: nock_in_1)
next
  case nock_2
  from nock_2.prems show ?case unfolding nock_in_2_cell by (auto dest: nock_2.IH simp: nock_2.hyps)
next
  case nock_3
  from nock_3.prems show ?case unfolding nock_in_3 by (auto dest: nock_3.IH simp: nock_3.hyps)
next
  case nock_4
  from nock_4.prems show ?case unfolding nock_in_4 by (auto dest: nock_4.IH simp: nock_4.hyps)
next
  case nock_5
  from nock_5.prems show ?case unfolding nock_in_5 by (auto dest: nock_5.IH simp: nock_5.hyps)
next
  case nock_6_yes
  from nock_6_yes.prems show ?case unfolding nock_in_6 by (auto dest: nock_6_yes.IH simp: nock_6_yes.hyps)
next
  case nock_6_no
  from nock_6_no.prems show ?case unfolding nock_in_6 by (auto dest: nock_6_no.IH simp: nock_6_no.hyps)
next
  case nock_7
  from nock_7.prems show ?case unfolding nock_in_7 by (auto dest: nock_7.IH simp: nock_7.hyps)
next
  case nock_8
  from nock_8.prems show ?case unfolding nock_in_8 by (auto dest: nock_8.IH simp: nock_8.hyps)
next
  case (nock_9 lad a c x b f p)
  obtain x' f' where "nock_in lad a c x'" "slot b x' = Some f'" "nock_in lad x' f' q"
    using nock_9.prems unfolding nock_in_9 by auto
  then show ?case using nock_9.IH nock_9.hyps(2) by (metis option.inject)
next
  case nock_10
  from nock_10.prems show ?case unfolding nock_in_10 by (auto dest: nock_10.IH simp: nock_10.hyps)
next
  case nock_10_atom
  from nock_10_atom.prems show ?case unfolding nock_in_10 by (auto dest: nock_10_atom.IH simp: nock_10_atom.hyps)
next
  case nock_11
  from nock_11.prems show ?case unfolding nock_in_11 by (auto dest: nock_11.IH simp: nock_11.hyps)
qed

lemma slot_small:
  "slot 2 (Cell a b) = Some a" "slot 3 (Cell a b) = Some b" "slot 1 a = Some a"
  by (simp_all add: slot.simps [of 2] slot.simps [of 3] slot.simps [of 1])

lemma slot_atoms: "4 \<le> m \<Longrightarrow> slot m (Cell (Atom x) (Atom y)) = None"
proof (induction m rule: less_induct)
  case (less m)
  consider "m div 2 = 2" | "m div 2 = 3" | "4 \<le> m div 2" using less.prems by linarith
  then have "slot (m div 2) (Cell (Atom x) (Atom y)) \<in> {None, Some (Atom x), Some (Atom y)}"
    using less by cases (auto simp: slot_small)
  then show ?case using slot_step [of m] less.prems by auto
qed

lemma nock_in_if:
  assumes "nock_in lad a (op2 2 (op 0 (Atom 1)) (op2 2 (op 1 (Cell c d)) (Cell (op 1 (Atom 0))
    (op2 2 (op 1 (Cell (Atom 2) (Atom 3))) (Cell (op 1 (Atom 0)) (op 4 (op 4 b))))))) p"
  shows "nock_in lad a (op3 6 b c d) p"
proof -
  have pick: "slot (n + 2) (Cell (Atom 2) (Atom 3)) = Some k \<longleftrightarrow> n = 0 \<and> k = Atom 2 \<or> n = 1 \<and> k = Atom 3" for n k
  proof -
    consider "n = 0" | "n = 1" | "4 \<le> n + 2" by linarith
    then show ?thesis
      by cases (auto simp: slot_atoms simp del: add_2_eq_Suc' simp: slot_small)
  qed
  have "nock_in lad a (op 4 (op 4 b)) x \<longleftrightarrow> (\<exists>n. nock_in lad a b (Atom n) \<and> x = Atom (n + 2))" for x
    by (auto simp: nock_in_4)
  then show ?thesis
    using assms unfolding nock_in_2_cell nock_in_1 nock_in_cons nock_in_6
    by (auto simp: nock_in_0 pick slot_small simp del: add_2_eq_Suc')
qed

lemma nock5_nock_in: "nock5 a f p \<Longrightarrow> nock_in (Atom 0) a f p"
proof (induction rule: nock5.induct)
  case (nock5_6 a c d b p)
  then show ?case by (intro nock_in_if)
next
  case (nock5_7 a b c p)
  then show ?case by (auto simp: nock_in_simps)
next
  case (nock5_8 a b c p)
  then show ?case by (auto simp: nock_in_simps slot_small)
next
  case (nock5_9 a c b p)
  then show ?case by (auto simp: nock_in_simps slot_small)
next
  case (nock5_10 a c d p b)
  then show ?case by (auto simp: nock_in_simps slot_small)
qed (blast intro: nock_in.intros)+

lemma nock5_self: "nock5 a (op 0 (Atom 1)) a"
  by (rule nock5_0) (simp only: slot_small)

lemma nock5_if:
  assumes "nock5 a b (Atom n)" "slot (n + 2) (Cell (Atom 2) (Atom 3)) = Some (Atom k)"
    "slot k (Cell c d) = Some f" "nock5 a f p"
  shows "nock5 a (op3 6 b c d) p"
proof (rule nock5_6)
  let ?Y = "op2 2 (op 1 (Cell (Atom 2) (Atom 3))) (Cell (op 1 (Atom 0)) (op 4 (op 4 b)))"
  have "nock5 a (op 4 (op 4 b)) (Atom (n + 1 + 1))" by (intro nock5_4 assms(1))
  then have "nock5 a (Cell (op 1 (Atom 0)) (op 4 (op 4 b))) (op 0 (Atom (n + 2)))"
    using nock5_cons [OF nock5_1] by (metis add.assoc one_add_one)
  then have "nock5 a ?Y (Atom k)"
    by (rule nock5_2 [OF nock5_1 _ nock5_0 [OF assms(2)]])
  then have "nock5 a (Cell (op 1 (Atom 0)) ?Y) (op 0 (Atom k))" by (rule nock5_cons [OF nock5_1])
  then have "nock5 a (op2 2 (op 1 (Cell c d)) (Cell (op 1 (Atom 0)) ?Y)) f"
    by (rule nock5_2 [OF nock5_1 _ nock5_0 [OF assms(3)]])
  then show "nock5 a (op2 2 (op 0 (Atom 1)) (op2 2 (op 1 (Cell c d)) (Cell (op 1 (Atom 0)) ?Y))) p"
    by (rule nock5_2 [OF nock5_self _ assms(4)])
qed

lemma nock5_compose: "nock5 a b x \<Longrightarrow> nock5 x c p \<Longrightarrow> nock5 a (op2 7 b c) p"
  by (rule nock5_7, rule nock5_2 [OF _ nock5_1])

lemma nock5_push: "nock5 a b x \<Longrightarrow> nock5 (Cell x a) c p \<Longrightarrow> nock5 a (op2 8 b c) p"
  by (rule nock5_8, rule nock5_compose, rule nock5_cons, rule nock5_compose [OF nock5_self], assumption,
      rule nock5_self, assumption)

lemma nock_in_nock5: "nock_in lad a f p \<Longrightarrow> lad = Atom 0 \<Longrightarrow> nock5 a f p"
proof (induction rule: nock_in.induct)
  case (nock_6_yes lad a b c p d)
  then show ?case by (intro nock5_if [of a b 0 2 c d c p]) (simp_all add: slot_small del: add_2_eq_Suc')
next
  case (nock_6_no lad a b d p c)
  then show ?case by (intro nock5_if [of a b 1 3 c d d p]) (simp_all add: slot_small del: add_2_eq_Suc')
next
  case (nock_9 lad a c x b f p)
  then have "nock5 x (op2 2 (op 0 (Atom 1)) (op 0 (Atom b))) p"
    by (intro nock5_2 [OF nock5_self nock5_0]) simp_all
  then show ?case using nock_9 by (intro nock5_9 nock5_compose) simp_all
next
  case (nock_10 lad a c x d p b)
  have "nock5 (Cell x a) (op 0 (Atom 3)) a" by (rule nock5_0) (simp add: slot_small)
  then show ?case using nock_10 by (intro nock5_10 nock5_push nock5_compose) simp_all
qed (auto intro: nock5.intros nock5_1 [simplified] nock5_4 [simplified] nock5_compose nock5_push)

section \<open>Properties\<close>

text \<open>
  The direct rules say what the definition of Nock says: without a namespace, a subject and a formula have
  a product by the direct rules exactly when the reductions of the definition lead to it.
\<close>

theorem nock5_direct: "nock5 a f p \<longleftrightarrow> nock_in (Atom 0) a f p"
  using nock5_nock_in nock_in_nock5 by blast

end
