(* ===== verification/Nock.thy ===== *)
theory Nock
  imports Wire Nock5 Jets2
begin

text \<open>
  The interpreter, \<^verbatim>\<open>f/nock.c\<close>, and the dispatch of jets in \<^verbatim>\<open>f/host.c\<close>. \<^verbatim>\<open>_nock_cool\<close> runs a formula and
  jumps to the trap when it fails; \<^verbatim>\<open>_nock_mool\<close> runs it virtually and returns a kode with the product (0),
  with what it could not load from the namespace (1), or with the trace of a failure (2).

  The functions of the code call each other without a bound. Here each body takes the two interpreters it
  calls as a record, and \<open>nock_at n\<close> ties the knot \<open>n\<close> levels deep: a loop iteration and a call both use one
  level, and a run that needs more has no outcome. What jets a chip and an axis have is a parameter:
  the table in \<^verbatim>\<open>include/f/nash.h\<close> is built from the generated jets. A jet gets the interpreters too.
\<close>

record interp =
  i_cool :: "noun \<Rightarrow> noun \<Rightarrow> noun nk"
  i_mool :: "noun \<Rightarrow> noun \<Rightarrow> (nat \<times> noun) nk"

record u2_ho_jet =
  jet_id :: nat
  fun_m :: nat
  key_f :: "noun \<Rightarrow> u2_weak"
  fun_f :: "interp \<Rightarrow> noun \<Rightarrow> u2_weak nk"

type_synonym jets = "noun \<Rightarrow> noun \<Rightarrow> u2_ho_jet option"

section \<open>Calling nock and jets\<close>

definition u2_cn_nock :: "interp \<Rightarrow> noun \<Rightarrow> noun \<Rightarrow> noun nk" where
  "u2_cn_nock R bus fol = i_cool R bus fol"

definition u2_nk_soft :: "interp \<Rightarrow> noun \<Rightarrow> noun \<Rightarrow> noun nk" where
  "u2_nk_soft R bus fol = u2_cn_nock R bus fol"

definition u2_nk_nock :: "interp \<Rightarrow> u2_weak \<Rightarrow> u2_weak \<Rightarrow> u2_weak nk" where
  "u2_nk_nock R bus fol =
     (case fol of
        None \<Rightarrow> nk_return None
      | Some fol \<Rightarrow>
          (case bus of
             None \<Rightarrow> nk_return None
           | Some bus \<Rightarrow> nk_bind (u2_nk_soft R bus fol) (\<lambda>pro. nk_return (Some pro))))"

definition jet_flag :: "(jet_sat \<Rightarrow> jet_sat) \<Rightarrow> u2_ho_jet \<Rightarrow> unit nk" where
  "jet_flag f jet_j = nk_put (\<lambda>s. s\<lparr>sat := (sat s)(jet_id jet_j := f (sat s (jet_id jet_j)))\<rparr>)"

definition ho_run :: "interp \<Rightarrow> u2_ho_jet \<Rightarrow> noun \<Rightarrow> noun nk" where
  "ho_run R jet_j cor = nk_bind (fun_f jet_j R cor) nk_good"

definition u2_ho_test :: "noun \<Rightarrow> noun \<Rightarrow> unit nk" where
  "u2_ho_test sof had = (if had \<noteq> sof then nk_dead Abort else nk_return ())"

definition nk_save :: "nat \<Rightarrow> noun \<Rightarrow> noun \<Rightarrow> noun nk" where
  "nk_save sel_m sam pro =
     nk_get (\<lambda>s. nk_bind (nk_res (u2_rl_save (rail s) sel_m sam pro))
       (\<lambda>(pro, ral). nk_bind (nk_put (\<lambda>s. s\<lparr>rail := ral\<rparr>)) (\<lambda>_. nk_return pro)))"

definition ho_use_soft :: "interp \<Rightarrow> u2_ho_jet \<Rightarrow> noun \<Rightarrow> noun \<Rightarrow> noun nk" where
  "ho_use_soft R jet_j cor fol =
     nk_get (\<lambda>s.
       if \<not> jet_memo (sat s (jet_id jet_j)) then u2_cn_nock R cor fol
       else case key_f jet_j cor of
              None \<Rightarrow> u2_cn_nock R cor fol
            | Some key \<Rightarrow>
                (case u2_rl_find (rail s) (fun_m jet_j) key of
                   Some val \<Rightarrow> nk_return val
                 | None \<Rightarrow> nk_bind (u2_cn_nock R cor fol) (nk_save (fun_m jet_j) key)))"

definition ho_use_test :: "interp \<Rightarrow> u2_ho_jet \<Rightarrow> noun \<Rightarrow> noun \<Rightarrow> noun nk" where
  "ho_use_test R jet_j cor fol =
     nk_bind (jet_flag (jet_test_update (\<lambda>_. False)) jet_j) (\<lambda>_.
     nk_bind (nk_get (\<lambda>s.
       let mem = sat s (jet_id jet_j)
       in if \<not> jet_leak mem then ho_run R jet_j cor
          else nk_bind (jet_flag (jet_memo_update (\<lambda>_. False) \<circ> jet_leak_update (\<lambda>_. False)) jet_j) (\<lambda>_.
               nk_bind (ho_run R jet_j cor) (\<lambda>_.
               nk_bind (ho_run R jet_j cor) (\<lambda>pro.
               nk_bind (jet_flag (\<lambda>_. mem) jet_j) (\<lambda>_. nk_return pro)))))) (\<lambda>pro.
     nk_bind (jet_flag (jet_live_update (\<lambda>_. False) \<circ> jet_test_update (\<lambda>_. True)) jet_j) (\<lambda>_.
     nk_bind (u2_nk_soft R cor fol) (\<lambda>sof.
     nk_bind (jet_flag (jet_live_update (\<lambda>_. True)) jet_j) (\<lambda>_.
     nk_bind (u2_ho_test sof pro) (\<lambda>_. nk_return sof))))))"

definition u2_ho_use :: "interp \<Rightarrow> u2_ho_jet \<Rightarrow> noun \<Rightarrow> noun \<Rightarrow> noun nk" where
  "u2_ho_use R jet_j cor fol =
     nk_get (\<lambda>s.
       if \<not> jet_live (sat s (jet_id jet_j)) then ho_use_soft R jet_j cor fol
       else if \<not> jet_test (sat s (jet_id jet_j)) then ho_run R jet_j cor
       else ho_use_test R jet_j cor fol)"

definition u2_ho_kick :: "interp \<Rightarrow> jets \<Rightarrow> noun \<Rightarrow> noun \<Rightarrow> noun \<Rightarrow> u2_weak nk" where
  "u2_ho_kick R J xip cor axe =
     nk_bind (nk_res (u2_frag axe cor)) (\<lambda>fol.
       case fol of
         None \<Rightarrow> nk_return None
       | Some fol \<Rightarrow>
           nk_bind (case J xip axe of
                      None \<Rightarrow> u2_nk_soft R cor fol
                    | Some jet_j \<Rightarrow> u2_ho_use R jet_j cor fol) (\<lambda>pro. nk_return (Some pro)))"

definition u2_ho_kicq :: "interp \<Rightarrow> jets \<Rightarrow> noun \<Rightarrow> noun \<Rightarrow> noun \<Rightarrow> (nat \<times> u2_weak) nk" where
  "u2_ho_kicq R J xip cor axe =
     u2_cm_trap
       (nk_bind (u2_ho_kick R J xip cor axe) (\<lambda>pro.
        nk_bind u2_cm_done (\<lambda>_. nk_return (0, pro))))
       (\<lambda>hoe.
        nk_bind (nk_res (u2_bi_h hoe)) (\<lambda>how.
        nk_bind (nk_res (u2_bi_t hoe)) (\<lambda>pro.
          if how = Atom c3__exit then nk_return (2, Some pro)
          else if how = Atom c3__need then nk_return (1, Some pro)
          else if how = Atom c3__fail then u2_cm_bail (Atom c3__fail)
          else nk_dead Abort)))"

definition nk_find :: "noun \<Rightarrow> u2_weak nk" where
  "nk_find cor = nk_get (\<lambda>s. nk_res (u2_ds_find (des s) cor))"

definition u2_nk_kick :: "interp \<Rightarrow> jets \<Rightarrow> noun \<Rightarrow> u2_weak nk" where
  "u2_nk_kick R J gat =
     nk_bind (nk_find gat) (\<lambda>xip.
       case xip of
         Some xip \<Rightarrow> u2_ho_kick R J xip gat (Atom 2)
       | None \<Rightarrow> nk_bind (nk_res (u2_sh (Some gat))) (\<lambda>fol. u2_nk_nock R (Some gat) fol))"

definition u2_nk_mong :: "interp \<Rightarrow> jets \<Rightarrow> noun \<Rightarrow> noun \<Rightarrow> u2_weak nk" where
  "u2_nk_mong R J gat sam =
     nk_bind (nk_res (rbind (u2_h gat) (\<lambda>bat. rbind (u2_t gat) (\<lambda>pay. rbind (u2_t pay) (\<lambda>con.
       Inr (bat, Cell bat (Cell sam con))))))) (\<lambda>(bat, cor).
     nk_bind (nk_find cor) (\<lambda>xip.
       case xip of
         Some xip \<Rightarrow> u2_ho_kick R J xip cor (Atom 2)
       | None \<Rightarrow> u2_nk_nock R (Some cor) (Some bat)))"

definition u2_cn_mung :: "interp \<Rightarrow> jets \<Rightarrow> noun \<Rightarrow> noun \<Rightarrow> noun nk" where
  "u2_cn_mung R J gat sam = nk_bind (u2_nk_mong R J gat sam) nk_good"

section \<open>The namespace\<close>

definition nk_wail :: "(nat \<times> noun) nk" where
  "nk_wail = nk_bind u2_cm_wail (\<lambda>jaq. nk_return (2, jaq))"

definition nock_molg :: "interp \<Rightarrow> noun \<Rightarrow> noun \<Rightarrow> (nat \<times> noun) nk" where
  "nock_molg R gat sam =
     (case gat of
        Cell bat (Cell _ con) \<Rightarrow> i_mool R (Cell bat (Cell sam con)) bat
      | _ \<Rightarrow> nk_wail)"

definition nock_pray_mool :: "interp \<Rightarrow> jets \<Rightarrow> noun \<Rightarrow> (nat \<times> noun) nk" where
  "nock_pray_mool R J gof =
     nk_get (\<lambda>s.
       case lad s of
         Atom _ \<Rightarrow> nk_dead Abort
       | Cell i_lad t_lad \<Rightarrow>
           nk_bind (nk_put (\<lambda>s. s\<lparr>lad := t_lad\<rparr>)) (\<lambda>_.
             u2_cm_trap
               (nk_bind (if t_lad = u2_nul then nk_bind (u2_cn_mung R J i_lad gof) (\<lambda>pro. nk_return (0, pro))
                         else nock_molg R i_lad gof) (\<lambda>(pon, pro).
                nk_bind u2_cm_done (\<lambda>_.
                nk_get (\<lambda>s. if t_lad \<noteq> lad s then nk_dead Abort
                  else nk_bind (nk_put (\<lambda>s. s\<lparr>lad := Cell i_lad t_lad\<rparr>)) (\<lambda>_.
                    if pon \<noteq> 0 then nk_return (pon, pro)
                    else case pro of
                           Atom _ \<Rightarrow> nk_return (1, Cell gof u2_nul)
                         | Cell _ res \<Rightarrow> nk_return (0, res))))))
               (\<lambda>hoe. nk_bind u2_cm_done (\<lambda>_. nk_bind (nk_res (u2_bi_h hoe)) u2_cm_bail))))"

definition nock_pray_cool :: "interp \<Rightarrow> jets \<Rightarrow> noun \<Rightarrow> noun nk" where
  "nock_pray_cool R J gof =
     nk_get (\<lambda>s.
       if lad s = u2_nul then u2_cm_bowl (Cell (Atom c3__need) (Cell gof u2_nul))
       else nk_bind (nock_pray_mool R J gof) (\<lambda>(pon, mog).
         if pon = 0 then nk_return mog
         else if pon = 1 then u2_cm_bowl (Cell (Atom c3__need) mog)
         else if pon = 2 then u2_cm_bowl (Cell (Atom c3__exit) mog)
         else nk_dead Abort))"

section \<open>Hints\<close>

definition c3__lose :: nat where
  "c3__lose = c3_s4 (CHR ''l'') (CHR ''o'') (CHR ''s'') (CHR ''e'')"

definition c3__yelp :: nat where
  "c3__yelp = c3_s4 (CHR ''y'') (CHR ''e'') (CHR ''l'') (CHR ''p'')"

definition c3__bean :: nat where
  "c3__bean = c3_s4 (CHR ''b'') (CHR ''e'') (CHR ''a'') (CHR ''n'')"

definition c3__mean :: nat where
  "c3__mean = c3_s4 (CHR ''m'') (CHR ''e'') (CHR ''a'') (CHR ''n'')"

definition c3__spot :: nat where
  "c3__spot = c3_s4 (CHR ''s'') (CHR ''p'') (CHR ''o'') (CHR ''t'')"

definition c3__slog :: nat where
  "c3__slog = c3_s4 (CHR ''s'') (CHR ''l'') (CHR ''o'') (CHR ''g'')"

definition c3__mine :: nat where
  "c3__mine = c3_s4 (CHR ''m'') (CHR ''i'') (CHR ''n'') (CHR ''e'')"

definition c3__germ :: nat where
  "c3__germ = c3_s4 (CHR ''g'') (CHR ''e'') (CHR ''r'') (CHR ''m'')"

definition c3__fast :: nat where
  "c3__fast = c3_s4 (CHR ''f'') (CHR ''a'') (CHR ''s'') (CHR ''t'')"

definition c3__memo :: nat where
  "c3__memo = c3_s4 (CHR ''m'') (CHR ''e'') (CHR ''m'') (CHR ''o'')"

definition c3__ping :: nat where
  "c3__ping = c3_s4 (CHR ''p'') (CHR ''i'') (CHR ''n'') (CHR ''g'')"

definition c3__live :: nat where
  "c3__live = c3_s4 (CHR ''l'') (CHR ''i'') (CHR ''v'') (CHR ''e'')"

definition c3__sole :: nat where
  "c3__sole = c3_s4 (CHR ''s'') (CHR ''o'') (CHR ''l'') (CHR ''e'')"

text \<open>
  The argument \<open>v\<close> says that the hint runs virtually (\<open>pon\<close> is not null). The test \<open>u2_no != *pon\<close> of the code
  compares a kode with the loobean 1: it excludes the kode 1, not the kode 2.
\<close>

definition hint_run :: "interp \<Rightarrow> bool \<Rightarrow> noun \<Rightarrow> noun \<Rightarrow> (nat \<times> noun) nk" where
  "hint_run R v bus nex =
     (if v then i_mool R bus nex else nk_bind (i_cool R bus nex) (\<lambda>pro. nk_return (0, pro)))"

definition hint_good :: "bool \<Rightarrow> nat \<Rightarrow> bool" where
  "hint_good v pon \<longleftrightarrow> \<not> v \<or> u2_no \<noteq> pon"

definition nk_mine :: "noun \<Rightarrow> noun \<Rightarrow> noun nk" where
  "nk_mine clu cor =
     nk_get (\<lambda>s. nk_bind (nk_res (u2_ds_mine (des s) clu cor)) (\<lambda>(cor, d).
       nk_bind (nk_put (\<lambda>s. s\<lparr>des := d\<rparr>)) (\<lambda>_. nk_return cor)))"

definition hint_trace :: "interp \<Rightarrow> bool \<Rightarrow> noun \<Rightarrow> noun \<Rightarrow> noun \<Rightarrow> noun \<Rightarrow> (nat \<times> noun) nk" where
  "hint_trace R v zep hod bus nex =
     nk_get (\<lambda>s.
       nk_bind (nk_put (\<lambda>s. s\<lparr>tax := Cell zep hod # tax s\<rparr>)) (\<lambda>_.
       nk_bind (hint_run R v bus nex) (\<lambda>pro.
       nk_bind (nk_put (\<lambda>s'. s'\<lparr>tax := tax s\<rparr>)) (\<lambda>_. nk_return pro))))"

definition hint_mine :: "interp \<Rightarrow> bool \<Rightarrow> noun \<Rightarrow> noun \<Rightarrow> noun \<Rightarrow> (nat \<times> noun) nk" where
  "hint_mine R v hod bus nex =
     nk_bind (hint_run R v bus nex) (\<lambda>(pon, pro).
       if hint_good v pon then nk_bind (nk_mine hod pro) (\<lambda>pro. nk_return (pon, pro))
       else nk_return (pon, pro))"

definition hint_fast :: "interp \<Rightarrow> bool \<Rightarrow> noun \<Rightarrow> noun \<Rightarrow> noun \<Rightarrow> (nat \<times> noun) nk" where
  "hint_fast R v hod bus nex =
     nk_bind (hint_run R v bus nex) (\<lambda>(pon, pro).
       if hint_good v pon then
         (case u2_as_trel hod of
            None \<Rightarrow> nk_return (pon, pro)
          | Some (p_hod, q_hod, r_hod) \<Rightarrow>
              let q_hod = (if q_hod = Cell (Atom 1) (Atom 0) then Atom 0 else q_hod)
              in nk_bind (nk_mine (Cell q_hod (Cell p_hod r_hod)) pro) (\<lambda>pro. nk_return (pon, pro)))
       else nk_return (pon, pro))"

definition hint_memo :: "interp \<Rightarrow> bool \<Rightarrow> noun \<Rightarrow> noun \<Rightarrow> (nat \<times> noun) nk" where
  "hint_memo R v bus nex =
     nk_get (\<lambda>s.
       case u2_rl_find_cell (rail s) 0 bus nex of
         Some pro \<Rightarrow> nk_return (0, pro)
       | None \<Rightarrow>
           nk_bind (hint_run R v bus nex) (\<lambda>(pon, pro).
             if hint_good v pon then
               nk_get (\<lambda>s. nk_bind (nk_res (u2_rl_save_cell (rail s) 0 bus nex pro)) (\<lambda>(sav, ral).
                 nk_bind (nk_put (\<lambda>s. s\<lparr>rail := ral\<rparr>)) (\<lambda>_. nk_return (pon, sav))))
             else nk_return (pon, pro)))"

definition hint_sole :: "interp \<Rightarrow> bool \<Rightarrow> noun \<Rightarrow> noun \<Rightarrow> (nat \<times> noun) nk" where
  "hint_sole R v bus nex =
     nk_bind (hint_run R v bus nex) (\<lambda>(pon, pro).
       if hint_good v pon then
         nk_get (\<lambda>s. nk_bind (nk_res (u2_rl_uniq (rail s) pro)) (\<lambda>(nuu, ral).
           nk_bind (nk_put (\<lambda>s. s\<lparr>rail := ral\<rparr>)) (\<lambda>_. nk_return (pon, pro))))
       else nk_return (pon, pro))"

definition nock_hint :: "interp \<Rightarrow> noun \<Rightarrow> noun \<Rightarrow> noun \<Rightarrow> noun \<Rightarrow> bool \<Rightarrow> (nat \<times> noun) nk" where
  "nock_hint R zep hod bus nex v =
     (if zep \<in> {Atom c3__lose, Atom c3__yelp, Atom c3__bean, Atom c3__mean, Atom c3__spot} then hint_trace R v zep hod bus nex
      else if zep = Atom c3__slog then hint_run R v bus nex
      else if zep = Atom c3__mine then hint_mine R v hod bus nex
      else if zep = Atom c3__germ then
        nk_bind (hint_run R v bus nex) (\<lambda>(pon, pro). nk_return (pon, if pro = hod then hod else pro))
      else if zep = Atom c3__fast then hint_fast R v hod bus nex
      else if zep = Atom c3__memo then hint_memo R v bus nex
      else if zep = Atom c3__ping then hint_run R v bus nex
      else if zep = Atom c3__live then hint_run R v bus nex
      else if zep = Atom c3__sole then hint_sole R v bus nex
      else hint_run R v bus nex)"

section \<open>The interpreters\<close>

text \<open>
  An atom of \<open>2\<^sup>2\<^sup>7\<close> words or more has no place in memory; the successor of one, should a
  formula be given that holds it, is a wild access. A successor that is the first to have no place fails an assertion, in
  \<^verbatim>\<open>u2_rl_words\<close>.
\<close>

definition nk_vint :: "'m gmp \<Rightarrow> noun \<Rightarrow> u2_weak nk" where
  "nk_vint G gof =
     (case gof of
        Atom n \<Rightarrow> if atom_fits n then nk_res (u2_rl_vint G (Some gof)) else nk_dead Wild
      | Cell _ _ \<Rightarrow> nk_res (u2_rl_vint G (Some gof)))"

definition nock_cool :: "'m gmp \<Rightarrow> jets \<Rightarrow> interp \<Rightarrow> noun \<Rightarrow> noun \<Rightarrow> noun nk" where
  "nock_cool G J R bus fol =
     (case fol of
        Atom _ \<Rightarrow> nk_exit
      | Cell (Cell b c) gal \<Rightarrow>
          nk_bind (i_cool R bus (Cell b c)) (\<lambda>poz.
          nk_bind (i_cool R bus gal) (\<lambda>riv. nk_return (Cell poz riv)))
      | Cell (Atom hib) gal \<Rightarrow>
          if hib = 0 then
            (case gal of Cell _ _ \<Rightarrow> nk_exit | Atom _ \<Rightarrow> nk_res (u2_bi_frag gal bus))
          else if hib = 1 then nk_return gal
          else if hib = 2 then
            (case gal of
               Atom _ \<Rightarrow> nk_exit
             | Cell b c \<Rightarrow>
                 nk_bind (i_cool R bus c) (\<lambda>nex. nk_bind (i_cool R bus b) (\<lambda>seb. i_cool R seb nex)))
          else if hib = 3 then
            nk_bind (i_cool R bus gal) (\<lambda>gof. nk_return (Atom (if u2_dust gof then u2_yes else u2_no)))
          else if hib = 4 then
            nk_bind (i_cool R bus gal) (\<lambda>gof. nk_bind (nk_vint G gof) nk_good)
          else if hib = 5 then
            (case gal of
               Atom _ \<Rightarrow> nk_exit
             | Cell _ _ \<Rightarrow>
                 nk_bind (i_cool R bus gal) (\<lambda>wim.
                   case wim of
                     Atom _ \<Rightarrow> nk_exit
                   | Cell x y \<Rightarrow> nk_return (Atom (if x = y then u2_yes else u2_no))))
          else if hib = 6 then
            (case u2_as_trel gal of
               None \<Rightarrow> nk_exit
             | Some (b_gal, c_gal, d_gal) \<Rightarrow>
                 nk_bind (i_cool R bus b_gal) (\<lambda>tys.
                   if tys = Atom 0 then i_cool R bus c_gal
                   else if tys = Atom 1 then i_cool R bus d_gal
                   else nk_exit))
          else if hib = 7 then
            (case u2_as_cell gal of
               None \<Rightarrow> nk_exit
             | Some (b_gal, c_gal) \<Rightarrow> nk_bind (i_cool R bus b_gal) (\<lambda>bod. i_cool R bod c_gal))
          else if hib = 8 then
            (case u2_as_cell gal of
               None \<Rightarrow> nk_exit
             | Some (b_gal, c_gal) \<Rightarrow> nk_bind (i_cool R bus b_gal) (\<lambda>wib. i_cool R (Cell wib bus) c_gal))
          else if hib = 9 then
            (case u2_as_cell gal of
               None \<Rightarrow> nk_exit
             | Some (Cell _ _, c_gal) \<Rightarrow> nk_exit
             | Some (Atom b, c_gal) \<Rightarrow>
                 nk_bind (i_cool R bus c_gal) (\<lambda>seb.
                 nk_bind (nk_find seb) (\<lambda>xip.
                   case xip of
                     Some xip \<Rightarrow> nk_bind (u2_ho_kick R J xip seb (Atom b)) nk_good
                   | None \<Rightarrow> nk_bind (nk_res (u2_bi_frag (Atom b) seb)) (\<lambda>nex. i_cool R seb nex))))
          else if hib = 10 then
            (case u2_as_cell gal of
               None \<Rightarrow> nk_exit
             | Some (p_gal, q_gal) \<Rightarrow>
                 nk_bind (case p_gal of
                            Cell b c \<Rightarrow> nk_bind (i_cool R bus c) (\<lambda>hod. nk_return (b, hod))
                          | Atom _ \<Rightarrow> nk_return (p_gal, u2_nul)) (\<lambda>(zep, hod).
                 nk_bind (nock_hint R zep hod bus q_gal False) (\<lambda>(pon, pro). nk_return pro)))
          else if hib = 11 then nk_bind (i_cool R bus gal) (nock_pray_cool R J)
          else nk_exit)"

text \<open>A virtual run that goes on only when a kode is 0, and returns it with what came with it otherwise.\<close>

definition nk_pon :: "(nat \<times> noun) nk \<Rightarrow> (noun \<Rightarrow> (nat \<times> noun) nk) \<Rightarrow> (nat \<times> noun) nk" where
  "nk_pon m f = nk_bind m (\<lambda>(pon, pro). if pon \<noteq> 0 then nk_return (pon, pro) else f pro)"

definition mool_cons :: "interp \<Rightarrow> noun \<Rightarrow> noun \<Rightarrow> noun \<Rightarrow> (nat \<times> noun) nk" where
  "mool_cons R bus hib gal =
     nk_bind (i_mool R bus hib) (\<lambda>(h_pon, poz).
       if h_pon = 2 then nk_return (2, poz)
       else nk_bind (i_mool R bus gal) (\<lambda>(t_pon, riv).
         if t_pon = 2 then nk_return (2, riv)
         else if h_pon = 1 \<or> t_pon = 1 then
           if h_pon = 0 then nk_return (1, riv)
           else if t_pon = 0 then nk_return (1, poz)
           else nk_bind (nk_res (j2_mbc_weld poz riv)) (\<lambda>lal.
             case lal of None \<Rightarrow> nk_dead Wild | Some lal \<Rightarrow> nk_return (1, lal))
         else nk_return (0, Cell poz riv)))"

definition mool_kick :: "jets \<Rightarrow> interp \<Rightarrow> nat \<Rightarrow> noun \<Rightarrow> (nat \<times> noun) nk" where
  "mool_kick J R b seb =
     nk_bind (nk_find seb) (\<lambda>xip.
       case xip of
         Some xip \<Rightarrow>
           nk_bind (u2_ho_kicq R J xip seb (Atom b)) (\<lambda>(pon, pro).
             case pro of None \<Rightarrow> nk_wail | Some pro \<Rightarrow> nk_return (pon, pro))
       | None \<Rightarrow>
           nk_bind (nk_res (u2_frag (Atom b) seb)) (\<lambda>nex.
             case nex of None \<Rightarrow> nk_wail | Some nex \<Rightarrow> i_mool R seb nex))"

definition nock_mool :: "'m gmp \<Rightarrow> jets \<Rightarrow> interp \<Rightarrow> noun \<Rightarrow> noun \<Rightarrow> (nat \<times> noun) nk" where
  "nock_mool G J R bus fol =
     (case fol of
        Atom _ \<Rightarrow> nk_wail
      | Cell (Cell b c) gal \<Rightarrow> mool_cons R bus (Cell b c) gal
      | Cell (Atom hib) gal \<Rightarrow>
          if hib = 0 then
            (case gal of
               Cell _ _ \<Rightarrow> nk_wail
             | Atom _ \<Rightarrow>
                 nk_bind (nk_res (u2_frag gal bus)) (\<lambda>pro.
                   case pro of None \<Rightarrow> nk_wail | Some pro \<Rightarrow> nk_return (0, pro)))
          else if hib = 1 then nk_return (0, gal)
          else if hib = 2 then
            (case gal of
               Cell (Cell _ _) _ \<Rightarrow>
                 nk_pon (i_mool R bus gal) (\<lambda>neb.
                   case neb of Cell seb nex \<Rightarrow> i_mool R seb nex | Atom _ \<Rightarrow> nk_dead Wild)
             | _ \<Rightarrow> nk_wail)
          else if hib = 3 then
            nk_pon (i_mool R bus gal) (\<lambda>gof. nk_return (0, Atom (if u2_dust gof then u2_yes else u2_no)))
          else if hib = 4 then
            nk_pon (i_mool R bus gal) (\<lambda>gof.
              nk_bind (nk_vint G gof) (\<lambda>pro. case pro of None \<Rightarrow> nk_wail | Some pro \<Rightarrow> nk_return (0, pro)))
          else if hib = 5 then
            nk_pon (i_mool R bus gal) (\<lambda>gof.
              case gof of
                Atom _ \<Rightarrow> nk_wail
              | Cell x y \<Rightarrow> nk_return (0, Atom (if x = y then u2_yes else u2_no)))
          else if hib = 6 then
            (case u2_as_cell gal of
               None \<Rightarrow> nk_wail
             | Some (b_gal, cd_gal) \<Rightarrow>
                 nk_pon (i_mool R bus b_gal) (\<lambda>tys.
                   case u2_as_cell cd_gal of
                     None \<Rightarrow> nk_wail
                   | Some (c_gal, d_gal) \<Rightarrow>
                       if tys = Atom 0 then i_mool R bus c_gal
                       else if tys = Atom 1 then i_mool R bus d_gal
                       else nk_wail))
          else if hib = 7 then
            (case u2_as_cell gal of
               None \<Rightarrow> nk_wail
             | Some (b_gal, c_gal) \<Rightarrow> nk_pon (i_mool R bus b_gal) (\<lambda>bod. i_mool R bod c_gal))
          else if hib = 8 then
            (case u2_as_cell gal of
               None \<Rightarrow> nk_wail
             | Some (b_gal, c_gal) \<Rightarrow> nk_pon (i_mool R bus b_gal) (\<lambda>wib. i_mool R (Cell wib bus) c_gal))
          else if hib = 9 then
            (case u2_as_cell gal of
               None \<Rightarrow> nk_wail
             | Some (Cell _ _, c_gal) \<Rightarrow> nk_wail
             | Some (Atom b, c_gal) \<Rightarrow> nk_pon (i_mool R bus c_gal) (mool_kick J R b))
          else if hib = 10 then
            (case u2_as_cell gal of
               None \<Rightarrow> nk_wail
             | Some (Cell b c, q_gal) \<Rightarrow>
                 nk_pon (i_mool R bus c) (\<lambda>hod. nock_hint R b hod bus q_gal True)
             | Some (Atom b, q_gal) \<Rightarrow> nock_hint R (Atom b) u2_nul bus q_gal True)
          else if hib = 11 then nk_pon (i_mool R bus gal) (nock_pray_mool R J)
          else nk_wail)"

primrec nock_at :: "'m gmp \<Rightarrow> jets \<Rightarrow> nat \<Rightarrow> interp" where
  "nock_at G J 0 = \<lparr>i_cool = (\<lambda>_ _ _. None), i_mool = (\<lambda>_ _ _. None)\<rparr>"
| "nock_at G J (Suc n) =
     \<lparr>i_cool = nock_cool G J (nock_at G J n), i_mool = nock_mool G J (nock_at G J n)\<rparr>"

section \<open>Virtual nock\<close>

definition nock_moog :: "interp \<Rightarrow> noun \<Rightarrow> noun \<Rightarrow> noun nk" where
  "nock_moog R bus fol =
     u2_cm_trap
       (nk_bind (i_mool R bus fol) (\<lambda>(pon, pro). nk_bind u2_cm_done (\<lambda>_. nk_return (Cell (Atom pon) pro))))
       (\<lambda>hoe.
        nk_bind (nk_res (u2_bi_h hoe)) (\<lambda>how.
          if how = Atom c3__exit then nk_bind (nk_res (u2_bi_t hoe)) (\<lambda>t. nk_return (Cell (Atom 2) t))
          else if how = Atom c3__need then nk_bind (nk_res (u2_bi_t hoe)) (\<lambda>t. nk_return (Cell (Atom 1) t))
          else u2_cm_bail how))"

definition u2_cn_mink :: "interp \<Rightarrow> noun \<Rightarrow> noun \<Rightarrow> noun \<Rightarrow> noun nk" where
  "u2_cn_mink R bus fol fly =
     nk_get (\<lambda>s.
       nk_bind (nk_put (\<lambda>s. s\<lparr>lad := Cell fly (lad s)\<rparr>)) (\<lambda>_.
       nk_bind (nock_moog R bus fol) (\<lambda>res.
       nk_bind (nk_put (\<lambda>s'. s'\<lparr>lad := lad s\<rparr>)) (\<lambda>_. nk_return res))))"

definition u2_cn_moch :: "interp \<Rightarrow> noun \<Rightarrow> noun \<Rightarrow> noun nk" where
  "u2_cn_moch R bus fol = u2_cn_mink R bus fol (Cell (Cell (Atom 0) (Atom 0)) (Cell (Atom 1) (Atom 0)))"

definition u2_ds_fire :: "interp \<Rightarrow> noun \<Rightarrow> c3_y list \<Rightarrow> u2_weak nk" where
  "u2_ds_fire R cor tam_c =
     nk_get (\<lambda>s. nk_bind (nk_res (u2_ds_look (des s) cor tam_c)) (\<lambda>fol.
       case fol of None \<Rightarrow> nk_return None | Some fol \<Rightarrow> u2_nk_nock R (Some cor) (Some fol)))"

end
