(* ===== verification/Nock_Reach.thy ===== *)
theory Nock_Reach
  imports Nock
begin

text \<open>
  The evaluations that a run of a formula makes. \<open>sub_run\<close> relates a namespace, a subject and a formula to
  those of each evaluation that computing it by \<open>nock_in\<close> asks for, and \<open>memo_free\<close> says that none of them,
  however deep, is a formula with a memo hint. The table of products of the wire is written under memo hints and
  by jets with a key only, and its keys do not say which namespace a product was computed in, nor whether it was
  one; \<open>memo_free\<close> is what a virtual run needs to be independent of it.

  A \<open>mode\<close> is what is known of the wire while the interpreters run: \<open>Hip n\<close> that its rail has the mote \<open>n\<close> and,
  for the rock, that its table is right and there is no namespace; \<open>Free\<close> nothing at all, in exchange for
  runs without memo hints.
\<close>

section \<open>Evaluations\<close>

inductive sub_run :: "noun \<times> noun \<times> noun \<Rightarrow> noun \<times> noun \<times> noun \<Rightarrow> bool" where
  sub_cons_l: "sub_run (L, a, Cell (Cell b c) d) (L, a, Cell b c)"
| sub_cons_r: "sub_run (L, a, Cell (Cell b c) d) (L, a, d)"
| sub_2_both: "sub_run (L, a, op2 2 (Cell b c) d) (L, a, Cell (Cell b c) d)"
| sub_2_l: "sub_run (L, a, op2 2 b c) (L, a, b)"
| sub_2_r: "sub_run (L, a, op2 2 b c) (L, a, c)"
| sub_2_call: "nock_in L a b x \<Longrightarrow> nock_in L a c y \<Longrightarrow> sub_run (L, a, op2 2 b c) (L, x, y)"
| sub_3: "sub_run (L, a, op 3 b) (L, a, b)"
| sub_4: "sub_run (L, a, op 4 b) (L, a, b)"
| sub_5: "sub_run (L, a, op 5 b) (L, a, b)"
| sub_6: "sub_run (L, a, op2 6 b c) (L, a, b)"
| sub_6_yes: "nock_in L a b (Atom 0) \<Longrightarrow> sub_run (L, a, op3 6 b c d) (L, a, c)"
| sub_6_no: "nock_in L a b (Atom 1) \<Longrightarrow> sub_run (L, a, op3 6 b c d) (L, a, d)"
| sub_7: "sub_run (L, a, op2 7 b c) (L, a, b)"
| sub_7_then: "nock_in L a b x \<Longrightarrow> sub_run (L, a, op2 7 b c) (L, x, c)"
| sub_8: "sub_run (L, a, op2 8 b c) (L, a, b)"
| sub_8_then: "nock_in L a b x \<Longrightarrow> sub_run (L, a, op2 8 b c) (L, Cell x a, c)"
| sub_9: "sub_run (L, a, op2 9 b c) (L, a, c)"
| sub_9_call: "nock_in L a c x \<Longrightarrow> slot b x = Some f \<Longrightarrow> sub_run (L, a, op2 9 (Atom b) c) (L, x, f)"
| sub_10: "sub_run (L, a, op2 10 p q) (L, a, q)"
| sub_10_clue: "sub_run (L, a, op2 10 (Cell b c) q) (L, a, c)"
| sub_11: "sub_run (L, a, op 11 b) (L, a, b)"
| sub_11_gate: "nock_in (Cell (Cell bat (Cell sam con)) L) a b gof \<Longrightarrow>
    sub_run (Cell (Cell bat (Cell sam con)) L, a, op 11 b) (L, Cell bat (Cell gof con), bat)"

inductive_cases sub_run_atomE: "sub_run (L, a, Atom n) y"
inductive_cases sub_run_consE: "sub_run (L, a, Cell (Cell b c) d) y"
inductive_cases sub_run_opE: "sub_run (L, a, Cell (Atom n) g) y"

fun memo_hint :: "noun \<Rightarrow> bool" where
  "memo_hint (Cell (Atom n) (Cell p q)) \<longleftrightarrow>
     n = 10 \<and> (p = Atom c3__memo \<or> (\<exists>c. p = Cell (Atom c3__memo) c))"
| "memo_hint f \<longleftrightarrow> False"

definition memo_free :: "noun \<Rightarrow> noun \<Rightarrow> noun \<Rightarrow> bool" where
  "memo_free L a f \<longleftrightarrow> (\<forall>L' a' f'. sub_run\<^sup>*\<^sup>* (L, a, f) (L', a', f') \<longrightarrow> \<not> memo_hint f')"

lemma memo_free_hint: "memo_free L a f \<Longrightarrow> \<not> memo_hint f"
  by (auto simp: memo_free_def)

lemma memo_free_sub: "memo_free L a f \<Longrightarrow> sub_run (L, a, f) (L', a', f') \<Longrightarrow> memo_free L' a' f'"
  unfolding memo_free_def by (blast intro: converse_rtranclp_into_rtranclp)

lemma memo_free_step:
  assumes "\<not> memo_hint f" "\<And>L' a' f'. sub_run (L, a, f) (L', a', f') \<Longrightarrow> memo_free L' a' f'"
  shows "memo_free L a f"
  unfolding memo_free_def
proof (intro allI impI)
  fix L' a' f' assume "sub_run\<^sup>*\<^sup>* (L, a, f) (L', a', f')"
  then show "\<not> memo_hint f'"
    by (cases rule: converse_rtranclpE) (use assms in \<open>auto simp: memo_free_def\<close>)
qed

text \<open>A set of evaluations that holds what they ask for and no memo hint.\<close>

lemma memo_free_invariant:
  assumes "I (L, a, f)" "\<And>x y. I x \<Longrightarrow> sub_run x y \<Longrightarrow> I y" "\<And>L a f. I (L, a, f) \<Longrightarrow> \<not> memo_hint f"
  shows "memo_free L a f"
proof -
  have "I y" if "sub_run\<^sup>*\<^sup>* (L, a, f) y" for y
    using that by induction (use assms(1,2) in blast)+
  then show ?thesis using assms(3) unfolding memo_free_def by blast
qed

section \<open>Formulas that make no calls\<close>

text \<open>Formulas whose evaluations are of parts of the formula: no operator runs a noun that was computed.\<close>

fun plain :: "noun \<Rightarrow> bool" where
  "plain (Atom n) \<longleftrightarrow> True"
| "plain (Cell (Cell b c) d) \<longleftrightarrow> plain (Cell b c) \<and> plain d"
| "plain (Cell (Atom n) (Atom m)) \<longleftrightarrow> True"
| "plain (Cell (Atom n) (Cell b c)) \<longleftrightarrow>
     n \<le> 1 \<or> 11 < n \<or> n \<in> {3, 4, 5} \<and> plain (Cell b c) \<or> n \<in> {7, 8} \<and> plain b \<and> plain c \<or>
     n = 6 \<and> plain b \<and> (case c of Atom _ \<Rightarrow> True | Cell d e \<Rightarrow> plain d \<and> plain e) \<or>
     n = 10 \<and> \<not> memo_hint (Cell (Atom n) (Cell b c)) \<and> plain c \<and> (case b of Atom _ \<Rightarrow> True | Cell _ d \<Rightarrow> plain d)"

lemma plain_arg: "plain (op n g) \<Longrightarrow> n = 3 \<or> n = 4 \<or> n = 5 \<Longrightarrow> plain g"
  by (cases g) auto

lemma plain_11: "plain (op 11 g) \<Longrightarrow> \<exists>m. g = Atom m"
  by (cases g) auto

lemma plain_sub: "sub_run (L, a, f) (L', a', f') \<Longrightarrow> plain f \<Longrightarrow> plain f'"
  by (erule sub_run.cases) (auto dest: plain_arg plain_11)

lemma plain_no_memo: "plain f \<Longrightarrow> \<not> memo_hint f"
  by (cases f rule: memo_hint.cases) auto

lemma plain_memo_free: "plain f \<Longrightarrow> memo_free L a f"
  by (rule memo_free_invariant [where I = "\<lambda>(L, a, f). plain f"]) (auto dest: plain_sub simp: plain_no_memo)

lemma memo_free_1: "memo_free L a (op 1 b)"
  by (rule plain_memo_free, cases b) auto

section \<open>Showing that a formula reaches no memo hint\<close>

text \<open>One rule for each operator; a loop needs \<open>memo_free_invariant\<close>.\<close>

lemma memo_free_cons: "memo_free L a (Cell b c) \<Longrightarrow> memo_free L a d \<Longrightarrow> memo_free L a (Cell (Cell b c) d)"
  by (rule memo_free_step) (auto elim: sub_run_consE)

lemma memo_free_6:
  assumes "memo_free L a b" "nock_in L a b (Atom 0) \<Longrightarrow> memo_free L a c" "nock_in L a b (Atom 1) \<Longrightarrow> memo_free L a d"
  shows "memo_free L a (op3 6 b c d)"
  by (rule memo_free_step) (auto elim!: sub_run_opE intro: assms)

lemma memo_free_8:
  assumes "memo_free L a b" "\<And>x. nock_in L a b x \<Longrightarrow> memo_free L (Cell x a) c"
  shows "memo_free L a (op2 8 b c)"
  by (rule memo_free_step) (auto elim!: sub_run_opE intro: assms)

lemma memo_free_9:
  assumes "memo_free L a c" "\<And>x f. nock_in L a c x \<Longrightarrow> slot b x = Some f \<Longrightarrow> memo_free L x f"
  shows "memo_free L a (op2 9 (Atom b) c)"
  by (rule memo_free_step) (auto elim!: sub_run_opE intro: assms)

lemma memo_free_11:
  assumes "memo_free L a b"
    "\<And>bat sam con t gof. L = Cell (Cell bat (Cell sam con)) t \<Longrightarrow> nock_in L a b gof \<Longrightarrow> memo_free t (Cell bat (Cell gof con)) bat"
  shows "memo_free L a (op 11 b)"
  by (rule memo_free_step, cases b) (auto elim!: sub_run_opE intro: assms)

section \<open>Modes\<close>

datatype mode = Hip nat | Free

definition may :: "mode \<Rightarrow> noun \<Rightarrow> noun \<Rightarrow> noun \<Rightarrow> bool" where
  "may h L a f \<longleftrightarrow> (h = Free \<longrightarrow> memo_free L a f)"

lemma may_Hip [simp]: "may (Hip n) L a f"
  by (simp add: may_def)

lemma may_Free [simp]: "may Free L a f \<longleftrightarrow> memo_free L a f"
  by (simp add: may_def)

lemma may_sub: "sub_run (L, a, f) (L', a', f') \<Longrightarrow> may h L a f \<Longrightarrow> may h L' a' f'"
  by (auto simp: may_def dest: memo_free_sub)

lemmas may_cons = sub_cons_l [THEN may_sub] sub_cons_r [THEN may_sub]
lemmas may_2 = sub_2_l [THEN may_sub] sub_2_r [THEN may_sub] sub_2_call [THEN may_sub] sub_2_both [THEN may_sub]
lemmas may_1 = sub_3 [THEN may_sub] sub_4 [THEN may_sub] sub_5 [THEN may_sub]
lemmas may_6 = sub_6 [THEN may_sub] sub_6_yes [THEN may_sub] sub_6_no [THEN may_sub]
lemmas may_7_8 = sub_7 [THEN may_sub] sub_7_then [THEN may_sub] sub_8 [THEN may_sub] sub_8_then [THEN may_sub]
lemmas may_9 = sub_9 [THEN may_sub] sub_9_call [THEN may_sub]
lemmas may_10 = sub_10 [THEN may_sub] sub_10_clue [THEN may_sub]
lemmas may_11 = sub_11 [THEN may_sub] sub_11_gate [THEN may_sub]

lemma may_hint:
  assumes "may h L a (op2 10 p q)" "h = Free" "zep = p \<or> (\<exists>c. p = Cell zep c)"
  shows "zep \<noteq> Atom c3__memo"
  using memo_free_hint [of L a "op2 10 p q"] assms by auto

end
