(* ===== verification/Nock_Sound.thy ===== *)
theory Nock_Sound
  imports Nock_Reach
begin

text \<open>
  The interpreter computes Nock: a product it returns is the product that \<open>nock_in\<close> defines, whatever the
  fuel, the jets and the hints, provided that the jets agree with the formulas they stand for.

  The table of products of the wire is only right without a namespace, since its keys do not say which
  namespace a product was computed in. The invariant \<open>wire_ok\<close> therefore asks for right entries and an empty
  namespace in the mode of the rock, and for nothing in the mode \<open>Free\<close>, where runs make no memo hint and
  jets have no key. The lemmas hold in every mode, on the contract \<open>jets_for\<close> of the jets in that mode.
\<close>

section \<open>The invariant of the wire\<close>

definition mem_sound :: "jets \<Rightarrow> u2_slot \<Rightarrow> bool" where
  "mem_sound J lot \<longleftrightarrow>
     (\<forall>b f p. u2_cs_find lot 0 (Cell b f) = Some p \<longrightarrow> nock_in u2_nul b f p) \<and>
     (\<forall>xip a j cor fol key v. J xip (Atom a) = Some j \<longrightarrow> mates xip cor \<longrightarrow> slot a cor = Some fol \<longrightarrow>
        key_f j cor = Some key \<longrightarrow> u2_cs_find lot (fun_m j) key = Some v \<longrightarrow> nock_in u2_nul cor fol v)"

definition wire_ok :: "jets \<Rightarrow> mode \<Rightarrow> u2_wire \<Rightarrow> bool" where
  "wire_ok J h s \<longleftrightarrow> (\<forall>n. h = Hip n \<longrightarrow> hip_m (rail s) = n) \<and>
     (h = Hip c3__rock \<longrightarrow> lad s = u2_nul \<and> cash_ok (lot_r (rail s)) \<and> mem_sound J (lot_r (rail s)))"

definition same_mem :: "u2_wire \<Rightarrow> u2_wire \<Rightarrow> bool" where
  "same_mem s s' \<longleftrightarrow> rail s' = rail s \<and> lad s' = lad s \<and> des s' = des s"

lemma same_mem_refl [simp]: "same_mem s s"
  by (simp add: same_mem_def)

lemma wire_ok_same: "same_mem s s' \<Longrightarrow> wire_ok J h s' = wire_ok J h s"
  by (simp add: same_mem_def wire_ok_def)

lemma wire_okI: "wire_ok J h s \<Longrightarrow> same_mem s s' \<Longrightarrow> wire_ok J h s'"
  by (simp add: wire_ok_same)

lemma wire_ok_updates [simp]:
  "wire_ok J h (s\<lparr>tax := x\<rparr>) = wire_ok J h s" "wire_ok J h (s\<lparr>kit := k\<rparr>) = wire_ok J h s"
  "wire_ok J h (s\<lparr>des := d\<rparr>) = wire_ok J h s" "wire_ok J h (s\<lparr>sat := a\<rparr>) = wire_ok J h s"
  by (simp_all add: wire_ok_def)

section \<open>Leaving through a trap\<close>

lemma nk_ends_wail_noun:
  assumes "\<And>j s'. same_mem s s' \<Longrightarrow> P (Inl j) s'" "\<And>x s'. same_mem s s' \<Longrightarrow> P (Inr x) s'"
  shows "nk_ends P u2_cm_wail s"
  using assms by (auto simp: nk_ends_def u2_cm_wail_def nk_dead_def nk_return_def same_mem_def
      split: list.splits sum.splits)

lemma nk_ends_jump: "(\<And>j s'. same_mem s s' \<Longrightarrow> P (Inl j) s') \<Longrightarrow> nk_ends P (nk_jump hoe) s"
  by (simp add: nk_ends_def nk_jump_def same_mem_def)

lemma same_mem_trans: "same_mem s t \<Longrightarrow> same_mem t u \<Longrightarrow> same_mem s u"
  by (simp add: same_mem_def)

lemma nk_ends_bowl: "(\<And>j s'. same_mem s s' \<Longrightarrow> P (Inl j) s') \<Longrightarrow> nk_ends P (u2_cm_bowl how) s"
  unfolding u2_cm_bowl_def
  by (rule nk_ends_bind [where Q = "\<lambda>r s'. same_mem s s'"])
    (auto intro!: nk_ends_wail_noun nk_ends_jump intro: same_mem_trans)

lemma nk_ends_bail:
  assumes "\<And>j s'. same_mem s s' \<Longrightarrow> P (Inl j) s'" shows "nk_ends P (u2_cm_bail how) s"
proof -
  have "nk_ends P (nk_bind u2_cm_wail (\<lambda>jaq. nk_jump (Cell how jaq))) s"
    using assms by (intro nk_ends_bind [where Q = "\<lambda>r s'. same_mem s s'"])
      (auto intro!: nk_ends_wail_noun nk_ends_jump intro: same_mem_trans)
  then show ?thesis unfolding u2_cm_bail_def using assms by (intro nk_ends_get) (auto intro: nk_ends_dead)
qed

lemma nk_ends_exit: "(\<And>j s'. same_mem s s' \<Longrightarrow> P (Inl j) s') \<Longrightarrow> nk_ends P nk_exit s"
  unfolding nk_exit_def by (rule nk_ends_bail)

lemma nk_ends_res:
  assumes "\<And>x. r = Inr x \<Longrightarrow> P (Inr x) s" "\<And>j s'. same_mem s s' \<Longrightarrow> P (Inl j) s'"
  shows "nk_ends P (nk_res r) s"
  using assms unfolding nk_res_def
  by (auto split: sum.splits fault.splits intro!: nk_ends_return nk_ends_dead nk_ends_bail)

lemma nk_ends_good:
  assumes "\<And>x. r = Some x \<Longrightarrow> P (Inr x) s" "\<And>j s'. same_mem s s' \<Longrightarrow> P (Inl j) s'"
  shows "nk_ends P (nk_good r) s"
  using assms unfolding nk_good_def by (auto split: option.splits intro!: nk_ends_return nk_ends_exit)

lemma nk_ends_wail:
  assumes "\<And>j s'. same_mem s s' \<Longrightarrow> P (Inl j) s'" "\<And>x s'. same_mem s s' \<Longrightarrow> P (Inr (2, x)) s'"
  shows "nk_ends P nk_wail s"
  unfolding nk_wail_def using assms
  by (intro nk_ends_bind [where Q = "\<lambda>r s'. same_mem s s'"]) (auto intro!: nk_ends_wail_noun nk_ends_return)

lemma nk_ends_done:
  assumes "\<And>j s'. same_mem s s' \<Longrightarrow> P (Inl j) s'" "\<And>s'. same_mem s s' \<Longrightarrow> P (Inr ()) s'"
  shows "nk_ends P u2_cm_done s"
  using assms by (simp add: nk_ends_def u2_cm_done_def nk_dead_def nk_return_def same_mem_def)

lemma nk_ends_bind_res:
  assumes "\<And>x. r = Inr x \<Longrightarrow> nk_ends P (f x) s" "\<And>j s'. same_mem s s' \<Longrightarrow> P (Inl j) s'"
  shows "nk_ends P (nk_bind (nk_res r) f) s"
proof (cases r)
  case (Inr x)
  then show ?thesis using assms(1) by (simp add: nk_ends_def nk_bind_def nk_res_def nk_return_def)
next
  case (Inl e)
  have "nk_ends (\<lambda>r s'. (\<exists>j. r = Inl j) \<and> same_mem s s') (nk_res r) s"
    using Inl by (intro nk_ends_res) auto
  then show ?thesis by (rule nk_ends_bind) (use assms(2) in auto)
qed

section \<open>What the interpreters promise\<close>

definition ran :: "jets \<Rightarrow> mode \<Rightarrow> noun \<Rightarrow> noun \<Rightarrow> noun \<Rightarrow> jump + noun \<Rightarrow> u2_wire \<Rightarrow> bool" where
  "ran J h L a f r s \<longleftrightarrow> wire_ok J h s \<and> (\<forall>p. r = Inr p \<longrightarrow> nock_in L a f p \<and> lad s = L)"

definition vran :: "jets \<Rightarrow> mode \<Rightarrow> noun \<Rightarrow> noun \<Rightarrow> noun \<Rightarrow> jump + nat \<times> noun \<Rightarrow> u2_wire \<Rightarrow> bool" where
  "vran J h L a f r s \<longleftrightarrow> wire_ok J h s \<and>
     (\<forall>pon p. r = Inr (pon, p) \<longrightarrow> pon \<le> 2 \<and> (pon = 0 \<longrightarrow> nock_in L a f p \<and> lad s = L))"

definition wran :: "jets \<Rightarrow> mode \<Rightarrow> noun \<Rightarrow> noun \<Rightarrow> noun \<Rightarrow> jump + u2_weak \<Rightarrow> u2_wire \<Rightarrow> bool" where
  "wran J h L a f r s \<longleftrightarrow> wire_ok J h s \<and> (\<forall>p. r = Inr (Some p) \<longrightarrow> nock_in L a f p \<and> lad s = L)"

definition interp_ok :: "jets \<Rightarrow> mode \<Rightarrow> interp \<Rightarrow> bool" where
  "interp_ok J h R \<longleftrightarrow>
     (\<forall>a f s. wire_ok J h s \<longrightarrow> may h (lad s) a f \<longrightarrow> nk_ends (ran J h (lad s) a f) (i_cool R a f) s) \<and>
     (h \<noteq> Hip c3__rock \<longrightarrow> (\<forall>a f s. wire_ok J h s \<longrightarrow> may h (lad s) a f \<longrightarrow>
       nk_ends (vran J h (lad s) a f) (i_mool R a f) s))"

lemma rl_save_variants:
  "u2_rl_save_cell ral sel a b pro = u2_rl_save ral sel (Cell a b) pro"
  "u2_rl_uniq ral som = u2_rl_save ral 1 som som"
  by (simp_all add: u2_rl_save_cell_def u2_rl_save_def u2_rl_uniq_def u2_cs_save_cell_def)

lemma rl_save_ok:
  assumes "wire_ok J h s" "u2_rl_save (rail s) sel sam pro = Inr (p, ral)"
    "\<And>lot. h = Hip c3__rock \<Longrightarrow> u2_cs_save (lot_r (rail s)) sel sam pro = Inr lot \<Longrightarrow> cash_ok lot \<and> mem_sound J lot"
  shows "p = pro" "wire_ok J h (s\<lparr>rail := ral\<rparr>)"
proof -
  have *: "p = pro \<and> (ral = rail s \<and> h \<noteq> Hip c3__rock \<or>
      (\<exists>lot. u2_cs_save (lot_r (rail s)) sel sam pro = Inr lot \<and> ral = (rail s)\<lparr>lot_r := lot\<rparr>))"
    using assms(1,2) by (auto simp: u2_rl_save_def wire_ok_def rbind_eq_Inr split: if_splits)
  then show "p = pro" by blast
  show "wire_ok J h (s\<lparr>rail := ral\<rparr>)" using * assms(1,3) by (auto simp: wire_ok_def)
qed

lemma rl_find_0:
  assumes "wire_ok J h s" "h \<noteq> Free" "u2_rl_find_cell (rail s) 0 b f = Some p"
  shows "nock_in (lad s) b f p"
  using assms by (cases h) (auto simp: u2_rl_find_cell_def cs_find_parts_eq wire_ok_def mem_sound_def split: if_splits)

text \<open>The rules above for the invariant.\<close>

lemma res_bind:
  assumes "wire_ok J h s" "\<And>x. r = Inr x \<Longrightarrow> nk_ends P (f x) s" "\<And>j s'. wire_ok J h s' \<Longrightarrow> P (Inl j) s'"
  shows "nk_ends P (nk_bind (nk_res r) f) s"
  by (rule nk_ends_bind_res) (use assms in \<open>auto intro: wire_okI\<close>)

lemma res_ok:
  assumes "wire_ok J h s" "\<And>x. r = Inr x \<Longrightarrow> P (Inr x) s" "\<And>j s'. wire_ok J h s' \<Longrightarrow> P (Inl j) s'"
  shows "nk_ends P (nk_res r) s"
  by (rule nk_ends_res) (use assms in \<open>auto intro: wire_okI\<close>)

lemma leave_ok:
  assumes "wire_ok J h s" "\<And>j s'. wire_ok J h s' \<Longrightarrow> P (Inl j) s'"
  shows "nk_ends P nk_exit s" "nk_ends P (u2_cm_bail how) s" "nk_ends P (u2_cm_bowl how) s" "nk_ends P (nk_dead e) s"
  by (rule nk_ends_exit nk_ends_bail nk_ends_bowl nk_ends_dead, use assms in \<open>auto intro: wire_okI\<close>)+

lemma wail_ok:
  assumes "wire_ok J h s" "\<And>j s'. wire_ok J h s' \<Longrightarrow> P (Inl j) s'" "\<And>x s'. wire_ok J h s' \<Longrightarrow> P (Inr (2, x)) s'"
  shows "nk_ends P nk_wail s"
  by (rule nk_ends_wail) (use assms wire_okI [OF assms(1)] in blast)+

lemma done_bind:
  assumes "wire_ok J h s" "\<And>s'. wire_ok J h s' \<Longrightarrow> lad s' = lad s \<Longrightarrow> nk_ends P (k ()) s'"
    "\<And>j s'. wire_ok J h s' \<Longrightarrow> P (Inl j) s'"
  shows "nk_ends P (nk_bind u2_cm_done k) s"
proof (rule nk_ends_bind [where Q = "\<lambda>r s'. wire_ok J h s' \<and> lad s' = lad s"])
  show "nk_ends (\<lambda>r s'. wire_ok J h s' \<and> lad s' = lad s) u2_cm_done s"
    by (rule nk_ends_done) (use assms(1) in \<open>auto intro: wire_okI simp: same_mem_def\<close>)
qed (use assms(2,3) in auto)

lemma put_bind: "nk_ends P (k ()) (f s) \<Longrightarrow> nk_ends P (nk_bind (nk_put f) k) s"
  by (simp add: nk_ends_def nk_bind_def nk_put_def)

lemma ran_simps [simp]:
  "ran J h L a f (Inl j) s \<longleftrightarrow> wire_ok J h s"
  "ran J h L a f (Inr p) s \<longleftrightarrow> wire_ok J h s \<and> nock_in L a f p \<and> lad s = L"
  by (auto simp: ran_def)

lemma vran_simps [simp]:
  "vran J h L a f (Inl j) s \<longleftrightarrow> wire_ok J h s"
  "vran J h L a f (Inr (pon, p)) s \<longleftrightarrow> wire_ok J h s \<and> pon \<le> 2 \<and> (pon = 0 \<longrightarrow> nock_in L a f p \<and> lad s = L)"
  by (auto simp: vran_def)

lemma wran_simps [simp]:
  "wran J h L a f (Inl j) s \<longleftrightarrow> wire_ok J h s" "wran J h L a f (Inr None) s \<longleftrightarrow> wire_ok J h s"
  "wran J h L a f (Inr (Some p)) s \<longleftrightarrow> wire_ok J h s \<and> nock_in L a f p \<and> lad s = L"
  by (auto simp: wran_def)

lemma cool_bind:
  assumes "interp_ok J h R" "wire_ok J h s" "may h (lad s) a f"
    "\<And>x s'. wire_ok J h s' \<Longrightarrow> lad s' = lad s \<Longrightarrow> nock_in (lad s) a f x \<Longrightarrow> nk_ends P (k x) s'"
    "\<And>j s'. wire_ok J h s' \<Longrightarrow> P (Inl j) s'"
  shows "nk_ends P (nk_bind (i_cool R a f) k) s"
  by (rule nk_ends_bind [where Q = "ran J h (lad s) a f"]) (use assms in \<open>auto simp: interp_ok_def\<close>)

lemma cool_tail:
  assumes "interp_ok J h R" "wire_ok J h s" "may h (lad s) a f" "\<And>p. nock_in (lad s) a f p \<Longrightarrow> nock_in L b g p" "lad s = L"
  shows "nk_ends (ran J h L b g) (i_cool R a f) s"
proof -
  have "nk_ends (ran J h (lad s) a f) (i_cool R a f) s" using assms(1-3) by (simp add: interp_ok_def)
  then show ?thesis by (rule nk_ends_conseq) (use assms(4,5) in \<open>auto simp: ran_def\<close>)
qed

lemma mool_bind:
  assumes "interp_ok J h R" "wire_ok J h s" "h \<noteq> Hip c3__rock" "may h (lad s) a f"
    "\<And>pon x s'. wire_ok J h s' \<Longrightarrow> pon \<le> 2 \<Longrightarrow> (pon = 0 \<Longrightarrow> lad s' = lad s \<and> nock_in (lad s) a f x) \<Longrightarrow> nk_ends P (k (pon, x)) s'"
    "\<And>j s'. wire_ok J h s' \<Longrightarrow> P (Inl j) s'"
  shows "nk_ends P (nk_bind (i_mool R a f) k) s"
proof (rule nk_ends_bind [where Q = "vran J h (lad s) a f"])
  fix x s' assume "vran J h (lad s) a f (Inr x) s'"
  then show "nk_ends P (k x) s'" using assms(5) by (cases x) auto
qed (use assms(1-4,6) in \<open>auto simp: interp_ok_def\<close>)

lemma mool_tail:
  assumes "interp_ok J h R" "wire_ok J h s" "h \<noteq> Hip c3__rock" "may h (lad s) a f" "\<And>p. nock_in (lad s) a f p \<Longrightarrow> nock_in L b g p" "lad s = L"
  shows "nk_ends (vran J h L b g) (i_mool R a f) s"
proof -
  have "nk_ends (vran J h (lad s) a f) (i_mool R a f) s" using assms(1-4) by (simp add: interp_ok_def)
  then show ?thesis by (rule nk_ends_conseq) (use assms(5,6) in \<open>auto simp: vran_def\<close>)
qed

lemma mool_pon:
  assumes "interp_ok J h R" "wire_ok J h s" "h \<noteq> Hip c3__rock" "may h (lad s) a f"
    "\<And>x s'. wire_ok J h s' \<Longrightarrow> lad s' = lad s \<Longrightarrow> nock_in (lad s) a f x \<Longrightarrow> nk_ends (vran J h L b g) (k x) s'"
  shows "nk_ends (vran J h L b g) (nk_pon (i_mool R a f) k) s"
  unfolding nk_pon_def
  by (rule mool_bind [OF assms(1-4)]) (use assms(5) in \<open>auto intro: nk_ends_return\<close>)

text \<open>
  The contract of a table of jets: what keys promise of the products saved under them, and that a jet returns
  nothing but the product of the formula it stands for, when the interpreters it is given do. \<open>jets_sound\<close> asks
  for this on a wire whose table is right, \<open>jets_for\<close> in a mode; without knowledge of the table no jet
  may have a key.
\<close>

locale jet_keys =
  fixes J :: jets
  assumes jet_key: "J xip (Atom a) = Some j \<Longrightarrow> mates xip cor \<Longrightarrow> slot a cor = Some fol \<Longrightarrow> key_f j cor = Some key \<Longrightarrow>
      J xip' (Atom a') = Some j' \<Longrightarrow> mates xip' cor' \<Longrightarrow> slot a' cor' = Some fol' \<Longrightarrow> key_f j' cor' = Some key \<Longrightarrow>
      fun_m j = fun_m j' \<Longrightarrow> nock_in u2_nul cor fol p \<Longrightarrow> nock_in u2_nul cor' fol' p"
    and jet_mote: "J xip axe = Some j \<Longrightarrow> key_f j cor = Some key \<Longrightarrow> fun_m j \<noteq> 0 \<and> fun_m j \<noteq> 1"
begin

lemma mem_sound_save_0:
  assumes "cash_ok lot" "mem_sound J lot" "u2_cs_save lot 0 (Cell b f) pro = Inr lot'" "nock_in u2_nul b f pro"
  shows "cash_ok lot' \<and> mem_sound J lot'"
proof -
  note find = cs_save_find [OF assms(1,3)]
  have "nock_in u2_nul b' f' p" if "u2_cs_find lot' 0 (Cell b' f') = Some p" for b' f' p
    using find(2) [OF that] assms(2,4) by (auto simp: mem_sound_def split: if_splits)
  moreover have "u2_cs_find lot (fun_m j) key = Some v"
    if "J xip (Atom a) = Some j" "key_f j cor = Some key" "u2_cs_find lot' (fun_m j) key = Some v" for xip a j cor key v
    using find(2) [OF that(3)] jet_mote [OF that(1,2)] by (auto split: if_splits)
  ultimately show ?thesis using find(1) assms(2) unfolding mem_sound_def by blast
qed

lemma mem_sound_save_jet:
  assumes "cash_ok lot" "mem_sound J lot" "u2_cs_save lot (fun_m j) key pro = Inr lot'"
    and "J xip (Atom a) = Some j" "mates xip cor" "slot a cor = Some fol" "key_f j cor = Some key" "nock_in u2_nul cor fol pro"
  shows "cash_ok lot' \<and> mem_sound J lot'"
proof -
  note find = cs_save_find [OF assms(1,3)]
  have "u2_cs_find lot 0 (Cell b f) = Some p" if "u2_cs_find lot' 0 (Cell b f) = Some p" for b f p
    using find(2) [OF that] jet_mote [OF assms(4,7)] by (auto split: if_splits)
  moreover have "nock_in u2_nul cor' fol' v"
    if "J xip' (Atom a') = Some j'" "mates xip' cor'" "slot a' cor' = Some fol'" "key_f j' cor' = Some key'"
      "u2_cs_find lot' (fun_m j') key' = Some v" for xip' a' j' cor' fol' key' v
    using find(2) [OF that(5)] jet_key [OF assms(4-7) that(1-3)] that(1-4) assms(2,8)
    by (auto simp: mem_sound_def split: if_splits)
  ultimately show ?thesis using find(1) assms(2) unfolding mem_sound_def by blast
qed

lemma mem_sound_save_1:
  assumes "cash_ok lot" "mem_sound J lot" "u2_cs_save lot 1 sam pro = Inr lot'"
  shows "cash_ok lot' \<and> mem_sound J lot'"
proof -
  note find = cs_save_find [OF assms(1,3)]
  have "u2_cs_find lot 0 x = Some v" if "u2_cs_find lot' 0 x = Some v" for x v
    using find(2) [OF that] by (auto split: if_splits)
  moreover have "u2_cs_find lot (fun_m j) x = Some v"
    if "J xip (Atom a) = Some j" "key_f j cor = Some x" "u2_cs_find lot' (fun_m j) x = Some v" for xip a j cor x v
    using find(2) [OF that(3)] jet_mote [OF that(1,2)] by (auto split: if_splits)
  ultimately show ?thesis using find(1) assms(2) unfolding mem_sound_def by blast
qed

end

locale jets_sound = jet_keys +
  assumes jet_product: "J xip (Atom a) = Some j \<Longrightarrow> mates xip cor \<Longrightarrow> slot a cor = Some fol \<Longrightarrow>
      interp_ok J (Hip n) R \<Longrightarrow> wire_ok J (Hip n) s \<Longrightarrow> nk_ends (wran J (Hip n) (lad s) cor fol) (fun_f j R cor) s"

locale jets_for = jet_keys +
  fixes h :: mode
  assumes jet_run: "J xip (Atom a) = Some j \<Longrightarrow> mates xip cor \<Longrightarrow> slot a cor = Some fol \<Longrightarrow>
      interp_ok J h R \<Longrightarrow> wire_ok J h s \<Longrightarrow> may h (lad s) cor fol \<Longrightarrow> nk_ends (wran J h (lad s) cor fol) (fun_f j R cor) s"
    and jet_keyless: "h = Free \<Longrightarrow> J xip axe = Some j \<Longrightarrow> key_f j cor = None"

context jets_sound
begin

lemma in_mode: "jets_for J (Hip n)"
  by unfold_locales (auto intro: jet_product)

end

context jets_for
begin

lemma ho_run_ok:
  assumes "J xip (Atom a) = Some j" "mates xip cor" "slot a cor = Some fol" "interp_ok J h R" "wire_ok J h s" "lad s = L"
    "may h L cor fol"
  shows "nk_ends (ran J h L cor fol) (ho_run R j cor) s"
  unfolding ho_run_def
  by (rule nk_ends_bind [OF jet_run [OF assms(1-5)]])
    (use assms(6,7) in \<open>auto simp: wran_def wire_ok_same intro: nk_ends_good\<close>)

lemma jet_flag_bind:
  assumes "wire_ok J h s" "\<And>s'. wire_ok J h s' \<Longrightarrow> lad s' = lad s \<Longrightarrow> nk_ends P (k ()) s'"
  shows "nk_ends P (nk_bind (jet_flag f j) k) s"
proof -
  let ?s = "s\<lparr>sat := (sat s)(jet_id j := f (sat s (jet_id j)))\<rparr>"
  have "nk_ends (\<lambda>r s'. r = Inr () \<and> s' = ?s) (jet_flag f j) s"
    unfolding jet_flag_def by (intro nk_ends_put) simp
  then show ?thesis by (rule nk_ends_bind) (use assms in auto)
qed

lemma save_jet_ok:
  assumes "J xip (Atom a) = Some j" "mates xip cor" "slot a cor = Some fol" "key_f j cor = Some key"
    "wire_ok J h s" "nock_in L cor fol pro" "lad s = L"
  shows "nk_ends (ran J h L cor fol) (nk_save (fun_m j) key pro) s"
  unfolding nk_save_def
proof (intro nk_ends_get nk_ends_bind_res)
  fix x assume x: "u2_rl_save (rail s) (fun_m j) key pro = Inr x"
  obtain p ral where pr: "x = (p, ral)" by fastforce
  have "cash_ok lot \<and> mem_sound J lot"
    if "h = Hip c3__rock" "u2_cs_save (lot_r (rail s)) (fun_m j) key pro = Inr lot" for lot
    by (rule mem_sound_save_jet [OF _ _ that(2) assms(1-4)]) (use assms(5-7) that(1) in \<open>auto simp: wire_ok_def\<close>)
  then have ok: "p = pro" "wire_ok J h (s\<lparr>rail := ral\<rparr>)"
    using rl_save_ok [OF assms(5) x [unfolded pr]] by blast+
  have "nk_ends (\<lambda>r s'. r = Inr () \<and> s' = s\<lparr>rail := ral\<rparr>) (nk_put (\<lambda>s. s\<lparr>rail := ral\<rparr>)) s"
    by (intro nk_ends_put) simp
  then show "nk_ends (ran J h L cor fol) (case x of (pro, ral) \<Rightarrow>
      nk_bind (nk_put (\<lambda>s. s\<lparr>rail := ral\<rparr>)) (\<lambda>_. nk_return pro)) s"
    unfolding pr prod.case by (rule nk_ends_bind) (use ok assms(6,7) in \<open>auto intro: nk_ends_return\<close>)
qed (simp add: wire_ok_same assms(5))

lemma ho_use_soft_ok:
  assumes "J xip (Atom a) = Some j" "mates xip cor" "slot a cor = Some fol" "interp_ok J h R" "wire_ok J h s" "lad s = L"
    "may h L cor fol"
  shows "nk_ends (ran J h L cor fol) (ho_use_soft R j cor fol) s"
proof -
  have run: "nk_ends (ran J h L cor fol) (u2_cn_nock R cor fol) s"
    unfolding u2_cn_nock_def by (rule cool_tail [OF assms(4,5)]) (use assms(6,7) in auto)
  have val: "nock_in L cor fol val" if "key_f j cor = Some key" "u2_rl_find (rail s) (fun_m j) key = Some val" for key val
    using that assms jet_keyless [of xip "Atom a" j cor]
    unfolding u2_rl_find_def wire_ok_def mem_sound_def by (cases h) (auto split: if_splits)
  have save: "nk_ends (ran J h L cor fol) (nk_bind (u2_cn_nock R cor fol) (nk_save (fun_m j) key)) s"
    if "key_f j cor = Some key" for key
    by (rule nk_ends_bind [OF run]) (use save_jet_ok [OF assms(1-3) that] in auto)
  show ?thesis
    unfolding ho_use_soft_def using run val save assms(5,6)
    by (intro nk_ends_get) (auto split: option.splits intro: nk_ends_return)
qed

lemma ho_use_ok:
  assumes "J xip (Atom a) = Some j" "mates xip cor" "slot a cor = Some fol" "interp_ok J h R" "wire_ok J h s" "lad s = L"
    "may h L cor fol"
  shows "nk_ends (ran J h L cor fol) (u2_ho_use R j cor fol) s"
proof -
  note run = ho_run_ok [OF assms(1-4) _ _ assms(7)]
  have twice: "nk_ends (ran J h L cor fol) (nk_bind (ho_run R j cor) (\<lambda>_. nk_bind (ho_run R j cor) (\<lambda>pro.
      nk_bind (jet_flag g j) (\<lambda>_. nk_return pro)))) s'" if "wire_ok J h s'" "lad s' = L" for s' g
    by (rule nk_ends_bind [OF run [OF that]], simp, rule nk_ends_bind [OF run])
      (auto intro!: jet_flag_bind nk_ends_return)
  have "nk_ends (ran J h L cor fol) (ho_use_test R j cor fol) s"
    unfolding ho_use_test_def
  proof (rule jet_flag_bind [OF assms(5)], rule nk_ends_bind)
    fix s' assume "wire_ok J h s'" "lad s' = lad s"
    then have s': "wire_ok J h s'" "lad s' = L" using assms(6) by simp_all
    show "nk_ends (ran J h L cor fol) (nk_get (\<lambda>s. let mem = sat s (jet_id j) in
        if \<not> jet_leak mem then ho_run R j cor
        else nk_bind (jet_flag (jet_memo_update (\<lambda>_. False) \<circ> jet_leak_update (\<lambda>_. False)) j) (\<lambda>_.
             nk_bind (ho_run R j cor) (\<lambda>_. nk_bind (ho_run R j cor) (\<lambda>pro.
             nk_bind (jet_flag (\<lambda>_. mem) j) (\<lambda>_. nk_return pro)))))) s'"
      using run [OF s'] twice s' unfolding Let_def
      by (intro nk_ends_get) (auto intro!: jet_flag_bind)
  next
    fix x s' assume "ran J h L cor fol (Inr x) s'"
    then have s': "wire_ok J h s'" "lad s' = L" by simp_all
    show "nk_ends (ran J h L cor fol)
      (nk_bind (jet_flag (jet_live_update (\<lambda>_. False) \<circ> jet_test_update (\<lambda>_. True)) j) (\<lambda>_.
        nk_bind (u2_nk_soft R cor fol) (\<lambda>sof. nk_bind (jet_flag (jet_live_update (\<lambda>_. True)) j) (\<lambda>_.
        nk_bind (u2_ho_test sof x) (\<lambda>_. nk_return sof))))) s'"
      unfolding u2_nk_soft_def u2_cn_nock_def u2_ho_test_def
      by (rule jet_flag_bind [OF s'(1)], rule cool_bind [OF assms(4)], assumption,
          use s' assms(7) in simp, rule jet_flag_bind, assumption)
        (use s' in \<open>auto simp: nk_ends_def nk_bind_def nk_dead_def nk_return_def\<close>)
  qed simp
  then show ?thesis
    unfolding u2_ho_use_def using run [OF assms(5,6)] ho_use_soft_ok [OF assms] by (intro nk_ends_get) simp
qed

lemma ho_kick_ok:
  assumes "mates xip cor" "interp_ok J h R" "wire_ok J h s" "lad s = L"
    "\<And>a fol p. axe = Atom a \<Longrightarrow> slot a cor = Some fol \<Longrightarrow> nock_in L cor fol p \<Longrightarrow> nock_in L b f p"
    "\<And>a fol. axe = Atom a \<Longrightarrow> slot a cor = Some fol \<Longrightarrow> may h L cor fol"
  shows "nk_ends (wran J h L b f) (u2_ho_kick R J xip cor axe) s"
  unfolding u2_ho_kick_def
proof (rule nk_ends_bind_res)
  fix x assume x: "u2_frag axe cor = Inr x"
  show "nk_ends (wran J h L b f) (case x of None \<Rightarrow> nk_return None | Some fol \<Rightarrow>
      nk_bind (case J xip axe of None \<Rightarrow> u2_nk_soft R cor fol | Some jet_j \<Rightarrow> u2_ho_use R jet_j cor fol)
        (\<lambda>pro. nk_return (Some pro))) s"
  proof (cases x)
    case None
    then show ?thesis using assms(3) by (simp add: nk_ends_return)
  next
    case (Some fol)
    then obtain a where a: "axe = Atom a" "slot a cor = Some fol" using x u2_frag_eq_Inr by blast
    have "nk_ends (ran J h L cor fol)
        (case J xip axe of None \<Rightarrow> u2_nk_soft R cor fol | Some jet_j \<Rightarrow> u2_ho_use R jet_j cor fol) s"
      using ho_use_ok [OF _ assms(1) a(2) assms(2-4) assms(6) [OF a]] cool_tail [OF assms(2,3), of cor fol L]
        assms(4) assms(6) [OF a] a(1)
      by (auto simp: u2_nk_soft_def u2_cn_nock_def split: option.splits)
    then show ?thesis unfolding Some option.case
      by (rule nk_ends_bind) (use assms(5) [OF a] in \<open>auto intro: nk_ends_return\<close>)
  qed
qed (simp add: wire_ok_same assms(3))

lemma find_bind:
  assumes "wire_ok J h s" "nk_ends P (k None) s" "\<And>xip. mates xip cor \<Longrightarrow> nk_ends P (k (Some xip)) s"
    "\<And>j s'. wire_ok J h s' \<Longrightarrow> P (Inl j) s'"
  shows "nk_ends P (nk_bind (nk_find cor) k) s"
proof -
  have "nk_ends (\<lambda>r s'. case r of Inl j \<Rightarrow> wire_ok J h s' | Inr x \<Rightarrow> s' = s \<and> (\<forall>xip. x = Some xip \<longrightarrow> mates xip cor)) (nk_find cor) s"
    unfolding nk_find_def
    by (intro nk_ends_get nk_ends_res) (auto simp: wire_ok_same assms(1) dest: u2_ds_find_mates(2))
  then show ?thesis
  proof (rule nk_ends_bind)
    fix x s' assume "case Inr x of Inl j \<Rightarrow> wire_ok J h s' | Inr x \<Rightarrow> s' = s \<and> (\<forall>xip. x = Some xip \<longrightarrow> mates xip cor)"
    then show "nk_ends P (k x) s'" using assms(2,3) by (cases x) auto
  qed (use assms(4) in auto)
qed

lemma slot_2: "slot 2 (Cell a b) = Some a"
  by (simp add: slot.simps [of 2])

lemma nk_nock_ok:
  assumes "interp_ok J h R" "wire_ok J h s" "lad s = L" "may h L a f"
  shows "nk_ends (wran J h L a f) (u2_nk_nock R (Some a) (Some f)) s"
  unfolding u2_nk_nock_def u2_nk_soft_def u2_cn_nock_def option.case
  by (rule cool_bind [OF assms(1,2)]) (use assms(3,4) in \<open>auto intro: nk_ends_return\<close>)

lemma nk_mong_ok:
  assumes "interp_ok J h R" "wire_ok J h s" "lad s = L"
    "\<And>bat x con p. gat = Cell bat (Cell x con) \<Longrightarrow> nock_in L (Cell bat (Cell sam con)) bat p \<Longrightarrow> nock_in L b f p"
    "\<And>bat x con. gat = Cell bat (Cell x con) \<Longrightarrow> may h L (Cell bat (Cell sam con)) bat"
  shows "nk_ends (wran J h L b f) (u2_nk_mong R J gat sam) s"
  unfolding u2_nk_mong_def
proof (rule nk_ends_bind_res)
  fix x assume "rbind (u2_h gat) (\<lambda>bat. rbind (u2_t gat) (\<lambda>pay. rbind (u2_t pay) (\<lambda>con. Inr (bat, Cell bat (Cell sam con))))) = Inr x"
  then obtain bat y con where g: "gat = Cell bat (Cell y con)" "x = (bat, Cell bat (Cell sam con))"
    by (auto simp: rbind_eq_Inr)
  let ?cor = "Cell bat (Cell sam con)"
  have run: "nk_ends (wran J h L b f) (u2_nk_nock R (Some ?cor) (Some bat)) s"
    by (rule nk_ends_conseq [OF nk_nock_ok [OF assms(1-3) assms(5) [OF g(1)]]]) (auto simp: wran_def intro: assms(4) [OF g(1)])
  have kick: "nk_ends (wran J h L b f) (u2_ho_kick R J xip ?cor (Atom 2)) s" if "mates xip ?cor" for xip
    by (rule ho_kick_ok [OF that assms(1-3)]) (use assms(4,5) [OF g(1)] in \<open>auto simp: slot_2\<close>)
  show "nk_ends (wran J h L b f) (case x of (bat, cor) \<Rightarrow> nk_bind (nk_find cor) (\<lambda>xip.
      case xip of None \<Rightarrow> u2_nk_nock R (Some cor) (Some bat) | Some xip \<Rightarrow> u2_ho_kick R J xip cor (Atom 2))) s"
    unfolding g(2) prod.case by (rule find_bind [OF assms(2)]) (use run kick in auto)
qed (simp add: wire_ok_same assms(2))

lemma cn_mung_ok:
  assumes "interp_ok J h R" "wire_ok J h s" "lad s = L"
    "\<And>bat x con p. gat = Cell bat (Cell x con) \<Longrightarrow> nock_in L (Cell bat (Cell sam con)) bat p \<Longrightarrow> nock_in L b f p"
    "\<And>bat x con. gat = Cell bat (Cell x con) \<Longrightarrow> may h L (Cell bat (Cell sam con)) bat"
  shows "nk_ends (ran J h L b f) (u2_cn_mung R J gat sam) s"
  unfolding u2_cn_mung_def
  by (rule nk_ends_bind [OF nk_mong_ok [OF assms]]) (auto simp: wran_def wire_ok_same intro: nk_ends_good)

lemma ho_kicq_ok:
  assumes "mates xip cor" "interp_ok J h R" "wire_ok J h s" "lad s = L"
    "\<And>a fol p. axe = Atom a \<Longrightarrow> slot a cor = Some fol \<Longrightarrow> nock_in L cor fol p \<Longrightarrow> nock_in L b f p"
    "\<And>a fol. axe = Atom a \<Longrightarrow> slot a cor = Some fol \<Longrightarrow> may h L cor fol"
  shows "nk_ends (\<lambda>r s'. wire_ok J h s' \<and>
      (\<forall>pon p. r = Inr (pon, Some p) \<longrightarrow> pon \<le> 2 \<and> (pon = 0 \<longrightarrow> nock_in L b f p \<and> lad s' = L)))
    (u2_ho_kicq R J xip cor axe) s" (is "nk_ends ?P _ _")
  unfolding u2_ho_kicq_def
proof (rule nk_ends_trap [where Q = ?P])
  have s: "wire_ok J h (u2_cm_rind s)" "lad (u2_cm_rind s) = L" using assms(3,4) by (simp_all add: u2_cm_rind_def)
  show "nk_ends ?P (nk_bind (u2_ho_kick R J xip cor axe) (\<lambda>pro. nk_bind u2_cm_done (\<lambda>_. nk_return (0, pro)))) (u2_cm_rind s)"
  proof (rule nk_ends_bind [OF ho_kick_ok [OF assms(1,2) s assms(5,6)]])
    fix x s' assume x: "wran J h L b f (Inr x) s'"
    then show "nk_ends ?P (nk_bind u2_cm_done (\<lambda>_. nk_return (0, x))) s'"
      by (intro done_bind [of J h]) (auto simp: wran_def intro!: nk_ends_return)
  qed auto
  fix d hoe s' assume "?P (Inl (Jump d hoe)) s'"
  then have ok: "wire_ok J h s'" by simp
  show "nk_ends ?P (nk_bind (nk_res (u2_bi_h hoe)) (\<lambda>how. nk_bind (nk_res (u2_bi_t hoe)) (\<lambda>pro.
      if how = Atom c3__exit then nk_return (2, Some pro) else if how = Atom c3__need then nk_return (1, Some pro)
      else if how = Atom c3__fail then u2_cm_bail (Atom c3__fail) else nk_dead Abort))) s'"
    by (intro res_bind [OF ok]) (use leave_ok [OF ok, of ?P] ok in \<open>auto intro!: nk_ends_return\<close>)
qed auto

definition slammed :: "noun \<Rightarrow> noun \<Rightarrow> noun \<Rightarrow> jump + nat \<times> noun \<Rightarrow> u2_wire \<Rightarrow> bool" where
  "slammed t gat sam r s \<longleftrightarrow> wire_ok J h s \<and> (\<forall>pon p. r = Inr (pon, p) \<longrightarrow> pon \<le> 2 \<and> (pon = 0 \<longrightarrow> lad s = t \<and>
     (\<exists>bat x con. gat = Cell bat (Cell x con) \<and> nock_in t (Cell bat (Cell sam con)) bat p)))"

lemma slammed_simps [simp]:
  "slammed t gat sam (Inl j) s \<longleftrightarrow> wire_ok J h s"
  "slammed t gat sam (Inr (pon, p)) s \<longleftrightarrow> wire_ok J h s \<and> pon \<le> 2 \<and> (pon = 0 \<longrightarrow> lad s = t \<and>
     (\<exists>bat x con. gat = Cell bat (Cell x con) \<and> nock_in t (Cell bat (Cell sam con)) bat p))"
  by (auto simp: slammed_def)

lemma gate_cases:
  obtains bat x con where "gat = Cell bat (Cell x con)" | "\<And>bat x con. gat \<noteq> Cell bat (Cell x con)"
  by blast

lemma molg_ok:
  assumes "interp_ok J h R" "wire_ok J h s" "h \<noteq> Hip c3__rock" "lad s = t"
    "\<And>bat x con. gat = Cell bat (Cell x con) \<Longrightarrow> may h t (Cell bat (Cell sam con)) bat"
  shows "nk_ends (slammed t gat sam) (nock_molg R gat sam) s"
proof (cases gat rule: gate_cases)
  case (1 bat x con)
  have "nk_ends (vran J h t (Cell bat (Cell sam con)) bat) (nock_molg R gat sam) s"
    unfolding 1 nock_molg_def noun.case by (rule mool_tail [OF assms(1-3)]) (use assms(4) assms(5) [OF 1] in auto)
  then show ?thesis by (rule nk_ends_conseq) (auto simp: vran_def slammed_def 1)
next
  case 2
  have "nk_ends (slammed t gat sam) nk_wail s" by (rule wail_ok [OF assms(2)]) auto
  moreover have "nock_molg R gat sam = nk_wail" using 2 by (auto simp: nock_molg_def split: noun.split)
  ultimately show ?thesis by simp
qed

lemma mung_ok:
  assumes "interp_ok J h R" "wire_ok J h s" "lad s = t"
    "\<And>bat x con. gat = Cell bat (Cell x con) \<Longrightarrow> may h t (Cell bat (Cell sam con)) bat"
  shows "nk_ends (slammed t gat sam) (nk_bind (u2_cn_mung R J gat sam) (\<lambda>pro. nk_return (0, pro))) s"
proof (cases gat rule: gate_cases)
  case (1 bat x con)
  have "nk_ends (ran J h t (Cell bat (Cell sam con)) bat) (u2_cn_mung R J gat sam) s"
    by (rule cn_mung_ok [OF assms(1-3)]) (use assms(4) 1 in auto)
  then show ?thesis by (rule nk_ends_bind) (auto simp: 1 intro!: nk_ends_return)
next
  case 2
  have "nk_ends (ran J h t (Atom 0) (Atom 0)) (u2_cn_mung R J gat sam) s"
    by (rule cn_mung_ok [OF assms(1-3)]) (use 2 in blast)+
  then show ?thesis by (rule nk_ends_bind) auto
qed

lemma pray_mool_ok:
  assumes "interp_ok J h R" "wire_ok J h s" "lad s = L" "nock_in L bus gal gof" "may h L bus (op 11 gal)"
  shows "nk_ends (vran J h L bus (op 11 gal)) (nock_pray_mool R J gof) s" (is "nk_ends ?P _ _")
proof (cases L)
  case (Atom n)
  then show ?thesis
    unfolding nock_pray_mool_def using assms(2,3) by (intro nk_ends_get) (simp add: nk_ends_dead)
next
  case (Cell i t)
  then have h: "h \<noteq> Hip c3__rock" using assms(2,3) by (auto simp: wire_ok_def)
  then have ok: "wire_ok J h (s\<lparr>lad := x\<rparr>) = wire_ok J h s" for s x by (simp add: wire_ok_def)
  have gate: "may h t (Cell bat (Cell gof con)) bat" if "i = Cell bat (Cell x con)" for bat x con
    using may_11(2) [of bat x con t bus gal gof h] assms(4,5) that Cell by simp
  have call: "nk_ends (slammed t i gof)
      (if t = u2_nul then nk_bind (u2_cn_mung R J i gof) (\<lambda>pro. nk_return (0, pro)) else nock_molg R i gof) s'"
    if "wire_ok J h s'" "lad s' = t" for s'
    using mung_ok [OF assms(1) that gate] molg_ok [OF assms(1) that(1) h that(2) gate] by auto
  let ?body = "nk_bind (if t = u2_nul then nk_bind (u2_cn_mung R J i gof) (\<lambda>pro. nk_return (0, pro)) else nock_molg R i gof)
      (\<lambda>(pon, pro). nk_bind u2_cm_done (\<lambda>_. nk_get (\<lambda>s. if t \<noteq> lad s then nk_dead Abort
        else nk_bind (nk_put (\<lambda>s. s\<lparr>lad := Cell i t\<rparr>)) (\<lambda>_. if pon \<noteq> 0 then nk_return (pon, pro)
          else case pro of Atom _ \<Rightarrow> nk_return (1, Cell gof u2_nul) | Cell _ res \<Rightarrow> nk_return (0, res)))))"
  have body: "nk_ends ?P ?body s'" if "wire_ok J h s'" "lad s' = t" for s'
  proof (rule nk_ends_bind [OF call [OF that]])
    fix x s'' assume x: "slammed t i gof (Inr x) s''"
    obtain pon pro where px: "x = (pon, pro)" by fastforce
    have le: "pon \<le> 2" using x px by simp
    have res: "nock_in L bus (op 11 gal) res" if "pon = 0" "pro = Cell q res" for q res
      using x that assms(4) unfolding px Cell by (auto intro: nock_11)
    show "nk_ends ?P (case x of (pon, pro) \<Rightarrow> nk_bind u2_cm_done (\<lambda>_. nk_get (\<lambda>s. if t \<noteq> lad s then nk_dead Abort
        else nk_bind (nk_put (\<lambda>s. s\<lparr>lad := Cell i t\<rparr>)) (\<lambda>_. if pon \<noteq> 0 then nk_return (pon, pro)
          else case pro of Atom _ \<Rightarrow> nk_return (1, Cell gof u2_nul) | Cell _ res \<Rightarrow> nk_return (0, res))))) s''"
      unfolding px prod.case
      by (rule done_bind [of J h], use x px in simp)
        (use le res Cell in \<open>auto simp: ok intro!: nk_ends_get nk_ends_dead put_bind nk_ends_return split: noun.split\<close>)
  qed simp
  have "nk_ends ?P (u2_cm_trap ?body (\<lambda>hoe. nk_bind u2_cm_done (\<lambda>_. nk_bind (nk_res (u2_bi_h hoe)) u2_cm_bail))) (s\<lparr>lad := t\<rparr>)"
  proof (rule nk_ends_trap [where Q = ?P, OF body])
    show "wire_ok J h (u2_cm_rind (s\<lparr>lad := t\<rparr>))" "lad (u2_cm_rind (s\<lparr>lad := t\<rparr>)) = t"
      using assms(2) by (simp_all add: u2_cm_rind_def ok)
    fix d hoe s' assume "?P (Inl (Jump d hoe)) s'"
    then have s': "wire_ok J h s'" by simp
    show "nk_ends ?P (nk_bind u2_cm_done (\<lambda>_. nk_bind (nk_res (u2_bi_h hoe)) u2_cm_bail)) s'"
      by (rule done_bind [OF s']) (auto intro!: res_bind leave_ok)
  qed auto
  then show ?thesis
    unfolding nock_pray_mool_def using assms(3) Cell by (intro nk_ends_get) (simp add: put_bind)
qed

lemma pray_cool_ok:
  assumes "interp_ok J h R" "wire_ok J h s" "lad s = L" "nock_in L bus gal gof" "may h L bus (op 11 gal)"
  shows "nk_ends (ran J h L bus (op 11 gal)) (nock_pray_cool R J gof) s" (is "nk_ends ?P _ _")
proof -
  have "nk_ends ?P (nk_bind (nock_pray_mool R J gof) (\<lambda>(pon, mog).
      if pon = 0 then nk_return mog else if pon = 1 then u2_cm_bowl (Cell (Atom c3__need) mog)
      else if pon = 2 then u2_cm_bowl (Cell (Atom c3__exit) mog) else nk_dead Abort)) s"
    by (rule nk_ends_bind [OF pray_mool_ok [OF assms]]) (auto simp: vran_def intro!: nk_ends_return leave_ok)
  then show ?thesis
    unfolding nock_pray_cool_def using leave_ok(3) [OF assms(2), of ?P] by (intro nk_ends_get) simp
qed

text \<open>Hints: a product that is not virtual has the kode 0.\<close>

definition hran :: "bool \<Rightarrow> noun \<Rightarrow> noun \<Rightarrow> noun \<Rightarrow> jump + nat \<times> noun \<Rightarrow> u2_wire \<Rightarrow> bool" where
  "hran v L a f r s \<longleftrightarrow> wire_ok J h s \<and>
     (\<forall>pon p. r = Inr (pon, p) \<longrightarrow> (if v then pon \<le> 2 else pon = 0) \<and> (pon = 0 \<longrightarrow> nock_in L a f p \<and> lad s = L))"

lemma hran_simps [simp]:
  "hran v L a f (Inl j) s \<longleftrightarrow> wire_ok J h s"
  "hran v L a f (Inr (pon, p)) s \<longleftrightarrow> wire_ok J h s \<and> (if v then pon \<le> 2 else pon = 0) \<and> (pon = 0 \<longrightarrow> nock_in L a f p \<and> lad s = L)"
  by (auto simp: hran_def)

lemma hint_run_ok:
  assumes "interp_ok J h R" "wire_ok J h s" "v \<Longrightarrow> h \<noteq> Hip c3__rock" "lad s = L" "may h L a f"
  shows "nk_ends (hran v L a f) (hint_run R v a f) s"
proof (cases v)
  case True
  have "nk_ends (vran J h L a f) (i_mool R a f) s"
    by (rule mool_tail [OF assms(1,2) assms(3) [OF True]]) (use assms(4,5) in auto)
  then have "nk_ends (hran v L a f) (i_mool R a f) s"
    by (rule nk_ends_conseq) (use True in \<open>auto simp: vran_def hran_def\<close>)
  then show ?thesis using True unfolding hint_run_def by simp
next
  case False
  then show ?thesis unfolding hint_run_def
    by (simp, intro cool_bind [OF assms(1,2)]) (use assms(4,5) in \<open>auto intro!: nk_ends_return\<close>)
qed

lemma hint_bind:
  assumes "interp_ok J h R" "wire_ok J h s" "v \<Longrightarrow> h \<noteq> Hip c3__rock" "lad s = L" "may h L a f"
    "\<And>pon p s'. hran v L a f (Inr (pon, p)) s' \<Longrightarrow> nk_ends P (k (pon, p)) s'" "\<And>j s'. wire_ok J h s' \<Longrightarrow> P (Inl j) s'"
  shows "nk_ends P (nk_bind (hint_run R v a f) k) s"
  by (rule nk_ends_bind [OF hint_run_ok [OF assms(1-5)]]) (use assms(6,7) in \<open>auto simp del: hran_simps(2)\<close>)

lemma mine_ok:
  assumes "hran v L a f (Inr (pon, pro)) s"
  shows "nk_ends (hran v L a f) (nk_bind (nk_mine clu pro) (\<lambda>pro. nk_return (pon, pro))) s"
proof (rule nk_ends_bind [where Q = "\<lambda>r s'. case r of Inl j \<Rightarrow> wire_ok J h s' | Inr p \<Rightarrow> hran v L a f (Inr (pon, p)) s'"])
  show "nk_ends (\<lambda>r s'. case r of Inl j \<Rightarrow> wire_ok J h s' | Inr p \<Rightarrow> hran v L a f (Inr (pon, p)) s') (nk_mine clu pro) s"
    unfolding nk_mine_def
  proof (intro nk_ends_get res_bind)
    fix x assume "u2_ds_mine (des s) clu pro = Inr x"
    then obtain d where "x = (pro, d)" using u2_ds_mine_correct(1) by (cases x) auto
    then show "nk_ends (\<lambda>r s'. case r of Inl j \<Rightarrow> wire_ok J h s' | Inr p \<Rightarrow> hran v L a f (Inr (pon, p)) s')
        (case x of (cor, d) \<Rightarrow> nk_bind (nk_put (\<lambda>s. s\<lparr>des := d\<rparr>)) (\<lambda>_. nk_return cor)) s"
      using assms by (auto intro!: put_bind nk_ends_return)
  qed (use assms in auto)
qed (auto intro!: nk_ends_return)

lemma save_bind:
  assumes "wire_ok J h s" "\<And>lot. h = Hip c3__rock \<Longrightarrow> u2_cs_save (lot_r (rail s)) sel sam pro = Inr lot \<Longrightarrow> cash_ok lot \<and> mem_sound J lot"
    "\<And>ral. wire_ok J h (s\<lparr>rail := ral\<rparr>) \<Longrightarrow> nk_ends P (k (pro, ral)) s" "\<And>j s'. wire_ok J h s' \<Longrightarrow> P (Inl j) s'"
  shows "nk_ends P (nk_bind (nk_res (u2_rl_save (rail s) sel sam pro)) k) s"
proof (rule res_bind [OF assms(1)])
  fix x assume x: "u2_rl_save (rail s) sel sam pro = Inr x"
  obtain p ral where pr: "x = (p, ral)" by fastforce
  have "p = pro" "wire_ok J h (s\<lparr>rail := ral\<rparr>)"
    using rl_save_ok [OF assms(1) x [unfolded pr]] assms(2) by blast+
  then show "nk_ends P (k x) s" using assms(3) pr by simp
qed (rule assms(4))

lemma hint_memo_ok:
  assumes "interp_ok J h R" "wire_ok J h s" "v \<Longrightarrow> h \<noteq> Hip c3__rock" "lad s = L" "may h L a f" "h \<noteq> Free"
  shows "nk_ends (hran v L a f) (hint_memo R v a f) s"
proof -
  have save: "nk_ends (hran v L a f) (nk_get (\<lambda>s. nk_bind (nk_res (u2_rl_save_cell (rail s) 0 a f p)) (\<lambda>(sav, ral).
      nk_bind (nk_put (\<lambda>s. s\<lparr>rail := ral\<rparr>)) (\<lambda>_. nk_return (pon, sav))))) s'"
    if "hran v L a f (Inr (pon, p)) s'" for pon p s'
    unfolding rl_save_variants
  proof (intro nk_ends_get save_bind)
    fix lot assume *: "h = Hip c3__rock" "u2_cs_save (lot_r (rail s')) 0 (Cell a f) p = Inr lot"
    have ok: "wire_ok J h s'" using that by simp
    have "\<not> v" using assms(3) *(1) by blast
    then have "nock_in L a f p" "lad s' = L" using that by simp_all
    then show "cash_ok lot \<and> mem_sound J lot"
      using ok *(1) by (intro mem_sound_save_0 [OF _ _ *(2)]) (auto simp: wire_ok_def)
  qed (use that in \<open>auto intro!: put_bind nk_ends_return\<close>)
  have "nk_ends (hran v L a f) (nk_bind (hint_run R v a f) (\<lambda>(pon, pro).
      if hint_good v pon then
        nk_get (\<lambda>s. nk_bind (nk_res (u2_rl_save_cell (rail s) 0 a f pro)) (\<lambda>(sav, ral).
          nk_bind (nk_put (\<lambda>s. s\<lparr>rail := ral\<rparr>)) (\<lambda>_. nk_return (pon, sav))))
      else nk_return (pon, pro))) s"
    by (rule hint_bind [OF assms(1-5)]) (use save in \<open>auto intro!: nk_ends_return\<close>)
  then show ?thesis
    unfolding hint_memo_def using rl_find_0 [OF assms(2,6), of a f] assms(2,4)
    by (intro nk_ends_get) (auto split: option.split intro!: nk_ends_return)
qed

lemma hint_sole_ok:
  assumes "interp_ok J h R" "wire_ok J h s" "v \<Longrightarrow> h \<noteq> Hip c3__rock" "lad s = L" "may h L a f"
  shows "nk_ends (hran v L a f) (hint_sole R v a f) s"
proof -
  have save: "nk_ends (hran v L a f) (nk_get (\<lambda>s. nk_bind (nk_res (u2_rl_uniq (rail s) p)) (\<lambda>(nuu, ral).
      nk_bind (nk_put (\<lambda>s. s\<lparr>rail := ral\<rparr>)) (\<lambda>_. nk_return (pon, p))))) s'"
    if "hran v L a f (Inr (pon, p)) s'" for pon p s'
    unfolding rl_save_variants
  proof (intro nk_ends_get save_bind)
    fix lot assume *: "h = Hip c3__rock" "u2_cs_save (lot_r (rail s')) 1 p p = Inr lot"
    have ok: "wire_ok J h s'" using that by simp
    show "cash_ok lot \<and> mem_sound J lot"
      by (rule mem_sound_save_1 [OF _ _ *(2)]) (use ok *(1) in \<open>auto simp: wire_ok_def\<close>)
  qed (use that in \<open>auto intro!: put_bind nk_ends_return\<close>)
  show ?thesis
    unfolding hint_sole_def by (rule hint_bind [OF assms]) (use save in \<open>auto intro!: nk_ends_return\<close>)
qed

lemma hint_trace_ok:
  assumes "interp_ok J h R" "wire_ok J h s" "v \<Longrightarrow> h \<noteq> Hip c3__rock" "lad s = L" "may h L a f"
  shows "nk_ends (hran v L a f) (hint_trace R v zep hod a f) s"
  unfolding hint_trace_def
  by (intro nk_ends_get put_bind hint_bind [OF assms(1) _ assms(3)])
    (use assms(2,4,5) in \<open>auto intro!: put_bind nk_ends_return\<close>)

lemma hint_mine_ok:
  assumes "interp_ok J h R" "wire_ok J h s" "v \<Longrightarrow> h \<noteq> Hip c3__rock" "lad s = L" "may h L a f"
  shows "nk_ends (hran v L a f) (hint_mine R v hod a f) s" "nk_ends (hran v L a f) (hint_fast R v hod a f) s"
  unfolding hint_mine_def hint_fast_def Let_def
  by (rule hint_bind [OF assms]; auto intro!: nk_ends_return mine_ok simp del: hran_simps(2) split: option.split)+

lemma nock_hint_ok:
  assumes "interp_ok J h R" "wire_ok J h s" "v \<Longrightarrow> h \<noteq> Hip c3__rock" "lad s = L" "may h L a f"
    "h = Free \<Longrightarrow> zep \<noteq> Atom c3__memo"
  shows "nk_ends (hran v L a f) (nock_hint R zep hod a f v) s"
proof -
  have germ: "nk_ends (hran v L a f) (nk_bind (hint_run R v a f) (\<lambda>(pon, pro). nk_return (pon, if pro = hod then hod else pro))) s"
    by (rule hint_bind [OF assms(1-5)]) (auto intro!: nk_ends_return)
  have memo: "nk_ends (hran v L a f) (hint_memo R v a f) s" if "zep = Atom c3__memo"
    using hint_memo_ok [OF assms(1-5)] assms(6) that by blast
  note all = hint_trace_ok hint_run_ok hint_mine_ok hint_sole_ok
  show ?thesis unfolding nock_hint_def using germ all [OF assms(1-5)] memo by simp
qed

end

end
