(* ===== verification/Nock_Run.thy ===== *)
theory Nock_Run
  imports Nock_Sound Jets1
begin

text \<open>
  The operators of the two interpreters, one lemma for each: what an interpreter returns is the product, when
  the interpreters it calls return products. Then tables of jets that agree with their formulas.
\<close>

section \<open>The operators return products\<close>

lemma bi_frag_eq_Inr: "u2_bi_frag axe b = Inr c \<Longrightarrow> \<exists>a. axe = Atom a \<and> slot a b = Some c"
  by (auto simp: u2_bi_frag_def u2_bl_bail_def rbind_eq_Inr split: option.splits dest: u2_frag_eq_Inr)

lemma frag_atom: "u2_frag (Atom n) b = Inr (Some c) \<Longrightarrow> slot n b = Some c"
  using u2_frag_eq_Inr by blast

lemma as_cell_simps [simp]:
  "u2_as_cell (Atom n) = None" "u2_as_cell (Cell b c) = Some (b, c)"
  "u2_as_trel (Atom n) = None" "u2_as_trel (Cell b (Atom n)) = None" "u2_as_trel (Cell b (Cell c d)) = Some (b, c, d)"
  by (simp_all add: u2_as_cell_def u2_as_trel_def)

lemma u2_dust_wut: "Atom (if u2_dust a then u2_yes else u2_no) = wut a"
  by (cases a) (simp_all add: wut_def u2_dust_def)

lemma sing_tis: "Atom (if x = y then u2_yes else u2_no) = tis x y"
  by (simp add: tis_def)

locale nock_machine = jets_for J h + gmp_laws G val
  for J :: jets and h :: mode and G :: "'m gmp" and val :: "'m \<Rightarrow> int"
begin

lemma vint_bind:
  assumes "wire_ok J h s" "\<And>n. gof = Atom n \<Longrightarrow> nk_ends P (k (Some (Atom (n + 1)))) s"
    "nk_ends P (k None) s" "\<And>j s'. wire_ok J h s' \<Longrightarrow> P (Inl j) s'"
  shows "nk_ends P (nk_bind (nk_vint G gof) k) s"
proof (cases gof)
  case (Atom n)
  have *: "nk_ends P (nk_bind (nk_res (u2_rl_vint G (Some (Atom n)))) k) s" if "atom_fits n"
    using assms(2) [OF Atom] assms(3) by (intro res_bind [OF assms(1)]) (auto simp: vint [OF that] atom_weak_def assms(4) split: if_splits)
  moreover have "nk_ends P (nk_bind (nk_dead Wild) k) s"
    using assms(1,4) by (simp add: nk_ends_def nk_bind_def nk_dead_def)
  ultimately show ?thesis unfolding nk_vint_def Atom by simp
next
  case (Cell a b)
  then have "u2_rl_vint G (Some gof) = Inr None" by (simp add: u2_rl_vint_def)
  then show ?thesis
    unfolding nk_vint_def Cell noun.case using assms(3,4) by (intro res_bind [OF assms(1)]) auto
qed

lemma cool_0:
  assumes "wire_ok J h s" "lad s = L"
  shows "nk_ends (ran J h L bus (op 0 gal)) (case gal of Cell _ _ \<Rightarrow> nk_exit | Atom _ \<Rightarrow> nk_res (u2_bi_frag gal bus)) s"
proof (cases gal)
  case (Atom n)
  then show ?thesis
    using assms by (auto intro!: res_ok [OF assms(1)] nock_0 dest: bi_frag_eq_Inr)
qed (simp add: leave_ok [OF assms(1)])

lemma cool_kick:
  assumes "interp_ok J h R" "wire_ok J h s" "lad s = L" "nock_in L bus c seb"
    "may h L bus (op2 9 (Atom b) c)"
  shows "nk_ends (ran J h L bus (op2 9 (Atom b) c)) (nk_bind (nk_find seb) (\<lambda>xip.
           case xip of
             Some xip \<Rightarrow> nk_bind (u2_ho_kick R J xip seb (Atom b)) nk_good
           | None \<Rightarrow> nk_bind (nk_res (u2_bi_frag (Atom b) seb)) (\<lambda>nex. i_cool R seb nex))) s" (is "nk_ends ?P _ _")
proof (rule find_bind [OF assms(2)])
  have "nk_ends ?P (i_cool R seb nex) s" if "slot b seb = Some nex" for nex
    by (rule cool_tail [OF assms(1,2)]) (use assms(3-5) that in \<open>auto intro: nock_9 may_9\<close>)
  then show "nk_ends ?P (case None of Some xip \<Rightarrow> nk_bind (u2_ho_kick R J xip seb (Atom b)) nk_good
      | None \<Rightarrow> nk_bind (nk_res (u2_bi_frag (Atom b) seb)) (\<lambda>nex. i_cool R seb nex)) s"
    by (auto intro!: res_bind [OF assms(2)] dest: bi_frag_eq_Inr)
next
  fix xip assume "mates xip seb"
  then have "nk_ends (wran J h L bus (op2 9 (Atom b) c)) (u2_ho_kick R J xip seb (Atom b)) s"
    by (rule ho_kick_ok [OF _ assms(1-3)]) (use assms(4,5) in \<open>auto intro: nock_9 may_9\<close>)
  then show "nk_ends ?P (case Some xip of Some xip \<Rightarrow> nk_bind (u2_ho_kick R J xip seb (Atom b)) nk_good
      | None \<Rightarrow> nk_bind (nk_res (u2_bi_frag (Atom b) seb)) (\<lambda>nex. i_cool R seb nex)) s"
    unfolding option.case by (rule nk_ends_bind) (auto simp: wran_def wire_ok_same intro!: nk_ends_good)
qed simp

lemma cool_hint:
  assumes "interp_ok J h R" "wire_ok J h s" "lad s = L"
    "may h L bus (op2 10 p q)"
  shows "nk_ends (ran J h L bus (op2 10 p q)) (nk_bind (case p of
             Cell b c \<Rightarrow> nk_bind (i_cool R bus c) (\<lambda>hod. nk_return (b, hod))
           | Atom _ \<Rightarrow> nk_return (p, u2_nul)) (\<lambda>(zep, hod).
         nk_bind (nock_hint R zep hod bus q False) (\<lambda>(pon, pro). nk_return pro))) s"
proof -
  let ?P = "ran J h L bus (op2 10 p q)"
  have hint: "nk_ends ?P (nk_bind (nock_hint R zep hod bus q False) (\<lambda>(pon, pro). nk_return pro)) s'"
    if "wire_ok J h s'" "lad s' = L" "\<And>r. nock_in L bus q r \<Longrightarrow> nock_in L bus (op2 10 p q) r"
      "zep = p \<or> (\<exists>c. p = Cell zep c)" for zep hod s'
    by (rule nk_ends_bind [OF nock_hint_ok [OF assms(1) that(1) _ that(2) may_10(1) [OF assms(4)], of False zep hod]])
      (use that(3,4) may_hint [OF assms(4)] in \<open>auto simp: hran_def intro!: nk_ends_return\<close>)
  show ?thesis
  proof (cases p)
    case (Atom n)
    then show ?thesis using hint [OF assms(2,3)] nock_10_atom by (simp add: nk_ends_def nk_bind_def nk_return_def)
  next
    case (Cell b c)
    let ?Q = "\<lambda>r s'. wire_ok J h s' \<and> (\<forall>x. r = Inr x \<longrightarrow> lad s' = L \<and> fst x = b \<and> (\<exists>hod. nock_in L bus c hod))"
    have Q: "nk_ends ?Q (nk_bind (i_cool R bus c) (\<lambda>hod. nk_return (b, hod))) s"
      by (rule cool_bind [OF assms(1,2)]) (use assms(3,4) may_10(2) in \<open>auto simp: Cell intro!: nk_ends_return\<close>)
    have "nk_ends ?P (nk_bind (nock_hint R b hod bus q False) (\<lambda>(pon, pro). nk_return pro)) s'"
      if "wire_ok J h s'" "lad s' = L" "nock_in L bus c x" for s' hod x
      by (rule hint [OF that(1,2)]) (use that(3) Cell in \<open>auto intro: nock_10\<close>)
    then show ?thesis unfolding Cell noun.case by (intro nk_ends_bind [OF Q]) (auto simp: Cell split: prod.split)
  qed
qed

lemma cool_2:
  assumes "interp_ok J h R" "wire_ok J h s" "lad s = L"
    "may h L bus (op 2 gal)"
  shows "nk_ends (ran J h L bus (op 2 gal)) (case gal of
           Atom _ \<Rightarrow> nk_exit
         | Cell b c \<Rightarrow> nk_bind (i_cool R bus c) (\<lambda>nex. nk_bind (i_cool R bus b) (\<lambda>seb. i_cool R seb nex))) s"
proof (cases gal)
  case (Cell b c)
  show ?thesis unfolding Cell noun.case
    by (rule cool_bind [OF assms(1,2)], use assms(3,4) may_2(2) in \<open>simp add: Cell\<close>, rule cool_bind [OF assms(1)],
        assumption, use assms(3,4) may_2(1) in \<open>simp add: Cell\<close>, rule cool_tail [OF assms(1)])
      (use assms(3,4) in \<open>auto simp: Cell intro: nock_2 may_2(3)\<close>)
qed (simp add: leave_ok [OF assms(2)])

lemma cool_3:
  assumes "interp_ok J h R" "wire_ok J h s" "lad s = L"
    "may h L bus (op 3 gal)"
  shows "nk_ends (ran J h L bus (op 3 gal)) (nk_bind (i_cool R bus gal)
    (\<lambda>gof. nk_return (Atom (if u2_dust gof then u2_yes else u2_no)))) s"
  unfolding u2_dust_wut
  by (rule cool_bind [OF assms(1,2)]) (use assms(3,4) may_1(1) in \<open>auto intro!: nk_ends_return nock_3\<close>)

lemma cool_4:
  assumes "interp_ok J h R" "wire_ok J h s" "lad s = L"
    "may h L bus (op 4 gal)"
  shows "nk_ends (ran J h L bus (op 4 gal)) (nk_bind (i_cool R bus gal) (\<lambda>gof. nk_bind (nk_vint G gof) nk_good)) s"
proof (rule cool_bind [OF assms(1,2)])
  fix x s' assume s': "wire_ok J h s'" "lad s' = lad s" "nock_in (lad s) bus gal x"
  show "nk_ends (ran J h L bus (op 4 gal)) (nk_bind (nk_vint G x) nk_good) s'"
    by (rule vint_bind [OF s'(1)])
      (use s' assms(3) nock_4 [of L bus gal] in \<open>auto simp: nk_good_def intro!: nk_ends_return leave_ok [OF s'(1)]\<close>)
qed (use assms(3,4) may_1(2) in auto)

lemma cool_5:
  assumes "interp_ok J h R" "wire_ok J h s" "lad s = L"
    "may h L bus (op 5 gal)"
  shows "nk_ends (ran J h L bus (op 5 gal)) (case gal of
           Atom _ \<Rightarrow> nk_exit
         | Cell _ _ \<Rightarrow> nk_bind (i_cool R bus gal) (\<lambda>wim. case wim of
             Atom _ \<Rightarrow> nk_exit | Cell x y \<Rightarrow> nk_return (Atom (if x = y then u2_yes else u2_no)))) s"
proof (cases gal)
  case (Cell b c)
  show ?thesis unfolding Cell noun.case sing_tis
    by (rule cool_bind [OF assms(1,2)])
      (use assms(3,4) may_1(3) in \<open>auto simp: Cell intro!: nk_ends_return leave_ok nock_5 split: noun.split\<close>)
qed (simp add: leave_ok [OF assms(2)])

lemma cool_6:
  assumes "interp_ok J h R" "wire_ok J h s" "lad s = L"
    "may h L bus (op3 6 b c d)"
  shows "nk_ends (ran J h L bus (op3 6 b c d)) (nk_bind (i_cool R bus b) (\<lambda>tys.
           if tys = Atom 0 then i_cool R bus c else if tys = Atom 1 then i_cool R bus d else nk_exit)) s"
proof (rule cool_bind [OF assms(1,2)])
  fix x s' assume s': "wire_ok J h s'" "lad s' = lad s" "nock_in (lad s) bus b x"
  have "nk_ends (ran J h L bus (op3 6 b c d)) (i_cool R bus c) s'" if "x = Atom 0"
    by (rule cool_tail [OF assms(1) s'(1)]) (use s' assms(3,4) that in \<open>auto intro: nock_6_yes may_6\<close>)
  moreover have "nk_ends (ran J h L bus (op3 6 b c d)) (i_cool R bus d) s'" if "x = Atom 1"
    by (rule cool_tail [OF assms(1) s'(1)]) (use s' assms(3,4) that may_6(3) in \<open>auto intro: nock_6_no [simplified]\<close>)
  ultimately show "nk_ends (ran J h L bus (op3 6 b c d))
      (if x = Atom 0 then i_cool R bus c else if x = Atom 1 then i_cool R bus d else nk_exit) s'"
    by (simp add: leave_ok [OF s'(1)])
qed (use assms(3,4) may_6(1) in auto)

lemma cool_7:
  assumes "interp_ok J h R" "wire_ok J h s" "lad s = L" "may h L bus (op2 7 b c)"
  shows "nk_ends (ran J h L bus (op2 7 b c)) (nk_bind (i_cool R bus b) (\<lambda>bod. i_cool R bod c)) s"
  by (rule cool_bind [OF assms(1,2)], use assms(3,4) may_7_8(1) in simp, rule cool_tail [OF assms(1)])
    (use assms(3,4) in \<open>auto intro: nock_7 may_7_8\<close>)

lemma cool_8:
  assumes "interp_ok J h R" "wire_ok J h s" "lad s = L" "may h L bus (op2 8 b c)"
  shows "nk_ends (ran J h L bus (op2 8 b c)) (nk_bind (i_cool R bus b) (\<lambda>wib. i_cool R (Cell wib bus) c)) s"
  by (rule cool_bind [OF assms(1,2)], use assms(3,4) may_7_8(3) in simp, rule cool_tail [OF assms(1)])
    (use assms(3,4) in \<open>auto intro: nock_8 may_7_8\<close>)

lemma cool_11:
  assumes "interp_ok J h R" "wire_ok J h s" "lad s = L"
    "may h L bus (op 11 gal)"
  shows "nk_ends (ran J h L bus (op 11 gal)) (nk_bind (i_cool R bus gal) (nock_pray_cool R J)) s"
  by (rule cool_bind [OF assms(1,2)], use assms(3,4) may_11(1) in simp, rule pray_cool_ok [OF assms(1)])
    (use assms(3,4) in auto)

lemma nock_cool_ok:
  assumes "interp_ok J h R" "wire_ok J h s" "lad s = L"
    "may h L bus (fol)"
  shows "nk_ends (ran J h L bus fol) (nock_cool G J R bus fol) s"
proof (cases fol)
  case (Cell hib gal)
  show ?thesis
  proof (cases hib)
    case hib: (Cell b c)
    show ?thesis unfolding Cell hib nock_cool_def noun.case
      by (rule cool_bind [OF assms(1,2)], use assms(3,4) may_cons(1) in \<open>simp add: Cell hib\<close>,
          rule cool_bind [OF assms(1)], assumption, use assms(3,4) may_cons(2) in \<open>simp add: Cell hib\<close>)
        (use assms(3) in \<open>auto intro!: nk_ends_return nock_cons\<close>)
  next
    case (Atom n)
    note stop = leave_ok(1) [OF assms(2), of "ran J h L bus fol", simplified]
    have one: "nk_ends (ran J h L bus (op 1 gal)) (nk_return gal) s"
      using assms by (intro nk_ends_return) (simp add: nock_1)
    have nine: "nk_ends (ran J h L bus (op2 9 (Atom b) c)) (nk_bind (i_cool R bus c) (\<lambda>seb.
         nk_bind (nk_find seb) (\<lambda>xip.
           case xip of
             Some xip \<Rightarrow> nk_bind (u2_ho_kick R J xip seb (Atom b)) nk_good
           | None \<Rightarrow> nk_bind (nk_res (u2_bi_frag (Atom b) seb)) (\<lambda>nex. i_cool R seb nex)))) s" if "may h L bus (op2 9 (Atom b) c)" for b c
      by (rule cool_bind [OF assms(1,2)], use assms(3) that may_9(1) in simp, rule cool_kick [OF assms(1)])
        (use assms(3) that in auto)
    note ops = cool_0 [OF assms(2,3), of bus gal] one cool_2 [OF assms(1-3), of bus gal] cool_3 [OF assms(1-3), of bus gal]
      cool_4 [OF assms(1-3), of bus gal] cool_5 [OF assms(1-3), of bus gal] cool_11 [OF assms(1-3), of bus gal]
    note ten = cool_hint [OF assms(1-3), of bus "Cell b c" q for b c q, unfolded noun.case]
      cool_hint [OF assms(1-3), of bus "Atom b" q for b q, unfolded noun.case]
    show ?thesis
      using ops stop assms(4) unfolding Cell Atom nock_cool_def noun.case
      using cool_6 [OF assms(1-3)] cool_7 [OF assms(1-3)] cool_8 [OF assms(1-3)] nine ten
      by (auto split: noun.split option.split simp: u2_as_cell_def u2_as_trel_def)
  qed
qed (simp add: nock_cool_def leave_ok [OF assms(2)])

text \<open>Virtually: the same operators, where a kode other than 0 leaves at once.\<close>

lemma mool_stop:
  assumes "wire_ok J h s"
  shows "nk_ends (vran J h L b f) nk_wail s" "nk_ends (vran J h L b f) (nk_dead e) s"
  by (rule wail_ok [OF assms] leave_ok(4) [OF assms], simp_all)+

lemma mool_cons_ok:
  assumes "interp_ok J h R" "wire_ok J h s" "h \<noteq> Hip c3__rock" "lad s = L"
    "may h L bus (Cell (Cell b c) gal)"
  shows "nk_ends (vran J h L bus (Cell (Cell b c) gal)) (mool_cons R bus (Cell b c) gal) s" (is "nk_ends ?P _ _")
  unfolding mool_cons_def
proof (rule mool_bind [OF assms(1-3)], use assms(4,5) may_cons(1) in simp, unfold prod.case)
  fix h_pon :: nat and poz s1
  assume s1: "wire_ok J h s1" "h_pon \<le> 2" "h_pon = 0 \<Longrightarrow> lad s1 = lad s \<and> nock_in (lad s) bus (Cell b c) poz"
  have weld: "nk_ends ?P (nk_bind (nk_res (j2_mbc_weld poz riv)) (\<lambda>lal.
      case lal of None \<Rightarrow> nk_dead Wild | Some lal \<Rightarrow> nk_return (1, lal))) s2" if "wire_ok J h s2" for riv s2
    by (rule res_bind [OF that]) (use that in \<open>auto intro!: nk_ends_return nk_ends_dead split: option.split\<close>)
  let ?tail = "\<lambda>(t_pon, riv).
         if t_pon = 2 then nk_return (2, riv)
         else if h_pon = 1 \<or> t_pon = 1 then
           if h_pon = 0 then nk_return (1, riv)
           else if t_pon = 0 then nk_return (1, poz)
           else nk_bind (nk_res (j2_mbc_weld poz riv)) (\<lambda>lal.
             case lal of None \<Rightarrow> nk_dead Wild | Some lal \<Rightarrow> nk_return (1, lal))
         else nk_return (0, Cell poz riv)"
  let ?Q = "\<lambda>r s'. wire_ok J h s' \<and> (h_pon = 0 \<longrightarrow> vran J h L bus gal r s')"
  have rest: "nk_ends ?Q (i_mool R bus gal) s1"
  proof (cases "h_pon = 0 \<or> h \<noteq> Free")
    case True
    then have "may h (lad s1) bus gal" using s1(3) assms(4) may_cons(2) [OF assms(5)] by (cases h) auto
    then have "nk_ends (vran J h (lad s1) bus gal) (i_mool R bus gal) s1"
      using assms(1,3) s1(1) by (simp add: interp_ok_def)
    then show ?thesis by (rule nk_ends_conseq) (use s1(3) assms(4) in \<open>auto simp: vran_def\<close>)
  next
    case False
    then show ?thesis by (simp add: nk_ends_def wire_ok_def split: option.split)
  qed
  have "nk_ends ?P (nk_bind (i_mool R bus gal) ?tail) s1" if two: "h_pon \<noteq> 2"
  proof (rule nk_ends_bind [OF rest])
    fix x s2 assume Q: "?Q (Inr x) s2"
    obtain t_pon riv where x: "x = (t_pon, riv)" by fastforce
    consider "t_pon = 2" | "t_pon \<noteq> 2" "h_pon = 1 \<or> t_pon = 1" | "h_pon = 0" "t_pon = 0"
      using s1(2) Q x two by fastforce
    then show "nk_ends ?P (?tail x) s2"
    proof cases
      case 3
      then show ?thesis using s1(3) Q x assms(4) by (auto intro!: nk_ends_return nock_cons)
    qed (use Q x weld in \<open>auto intro!: nk_ends_return simp del: One_nat_def\<close>)
  qed simp
  then show "nk_ends ?P (if h_pon = 2 then nk_return (2, poz) else nk_bind (i_mool R bus gal) ?tail) s1"
    using s1(1) by (auto intro!: nk_ends_return)
qed simp

lemma mool_0:
  assumes "wire_ok J h s" "lad s = L"
  shows "nk_ends (vran J h L bus (op 0 gal)) (case gal of
           Cell _ _ \<Rightarrow> nk_wail
         | Atom _ \<Rightarrow> nk_bind (nk_res (u2_frag gal bus)) (\<lambda>pro.
             case pro of None \<Rightarrow> nk_wail | Some pro \<Rightarrow> nk_return (0, pro))) s"
proof (cases gal)
  case (Atom n)
  then show ?thesis
    using assms by (auto intro!: res_bind [OF assms(1)] mool_stop nk_ends_return nock_0 dest!: frag_atom split: option.split)
qed (simp add: mool_stop [OF assms(1)])

lemma mool_2:
  assumes "interp_ok J h R" "wire_ok J h s" "h \<noteq> Hip c3__rock" "lad s = L"
    "may h L bus (op 2 gal)"
  shows "nk_ends (vran J h L bus (op 2 gal)) (case gal of
           Cell (Cell _ _) _ \<Rightarrow> nk_pon (i_mool R bus gal) (\<lambda>neb.
             case neb of Cell seb nex \<Rightarrow> i_mool R seb nex | Atom _ \<Rightarrow> nk_dead Wild)
         | _ \<Rightarrow> nk_wail) s" (is "nk_ends ?P _ _")
proof -
  have two: "nock_in L bus (op 2 gal) p" if "nock_in L bus gal (Cell x y)" "gal = Cell (Cell b c) d" "nock_in L x y p" for x y b c d p
    using that by (auto simp: nock_in_cons intro: nock_2)
  have "nk_ends ?P (nk_pon (i_mool R bus gal) (\<lambda>neb.
      case neb of Cell seb nex \<Rightarrow> i_mool R seb nex | Atom _ \<Rightarrow> nk_dead Wild)) s" if gal: "gal = Cell (Cell b c) d" for b c d
  proof (rule mool_pon [OF assms(1-3)])
    show "may h (lad s) bus gal" using may_2(4) assms(4,5) gal by simp
    fix x s' assume s': "wire_ok J h s'" "lad s' = lad s" "nock_in (lad s) bus gal x"
    show "nk_ends ?P (case x of Cell seb nex \<Rightarrow> i_mool R seb nex | Atom _ \<Rightarrow> nk_dead Wild) s'"
    proof (cases x)
      case (Cell y z)
      show ?thesis unfolding Cell noun.case
        by (rule mool_tail [OF assms(1) s'(1) assms(3)])
          (use s' assms(4,5) two [OF _ gal] may_2(3) in \<open>auto simp: Cell gal nock_in_cons\<close>)
    qed (use mool_stop [OF s'(1)] in simp)
  qed
  then show ?thesis using mool_stop [OF assms(2)] by (auto split: noun.split)
qed

lemma mool_3:
  assumes "interp_ok J h R" "wire_ok J h s" "h \<noteq> Hip c3__rock" "lad s = L"
    "may h L bus (op 3 gal)"
  shows "nk_ends (vran J h L bus (op 3 gal)) (nk_pon (i_mool R bus gal)
    (\<lambda>gof. nk_return (0, Atom (if u2_dust gof then u2_yes else u2_no)))) s"
  unfolding u2_dust_wut
  by (rule mool_pon [OF assms(1-3)]) (use assms(4,5) may_1(1) in \<open>auto intro!: nk_ends_return nock_3\<close>)

lemma mool_4:
  assumes "interp_ok J h R" "wire_ok J h s" "h \<noteq> Hip c3__rock" "lad s = L"
    "may h L bus (op 4 gal)"
  shows "nk_ends (vran J h L bus (op 4 gal)) (nk_pon (i_mool R bus gal) (\<lambda>gof.
    nk_bind (nk_vint G gof) (\<lambda>pro. case pro of None \<Rightarrow> nk_wail | Some pro \<Rightarrow> nk_return (0, pro)))) s"
proof (rule mool_pon [OF assms(1-3)])
  fix x s' assume s': "wire_ok J h s'" "lad s' = lad s" "nock_in (lad s) bus gal x"
  show "nk_ends (vran J h L bus (op 4 gal))
      (nk_bind (nk_vint G x) (\<lambda>pro. case pro of None \<Rightarrow> nk_wail | Some pro \<Rightarrow> nk_return (0, pro))) s'"
    by (rule vint_bind [OF s'(1)])
      (use s' assms(4) nock_4 [of L bus gal] in \<open>auto intro!: nk_ends_return mool_stop [OF s'(1)]\<close>)
qed (use assms(4,5) may_1(2) in auto)

lemma mool_5:
  assumes "interp_ok J h R" "wire_ok J h s" "h \<noteq> Hip c3__rock" "lad s = L"
    "may h L bus (op 5 gal)"
  shows "nk_ends (vran J h L bus (op 5 gal)) (nk_pon (i_mool R bus gal) (\<lambda>gof.
    case gof of Atom _ \<Rightarrow> nk_wail | Cell x y \<Rightarrow> nk_return (0, Atom (if x = y then u2_yes else u2_no)))) s"
  unfolding sing_tis
  by (rule mool_pon [OF assms(1-3)])
    (use assms(4,5) may_1(3) in \<open>auto intro!: nk_ends_return mool_stop nock_5 split: noun.split\<close>)

lemma mool_6:
  assumes "interp_ok J h R" "wire_ok J h s" "h \<noteq> Hip c3__rock" "lad s = L"
    "may h L bus (op2 6 b cd)"
  shows "nk_ends (vran J h L bus (op2 6 b cd)) (nk_pon (i_mool R bus b) (\<lambda>tys.
    case u2_as_cell cd of
      None \<Rightarrow> nk_wail
    | Some (c, d) \<Rightarrow> if tys = Atom 0 then i_mool R bus c else if tys = Atom 1 then i_mool R bus d else nk_wail)) s"
proof (rule mool_pon [OF assms(1-3)])
  fix x s' assume s': "wire_ok J h s'" "lad s' = lad s" "nock_in (lad s) bus b x"
  have yes: "nk_ends (vran J h L bus (op3 6 b c d)) (i_mool R bus c) s'" if "x = Atom 0" and m: "may h L bus (op3 6 b c d)" for c d
    by (rule mool_tail [OF assms(1) s'(1) assms(3)]) (use s' assms(4) that m in \<open>auto intro: nock_6_yes may_6\<close>)
  have no: "nk_ends (vran J h L bus (op3 6 b c d)) (i_mool R bus d) s'" if "x = Atom 1" and m: "may h L bus (op3 6 b c d)" for c d
    by (rule mool_tail [OF assms(1) s'(1) assms(3)]) (use s' assms(4) that m may_6(3) in \<open>auto intro: nock_6_no [simplified]\<close>)
  show "nk_ends (vran J h L bus (op2 6 b cd)) (case u2_as_cell cd of
      None \<Rightarrow> nk_wail
    | Some (c, d) \<Rightarrow> if x = Atom 0 then i_mool R bus c else if x = Atom 1 then i_mool R bus d else nk_wail) s'"
    using yes no assms(5) mool_stop [OF s'(1)] by (cases cd) auto
qed (use assms(4,5) may_6(1) in auto)

lemma mool_7:
  assumes "interp_ok J h R" "wire_ok J h s" "h \<noteq> Hip c3__rock" "lad s = L" "may h L bus (op2 7 b c)"
  shows "nk_ends (vran J h L bus (op2 7 b c)) (nk_pon (i_mool R bus b) (\<lambda>bod. i_mool R bod c)) s"
  by (rule mool_pon [OF assms(1-3)], use assms(4,5) may_7_8(1) in simp, rule mool_tail [OF assms(1) _ assms(3)])
    (use assms(4,5) in \<open>auto intro: nock_7 may_7_8\<close>)

lemma mool_8:
  assumes "interp_ok J h R" "wire_ok J h s" "h \<noteq> Hip c3__rock" "lad s = L" "may h L bus (op2 8 b c)"
  shows "nk_ends (vran J h L bus (op2 8 b c)) (nk_pon (i_mool R bus b) (\<lambda>wib. i_mool R (Cell wib bus) c)) s"
  by (rule mool_pon [OF assms(1-3)], use assms(4,5) may_7_8(3) in simp, rule mool_tail [OF assms(1) _ assms(3)])
    (use assms(4,5) in \<open>auto intro: nock_8 may_7_8\<close>)

lemma mool_kick_ok:
  assumes "interp_ok J h R" "wire_ok J h s" "h \<noteq> Hip c3__rock" "lad s = L" "nock_in L bus c seb"
    "may h L bus (op2 9 (Atom b) c)"
  shows "nk_ends (vran J h L bus (op2 9 (Atom b) c)) (mool_kick J R b seb) s" (is "nk_ends ?P _ _")
  unfolding mool_kick_def
proof (rule find_bind [OF assms(2)])
  have "nk_ends ?P (i_mool R seb nex) s" if "slot b seb = Some nex" for nex
    by (rule mool_tail [OF assms(1-3)]) (use assms(4-6) that in \<open>auto intro: nock_9 may_9\<close>)
  then show "nk_ends ?P (case None of Some xip \<Rightarrow>
        nk_bind (u2_ho_kicq R J xip seb (Atom b)) (\<lambda>(pon, pro). case pro of None \<Rightarrow> nk_wail | Some pro \<Rightarrow> nk_return (pon, pro))
      | None \<Rightarrow> nk_bind (nk_res (u2_frag (Atom b) seb)) (\<lambda>nex. case nex of None \<Rightarrow> nk_wail | Some nex \<Rightarrow> i_mool R seb nex)) s"
    using mool_stop [OF assms(2)] by (auto intro!: res_bind [OF assms(2)] dest!: frag_atom split: option.split)
next
  fix xip assume "mates xip seb"
  then have "nk_ends (\<lambda>r s'. wire_ok J h s' \<and> (\<forall>pon p. r = Inr (pon, Some p) \<longrightarrow>
      pon \<le> 2 \<and> (pon = 0 \<longrightarrow> nock_in L bus (op2 9 (Atom b) c) p \<and> lad s' = L))) (u2_ho_kicq R J xip seb (Atom b)) s"
    by (rule ho_kicq_ok [OF _ assms(1,2,4)]) (use assms(5,6) in \<open>auto intro: nock_9 may_9\<close>)
  then show "nk_ends ?P (case Some xip of Some xip \<Rightarrow>
        nk_bind (u2_ho_kicq R J xip seb (Atom b)) (\<lambda>(pon, pro). case pro of None \<Rightarrow> nk_wail | Some pro \<Rightarrow> nk_return (pon, pro))
      | None \<Rightarrow> nk_bind (nk_res (u2_frag (Atom b) seb)) (\<lambda>nex. case nex of None \<Rightarrow> nk_wail | Some nex \<Rightarrow> i_mool R seb nex)) s"
    unfolding option.case by (rule nk_ends_bind) (auto intro!: nk_ends_return mool_stop split: option.split)
qed simp

lemma mool_hint:
  assumes "interp_ok J h R" "wire_ok J h s" "h \<noteq> Hip c3__rock" "lad s = L"
    "\<And>p. nock_in L bus q p \<Longrightarrow> nock_in L bus fol p" "may h L bus q"
    "h = Free \<Longrightarrow> zep \<noteq> Atom c3__memo"
  shows "nk_ends (vran J h L bus fol) (nock_hint R zep hod bus q True) s"
  by (rule nk_ends_conseq [OF nock_hint_ok [OF assms(1,2) assms(3) assms(4,6,7)]])
    (use assms(5) in \<open>auto simp: vran_def hran_def\<close>)

lemma nock_mool_ok:
  assumes "interp_ok J h R" "wire_ok J h s" "h \<noteq> Hip c3__rock" "lad s = L"
    "may h L bus (fol)"
  shows "nk_ends (vran J h L bus fol) (nock_mool G J R bus fol) s"
proof (cases fol)
  case (Cell hib gal)
  show ?thesis
  proof (cases hib)
    case hib: (Cell b c)
    show ?thesis unfolding Cell hib nock_mool_def noun.case by (rule mool_cons_ok [OF assms(1-4)]) (use assms(5) Cell hib in simp)
  next
    case (Atom n)
    note stop = mool_stop(1) [OF assms(2), of L bus fol]
    have one: "nk_ends (vran J h L bus (op 1 gal)) (nk_return (0, gal)) s"
      using assms by (intro nk_ends_return) (simp add: nock_1)
    have nine: "nk_ends (vran J h L bus (op2 9 (Atom b) c)) (nk_pon (i_mool R bus c) (mool_kick J R b)) s"
      if "may h L bus (op2 9 (Atom b) c)" for b c
      by (rule mool_pon [OF assms(1-3)], use assms(4) that may_9(1) in simp, rule mool_kick_ok [OF assms(1) _ assms(3)])
        (use assms(4) that in auto)
    have ten: "nk_ends (vran J h L bus (op2 10 (Cell b c) q)) (nk_pon (i_mool R bus c) (\<lambda>hod. nock_hint R b hod bus q True)) s"
      if "may h L bus (op2 10 (Cell b c) q)" for b c q
      by (rule mool_pon [OF assms(1-3)], use assms(4) that may_10(2) in simp, rule mool_hint [OF assms(1) _ assms(3)])
        (use assms(4) that may_10(1) [OF that] may_hint [OF that, of b] in \<open>auto intro: nock_10\<close>)
    have "nk_ends (vran J h L bus (op2 10 (Atom b) q)) (nock_hint R (Atom b) u2_nul bus q True) s"
      if "may h L bus (op2 10 (Atom b) q)" for b q
      by (rule mool_hint [OF assms(1-4)]) (use may_10(1) [OF that] may_hint [OF that] in \<open>auto intro: nock_10_atom\<close>)
    note ten = ten this
    have eleven: "nk_ends (vran J h L bus (op 11 gal)) (nk_pon (i_mool R bus gal) (nock_pray_mool R J)) s"
      if "may h L bus (op 11 gal)"
      by (rule mool_pon [OF assms(1-3)], use assms(4) that may_11(1) in simp, rule pray_mool_ok [OF assms(1)])
        (use assms(4) that in auto)
    note six = mool_6 [OF assms(1-4), of bus b "Atom c" for b c, unfolded as_cell_simps option.case]
      mool_6 [OF assms(1-4), of bus b "Cell c d" for b c d, unfolded as_cell_simps option.case prod.case]
    note ops = mool_0 [OF assms(2,4), of bus gal] one mool_2 [OF assms(1-4), of bus gal]
      mool_3 [OF assms(1-4), of bus gal] mool_4 [OF assms(1-4), of bus gal] mool_5 [OF assms(1-4), of bus gal] eleven
    show ?thesis
      using ops stop assms(5) unfolding Cell Atom nock_mool_def noun.case
      using six mool_7 [OF assms(1-4)] mool_8 [OF assms(1-4)] nine ten
      by (auto split: noun.split option.split simp: u2_as_cell_def)
  qed
qed (simp add: nock_mool_def mool_stop [OF assms(2)])

lemma nock_at_ok: "interp_ok J h (nock_at G J n)"
proof (induction n)
  case (Suc n)
  then show ?case using nock_cool_ok nock_mool_ok by (simp add: interp_ok_def)
qed (simp add: interp_ok_def nk_ends_def)

end

section \<open>Tables of jets\<close>

text \<open>
  The jet of the decrement gate, \<open>j2_mb(Pt1, dec)\<close>, and the formula it stands for: a loop that counts up to
  the sample.
\<close>

definition dec_loop :: noun where
  "dec_loop = op3 6 (op2 5 (op 0 (Atom 30)) (op 4 (op 0 (Atom 6)))) (op 0 (Atom 6))
     (op2 9 (Atom 2) (Cell (op 0 (Atom 2)) (Cell (op 4 (op 0 (Atom 6))) (op 0 (Atom 7)))))"

definition dec_formula :: noun where
  "dec_formula = op3 6 (op2 5 (op 1 (Atom 0)) (op 0 (Atom 6))) (op 0 (Atom 0))
     (op2 8 (op 1 (Atom 0)) (op2 8 (op 1 dec_loop) (op2 9 (Atom 2) (op 0 (Atom 1)))))"

definition dec_chip :: noun where
  "dec_chip = Cell (Cell (Atom 0x636564) (Atom 0)) (Cell dec_formula (Atom 0))"

definition dec_jet :: "'m gmp \<Rightarrow> u2_ho_jet" where
  "dec_jet G = \<lparr>jet_id = 0, fun_m = 0, key_f = (\<lambda>_. None),
     fun_f = (\<lambda>_ cor. case slot 6 cor of
       Some (Atom a) \<Rightarrow> if atom_fits a then nk_res (j2_mb_dec G cor) else nk_dead Wild
     | _ \<Rightarrow> nk_res (j2_mb_dec G cor))\<rparr>"

definition no_jets :: jets where
  "no_jets xip axe = None"

definition dec_jets :: "'m gmp \<Rightarrow> jets" where
  "dec_jets G xip axe = (if xip = dec_chip \<and> axe = Atom 2 then Some (dec_jet G) else None)"

lemma slot_more:
  "slot 6 (Cell a (Cell b c)) = Some b" "slot 7 (Cell a (Cell b c)) = Some c"
  "slot 30 (Cell a (Cell b (Cell d (Cell e f)))) = Some e"
  by (simp_all add: slot.simps)

lemma nock_same:
  "nock_in L a (Cell b c) x \<Longrightarrow> nock_in L a d y \<Longrightarrow> nock_in L a (op 5 (Cell (Cell b c) d)) (tis x y)"
  by (intro nock_5 nock_cons)

lemma dec_loop_run:
  assumes "b < a" "cor = Cell bat (Cell (Atom a) con)"
  shows "nock_in L (Cell dec_loop (Cell (Atom b) cor)) dec_loop (Atom (a - 1))"
  using assms(1)
proof (induction "a - b" arbitrary: b)
  case (Suc n)
  let ?s = "Cell dec_loop (Cell (Atom b) cor)"
  have test: "nock_in L ?s (op2 5 (op 0 (Atom 30)) (op 4 (op 0 (Atom 6)))) (tis (Atom a) (Atom (b + 1)))"
    by (intro nock_same nock_4 nock_0) (simp_all add: slot_more assms(2))
  show ?case
  proof (cases "a = b + 1")
    case True
    have "nock_in L ?s (op 0 (Atom 6)) (Atom b)" by (intro nock_0) (simp add: slot_more)
    then show ?thesis using True test
      unfolding dec_loop_def by (intro nock_6_yes) (simp_all add: tis_def)
  next
    case False
    have "nock_in L (Cell dec_loop (Cell (Atom (b + 1)) cor)) dec_loop (Atom (a - 1))"
      using Suc False by (intro Suc.hyps(1)) simp_all
    then have "nock_in L ?s (op2 9 (Atom 2) (Cell (op 0 (Atom 2)) (Cell (op 4 (op 0 (Atom 6))) (op 0 (Atom 7))))) (Atom (a - 1))"
      by (rule nock_9 [rotated 2])
        (auto intro!: nock_cons nock_4 [simplified] nock_0 simp: slot_more slot_small)
    then show ?thesis using False test
      unfolding dec_loop_def by (intro nock_6_no) (simp_all add: tis_def)
  qed
qed simp

lemma dec_run:
  assumes "0 < a" "cor = Cell bat (Cell (Atom a) con)"
  shows "nock_in L cor dec_formula (Atom (a - 1))"
proof -
  have "nock_in L cor (op2 5 (op 1 (Atom 0)) (op 0 (Atom 6))) (Atom 1)"
    using nock_same [of L cor "Atom 1" "Atom 0" "Atom 0" "op 0 (Atom 6)" "Atom a"] assms
    by (auto simp: tis_def nock_in_0 slot_more)
  moreover have "nock_in L cor (op2 8 (op 1 (Atom 0)) (op2 8 (op 1 dec_loop) (op2 9 (Atom 2) (op 0 (Atom 1))))) (Atom (a - 1))"
    by (rule nock_8 [OF nock_1], rule nock_8 [OF nock_1], rule nock_9, rule nock_0, rule slot_small(3), rule slot_small(1),
        rule dec_loop_run [OF assms])
  ultimately show ?thesis unfolding dec_formula_def by (rule nock_6_no)
qed

interpretation no_jets: jets_sound no_jets
  by unfold_locales (simp_all add: no_jets_def)

interpretation no_jets_free: jets_for no_jets Free
  by unfold_locales (simp_all add: no_jets_def)

lemma mates_dec: "mates dec_chip cor \<Longrightarrow> \<exists>pay. cor = Cell dec_formula pay"
  by (cases cor) (simp_all add: dec_chip_def)

lemma dec_jet_run:
  assumes "gmp_laws G val" "wire_ok J h s"
  shows "nk_ends (wran J h (lad s) (Cell dec_formula pay) dec_formula) (fun_f (dec_jet G) R (Cell dec_formula pay)) s"
proof -
  let ?cor = "Cell dec_formula pay"
  have "nock_in (lad s) ?cor dec_formula p"
    if run: "j2_mb_dec G ?cor = Inr (Some p)" and fits: "\<And>a. slot 6 ?cor = Some (Atom a) \<Longrightarrow> atom_fits a" for p
  proof -
    have "slot 6 ?cor \<noteq> None"
    proof
      assume "slot 6 ?cor = None"
      from run show False unfolding j2_mb_dec_def sam_atom_def sam_noun_bail [OF \<open>slot 6 ?cor = None\<close>] by simp
    qed
    then obtain x con where pay: "pay = Cell x con" by (cases pay) (simp_all add: slot.simps)
    have cor: "?cor = gate dec_formula x con" by (simp add: gate_def pay)
    obtain a where a: "x = Atom a" using run unfolding cor by (cases x) (simp_all add: j2_mb_dec_def)
    have "atom_fits a" using fits by (simp add: pay slot_more a)
    then have "p = Atom (a - 1)" "0 < a"
      using run gmp_laws.mbc_dec [OF assms(1)] unfolding cor a by (auto simp: j2_mb_dec_def split: if_splits)
    then show ?thesis using dec_run [of a ?cor dec_formula con] by (simp add: pay a)
  qed
  then have ok: "nk_ends (wran J h (lad s) ?cor dec_formula) (nk_res (j2_mb_dec G ?cor)) s"
    if "\<And>a. slot 6 ?cor = Some (Atom a) \<Longrightarrow> atom_fits a"
    using that assms(2) by (intro res_ok [OF assms(2)]) (auto simp: wran_def)
  have dead: "nk_ends (wran J h (lad s) ?cor dec_formula) (nk_dead Wild) s"
    using assms(2) by (intro nk_ends_dead) simp
  show ?thesis unfolding dec_jet_def u2_ho_jet.simps using ok dead by (auto split: option.split noun.split)
qed

lemma dec_jets_keys: "jet_keys (dec_jets G)"
  by unfold_locales (auto simp: dec_jets_def dec_jet_def split: if_splits)

lemma dec_jets_run:
  assumes "gmp_laws G val" "dec_jets G xip (Atom a) = Some j" "mates xip cor" "slot a cor = Some fol" "wire_ok J h s"
  shows "nk_ends (wran J h (lad s) cor fol) (fun_f j R cor) s"
proof -
  have j: "j = dec_jet G" "xip = dec_chip" "a = 2" using assms(2) by (auto simp: dec_jets_def split: if_splits)
  then obtain pay where cor: "cor = Cell dec_formula pay" using assms(3) mates_dec by blast
  then have "fol = dec_formula" using assms(4) j by (simp add: slot_small)
  then show ?thesis using dec_jet_run [OF assms(1,5)] by (simp add: j cor)
qed

lemma dec_jets_sound: "gmp_laws G val \<Longrightarrow> jets_sound (dec_jets G)"
  by (intro jets_sound.intro dec_jets_keys jets_sound_axioms.intro dec_jets_run)

lemma dec_jets_for: "gmp_laws G val \<Longrightarrow> jets_for (dec_jets G) h"
  by (intro jets_for.intro dec_jets_keys jets_for_axioms.intro dec_jets_run)
    (auto simp: dec_jets_def dec_jet_def split: if_splits)

interpretation dec: jets_sound "dec_jets gmp_int"
  by (rule dec_jets_sound [OF gmp_ref.gmp_laws_axioms])

interpretation dec_free: jets_for "dec_jets gmp_int" Free
  by (rule dec_jets_for [OF gmp_ref.gmp_laws_axioms])

interpretation dec_machine: nock_machine "dec_jets gmp_int" h gmp_int "\<lambda>m. m" for h
  by (intro nock_machine.intro dec_jets_for [OF gmp_ref.gmp_laws_axioms] gmp_ref.gmp_laws_axioms)

end
