(* ===== verification/Nock_Live.thy ===== *)
theory Nock_Live
  imports Nock_Run
begin

text \<open>
  Runs that end, and the theorems about the interpreter. \<open>settles\<close> says that a run has one outcome for every
  fuel from some point on; each operator has a rule by which the runs of its parts give its own. The wire of the examples is a
  rock, as every wire of the program is.
\<close>

section \<open>Runs that settle\<close>

definition settles :: "(nat \<Rightarrow> 'a nk) \<Rightarrow> u2_wire \<Rightarrow> jump + 'a \<Rightarrow> u2_wire \<Rightarrow> bool" where
  "settles m s r s' \<longleftrightarrow> (\<exists>n. \<forall>k\<ge>n. m k s = Some (r, s'))"

lemma settlesI: "(\<And>k. m k s = Some (r, s')) \<Longrightarrow> settles m s r s'"
  by (simp add: settles_def)

lemma settles_return [simp]: "settles (\<lambda>_. nk_return x) s (Inr x) s"
  by (simp add: settles_def nk_return_def)

lemma settles_if [simp]:
  "settles (\<lambda>k. if b then f k else g k) s r s' \<longleftrightarrow> (if b then settles f s r s' else settles g s r s')"
  by simp

lemma settles_Suc: "settles (\<lambda>k. m (Suc k)) s r s' \<Longrightarrow> settles m s r s'"
  unfolding settles_def by (metis Suc_le_D Suc_le_mono)

lemma settles_bind:
  assumes "settles m s (Inr x) s1" "settles (\<lambda>k. f k x) s1 r s2"
  shows "settles (\<lambda>k. nk_bind (m k) (f k)) s r s2"
proof -
  obtain n1 n2 where "\<forall>k\<ge>n1. m k s = Some (Inr x, s1)" "\<forall>k\<ge>n2. f k x s1 = Some (r, s2)"
    using assms by (auto simp: settles_def)
  then have "\<forall>k\<ge>max n1 n2. nk_bind (m k) (f k) s = Some (r, s2)" by (simp add: nk_bind_def)
  then show ?thesis unfolding settles_def by blast
qed

lemma settles_get: "settles (\<lambda>k. f k s) s r s' \<Longrightarrow> settles (\<lambda>k. nk_get (f k)) s r s'"
  by (simp add: settles_def nk_get_def)

lemma settles_put: "settles (\<lambda>k. f k ()) (g s) r s' \<Longrightarrow> settles (\<lambda>k. nk_bind (nk_put g) (f k)) s r s'"
  by (simp add: settles_def nk_bind_def nk_put_def)

lemma settles_res: "settles (\<lambda>k. f k x) s r s' \<Longrightarrow> settles (\<lambda>k. nk_bind (nk_res (Inr x)) (f k)) s r s'"
  by (simp add: settles_def nk_bind_def nk_res_def nk_return_def)

lemma settles_pon: "settles m s (Inr (0, x)) s1 \<Longrightarrow> settles (\<lambda>k. f k x) s1 r s2 \<Longrightarrow> settles (\<lambda>k. nk_pon (m k) (f k)) s r s2"
  unfolding nk_pon_def by (rule settles_bind, assumption) (simp only: prod.case simp_thms if_False)

definition cool_to :: "'m gmp \<Rightarrow> jets \<Rightarrow> u2_wire \<Rightarrow> noun \<Rightarrow> noun \<Rightarrow> noun \<Rightarrow> u2_wire \<Rightarrow> bool" where
  "cool_to G J s a f p s' \<longleftrightarrow> settles (\<lambda>n. i_cool (nock_at G J n) a f) s (Inr p) s'"

definition mool_to :: "'m gmp \<Rightarrow> jets \<Rightarrow> u2_wire \<Rightarrow> noun \<Rightarrow> noun \<Rightarrow> noun \<Rightarrow> u2_wire \<Rightarrow> bool" where
  "mool_to G J s a f p s' \<longleftrightarrow> settles (\<lambda>n. i_mool (nock_at G J n) a f) s (Inr (0, p)) s'"

lemma cool_toI: "settles (\<lambda>n. nock_cool G J (nock_at G J n) a f) s (Inr p) s' \<Longrightarrow> cool_to G J s a f p s'"
  unfolding cool_to_def by (rule settles_Suc) simp

lemma mool_toI: "settles (\<lambda>n. nock_mool G J (nock_at G J n) a f) s (Inr (0, p)) s' \<Longrightarrow> mool_to G J s a f p s'"
  unfolding mool_to_def by (rule settles_Suc) simp

section \<open>Products the interpreter always reaches\<close>

text \<open>
  The rules of Nock, restricted to what never leaves the formula or the memory: successors that fit, cores that
  the dashboard \<open>d\<close> does not know, and hints other than the four that write to the dashboard or the table.
\<close>

definition quiet :: "noun \<Rightarrow> bool" where
  "quiet zep \<longleftrightarrow> zep \<notin> {Atom c3__mine, Atom c3__fast, Atom c3__memo, Atom c3__sole}"

inductive nock_quiet :: "u2_slot \<Rightarrow> noun \<Rightarrow> noun \<Rightarrow> noun \<Rightarrow> bool" for d where
  quiet_cons: "nock_quiet d a (Cell b c) x \<Longrightarrow> nock_quiet d a f y \<Longrightarrow> nock_quiet d a (Cell (Cell b c) f) (Cell x y)"
| quiet_0: "slot b a = Some p \<Longrightarrow> nock_quiet d a (op 0 (Atom b)) p"
| quiet_1: "nock_quiet d a (op 1 b) b"
| quiet_2: "nock_quiet d a b x \<Longrightarrow> nock_quiet d a c y \<Longrightarrow> nock_quiet d x y p \<Longrightarrow> nock_quiet d a (op2 2 b c) p"
| quiet_3: "nock_quiet d a b x \<Longrightarrow> nock_quiet d a (op 3 b) (wut x)"
| quiet_4: "nock_quiet d a b (Atom n) \<Longrightarrow> atom_fits (n + 1) \<Longrightarrow> nock_quiet d a (op 4 b) (Atom (n + 1))"
| quiet_5: "nock_quiet d a b (Cell x y) \<Longrightarrow> nock_quiet d a (op 5 b) (tis x y)"
| quiet_6_yes: "nock_quiet d a b (Atom 0) \<Longrightarrow> nock_quiet d a c p \<Longrightarrow> nock_quiet d a (op3 6 b c e) p"
| quiet_6_no: "nock_quiet d a b (Atom 1) \<Longrightarrow> nock_quiet d a e p \<Longrightarrow> nock_quiet d a (op3 6 b c e) p"
| quiet_7: "nock_quiet d a b x \<Longrightarrow> nock_quiet d x c p \<Longrightarrow> nock_quiet d a (op2 7 b c) p"
| quiet_8: "nock_quiet d a b x \<Longrightarrow> nock_quiet d (Cell x a) c p \<Longrightarrow> nock_quiet d a (op2 8 b c) p"
| quiet_9: "nock_quiet d a c x \<Longrightarrow> u2_ds_find d x = Inr None \<Longrightarrow> slot b x = Some f \<Longrightarrow> nock_quiet d x f p \<Longrightarrow>
    nock_quiet d a (op2 9 (Atom b) c) p"
| quiet_10: "quiet b \<Longrightarrow> nock_quiet d a c x \<Longrightarrow> nock_quiet d a f p \<Longrightarrow> nock_quiet d a (op2 10 (Cell b c) f) p"
| quiet_10_atom: "quiet (Atom b) \<Longrightarrow> nock_quiet d a c p \<Longrightarrow> nock_quiet d a (op2 10 (Atom b) c) p"

lemma quiet_formula: "nock_quiet d a f p \<Longrightarrow> \<exists>b c. f = Cell b c"
  by (cases rule: nock_quiet.cases) auto

lemma slot_top:
  assumes "slot a b = Some p" shows "slot (unat (last (atom_words a))) b \<noteq> None"
proof -
  let ?ws = "atom_words a"
  have "0 < a" using assms by (cases a) auto
  then have ne: "?ws \<noteq> []" and last: "0 < unat (last ?ws)" by (simp_all add: unat_gt_0)
  have "a = words_atom (butlast ?ws @ [last ?ws])" using ne by simp
  then have "a = unat (last ?ws) * 2 ^ (32 * length (butlast ?ws)) + words_atom (butlast ?ws)"
    by (simp only: words_atom_append) (simp add: mult.commute)
  then have "slot a b = Option.bind (slot (unat (last ?ws)) b) (slot (2 ^ (32 * length (butlast ?ws)) + words_atom (butlast ?ws)))"
    using slot_path [OF last words_atom_less] by metis
  then show ?thesis using assms by (cases "slot (unat (last ?ws)) b") auto
qed

lemma frag_reaches: "slot a b = Some p \<Longrightarrow> u2_frag (Atom a) b = Inr (Some p)"
  using slot_top by (auto simp: u2_frag_slot)

lemma bi_frag_reaches: "slot a b = Some p \<Longrightarrow> u2_bi_frag (Atom a) b = Inr p"
  by (simp add: u2_bi_frag_def frag_reaches)

text \<open>The operators, when their parts run.\<close>

lemmas cool_run = cool_to_def nock_cool_def
lemmas mool_run = mool_to_def nock_mool_def

lemma vint_settles:
  assumes "gmp_laws G val" "atom_fits (n + 1)"
  shows "nk_vint G (Atom n) = nk_return (Some (Atom (n + 1)))"
  using assms gmp_laws.vint [OF assms(1)] atom_fits_mono [of n "n + 1"]
  by (simp add: nk_vint_def nk_res_def atom_weak_def)

lemma hint_run_to:
  "cool_to G J s a f p s' \<Longrightarrow> settles (\<lambda>n. hint_run (nock_at G J n) False a f) s (Inr (0, p)) s'"
  "mool_to G J s a f p s' \<Longrightarrow> settles (\<lambda>n. hint_run (nock_at G J n) True a f) s (Inr (0, p)) s'"
  unfolding hint_run_def cool_to_def mool_to_def
  by (simp only: if_False, rule settles_bind, assumption, rule settles_return) simp

lemma hint_quiet:
  assumes "quiet zep"
    and run: "\<And>t. settles (\<lambda>n. hint_run (nock_at G J n) v a f) (s\<lparr>tax := t\<rparr>) (Inr (0, p)) (s\<lparr>tax := t\<rparr>)"
  shows "settles (\<lambda>n. nock_hint (nock_at G J n) zep hod a f v) s (Inr (0, p)) s"
proof -
  have same: "settles (\<lambda>n. hint_run (nock_at G J n) v a f) s (Inr (0, p)) s" using run [of "tax s"] by simp
  have "settles (\<lambda>n. hint_trace (nock_at G J n) v zep hod a f) s (Inr (0, p)) s"
    unfolding hint_trace_def
  proof (intro settles_get settles_put, rule settles_bind [OF run])
    show "settles (\<lambda>_. nk_bind (nk_put (\<lambda>s'. s'\<lparr>tax := tax s\<rparr>)) (\<lambda>_. nk_return (0, p)))
        (s\<lparr>tax := Cell zep hod # tax s\<rparr>) (Inr (0, p)) s"
      by (rule settles_put) (simp add: settles_def nk_return_def)
  qed
  moreover have "settles (\<lambda>n. nk_bind (hint_run (nock_at G J n) v a f)
      (\<lambda>(pon, pro). nk_return (pon, if pro = hod then hod else pro))) s (Inr (0, p)) s"
    by (rule settles_bind [OF same]) (simp add: settles_def nk_return_def)
  ultimately show ?thesis using assms(1) same unfolding nock_hint_def quiet_def by simp
qed

lemma cool_ops:
  assumes b: "settles (\<lambda>n. i_cool (nock_at G J n) a b) s (Inr x) s1"
  shows cool_to_3: "cool_to G J s a (op 3 b) (wut x) s1"
    and cool_to_7: "cool_to G J s1 x c p s2 \<Longrightarrow> cool_to G J s a (op2 7 b c) p s2"
    and cool_to_8: "cool_to G J s1 (Cell x a) c p s2 \<Longrightarrow> cool_to G J s a (op2 8 b c) p s2"
    and cool_to_6_yes: "x = Atom 0 \<Longrightarrow> cool_to G J s1 a c p s2 \<Longrightarrow> cool_to G J s a (op3 6 b c e) p s2"
    and cool_to_6_no: "x = Atom 1 \<Longrightarrow> cool_to G J s1 a e p s2 \<Longrightarrow> cool_to G J s a (op3 6 b c e) p s2"
    and cool_to_4: "gmp_laws G val \<Longrightarrow> x = Atom n \<Longrightarrow> atom_fits (n + 1) \<Longrightarrow> cool_to G J s a (op 4 b) (Atom (n + 1)) s1"
  by (rule cool_toI, simp add: nock_cool_def u2_dust_wut, rule settles_bind [OF b],
      simp add: cool_to_def vint_settles nk_bind_def nk_return_def nk_good_def settles_def)+

lemma cool_ops_cell:
  assumes b: "settles (\<lambda>n. i_cool (nock_at G J n) a (Cell h t)) s (Inr x) s1"
  shows cool_to_5: "x = Cell y z \<Longrightarrow> cool_to G J s a (op 5 (Cell h t)) (tis y z) s1"
    and cool_to_cons: "cool_to G J s1 a c y s2 \<Longrightarrow> cool_to G J s a (Cell (Cell h t) c) (Cell x y) s2"
  by (rule cool_toI, simp add: nock_cool_def sing_tis, rule settles_bind [OF b],
      simp add: cool_to_def nk_return_def settles_def)
   (rule cool_toI, simp add: nock_cool_def, rule settles_bind [OF b], rule settles_bind, simp add: cool_to_def, 
      rule settles_return)

lemmas cool_rules =
  cool_to_3 [folded cool_to_def] cool_to_7 [folded cool_to_def] cool_to_8 [folded cool_to_def]
  cool_to_6_yes [folded cool_to_def, OF _ refl] cool_to_5 [folded cool_to_def, OF _ refl] cool_to_cons [folded cool_to_def]

lemma cool_to_2:
  assumes "cool_to G J s a c y s1" "cool_to G J s1 a b x s2" "cool_to G J s2 x y p s3"
  shows "cool_to G J s a (op2 2 b c) p s3"
  using assms unfolding cool_to_def
  by (intro cool_toI [unfolded cool_to_def]) (simp add: nock_cool_def, rule settles_bind, assumption, rule settles_bind)

lemma nk_find_settles: "u2_ds_find (des s) x = Inr xip \<Longrightarrow> settles (\<lambda>_. nk_find x) s (Inr xip) s"
  by (simp add: settles_def nk_find_def nk_get_def nk_res_def nk_return_def)

lemma cool_to_9:
  assumes "cool_to G J s a c x s1" "u2_ds_find (des s1) x = Inr None" "slot b x = Some f" "cool_to G J s1 x f p s2"
  shows "cool_to G J s a (op2 9 (Atom b) c) p s2"
  by (rule cool_toI, simp add: nock_cool_def, rule settles_bind [OF assms(1) [unfolded cool_to_def]],
      rule settles_bind [OF nk_find_settles [OF assms(2)]])
    (use assms(4) in \<open>simp add: bi_frag_reaches [OF assms(3)] settles_res cool_to_def\<close>)

lemma cool_to_10:
  assumes "quiet zep" "\<And>t. cool_to G J (s1\<lparr>tax := t\<rparr>) a f p (s1\<lparr>tax := t\<rparr>)"
  shows "settles (\<lambda>n. nk_bind (nock_hint (nock_at G J n) zep hod a f False) (\<lambda>(pon, pro). nk_return pro)) s1 (Inr p) s1"
  by (rule settles_bind, rule hint_quiet [OF assms(1)], rule hint_run_to, rule assms(2)) (simp add: settles_def nk_return_def)

lemma quiet_cool:
  assumes "nock_quiet d a f p" "gmp_laws G val" "des s = d"
  shows "cool_to G J s a f p s"
  using assms(1,3)
proof (induction arbitrary: s rule: nock_quiet.induct)
  case (quiet_0 b a p)
  then show ?case
    by (intro cool_toI) (simp add: nock_cool_def bi_frag_reaches nk_res_def)
next
  case (quiet_1 a b)
  then show ?case by (intro cool_toI) (simp add: nock_cool_def)
next
  case (quiet_5 a b x y)
  then obtain h t where "b = Cell h t" using quiet_formula by blast
  then show ?case using quiet_5 cool_rules(5) by blast
next
  case (quiet_9 a c x b f p)
  then show ?case by (intro cool_to_9) auto
next
  case (quiet_10 b a c x f p)
  have "settles (\<lambda>n. nk_bind (i_cool (nock_at G J n) a c) (\<lambda>hod. nk_return (b, hod))) s (Inr (b, x)) s"
    by (rule settles_bind [OF quiet_10.IH(1) [unfolded cool_to_def]]) (simp_all add: quiet_10.prems)
  then show ?case
    by (intro cool_toI) (simp add: nock_cool_def, rule settles_bind, assumption,
      simp, rule cool_to_10 [OF quiet_10.hyps(1)], simp add: quiet_10)
next
  case (quiet_10_atom b a c p)
  show ?case
    by (rule cool_toI, simp add: nock_cool_def, rule settles_bind [OF settles_return], simp,
        rule cool_to_10 [OF quiet_10_atom.hyps(1)]) (simp add: quiet_10_atom)
next
  case (quiet_4 a b n)
  then show ?case by (intro cool_to_4 [folded cool_to_def, OF _ assms(2)]) auto
next
  case (quiet_6_no a b e p c)
  then show ?case by (intro cool_to_6_no [folded cool_to_def]) auto
next
  case (quiet_2 a b x c y p)
  then show ?case by (intro cool_to_2) auto
qed (blast intro: cool_rules)+

text \<open>The same for the virtual interpreter.\<close>

lemma mool_ops:
  assumes b: "settles (\<lambda>n. i_mool (nock_at G J n) a b) s (Inr (0, x)) s1"
  shows mool_to_3: "mool_to G J s a (op 3 b) (wut x) s1"
    and mool_to_7: "mool_to G J s1 x c p s2 \<Longrightarrow> mool_to G J s a (op2 7 b c) p s2"
    and mool_to_8: "mool_to G J s1 (Cell x a) c p s2 \<Longrightarrow> mool_to G J s a (op2 8 b c) p s2"
    and mool_to_6_yes: "x = Atom 0 \<Longrightarrow> mool_to G J s1 a c p s2 \<Longrightarrow> mool_to G J s a (op3 6 b c e) p s2"
    and mool_to_6_no: "x = Atom 1 \<Longrightarrow> mool_to G J s1 a e p s2 \<Longrightarrow> mool_to G J s a (op3 6 b c e) p s2"
    and mool_to_4: "gmp_laws G val \<Longrightarrow> x = Atom n \<Longrightarrow> atom_fits (n + 1) \<Longrightarrow> mool_to G J s a (op 4 b) (Atom (n + 1)) s1"
    and mool_to_5: "x = Cell y z \<Longrightarrow> mool_to G J s a (op 5 b) (tis y z) s1"
  by (rule mool_toI, simp add: nock_mool_def u2_dust_wut sing_tis, rule settles_pon [OF b],
      simp add: mool_to_def vint_settles nk_bind_def nk_return_def settles_def)+

lemma mool_to_cons:
  assumes "mool_to G J s a (Cell h t) x s1" "mool_to G J s1 a c y s2"
  shows "mool_to G J s a (Cell (Cell h t) c) (Cell x y) s2"
  by (rule mool_toI, simp add: nock_mool_def mool_cons_def, rule settles_bind [OF assms(1) [unfolded mool_to_def]],
      simp, rule settles_bind [OF assms(2) [unfolded mool_to_def]]) (simp add: settles_def nk_return_def)

lemma mool_to_2:
  assumes "mool_to G J s a (Cell h t) x s1" "mool_to G J s1 a c y s2" "mool_to G J s2 x y p s3"
  shows "mool_to G J s a (op2 2 (Cell h t) c) p s3"
  by (rule mool_toI, simp add: nock_mool_def, rule settles_pon [OF mool_to_cons [OF assms(1,2), unfolded mool_to_def]])
    (use assms(3) in \<open>simp add: mool_to_def\<close>)

lemma mool_to_9:
  assumes "mool_to G J s a c x s1" "u2_ds_find (des s1) x = Inr None" "slot b x = Some f" "mool_to G J s1 x f p s2"
  shows "mool_to G J s a (op2 9 (Atom b) c) p s2"
  by (rule mool_toI, simp add: nock_mool_def, rule settles_pon [OF assms(1) [unfolded mool_to_def]],
      unfold mool_kick_def, rule settles_bind [OF nk_find_settles [OF assms(2)]])
    (use assms(4) in \<open>simp add: frag_reaches [OF assms(3)] settles_res mool_to_def\<close>)

lemmas mool_rules =
  mool_to_3 [folded mool_to_def] mool_to_7 [folded mool_to_def] mool_to_8 [folded mool_to_def]
  mool_to_6_yes [folded mool_to_def, OF _ refl] mool_to_5 [folded mool_to_def, OF _ refl] mool_to_cons

lemma quiet_mool:
  assumes "nock_quiet d a f p" "gmp_laws G val" "des s = d"
  shows "mool_to G J s a f p s"
  using assms(1,3)
proof (induction arbitrary: s rule: nock_quiet.induct)
  case (quiet_0 b a p)
  then show ?case
    by (intro mool_toI) (simp add: nock_mool_def frag_reaches settles_res)
next
  case (quiet_1 a b)
  then show ?case by (intro mool_toI) (simp add: nock_mool_def)
next
  case (quiet_2 a b x c y p)
  then obtain h t where "b = Cell h t" using quiet_formula by blast
  then show ?case using quiet_2 mool_to_2 by blast
next
  case (quiet_4 a b n)
  then show ?case by (intro mool_to_4 [folded mool_to_def, OF _ assms(2)]) auto
next
  case (quiet_6_no a b e p c)
  then show ?case by (intro mool_to_6_no [folded mool_to_def]) auto
next
  case (quiet_9 a c x b f p)
  then show ?case by (intro mool_to_9) auto
next
  case (quiet_10 b a c x f p)
  then show ?case
    by (intro mool_toI) (simp add: nock_mool_def, rule settles_pon [OF quiet_10.IH(1) [unfolded mool_to_def]], simp_all add: hint_quiet hint_run_to)
next
  case (quiet_10_atom b a c p)
  then show ?case
    by (intro mool_toI) (simp add: nock_mool_def hint_quiet hint_run_to)
qed (blast intro: mool_rules)+

text \<open>A core that the dashboard knows, with a live jet.\<close>

lemma cool_to_9_jet:
  assumes "cool_to G J s a c x s1" "u2_ds_find (des s1) x = Inr (Some xip)"
    "settles (\<lambda>n. u2_ho_kick (nock_at G J n) J xip x (Atom b)) s1 (Inr (Some p)) s2"
  shows "cool_to G J s a (op2 9 (Atom b) c) p s2"
  by (rule cool_toI, simp add: nock_cool_def, rule settles_bind [OF assms(1) [unfolded cool_to_def]],
      rule settles_bind [OF nk_find_settles [OF assms(2)]], simp, rule settles_bind [OF assms(3)])
    (simp add: nk_good_def)

lemma ho_kick_live:
  assumes "slot b x = Some f" "J xip (Atom b) = Some j" "jet_live (sat s (jet_id j))" "\<not> jet_test (sat s (jet_id j))"
    "settles (\<lambda>n. fun_f j (R n) x) s (Inr (Some p)) s2"
  shows "settles (\<lambda>n. u2_ho_kick (R n) J xip x (Atom b)) s (Inr (Some p)) s2"
proof -
  have run: "settles (\<lambda>n. ho_run (R n) j x) s (Inr p) s2"
    unfolding ho_run_def by (rule settles_bind [OF assms(5)]) (simp add: nk_good_def)
  have "settles (\<lambda>n. u2_ho_use (R n) j x f) s (Inr p) s2"
    unfolding u2_ho_use_def by (rule settles_get) (use assms(3,4) run in simp)
  then have "settles (\<lambda>n. nk_bind (u2_ho_use (R n) j x f) (\<lambda>pro. nk_return (Some pro))) s (Inr (Some p)) s2"
    by (rule settles_bind) (rule settles_return)
  then show ?thesis
    unfolding u2_ho_kick_def frag_reaches [OF assms(1)] by (intro settles_res) (simp add: assms(2))
qed

lemma settles_trap:
  assumes "settles m (u2_cm_rind s) (Inr x) s'"
  shows "settles (\<lambda>n. u2_cm_trap (m n) handler) s (Inr x) s'"
proof -
  obtain n where "\<forall>k\<ge>n. m k (u2_cm_rind s) = Some (Inr x, s')" using assms by (auto simp: settles_def)
  then have "\<forall>k\<ge>n. u2_cm_trap (m k) handler s = Some (Inr x, s')" by (simp add: u2_cm_trap_def)
  then show ?thesis unfolding settles_def by blast
qed

lemma rind_settles:
  assumes "settles m (u2_cm_rind s) (Inr x) (u2_cm_rind s)"
  shows "settles (\<lambda>n. u2_cm_trap (nk_bind (m n) (\<lambda>x. nk_bind u2_cm_done (\<lambda>_. nk_return (f x)))) handler) s (Inr (f x)) s"
  by (rule settles_trap, rule settles_bind [OF assms])
    (simp add: settles_def nk_bind_def u2_cm_done_def u2_cm_rind_def nk_return_def)

text \<open>The same for the virtual interpreter, which runs the jet under a trap.\<close>

lemma mool_to_9_jet:
  assumes "mool_to G J s a c x s1" "u2_ds_find (des s1) x = Inr (Some xip)"
    "settles (\<lambda>n. u2_ho_kick (nock_at G J n) J xip x (Atom b)) (u2_cm_rind s1) (Inr (Some p)) (u2_cm_rind s1)"
  shows "mool_to G J s a (op2 9 (Atom b) c) p s1"
proof -
  have "settles (\<lambda>n. u2_ho_kicq (nock_at G J n) J xip x (Atom b)) s1 (Inr (0, Some p)) s1"
    unfolding u2_ho_kicq_def by (rule rind_settles [OF assms(3)])
  then have "settles (\<lambda>n. mool_kick J (nock_at G J n) b x) s1 (Inr (0, p)) s1"
    unfolding mool_kick_def
    by (intro settles_bind [OF nk_find_settles [OF assms(2)]]) (simp, rule settles_bind, assumption, simp)
  then show ?thesis
    by (intro mool_toI) (simp add: nock_mool_def, rule settles_pon [OF assms(1) [unfolded mool_to_def]])
qed

section \<open>The decrement gate on a wire\<close>

text \<open>A wire that has the decrement gate in its dashboard and the jet live, and a call of the gate.\<close>

definition dec_wire :: u2_wire where
  "dec_wire = \<lparr>tax = [], kit = [[]], lad = u2_nul, des = Slot_a 0 dec_formula (Cell dec_chip u2_nul),
     rail = \<lparr>hip_m = c3__rock, lot_r = Slot_c\<rparr>,
     sat = (\<lambda>_. \<lparr>jet_live = True, jet_test = False, jet_leak = False, jet_memo = False\<rparr>), Flag_Abort = False\<rparr>"

definition dec_call :: noun where
  "dec_call = op2 9 (Atom 2) (Cell (op 1 dec_formula) (Cell (op 0 (Atom 1)) (op 1 (Atom 0))))"

lemma dec_wire_ok: "wire_ok J (Hip c3__rock) dec_wire"
  by (simp add: wire_ok_def dec_wire_def mem_sound_def cash_ok_def u2_cs_find_def numeral_nat keys_under_def)

lemma dec_core_run: "cool_to G J s (Atom a) (Cell (op 1 dec_formula) (Cell (op 0 (Atom 1)) (op 1 (Atom 0)))) (gate dec_formula (Atom a) (Atom 0)) s"
proof -
  have "cool_to G J s a (op 1 b) b s" "cool_to G J s a (op 0 (Atom 1)) a s" for a b
    by (rule cool_toI, simp add: nock_cool_def bi_frag_reaches nk_res_def)+
  then show ?thesis unfolding gate_def by (intro cool_rules)
qed

lemma dec_find: "u2_ds_find (des dec_wire) (gate dec_formula (Atom a) (Atom 0)) = Inr (Some dec_chip)"
  by (simp add: u2_ds_find_def gate_def dec_wire_def u2_cs_find_def dec_chip_def)

lemma dec_jet_5: "fun_f (dec_jet gmp_int) R (gate dec_formula (Atom 5) (Atom 0)) = nk_return (Some (Atom 4))"
proof -
  have "atom_fits 5" by (simp add: atom_fits_def atom_words_pos)
  then show ?thesis
    by (simp add: dec_jet_def gate_def [symmetric] j2_mb_dec_def gmp_ref.mbc_dec nk_res_def slot_gate)
qed

lemma dec_call_run: "cool_to gmp_int (dec_jets gmp_int) dec_wire (Atom 5) dec_call (Atom 4) dec_wire"
proof -
  let ?cor = "gate dec_formula (Atom 5) (Atom 0)"
  have "settles (\<lambda>n. u2_ho_kick (nock_at gmp_int (dec_jets gmp_int) n) (dec_jets gmp_int) dec_chip ?cor (Atom 2))
      dec_wire (Inr (Some (Atom 4))) dec_wire"
    by (rule ho_kick_live [of _ _ dec_formula _ _ "dec_jet gmp_int"])
      (simp_all add: gate_def slot_small dec_jets_def dec_wire_def dec_jet_5 [unfolded gate_def])
  then show ?thesis unfolding dec_call_def by (rule cool_to_9_jet [OF dec_core_run dec_find])
qed

text \<open>The same call made virtually, and that it meets no memo hint.\<close>

lemma dec_call_mool: "mool_to gmp_int (dec_jets gmp_int) dec_wire (Atom 5) dec_call (Atom 4) dec_wire"
proof -
  let ?cor = "gate dec_formula (Atom 5) (Atom 0)" and ?s = "u2_cm_rind dec_wire"
  have "nock_quiet (des dec_wire) (Atom 5) (Cell (op 1 dec_formula) (Cell (op 0 (Atom 1)) (op 1 (Atom 0)))) ?cor"
    unfolding gate_def by (intro quiet_cons quiet_0 quiet_1) (simp add: slot_small)
  then have core: "mool_to gmp_int (dec_jets gmp_int) dec_wire (Atom 5) (Cell (op 1 dec_formula) (Cell (op 0 (Atom 1)) (op 1 (Atom 0)))) ?cor dec_wire"
    by (rule quiet_mool [OF _ gmp_ref.gmp_laws_axioms refl])
  have "settles (\<lambda>n. u2_ho_kick (nock_at gmp_int (dec_jets gmp_int) n) (dec_jets gmp_int) dec_chip ?cor (Atom 2)) ?s (Inr (Some (Atom 4))) ?s"
    by (rule ho_kick_live [of _ _ dec_formula _ _ "dec_jet gmp_int"])
      (simp_all add: gate_def slot_small dec_jets_def dec_wire_def u2_cm_rind_def dec_jet_5 [unfolded gate_def])
  then show ?thesis unfolding dec_call_def by (rule mool_to_9_jet [OF core dec_find])
qed

definition dec_again :: noun where
  "dec_again = op2 9 (Atom 2) (Cell (op 0 (Atom 2)) (Cell (op 4 (op 0 (Atom 6))) (op 0 (Atom 7))))"

lemma dec_loop_sub: "sub_run (L, a, dec_loop) (L', a', f') \<Longrightarrow> a' = a \<and> (plain f' \<or> f' = dec_again)"
  unfolding dec_loop_def dec_again_def [symmetric] by (erule sub_run_opE) auto

lemma dec_again_sub:
  "sub_run (L, Cell dec_loop z, dec_again) (L', a', f') \<Longrightarrow> plain f' \<or> f' = dec_loop \<and> (\<exists>z. a' = Cell dec_loop z)"
  unfolding dec_again_def by (erule sub_run_opE) (auto simp: nock_in_cons nock_in_0 slot_small)

lemma dec_loop_free: "memo_free L (Cell dec_loop z) dec_loop"
proof (rule memo_free_invariant [where I = "\<lambda>(L, a, f). plain f \<or> (\<exists>z. a = Cell dec_loop z \<and> (f = dec_loop \<or> f = dec_again))"])
  fix x y
  assume "case x of (L, a, f) \<Rightarrow> plain f \<or> (\<exists>z. a = Cell dec_loop z \<and> (f = dec_loop \<or> f = dec_again))" "sub_run x y"
  then show "case y of (L, a, f) \<Rightarrow> plain f \<or> (\<exists>z. a = Cell dec_loop z \<and> (f = dec_loop \<or> f = dec_again))"
    by (cases x; cases y) (auto dest: plain_sub dec_loop_sub dec_again_sub)
qed (auto simp: plain_no_memo, auto simp: dec_loop_def dec_again_def)

lemma dec_formula_free: "memo_free L a dec_formula"
proof -
  have plain: "plain f \<Longrightarrow> memo_free L a f" for L a f by (rule plain_memo_free)
  have "memo_free L (Cell dec_loop z) (op2 9 (Atom 2) (op 0 (Atom 1)))" for z
    by (rule memo_free_9 [OF plain]) (auto simp: nock_in_0 slot_small dec_loop_free)
  then have "memo_free L a (op2 8 (op 1 (Atom 0)) (op2 8 (op 1 dec_loop) (op2 9 (Atom 2) (op 0 (Atom 1)))))"
    by (intro memo_free_8 [OF memo_free_1]) auto
  then show ?thesis unfolding dec_formula_def by (intro memo_free_6 [OF plain plain]) auto
qed

lemma dec_call_free: "memo_free L a dec_call"
  unfolding dec_call_def
  by (intro memo_free_9 memo_free_cons memo_free_1) (auto simp: plain_memo_free nock_in_cons slot_small dec_formula_free)

section \<open>Virtual nock\<close>

lemma moog_ok:
  assumes "interp_ok J h R" "wire_ok J h s" "h \<noteq> Hip c3__rock" "lad s = L" "may h L bus fol"
  shows "nk_ends (\<lambda>r s'. wire_ok J h s' \<and> (\<forall>p. r = Inr (Cell (Atom 0) p) \<longrightarrow> nock_in L bus fol p)) (nock_moog R bus fol) s"
    (is "nk_ends ?P _ _")
  unfolding nock_moog_def
proof (rule nk_ends_trap [where Q = ?P])
  have s: "wire_ok J h (u2_cm_rind s)" "lad (u2_cm_rind s) = L" using assms(2,4) by (simp_all add: u2_cm_rind_def)
  show "nk_ends ?P (nk_bind (i_mool R bus fol) (\<lambda>(pon, pro).
      nk_bind u2_cm_done (\<lambda>_. nk_return (Cell (Atom pon) pro)))) (u2_cm_rind s)"
    by (rule mool_bind [OF assms(1) s(1) assms(3)])
      (auto simp: s(2) assms(5) intro!: done_bind [of J h] nk_ends_return)
  fix d hoe s' assume "?P (Inl (Jump d hoe)) s'"
  then have ok: "wire_ok J h s'" by simp
  show "nk_ends ?P (nk_bind (nk_res (u2_bi_h hoe)) (\<lambda>how.
      if how = Atom c3__exit then nk_bind (nk_res (u2_bi_t hoe)) (\<lambda>t. nk_return (Cell (Atom 2) t))
      else if how = Atom c3__need then nk_bind (nk_res (u2_bi_t hoe)) (\<lambda>t. nk_return (Cell (Atom 1) t))
      else u2_cm_bail how)) s'"
    by (rule res_bind [OF ok])
      (use leave_ok [OF ok, of ?P] ok in \<open>auto intro!: res_bind [OF ok] nk_ends_return\<close>)
qed auto

lemma mink_settles:
  assumes "mool_to G J (u2_cm_rind (s\<lparr>lad := Cell fly (lad s)\<rparr>)) a f p (u2_cm_rind (s\<lparr>lad := Cell fly (lad s)\<rparr>))"
  shows "settles (\<lambda>n. u2_cn_mink (nock_at G J n) a f fly) s (Inr (Cell (Atom 0) p)) s"
  unfolding u2_cn_mink_def nock_moog_def case_prod_unfold
proof (intro settles_get settles_put, rule settles_bind)
  let ?s = "s\<lparr>lad := Cell fly (lad s)\<rparr>"
  have "settles (\<lambda>n. i_mool (nock_at G J n) a f) (u2_cm_rind ?s) (Inr (0, p)) (u2_cm_rind ?s)"
    using assms by (simp add: mool_to_def)
  then show "settles (\<lambda>n. u2_cm_trap (nk_bind (i_mool (nock_at G J n) a f) (\<lambda>x. nk_bind u2_cm_done (\<lambda>_. nk_return (Cell (Atom (fst x)) (snd x)))))
      (\<lambda>hoe. nk_bind (nk_res (u2_bi_h hoe)) (\<lambda>how.
          if how = Atom c3__exit then nk_bind (nk_res (u2_bi_t hoe)) (\<lambda>t. nk_return (Cell (Atom 2) t))
          else if how = Atom c3__need then nk_bind (nk_res (u2_bi_t hoe)) (\<lambda>t. nk_return (Cell (Atom 1) t))
          else u2_cm_bail how))) ?s (Inr (Cell (Atom 0) p)) ?s"
    using rind_settles [of _ ?s "(0, p)" "\<lambda>x. Cell (Atom (fst x)) (snd x)"] by simp
  show "settles (\<lambda>n. nk_bind (nk_put (\<lambda>s'. s'\<lparr>lad := lad s\<rparr>)) (\<lambda>_. nk_return (Cell (Atom 0) p))) ?s (Inr (Cell (Atom 0) p)) s"
    by (rule settles_put) (simp add: settles_def nk_return_def)
qed

text \<open>A load from a namespace of one gate that the dashboard does not know.\<close>

lemma mung_settles:
  assumes "u2_ds_find (des s) (Cell bat (Cell sam con)) = Inr None" "cool_to G J s (Cell bat (Cell sam con)) bat p s"
  shows "settles (\<lambda>n. u2_cn_mung (nock_at G J n) J (Cell bat (Cell x con)) sam) s (Inr p) s"
proof -
  have "settles (\<lambda>n. u2_nk_nock (nock_at G J n) (Some (Cell bat (Cell sam con))) (Some bat)) s (Inr (Some p)) s"
    unfolding u2_nk_nock_def u2_nk_soft_def u2_cn_nock_def option.case
    by (rule settles_bind [OF assms(2) [unfolded cool_to_def]]) simp
  then have "settles (\<lambda>n. u2_nk_mong (nock_at G J n) J (Cell bat (Cell x con)) sam) s (Inr (Some p)) s"
    unfolding u2_nk_mong_def
    by (simp, intro settles_res) (simp, rule settles_bind [OF nk_find_settles [OF assms(1)]], simp)
  then show ?thesis
    unfolding u2_cn_mung_def by (rule settles_bind) (simp add: nk_good_def)
qed

lemma mool_to_11:
  assumes "mool_to G J s a b gof s" "lad s = Cell i u2_nul" "t = u2_cm_rind (s\<lparr>lad := u2_nul\<rparr>)"
    "settles (\<lambda>n. u2_cn_mung (nock_at G J n) J i gof) t (Inr (Cell h p)) t"
  shows "mool_to G J s a (op 11 b) p s"
proof -
  let ?body = "\<lambda>n. nk_bind (nk_bind (u2_cn_mung (nock_at G J n) J i gof) (\<lambda>pro. nk_return (0, pro)))
     (\<lambda>(pon, pro). nk_bind u2_cm_done (\<lambda>_. nk_get (\<lambda>s. if u2_nul \<noteq> lad s then nk_dead Abort
        else nk_bind (nk_put (\<lambda>s. s\<lparr>lad := Cell i u2_nul\<rparr>)) (\<lambda>_. if pon \<noteq> 0 then nk_return (pon, pro)
          else case pro of Atom _ \<Rightarrow> nk_return (1, Cell gof u2_nul) | Cell _ res \<Rightarrow> nk_return (0, res)))))"
  have gate: "settles (\<lambda>n. nk_bind (u2_cn_mung (nock_at G J n) J i gof) (\<lambda>pro. nk_return (0, pro))) t (Inr (0, Cell h p)) t"
    by (rule settles_bind [OF assms(4)]) simp
  have "settles ?body t (Inr (0, p)) s"
    by (rule settles_bind [OF gate])
      (simp add: assms(2,3) settles_def nk_bind_def u2_cm_done_def u2_cm_rind_def nk_return_def nk_get_def nk_put_def)
  then have "settles (\<lambda>n. u2_cm_trap (?body n) k) (s\<lparr>lad := u2_nul\<rparr>) (Inr (0, p)) s" for k
    unfolding assms(3) by (rule settles_trap)
  then have "settles (\<lambda>n. nock_pray_mool (nock_at G J n) J gof) s (Inr (0, p)) s"
    unfolding nock_pray_mool_def by (intro settles_get, unfold assms(2) noun.case, intro settles_put) simp
  then show ?thesis
    by (intro mool_toI) (simp add: nock_mool_def, rule settles_pon [OF assms(1) [unfolded mool_to_def]])
qed

text \<open>A namespace that holds at each path the path itself.\<close>

definition echo_gate :: noun where
  "echo_gate = gate (Cell (op 1 (Atom 0)) (op 0 (Atom 6))) (Atom 0) (Atom 0)"

lemma echo_free: "memo_free (Cell echo_gate L) a (op 11 (op 0 (Atom 1)))"
  by (rule memo_free_11) (auto simp: echo_gate_def gate_def plain_memo_free)

lemma echo_run:
  "settles (\<lambda>n. u2_cn_mink (nock_at gmp_int no_jets n) (Atom 3) (op 11 (op 0 (Atom 1))) echo_gate) dec_wire
     (Inr (Cell (Atom 0) (Atom 3))) dec_wire"
proof (rule mink_settles)
  let ?s = "u2_cm_rind (dec_wire\<lparr>lad := Cell echo_gate (lad dec_wire)\<rparr>)" and ?bat = "Cell (op 1 (Atom 0)) (op 0 (Atom 6))"
  let ?t = "u2_cm_rind (?s\<lparr>lad := u2_nul\<rparr>)" and ?cor = "Cell ?bat (Cell (Atom 3) (Atom 0))"
  have "nock_quiet (des ?t) ?cor ?bat (Cell (Atom 0) (Atom 3))"
    by (intro quiet_cons quiet_0 quiet_1) (simp add: slot_more)
  then have "cool_to gmp_int no_jets ?t ?cor ?bat (Cell (Atom 0) (Atom 3)) ?t"
    by (rule quiet_cool [OF _ gmp_ref.gmp_laws_axioms refl])
  moreover have "u2_ds_find (des ?t) ?cor = Inr None"
    by (simp add: u2_ds_find_def dec_wire_def u2_cm_rind_def u2_cs_find_def dec_formula_def)
  ultimately have gate: "settles (\<lambda>n. u2_cn_mung (nock_at gmp_int no_jets n) no_jets echo_gate (Atom 3)) ?t (Inr (Cell (Atom 0) (Atom 3))) ?t"
    unfolding echo_gate_def gate_def by (intro mung_settles)
  have "nock_quiet (des ?s) (Atom 3) (op 0 (Atom 1)) (Atom 3)" by (intro quiet_0) (simp add: slot_small)
  then have path: "mool_to gmp_int no_jets ?s (Atom 3) (op 0 (Atom 1)) (Atom 3) ?s"
    by (rule quiet_mool [OF _ gmp_ref.gmp_laws_axioms refl])
  show "mool_to gmp_int no_jets ?s (Atom 3) (op 11 (op 0 (Atom 1))) (Atom 3) ?s"
    by (rule mool_to_11 [OF path _ refl gate]) (simp add: u2_cm_rind_def dec_wire_def)
qed

section \<open>Properties\<close>

text \<open>
  C3: \<^verbatim>\<open>_nock_cool\<close> computes Nock. On a wire without a namespace whose table of products is right, whatever
  it returns, by jets, from the table, through hints or by the formula itself, is the product that the definition
  of Nock gives, and the table is still right afterwards; given jets that agree with their formulas and the
  laws of the bignum library.
\<close>

theorem nock_cool_computes_nock:
  assumes "jets_sound J" "gmp_laws G val" "wire_ok J (Hip h) s" "lad s = u2_nul"
    "i_cool (nock_at G J n) bus fol s = Some (Inr pro, s')"
  shows "nock5 bus fol pro \<and> wire_ok J (Hip h) s' \<and> lad s' = u2_nul"
proof -
  have "jets_for J (Hip h)" using assms(1) by (rule jets_sound.in_mode)
  then have "nock_machine J (Hip h) G val" using assms(2) by (rule nock_machine.intro)
  then have "interp_ok J (Hip h) (nock_at G J n)" by (rule nock_machine.nock_at_ok)
  then have "nk_ends (Nock_Sound.ran J (Hip h) (lad s) bus fol) (i_cool (nock_at G J n) bus fol) s"
    using assms(3) by (simp add: interp_ok_def)
  then have "Nock_Sound.ran J (Hip h) u2_nul bus fol (Inr pro) s'" using assms(4,5) by (simp add: nk_ends_def)
  then show ?thesis using nock_in_nock5 by auto
qed

theorem nock_cool_computes_nock_witness:
  "\<exists>n. i_cool (nock_at gmp_int (dec_jets gmp_int) n) (Atom 5) dec_call dec_wire = Some (Inr (Atom 4), dec_wire) \<and>
     nock5 (Atom 5) dec_call (Atom 4)"
proof -
  obtain n where n: "i_cool (nock_at gmp_int (dec_jets gmp_int) n) (Atom 5) dec_call dec_wire = Some (Inr (Atom 4), dec_wire)"
    using dec_call_run unfolding cool_to_def settles_def by blast
  have "lad dec_wire = u2_nul" by (simp add: dec_wire_def)
  then have "nock5 (Atom 5) dec_call (Atom 4)"
    using nock_cool_computes_nock [OF dec.jets_sound_axioms gmp_ref.gmp_laws_axioms dec_wire_ok _ n] by blast
  then show ?thesis using n by blast
qed

text \<open>
  C4: the interpreters end with the product. When a formula has a product by rules that stay inside the formula
  and the memory (every successor fits, the dashboard knows none of the cores called, and no hint writes to the
  dashboard or the table), then with enough fuel \<^verbatim>\<open>_nock_cool\<close> returns that product, \<^verbatim>\<open>_nock_mool\<close> returns it with
  the kode 0, \<^verbatim>\<open>u2_cn_mink\<close> returns it as a success, and each leaves the wire as it was.
\<close>

theorem nock_runs_end:
  assumes "nock_quiet d bus fol pro" "gmp_laws G val" "des s = d"
  shows "\<exists>n. \<forall>k\<ge>n. i_cool (nock_at G J k) bus fol s = Some (Inr pro, s) \<and>
    i_mool (nock_at G J k) bus fol s = Some (Inr (0, pro), s) \<and>
    u2_cn_mink (nock_at G J k) bus fol fly s = Some (Inr (Cell (Atom 0) pro), s)"
proof -
  obtain n1 where n1: "\<forall>k\<ge>n1. i_cool (nock_at G J k) bus fol s = Some (Inr pro, s)"
    using quiet_cool [OF assms] unfolding cool_to_def settles_def by blast
  obtain n2 where n2: "\<forall>k\<ge>n2. i_mool (nock_at G J k) bus fol s = Some (Inr (0, pro), s)"
    using quiet_mool [OF assms] unfolding mool_to_def settles_def by blast
  have "settles (\<lambda>k. u2_cn_mink (nock_at G J k) bus fol fly) s (Inr (Cell (Atom 0) pro)) s"
    by (rule mink_settles [OF quiet_mool [OF assms(1,2)]]) (simp add: u2_cm_rind_def assms(3))
  then obtain n3 where n3: "\<forall>k\<ge>n3. u2_cn_mink (nock_at G J k) bus fol fly s = Some (Inr (Cell (Atom 0) pro), s)"
    unfolding settles_def by blast
  show ?thesis using n1 n2 n3 by (intro exI [of _ "max n1 (max n2 n3)"]) simp
qed

theorem nock_runs_end_witness:
  "\<exists>n. \<forall>k\<ge>n. i_cool (nock_at gmp_int no_jets k) (Atom 41) (op2 8 (op 4 (op 0 (Atom 1))) (op2 10 (Atom 0) (op 0 (Atom 1)))) dec_wire =
       Some (Inr (Cell (Atom 42) (Atom 41)), dec_wire) \<and>
     u2_cn_mink (nock_at gmp_int no_jets k) (Atom 41) (op2 8 (op 4 (op 0 (Atom 1))) (op2 10 (Atom 0) (op 0 (Atom 1)))) (Atom 0) dec_wire =
       Some (Inr (Cell (Atom 0) (Cell (Atom 42) (Atom 41))), dec_wire)"
proof -
  have "quiet (Atom 0)" by (simp add: quiet_def c3__mine_def c3__fast_def c3__memo_def c3__sole_def c3_s4_def)
  moreover have "atom_fits (41 + 1)" by (simp add: atom_fits_def atom_words_pos)
  then have "nock_quiet (des dec_wire) (Atom 41) (op 4 (op 0 (Atom 1))) (Atom (41 + 1))"
    by (intro quiet_4 quiet_0) (simp_all add: slot_small)
  ultimately have "nock_quiet (des dec_wire) (Atom 41) (op2 8 (op 4 (op 0 (Atom 1))) (op2 10 (Atom 0) (op 0 (Atom 1)))) (Cell (Atom (41 + 1)) (Atom 41))"
    by (intro quiet_8 quiet_10_atom quiet_0) (simp_all add: slot_small)
  then show ?thesis
    using nock_runs_end [OF _ gmp_ref.gmp_laws_axioms refl, of dec_wire "Atom 41" _ "Cell (Atom (41 + 1)) (Atom 41)" no_jets "Atom 0"]
    by fastforce
qed

text \<open>
  C5: virtual nock computes Nock with a namespace, on the wire the program has. Whatever the rail, its table of products,
  the dashboard and the namespace of the wire, a kode of \<^verbatim>\<open>_nock_mool\<close> is at most 2, and what it returns with
  the kode 0 is the product in the namespace of the wire, which it leaves in place; for a formula whose run meets no
  memo hint, where the code can keep a failure as a product, and jets that agree with their formulas and have no key in
  the table.
\<close>

theorem nock_mool_computes_nock:
  assumes "jets_for J Free" "gmp_laws G val" "memo_free (lad s) bus fol"
    "i_mool (nock_at G J n) bus fol s = Some (Inr (pon, pro), s')"
  shows "pon \<le> 2 \<and> (pon = 0 \<longrightarrow> nock_in (lad s) bus fol pro \<and> lad s' = lad s)"
proof -
  have "nock_machine J Free G val" using assms(1,2) by (rule nock_machine.intro)
  then have "interp_ok J Free (nock_at G J n)" by (rule nock_machine.nock_at_ok)
  then have "nk_ends (vran J Free (lad s) bus fol) (i_mool (nock_at G J n) bus fol) s"
    using assms(3) by (simp add: interp_ok_def wire_ok_def)
  then show ?thesis using assms(4) by (auto simp: nk_ends_def)
qed

theorem nock_mool_computes_nock_witness:
  "\<exists>n. hip_m (rail dec_wire) = c3__rock \<and>
     i_mool (nock_at gmp_int (dec_jets gmp_int) n) (Atom 5) dec_call dec_wire = Some (Inr (0, Atom 4), dec_wire) \<and>
     nock_in u2_nul (Atom 5) dec_call (Atom 4)"
proof -
  obtain n where n: "i_mool (nock_at gmp_int (dec_jets gmp_int) n) (Atom 5) dec_call dec_wire = Some (Inr (0, Atom 4), dec_wire)"
    using dec_call_mool unfolding mool_to_def settles_def by blast
  have "lad dec_wire = u2_nul" "hip_m (rail dec_wire) = c3__rock" by (simp_all add: dec_wire_def)
  then show ?thesis
    using nock_mool_computes_nock [OF dec_free.jets_for_axioms gmp_ref.gmp_laws_axioms dec_call_free n] n by auto
qed

text \<open>
  C6: \<^verbatim>\<open>u2_cn_mink\<close> on any wire, for a formula whose run meets no memo hint: a success it reports is the
  product in the namespace extended by its gate, and the namespace of the wire is restored whether the formula
  succeeds or not.
\<close>

theorem u2_cn_mink_sound:
  assumes "jets_for J Free" "gmp_laws G val" "memo_free (Cell fly (lad s)) bus fol"
    "u2_cn_mink (nock_at G J n) bus fol fly s = Some (Inr res, s')"
  shows "lad s' = lad s \<and> (\<forall>pro. res = Cell (Atom 0) pro \<longrightarrow> nock_in (Cell fly (lad s)) bus fol pro)"
proof -
  let ?L = "Cell fly (lad s)"
  have "nock_machine J Free G val" using assms(1,2) by (rule nock_machine.intro)
  then have R: "interp_ok J Free (nock_at G J n)" by (rule nock_machine.nock_at_ok)
  have moog: "nk_ends (\<lambda>r s'. wire_ok J Free s' \<and> (\<forall>p. r = Inr (Cell (Atom 0) p) \<longrightarrow> nock_in ?L bus fol p))
      (nock_moog (nock_at G J n) bus fol) (s\<lparr>lad := ?L\<rparr>)"
    by (rule moog_ok [OF R]) (use assms(3) in \<open>simp_all add: wire_ok_def\<close>)
  have "nk_ends (\<lambda>r s'. \<forall>x. r = Inr x \<longrightarrow> lad s' = lad s \<and> (\<forall>p. x = Cell (Atom 0) p \<longrightarrow> nock_in ?L bus fol p))
      (u2_cn_mink (nock_at G J n) bus fol fly) s"
    unfolding u2_cn_mink_def
    by (intro nk_ends_get put_bind nk_ends_bind [OF moog]) (auto intro!: put_bind nk_ends_return)
  then show ?thesis using assms(4) by (simp add: nk_ends_def)
qed

theorem u2_cn_mink_sound_witness:
  "\<exists>n. hip_m (rail dec_wire) = c3__rock \<and>
     u2_cn_mink (nock_at gmp_int no_jets n) (Atom 3) (op 11 (op 0 (Atom 1))) echo_gate dec_wire = Some (Inr (Cell (Atom 0) (Atom 3)), dec_wire) \<and>
     nock_in (Cell echo_gate u2_nul) (Atom 3) (op 11 (op 0 (Atom 1))) (Atom 3)"
proof -
  obtain n where n: "u2_cn_mink (nock_at gmp_int no_jets n) (Atom 3) (op 11 (op 0 (Atom 1))) echo_gate dec_wire = Some (Inr (Cell (Atom 0) (Atom 3)), dec_wire)"
    using echo_run unfolding settles_def by blast
  have "lad dec_wire = u2_nul" "hip_m (rail dec_wire) = c3__rock" by (simp_all add: dec_wire_def)
  then show ?thesis
    using u2_cn_mink_sound [OF no_jets_free.jets_for_axioms gmp_ref.gmp_laws_axioms echo_free n] n by auto
qed

text \<open>
  C39: a virtual failure under a memo hint becomes a success. When the formula of the hint fails with a trace
  (kode 2), the test for the kode 1 lets the trace through to the table of products; the same hint
  then finds it there and returns it as the product, with the kode 0.
\<close>

theorem memo_hint_keeps_failure:
  assumes "i_mool R bus nex s = Some (Inr (2, jaq), s1)"
    "hip_m (rail s) = c3__rock" "hip_m (rail s1) = c3__rock" "cash_ok (lot_r (rail s1))"
    "u2_cs_find (lot_r (rail s)) 0 (Cell bus nex) = None"
    "card {k \<in> dom (cash_map (lot_r (rail s1))). cs_key k = cs_key (0, Cell bus nex)} < 16"
  shows "\<exists>s2. nock_hint R (Atom c3__memo) hod bus nex True s = Some (Inr (2, jaq), s2) \<and>
    nock_hint R (Atom c3__memo) hod bus nex True s2 = Some (Inr (0, jaq), s2)"
proof -
  obtain lot where lot: "u2_cs_save (lot_r (rail s1)) 0 (Cell bus nex) jaq = Inr lot"
    "cash_map lot = (cash_map (lot_r (rail s1)))((0, Cell bus nex) \<mapsto> jaq)"
    by (rule u2_cs_save_correct [OF assms(4), of 0 "Cell bus nex" jaq]) (use assms(6) that in auto)
  let ?s2 = "s1\<lparr>rail := (rail s1)\<lparr>lot_r := lot\<rparr>\<rparr>"
  have "u2_cs_find lot 0 (Cell bus nex) = Some jaq"
    using fun_cong [OF lot(2), of "(0, Cell bus nex)"] by (simp add: cash_map_def)
  then have "hint_memo R True bus nex ?s2 = Some (Inr (0, jaq), ?s2)"
    using assms(3) by (simp add: hint_memo_def nk_get_def u2_rl_find_cell_def cs_find_parts_eq nk_return_def)
  moreover have "hint_memo R True bus nex s = Some (Inr (2, jaq), ?s2)"
    using assms(1-3,5) lot(1)
    by (simp add: hint_memo_def hint_run_def hint_good_def nk_get_def nk_bind_def nk_put_def nk_res_def nk_return_def
        u2_rl_find_cell_def cs_find_parts_eq u2_rl_save_cell_def u2_cs_save_cell_def)
  moreover have "nock_hint R (Atom c3__memo) hod bus nex True = hint_memo R True bus nex"
    by (simp add: nock_hint_def c3__lose_def c3__yelp_def c3__bean_def c3__mean_def c3__spot_def c3__slog_def
        c3__mine_def c3__germ_def c3__fast_def c3__memo_def c3_s4_def)
  ultimately show ?thesis by auto
qed

theorem memo_hint_keeps_failure_witness:
  "\<exists>s2. nock_hint (nock_at gmp_int no_jets 1) (Atom c3__memo) (Atom 0) (Atom 0) (op 0 (Atom 0)) True dec_wire = Some (Inr (2, Atom 0), s2) \<and>
    nock_hint (nock_at gmp_int no_jets 1) (Atom c3__memo) (Atom 0) (Atom 0) (op 0 (Atom 0)) True s2 = Some (Inr (0, Atom 0), s2)"
proof (rule memo_hint_keeps_failure)
  show "i_mool (nock_at gmp_int no_jets 1) (Atom 0) (op 0 (Atom 0)) dec_wire = Some (Inr (2, Atom 0), dec_wire)"
    by (simp add: nock_mool_def u2_frag_word nk_bind_def nk_res_def nk_return_def nk_wail_def u2_cm_wail_def dec_wire_def cm_jack.simps)
  show "cash_ok (lot_r (rail dec_wire))" using dec_wire_ok [of no_jets] by (simp add: wire_ok_def)
  have "dom (cash_map (lot_r (rail dec_wire))) = {}" by (auto simp: dec_wire_def cash_map_def u2_cs_find_def)
  then show "card {k \<in> dom (cash_map (lot_r (rail dec_wire))). cs_key k = cs_key (0, Cell (Atom 0) (op 0 (Atom 0)))} < 16"
    by simp
qed (simp_all add: dec_wire_def u2_cs_find_def)

text \<open>
  A failing namespace gate is not caught. \<^verbatim>\<open>u2_cm_bail\<close> has already removed the trap of \<^verbatim>\<open>_nock_pray_mool\<close>
  when its handler calls \<^verbatim>\<open>u2_cm_done\<close>, which removes the trap of \<^verbatim>\<open>u2_cn_mink\<close> as well; so the failure of the
  gate leaves \<^verbatim>\<open>u2_cn_mink\<close>, which has a trap for it, and reaches the trap around it.
\<close>

theorem mink_gate_failure_escapes:
  assumes "kit s = old # ks" "cm_jack old (tax s) = Inr jaq" "\<not> Flag_Abort s" "lad s = u2_nul"
    "u2_ds_find (des s) (gate (op 0 (Atom 0)) gof (Atom 0)) = Inr None"
  shows "u2_cn_mink (nock_at G J (Suc (Suc n))) bus (op 11 (op 1 gof)) (gate (op 0 (Atom 0)) (Atom 0) (Atom 0)) s =
    Some (Inl (Jump (length ks) (Cell (Atom c3__exit) (noun_list jaq))), s\<lparr>kit := ks, tax := old\<rparr>)"
proof -
  let ?R = "nock_at G J (Suc n)" and ?cor = "gate (op 0 (Atom 0)) gof (Atom 0)"
  have jack: "cm_jack (tax s) (tax s) = Inr []" by (simp add: cm_jack.simps)
  let ?s = "s\<lparr>lad := u2_nul, kit := tax s # tax s # kit s\<rparr>"
  have "i_cool ?R ?cor (op 0 (Atom 0)) ?s =
      Some (Inl (Jump (Suc (length (kit s))) (Cell (Atom c3__exit) (Atom 0))), s\<lparr>lad := u2_nul, kit := tax s # kit s\<rparr>)"
    using assms(3) jack
    by (simp add: nock_cool_def u2_bi_frag_def u2_frag_word u2_bl_bail_def nk_res_def u2_cm_bail_def nk_get_def nk_bind_def
        u2_cm_wail_def nk_return_def nk_jump_def)
  then have "u2_cn_mung ?R J (gate (op 0 (Atom 0)) (Atom 0) (Atom 0)) gof ?s =
      Some (Inl (Jump (Suc (length (kit s))) (Cell (Atom c3__exit) (Atom 0))), s\<lparr>lad := u2_nul, kit := tax s # kit s\<rparr>)"
    using assms(5)
    by (simp add: u2_cn_mung_def u2_nk_mong_def gate_def nk_bind_def nk_res_def nk_return_def nk_find_def nk_get_def
        u2_nk_nock_def u2_nk_soft_def u2_cn_nock_def del: nock_at.simps)
  then show ?thesis
    using assms
    by (simp add: u2_cn_mink_def nock_moog_def nock_pray_mool_def u2_cm_trap_def u2_cm_rind_def nk_get_def nk_bind_def nk_put_def
        nock_mool_def nk_pon_def nk_return_def u2_cm_done_def nk_res_def u2_cm_bail_def u2_cm_wail_def nk_jump_def)
qed

theorem mink_gate_failure_escapes_witness:
  "\<exists>s'. u2_cn_mink (nock_at gmp_int no_jets 2) (Atom 0) (op 11 (op 1 (Atom 1))) (gate (op 0 (Atom 0)) (Atom 0) (Atom 0)) dec_wire =
    Some (Inl (Jump 0 (Cell (Atom c3__exit) (Atom 0))), s')"
proof -
  have "u2_ds_find (des dec_wire) (gate (op 0 (Atom 0)) (Atom 1) (Atom 0)) = Inr None"
    by (simp add: u2_ds_find_def gate_def dec_wire_def u2_cs_find_def dec_formula_def)
  moreover have "kit dec_wire = [[]]" "cm_jack [] (tax dec_wire) = Inr []" "\<not> Flag_Abort dec_wire" "lad dec_wire = u2_nul"
    by (simp_all add: dec_wire_def cm_jack.simps)
  ultimately show ?thesis
    using mink_gate_failure_escapes [of dec_wire "[]" "[]" "[]" "Atom 1" gmp_int no_jets 0 "Atom 0"]
    by (simp add: numeral_2_eq_2 del: nock_at.simps)
qed

end
