(* ===== verification/Rmsg.thy ===== *)
theory Rmsg
  imports Mug
begin

text \<open>
  The messages of raft and their wire format, \<^verbatim>\<open>v/raft.c\<close>: \<^verbatim>\<open>_raft_rmsg_read\<close>, \<^verbatim>\<open>_raft_rmsg_send\<close> and the buffers of a
  connection. Integers are sent least significant byte first, as they are in memory. The union of \<^verbatim>\<open>u2_rmsg\<close> is a datatype,
  whose constructor is the field \<^verbatim>\<open>typ_w\<close>. Where the code reads memory that is not set or not its own, the result is
  \<open>Wild\<close>.
\<close>

section \<open>Integers in bytes\<close>

primrec le_put :: "nat \<Rightarrow> 'a::len word \<Rightarrow> c3_y list" where
  "le_put 0 w = []"
| "le_put (Suc n) w = ucast w # le_put n (drop_bit 8 w)"

primrec le_get :: "c3_y list \<Rightarrow> 'a::len word" where
  "le_get [] = 0"
| "le_get (b # bs) = ucast b OR push_bit 8 (le_get bs)"

lemma length_le_put [simp]: "length (le_put n w) = n"
  by (induction n arbitrary: w) simp_all

lemma le_get_put: "le_get (le_put n w) = take_bit (8 * n) w"
proof (induction n arbitrary: w)
  case (Suc n)
  show ?case
    by (rule bit_word_eqI) (auto simp: Suc bit_simps)
qed simp

lemma le_get_put_w [simp]: "le_get (le_put 4 (w :: c3_w)) = w"
  by (simp add: le_get_put take_bit_word_eq_self)

lemma le_get_put_d [simp]: "le_get (le_put 8 (w :: c3_d)) = w"
  by (simp add: le_get_put take_bit_word_eq_self)

section \<open>Messages\<close>

definition c3__apen :: nat where
  "c3__apen = c3_s4 (CHR ''a'') (CHR ''p'') (CHR ''e'') (CHR ''n'')"

definition c3__rasp :: nat where
  "c3__rasp = c3_s4 (CHR ''r'') (CHR ''a'') (CHR ''s'') (CHR ''p'')"

definition c3__revo :: nat where
  "c3__revo = c3_s4 (CHR ''r'') (CHR ''e'') (CHR ''v'') (CHR ''o'')"

record u2_rent =
  ent_tem_w :: c3_w
  ent_typ_w :: c3_w
  ent_len_w :: c3_w
  bob_w :: "c3_y list"

text \<open>
  The name is a C string in a buffer of \<open>4 * nam_w\<close> bytes, without its final zero; \<open>None\<close> is a buffer of no bytes at all,
  in which there is no string.
\<close>

record u2_rest =
  lai_d :: c3_d
  lat_w :: c3_w
  nam_w :: c3_w
  nam_c :: "c3_y list option"

datatype u2_rbody =
    Rasp c3_w
  | Revo u2_rest
  | Apen u2_rest (cit_d: c3_d) (ent_d: c3_d) (ent_u: "u2_rent list")

record u2_rmsg =
  ver_w :: c3_w
  len_d :: c3_d
  tem_w :: c3_w
  body :: u2_rbody

primrec typ_w :: "u2_rbody \<Rightarrow> c3_w" where
  "typ_w (Rasp _) = of_nat c3__rasp"
| "typ_w (Revo _) = of_nat c3__revo"
| "typ_w (Apen _ _ _ _) = of_nat c3__apen"

text \<open>The version, \<^verbatim>\<open>u2_cr_mug('a')\<close>, and the copy of a string into a buffer of a given size.\<close>

definition u2_cr_mug_a :: c3_w where
  "u2_cr_mug_a = mug (Atom 97)"

definition uv_strlcpy :: "c3_y list \<Rightarrow> nat \<Rightarrow> c3_y list option" where
  "uv_strlcpy src siz = (if siz = 0 then None else Some (takeWhile (\<lambda>b. b \<noteq> 0) (take (siz - 1) src)))"

section \<open>Reading\<close>

datatype rmsg_ret = Rfail | Rpart | Rgot u2_rmsg nat

text \<open>
  The entries of a request: \<open>cap\<close> of them fit into the array that was allocated, \<open>b\<close> is what is left of the message. A
  failure frees the blobs of all the entries that the message announces.
\<close>

definition rent_fail :: "nat \<Rightarrow> nat \<Rightarrow> 'a option res" where
  "rent_fail cap num = (if cap < num then Inl Wild else Inr None)"

function rents_read :: "nat \<Rightarrow> nat \<Rightarrow> nat \<Rightarrow> c3_y list \<Rightarrow> (u2_rent list \<times> c3_y list) option res" where
  "rents_read cap num i b =
     (if num \<le> i then Inr (Some ([], b))
      else if length b < 12 then rent_fail cap num
      else if cap \<le> i then Inl Wild
      else
        let len = le_get (take 4 (drop 8 b)) :: c3_w; siz = unat (4 * len); r = drop 12 b
        in if length r < siz then rent_fail cap num
           else rbind (rents_read cap num (Suc i) (drop siz r)) (\<lambda>x.
             Inr (map_option (\<lambda>(es, c).
               (\<lparr>ent_tem_w = le_get (take 4 b), ent_typ_w = le_get (take 4 (drop 4 b)), ent_len_w = len, bob_w = take siz r\<rparr> # es, c)) x)))"
  by pat_completeness auto

termination
  by (relation "measure (\<lambda>(cap, num, i, b). length b)") auto

declare rents_read.simps [simp del]

text \<open>The size of the array of entries, 24 bytes each, is computed in 64 bits.\<close>

definition rent_cap :: "c3_d \<Rightarrow> nat" where
  "rent_cap num = unat (num * 24) div 24"

definition rest_read :: "c3_y list \<Rightarrow> (u2_rest \<times> c3_y list) option" where
  "rest_read b =
     (if length b < 16 then None
      else
        let nam_w = le_get (take 4 (drop 12 b)) :: c3_w; siz = unat (4 * nam_w); r = drop 16 b
        in if length r < siz then None
           else Some (\<lparr>lai_d = le_get (take 8 b), lat_w = le_get (take 4 (drop 8 b)), nam_w = nam_w, nam_c = uv_strlcpy r siz\<rparr>,
             drop siz r))"

definition rbody_read :: "c3_w \<Rightarrow> c3_y list \<Rightarrow> (u2_rbody \<times> c3_y list) option res" where
  "rbody_read typ b =
     (if typ = of_nat c3__rasp then
        Inr (if length b < 4 then None else Some (Rasp (le_get (take 4 b)), drop 4 b))
      else if typ = of_nat c3__apen \<or> typ = of_nat c3__revo then
        case rest_read b of
          None \<Rightarrow> Inr None
        | Some (rest, b) \<Rightarrow>
            if typ = of_nat c3__revo then Inr (Some (Revo rest, b))
            else if length b < 16 then Inl Wild
            else
              let cit = le_get (take 8 b); num = le_get (take 8 (drop 8 b))
              in rbind (rents_read (rent_cap num) (unat num) 0 (drop 16 b)) (\<lambda>x.
                 Inr (map_option (\<lambda>(es, b). (Apen rest cit num es, b)) x))
      else Inr None)"

text \<open>The part of a message behind its length, once all of the message, \<open>b\<close>, has arrived.\<close>

definition rmsg_read_in :: "c3_w \<Rightarrow> c3_d \<Rightarrow> c3_y list \<Rightarrow> rmsg_ret res" where
  "rmsg_read_in ver len b =
     (if length b < 20 then Inr Rfail
      else
        let tem = le_get (take 4 (drop 12 b)); typ = le_get (take 4 (drop 16 b))
        in rbind (rbody_read typ (drop 20 b)) (\<lambda>r. case r of
             None \<Rightarrow> Inr Rfail
           | Some (bod, c) \<Rightarrow>
               if c \<noteq> [] then Inr Rfail
               else Inr (Rgot \<lparr>ver_w = ver, len_d = len, tem_w = tem, body = bod\<rparr> (length b))))"

definition rmsg_read :: "c3_y list \<Rightarrow> rmsg_ret res" where
  "rmsg_read buf =
     (if length buf < 12 then Inr Rpart
      else
        let ver = le_get (take 4 buf); len = le_get (take 8 (drop 4 buf)) :: c3_d; ben = unat (4 * len)
        in if ver \<noteq> u2_cr_mug_a then Inr Rfail
           else if len < 4 then Inr Rfail
           else if length buf < ben then Inr Rpart
           else rmsg_read_in ver len (take ben buf))"

section \<open>Sending\<close>

definition rent_send :: "u2_rent \<Rightarrow> c3_y list" where
  "rent_send e = le_put 4 (ent_tem_w e) @ le_put 4 (ent_typ_w e) @ le_put 4 (ent_len_w e) @ take (unat (ent_len_w e)) (bob_w e)"

text \<open>The buffer of a name that is sent has been cleared before the name was copied into it.\<close>

definition rest_send :: "u2_rest \<Rightarrow> c3_y list res" where
  "rest_send r =
     (let siz = unat (4 * nam_w r)
      in case nam_c r of
           None \<Rightarrow> Inl Wild
         | Some s \<Rightarrow> Inr (le_put 8 (lai_d r) @ le_put 4 (lat_w r) @ le_put 4 (nam_w r) @ take siz (s @ replicate siz 0)))"

definition rbody_send :: "u2_rbody \<Rightarrow> c3_y list res" where
  "rbody_send d =
     (case d of
        Rasp suc \<Rightarrow> Inr (le_put 4 suc)
      | Revo r \<Rightarrow> rest_send r
      | Apen r cit num es \<Rightarrow>
          rbind (rest_send r) (\<lambda>b.
          if length es < unat num then Inl Wild
          else Inr (b @ le_put 8 cit @ le_put 8 num @ concat (map rent_send (take (unat num) es)))))"

text \<open>The length that is counted while sending, in bytes, and compared with the length in the message, in words.\<close>

definition rbody_len :: "u2_rbody \<Rightarrow> c3_d" where
  "rbody_len d =
     (case d of
        Rasp _ \<Rightarrow> 4
      | Revo r \<Rightarrow> 16 + ucast (4 * nam_w r)
      | Apen r cit num es \<Rightarrow> 16 + ucast (4 * nam_w r) + 16 + (\<Sum>e\<leftarrow>take (unat num) es. 12 + ucast (ent_len_w e)))"

definition rmsg_send :: "u2_rmsg \<Rightarrow> c3_y list res" where
  "rmsg_send m =
     rbind (rbody_send (body m)) (\<lambda>b.
       if 20 + rbody_len (body m) = 4 * len_d m then
         Inr (le_put 4 (ver_w m) @ le_put 8 (len_d m) @ le_put 4 (tem_w m) @ le_put 4 (typ_w (body m)) @ b)
       else Inl Abort)"

section \<open>What is read depends on no later bytes\<close>

lemma rmsg_read_in_got: "rmsg_read_in ver len b = Inr (Rgot m n) \<Longrightarrow> 20 \<le> length b \<and> n = length b \<and> len_d m = len"
  by (cases "rbody_read (le_get (take 4 (drop 16 b))) (drop 20 b)")
    (auto simp: rmsg_read_in_def Let_def split: if_split_asm option.split_asm)

lemma rmsg_read_in_part: "rmsg_read_in ver len b \<noteq> Inr Rpart"
  by (cases "rbody_read (le_get (take 4 (drop 16 b))) (drop 20 b)")
    (auto simp: rmsg_read_in_def Let_def split: if_split_asm option.split_asm)

lemma rmsg_read_got:
  assumes "rmsg_read buf = Inr (Rgot m n)"
  shows "20 \<le> n" "n \<le> length buf" "n = unat (4 * len_d m)"
  using assms by (auto simp: rmsg_read_def Let_def split: if_splits dest!: rmsg_read_in_got)

lemma rmsg_read_append:
  assumes "rmsg_read b \<noteq> Inr Rpart"
  shows "rmsg_read (b @ c) = rmsg_read b"
proof -
  have b: "12 \<le> length b" using assms by (auto simp: rmsg_read_def split: if_splits)
  then have "take 4 (b @ c) = take 4 b" "take 8 (drop 4 (b @ c)) = take 8 (drop 4 b)" by simp_all
  then show ?thesis using b assms by (auto simp: rmsg_read_def Let_def rmsg_read_in_part not_less split: if_splits)
qed

text \<open>The reader asserts nothing.\<close>

lemma rents_read_abort: "rents_read cap num i b \<noteq> Inl Abort"
  by (induction cap num i b rule: rents_read.induct) (subst rents_read.simps, auto simp: rent_fail_def Let_def rbind_eq_Inl)

lemma rmsg_read_abort: "rmsg_read buf \<noteq> Inl Abort"
proof -
  have "rbody_read t b \<noteq> Inl Abort" for t b
    by (auto simp: rbody_read_def rents_read_abort rbind_eq_Inl Let_def split: option.splits)
  then show ?thesis by (auto simp: rmsg_read_def rmsg_read_in_def rbind_eq_Inl Let_def split: option.splits if_splits)
qed

section \<open>Round trip\<close>

definition rest_ok :: "u2_rest \<Rightarrow> bool" where
  "rest_ok r \<longleftrightarrow> unat (nam_w r) < 2 ^ 30 \<and> (\<exists>s. nam_c r = Some s \<and> 0 \<notin> set s \<and> length s < 4 * unat (nam_w r))"

definition rent_empty :: "u2_rent \<Rightarrow> bool" where
  "rent_empty e \<longleftrightarrow> ent_len_w e = 0 \<and> bob_w e = []"

definition rmsg_ok :: "u2_rmsg \<Rightarrow> bool" where
  "rmsg_ok m \<longleftrightarrow> ver_w m = u2_cr_mug_a \<and>
     (case body m of
        Rasp _ \<Rightarrow> unat (len_d m) = 6
      | Revo r \<Rightarrow> rest_ok r \<and> unat (len_d m) = 9 + unat (nam_w r)
      | Apen r cit num es \<Rightarrow> rest_ok r \<and> length es = unat num \<and> (\<forall>e\<in>set es. rent_empty e) \<and> unat num < 2 ^ 59 \<and>
          unat (len_d m) = 13 + unat (nam_w r) + 3 * length es)"

lemma le_get_append: "length xs = n \<Longrightarrow> le_get (take n (xs @ ys)) = le_get xs"
  by simp

lemma siz_eq: "unat (nam_w r) < 2 ^ 30 \<Longrightarrow> unat (4 * nam_w r) = 4 * unat (nam_w r)"
  by (subst unat_mult_lem [THEN iffD1]) simp_all

lemma rest_send_ok:
  assumes "rest_ok r"
  shows "\<exists>b. rest_send r = Inr b \<and> length b = 16 + 4 * unat (nam_w r) \<and> (\<forall>c. rest_read (b @ c) = Some (r, c))"
proof -
  obtain s where s: "nam_c r = Some s" "0 \<notin> set s" "length s < 4 * unat (nam_w r)" and n: "unat (nam_w r) < 2 ^ 30"
    using assms unfolding rest_ok_def by blast
  let ?n = "4 * unat (nam_w r)"
  let ?buf = "take ?n (s @ replicate ?n 0)" and ?h = "le_put 8 (lai_d r) @ le_put 4 (lat_w r) @ le_put 4 (nam_w r)"
  have buf: "?buf = s @ replicate (?n - length s) 0" using s(3) by simp
  have "takeWhile (\<lambda>b. b \<noteq> 0) (take (?n - 1) (?buf @ c)) = s" for c
  proof -
    obtain k where k: "?n - length s = Suc k" using s(3) by (cases "?n - length s") auto
    then have "?n - 1 - length s = k" by simp
    then have "take (?n - 1) (?buf @ c) = s @ replicate k 0" unfolding buf k using s(3) by (simp add: take_append del: replicate_Suc)
    then show ?thesis using s(2) by (simp add: takeWhile_append takeWhile_replicate)
  qed
  then have "rest_read ((?h @ ?buf) @ c) = Some (r, c)" for c
    using s n by (simp add: rest_read_def Let_def siz_eq uv_strlcpy_def)
  moreover have "rest_send r = Inr (?h @ ?buf)" using s n by (simp add: rest_send_def Let_def siz_eq)
  moreover have "length (?h @ ?buf) = 16 + ?n" using s(3) by simp
  ultimately show ?thesis by blast
qed

lemma rents_read_ok:
  "\<forall>e\<in>set es. rent_empty e \<Longrightarrow> num = i + length es \<Longrightarrow> num \<le> cap \<Longrightarrow>
   rents_read cap num i (concat (map rent_send es) @ c) = Inr (Some (es, c))"
proof (induction es arbitrary: i)
  case Nil
  then show ?case by (simp add: rents_read.simps)
next
  case (Cons e es)
  have e: "ent_len_w e = 0" "bob_w e = []" using Cons.prems(1) by (auto simp: rent_empty_def)
  then have "rent_send e = le_put 4 (ent_tem_w e) @ le_put 4 (ent_typ_w e) @ le_put 4 (0 :: c3_w)" by (simp add: rent_send_def)
  moreover have "\<lparr>ent_tem_w = ent_tem_w e, ent_typ_w = ent_typ_w e, ent_len_w = 0, bob_w = []\<rparr> = e"
    using e by (cases e) simp
  ultimately show ?case using Cons.IH [of "Suc i"] Cons.prems
    by (subst rents_read.simps) (simp add: Let_def)
qed

lemma rent_cap_ok: "unat num < 2 ^ 59 \<Longrightarrow> rent_cap num = unat num"
  unfolding rent_cap_def by (subst unat_mult_lem [THEN iffD1]) simp_all

lemma ucast_siz: "rest_ok r \<Longrightarrow> ucast (4 * nam_w r) = (of_nat (4 * unat (nam_w r)) :: c3_d)"
  by (simp only: rest_ok_def siz_eq [symmetric] of_nat_unat)

lemma rmsg_motes:
  "(of_nat c3__revo :: c3_w) \<noteq> of_nat c3__rasp" "(of_nat c3__apen :: c3_w) \<noteq> of_nat c3__rasp" "(of_nat c3__apen :: c3_w) \<noteq> of_nat c3__revo"
  by (simp_all add: c3__revo_def c3__rasp_def c3__apen_def c3_s4_def)

lemma rbody_roundtrip:
  assumes "case d of Rasp _ \<Rightarrow> True | Revo r \<Rightarrow> rest_ok r
    | Apen r cit num es \<Rightarrow> rest_ok r \<and> length es = unat num \<and> (\<forall>e\<in>set es. rent_empty e) \<and> unat num < 2 ^ 59"
  shows "\<exists>b. rbody_send d = Inr b \<and> rbody_read (typ_w d) b = Inr (Some (d, [])) \<and> rbody_len d = of_nat (length b) \<and>
    length b = (case d of Rasp _ \<Rightarrow> 4 | Revo r \<Rightarrow> 16 + 4 * unat (nam_w r) | Apen r cit num es \<Rightarrow> 32 + 4 * unat (nam_w r) + 12 * length es)"
proof (cases d)
  case (Rasp suc)
  then show ?thesis by (simp add: rbody_send_def rbody_read_def rbody_len_def)
next
  case (Revo r)
  obtain b where b: "rest_send r = Inr b" "length b = 16 + 4 * unat (nam_w r)" "\<forall>c. rest_read (b @ c) = Some (r, c)"
    using rest_send_ok [of r] assms Revo by auto
  show ?thesis using Revo assms b b(3) [rule_format, of "[]"] rmsg_motes
    by (simp add: rbody_send_def rbody_read_def rbody_len_def ucast_siz)
next
  case (Apen r cit num es)
  then have ok: "rest_ok r" "length es = unat num" "\<forall>e\<in>set es. rent_empty e" "unat num < 2 ^ 59" using assms by auto
  obtain b where b: "rest_send r = Inr b" "length b = 16 + 4 * unat (nam_w r)" "\<forall>c. rest_read (b @ c) = Some (r, c)"
    using rest_send_ok [OF ok(1)] by auto
  have len: "length (concat (map rent_send es)) = 12 * length es"
    "(\<Sum>e\<leftarrow>es. 12 + ucast (ent_len_w e)) = (of_nat (12 * length es) :: c3_d)"
    using ok(3) by (induction es) (auto simp: rent_send_def rent_empty_def)
  have "rents_read (rent_cap num) (unat num) 0 (concat (map rent_send es)) = Inr (Some (es, []))"
    using rents_read_ok [OF ok(3), of "unat num" 0 "rent_cap num" "[]"] rent_cap_ok [OF ok(4)] ok(2) by simp
  then show ?thesis using Apen b len ok rmsg_motes
    by (simp add: rbody_send_def rbody_read_def rbody_len_def ucast_siz Let_def)
qed

lemma rmsg_ok_sends:
  assumes "rmsg_ok m"
  obtains b where "rbody_send (body m) = Inr b" "rbody_read (typ_w (body m)) b = Inr (Some (body m, []))"
    "rmsg_send m = Inr (le_put 4 (ver_w m) @ le_put 8 (len_d m) @ le_put 4 (tem_w m) @ le_put 4 (typ_w (body m)) @ b)"
    "unat (4 * len_d m) = 20 + length b" "4 \<le> len_d m"
proof -
  have ok: "case body m of Rasp _ \<Rightarrow> True | Revo r \<Rightarrow> rest_ok r
    | Apen r cit num es \<Rightarrow> rest_ok r \<and> length es = unat num \<and> (\<forall>e\<in>set es. rent_empty e) \<and> unat num < 2 ^ 59"
    using assms by (auto simp: rmsg_ok_def split: u2_rbody.splits)
  obtain b where b: "rbody_send (body m) = Inr b" "rbody_read (typ_w (body m)) b = Inr (Some (body m, []))"
    "rbody_len (body m) = of_nat (length b)"
    "length b = (case body m of Rasp _ \<Rightarrow> 4 | Revo r \<Rightarrow> 16 + 4 * unat (nam_w r) | Apen r cit num es \<Rightarrow> 32 + 4 * unat (nam_w r) + 12 * length es)"
    using rbody_roundtrip [OF ok] by blast
  have len: "4 * unat (len_d m) = 20 + length b" "unat (len_d m) < 2 ^ 62" "4 \<le> unat (len_d m)"
    using assms b(4) by (auto simp: rmsg_ok_def rest_ok_def split: u2_rbody.splits)
  then have "unat (4 * len_d m) = 20 + length b" by (subst unat_mult_lem [THEN iffD1]) simp_all
  moreover have "20 + rbody_len (body m) = of_nat (20 + length b)" using b(3) by simp
  then have "20 + rbody_len (body m) = 4 * len_d m" unfolding len(1) [symmetric] by simp
  moreover have "4 \<le> len_d m" using len(3) by (simp add: word_le_nat_alt)
  ultimately show ?thesis by (intro that [OF b(1,2)]) (simp_all add: rmsg_send_def b(1))
qed

lemma rmsg_send_read:
  assumes "rmsg_ok m"
  shows "\<exists>bs. rmsg_send m = Inr bs \<and> (\<forall>c. rmsg_read (bs @ c) = Inr (Rgot m (length bs))) \<and>
    (\<forall>k<length bs. rmsg_read (take k bs) = Inr Rpart)"
proof -
  obtain b where b: "rbody_read (typ_w (body m)) b = Inr (Some (body m, []))"
    "rmsg_send m = Inr (le_put 4 (ver_w m) @ le_put 8 (len_d m) @ le_put 4 (tem_w m) @ le_put 4 (typ_w (body m)) @ b)"
    and len: "unat (4 * len_d m) = 20 + length b" "4 \<le> len_d m"
    using rmsg_ok_sends [OF assms] by metis
  let ?bs = "le_put 4 (ver_w m) @ le_put 8 (len_d m) @ le_put 4 (tem_w m) @ le_put 4 (typ_w (body m)) @ b"
  have v: "ver_w m = u2_cr_mug_a" using assms by (simp add: rmsg_ok_def)
  have "rmsg_read_in (ver_w m) (len_d m) ?bs = Inr (Rgot m (length ?bs))" using b(1) by (simp add: rmsg_read_in_def)
  then have "rmsg_read (?bs @ c) = Inr (Rgot m (length ?bs))" for c
    using len v by (simp add: rmsg_read_def Let_def not_less)
  moreover have "rmsg_read (take k ?bs) = Inr Rpart" if "k < length ?bs" for k
  proof (cases "k < 12")
    case False
    then have "take 4 (take k ?bs) = le_put 4 (ver_w m)" "take 8 (drop 4 (take k ?bs)) = le_put 8 (len_d m)" "length (take k ?bs) = k"
      using that by (simp_all add: drop_take)
    then show ?thesis unfolding rmsg_read_def using that False len v by (simp only: Let_def) simp
  next
    case True
    then have "length (take k ?bs) < 12" by simp
    then show ?thesis unfolding rmsg_read_def by (simp only: if_True)
  qed
  ultimately show ?thesis using b(2) by blast
qed

text \<open>
  C17: what \<^verbatim>\<open>_raft_rmsg_send\<close> writes of a well-formed message, \<^verbatim>\<open>_raft_rmsg_read\<close> reads back, whatever follows it in the
  buffer; of any part of it, it says that more is to come.
\<close>

theorem rmsg_roundtrip:
  assumes "rmsg_ok m"
  shows "\<exists>bs. rmsg_send m = Inr bs \<and> (\<forall>c. rmsg_read (bs @ c) = Inr (Rgot m (length bs))) \<and>
    (\<forall>k<length bs. rmsg_read (take k bs) = Inr Rpart)"
  using assms by (rule rmsg_send_read)

theorem rmsg_roundtrip_witness:
  "\<exists>bs. rmsg_send \<lparr>ver_w = u2_cr_mug_a, len_d = 6, tem_w = 7, body = Rasp 1\<rparr> = Inr bs \<and>
    (\<forall>c. rmsg_read (bs @ c) = Inr (Rgot \<lparr>ver_w = u2_cr_mug_a, len_d = 6, tem_w = 7, body = Rasp 1\<rparr> (length bs))) \<and>
    (\<forall>k<length bs. rmsg_read (take k bs) = Inr Rpart)"
  by (rule rmsg_roundtrip) (simp add: rmsg_ok_def)

lemma word_of_nat_neq: "x \<noteq> y \<Longrightarrow> x < 2 ^ 64 \<Longrightarrow> y < 2 ^ 64 \<Longrightarrow> (of_nat x :: c3_d) \<noteq> of_nat y"
  using of_nat_inverse [OF refl, of x, where 'a = 64] of_nat_inverse [of y "of_nat x :: c3_d"] by auto

text \<open>
  A request that carries an entry with a blob can not be sent. \<^verbatim>\<open>_raft_write_apen\<close> counts the words of the blob,
  \<^verbatim>\<open>_raft_rmsg_send\<close> sends and counts as many bytes, and the lengths that it compares differ.
\<close>

theorem rmsg_send_entries_abort:
  assumes "body m = Apen r cit num es" "rest_ok r" "length es = unat num"
    "unat (len_d m) = 13 + unat (nam_w r) + (\<Sum>e\<leftarrow>es. 3 + unat (ent_len_w e))" "unat (len_d m) < 2 ^ 62" "\<exists>e\<in>set es. ent_len_w e \<noteq> 0"
  shows "rmsg_send m = Inl Abort"
proof -
  let ?sum = "\<lambda>es. \<Sum>e\<leftarrow>es. unat (ent_len_w e)"
  have "(\<Sum>e\<leftarrow>es. 3 + unat (ent_len_w e)) = 3 * length es + ?sum es" by (induction es) auto
  then have len: "unat (len_d m) = 13 + unat (nam_w r) + 3 * length es + ?sum es" using assms(4) by simp
  have bound: "13 + unat (nam_w r) + 3 * length es + ?sum es < 4611686018427387904" using len assms(5) by simp
  have "(\<Sum>e\<leftarrow>es. 12 + ucast (ent_len_w e)) = (of_nat (12 * length es + ?sum es) :: c3_d)" by (induction es) auto
  then have "20 + rbody_len (body m) = of_nat (52 + 4 * unat (nam_w r) + 12 * length es + ?sum es)"
    using assms(1-3) by (simp add: rbody_len_def ucast_siz)
  moreover have "4 * len_d m = of_nat (52 + 4 * unat (nam_w r) + 12 * length es + 4 * ?sum es)"
    using arg_cong [OF len, of "\<lambda>n. of_nat (4 * n) :: c3_d"] by simp
  moreover have "?sum es \<noteq> 0" using assms(6) by (induction es) (auto simp: unat_eq_zero)
  then have "52 + 4 * unat (nam_w r) + 12 * length es + ?sum es \<noteq> 52 + 4 * unat (nam_w r) + 12 * length es + 4 * ?sum es" by linarith
  then have "(of_nat (52 + 4 * unat (nam_w r) + 12 * length es + ?sum es) :: c3_d) \<noteq> of_nat (52 + 4 * unat (nam_w r) + 12 * length es + 4 * ?sum es)"
    by (rule word_of_nat_neq) (use bound in auto)
  moreover obtain b where "rest_send r = Inr b" using rest_send_ok [OF assms(2)] by blast
  ultimately show ?thesis using assms(1,3) by (simp add: rmsg_send_def rbody_send_def)
qed

theorem rmsg_send_entries_abort_witness:
  "rmsg_send \<lparr>ver_w = u2_cr_mug_a, len_d = 18, tem_w = 3,
     body = Apen \<lparr>lai_d = 0, lat_w = 0, nam_w = 1, nam_c = Some [97, 58, 49]\<rparr> 0 1
       [\<lparr>ent_tem_w = 3, ent_typ_w = 0, ent_len_w = 1, bob_w = [1, 2, 3, 4]\<rparr>]\<rparr> = Inl Abort"
  by (rule rmsg_send_entries_abort [OF u2_rmsg.select_convs(4)]) (simp_all add: rest_ok_def)

section \<open>Messages that break the reader\<close>

text \<open>
  A request to append whose bytes end behind its name makes the reader free memory that it has not set, and so does
  one that announces so many entries that the size of their array is cut off at 64 bits: a peer can send both.
\<close>

theorem rmsg_read_wild:
  assumes "rest_ok r" "rest_send r = Inr b" "unat len = 9 + unat (nam_w r)" "unat len' = 13 + unat (nam_w r)" "2 ^ 64 \<le> 24 * unat num"
  shows "rmsg_read (le_put 4 u2_cr_mug_a @ le_put 8 (len :: c3_d) @ le_put 4 (tem :: c3_w) @ le_put 4 (of_nat c3__apen :: c3_w) @ b) = Inl Wild \<and>
    rmsg_read (le_put 4 u2_cr_mug_a @ le_put 8 (len' :: c3_d) @ le_put 4 (tem :: c3_w) @ le_put 4 (of_nat c3__apen :: c3_w) @ b @
      le_put 8 (cit :: c3_d) @ le_put 8 (num :: c3_d)) = Inl Wild"
proof -
  have b: "length b = 16 + 4 * unat (nam_w r)" "rest_read (b @ c) = Some (r, c)" for c
    using rest_send_ok [OF assms(1)] assms(2) by auto
  have n: "unat (nam_w r) < 2 ^ 30" using assms(1) by (simp add: rest_ok_def)
  have len: "unat (4 * len) = 20 + length b" "4 \<le> len" "unat (4 * len') = 36 + length b" "4 \<le> len'"
    using n assms(3,4) b(1) by (simp_all add: unat_mult_lem [THEN iffD1] word_le_nat_alt)
  have cap: "rent_cap num < unat num"
  proof -
    have "unat (num * 24) < 2 ^ 64" using unsigned_less [where ?'a = nat and w = "num * 24"] by simp
    then have "unat (num * 24) div 24 \<le> (2 ^ 64 - 1) div 24" by (intro div_le_mono) simp
    also have "\<dots> < unat num" using assms(5) by simp
    finally show ?thesis by (simp add: rent_cap_def)
  qed
  then have "rents_read (rent_cap num) (unat num) 0 [] = Inl Wild" by (subst rents_read.simps) (simp add: rent_fail_def)
  then show ?thesis using b(2) [of "[]"] b len rmsg_motes
    by (simp add: rmsg_read_def rmsg_read_in_def rbody_read_def Let_def not_less)
qed

theorem rmsg_read_wild_witness:
  "\<exists>b. rest_send \<lparr>lai_d = 0, lat_w = 0, nam_w = 1, nam_c = Some [97, 58, 49]\<rparr> = Inr b \<and>
   rmsg_read (le_put 4 u2_cr_mug_a @ le_put 8 (10 :: c3_d) @ le_put 4 (1 :: c3_w) @ le_put 4 (of_nat c3__apen :: c3_w) @ b) = Inl Wild \<and>
   rmsg_read (le_put 4 u2_cr_mug_a @ le_put 8 (14 :: c3_d) @ le_put 4 (1 :: c3_w) @ le_put 4 (of_nat c3__apen :: c3_w) @
     b @ le_put 8 (0 :: c3_d) @ le_put 8 (0x2000000000000000 :: c3_d)) = Inl Wild"
proof -
  have ok: "rest_ok \<lparr>lai_d = 0, lat_w = 0, nam_w = 1, nam_c = Some [97, 58, 49]\<rparr>" by (simp add: rest_ok_def)
  then obtain b where b: "rest_send \<lparr>lai_d = 0, lat_w = 0, nam_w = 1, nam_c = Some [97, 58, 49]\<rparr> = Inr b"
    using rest_send_ok by blast
  then show ?thesis using rmsg_read_wild [OF ok b, of 10 14 "0x2000000000000000" 1 0] by simp
qed

section \<open>Buffers\<close>

text \<open>
  The bytes in a buffer, of which there are \<^verbatim>\<open>len_w\<close>, and its capacity. The capacity is kept in 32 bits; where it is cut
  off the copy runs past the buffer.
\<close>

record u2_rbuf =
  cap_w :: c3_w
  buf_y :: "c3_y list"

definition rbuf_grow :: "u2_rbuf option \<Rightarrow> c3_y list \<Rightarrow> u2_rbuf res" where
  "rbuf_grow buf_u bs =
     (let siz = length bs;
          buf = (case buf_u of None \<Rightarrow> \<lparr>cap_w = of_nat siz, buf_y = []\<rparr> | Some buf \<Rightarrow> buf);
          len = length (buf_y buf);
          buf = (if unat (cap_w buf) < len + siz then buf\<lparr>cap_w := of_nat (max (unat (2 * cap_w buf)) (len + siz))\<rparr> else buf)
      in if unat (cap_w buf) < len + siz then Inl Wild else Inr (buf\<lparr>buf_y := buf_y buf @ bs\<rparr>))"

definition rbuf_bytes :: "u2_rbuf option \<Rightarrow> c3_y list" where
  "rbuf_bytes buf_u = (case buf_u of None \<Rightarrow> [] | Some buf \<Rightarrow> buf_y buf)"

definition rbuf_ok :: "u2_rbuf option \<Rightarrow> bool" where
  "rbuf_ok buf_u = (case buf_u of None \<Rightarrow> True | Some buf \<Rightarrow> length (buf_y buf) \<le> unat (cap_w buf))"

lemma rbuf_grow_ok:
  assumes "length (rbuf_bytes buf_u) + length bs < 2 ^ 32"
  shows "\<exists>buf. rbuf_grow buf_u bs = Inr buf \<and> rbuf_ok (Some buf) \<and> rbuf_bytes (Some buf) = rbuf_bytes buf_u @ bs"
proof -
  have "unat (of_nat (max (unat (2 * c)) n) :: c3_w) = max (unat (2 * c)) n" if "n < 2 ^ 32" for c :: c3_w and n
    using that unat_c3_w [of "2 * c"] by (simp add: unat_of_nat)
  then show ?thesis using assms
    by (cases buf_u) (auto simp: rbuf_grow_def rbuf_bytes_def rbuf_ok_def Let_def unat_of_nat)
qed

section \<open>Messages of a stream\<close>

text \<open>
  The loop of \<^verbatim>\<open>_raft_conn_work\<close> that takes messages off the read buffer, with the work on a message as an argument. It
  returns what is left of the buffer and whether the bytes were not a message, so that the connection is to be closed.
\<close>

function work_loop :: "(u2_rmsg \<Rightarrow> 's \<Rightarrow> 's res) \<Rightarrow> c3_y list \<Rightarrow> 's \<Rightarrow> ('s \<times> c3_y list \<times> bool) res" where
  "work_loop do_msg buf s =
     rbind (rmsg_read buf) (\<lambda>r. case r of
       Rfail \<Rightarrow> Inr (s, buf, True)
     | Rpart \<Rightarrow> Inr (s, buf, False)
     | Rgot m n \<Rightarrow>
         if unat (4 * len_d m) \<noteq> n \<or> length buf < n then Inl Abort
         else rbind (do_msg m s) (\<lambda>s. work_loop do_msg (drop n buf) s))"
  by pat_completeness auto

termination
  by (relation "measure (\<lambda>(do_msg, buf, s). length buf)") (auto dest: rmsg_read_got(1))

declare work_loop.simps [simp del]

primrec rfold :: "('m \<Rightarrow> 's \<Rightarrow> 's res) \<Rightarrow> 'm list \<Rightarrow> 's \<Rightarrow> 's res" where
  "rfold f [] s = Inr s"
| "rfold f (m # ms) s = rbind (f m s) (rfold f ms)"

text \<open>The buffer as it fills: chunks arrive one after the other, each followed by a run of the loop.\<close>

primrec feed :: "(u2_rmsg \<Rightarrow> 's \<Rightarrow> 's res) \<Rightarrow> c3_y list list \<Rightarrow> c3_y list \<Rightarrow> 's \<Rightarrow> ('s \<times> c3_y list \<times> bool) res" where
  "feed f [] buf s = Inr (s, buf, False)"
| "feed f (c # cs) buf s =
     rbind (work_loop f (buf @ c) s) (\<lambda>(s, buf, bad). if bad then Inr (s, buf, True) else feed f cs buf s)"

lemma work_loop_got:
  "rmsg_read buf = Inr (Rgot m n) \<Longrightarrow> work_loop f buf s = rbind (f m s) (work_loop f (drop n buf))"
  using rmsg_read_got [of buf m n] by (subst work_loop.simps) simp

lemma work_loop_part: "rmsg_read buf = Inr Rpart \<Longrightarrow> work_loop f buf s = Inr (s, buf, False)"
  by (subst work_loop.simps) simp

lemma work_loop_append:
  "work_loop f (b @ c) s =
   rbind (work_loop f b s) (\<lambda>(s', b', bad). if bad then Inr (s', b' @ c, True) else work_loop f (b' @ c) s')"
proof (induction f b s rule: work_loop.induct)
  case (1 f b s)
  consider e where "rmsg_read b = Inl e" | "rmsg_read b = Inr Rfail" | "rmsg_read b = Inr Rpart" | m n where "rmsg_read b = Inr (Rgot m n)"
    by (metis rmsg_ret.exhaust sum.exhaust)
  then show ?case
  proof cases
    case (4 m n)
    have n: "n \<le> length b" "n = unat (4 * len_d m)" using rmsg_read_got [OF 4] by auto
    have "rmsg_read (b @ c) = Inr (Rgot m n)" using 4 rmsg_read_append [of b c] by simp
    then have app: "work_loop f (b @ c) s = rbind (f m s) (work_loop f (drop n b @ c))" using work_loop_got n(1) by fastforce
    show ?thesis
    proof (cases "f m s")
      case (Inr s')
      then show ?thesis using "1.IH" [OF 4 refl _ Inr] n app work_loop_got [OF 4, of f s] by simp
    qed (simp add: app work_loop_got [OF 4])
  qed (simp_all add: work_loop.simps rmsg_read_append)
qed

lemma feed_concat:
  "work_loop f buf s = Inr (s, buf, False) \<Longrightarrow>
   rbind (feed f cs buf s) (\<lambda>(s, buf, bad). Inr (s, bad)) = rbind (work_loop f (buf @ concat cs) s) (\<lambda>(s, buf, bad). Inr (s, bad))"
proof (induction cs arbitrary: buf s)
  case (Cons c cs)
  show ?case
  proof (cases "work_loop f (buf @ c) s")
    case (Inr r)
    obtain s' buf' bad where r: "r = (s', buf', bad)" by (cases r)
    have "work_loop f buf' s' = Inr (s', buf', False)" if "\<not> bad" using work_loop_append [of f "buf @ c" "[]" s] Inr r that by simp
    then show ?thesis using Cons.IH [of buf' s'] work_loop_append [of f "buf @ c" "concat cs" s] Inr r by (cases bad) simp_all
  qed (use work_loop_append [of f "buf @ c" "concat cs" s] in simp)
qed simp

lemma work_loop_sent:
  "\<forall>m\<in>set ms. rmsg_ok m \<Longrightarrow> map rmsg_send ms = map Inr bss \<Longrightarrow>
   work_loop f (concat bss @ c) s = rbind (rfold f ms s) (work_loop f c)"
proof (induction ms arbitrary: bss s)
  case (Cons m ms)
  then obtain bs bss' where bss: "bss = bs # bss'" "rmsg_send m = Inr bs" "map rmsg_send ms = map Inr bss'" by auto
  have "rmsg_read (concat bss @ c) = Inr (Rgot m (length bs))" using rmsg_send_read [of m] Cons.prems(1) bss by auto
  then have "work_loop f (concat bss @ c) s = rbind (f m s) (work_loop f (concat bss' @ c))"
    using work_loop_got bss(1) by fastforce
  then show ?case using Cons.IH [OF _ bss(3)] Cons.prems(1) by (cases "f m s") simp_all
qed simp

text \<open>
  C16: however the bytes of a series of messages are cut into chunks on their way, the loop of \<^verbatim>\<open>_raft_conn_work\<close> does the
  work on each of them, once and in order, and never takes the connection for broken.
\<close>

theorem stream_delivery:
  assumes "\<forall>m\<in>set ms. rmsg_ok m" "map rmsg_send ms = map Inr bss" "concat cs = concat bss"
  shows "rbind (feed f cs [] s) (\<lambda>(s, buf, bad). Inr (s, bad)) = rbind (rfold f ms s) (\<lambda>s. Inr (s, False))"
proof -
  have part: "work_loop f [] s = Inr (s, [], False)" for s by (rule work_loop_part) (simp add: rmsg_read_def)
  have "work_loop f (concat bss) s = rbind (rfold f ms s) (\<lambda>s. Inr (s, [], False))"
    using work_loop_sent [OF assms(1,2), of f "[]" s] part by (cases "rfold f ms s") simp_all
  then show ?thesis using feed_concat [OF part, of cs] assms(3) by (cases "rfold f ms s") simp_all
qed

theorem stream_delivery_witness:
  "\<exists>bs. rmsg_send \<lparr>ver_w = u2_cr_mug_a, len_d = 6, tem_w = 7, body = Rasp 1\<rparr> = Inr bs \<and>
    rbind (feed (\<lambda>m n. Inr (n + unat (tem_w m))) [take 5 bs, drop 5 bs @ bs] [] 0) (\<lambda>(s, buf, bad). Inr (s, bad)) = Inr (14, False)"
proof -
  let ?m = "\<lparr>ver_w = u2_cr_mug_a, len_d = 6, tem_w = 7, body = Rasp 1\<rparr>"
  have ok: "rmsg_ok ?m" by (simp add: rmsg_ok_def)
  then obtain bs where bs: "rmsg_send ?m = Inr bs" using rmsg_send_read by blast
  have "rbind (feed (\<lambda>m n. Inr (n + unat (tem_w m))) [take 5 bs, drop 5 bs @ bs] [] 0) (\<lambda>(s, buf, bad). Inr (s, bad)) =
    rbind (rfold (\<lambda>m n. Inr (n + unat (tem_w m))) [?m, ?m] 0) (\<lambda>s. Inr (s, False))"
    by (rule stream_delivery [where bss = "[bs, bs]"]) (use ok bs in simp_all)
  with bs show ?thesis by simp
qed

end
