(* ===== verification/Raft.thy ===== *)
theory Raft
  imports Rmsg
begin

text \<open>
  A node of the raft cluster, \<^verbatim>\<open>v/raft.c\<close>. Its state is \<^verbatim>\<open>u2_raft\<close> with its peers and connections; a connection is known by a
  number, as in C by its address, and \<open>raf_con\<close> holds the connections that are allocated. The queue of requests of a
  connection, \<^verbatim>\<open>out_u\<close> to \<^verbatim>\<open>tou_u\<close>, is a list. The write buffer is the list of the messages in it, and \<open>raf_out\<close> what was
  handed to \<^verbatim>\<open>uv_write\<close>: in both places the bytes are those of \<^verbatim>\<open>_raft_rmsg_send\<close>, one message after the other. Of the
  timer, the state matters and not its random length. \<open>raf_sis\<close> is the store of \<^verbatim>\<open>u2_sist_put\<close>. \<open>raf_shut\<close> are the
  connections that \<^verbatim>\<open>uv_close\<close> was called on and whose callback is due. A failed assertion is \<open>Abort\<close>. The timer and the lookup of an
  address can be started, and what is written on a connection at a time is less than $2^{32}$ bytes.
\<close>

section \<open>State\<close>

datatype u2_raty = Raty_none | Raty_foll | Raty_cand | Raty_lead

datatype timer = Idle | Once | Every

record u2_rnam =
  str_c :: "c3_y list"
  ron_u :: "nat option"
  vog :: bool

record u2_rcon =
  nam_u :: "nat option"
  red_u :: "u2_rbuf option"
  red :: bool
  wri_u :: "u2_rmsg list"
  out_u :: "u2_rmsg list"
  liv :: bool

record u2_raft =
  raf_typ :: u2_raty
  raf_tem :: c3_w
  raf_vog :: "c3_y list option"
  raf_vot :: c3_w
  raf_pop :: c3_w
  raf_str :: "c3_y list"
  raf_ent :: c3_d
  raf_lat :: c3_w
  raf_nam :: "u2_rnam list"
  raf_run :: "nat list"
  raf_con :: "nat \<rightharpoonup> u2_rcon"
  raf_new :: nat
  raf_tim :: timer
  raf_sis :: "string \<rightharpoonup> c3_y list"
  raf_out :: "(nat \<times> u2_rmsg list) list"
  raf_shut :: "nat list"
  raf_boot :: bool

definition con_at :: "u2_raft \<Rightarrow> nat \<Rightarrow> u2_rcon res" where
  "con_at raf i = (case raf_con raf i of None \<Rightarrow> Inl Wild | Some ron \<Rightarrow> Inr ron)"

definition con_put :: "nat \<Rightarrow> u2_rcon \<Rightarrow> u2_raft \<Rightarrow> u2_raft" where
  "con_put i ron raf = raf\<lparr>raf_con := (raf_con raf)(i \<mapsto> ron)\<rparr>"

definition nam_put :: "nat \<Rightarrow> u2_rnam \<Rightarrow> u2_raft \<Rightarrow> u2_raft" where
  "nam_put k nam raf = raf\<lparr>raf_nam := (raf_nam raf)[k := nam]\<rparr>"

definition sist_put :: "string \<Rightarrow> c3_y list \<Rightarrow> u2_raft \<Rightarrow> u2_raft" where
  "sist_put key val raf = raf\<lparr>raf_sis := (raf_sis raf)(key \<mapsto> val)\<rparr>"

definition sist_nil :: "string \<Rightarrow> u2_raft \<Rightarrow> u2_raft" where
  "sist_nil key raf = raf\<lparr>raf_sis := (raf_sis raf)(key := None)\<rparr>"

section \<open>Roles and terms\<close>

definition raft_promote :: "u2_raft \<Rightarrow> u2_raft res" where
  "raft_promote raf =
     (if raf_typ raf = Raty_lead then Inr raf
      else if raf_pop raf = 1 then Inr (raf\<lparr>raf_typ := Raty_lead, raf_boot := True\<rparr>)
      else if raf_typ raf \<noteq> Raty_cand then Inl Abort
      else Inr (raf\<lparr>raf_typ := Raty_lead, raf_tim := Every\<rparr>))"

definition raft_demote :: "u2_raft \<Rightarrow> u2_raft res" where
  "raft_demote raf =
     (let typ = raf_typ raf;
          raf = sist_nil ''vote'' (raf\<lparr>raf_vog := None\<rparr>)\<lparr>raf_vot := 0, raf_typ := Raty_foll\<rparr>
      in if typ = Raty_lead then Inr (raf\<lparr>raf_tim := Once\<rparr>)
         else if typ \<noteq> Raty_cand then Inl Abort
         else Inr raf)"

definition raft_note_term :: "u2_raft \<Rightarrow> c3_w \<Rightarrow> u2_raft res" where
  "raft_note_term raf tem =
     (if raf_tem raf < tem then
        let raf = sist_put ''term'' (le_put 4 tem) (raf\<lparr>raf_tem := tem\<rparr>)
        in if raf_typ raf = Raty_none then Inl Abort
           else if raf_typ raf = Raty_foll then if raf_vot raf = 0 then Inr raf else Inl Abort
           else raft_demote raf
      else Inr raf)"

section \<open>Connections\<close>

definition raft_conn_dead :: "nat \<Rightarrow> u2_raft \<Rightarrow> u2_raft res" where
  "raft_conn_dead i raf =
     rbind (con_at raf i) (\<lambda>ron.
       if \<not> liv ron then Inr raf
       else Inr (con_put i (ron\<lparr>liv := False\<rparr>) raf\<lparr>raf_shut := raf_shut raf @ [i]\<rparr>))"

definition raft_remove_run :: "nat \<Rightarrow> u2_raft \<Rightarrow> bool \<times> u2_raft" where
  "raft_remove_run i raf = (i \<in> set (raf_run raf), raf\<lparr>raf_run := remove1 i (raf_run raf)\<rparr>)"

primrec find_nam :: "c3_y list \<Rightarrow> u2_rnam list \<Rightarrow> nat option" where
  "find_nam nam [] = None"
| "find_nam nam (n # ns) = (if str_c n = nam then Some 0 else map_option Suc (find_nam nam ns))"

text \<open>A request carries the name of its sender; without a string there, comparing names reads what is not set.\<close>

definition raft_rest_name :: "nat \<Rightarrow> c3_y list option \<Rightarrow> u2_raft \<Rightarrow> u2_raft res" where
  "raft_rest_name i nam_s raf =
     rbind (con_at raf i) (\<lambda>ron.
       case nam_u ron of
         Some k \<Rightarrow>
           (case nam_s of
              None \<Rightarrow> Inl Wild
            | Some nam \<Rightarrow> if str_c (raf_nam raf ! k) \<noteq> nam then raft_conn_dead i raf else Inr raf)
       | None \<Rightarrow>
           if raf_nam raf = [] then raft_conn_dead i raf
           else (case nam_s of
             None \<Rightarrow> Inl Wild
           | Some nam \<Rightarrow>
               (case find_nam nam (raf_nam raf) of
                  None \<Rightarrow> raft_conn_dead i raf
                | Some k \<Rightarrow>
                    rbind (case ron_u (raf_nam raf ! k) of
                             None \<Rightarrow> Inr raf
                           | Some j \<Rightarrow> if j = i then Inl Abort else raft_conn_dead j raf) (\<lambda>raf.
                    rbind (con_at raf i) (\<lambda>ron.
                    Inr (snd (raft_remove_run i (con_put i (ron\<lparr>nam_u := Some k\<rparr>)
                      (nam_put k ((raf_nam raf ! k)\<lparr>ron_u := Some i\<rparr>) raf)))))))))"

section \<open>Sending\<close>

definition raft_rmsg_send :: "nat \<Rightarrow> u2_rmsg \<Rightarrow> u2_raft \<Rightarrow> u2_raft res" where
  "raft_rmsg_send i m raf =
     rbind (con_at raf i) (\<lambda>ron.
     rbind (rmsg_send m) (\<lambda>_. Inr (con_put i (ron\<lparr>wri_u := wri_u ron @ [m]\<rparr>) raf)))"

definition raft_write_base :: "u2_raft \<Rightarrow> u2_rbody \<Rightarrow> u2_rmsg" where
  "raft_write_base raf bod = \<lparr>ver_w = u2_cr_mug_a, len_d = 5, tem_w = raf_tem raf, body = bod\<rparr>"

definition raft_write_rest :: "u2_raft \<Rightarrow> c3_d \<Rightarrow> c3_w \<Rightarrow> (u2_rest \<Rightarrow> u2_rbody) \<Rightarrow> u2_rmsg" where
  "raft_write_rest raf lai lat mk =
     (let nam_w = 1 + of_nat (length (raf_str raf) div 4);
          nam_c = uv_strlcpy (raf_str raf @ [0]) (unat (4 * nam_w));
          m = raft_write_base raf (mk \<lparr>lai_d = lai, lat_w = lat, nam_w = nam_w, nam_c = nam_c\<rparr>)
      in m\<lparr>len_d := len_d m + (4 + ucast nam_w)\<rparr>)"

definition raft_write_apen :: "u2_raft \<Rightarrow> c3_d \<Rightarrow> c3_w \<Rightarrow> c3_d \<Rightarrow> c3_d \<Rightarrow> u2_rent list \<Rightarrow> u2_rmsg" where
  "raft_write_apen raf lai lat cit num es =
     (let m = raft_write_rest raf lai lat (\<lambda>r. Apen r cit num es)
      in m\<lparr>len_d := len_d m + 4 + (\<Sum>e\<leftarrow>take (unat num) es. 3 + ucast (ent_len_w e))\<rparr>)"

definition raft_write_revo :: "u2_raft \<Rightarrow> u2_rmsg" where
  "raft_write_revo raf = raft_write_rest raf (raf_ent raf) (raf_lat raf) Revo"

definition raft_send_rasp :: "nat \<Rightarrow> bool \<Rightarrow> u2_raft \<Rightarrow> u2_raft res" where
  "raft_send_rasp i suc raf =
     (let m = raft_write_base raf (Rasp (if suc then 1 else 0))
      in raft_rmsg_send i (m\<lparr>len_d := len_d m + 1\<rparr>) raf)"

definition raft_rreq_new :: "nat \<Rightarrow> u2_rmsg \<Rightarrow> u2_raft \<Rightarrow> u2_raft res" where
  "raft_rreq_new i m raf = rbind (con_at raf i) (\<lambda>ron. Inr (con_put i (ron\<lparr>out_u := out_u ron @ [m]\<rparr>) raf))"

text \<open>The name of the peer is asserted where the request is written, \<^verbatim>\<open>_raft_write_rest\<close>.\<close>

definition raft_send_rest :: "nat \<Rightarrow> u2_rmsg \<Rightarrow> u2_raft \<Rightarrow> u2_raft res" where
  "raft_send_rest i m raf =
     rbind (raft_rreq_new i m raf) (\<lambda>raf.
     rbind (con_at raf i) (\<lambda>ron.
       if nam_u ron = None then Inl Abort else raft_rmsg_send i m raf))"

definition raft_send_beat :: "nat \<Rightarrow> u2_raft \<Rightarrow> u2_raft res" where
  "raft_send_beat i raf = raft_send_rest i (raft_write_apen raf 0 0 0 0 []) raf"

definition raft_send_revo :: "nat \<Rightarrow> u2_raft \<Rightarrow> u2_raft res" where
  "raft_send_revo i raf = raft_send_rest i (raft_write_revo raf) raf"

section \<open>Requests and responses\<close>

definition raft_do_rest :: "nat \<Rightarrow> c3_w \<Rightarrow> u2_rest \<Rightarrow> u2_raft \<Rightarrow> u2_raft res" where
  "raft_do_rest i tem r raf =
     (let raf = (if raf_typ raf = Raty_cand \<or> raf_typ raf = Raty_foll then raf\<lparr>raf_tim := Once\<rparr> else raf)
      in rbind (raft_rest_name i (nam_c r) raf) (\<lambda>raf. raft_note_term raf tem))"

definition raft_do_apen :: "nat \<Rightarrow> c3_w \<Rightarrow> u2_rest \<Rightarrow> u2_raft \<Rightarrow> u2_raft res" where
  "raft_do_apen i tem r raf = raft_do_rest i tem r raf"

definition raft_do_revo :: "nat \<Rightarrow> c3_w \<Rightarrow> u2_rest \<Rightarrow> u2_raft \<Rightarrow> u2_raft res" where
  "raft_do_revo i tem r raf =
     rbind (raft_do_rest i tem r raf) (\<lambda>raf.
     rbind (con_at raf i) (\<lambda>ron. case nam_u ron of
       None \<Rightarrow> Inl Abort
     | Some k \<Rightarrow>
         let str = str_c (raf_nam raf ! k)
         in if raf_tem raf \<le> tem \<and> (raf_vog raf = None \<or> raf_vog raf = Some str) \<and>
               (raf_lat raf < lat_w r \<or> raf_lat raf = lat_w r \<and> raf_ent raf \<le> lai_d r)
            then raft_send_rasp i True (sist_put ''vote'' str (raf\<lparr>raf_vog := Some str\<rparr>))
            else raft_send_rasp i False raf))"

definition raft_revo_done :: "nat \<Rightarrow> u2_rmsg \<Rightarrow> c3_w \<Rightarrow> u2_raft \<Rightarrow> u2_raft res" where
  "raft_revo_done i req suc raf =
     rbind (if suc \<noteq> 0 \<and> tem_w req = raf_tem raf then
              rbind (con_at raf i) (\<lambda>ron. case nam_u ron of
                None \<Rightarrow> Inl Wild
              | Some k \<Rightarrow>
                  if \<not> vog (raf_nam raf ! k) then
                    Inr (nam_put k ((raf_nam raf ! k)\<lparr>vog := True\<rparr>) raf\<lparr>raf_vot := raf_vot raf + 1\<rparr>)
                  else Inr raf)
            else Inr raf) (\<lambda>raf.
     if raf_pop raf div 2 < raf_vot raf then raft_promote raf else Inr raf)"

definition raft_do_rasp :: "nat \<Rightarrow> c3_w \<Rightarrow> c3_w \<Rightarrow> u2_raft \<Rightarrow> u2_raft res" where
  "raft_do_rasp i tem suc raf =
     rbind (con_at raf i) (\<lambda>ron.
       if nam_u ron = None then raft_conn_dead i raf
       else case out_u ron of
         [] \<Rightarrow> raft_conn_dead i raf
       | req # _ \<Rightarrow>
           rbind (case body req of
                    Apen _ _ _ _ \<Rightarrow> Inr raf
                  | Revo _ \<Rightarrow> raft_revo_done i req suc raf
                  | Rasp _ \<Rightarrow> Inl Abort) (\<lambda>raf.
           rbind (raft_note_term raf tem) (\<lambda>raf.
           rbind (con_at raf i) (\<lambda>ron. Inr (con_put i (ron\<lparr>out_u := tl (out_u ron)\<rparr>) raf)))))"

definition raft_do_msg :: "nat \<Rightarrow> u2_rmsg \<Rightarrow> u2_raft \<Rightarrow> u2_raft res" where
  "raft_do_msg i m raf =
     (case body m of
        Apen r _ _ _ \<Rightarrow> raft_do_apen i (tem_w m) r raf
      | Revo r \<Rightarrow> raft_do_revo i (tem_w m) r raf
      | Rasp suc \<Rightarrow> raft_do_rasp i (tem_w m) suc raf)"

text \<open>
  Reading and writing on a connection. \<open>uvw\<close> says on which connections \<^verbatim>\<open>uv_write\<close> takes what it is given; on the others
  the messages stay in the buffer.
\<close>

definition conn_reads :: "nat \<Rightarrow> u2_raft \<Rightarrow> u2_raft res" where
  "conn_reads i raf =
     rbind (con_at raf i) (\<lambda>ron.
       if \<not> red ron then Inr raf
       else case red_u ron of
         None \<Rightarrow> Inl Abort
       | Some buf \<Rightarrow>
           rbind (work_loop (raft_do_msg i) (buf_y buf) (con_put i (ron\<lparr>red := False\<rparr>) raf)) (\<lambda>(raf, left, bad).
           rbind (con_at raf i) (\<lambda>ron.
             let raf = con_put i (ron\<lparr>red_u := Some (buf\<lparr>buf_y := left\<rparr>)\<rparr>) raf
             in if bad then raft_conn_dead i raf else Inr raf)))"

definition conn_writes :: "(nat \<Rightarrow> bool) \<Rightarrow> nat \<Rightarrow> u2_raft \<Rightarrow> u2_raft res" where
  "conn_writes uvw i raf =
     rbind (con_at raf i) (\<lambda>ron.
       if wri_u ron \<noteq> [] \<and> uvw i then
         Inr (con_put i (ron\<lparr>wri_u := []\<rparr>) raf\<lparr>raf_out := raf_out raf @ [(i, wri_u ron)]\<rparr>)
       else Inr raf)"

definition raft_conn_work :: "(nat \<Rightarrow> bool) \<Rightarrow> nat \<Rightarrow> u2_raft \<Rightarrow> u2_raft res" where
  "raft_conn_work uvw i raf =
     rbind (con_at raf i) (\<lambda>ron.
       if \<not> liv ron then Inl Abort else rbind (conn_reads i raf) (conn_writes uvw i))"

section \<open>Elections\<close>

definition raft_conn_new :: "u2_raft \<Rightarrow> nat \<times> u2_raft" where
  "raft_conn_new raf =
     (raf_new raf, con_put (raf_new raf)
       \<lparr>nam_u = None, red_u = None, red = False, wri_u = [], out_u = [], liv = False\<rparr> raf\<lparr>raf_new := Suc (raf_new raf)\<rparr>)"

text \<open>
  A peer without a live connection gets a new one, whose address is looked up later. \<open>con_f\<close> sends a request on it.
\<close>

definition conn_peer :: "(nat \<Rightarrow> bool) \<Rightarrow> (nat \<Rightarrow> u2_raft \<Rightarrow> u2_raft res) \<Rightarrow> nat \<Rightarrow> u2_raft \<Rightarrow> u2_raft res" where
  "conn_peer uvw con_f k raf =
     rbind (case ron_u (raf_nam raf ! k) of
              None \<Rightarrow> Inr None
            | Some j \<Rightarrow> rbind (con_at raf j) (\<lambda>ron. Inr (if liv ron then Some j else None))) (\<lambda>old. case old of
       None \<Rightarrow>
         let (i, raf) = raft_conn_new raf
         in rbind (con_at raf i) (\<lambda>ron.
            con_f i (nam_put k ((raf_nam raf ! k)\<lparr>ron_u := Some i\<rparr>) (con_put i (ron\<lparr>nam_u := Some k\<rparr>) raf)))
     | Some j \<Rightarrow>
         rbind (con_f j raf) (\<lambda>raf.
         rbind (con_at raf j) (\<lambda>ron. if liv ron then raft_conn_work uvw j raf else Inr raf)))"

definition raft_conn_all :: "(nat \<Rightarrow> bool) \<Rightarrow> (nat \<Rightarrow> u2_raft \<Rightarrow> u2_raft res) \<Rightarrow> u2_raft \<Rightarrow> u2_raft res" where
  "raft_conn_all uvw con_f raf = rfold (conn_peer uvw con_f) [0..<length (raf_nam raf)] raf"

definition raft_start_election :: "(nat \<Rightarrow> bool) \<Rightarrow> u2_raft \<Rightarrow> u2_raft res" where
  "raft_start_election uvw raf =
     (if raf_tim raf \<noteq> Idle then Inl Abort
      else
        let raf = raf\<lparr>raf_tim := Once, raf_tem := raf_tem raf + 1\<rparr>;
            raf = sist_put ''term'' (le_put 4 (raf_tem raf)) raf;
            raf = raf\<lparr>raf_nam := map (\<lambda>nam. nam\<lparr>vog := False\<rparr>) (raf_nam raf), raf_vot := 1, raf_vog := Some (raf_str raf)\<rparr>;
            raf = sist_put ''vote'' (raf_str raf) raf
        in raft_conn_all uvw raft_send_revo raf)"

definition raft_heartbeat :: "(nat \<Rightarrow> bool) \<Rightarrow> u2_raft \<Rightarrow> u2_raft res" where
  "raft_heartbeat uvw raf = raft_conn_all uvw raft_send_beat raf"

definition raft_time_cb :: "(nat \<Rightarrow> bool) \<Rightarrow> u2_raft \<Rightarrow> u2_raft res" where
  "raft_time_cb uvw raf =
     (case raf_typ raf of
        Raty_none \<Rightarrow> Inl Abort
      | Raty_foll \<Rightarrow> raft_start_election uvw (raf\<lparr>raf_typ := Raty_cand\<rparr>)
      | Raty_cand \<Rightarrow> raft_start_election uvw raf
      | Raty_lead \<Rightarrow> raft_heartbeat uvw raf)"

section \<open>Callbacks\<close>

definition raft_conn_read_cb :: "(nat \<Rightarrow> bool) \<Rightarrow> nat \<Rightarrow> c3_y list option \<Rightarrow> u2_raft \<Rightarrow> u2_raft res" where
  "raft_conn_read_cb uvw i bs raf =
     (case bs of
        None \<Rightarrow> raft_conn_dead i raf
      | Some bs \<Rightarrow>
          if bs = [] then Inr raf
          else rbind (con_at raf i) (\<lambda>ron.
            if liv ron then
              rbind (rbuf_grow (red_u ron) bs) (\<lambda>buf.
              raft_conn_work uvw i (con_put i (ron\<lparr>red_u := Some buf, red := True\<rparr>) raf))
            else Inr raf))"

definition raft_write_cb :: "nat \<Rightarrow> bool \<Rightarrow> u2_raft \<Rightarrow> u2_raft res" where
  "raft_write_cb i ok raf = (if ok then Inr raf else raft_conn_dead i raf)"

definition raft_listen_cb :: "bool \<Rightarrow> u2_raft \<Rightarrow> u2_raft res" where
  "raft_listen_cb ok raf =
     (if \<not> ok then Inr raf
      else
        let (i, raf) = raft_conn_new raf
        in rbind (con_at raf i) (\<lambda>ron. Inr (con_put i (ron\<lparr>liv := True\<rparr>) raf\<lparr>raf_run := i # raf_run raf\<rparr>)))"

definition raft_connect_cb :: "(nat \<Rightarrow> bool) \<Rightarrow> nat \<Rightarrow> bool \<Rightarrow> u2_raft \<Rightarrow> u2_raft res" where
  "raft_connect_cb uvw i ok raf =
     rbind (con_at raf i) (\<lambda>ron.
       if \<not> ok then Inr (raf\<lparr>raf_shut := raf_shut raf @ [i]\<rparr>)
       else if nam_u ron = None then Inl Abort
       else raft_conn_work uvw i (con_put i (ron\<lparr>liv := True\<rparr>) raf))"

definition raft_conn_free :: "nat \<Rightarrow> u2_raft \<Rightarrow> u2_raft res" where
  "raft_conn_free i raf =
     rbind (con_at raf i) (\<lambda>ron.
       let (suc, raf') = raft_remove_run i raf
       in rbind (case nam_u ron of
             Some k \<Rightarrow>
               if suc then Inl Abort
               else Inr (if ron_u (raf_nam raf' ! k) = Some i then nam_put k ((raf_nam raf' ! k)\<lparr>ron_u := None\<rparr>) raf' else raf')
           | None \<Rightarrow> if \<not> suc \<or> (\<exists>nam\<in>set (raf_nam raf'). ron_u nam = Some i) then Inl Abort else Inr raf') (\<lambda>raf.
       Inr (raf\<lparr>raf_con := (raf_con raf)(i := None)\<rparr>)))"

text \<open>
  The callback of a lookup: an address was found and a connection to it is under way, or the connection is freed. What
  the loop over the addresses does to the handle of libuv is not part of the state of a node: it closes the handle after each address
  that fails and goes on with it.
\<close>

definition raft_getaddrinfo_cb :: "nat \<Rightarrow> bool \<Rightarrow> u2_raft \<Rightarrow> u2_raft res" where
  "raft_getaddrinfo_cb i found raf = (if found then Inr raf else raft_conn_free i raf)"

end
