(* ===== verification/Raft_Inv.thy ===== *)
theory Raft_Inv
  imports Raft
begin

text \<open>
  The events of a node and its invariant. An event is a callback that libuv makes; \<open>raft_enabled\<close> says when it can make it.
  Shown: every event keeps the invariant, and the only assertion that can fail is the one on the name of a peer that asks
  for a vote.
\<close>

section \<open>Events\<close>

datatype revent =
    Timer
  | Read nat "c3_y list option"
  | Wrote nat bool
  | Listen bool
  | Connect nat bool
  | Lookup nat bool
  | Close nat

text \<open>A connection that was made to a peer and is not up yet is neither alive nor closed.\<close>

definition pending :: "u2_raft \<Rightarrow> nat \<Rightarrow> bool" where
  "pending raf i \<longleftrightarrow> (case raf_con raf i of None \<Rightarrow> False | Some ron \<Rightarrow> \<not> liv ron \<and> i \<notin> set (raf_shut raf))"

definition raft_enabled :: "revent \<Rightarrow> u2_raft \<Rightarrow> bool" where
  "raft_enabled e raf =
     (case e of
        Timer \<Rightarrow> raf_tim raf \<noteq> Idle
      | Read i _ \<Rightarrow> (case raf_con raf i of None \<Rightarrow> False | Some ron \<Rightarrow> liv ron)
      | Wrote i _ \<Rightarrow> raf_con raf i \<noteq> None
      | Listen _ \<Rightarrow> True
      | Connect i _ \<Rightarrow> pending raf i
      | Lookup i _ \<Rightarrow> pending raf i
      | Close i \<Rightarrow> i \<in> set (raf_shut raf))"

text \<open>A timer that runs once is idle when its callback is made.\<close>

definition raft_event :: "(nat \<Rightarrow> bool) \<Rightarrow> revent \<Rightarrow> u2_raft \<Rightarrow> u2_raft res" where
  "raft_event uvw e raf =
     (case e of
        Timer \<Rightarrow> raft_time_cb uvw (if raf_tim raf = Once then raf\<lparr>raf_tim := Idle\<rparr> else raf)
      | Read i bs \<Rightarrow> raft_conn_read_cb uvw i bs raf
      | Wrote i ok \<Rightarrow> raft_write_cb i ok raf
      | Listen ok \<Rightarrow> raft_listen_cb ok raf
      | Connect i ok \<Rightarrow> raft_connect_cb uvw i ok raf
      | Lookup i found \<Rightarrow> raft_getaddrinfo_cb i found raf
      | Close i \<Rightarrow> rbind (raft_conn_free i raf) (\<lambda>raf. Inr (raf\<lparr>raf_shut := remove1 i (raf_shut raf)\<rparr>)))"

section \<open>The invariant\<close>

text \<open>What the disk says of the term and the vote; a node that starts again reads it there.\<close>

definition disk_ok :: "u2_raft \<Rightarrow> bool" where
  "disk_ok raf \<longleftrightarrow>
     (raf_sis raf ''term'' = None \<longrightarrow> raf_tem raf = 0) \<and> (\<forall>b. raf_sis raf ''term'' = Some b \<longrightarrow> b = le_put 4 (raf_tem raf)) \<and>
     (raf_vog raf \<noteq> None \<longrightarrow> raf_sis raf ''vote'' = raf_vog raf)"

definition node_ok :: "u2_raft \<Rightarrow> bool" where
  "node_ok raf \<longleftrightarrow>
     raf_typ raf \<noteq> Raty_none \<and> raf_nam raf \<noteq> [] \<and> Suc (length (raf_nam raf)) < 2 ^ 32 \<and>
     raf_pop raf = of_nat (Suc (length (raf_nam raf))) \<and>
     length (raf_str raf) < 2 ^ 30 \<and> 0 \<notin> set (raf_str raf) \<and> raf_str raf \<notin> set (map str_c (raf_nam raf)) \<and>
     (raf_typ raf = Raty_foll \<longrightarrow> raf_vot raf = 0) \<and> (raf_typ raf \<noteq> Raty_foll \<longrightarrow> raf_vog raf = Some (raf_str raf)) \<and>
     unat (raf_vot raf) \<le> Suc (length (filter id (map vog (raf_nam raf)))) \<and>
     (raf_typ raf = Raty_lead \<longrightarrow> raf_pop raf div 2 < raf_vot raf) \<and>
     raf_tim raf = (if raf_typ raf = Raty_lead then Every else Once) \<and> disk_ok raf"

definition req_ok :: "u2_raft \<Rightarrow> u2_rmsg \<Rightarrow> bool" where
  "req_ok raf m \<longleftrightarrow>
     (case body m of
        Rasp _ \<Rightarrow> False
      | Revo _ \<Rightarrow> tem_w m \<le> raf_tem raf \<and> (raf_typ raf = Raty_foll \<longrightarrow> tem_w m < raf_tem raf)
      | Apen _ _ _ _ \<Rightarrow> tem_w m \<le> raf_tem raf)"

definition con_ok :: "u2_raft \<Rightarrow> nat \<Rightarrow> u2_rcon \<Rightarrow> bool" where
  "con_ok raf i ron \<longleftrightarrow>
     \<not> red ron \<and> i < raf_new raf \<and> (\<forall>k. nam_u ron = Some k \<longrightarrow> k < length (raf_nam raf)) \<and>
     (nam_u ron = None \<longleftrightarrow> i \<in> set (raf_run raf)) \<and> (nam_u ron = None \<longrightarrow> liv ron \<or> i \<in> set (raf_shut raf)) \<and>
     (liv ron \<longrightarrow> i \<notin> set (raf_shut raf)) \<and> (\<forall>m\<in>set (out_u ron). req_ok raf m)"

definition cons_ok :: "u2_raft \<Rightarrow> bool" where
  "cons_ok raf \<longleftrightarrow>
     (\<forall>i ron. raf_con raf i = Some ron \<longrightarrow> con_ok raf i ron) \<and>
     distinct (raf_run raf) \<and> set (raf_run raf) \<subseteq> dom (raf_con raf) \<and>
     distinct (raf_shut raf) \<and> set (raf_shut raf) \<subseteq> dom (raf_con raf) \<and>
     (\<forall>k<length (raf_nam raf). \<forall>i. ron_u (raf_nam raf ! k) = Some i \<longrightarrow> (\<exists>ron. raf_con raf i = Some ron \<and> nam_u ron = Some k))"

definition raft_ok :: "u2_raft \<Rightarrow> bool" where
  "raft_ok raf \<longleftrightarrow> node_ok raf \<and> cons_ok raf"

text \<open>What stays as it is in every step: the names. What never goes back: the term.\<close>

definition raft_later :: "u2_raft \<Rightarrow> u2_raft \<Rightarrow> bool" where
  "raft_later raf raf' \<longleftrightarrow>
     raf_str raf' = raf_str raf \<and> map str_c (raf_nam raf') = map str_c (raf_nam raf) \<and> raf_tem raf \<le> raf_tem raf' \<and>
     (raf_tem raf' = raf_tem raf \<and> raf_vog raf \<noteq> None \<longrightarrow> raf_vog raf' = raf_vog raf) \<and>
     (raf_tem raf' = raf_tem raf \<and> raf_typ raf = Raty_lead \<longrightarrow> raf_typ raf' = Raty_lead)"

lemma raft_later_refl [simp]: "raft_later raf raf"
  by (simp add: raft_later_def)

lemma raft_later_trans: "raft_later a b \<Longrightarrow> raft_later b c \<Longrightarrow> raft_later a c"
  unfolding raft_later_def by (metis order.antisym order.trans)

definition con_kept :: "u2_raft \<Rightarrow> u2_raft \<Rightarrow> bool" where
  "con_kept raf raf' \<longleftrightarrow>
     (\<forall>i ron. raf_con raf i = Some ron \<longrightarrow> (\<exists>ron'. raf_con raf' i = Some ron' \<and> (nam_u ron \<noteq> None \<longrightarrow> nam_u ron' = nam_u ron)))"

lemma con_kept_refl [simp]: "con_kept raf raf"
  by (simp add: con_kept_def)

lemma con_keptD:
  "con_kept raf raf' \<Longrightarrow> raf_con raf i = Some ron \<Longrightarrow> \<exists>ron'. raf_con raf' i = Some ron' \<and> (nam_u ron \<noteq> None \<longrightarrow> nam_u ron' = nam_u ron)"
  by (simp add: con_kept_def)

lemma con_kept_trans: "con_kept a b \<Longrightarrow> con_kept b c \<Longrightarrow> con_kept a c"
  unfolding con_kept_def by (metis (no_types, opaque_lifting))

text \<open>A result that keeps the invariant; there is an error only under \<open>A\<close>.\<close>

definition good :: "bool \<Rightarrow> u2_raft \<Rightarrow> u2_raft res \<Rightarrow> bool" where
  "good A raf r = (case r of Inl e \<Rightarrow> A | Inr raf' \<Rightarrow> raft_ok raf' \<and> raft_later raf raf' \<and> con_kept raf raf')"

lemma good_Inr: "good A raf (Inr raf') \<longleftrightarrow> raft_ok raf' \<and> raft_later raf raf' \<and> con_kept raf raf'"
  by (simp add: good_def)

lemma good_rbind:
  assumes "good A raf r" "\<And>raf'. r = Inr raf' \<Longrightarrow> raft_ok raf' \<Longrightarrow> raft_later raf raf' \<Longrightarrow> con_kept raf raf' \<Longrightarrow> good A raf' (f raf')"
  shows "good A raf (rbind r f)"
proof (cases r)
  case (Inl e)
  then show ?thesis using assms(1) by (simp add: good_def)
next
  case (Inr raf')
  then have "raft_ok raf'" "raft_later raf raf'" "con_kept raf raf'" using assms(1) by (simp_all add: good_def)
  moreover from this have "good A raf' (f raf')" using assms(2) [OF Inr] by blast
  ultimately show ?thesis using Inr raft_later_trans con_kept_trans
    by (auto simp: good_def split: sum.splits)
qed

lemma good_after: "raft_later raf raf' \<Longrightarrow> con_kept raf raf' \<Longrightarrow> good A raf' r \<Longrightarrow> good A raf r"
  by (cases r) (auto simp: good_def intro: raft_later_trans con_kept_trans)

lemma good_weaken: "good A raf r \<Longrightarrow> A \<longrightarrow> B \<Longrightarrow> good B raf r"
  by (auto simp: good_def split: sum.splits)

lemma con_at_ok: "raf_con raf i = Some ron \<Longrightarrow> con_at raf i = Inr ron"
  by (simp add: con_at_def)

lemma con_put_simps [simp]:
  "raf_typ (con_put i ron raf) = raf_typ raf" "raf_tem (con_put i ron raf) = raf_tem raf" "raf_vog (con_put i ron raf) = raf_vog raf"
  "raf_vot (con_put i ron raf) = raf_vot raf" "raf_pop (con_put i ron raf) = raf_pop raf" "raf_str (con_put i ron raf) = raf_str raf"
  "raf_nam (con_put i ron raf) = raf_nam raf" "raf_run (con_put i ron raf) = raf_run raf" "raf_new (con_put i ron raf) = raf_new raf"
  "raf_tim (con_put i ron raf) = raf_tim raf" "raf_shut (con_put i ron raf) = raf_shut raf"
  "raf_con (con_put i ron raf) = (raf_con raf)(i \<mapsto> ron)" "raf_sis (con_put i ron raf) = raf_sis raf" "raf_ent (con_put i ron raf) = raf_ent raf" "raf_lat (con_put i ron raf) = raf_lat raf"
  by (simp_all add: con_put_def)

lemma req_ok_cong [simp]:
  "req_ok (con_put i ron raf) m = req_ok raf m" "req_ok (raf\<lparr>raf_shut := x\<rparr>) m = req_ok raf m" "req_ok (raf\<lparr>raf_out := y\<rparr>) m = req_ok raf m"
  "req_ok (raf\<lparr>raf_sis := z\<rparr>) m = req_ok raf m"
  by (simp_all add: req_ok_def split: u2_rbody.splits)

lemma node_ok_cong [simp]:
  "node_ok (con_put i ron raf) = node_ok raf" "node_ok (raf\<lparr>raf_shut := x\<rparr>) = node_ok raf" "node_ok (raf\<lparr>raf_out := y\<rparr>) = node_ok raf"
  by (simp_all add: node_ok_def disk_ok_def)

lemma raft_later_cong [simp]:
  "raft_later raf (con_put i ron raf) = raft_later raf raf" "raft_later raf (raf'\<lparr>raf_shut := x\<rparr>) = raft_later raf raf'"
  "raft_later raf (raf'\<lparr>raf_out := y\<rparr>) = raft_later raf raf'" "raft_later raf (con_put i ron raf') = raft_later raf raf'"
  by (simp_all add: raft_later_def)

lemma con_put_ok:
  assumes ok: "raft_ok raf" and ron: "raf_con raf i = Some ron"
    and new: "nam_u ron' = nam_u ron" "\<not> red ron'" "liv ron' = liv ron" "\<forall>m\<in>set (out_u ron'). req_ok raf m"
  shows "raft_ok (con_put i ron' raf)" "con_kept raf (con_put i ron' raf)"
proof -
  have "cons_ok raf" using ok by (simp add: raft_ok_def)
  then have "cons_ok (con_put i ron' raf)"
    using ron new unfolding cons_ok_def con_ok_def by (auto 0 4)
  then show "raft_ok (con_put i ron' raf)" using ok by (simp add: raft_ok_def)
  show "con_kept raf (con_put i ron' raf)" using ron new by (auto simp: con_kept_def)
qed

lemma con_okD: "raft_ok raf \<Longrightarrow> raf_con raf i = Some ron \<Longrightarrow> con_ok raf i ron"
  by (simp add: raft_ok_def cons_ok_def)

lemma peer_con: "raft_ok raf \<Longrightarrow> k < length (raf_nam raf) \<Longrightarrow> ron_u (raf_nam raf ! k) = Some i \<Longrightarrow> \<exists>ron. raf_con raf i = Some ron \<and> nam_u ron = Some k"
  by (simp add: raft_ok_def cons_ok_def)

lemma conn_dead_good:
  assumes ok: "raft_ok raf" and ron: "raf_con raf i = Some ron"
  shows "good A raf (raft_conn_dead i raf)"
proof (cases "liv ron")
  case True
  let ?raf = "con_put i (ron\<lparr>liv := False\<rparr>) raf\<lparr>raf_shut := raf_shut raf @ [i]\<rparr>"
  have con: "con_ok raf i ron" by (rule con_okD [OF ok ron])
  have "con_ok ?raf j r" if "raf_con ?raf j = Some r" for j r
    using that con True con_okD [OF ok, of j r] by (cases "j = i") (auto simp: con_ok_def)
  moreover have "\<exists>r. raf_con ?raf j = Some r \<and> nam_u r = Some k" if "k < length (raf_nam ?raf)" "ron_u (raf_nam ?raf ! k) = Some j" for j k
    using that peer_con [OF ok, of k j] ron by auto
  moreover have "distinct (raf_run ?raf)" "set (raf_run ?raf) \<subseteq> dom (raf_con ?raf)"
    using ok by (auto simp: raft_ok_def cons_ok_def)
  moreover have "i \<notin> set (raf_shut raf)" using con True by (simp add: con_ok_def)
  then have "distinct (raf_shut ?raf)" "set (raf_shut ?raf) \<subseteq> dom (raf_con ?raf)"
    using ok by (auto simp: raft_ok_def cons_ok_def)
  ultimately have "cons_ok ?raf" unfolding cons_ok_def by blast
  moreover have "con_kept raf ?raf" using ron by (auto simp: con_kept_def)
  ultimately show ?thesis using ok True
    by (simp add: raft_conn_dead_def con_at_ok [OF ron] good_Inr raft_ok_def)
qed (use ok in \<open>simp add: raft_conn_dead_def con_at_ok [OF ron] good_Inr\<close>)

lemma cons_ok_cong:
  assumes "cons_ok raf" "raf_con raf' = raf_con raf" "raf_run raf' = raf_run raf" "raf_shut raf' = raf_shut raf" "raf_new raf' = raf_new raf"
    "length (raf_nam raf') = length (raf_nam raf)" "\<forall>k<length (raf_nam raf). ron_u (raf_nam raf' ! k) = ron_u (raf_nam raf ! k)"
    "\<And>m. req_ok raf m \<Longrightarrow> req_ok raf' m"
  shows "cons_ok raf'"
  using assms unfolding cons_ok_def con_ok_def by auto

lemma sist_simps [simp]:
  "raf_typ (sist_put k v raf) = raf_typ raf" "raf_tem (sist_put k v raf) = raf_tem raf" "raf_vog (sist_put k v raf) = raf_vog raf"
  "raf_vot (sist_put k v raf) = raf_vot raf" "raf_pop (sist_put k v raf) = raf_pop raf" "raf_str (sist_put k v raf) = raf_str raf"
  "raf_nam (sist_put k v raf) = raf_nam raf" "raf_run (sist_put k v raf) = raf_run raf" "raf_new (sist_put k v raf) = raf_new raf"
  "raf_tim (sist_put k v raf) = raf_tim raf" "raf_shut (sist_put k v raf) = raf_shut raf" "raf_con (sist_put k v raf) = raf_con raf"
  "raf_ent (sist_put k v raf) = raf_ent raf" "raf_lat (sist_put k v raf) = raf_lat raf"
  "raf_typ (sist_nil k raf) = raf_typ raf" "raf_tem (sist_nil k raf) = raf_tem raf" "raf_vog (sist_nil k raf) = raf_vog raf"
  "raf_vot (sist_nil k raf) = raf_vot raf" "raf_pop (sist_nil k raf) = raf_pop raf" "raf_str (sist_nil k raf) = raf_str raf"
  "raf_nam (sist_nil k raf) = raf_nam raf" "raf_run (sist_nil k raf) = raf_run raf" "raf_new (sist_nil k raf) = raf_new raf"
  "raf_tim (sist_nil k raf) = raf_tim raf" "raf_shut (sist_nil k raf) = raf_shut raf" "raf_con (sist_nil k raf) = raf_con raf"
  "raf_ent (sist_nil k raf) = raf_ent raf" "raf_lat (sist_nil k raf) = raf_lat raf"
  "raf_sis (sist_put k v raf) = (raf_sis raf)(k \<mapsto> v)" "raf_sis (sist_nil k raf) = (raf_sis raf)(k := None)"
  by (simp_all add: sist_put_def sist_nil_def)

lemma req_ok_later: "raf_tem raf < raf_tem raf' \<Longrightarrow> req_ok raf m \<Longrightarrow> req_ok raf' m"
  by (auto simp: req_ok_def split: u2_rbody.splits)

lemma note_term_good:
  assumes ok: "raft_ok raf"
  shows "good A raf (raft_note_term raf tem)"
proof (cases "raf_tem raf < tem")
  case True
  have n: "node_ok raf" and c: "cons_ok raf" using ok by (simp_all add: raft_ok_def)
  obtain raf' where r: "raft_note_term raf tem = Inr raf'" and "raf_tem raf' = tem" "raf_con raf' = raf_con raf" "raf_run raf' = raf_run raf"
    "raf_shut raf' = raf_shut raf" "raf_new raf' = raf_new raf" "raf_nam raf' = raf_nam raf" "raf_str raf' = raf_str raf"
    "raf_pop raf' = raf_pop raf" "raf_typ raf' = Raty_foll" "raf_vot raf' = 0" "raf_tim raf' = Once" "disk_ok raf'"
    using True n by (cases "raf_typ raf") (auto simp: raft_note_term_def raft_demote_def node_ok_def disk_ok_def Let_def)
  moreover from this have "cons_ok raf'" using True by (intro cons_ok_cong [OF c]) (auto intro: req_ok_later)
  moreover from calculation have "node_ok raf'" using n by (simp add: node_ok_def)
  ultimately show ?thesis using True by (auto simp: good_Inr raft_ok_def raft_later_def con_kept_def)
qed (use ok in \<open>simp add: raft_note_term_def good_Inr\<close>)

lemma pop_unat: "node_ok raf \<Longrightarrow> unat (raf_pop raf) = Suc (length (raf_nam raf))"
  by (rule of_nat_inverse) (simp_all add: node_ok_def)

lemma promote_good:
  assumes ok: "raft_ok raf" and vot: "raf_pop raf div 2 < raf_vot raf"
  shows "good A raf (raft_promote raf)"
proof -
  have n: "node_ok raf" and c: "cons_ok raf" using ok by (simp_all add: raft_ok_def)
  then have role: "raf_typ raf = Raty_cand \<or> raf_typ raf = Raty_lead" using vot by (cases "raf_typ raf") (auto simp: node_ok_def)
  have "raf_pop raf \<noteq> 1" using pop_unat [OF n] n by (auto simp: node_ok_def)
  show ?thesis
  proof (cases "raf_typ raf = Raty_lead")
    case False
    let ?raf = "raf\<lparr>raf_typ := Raty_lead, raf_tim := Every\<rparr>"
    have "req_ok ?raf m" if "req_ok raf m" for m using that by (auto simp: req_ok_def split: u2_rbody.splits)
    then have "cons_ok ?raf" by (intro cons_ok_cong [OF c]) auto
    moreover have "node_ok ?raf" using n vot role False by (auto simp: node_ok_def disk_ok_def)
    ultimately show ?thesis using False role \<open>raf_pop raf \<noteq> 1\<close>
      by (simp add: raft_promote_def good_Inr raft_ok_def raft_later_def con_kept_def)
  qed (use ok in \<open>simp add: raft_promote_def good_Inr\<close>)
qed

lemma find_nam_Some: "find_nam nam ns = Some k \<Longrightarrow> k < length ns \<and> str_c (ns ! k) = nam"
  by (induction ns arbitrary: k) (auto split: if_splits)

lemma find_nam_None: "find_nam nam ns = None \<longleftrightarrow> nam \<notin> set (map str_c ns)"
  by (induction ns) auto

lemma conn_dead_simps:
  assumes "raft_conn_dead i raf = Inr raf'"
  shows "raf_run raf' = raf_run raf" "raf_nam raf' = raf_nam raf" "raf_tem raf' = raf_tem raf" "raf_vog raf' = raf_vog raf"
    "raf_typ raf' = raf_typ raf" "raf_str raf' = raf_str raf" "raf_out raf' = raf_out raf" "raf_new raf' = raf_new raf"
    "map_option nam_u (raf_con raf' j) = map_option nam_u (raf_con raf j)"
    "map_option out_u (raf_con raf' j) = map_option out_u (raf_con raf j)"
    "map_option wri_u (raf_con raf' j) = map_option wri_u (raf_con raf j)"
  using assms by (auto simp: raft_conn_dead_def con_at_def con_put_def split: option.splits if_splits)

lemma nam_put_simps [simp]:
  "raf_typ (nam_put k n raf) = raf_typ raf" "raf_tem (nam_put k n raf) = raf_tem raf" "raf_vog (nam_put k n raf) = raf_vog raf"
  "raf_vot (nam_put k n raf) = raf_vot raf" "raf_pop (nam_put k n raf) = raf_pop raf" "raf_str (nam_put k n raf) = raf_str raf"
  "raf_nam (nam_put k n raf) = (raf_nam raf)[k := n]" "raf_run (nam_put k n raf) = raf_run raf" "raf_new (nam_put k n raf) = raf_new raf"
  "raf_tim (nam_put k n raf) = raf_tim raf" "raf_shut (nam_put k n raf) = raf_shut raf" "raf_con (nam_put k n raf) = raf_con raf"
  "raf_ent (nam_put k n raf) = raf_ent raf" "raf_lat (nam_put k n raf) = raf_lat raf" "raf_sis (nam_put k n raf) = raf_sis raf"
  by (simp_all add: nam_put_def)

lemma map_update_same: "f x = f (xs ! k) \<Longrightarrow> map f (xs[k := x]) = map f xs"
  by (cases "k < length xs") (simp_all add: map_update list_update_same_conv list_update_beyond)

lemma req_ok_eq: "raf_tem raf' = raf_tem raf \<Longrightarrow> raf_typ raf' = raf_typ raf \<Longrightarrow> req_ok raf' m = req_ok raf m"
  by (simp add: req_ok_def split: u2_rbody.split)

lemma node_ok_same:
  assumes "node_ok raf" "map str_c (raf_nam raf') = map str_c (raf_nam raf)" "map vog (raf_nam raf') = map vog (raf_nam raf)"
    "raf_typ raf' = raf_typ raf" "raf_vog raf' = raf_vog raf" "raf_vot raf' = raf_vot raf"
    "raf_pop raf' = raf_pop raf" "raf_str raf' = raf_str raf" "raf_tim raf' = raf_tim raf" "raf_sis raf' = raf_sis raf" "raf_tem raf' = raf_tem raf"
  shows "node_ok raf'"
proof -
  have len: "length (raf_nam raf') = length (raf_nam raf)" using assms(2) by (rule map_eq_imp_length_eq)
  then have "raf_nam raf' = [] \<longleftrightarrow> raf_nam raf = []" by auto
  then show ?thesis using assms(1) unfolding node_ok_def disk_ok_def len assms(2-) by blast
qed

lemma name_con_ok:
  assumes ok: "raft_ok raf" and ron: "raf_con raf i = Some ron" "nam_u ron = None" and k: "k < length (raf_nam raf)"
    and raf': "raf' = snd (raft_remove_run i (con_put i (ron\<lparr>nam_u := Some k\<rparr>) (nam_put k ((raf_nam raf ! k)\<lparr>ron_u := Some i\<rparr>) raf)))"
  shows "good A raf (Inr raf')"
proof -
  have eqs: "raf_con raf' = (raf_con raf)(i \<mapsto> ron\<lparr>nam_u := Some k\<rparr>)" "raf_run raf' = remove1 i (raf_run raf)"
    "raf_nam raf' = (raf_nam raf)[k := (raf_nam raf ! k)\<lparr>ron_u := Some i\<rparr>]" "raf_shut raf' = raf_shut raf" "raf_new raf' = raf_new raf"
    "raf_tem raf' = raf_tem raf" "raf_typ raf' = raf_typ raf" "raf_vog raf' = raf_vog raf" "raf_vot raf' = raf_vot raf"
    "raf_pop raf' = raf_pop raf" "raf_str raf' = raf_str raf" "raf_tim raf' = raf_tim raf" "raf_sis raf' = raf_sis raf"
    unfolding raf' by (simp_all add: raft_remove_run_def)
  have c: "cons_ok raf" and n: "node_ok raf" using ok by (simp_all add: raft_ok_def)
  have maps: "map str_c (raf_nam raf') = map str_c (raf_nam raf)" "map vog (raf_nam raf') = map vog (raf_nam raf)"
    unfolding eqs by (simp_all add: map_update_same)
  have "node_ok raf'" by (rule node_ok_same [OF n maps]) (simp_all only: eqs)
  moreover have "con_ok raf' j r" if "raf_con raf' j = Some r" for j r
    using c that ron k unfolding cons_ok_def con_ok_def eqs
    by (cases "j = i") (auto simp: req_ok_eq [OF eqs(6,7)])
  moreover have "\<exists>r. raf_con raf' j = Some r \<and> nam_u r = Some l" if "l < length (raf_nam raf')" "ron_u (raf_nam raf' ! l) = Some j" for l j
    using c that ron unfolding cons_ok_def eqs by (cases "l = k") auto
  moreover have "distinct (raf_run raf')" "set (raf_run raf') \<subseteq> dom (raf_con raf')" "distinct (raf_shut raf')" "set (raf_shut raf') \<subseteq> dom (raf_con raf')"
    using c unfolding cons_ok_def eqs by (auto dest: notin_set_remove1)
  ultimately have "raft_ok raf'" by (auto simp: raft_ok_def cons_ok_def)
  moreover have "raft_later raf raf'" using maps(1) eqs by (simp add: raft_later_def)
  moreover have "con_kept raf raf'" unfolding con_kept_def eqs using ron by auto
  ultimately show ?thesis by (simp add: good_Inr)
qed

lemma rest_name_good:
  assumes ok: "raft_ok raf" and ron: "raf_con raf i = Some ron" and nm: "nm = None \<Longrightarrow> A"
  shows "good A raf (raft_rest_name i nm raf)"
proof (cases "nam_u ron")
  case (Some k)
  then show ?thesis using ok nm conn_dead_good [OF ok ron, of A]
    by (auto simp: raft_rest_name_def con_at_ok [OF ron] good_Inr good_def [of _ _ "Inl e" for e] split: option.split)
next
  case None
  have "good A raf (case ron_u (raf_nam raf ! k) of None \<Rightarrow> Inr raf | Some j \<Rightarrow> if j = i then Inl Abort else raft_conn_dead j raf)"
    if k: "k < length (raf_nam raf)" for k
  proof (cases "ron_u (raf_nam raf ! k)")
    case (Some j)
    then obtain r where r: "raf_con raf j = Some r" "nam_u r = Some k" using peer_con [OF ok k] by blast
    then have "j \<noteq> i" using ron None by auto
    then show ?thesis using Some conn_dead_good [OF ok r(1)] by simp
  qed (use ok in \<open>simp add: good_Inr\<close>)
  note old = this
  have "good A raf (rbind (case ron_u (raf_nam raf ! k) of None \<Rightarrow> Inr raf | Some j \<Rightarrow> if j = i then Inl Abort else raft_conn_dead j raf) (\<lambda>raf.
      rbind (con_at raf i) (\<lambda>ron. Inr (snd (raft_remove_run i (con_put i (ron\<lparr>nam_u := Some k\<rparr>)
        (nam_put k ((raf_nam raf ! k)\<lparr>ron_u := Some i\<rparr>) raf)))))))" if k: "k < length (raf_nam raf)" for k
  proof (rule good_rbind [OF old [OF k]])
    fix raf' assume r: "(case ron_u (raf_nam raf ! k) of None \<Rightarrow> Inr raf | Some j \<Rightarrow> if j = i then Inl Abort else raft_conn_dead j raf) = Inr raf'"
      and ok': "raft_ok raf'"
    have "map_option nam_u (raf_con raf' i) = map_option nam_u (raf_con raf i)" "raf_nam raf' = raf_nam raf"
      using r conn_dead_simps(2,9) by (auto split: option.splits if_splits)
    then obtain ron' where ron': "raf_con raf' i = Some ron'" "nam_u ron' = None" "k < length (raf_nam raf')" using ron None k by auto
    show "good A raf' (rbind (con_at raf' i) (\<lambda>ron. Inr (snd (raft_remove_run i (con_put i (ron\<lparr>nam_u := Some k\<rparr>)
        (nam_put k ((raf_nam raf' ! k)\<lparr>ron_u := Some i\<rparr>) raf'))))))"
      using name_con_ok [OF ok' ron' refl] by (simp add: con_at_ok [OF ron'(1)])
  qed
  note found = this
  have dead: "good A raf (raft_conn_dead i raf)" by (rule conn_dead_good [OF ok ron])
  show ?thesis
  proof (cases nm)
    case (Some nam)
    show ?thesis
    proof (cases "find_nam nam (raf_nam raf)")
      case (Some k)
      then have "k < length (raf_nam raf)" "raf_nam raf \<noteq> []" using find_nam_Some by force+
      then show ?thesis using found [of k] Some \<open>nm = Some nam\<close> \<open>nam_u ron = None\<close>
        by (simp add: raft_rest_name_def con_at_ok [OF ron])
    qed (use dead \<open>nm = Some nam\<close> \<open>nam_u ron = None\<close> in \<open>simp add: raft_rest_name_def con_at_ok [OF ron]\<close>)
  qed (use dead nm \<open>nam_u ron = None\<close> in \<open>simp add: raft_rest_name_def con_at_ok [OF ron] good_def [of _ _ "Inl e" for e]\<close>)
qed

lemma do_rest_good:
  assumes ok: "raft_ok raf" and ron: "raf_con raf i = Some ron" and nm: "nam_c r = None \<Longrightarrow> A"
  shows "good A raf (raft_do_rest i tem r raf)"
proof -
  have "(if raf_typ raf = Raty_cand \<or> raf_typ raf = Raty_foll then raf\<lparr>raf_tim := Once\<rparr> else raf) = raf"
    using ok by (auto simp: raft_ok_def node_ok_def)
  then show ?thesis unfolding raft_do_rest_def
    by (auto simp: Let_def intro!: good_rbind rest_name_good [OF ok ron nm] note_term_good)
qed

lemma write_rest_ok:
  assumes "node_ok raf"
  shows "rest_ok \<lparr>lai_d = lai, lat_w = lat, nam_w = 1 + of_nat (length (raf_str raf) div 4),
      nam_c = uv_strlcpy (raf_str raf @ [0]) (unat (4 * (1 + of_nat (length (raf_str raf) div 4) :: c3_w)))\<rparr>"
    and write_rest_len: "unat (1 + of_nat (length (raf_str raf) div 4) :: c3_w) = Suc (length (raf_str raf) div 4)"
    and nam_c_ok: "uv_strlcpy (raf_str raf @ [0]) (unat (4 * (1 + of_nat (length (raf_str raf) div 4) :: c3_w))) = Some (raf_str raf)"
proof -
  let ?w = "1 + of_nat (length (raf_str raf) div 4) :: c3_w" and ?n = "Suc (length (raf_str raf) div 4)"
  have len: "length (raf_str raf) < 2 ^ 30" "0 \<notin> set (raf_str raf)" using assms by (simp_all add: node_ok_def)
  have w: "unat ?w = ?n" by (rule of_nat_inverse) (use len in simp_all)
  then show "unat ?w = ?n" .
  have w4: "unat (4 * ?w) = 4 * ?n" using siz_eq [of "\<lparr>lai_d = lai, lat_w = lat, nam_w = ?w, nam_c = None\<rparr>"] w len(1) by simp
  have "length (raf_str raf) < 4 * ?n" by simp
  then have "take (4 * ?n - 1) (raf_str raf @ [0]) = raf_str raf \<or> take (4 * ?n - 1) (raf_str raf @ [0]) = raf_str raf @ [0]"
    by (cases "length (raf_str raf) = 4 * ?n - 1") auto
  moreover have "takeWhile (\<lambda>b. b \<noteq> 0) (raf_str raf) = raf_str raf" "takeWhile (\<lambda>b. b \<noteq> 0) (raf_str raf @ [0]) = raf_str raf"
    using len(2) by (auto simp: takeWhile_eq_all_conv takeWhile_append)
  ultimately have "uv_strlcpy (raf_str raf @ [0]) (4 * ?n) = Some (raf_str raf)" by (auto simp: uv_strlcpy_def)
  then show "uv_strlcpy (raf_str raf @ [0]) (unat (4 * ?w)) = Some (raf_str raf)" unfolding w4 .
  with \<open>uv_strlcpy (raf_str raf @ [0]) (4 * ?n) = Some (raf_str raf)\<close> show "rest_ok \<lparr>lai_d = lai, lat_w = lat, nam_w = ?w, nam_c = uv_strlcpy (raf_str raf @ [0]) (unat (4 * ?w))\<rparr>"
    using w w4 len \<open>length (raf_str raf) < 4 * ?n\<close> by (simp add: rest_ok_def less_mult_imp_div_less)
qed

lemma unat_words: "n < 2 ^ 32 \<Longrightarrow> unat (of_nat n + ucast (w :: c3_w) :: c3_d) = n + unat w"
  by (rule of_nat_inverse) (use unat_c3_w [of w] in simp_all)

lemma write_revo_ok:
  assumes "node_ok raf"
  shows "rmsg_ok (raft_write_revo raf)" "tem_w (raft_write_revo raf) = raf_tem raf"
    "\<exists>r. body (raft_write_revo raf) = Revo r \<and> nam_c r = Some (raf_str raf)"
  using write_rest_ok(1) [OF assms] unat_words [of 9 "1 + of_nat (length (raf_str raf) div 4)"] nam_c_ok [OF assms]
  by (simp_all add: raft_write_revo_def raft_write_rest_def raft_write_base_def rmsg_ok_def Let_def)

lemma write_beat_ok:
  assumes "node_ok raf"
  shows "rmsg_ok (raft_write_apen raf 0 0 0 0 [])" "tem_w (raft_write_apen raf 0 0 0 0 []) = raf_tem raf"
    "\<exists>r. body (raft_write_apen raf 0 0 0 0 []) = Apen r 0 0 [] \<and> nam_c r = Some (raf_str raf)"
  using write_rest_ok(1) [OF assms] unat_words [of 13 "1 + of_nat (length (raf_str raf) div 4)"] nam_c_ok [OF assms]
  by (simp_all add: raft_write_apen_def raft_write_rest_def raft_write_base_def rmsg_ok_def Let_def)

lemma rmsg_send_good:
  assumes ok: "raft_ok raf" and ron: "raf_con raf i = Some ron" and m: "rmsg_ok m"
  shows "good A raf (raft_rmsg_send i m raf)" "raft_rmsg_send i m raf = Inr (con_put i (ron\<lparr>wri_u := wri_u ron @ [m]\<rparr>) raf)"
proof -
  obtain b where "rmsg_send m = Inr b" using rmsg_send_read [OF m] by blast
  then show eq: "raft_rmsg_send i m raf = Inr (con_put i (ron\<lparr>wri_u := wri_u ron @ [m]\<rparr>) raf)"
    by (simp add: raft_rmsg_send_def con_at_ok [OF ron])
  show "good A raf (raft_rmsg_send i m raf)"
    using con_put_ok [OF ok ron, of "ron\<lparr>wri_u := wri_u ron @ [m]\<rparr>"] con_okD [OF ok ron]
    unfolding eq by (simp add: good_Inr con_ok_def)
qed

lemma rasp_msg_ok: "rmsg_ok (raft_write_base raf (Rasp s)\<lparr>len_d := len_d (raft_write_base raf (Rasp s)) + 1\<rparr>)"
  by (simp add: rmsg_ok_def raft_write_base_def)

lemma send_rasp_good: "raft_ok raf \<Longrightarrow> raf_con raf i = Some ron \<Longrightarrow> good A raf (raft_send_rasp i suc raf)"
  unfolding raft_send_rasp_def Let_def by (rule rmsg_send_good(1) [OF _ _ rasp_msg_ok])

lemma send_rest_good:
  assumes ok: "raft_ok raf" and ron: "raf_con raf i = Some ron" "nam_u ron \<noteq> None" and m: "rmsg_ok m" "req_ok raf m"
  shows "good A raf (raft_send_rest i m raf)"
proof -
  let ?ron = "ron\<lparr>out_u := out_u ron @ [m]\<rparr>"
  have new: "raft_ok (con_put i ?ron raf)" "con_kept raf (con_put i ?ron raf)"
    by (rule con_put_ok [OF ok ron(1)]; use con_okD [OF ok ron(1)] m(2) in \<open>auto simp: con_ok_def\<close>)+
  have eq: "raft_send_rest i m raf = raft_rmsg_send i m (con_put i ?ron raf)"
    using ron by (auto simp: raft_send_rest_def raft_rreq_new_def con_at_def)
  have "good A (con_put i ?ron raf) (raft_rmsg_send i m (con_put i ?ron raf))" by (rule rmsg_send_good(1) [OF new(1) _ m(1)]) simp
  then show ?thesis using new con_kept_trans unfolding eq
    by (auto simp: good_def raft_later_def split: sum.splits)
qed

text \<open>A vote is granted only by a follower, since the others have voted for themselves.\<close>

lemma grant_ok:
  assumes ok: "raft_ok raf" and k: "k < length (raf_nam raf)" and vog: "raf_vog raf = None \<or> raf_vog raf = Some (str_c (raf_nam raf ! k))"
    and raf': "raf' = sist_put ''vote'' (str_c (raf_nam raf ! k)) (raf\<lparr>raf_vog := Some (str_c (raf_nam raf ! k))\<rparr>)"
  shows "raft_ok raf'" "raft_later raf raf'" "con_kept raf raf'" "raf_con raf' = raf_con raf" "raf_typ raf = Raty_foll"
proof -
  have n: "node_ok raf" and c: "cons_ok raf" using ok by (simp_all add: raft_ok_def)
  have "raf_str raf \<noteq> str_c (raf_nam raf ! k)" using n k by (auto simp: node_ok_def)
  then show foll: "raf_typ raf = Raty_foll" using n vog by (cases "raf_typ raf") (auto simp: node_ok_def)
  have "node_ok raf'" using n foll unfolding raf' by (simp add: node_ok_def disk_ok_def)
  moreover have "cons_ok raf'" unfolding raf' by (rule cons_ok_cong [OF c]) (auto simp: req_ok_def split: u2_rbody.splits)
  ultimately show "raft_ok raf'" by (simp add: raft_ok_def)
  show "raft_later raf raf'" "con_kept raf raf'" "raf_con raf' = raf_con raf"
    using vog unfolding raf' by (auto simp: raft_later_def con_kept_def)
qed

lemma rest_name_named:
  assumes "raft_ok raf" "raf_con raf i = Some ron" "raft_rest_name i (Some nam) raf = Inr raf'"
    "nam_u ron \<noteq> None \<or> nam \<in> set (map str_c (raf_nam raf))"
  shows "\<exists>ron'. raf_con raf' i = Some ron' \<and> nam_u ron' \<noteq> None"
proof (cases "nam_u ron")
  case (Some k)
  have "con_kept raf raf'" using rest_name_good [OF assms(1,2), of "Some nam" False] assms(3) by (simp add: good_Inr)
  then show ?thesis using con_keptD [OF _ assms(2)] Some by fastforce
next
  case None
  then have "find_nam nam (raf_nam raf) \<noteq> None" using assms(4) find_nam_None by blast
  then show ?thesis using assms(2,3) None
    by (auto simp: raft_rest_name_def con_at_def rbind_eq_Inr raft_remove_run_def split: if_splits)
qed

text \<open>The messages a node cannot take: a request without a name, and a request for a vote from a name that no peer has.\<close>

definition bad_request :: "u2_raft \<Rightarrow> u2_rmsg \<Rightarrow> bool" where
  "bad_request raf m =
     (case body m of
        Rasp _ \<Rightarrow> False
      | Apen r _ _ _ \<Rightarrow> nam_c r = None
      | Revo r \<Rightarrow> (case nam_c r of None \<Rightarrow> True | Some nam \<Rightarrow> nam \<notin> set (map str_c (raf_nam raf))))"

lemma do_revo_good:
  assumes ok: "raft_ok raf" and ron: "raf_con raf i = Some ron" and m: "body m = Revo r"
  shows "good (bad_request raf m) raf (raft_do_revo i tem r raf)"
  unfolding raft_do_revo_def
proof (rule good_rbind)
  show "good (bad_request raf m) raf (raft_do_rest i tem r raf)" by (rule do_rest_good [OF ok ron]) (simp add: bad_request_def m)
  fix raf' assume r: "raft_do_rest i tem r raf = Inr raf'" and ok': "raft_ok raf'" and kept: "con_kept raf raf'"
  obtain ron' where ron': "raf_con raf' i = Some ron'" using con_keptD [OF kept ron] by blast
  have named: "bad_request raf m" if "nam_u ron' = None"
  proof (rule ccontr)
    assume known: "\<not> bad_request raf m"
    have tim: "(if raf_typ raf = Raty_cand \<or> raf_typ raf = Raty_foll then raf\<lparr>raf_tim := Once\<rparr> else raf) = raf"
      using ok by (auto simp: raft_ok_def node_ok_def)
    obtain raf1 where raf1: "raft_rest_name i (nam_c r) raf = Inr raf1" "raft_note_term raf1 tem = Inr raf'"
      using r tim by (auto simp: raft_do_rest_def Let_def rbind_eq_Inr)
    then have ok1: "raft_ok raf1" using rest_name_good [OF ok ron, of "nam_c r" True] by (simp add: good_Inr)
    obtain nam where nam: "nam_c r = Some nam" using raf1(1) ok ron
      by (cases "nam_c r") (auto simp: raft_rest_name_def con_at_def raft_ok_def node_ok_def split: option.splits)
    then have "nam \<in> set (map str_c (raf_nam raf))" using known m by (auto simp: bad_request_def)
    then obtain ron1 where "raf_con raf1 i = Some ron1" "nam_u ron1 \<noteq> None" using rest_name_named [OF ok ron raf1(1) [unfolded nam]] by blast
    moreover have "con_kept raf1 raf'" using note_term_good [OF ok1, of False tem] raf1(2) by (simp add: good_Inr)
    ultimately show False using con_keptD [of raf1 raf' i ron1] ron' that by auto
  qed
  show "good (bad_request raf m) raf' (rbind (con_at raf' i) (\<lambda>ron. case nam_u ron of None \<Rightarrow> Inl Abort | Some k \<Rightarrow>
      let str = str_c (raf_nam raf' ! k)
      in if raf_tem raf' \<le> tem \<and> (raf_vog raf' = None \<or> raf_vog raf' = Some str) \<and>
            (raf_lat raf' < lat_w r \<or> raf_lat raf' = lat_w r \<and> raf_ent raf' \<le> lai_d r)
         then raft_send_rasp i True (sist_put ''vote'' str (raf'\<lparr>raf_vog := Some str\<rparr>))
         else raft_send_rasp i False raf'))"
  proof (cases "nam_u ron'")
    case None
    then show ?thesis using named by (simp add: con_at_ok [OF ron'] good_def)
  next
    case (Some k)
    then have k: "k < length (raf_nam raf')" using con_okD [OF ok' ron'] by (simp add: con_ok_def)
    let ?str = "str_c (raf_nam raf' ! k)"
    let ?raf = "sist_put ''vote'' ?str (raf'\<lparr>raf_vog := Some ?str\<rparr>)"
    have "good B raf' (raft_send_rasp i True ?raf)" if v: "raf_vog raf' = None \<or> raf_vog raf' = Some ?str" for B
    proof -
      note g = grant_ok [OF ok' k v refl]
      have "good B raf' (rbind (Inr ?raf) (raft_send_rasp i True))"
        by (rule good_rbind) (use g ron' in \<open>auto simp: good_Inr intro!: send_rasp_good\<close>)
      then show ?thesis by simp
    qed
    then show ?thesis using Some send_rasp_good [OF ok' ron'] by (simp add: con_at_ok [OF ron'] Let_def)
  qed
qed

lemma count_update: "k < length bs \<Longrightarrow> \<not> bs ! k \<Longrightarrow> length (filter id (bs[k := True])) = Suc (length (filter id bs))"
proof (induction bs arbitrary: k)
  case (Cons b bs)
  then show ?case by (cases k) auto
qed simp

lemma unat_Suc:
  assumes "Suc (unat (v :: c3_w)) < 2 ^ 32"
  shows "unat (v + 1) = Suc (unat v)"
proof (rule of_nat_inverse)
  show "of_nat (Suc (unat v)) = v + 1" by (simp only: of_nat_Suc of_nat_unat ucast_id add.commute)
qed (use assms in simp)

lemma count_vote_ok:
  assumes ok: "raft_ok raf" and k: "k < length (raf_nam raf)" "\<not> vog (raf_nam raf ! k)" and role: "raf_typ raf \<noteq> Raty_foll"
    and raf': "raf' = nam_put k ((raf_nam raf ! k)\<lparr>vog := True\<rparr>) raf\<lparr>raf_vot := raf_vot raf + 1\<rparr>"
  shows "good A raf (Inr raf')"
proof -
  have n: "node_ok raf" and c: "cons_ok raf" using ok by (simp_all add: raft_ok_def)
  have flags: "map vog (raf_nam raf') = (map vog (raf_nam raf))[k := True]" and strs: "map str_c (raf_nam raf') = map str_c (raf_nam raf)"
    unfolding raf' by (simp add: map_update) (simp add: map_update_same)
  have count: "length (filter id (map vog (raf_nam raf'))) = Suc (length (filter id (map vog (raf_nam raf))))"
    unfolding flags using k by (intro count_update) simp_all
  moreover have "length (filter id (map vog (raf_nam raf'))) \<le> length (raf_nam raf)"
    using length_filter_le [of id "map vog (raf_nam raf')"] by (simp add: raf')
  ultimately have vot: "unat (raf_vot raf + 1) = Suc (unat (raf_vot raf))" using n by (intro unat_Suc) (auto simp: node_ok_def)
  have lead: "raf_pop raf div 2 < raf_vot raf + 1" if "raf_pop raf div 2 < raf_vot raf"
    using that vot by (simp add: word_less_nat_alt)
  have eqs: "raf_typ raf' = raf_typ raf" "raf_vot raf' = raf_vot raf + 1" "raf_vog raf' = raf_vog raf" "raf_pop raf' = raf_pop raf"
    "raf_str raf' = raf_str raf" "raf_tim raf' = raf_tim raf" "length (raf_nam raf') = length (raf_nam raf)" "raf_tem raf' = raf_tem raf"
    "disk_ok raf' = disk_ok raf"
    unfolding raf' by (simp_all add: disk_ok_def)
  have "raf_nam raf' \<noteq> []" using eqs(7) k(1) by auto
  then have "node_ok raf'" using n role vot lead unfolding node_ok_def eqs strs count by auto
  moreover have "cons_ok raf'"
    by (rule cons_ok_cong [OF c]) (use k(1) in \<open>auto simp: raf' nth_list_update req_ok_def split: u2_rbody.splits\<close>)
  moreover have "raft_later raf raf'" using eqs strs by (simp add: raft_later_def)
  ultimately show ?thesis by (simp add: good_Inr raft_ok_def con_kept_def raf')
qed

lemma revo_done_good:
  assumes ok: "raft_ok raf" and ron: "raf_con raf i = Some ron" "nam_u ron = Some k" and req: "req_ok raf req" "body req = Revo r"
  shows "good A raf (raft_revo_done i req suc raf)"
proof -
  have k: "k < length (raf_nam raf)" using con_okD [OF ok ron(1)] ron(2) by (simp add: con_ok_def)
  have role: "raf_typ raf \<noteq> Raty_foll" if "tem_w req = raf_tem raf" using req that by (auto simp: req_ok_def)
  show ?thesis unfolding raft_revo_done_def
    by (rule good_rbind) (use ok ron k role in \<open>auto simp: con_at_ok good_Inr [of _ _ raf] intro: promote_good count_vote_ok simp: good_Inr [where raf' = raf' and raf = raf' for raf']\<close>)
qed

lemma do_rasp_good:
  assumes ok: "raft_ok raf" and ron: "raf_con raf i = Some ron"
  shows "good A raf (raft_do_rasp i tem suc raf)"
proof (cases "nam_u ron = None \<or> out_u ron = []")
  case True
  then show ?thesis using conn_dead_good [OF ok ron] by (auto simp: raft_do_rasp_def con_at_ok [OF ron])
next
  case False
  then obtain k req nex where k: "nam_u ron = Some k" and out: "out_u ron = req # nex" by (cases "out_u ron") auto
  have req: "req_ok raf req" using con_okD [OF ok ron] out by (simp add: con_ok_def)
  have "good A raf (case body req of Apen _ _ _ _ \<Rightarrow> Inr raf | Revo _ \<Rightarrow> raft_revo_done i req suc raf | Rasp _ \<Rightarrow> Inl Abort)"
    using ok req revo_done_good [OF ok ron k req] by (auto simp: good_Inr req_ok_def split: u2_rbody.splits)
  then have "good A raf (rbind (case body req of Apen _ _ _ _ \<Rightarrow> Inr raf | Revo _ \<Rightarrow> raft_revo_done i req suc raf | Rasp _ \<Rightarrow> Inl Abort)
      (\<lambda>raf. rbind (raft_note_term raf tem) (\<lambda>raf. rbind (con_at raf i) (\<lambda>ron. Inr (con_put i (ron\<lparr>out_u := tl (out_u ron)\<rparr>) raf)))))"
  proof (rule good_rbind)
    fix raf1 assume ok1: "raft_ok raf1" and kept1: "con_kept raf raf1"
    show "good A raf1 (rbind (raft_note_term raf1 tem) (\<lambda>raf. rbind (con_at raf i) (\<lambda>ron. Inr (con_put i (ron\<lparr>out_u := tl (out_u ron)\<rparr>) raf))))"
    proof (rule good_rbind [OF note_term_good [OF ok1]])
      fix raf2 assume ok2: "raft_ok raf2" and kept2: "con_kept raf1 raf2"
      obtain ron2 where ron2: "raf_con raf2 i = Some ron2" using con_keptD [OF con_kept_trans [OF kept1 kept2] ron] by blast
      have "set (tl (out_u ron2)) \<subseteq> set (out_u ron2)" by (cases "out_u ron2") auto
      then have "good A raf2 (Inr (con_put i (ron2\<lparr>out_u := tl (out_u ron2)\<rparr>) raf2))"
        using con_put_ok [OF ok2 ron2, of "ron2\<lparr>out_u := tl (out_u ron2)\<rparr>"] con_okD [OF ok2 ron2]
        by (auto simp: good_Inr con_ok_def)
      then show "good A raf2 (rbind (con_at raf2 i) (\<lambda>ron. Inr (con_put i (ron\<lparr>out_u := tl (out_u ron)\<rparr>) raf2)))"
        by (simp add: con_at_ok [OF ron2])
    qed
  qed
  then show ?thesis using k out by (simp add: raft_do_rasp_def con_at_ok [OF ron])
qed

lemma do_msg_good:
  assumes "raft_ok raf" "raf_con raf i = Some ron"
  shows "good (bad_request raf m) raf (raft_do_msg i m raf)"
  using do_revo_good [OF assms] do_rest_good [OF assms] do_rasp_good [OF assms]
  by (auto simp: raft_do_msg_def raft_do_apen_def bad_request_def split: u2_rbody.split)

section \<open>Reading and writing\<close>

text \<open>The messages that the loop takes off a buffer.\<close>

function frames :: "c3_y list \<Rightarrow> u2_rmsg list res" where
  "frames buf =
     rbind (rmsg_read buf) (\<lambda>r. case r of
       Rgot m n \<Rightarrow> rbind (frames (drop n buf)) (\<lambda>ms. Inr (m # ms))
     | _ \<Rightarrow> Inr [])"
  by pat_completeness auto

termination
  by (relation "measure length") (simp, use rmsg_read_got in fastforce)

declare frames.simps [simp del]

definition hostile :: "u2_raft \<Rightarrow> c3_y list \<Rightarrow> bool" where
  "hostile raf buf = (case frames buf of Inl _ \<Rightarrow> True | Inr ms \<Rightarrow> \<exists>m\<in>set ms. bad_request raf m)"

lemma hostile_got: "rmsg_read buf = Inr (Rgot m n) \<Longrightarrow> hostile raf buf \<longleftrightarrow> bad_request raf m \<or> hostile raf (drop n buf)"
  by (cases "frames (drop n buf)") (simp_all add: hostile_def frames.simps [of buf])

lemma bad_request_later: "raft_later raf raf' \<Longrightarrow> bad_request raf' m = bad_request raf m"
  by (simp only: bad_request_def raft_later_def)

lemma hostile_later: "raft_later raf raf' \<Longrightarrow> hostile raf' buf = hostile raf buf"
  by (simp only: hostile_def bad_request_later)

lemma work_loop_good:
  "raft_ok raf \<Longrightarrow> raf_con raf i \<noteq> None \<Longrightarrow>
   good (hostile raf buf) raf (rbind (work_loop (raft_do_msg i) buf raf) (\<lambda>(raf, left, bad). Inr raf))"
proof (induction "raft_do_msg i" buf raf rule: work_loop.induct)
  case (1 buf raf)
  obtain ron where ron: "raf_con raf i = Some ron" using "1.prems" by auto
  show ?case
  proof (cases "\<exists>m n. rmsg_read buf = Inr (Rgot m n)")
    case True
    then obtain m n where got: "rmsg_read buf = Inr (Rgot m n)" by blast
    have n: "n = unat (4 * len_d m)" "n \<le> length buf" using rmsg_read_got [OF got] by auto
    note host = hostile_got [OF got]
    have "good (hostile raf buf) raf (rbind (raft_do_msg i m raf) (\<lambda>raf. rbind (work_loop (raft_do_msg i) (drop n buf) raf) (\<lambda>(raf, left, bad). Inr raf)))"
    proof (rule good_rbind)
      show "good (hostile raf buf) raf (raft_do_msg i m raf)"
        by (rule good_weaken [OF do_msg_good [OF "1.prems"(1) ron]]) (use host in simp)
      fix raf' assume r: "raft_do_msg i m raf = Inr raf'" and ok': "raft_ok raf'" and later: "raft_later raf raf'" and kept: "con_kept raf raf'"
      have "raf_con raf' i \<noteq> None" using con_keptD [OF kept ron] by auto
      then have "good (hostile raf' (drop n buf)) raf' (rbind (work_loop (raft_do_msg i) (drop n buf) raf') (\<lambda>(raf, left, bad). Inr raf))"
        using "1.hyps" [OF got refl _ r] n ok' by auto
      then show "good (hostile raf buf) raf' (rbind (work_loop (raft_do_msg i) (drop n buf) raf') (\<lambda>(raf, left, bad). Inr raf))"
        by (rule good_weaken) (simp add: host hostile_later [OF later])
    qed
    then show ?thesis by (cases "raft_do_msg i m raf") (simp_all add: work_loop_got [OF got])
  next
    case False
    then consider e where "rmsg_read buf = Inl e" | "rmsg_read buf = Inr Rfail" | "rmsg_read buf = Inr Rpart"
      by (metis rmsg_ret.exhaust sum.exhaust)
    then show ?thesis by cases (use "1.prems"(1) in \<open>simp_all add: work_loop.simps [of _ buf] good_def hostile_def frames.simps [of buf]\<close>)
  qed
qed

lemma good_triple:
  assumes "good A raf (rbind W (\<lambda>(raf, left, bad). Inr raf))"
    "\<And>raf' left bad. W = Inr (raf', left, bad) \<Longrightarrow> raft_ok raf' \<Longrightarrow> raft_later raf raf' \<Longrightarrow> con_kept raf raf' \<Longrightarrow> good A raf' (g raf' left bad)"
  shows "good A raf (rbind W (\<lambda>(raf, left, bad). g raf left bad))"
proof (cases W)
  case (Inr x)
  obtain raf' left bad where x: "x = (raf', left, bad)" by (cases x)
  have "good A raf (rbind (Inr raf') (\<lambda>raf. g raf left bad))"
    by (rule good_rbind) (use assms Inr x in auto)
  then show ?thesis using Inr x by simp
qed (use assms(1) in \<open>simp add: good_def\<close>)

lemma conn_writes_good:
  assumes ok: "raft_ok raf" and ron: "raf_con raf i = Some ron"
  shows "good A raf (conn_writes uvw i raf)"
proof -
  let ?raf = "con_put i (ron\<lparr>wri_u := []\<rparr>) raf"
  have "raft_ok ?raf" "con_kept raf ?raf"
    by (rule con_put_ok [OF ok ron]; use con_okD [OF ok ron] in \<open>simp add: con_ok_def\<close>)+
  then have "raft_ok (?raf\<lparr>raf_out := x\<rparr>)" "con_kept raf (?raf\<lparr>raf_out := x\<rparr>)" for x
    using cons_ok_cong [of ?raf "?raf\<lparr>raf_out := x\<rparr>"] by (simp_all add: raft_ok_def con_kept_def)
  then show ?thesis using ok by (simp add: conn_writes_def con_at_ok [OF ron] good_Inr)
qed

lemma conn_work_good:
  assumes ok: "raft_ok raf" and ron: "raf_con raf i = Some ron" "liv ron"
  shows "good A raf (raft_conn_work uvw i raf)"
  using conn_writes_good [OF ok ron(1)] con_okD [OF ok ron(1)] ron(2)
  by (simp add: raft_conn_work_def conn_reads_def con_at_ok [OF ron(1)] con_ok_def)

lemma rbuf_grow_cases:
  "rbuf_grow b bs = Inl e \<Longrightarrow> e = Wild" "rbuf_grow b bs = Inr buf \<Longrightarrow> buf_y buf = rbuf_bytes b @ bs"
  by (auto simp: rbuf_grow_def rbuf_bytes_def Let_def split: if_splits option.splits)

lemma read_good:
  assumes ok: "raft_ok raf" and ron: "raf_con raf i = Some ron" "liv ron"
    and buf: "rbuf_grow (red_u ron) bs = Inr buf"
  shows "good (hostile raf (rbuf_bytes (red_u ron) @ bs)) raf (raft_conn_read_cb uvw i (Some bs) raf)"
proof (cases "bs = []")
  case True
  then show ?thesis using ok by (simp add: raft_conn_read_cb_def good_Inr)
next
  case False
  have bytes: "buf_y buf = rbuf_bytes (red_u ron) @ bs" using buf by (rule rbuf_grow_cases(2))
  let ?A = "hostile raf (buf_y buf)"
  let ?ron = "ron\<lparr>red_u := Some buf, red := False\<rparr>"
  let ?raf = "con_put i ?ron raf"
  have ok': "raft_ok ?raf" "con_kept raf ?raf"
    by (rule con_put_ok [OF ok ron(1)]; use con_okD [OF ok ron(1)] in \<open>simp add: con_ok_def\<close>)+
  have "good ?A ?raf (rbind (work_loop (raft_do_msg i) (buf_y buf) ?raf) (\<lambda>(raf, left, bad).
     rbind (rbind (con_at raf i) (\<lambda>ron. let raf = con_put i (ron\<lparr>red_u := Some (buf\<lparr>buf_y := left\<rparr>)\<rparr>) raf
       in if bad then raft_conn_dead i raf else Inr raf)) (conn_writes uvw i)))"
  proof (rule good_triple)
    have "hostile ?raf = hostile raf" by (rule ext) (rule hostile_later, simp)
    then show "good ?A ?raf (rbind (work_loop (raft_do_msg i) (buf_y buf) ?raf) (\<lambda>(raf, left, bad). Inr raf))"
      using work_loop_good [OF ok'(1), of i "buf_y buf"] by simp
    fix raf1 left bad assume ok1: "raft_ok raf1" and "con_kept ?raf raf1"
    then obtain ron1 where ron1: "raf_con raf1 i = Some ron1" using con_keptD [of ?raf raf1 i ?ron] by auto
    let ?raf1 = "con_put i (ron1\<lparr>red_u := Some (buf\<lparr>buf_y := left\<rparr>)\<rparr>) raf1"
    have ok2: "raft_ok ?raf1" "con_kept raf1 ?raf1"
      by (rule con_put_ok [OF ok1 ron1]; use con_okD [OF ok1 ron1] in \<open>simp add: con_ok_def\<close>)+
    have "good ?A raf1 (rbind (Inr ?raf1) (\<lambda>raf. if bad then raft_conn_dead i raf else Inr raf))"
      by (rule good_rbind) (use ok2 conn_dead_good [OF ok2(1)] in \<open>auto simp: good_Inr\<close>)
    then have "good ?A raf1 (rbind (con_at raf1 i) (\<lambda>ron. let raf = con_put i (ron\<lparr>red_u := Some (buf\<lparr>buf_y := left\<rparr>)\<rparr>) raf1
       in if bad then raft_conn_dead i raf else Inr raf))" by (simp add: con_at_ok [OF ron1] Let_def)
    then show "good ?A raf1 (rbind (rbind (con_at raf1 i) (\<lambda>ron. let raf = con_put i (ron\<lparr>red_u := Some (buf\<lparr>buf_y := left\<rparr>)\<rparr>) raf1
       in if bad then raft_conn_dead i raf else Inr raf)) (conn_writes uvw i))"
      by (rule good_rbind) (use con_keptD [OF _ ron1] conn_writes_good in blast)
  qed
  moreover have "raft_conn_read_cb uvw i (Some bs) raf = rbind (work_loop (raft_do_msg i) (buf_y buf) ?raf) (\<lambda>(raf, left, bad).
     rbind (rbind (con_at raf i) (\<lambda>ron. let raf = con_put i (ron\<lparr>red_u := Some (buf\<lparr>buf_y := left\<rparr>)\<rparr>) raf
       in if bad then raft_conn_dead i raf else Inr raf)) (conn_writes uvw i))"
    using False ron buf
    by (cases "work_loop (raft_do_msg i) (buf_y buf) ?raf")
      (auto simp: raft_conn_read_cb_def con_at_def raft_conn_work_def conn_reads_def con_put_def Let_def)
  ultimately show ?thesis using good_after [OF _ ok'(2)] unfolding bytes by simp
qed

section \<open>Elections\<close>

lemma new_con_ok:
  assumes ok: "raft_ok raf"
    and nam: "nm = None \<and> raf' = raf\<lparr>raf_new := Suc (raf_new raf), raf_con := (raf_con raf)(raf_new raf \<mapsto> ron), raf_run := raf_new raf # raf_run raf\<rparr> \<or>
      (\<exists>k<length (raf_nam raf). nm = Some k \<and> raf' = nam_put k ((raf_nam raf ! k)\<lparr>ron_u := Some (raf_new raf)\<rparr>)
        (raf\<lparr>raf_new := Suc (raf_new raf), raf_con := (raf_con raf)(raf_new raf \<mapsto> ron)\<rparr>))"
    and ron: "nam_u ron = nm" "\<not> red ron" "out_u ron = []" "nm = None \<Longrightarrow> liv ron"
  shows "good A raf (Inr raf')" "raf_con raf' (raf_new raf) = Some ron"
proof -
  let ?i = "raf_new raf"
  have n: "node_ok raf" and c: "cons_ok raf" using ok by (simp_all add: raft_ok_def)
  have fresh: "raf_con raf ?i = None" "?i \<notin> set (raf_run raf)" "?i \<notin> set (raf_shut raf)"
    using c by (fastforce simp: cons_ok_def con_ok_def)+
  have eqs: "raf_con raf' = (raf_con raf)(?i \<mapsto> ron)" "raf_new raf' = Suc ?i" "raf_shut raf' = raf_shut raf"
    "raf_tem raf' = raf_tem raf" "raf_typ raf' = raf_typ raf" "raf_vog raf' = raf_vog raf" "raf_vot raf' = raf_vot raf"
    "raf_pop raf' = raf_pop raf" "raf_str raf' = raf_str raf" "raf_tim raf' = raf_tim raf" "length (raf_nam raf') = length (raf_nam raf)" "raf_sis raf' = raf_sis raf"
    and run: "raf_run raf' = (if nm = None then ?i # raf_run raf else raf_run raf)"
    using nam by auto
  have maps: "map str_c (raf_nam raf') = map str_c (raf_nam raf)" "map vog (raf_nam raf') = map vog (raf_nam raf)"
    using nam by (auto simp: map_update_same)
  have k: "k < length (raf_nam raf)" if "nm = Some k" for k using nam that by auto
  have "node_ok raf'" by (rule node_ok_same [OF n maps]) (simp_all only: eqs)
  moreover have "con_ok raf' j r" if "raf_con raf' j = Some r" for j r
  proof (cases "j = ?i")
    case True
    then show ?thesis using that ron fresh k by (auto simp: con_ok_def eqs run)
  next
    case False
    then show ?thesis using that con_okD [OF ok, of j r] by (simp add: con_ok_def eqs run req_ok_eq [OF eqs(4,5)] less_SucI)
  qed
  moreover have "\<exists>r. raf_con raf' j = Some r \<and> nam_u r = Some l" if l: "l < length (raf_nam raf')" "ron_u (raf_nam raf' ! l) = Some j" for l j
  proof (cases "nm = Some l")
    case True
    then show ?thesis using nam l ron by auto
  next
    case False
    then have "ron_u (raf_nam raf ! l) = Some j" using nam l by (auto simp: nth_list_update split: if_splits)
    then obtain r where "raf_con raf j = Some r" "nam_u r = Some l" using peer_con [OF ok] l(1) eqs(11) by auto
    then show ?thesis using fresh(1) eqs(1) by auto
  qed
  moreover have "distinct (raf_run raf')" "set (raf_run raf') \<subseteq> dom (raf_con raf')" "distinct (raf_shut raf')" "set (raf_shut raf') \<subseteq> dom (raf_con raf')"
    using c fresh unfolding cons_ok_def eqs run by auto
  ultimately have "raft_ok raf'" by (auto simp: raft_ok_def cons_ok_def)
  moreover have "raft_later raf raf'" using maps(1) eqs by (simp add: raft_later_def)
  moreover have "con_kept raf raf'" unfolding con_kept_def eqs using fresh by auto
  ultimately show "good A raf (Inr raf')" by (simp add: good_Inr)
  show "raf_con raf' ?i = Some ron" using eqs(1) by simp
qed

text \<open>
  What the election and the heartbeat send on a connection with a name: neither the role nor the term changes.
\<close>

definition same_role :: "u2_raft \<Rightarrow> u2_raft \<Rightarrow> bool" where
  "same_role raf raf' \<longleftrightarrow> raf_tem raf' = raf_tem raf \<and> raf_typ raf' = raf_typ raf \<and> length (raf_nam raf') = length (raf_nam raf)"

definition quiet :: "u2_raft \<Rightarrow> u2_raft res \<Rightarrow> bool" where
  "quiet raf r \<longleftrightarrow> good False raf r \<and> (\<forall>raf'. r = Inr raf' \<longrightarrow> same_role raf raf')"

lemma quiet_rbind:
  assumes "quiet raf r" "\<And>raf'. r = Inr raf' \<Longrightarrow> raft_ok raf' \<Longrightarrow> con_kept raf raf' \<Longrightarrow> same_role raf raf' \<Longrightarrow> quiet raf' (f raf')"
  shows "quiet raf (rbind r f)"
proof -
  have "good False raf (rbind r f)" by (rule good_rbind) (use assms in \<open>auto simp: quiet_def\<close>)
  moreover have "same_role raf raf''" if "rbind r f = Inr raf''" for raf''
  proof -
    obtain raf' where r: "r = Inr raf'" "f raf' = Inr raf''" using \<open>rbind r f = Inr raf''\<close> by (auto simp: rbind_eq_Inr)
    then have "same_role raf raf'" "quiet raf' (f raf')" using assms by (auto simp: quiet_def good_Inr)
    then show ?thesis using r(2) by (simp add: quiet_def same_role_def)
  qed
  ultimately show ?thesis by (simp add: quiet_def)
qed

definition sends_ok :: "(nat \<Rightarrow> u2_raft \<Rightarrow> u2_raft res) \<Rightarrow> u2_raft \<Rightarrow> bool" where
  "sends_ok con_f raf \<longleftrightarrow>
     (\<forall>i raf' ron. raft_ok raf' \<longrightarrow> same_role raf raf' \<longrightarrow> raf_con raf' i = Some ron \<longrightarrow> nam_u ron \<noteq> None \<longrightarrow> quiet raf' (con_f i raf'))"

lemma send_rest_quiet:
  assumes "raft_ok raf" "raf_con raf i = Some ron" "nam_u ron \<noteq> None" "rmsg_ok m" "req_ok raf m"
  shows "quiet raf (raft_send_rest i m raf)"
  using send_rest_good [OF assms, of False]
  by (auto simp: quiet_def same_role_def raft_send_rest_def raft_rreq_new_def raft_rmsg_send_def rbind_eq_Inr split: if_splits)

lemma send_revo_quiet:
  assumes "raf_typ raf \<noteq> Raty_foll"
  shows "sends_ok raft_send_revo raf"
  unfolding sends_ok_def raft_send_revo_def
proof (intro allI impI send_rest_quiet)
  fix raf' assume ok: "raft_ok raf'" and same: "same_role raf raf'"
  then have n: "node_ok raf'" by (simp add: raft_ok_def)
  show "rmsg_ok (raft_write_revo raf')" by (rule write_revo_ok [OF n])
  show "req_ok raf' (raft_write_revo raf')" using write_revo_ok [OF n] same assms by (auto simp: req_ok_def same_role_def)
qed

lemma send_beat_quiet: "sends_ok raft_send_beat raf"
  unfolding sends_ok_def raft_send_beat_def
proof (intro allI impI send_rest_quiet)
  fix raf' assume "raft_ok raf'"
  then have n: "node_ok raf'" by (simp add: raft_ok_def)
  show "rmsg_ok (raft_write_apen raf' 0 0 0 0 [])" by (rule write_beat_ok [OF n])
  show "req_ok raf' (raft_write_apen raf' 0 0 0 0 [])" using write_beat_ok [OF n] by (auto simp: req_ok_def)
qed

lemma conn_work_quiet: "raft_ok raf \<Longrightarrow> raf_con raf i = Some ron \<Longrightarrow> liv ron \<Longrightarrow> quiet raf (raft_conn_work uvw i raf)"
  using conn_work_good [of raf i ron False uvw] con_okD [of raf i ron]
  by (auto simp: quiet_def same_role_def raft_conn_work_def conn_reads_def conn_writes_def con_at_def con_ok_def split: if_splits)

lemma conn_peer_quiet:
  assumes ok: "raft_ok raf" and f: "sends_ok con_f raf" and k: "k < length (raf_nam raf)"
  shows "quiet raf (conn_peer uvw con_f k raf)"
proof (cases "\<exists>j ron. ron_u (raf_nam raf ! k) = Some j \<and> raf_con raf j = Some ron \<and> liv ron")
  case True
  then obtain j ron where j: "ron_u (raf_nam raf ! k) = Some j" "raf_con raf j = Some ron" "liv ron" by blast
  then have "nam_u ron \<noteq> None" using peer_con [OF ok k] by auto
  then have q: "quiet raf (con_f j raf)" using f ok j(2) by (auto simp: sends_ok_def same_role_def)
  have "quiet raf (rbind (con_f j raf) (\<lambda>raf. rbind (con_at raf j) (\<lambda>ron. if liv ron then raft_conn_work uvw j raf else Inr raf)))"
  proof (rule quiet_rbind [OF q])
    fix raf' assume ok': "raft_ok raf'" and "con_kept raf raf'"
    then obtain ron' where ron': "raf_con raf' j = Some ron'" using con_keptD j(2) by blast
    show "quiet raf' (rbind (con_at raf' j) (\<lambda>ron. if liv ron then raft_conn_work uvw j raf' else Inr raf'))"
      using ok' conn_work_quiet [OF ok' ron'] by (simp add: con_at_ok [OF ron'] quiet_def good_Inr same_role_def)
  qed
  then show ?thesis using j by (simp add: conn_peer_def con_at_ok)
next
  case False
  let ?ron = "\<lparr>nam_u = None, red_u = None, red = False, wri_u = [], out_u = [], liv = False\<rparr>"
  let ?raf = "nam_put k ((raf_nam raf ! k)\<lparr>ron_u := Some (raf_new raf)\<rparr>)
    (raf\<lparr>raf_new := Suc (raf_new raf), raf_con := (raf_con raf)(raf_new raf \<mapsto> ?ron\<lparr>nam_u := Some k\<rparr>)\<rparr>)"
  have new: "good False raf (Inr ?raf)" "raf_con ?raf (raf_new raf) = Some (?ron\<lparr>nam_u := Some k\<rparr>)"
    using new_con_ok [OF ok, of "Some k" ?raf "?ron\<lparr>nam_u := Some k\<rparr>"] k by auto
  have same: "same_role raf ?raf" by (simp add: same_role_def)
  have "quiet raf (rbind (Inr ?raf) (con_f (raf_new raf)))"
  proof (rule quiet_rbind)
    show "quiet raf (Inr ?raf)" using new same by (simp add: quiet_def)
    fix raf' assume "Inr ?raf = Inr raf'" "raft_ok raf'"
    then show "quiet raf' (con_f (raf_new raf) raf')" using f same new(2) unfolding sends_ok_def by fastforce
  qed
  moreover have "conn_peer uvw con_f k raf = rbind (Inr ?raf) (con_f (raf_new raf))"
  proof (cases "ron_u (raf_nam raf ! k)")
    case (Some j)
    then obtain ron where "raf_con raf j = Some ron" using peer_con [OF ok k] by blast
    then show ?thesis using Some False
      by (simp add: conn_peer_def raft_conn_new_def con_at_def con_put_def nam_put_def)
  qed (simp add: conn_peer_def raft_conn_new_def con_at_def con_put_def nam_put_def)
  ultimately show ?thesis by simp
qed

lemma conn_all_quiet:
  assumes "raft_ok raf" "sends_ok con_f raf"
  shows "quiet raf (raft_conn_all uvw con_f raf)"
proof -
  have "\<lbrakk>raft_ok raf'; same_role raf raf'; \<forall>k\<in>set ks. k < length (raf_nam raf)\<rbrakk> \<Longrightarrow> quiet raf' (rfold (conn_peer uvw con_f) ks raf')" for ks raf'
  proof (induction ks arbitrary: raf')
    case Nil
    then show ?case by (simp add: quiet_def good_Inr same_role_def)
  next
    case (Cons k ks)
    have "sends_ok con_f raf'" using assms(2) Cons.prems(2) by (auto simp: sends_ok_def same_role_def)
    then have "quiet raf' (conn_peer uvw con_f k raf')"
      using conn_peer_quiet [OF Cons.prems(1)] Cons.prems(2,3) by (simp add: same_role_def)
    then show ?case unfolding rfold.simps
      by (rule quiet_rbind) (rule Cons.IH, use Cons.prems in \<open>auto simp: same_role_def\<close>)
  qed
  from this [OF assms(1)] show ?thesis by (simp add: raft_conn_all_def same_role_def)
qed

lemma word_less_Suc:
  assumes "w \<noteq> (- 1 :: c3_w)"
  shows "w < w + 1"
proof -
  have "unat w \<noteq> unat (- 1 :: c3_w)" using assms word_unat_eq_iff by blast
  then have "Suc (unat w) < 2 ^ 32" using unat_c3_w [of w] by (simp add: unsigned_minus_1_eq_mask mask_eq_exp_minus_1)
  then show ?thesis by (simp add: word_less_nat_alt unat_Suc)
qed

lemma election_ok:
  assumes ok: "raft_ok raf" and tem: "raf_tem raf \<noteq> - 1" and role: "raf_typ raf \<noteq> Raty_lead" and x: "x = le_put 4 (raf_tem raf + 1)"
    and raf': "raf' = sist_put ''vote'' (raf_str raf) (sist_put ''term'' x (raf\<lparr>raf_tim := Once, raf_typ := Raty_cand, raf_tem := raf_tem raf + 1\<rparr>)
      \<lparr>raf_nam := map (\<lambda>nam. nam\<lparr>vog := False\<rparr>) (raf_nam raf), raf_vot := 1, raf_vog := Some (raf_str raf)\<rparr>)"
  shows "good A raf (Inr raf')" "raf_typ raf' = Raty_cand" "raf_con raf' = raf_con raf"
proof -
  have n: "node_ok raf" and c: "cons_ok raf" using ok by (simp_all add: raft_ok_def)
  have less: "raf_tem raf < raf_tem raf + 1" by (rule word_less_Suc [OF tem])
  have "node_ok raf'" using n unfolding raf' x node_ok_def disk_ok_def by (auto simp: comp_def)
  moreover have "cons_ok raf'"
    by (rule cons_ok_cong [OF c]) (use less in \<open>auto simp: raf' intro: req_ok_later\<close>)
  ultimately show "good A raf (Inr raf')"
    using less by (auto simp: good_Inr raft_ok_def raft_later_def con_kept_def raf' comp_def)
  show "raf_typ raf' = Raty_cand" "raf_con raf' = raf_con raf" by (simp_all add: raf')
qed

lemma time_good:
  assumes ok: "raft_ok raf" and tem: "raf_tem raf \<noteq> - 1"
  shows "good False raf (raft_event uvw Timer raf)"
proof (cases "raf_typ raf = Raty_lead")
  case True
  then have "raf_tim raf = Every" using ok by (simp add: raft_ok_def node_ok_def)
  then show ?thesis using True conn_all_quiet [OF ok send_beat_quiet]
    by (simp add: raft_event_def raft_time_cb_def raft_heartbeat_def quiet_def)
next
  case False
  have n: "raf_tim raf = Once" "raf_typ raf \<noteq> Raty_none" using ok False by (auto simp: raft_ok_def node_ok_def)
  let ?raf = "sist_put ''vote'' (raf_str raf) (sist_put ''term'' (le_put 4 (raf_tem raf + 1)) (raf\<lparr>raf_tim := Once, raf_typ := Raty_cand, raf_tem := raf_tem raf + 1\<rparr>)
      \<lparr>raf_nam := map (\<lambda>nam. nam\<lparr>vog := False\<rparr>) (raf_nam raf), raf_vot := 1, raf_vog := Some (raf_str raf)\<rparr>)"
  note e = election_ok [OF ok tem False refl refl]
  have "good False raf (rbind (Inr ?raf) (raft_conn_all uvw raft_send_revo))"
    by (rule good_rbind [OF e(1)]) (use conn_all_quiet send_revo_quiet e(2) in \<open>auto simp: quiet_def\<close>)
  moreover have "raft_event uvw Timer raf = raft_conn_all uvw raft_send_revo ?raf"
    using n False by (cases "raf_typ raf")
      (auto simp: raft_event_def raft_time_cb_def raft_start_election_def sist_put_def Let_def
        intro!: arg_cong [where f = "raft_conn_all uvw raft_send_revo"] u2_raft.equality)
  ultimately show ?thesis by simp
qed

definition fine :: "bool \<Rightarrow> u2_raft \<Rightarrow> u2_raft res \<Rightarrow> bool" where
  "fine A raf r = (case r of Inl e \<Rightarrow> A | Inr raf' \<Rightarrow> raft_ok raf' \<and> raft_later raf raf')"

lemma good_fine: "good A raf r \<Longrightarrow> A \<longrightarrow> B \<Longrightarrow> fine B raf r"
  by (auto simp: good_def fine_def split: sum.splits)

lemma con_ok_other:
  assumes "con_ok raf j ron" "j \<in> set (raf_run raf') \<longleftrightarrow> j \<in> set (raf_run raf)" "j \<in> set (raf_shut raf') \<longleftrightarrow> j \<in> set (raf_shut raf)"
    "length (raf_nam raf') = length (raf_nam raf)" "raf_new raf' = raf_new raf" "raf_tem raf' = raf_tem raf" "raf_typ raf' = raf_typ raf"
  shows "con_ok raf' j ron"
  using assms(1) unfolding con_ok_def assms(2-5) req_ok_eq [OF assms(6,7)] .

lemma free_fine:
  assumes ok: "raft_ok raf" and ron: "raf_con raf i = Some ron"
  shows "fine A raf (rbind (raft_conn_free i raf) (\<lambda>raf. Inr (raf\<lparr>raf_shut := remove1 i (raf_shut raf)\<rparr>)))"
proof -
  have n: "node_ok raf" and c: "cons_ok raf" using ok by (simp_all add: raft_ok_def)
  have con: "con_ok raf i ron" by (rule con_okD [OF ok ron])
  have peer: "nam_u ron = Some k" if "k < length (raf_nam raf)" "ron_u (raf_nam raf ! k) = Some i" for k
    using peer_con [OF ok that] ron by auto
  let ?nam = "case nam_u ron of None \<Rightarrow> raf_nam raf | Some k \<Rightarrow>
    if ron_u (raf_nam raf ! k) = Some i then (raf_nam raf)[k := (raf_nam raf ! k)\<lparr>ron_u := None\<rparr>] else raf_nam raf"
  let ?raf = "raf\<lparr>raf_nam := ?nam, raf_run := remove1 i (raf_run raf), raf_con := (raf_con raf)(i := None), raf_shut := remove1 i (raf_shut raf)\<rparr>"
  have eq: "rbind (raft_conn_free i raf) (\<lambda>raf. Inr (raf\<lparr>raf_shut := remove1 i (raf_shut raf)\<rparr>)) = Inr ?raf"
    using con peer by (cases "nam_u ron")
      (auto simp: raft_conn_free_def con_at_ok [OF ron] raft_remove_run_def con_ok_def nam_put_def in_set_conv_nth)
  have maps: "map str_c ?nam = map str_c (raf_nam raf)" "map vog ?nam = map vog (raf_nam raf)"
    by (simp_all add: map_update_same split: option.split)
  have len: "length ?nam = length (raf_nam raf)" by (simp split: option.split)
  have "node_ok ?raf" by (rule node_ok_same [OF n]) (use maps in simp_all)
  moreover have "con_ok ?raf j r" if "raf_con ?raf j = Some r" for j r
  proof -
    have "j \<noteq> i" "raf_con raf j = Some r" using that by (simp_all split: if_splits)
    then show ?thesis using len by (intro con_ok_other [OF con_okD [OF ok]]) simp_all
  qed
  moreover have "\<exists>r. raf_con ?raf j = Some r \<and> nam_u r = Some l" if l: "l < length (raf_nam ?raf)" "ron_u (raf_nam ?raf ! l) = Some j" for l j
  proof -
    have "j \<noteq> i" "ron_u (raf_nam raf ! l) = Some j"
      using l peer [of l] len con by (auto simp: con_ok_def nth_list_update split: option.splits if_splits)
    then show ?thesis using peer_con [OF ok, of l j] l(1) len by auto
  qed
  moreover have "distinct (raf_run ?raf)" "set (raf_run ?raf) \<subseteq> dom (raf_con ?raf)" "distinct (raf_shut ?raf)" "set (raf_shut ?raf) \<subseteq> dom (raf_con ?raf)"
    using c unfolding cons_ok_def by (auto dest: notin_set_remove1)
  ultimately have "raft_ok ?raf" by (auto simp: raft_ok_def cons_ok_def)
  moreover have "raft_later raf ?raf" using maps by (simp add: raft_later_def)
  ultimately show ?thesis by (simp add: fine_def eq)
qed

section \<open>Every event keeps the invariant\<close>

definition hostile_event :: "revent \<Rightarrow> u2_raft \<Rightarrow> bool" where
  "hostile_event e raf =
     (case e of
        Read i (Some bs) \<Rightarrow> (case raf_con raf i of None \<Rightarrow> False | Some ron \<Rightarrow>
          2 ^ 32 \<le> length (rbuf_bytes (red_u ron)) + length bs \<or> hostile raf (rbuf_bytes (red_u ron) @ bs))
      | _ \<Rightarrow> False)"

lemma connect_fine:
  assumes ok: "raft_ok raf" and ron: "raf_con raf i = Some ron" "\<not> liv ron" "i \<notin> set (raf_shut raf)"
  shows "fine False raf (raft_connect_cb uvw i b raf)"
proof (cases b)
  case False
  have "con_ok (raf\<lparr>raf_shut := raf_shut raf @ [i]\<rparr>) j r" if "raf_con raf j = Some r" for j r
    using that ron con_okD [OF ok, of j r] by (cases "j = i") (auto simp: con_ok_def)
  then have "cons_ok (raf\<lparr>raf_shut := raf_shut raf @ [i]\<rparr>)" using ok ron by (auto simp: raft_ok_def cons_ok_def)
  then show ?thesis using False ok by (simp add: raft_connect_cb_def con_at_ok [OF ron(1)] fine_def raft_ok_def)
next
  case True
  have con: "con_ok raf i ron" by (rule con_okD [OF ok ron(1)])
  let ?raf = "con_put i (ron\<lparr>liv := True\<rparr>) raf"
  show ?thesis
  proof (cases "nam_u ron")
    case None
    then show ?thesis using con ron by (simp add: con_ok_def)
  next
    case (Some k)
    have "cons_ok raf" using ok by (simp add: raft_ok_def)
    then have "cons_ok ?raf" using con ron unfolding cons_ok_def con_ok_def by (auto 0 4)
    then have ok': "raft_ok ?raf" using ok by (simp add: raft_ok_def)
    have "good False ?raf (raft_conn_work uvw i ?raf)" by (rule conn_work_good [OF ok', where ron = "ron\<lparr>liv := True\<rparr>"]) simp_all
    moreover have "con_kept raf ?raf" using ron by (auto simp: con_kept_def)
    ultimately have "good False raf (raft_conn_work uvw i ?raf)" by (intro good_after [of raf ?raf]) simp_all
    then show ?thesis using True Some by (auto simp: raft_connect_cb_def con_at_ok [OF ron(1)] intro: good_fine)
  qed
qed

lemma listen_fine:
  assumes ok: "raft_ok raf"
  shows "fine A raf (raft_listen_cb b raf)"
proof (cases b)
  case True
  let ?ron = "\<lparr>nam_u = None, red_u = None, red = False, wri_u = [], out_u = [], liv = True\<rparr>"
  let ?raf = "raf\<lparr>raf_new := Suc (raf_new raf), raf_con := (raf_con raf)(raf_new raf \<mapsto> ?ron), raf_run := raf_new raf # raf_run raf\<rparr>"
  have "good A raf (Inr ?raf)" by (rule new_con_ok [OF ok, where nm = None and ron = ?ron]) simp_all
  moreover have "raft_listen_cb b raf = Inr ?raf"
    using True by (simp add: raft_listen_cb_def raft_conn_new_def con_at_def con_put_def)
  ultimately show ?thesis using good_fine by metis
qed (use ok in \<open>simp add: raft_listen_cb_def fine_def\<close>)

lemma lookup_fine:
  assumes ok: "raft_ok raf" and ron: "raf_con raf i = Some ron" "i \<notin> set (raf_shut raf)"
  shows "fine A raf (raft_getaddrinfo_cb i b raf)"
proof (cases b)
  case False
  have "rbind (raft_conn_free i raf) (\<lambda>raf. Inr (raf\<lparr>raf_shut := remove1 i (raf_shut raf)\<rparr>)) = raft_conn_free i raf"
  proof (cases "raft_conn_free i raf")
    case (Inr raf')
    then have "raf_shut raf' = raf_shut raf"
      by (cases "nam_u ron") (auto simp: raft_conn_free_def con_at_ok [OF ron(1)] raft_remove_run_def nam_put_def split: if_splits)
    then show ?thesis using Inr ron(2) by (simp add: remove1_idem)
  qed simp
  then show ?thesis using False free_fine [OF ok ron(1), of A] by (simp add: raft_getaddrinfo_cb_def)
qed (use ok in \<open>simp add: raft_getaddrinfo_cb_def fine_def\<close>)

text \<open>
  The work on one event: an error is possible only when what was read of the peer is more than the buffer can hold, ends in
  the middle of what should be there, or has a request that \<open>bad_request\<close> tells.
\<close>

lemma event_fine:
  assumes ok: "raft_ok raf" and e: "raft_enabled e raf" "e = Timer \<Longrightarrow> raf_tem raf \<noteq> - 1"
  shows "fine (hostile_event e raf) raf (raft_event uvw e raf)"
proof (cases e)
  case Timer
  then show ?thesis using good_fine [OF time_good [OF ok]] e(2) by simp
next
  case (Read i bs)
  then obtain ron where ron: "raf_con raf i = Some ron" "liv ron" using e by (auto simp: raft_enabled_def split: option.splits)
  show ?thesis
  proof (cases bs)
    case None
    then show ?thesis using Read good_fine [OF conn_dead_good [OF ok ron(1), of False]] by (simp add: raft_event_def raft_conn_read_cb_def)
  next
    case (Some b)
    show ?thesis
    proof (cases "rbuf_grow (red_u ron) b")
      case (Inr buf)
      show ?thesis using Read Some ron(1)
        by (auto simp: raft_event_def hostile_event_def intro!: good_fine [OF read_good [OF ok ron Inr]])
    next
      case (Inl x)
      then have "hostile_event e raf"
        using Read Some ron rbuf_grow_ok [of "red_u ron" b] by (auto simp: hostile_event_def not_le [symmetric])
      then show ?thesis using Read Some Inl ok ron
        by (simp add: raft_event_def raft_conn_read_cb_def con_at_ok fine_def)
    qed
  qed
next
  case (Wrote i b)
  then obtain ron where ron: "raf_con raf i = Some ron" using e by (auto simp: raft_enabled_def)
  then show ?thesis using Wrote ok good_fine [OF conn_dead_good [OF ok ron, of False]] by (simp add: raft_event_def raft_write_cb_def fine_def [of _ _ "Inr x" for x])
next
  case (Connect i b)
  then show ?thesis using e connect_fine [OF ok, of i] by (auto simp: raft_enabled_def pending_def raft_event_def hostile_event_def split: option.splits)
next
  case (Lookup i b)
  then show ?thesis using e lookup_fine [OF ok, of i] by (auto simp: raft_enabled_def pending_def raft_event_def split: option.splits)
next
  case (Close i)
  then obtain ron where "raf_con raf i = Some ron" using e ok by (auto simp: raft_enabled_def raft_ok_def cons_ok_def)
  then show ?thesis using Close free_fine [OF ok] by (simp add: raft_event_def)
qed (use listen_fine [OF ok] in \<open>simp add: raft_event_def\<close>)

end
