(* ===== verification/Raft_Init.thy ===== *)
theory Raft_Init
  imports Raft_Inv
begin

text \<open>
  How a node starts, \<^verbatim>\<open>v/raft.c\<close>: the list of peers of the command line, \<^verbatim>\<open>u2_raft_readopt\<close>, and \<^verbatim>\<open>u2_raft_init\<close>. A pointer to the first
  peer of a list is the list; an argument is shorter than $2^{32}$ bytes, as the kernel makes it. \<^verbatim>\<open>strtoul\<close> is the one of the
  C library, in base ten, with an \<^verbatim>\<open>unsigned long\<close> of 64 bits. That the listener could be bound is an argument, \<open>bound\<close>;
  where \<^verbatim>\<open>u2_lo_bail\<close> ends the process the result is \<open>None\<close>.
\<close>

section \<open>Peers of the command line\<close>

type_synonym c3_s = "16 word"

definition isspace :: "c3_y \<Rightarrow> bool" where
  "isspace c \<longleftrightarrow> c = 32 \<or> 9 \<le> c \<and> c \<le> 13"

definition isdigit :: "c3_y \<Rightarrow> bool" where
  "isdigit c \<longleftrightarrow> 48 \<le> c \<and> c \<le> 57"

definition strtoul :: "c3_y list \<Rightarrow> c3_d \<times> c3_y list" where
  "strtoul s =
     (let t = dropWhile isspace s;
          neg = (t \<noteq> [] \<and> hd t = 45);
          u = (if t \<noteq> [] \<and> (hd t = 45 \<or> hd t = 43) then tl t else t);
          ds = takeWhile isdigit u;
          n = fold (\<lambda>d n. 10 * n + (unat d - 48)) ds 0
      in if ds = [] then (0, s)
         else (if 2 ^ 64 \<le> n then - 1 else if neg then - of_nat n else of_nat n, dropWhile isdigit u))"

text \<open>The peers are zeroed when they are made, which is \<^verbatim>\<open>u2_yes\<close> for \<^verbatim>\<open>vog\<close>.\<close>

definition raft_readname :: "c3_y list \<Rightarrow> (u2_rnam \<times> c3_y list \<times> c3_y list) option" where
  "raft_readname str =
     (if 58 \<notin> set str then None
      else Some (\<lparr>str_c = str, ron_u = None, vog = True\<rparr>, takeWhile (\<lambda>c. c \<noteq> 58) str, tl (dropWhile (\<lambda>c. c \<noteq> 58) str)))"

definition raft_rnam_free :: "u2_rnam list \<Rightarrow> unit res" where
  "raft_rnam_free nam =
     (case nam of [] \<Rightarrow> Inr () | n # nex \<Rightarrow> if ron_u n \<noteq> None \<or> nex \<noteq> [] then Inl Abort else Inr ())"

lemma length_dropWhile_tl: "x \<in> set xs \<Longrightarrow> \<not> P x \<Longrightarrow> length (tl (dropWhile P xs)) < length xs"
  by (induction xs) auto

function u2_raft_readopt :: "c3_y list \<Rightarrow> c3_y list \<Rightarrow> c3_s \<Rightarrow> u2_rnam list res" where
  "u2_raft_readopt arg our oup =
     rbind (if 44 \<notin> set arg then Inr [] else u2_raft_readopt (tl (dropWhile (\<lambda>c. c \<noteq> 44) arg)) our oup) (\<lambda>nex.
       case raft_readname (takeWhile (\<lambda>c. c \<noteq> 44) arg) of
         None \<Rightarrow> rbind (raft_rnam_free nex) (\<lambda>_. Inr [])
       | Some (nam, hos, por_c) \<Rightarrow>
           let (v, end_c) = strtoul por_c; por_w = ucast v :: c3_w
           in if por_c = [] \<or> end_c \<noteq> [] \<or> 65536 \<le> por_w then rbind (raft_rnam_free nex) (\<lambda>_. Inr [])
              else if ucast oup = por_w \<and> our = hos then Inr nex
              else Inr (nam # nex))"
  by pat_completeness auto

termination
  by (relation "measure (\<lambda>(arg, our, oup). length arg)") (simp_all only: wf_measure in_measure split length_dropWhile_tl not_not)

declare u2_raft_readopt.simps [simp del]

section \<open>Starting\<close>

fun decimal :: "nat \<Rightarrow> c3_y list" where
  "decimal n = (if n < 10 then [of_nat (48 + n)] else decimal (n div 10) @ [of_nat (48 + n mod 10)])"

declare decimal.simps [simp del]

definition raft_name :: "c3_y list \<Rightarrow> c3_s \<Rightarrow> c3_y list" where
  "raft_name our oup = our @ [58] @ decimal (unat oup)"

definition raft_zero :: "(string \<rightharpoonup> c3_y list) \<Rightarrow> u2_raft" where
  "raft_zero sis =
     \<lparr>raf_typ = Raty_none, raf_tem = 0, raf_vog = None, raf_vot = 0, raf_pop = 0, raf_str = [], raf_ent = 0, raf_lat = 0,
      raf_nam = [], raf_run = [], raf_con = Map.empty, raf_new = 0, raf_tim = Idle, raf_sis = sis, raf_out = [], raf_shut = [],
      raf_boot = False\<rparr>"

text \<open>The vote is read into a block of its own size and then used as a string, so it has to have its end in it.\<close>

definition sist_vote :: "u2_raft \<Rightarrow> c3_y list option res" where
  "sist_vote raf =
     (case raf_sis raf ''vote'' of
        None \<Rightarrow> Inr None
      | Some b \<Rightarrow> if b = [] then Inl Abort else if 0 \<notin> set b then Inl Wild else Inr (Some (takeWhile (\<lambda>c. c \<noteq> 0) b)))"

definition sist_term :: "u2_raft \<Rightarrow> c3_w res" where
  "sist_term raf =
     (case raf_sis raf ''term'' of None \<Rightarrow> Inr 0 | Some b \<Rightarrow> if length b \<noteq> 4 then Inl Abort else Inr (le_get b))"

definition raft_foll_init :: "bool \<Rightarrow> c3_y list \<Rightarrow> c3_y list \<Rightarrow> c3_s \<Rightarrow> u2_raft \<Rightarrow> u2_raft option res" where
  "raft_foll_init bound arg our oup raf =
     rbind (u2_raft_readopt arg our oup) (\<lambda>nam.
       if nam = [] then Inr None
       else
         let raf = raf\<lparr>raf_typ := Raty_foll, raf_nam := nam, raf_pop := of_nat (Suc (length nam)), raf_str := raft_name our oup\<rparr>
         in if length our + 7 \<le> length (raf_str raf) then Inl Abort
            else
              rbind (sist_term raf) (\<lambda>tem.
              rbind (sist_vote raf) (\<lambda>vog.
                let raf = raf\<lparr>raf_tem := tem\<rparr>;
                    raf = (case vog of
                             None \<Rightarrow> raf
                           | Some v \<Rightarrow>
                               if v = raf_str raf then raf\<lparr>raf_vog := Some v, raf_vot := 1, raf_typ := Raty_cand\<rparr>
                               else if find_nam v nam \<noteq> None then raf\<lparr>raf_vog := Some v\<rparr>
                               else raf)
                in if bound then Inr (Some (raf\<lparr>raf_tim := Once\<rparr>)) else Inl Abort)))"

definition raft_lone_init :: "u2_raft \<Rightarrow> u2_raft res" where
  "raft_lone_init raf = raft_promote (raf\<lparr>raf_pop := 1\<rparr>)"

definition u2_raft_init :: "bool \<Rightarrow> c3_y list option \<Rightarrow> c3_y list \<Rightarrow> c3_s \<Rightarrow> (string \<rightharpoonup> c3_y list) \<Rightarrow> u2_raft option res" where
  "u2_raft_init bound arg our oup sis =
     (case arg of
        None \<Rightarrow> rbind (raft_lone_init (raft_zero sis)) (\<lambda>raf. Inr (Some raf))
      | Some arg \<Rightarrow> raft_foll_init bound arg our oup (raft_zero sis))"

section \<open>Reading numbers\<close>

lemma digit_word:
  assumes "n < 10"
  shows "isdigit (of_nat (48 + n))" "unat (of_nat (48 + n) :: c3_y) = 48 + n"
proof -
  show u: "unat (of_nat (48 + n) :: c3_y) = 48 + n" by (rule of_nat_inverse [OF refl]) (use assms in simp)
  show "isdigit (of_nat (48 + n))" unfolding isdigit_def word_le_nat_alt u using assms by simp
qed

lemma decimal_props: "decimal n \<noteq> [] \<and> (\<forall>d\<in>set (decimal n). isdigit d) \<and> fold (\<lambda>d n. 10 * n + (unat d - 48)) (decimal n) 0 = n"
proof (induction n rule: decimal.induct)
  case (1 n)
  then show ?case using digit_word [of n] digit_word [of "n mod 10"] by (subst (1 2 3) decimal.simps) auto
qed

lemma length_decimal: "n < 10 ^ Suc k \<Longrightarrow> length (decimal n) \<le> Suc k"
proof (induction k arbitrary: n)
  case (Suc k)
  then have "n div 10 < 10 ^ Suc k" by (simp add: less_mult_imp_div_less)
  then show ?case using Suc.IH [of "n div 10"] by (subst decimal.simps) auto
qed (simp add: decimal.simps)

lemma digit_not: "isdigit d \<Longrightarrow> \<not> isspace d \<and> d \<noteq> 45 \<and> d \<noteq> 43 \<and> d \<noteq> 44 \<and> d \<noteq> 58 \<and> d \<noteq> 0"
  by (auto simp: isdigit_def isspace_def word_le_nat_alt)

lemma strtoul_decimal:
  assumes "n < 2 ^ 64"
  shows "strtoul (decimal n) = (of_nat n, [])"
proof -
  have d: "\<forall>d\<in>set (decimal n). isdigit d" "fold (\<lambda>d n. 10 * n + (unat d - 48)) (decimal n) 0 = n" and ne: "decimal n \<noteq> []"
    using decimal_props by blast+
  have "isdigit (hd (decimal n))" using d ne by simp
  then have "dropWhile isspace (decimal n) = decimal n" "hd (decimal n) \<noteq> 45" "hd (decimal n) \<noteq> 43"
    using digit_not ne by (auto simp: dropWhile_eq_self_iff)
  moreover have ds: "takeWhile isdigit (decimal n) = decimal n" "dropWhile isdigit (decimal n) = []"
    using d(1) by (simp_all add: takeWhile_eq_all_conv dropWhile_eq_Nil_conv)
  ultimately show ?thesis using assms ne d(2) by (simp add: strtoul_def Let_def ds)
qed

section \<open>Names of peers\<close>

definition peer_str :: "c3_y list \<times> nat \<Rightarrow> c3_y list" where
  "peer_str p = fst p @ [58] @ decimal (snd p)"

primrec peers_arg :: "(c3_y list \<times> nat) list \<Rightarrow> c3_y list" where
  "peers_arg [] = []"
| "peers_arg (p # ps) = peer_str p @ (if ps = [] then [] else 44 # peers_arg ps)"

definition peer_ok :: "c3_y list \<times> nat \<Rightarrow> bool" where
  "peer_ok p \<longleftrightarrow> 58 \<notin> set (fst p) \<and> 44 \<notin> set (fst p) \<and> snd p < 65536"

lemma takeWhile_upto: "x \<notin> set xs \<Longrightarrow> takeWhile (\<lambda>c. c \<noteq> x) (xs @ x # ys) = xs" "x \<notin> set xs \<Longrightarrow> dropWhile (\<lambda>c. c \<noteq> x) (xs @ x # ys) = x # ys"
  by (induction xs) auto

lemma readname_peer:
  assumes "58 \<notin> set our"
  shows "raft_readname (our @ [58] @ decimal n) = Some (\<lparr>str_c = our @ [58] @ decimal n, ron_u = None, vog = True\<rparr>, our, decimal n)"
  using takeWhile_upto [OF assms, of "decimal n"] by (simp add: raft_readname_def)

lemma decimal_no: "44 \<notin> set (decimal n)" "0 \<notin> set (decimal n)"
  using decimal_props [of n] digit_not by blast+

lemma port_eq: "n < 65536 \<Longrightarrow> (ucast (oup :: c3_s) = (ucast (of_nat n :: c3_d) :: c3_w)) = (n = unat oup)"
  "n < 65536 \<Longrightarrow> \<not> (65536 :: c3_w) \<le> ucast (of_nat n :: c3_d)"
proof -
  assume n: "n < 65536"
  have u: "unat (ucast (of_nat n :: c3_d) :: c3_w) = n" using n by (simp add: unsigned_ucast_eq unat_of_nat take_bit_nat_eq_self)
  then show "\<not> (65536 :: c3_w) \<le> ucast (of_nat n :: c3_d)" using n by (simp add: word_le_nat_alt)
  have "unat oup < 65536" using unsigned_less [of oup] by simp
  then have "unat (ucast oup :: c3_w) = unat oup" by (simp add: unsigned_ucast_eq take_bit_nat_eq_self)
  then show "(ucast oup = (ucast (of_nat n :: c3_d) :: c3_w)) = (n = unat oup)" using u by (metis word_unat_eq_iff)
qed

text \<open>
  What \<^verbatim>\<open>u2_raft_readopt\<close> reads of a list of peers, each written as its name, a colon and its port in decimal, with commas
  between them, is these peers in order, without the node itself.
\<close>

theorem readopt_peers:
  assumes "ps \<noteq> []" "\<forall>p\<in>set ps. peer_ok p"
  shows "u2_raft_readopt (peers_arg ps) our oup =
    Inr (map (\<lambda>p. \<lparr>str_c = peer_str p, ron_u = None, vog = True\<rparr>) (filter (\<lambda>p. p \<noteq> (our, unat oup)) ps))"
  using assms
proof (induction ps)
  case (Cons p ps)
  obtain nm n where p: "p = (nm, n)" by (cases p)
  have ok: "58 \<notin> set nm" "44 \<notin> set nm" "n < 65536" using Cons.prems p by (simp_all add: peer_ok_def)
  then have no: "44 \<notin> set (peer_str p)" by (simp add: p peer_str_def decimal_no)
  have hd: "takeWhile (\<lambda>c. c \<noteq> 44) (peers_arg (p # ps)) = peer_str p"
    using takeWhile_upto [OF no] no by (auto simp: takeWhile_eq_all_conv)
  have tl: "(if 44 \<notin> set (peers_arg (p # ps)) then Inr [] else u2_raft_readopt (tl (dropWhile (\<lambda>c. c \<noteq> 44) (peers_arg (p # ps)))) our oup) =
      Inr (map (\<lambda>p. \<lparr>str_c = peer_str p, ron_u = None, vog = True\<rparr>) (filter (\<lambda>p. p \<noteq> (our, unat oup)) ps))"
    using takeWhile_upto(2) [OF no] no Cons by auto
  show ?case
    using strtoul_decimal [of n] readname_peer [OF ok(1), of n] decimal_props [of n] ok(3)
    by (subst u2_raft_readopt.simps, unfold hd tl) (auto simp: p peer_str_def port_eq)
qed simp

theorem readopt_peers_witness:
  "u2_raft_readopt (peers_arg [([97], 80), ([98], 81)]) [97] 80 = Inr [\<lparr>str_c = peer_str ([98], 81), ron_u = None, vog = True\<rparr>]"
  using readopt_peers [of "[([97], 80), ([98], 81)]" "[97]" 80] by (simp add: peer_ok_def)

text \<open>
  A part without a colon, or without a port, in front of two or more good peers makes \<^verbatim>\<open>u2_raft_readopt\<close> fail an assertion, since
  \<^verbatim>\<open>_raft_rnam_free\<close> is not made for a list. In front of one good peer, or alone, it makes the list empty; behind a good peer
  it is passed over.
\<close>

theorem readopt_bad_part:
  assumes "44 \<notin> set bad" "58 \<notin> set bad" "u2_raft_readopt rest our oup = Inr nex" "peer_ok p" "p \<noteq> (our, unat oup)"
  shows "u2_raft_readopt (bad @ 44 # rest) our oup = (case nex of _ # _ # _ \<Rightarrow> Inl Abort | [n] \<Rightarrow> if ron_u n = None then Inr [] else Inl Abort | [] \<Rightarrow> Inr []) \<and>
    u2_raft_readopt (peer_str p @ 44 # bad) our oup = Inr [\<lparr>str_c = peer_str p, ron_u = None, vog = True\<rparr>]"
proof (rule conjI)
  have none: "raft_readname bad = None" using assms(2) by (simp add: raft_readname_def)
  show "u2_raft_readopt (bad @ 44 # rest) our oup = (case nex of _ # _ # _ \<Rightarrow> Inl Abort | [n] \<Rightarrow> if ron_u n = None then Inr [] else Inl Abort | [] \<Rightarrow> Inr [])"
    using takeWhile_upto [OF assms(1), of rest] none assms(3)
    by (subst u2_raft_readopt.simps) (simp add: raft_rnam_free_def split: list.split)
  obtain nm n where p: "p = (nm, n)" by (cases p)
  have no: "44 \<notin> set (peer_str p)" using assms(4) by (simp add: p peer_str_def decimal_no peer_ok_def)
  have "u2_raft_readopt bad our oup = Inr []"
    using none assms(1) by (subst u2_raft_readopt.simps, subst takeWhile_eq_all_conv [THEN iffD2]) (auto simp: raft_rnam_free_def)
  then show "u2_raft_readopt (peer_str p @ 44 # bad) our oup = Inr [\<lparr>str_c = peer_str p, ron_u = None, vog = True\<rparr>]"
    using takeWhile_upto [OF no, of bad] strtoul_decimal [of n] readname_peer [of nm n] decimal_props [of n] assms(4,5)
    by (subst u2_raft_readopt.simps) (auto simp: p peer_str_def peer_ok_def port_eq)
qed

theorem readopt_bad_part_witness:
  "u2_raft_readopt ([120] @ 44 # peers_arg [([97], 80), ([98], 81)]) [99] 80 = Inl Abort"
proof -
  have "u2_raft_readopt (peers_arg [([97], 80), ([98], 81)]) [99] 80 =
    Inr [\<lparr>str_c = peer_str ([97], 80), ron_u = None, vog = True\<rparr>, \<lparr>str_c = peer_str ([98], 81), ron_u = None, vog = True\<rparr>]"
    by (simp add: u2_raft_readopt.simps raft_readname_def peer_str_def decimal.simps strtoul_def isspace_def isdigit_def Let_def)
  then show ?thesis using readopt_bad_part [of "[120]" _ "[99]" 80, where p = "([97], 80)"] by (simp add: peer_ok_def)
qed

section \<open>A node that starts\<close>

lemma length_port: "length (decimal (unat (oup :: c3_s))) \<le> 5"
proof -
  have "unat oup < 65536" using unsigned_less [of oup] by simp
  then show ?thesis using length_decimal [of "unat oup" 4] by simp
qed

lemma readopt_fresh:
  "u2_raft_readopt arg our oup = Inr nam \<Longrightarrow> n \<in> set nam \<Longrightarrow> 58 \<notin> set our \<Longrightarrow> str_c n \<noteq> raft_name our oup \<and> ron_u n = None"
proof (induction arg our oup arbitrary: nam rule: u2_raft_readopt.induct)
  case (1 arg our oup)
  let ?part = "takeWhile (\<lambda>c. c \<noteq> 44) arg"
  obtain nex where nex: "(if 44 \<notin> set arg then Inr [] else u2_raft_readopt (tl (dropWhile (\<lambda>c. c \<noteq> 44) arg)) our oup) = Inr nex"
    and nam: "(case raft_readname ?part of None \<Rightarrow> rbind (raft_rnam_free nex) (\<lambda>_. Inr [])
       | Some (nam, hos, por_c) \<Rightarrow> let (v, end_c) = strtoul por_c; por_w = ucast v :: c3_w
           in if por_c = [] \<or> end_c \<noteq> [] \<or> 65536 \<le> por_w then rbind (raft_rnam_free nex) (\<lambda>_. Inr [])
              else if ucast oup = por_w \<and> our = hos then Inr nex else Inr (nam # nex)) = Inr nam"
    using "1.prems"(1) by (subst (asm) u2_raft_readopt.simps) (auto simp: rbind_eq_Inr)
  have tail: ?case if "n \<in> set nex"
    using nex that "1.IH" [of nex] "1.prems"(3) by (auto split: if_splits)
  have "unat oup < 65536" using unsigned_less [of oup] by simp
  then have own: "raft_readname ?part = Some (m, h, q) \<Longrightarrow> ?part = raft_name our oup \<Longrightarrow> h = our \<and> strtoul q = (of_nat (unat oup), [])" for m h q
    using readname_peer [OF "1.prems"(3), of "unat oup"] strtoul_decimal [of "unat oup"] by (auto simp: raft_name_def)
  show ?case
  proof (cases "raft_readname ?part")
    case None
    then show ?thesis using nam "1.prems"(2) by (auto simp: rbind_eq_Inr)
  next
    case (Some x)
    obtain m h q where x: "x = (m, h, q)" by (cases x)
    have m: "str_c m = ?part" "ron_u m = None" using Some x by (auto simp: raft_readname_def split: if_splits)
    show ?thesis
    proof (cases "n \<in> set nex")
      case False
      then have "n = m" "\<not> (ucast oup = (ucast (fst (strtoul q)) :: c3_w) \<and> our = h)"
        using nam Some x "1.prems"(2) by (auto simp: Let_def rbind_eq_Inr split: prod.splits if_splits)
      moreover have "(ucast (word_of_nat (unat oup) :: c3_d) :: c3_w) = ucast oup"
        using port_eq(1) [OF \<open>unat oup < 65536\<close>, of oup] by simp
      ultimately show ?thesis using m own [of m h q] Some x by auto
    qed (rule tail)
  qed
qed

text \<open>
  C18: a node whose disk has no vote starts as a follower that satisfies the invariant of \<open>Raft_Inv\<close>: its term is the one on the
  disk, its peers are those of the command line, none of them has its own name, and its timer is set.
\<close>

theorem raft_starts:
  assumes nam: "u2_raft_readopt arg our oup = Inr nam" "nam \<noteq> []" "Suc (length nam) < 2 ^ 32"
    and our: "58 \<notin> set our" "0 \<notin> set our" "length our + 7 < 2 ^ 30"
    and sis: "sis ''vote'' = None" "sis ''term'' = map_option (le_put 4) tem"
  shows "\<exists>raf. u2_raft_init True (Some arg) our oup sis = Inr (Some raf) \<and> raft_ok raf \<and> raf_typ raf = Raty_foll \<and>
    raf_tem raf = (case tem of None \<Rightarrow> 0 | Some t \<Rightarrow> t) \<and> raf_nam raf = nam \<and> raf_vog raf = None \<and> raf_tim raf = Once"
proof -
  let ?raf = "(raft_zero sis)\<lparr>raf_typ := Raty_foll, raf_nam := nam, raf_pop := of_nat (Suc (length nam)), raf_str := raft_name our oup,
    raf_tem := (case tem of None \<Rightarrow> 0 | Some t \<Rightarrow> t), raf_tim := Once\<rparr>"
  have len: "length (decimal (unat oup)) \<le> 5" by (rule length_port)
  have "sist_term raf = Inr (case tem of None \<Rightarrow> 0 | Some t \<Rightarrow> t)" if "raf_sis raf = sis" for raf
    using sis(2) that by (cases tem) (simp_all add: sist_term_def)
  moreover have "sist_vote raf = Inr None" if "raf_sis raf = sis" for raf
    using sis(1) that by (simp add: sist_vote_def)
  ultimately have "u2_raft_init True (Some arg) our oup sis = Inr (Some ?raf)"
    using nam len by (simp add: u2_raft_init_def raft_foll_init_def raft_name_def raft_zero_def)
  moreover have fresh: "str_c n \<noteq> raft_name our oup" "ron_u n = None" if "n \<in> set nam" for n
    using readopt_fresh [OF nam(1) that our(1)] by auto
  then have "raft_name our oup \<notin> set (map str_c nam)" by fastforce
  then have "node_ok ?raf" using nam our len decimal_no(2) sis(2)
    by (cases tem) (auto simp: node_ok_def disk_ok_def raft_zero_def raft_name_def)
  moreover have "cons_ok ?raf" using fresh(2) by (auto simp: cons_ok_def raft_zero_def)
  ultimately show ?thesis by (auto simp: raft_ok_def raft_zero_def)
qed

theorem raft_starts_witness:
  "\<exists>raf. u2_raft_init True (Some [98, 58, 56]) [97] 7 [''term'' \<mapsto> le_put 4 (5 :: c3_w)] = Inr (Some raf) \<and> raft_ok raf \<and> raf_tem raf = 5"
proof -
  have "u2_raft_readopt [98, 58, 56] [97] 7 = Inr [\<lparr>str_c = [98, 58, 56], ron_u = None, vog = True\<rparr>]"
    by (simp add: u2_raft_readopt.simps raft_readname_def strtoul_def isspace_def isdigit_def Let_def)
  then show ?thesis using raft_starts [of "[98, 58, 56]" "[97]" 7 _ "[''term'' \<mapsto> le_put 4 (5 :: c3_w)]" "Some 5"] by auto
qed

text \<open>
  A node that has voted cannot start again. Whatever it did, its vote is on the disk without an end, and
  \<^verbatim>\<open>_raft_foll_init\<close> reads it as a string.
\<close>

theorem restart_after_vote:
  assumes "raft_ok raf" "raf_vog raf = Some v" "v \<noteq> []" "0 \<notin> set v"
    and "u2_raft_readopt arg our oup = Inr nam" "nam \<noteq> []"
  shows "raft_foll_init bound arg our oup (raft_zero (raf_sis raf)) = Inl Wild"
proof -
  have disk: "disk_ok raf" using assms(1) by (simp add: raft_ok_def node_ok_def)
  then have "raf_sis raf ''vote'' = Some v" using assms(2) by (simp add: disk_ok_def)
  then have "sist_vote r = Inl Wild" if "raf_sis r = raf_sis raf" for r using that assms(3,4) by (simp add: sist_vote_def)
  moreover have "\<exists>t. sist_term r = Inr t" if "raf_sis r = raf_sis raf" for r
    using that disk by (cases "raf_sis raf ''term''") (auto simp: sist_term_def disk_ok_def)
  moreover have "length (decimal (unat oup)) \<le> 5" by (rule length_port)
  ultimately show ?thesis using assms(5,6) by (auto simp: raft_foll_init_def raft_zero_def raft_name_def rbind_eq_Inl)
qed

theorem restart_after_vote_witness:
  "raft_foll_init True [98, 58, 56] [97] 7
     (raft_zero (raf_sis ((raft_zero [''vote'' \<mapsto> raft_name [97] 7, ''term'' \<mapsto> le_put 4 (1 :: c3_w)])\<lparr>raf_typ := Raty_cand,
       raf_tem := 1, raf_vog := Some (raft_name [97] 7), raf_vot := 1, raf_pop := 2, raf_str := raft_name [97] 7,
       raf_nam := [\<lparr>str_c = [98, 58, 56], ron_u = None, vog = False\<rparr>], raf_tim := Once\<rparr>))) = Inl Wild"
proof -
  let ?raf = "(raft_zero [''vote'' \<mapsto> raft_name [97] 7, ''term'' \<mapsto> le_put 4 (1 :: c3_w)])\<lparr>raf_typ := Raty_cand,
     raf_tem := 1, raf_vog := Some (raft_name [97] 7), raf_vot := 1, raf_pop := 2, raf_str := raft_name [97] 7,
     raf_nam := [\<lparr>str_c = [98, 58, 56], ron_u = None, vog = False\<rparr>], raf_tim := Once\<rparr>"
  have opt: "u2_raft_readopt [98, 58, 56] [97] 7 = Inr [\<lparr>str_c = [98, 58, 56], ron_u = None, vog = True\<rparr>]"
    by (simp add: u2_raft_readopt.simps raft_readname_def strtoul_def isspace_def isdigit_def Let_def)
  have nam: "raft_name [97] 7 = [97, 58, 55]" by (simp add: raft_name_def decimal.simps)
  have "raft_ok ?raf"
    by (auto simp: raft_ok_def node_ok_def cons_ok_def disk_ok_def raft_zero_def nam)
  then show ?thesis using restart_after_vote [of ?raf "[97, 58, 55]" "[98, 58, 56]" "[97]" 7, OF _ _ _ _ opt] by (simp add: nam)
qed

end
