(* ===== verification/Raft_Run.thy ===== *)
theory Raft_Run
  imports Raft_Init
begin

text \<open>
  Runs of a node: the events that libuv makes, one after the other. Shown: the invariant holds along every run and each term has
  at most one vote; a leader was voted for by more than half of the nodes; what can go wrong, and what an election needs to
  come to its end.
\<close>

section \<open>Runs\<close>

inductive raft_run :: "u2_raft \<Rightarrow> revent list \<Rightarrow> u2_raft \<Rightarrow> bool" for raf where
  run_nil: "raft_run raf [] raf"
| run_event: "raft_run raf es raf' \<Longrightarrow> raft_enabled e raf' \<Longrightarrow> e = Timer \<longrightarrow> raf_tem raf' \<noteq> - 1 \<Longrightarrow> raft_event uvw e raf' = Inr raf'' \<Longrightarrow>
    raft_run raf (es @ [e]) raf''"

inductive_cases run_snocE: "raft_run raf (es @ [e]) raf'"

lemma run_kept: "raft_run raf es raf' \<Longrightarrow> raft_ok raf \<Longrightarrow> raft_ok raf' \<and> raft_later raf raf'"
proof (induction rule: raft_run.induct)
  case (run_event es raf' e uvw raf'')
  then have "fine (hostile_event e raf') raf' (raft_event uvw e raf')" using event_fine by blast
  then show ?case using run_event raft_later_trans by (auto simp: fine_def)
qed simp

text \<open>
  C14: every callback keeps the invariant of a node: its roles, votes, peers, connections and outstanding requests fit together,
  and the disk has its term and its vote. The term does not go back, and the vote of a term and the lead in it stay. There is
  an error only for an input of a peer that \<open>hostile_event\<close> tells.
\<close>

theorem raft_event_safe:
  assumes "raft_ok raf" "raft_enabled e raf" "e = Timer \<longrightarrow> raf_tem raf \<noteq> - 1"
  shows "case raft_event uvw e raf of Inl _ \<Rightarrow> hostile_event e raf | Inr raf' \<Rightarrow> raft_ok raf' \<and> raft_later raf raf'"
  using event_fine [OF assms(1,2)] assms(3) by (simp add: fine_def)

definition node_a :: u2_raft where
  "node_a = (raft_zero Map.empty)\<lparr>raf_typ := Raty_foll, raf_pop := 3, raf_str := [97],
     raf_nam := [\<lparr>str_c = [98], ron_u = None, vog = True\<rparr>, \<lparr>str_c = [99], ron_u = None, vog = True\<rparr>], raf_tim := Once\<rparr>"

lemma node_a_ok: "raft_ok node_a"
  by (auto simp: node_a_def raft_ok_def node_ok_def cons_ok_def disk_ok_def raft_zero_def less_Suc_eq)

theorem raft_event_safe_witness:
  "\<exists>raf'. raft_event (\<lambda>_. True) Timer node_a = Inr raf' \<and> raft_ok raf'"
  using raft_event_safe [of node_a Timer "\<lambda>_. True"] node_a_ok
  by (auto simp: raft_enabled_def node_a_def raft_zero_def hostile_event_def split: sum.splits)

text \<open>
  Along a run a node votes at most once in a term: between two moments with the same term, a vote that was given stays.
  Its name and those of its peers stay too.
\<close>

theorem one_vote_per_term:
  assumes "raft_ok raf" "raft_run raf es raf'" "raft_run raf' fs raf''" "raf_tem raf'' = raf_tem raf'" "raf_vog raf' = Some v"
  shows "raf_vog raf'' = Some v \<and> raf_sis raf'' ''vote'' = Some v \<and> raf_str raf'' = raf_str raf \<and>
    map str_c (raf_nam raf'') = map str_c (raf_nam raf)"
proof -
  have k: "raft_ok raf'" "raft_later raf raf'" using run_kept [OF assms(2,1)] by auto
  then have l: "raft_ok raf''" "raft_later raf' raf''" using run_kept [OF assms(3)] by auto
  then have "disk_ok raf''" by (simp add: raft_ok_def node_ok_def)
  then show ?thesis using k(2) l(2) assms(4,5) by (simp add: raft_later_def disk_ok_def)
qed

section \<open>Elections\<close>

lemma send_rest_eq:
  assumes "raf_con raf i = Some ron" "nam_u ron \<noteq> None" "rmsg_ok m"
  shows "raft_send_rest i m raf = Inr (con_put i (ron\<lparr>out_u := out_u ron @ [m], wri_u := wri_u ron @ [m]\<rparr>) raf)"
proof -
  obtain b where "rmsg_send m = Inr b" using rmsg_send_read [OF assms(3)] by blast
  then show ?thesis using assms(1,2)
    by (auto simp: raft_send_rest_def raft_rreq_new_def raft_rmsg_send_def con_at_def con_put_def)
qed

lemma conn_work_eq:
  assumes "raf_con raf i = Some ron" "liv ron" "\<not> red ron"
  shows "raft_conn_work uvw i raf = Inr (if wri_u ron \<noteq> [] \<and> uvw i then con_put i (ron\<lparr>wri_u := []\<rparr>) raf\<lparr>raf_out := raf_out raf @ [(i, wri_u ron)]\<rparr> else raf)"
  using assms by (simp add: raft_conn_work_def conn_reads_def conn_writes_def con_at_def)

text \<open>The peer \<open>k\<close> has a connection whose last request asks it for its vote.\<close>

definition asked :: "u2_raft \<Rightarrow> nat \<Rightarrow> bool" where
  "asked raf k \<longleftrightarrow> (\<exists>i ron. ron_u (raf_nam raf ! k) = Some i \<and> raf_con raf i = Some ron \<and> nam_u ron = Some k \<and>
     out_u ron \<noteq> [] \<and> last (out_u ron) = raft_write_revo raf)"

definition same_votes :: "u2_raft \<Rightarrow> u2_raft \<Rightarrow> bool" where
  "same_votes raf raf' \<longleftrightarrow>
     raf_tem raf' = raf_tem raf \<and> raf_typ raf' = raf_typ raf \<and> raf_str raf' = raf_str raf \<and> raf_ent raf' = raf_ent raf \<and>
     raf_lat raf' = raf_lat raf \<and> raf_vog raf' = raf_vog raf \<and> raf_vot raf' = raf_vot raf \<and> raf_pop raf' = raf_pop raf \<and>
     map vog (raf_nam raf') = map vog (raf_nam raf)"

lemma same_votes_trans: "same_votes a b \<Longrightarrow> same_votes b c \<Longrightarrow> same_votes a c"
  by (simp add: same_votes_def)

lemma same_votes_revo: "same_votes raf raf' \<Longrightarrow> raft_write_revo raf' = raft_write_revo raf"
  by (simp add: same_votes_def raft_write_revo_def raft_write_rest_def raft_write_base_def)

lemma asked_keep:
  assumes "asked raf l" "same_votes raf raf'" "ron_u (raf_nam raf' ! l) = ron_u (raf_nam raf ! l)"
    "\<And>i ron. raf_con raf i = Some ron \<Longrightarrow> nam_u ron = Some l \<Longrightarrow> raf_con raf' i = Some ron"
  shows "asked raf' l"
  using assms(1,3,4) unfolding asked_def same_votes_revo [OF assms(2)] by metis

lemma conn_peer_asks:
  assumes ok: "raft_ok raf" and k: "k < length (raf_nam raf)"
  shows "\<exists>raf'. conn_peer uvw raft_send_revo k raf = Inr raf' \<and> same_votes raf raf' \<and> asked raf' k \<and>
    (\<forall>l<length (raf_nam raf). l \<noteq> k \<longrightarrow> asked raf l \<longrightarrow> asked raf' l)"
proof -
  have n: "node_ok raf" using ok by (simp add: raft_ok_def)
  have m: "rmsg_ok (raft_write_revo raf)" by (rule write_revo_ok [OF n])
  let ?m = "raft_write_revo raf"
  show ?thesis
  proof (cases "\<exists>j ron. ron_u (raf_nam raf ! k) = Some j \<and> raf_con raf j = Some ron \<and> liv ron")
    case True
    then obtain j ron where j: "ron_u (raf_nam raf ! k) = Some j" "raf_con raf j = Some ron" "liv ron" by blast
    have ron: "nam_u ron = Some k" "\<not> red ron" using peer_con [OF ok k j(1)] con_okD [OF ok j(2)] j(2) by (auto simp: con_ok_def)
    let ?ron = "ron\<lparr>out_u := out_u ron @ [?m], wri_u := wri_u ron @ [?m]\<rparr>"
    let ?raf = "con_put j ?ron raf"
    let ?raf' = "if uvw j then con_put j (?ron\<lparr>wri_u := []\<rparr>) ?raf\<lparr>raf_out := raf_out ?raf @ [(j, wri_u ?ron)]\<rparr> else ?raf"
    have "conn_peer uvw raft_send_revo k raf = Inr ?raf'"
      using j ron conn_work_eq [of ?raf j ?ron uvw]
      by (simp add: conn_peer_def con_at_def raft_send_revo_def send_rest_eq [OF j(2) _ m])
    moreover have v: "same_votes raf ?raf'" by (simp add: same_votes_def)
    moreover have "asked ?raf' k" using j ron same_votes_revo [OF v] by (simp add: asked_def)
    moreover have "asked ?raf' l" if "l \<noteq> k" "asked raf l" for l
      by (rule asked_keep [OF that(2) v]) (use that(1) ron j(2) in auto)
    ultimately show ?thesis by blast
  next
    case False
    let ?i = "raf_new raf"
    let ?ron = "\<lparr>nam_u = Some k, red_u = None, red = False, wri_u = [], out_u = [], liv = False\<rparr>"
    let ?raf = "nam_put k ((raf_nam raf ! k)\<lparr>ron_u := Some ?i\<rparr>) (con_put ?i ?ron (raf\<lparr>raf_new := Suc ?i\<rparr>))"
    let ?raf' = "con_put ?i (?ron\<lparr>out_u := [?m], wri_u := [?m]\<rparr>) ?raf"
    have fresh: "raf_con raf ?i = None" using con_okD [OF ok, of ?i] by (cases "raf_con raf ?i") (auto simp: con_ok_def)
    have revo: "raft_write_revo ?raf = ?m" by (rule same_votes_revo) (simp add: same_votes_def map_update_same)
    have old: "ron_u (raf_nam raf ! k) = None \<or> (\<exists>j ron. ron_u (raf_nam raf ! k) = Some j \<and> raf_con raf j = Some ron \<and> \<not> liv ron)"
      using False peer_con [OF ok k] by (cases "ron_u (raf_nam raf ! k)") auto
    have "conn_peer uvw raft_send_revo k raf = raft_send_revo ?i ?raf"
      using old by (auto simp: conn_peer_def raft_conn_new_def con_at_def con_put_def nam_put_def)
    then have "conn_peer uvw raft_send_revo k raf = Inr ?raf'"
      using send_rest_eq [of ?raf ?i ?ron ?m] m by (simp add: raft_send_revo_def revo)
    moreover have v: "same_votes raf ?raf'" by (simp add: same_votes_def map_update_same)
    moreover have "asked ?raf' k" unfolding asked_def same_votes_revo [OF v] using k by simp
    moreover have "asked ?raf' l" if "l \<noteq> k" "asked raf l" for l
      by (rule asked_keep [OF that(2) v]) (use that(1) fresh in auto)
    ultimately show ?thesis by blast
  qed
qed

lemma conn_all_asks:
  assumes "raft_ok raf" "raf_typ raf \<noteq> Raty_foll"
  shows "\<exists>raf'. raft_conn_all uvw raft_send_revo raf = Inr raf' \<and> same_votes raf raf' \<and> raft_ok raf' \<and> (\<forall>k<length (raf_nam raf). asked raf' k)"
proof -
  have "\<exists>raf'. rfold (conn_peer uvw raft_send_revo) ks raf = Inr raf' \<and> same_votes raf raf' \<and> raft_ok raf' \<and>
      (\<forall>k<length (raf_nam raf). asked raf k \<or> k \<in> set ks \<longrightarrow> asked raf' k)"
    if "raft_ok raf" "raf_typ raf \<noteq> Raty_foll" "\<forall>k\<in>set ks. k < length (raf_nam raf)" for ks raf
    using that
  proof (induction ks arbitrary: raf)
    case (Cons k ks)
    obtain raf1 where r: "conn_peer uvw raft_send_revo k raf = Inr raf1" and v: "same_votes raf raf1" and a: "asked raf1 k"
      "\<forall>l<length (raf_nam raf). l \<noteq> k \<longrightarrow> asked raf l \<longrightarrow> asked raf1 l"
      using conn_peer_asks [OF Cons.prems(1), of k uvw] Cons.prems(3) by auto
    have "quiet raf (conn_peer uvw raft_send_revo k raf)"
      using conn_peer_quiet [OF Cons.prems(1) send_revo_quiet [OF Cons.prems(2)]] Cons.prems(3) by simp
    then have ok: "raft_ok raf1" and len: "length (raf_nam raf1) = length (raf_nam raf)"
      using r by (auto simp: quiet_def good_Inr same_role_def)
    obtain raf2 where "rfold (conn_peer uvw raft_send_revo) ks raf1 = Inr raf2" "same_votes raf1 raf2" "raft_ok raf2"
      "\<forall>k<length (raf_nam raf1). asked raf1 k \<or> k \<in> set ks \<longrightarrow> asked raf2 k"
      using Cons.IH [OF ok] Cons.prems v len by (auto simp: same_votes_def)
    then show ?case using r a len same_votes_trans [OF v] by auto
  qed (auto simp: same_votes_def)
  from this [OF assms, of "[0..<length (raf_nam raf)]"] show ?thesis by (auto simp: raft_conn_all_def)
qed

text \<open>What happens when the timer of a node that does not lead runs out.\<close>

lemma time_out:
  assumes ok: "raft_ok raf" and tem: "raf_tem raf \<noteq> - 1" and role: "raf_typ raf \<noteq> Raty_lead"
  shows "\<exists>raf'. raft_event uvw Timer raf = Inr raf' \<and> raft_ok raf' \<and> raf_typ raf' = Raty_cand \<and> raf_tem raf' = raf_tem raf + 1 \<and>
    raf_vog raf' = Some (raf_str raf) \<and> raf_vot raf' = 1 \<and> raf_pop raf' = raf_pop raf \<and> length (raf_nam raf') = length (raf_nam raf) \<and>
    (\<forall>nam\<in>set (raf_nam raf'). \<not> vog nam) \<and> (\<forall>k<length (raf_nam raf). asked raf' k)"
proof -
  have n: "raf_tim raf = Once" "raf_typ raf \<noteq> Raty_none" using ok role by (auto simp: raft_ok_def node_ok_def)
  let ?raf = "sist_put ''vote'' (raf_str raf) (sist_put ''term'' (le_put 4 (raf_tem raf + 1)) (raf\<lparr>raf_tim := Once, raf_typ := Raty_cand, raf_tem := raf_tem raf + 1\<rparr>)
      \<lparr>raf_nam := map (\<lambda>nam. nam\<lparr>vog := False\<rparr>) (raf_nam raf), raf_vot := 1, raf_vog := Some (raf_str raf)\<rparr>)"
  have e: "raft_ok ?raf" using election_ok(1) [OF ok tem role refl refl, of False] by (simp add: good_Inr)
  have "raft_event uvw Timer raf = raft_conn_all uvw raft_send_revo ?raf"
    using n role by (cases "raf_typ raf")
      (auto simp: raft_event_def raft_time_cb_def raft_start_election_def sist_put_def Let_def
        intro!: arg_cong [where f = "raft_conn_all uvw raft_send_revo"] u2_raft.equality)
  moreover obtain raf' where r: "raft_conn_all uvw raft_send_revo ?raf = Inr raf'" "same_votes ?raf raf'" "raft_ok raf'"
      "\<forall>k<length (raf_nam ?raf). asked raf' k"
    using conn_all_asks [OF e, of uvw] by auto
  moreover have "map vog (raf_nam raf') = map (\<lambda>_. False) (raf_nam raf)" using r(2) by (simp add: same_votes_def comp_def)
  then have "length (raf_nam raf') = length (raf_nam raf)" "\<forall>nam\<in>set (raf_nam raf'). \<not> vog nam"
    by (metis length_map, metis (no_types, lifting) image_eqI list.set_map imageE)
  ultimately show ?thesis by (auto simp: same_votes_def)
qed

text \<open>A vote that comes in on a connection whose first request asked for it.\<close>

definition granted :: "c3_w \<Rightarrow> u2_rmsg" where
  "granted tem = \<lparr>ver_w = u2_cr_mug_a, len_d = 6, tem_w = tem, body = Rasp 1\<rparr>"

definition voter :: "u2_raft \<Rightarrow> nat \<Rightarrow> nat \<Rightarrow> bool" where
  "voter raf i k \<longleftrightarrow> (\<exists>ron m r nex. raf_con raf i = Some ron \<and> nam_u ron = Some k \<and> k < length (raf_nam raf) \<and> \<not> vog (raf_nam raf ! k) \<and>
     out_u ron = m # nex \<and> body m = Revo r \<and> tem_w m = raf_tem raf)"

lemma do_granted:
  assumes ok: "raft_ok raf" and role: "raf_typ raf = Raty_cand \<or> raf_typ raf = Raty_lead" and i: "voter raf i k"
  shows "\<exists>raf'. raft_do_msg i (granted (raf_tem raf)) raf = Inr raf' \<and> raft_ok raf' \<and> raf_tem raf' = raf_tem raf \<and> raf_pop raf' = raf_pop raf \<and>
    raf_vot raf' = raf_vot raf + 1 \<and> raf_typ raf' = (if raf_pop raf div 2 < raf_vot raf + 1 then Raty_lead else raf_typ raf) \<and>
    (\<forall>j l. j \<noteq> i \<longrightarrow> l \<noteq> k \<longrightarrow> voter raf j l \<longrightarrow> voter raf' j l)"
proof -
  obtain ron m r nex where ron: "raf_con raf i = Some ron" "nam_u ron = Some k" "k < length (raf_nam raf)" "\<not> vog (raf_nam raf ! k)"
    "out_u ron = m # nex" "body m = Revo r" "tem_w m = raf_tem raf" using i by (auto simp: voter_def)
  let ?raf = "nam_put k ((raf_nam raf ! k)\<lparr>vog := True\<rparr>) raf\<lparr>raf_vot := raf_vot raf + 1\<rparr>"
  have n: "node_ok raf" using ok by (simp add: raft_ok_def)
  have "raf_pop raf \<noteq> 1" using pop_unat [OF n] n by (auto simp: node_ok_def)
  then obtain raf1 where p: "(if raf_pop raf div 2 < raf_vot raf + 1 then raft_promote ?raf else Inr ?raf) = Inr raf1"
      "raf_typ raf1 = (if raf_pop raf div 2 < raf_vot raf + 1 then Raty_lead else raf_typ raf)"
      "raf_con raf1 = raf_con raf" "raf_tem raf1 = raf_tem raf" "raf_pop raf1 = raf_pop raf" "raf_vot raf1 = raf_vot raf + 1"
      "raf_nam raf1 = (raf_nam raf)[k := (raf_nam raf ! k)\<lparr>vog := True\<rparr>]"
    using role by (cases "raf_pop raf div 2 < raf_vot raf + 1") (fastforce simp: raft_promote_def)+
  let ?raf' = "con_put i (ron\<lparr>out_u := nex\<rparr>) raf1"
  have "raft_do_msg i (granted (raf_tem raf)) raf = Inr ?raf'"
    using ron p(1,3,4) by (simp add: raft_do_msg_def granted_def raft_do_rasp_def con_at_def raft_revo_done_def raft_note_term_def)
  moreover from this have "raft_ok ?raf'" using do_rasp_good [OF ok ron(1), of False "raf_tem raf" 1]
    by (simp add: raft_do_msg_def granted_def good_Inr)
  moreover have "voter ?raf' j l" if "j \<noteq> i" "l \<noteq> k" "voter raf j l" for j l
    using that p by (auto simp: voter_def)
  ultimately show ?thesis using p by auto
qed

lemma granted_all:
  assumes "raft_ok raf" "raf_typ raf = Raty_cand \<or> raf_typ raf = Raty_lead" "distinct (map fst vs)" "distinct (map snd vs)"
    "\<forall>(i, k)\<in>set vs. voter raf i k" "raf_typ raf = Raty_lead \<or> raf_vot raf \<le> raf_pop raf div 2"
  shows "\<exists>raf'. rfold (\<lambda>i. raft_do_msg i (granted (raf_tem raf))) (map fst vs) raf = Inr raf' \<and> raft_ok raf' \<and> raf_tem raf' = raf_tem raf \<and>
    raf_vot raf' = raf_vot raf + of_nat (length vs) \<and> raf_pop raf' = raf_pop raf \<and>
    (raf_typ raf' = Raty_lead \<or> raf_vot raf' \<le> raf_pop raf div 2)"
  using assms
proof (induction vs arbitrary: raf)
  case (Cons v vs)
  obtain i k where v: "v = (i, k)" by (cases v)
  obtain raf1 where r: "raft_do_msg i (granted (raf_tem raf)) raf = Inr raf1" "raft_ok raf1" "raf_tem raf1 = raf_tem raf"
    "raf_pop raf1 = raf_pop raf" "raf_vot raf1 = raf_vot raf + 1"
    "raf_typ raf1 = (if raf_pop raf div 2 < raf_vot raf + 1 then Raty_lead else raf_typ raf)"
    and keep: "\<forall>j l. j \<noteq> i \<longrightarrow> l \<noteq> k \<longrightarrow> voter raf j l \<longrightarrow> voter raf1 j l"
    using do_granted [OF Cons.prems(1,2), of i k] Cons.prems(5) v by auto
  have "\<forall>(j, l)\<in>set vs. voter raf1 j l" using keep Cons.prems(3-5) v by force
  then obtain raf2 where "rfold (\<lambda>i. raft_do_msg i (granted (raf_tem raf))) (map fst vs) raf1 = Inr raf2" "raft_ok raf2"
    "raf_tem raf2 = raf_tem raf" "raf_vot raf2 = raf_vot raf + 1 + of_nat (length vs)" "raf_pop raf2 = raf_pop raf"
    "raf_typ raf2 = Raty_lead \<or> raf_vot raf2 \<le> raf_pop raf div 2"
    using Cons.IH [OF r(2)] Cons.prems(2-4) r(3-) v by (auto simp: not_less split: if_splits)
  then show ?case using r v by (auto simp: add.assoc)
qed simp

text \<open>
  C15: a candidate that gets the votes it asked for leads. When the timer of a node that does not lead runs out it asks every peer
  for its vote in a new term, and when the votes of peers that make more than half with its own come in, on connections
  whose first request in the queue is that one, in any order, it becomes the leader of the term.
\<close>

theorem election_won:
  assumes ok: "raft_ok raf" "raf_typ raf \<noteq> Raty_lead" "raf_tem raf \<noteq> - 1"
    and vs: "raft_event uvw Timer raf = Inr raf1" "distinct (map fst vs)" "distinct (map snd vs)" "\<forall>(i, k)\<in>set vs. voter raf1 i k"
    and half: "unat (raf_pop raf) < 2 * Suc (length vs)"
  shows "(\<forall>k<length (raf_nam raf). asked raf1 k) \<and>
    (\<exists>raf2. rfold (\<lambda>i. raft_do_msg i (granted (raf_tem raf + 1))) (map fst vs) raf1 = Inr raf2 \<and> raft_ok raf2 \<and>
      raf_typ raf2 = Raty_lead \<and> raf_tem raf2 = raf_tem raf + 1)"
proof -
  have t: "raft_ok raf1" "raf_typ raf1 = Raty_cand" "raf_tem raf1 = raf_tem raf + 1" "raf_vot raf1 = 1" "raf_pop raf1 = raf_pop raf"
    "length (raf_nam raf1) = length (raf_nam raf)" "\<forall>k<length (raf_nam raf). asked raf1 k"
    using time_out [OF ok(1,3,2), of uvw] vs(1) by auto
  have pop: "unat (raf_pop raf) = Suc (length (raf_nam raf))" "raf_nam raf \<noteq> []" "Suc (length (raf_nam raf)) < 2 ^ 32"
    using pop_unat ok(1) by (auto simp: raft_ok_def node_ok_def)
  then have "1 \<le> unat (raf_pop raf) div 2" by (cases "raf_nam raf") simp_all
  then have one: "raf_vot raf1 \<le> raf_pop raf1 div 2" using t(4,5) by (simp add: word_le_nat_alt unat_div)
  obtain raf2 where r: "rfold (\<lambda>i. raft_do_msg i (granted (raf_tem raf1))) (map fst vs) raf1 = Inr raf2" "raft_ok raf2"
    "raf_tem raf2 = raf_tem raf1" "raf_vot raf2 = raf_vot raf1 + of_nat (length vs)"
    "raf_typ raf2 = Raty_lead \<or> raf_vot raf2 \<le> raf_pop raf1 div 2"
    using granted_all [OF t(1) _ vs(2-4)] t(2) one by auto
  have "set (map snd vs) \<subseteq> {..<length (raf_nam raf)}" using vs(4) t(6) by (auto simp: voter_def)
  then have "length vs \<le> length (raf_nam raf)" using distinct_card [OF vs(3)] card_mono [of "{..<length (raf_nam raf)}" "set (map snd vs)"] by simp
  then have "unat (raf_vot raf2) = Suc (length vs)" using r(4) t(4) pop(3)
    by (intro of_nat_inverse) simp_all
  then have "\<not> raf_vot raf2 \<le> raf_pop raf1 div 2" using half t(5) by (simp add: word_le_nat_alt unat_div)
  then show ?thesis using r t(3,7) by auto
qed

lemma node_a_asks: "\<exists>raf1. raft_event (\<lambda>_. True) Timer node_a = Inr raf1 \<and> voter raf1 0 0"
  by (simp add: raft_event_def raft_time_cb_def raft_start_election_def raft_conn_all_def conn_peer_def raft_conn_new_def raft_send_revo_def
      raft_send_rest_def raft_rreq_new_def raft_rmsg_send_def raft_write_revo_def raft_write_rest_def raft_write_base_def con_at_def
      con_put_def nam_put_def sist_put_def node_a_def raft_zero_def Let_def rmsg_send_def rbody_send_def rest_send_def rbody_len_def uv_strlcpy_def
      voter_def)

theorem election_won_witness:
  "\<exists>raf1 raf2. raft_event (\<lambda>_. True) Timer node_a = Inr raf1 \<and> raft_do_msg 0 (granted 1) raf1 = Inr raf2 \<and> raf_typ raf2 = Raty_lead \<and> raf_tem raf2 = 1"
proof -
  obtain raf1 where r: "raft_event (\<lambda>_. True) Timer node_a = Inr raf1" "voter raf1 0 0" using node_a_asks by blast
  have "raf_typ node_a \<noteq> Raty_lead" "raf_tem node_a = 0" "raf_pop node_a = 3" by (simp_all add: node_a_def raft_zero_def)
  then show ?thesis using election_won [OF node_a_ok _ _ r(1), of "[(0, 0)]"] r by (auto simp: rbind_eq_Inr)
qed

section \<open>What goes wrong\<close>

text \<open>
  Any host that can connect to a node can stop it: a well-formed request for a vote that comes in on a new connection from a
  name that is not a peer's makes \<^verbatim>\<open>_raft_do_revo\<close> fail an assertion.
\<close>

theorem stranger_stops_node:
  assumes ok: "raft_ok raf" and m: "rmsg_ok m" "rmsg_send m = Inr bs" "length bs < 2 ^ 32"
    and r: "body m = Revo r" "nam_c r = Some nam" "nam \<notin> set (map str_c (raf_nam raf))"
  shows "\<exists>raf1. raft_event uvw (Listen True) raf = Inr raf1 \<and> raft_event uvw (Read (raf_new raf) (Some bs)) raf1 = Inl Abort"
proof -
  let ?i = "raf_new raf"
  let ?ron = "\<lparr>nam_u = None, red_u = None, red = False, wri_u = [], out_u = [], liv = True\<rparr>"
  let ?raf = "raf\<lparr>raf_new := Suc ?i, raf_con := (raf_con raf)(?i \<mapsto> ?ron), raf_run := ?i # raf_run raf\<rparr>"
  have "good False raf (Inr ?raf)" by (rule new_con_ok [OF ok, where nm = None and ron = ?ron]) simp_all
  then have ok1: "raft_ok ?raf" by (simp add: good_Inr)
  have listen: "raft_event uvw (Listen True) raf = Inr ?raf"
    by (simp add: raft_event_def raft_listen_cb_def raft_conn_new_def con_at_def con_put_def)
  obtain buf where buf: "rbuf_grow None bs = Inr buf" "buf_y buf = bs" using rbuf_grow_ok [of None bs] m(3) by (auto simp: rbuf_bytes_def)
  let ?raf1 = "con_put ?i (?ron\<lparr>red_u := Some buf\<rparr>) ?raf"
  have dead: "raft_do_msg ?i m ?raf1 = Inl Abort"
  proof -
    have n: "raf_typ raf = Raty_foll \<or> raf_typ raf = Raty_cand \<or> raf_typ raf = Raty_lead" "raf_nam raf \<noteq> []"
      and tim: "raf_typ raf = Raty_cand \<or> raf_typ raf = Raty_foll \<Longrightarrow> raf_tim raf = Once" "raf_typ raf = Raty_foll \<Longrightarrow> raf_vot raf = 0"
      using ok by (cases "raf_typ raf"; simp add: raft_ok_def node_ok_def)+
    have name: "raft_rest_name ?i (Some nam) raf' = Inr (con_put ?i (ron\<lparr>liv := False\<rparr>) raf'\<lparr>raf_shut := raf_shut raf' @ [?i]\<rparr>)"
      if "raf_con raf' ?i = Some ron" "nam_u ron = None" "liv ron" "raf_nam raf' = raf_nam raf" for raf' ron
      using that n(2) r(3) find_nam_None [of nam "raf_nam raf"]
      by (simp add: raft_rest_name_def con_at_def raft_conn_dead_def)
    show ?thesis using r(1,2) n tim
      by (auto simp: raft_do_msg_def raft_do_revo_def raft_do_rest_def Let_def name raft_note_term_def raft_demote_def con_at_def con_put_def
          sist_put_def sist_nil_def rbind_eq_Inl)
  qed
  have "rmsg_read bs = Inr (Rgot m (length bs))" using rmsg_send_read [OF m(1)] m(2) by fastforce
  then have "work_loop (raft_do_msg ?i) bs ?raf1 = Inl Abort" using dead by (simp add: work_loop_got)
  moreover have "bs \<noteq> []" using \<open>rmsg_read bs = Inr (Rgot m (length bs))\<close> rmsg_read_got(1) by fastforce
  ultimately have "raft_event uvw (Read ?i (Some bs)) ?raf = Inl Abort"
    using buf by (simp add: raft_event_def raft_conn_read_cb_def con_at_def raft_conn_work_def conn_reads_def con_put_def)
  then show ?thesis using listen by blast
qed

theorem stranger_stops_node_witness:
  "\<exists>bs raf1. raft_event (\<lambda>_. True) (Listen True) node_a = Inr raf1 \<and> raft_event (\<lambda>_. True) (Read 0 (Some bs)) raf1 = Inl Abort"
proof -
  let ?z = "node_a\<lparr>raf_str := [122]\<rparr>"
  have z: "node_ok ?z" by (auto simp: node_a_def node_ok_def disk_ok_def raft_zero_def)
  obtain r where r: "body (raft_write_revo ?z) = Revo r" "nam_c r = Some [122]" using write_revo_ok(3) [OF z] by auto
  obtain bs where bs: "rmsg_send (raft_write_revo ?z) = Inr bs" "rmsg_read bs = Inr (Rgot (raft_write_revo ?z) (length bs))"
    using rmsg_send_read [OF write_revo_ok(1) [OF z]] by (metis append_Nil2)
  have "len_d (raft_write_revo ?z) = 10"
    by (simp add: raft_write_revo_def raft_write_rest_def raft_write_base_def Let_def node_a_def raft_zero_def)
  then have "length bs = 40" using rmsg_read_got(3) [OF bs(2)] by simp
  then have "\<exists>raf1. raft_event (\<lambda>_. True) (Listen True) node_a = Inr raf1 \<and> raft_event (\<lambda>_. True) (Read (raf_new node_a) (Some bs)) raf1 = Inl Abort"
    by (intro stranger_stops_node [OF node_a_ok write_revo_ok(1) [OF z] bs(1) _ r]) (simp_all add: node_a_def)
  then show ?thesis by (auto simp: node_a_def raft_zero_def)
qed

text \<open>A follower that has voted for the first of its peers, and has a connection to the second.\<close>

definition node_b :: "u2_rmsg list \<Rightarrow> u2_raft" where
  "node_b out = node_a\<lparr>raf_vog := Some [98], raf_sis := [''vote'' \<mapsto> [98]], raf_new := 1,
     raf_con := [0 \<mapsto> \<lparr>nam_u = Some 1, red_u = None, red = False, wri_u = [], out_u = out, liv = True\<rparr>],
     raf_nam := [\<lparr>str_c = [98], ron_u = None, vog = True\<rparr>, \<lparr>str_c = [99], ron_u = Some 0, vog = True\<rparr>]\<rparr>"

lemma node_b_ok: "\<forall>m\<in>set out. req_ok (node_b out) m \<Longrightarrow> raft_ok (node_b out)"
  by (auto simp: node_b_def node_a_def raft_ok_def node_ok_def cons_ok_def con_ok_def disk_ok_def raft_zero_def less_Suc_eq split: if_splits)

text \<open>
  C19: a follower that has voted keeps its vote in later terms: it refuses every other candidate, whatever the candidate's term, until
  it stands for election itself. (The vote is meant to be one of a term.)
\<close>

theorem follower_keeps_vote:
  assumes ok: "raft_ok raf" and foll: "raf_typ raf = Raty_foll" "raf_vog raf = Some v"
    and ron: "raf_con raf i = Some ron" "nam_u ron = Some k" "str_c (raf_nam raf ! k) \<noteq> v" "nam_c r = Some (str_c (raf_nam raf ! k))"
    and tem: "raf_tem raf < tem"
  shows "\<exists>raf' ron'. raft_do_revo i tem r raf = Inr raf' \<and> raf_tem raf' = tem \<and> raf_vog raf' = Some v \<and>
    raf_con raf' i = Some ron' \<and> wri_u ron' = wri_u ron @ [raft_write_base raf' (Rasp 0)\<lparr>len_d := 6\<rparr>]"
proof -
  have n: "raf_tim raf = Once" "raf_vot raf = 0" using ok foll by (auto simp: raft_ok_def node_ok_def)
  let ?raf = "sist_put ''term'' (le_put 4 tem) (raf\<lparr>raf_tem := tem\<rparr>)"
  let ?m = "raft_write_base ?raf (Rasp 0)\<lparr>len_d := 6\<rparr>"
  have tim: "(if raf_typ raf = Raty_cand \<or> raf_typ raf = Raty_foll then raf\<lparr>raf_tim := Once\<rparr> else raf) = raf"
    using n(1) by (auto intro: u2_raft.equality)
  have "raft_do_rest i tem r raf = Inr ?raf" unfolding raft_do_rest_def Let_def tim
    using n foll ron tem by (simp add: raft_rest_name_def con_at_def raft_note_term_def Let_def)
  moreover have "raft_rmsg_send i ?m ?raf = Inr (con_put i (ron\<lparr>wri_u := wri_u ron @ [?m]\<rparr>) ?raf)"
  proof -
    have "rmsg_ok ?m" using rasp_msg_ok [of ?raf 0] by (simp add: raft_write_base_def)
    then obtain b where "rmsg_send ?m = Inr b" using rmsg_send_read by blast
    then show ?thesis using ron(1) by (simp add: raft_rmsg_send_def con_at_def)
  qed
  then have "raft_send_rasp i False ?raf = Inr (con_put i (ron\<lparr>wri_u := wri_u ron @ [?m]\<rparr>) ?raf)"
    by (simp add: raft_send_rasp_def raft_write_base_def Let_def)
  ultimately have "raft_do_revo i tem r raf = Inr (con_put i (ron\<lparr>wri_u := wri_u ron @ [?m]\<rparr>) ?raf)"
    using ron foll by (simp add: raft_do_revo_def con_at_def Let_def)
  then show ?thesis using foll by (simp add: raft_write_base_def)
qed

theorem follower_keeps_vote_witness:
  "\<exists>raf' ron'. raft_do_revo 0 9 \<lparr>lai_d = 0, lat_w = 0, nam_w = 1, nam_c = Some [99]\<rparr> (node_b []) = Inr raf' \<and> raf_tem raf' = 9 \<and>
    raf_vog raf' = Some [98] \<and> raf_con raf' 0 = Some ron' \<and> wri_u ron' \<noteq> []"
  using follower_keeps_vote [of "node_b []" "[98]" 0 _ 1 "\<lparr>lai_d = 0, lat_w = 0, nam_w = 1, nam_c = Some [99]\<rparr>" 9, OF node_b_ok]
  by (auto simp: node_b_def node_a_def raft_zero_def)

text \<open>
  A heartbeat is never answered, and the queue of a connection is served in order, so that each heartbeat in it costs a vote: the
  peer's grant of the current term takes the heartbeat off the queue and is not counted.
\<close>

theorem heartbeat_costs_vote:
  assumes ok: "raft_ok raf" and ron: "raf_con raf i = Some ron" "nam_u ron = Some k" "out_u ron = m # nex" "body m = Apen r cit num es"
  shows "raft_do_msg i (granted (raf_tem raf)) raf = Inr (con_put i (ron\<lparr>out_u := nex\<rparr>) raf) \<and>
    (\<forall>raf'. raft_do_apen i tem r' raf = Inr raf' \<longrightarrow> (\<forall>j. map_option wri_u (raf_con raf' j) = map_option wri_u (raf_con raf j)))"
proof (intro conjI allI impI)
  show "raft_do_msg i (granted (raf_tem raf)) raf = Inr (con_put i (ron\<lparr>out_u := nex\<rparr>) raf)"
    using ron by (simp add: raft_do_msg_def granted_def raft_do_rasp_def con_at_def raft_note_term_def)
  fix raf' j assume "raft_do_apen i tem r' raf = Inr raf'"
  then obtain raf1 where raf1: "raft_rest_name i (nam_c r') (if raf_typ raf = Raty_cand \<or> raf_typ raf = Raty_foll then raf\<lparr>raf_tim := Once\<rparr> else raf) = Inr raf1"
      "raft_note_term raf1 tem = Inr raf'"
    by (auto simp: raft_do_apen_def raft_do_rest_def Let_def rbind_eq_Inr)
  have "raf_con raf' = raf_con raf1" using raf1(2)
    by (auto simp: raft_note_term_def raft_demote_def sist_put_def sist_nil_def Let_def split: if_splits)
  moreover have "map_option wri_u (raf_con raf1 j) = map_option wri_u (raf_con raf j)"
    using raf1(1) ron(1,2) conn_dead_simps(11) [of i _ raf1 j] by (auto simp: raft_rest_name_def con_at_def split: option.splits if_splits)
  ultimately show "map_option wri_u (raf_con raf' j) = map_option wri_u (raf_con raf j)" by simp
qed

theorem heartbeat_costs_vote_witness:
  "\<exists>m r. body m = Apen r 0 0 [] \<and> (\<exists>ron. raft_do_msg 0 (granted 0) (node_b [m]) = Inr (con_put 0 (ron\<lparr>out_u := []\<rparr>) (node_b [m])))"
proof -
  let ?m = "raft_write_apen node_a 0 0 0 0 []"
  obtain r where r: "body ?m = Apen r 0 0 []" "tem_w ?m = raf_tem node_a"
    using write_beat_ok [of node_a] node_a_ok by (auto simp: raft_ok_def)
  then have "raft_ok (node_b [?m])" by (intro node_b_ok) (simp add: req_ok_def node_b_def node_a_def raft_zero_def)
  moreover obtain ron where "raf_con (node_b [?m]) 0 = Some ron" "nam_u ron = Some 1" "out_u ron = [?m]" "raf_tem (node_b [?m]) = 0"
    by (simp add: node_b_def node_a_def raft_zero_def)
  ultimately show ?thesis using r heartbeat_costs_vote [of "node_b [?m]" 0 ron 1 ?m "[]" r 0 0 "[]"] by (metis (no_types))
qed

text \<open>
  A leader has, in every run, the recorded votes of more than half of the nodes, its own included, and its vote of the term is for
  itself.
\<close>

theorem leader_has_majority:
  assumes "raft_ok raf" "raft_run raf es raf'" "raf_typ raf' = Raty_lead"
  shows "Suc (length (raf_nam raf')) < 2 * Suc (length (filter vog (raf_nam raf'))) \<and> raf_vog raf' = Some (raf_str raf')"
proof -
  have n: "node_ok raf'" using run_kept [OF assms(2,1)] by (simp add: raft_ok_def)
  then have "raf_pop raf' div 2 < raf_vot raf'" using assms(3) unfolding node_ok_def by blast
  then have "unat (raf_pop raf') div 2 < unat (raf_vot raf')" by (simp add: word_less_nat_alt unat_div)
  then show ?thesis using n assms(3) pop_unat [OF n] by (auto simp: node_ok_def filter_map)
qed

end
