(* ===== verification/Raft_Step.thy ===== *)
theory Raft_Step
  imports Raft_Run
begin

text \<open>
  What a node does, seen from outside: the messages it says on each connection, the requests it waits for an answer to, and its
  votes. Each handler is one of a few effects on them, and each event a series of effects.
\<close>

section \<open>The view from outside\<close>

definition written :: "u2_raft \<Rightarrow> nat \<Rightarrow> u2_rmsg list" where
  "written raf i = concat (map snd (filter (\<lambda>x. fst x = i) (raf_out raf)))"

definition said :: "u2_raft \<Rightarrow> nat \<Rightarrow> u2_rmsg list" where
  "said raf i = written raf i @ (case raf_con raf i of None \<Rightarrow> [] | Some ron \<Rightarrow> wri_u ron)"

definition waits :: "u2_raft \<Rightarrow> nat \<Rightarrow> (nat option \<times> u2_rmsg list) option" where
  "waits raf i = map_option (\<lambda>ron. (nam_u ron, out_u ron)) (raf_con raf i)"

definition heard :: "u2_raft \<Rightarrow> nat \<Rightarrow> c3_y list option" where
  "heard raf i = map_option (\<lambda>ron. rbuf_bytes (red_u ron)) (raf_con raf i)"

definition same_at :: "u2_raft \<Rightarrow> u2_raft \<Rightarrow> nat \<Rightarrow> bool" where
  "same_at raf raf' i \<longleftrightarrow> waits raf' i = waits raf i \<and> heard raf' i = heard raf i \<and> said raf' i = said raf i"

definition grows :: "u2_raft \<Rightarrow> u2_raft \<Rightarrow> bool" where
  "grows raf raf' \<longleftrightarrow> (\<forall>i. \<exists>ms. written raf' i = written raf i @ ms)"

text \<open>No vote is counted.\<close>

definition calm :: "u2_raft \<Rightarrow> u2_raft \<Rightarrow> bool" where
  "calm raf raf' \<longleftrightarrow>
     raft_later raf raf' \<and>
     (raf_typ raf' = Raty_foll \<or> True \<notin> set (map vog (raf_nam raf')) \<or>
      raf_typ raf \<noteq> Raty_foll \<and> raf_tem raf' = raf_tem raf \<and> map vog (raf_nam raf') = map vog (raf_nam raf))"

definition quietly :: "u2_raft \<Rightarrow> u2_raft \<Rightarrow> bool" where
  "quietly raf raf' \<longleftrightarrow> calm raf raf' \<and> raf_new raf' = raf_new raf \<and> (\<forall>i. same_at raf raf' i) \<and> grows raf raf'"

lemma grows_refl [simp]: "grows raf raf"
  by (simp add: grows_def)

lemma grows_same: "raf_out raf' = raf_out raf \<Longrightarrow> grows raf raf'"
  by (simp add: grows_def written_def)

lemma grows_trans: "grows a b \<Longrightarrow> grows b c \<Longrightarrow> grows a c"
  unfolding grows_def by (metis append.assoc)

lemma same_at_refl [simp]: "same_at raf raf i"
  by (simp add: same_at_def)

lemma same_at_trans: "same_at a b i \<Longrightarrow> same_at b c i \<Longrightarrow> same_at a c i"
  by (simp add: same_at_def)

lemma calm_refl [simp]: "calm raf raf"
  by (auto simp: calm_def)

lemma calm_trans:
  assumes "calm a b" "calm b c"
  shows "calm a c"
proof -
  have "raft_later a c" using assms raft_later_trans by (auto simp: calm_def)
  then show ?thesis using assms unfolding calm_def by metis
qed

lemma quietly_refl [simp]: "quietly raf raf"
  by (simp add: quietly_def)

lemma quietly_trans: "quietly a b \<Longrightarrow> quietly b c \<Longrightarrow> quietly a c"
  unfolding quietly_def by (metis calm_trans same_at_trans grows_trans)

lemma same_at_con:
  "raf_out raf' = raf_out raf \<Longrightarrow> map_option (\<lambda>ron. (nam_u ron, out_u ron, wri_u ron, red_u ron)) (raf_con raf' i) = map_option (\<lambda>ron. (nam_u ron, out_u ron, wri_u ron, red_u ron)) (raf_con raf i) \<Longrightarrow>
   same_at raf raf' i"
  by (cases "raf_con raf i"; cases "raf_con raf' i") (auto simp: same_at_def heard_def waits_def said_def written_def)

lemma quietly_same:
  assumes "raf_out raf' = raf_out raf" "raf_con raf' = raf_con raf" "raf_new raf' = raf_new raf" "calm raf raf'"
  shows "quietly raf raf'"
  using assms by (simp add: quietly_def same_at_con grows_same)

lemma calm_same:
  "\<lbrakk>raf_typ raf' = raf_typ raf; raf_tem raf' = raf_tem raf; raf_vog raf' = raf_vog raf; raf_str raf' = raf_str raf;
    map str_c (raf_nam raf') = map str_c (raf_nam raf); map vog (raf_nam raf') = map vog (raf_nam raf)\<rbrakk> \<Longrightarrow> calm raf raf'"
  by (auto simp: calm_def raft_later_def)

lemma conn_dead_quietly:
  assumes "raft_conn_dead i raf = Inr raf'"
  shows "quietly raf raf'"
proof -
  have "calm raf raf'" using conn_dead_simps [OF assms] by (intro calm_same) simp_all
  moreover have "same_at raf raf' l" for l
    using assms by (intro same_at_con) (auto simp: raft_conn_dead_def con_at_def con_put_def split: option.splits if_splits)
  ultimately show ?thesis using conn_dead_simps [OF assms] by (simp add: quietly_def grows_same)
qed

lemma note_term_quietly:
  assumes ok: "raft_ok raf" and r: "raft_note_term raf tem = Inr raf'"
  shows "quietly raf raf'"
proof -
  have later: "raft_later raf raf'" using note_term_good [OF ok, of False tem] r by (simp add: good_Inr)
  have "raf_typ raf' = Raty_foll \<or> raf' = raf"
    using r by (auto simp: raft_note_term_def raft_demote_def Let_def split: if_splits)
  then have "calm raf raf'" using later by (auto simp: calm_def)
  then show ?thesis using r
    by (intro quietly_same) (auto simp: raft_note_term_def raft_demote_def Let_def sist_put_def sist_nil_def split: if_splits)
qed

lemma promote_quietly:
  assumes ok: "raft_ok raf" and vot: "raf_pop raf div 2 < raf_vot raf" and r: "raft_promote raf = Inr raf'"
  shows "quietly raf raf'"
proof -
  have later: "raft_later raf raf'" using promote_good [OF ok vot, of False] r by (simp add: good_Inr)
  have "raf_typ raf \<noteq> Raty_foll" using ok vot by (auto simp: raft_ok_def node_ok_def)
  then show ?thesis using later r
    by (intro quietly_same) (auto simp: raft_promote_def calm_def split: if_splits)
qed

lemma con_put_quietly:
  assumes "raf_con raf i = Some ron" "nam_u ron' = nam_u ron" "out_u ron' = out_u ron" "wri_u ron' = wri_u ron" "red_u ron' = red_u ron"
  shows "quietly raf (con_put i ron' raf)"
proof -
  have "same_at raf (con_put i ron' raf) l" for l using assms by (intro same_at_con) (auto simp: con_put_def)
  moreover have "grows raf (con_put i ron' raf)" by (rule grows_same) (simp add: con_put_def)
  ultimately show ?thesis by (simp add: quietly_def calm_same)
qed

lemma writes_quietly:
  assumes "conn_writes uvw i raf = Inr raf'"
  shows "quietly raf raf'"
proof -
  obtain ron where ron: "raf_con raf i = Some ron" using assms by (auto simp: conn_writes_def con_at_def split: option.splits)
  show ?thesis
  proof (cases "wri_u ron \<noteq> [] \<and> uvw i")
    case True
    then have raf': "raf' = con_put i (ron\<lparr>wri_u := []\<rparr>) raf\<lparr>raf_out := raf_out raf @ [(i, wri_u ron)]\<rparr>"
      using assms ron by (simp add: conn_writes_def con_at_def)
    have w: "written raf' l = written raf l @ (if l = i then wri_u ron else [])" for l
      by (auto simp: raf' written_def)
    then have "same_at raf raf' l" for l using ron by (auto simp: same_at_def heard_def waits_def said_def raf')
    then show ?thesis using w by (auto simp: quietly_def grows_def raf' intro!: calm_same)
  qed (use assms ron in \<open>auto simp: conn_writes_def con_at_def\<close>)
qed

section \<open>Effects of a node's own\<close>

definition asking :: "u2_raft \<Rightarrow> u2_rmsg \<Rightarrow> bool" where
  "asking raf m \<longleftrightarrow>
     rmsg_ok m \<and> tem_w m = raf_tem raf \<and>
     (case body m of Rasp _ \<Rightarrow> False | Revo r \<Rightarrow> nam_c r = Some (raf_str raf) | Apen r _ _ _ \<Rightarrow> nam_c r = Some (raf_str raf))"

definition requests :: "nat \<Rightarrow> u2_rmsg \<Rightarrow> u2_raft \<Rightarrow> u2_raft \<Rightarrow> bool" where
  "requests i m raf raf' \<longleftrightarrow>
     asking raf m \<and> calm raf raf' \<and> raf_tem raf' = raf_tem raf \<and> raf_new raf' = raf_new raf \<and>
     (\<exists>k q. waits raf i = Some (Some k, q) \<and> waits raf' i = Some (Some k, q @ [m])) \<and> heard raf' i = heard raf i \<and> said raf' i = said raf i @ [m] \<and>
     (\<forall>l. l \<noteq> i \<longrightarrow> same_at raf raf' l) \<and> grows raf raf'"

definition opens :: "nat option \<Rightarrow> u2_raft \<Rightarrow> u2_raft \<Rightarrow> bool" where
  "opens nm raf raf' \<longleftrightarrow>
     calm raf raf' \<and> raf_new raf' = Suc (raf_new raf) \<and> waits raf' (raf_new raf) = Some (nm, []) \<and> heard raf' (raf_new raf) = Some [] \<and>
     said raf' (raf_new raf) = written raf (raf_new raf) \<and> (\<forall>l. l \<noteq> raf_new raf \<longrightarrow> same_at raf raf' l) \<and> grows raf raf'"

definition frees :: "nat \<Rightarrow> u2_raft \<Rightarrow> u2_raft \<Rightarrow> bool" where
  "frees i raf raf' \<longleftrightarrow>
     calm raf raf' \<and> raf_new raf' = raf_new raf \<and> waits raf' i = None \<and> said raf' i = written raf i \<and>
     (\<forall>l. l \<noteq> i \<longrightarrow> same_at raf raf' l) \<and> grows raf raf'"

inductive moves :: "u2_raft \<Rightarrow> u2_raft \<Rightarrow> bool" for raf where
  moves_refl: "moves raf raf"
| moves_quietly: "moves raf b \<Longrightarrow> raft_ok b \<Longrightarrow> quietly b c \<Longrightarrow> raft_ok c \<Longrightarrow> moves raf c"
| moves_requests: "moves raf b \<Longrightarrow> raft_ok b \<Longrightarrow> requests i m b c \<Longrightarrow> raft_ok c \<Longrightarrow> moves raf c"
| moves_opens: "moves raf b \<Longrightarrow> raft_ok b \<Longrightarrow> opens nm b c \<Longrightarrow> raft_ok c \<Longrightarrow> moves raf c"
| moves_frees: "moves raf b \<Longrightarrow> raft_ok b \<Longrightarrow> frees i b c \<Longrightarrow> raft_ok c \<Longrightarrow> moves raf c"

lemma moves_trans: "moves b c \<Longrightarrow> moves a b \<Longrightarrow> moves a c"
  by (induction rule: moves.induct) (auto intro: moves.intros)

lemma send_rest_requests:
  assumes "raf_con raf i = Some ron" "nam_u ron \<noteq> None" "asking raf m" "raft_send_rest i m raf = Inr raf'"
  shows "requests i m raf raf'"
proof -
  have raf': "raf' = con_put i (ron\<lparr>out_u := out_u ron @ [m], wri_u := wri_u ron @ [m]\<rparr>) raf"
    using send_rest_eq [OF assms(1,2)] assms(3,4) by (simp add: asking_def)
  have out: "raf_out raf' = raf_out raf" by (simp add: raf' con_put_def)
  then have "same_at raf raf' l" if "l \<noteq> i" for l using that by (intro same_at_con) (auto simp: raf')
  moreover have "said raf' i = said raf i @ [m]" using assms(1) out by (simp add: said_def written_def raf')
  moreover have "calm raf raf'" by (rule calm_same) (simp_all add: raf')
  ultimately show ?thesis using assms(1-3) out
    by (auto simp: requests_def waits_def heard_def raf' intro!: grows_same)
qed

lemma revo_asking: "raft_ok raf \<Longrightarrow> asking raf (raft_write_revo raf)"
  using write_revo_ok [of raf] by (auto simp: asking_def raft_ok_def)

lemma beat_asking: "raft_ok raf \<Longrightarrow> asking raf (raft_write_apen raf 0 0 0 0 [])"
  using write_beat_ok [of raf] by (auto simp: asking_def raft_ok_def)

definition asker :: "(nat \<Rightarrow> u2_raft \<Rightarrow> u2_raft res) \<Rightarrow> bool" where
  "asker con_f \<longleftrightarrow> (\<forall>i raf raf' ron. raft_ok raf \<longrightarrow> raf_con raf i = Some ron \<longrightarrow> nam_u ron \<noteq> None \<longrightarrow> con_f i raf = Inr raf' \<longrightarrow>
     (\<exists>m. requests i m raf raf'))"

lemma asker_revo: "asker raft_send_revo" and asker_beat: "asker raft_send_beat"
  by (auto simp: asker_def raft_send_revo_def raft_send_beat_def dest: send_rest_requests [OF _ _ revo_asking] send_rest_requests [OF _ _ beat_asking])

lemma conn_work_quietly:
  assumes ok: "raft_ok raf" and ron: "raf_con raf i = Some ron" and r: "raft_conn_work uvw i raf = Inr raf'"
  shows "quietly raf raf'"
proof -
  have "\<not> red ron" using con_okD [OF ok ron] by (simp add: con_ok_def)
  then have "conn_writes uvw i raf = Inr raf'" using r ron by (simp add: raft_conn_work_def conn_reads_def con_at_def split: if_splits)
  then show ?thesis by (rule writes_quietly)
qed

lemma con_new_fresh: "raft_ok raf \<Longrightarrow> raf_con raf (raf_new raf) = None"
  using con_okD [of raf "raf_new raf"] by (cases "raf_con raf (raf_new raf)") (auto simp: con_ok_def)

lemma opens_put:
  assumes "raft_ok raf" "raf_out raf' = raf_out raf" "raf_con raf' = (raf_con raf)(raf_new raf \<mapsto> ron)" "raf_new raf' = Suc (raf_new raf)"
    "nam_u ron = nm" "out_u ron = []" "wri_u ron = []" "red_u ron = None" "calm raf raf'"
  shows "opens nm raf raf'"
  using assms con_new_fresh [OF assms(1)]
  by (auto simp: opens_def waits_def heard_def rbuf_bytes_def said_def written_def intro!: same_at_con grows_same)

lemma conn_peer_moves:
  assumes ok: "raft_ok raf" and f: "sends_ok con_f raf" "asker con_f" and k: "k < length (raf_nam raf)" and r: "conn_peer uvw con_f k raf = Inr raf'"
  shows "moves raf raf'"
proof -
  have ok': "raft_ok raf'" using conn_peer_quiet [OF ok f(1) k, of uvw] r by (simp add: quiet_def good_Inr)
  show ?thesis
  proof (cases "\<exists>j ron. ron_u (raf_nam raf ! k) = Some j \<and> raf_con raf j = Some ron \<and> liv ron")
    case True
    then obtain j ron where j: "ron_u (raf_nam raf ! k) = Some j" "raf_con raf j = Some ron" "liv ron" by blast
    then have nm: "nam_u ron \<noteq> None" using peer_con [OF ok k] by auto
    obtain raf1 where raf1: "con_f j raf = Inr raf1" "rbind (con_at raf1 j) (\<lambda>ron. if liv ron then raft_conn_work uvw j raf1 else Inr raf1) = Inr raf'"
      using r j by (auto simp: conn_peer_def con_at_ok rbind_eq_Inr)
    have "quiet raf (con_f j raf)" using f(1) ok j(2) nm by (auto simp: sends_ok_def same_role_def)
    then have ok1: "raft_ok raf1" using raf1(1) by (simp add: quiet_def good_Inr)
    obtain m where m: "requests j m raf raf1" using f(2) ok j(2) nm raf1(1) unfolding asker_def by blast
    obtain ron1 where ron1: "raf_con raf1 j = Some ron1" using raf1(2) by (auto simp: con_at_def split: option.splits)
    have "quietly raf1 raf'" using raf1(2) conn_work_quietly [OF ok1 ron1] by (auto simp: con_at_ok [OF ron1] split: if_splits)
    then show ?thesis using m ok ok1 ok' by (meson moves.intros)
  next
    case False
    let ?i = "raf_new raf"
    let ?ron = "\<lparr>nam_u = Some k, red_u = None, red = False, wri_u = [], out_u = [], liv = False\<rparr>"
    let ?raf = "nam_put k ((raf_nam raf ! k)\<lparr>ron_u := Some ?i\<rparr>) (raf\<lparr>raf_new := Suc ?i, raf_con := (raf_con raf)(?i \<mapsto> ?ron)\<rparr>)"
    have new: "good False raf (Inr ?raf)" "raf_con ?raf ?i = Some ?ron"
      using new_con_ok [OF ok, of "Some k" ?raf ?ron] k by auto
    then have ok1: "raft_ok ?raf" by (simp add: good_Inr)
    have "calm raf ?raf" by (rule calm_same) (simp_all add: map_update_same)
    moreover have "raf_out ?raf = raf_out raf" by (simp add: nam_put_def)
    ultimately have o: "opens (Some k) raf ?raf" by (intro opens_put [OF ok, where ron = ?ron]) simp_all
    have old: "ron_u (raf_nam raf ! k) = None \<or> (\<exists>j ron. ron_u (raf_nam raf ! k) = Some j \<and> raf_con raf j = Some ron \<and> \<not> liv ron)"
      using False peer_con [OF ok k] by (cases "ron_u (raf_nam raf ! k)") auto
    then have "con_f ?i ?raf = Inr raf'"
      using r by (auto simp: conn_peer_def raft_conn_new_def con_at_def con_put_def nam_put_def)
    then obtain m where "requests ?i m ?raf raf'" using f(2) ok1 new(2) unfolding asker_def by fastforce
    then show ?thesis using o ok ok1 ok' by (meson moves.intros)
  qed
qed

lemma conn_all_moves:
  assumes "raft_ok raf" "sends_ok con_f raf" "asker con_f" "raft_conn_all uvw con_f raf = Inr raf'"
  shows "moves raf raf'"
proof -
  have "\<lbrakk>raft_ok a; same_role raf a; \<forall>k\<in>set ks. k < length (raf_nam raf); rfold (conn_peer uvw con_f) ks a = Inr b\<rbrakk> \<Longrightarrow> moves a b" for ks a b
  proof (induction ks arbitrary: a)
    case (Cons k ks)
    obtain c where c: "conn_peer uvw con_f k a = Inr c" "rfold (conn_peer uvw con_f) ks c = Inr b"
      using Cons.prems(4) by (auto simp: rbind_eq_Inr)
    have s: "sends_ok con_f a" using assms(2) Cons.prems(2) by (auto simp: sends_ok_def same_role_def)
    have k: "k < length (raf_nam a)" using Cons.prems(2,3) by (simp add: same_role_def)
    have "raft_ok c" "same_role raf c"
      using conn_peer_quiet [OF Cons.prems(1) s k, of uvw] c(1) Cons.prems(2) by (auto simp: quiet_def good_Inr same_role_def)
    then have "moves c b" using Cons.IH c(2) Cons.prems(3) by simp
    then show ?case using conn_peer_moves [OF Cons.prems(1) s assms(3) k c(1)] by (rule moves_trans)
  qed (simp add: moves_refl)
  from this [OF assms(1), of "[0..<length (raf_nam raf)]"] show ?thesis
    using assms(4) by (simp add: raft_conn_all_def same_role_def)
qed

section \<open>Effects of a message\<close>

definition sender :: "u2_rmsg \<Rightarrow> c3_y list option" where
  "sender m = (case body m of Rasp _ \<Rightarrow> None | Revo r \<Rightarrow> nam_c r | Apen r _ _ _ \<Rightarrow> nam_c r)"

definition named :: "u2_raft \<Rightarrow> c3_y list option \<Rightarrow> nat option \<Rightarrow> nat option \<Rightarrow> bool" where
  "named raf str nm nm' \<longleftrightarrow> nm' = nm \<or> nm = None \<and> (\<exists>k<length (raf_nam raf). nm' = Some k \<and> str = Some (str_c (raf_nam raf ! k)))"

definition grants :: "u2_rmsg \<Rightarrow> bool" where
  "grants m = (case body m of Rasp s \<Rightarrow> s \<noteq> 0 | _ \<Rightarrow> False)"

definition counts :: "nat \<Rightarrow> u2_rmsg \<Rightarrow> u2_rmsg \<Rightarrow> u2_raft \<Rightarrow> u2_raft \<Rightarrow> bool" where
  "counts k req m raf raf' \<longleftrightarrow>
     grants m \<and> tem_w req = raf_tem raf \<and> raf_tem raf' = raf_tem raf \<and> raf_typ raf \<noteq> Raty_foll \<and>
     map vog (raf_nam raf') = (map vog (raf_nam raf))[k := True]"

definition gets :: "nat \<Rightarrow> u2_rmsg \<Rightarrow> u2_raft \<Rightarrow> u2_raft \<Rightarrow> bool" where
  "gets i m raf raf' \<longleftrightarrow>
     raft_later raf raf' \<and> heard raf' i = heard raf i \<and> raf_new raf' = raf_new raf \<and> (\<forall>l. l \<noteq> i \<longrightarrow> same_at raf raf' l) \<and> grows raf raf' \<and>
     (\<exists>nm q nm' q'. waits raf i = Some (nm, q) \<and> waits raf' i = Some (nm', q') \<and> named raf (sender m) nm nm' \<and>
        (case body m of
           Apen _ _ _ _ \<Rightarrow> calm raf raf' \<and> q' = q \<and> said raf' i = said raf i
         | Revo _ \<Rightarrow>
             calm raf raf' \<and> q' = q \<and>
             (\<exists>a s. said raf' i = said raf i @ [a] \<and> body a = Rasp s \<and> rmsg_ok a \<and> tem_w a = raf_tem raf' \<and>
                (s \<noteq> 0 \<longrightarrow> tem_w m = raf_tem raf' \<and> (\<exists>k. nm' = Some k \<and> raf_vog raf' = Some (str_c (raf_nam raf ! k)))))
         | Rasp s \<Rightarrow>
             said raf' i = said raf i \<and>
             ((nm = None \<or> q = []) \<and> q' = q \<and> calm raf raf' \<or>
              (\<exists>k req. nm = Some k \<and> q = req # q' \<and> (calm raf raf' \<or> counts k req m raf raf')))))"

definition names_con :: "nat \<Rightarrow> c3_y list option \<Rightarrow> u2_raft \<Rightarrow> u2_raft \<Rightarrow> bool" where
  "names_con i str raf raf' \<longleftrightarrow>
     calm raf raf' \<and> raf_new raf' = raf_new raf \<and> (\<forall>l. l \<noteq> i \<longrightarrow> same_at raf raf' l) \<and> grows raf raf' \<and> said raf' i = said raf i \<and> heard raf' i = heard raf i \<and>
     (\<exists>nm nm' q. waits raf i = Some (nm, q) \<and> waits raf' i = Some (nm', q) \<and> named raf str nm nm')"

lemma names_quietly:
  assumes "names_con i str a b" "quietly b c"
  shows "names_con i str a c"
proof -
  have "calm a c" using assms calm_trans unfolding names_con_def quietly_def by blast
  moreover have "same_at a c l" if "l \<noteq> i" for l using assms that same_at_trans unfolding names_con_def quietly_def by blast
  moreover have "grows a c" using assms grows_trans unfolding names_con_def quietly_def by blast
  ultimately show ?thesis using assms by (auto simp: names_con_def quietly_def same_at_def)
qed

lemma quietly_names_trans:
  assumes "quietly a b" "raf_nam b = raf_nam a" "names_con i str b c"
  shows "names_con i str a c"
proof -
  have "calm a c" using assms calm_trans unfolding names_con_def quietly_def by blast
  moreover have "same_at a c l" if "l \<noteq> i" for l using assms that same_at_trans unfolding names_con_def quietly_def by blast
  moreover have "grows a c" using assms grows_trans unfolding names_con_def quietly_def by blast
  ultimately show ?thesis using assms by (auto simp: names_con_def quietly_def same_at_def named_def)
qed

lemma quietly_names: "quietly a b \<Longrightarrow> waits a i \<noteq> None \<Longrightarrow> names_con i str a b"
  by (auto simp: names_con_def quietly_def same_at_def named_def)

lemma name_con_names:
  assumes "raf_con raf i = Some ron" "nam_u ron = None" "k < length (raf_nam raf)"
    and raf': "raf' = snd (raft_remove_run i (con_put i (ron\<lparr>nam_u := Some k\<rparr>) (nam_put k ((raf_nam raf ! k)\<lparr>ron_u := Some i\<rparr>) raf)))"
  shows "names_con i (Some (str_c (raf_nam raf ! k))) raf raf'"
proof -
  have eqs: "raf_con raf' = (raf_con raf)(i \<mapsto> ron\<lparr>nam_u := Some k\<rparr>)" "raf_out raf' = raf_out raf" "raf_new raf' = raf_new raf"
    "raf_nam raf' = (raf_nam raf)[k := (raf_nam raf ! k)\<lparr>ron_u := Some i\<rparr>]"
    "raf_tem raf' = raf_tem raf" "raf_typ raf' = raf_typ raf" "raf_vog raf' = raf_vog raf" "raf_str raf' = raf_str raf"
    unfolding raf' by (simp_all add: raft_remove_run_def con_put_def nam_put_def)
  have "calm raf raf'" by (rule calm_same) (simp_all add: eqs map_update_same)
  moreover have "same_at raf raf' l" if "l \<noteq> i" for l using that eqs by (intro same_at_con) auto
  ultimately show ?thesis using assms(1-3) eqs
    by (auto simp: names_con_def named_def waits_def heard_def said_def written_def intro!: grows_same)
qed

lemma rest_name_names:
  assumes ok: "raft_ok raf" and ron: "raf_con raf i = Some ron" and r: "raft_rest_name i str raf = Inr raf'"
  shows "names_con i str raf raf'"
proof -
  have w: "waits raf i \<noteq> None" using ron by (simp add: waits_def)
  show ?thesis
  proof (cases "raft_conn_dead i raf = Inr raf' \<or> raf' = raf")
    case True
    then show ?thesis using conn_dead_quietly w by (auto intro: quietly_names)
  next
    case False
    then obtain nam k raf1 ron1 where k: "nam_u ron = None" "str = Some nam" "find_nam nam (raf_nam raf) = Some k"
      and raf1: "(case ron_u (raf_nam raf ! k) of None \<Rightarrow> Inr raf | Some j \<Rightarrow> if j = i then Inl Abort else raft_conn_dead j raf) = Inr raf1"
      and ron1: "raf_con raf1 i = Some ron1"
      and raf': "raf' = snd (raft_remove_run i (con_put i (ron1\<lparr>nam_u := Some k\<rparr>) (nam_put k ((raf_nam raf1 ! k)\<lparr>ron_u := Some i\<rparr>) raf1)))"
      using r ron by (auto simp: raft_rest_name_def con_at_def rbind_eq_Inr split: option.splits if_splits)
    have q: "quietly raf raf1" and nams: "raf_nam raf1 = raf_nam raf"
      using raf1 conn_dead_quietly conn_dead_simps(2) by (auto split: option.splits if_splits)
    have "waits raf1 i = waits raf i" using q by (simp add: quietly_def same_at_def)
    then have "nam_u ron1 = None" using ron ron1 k(1) by (simp add: waits_def)
    moreover have k': "k < length (raf_nam raf1)" "str_c (raf_nam raf1 ! k) = nam" using find_nam_Some [OF k(3)] nams by simp_all
    ultimately have "names_con i (Some nam) raf1 raf'" using name_con_names [OF ron1 _ _ raf'] by simp
    then show ?thesis using quietly_names_trans [OF q nams] k(2) by simp
  qed
qed

lemma do_rest_names:
  assumes ok: "raft_ok raf" and ron: "raf_con raf i = Some ron" and r: "raft_do_rest i tem rest raf = Inr raf'"
  shows "names_con i (nam_c rest) raf raf'" "raft_ok raf'" "tem \<le> raf_tem raf'"
proof -
  have tim: "(if raf_typ raf = Raty_cand \<or> raf_typ raf = Raty_foll then raf\<lparr>raf_tim := Once\<rparr> else raf) = raf"
    using ok by (auto simp: raft_ok_def node_ok_def)
  obtain raf1 where raf1: "raft_rest_name i (nam_c rest) raf = Inr raf1" "raft_note_term raf1 tem = Inr raf'"
    using r unfolding raft_do_rest_def Let_def tim by (auto simp: rbind_eq_Inr)
  have ok1: "raft_ok raf1" using rest_name_good [OF ok ron, of "nam_c rest" True] raf1(1) by (simp add: good_Inr)
  show "names_con i (nam_c rest) raf raf'"
    by (rule names_quietly [OF rest_name_names [OF ok ron raf1(1)] note_term_quietly [OF ok1 raf1(2)]])
  show "raft_ok raf'" using do_rest_good [OF ok ron, of rest True tem] r by (simp add: good_Inr)
  show "tem \<le> raf_tem raf'" using raf1(2)
    by (auto simp: raft_note_term_def raft_demote_def Let_def split: if_splits)
qed

lemma send_rasp_says:
  assumes "raf_con raf i = Some ron" "raft_send_rasp i suc raf = Inr raf'"
  shows "\<exists>a. said raf' i = said raf i @ [a] \<and> body a = Rasp (if suc then 1 else 0) \<and> rmsg_ok a \<and> tem_w a = raf_tem raf" "calm raf raf'"
    "raf_new raf' = raf_new raf" "\<forall>l. l \<noteq> i \<longrightarrow> same_at raf raf' l" "grows raf raf'" "waits raf' i = waits raf i" "heard raf' i = heard raf i" "raf_tem raf' = raf_tem raf"
    "raf_vog raf' = raf_vog raf"
proof -
  let ?m = "raft_write_base raf (Rasp (if suc then 1 else 0))\<lparr>len_d := len_d (raft_write_base raf (Rasp (if suc then 1 else 0))) + 1\<rparr>"
  have m: "rmsg_ok ?m" by (rule rasp_msg_ok)
  obtain b where "rmsg_send ?m = Inr b" using rmsg_send_read [OF m] by blast
  then have raf': "raf' = con_put i (ron\<lparr>wri_u := wri_u ron @ [?m]\<rparr>) raf"
    using assms by (simp add: raft_send_rasp_def raft_rmsg_send_def con_at_def Let_def)
  have out: "raf_out raf' = raf_out raf" by (simp add: raf' con_put_def)
  have "said raf' i = said raf i @ [?m]" using assms(1) out by (simp add: said_def written_def raf')
  then show "\<exists>a. said raf' i = said raf i @ [a] \<and> body a = Rasp (if suc then 1 else 0) \<and> rmsg_ok a \<and> tem_w a = raf_tem raf"
    using m by (intro exI [of _ ?m]) (simp add: raft_write_base_def)
  show "calm raf raf'" by (rule calm_same) (simp_all add: raf')
  show "\<forall>l. l \<noteq> i \<longrightarrow> same_at raf raf' l" using out by (auto simp: raf' intro!: same_at_con)
  show "grows raf raf'" using out by (rule grows_same)
  show "raf_new raf' = raf_new raf" "waits raf' i = waits raf i" "heard raf' i = heard raf i" "raf_tem raf' = raf_tem raf" "raf_vog raf' = raf_vog raf"
    using assms(1) by (simp_all add: raf' waits_def heard_def)
qed

lemma do_revo_gets:
  assumes ok: "raft_ok raf" and ron: "raf_con raf i = Some ron" and m: "body m = Revo rest" and r: "raft_do_revo i (tem_w m) rest raf = Inr raf'"
  shows "gets i m raf raf'"
proof -
  obtain raf1 where raf1: "raft_do_rest i (tem_w m) rest raf = Inr raf1" using r by (auto simp: raft_do_revo_def rbind_eq_Inr)
  note n = do_rest_names [OF ok ron raf1]
  obtain nm nm' q where w: "waits raf i = Some (nm, q)" "waits raf1 i = Some (nm', q)" "named raf (nam_c rest) nm nm'"
    using n(1) by (auto simp: names_con_def)
  obtain ron1 where ron1: "raf_con raf1 i = Some ron1" "nam_u ron1 = nm'" using w(2) by (auto simp: waits_def)
  obtain k where k: "nm' = Some k" using r raf1 ron1 by (cases nm') (auto simp: raft_do_revo_def con_at_def)
  have strs: "map str_c (raf_nam raf1) = map str_c (raf_nam raf)" using n(1) by (simp add: names_con_def calm_def raft_later_def)
  have kl: "k < length (raf_nam raf1)" using con_okD [OF n(2) ron1(1)] ron1(2) k by (simp add: con_ok_def)
  have str: "str_c (raf_nam raf1 ! k) = str_c (raf_nam raf ! k)" using strs kl by (metis length_map nth_map)
  let ?str = "str_c (raf_nam raf1 ! k)"
  define g where "g \<longleftrightarrow> raf_tem raf1 \<le> tem_w m \<and> (raf_vog raf1 = None \<or> raf_vog raf1 = Some ?str) \<and>
    (raf_lat raf1 < lat_w rest \<or> raf_lat raf1 = lat_w rest \<and> raf_ent raf1 \<le> lai_d rest)"
  define raf2 where "raf2 = (if g then sist_put ''vote'' ?str (raf1\<lparr>raf_vog := Some ?str\<rparr>) else raf1)"
  have send: "raft_send_rasp i g raf2 = Inr raf'"
    using r raf1 ron1 k by (auto simp: raft_do_revo_def con_at_def Let_def g_def raf2_def)
  have "raft_later raf1 raf2" using grant_ok(2) [OF n(2) kl _ refl] by (simp add: g_def raf2_def)
  then have "calm raf1 raf2" by (auto simp: calm_def raf2_def)
  moreover have out: "raf_out raf2 = raf_out raf1" "raf_con raf2 = raf_con raf1" "raf_new raf2 = raf_new raf1" "raf_tem raf2 = raf_tem raf1"
    and vog: "g \<Longrightarrow> raf_vog raf2 = Some ?str" and gt: "g \<Longrightarrow> raf_tem raf1 \<le> tem_w m"
    by (simp_all add: raf2_def sist_put_def g_def)
  ultimately have q2: "quietly raf1 raf2" by (intro quietly_same) simp_all
  have ron2: "raf_con raf2 i = Some ron1" using ron1(1) out(2) by simp
  note s = send_rasp_says [OF ron2 send]
  note n2 = names_quietly [OF n(1) q2]
  have "calm raf raf'" using n2 s(2) calm_trans by (auto simp: names_con_def)
  moreover have "same_at raf raf' l" if "l \<noteq> i" for l using n2 s(4) that same_at_trans by (auto simp: names_con_def)
  moreover have "grows raf raf'" using n2 s(5) grows_trans by (auto simp: names_con_def)
  moreover have "raf_new raf' = raf_new raf" "said raf2 i = said raf i" using n2 s(3) by (simp_all add: names_con_def)
  moreover have "waits raf' i = Some (nm', q)" using s(6) w(2) out(2) by (simp add: waits_def)
  moreover have "g \<Longrightarrow> tem_w m = raf_tem raf' \<and> raf_vog raf' = Some (str_c (raf_nam raf ! k))" using n(3) s(8,9) str out(4) vog gt by auto
  moreover have "heard raf' i = heard raf i" using n2 s(7) by (simp add: names_con_def)
  ultimately show ?thesis using s(1,8) w m k by (auto simp: gets_def sender_def calm_def)
qed

lemma revo_done_counts:
  assumes ok: "raft_ok raf" and ron: "raf_con raf i = Some ron" "nam_u ron = Some k" and req: "req_ok raf req" "body req = Revo rest"
    and m: "body m = Rasp s" and r: "raft_revo_done i req s raf = Inr raf'"
  shows "quietly raf raf' \<or> counts k req m raf raf' \<and> raf_con raf' = raf_con raf \<and> raf_out raf' = raf_out raf \<and> raf_new raf' = raf_new raf"
proof (cases "s \<noteq> 0 \<and> tem_w req = raf_tem raf \<and> \<not> vog (raf_nam raf ! k)")
  case True
  let ?raf = "nam_put k ((raf_nam raf ! k)\<lparr>vog := True\<rparr>) raf\<lparr>raf_vot := raf_vot raf + 1\<rparr>"
  have k: "k < length (raf_nam raf)" using con_okD [OF ok ron(1)] ron(2) by (simp add: con_ok_def)
  have role: "raf_typ raf \<noteq> Raty_foll" using req True by (auto simp: req_ok_def)
  have "good False raf (Inr ?raf)" by (rule count_vote_ok [OF ok k _ role refl]) (use True in simp)
  then have ok1: "raft_ok ?raf" by (simp add: good_Inr)
  have p: "(if raf_pop raf div 2 < raf_vot raf + 1 then raft_promote ?raf else Inr ?raf) = Inr raf'"
    using r True ron by (simp add: raft_revo_done_def con_at_def)
  have "raf_nam raf' = raf_nam ?raf" "raf_tem raf' = raf_tem raf" "raf_con raf' = raf_con raf" "raf_out raf' = raf_out raf" "raf_new raf' = raf_new raf"
    using p by (auto simp: raft_promote_def nam_put_def split: if_splits)
  then show ?thesis using True role m by (simp add: counts_def grants_def map_update)
next
  case False
  then have p: "(if raf_pop raf div 2 < raf_vot raf then raft_promote raf else Inr raf) = Inr raf'"
    using r ron by (cases "s \<noteq> 0 \<and> tem_w req = raf_tem raf") (simp_all add: raft_revo_done_def con_at_def)
  then show ?thesis using promote_quietly [OF ok] by (auto split: if_splits)
qed

lemma counts_calm: "counts k req m a b \<Longrightarrow> calm b c \<Longrightarrow> raft_later a b \<Longrightarrow> raf_typ b \<noteq> Raty_foll \<Longrightarrow> calm a c \<or> counts k req m a c"
  using raft_later_trans [of a b c] by (auto simp: calm_def counts_def)

lemma do_rasp_gets:
  assumes ok: "raft_ok raf" and ron: "raf_con raf i = Some ron" and m: "body m = Rasp s" and r: "raft_do_rasp i (tem_w m) s raf = Inr raf'"
  shows "gets i m raf raf'"
proof (cases "nam_u ron = None \<or> out_u ron = []")
  case True
  then have "raft_conn_dead i raf = Inr raf'" using r by (simp add: raft_do_rasp_def con_at_ok [OF ron] split: if_splits)
  then have q: "quietly raf raf'" by (rule conn_dead_quietly)
  have w: "waits raf i = Some (nam_u ron, out_u ron)" using ron by (simp add: waits_def)
  have "named raf (sender m) (nam_u ron) (nam_u ron)" by (simp add: named_def)
  then show ?thesis using q w True m unfolding gets_def quietly_def same_at_def calm_def by auto
next
  case False
  then obtain k req q where k: "nam_u ron = Some k" and out: "out_u ron = req # q" by (cases "out_u ron") auto
  have req: "req_ok raf req" using con_okD [OF ok ron] out by (simp add: con_ok_def)
  let ?d = "case body req of Apen _ _ _ _ \<Rightarrow> Inr raf | Revo _ \<Rightarrow> raft_revo_done i req s raf | Rasp _ \<Rightarrow> Inl Abort"
  obtain raf1 raf2 ron2 where raf1: "?d = Inr raf1" and raf2: "raft_note_term raf1 (tem_w m) = Inr raf2"
    and ron2: "raf_con raf2 i = Some ron2" and raf': "raf' = con_put i (ron2\<lparr>out_u := tl (out_u ron2)\<rparr>) raf2"
    using r k out ron by (auto simp: raft_do_rasp_def con_at_def rbind_eq_Inr split: option.splits)
  have "good False raf ?d" using ok req revo_done_good [OF ok ron k req] by (auto simp: good_Inr req_ok_def split: u2_rbody.splits)
  then have g: "raft_ok raf1" "raft_later raf raf1" using raf1 by (simp_all add: good_Inr)
  have e1: "quietly raf raf1 \<or> counts k req m raf raf1 \<and> raf_con raf1 = raf_con raf \<and> raf_out raf1 = raf_out raf \<and> raf_new raf1 = raf_new raf"
    using raf1 revo_done_counts [OF ok ron k req _ m] by (auto split: u2_rbody.splits)
  then have s1: "\<forall>l. same_at raf raf1 l" "grows raf raf1" "raf_new raf1 = raf_new raf" "calm raf raf1 \<or> counts k req m raf raf1"
    by (auto simp: quietly_def intro: same_at_con grows_same)
  have q2: "quietly raf1 raf2" by (rule note_term_quietly [OF g(1) raf2])
  have s2: "\<forall>l. same_at raf raf2 l" "grows raf raf2" "raf_new raf2 = raf_new raf"
    using s1 q2 same_at_trans grows_trans unfolding quietly_def by (blast, blast, simp)
  have "calm raf raf2 \<or> counts k req m raf raf2"
  proof (cases "calm raf raf1")
    case True
    then show ?thesis using q2 calm_trans by (auto simp: quietly_def)
  next
    case False
    then have c: "counts k req m raf raf1" using s1(4) by blast
    have "raf_typ raf1 \<noteq> Raty_foll" using False g(2) by (auto simp: calm_def)
    then show ?thesis using counts_calm [OF c _ g(2)] q2 by (simp add: quietly_def)
  qed
  moreover have out': "raf_out raf' = raf_out raf2" by (simp add: raf' con_put_def)
  have "calm raf2 raf'" by (rule calm_same) (simp_all add: raf')
  moreover have "raf_tem raf' = raf_tem raf2" "raf_nam raf' = raf_nam raf2" by (simp_all add: raf')
  ultimately have c: "calm raf raf' \<or> counts k req m raf raf'" using calm_trans by (auto simp: counts_def)
  have "waits raf2 i = Some (Some k, req # q)" using s2(1) ron k out by (auto simp: same_at_def waits_def)
  then have w: "waits raf i = Some (Some k, req # q)" "waits raf' i = Some (Some k, q)" using ron2 ron k out by (auto simp: waits_def raf')
  have "same_at raf2 raf' l" if "l \<noteq> i" for l using that out' by (intro same_at_con) (auto simp: raf')
  then have "\<forall>l. l \<noteq> i \<longrightarrow> same_at raf raf' l" using s2(1) same_at_trans by blast
  moreover have "said raf' i = said raf2 i" using ron2 out' by (simp add: said_def written_def raf')
  then have "said raf' i = said raf i" using s2(1) by (simp add: same_at_def)
  moreover have "heard raf' i = heard raf2 i" using ron2 by (simp add: heard_def raf')
  then have "heard raf' i = heard raf i" using s2(1) by (simp add: same_at_def)
  moreover have "grows raf raf'" using grows_trans [OF s2(2) grows_same [OF out']] .
  moreover have "raft_later raf raf'" using do_rasp_good [OF ok ron, of False "tem_w m" s] r by (simp add: good_Inr)
  moreover have "raf_new raf' = raf_new raf" using s2(3) by (simp add: raf')
  moreover have "named raf (sender m) (Some k) (Some k)" by (simp add: named_def)
  ultimately show ?thesis using w c m unfolding gets_def by auto
qed

lemma do_msg_gets:
  assumes ok: "raft_ok raf" and ron: "raf_con raf i = Some ron" and r: "raft_do_msg i m raf = Inr raf'"
  shows "gets i m raf raf'" "raft_ok raf'"
proof -
  show "raft_ok raf'" using do_msg_good [OF ok ron, of m] r by (simp add: good_Inr)
  show "gets i m raf raf'"
  proof (cases "body m")
    case (Apen rest c n es)
    then have "names_con i (nam_c rest) raf raf'"
      using do_rest_names(1) [OF ok ron] r by (simp add: raft_do_msg_def raft_do_apen_def)
    then show ?thesis using Apen unfolding names_con_def gets_def sender_def calm_def by auto
  qed (use do_revo_gets [OF ok ron] do_rasp_gets [OF ok ron] r in \<open>auto simp: raft_do_msg_def\<close>)
qed

section \<open>Events as effects\<close>

lemma free_frees:
  assumes ron: "raf_con raf i = Some ron" and out: "raf_out raf' = raf_out raf" "raf_con raf' = (raf_con raf)(i := None)" "raf_new raf' = raf_new raf" "calm raf raf'"
  shows "frees i raf raf'"
  using out by (auto simp: frees_def waits_def said_def written_def intro!: same_at_con grows_same)

lemma conn_free_frees:
  assumes ron: "raf_con raf i = Some ron" and r: "raft_conn_free i raf = Inr raf'"
  shows "frees i raf raf'"
proof -
  have eqs: "raf_out raf' = raf_out raf \<and> raf_con raf' = (raf_con raf)(i := None) \<and> raf_new raf' = raf_new raf \<and> raf_typ raf' = raf_typ raf \<and>
    raf_tem raf' = raf_tem raf \<and> raf_vog raf' = raf_vog raf \<and> raf_str raf' = raf_str raf \<and>
    map str_c (raf_nam raf') = map str_c (raf_nam raf) \<and> map vog (raf_nam raf') = map vog (raf_nam raf)"
    using r by (cases "nam_u ron") (auto simp: raft_conn_free_def con_at_ok [OF ron] raft_remove_run_def nam_put_def map_update_same split: if_splits)
  then show ?thesis by (intro free_frees [OF ron]) (auto intro: calm_same)
qed

lemma shut_quietly: "quietly raf (raf\<lparr>raf_shut := x\<rparr>)"
  by (rule quietly_same) (simp_all add: calm_same)

lemma close_moves:
  assumes ok: "raft_ok raf" and ron: "raf_con raf i = Some ron" and r: "raft_event uvw (Close i) raf = Inr raf'"
  shows "moves raf raf'"
proof -
  have ok': "raft_ok raf'" using free_fine [OF ok ron, of False] r by (simp add: raft_event_def fine_def)
  obtain raf1 where raf1: "raft_conn_free i raf = Inr raf1" "raf' = raf1\<lparr>raf_shut := remove1 i (raf_shut raf1)\<rparr>"
    using r by (auto simp: raft_event_def rbind_eq_Inr)
  have "frees i raf raf'"
    using conn_free_frees [OF ron raf1(1)] shut_quietly [of raf1 "remove1 i (raf_shut raf1)"] raf1(2) calm_trans grows_trans
    unfolding frees_def quietly_def same_at_def by (metis (no_types, lifting))
  then show ?thesis using ok ok' by (meson moves.intros)
qed

lemma time_moves:
  assumes ok: "raft_ok raf" and tem: "raf_tem raf \<noteq> - 1" and r: "raft_event uvw Timer raf = Inr raf'"
  shows "moves raf raf'"
proof (cases "raf_typ raf = Raty_lead")
  case True
  then have "raf_tim raf = Every" using ok by (simp add: raft_ok_def node_ok_def)
  then show ?thesis using True r conn_all_moves [OF ok send_beat_quiet asker_beat]
    by (simp add: raft_event_def raft_time_cb_def raft_heartbeat_def)
next
  case False
  have n: "raf_tim raf = Once" "raf_typ raf \<noteq> Raty_none" using ok False by (auto simp: raft_ok_def node_ok_def)
  let ?raf = "sist_put ''vote'' (raf_str raf) (sist_put ''term'' (le_put 4 (raf_tem raf + 1)) (raf\<lparr>raf_tim := Once, raf_typ := Raty_cand, raf_tem := raf_tem raf + 1\<rparr>)
      \<lparr>raf_nam := map (\<lambda>nam. nam\<lparr>vog := False\<rparr>) (raf_nam raf), raf_vot := 1, raf_vog := Some (raf_str raf)\<rparr>)"
  have "good False raf (Inr ?raf)" by (rule election_ok(1) [OF ok tem False refl refl])
  then have ok1: "raft_ok ?raf" "raft_later raf ?raf" by (simp_all add: good_Inr)
  have ev: "raft_event uvw Timer raf = raft_conn_all uvw raft_send_revo ?raf"
    using n False by (cases "raf_typ raf")
      (auto simp: raft_event_def raft_time_cb_def raft_start_election_def sist_put_def Let_def
        intro!: arg_cong [where f = "raft_conn_all uvw raft_send_revo"] u2_raft.equality)
  have "calm raf ?raf" using ok1(2) by (auto simp: calm_def)
  then have q: "quietly raf ?raf" by (intro quietly_same) (simp_all add: sist_put_def)
  have "sends_ok raft_send_revo ?raf" by (rule send_revo_quiet) simp
  then have "moves ?raf raf'" using conn_all_moves [OF ok1(1) _ asker_revo] r ev by simp
  then show ?thesis using moves_quietly [OF moves_refl ok q ok1(1)] by (rule moves_trans)
qed

lemma listen_opens:
  assumes ok: "raft_ok raf" and r: "raft_event uvw (Listen True) raf = Inr raf'"
  shows "opens None raf raf'" "raft_ok raf'"
proof -
  let ?ron = "\<lparr>nam_u = None, red_u = None, red = False, wri_u = [], out_u = [], liv = True\<rparr>"
  have raf': "raf' = raf\<lparr>raf_new := Suc (raf_new raf), raf_con := (raf_con raf)(raf_new raf \<mapsto> ?ron), raf_run := raf_new raf # raf_run raf\<rparr>"
    using r by (simp add: raft_event_def raft_listen_cb_def raft_conn_new_def con_at_def con_put_def)
  have "calm raf raf'" by (rule calm_same) (simp_all add: raf')
  then show "opens None raf raf'" by (intro opens_put [OF ok, where ron = ?ron]) (simp_all add: raf')
  show "raft_ok raf'" using listen_fine [OF ok, of False True] r by (simp add: raft_event_def fine_def)
qed

lemma connect_quietly:
  assumes ok: "raft_ok raf" and e: "raft_enabled (Connect i b) raf" and r: "raft_event uvw (Connect i b) raf = Inr raf'"
  shows "quietly raf raf'"
proof -
  obtain ron where ron: "raf_con raf i = Some ron" "\<not> liv ron" "i \<notin> set (raf_shut raf)"
    using e by (auto simp: raft_enabled_def pending_def split: option.splits)
  show ?thesis
  proof (cases b)
    case True
    let ?raf = "con_put i (ron\<lparr>liv := True\<rparr>) raf"
    have q: "quietly raf ?raf" by (rule con_put_quietly [OF ron(1)]) simp_all
    have "raft_conn_work uvw i ?raf = Inr raf'" using True r ron(1) by (simp add: raft_event_def raft_connect_cb_def con_at_ok split: if_splits)
    moreover have "\<not> red ron" using con_okD [OF ok ron(1)] by (simp add: con_ok_def)
    ultimately have "conn_writes uvw i ?raf = Inr raf'" by (simp add: raft_conn_work_def conn_reads_def con_at_def)
    then show ?thesis using writes_quietly quietly_trans [OF q] by blast
  next
    case False
    then show ?thesis using r shut_quietly by (auto simp: raft_event_def raft_connect_cb_def con_at_ok [OF ron(1)])
  qed
qed

text \<open>What is not the arrival of bytes is a series of effects of the node's own.\<close>

theorem event_moves:
  assumes ok: "raft_ok raf" and e: "raft_enabled e raf" "e = Timer \<longrightarrow> raf_tem raf \<noteq> - 1" "\<And>i bs. e \<noteq> Read i (Some bs)"
    and r: "raft_event uvw e raf = Inr raf'"
  shows "moves raf raf'" "raft_ok raf'"
proof -
  have "\<not> hostile_event e raf" using e(3) by (auto simp: hostile_event_def split: revent.splits option.splits)
  then show ok': "raft_ok raf'" using event_fine [OF ok e(1), of uvw] e(2) r by (auto simp: fine_def)
  have quiet: "moves raf raf'" if "quietly raf raf'" using moves_quietly [OF moves_refl ok that ok'] .
  show "moves raf raf'"
  proof (cases e)
    case (Read i bs)
    then show ?thesis using e(3) r quiet conn_dead_quietly by (cases bs) (auto simp: raft_event_def raft_conn_read_cb_def)
  next
    case (Wrote i b)
    then show ?thesis using r quiet conn_dead_quietly moves_refl by (auto simp: raft_event_def raft_write_cb_def split: if_splits)
  next
    case (Listen b)
    show ?thesis
    proof (cases b)
      case True
      then have "raft_event uvw (Listen True) raf = Inr raf'" using Listen r by simp
      then show ?thesis using listen_opens [OF ok] moves_opens [OF moves_refl ok] by blast
    qed (use Listen r moves_refl in \<open>auto simp: raft_event_def raft_listen_cb_def\<close>)
  next
    case (Connect i b)
    then show ?thesis using quiet connect_quietly [OF ok] e(1) r by blast
  next
    case (Lookup i b)
    then obtain ron where ron: "raf_con raf i = Some ron" using e(1) by (auto simp: raft_enabled_def pending_def split: option.splits)
    show ?thesis
    proof (cases b)
      case False
      then have "frees i raf raf'" using conn_free_frees [OF ron] Lookup r by (simp add: raft_event_def raft_getaddrinfo_cb_def)
      then show ?thesis using moves_frees [OF moves_refl ok _ ok'] by blast
    qed (use Lookup r moves_refl in \<open>auto simp: raft_event_def raft_getaddrinfo_cb_def\<close>)
  next
    case (Close i)
    then obtain ron where "raf_con raf i = Some ron" using e(1) ok by (auto simp: raft_enabled_def raft_ok_def cons_ok_def)
    then show ?thesis using close_moves [OF ok] Close r by blast
  qed (use time_moves [OF ok] e(2) r in auto)
qed

section \<open>The arrival of bytes\<close>

definition enc :: "u2_rmsg list \<Rightarrow> c3_y list" where
  "enc ms = concat (map (\<lambda>m. case rmsg_send m of Inl _ \<Rightarrow> [] | Inr bs \<Rightarrow> bs) ms)"

lemma enc_simps [simp]: "enc [] = []" "enc (a @ b) = enc a @ enc b"
  by (simp_all add: enc_def)

lemma enc_Cons: "enc (m # ms) = enc [m] @ enc ms"
  by (simp add: enc_def)

lemma enc_frames:
  "\<lbrakk>\<forall>m\<in>set ms. rmsg_ok m; buf @ rest = enc ms\<rbrakk> \<Longrightarrow>
   \<exists>n left. n \<le> length ms \<and> buf = enc (take n ms) @ left \<and> rmsg_read left = Inr Rpart"
proof (induction ms arbitrary: buf)
  case Nil
  then have "buf = []" "rmsg_read [] = Inr Rpart" by (simp_all add: rmsg_read_def)
  then show ?case by auto
next
  case (Cons m ms)
  obtain bs where bs: "rmsg_send m = Inr bs" "\<forall>k<length bs. rmsg_read (take k bs) = Inr Rpart"
    using rmsg_send_read [of m] Cons.prems(1) by auto
  have m: "enc (m # ms) = bs @ enc ms" using bs(1) by (simp add: enc_def)
  show ?case
  proof (cases "length buf < length bs")
    case True
    then have "buf = take (length buf) bs" using Cons.prems(2) m by (simp add: append_eq_append_conv_if)
    then have "rmsg_read buf = Inr Rpart" using bs(2) True by metis
    then show ?thesis by (intro exI [of _ 0] exI [of _ buf]) simp
  next
    case False
    then obtain buf' where buf': "buf = bs @ buf'" "buf' @ rest = enc ms"
      using Cons.prems(2) m by (auto simp: append_eq_append_conv2)
    obtain n left where n: "n \<le> length ms" "buf' = enc (take n ms) @ left" "rmsg_read left = Inr Rpart"
      using Cons.IH [OF _ buf'(2)] Cons.prems(1) by auto
    then show ?thesis using buf'(1) bs(1)
      by (intro exI [of _ "Suc n"] exI [of _ left]) (simp add: enc_Cons [of m "take n ms"], simp add: enc_def)
  qed
qed

lemma work_loop_enc:
  assumes "\<forall>m\<in>set ms. rmsg_ok m" "rmsg_read left = Inr Rpart"
  shows "work_loop f (enc ms @ left) s = rbind (rfold f ms s) (\<lambda>s. Inr (s, left, False))"
proof -
  have "\<exists>bss. map rmsg_send ms = map Inr bss \<and> enc ms = concat bss" (is "\<exists>bss. ?P bss")
    using assms(1)
  proof (induction ms)
    case (Cons m ms)
    then obtain bss where "map rmsg_send ms = map Inr bss" "enc ms = concat bss" by auto
    moreover obtain bs where "rmsg_send m = Inr bs" using rmsg_send_read [of m] Cons.prems by auto
    ultimately show ?case by (intro exI [of _ "bs # bss"]) (simp add: enc_def)
  qed simp
  then obtain bss where bss: "?P bss" ..
  have "work_loop f (concat bss @ left) s = rbind (rfold f ms s) (work_loop f left)"
    by (rule work_loop_sent [OF assms(1)]) (use bss in simp)
  then show ?thesis using bss work_loop_part [OF assms(2), of f] by (cases "rfold f ms s") simp_all
qed

definition fills :: "nat \<Rightarrow> u2_raft \<Rightarrow> u2_raft \<Rightarrow> bool" where
  "fills i raf raf' \<longleftrightarrow>
     calm raf raf' \<and> raf_new raf' = raf_new raf \<and> (\<forall>l. l \<noteq> i \<longrightarrow> same_at raf raf' l) \<and> waits raf' i = waits raf i \<and> said raf' i = said raf i \<and>
     grows raf raf'"

lemma con_put_fills:
  assumes "raf_con raf i = Some ron" "nam_u ron' = nam_u ron" "out_u ron' = out_u ron" "wri_u ron' = wri_u ron"
  shows "fills i raf (con_put i ron' raf)"
proof -
  have "same_at raf (con_put i ron' raf) l" if "l \<noteq> i" for l using that by (intro same_at_con) (auto simp: con_put_def)
  moreover have "raf_out (con_put i ron' raf) = raf_out raf" by (simp add: con_put_def)
  ultimately show ?thesis using assms by (auto simp: fills_def waits_def said_def written_def intro!: calm_same grows_same)
qed

lemma fills_quietly:
  assumes "fills i a b" "quietly b c"
  shows "fills i a c" "heard c i = heard b i"
proof -
  have "calm a c" using assms calm_trans unfolding fills_def quietly_def by blast
  moreover have "same_at a c l" if "l \<noteq> i" for l using assms that same_at_trans unfolding fills_def quietly_def by blast
  moreover have "grows a c" using assms grows_trans unfolding fills_def quietly_def by blast
  ultimately show "fills i a c" "heard c i = heard b i" using assms by (auto simp: fills_def quietly_def same_at_def)
qed

lemma do_msgs_ok:
  "\<lbrakk>raft_ok raf; raf_con raf i \<noteq> None; rfold (raft_do_msg i) ms raf = Inr raf'\<rbrakk> \<Longrightarrow> raft_ok raf' \<and> raf_con raf' i \<noteq> None \<and> heard raf' i = heard raf i"
proof (induction ms arbitrary: raf)
  case (Cons m ms)
  obtain raf1 ron where r: "raft_do_msg i m raf = Inr raf1" "rfold (raft_do_msg i) ms raf1 = Inr raf'" and ron: "raf_con raf i = Some ron"
    using Cons.prems by (auto simp: rbind_eq_Inr)
  note g = do_msg_gets [OF Cons.prems(1) ron r(1)]
  have "heard raf1 i = heard raf i" using g(1) by (simp add: gets_def)
  moreover from this have "raf_con raf1 i \<noteq> None" using ron by (auto simp: heard_def)
  ultimately show ?case using Cons.IH [OF g(2) _ r(2)] by simp
qed simp

lemma read_effect:
  assumes ok: "raft_ok raf" and ron: "raf_con raf i = Some ron" "liv ron" and bs: "bs \<noteq> []"
    and ms: "\<forall>m\<in>set ms. rmsg_ok m" "rbuf_bytes (red_u ron) @ bs @ rest = enc ms"
    and r: "raft_event uvw (Read i (Some bs)) raf = Inr raf'"
  shows "\<exists>n left raf1 raf2. n \<le> length ms \<and> rbuf_bytes (red_u ron) @ bs = enc (take n ms) @ left \<and> fills i raf raf1 \<and> raft_ok raf1 \<and> raf_con raf1 i \<noteq> None \<and>
    rfold (raft_do_msg i) (take n ms) raf1 = Inr raf2 \<and> raft_ok raf2 \<and> fills i raf2 raf' \<and> heard raf' i = Some left \<and> raft_ok raf'"
proof -
  obtain buf where buf: "rbuf_grow (red_u ron) bs = Inr buf"
    using r bs ron by (auto simp: raft_event_def raft_conn_read_cb_def con_at_def rbind_eq_Inr)
  then have bytes: "buf_y buf = rbuf_bytes (red_u ron) @ bs" by (rule rbuf_grow_cases(2))
  then have "buf_y buf @ rest = enc ms" using ms(2) by simp
  then obtain n left where n: "n \<le> length ms" "buf_y buf = enc (take n ms) @ left" "rmsg_read left = Inr Rpart"
    using enc_frames [OF ms(1)] by blast
  have "\<forall>m\<in>set (take n ms). rmsg_ok m" using ms(1) by (meson in_set_takeD)
  then have loop: "work_loop (raft_do_msg i) (buf_y buf) s = rbind (rfold (raft_do_msg i) (take n ms) s) (\<lambda>s. Inr (s, left, False))" for s
    using work_loop_enc [OF _ n(3)] n(2) by simp
  let ?raf = "con_put i (ron\<lparr>red_u := Some buf, red := False\<rparr>) raf"
  have ok1: "raft_ok ?raf" by (rule con_put_ok [OF ok ron(1)]; use con_okD [OF ok ron(1)] in \<open>simp add: con_ok_def\<close>)
  have f1: "fills i raf ?raf" by (rule con_put_fills [OF ron(1)]) simp_all
  have c: "rbind (rbind (work_loop (raft_do_msg i) (buf_y buf) ?raf) (\<lambda>(raf, left, bad). rbind (con_at raf i) (\<lambda>ron.
      let raf = con_put i (ron\<lparr>red_u := Some (buf\<lparr>buf_y := left\<rparr>)\<rparr>) raf in if bad then raft_conn_dead i raf else Inr raf))) (conn_writes uvw i) = Inr raf'"
    using r bs ron buf by (simp add: raft_event_def raft_conn_read_cb_def con_at_def raft_conn_work_def conn_reads_def con_put_def)
  obtain raf2 where raf2: "rfold (raft_do_msg i) (take n ms) ?raf = Inr raf2"
    using c loop by (cases "rfold (raft_do_msg i) (take n ms) ?raf") simp_all
  obtain ron2 where ron2: "raf_con raf2 i = Some ron2" using do_msgs_ok [OF ok1 _ raf2] by auto
  have w: "conn_writes uvw i (con_put i (ron2\<lparr>red_u := Some (buf\<lparr>buf_y := left\<rparr>)\<rparr>) raf2) = Inr raf'"
    using c loop raf2 ron2 by (simp add: con_at_def)
  let ?raf2 = "con_put i (ron2\<lparr>red_u := Some (buf\<lparr>buf_y := left\<rparr>)\<rparr>) raf2"
  have ok2: "raft_ok raf2" using do_msgs_ok [OF ok1 _ raf2] by simp
  have ok3: "raft_ok ?raf2" by (rule con_put_ok [OF ok2 ron2]; use con_okD [OF ok2 ron2] in \<open>simp add: con_ok_def\<close>)
  have f2: "fills i raf2 ?raf2" by (rule con_put_fills [OF ron2]) simp_all
  have "raft_ok raf'" using conn_writes_good [OF ok3, of i _ False uvw] w by (simp add: good_Inr)
  moreover have "heard ?raf2 i = Some left" by (simp add: heard_def rbuf_bytes_def)
  ultimately show ?thesis using n(1,2) bytes f1 ok1 raf2 ok2 fills_quietly [OF f2 writes_quietly [OF w]]
    by (intro exI [of _ n] exI [of _ left] exI [of _ ?raf] exI [of _ raf2]) simp
qed

end
