(* ===== verification/Raft_Net.thy ===== *)
theory Raft_Net
  imports Raft_Step
begin

text \<open>
  A cluster: nodes that run \<^verbatim>\<open>v/raft.c\<close> and the connections between them. A connection of one node is linked to one of another;
  the bytes that one end has written come out at the other in order, in chunks of any size and after any time. Nodes may stop
  and connections break at any moment. Shown: no term has two leaders.
\<close>

section \<open>Clusters\<close>

record rnet =
  node :: "nat \<Rightarrow> u2_raft"
  link :: "nat \<times> nat \<rightharpoonup> nat \<times> nat"
  seen :: "nat \<times> nat \<Rightarrow> nat"

definition own_event :: "revent \<Rightarrow> bool" where
  "own_event e = (case e of Read _ bs \<Rightarrow> bs = None | _ \<Rightarrow> True)"

text \<open>
  A node makes an event of its own; a connection that is on its way is accepted by the node whose name it was made for; bytes
  arrive.
\<close>

inductive net_step :: "nat \<Rightarrow> rnet \<Rightarrow> rnet \<Rightarrow> bool" for n where
  net_own: "a < n \<Longrightarrow> own_event e \<Longrightarrow> raft_enabled e (node N a) \<Longrightarrow> e = Timer \<longrightarrow> raf_tem (node N a) \<noteq> - 1 \<Longrightarrow>
    raft_event uvw e (node N a) = Inr raf' \<Longrightarrow> net_step n N (N\<lparr>node := (node N)(a := raf')\<rparr>)"
| net_accept: "a < n \<Longrightarrow> b < n \<Longrightarrow> raf_con (node N a) i = Some ron \<Longrightarrow> nam_u ron = Some k \<Longrightarrow> link N (a, i) = None \<Longrightarrow>
    raf_str (node N b) = str_c (raf_nam (node N a) ! k) \<Longrightarrow> raft_event uvw (Listen True) (node N b) = Inr raf' \<Longrightarrow>
    net_step n N (N\<lparr>node := (node N)(b := raf'), link := (link N)((a, i) \<mapsto> (b, raf_new (node N b)), (b, raf_new (node N b)) \<mapsto> (a, i)),
      seen := (seen N)((a, i) := 0, (b, raf_new (node N b)) := 0)\<rparr>)"
| net_bytes: "link N (b, j) = Some (a, i) \<Longrightarrow> raft_enabled (Read j (Some bs)) (node N b) \<Longrightarrow> bs \<noteq> [] \<Longrightarrow>
    enc (written (node N a) i) = take (seen N (b, j)) (enc (written (node N a) i)) @ bs @ rest \<Longrightarrow>
    raft_event uvw (Read j (Some bs)) (node N b) = Inr raf' \<Longrightarrow>
    net_step n N (N\<lparr>node := (node N)(b := raf'), seen := (seen N)((b, j) := seen N (b, j) + length bs)\<rparr>)"

definition net_names :: "nat \<Rightarrow> rnet \<Rightarrow> bool" where
  "net_names n N \<longleftrightarrow>
     inj_on (\<lambda>a. raf_str (node N a)) {..<n} \<and>
     (\<forall>a<n. raft_ok (node N a) \<and> distinct (map str_c (raf_nam (node N a))) \<and>
        set (map str_c (raf_nam (node N a))) = (\<lambda>b. raf_str (node N b)) ` ({..<n} - {a}))"

definition net_start :: "nat \<Rightarrow> rnet \<Rightarrow> bool" where
  "net_start n N \<longleftrightarrow>
     net_names n N \<and> link N = Map.empty \<and>
     (\<forall>a<n. raf_typ (node N a) = Raty_foll \<and> raf_con (node N a) = Map.empty \<and> raf_out (node N a) = [])"

inductive net_run :: "nat \<Rightarrow> rnet \<Rightarrow> rnet \<Rightarrow> bool" for n N where
  net_nil: "net_run n N N"
| net_next: "net_run n N M \<Longrightarrow> net_step n M L \<Longrightarrow> net_run n N L"

section \<open>Requests and what is due to them\<close>

text \<open>
  The requests of a connection in order, and the answers on their way to it followed by the questions on their way from it: each of
  these belongs to a request that is not earlier than the one in the same place.
\<close>

definition matched :: "u2_rmsg list \<Rightarrow> c3_w option list \<Rightarrow> c3_w \<Rightarrow> bool" where
  "matched q d tem \<longleftrightarrow>
     (\<exists>ts q1 q2. q = q1 @ q2 \<and> list_all2 (\<lambda>m t. tem_w m \<le> t) q1 ts \<and> list_all2 (\<lambda>x t. x = None \<or> x = Some t) d ts \<and> (\<forall>t\<in>set ts. t \<le> tem))"

lemma matchedI:
  "\<lbrakk>q = q1 @ q2; list_all2 (\<lambda>m t. tem_w m \<le> t) q1 ts; list_all2 (\<lambda>x t. x = None \<or> x = Some t) d ts; \<forall>t\<in>set ts. t \<le> tem\<rbrakk> \<Longrightarrow> matched q d tem"
  unfolding matched_def by blast

lemma matched_Nil [simp]: "matched q [] tem"
  by (rule matchedI [of _ "[]" q "[]"]) simp_all

lemma matched_mono: "matched q d tem \<Longrightarrow> tem \<le> tem' \<Longrightarrow> matched q d tem'"
  by (auto simp: matched_def [of q d tem] intro!: matchedI)

lemma matched_prefix:
  assumes "matched q (d1 @ d2) tem"
  shows "matched q d1 tem"
proof -
  obtain ts q1 q2 where m: "q = q1 @ q2" "list_all2 (\<lambda>m t. tem_w m \<le> t) q1 ts" "list_all2 (\<lambda>x t. x = None \<or> x = Some t) (d1 @ d2) ts" "\<forall>t\<in>set ts. t \<le> tem"
    using assms by (auto simp: matched_def)
  obtain ts1 ts2 where ts: "ts = ts1 @ ts2" "list_all2 (\<lambda>x t. x = None \<or> x = Some t) d1 ts1" using m(3) by (auto simp: list_all2_append1)
  then obtain u v where "q1 = u @ v" "list_all2 (\<lambda>m t. tem_w m \<le> t) u ts1" using m(2) by (auto simp: list_all2_append2)
  then show ?thesis using m(1,4) ts by (intro matchedI [of q u "v @ q2" ts1]) simp_all
qed

lemma matched_ask:
  assumes "matched q d tem" "\<forall>m\<in>set q. tem_w m \<le> tem" "tem_w m \<le> tem"
  shows "matched (q @ [m]) d tem" "matched (q @ [m]) (d @ [Some tem]) tem"
proof -
  obtain ts q1 q2 where q: "q = q1 @ q2" "list_all2 (\<lambda>m t. tem_w m \<le> t) q1 ts" "list_all2 (\<lambda>x t. x = None \<or> x = Some t) d ts" "\<forall>t\<in>set ts. t \<le> tem"
    using assms(1) by (auto simp: matched_def)
  then show "matched (q @ [m]) d tem" by (intro matchedI [of _ q1 "q2 @ [m]" ts]) simp_all
  obtain p r where "q2 @ [m] = p # r" by (cases "q2 @ [m]") auto
  moreover from this have "p \<in> set q \<or> p = m" using q(1) by (cases q2) auto
  ultimately show "matched (q @ [m]) (d @ [Some tem]) tem" using q assms(2,3)
    by (intro matchedI [of _ "q1 @ [p]" r "ts @ [tem]"]) (auto intro!: list_all2_appendI)
qed

lemma matched_weaken:
  assumes "matched q d tem" "list_all2 (\<lambda>x y. x = None \<or> x = y) d' d"
  shows "matched q d' tem"
proof -
  obtain ts q1 q2 where q: "q = q1 @ q2" "list_all2 (\<lambda>m t. tem_w m \<le> t) q1 ts" "list_all2 (\<lambda>x t. x = None \<or> x = Some t) d ts" "\<forall>t\<in>set ts. t \<le> tem"
    using assms(1) by (auto simp: matched_def)
  have "list_all2 (\<lambda>x t. x = None \<or> x = Some t) d' ts" by (rule list_all2_trans [OF _ assms(2) q(3)]) auto
  then show ?thesis using q by (intro matchedI [of q q1 q2 ts])
qed

lemma matched_Cons:
  assumes "matched (m # q) (x # d) tem"
  shows "matched q d tem" "x = Some t \<Longrightarrow> tem_w m = tem \<Longrightarrow> t = tem"
proof -
  obtain ts q1 q2 where q: "m # q = q1 @ q2" "list_all2 (\<lambda>m t. tem_w m \<le> t) q1 ts" "list_all2 (\<lambda>x t. x = None \<or> x = Some t) (x # d) ts" "\<forall>t\<in>set ts. t \<le> tem"
    using assms by (auto simp: matched_def)
  then obtain t' ts' q1' where ts: "ts = t' # ts'" "x = None \<or> x = Some t'" "list_all2 (\<lambda>x t. x = None \<or> x = Some t) d ts'" "q1 = m # q1'" "q = q1' @ q2"
      "tem_w m \<le> t'" "list_all2 (\<lambda>m t. tem_w m \<le> t) q1' ts'"
    by (auto simp: list_all2_Cons1 Cons_eq_append_conv)
  then show "matched q d tem" using q(4) by (intro matchedI [of q q1' q2 ts']) simp_all
  show "x = Some t \<Longrightarrow> tem_w m = tem \<Longrightarrow> t = tem" using ts q(4) by auto
qed

lemma matched_empty [simp]: "\<not> matched [] (x # d) tem"
  by (auto simp: matched_def list_all2_Cons1)

section \<open>The invariant\<close>

definition is_rasp :: "u2_rmsg \<Rightarrow> bool" where
  "is_rasp m = (case body m of Rasp _ \<Rightarrow> True | _ \<Rightarrow> False)"

definition is_revo :: "u2_rmsg \<Rightarrow> bool" where
  "is_revo m = (case body m of Revo _ \<Rightarrow> True | _ \<Rightarrow> False)"

definition answers :: "u2_rmsg list \<Rightarrow> c3_w option list" where
  "answers ms = map (\<lambda>m. if grants m then Some (tem_w m) else None) (filter is_rasp ms)"

definition questions :: "u2_rmsg list \<Rightarrow> c3_w option list" where
  "questions ms = map (\<lambda>m. Some (tem_w m)) (filter is_revo ms)"

text \<open>\<open>dn\<close> says how many messages of the other end were worked on.\<close>

definition due :: "rnet \<Rightarrow> (nat \<times> nat \<Rightarrow> nat) \<Rightarrow> nat \<Rightarrow> nat \<Rightarrow> c3_w option list" where
  "due N dn a i =
     (case link N (a, i) of
        None \<Rightarrow> questions (said (node N a) i)
      | Some (b, j) \<Rightarrow>
          answers (drop (dn (a, i)) (said (node N b) j)) @
          (if waits (node N b) j = None then [] else questions (drop (dn (b, j)) (said (node N a) i))))"

definition net_links :: "nat \<Rightarrow> rnet \<Rightarrow> bool" where
  "net_links n N \<longleftrightarrow>
     (\<forall>a i b j. link N (a, i) = Some (b, j) \<longrightarrow> link N (b, j) = Some (a, i) \<and> a < n \<and> a \<noteq> b \<and> i < raf_new (node N a))"

definition net_said :: "nat \<Rightarrow> rnet \<Rightarrow> bool" where
  "net_said n N \<longleftrightarrow>
     (\<forall>a<n. \<forall>i. (raf_new (node N a) \<le> i \<longrightarrow> said (node N a) i = []) \<and>
        (\<forall>m\<in>set (said (node N a) i). rmsg_ok m \<and> (if is_rasp m then link N (a, i) \<noteq> None else sender m = Some (raf_str (node N a)))))"

definition net_waits :: "nat \<Rightarrow> rnet \<Rightarrow> bool" where
  "net_waits n N \<longleftrightarrow>
     (\<forall>a<n. \<forall>i nm q. waits (node N a) i = Some (nm, q) \<longrightarrow> (nm = None \<longrightarrow> q = []) \<and>
        (\<forall>k b j. nm = Some k \<longrightarrow> link N (a, i) = Some (b, j) \<longrightarrow> str_c (raf_nam (node N a) ! k) = raf_str (node N b)))"

definition net_votes :: "rnet \<Rightarrow> bool" where
  "net_votes N \<longleftrightarrow>
     (\<forall>a i b j m. link N (a, i) = Some (b, j) \<longrightarrow> m \<in> set (said (node N a) i) \<longrightarrow> grants m \<longrightarrow>
        tem_w m \<le> raf_tem (node N a) \<and> (tem_w m = raf_tem (node N a) \<longrightarrow> raf_vog (node N a) = Some (raf_str (node N b))) \<and>
        (\<forall>i' b' j' m'. link N (a, i') = Some (b', j') \<longrightarrow> m' \<in> set (said (node N a) i') \<longrightarrow> grants m' \<longrightarrow> tem_w m' = tem_w m \<longrightarrow> b' = b))"

definition net_flags :: "nat \<Rightarrow> rnet \<Rightarrow> bool" where
  "net_flags n N \<longleftrightarrow>
     (\<forall>a<n. \<forall>k<length (raf_nam (node N a)). raf_typ (node N a) \<noteq> Raty_foll \<longrightarrow> vog (raf_nam (node N a) ! k) \<longrightarrow>
        (\<exists>b j i m. link N (b, j) = Some (a, i) \<and> raf_str (node N b) = str_c (raf_nam (node N a) ! k) \<and>
           m \<in> set (written (node N b) j) \<and> grants m \<and> tem_w m = raf_tem (node N a)))"

definition net_due :: "nat \<Rightarrow> rnet \<Rightarrow> (nat \<times> nat \<Rightarrow> nat) \<Rightarrow> bool" where
  "net_due n N dn \<longleftrightarrow>
     (\<forall>a<n. \<forall>i nm q. waits (node N a) i = Some (nm, q) \<longrightarrow> matched q (due N dn a i) (raf_tem (node N a))) \<and>
     (\<forall>a i b j. link N (b, j) = Some (a, i) \<longrightarrow> dn (b, j) \<le> length (written (node N a) i))"

definition net_ok :: "nat \<Rightarrow> rnet \<Rightarrow> (nat \<times> nat \<Rightarrow> nat) \<Rightarrow> bool" where
  "net_ok n N dn \<longleftrightarrow> net_names n N \<and> net_links n N \<and> net_said n N \<and> net_waits n N \<and> net_votes N \<and> net_flags n N \<and> net_due n N dn"

definition net_stream :: "nat \<Rightarrow> rnet \<Rightarrow> (nat \<times> nat \<Rightarrow> nat) \<Rightarrow> bool" where
  "net_stream n N dn \<longleftrightarrow>
     (\<forall>a i b j h. link N (b, j) = Some (a, i) \<longrightarrow> heard (node N b) j = Some h \<longrightarrow>
        seen N (b, j) \<le> length (enc (written (node N a) i)) \<and>
        take (seen N (b, j)) (enc (written (node N a) i)) = enc (take (dn (b, j)) (written (node N a) i)) @ h) \<and>
     (\<forall>a<n. \<forall>i h. link N (a, i) = None \<longrightarrow> heard (node N a) i = Some h \<longrightarrow> h = [])"

section \<open>Effects of a node's own keep it\<close>

definition own_at :: "u2_raft \<Rightarrow> u2_raft \<Rightarrow> nat \<Rightarrow> bool" where
  "own_at raf raf' l \<longleftrightarrow>
     waits raf' l = waits raf l \<and> said raf' l = said raf l \<or>
     (\<exists>m k q. asking raf m \<and> raf_tem raf' = raf_tem raf \<and> waits raf l = Some (Some k, q) \<and> waits raf' l = Some (Some k, q @ [m]) \<and> said raf' l = said raf l @ [m]) \<or>
     waits raf' l = None \<and> said raf' l = written raf l"

definition own :: "u2_raft \<Rightarrow> u2_raft \<Rightarrow> bool" where
  "own raf raf' \<longleftrightarrow>
     calm raf raf' \<and> grows raf raf' \<and> raf_new raf \<le> raf_new raf' \<and> (\<forall>l<raf_new raf. own_at raf raf' l) \<and>
     (\<forall>l\<ge>raf_new raf. said raf l = [] \<longrightarrow> said raf' l = [] \<and> (\<forall>nm q. waits raf' l = Some (nm, q) \<longrightarrow> q = []))"

lemma own_newD:
  assumes "own raf raf'" "raf_new raf \<le> l" "said raf l = []"
  shows "said raf' l = []" "waits raf' l = Some (nm, q) \<Longrightarrow> q = []"
  using assms unfolding own_def by blast+

lemma waits_fresh: "raft_ok raf \<Longrightarrow> raf_new raf \<le> l \<Longrightarrow> waits raf l = None"
  using con_okD [of raf l] by (cases "raf_con raf l") (auto simp: waits_def con_ok_def)

lemma quietly_own: "raft_ok raf \<Longrightarrow> quietly raf raf' \<Longrightarrow> own raf raf'"
  using waits_fresh by (auto simp: quietly_def own_def own_at_def same_at_def)

lemma requests_own:
  assumes "raft_ok raf" "requests i m raf raf'"
  shows "own raf raf'"
proof -
  have "i < raf_new raf" using assms waits_fresh [OF assms(1), of i] by (cases "i < raf_new raf") (auto simp: requests_def)
  moreover have "own_at raf raf' l" for l using assms(2) by (cases "l = i") (auto simp: requests_def own_at_def same_at_def)
  moreover have "waits raf' l = None \<and> said raf' l = said raf l" if "raf_new raf \<le> l" for l
    using assms(2) that \<open>i < raf_new raf\<close> waits_fresh [OF assms(1) that] by (auto simp: requests_def same_at_def)
  ultimately show ?thesis using assms(2) by (auto simp: requests_def own_def)
qed

lemma opens_own:
  assumes "raft_ok raf" "opens nm raf raf'"
  shows "own raf raf'"
proof -
  have s: "same_at raf raf' l" if "l \<noteq> raf_new raf" for l using assms(2) that by (simp add: opens_def)
  have "own_at raf raf' l" if "l < raf_new raf" for l using s [of l] that by (simp add: own_at_def same_at_def)
  moreover have "said raf' l = [] \<and> (\<forall>nm q. waits raf' l = Some (nm, q) \<longrightarrow> q = [])" if "raf_new raf \<le> l" "said raf l = []" for l
  proof (cases "l = raf_new raf")
    case True
    then show ?thesis using assms(2) that(2) by (auto simp: opens_def said_def)
  next
    case False
    then show ?thesis using s [OF False] waits_fresh [OF assms(1) that(1)] that(2) by (simp add: same_at_def)
  qed
  ultimately show ?thesis using assms(2) by (auto simp: opens_def own_def)
qed

lemma frees_own:
  assumes "raft_ok raf" "frees i raf raf'"
  shows "own raf raf'"
proof -
  have "own_at raf raf' l" for l using assms(2) by (cases "l = i") (auto simp: frees_def own_at_def same_at_def)
  moreover have "waits raf' l = None \<and> (said raf l = [] \<longrightarrow> said raf' l = [])" if "raf_new raf \<le> l" for l
    using assms(2) that waits_fresh [OF assms(1) that] by (cases "l = i") (auto simp: frees_def same_at_def said_def)
  ultimately show ?thesis using assms(2) by (auto simp: frees_def own_def)
qed

lemma fills_own: "raft_ok raf \<Longrightarrow> fills i raf raf' \<Longrightarrow> own raf raf'"
proof -
  assume a: "raft_ok raf" "fills i raf raf'"
  have "waits raf' l = waits raf l \<and> said raf' l = said raf l" for l
    using a(2) by (cases "l = i") (auto simp: fills_def same_at_def)
  then show ?thesis using a waits_fresh by (auto simp: fills_def own_def own_at_def)
qed

definition put_node :: "nat \<Rightarrow> u2_raft \<Rightarrow> rnet \<Rightarrow> rnet" where
  "put_node c raf N = N\<lparr>node := (node N)(c := raf)\<rparr>"

lemma put_node_simps [simp]:
  "node (put_node c raf N) = (node N)(c := raf)" "link (put_node c raf N) = link N" "seen (put_node c raf N) = seen N"
  by (simp_all add: put_node_def)

lemma net_namesD:
  assumes "net_names n N" "a < n"
  shows "raft_ok (node N a)" "distinct (map str_c (raf_nam (node N a)))"
    "set (map str_c (raf_nam (node N a))) = (\<lambda>b. raf_str (node N b)) ` ({..<n} - {a})"
  using assms by (simp_all only: net_names_def)

lemma put_names:
  assumes "net_names n N" "c < n" "raft_later (node N c) raf'" "raft_ok raf'"
  shows "net_names n (put_node c raf' N)"
proof -
  have strs: "(\<lambda>a. raf_str (((node N)(c := raf')) a)) = (\<lambda>a. raf_str (node N a))" using assms(3) by (auto simp: raft_later_def)
  have nams: "map str_c (raf_nam (((node N)(c := raf')) a)) = map str_c (raf_nam (node N a))" for a using assms(3) by (simp add: raft_later_def)
  have "raft_ok (((node N)(c := raf')) a)" if "a < n" for a using assms(1,4) that by (simp add: net_names_def)
  then show ?thesis unfolding net_names_def put_node_simps strs nams
  proof (intro conjI allI impI)
    fix a assume "a < n"
    then show "distinct (map str_c (raf_nam (node N a)))" "set (map str_c (raf_nam (node N a))) = (\<lambda>b. raf_str (node N b)) ` ({..<n} - {a})"
      using net_namesD [OF assms(1)] by simp_all
  qed (use assms(1) in \<open>simp add: net_names_def\<close>)
qed

lemma net_linksD:
  assumes "net_links n N" "link N (a, i) = Some (b, j)"
  shows "link N (b, j) = Some (a, i)" "a < n" "b < n" "a \<noteq> b" "i < raf_new (node N a)"
proof -
  have l: "link N (b, j) = Some (a, i) \<and> a < n \<and> a \<noteq> b \<and> i < raf_new (node N a)" using assms unfolding net_links_def by metis
  then show "link N (b, j) = Some (a, i)" "a < n" "a \<noteq> b" "i < raf_new (node N a)" by auto
  show "b < n" using l assms(1) unfolding net_links_def by metis
qed

lemma put_links:
  assumes "net_links n N" "raf_new (node N c) \<le> raf_new raf'"
  shows "net_links n (put_node c raf' N)"
  unfolding net_links_def put_node_simps
proof (intro allI impI)
  fix a i b j assume l: "link N (a, i) = Some (b, j)"
  note d = net_linksD [OF assms(1) l]
  have "i < raf_new (((node N)(c := raf')) a)" using d(5) assms(2) by (cases "a = c") simp_all
  then show "link N (b, j) = Some (a, i) \<and> a < n \<and> a \<noteq> b \<and> i < raf_new (((node N)(c := raf')) a)" using d by blast
qed

lemma written_said: "set (written raf l) \<subseteq> set (said raf l)"
  by (simp add: said_def)

lemma own_said:
  assumes ok: "net_said n N" "own (node N c) raf'" "c < n"
  shows "net_said n (put_node c raf' N)"
proof -
  let ?raf = "node N c"
  have str: "raf_str raf' = raf_str ?raf" using ok(2) by (simp add: own_def calm_def raft_later_def)
  have old: "rmsg_ok m \<and> (if is_rasp m then link N (c, l) \<noteq> None else sender m = Some (raf_str ?raf))" if "m \<in> set (said ?raf l)" for m l
    using ok(1,3) that by (simp add: net_said_def)
  have fresh: "said ?raf l = []" if "raf_new ?raf \<le> l" for l using ok(1,3) that by (simp add: net_said_def)
  have "rmsg_ok m \<and> (if is_rasp m then link N (c, l) \<noteq> None else sender m = Some (raf_str raf'))" if m: "m \<in> set (said raf' l)" for m l
  proof (cases "l < raf_new ?raf")
    case True
    then have at: "own_at ?raf raf' l" using ok(2) by (simp add: own_def)
    have "m \<in> set (said ?raf l) \<or> asking ?raf m" using at m written_said [of ?raf l] by (auto simp: own_at_def)
    moreover have "rmsg_ok m \<and> \<not> is_rasp m \<and> sender m = Some (raf_str ?raf)" if "asking ?raf m"
      using that by (auto simp: asking_def is_rasp_def sender_def split: u2_rbody.splits)
    ultimately show ?thesis using old str by metis
  next
    case False
    then show ?thesis using ok(2) m fresh by (simp add: own_def)
  qed
  moreover have "said raf' l = []" if "raf_new raf' \<le> l" for l using ok(2) that fresh by (simp add: own_def)
  ultimately show ?thesis using ok(1) unfolding net_said_def by auto
qed

lemma own_waits:
  assumes ok: "net_waits n N" "net_links n N" "net_said n N" "own (node N c) raf'" "raft_ok raf'" "c < n"
  shows "net_waits n (put_node c raf' N)"
proof -
  let ?raf = "node N c"
  have later: "raft_later ?raf raf'" using ok(4) by (simp add: own_def calm_def)
  have str: "raf_str (((node N)(c := raf')) a) = raf_str (node N a)" for a using later by (simp add: raft_later_def)
  have nam: "str_c (raf_nam raf' ! k) = str_c (raf_nam ?raf ! k)" if "waits raf' i = Some (Some k, q)" for i k q
  proof -
    have "k < length (raf_nam raf')" using con_okD [OF ok(5), of i] that by (auto simp: waits_def con_ok_def)
    moreover have "map str_c (raf_nam raf') = map str_c (raf_nam ?raf)" using later by (simp add: raft_later_def)
    ultimately show ?thesis by (metis length_map nth_map)
  qed
  have "(nm = None \<longrightarrow> q = []) \<and> (\<forall>k b j. nm = Some k \<longrightarrow> link N (c, i) = Some (b, j) \<longrightarrow> str_c (raf_nam raf' ! k) = raf_str (node N b))"
    if w: "waits raf' i = Some (nm, q)" for i nm q
  proof (cases "i < raf_new ?raf")
    case True
    then have "own_at ?raf raf' i" using ok(4) by (simp add: own_def)
    then have "\<exists>q0. waits ?raf i = Some (nm, q0) \<and> (nm = None \<longrightarrow> q = q0)" using w unfolding own_at_def by (elim disjE exE conjE) auto
    then obtain q0 where q0: "waits ?raf i = Some (nm, q0)" "nm = None \<longrightarrow> q = q0" by blast
    then show ?thesis using ok(1,6) w nam [of i] unfolding net_waits_def by auto
  next
    case False
    then have "link N (c, i) = None" using net_linksD(5) [OF ok(2), of c i] by (cases "link N (c, i)") auto
    moreover have "said ?raf i = []" using ok(3,6) False by (simp add: net_said_def)
    ultimately show ?thesis using own_newD(2) [OF ok(4) _ _ w] False by simp
  qed
  note new = this
  show ?thesis unfolding net_waits_def put_node_simps str
  proof (intro allI impI)
    fix a i nm q assume a: "a < n" "waits (((node N)(c := raf')) a) i = Some (nm, q)"
    then show "(nm = None \<longrightarrow> q = []) \<and>
        (\<forall>k b j. nm = Some k \<longrightarrow> link N (a, i) = Some (b, j) \<longrightarrow> str_c (raf_nam (((node N)(c := raf')) a) ! k) = raf_str (node N b))"
      using new [of i nm q] ok(1) unfolding net_waits_def by (cases "a = c") simp_all
  qed
qed

lemma own_subset:
  assumes "net_said n N" "own (node N c) raf'" "c < n" "m \<in> set (said raf' l)" "grants m"
  shows "m \<in> set (said (node N c) l)"
proof (cases "l < raf_new (node N c)")
  case True
  then have "own_at (node N c) raf' l" using assms(2) by (simp add: own_def)
  moreover have "\<not> asking (node N c) m" using assms(5) by (auto simp: asking_def grants_def split: u2_rbody.splits)
  ultimately show ?thesis using assms(4) written_said [of "node N c" l] by (auto simp: own_at_def)
next
  case False
  then have "said (node N c) l = []" using assms(1,3) by (simp add: net_said_def)
  then show ?thesis using assms(2,4) False by (simp add: own_def)
qed

lemma votes_subset:
  assumes ok: "net_votes N" and later: "raft_later (node N c) raf'"
    and sub: "\<And>l m. link N (c, l) \<noteq> None \<Longrightarrow> m \<in> set (said raf' l) \<Longrightarrow> grants m \<Longrightarrow> m \<in> set (said (node N c) l)"
  shows "net_votes (put_node c raf' N)"
proof -
  have str: "raf_str (((node N)(c := raf')) a) = raf_str (node N a)" for a using later by (simp add: raft_later_def)
  have said: "m \<in> set (said (node N a) l)" if "link N (a, l) = Some y" "m \<in> set (said (((node N)(c := raf')) a) l)" "grants m" for a l m y
    using that sub by (cases "a = c") auto
  have "tem_w m \<le> raf_tem (((node N)(c := raf')) a) \<and> (tem_w m = raf_tem (((node N)(c := raf')) a) \<longrightarrow> raf_vog (((node N)(c := raf')) a) = Some (raf_str (node N b)))"
    if "link N (a, i) = Some (b, j)" "m \<in> set (said (node N a) i)" "grants m" for a i b j m
  proof -
    have old: "tem_w m \<le> raf_tem (node N a)" "tem_w m = raf_tem (node N a) \<Longrightarrow> raf_vog (node N a) = Some (raf_str (node N b))"
      using ok that unfolding net_votes_def by blast+
    show ?thesis
    proof (cases "a = c")
      case True
      then show ?thesis using old later by (auto simp: raft_later_def)
    qed (use old in simp)
  qed
  then show ?thesis using ok said unfolding net_votes_def put_node_simps str by (metis (no_types, lifting))
qed

lemma flags_calm:
  assumes ok: "net_flags n N" "net_links n N" and raf': "calm (node N c) raf'" "grows (node N c) raf'"
  shows "net_flags n (put_node c raf' N)"
proof -
  have later: "raft_later (node N c) raf'" using raf' by (simp add: calm_def)
  have str: "raf_str (((node N)(c := raf')) a) = raf_str (node N a)" for a using later by (simp add: raft_later_def)
  have written: "m \<in> set (written (((node N)(c := raf')) b) j)" if "m \<in> set (written (node N b) j)" for m b j
  proof -
    obtain ms where "written raf' j = written (node N c) j @ ms" using raf'(2) by (auto simp: grows_def)
    then show ?thesis using that by (cases "b = c") auto
  qed
  have "k < length (raf_nam (node N a)) \<and> raf_typ (node N a) \<noteq> Raty_foll \<and> vog (raf_nam (node N a) ! k) \<and>
      str_c (raf_nam (((node N)(c := raf')) a) ! k) = str_c (raf_nam (node N a) ! k) \<and> raf_tem (((node N)(c := raf')) a) = raf_tem (node N a)"
    if k: "k < length (raf_nam (((node N)(c := raf')) a))" "raf_typ (((node N)(c := raf')) a) \<noteq> Raty_foll" "vog (raf_nam (((node N)(c := raf')) a) ! k)" for a k
  proof (cases "a = c")
    case True
    then have v: "True \<in> set (map vog (raf_nam raf'))" using k by force
    have "map str_c (raf_nam raf') = map str_c (raf_nam (node N c))" using later by (simp add: raft_later_def)
    then have "length (raf_nam raf') = length (raf_nam (node N c))" "str_c (raf_nam raf' ! k) = str_c (raf_nam (node N c) ! k)"
      using k(1) True by (metis length_map, metis length_map nth_map fun_upd_same)
    moreover have t: "raf_typ (node N c) \<noteq> Raty_foll" "raf_tem raf' = raf_tem (node N c)" "map vog (raf_nam raf') = map vog (raf_nam (node N c))"
      using raf'(1) k(2) v True by (auto simp: calm_def)
    moreover have "vog (raf_nam (node N c) ! k)" using t(3) k(1,3) True calculation(1) by (metis fun_upd_same nth_map)
    ultimately show ?thesis using k True by simp
  qed (use k in simp)
  then show ?thesis using ok(1) written unfolding net_flags_def put_node_simps str by metis
qed

lemma answers_append [simp]: "answers (a @ b) = answers a @ answers b" and questions_append [simp]: "questions (a @ b) = questions a @ questions b"
  by (simp_all add: answers_def questions_def)

lemma answers_Nil [simp]: "answers [] = []" and questions_Nil [simp]: "questions [] = []"
  by (simp_all add: answers_def questions_def)

lemma asking_items: "asking raf m \<Longrightarrow> answers [m] = [] \<and> (questions [m] = [] \<or> questions [m] = [Some (raf_tem raf)])"
  by (auto simp: asking_def answers_def questions_def is_rasp_def split: u2_rbody.splits)

lemma length_written: "length (written raf l) \<le> length (said raf l)"
  by (simp add: said_def)

lemma waits_terms:
  assumes "raft_ok raf" "waits raf i = Some (nm, q)" "m \<in> set q"
  shows "tem_w m \<le> raf_tem raf"
proof -
  obtain ron where ron: "raf_con raf i = Some ron" "out_u ron = q" using assms(2) by (auto simp: waits_def)
  have "req_ok raf m" using con_okD [OF assms(1) ron(1)] ron(2) assms(3) by (simp add: con_ok_def)
  then show ?thesis by (auto simp: req_ok_def split: u2_rbody.splits)
qed

lemma net_dueD:
  assumes "net_due n N dn"
  shows "a < n \<Longrightarrow> waits (node N a) i = Some (nm, q) \<Longrightarrow> matched q (due N dn a i) (raf_tem (node N a))"
    "link N (b, j) = Some (a, i) \<Longrightarrow> dn (b, j) \<le> length (written (node N a) i)"
  using assms unfolding net_due_def by blast+

lemma own_due_peer:
  assumes due: "net_due n N dn" and links: "net_links n N" and own: "own (node N c) raf'"
    and a: "a < n" "a \<noteq> c" "waits (node N a) i = Some (nm, q)"
  shows "matched q (due (put_node c raf' N) dn a i) (raf_tem (node N a))"
proof -
  note old = net_dueD(1) [OF due a(1,3)]
  show ?thesis
  proof (cases "\<exists>j. link N (a, i) = Some (c, j)")
    case True
    then obtain j where l: "link N (a, i) = Some (c, j)" by blast
    have j: "j < raf_new (node N c)" "link N (c, j) = Some (a, i)" using net_linksD [OF links l] net_linksD(5) [OF links] by blast+
    have dn: "dn (a, i) \<le> length (written (node N c) j)" using net_dueD(2) [OF due l] .
    then have dn': "dn (a, i) \<le> length (said (node N c) j)" using length_written order_trans by blast
    have "own_at (node N c) raf' j" using own j(1) by (simp add: own_def)
    then show ?thesis unfolding own_at_def
    proof (elim disjE exE conjE)
      fix m k q0 assume m: "asking (node N c) m" "waits (node N c) j = Some (Some k, q0)" "waits raf' j = Some (Some k, q0 @ [m])" "said raf' j = said (node N c) j @ [m]"
      then have "due (put_node c raf' N) dn a i = due N dn a i" using l a(2) dn' asking_items [OF m(1)] by (simp add: due_def)
      then show ?thesis using old by simp
    next
      assume "waits raf' j = None" "said raf' j = written (node N c) j"
      then have "due (put_node c raf' N) dn a i = answers (drop (dn (a, i)) (written (node N c) j))" using l a(2) by (simp add: due_def)
      moreover have "due N dn a i = answers (drop (dn (a, i)) (written (node N c) j)) @ x" if "x = answers (case raf_con (node N c) j of None \<Rightarrow> [] | Some ron \<Rightarrow> wri_u ron) @
          (if waits (node N c) j = None then [] else questions (drop (dn (c, j)) (said (node N a) i)))" for x
        using l dn that by (simp add: due_def said_def [of "node N c" j])
      ultimately show ?thesis using old matched_prefix by simp
    next
      assume "waits raf' j = waits (node N c) j" "said raf' j = said (node N c) j"
      then have "due (put_node c raf' N) dn a i = due N dn a i" using l a(2) by (simp add: due_def)
      then show ?thesis using old by simp
    qed
  next
    case False
    then have "due (put_node c raf' N) dn a i = due N dn a i" using a(2) by (cases "link N (a, i)") (auto simp: due_def)
    then show ?thesis using old by simp
  qed
qed

lemma own_due_self:
  assumes due: "net_due n N dn" and links: "net_links n N" and said: "net_said n N" and own: "own (node N c) raf'" and ok: "raft_ok (node N c)"
    and c: "c < n" "waits raf' i = Some (nm, q)"
  shows "matched q (due (put_node c raf' N) dn c i) (raf_tem raf')"
proof (cases "i < raf_new (node N c)")
  case False
  then have "link N (c, i) = None" using net_linksD(5) [OF links, of c i] by (cases "link N (c, i)") auto
  moreover have "said (node N c) i = []" using said c(1) False by (simp add: net_said_def)
  then have "said raf' i = []" "q = []" using own_newD(1) [OF own, of i] own_newD(2) [OF own _ _ c(2)] False by simp_all
  ultimately show ?thesis by (simp add: due_def)
next
  case True
  have tem: "raf_tem (node N c) \<le> raf_tem raf'" using own by (simp add: own_def calm_def raft_later_def)
  have "own_at (node N c) raf' i" using own True by (simp add: own_def)
  then show ?thesis unfolding own_at_def
  proof (elim disjE exE conjE)
    assume w: "waits raf' i = waits (node N c) i" "said raf' i = said (node N c) i"
    have "due (put_node c raf' N) dn c i = due N dn c i"
      using w net_linksD(4) [OF links, of c i] by (auto simp: due_def split: option.splits)
    then show ?thesis using net_dueD(1) [OF due c(1), of i nm q] w(1) c(2) matched_mono [OF _ tem] by simp
  next
    fix m k q0 assume m: "asking (node N c) m" "raf_tem raf' = raf_tem (node N c)" "waits (node N c) i = Some (Some k, q0)"
      "waits raf' i = Some (Some k, q0 @ [m])" "said raf' i = said (node N c) i @ [m]"
    have "due (put_node c raf' N) dn c i = due N dn c i \<or> due (put_node c raf' N) dn c i = due N dn c i @ questions [m]"
    proof (cases "link N (c, i)")
      case None
      then show ?thesis using m(5) by (simp add: due_def)
    next
      case (Some y)
      obtain b j where y: "y = (b, j)" by (cases y)
      have l: "link N (c, i) = Some (b, j)" using Some y by simp
      have "dn (b, j) \<le> length (written (node N c) i)" using net_dueD(2) [OF due net_linksD(1) [OF links l]] .
      then have "dn (b, j) \<le> length (said (node N c) i)" using length_written order_trans by blast
      then show ?thesis using l m(5) net_linksD(4) [OF links l] by (simp add: due_def)
    qed
    moreover have old: "matched q0 (due N dn c i) (raf_tem (node N c))" using net_dueD(1) [OF due c(1) m(3)] .
    moreover have "\<forall>m\<in>set q0. tem_w m \<le> raf_tem (node N c)" "tem_w m \<le> raf_tem (node N c)" using waits_terms [OF ok m(3)] m(1) by (auto simp: asking_def)
    ultimately show ?thesis using matched_ask [OF old] asking_items [OF m(1)] m(2,4) c(2) by auto
  qed (use c(2) in simp)
qed

lemma own_due:
  assumes due: "net_due n N dn" and "net_links n N" "net_said n N" "own (node N c) raf'" "raft_ok (node N c)" "c < n"
  shows "net_due n (put_node c raf' N) dn"
  unfolding net_due_def put_node_simps
proof (intro conjI allI impI)
  fix a i nm q assume a: "a < n" "waits (((node N)(c := raf')) a) i = Some (nm, q)"
  show "matched q (due (put_node c raf' N) dn a i) (raf_tem (((node N)(c := raf')) a))"
    using own_due_peer [OF assms(1,2,4) a(1), of i nm q] own_due_self [OF assms, of i nm q] a by (cases "a = c") simp_all
next
  fix a i b j assume l: "link N (b, j) = Some (a, i)"
  have "length (written (node N c) i) \<le> length (written raf' i)" using assms(4) unfolding own_def grows_def by (metis le_add1 length_append)
  then show "dn (b, j) \<le> length (written (((node N)(c := raf')) a) i)" using net_dueD(2) [OF due l] by (cases "a = c") simp_all
qed

lemma own_net:
  assumes ok: "net_ok n N dn" and own: "own (node N c) raf'" "raft_ok raf'" and c: "c < n"
  shows "net_ok n (put_node c raf' N) dn"
proof -
  have N: "net_names n N" "net_links n N" "net_said n N" "net_waits n N" "net_votes N" "net_flags n N" "net_due n N dn"
    using ok by (simp_all add: net_ok_def)
  have "raft_ok (node N c)" by (rule net_namesD(1) [OF N(1) c])
  moreover have o: "calm (node N c) raf'" "grows (node N c) raf'" "raf_new (node N c) \<le> raf_new raf'" "raft_later (node N c) raf'"
    using own(1) by (simp_all add: own_def calm_def)
  moreover have "net_votes (put_node c raf' N)"
    by (rule votes_subset [OF N(5) o(4)]) (rule own_subset [OF N(3) own(1) c])
  ultimately show ?thesis
    using put_names [OF N(1) c o(4) own(2)] put_links [OF N(2) o(3)] own_said [OF N(3) own(1) c] own_waits [OF N(4,2,3) own c]
      flags_calm [OF N(6,2) o(1,2)] own_due [OF N(7,2,3) own(1) _ c]
    by (simp add: net_ok_def)
qed

end
