(* ===== verification/Raft_Deliver.thy ===== *)
theory Raft_Deliver
  imports Raft_Net
begin

text \<open>
  The work on one message keeps the invariant of the cluster: the message \<open>m\<close> is the next one that comes to the connection \<open>l\<close> of the
  node \<open>c\<close>, from the connection \<open>j\<close> of \<open>b\<close>, and \<open>c\<close> becomes \<open>raf'\<close>.
\<close>

section \<open>A delivery\<close>

lemma rasp_no_question: "is_rasp m \<Longrightarrow> questions [m] = []"
  by (simp add: questions_def is_rasp_def is_revo_def split: u2_rbody.splits)

definition delivers :: "nat \<Rightarrow> rnet \<Rightarrow> (nat \<times> nat \<Rightarrow> nat) \<Rightarrow> nat \<Rightarrow> nat \<Rightarrow> nat \<Rightarrow> nat \<Rightarrow> u2_rmsg \<Rightarrow> u2_raft \<Rightarrow> bool" where
  "delivers n N dn c l b j m raf' \<longleftrightarrow>
     net_ok n N dn \<and> link N (c, l) = Some (b, j) \<and> dn (c, l) < length (written (node N b) j) \<and>
     m = written (node N b) j ! dn (c, l) \<and> gets l m (node N c) raf' \<and> raft_ok raf'"

lemma deliversD:
  assumes "delivers n N dn c l b j m raf'"
  shows "link N (c, l) = Some (b, j)" "dn (c, l) < length (written (node N b) j)" "m = written (node N b) j ! dn (c, l)"
    "gets l m (node N c) raf'" "raft_ok raf'"
  using assms unfolding delivers_def by blast+

lemma deliver_net:
  assumes "delivers n N dn c l b j m raf'"
  shows "net_names n N" "net_links n N" "net_said n N" "net_waits n N" "net_votes N" "net_flags n N" "net_due n N dn"
  using assms by (simp_all add: delivers_def net_ok_def)

lemma deliver_ends:
  assumes "delivers n N dn c l b j m raf'"
  shows "link N (b, j) = Some (c, l)" "c < n" "b < n" "c \<noteq> b" "l < raf_new (node N c)"
  using net_linksD [OF deliver_net(2) [OF assms] deliversD(1) [OF assms]] by auto

lemma deliver_later:
  assumes "delivers n N dn c l b j m raf'"
  shows "raft_later (node N c) raf'" "grows (node N c) raf'" "raf_new raf' = raf_new (node N c)"
  using deliversD(4) [OF assms] by (auto simp: gets_def)

lemma deliver_others:
  assumes "delivers n N dn c l b j m raf'"
  shows "k \<noteq> l \<Longrightarrow> waits raf' k = waits (node N c) k" "k \<noteq> l \<Longrightarrow> said raf' k = said (node N c) k"
  using deliversD(4) [OF assms] by (auto simp: gets_def same_at_def)

lemma deliver_strs:
  assumes "delivers n N dn c l b j m raf'"
  shows "raf_str (((node N)(c := raf')) a) = raf_str (node N a)" "map str_c (raf_nam raf') = map str_c (raf_nam (node N c))"
  using deliver_later(1) [OF assms] by (simp_all add: raft_later_def)

lemma deliver_msg:
  assumes D: "delivers n N dn c l b j m raf'"
  shows "m \<in> set (written (node N b) j)" "m \<in> set (said (node N b) j)" "drop (dn (c, l)) (said (node N b) j) = m # drop (Suc (dn (c, l))) (said (node N b) j)"
  supply less = deliversD(2) [OF D] and msg = deliversD(3) [OF D]
proof -
  show "m \<in> set (written (node N b) j)" using less msg by simp
  then show "m \<in> set (said (node N b) j)" using written_said by blast
  have "said (node N b) j ! dn (c, l) = m" "dn (c, l) < length (said (node N b) j)" using less msg by (simp_all add: said_def nth_append)
  then show "drop (dn (c, l)) (said (node N b) j) = m # drop (Suc (dn (c, l))) (said (node N b) j)" by (metis Cons_nth_drop_Suc)
qed

lemma deliver_sender:
  assumes D: "delivers n N dn c l b j m raf'"
  shows "\<not> is_rasp m \<Longrightarrow> sender m = Some (raf_str (node N b))"
  using deliver_net(3) [OF D] deliver_ends(3) [OF D] deliver_msg(2) [OF D] unfolding net_said_def by auto

lemma deliver_said:
  assumes D: "delivers n N dn c l b j m raf'"
  shows "said raf' l = said (node N c) l \<and> \<not> is_revo m \<or>
   (\<exists>a. said raf' l = said (node N c) l @ [a] \<and> is_revo m \<and> is_rasp a \<and> rmsg_ok a \<and> tem_w a = raf_tem raf' \<and>
      (grants a \<longrightarrow> tem_w m = raf_tem raf' \<and> (\<exists>k q. waits raf' l = Some (Some k, q) \<and> raf_vog raf' = Some (str_c (raf_nam (node N c) ! k)))))"
  using deliversD(4) [OF D] by (auto simp: gets_def is_revo_def is_rasp_def grants_def split: u2_rbody.splits)

lemma deliver_name:
  assumes D: "delivers n N dn c l b j m raf'" and "waits raf' l = Some (nm, q)"
  shows "nm = None \<longrightarrow> q = []" "nm = Some k \<Longrightarrow> str_c (raf_nam (node N c) ! k) = raf_str (node N b)"
  supply lk = deliversD(1) [OF D] and gets = deliversD(4) [OF D] and parts = deliver_net [OF D] and ends = deliver_ends [OF D] and msg_sender = deliver_sender [OF D]
proof -
  obtain nm0 q0 where w: "waits (node N c) l = Some (nm0, q0)" "named (node N c) (sender m) nm0 nm" "nm0 = None \<longrightarrow> q = q0"
    using gets assms by (cases "body m") (auto simp: gets_def)
  have old: "nm0 = None \<longrightarrow> q0 = []" "\<forall>k. nm0 = Some k \<longrightarrow> str_c (raf_nam (node N c) ! k) = raf_str (node N b)"
    using parts(4) ends(2) lk w(1) unfolding net_waits_def by blast+
  show "nm = None \<longrightarrow> q = []" using old(1) w(2,3) by (auto simp: named_def)
  have "is_rasp m \<Longrightarrow> sender m = None" by (simp add: is_rasp_def sender_def split: u2_rbody.splits)
  then show "nm = Some k \<Longrightarrow> str_c (raf_nam (node N c) ! k) = raf_str (node N b)"
    using w(2) old(2) msg_sender by (cases "is_rasp m") (auto simp: named_def)
qed

lemma got_said:
  assumes D: "delivers n N dn c l b j m raf'"
  shows "net_said n (put_node c raf' N)"
  supply lk = deliversD(1) [OF D] and parts = deliver_net [OF D] and ends = deliver_ends [OF D] and later = deliver_later [OF D] and others = deliver_others [OF D] and strs = deliver_strs [OF D] and said_cases = deliver_said [OF D]
proof -
  have mine: "rmsg_ok a \<and> (if is_rasp a then link N (c, k) \<noteq> None else sender a = Some (raf_str (node N c)))" if "a \<in> set (said raf' k)" for a k
  proof (cases "a \<in> set (said (node N c) k)")
    case True
    then show ?thesis using parts(3) ends(2) unfolding net_said_def by blast
  next
    case False
    then have "k = l" using that others(2) by metis
    then show ?thesis using False that said_cases lk by auto
  qed
  have "said raf' k = []" if "raf_new raf' \<le> k" for k
    using that parts(3) ends(2,5) others(2) [of k] later(3) unfolding net_said_def by auto
  note new = this
  show ?thesis unfolding net_said_def put_node_simps strs(1)
  proof (intro allI impI conjI ballI)
    fix a i assume a: "a < n"
    have old: "raf_new (node N a) \<le> i \<Longrightarrow> said (node N a) i = []"
      "x \<in> set (said (node N a) i) \<Longrightarrow> rmsg_ok x \<and> (if is_rasp x then link N (a, i) \<noteq> None else sender x = Some (raf_str (node N a)))" for x
      using parts(3) a unfolding net_said_def by blast+
    show "said (((node N)(c := raf')) a) i = []" if "raf_new (((node N)(c := raf')) a) \<le> i" using that new old(1) by (cases "a = c") simp_all
    fix x assume "x \<in> set (said (((node N)(c := raf')) a) i)"
    then show "rmsg_ok x" "if is_rasp x then link N (a, i) \<noteq> None else sender x = Some (raf_str (node N a))"
      using mine [of x i] old(2) [of x] by (cases "a = c"; simp)+
  qed
qed

lemma got_waits:
  assumes D: "delivers n N dn c l b j m raf'"
  shows "net_waits n (put_node c raf' N)"
  unfolding net_waits_def put_node_simps deliver_strs(1) [OF D]
  supply lk = deliversD(1) [OF D] and ok' = deliversD(5) [OF D] and parts = deliver_net [OF D] and others = deliver_others [OF D] and strs = deliver_strs [OF D] and new_name = deliver_name [OF D]
proof (intro allI impI)
  fix a i nm q assume a: "a < n" "waits (((node N)(c := raf')) a) i = Some (nm, q)"
  have nam: "str_c (raf_nam raf' ! k) = str_c (raf_nam (node N c) ! k)" if "waits raf' i = Some (Some k, q)" for i k q
  proof -
    have "k < length (raf_nam raf')" using con_okD [OF ok', of i] that by (auto simp: waits_def con_ok_def)
    then show ?thesis using strs(2) by (metis length_map nth_map)
  qed
  have old: "(nm = None \<longrightarrow> q = []) \<and> (\<forall>k b j. nm = Some k \<longrightarrow> link N (a, i) = Some (b, j) \<longrightarrow> str_c (raf_nam (node N a) ! k) = raf_str (node N b))"
    if "waits (node N a) i = Some (nm, q)" using parts(4) a(1) that unfolding net_waits_def by blast
  show "(nm = None \<longrightarrow> q = []) \<and> (\<forall>k b j. nm = Some k \<longrightarrow> link N (a, i) = Some (b, j) \<longrightarrow> str_c (raf_nam (((node N)(c := raf')) a) ! k) = raf_str (node N b))"
  proof (cases "a = c")
    case True
    then have w: "waits raf' i = Some (nm, q)" using a(2) by simp
    then have nm: "\<forall>k. nm = Some k \<longrightarrow> str_c (raf_nam raf' ! k) = str_c (raf_nam (node N c) ! k)" using nam by blast
    show ?thesis
    proof (cases "i = l")
      case False
      then show ?thesis using old others(1) w nm True by auto
    qed (use new_name w lk nm True in auto)
  qed (use old a(2) in simp)
qed

lemma got_votes:
  assumes D: "delivers n N dn c l b j m raf'"
  shows "net_votes (put_node c raf' N)"
  supply lk = deliversD(1) [OF D] and parts = deliver_net [OF D] and ends = deliver_ends [OF D] and later = deliver_later [OF D] and others = deliver_others [OF D] and strs = deliver_strs [OF D] and said_cases = deliver_said [OF D] and new_name = deliver_name [OF D]
proof (cases "\<exists>a. said raf' l = said (node N c) l @ [a] \<and> grants a")
  case False
  then have "a \<in> set (said (node N c) k)" if "a \<in> set (said raf' k)" "grants a" for a k
    using that said_cases others(2) [of k] by (cases "k = l") auto
  then show ?thesis by (intro votes_subset [OF parts(5) later(1)])
next
  case True
  then obtain a k q where a: "said raf' l = said (node N c) l @ [a]" "grants a" "tem_w a = raf_tem raf'"
    "waits raf' l = Some (Some k, q)" "raf_vog raf' = Some (str_c (raf_nam (node N c) ! k))"
    using said_cases by auto
  have vog: "raf_vog raf' = Some (raf_str (node N b))" using a(5) new_name(2) [OF a(4)] by simp
  have old: "tem_w g \<le> raf_tem (node N x)" "tem_w g = raf_tem (node N x) \<longrightarrow> raf_vog (node N x) = Some (raf_str (node N y))"
    "link N (x, i') = Some (y', z') \<Longrightarrow> g' \<in> set (said (node N x) i') \<Longrightarrow> grants g' \<Longrightarrow> tem_w g' = tem_w g \<Longrightarrow> y' = y"
    if "link N (x, i) = Some (y, z)" "g \<in> set (said (node N x) i)" "grants g" for x i y z g i' y' z' g'
    using parts(5) that unfolding net_votes_def by blast+
  have mine: "y = b \<and> tem_w g = raf_tem raf' \<or> g \<in> set (said (node N c) i) \<and> tem_w g \<le> raf_tem raf' \<and> (tem_w g = raf_tem raf' \<longrightarrow> y = b)"
    if y: "link N (c, i) = Some (y, z)" "g \<in> set (said raf' i)" "grants g" for i y z g
  proof (cases "g \<in> set (said (node N c) i)")
    case True
    have tem: "raf_tem (node N c) \<le> raf_tem raf'" using later(1) by (simp add: raft_later_def)
    have "y = b" if "tem_w g = raf_tem raf'"
    proof -
      have t: "raf_tem (node N c) = raf_tem raf'" using old(1) [OF y(1) True y(3)] tem that by simp
      then have "raf_vog (node N c) = Some (raf_str (node N y))" using old(2) [OF y(1) True y(3)] that by simp
      then have "raf_str (node N y) = raf_str (node N b)" using later(1) t vog by (auto simp: raft_later_def)
      moreover have "inj_on (\<lambda>a. raf_str (node N a)) {..<n}" using parts(1) by (simp add: net_names_def)
      ultimately show ?thesis using net_linksD(3) [OF parts(2) y(1)] ends(3) by (auto dest: inj_onD)
    qed
    then show ?thesis using True old(1) [OF y(1) True y(3)] tem by auto
  next
    case False
    then have "i = l" using y(2) others(2) by metis
    then show ?thesis using False y a lk by auto
  qed
  show ?thesis unfolding net_votes_def put_node_simps strs(1)
  proof (intro allI impI conjI)
    fix x i y z g assume x: "link N (x, i) = Some (y, z)" "g \<in> set (said (((node N)(c := raf')) x) i)" "grants g"
    show "tem_w g \<le> raf_tem (((node N)(c := raf')) x)" using x mine [of i y z g] old(1) by (cases "x = c") auto
    show "tem_w g = raf_tem (((node N)(c := raf')) x) \<Longrightarrow> raf_vog (((node N)(c := raf')) x) = Some (raf_str (node N y))"
      using x mine [of i y z g] old(2) vog by (cases "x = c") auto
    fix i' y' z' g' assume x': "link N (x, i') = Some (y', z')" "g' \<in> set (said (((node N)(c := raf')) x) i')" "grants g'" "tem_w g' = tem_w g"
    show "y' = y"
    proof (cases "x = c")
      case True
      then show ?thesis using x x' mine [of i y z g] mine [of i' y' z' g'] old(3) [of c i y z g i' y' z' g'] by auto
    qed (use x x' old(3) in auto)
  qed
qed

lemma deliver_queue:
  assumes D: "delivers n N dn c l b j m raf'" and "is_rasp m"
  obtains k req q where "waits (node N c) l = Some (Some k, req # q)" "waits raf' l = Some (Some k, q)" "calm (node N c) raf' \<or> counts k req m (node N c) raf'"
    "matched q (answers (drop (Suc (dn (c, l))) (said (node N b) j)) @ (if waits (node N b) j = None then [] else questions (drop (dn (b, j)) (said (node N c) l)))) (raf_tem (node N c))"
    "grants m \<Longrightarrow> tem_w req = raf_tem (node N c) \<Longrightarrow> tem_w m = raf_tem (node N c)"
  supply lk = deliversD(1) [OF D] and gets = deliversD(4) [OF D] and parts = deliver_net [OF D] and ends = deliver_ends [OF D] and msg_in = deliver_msg [OF D]
proof -
  obtain s where s: "body m = Rasp s" using assms by (auto simp: is_rasp_def split: u2_rbody.splits)
  obtain nm q0 nm' q' where w: "waits (node N c) l = Some (nm, q0)" "waits raf' l = Some (nm', q')" "named (node N c) None nm nm'"
    and q: "(nm = None \<or> q0 = []) \<and> q' = q0 \<and> calm (node N c) raf' \<or> (\<exists>k req. nm = Some k \<and> q0 = req # q' \<and> (calm (node N c) raf' \<or> counts k req m (node N c) raf'))"
    using gets s by (auto simp: gets_def sender_def)
  have d: "due N dn c l = (if grants m then Some (tem_w m) else None) #
      answers (drop (Suc (dn (c, l))) (said (node N b) j)) @ (if waits (node N b) j = None then [] else questions (drop (dn (b, j)) (said (node N c) l)))"
    using lk msg_in(3) assms by (simp add: due_def answers_def)
  have old: "matched q0 (due N dn c l) (raf_tem (node N c))" by (rule net_dueD(1) [OF parts(7) ends(2) w(1)])
  have "nm = None \<longrightarrow> q0 = []" using parts(4) ends(2) w(1) unfolding net_waits_def by blast
  moreover have "q0 \<noteq> []" using old unfolding d by auto
  ultimately obtain k req where k: "nm = Some k" "q0 = req # q'" "calm (node N c) raf' \<or> counts k req m (node N c) raf'" using q by auto
  then have "nm' = Some k" using w(3) by (simp add: named_def)
  then show thesis using that [of k req q'] w(1,2) k matched_Cons [OF old [unfolded d k(2)]] by simp
qed

lemma got_flags:
  assumes D: "delivers n N dn c l b j m raf'"
  shows "net_flags n (put_node c raf' N)"
  supply gets = deliversD(4) [OF D] and parts = deliver_net [OF D] and ends = deliver_ends [OF D] and later = deliver_later [OF D] and strs = deliver_strs [OF D] and msg_in = deliver_msg [OF D] and new_name = deliver_name [OF D] and queue = deliver_queue [OF D]
proof (cases "calm (node N c) raf'")
  case True
  then show ?thesis using flags_calm [OF parts(6,2)] later(2) by blast
next
  case False
  then have "is_rasp m" using gets by (auto simp: gets_def is_rasp_def split: u2_rbody.splits)
  then obtain k req q where q: "waits raf' l = Some (Some k, q)" "counts k req m (node N c) raf'" "tem_w m = raf_tem (node N c)"
    using False by (elim queue) (auto simp: counts_def)
  have cnt: "grants m" "raf_tem raf' = raf_tem (node N c)" "raf_typ (node N c) \<noteq> Raty_foll" "map vog (raf_nam raf') = (map vog (raf_nam (node N c)))[k := True]"
    using q(2) by (simp_all add: counts_def)
  have len: "length (raf_nam raf') = length (raf_nam (node N c))" using strs(2) by (metis length_map)
  have name: "str_c (raf_nam raf' ! x) = str_c (raf_nam (node N c) ! x)" if "x < length (raf_nam raf')" for x
    using strs(2) that len by (metis nth_map)
  have flag: "x = k \<or> vog (raf_nam (node N c) ! x)" if "x < length (raf_nam raf')" "vog (raf_nam raf' ! x)" for x
  proof -
    have "map vog (raf_nam raf') ! x" using that by simp
    then show ?thesis using cnt(4) len that(1) by (cases "x = k") auto
  qed
  have old: "\<exists>b j i m. link N (b, j) = Some (a, i) \<and> raf_str (node N b) = str_c (raf_nam (node N a) ! x) \<and> m \<in> set (written (node N b) j) \<and> grants m \<and> tem_w m = raf_tem (node N a)"
    if "a < n" "x < length (raf_nam (node N a))" "raf_typ (node N a) \<noteq> Raty_foll" "vog (raf_nam (node N a) ! x)" for a x
    using parts(6) that unfolding net_flags_def by blast
  have grow: "w \<in> set (written (((node N)(c := raf')) y) z)" if "w \<in> set (written (node N y) z)" for w y z
    using later(2) that unfolding grows_def by (cases "y = c") (auto, metis Un_iff set_append)
  have lift: "\<exists>b j i m. link N (b, j) = Some (a, i) \<and> raf_str (node N b) = str \<and> m \<in> set (written (((node N)(c := raf')) b) j) \<and> grants m \<and> tem_w m = tem"
    if "\<exists>b j i m. link N (b, j) = Some (a, i) \<and> raf_str (node N b) = str \<and> m \<in> set (written (node N b) j) \<and> grants m \<and> tem_w m = tem" for a str tem
    using that grow by blast
  show ?thesis unfolding net_flags_def put_node_simps strs(1)
  proof (intro allI impI)
    fix a x assume a: "a < n" "x < length (raf_nam (((node N)(c := raf')) a))" "raf_typ (((node N)(c := raf')) a) \<noteq> Raty_foll" "vog (raf_nam (((node N)(c := raf')) a) ! x)"
    have "\<exists>b j i m. link N (b, j) = Some (a, i) \<and> raf_str (node N b) = str_c (raf_nam (((node N)(c := raf')) a) ! x) \<and>
        m \<in> set (written (node N b) j) \<and> grants m \<and> tem_w m = raf_tem (((node N)(c := raf')) a)"
    proof (cases "a = c")
      case True
      show ?thesis
      proof (cases "vog (raf_nam (node N c) ! x)")
        case False
        then have "x = k" using flag [of x] a True by simp
        then show ?thesis using ends(1) new_name(2) [OF q(1) refl] msg_in(1) cnt(1,2) q(3) name [of x] a(2) True by auto
      qed (use old [of c x] a True len name [of x] cnt(2,3) in auto)
    qed (use old [of a x] a in auto)
    then show "\<exists>b j i m. link N (b, j) = Some (a, i) \<and> raf_str (node N b) = str_c (raf_nam (((node N)(c := raf')) a) ! x) \<and>
        m \<in> set (written (((node N)(c := raf')) b) j) \<and> grants m \<and> tem_w m = raf_tem (((node N)(c := raf')) a)"
      by (rule lift)
  qed
qed

lemma due_self:
  assumes D: "delivers n N dn c l b j m raf'" and "waits raf' i = Some (nm, q)"
  shows "matched q (due (put_node c raf' N) (dn((c, l) := Suc (dn (c, l)))) c i) (raf_tem raf')"
  supply lk = deliversD(1) [OF D] and gets = deliversD(4) [OF D] and parts = deliver_net [OF D] and ends = deliver_ends [OF D] and later = deliver_later [OF D] and others = deliver_others [OF D] and msg_in = deliver_msg [OF D] and said_cases = deliver_said [OF D] and queue = deliver_queue [OF D]
proof -
  have tem: "raf_tem (node N c) \<le> raf_tem raf'" using later(1) by (simp add: raft_later_def)
  show ?thesis
  proof (cases "i = l")
    case True
    have qs: "questions (drop (dn (b, j)) (said raf' l)) = questions (drop (dn (b, j)) (said (node N c) l))"
    proof -
      have "dn (b, j) \<le> length (said (node N c) l)" using net_dueD(2) [OF parts(7) ends(1)] length_written order_trans by blast
      then show ?thesis using said_cases rasp_no_question by auto
    qed
    have d: "due (put_node c raf' N) (dn((c, l) := Suc (dn (c, l)))) c l = answers (drop (Suc (dn (c, l))) (said (node N b) j)) @
        (if waits (node N b) j = None then [] else questions (drop (dn (b, j)) (said (node N c) l)))"
      using lk ends(4) qs by (simp add: due_def)
    show ?thesis
    proof (cases "is_rasp m")
      case rasp: True
      then show ?thesis using True assms matched_mono [OF _ tem] unfolding d True by (elim queue) simp
    next
      case False
      then have "answers (drop (dn (c, l)) (said (node N b) j)) = answers (drop (Suc (dn (c, l))) (said (node N b) j))"
        using msg_in(3) by (simp add: answers_def)
      then have "due (put_node c raf' N) (dn((c, l) := Suc (dn (c, l)))) c l = due N dn c l" unfolding d using lk by (simp add: due_def)
      moreover obtain nm0 where "waits (node N c) l = Some (nm0, q)"
        using gets False assms True by (cases "body m") (auto simp: gets_def is_rasp_def)
      ultimately show ?thesis using net_dueD(1) [OF parts(7) ends(2)] matched_mono [OF _ tem] True by simp
    qed
  next
    case False
    have "due (put_node c raf' N) (dn((c, l) := Suc (dn (c, l)))) c i = due N dn c i"
      using False others(2) [OF False] net_linksD(4) [OF parts(2), of c i] by (auto simp: due_def split: option.splits)
    then show ?thesis using net_dueD(1) [OF parts(7) ends(2), of i nm q] others(1) [OF False] assms(2) matched_mono [OF _ tem] by simp
  qed
qed

lemma due_peer:
  assumes D: "delivers n N dn c l b j m raf'" and a: "a < n" "a \<noteq> c" "waits (node N a) i = Some (nm, q)"
  shows "matched q (due (put_node c raf' N) (dn((c, l) := Suc (dn (c, l)))) a i) (raf_tem (node N a))"
  supply lk = deliversD(1) [OF D] and gets = deliversD(4) [OF D] and parts = deliver_net [OF D] and ends = deliver_ends [OF D] and others = deliver_others [OF D] and msg_in = deliver_msg [OF D] and said_cases = deliver_said [OF D]
proof -
  note old = net_dueD(1) [OF parts(7) a(1,3)]
  show ?thesis
  proof (cases "link N (a, i) = Some (c, l)")
    case False
    then have "due (put_node c raf' N) (dn((c, l) := Suc (dn (c, l)))) a i = due N dn a i"
      using a(2) others by (auto simp: due_def split: option.splits if_splits)
    then show ?thesis using old by simp
  next
    case True
    then have x: "a = b" "i = j" using net_linksD(1) [OF parts(2) True] lk by auto
    obtain x y where w: "waits raf' l = Some x" "waits (node N c) l = Some y" using gets unfolding gets_def by blast
    have dnj: "dn (b, j) \<le> length (said (node N c) l)" using net_dueD(2) [OF parts(7) ends(1)] length_written order_trans by blast
    have d: "due N dn b j = answers (drop (dn (b, j)) (said (node N c) l)) @ questions [m] @ questions (drop (Suc (dn (c, l))) (said (node N b) j))"
      using ends(1,4) w(2) msg_in(3) by (simp add: due_def questions_def)
    have d': "due (put_node c raf' N) (dn((c, l) := Suc (dn (c, l)))) b j = answers (drop (dn (b, j)) (said raf' l)) @ questions (drop (Suc (dn (c, l))) (said (node N b) j))"
      using ends(1,4) w(1) by (simp add: due_def)
    have "list_all2 (\<lambda>x y. x = None \<or> x = y) (answers (drop (dn (b, j)) (said raf' l))) (answers (drop (dn (b, j)) (said (node N c) l)) @ questions [m])"
      using said_cases
    proof (elim disjE exE conjE)
      fix r assume r: "said raf' l = said (node N c) l @ [r]" "is_revo m" "is_rasp r" "tem_w r = raf_tem raf'"
        "grants r \<longrightarrow> tem_w m = raf_tem raf' \<and> (\<exists>k q. waits raf' l = Some (Some k, q) \<and> raf_vog raf' = Some (str_c (raf_nam (node N c) ! k)))"
      then have "list_all2 (\<lambda>x y. x = None \<or> x = y) (answers [r]) (questions [m])" by (auto simp: answers_def questions_def)
      then show ?thesis using r(1) dnj by (simp add: list_all2_appendI list_all2_same)
    qed (simp add: questions_def list_all2_same)
    then have "list_all2 (\<lambda>x y. x = None \<or> x = y) (due (put_node c raf' N) (dn((c, l) := Suc (dn (c, l)))) b j) (due N dn b j)"
      unfolding d d' append.assoc [symmetric] by (rule list_all2_appendI) (simp add: list_all2_same)
    then show ?thesis using matched_weaken [OF old] x by simp
  qed
qed

lemma got_net:
  assumes D: "delivers n N dn c l b j m raf'"
  shows "net_ok n (put_node c raf' N) (dn((c, l) := Suc (dn (c, l))))"
  supply lk = deliversD(1) [OF D] and less = deliversD(2) [OF D] and ok' = deliversD(5) [OF D] and parts = deliver_net [OF D] and ends = deliver_ends [OF D] and later = deliver_later [OF D]
proof -
  have "net_due n (put_node c raf' N) (dn((c, l) := Suc (dn (c, l))))" unfolding net_due_def put_node_simps
  proof (intro conjI allI impI)
    fix a i nm q assume "a < n" "waits (((node N)(c := raf')) a) i = Some (nm, q)"
    then show "matched q (due (put_node c raf' N) (dn((c, l) := Suc (dn (c, l)))) a i) (raf_tem (((node N)(c := raf')) a))"
      using due_self [OF D, of i nm q] due_peer [OF D, of a i nm q] by (cases "a = c") simp_all
  next
    fix a i x y assume y: "link N (x, y) = Some (a, i)"
    have "length (written (node N c) i) \<le> length (written raf' i)" using later(2) unfolding grows_def by (metis le_add1 length_append)
    moreover have "(x, y) = (c, l) \<Longrightarrow> a = b \<and> i = j" using y lk by simp
    ultimately show "(dn((c, l) := Suc (dn (c, l)))) (x, y) \<le> length (written (((node N)(c := raf')) a) i)"
      using net_dueD(2) [OF parts(7) y] less ends(4) by (cases "a = c"; cases "(x, y) = (c, l)") auto
  qed
  then show ?thesis
    using put_names [OF parts(1) ends(2) later(1) ok'] put_links [OF parts(2), of c raf'] later(3) got_said [OF D] got_waits [OF D] got_votes [OF D] got_flags [OF D]
    by (simp add: net_ok_def)
qed

end
