(* ===== verification/Raft_Safe.thy ===== *)
theory Raft_Safe
  imports Raft_Deliver
begin

text \<open>
  Every step of a cluster keeps its invariant, so that no term has two leaders.
\<close>

section \<open>Steps of a node\<close>

lemma put_node_same [simp]: "put_node c (node N c) N = N"
  by (simp add: put_node_def)

lemma put_node_twice [simp]: "put_node c raf (put_node c raf' N) = put_node c raf N"
  by (simp add: put_node_def)

definition hears :: "u2_raft \<Rightarrow> u2_raft \<Rightarrow> nat \<Rightarrow> bool" where
  "hears raf raf' l \<longleftrightarrow> heard raf' l = heard raf l \<or> heard raf' l = None \<or> raf_new raf \<le> l \<and> heard raf' l = Some []"

lemma waits_heard: "waits raf l = None \<longleftrightarrow> heard raf l = None"
  by (simp add: waits_def heard_def)

lemma quietly_hears: "quietly raf raf' \<Longrightarrow> hears raf raf' l"
  by (simp add: quietly_def same_at_def hears_def)

lemma requests_hears: "requests i m raf raf' \<Longrightarrow> hears raf raf' l"
  by (cases "l = i") (simp_all add: requests_def same_at_def hears_def)

lemma opens_hears: "opens nm raf raf' \<Longrightarrow> hears raf raf' l"
  by (cases "l = raf_new raf") (simp_all add: opens_def same_at_def hears_def)

lemma frees_hears: "frees i raf raf' \<Longrightarrow> hears raf raf' l"
  by (cases "l = i") (simp_all add: frees_def same_at_def hears_def waits_heard)

lemma take_grown:
  assumes "grows raf raf'" "d \<le> length (written raf i)" "s \<le> length (enc (written raf i))"
  shows "take d (written raf' i) = take d (written raf i)" "take s (enc (written raf' i)) = take s (enc (written raf i))"
    "s \<le> length (enc (written raf' i))"
proof -
  obtain ms where "written raf' i = written raf i @ ms" using assms(1) by (auto simp: grows_def)
  then show "take d (written raf' i) = take d (written raf i)" "take s (enc (written raf' i)) = take s (enc (written raf i))"
    "s \<le> length (enc (written raf' i))" using assms(2,3) by simp_all
qed

lemma net_streamD:
  assumes "net_stream n N dn"
  shows "link N (b, j) = Some (a, i) \<Longrightarrow> heard (node N b) j = Some h \<Longrightarrow>
      seen N (b, j) \<le> length (enc (written (node N a) i)) \<and> take (seen N (b, j)) (enc (written (node N a) i)) = enc (take (dn (b, j)) (written (node N a) i)) @ h"
    "a < n \<Longrightarrow> link N (a, i) = None \<Longrightarrow> heard (node N a) i = Some h \<Longrightarrow> h = []"
  using assms unfolding net_stream_def by blast+

lemma stream_at:
  assumes s: "net_stream n N dn" and links: "net_links n N" and due: "net_due n N dn" and g: "grows (node N c) raf'"
    and l: "link N (b, j) = Some (a, i)" and h: "b = c \<Longrightarrow> hears (node N c) raf' j" and hd: "heard (((node N)(c := raf')) b) j = Some h"
  shows "seen N (b, j) \<le> length (enc (written (((node N)(c := raf')) a) i))"
    "take (seen N (b, j)) (enc (written (((node N)(c := raf')) a) i)) = enc (take (dn (b, j)) (written (((node N)(c := raf')) a) i)) @ h"
proof -
  have "j < raf_new (node N b)" by (rule net_linksD(5) [OF links l])
  then have "heard (node N b) j = Some h" using hd h by (cases "b = c") (auto simp: hears_def)
  then have old: "seen N (b, j) \<le> length (enc (written (node N a) i))"
    "take (seen N (b, j)) (enc (written (node N a) i)) = enc (take (dn (b, j)) (written (node N a) i)) @ h"
    using net_streamD(1) [OF s l] by auto
  have t: "take (dn (b, j)) (written raf' i) = take (dn (b, j)) (written (node N c) i)"
    "take (seen N (b, j)) (enc (written raf' i)) = take (seen N (b, j)) (enc (written (node N c) i))" "seen N (b, j) \<le> length (enc (written raf' i))" if "a = c"
    using take_grown [OF g, of "dn (b, j)" i "seen N (b, j)"] net_dueD(2) [OF due l] old(1) that by simp_all
  show "seen N (b, j) \<le> length (enc (written (((node N)(c := raf')) a) i))" using old t(3) by (cases "a = c") simp_all
  show "take (seen N (b, j)) (enc (written (((node N)(c := raf')) a) i)) = enc (take (dn (b, j)) (written (((node N)(c := raf')) a) i)) @ h"
    using old t(1,2) by (cases "a = c") simp_all
qed

lemma put_stream:
  assumes s: "net_stream n N dn" "net_links n N" "net_due n N dn" "grows (node N c) raf'" and h: "\<And>l. hears (node N c) raf' l"
  shows "net_stream n (put_node c raf' N) dn"
  unfolding net_stream_def put_node_simps
proof (intro conjI allI impI)
  fix a i h assume a: "a < n" "link N (a, i) = None" "heard (((node N)(c := raf')) a) i = Some h"
  then show "h = []" using net_streamD(2) [OF s(1)] assms(5) [of i] by (cases "a = c") (auto simp: hears_def)
qed (use stream_at [OF s] h in blast)+

text \<open>
  What a vote binds: a triple of \<open>K\<close> is a node, a term, and the only node that this node has voted for or will vote for in the term.
\<close>

definition keeps :: "rnet \<Rightarrow> nat \<Rightarrow> c3_w \<Rightarrow> nat \<Rightarrow> bool" where
  "keeps N x t c \<longleftrightarrow>
     t \<le> raf_tem (node N x) \<and> (t = raf_tem (node N x) \<longrightarrow> raf_vog (node N x) = Some (raf_str (node N c))) \<and>
     (\<forall>i d j m. link N (x, i) = Some (d, j) \<longrightarrow> m \<in> set (said (node N x) i) \<longrightarrow> grants m \<longrightarrow> tem_w m = t \<longrightarrow> d = c)"

definition net_kept :: "nat \<Rightarrow> (nat \<times> c3_w \<times> nat) set \<Rightarrow> rnet \<Rightarrow> bool" where
  "net_kept n K N \<longleftrightarrow> (\<forall>(x, t, c)\<in>K. c < n \<and> keeps N x t c)"

lemma kept_put:
  assumes K: "net_kept n K N" and N: "net_names n N" "net_links n N" and later: "raft_later (node N y) raf'"
    and new: "\<And>i d j m. link N (y, i) = Some (d, j) \<Longrightarrow> m \<in> set (said raf' i) \<Longrightarrow> grants m \<Longrightarrow>
      m \<in> set (said (node N y) i) \<or> tem_w m = raf_tem raf' \<and> raf_vog raf' = Some (raf_str (node N d))"
  shows "net_kept n K (put_node y raf' N)"
proof -
  have str: "raf_str (((node N)(y := raf')) c) = raf_str (node N c)" for c using later by (simp add: raft_later_def)
  have inj: "inj_on (\<lambda>c. raf_str (node N c)) {..<n}" using N(1) by (simp add: net_names_def)
  have "keeps (put_node y raf' N) x t c" if k: "keeps N x t c" "c < n" for x t c
  proof (cases "x = y")
    case True
    have old: "t \<le> raf_tem (node N y)" "t = raf_tem (node N y) \<Longrightarrow> raf_vog (node N y) = Some (raf_str (node N c))"
      using k(1) True by (simp_all add: keeps_def)
    have tem: "raf_tem (node N y) \<le> raf_tem raf'" using later by (simp add: raft_later_def)
    have vog: "raf_vog raf' = Some (raf_str (node N c))" if "t = raf_tem raf'"
      using that old tem later by (auto simp: raft_later_def)
    have "d = c" if m: "link N (y, i) = Some (d, j)" "m \<in> set (said raf' i)" "grants m" "tem_w m = t" for i d j m
      using new [OF m(1-3)]
    proof
      assume "m \<in> set (said (node N y) i)"
      then show ?thesis using k(1) True m unfolding keeps_def by blast
    next
      assume "tem_w m = raf_tem raf' \<and> raf_vog raf' = Some (raf_str (node N d))"
      then have "raf_str (node N d) = raf_str (node N c)" using vog m(4) by simp
      then show ?thesis using inj_onD [OF inj] net_linksD(3) [OF N(2) m(1)] k(2) by blast
    qed
    then show ?thesis using old(1) tem vog True unfolding keeps_def put_node_simps str by auto
  next
    case False
    then show ?thesis using k(1) unfolding keeps_def put_node_simps str by simp
  qed
  then show ?thesis using K unfolding net_kept_def by blast
qed

lemma own_kept:
  assumes "net_kept n K N" "net_ok n N dn" "own (node N c) raf'" "c < n"
  shows "net_kept n K (put_node c raf' N)"
proof (rule kept_put [OF assms(1)])
  have N: "net_names n N" "net_links n N" "net_said n N" using assms(2) by (simp_all add: net_ok_def)
  show "net_names n N" "net_links n N" using N by simp_all
  show "raft_later (node N c) raf'" using assms(3) by (simp add: own_def calm_def)
  show "m \<in> set (said (node N c) i) \<or> tem_w m = raf_tem raf' \<and> raf_vog raf' = Some (raf_str (node N d))" if "m \<in> set (said raf' i)" "grants m" for i d m
    using own_subset [OF N(3) assms(3,4) that] by blast
qed

lemma deliver_kept:
  assumes K: "net_kept n K N" and D: "delivers n N dn c l b j m raf'"
  shows "net_kept n K (put_node c raf' N)"
proof (rule kept_put [OF K deliver_net(1,2) [OF D] deliver_later(1) [OF D]])
  fix i d z g assume g: "link N (c, i) = Some (d, z)" "g \<in> set (said raf' i)" "grants g"
  show "g \<in> set (said (node N c) i) \<or> tem_w g = raf_tem raf' \<and> raf_vog raf' = Some (raf_str (node N d))"
  proof (cases "g \<in> set (said (node N c) i)")
    case False
    then have i: "i = l" using g(2) deliver_others(2) [OF D, of i] by metis
    then have d: "d = b" using g(1) deliversD(1) [OF D] by simp
    obtain k q where "tem_w g = raf_tem raf'" "waits raf' l = Some (Some k, q)" "raf_vog raf' = Some (str_c (raf_nam (node N c) ! k))"
      using deliver_said [OF D] False g(2,3) i by auto
    then show ?thesis using deliver_name(2) [OF D _ refl] d by simp
  qed simp
qed

definition net_good :: "nat \<Rightarrow> (nat \<times> c3_w \<times> nat) set \<Rightarrow> rnet \<Rightarrow> (nat \<times> nat \<Rightarrow> nat) \<Rightarrow> bool" where
  "net_good n K N dn \<longleftrightarrow> net_ok n N dn \<and> net_stream n N dn \<and> net_kept n K N"

lemma net_okD:
  assumes "net_ok n N dn"
  shows "net_names n N" "net_links n N" "net_said n N" "net_waits n N" "net_votes N" "net_flags n N" "net_due n N dn"
  using assms by (simp_all add: net_ok_def)

lemma own_good:
  assumes "net_good n K N dn" "own (node N c) raf'" "raft_ok raf'" "c < n" "\<And>l. hears (node N c) raf' l"
  shows "net_good n K (put_node c raf' N) dn"
proof -
  have N: "net_ok n N dn" "net_stream n N dn" "net_kept n K N" using assms(1) by (simp_all add: net_good_def)
  have "grows (node N c) raf'" using assms(2) by (simp add: own_def)
  then show ?thesis
    using own_net [OF N(1) assms(2-4)] put_stream [OF N(2) net_okD(2) [OF N(1)] net_okD(7) [OF N(1)] _ assms(5)] own_kept [OF N(3,1) assms(2,4)]
    by (simp add: net_good_def)
qed

lemma moves_good:
  assumes "moves raf raf'" "node N c = raf" "net_good n K N dn" "c < n"
  shows "net_good n K (put_node c raf' N) dn"
  using assms
proof (induction rule: moves.induct)
  case moves_refl
  then show ?case by auto
next
  case (moves_quietly b d)
  then show ?case using own_good [of n K "put_node c b N" dn c d] quietly_own quietly_hears by simp
next
  case (moves_requests b i m d)
  then show ?case using own_good [of n K "put_node c b N" dn c d] requests_own requests_hears by simp
next
  case (moves_opens b nm d)
  then show ?case using own_good [of n K "put_node c b N" dn c d] opens_own opens_hears by simp
next
  case (moves_frees b i d)
  then show ?case using own_good [of n K "put_node c b N" dn c d] frees_own frees_hears by simp
qed

section \<open>The arrival of bytes\<close>

lemma do_msgs_others:
  "\<lbrakk>raft_ok raf; raf_con raf i \<noteq> None; rfold (raft_do_msg i) ms raf = Inr raf'\<rbrakk> \<Longrightarrow> grows raf raf' \<and> (\<forall>l. l \<noteq> i \<longrightarrow> same_at raf raf' l)"
proof (induction ms arbitrary: raf)
  case (Cons m ms)
  obtain raf1 ron where r: "raft_do_msg i m raf = Inr raf1" "rfold (raft_do_msg i) ms raf1 = Inr raf'" and ron: "raf_con raf i = Some ron"
    using Cons.prems by (auto simp: rbind_eq_Inr)
  note g = do_msg_gets [OF Cons.prems(1) ron r(1)]
  have "raf_con raf1 i \<noteq> None" using do_msgs_ok [OF Cons.prems(1,2), of "[m]" raf1] r(1) by simp
  then have "grows raf1 raf' \<and> (\<forall>l. l \<noteq> i \<longrightarrow> same_at raf1 raf' l)" using Cons.IH [OF g(2) _ r(2)] by simp
  then show ?case using g(1) grows_trans same_at_trans unfolding gets_def by blast
qed simp

lemma do_msgs_net:
  "\<lbrakk>net_ok n N dn; net_kept n K N; link N (c, l) = Some (b, j); raf_con (node N c) l \<noteq> None; drop (dn (c, l)) (written (node N b) j) = ms @ rest;
    rfold (raft_do_msg l) ms (node N c) = Inr raf'\<rbrakk> \<Longrightarrow>
   net_ok n (put_node c raf' N) (dn((c, l) := dn (c, l) + length ms)) \<and> net_kept n K (put_node c raf' N)"
proof (induction ms arbitrary: N dn)
  case (Cons m ms)
  obtain raf1 ron where r: "raft_do_msg l m (node N c) = Inr raf1" "rfold (raft_do_msg l) ms raf1 = Inr raf'" and ron: "raf_con (node N c) l = Some ron"
    using Cons.prems by (auto simp: rbind_eq_Inr)
  note N = net_okD [OF Cons.prems(1)] and e = net_linksD [OF net_okD(2) [OF Cons.prems(1)] Cons.prems(3)]
  have ok: "raft_ok (node N c)" by (rule net_namesD(1) [OF N(1) e(2)])
  note g = do_msg_gets [OF ok ron r(1)]
  have less: "dn (c, l) < length (written (node N b) j)" using Cons.prems(5) by (cases "dn (c, l) < length (written (node N b) j)") simp_all
  then have m: "m = written (node N b) j ! dn (c, l)" "drop (Suc (dn (c, l))) (written (node N b) j) = ms @ rest"
    using Cons.prems(5) Cons_nth_drop_Suc [OF less] by simp_all
  have D: "delivers n N dn c l b j m raf1" using Cons.prems(1,3) less m(1) g by (simp add: delivers_def)
  have "raf_con raf1 l \<noteq> None" using do_msgs_ok [OF ok Cons.prems(4), of "[m]" raf1] r(1) by simp
  then have "net_ok n (put_node c raf' (put_node c raf1 N)) (dn((c, l) := Suc (dn (c, l)), (c, l) := (dn((c, l) := Suc (dn (c, l)))) (c, l) + length ms)) \<and>
      net_kept n K (put_node c raf' (put_node c raf1 N))"
    by (intro Cons.IH got_net [OF D] deliver_kept [OF Cons.prems(2) D]) (use Cons.prems(3) m(2) r(2) e(4) in simp_all)
  then show ?case by (simp only: put_node_twice fun_upd_upd fun_upd_same list.size add_Suc_right add_Suc add_0_right One_nat_def)
qed auto

lemma seen_simps [simp]: "node (N\<lparr>seen := s\<rparr>) = node N" "link (N\<lparr>seen := s\<rparr>) = link N" "seen (N\<lparr>seen := s\<rparr>) = s"
  by simp_all

lemma seen_ok: "net_ok n (N\<lparr>seen := s\<rparr>) dn = net_ok n N dn"
proof -
  have "due (N\<lparr>seen := s\<rparr>) dn = due N dn" by (intro ext) (simp only: due_def seen_simps)
  then show ?thesis
    by (simp only: net_ok_def net_names_def net_links_def net_said_def net_waits_def net_votes_def net_flags_def net_due_def seen_simps)
qed

lemma seen_kept: "net_kept n K (N\<lparr>seen := s\<rparr>) = net_kept n K N"
  by (simp only: net_kept_def keeps_def seen_simps)

lemma bytes_stream:
  assumes s: "net_stream n N dn" "net_links n N" "net_due n N dn" "grows (node N b) raf'" and l: "link N (b, j) = Some (a, i)"
    and hd: "heard (node N b) j = Some h" "heard raf' j = Some left" "\<And>l. l \<noteq> j \<Longrightarrow> heard raf' l = heard (node N b) l"
    and bs: "enc (written (node N a) i) = take (seen N (b, j)) (enc (written (node N a) i)) @ bs @ rest"
    and k: "h @ bs = enc (take k (drop (dn (b, j)) (written (node N a) i))) @ left"
  shows "net_stream n ((put_node b raf' N)\<lparr>seen := (seen N)((b, j) := seen N (b, j) + length bs)\<rparr>) (dn((b, j) := dn (b, j) + k))"
proof -
  let ?w = "written (node N a) i"
  have old: "seen N (b, j) \<le> length (enc ?w)" "take (seen N (b, j)) (enc ?w) = enc (take (dn (b, j)) ?w) @ h" using net_streamD(1) [OF s(1) l hd(1)] by auto
  have len: "length (enc ?w) = seen N (b, j) + length bs + length rest" using arg_cong [OF bs, of length] old(1) by simp
  have "take (seen N (b, j) + length bs) (take (seen N (b, j)) (enc ?w) @ bs @ rest) = take (seen N (b, j)) (enc ?w) @ bs" using old(1) by simp
  then have "take (seen N (b, j) + length bs) (enc ?w) = enc (take (dn (b, j)) ?w) @ h @ bs" using bs old(2) by simp
  then have new: "take (seen N (b, j) + length bs) (enc ?w) = enc (take (dn (b, j) + k) ?w) @ left" using k by (simp add: take_add)
  have ab: "a \<noteq> b" using net_linksD(4) [OF s(2) l] by simp
  show ?thesis unfolding net_stream_def seen_simps put_node_simps
  proof (intro conjI allI impI)
    fix x y v z g assume v: "link N (v, z) = Some (x, y)" "heard (((node N)(b := raf')) v) z = Some g"
    have "((seen N)((b, j) := seen N (b, j) + length bs)) (v, z) \<le> length (enc (written (((node N)(b := raf')) x) y)) \<and>
      take (((seen N)((b, j) := seen N (b, j) + length bs)) (v, z)) (enc (written (((node N)(b := raf')) x) y)) =
        enc (take ((dn((b, j) := dn (b, j) + k)) (v, z)) (written (((node N)(b := raf')) x) y)) @ g"
    proof (cases "(v, z) = (b, j)")
      case True
      then have "x = a" "y = i" "g = left" "v = b" "z = j" using l v hd(2) by simp_all
      then show ?thesis using new len ab by simp
    next
      case False
      then have "v = b \<Longrightarrow> hears (node N b) raf' z" using hd(3) by (simp add: hears_def)
      then show ?thesis using stream_at [OF s v(1) _ v(2)] False by auto
    qed
    then show "((seen N)((b, j) := seen N (b, j) + length bs)) (v, z) \<le> length (enc (written (((node N)(b := raf')) x) y))"
      "take (((seen N)((b, j) := seen N (b, j) + length bs)) (v, z)) (enc (written (((node N)(b := raf')) x) y)) =
        enc (take ((dn((b, j) := dn (b, j) + k)) (v, z)) (written (((node N)(b := raf')) x) y)) @ g"
      by blast+
  next
    fix x y g assume x: "x < n" "link N (x, y) = None" "heard (((node N)(b := raf')) x) y = Some g"
    then show "g = []" using net_streamD(2) [OF s(1), of x y g] hd(3) l by (cases "x = b"; cases "y = j") auto
  qed
qed

lemma bytes_good:
  assumes N: "net_good n K N dn" and l: "link N (b, j) = Some (a, i)" and e: "raft_enabled (Read j (Some bs)) (node N b)" "bs \<noteq> []"
    and bs: "enc (written (node N a) i) = take (seen N (b, j)) (enc (written (node N a) i)) @ bs @ rest"
    and r: "raft_event uvw (Read j (Some bs)) (node N b) = Inr raf'"
  shows "\<exists>dn. net_good n K (N\<lparr>node := (node N)(b := raf'), seen := (seen N)((b, j) := seen N (b, j) + length bs)\<rparr>) dn"
proof -
  have net: "net_ok n N dn" "net_stream n N dn" "net_kept n K N" using N by (simp_all add: net_good_def)
  note p = net_okD [OF net(1)] and q = net_linksD [OF net_okD(2) [OF net(1)] l]
  have ok: "raft_ok (node N b)" by (rule net_namesD(1) [OF p(1) q(2)])
  obtain ron where ron: "raf_con (node N b) j = Some ron" "liv ron" using e(1) by (auto simp: raft_enabled_def split: option.splits)
  let ?h = "rbuf_bytes (red_u ron)" and ?w = "written (node N a) i" and ?d = "dn (b, j)"
  have h: "heard (node N b) j = Some ?h" using ron(1) by (simp add: heard_def)
  have "enc (take ?d ?w) @ enc (drop ?d ?w) = enc (take ?d ?w) @ ?h @ bs @ rest"
    using net_streamD(1) [OF net(2) l h] bs by (metis append.assoc append_take_drop_id enc_simps(2))
  then have ms: "?h @ bs @ rest = enc (drop ?d ?w)" by simp
  have "\<forall>m\<in>set (drop ?d ?w). rmsg_ok m" using p(3) q(3) written_said in_set_dropD unfolding net_said_def by (metis subsetD)
  then obtain k left raf1 raf2 where k: "k \<le> length (drop ?d ?w)" "?h @ bs = enc (take k (drop ?d ?w)) @ left" "fills j (node N b) raf1" "raft_ok raf1" "raf_con raf1 j \<noteq> None"
      "rfold (raft_do_msg j) (take k (drop ?d ?w)) raf1 = Inr raf2" "raft_ok raf2" "fills j raf2 raf'" "heard raf' j = Some left" "raft_ok raf'"
    using read_effect [OF ok ron e(2) _ ms r] by blast
  let ?ms = "take k (drop ?d ?w)"
  have "net_ok n (put_node b raf1 N) dn" "net_kept n K (put_node b raf1 N)"
    using own_net [OF net(1) fills_own [OF ok k(3)] k(4) q(2)] own_kept [OF net(3,1) fills_own [OF ok k(3)] q(2)] by blast+
  then have "net_ok n (put_node b raf2 (put_node b raf1 N)) (dn((b, j) := ?d + length ?ms)) \<and> net_kept n K (put_node b raf2 (put_node b raf1 N))"
    by (rule do_msgs_net [where rest = "drop k (drop ?d ?w)"]) (use l k(5,6) q(4) in \<open>auto simp del: drop_drop\<close>)
  moreover have "length ?ms = k" using k(1) by simp
  ultimately have two: "net_ok n (put_node b raf2 N) (dn((b, j) := ?d + k))" "net_kept n K (put_node b raf2 N)" by simp_all
  have "own (node (put_node b raf2 N) b) raf'" using fills_own [OF k(7,8)] by simp
  then have "net_ok n (put_node b raf' N) (dn((b, j) := ?d + k))" "net_kept n K (put_node b raf' N)"
    using own_net [OF two(1) _ k(10) q(2)] own_kept [OF two(2,1) _ q(2)] by simp_all
  moreover have o: "grows raf1 raf2" "\<forall>l. l \<noteq> j \<longrightarrow> same_at raf1 raf2 l" using do_msgs_others [OF k(4,5,6)] by auto
  have "net_stream n ((put_node b raf' N)\<lparr>seen := (seen N)((b, j) := seen N (b, j) + length bs)\<rparr>) (dn((b, j) := ?d + k))"
  proof (rule bytes_stream [OF net(2) p(2,7) _ l h k(9) _ bs k(2)])
    show "grows (node N b) raf'" using o(1) k(3,8) grows_trans unfolding fills_def by blast
    show "heard raf' l = heard (node N b) l" if "l \<noteq> j" for l using that o(2) k(3,8) by (simp add: fills_def same_at_def)
  qed
  ultimately show ?thesis by (auto simp: net_good_def seen_ok seen_kept put_node_def)
qed

section \<open>A connection is accepted\<close>

lemma link_new:
  assumes l: "net_links n N" and new: "link N p = None" "link N q = None" and x: "link N x = Some y"
  shows "x \<noteq> p" "x \<noteq> q" "y \<noteq> p" "y \<noteq> q"
  using net_linksD(1) [OF l, of "fst x" "snd x" "fst y" "snd y"] new x by auto

definition put_link :: "nat \<times> nat \<Rightarrow> nat \<times> nat \<Rightarrow> rnet \<Rightarrow> rnet" where
  "put_link p q N = N\<lparr>link := (link N)(p \<mapsto> q, q \<mapsto> p), seen := (seen N)(p := 0, q := 0)\<rparr>"

lemma put_link_simps [simp]:
  "node (put_link p q N) = node N" "link (put_link p q N) = (link N)(p \<mapsto> q, q \<mapsto> p)" "seen (put_link p q N) = (seen N)(p := 0, q := 0)"
  by (simp_all add: put_link_def)

text \<open>The connection \<open>i\<close> of \<open>a\<close> is on its way to \<open>b\<close>, which has just opened \<open>j\<close>.\<close>

definition accepts :: "nat \<Rightarrow> rnet \<Rightarrow> nat \<Rightarrow> nat \<Rightarrow> nat \<Rightarrow> nat \<Rightarrow> bool" where
  "accepts n N a i b j \<longleftrightarrow>
     a < n \<and> b < n \<and> a \<noteq> b \<and> i < raf_new (node N a) \<and> j < raf_new (node N b) \<and> link N (a, i) = None \<and> link N (b, j) = None \<and>
     (\<exists>k q. waits (node N a) i = Some (Some k, q) \<and> raf_str (node N b) = str_c (raf_nam (node N a) ! k)) \<and>
     waits (node N b) j = Some (None, []) \<and> said (node N b) j = []"

lemma acceptsD:
  assumes "accepts n N a i b j"
  shows "a < n" "b < n" "a \<noteq> b" "link N (a, i) = None" "link N (b, j) = None" "waits (node N b) j = Some (None, [])" "said (node N b) j = []"
  using assms by (simp_all add: accepts_def)

lemma link_links:
  assumes l: "net_links n N" and acc: "accepts n N a i b j"
  shows "net_links n (put_link (a, i) (b, j) N)"
  unfolding net_links_def put_link_simps
proof (intro allI impI)
  fix x y v z assume x: "((link N)((a, i) \<mapsto> (b, j), (b, j) \<mapsto> (a, i))) (x, y) = Some (v, z)"
  show "((link N)((a, i) \<mapsto> (b, j), (b, j) \<mapsto> (a, i))) (v, z) = Some (x, y) \<and> x < n \<and> x \<noteq> v \<and> y < raf_new (node N x)"
  proof (cases "(x, y) = (a, i) \<or> (x, y) = (b, j)")
    case False
    then have old: "link N (x, y) = Some (v, z)" using x by (auto split: if_splits)
    then show ?thesis using net_linksD [OF l old] link_new [OF l acceptsD(4,5) [OF acc] old] by auto
  qed (use x acc in \<open>auto simp: accepts_def\<close>)
qed

lemma link_said: "net_said n N \<Longrightarrow> net_said n (put_link (a, i) (b, j) N)"
  unfolding net_said_def by (auto split: if_splits)

lemma link_waits: "net_waits n N \<Longrightarrow> accepts n N a i b j \<Longrightarrow> net_waits n (put_link (a, i) (b, j) N)"
  unfolding net_waits_def accepts_def put_link_simps by (auto split: if_splits)

lemma no_answers:
  assumes "net_said n N" "a < n" "link N (a, i) = None" "m \<in> set (said (node N a) i)"
  shows "\<not> is_rasp m" "\<not> grants m"
proof -
  show "\<not> is_rasp m" using assms unfolding net_said_def by metis
  then show "\<not> grants m" by (simp add: is_rasp_def grants_def split: u2_rbody.splits)
qed

lemma link_grants:
  assumes "net_said n N" "accepts n N a i b j" "((link N)((a, i) \<mapsto> (b, j), (b, j) \<mapsto> (a, i))) (x, y) = Some z" "m \<in> set (said (node N x) y)" "grants m"
  shows "link N (x, y) = Some z"
  using assms no_answers(2) [OF assms(1) acceptsD(1,4) [OF assms(2)]] acceptsD(7) [OF assms(2)] by (auto split: if_splits)

lemma link_votes:
  assumes v: "net_votes N" and s: "net_said n N" and acc: "accepts n N a i b j"
  shows "net_votes (put_link (a, i) (b, j) N)"
  using v unfolding net_votes_def put_link_simps by (blast dest: link_grants [OF s acc])

lemma link_kept:
  assumes K: "net_kept n K N" and s: "net_said n N" and acc: "accepts n N a i b j"
  shows "net_kept n K (put_link (a, i) (b, j) N)"
proof -
  have "keeps (put_link (a, i) (b, j) N) x t c" if "keeps N x t c" for x t c
    using that link_grants [OF s acc] unfolding keeps_def put_link_simps by blast
  then show ?thesis using K unfolding net_kept_def by blast
qed

lemma link_flags:
  assumes f: "net_flags n N" and acc: "accepts n N a i b j"
  shows "net_flags n (put_link (a, i) (b, j) N)"
proof -
  have "((link N)((a, i) \<mapsto> (b, j), (b, j) \<mapsto> (a, i))) p = Some q" if "link N p = Some q" for p q using that acceptsD(4,5) [OF acc] by auto
  then show ?thesis using f unfolding net_flags_def put_link_simps by (metis (no_types, lifting))
qed

lemma due_put_link:
  assumes l: "net_links n N" and acc: "accepts n N a i b j" and x: "(x, y) \<noteq> (a, i)" "(x, y) \<noteq> (b, j)"
  shows "due (put_link (a, i) (b, j) N) (dn((a, i) := 0, (b, j) := 0)) x y = due N dn x y"
proof (cases "link N (x, y)")
  case None
  moreover have "((link N)((a, i) \<mapsto> (b, j), (b, j) \<mapsto> (a, i))) (x, y) = None" using None x by auto
  ultimately show ?thesis by (simp only: due_def put_link_simps option.case)
next
  case (Some q)
  obtain v z where q: "q = (v, z)" by (cases q)
  have "(v, z) \<noteq> (a, i)" "(v, z) \<noteq> (b, j)" using link_new [OF l acceptsD(4,5) [OF acc] Some] q by simp_all
  then have "(dn((a, i) := 0, (b, j) := 0)) (v, z) = dn (v, z)" by auto
  moreover have "(dn((a, i) := 0, (b, j) := 0)) (x, y) = dn (x, y)" "((link N)((a, i) \<mapsto> (b, j), (b, j) \<mapsto> (a, i))) (x, y) = Some (v, z)" "link N (x, y) = Some (v, z)"
    using x Some q by auto
  ultimately show ?thesis by (simp only: due_def put_link_simps option.case prod.case)
qed

lemma link_due:
  assumes due: "net_due n N dn" and links: "net_links n N" and s: "net_said n N" and acc: "accepts n N a i b j"
  shows "net_due n (put_link (a, i) (b, j) N) (dn((a, i) := 0, (b, j) := 0))"
proof -
  note d = acceptsD [OF acc]
  have no: "answers (said (node N a) i) = []" using no_answers(1) [OF s d(1,4)] by (simp add: answers_def filter_empty_conv)
  have ai: "due (put_link (a, i) (b, j) N) (dn((a, i) := 0, (b, j) := 0)) a i = due N dn a i" using d by (simp add: due_def)
  have bj: "due (put_link (a, i) (b, j) N) (dn((a, i) := 0, (b, j) := 0)) b j = []" using d no by (simp add: due_def)
  have "matched q (due (put_link (a, i) (b, j) N) (dn((a, i) := 0, (b, j) := 0)) x y) (raf_tem (node N x))" if x: "x < n" "waits (node N x) y = Some (nm, q)" for x y nm q
    using net_dueD(1) [OF due x] ai bj due_put_link [OF links acc, of x y dn] by (cases "(x, y) = (a, i)"; cases "(x, y) = (b, j)") auto
  moreover have "(dn((a, i) := 0, (b, j) := 0)) (x, y) \<le> length (written (node N v) z)" if "((link N)((a, i) \<mapsto> (b, j), (b, j) \<mapsto> (a, i))) (x, y) = Some (v, z)" for x y v z
    using that net_dueD(2) [OF due, of x y v z] by (auto split: if_splits)
  ultimately show ?thesis unfolding net_due_def put_link_simps by blast
qed

lemma link_stream:
  assumes s: "net_stream n N dn" and links: "net_links n N" and acc: "accepts n N a i b j"
  shows "net_stream n (put_link (a, i) (b, j) N) (dn((a, i) := 0, (b, j) := 0))"
  unfolding net_stream_def put_link_simps
proof (intro conjI allI impI)
  note d = acceptsD [OF acc]
  fix x y v z h assume x: "((link N)((a, i) \<mapsto> (b, j), (b, j) \<mapsto> (a, i))) (v, z) = Some (x, y)" "heard (node N v) z = Some h"
  have "((seen N)((a, i) := 0, (b, j) := 0)) (v, z) \<le> length (enc (written (node N x) y)) \<and>
    take (((seen N)((a, i) := 0, (b, j) := 0)) (v, z)) (enc (written (node N x) y)) = enc (take ((dn((a, i) := 0, (b, j) := 0)) (v, z)) (written (node N x) y)) @ h"
  proof (cases "(v, z) = (a, i) \<or> (v, z) = (b, j)")
    case True
    then have "h = []" using net_streamD(2) [OF s, of v z h] x(2) d by auto
    then show ?thesis using True by auto
  next
    case False
    then have "link N (v, z) = Some (x, y)" using x(1) by (auto split: if_splits)
    then show ?thesis using net_streamD(1) [OF s _ x(2)] False by auto
  qed
  then show "((seen N)((a, i) := 0, (b, j) := 0)) (v, z) \<le> length (enc (written (node N x) y))"
    "take (((seen N)((a, i) := 0, (b, j) := 0)) (v, z)) (enc (written (node N x) y)) = enc (take ((dn((a, i) := 0, (b, j) := 0)) (v, z)) (written (node N x) y)) @ h"
    by blast+
qed (use net_streamD(2) [OF s] in \<open>auto split: if_splits\<close>)

lemma link_good:
  assumes "net_good n K N dn" "accepts n N a i b j"
  shows "net_good n K (put_link (a, i) (b, j) N) (dn((a, i) := 0, (b, j) := 0))"
proof -
  have net: "net_ok n N dn" "net_stream n N dn" "net_kept n K N" using assms(1) by (simp_all add: net_good_def)
  note p = net_okD [OF net(1)]
  have "net_names n (put_link (a, i) (b, j) N)" using p(1) unfolding net_names_def put_link_simps .
  then show ?thesis
    using link_links [OF p(2) assms(2)] link_said [OF p(3)] link_waits [OF p(4) assms(2)] link_votes [OF p(5,3) assms(2)] link_flags [OF p(6) assms(2)]
      link_due [OF p(7,2,3) assms(2)] link_stream [OF net(2) p(2) assms(2)] link_kept [OF net(3) p(3) assms(2)]
    by (simp add: net_good_def net_ok_def)
qed

lemma accept_good:
  assumes N: "net_good n K N dn" and ab: "a < n" "b < n" and ron: "raf_con (node N a) i = Some ron" "nam_u ron = Some k" and new: "link N (a, i) = None"
    and str: "raf_str (node N b) = str_c (raf_nam (node N a) ! k)" and r: "raft_event uvw (Listen True) (node N b) = Inr raf'"
  shows "net_good n K (put_link (a, i) (b, raf_new (node N b)) (put_node b raf' N)) (dn((a, i) := 0, (b, raf_new (node N b)) := 0))"
proof (rule link_good)
  have net: "net_ok n N dn" "net_stream n N dn" using N by (simp_all add: net_good_def)
  note p = net_okD [OF net(1)]
  have ok: "raft_ok (node N a)" "raft_ok (node N b)" using net_namesD(1) [OF p(1)] ab by auto
  note o = listen_opens [OF ok(2) r]
  show "net_good n K (put_node b raf' N) dn" by (rule own_good [OF N opens_own [OF ok(2) o(1)] o(2) ab(2) opens_hears [OF o(1)]])
  have k: "k < length (raf_nam (node N a))" "i < raf_new (node N a)" using con_okD [OF ok(1) ron(1)] ron(2) by (auto simp: con_ok_def)
  then have "raf_str (node N b) \<in> set (map str_c (raf_nam (node N a)))" unfolding str by simp
  then have "a \<noteq> b" using ok(1) by (auto simp: raft_ok_def node_ok_def)
  moreover have "link N (b, raf_new (node N b)) = None" using net_linksD(5) [OF p(2), of b "raf_new (node N b)"] by (cases "link N (b, raf_new (node N b))") auto
  moreover have "said (node N b) (raf_new (node N b)) = []" using p(3) ab(2) unfolding net_said_def by blast
  then have "said raf' (raf_new (node N b)) = []" using o(1) by (simp add: opens_def said_def [of "node N b"])
  moreover have "raf_str raf' = raf_str (node N b)" using o(1) by (simp add: opens_def calm_def raft_later_def)
  ultimately show "accepts n (put_node b raf' N) a i b (raf_new (node N b))"
    using ab new k(2) o(1) str ron by (auto simp: accepts_def opens_def waits_def)
qed

section \<open>Runs of a cluster\<close>

lemma step_good:
  assumes "net_step n N M" "net_good n K N dn"
  shows "\<exists>dn. net_good n K M dn"
  using assms
proof cases
  case (net_own a e uvw raf')
  have ok: "raft_ok (node N a)" using assms(2) net_own(2) net_namesD(1) [of n N a] by (simp add: net_good_def net_ok_def)
  have "moves (node N a) raf'" using event_moves(1) [OF ok net_own(4,5) _ net_own(6)] net_own(3) by (force simp: own_event_def)
  then show ?thesis using moves_good [OF _ refl assms(2) net_own(2)] net_own(1) by (auto simp: put_node_def)
next
  case (net_accept a b i ron k uvw raf')
  then show ?thesis using accept_good [OF assms(2) net_accept(2-8)] by (auto simp: put_node_def put_link_def)
next
  case (net_bytes b j a i bs rest uvw raf')
  then show ?thesis using bytes_good [OF assms(2) net_bytes(2-6)] by simp
qed

lemma start_good:
  assumes "net_start n N"
  shows "net_good n {} N (\<lambda>_. 0)"
proof -
  have N: "net_names n N" "link N = Map.empty" "a < n \<Longrightarrow> raf_typ (node N a) = Raty_foll \<and> raf_con (node N a) = Map.empty \<and> raf_out (node N a) = []" for a
    using assms by (simp_all add: net_start_def)
  then have w: "a < n \<Longrightarrow> waits (node N a) i = None" "a < n \<Longrightarrow> heard (node N a) i = None" "a < n \<Longrightarrow> said (node N a) i = []" for a i
    by (simp_all add: waits_def heard_def said_def written_def)
  show ?thesis using N w
    by (simp add: net_good_def net_ok_def net_links_def net_said_def net_waits_def net_votes_def net_flags_def net_due_def net_stream_def net_kept_def)
qed

lemma run_good:
  assumes "net_run n N M" "net_good n K N dn"
  shows "\<exists>dn. net_good n K M dn"
  using assms by (induction rule: net_run.induct) (blast intro: step_good)+

section \<open>Majorities\<close>

definition voters :: "rnet \<Rightarrow> nat \<Rightarrow> nat set" where
  "voters N a = insert a {b. \<exists>j i m. link N (b, j) = Some (a, i) \<and> m \<in> set (said (node N b) j) \<and> grants m \<and> tem_w m = raf_tem (node N a)}"

lemma lead_majority:
  assumes "raft_ok raf" "raf_typ raf = Raty_lead"
  shows "Suc (length (raf_nam raf)) < 2 * Suc (length (filter vog (raf_nam raf)))" "raf_vog raf = Some (raf_str raf)"
proof -
  have n: "node_ok raf" using assms(1) by (simp add: raft_ok_def)
  then have "raf_pop raf div 2 < raf_vot raf" using assms(2) unfolding node_ok_def by blast
  then have "unat (raf_pop raf) div 2 < unat (raf_vot raf)" by (simp add: word_less_nat_alt unat_div)
  then show "Suc (length (raf_nam raf)) < 2 * Suc (length (filter vog (raf_nam raf)))" "raf_vog raf = Some (raf_str raf)"
    using n assms(2) pop_unat [OF n] by (auto simp: node_ok_def filter_map)
qed

lemma peers_length:
  assumes "net_names n N" "a < n"
  shows "Suc (length (raf_nam (node N a))) = n"
proof -
  note d = net_namesD [OF assms]
  have inj: "inj_on (\<lambda>b. raf_str (node N b)) ({..<n} - {a})" using assms(1) by (auto simp: net_names_def intro: inj_on_subset)
  have "length (raf_nam (node N a)) = card (set (map str_c (raf_nam (node N a))))" using distinct_card [OF d(2)] by simp
  also have "\<dots> = card ({..<n} - {a})" unfolding d(3) by (rule card_image [OF inj])
  finally show ?thesis using assms(2) by simp
qed

lemma voters_majority:
  assumes N: "net_ok n N dn" and a: "a < n" "raf_typ (node N a) = Raty_lead"
  shows "voters N a \<subseteq> {..<n}" "n < 2 * card (voters N a)"
proof -
  note p = net_okD [OF N]
  let ?nam = "raf_nam (node N a)" and ?f = "\<lambda>b. raf_str (node N b)"
  show sub: "voters N a \<subseteq> {..<n}" using a(1) net_linksD(2) [OF p(2)] by (auto simp: voters_def)
  have "str_c ` set (filter vog ?nam) \<subseteq> ?f ` (voters N a - {a})"
  proof
    fix s assume "s \<in> str_c ` set (filter vog ?nam)"
    then obtain k where k: "k < length ?nam" "vog (?nam ! k)" "s = str_c (?nam ! k)" by (auto simp: in_set_conv_nth)
    then obtain b j i m where b: "link N (b, j) = Some (a, i)" "?f b = s" "m \<in> set (written (node N b) j)" "grants m" "tem_w m = raf_tem (node N a)"
      using p(6) a unfolding net_flags_def by (metis u2_raty.distinct)
    have "b \<in> voters N a - {a}" using b written_said [of "node N b" j] net_linksD(4) [OF p(2) b(1)] unfolding voters_def by blast
    then show "s \<in> ?f ` (voters N a - {a})" using b(2) by blast
  qed
  then have "card (str_c ` set (filter vog ?nam)) \<le> card (voters N a - {a})"
    using sub finite_subset [of "voters N a" "{..<n}"] by (intro order_trans [OF card_mono card_image_le]) auto
  moreover have "card (str_c ` set (filter vog ?nam)) = length (filter vog ?nam)"
    using net_namesD(2) [OF p(1) a(1)] distinct_card [of "map str_c (filter vog ?nam)"] by (simp add: distinct_map_filter)
  moreover have "Suc (card (voters N a - {a})) = card (voters N a)"
    using sub finite_subset [of "voters N a" "{..<n}"] by (intro card_Suc_Diff1) (auto simp: voters_def)
  ultimately have "Suc (length (filter vog ?nam)) \<le> card (voters N a)" by simp
  then show "n < 2 * card (voters N a)"
    using lead_majority(1) [OF net_namesD(1) [OF p(1) a(1)] a(2)] unfolding peers_length [OF p(1) a(1)] by (meson less_le_trans mult_le_mono2)
qed

lemma majorities_meet:
  assumes "A \<subseteq> {..<n}" "B \<subseteq> {..<n}" "n < 2 * card A" "n < 2 * card B"
  shows "\<exists>x. x \<in> A \<and> x \<in> B"
proof (rule ccontr)
  assume "\<not> ?thesis"
  then have "card (A \<union> B) = card A + card B" using assms by (intro card_Un_disjoint) (auto intro: finite_subset)
  moreover have "card (A \<union> B) \<le> n" using card_mono [of "{..<n}" "A \<union> B"] assms(1,2) by simp
  ultimately show False using assms(3,4) by linarith
qed

lemma voters_keep:
  assumes N: "net_ok n N dn" and a: "a < n" "raf_vog (node N a) = Some (raf_str (node N a))"
  shows "net_kept n ((\<lambda>x. (x, raf_tem (node N a), a)) ` voters N a) N"
proof -
  have v: "net_votes N" and l: "net_links n N" using N by (simp_all add: net_ok_def)
  have inj: "inj_on (\<lambda>c. raf_str (node N c)) {..<n}" using N by (simp add: net_ok_def net_names_def)
  have "keeps N x (raf_tem (node N a)) a" if x: "x \<in> voters N a" for x
  proof (cases "x = a")
    case True
    have "d = a" if "link N (a, i) = Some (d, j)" "m \<in> set (said (node N a) i)" "grants m" "tem_w m = raf_tem (node N a)" for i d j m
    proof -
      have "raf_vog (node N a) = Some (raf_str (node N d))" using v that unfolding net_votes_def by blast
      then show ?thesis using a net_linksD(3) [OF l that(1)] inj_onD [OF inj] by auto
    qed
    then show ?thesis using True a(2) by (auto simp: keeps_def)
  next
    case False
    then obtain j i m where m: "link N (x, j) = Some (a, i)" "m \<in> set (said (node N x) j)" "grants m" "tem_w m = raf_tem (node N a)"
      using x by (auto simp: voters_def)
    then show ?thesis using v unfolding net_votes_def keeps_def by metis
  qed
  then show ?thesis using a(1) by (auto simp: net_kept_def)
qed

text \<open>
  C13: in a cluster whose nodes all start as followers, whatever the timers, the connections, the order and the delays of messages
  and their cuts into chunks are, a term has at most one leader: nodes that lead in the same term, at the same time or one after
  the other, are the same node (election safety).
\<close>

theorem election_safety:
  assumes "net_start n N" "net_run n N M" "net_run n M L" "a < n" "b < n" "raf_typ (node M a) = Raty_lead" "raf_typ (node L b) = Raty_lead"
    "raf_tem (node M a) = raf_tem (node L b)"
  shows "a = b"
proof -
  obtain dn where M: "net_good n {} M dn" using run_good [OF assms(2) start_good [OF assms(1)]] by blast
  then have okM: "net_ok n M dn" "net_stream n M dn" by (simp_all add: net_good_def)
  have a: "raf_vog (node M a) = Some (raf_str (node M a))"
    by (rule lead_majority(2) [OF net_namesD(1) [OF net_okD(1) [OF okM(1)] assms(4)] assms(6)])
  let ?K = "(\<lambda>x. (x, raf_tem (node M a), a)) ` voters M a"
  have "net_good n ?K M dn" using okM voters_keep [OF okM(1) assms(4) a] by (simp add: net_good_def)
  then obtain dn' where L: "net_ok n L dn'" "net_kept n ?K L" using run_good [OF assms(3)] by (auto simp: net_good_def)
  obtain x where x: "x \<in> voters M a" "x \<in> voters L b"
    using majorities_meet [OF voters_majority(1) [OF okM(1) assms(4,6)] voters_majority(1) [OF L(1) assms(5,7)] voters_majority(2) [OF okM(1) assms(4,6)]
      voters_majority(2) [OF L(1) assms(5,7)]] by blast
  have k: "keeps L x (raf_tem (node L b)) a" using L(2) x(1) assms(8) by (auto simp: net_kept_def)
  show ?thesis
  proof (cases "x = b")
    case True
    have b: "raf_vog (node L b) = Some (raf_str (node L b))"
      by (rule lead_majority(2) [OF net_namesD(1) [OF net_okD(1) [OF L(1)] assms(5)] assms(7)])
    have "inj_on (\<lambda>c. raf_str (node L c)) {..<n}" using L(1) by (simp add: net_ok_def net_names_def)
    then show ?thesis using k b True assms(4,5) by (auto simp: keeps_def dest: inj_onD)
  next
    case False
    then show ?thesis using k x(2) by (auto simp: keeps_def voters_def)
  qed
qed

section \<open>A cluster that elects a leader\<close>

definition node_of :: "c3_y \<Rightarrow> c3_y \<Rightarrow> u2_raft" where
  "node_of str peer = (raft_zero Map.empty)\<lparr>raf_typ := Raty_foll, raf_pop := 2, raf_str := [str],
     raf_nam := [\<lparr>str_c = [peer], ron_u = None, vog = False\<rparr>], raf_tim := Once\<rparr>"

definition pair_net :: rnet where
  "pair_net = \<lparr>node = (\<lambda>_. node_of 98 97)(0 := node_of 97 98, 1 := node_of 98 97), link = Map.empty, seen = \<lambda>_. 0\<rparr>"

lemma node_of_ok: "str \<noteq> peer \<Longrightarrow> str \<noteq> 0 \<Longrightarrow> raft_ok (node_of str peer)"
  by (auto simp: node_of_def raft_ok_def node_ok_def cons_ok_def disk_ok_def raft_zero_def)

lemma pair_start: "net_start 2 pair_net"
  using node_of_ok [of 97 98] node_of_ok [of 98 97]
  by (auto simp: net_start_def net_names_def pair_net_def inj_on_def less_2_cases_iff node_of_def raft_zero_def lessThan_nat_numeral lessThan_Suc insert_Diff_if)

definition ask_msg :: u2_rmsg where
  "ask_msg = \<lparr>ver_w = u2_cr_mug_a, len_d = 10, tem_w = 1, body = Revo \<lparr>lai_d = 0, lat_w = 0, nam_w = 1, nam_c = Some [97]\<rparr>\<rparr>"

definition yes_msg :: u2_rmsg where
  "yes_msg = \<lparr>ver_w = u2_cr_mug_a, len_d = 6, tem_w = 1, body = Rasp 1\<rparr>"

lemma msgs_ok: "rmsg_ok ask_msg" "rmsg_ok yes_msg"
  by (simp_all add: ask_msg_def yes_msg_def rmsg_ok_def rest_ok_def)

lemma enc_length:
  assumes "rmsg_ok m"
  shows "length (enc [m]) = unat (4 * len_d m)" "enc [m] \<noteq> []"
proof -
  obtain bs where bs: "rmsg_send m = Inr bs" "rmsg_read bs = Inr (Rgot m (length bs))" using rmsg_send_read [OF assms] by (metis append_Nil2)
  then show "length (enc [m]) = unat (4 * len_d m)" "enc [m] \<noteq> []" using rmsg_read_got(1,3) [OF bs(2)] by (auto simp: enc_def)
qed

lemma rbuf_fits: "length bs < 2 ^ 16 \<Longrightarrow> rbuf_grow None bs = Inr \<lparr>cap_w = of_nat (length bs), buf_y = bs\<rparr>"
  by (simp add: rbuf_grow_def Let_def unat_of_nat)

lemma read_one:
  assumes m: "rmsg_ok m" "unat (4 * len_d m) < 2 ^ 16" and ron: "raf_con raf i = Some ron" "liv ron" "red_u ron = None"
  shows "raft_conn_read_cb uvw i (Some (enc [m])) raf =
    rbind (raft_do_msg i m (con_put i (ron\<lparr>red_u := Some \<lparr>cap_w = of_nat (length (enc [m])), buf_y = enc [m]\<rparr>, red := False\<rparr>) raf)) (\<lambda>raf.
    rbind (con_at raf i) (\<lambda>ron. conn_writes uvw i (con_put i (ron\<lparr>red_u := Some \<lparr>cap_w = of_nat (length (enc [m])), buf_y = []\<rparr>\<rparr>) raf)))"
proof -
  note e = enc_length [OF m(1)]
  have g: "rbuf_grow None (enc [m]) = Inr \<lparr>cap_w = of_nat (length (enc [m])), buf_y = enc [m]\<rparr>"
    by (rule rbuf_fits) (use e(1) m(2) in simp)
  have loop: "work_loop f (enc [m]) s = rbind (f m s) (\<lambda>s. Inr (s, [], False))" for f :: "u2_rmsg \<Rightarrow> u2_raft \<Rightarrow> u2_raft res" and s
    using work_loop_enc [of "[m]" "[]" f s] m(1) by (cases "f m s") (simp_all add: rmsg_read_def)
  let ?raf = "con_put i (ron\<lparr>red_u := Some \<lparr>cap_w = of_nat (length (enc [m])), buf_y = enc [m]\<rparr>, red := False\<rparr>) raf"
  show ?thesis using ron e(2) g
    by (cases "raft_do_msg i m ?raf") (simp_all add: raft_conn_read_cb_def con_at_def raft_conn_work_def conn_reads_def con_put_def loop Let_def split: option.splits)
qed

lemmas event_simps = raft_event_def raft_time_cb_def raft_start_election_def raft_conn_all_def conn_peer_def raft_conn_new_def raft_send_revo_def
      raft_send_rest_def raft_rreq_new_def raft_rmsg_send_def raft_write_revo_def raft_write_rest_def raft_write_base_def con_at_def
      con_put_def nam_put_def sist_put_def raft_zero_def Let_def rmsg_send_def rbody_send_def rest_send_def rbody_len_def uv_strlcpy_def

lemma msgs_small: "unat (4 * len_d ask_msg) < 2 ^ 16" "unat (4 * len_d yes_msg) < 2 ^ 16"
  by (simp_all add: ask_msg_def yes_msg_def)

lemmas read_simps = read_one [OF msgs_ok(1) msgs_small(1)] read_one [OF msgs_ok(2) msgs_small(2)]
lemmas work_simps = raft_conn_work_def conn_reads_def conn_writes_def raft_enabled_def pending_def written_def raft_do_msg_def raft_note_term_def

lemma pair_asks:
  "\<exists>a a' a''. raft_event (\<lambda>_. True) Timer (node_of 97 98) = Inr a \<and> raft_enabled (Connect 0 True) a \<and> (\<exists>ron. raf_con a 0 = Some ron \<and> nam_u ron = Some 0) \<and>
     str_c (raf_nam a ! 0) = [98] \<and> raft_event (\<lambda>_. True) (Connect 0 True) a = Inr a' \<and> written a' 0 = [ask_msg] \<and>
     raft_event (\<lambda>_. True) (Read 0 (Some (enc [yes_msg]))) a' = Inr a'' \<and> raft_enabled (Read 0 (Some (enc [yes_msg]))) a' \<and>
     raf_typ a'' = Raty_lead \<and> raf_tem a'' = 1"
  by (simp add: event_simps node_of_def raft_connect_cb_def work_simps, simp add: read_simps,
      simp add: event_simps work_simps yes_msg_def ask_msg_def raft_do_rasp_def raft_revo_done_def raft_promote_def)

lemma pair_votes:
  "\<exists>b b'. raft_event (\<lambda>_. True) (Listen True) (node_of 98 97) = Inr b \<and> raft_enabled (Read 0 (Some (enc [ask_msg]))) b \<and>
     raft_event (\<lambda>_. True) (Read 0 (Some (enc [ask_msg]))) b = Inr b' \<and> written b' 0 = [yes_msg]"
  by (simp add: event_simps node_of_def raft_listen_cb_def raft_enabled_def, simp add: read_simps,
      simp add: event_simps work_simps ask_msg_def yes_msg_def raft_do_revo_def raft_do_rest_def raft_rest_name_def raft_send_rasp_def raft_remove_run_def)

lemma pair_run: "\<exists>M. net_run 2 pair_net M \<and> raf_typ (node M 0) = Raty_lead \<and> raf_tem (node M 0) = 1"
proof -
  obtain a a' a'' ron where a: "raft_event (\<lambda>_. True) Timer (node_of 97 98) = Inr a" "raft_enabled (Connect 0 True) a" "raf_con a 0 = Some ron" "nam_u ron = Some 0"
      "str_c (raf_nam a ! 0) = [98]" "raft_event (\<lambda>_. True) (Connect 0 True) a = Inr a'" "written a' 0 = [ask_msg]"
      "raft_event (\<lambda>_. True) (Read 0 (Some (enc [yes_msg]))) a' = Inr a''" "raft_enabled (Read 0 (Some (enc [yes_msg]))) a'" "raf_typ a'' = Raty_lead" "raf_tem a'' = 1"
    using pair_asks by blast
  obtain b b' where b: "raft_event (\<lambda>_. True) (Listen True) (node_of 98 97) = Inr b" "raft_enabled (Read 0 (Some (enc [ask_msg]))) b"
      "raft_event (\<lambda>_. True) (Read 0 (Some (enc [ask_msg]))) b = Inr b'" "written b' 0 = [yes_msg]"
    using pair_votes by blast
  let ?l = "[(0, 0) \<mapsto> (1, 0), (1, 0) \<mapsto> (0, 0)]"
  let ?N = "\<lambda>x y l s. \<lparr>node = (\<lambda>_. node_of 98 97)(0 := x, 1 := y), link = l, seen = s\<rparr>"
  let ?s = "(\<lambda>_. 0)((0, 0) := 0, (1, 0) := 0)"
  have n: "raf_new (node_of 98 97) = 0" "raf_str (node_of 98 97) = [98]" "raf_tim (node_of 97 98) = Once" "raf_tem (node_of 97 98) = 0"
    by (simp_all add: node_of_def raft_zero_def)
  have "net_step 2 pair_net (?N a (node_of 98 97) Map.empty (\<lambda>_. 0))"
    using net_own [of 0 2 Timer pair_net "\<lambda>_. True" a] a(1) n by (simp add: pair_net_def own_event_def raft_enabled_def fun_upd_twist)
  moreover have "net_step 2 (?N a (node_of 98 97) Map.empty (\<lambda>_. 0)) (?N a b ?l ?s)"
    using net_accept [of 0 2 1 "?N a (node_of 98 97) Map.empty (\<lambda>_. 0)" 0 ron 0 "\<lambda>_. True" b] a(3-5) b(1) n by simp
  moreover have "net_step 2 (?N a b ?l ?s) (?N a' b ?l ?s)"
    using net_own [of 0 2 "Connect 0 True" "?N a b ?l ?s" "\<lambda>_. True" a'] a(2,6) by (simp add: own_event_def fun_upd_twist)
  moreover have "net_step 2 (?N a' b ?l ?s) (?N a' b' ?l (?s((1, 0) := length (enc [ask_msg]))))"
    using net_bytes [of "?N a' b ?l ?s" 1 0 0 0 "enc [ask_msg]" "[]" "\<lambda>_. True" b' 2] a(7) b(2,3) enc_length(2) [OF msgs_ok(1)] by simp
  moreover have "net_step 2 (?N a' b' ?l (?s((1, 0) := length (enc [ask_msg])))) (?N a'' b' ?l (?s((1, 0) := length (enc [ask_msg]), (0, 0) := length (enc [yes_msg]))))"
    using net_bytes [of "?N a' b' ?l (?s((1, 0) := length (enc [ask_msg])))" 0 0 1 0 "enc [yes_msg]" "[]" "\<lambda>_. True" a'' 2] a(8,9) b(4) enc_length(2) [OF msgs_ok(2)]
    by (simp add: fun_upd_twist)
  ultimately have "net_run 2 pair_net (?N a'' b' ?l (?s((1, 0) := length (enc [ask_msg]), (0, 0) := length (enc [yes_msg]))))"
    by (meson net_nil net_next)
  then show ?thesis using a(10,11) by (intro exI conjI) (assumption, simp_all)
qed

theorem election_safety_witness:
  "\<exists>M. net_start 2 pair_net \<and> net_run 2 pair_net M \<and> {b. b < 2 \<and> raf_typ (node M b) = Raty_lead \<and> raf_tem (node M b) = 1} = {0}"
proof -
  obtain M where M: "net_run 2 pair_net M" "raf_typ (node M 0) = Raty_lead" "raf_tem (node M 0) = 1" using pair_run by blast
  have "0 = b" if "b < 2" "raf_typ (node M b) = Raty_lead" "raf_tem (node M b) = 1" for b
    using election_safety [OF pair_start M(1) net_nil _ that(1) M(2) that(2)] M(3) that(3) by simp
  then show ?thesis using M pair_start by (intro exI [of _ M]) auto
qed

end
