(* ===== verification/Soup.thy ===== *)
theory Soup
  imports Noun
begin

text \<open>
  The memory of a rail, \<^verbatim>\<open>f/rail.c\<close> with \<^verbatim>\<open>include/f/rail.h\<close> and \<^verbatim>\<open>include/f/loom.h\<close>: rays, the two beams and their reversal, the
  liquid allocator with its boxes and free lists.

  The loom is a function from rays to words, as it is not folded. The words of a rail's own frame (\<^verbatim>\<open>u2_loom_rail\<close>) are a record
  beside it. A failed \<^verbatim>\<open>u2_rl_open\<close> in the allocator ends in \<^verbatim>\<open>u2_loop_signal_memory\<close>, which is a failed assertion.
  \<^verbatim>\<open>U2_PROFILE_MEMORY\<close> is on, so a soup counts live words; \<^verbatim>\<open>U2_LEAK_DEBUG\<close> is off.
\<close>

section \<open>Rays\<close>

type_synonym u2_ray = c3_w

definition HalfSize :: c3_w where
  "HalfSize = push_bit 27 1"

definition u2_ray_a :: "u2_ray \<Rightarrow> c3_w" where
  "u2_ray_a ray = drop_bit 27 ray"

definition u2_ray_b :: "u2_ray \<Rightarrow> c3_w" where
  "u2_ray_b ray = ray AND (HalfSize - 1)"

definition u2_ray_of :: "c3_w \<Rightarrow> c3_w \<Rightarrow> u2_ray" where
  "u2_ray_of a b = push_bit 27 a OR b"

definition u2_ray_fnit :: "u2_ray \<Rightarrow> c3_w" where
  "u2_ray_fnit ray = (if u2_ray_a ray \<noteq> 0 then HalfSize - 1 - u2_ray_b ray else ray)"

definition u2_ray_open :: "u2_ray \<Rightarrow> u2_ray \<Rightarrow> c3_w \<Rightarrow> bool" where
  "u2_ray_open tid tat das =
     (if u2_ray_a tid = 0 then u2_ray_fnit tid + das < u2_ray_fnit tat else u2_ray_fnit tat + das < u2_ray_fnit tid)"

section \<open>Rails\<close>

definition c3__rock_w :: c3_w where
  "c3__rock_w = of_nat (c3_s4 (CHR ''r'') (CHR ''o'') (CHR ''c'') (CHR ''k''))"

definition c3__sand_w :: c3_w where
  "c3__sand_w = of_nat (c3_s4 (CHR ''s'') (CHR ''a'') (CHR ''n'') (CHR ''d''))"

record u2_loom_rail =
  cap_r :: u2_ray
  hat_r :: u2_ray
  mat_r :: u2_ray
  rut_r :: u2_ray
  hip_m :: c3_w
  ops_mem :: bool
  loom :: "u2_ray \<Rightarrow> c3_w"

definition loom_put :: "u2_ray \<Rightarrow> c3_w \<Rightarrow> u2_loom_rail \<Rightarrow> u2_loom_rail" where
  "loom_put ray w ral = ral\<lparr>loom := (loom ral)(ray := w)\<rparr>"

text \<open>
  A soup has the heads of its free lists at 0 to 27, the slot of the table of products at 28 to 30 and the number of live words
  at 31. A box has its size at 0, its use count at 1 and its size again in its last word; a free one, a hut, is linked at 2 and 3.
\<close>

definition u2_soup_free_no :: nat where
  "u2_soup_free_no = 28"

definition u2_rail_box_siz :: "u2_loom_rail \<Rightarrow> u2_ray \<Rightarrow> c3_w" where
  "u2_rail_box_siz ral box = loom ral box"

definition u2_rail_box_use :: "u2_loom_rail \<Rightarrow> u2_ray \<Rightarrow> c3_w" where
  "u2_rail_box_use ral box = loom ral (box + 1)"

definition u2_rail_hut_pre :: "u2_loom_rail \<Rightarrow> u2_ray \<Rightarrow> u2_ray" where
  "u2_rail_hut_pre ral hut = loom ral (hut + 2)"

definition u2_rail_hut_nex :: "u2_loom_rail \<Rightarrow> u2_ray \<Rightarrow> u2_ray" where
  "u2_rail_hut_nex ral hut = loom ral (hut + 3)"

definition u2_soup_fre_r :: "u2_loom_rail \<Rightarrow> nat \<Rightarrow> u2_ray" where
  "u2_soup_fre_r ral i = loom ral (rut_r ral + of_nat i)"

definition rl_feed :: "u2_loom_rail \<Rightarrow> u2_loom_rail" where
  "rl_feed ral =
     (if hip_m ral = c3__rock_w then
        let sop = rut_r ral;
            ral = ral\<lparr>hat_r := hat_r ral + 32\<rparr>;
            ral = fold (\<lambda>i. loom_put (sop + of_nat i) 0) [0..<u2_soup_free_no] ral;
            ral = loom_put (sop + 31) 0 ral
        in loom_put (sop + 28) (push_bit 31 1) ral
      else ral)"

text \<open>The rail is the first thing in its own area; \<open>mem\<close> is the option that turns the limit off.\<close>

definition u2_rl_init :: "bool \<Rightarrow> (u2_ray \<Rightarrow> c3_w) \<Rightarrow> c3_w \<Rightarrow> u2_ray \<Rightarrow> u2_ray \<Rightarrow> u2_loom_rail res" where
  "u2_rl_init mem lom hip hat mat =
     (if u2_ray_a hat = u2_ray_a mat \<or> \<not> u2_ray_open hat mat 5 then Inl Abort
      else Inr (rl_feed \<lparr>cap_r = mat, hat_r = hat + 5, mat_r = mat, rut_r = hat + 5, hip_m = hip, ops_mem = mem, loom = lom\<rparr>))"

definition u2_rl_boot :: "bool \<Rightarrow> (u2_ray \<Rightarrow> c3_w) \<Rightarrow> c3_w \<Rightarrow> u2_loom_rail res" where
  "u2_rl_boot mem lom hip = u2_rl_init mem lom hip (u2_ray_of 0 0) (u2_ray_of 1 0)"

definition u2_rl_open :: "u2_loom_rail \<Rightarrow> c3_w \<Rightarrow> bool" where
  "u2_rl_open ral a = (if HalfSize \<le> a + u2_ray_b (hat_r ral) + u2_ray_b (cap_r ral) then ops_mem ral else True)"

definition u2_rl_leap :: "c3_w \<Rightarrow> u2_loom_rail \<Rightarrow> bool \<times> u2_loom_rail" where
  "u2_rl_leap hop ral =
     (if \<not> u2_rl_open ral (if hop = c3__rock_w then 32 else 0) then (False, ral)
      else
        let pik = hat_r ral;
            ral' = ral\<lparr>cap_r := hat_r ral + 3, hat_r := cap_r ral, mat_r := hat_r ral, rut_r := cap_r ral, hip_m := hop\<rparr>;
            ral' = loom_put pik (mat_r ral) ral';
            ral' = loom_put (pik + 1) (rut_r ral) ral';
            ral' = loom_put (pik + 2) (hip_m ral) ral'
        in (True, rl_feed ral'))"

definition u2_rl_fall :: "u2_loom_rail \<Rightarrow> u2_loom_rail" where
  "u2_rl_fall ral =
     (let pik = mat_r ral
      in ral\<lparr>cap_r := hat_r ral, hat_r := mat_r ral, mat_r := loom ral pik, rut_r := loom ral (pik + 1), hip_m := loom ral (pik + 2)\<rparr>)"

definition u2_rl_flog :: "u2_loom_rail \<Rightarrow> u2_loom_rail" where
  "u2_rl_flog ral = ral\<lparr>cap_r := mat_r ral\<rparr>"

section \<open>Boxes\<close>

definition rl_live_grab :: "c3_w \<Rightarrow> u2_loom_rail \<Rightarrow> u2_loom_rail" where
  "rl_live_grab wad ral = loom_put (rut_r ral + 31) (loom ral (rut_r ral + 31) + wad) ral"

definition rl_bloq_make :: "u2_ray \<Rightarrow> c3_w \<Rightarrow> c3_w \<Rightarrow> u2_loom_rail \<Rightarrow> u2_loom_rail res" where
  "rl_bloq_make box siz use ral =
     (if siz < 5 then Inl Abort
      else Inr (loom_put (box + siz - 1) siz (loom_put (box + 1) use (loom_put box siz ral))))"

text \<open>\<open>n\<close> lists are left, the next one is \<open>28 - n\<close>.\<close>

primrec free_select_loop :: "nat \<Rightarrow> c3_w \<Rightarrow> nat" where
  "free_select_loop 0 siz = u2_soup_free_no - 1"
| "free_select_loop (Suc n) siz = (if siz < 16 then u2_soup_free_no - Suc n else free_select_loop n (drop_bit 1 (siz + 1)))"

definition rl_free_select :: "c3_w \<Rightarrow> nat" where
  "rl_free_select siz = (if siz = 6 then 0 else free_select_loop (u2_soup_free_no - 1) siz)"

definition rl_bloq_attach :: "u2_ray \<Rightarrow> u2_loom_rail \<Rightarrow> u2_loom_rail res" where
  "rl_bloq_attach box ral =
     (let sel = rl_free_select (u2_rail_box_siz ral box);
          fre = u2_soup_fre_r ral sel;
          ral = loom_put (box + 2) 0 ral;
          ral = loom_put (box + 3) (u2_soup_fre_r ral sel) ral
      in rbind (if fre \<noteq> 0 then if u2_rail_hut_pre ral fre \<noteq> 0 then Inl Abort else Inr (loom_put (fre + 2) box ral) else Inr ral) (\<lambda>ral.
         Inr (loom_put (rut_r ral + of_nat sel) box ral)))"

definition rl_bloq_detach :: "u2_ray \<Rightarrow> u2_loom_rail \<Rightarrow> u2_loom_rail" where
  "rl_bloq_detach box ral =
     (let sel = rl_free_select (u2_rail_box_siz ral box);
          pre = u2_rail_hut_pre ral box;
          nex = u2_rail_hut_nex ral box;
          ral = (if pre \<noteq> 0 then loom_put (pre + 3) nex ral else loom_put (rut_r ral + of_nat sel) (u2_rail_hut_nex ral box) ral)
      in if nex \<noteq> 0 then loom_put (nex + 2) pre ral else ral)"

section \<open>Allocation\<close>

text \<open>What is done with a free box that is large enough, \<open>pfr\<close> being the word that points to it.\<close>

definition rl_bloq_take :: "c3_w \<Rightarrow> u2_ray \<Rightarrow> u2_ray \<Rightarrow> u2_loom_rail \<Rightarrow> (u2_ray \<times> u2_loom_rail) res" where
  "rl_bloq_take siz pfr box ral =
     (let pre = u2_rail_hut_pre ral box;
          nex = u2_rail_hut_nex ral box
      in if pre \<noteq> 0 \<and> pfr \<noteq> pre + 3 then Inl Abort
         else
           let ral = loom_put pfr nex ral;
               ral = (if nex \<noteq> 0 then loom_put (nex + 2) pre ral else ral)
           in rbind
                (if siz + 6 < u2_rail_box_siz ral box then
                   rbind (rl_bloq_make (box + siz) (u2_rail_box_siz ral box - siz) 0 ral) (\<lambda>ral.
                   rbind (rl_bloq_attach (box + siz) ral) (\<lambda>ral.
                   rbind (rl_bloq_make box siz 1 ral) (\<lambda>ral.
                   Inr (rl_live_grab siz ral))))
                 else if u2_rail_box_use ral box \<noteq> 0 then Inl Abort
                 else let ral = loom_put (box + 1) 1 ral in Inr (rl_live_grab (u2_rail_box_siz ral box) ral)) (\<lambda>ral.
              Inr (box + 2, ral)))"

definition rl_bloq_chip :: "c3_w \<Rightarrow> u2_loom_rail \<Rightarrow> (u2_ray \<times> u2_loom_rail) res" where
  "rl_bloq_chip siz ral =
     (if \<not> u2_rl_open ral siz then Inl Abort
      else
        let box = hat_r ral;
            ral = ral\<lparr>hat_r := hat_r ral + siz\<rparr>
        in rbind (rl_bloq_make box siz 1 ral) (\<lambda>ral.
           Inr (box + 2, rl_live_grab siz ral)))"

text \<open>The search through the free lists. On a list that is a circle of small boxes it would not end.\<close>

partial_function (option) grab_loop :: "c3_w \<Rightarrow> nat \<Rightarrow> u2_ray \<Rightarrow> u2_loom_rail \<Rightarrow> (u2_ray \<times> u2_loom_rail) res option" where
  "grab_loop siz sel pfr ral =
     (let fre = loom ral pfr
      in if fre = 0 then
           if sel < u2_soup_free_no - 1 then grab_loop siz (sel + 1) (rut_r ral + of_nat (sel + 1)) ral
           else Some (rl_bloq_chip siz ral)
         else if u2_rail_box_siz ral fre < siz then grab_loop siz sel (fre + 3) ral
         else Some (rl_bloq_take siz pfr fre ral))"

definition rl_bloq_grab :: "c3_w \<Rightarrow> u2_loom_rail \<Rightarrow> (u2_ray \<times> u2_loom_rail) res option" where
  "rl_bloq_grab len ral =
     (if hip_m ral = c3__sand_w then
        Some (if \<not> u2_rl_open ral len then Inl Abort else Inr (hat_r ral, ral\<lparr>hat_r := hat_r ral + len\<rparr>))
      else if hip_m ral \<noteq> c3__rock_w then Some (Inl Abort)
      else
        let siz = len + 2 + 1;
            sel = rl_free_select siz;
            sel = (if sel \<noteq> 0 \<and> sel \<noteq> u2_soup_free_no - 1 then sel + 1 else sel)
        in grab_loop siz sel (rut_r ral + of_nat sel) ral)"

definition u2_rl_ralloc :: "c3_w \<Rightarrow> u2_loom_rail \<Rightarrow> (u2_ray \<times> u2_loom_rail) res option" where
  "u2_rl_ralloc siz ral = rl_bloq_grab siz ral"

definition u2_rl_malloc :: "c3_w \<Rightarrow> u2_loom_rail \<Rightarrow> (u2_ray \<times> u2_loom_rail) res option" where
  "u2_rl_malloc sib ral = u2_rl_ralloc (max 5 (drop_bit 2 (sib + 3))) ral"

section \<open>Release\<close>

lemma clear_measure: "a + 1 < b \<Longrightarrow> unat b - unat (2 + a) < unat b - unat (a + 1)" for a b :: c3_w
  by unat_arith

text \<open>The words of a box are overwritten.\<close>

function bloq_clear :: "u2_ray \<Rightarrow> u2_ray \<Rightarrow> u2_loom_rail \<Rightarrow> u2_loom_rail" where
  "bloq_clear bod end ral = (if bod + 1 < end then bloq_clear (bod + 1) end (loom_put bod 0xdeadbeef ral) else ral)"
  by pat_completeness auto
termination
  by (relation "measure (\<lambda>(bod, end, ral). unat end - unat (bod + 1))") (auto simp: clear_measure)

declare bloq_clear.simps [simp del]

text \<open>The box is joined with the one before it, or with the one behind it or the hat.\<close>

definition bloq_join_prev :: "u2_ray \<Rightarrow> u2_loom_rail \<Rightarrow> (u2_ray \<times> u2_loom_rail) res" where
  "bloq_join_prev box ral =
     (let beg = rut_r ral + 32
      in if box \<noteq> beg then
           let las = loom ral (box - 1);
               tod = box - las
           in if u2_rail_box_use ral tod = 0 then
                let ral = rl_bloq_detach tod ral
                in rbind (rl_bloq_make tod (las + u2_rail_box_siz ral box) 0 ral) (\<lambda>ral. Inr (tod, ral))
              else Inr (box, ral)
         else Inr (box, ral))"

definition bloq_join_next :: "u2_ray \<Rightarrow> u2_loom_rail \<Rightarrow> u2_loom_rail res" where
  "bloq_join_next box ral =
     (let siz = u2_rail_box_siz ral box
      in if box + siz = hat_r ral then Inr (ral\<lparr>hat_r := box\<rparr>)
         else
           let hob = box + siz
           in rbind (if u2_rail_box_use ral hob = 0 then
                       let ral = rl_bloq_detach hob ral
                       in rl_bloq_make box (siz + u2_rail_box_siz ral hob) 0 ral
                     else Inr ral) (\<lambda>ral.
              rl_bloq_attach box ral))"

definition rl_bloq_free :: "u2_ray \<Rightarrow> u2_loom_rail \<Rightarrow> u2_loom_rail res" where
  "rl_bloq_free box ral =
     (let rut = rut_r ral
      in if hip_m ral \<noteq> c3__rock_w \<or> u2_rail_box_use ral box \<noteq> 0 \<or> u2_ray_a box \<noteq> u2_ray_a rut \<or> box < rut then Inl Abort
         else
           let ral = bloq_clear (box + 2) (box + u2_rail_box_siz ral box) ral;
               ral = rl_live_grab (- u2_rail_box_siz ral box) ral
           in rbind (bloq_join_prev box ral) (\<lambda>(box, ral). bloq_join_next box ral))"

definition u2_rl_rfree :: "u2_ray \<Rightarrow> u2_loom_rail \<Rightarrow> u2_loom_rail res" where
  "u2_rl_rfree nov ral =
     (if hip_m ral = c3__rock_w then
        let box = nov - 2
        in if u2_rail_box_use ral box \<noteq> 1 then Inl Abort
           else rl_bloq_free box (loom_put (box + 1) 0 ral)
      else Inr ral)"

end
