(* ===== verification/Soup_Mem.thy ===== *)
theory Soup_Mem
  imports Soup
begin

text \<open>
  The words of a soup: what boxes and free lists look like in memory, and what each routine of the allocator writes there.
  Addresses are natural numbers; \<open>vw\<close> is the memory as a function of them.
\<close>

section \<open>Memory by address\<close>

named_theorems vw_simps \<open>reads and writes of the loom by address\<close>

definition vw :: "u2_loom_rail \<Rightarrow> nat \<Rightarrow> c3_w" where
  "vw ral p = (if p < 2 ^ 32 then loom ral (of_nat p) else 0)"

lemma of_nat_ray_eq: "p < 2 ^ 32 \<Longrightarrow> q < 2 ^ 32 \<Longrightarrow> (of_nat p :: c3_w) = of_nat q \<longleftrightarrow> p = q"
  by (auto dest!: arg_cong [where f = unat] simp: unat_of_nat)

lemma of_nat_ray_less: "p < 2 ^ 32 \<Longrightarrow> q < 2 ^ 32 \<Longrightarrow> (of_nat p :: c3_w) < of_nat q \<longleftrightarrow> p < q"
  by (simp add: word_less_nat_alt unat_of_nat)

lemma of_nat_ray_0 [vw_simps]: "p < 2 ^ 32 \<Longrightarrow> (of_nat p :: c3_w) = 0 \<longleftrightarrow> p = 0"
  using of_nat_ray_eq [of p 0] by simp

lemma vw_put [vw_simps]: "p < 2 ^ 32 \<Longrightarrow> vw (loom_put (of_nat p) w ral) = (vw ral)(p := w)"
  by (rule ext) (simp add: vw_def loom_put_def of_nat_ray_eq)

lemma loom_vw [vw_simps]: "p < 2 ^ 32 \<Longrightarrow> loom ral (of_nat p) = vw ral p"
  by (simp add: vw_def)

lemma ray_add: "(of_nat p :: c3_w) + of_nat k = of_nat (p + k)" "(of_nat p :: c3_w) + numeral n = of_nat (p + numeral n)" "(of_nat p :: c3_w) + 1 = of_nat (p + 1)"
  by simp_all

lemma ray_diff: "k \<le> p \<Longrightarrow> (of_nat p :: c3_w) - of_nat k = of_nat (p - k)" "numeral n \<le> p \<Longrightarrow> (of_nat p :: c3_w) - numeral n = of_nat (p - numeral n)"
  "1 \<le> p \<Longrightarrow> (of_nat p :: c3_w) - 1 = of_nat (p - 1)"
  by (simp_all add: of_nat_diff)

lemma ray_less [vw_simps]: "p < 2 ^ 32 \<Longrightarrow> (of_nat p :: c3_w) < numeral n \<longleftrightarrow> p < numeral n" if "numeral n < (2::nat) ^ 32"
  using of_nat_ray_less [of p "numeral n"] that by simp

text \<open>The fields of a rail that are not in the loom.\<close>

definition frame :: "u2_loom_rail \<Rightarrow> u2_ray \<times> u2_ray \<times> u2_ray \<times> u2_ray \<times> c3_w \<times> bool" where
  "frame ral = (cap_r ral, hat_r ral, mat_r ral, rut_r ral, hip_m ral, ops_mem ral)"

lemma frame_put [simp]: "frame (loom_put p w ral) = frame ral"
  by (simp add: frame_def loom_put_def)

lemma loom_put_fields [simp]: "cap_r (loom_put p w ral) = cap_r ral" "hat_r (loom_put p w ral) = hat_r ral" "mat_r (loom_put p w ral) = mat_r ral"
  "rut_r (loom_put p w ral) = rut_r ral" "hip_m (loom_put p w ral) = hip_m ral" "ops_mem (loom_put p w ral) = ops_mem ral"
  by (simp_all add: loom_put_def)

section \<open>Lists in memory\<close>

type_synonym words = "nat \<Rightarrow> c3_w"

definition first :: "nat list \<Rightarrow> nat" where
  "first ps = (case ps of [] \<Rightarrow> 0 | p # _ \<Rightarrow> p)"

definition final :: "nat list \<Rightarrow> nat" where
  "final ps = (if ps = [] then 0 else last ps)"

text \<open>The boxes \<open>ps\<close> are linked both ways; \<open>pre\<close> is before the first one and \<open>nex\<close> after the last one.\<close>

primrec linked :: "words \<Rightarrow> nat \<Rightarrow> nat list \<Rightarrow> nat \<Rightarrow> bool" where
  "linked M pre [] nex = True"
| "linked M pre (p # ps) nex \<longleftrightarrow> M (p + 2) = of_nat pre \<and> M (p + 3) = of_nat (if ps = [] then nex else first ps) \<and> linked M p ps nex"

lemma first_simps [simp]: "first [] = 0" "first (p # ps) = p" and final_simps [simp]: "final [] = 0" "final (ps @ [p]) = p"
  by (simp_all add: first_def final_def)

lemma linked_cong:
  "\<lbrakk>\<And>p. p \<in> set ps \<Longrightarrow> M' (p + 2) = M (p + 2) \<and> M' (p + 3) = M (p + 3)\<rbrakk> \<Longrightarrow> linked M' pre ps nex = linked M pre ps nex"
  by (induction ps arbitrary: pre) auto

lemma linked_append:
  "linked M pre (ps @ qs) nex \<longleftrightarrow> linked M pre ps (if qs = [] then nex else first qs) \<and> linked M (if ps = [] then pre else last ps) qs nex"
  by (induction ps arbitrary: pre) (auto simp: first_def split: list.splits)

lemma linked_pre:
  assumes "linked M pre (p # ps) nex" "\<forall>q\<in>set ps. p + 2 \<noteq> q + 2 \<and> p + 2 \<noteq> q + 3"
  shows "linked (M(p + 2 := of_nat pre')) pre' (p # ps) nex"
proof -
  have "linked (M(p + 2 := of_nat pre')) p ps nex = linked M p ps nex" by (rule linked_cong) (use assms(2) in fastforce)
  then show ?thesis using assms(1) by simp
qed

lemma linked_nex:
  assumes "linked M pre (ps @ [p]) nex" "\<forall>q\<in>set ps. p + 3 \<noteq> q + 2 \<and> p + 3 \<noteq> q + 3"
  shows "linked (M(p + 3 := of_nat nex')) pre (ps @ [p]) nex'"
proof -
  have "linked (M(p + 3 := of_nat nex')) pre ps p = linked M pre ps p" by (rule linked_cong) (use assms(2) in fastforce)
  then show ?thesis using assms(1) by (simp add: linked_append)
qed

section \<open>Boxes in memory\<close>

type_synonym boxes = "nat \<rightharpoonup> nat \<times> c3_w"

text \<open>Boxes lie behind the soup and do not overlap.\<close>

definition separate :: "nat \<Rightarrow> boxes \<Rightarrow> bool" where
  "separate rut B \<longleftrightarrow>
     (\<forall>p s u. B p = Some (s, u) \<longrightarrow> rut + 32 \<le> p \<and> 5 \<le> s \<and> p + s \<le> 2 ^ 28) \<and>
     (\<forall>p s u q t v. B p = Some (s, u) \<longrightarrow> B q = Some (t, v) \<longrightarrow> p < q \<longrightarrow> p + s \<le> q)"

definition boxed :: "words \<Rightarrow> boxes \<Rightarrow> bool" where
  "boxed M B \<longleftrightarrow> (\<forall>p s u. B p = Some (s, u) \<longrightarrow> M p = of_nat s \<and> M (p + 1) = u \<and> M (p + s - 1) = of_nat s)"

text \<open>The free boxes are on the free list of their size, but for those of \<open>X\<close>.\<close>

definition listed :: "nat set \<Rightarrow> boxes \<Rightarrow> (nat \<Rightarrow> nat list) \<Rightarrow> bool" where
  "listed X B F \<longleftrightarrow>
     (\<forall>i. distinct (F i)) \<and> (\<forall>i p. p \<in> set (F i) \<longleftrightarrow> i < 28 \<and> p \<notin> X \<and> (\<exists>s. B p = Some (s, 0) \<and> rl_free_select (of_nat s) = i))"

definition threaded :: "nat \<Rightarrow> words \<Rightarrow> (nat \<Rightarrow> nat list) \<Rightarrow> bool" where
  "threaded rut M F \<longleftrightarrow> (\<forall>i<28. M (rut + i) = of_nat (first (F i)) \<and> linked M 0 (F i) 0)"

definition soup_mem :: "nat \<Rightarrow> nat set \<Rightarrow> boxes \<Rightarrow> (nat \<Rightarrow> nat list) \<Rightarrow> words \<Rightarrow> bool" where
  "soup_mem rut X B F M \<longleftrightarrow> separate rut B \<and> boxed M B \<and> listed X B F \<and> threaded rut M F"

text \<open>The words that the allocator may write: its soup and the free boxes.\<close>

definition loose :: "nat \<Rightarrow> boxes \<Rightarrow> nat set" where
  "loose rut B = {rut..<rut + 32} \<union> {a. \<exists>q t. B q = Some (t, 0) \<and> q \<le> a \<and> a < q + t}"

lemma looseI: "B q = Some (t, 0) \<Longrightarrow> k < t \<Longrightarrow> q + k \<in> loose rut B" "i < 32 \<Longrightarrow> rut + i \<in> loose rut B"
  unfolding loose_def by fastforce+

lemma separateD:
  assumes "separate rut B" "B p = Some (s, u)"
  shows "rut + 32 \<le> p" "5 \<le> s" "p + s \<le> 2 ^ 28"
  using assms unfolding separate_def by blast+

lemma apart:
  assumes "separate rut B" "B p = Some (s, u)" "B q = Some (t, v)" "p \<noteq> q" "i < s" "j < t"
  shows "p + i \<noteq> q + j"
proof -
  have "p + s \<le> q \<or> q + t \<le> p" using assms(1-4) unfolding separate_def by (meson nat_neq_iff)
  then show ?thesis using assms(5,6) by linarith
qed

lemma boxedD:
  assumes "boxed M B" "B p = Some (s, u)"
  shows "M p = of_nat s" "M (p + 1) = u" "M (p + s - 1) = of_nat s"
  using assms unfolding boxed_def by blast+

lemma listedD:
  assumes "listed X B F"
  shows "distinct (F i)" "p \<in> set (F i) \<Longrightarrow> i < 28 \<and> p \<notin> X \<and> (\<exists>s. B p = Some (s, 0) \<and> rl_free_select (of_nat s) = i)"
  using assms unfolding listed_def by blast+

lemma soup_memD:
  assumes "soup_mem rut X B F M"
  shows "separate rut B" "boxed M B" "listed X B F" "threaded rut M F"
  using assms by (simp_all add: soup_mem_def)

lemma far:
  assumes "separate rut B" "B p = Some (s, u)"
  shows "B q = Some (t, v) \<Longrightarrow> p \<noteq> q \<Longrightarrow> i \<in> {2, 3} \<Longrightarrow> j \<in> {2, 3} \<Longrightarrow> p + i \<noteq> q + j" "i < 32 \<Longrightarrow> rut + i \<noteq> p + j"
proof -
  show "p + i \<noteq> q + j" if q: "B q = Some (t, v)" "p \<noteq> q" "i \<in> {2, 3}" "j \<in> {2, 3}" 
    by (rule apart [OF assms q(1,2)]) (use separateD(2) [OF assms] separateD(2) [OF assms(1) q(1)] q(3,4) in auto)
  show "i < 32 \<Longrightarrow> rut + i \<noteq> p + j" using separateD(1) [OF assms] by simp
qed

lemma boxed_link:
  assumes sep: "separate rut B" and b: "boxed M B" and a: "a < rut + 32 \<or> (\<exists>p s u k. B p = Some (s, u) \<and> a = p + k \<and> 2 \<le> k \<and> k < s - 1)"
  shows "boxed (M(a := w)) B"
proof -
  have "q \<noteq> a \<and> q + 1 \<noteq> a \<and> q + t - 1 \<noteq> a" if q: "B q = Some (t, v)" for q t v
    using a
  proof (elim disjE exE conjE)
    assume "a < rut + 32"
    then show ?thesis using separateD [OF sep q] by simp
  next
    fix p s u k assume p: "B p = Some (s, u)" "a = p + k" "2 \<le> k" "k < s - 1"
    show ?thesis
    proof (cases "p = q")
      case True
      then show ?thesis using p q by simp
    next
      case False
      have "p + k \<noteq> q + i" if "i < t" for i by (rule apart [OF sep p(1) q False]) (use p(4) that in auto)
      from this [of 0] this [of 1] this [of "t - 1"] show ?thesis using separateD(2) [OF sep q] p(2) by simp
    qed
  qed
  then show ?thesis using b unfolding boxed_def by (simp add: fun_upd_def)
qed

lemma boxed_hut:
  assumes "separate rut B" "boxed M B" "B p = Some (s, u)"
  shows "boxed (M(p + 2 := w)) B" "boxed (M(p + 3 := w)) B"
proof -
  have "5 \<le> s" by (rule separateD(2) [OF assms(1,3)])
  then show "boxed (M(p + 2 := w)) B" "boxed (M(p + 3 := w)) B"
    using boxed_link [OF assms(1,2) disjI2, of "p + 2"] boxed_link [OF assms(1,2) disjI2, of "p + 3"] assms(3) by force+
qed

lemma threadedD:
  assumes "threaded rut M F" "i < 28"
  shows "M (rut + i) = of_nat (first (F i))" "linked M 0 (F i) 0"
  using assms by (simp_all add: threaded_def)

definition attach_mem :: "nat \<Rightarrow> nat \<Rightarrow> nat \<Rightarrow> nat \<Rightarrow> words \<Rightarrow> words" where
  "attach_mem rut i x p M =
     (let M = M(p + 2 := 0, p + 3 := of_nat x); M = (if x \<noteq> 0 then M(x + 2 := of_nat p) else M) in M(rut + i := of_nat p))"

lemma attach_threaded:
  assumes ok: "soup_mem rut X B F M" and p: "B p = Some (s, 0)" "p \<in> X" and i: "i < 28"
  shows "threaded rut (attach_mem rut i (first (F i)) p M) (F(i := p # F i))"
proof -
  note sep = soup_memD(1) [OF ok] and thr = threadedD [OF soup_memD(4) [OF ok]] and lst = listedD [OF soup_memD(3) [OF ok]]
  let ?x = "first (F i)" and ?M = "attach_mem rut i (first (F i)) p M"
  have free: "\<exists>t. B q = Some (t, 0)" "q \<noteq> p" if "q \<in> set (F j)" for q j using lst(2) [OF that] p(2) by auto
  have x: "?x \<in> set (F i)" if "?x \<noteq> 0" using that by (cases "F i") auto
  have away: "?M (q + 2) = M (q + 2) \<and> ?M (q + 3) = M (q + 3)" if q: "q \<in> set (F j)" "q \<noteq> ?x" for q j
  proof -
    obtain t where t: "B q = Some (t, 0)" using free(1) [OF q(1)] by blast
    have a: "q + k \<noteq> p + 2" "q + k \<noteq> p + 3" "rut + i \<noteq> q + k" if "k \<in> {2, 3}" for k
      using far(1) [OF sep t p(1) free(2) [OF q(1)], of k 2] far(1) [OF sep t p(1) free(2) [OF q(1)], of k 3] far(2) [OF sep t, of i k] that i by auto
    have b: "q + k \<noteq> ?x + 2" if "?x \<noteq> 0" "k \<in> {2, 3}" for k
      using free(1) [OF x [OF that(1)]] far(1) [OF sep t _ q(2), of _ _ k 2] that by auto
    show ?thesis unfolding attach_mem_def Let_def using a [of 2] a [of 3] b [of 2] b [of 3] by simp
  qed
  have heads: "?M (rut + j) = (if j = i then of_nat p else M (rut + j))" if "j < 28" for j
    using that far(2) [OF sep p(1), of j 2] far(2) [OF sep p(1), of j 3] free(1) [OF x] far(2) [OF sep, of ?x _ _ j 2] unfolding attach_mem_def Let_def by auto
  have others: "linked ?M 0 (F j) 0" if "j < 28" "j \<noteq> i" for j
  proof -
    have "q \<noteq> ?x" if q: "q \<in> set (F j)" for q
      using lst(2) [OF q] x lst(2) [of ?x i] separateD(1) [OF sep] \<open>j \<noteq> i\<close> by (cases "?x = 0") fastforce+
    then show ?thesis using linked_cong [of "F j" ?M M 0 0] away thr(2) [OF that(1)] by blast
  qed
  have mine: "linked ?M 0 (p # F i) 0"
  proof -
    have "linked ?M p (F i) 0"
    proof (cases "F i")
      case (Cons x xs)
      have "x \<noteq> 0" using free(1) [of x i] separateD(1) [OF sep] Cons by fastforce
      then have "?M (x + 2) = of_nat p" "?M (x + 3) = M (x + 3)"
        using Cons far(2) [OF sep, of x _ _ i 2] far(2) [OF sep, of x _ _ i 3] far(1) [OF sep p(1), of x] free [of x i] i unfolding attach_mem_def Let_def by fastforce+
      moreover have "linked ?M x xs 0 = linked M x xs 0"
        by (rule linked_cong, rule away [of _ i]) (use Cons lst(1) [of i] in auto)
      ultimately show ?thesis using thr(2) [OF i] Cons by simp
    qed simp
    moreover have "?M (p + 2) = 0" "?M (p + 3) = of_nat ?x"
      using far(2) [OF sep p(1), of i 2] far(2) [OF sep p(1), of i 3] i free(1) [OF x] free(2) [OF x] far(1) [OF sep p(1), of ?x _ _ 2 2] far(1) [OF sep p(1), of ?x _ _ 3 2]
      unfolding attach_mem_def Let_def by auto
    ultimately show ?thesis by (simp add: first_def split: list.splits)
  qed
  show ?thesis unfolding threaded_def using heads others mine thr(1) by auto
qed

lemma listed_put:
  assumes "listed X B F" "B p = Some (s, 0)" "p \<in> X" "i = rl_free_select (of_nat s)" "i < 28"
  shows "listed (X - {p}) B (F(i := p # F i))"
proof -
  have "p \<notin> set (F i)" using listedD(2) [OF assms(1)] assms(3) by blast
  then show ?thesis using assms unfolding listed_def by auto
qed

lemma attach_mem_ok:
  assumes ok: "soup_mem rut X B F M" and p: "B p = Some (s, 0)" "p \<in> X" "i = rl_free_select (of_nat s)" "i < 28"
  shows "soup_mem rut (X - {p}) B (F(i := p # F i)) (attach_mem rut i (first (F i)) p M)"
    "a \<notin> loose rut B \<Longrightarrow> attach_mem rut i (first (F i)) p M a = M a"
proof -
  note sep = soup_memD(1) [OF ok] and lst = listedD [OF soup_memD(3) [OF ok]]
  let ?x = "first (F i)"
  have x: "\<exists>t. B ?x = Some (t, 0)" if "?x \<noteq> 0" using that lst(2) [of ?x i] by (cases "F i") auto
  have "boxed (M(p + 2 := 0)) B" by (rule boxed_hut(1) [OF sep soup_memD(2) [OF ok] p(1)])
  then have "boxed (M(p + 2 := 0, p + 3 := of_nat ?x)) B" by (rule boxed_hut(2) [OF sep _ p(1)])
  then have "boxed (if ?x \<noteq> 0 then M(p + 2 := 0, p + 3 := of_nat ?x, ?x + 2 := of_nat p) else M(p + 2 := 0, p + 3 := of_nat ?x)) B"
    using x boxed_hut(1) [OF sep, of "M(p + 2 := 0, p + 3 := of_nat ?x)" ?x _ 0 "of_nat p"] by (cases "?x = 0") auto
  then have "boxed (attach_mem rut i ?x p M) B" unfolding attach_mem_def Let_def by (rule boxed_link [OF sep]) (use p(4) in simp)
  then show "soup_mem rut (X - {p}) B (F(i := p # F i)) (attach_mem rut i ?x p M)"
    using sep listed_put [OF soup_memD(3) [OF ok] p] attach_threaded [OF ok p(1,2,4)] by (simp add: soup_mem_def)
  assume a: "a \<notin> loose rut B"
  have out: "a \<noteq> q + k" if "B q = Some (t, 0)" "k < t" for q t k using a looseI(1) [of B q t k] that by auto
  have "a \<noteq> rut + i" using a p(4) unfolding loose_def by auto
  moreover have "a \<noteq> ?x + 2" if nz: "?x \<noteq> 0"
  proof -
    obtain t where "B ?x = Some (t, 0)" using x [OF nz] by blast
    then show ?thesis using out [of ?x t 2] separateD(2) [OF sep, of ?x t 0] by simp
  qed
  ultimately show "attach_mem rut i ?x p M a = M a" 
    unfolding attach_mem_def Let_def using out [OF p(1), of 2] out [OF p(1), of 3] separateD(2) [OF sep p(1)] by simp
qed

definition unlink_mem :: "nat \<Rightarrow> nat \<Rightarrow> nat list \<Rightarrow> nat list \<Rightarrow> words \<Rightarrow> words" where
  "unlink_mem rut i ys zs M =
     (let M = M((if ys = [] then rut + i else last ys + 3) := of_nat (first zs)) in if zs \<noteq> [] then M(first zs + 2 := of_nat (final ys)) else M)"

lemma linked_not_end: "linked M pre (ys @ p # zs) nex \<Longrightarrow> M (p + 2) = of_nat (if ys = [] then pre else last ys) \<and> M (p + 3) = of_nat (if zs = [] then nex else first zs)"
  by (simp add: linked_append)

lemma unlink_linked:
  assumes lk: "linked M 0 (ys @ p # zs) 0"
    and pre: "ys \<noteq> [] \<Longrightarrow> \<forall>q\<in>set (butlast ys @ zs). last ys + 3 \<noteq> q + 2 \<and> last ys + 3 \<noteq> q + 3"
    and nex: "zs \<noteq> [] \<Longrightarrow> \<forall>q\<in>set (ys @ tl zs). first zs + 2 \<noteq> q + 2 \<and> first zs + 2 \<noteq> q + 3"
    and hd: "\<And>q k. q \<in> set (ys @ zs) \<Longrightarrow> k \<in> {2, 3} \<Longrightarrow> rut + i \<noteq> q + k"
  shows "linked (unlink_mem rut i ys zs M) 0 (ys @ zs) 0"
proof -
  let ?M = "M((if ys = [] then rut + i else last ys + 3) := of_nat (first zs))"
  have l: "linked M 0 ys p" "linked M p zs 0" using lk by (auto simp: linked_append)
  have c1: "linked ?M 0 ys (first zs)"
  proof (cases ys rule: rev_cases)
    case (snoc us y)
    then show ?thesis using linked_nex [of M 0 us y p "first zs"] l(1) pre by simp
  qed simp
  have c2: "linked ?M p zs 0"
    using l(2) linked_cong [of zs ?M M p 0] pre hd by (cases "ys = []") force+
  show ?thesis
  proof (cases zs)
    case Nil
    then show ?thesis using c1 by (simp add: unlink_mem_def linked_append)
  next
    case (Cons z zr)
    have "linked (?M(z + 2 := of_nat (final ys))) 0 ys z = linked ?M 0 ys z" by (rule linked_cong) (use nex Cons in fastforce)
    moreover have "linked (?M(z + 2 := of_nat (final ys))) (final ys) zs 0"
      using linked_pre [of ?M p z zr 0 "final ys"] c2 nex Cons by simp
    ultimately show ?thesis using c1 Cons by (simp add: unlink_mem_def linked_append final_def)
  qed
qed

lemma unlink_threaded:
  assumes ok: "soup_mem rut X B F M" and i: "i < 28" and F: "F i = ys @ p # zs"
  shows "threaded rut (unlink_mem rut i ys zs M) (F(i := ys @ zs))"
proof -
  note sep = soup_memD(1) [OF ok] and thr = threadedD [OF soup_memD(4) [OF ok]] and lst = listedD [OF soup_memD(3) [OF ok]]
  let ?M = "unlink_mem rut i ys zs M"
  have free: "\<exists>t. B q = Some (t, 0)" if "q \<in> set (F j)" for q j using lst(2) [OF that] by auto
  have dist: "q + k \<noteq> r + l" if q: "q \<in> set (F j)" "r \<in> set (F m)" "q \<noteq> r" "k \<in> {2, 3}" "l \<in> {2, 3}" for q r k l j m
  proof -
    obtain t v where "B q = Some (t, 0)" "B r = Some (v, 0)" using free [OF q(1)] free [OF q(2)] by blast
    then show ?thesis using far(1) [OF sep _ _ q(3-5)] by blast
  qed
  have head: "rut + j \<noteq> q + k" if q: "q \<in> set (F m)" "j < 28" for q k j m
  proof -
    obtain t where "B q = Some (t, 0)" using free [OF q(1)] by blast
    then show ?thesis using far(2) [OF sep, of q _ _ j k] q(2) by simp
  qed
  have d: "distinct (ys @ p # zs)" using lst(1) [of i] F by simp
  have "linked ?M 0 (ys @ zs) 0"
  proof (rule unlink_linked [of M ys p zs])
    show "linked M 0 (ys @ p # zs) 0" using thr(2) [OF i] F by simp
    show "\<forall>q\<in>set (butlast ys @ zs). last ys + 3 \<noteq> q + 2 \<and> last ys + 3 \<noteq> q + 3" if ys: "ys \<noteq> []"
    proof
      fix q assume q: "q \<in> set (butlast ys @ zs)"
      have "last ys \<in> set (F i)" "q \<in> set (F i)" "last ys \<noteq> q" using ys q d F by (cases ys rule: rev_cases; auto)+
      then show "last ys + 3 \<noteq> q + 2 \<and> last ys + 3 \<noteq> q + 3" using dist [of "last ys" i q i 3 2] dist [of "last ys" i q i 3 3] by simp
    qed
    show "\<forall>q\<in>set (ys @ tl zs). first zs + 2 \<noteq> q + 2 \<and> first zs + 2 \<noteq> q + 3" if zs: "zs \<noteq> []"
    proof
      fix q assume q: "q \<in> set (ys @ tl zs)"
      have "first zs \<in> set (F i)" "q \<in> set (F i)" "first zs \<noteq> q" using zs q d F by (cases zs; auto)+
      then show "first zs + 2 \<noteq> q + 2 \<and> first zs + 2 \<noteq> q + 3" using dist [of "first zs" i q i 2 2] dist [of "first zs" i q i 2 3] by simp
    qed
    show "rut + i \<noteq> q + k" if "q \<in> set (ys @ zs)" for q k using head [of q i i k] i F that by auto
  qed
  moreover have "?M (rut + j) = (if j = i then of_nat (first (ys @ zs)) else M (rut + j))" if j: "j < 28" for j
  proof -
    have "rut + j \<noteq> last ys + 3" if "ys \<noteq> []" using head [of "last ys" i j 3] that j F by simp
    moreover have "rut + j \<noteq> first zs + 2" if "zs \<noteq> []" using head [of "first zs" i j 2] that j F by (cases zs) auto
    ultimately show ?thesis using thr(1) [OF i] F unfolding unlink_mem_def Let_def by (cases ys; cases zs) auto
  qed
  moreover have "linked ?M 0 (F j) 0" if j: "j < 28" "j \<noteq> i" for j
  proof -
    have ne: "q \<noteq> r" if "q \<in> set (F j)" "r \<in> set (F i)" for q r using lst(2) [OF that(1)] lst(2) [OF that(2)] j(2) by auto
    have "?M (q + k) = M (q + k)" if q: "q \<in> set (F j)" "k \<in> {2, 3}" for q k
    proof -
      have "q + k \<noteq> last ys + 3" if "ys \<noteq> []" using dist [OF q(1), of "last ys" i k 3] ne [OF q(1), of "last ys"] that q(2) F by simp
      moreover have "q + k \<noteq> first zs + 2" if "zs \<noteq> []" using dist [OF q(1), of "first zs" i k 2] ne [OF q(1), of "first zs"] that q(2) F by (cases zs) auto
      ultimately show ?thesis using head [OF q(1) i, of k] unfolding unlink_mem_def Let_def by auto
    qed
    then have "linked ?M 0 (F j) 0 = linked M 0 (F j) 0" by (intro linked_cong) blast
    then show ?thesis using thr(2) [OF j(1)] by simp
  qed
  ultimately show ?thesis using thr(1) unfolding threaded_def by auto
qed

lemma listed_take:
  assumes "listed X B F" "F i = ys @ p # zs"
  shows "listed (insert p X) B (F(i := ys @ zs))"
proof -
  have d: "distinct (ys @ p # zs)" using listedD(1) [OF assms(1), of i] assms(2) by simp
  have "p \<notin> set (F j)" if "j \<noteq> i" for j using listedD(2) [OF assms(1), of p j] listedD(2) [OF assms(1), of p i] assms(2) that by auto
  moreover have "set (ys @ zs) = set (F i) - {p}" using d assms(2) by auto
  ultimately show ?thesis using assms(1) d unfolding listed_def by auto
qed

lemma unlink_mem_ok:
  assumes ok: "soup_mem rut X B F M" and F: "F i = ys @ p # zs"
  shows "soup_mem rut (insert p X) B (F(i := ys @ zs)) (unlink_mem rut i ys zs M)"
    "a \<notin> loose rut B \<Longrightarrow> unlink_mem rut i ys zs M a = M a"
proof -
  note sep = soup_memD(1) [OF ok] and lst = listedD [OF soup_memD(3) [OF ok]]
  have i: "i < 28" using lst(2) [of p i] F by simp
  have free: "\<exists>t. B q = Some (t, 0)" if "q \<in> set (ys @ zs)" for q using lst(2) [of q i] F that by auto
  let ?M = "M((if ys = [] then rut + i else last ys + 3) := of_nat (first zs))"
  have "boxed ?M B"
  proof (cases "ys = []")
    case True
    then show ?thesis using boxed_link [OF sep soup_memD(2) [OF ok], of "rut + i"] i by simp
  next
    case False
    then obtain t where "B (last ys) = Some (t, 0)" using free [of "last ys"] by auto
    then show ?thesis using boxed_hut(2) [OF sep soup_memD(2) [OF ok]] False by simp
  qed
  moreover have "boxed (M'(first zs + 2 := w)) B" if m: "boxed M' B" "zs \<noteq> []" for M' w
  proof -
    obtain t where "B (first zs) = Some (t, 0)" using free [of "first zs"] m(2) by (cases zs) auto
    then show ?thesis using boxed_hut(1) [OF sep m(1)] by blast
  qed
  ultimately have "boxed (unlink_mem rut i ys zs M) B" unfolding unlink_mem_def Let_def by presburger
  then show "soup_mem rut (insert p X) B (F(i := ys @ zs)) (unlink_mem rut i ys zs M)"
    using sep listed_take [OF soup_memD(3) [OF ok] F] unlink_threaded [OF ok i F] by (simp add: soup_mem_def)
  assume a: "a \<notin> loose rut B"
  have out: "a \<noteq> q + k" if q: "q \<in> set (ys @ zs)" "k < 5" for q k
  proof -
    obtain t where "B q = Some (t, 0)" using free [OF q(1)] by blast
    then show ?thesis using a looseI(1) [of B q t k] separateD(2) [OF sep, of q t 0] q(2) by auto
  qed
  have "a \<noteq> rut + i" using a looseI(2) [of i] i by auto
  moreover have "a \<noteq> last ys + 3" if "ys \<noteq> []" using out [of "last ys" 3] that by simp
  moreover have "a \<noteq> first zs + 2" if "zs \<noteq> []" using out [of "first zs" 2] that by (cases zs) auto
  ultimately show "unlink_mem rut i ys zs M a = M a" unfolding unlink_mem_def Let_def by simp
qed

section \<open>Making boxes\<close>

definition make_mem :: "nat \<Rightarrow> nat \<Rightarrow> c3_w \<Rightarrow> words \<Rightarrow> words" where
  "make_mem p s u M = M(p := of_nat s, p + 1 := u, p + s - 1 := of_nat s)"

text \<open>A box may be made where no other one is.\<close>

definition vacant :: "nat \<Rightarrow> boxes \<Rightarrow> nat \<Rightarrow> nat \<Rightarrow> bool" where
  "vacant rut B p s \<longleftrightarrow> rut + 32 \<le> p \<and> 5 \<le> s \<and> p + s \<le> 2 ^ 28 \<and> (\<forall>q t v. B q = Some (t, v) \<longrightarrow> q + t \<le> p \<or> p + s \<le> q)"

lemma make_out:
  assumes "vacant rut B p s" "a < p \<or> p + s \<le> a"
  shows "make_mem p s u M a = M a"
  using assms by (auto simp: make_mem_def vacant_def)

lemma make_mem_ok:
  assumes ok: "soup_mem rut X B F M" and v: "vacant rut B p s" and X: "u = 0 \<Longrightarrow> p \<in> X"
  shows "soup_mem rut X (B(p \<mapsto> (s, u))) F (make_mem p s u M)"
proof -
  note sep = soup_memD(1) [OF ok] and thr = threadedD [OF soup_memD(4) [OF ok]] and lst = listedD [OF soup_memD(3) [OF ok]]
  let ?M = "make_mem p s u M"
  have vac: "rut + 32 \<le> p" "5 \<le> s" "p + s \<le> 2 ^ 28" "B q = Some (t, w) \<Longrightarrow> q + t \<le> p \<or> p + s \<le> q" for q t w
    using v unfolding vacant_def by blast+
  have none: "B p = None" using vac(2) vac(4) [of p] separateD(2) [OF sep, of p] by (cases "B p") force+
  have other: "?M (q + k) = M (q + k)" if q: "B q = Some (t, w)" "k < t" for q t w k
    by (rule make_out [OF v]) (use vac(4) [OF q(1)] q(2) in auto)
  have "p + s \<le> q" if "B q = Some (t, w)" "p < q" for q t w using vac(4) [OF that(1)] that(2) separateD(2) [OF sep that(1)] by linarith
  moreover have "q + t \<le> p" if "B q = Some (t, w)" "q < p" for q t w using vac(4) [OF that(1)] that(2) vac(2) by linarith
  ultimately have "separate rut (B(p \<mapsto> (s, u)))" using sep vac(1-3) unfolding separate_def by (auto split: if_splits)
  moreover have "boxed ?M (B(p \<mapsto> (s, u)))"
    unfolding boxed_def
  proof (intro allI impI)
    fix q t w assume q: "(B(p \<mapsto> (s, u))) q = Some (t, w)"
    show "?M q = of_nat t \<and> ?M (q + 1) = w \<and> ?M (q + t - 1) = of_nat t"
    proof (cases "q = p")
      case True
      then show ?thesis using q vac(2) by (auto simp: make_mem_def)
    next
      case False
      then have b: "B q = Some (t, w)" using q by simp
      have "5 \<le> t" by (rule separateD(2) [OF sep b])
      then show ?thesis using other [OF b, of 0] other [OF b, of 1] other [OF b, of "t - 1"] boxedD [OF soup_memD(2) [OF ok] b] by simp
    qed
  qed
  moreover have "listed X (B(p \<mapsto> (s, u))) F" using soup_memD(3) [OF ok] none X unfolding listed_def by auto
  moreover have "threaded rut ?M F" unfolding threaded_def
  proof (intro allI impI conjI)
    fix i :: nat assume i: "i < 28"
    show "?M (rut + i) = of_nat (first (F i))" using thr(1) [OF i] make_out [OF v, of "rut + i" u M] vac(1) i by simp
    have "linked ?M 0 (F i) 0 = linked M 0 (F i) 0"
    proof (rule linked_cong)
      fix q assume "q \<in> set (F i)"
      then obtain t where t: "B q = Some (t, 0)" using lst(2) by blast
      then show "?M (q + 2) = M (q + 2) \<and> ?M (q + 3) = M (q + 3)" using other [OF t, of 2] other [OF t, of 3] separateD(2) [OF sep t] by simp
    qed
    then show "linked ?M 0 (F i) 0" using thr(2) [OF i] by simp
  qed
  ultimately show ?thesis by (simp add: soup_mem_def)
qed

lemma forget_ok:
  assumes ok: "soup_mem rut X B F M" and p: "p \<in> X \<or> (\<exists>s u. B p = Some (s, u) \<and> u \<noteq> 0)"
  shows "soup_mem rut (X - {p}) (B(p := None)) F M"
proof -
  have "separate rut (B(p := None))" using soup_memD(1) [OF ok] unfolding separate_def by (auto split: if_splits)
  moreover have "boxed M (B(p := None))" using soup_memD(2) [OF ok] unfolding boxed_def by (auto split: if_splits)
  moreover have "listed (X - {p}) (B(p := None)) F" using soup_memD(3) [OF ok] p unfolding listed_def by auto
  ultimately show ?thesis using soup_memD(4) [OF ok] by (simp add: soup_mem_def)
qed

section \<open>The routines in memory\<close>

lemma make_vw:
  assumes "5 \<le> s" "p + s < 2 ^ 32"
  shows "\<exists>ral'. rl_bloq_make (of_nat p) (of_nat s) u ral = Inr ral' \<and> vw ral' = make_mem p s u (vw ral) \<and> frame ral' = frame ral"
proof -
  have tail: "of_nat p + of_nat s - (1 :: c3_w) = of_nat (p + s - 1)" using ray_diff(3) [of "p + s"] assms(1) by simp
  have "\<not> (of_nat s :: c3_w) < 5" using ray_less [of "num.Bit1 (num.Bit0 num.One)" s] assms by simp
  moreover have "p < 2 ^ 32" "p + 1 < 2 ^ 32" "p + s - 1 < 2 ^ 32" using assms by simp_all
  ultimately show ?thesis unfolding rl_bloq_make_def tail unfolding ray_add(3)
    by (simp only: make_mem_def vw_put frame_put if_False sum.inject ex_simps simp_thms)
qed

lemma select_less: "rl_free_select siz < 28"
proof -
  have "free_select_loop n siz < 28" if "n < 28" for n siz using that by (induction n arbitrary: siz) (auto simp: u2_soup_free_no_def)
  then show ?thesis by (simp add: rl_free_select_def u2_soup_free_no_def)
qed

lemma attach_vw:
  assumes rut: "rut_r ral = of_nat rut" and ok: "soup_mem rut X B F (vw ral)" and p: "B p = Some (s, 0)" "p \<in> X"
  shows "\<exists>ral'. rl_bloq_attach (of_nat p) ral = Inr ral' \<and>
    vw ral' = attach_mem rut (rl_free_select (of_nat s)) (first (F (rl_free_select (of_nat s)))) p (vw ral) \<and> frame ral' = frame ral"
proof -
  note sep = soup_memD(1) [OF ok] and thr = threadedD [OF soup_memD(4) [OF ok]] and lst = listedD [OF soup_memD(3) [OF ok]]
  let ?i = "rl_free_select (of_nat s)"
  define x where "x = first (F ?i)"
  have b: "rut + 32 \<le> p" "5 \<le> s" "p + s \<le> 2 ^ 28" using separateD [OF sep p(1)] by blast+
  have i: "?i < 28" by (rule select_less)
  have siz: "loom ral (of_nat p) = of_nat s" using boxedD(1) [OF soup_memD(2) [OF ok] p(1)] b by (simp add: vw_simps)
  have head: "vw ral (rut + ?i) = of_nat x" using thr(1) [OF i] by (simp add: x_def)
  have x: "x \<noteq> p" "x + 3 < 2 ^ 28" "vw ral (x + 2) = 0" "x + 2 \<noteq> p + 2" "x + 2 \<noteq> p + 3" "rut + ?i \<noteq> p + 2" "rut + ?i \<noteq> p + 3" if nz: "x \<noteq> 0"
  proof -
    obtain xs where xs: "F ?i = x # xs" using nz by (cases "F ?i") (auto simp: x_def)
    then obtain t where t: "B x = Some (t, 0)" "x \<notin> X" using lst(2) [of x ?i] by auto
    then show "x \<noteq> p" using p(2) by auto
    then show "x + 2 \<noteq> p + 2" "x + 2 \<noteq> p + 3" using far(1) [OF sep t(1) p(1), of 2 2] far(1) [OF sep t(1) p(1), of 2 3] by simp_all
    show "x + 3 < 2 ^ 28" using separateD [OF sep t(1)] by simp
    show "vw ral (x + 2) = 0" using thr(2) [OF i] xs by simp
    show "rut + ?i \<noteq> p + 2" "rut + ?i \<noteq> p + 3" using b(1) i by simp_all
  qed
  have bounds: "p + 2 < 2 ^ 32" "p + 3 < 2 ^ 32" "rut + ?i < 2 ^ 32" "x \<noteq> 0 \<Longrightarrow> x + 2 < 2 ^ 32" "x < 2 ^ 32" "p < 2 ^ 32" using b i x(2) by (cases "x = 0"; simp)+
  have z: "(of_nat x :: c3_w) = 0 \<longleftrightarrow> x = 0" by (rule of_nat_ray_0 [OF bounds(5)])
  have "u2_rail_box_siz ral (of_nat p) = of_nat s" by (simp add: u2_rail_box_siz_def siz)
  moreover have "u2_soup_fre_r ral ?i = of_nat x" using head bounds(3) by (simp add: u2_soup_fre_r_def rut ray_add vw_simps del: of_nat_add)
  moreover have "u2_soup_fre_r (loom_put (of_nat p + 2) 0 ral) ?i = of_nat x" using head b i bounds
    by (simp add: u2_soup_fre_r_def rut ray_add vw_simps del: of_nat_add add_2_eq_Suc')
  moreover have "u2_rail_hut_pre (loom_put (of_nat p + 3) (of_nat x) (loom_put (of_nat p + 2) 0 ral)) (of_nat x) = 0" if "x \<noteq> 0"
    using x [OF that] bounds that by (simp add: u2_rail_hut_pre_def ray_add vw_simps del: of_nat_add add_2_eq_Suc')
  ultimately show ?thesis unfolding rl_bloq_attach_def Let_def
    by (cases "x = 0") (use bounds z in \<open>simp_all add: rut ray_add vw_simps x_def [symmetric] attach_mem_def del: of_nat_add add_2_eq_Suc'\<close>)
qed

text \<open>The links of a box on a free list.\<close>

lemma hut_links:
  assumes ok: "soup_mem rut X B F M" and F: "F i = ys @ p # zs"
  shows "M (p + 2) = of_nat (final ys)" "M (p + 3) = of_nat (first zs)" "final ys = 0 \<longleftrightarrow> ys = []" "first zs = 0 \<longleftrightarrow> zs = []"
    "final ys + 3 < 2 ^ 32" "first zs + 3 < 2 ^ 32" "p + 3 < 2 ^ 32" "rut + i < 2 ^ 32" "i < 28"
    "zs \<noteq> [] \<Longrightarrow> first zs \<noteq> p" "M (if ys = [] then rut + i else last ys + 3) = of_nat p"
proof -
  note sep = soup_memD(1) [OF ok] and lst = listedD [OF soup_memD(3) [OF ok]]
  have p: "p \<in> set (F i)" using F by simp
  show i: "i < 28" using lst(2) [OF p] by blast
  have box: "32 \<le> q \<and> q + 5 \<le> 2 ^ 28 \<and> rut + 32 \<le> q" if q: "q \<in> set (F i)" for q
  proof -
    obtain t where "B q = Some (t, 0)" using lst(2) [OF q] by blast
    then show ?thesis using separateD [OF sep, of q t 0] by simp
  qed
  have lk: "linked M 0 (ys @ p # zs) 0" using threadedD(2) [OF soup_memD(4) [OF ok] i] F by simp
  have y: "ys = [] \<or> final ys \<in> set (F i)" using F by (auto simp: final_def)
  have z: "zs = [] \<or> first zs \<in> set (F i)" using F by (cases zs) auto
  show "final ys = 0 \<longleftrightarrow> ys = []" "first zs = 0 \<longleftrightarrow> zs = []" using y z box by fastforce+
  show "M (p + 2) = of_nat (final ys)" using linked_not_end [OF lk] by (simp add: final_def)
  show "M (p + 3) = of_nat (first zs)" using linked_not_end [OF lk] by (cases zs) simp_all
  show "final ys + 3 < 2 ^ 32" "first zs + 3 < 2 ^ 32" using y z box by force+
  show "p + 3 < 2 ^ 32" "rut + i < 2 ^ 32" using box [OF p] i by simp_all
  show "zs \<noteq> [] \<Longrightarrow> first zs \<noteq> p" using lst(1) [of i] F by (cases zs) auto
  show "M (if ys = [] then rut + i else last ys + 3) = of_nat p"
    using threadedD(1) [OF soup_memD(4) [OF ok] i] F lk by (cases ys rule: rev_cases) (auto simp: linked_append)
qed

lemma detach_vw:
  assumes rut: "rut_r ral = of_nat rut" and ok: "soup_mem rut X B F (vw ral)" and F: "F i = ys @ p # zs"
  shows "vw (rl_bloq_detach (of_nat p) ral) = unlink_mem rut i ys zs (vw ral)" "frame (rl_bloq_detach (of_nat p) ral) = frame ral"
proof -
  note h = hut_links [OF ok F]
  obtain s where s: "B p = Some (s, 0)" "rl_free_select (of_nat s) = i" using listedD(2) [OF soup_memD(3) [OF ok], of p i] F by auto
  have siz: "u2_rail_box_siz ral (of_nat p) = of_nat s"
    using boxedD(1) [OF soup_memD(2) [OF ok] s(1)] h(7) by (simp add: u2_rail_box_siz_def vw_simps)
  have links: "u2_rail_hut_pre ral (of_nat p) = of_nat (final ys)" "u2_rail_hut_nex ral (of_nat p) = of_nat (first zs)"
    using h by (simp_all add: u2_rail_hut_pre_def u2_rail_hut_nex_def ray_add vw_simps del: of_nat_add add_2_eq_Suc')
  have zero: "(of_nat (final ys) :: c3_w) = 0 \<longleftrightarrow> ys = []" "(of_nat (first zs) :: c3_w) = 0 \<longleftrightarrow> zs = []"
    using of_nat_ray_0 [of "final ys"] of_nat_ray_0 [of "first zs"] h(3-6) by simp_all
  have fin: "ys \<noteq> [] \<Longrightarrow> final ys = last ys" by (simp add: final_def)
  show "vw (rl_bloq_detach (of_nat p) ral) = unlink_mem rut i ys zs (vw ral)" "frame (rl_bloq_detach (of_nat p) ral) = frame ral"
    unfolding rl_bloq_detach_def Let_def siz links zero s(2) rut
    using h by (cases "ys = []"; cases "zs = []"; simp add: unlink_mem_def fin rut ray_add vw_simps del: of_nat_add add_2_eq_Suc')+
qed

end
