(* ===== verification/Soup_Heap.thy ===== *)
theory Soup_Heap
  imports Soup_Mem
begin

text \<open>
  The heap of a rail: its boxes fill the space between the soup and the hat. Allocation and release keep this, and leave the boxes
  in use as they are.
\<close>

section \<open>Boxes without gaps\<close>

definition ends :: "boxes \<Rightarrow> nat set" where
  "ends B = (\<lambda>p. p + fst (the (B p))) ` dom B"

text \<open>A box starts at the beginning and wherever another one ends before the hat.\<close>

definition tiled :: "nat \<Rightarrow> nat \<Rightarrow> boxes \<Rightarrow> bool" where
  "tiled beg hat B \<longleftrightarrow> beg \<le> hat \<and> insert hat (dom B) = insert beg (ends B) \<and> (\<forall>e\<in>ends B. e \<le> hat)"

lemma ends_iff: "e \<in> ends B \<longleftrightarrow> (\<exists>p s u. B p = Some (s, u) \<and> e = p + s)"
  by (force simp: ends_def image_iff)

lemma ends_upd: "ends (B(p \<mapsto> (s, u))) = insert (p + s) (ends (B(p := None)))"
proof -
  have "(\<lambda>q. q + fst (the ((B(p \<mapsto> (s, u))) q))) ` (dom B - {p}) = (\<lambda>q. q + fst (the ((B(p := None)) q))) ` (dom B - {p})"
    by (rule image_cong) auto
  moreover have "dom (B(p \<mapsto> (s, u))) = insert p (dom B - {p})" "dom (B(p := None)) = dom B - {p}" by auto
  ultimately show ?thesis unfolding ends_def by (simp only: image_insert fun_upd_same option.sel fst_conv)
qed

lemma ends_same: "B p = Some (s, u) \<Longrightarrow> ends (B(p \<mapsto> (s, u'))) = ends B"
  using ends_upd [of B p s u] ends_upd [of B p s u'] by (simp add: fun_upd_idem)

lemma ends_new: "B p = None \<Longrightarrow> ends (B(p \<mapsto> (s, u))) = insert (p + s) (ends B)"
  using ends_upd [of B p s u] by (simp add: fun_upd_idem)

lemma ends_drop:
  assumes "separate rut B" "B p = Some (s, u)"
  shows "ends (B(p := None)) = ends B - {p + s}"
proof -
  have "q + t \<noteq> p + s" if "B q = Some (t, v)" "q \<noteq> p" for q t v
    using apart [OF assms that(1), of "s - 1" "t - 1"] separateD(2) [OF assms] separateD(2) [OF assms(1) that(1)] that(2) by auto
  then have "p + s \<notin> ends (B(p := None))" by (force simp: ends_iff split: if_splits)
  then show ?thesis using ends_upd [of B p s u] assms(2) by (simp add: fun_upd_idem)
qed

lemma tiledD:
  assumes "tiled beg hat B" "B p = Some (s, u)"
  shows "p + s \<le> hat" "p + s = hat \<or> B (p + s) \<noteq> None \<or> p + s = beg" "p = beg \<or> (\<exists>q t v. B q = Some (t, v) \<and> p = q + t) \<or> p = hat" "beg \<le> hat"
proof -
  have "p + s \<in> ends B" using assms(2) by (auto simp: ends_iff)
  moreover from this have "p + s \<in> insert hat (dom B)" using assms(1) by (simp add: tiled_def)
  moreover have "p \<in> insert beg (ends B)" using assms unfolding tiled_def by (metis domI insertCI)
  ultimately show "p + s \<le> hat" "p + s = hat \<or> B (p + s) \<noteq> None \<or> p + s = beg" "p = beg \<or> (\<exists>q t v. B q = Some (t, v) \<and> p = q + t) \<or> p = hat" "beg \<le> hat"
    using assms(1) by (auto simp: tiled_def ends_iff)
qed

lemma tiled_use: "tiled beg hat B \<Longrightarrow> B p = Some (s, u) \<Longrightarrow> tiled beg hat (B(p \<mapsto> (s, u')))"
  unfolding tiled_def by (simp add: ends_same insert_absorb domI)

lemma tiled_chip: "tiled beg hat B \<Longrightarrow> B hat = None \<Longrightarrow> tiled beg (hat + n) (B(hat \<mapsto> (n, u)))"
  unfolding tiled_def by (auto simp: ends_new)

lemma separate_pos: "separate rut B \<Longrightarrow> B p = Some (s, u) \<Longrightarrow> rut + 32 \<le> p \<and> 0 < s"
  using separateD [of rut B p s u] by simp

lemma box_inside:
  assumes "separate rut B" "B p = Some (s, u)" "p < q" "q < p + s"
  shows "B q = None"
proof (cases "B q")
  case (Some x)
  obtain t v where x: "x = (t, v)" by (cases x)
  then show ?thesis using apart [OF assms(1,2), of q t v "q - p" 0] separate_pos [OF assms(1), of q t v] Some assms(3,4) less_diff_conv2 [of p q s] by simp
qed simp

lemma tiled_split:
  assumes t: "tiled beg hat B" and sep: "separate rut B" and p: "B p = Some (s, u)" "0 < n" "n < s"
  shows "tiled beg hat (B(p \<mapsto> (n, u'), p + n \<mapsto> (s - n, v)))"
proof -
  have none: "B (p + n) = None" by (rule box_inside [OF sep p(1)]) (use p(2,3) in simp_all)
  have "ends (B(p \<mapsto> (n, u'), p + n \<mapsto> (s - n, v))) = insert (p + s) (insert (p + n) (ends B - {p + s}))"
    using ends_new [of "B(p \<mapsto> (n, u'))" "p + n" "s - n" v] ends_upd [of B p n u'] ends_drop [OF sep p(1)] none p(2,3) by simp
  moreover have "p + s \<in> ends B" using p(1) by (auto simp: ends_iff)
  moreover have "dom (B(p \<mapsto> (n, u'), p + n \<mapsto> (s - n, v))) = insert (p + n) (dom B)" using p(1) by auto
  moreover have "p + n \<le> hat" using tiledD(1) [OF t p(1)] p(3) by simp
  ultimately show ?thesis using t unfolding tiled_def by auto
qed

lemma tiled_join:
  assumes t: "tiled beg hat B" and sep: "separate rut B" and q: "B q = Some (t, u)" and p: "B (q + t) = Some (s, v)" and beg: "beg \<le> q"
  shows "tiled beg hat (B(q + t := None, q \<mapsto> (t + s, w)))"
proof -
  have pos: "0 < t" "0 < s" using separate_pos [OF sep q] separate_pos [OF sep p] by auto
  then have ne: "q \<noteq> q + t" by simp
  have "separate rut (B(q + t := None))" using sep unfolding separate_def by (auto split: if_splits)
  then have "ends (B(q + t := None, q := None)) = ends B - {q + t + s} - {q + t}"
    using ends_drop [of rut "B(q + t := None)" q t u] ends_drop [OF sep p] q ne by simp
  then have "ends (B(q + t := None, q \<mapsto> (t + s, w))) = insert (q + t + s) (ends B - {q + t + s} - {q + t})"
    using ends_upd [of "B(q + t := None)" q "t + s" w] by (simp add: add.assoc)
  moreover have "q + t + s \<in> ends B" using p by (auto simp: ends_iff)
  moreover have "dom (B(q + t := None, q \<mapsto> (t + s, w))) = dom B - {q + t}" using q ne by auto
  moreover have "q + t \<noteq> hat" "q + t \<noteq> beg" "q + t + s \<noteq> q + t" using tiledD(1) [OF t p] pos beg by auto
  ultimately show ?thesis using t unfolding tiled_def by auto
qed

lemma tiled_drop:
  assumes t: "tiled beg hat B" and sep: "separate rut B" and p: "B p = Some (s, u)" "p + s = hat" and beg: "beg \<le> p"
  shows "tiled beg p (B(p := None))"
proof -
  have pos: "0 < s" using separate_pos [OF sep p(1)] by auto
  have "hat \<notin> dom B" using tiledD(1) [OF t, of hat] separate_pos [OF sep, of hat] by fastforce
  moreover have "beg \<noteq> hat" using pos beg p(2) by simp
  ultimately have "dom B = insert beg (ends B - {hat})" using t unfolding tiled_def by (metis Diff_insert_absorb insert_Diff_if singletonD)
  moreover have "ends (B(p := None)) = ends B - {hat}" using ends_drop [OF sep p(1)] p(2) by simp
  moreover have "e \<le> p" if e: "e \<in> ends B - {hat}" for e
  proof -
    obtain q t v where q: "B q = Some (t, v)" "e = q + t" using e by (auto simp: ends_iff)
    have ne: "q \<noteq> p" using q p e by auto
    have "q + t \<le> hat" using tiledD(1) [OF assms(1) q(1)] .
    then have "p + (q + t - 1 - p) \<noteq> q + (t - 1)" if "p < e"
      by (intro apart [OF sep p(1) q(1) ne [symmetric]]) (use that q(2) p(2) separate_pos [OF sep q(1)] in auto)
    then show ?thesis using q(2) separate_pos [OF sep q(1)] by (cases "e \<le> p") auto
  qed
  ultimately show ?thesis using beg p(1) unfolding tiled_def by auto
qed

section \<open>The state of a heap\<close>

definition heap_st :: "u2_loom_rail \<Rightarrow> nat \<Rightarrow> nat \<Rightarrow> nat set \<Rightarrow> boxes \<Rightarrow> (nat \<Rightarrow> nat list) \<Rightarrow> bool" where
  "heap_st ral rut hat X B F \<longleftrightarrow>
     rut_r ral = of_nat rut \<and> hat_r ral = of_nat hat \<and> hip_m ral = c3__rock_w \<and> \<not> ops_mem ral \<and> hat < 2 ^ 28 \<and> hat div 2 ^ 27 = rut div 2 ^ 27 \<and>
     soup_mem rut X B F (vw ral) \<and> tiled (rut + 32) hat B"

definition live :: "boxes \<Rightarrow> boxes" where
  "live B p = (case B p of None \<Rightarrow> None | Some (s, u) \<Rightarrow> if u = 0 then None else Some (s, u))"

definition only :: "nat set \<Rightarrow> words \<Rightarrow> words \<Rightarrow> bool" where
  "only L M M' \<longleftrightarrow> (\<forall>a. a \<notin> L \<longrightarrow> M' a = M a)"

lemma only_refl [simp]: "only L M M"
  by (simp add: only_def)

lemma only_trans: "only L M M' \<Longrightarrow> only L M' M'' \<Longrightarrow> only L M M''"
  by (simp add: only_def)

lemma only_mono: "only K M M' \<Longrightarrow> K \<subseteq> L \<Longrightarrow> only L M M'"
  by (auto simp: only_def)

lemma live_upd: "live (B(p := x)) = (live B)(p := (case x of None \<Rightarrow> None | Some (s, u) \<Rightarrow> if u = 0 then None else Some (s, u)))"
  by (rule ext) (simp add: live_def)

lemma frameD:
  assumes "frame ral' = frame ral"
  shows "cap_r ral' = cap_r ral" "hat_r ral' = hat_r ral" "mat_r ral' = mat_r ral" "rut_r ral' = rut_r ral" "hip_m ral' = hip_m ral" "ops_mem ral' = ops_mem ral"
  using assms by (simp_all add: frame_def)

lemma heap_stD:
  assumes "heap_st ral rut hat X B F"
  shows "rut_r ral = of_nat rut" "hat_r ral = of_nat hat" "hip_m ral = c3__rock_w" "\<not> ops_mem ral" "hat < 2 ^ 28" "hat div 2 ^ 27 = rut div 2 ^ 27"
    "soup_mem rut X B F (vw ral)" "tiled (rut + 32) hat B" "separate rut B"
  using assms by (simp_all add: heap_st_def soup_mem_def)

lemma heap_st_step:
  assumes "heap_st ral rut hat X B F" "frame ral' = frame ral" "soup_mem rut X' B' F' (vw ral')" "tiled (rut + 32) hat B'"
  shows "heap_st ral' rut hat X' B' F'"
  using assms frameD [OF assms(2)] by (simp add: heap_st_def)

lemma listed_insert: "soup_mem rut X B F M \<Longrightarrow> B q = None \<Longrightarrow> soup_mem rut (insert q X) B F M"
  unfolding soup_mem_def listed_def by auto

lemma live_count_ok:
  assumes ok: "soup_mem rut X B F M"
  shows "soup_mem rut X B F (M(rut + 31 := w))"
proof -
  note sep = soup_memD(1) [OF ok] and thr = threadedD [OF soup_memD(4) [OF ok]] and lst = listedD [OF soup_memD(3) [OF ok]]
  have "threaded rut (M(rut + 31 := w)) F" unfolding threaded_def
  proof (intro allI impI conjI)
    fix i :: nat assume i: "i < 28"
    show "(M(rut + 31 := w)) (rut + i) = of_nat (first (F i))" using thr(1) [OF i] i by simp
    have "linked (M(rut + 31 := w)) 0 (F i) 0 = linked M 0 (F i) 0"
    proof (rule linked_cong)
      fix q assume "q \<in> set (F i)"
      then obtain t where "B q = Some (t, 0)" using lst(2) by blast
      then have "rut + 32 \<le> q" using separateD(1) [OF sep, of q t 0] by simp
      then show "(M(rut + 31 := w)) (q + 2) = M (q + 2) \<and> (M(rut + 31 := w)) (q + 3) = M (q + 3)" by simp
    qed
    then show "linked (M(rut + 31 := w)) 0 (F i) 0" using thr(2) [OF i] by simp
  qed
  then show ?thesis using ok boxed_link [OF sep soup_memD(2) [OF ok], of "rut + 31" w] by (simp add: soup_mem_def)
qed

lemma live_grab_vw:
  assumes "heap_st ral rut hat X B F"
  shows "heap_st (rl_live_grab w ral) rut hat X B F" "only (loose rut B) (vw ral) (vw (rl_live_grab w ral))" "frame (rl_live_grab w ral) = frame ral"
proof -
  have "rut + 32 \<le> hat" using heap_stD(8) [OF assms] by (simp add: tiled_def)
  then have "rut + 31 < 2 ^ 32" using heap_stD(5) [OF assms] by simp
  then have v: "vw (rl_live_grab w ral) = (vw ral)(rut + 31 := loom ral (rut_r ral + 31) + w)"
    using heap_stD(1) [OF assms] vw_put [of "rut + 31"] by (simp add: rl_live_grab_def ray_add del: of_nat_add)
  show f: "frame (rl_live_grab w ral) = frame ral" by (simp add: rl_live_grab_def)
  show "heap_st (rl_live_grab w ral) rut hat X B F"
    by (rule heap_st_step [OF assms f]) (use heap_stD(7,8) [OF assms] live_count_ok v in auto)
  show "only (loose rut B) (vw ral) (vw (rl_live_grab w ral))" using looseI(2) [of 31 rut B] by (auto simp: only_def v)
qed

section \<open>Allocation\<close>

lemma make_st:
  assumes "soup_mem rut X B F (vw ral)" "vacant rut B p s" "u = 0 \<Longrightarrow> p \<in> X"
  shows "\<exists>ral'. rl_bloq_make (of_nat p) (of_nat s) u ral = Inr ral' \<and> soup_mem rut X (B(p \<mapsto> (s, u))) F (vw ral') \<and> frame ral' = frame ral \<and>
    only {p..<p + s} (vw ral) (vw ral')"
proof -
  have v: "5 \<le> s" "p + s < 2 ^ 32" using assms(2) by (auto simp: vacant_def)
  obtain ral' where "rl_bloq_make (of_nat p) (of_nat s) u ral = Inr ral'" "vw ral' = make_mem p s u (vw ral)" "frame ral' = frame ral"
    using make_vw [OF v] by blast
  then show ?thesis using make_mem_ok [OF assms] make_out [OF assms(2)] by (auto simp: only_def)
qed

lemma attach_st:
  assumes "rut_r ral = of_nat rut" "soup_mem rut X B F (vw ral)" "B p = Some (s, 0)" "p \<in> X"
  shows "\<exists>ral' F'. rl_bloq_attach (of_nat p) ral = Inr ral' \<and> soup_mem rut (X - {p}) B F' (vw ral') \<and> frame ral' = frame ral \<and>
    only (loose rut B) (vw ral) (vw ral')"
proof -
  obtain ral' where "rl_bloq_attach (of_nat p) ral = Inr ral'" "frame ral' = frame ral"
      "vw ral' = attach_mem rut (rl_free_select (of_nat s)) (first (F (rl_free_select (of_nat s)))) p (vw ral)"
    using attach_vw [OF assms] by blast
  then show ?thesis using attach_mem_ok [OF assms(2-4) refl select_less] by (auto simp: only_def)
qed

lemma detach_st:
  assumes "rut_r ral = of_nat rut" "soup_mem rut X B F (vw ral)" "B p = Some (s, 0)" "p \<notin> X"
  shows "\<exists>F'. soup_mem rut (insert p X) B F' (vw (rl_bloq_detach (of_nat p) ral)) \<and> frame (rl_bloq_detach (of_nat p) ral) = frame ral \<and>
    only (loose rut B) (vw ral) (vw (rl_bloq_detach (of_nat p) ral))"
proof -
  have "p \<in> set (F (rl_free_select (of_nat s)))" using soup_memD(3) [OF assms(2)] assms(3,4) select_less unfolding listed_def by blast
  then obtain ys zs where F: "F (rl_free_select (of_nat s)) = ys @ p # zs" by (meson split_list)
  show ?thesis using detach_vw [OF assms(1,2) F] unlink_mem_ok [OF assms(2) F] by (auto simp: only_def)
qed

lemma loose_mono:
  assumes "\<And>q t a. B' q = Some (t, 0) \<Longrightarrow> q \<le> a \<Longrightarrow> a < q + t \<Longrightarrow> a \<in> loose rut B"
  shows "loose rut B' \<subseteq> loose rut B"
proof
  fix a assume "a \<in> loose rut B'"
  then show "a \<in> loose rut B" using assms [of _ _ a] by (auto simp: loose_def [of rut B'] loose_def [of rut B])
qed

lemma loose_in: "B q = Some (t, 0) \<Longrightarrow> q \<le> a \<Longrightarrow> a < q + t \<Longrightarrow> a \<in> loose rut B"
  using looseI(1) [of B q t "a - q" rut] by simp

lemma free_box_loose: "B p = Some (s, 0) \<Longrightarrow> {p..<p + s} \<subseteq> loose rut B"
  by (auto intro: loose_in)

lemma unlink_vw:
  assumes rut: "rut_r ral = of_nat rut" and ok: "soup_mem rut X B F (vw ral)" and F: "F i = ys @ p # zs"
  defines "pfr \<equiv> of_nat (if ys = [] then rut + i else last ys + 3) :: u2_ray"
    and "ral' \<equiv> loom_put (of_nat (if ys = [] then rut + i else last ys + 3)) (u2_rail_hut_nex ral (of_nat p)) ral"
  shows "u2_rail_hut_pre ral (of_nat p) \<noteq> 0 \<longrightarrow> pfr = u2_rail_hut_pre ral (of_nat p) + 3"
    "vw (if u2_rail_hut_nex ral (of_nat p) \<noteq> 0 then loom_put (u2_rail_hut_nex ral (of_nat p) + 2) (u2_rail_hut_pre ral (of_nat p)) ral' else ral') = unlink_mem rut i ys zs (vw ral)"
proof -
  note h = hut_links [OF ok F]
  have links: "u2_rail_hut_pre ral (of_nat p) = of_nat (final ys)" "u2_rail_hut_nex ral (of_nat p) = of_nat (first zs)"
    using h by (simp_all add: u2_rail_hut_pre_def u2_rail_hut_nex_def ray_add vw_simps del: of_nat_add add_2_eq_Suc')
  have zero: "(of_nat (final ys) :: c3_w) = 0 \<longleftrightarrow> ys = []" "(of_nat (first zs) :: c3_w) = 0 \<longleftrightarrow> zs = []"
    using of_nat_ray_0 [of "final ys"] of_nat_ray_0 [of "first zs"] h(3-6) by simp_all
  show "u2_rail_hut_pre ral (of_nat p) \<noteq> 0 \<longrightarrow> pfr = u2_rail_hut_pre ral (of_nat p) + 3"
    unfolding links zero pfr_def by (simp add: final_def)
  show "vw (if u2_rail_hut_nex ral (of_nat p) \<noteq> 0 then loom_put (u2_rail_hut_nex ral (of_nat p) + 2) (u2_rail_hut_pre ral (of_nat p)) ral' else ral') = unlink_mem rut i ys zs (vw ral)"
    unfolding links zero ral'_def using h
    by (cases "ys = []"; cases "zs = []") (simp_all add: unlink_mem_def final_def ray_add vw_simps del: of_nat_add add_2_eq_Suc')
qed

lemma box_word:
  assumes "heap_st ral rut hat X B F" "B p = Some (s, u)"
  shows "u2_rail_box_siz ral (of_nat p) = of_nat s" "u2_rail_box_use ral (of_nat p) = u" "p + s < 2 ^ 32" "5 \<le> s"
proof -
  show b: "p + s < 2 ^ 32" "5 \<le> s" using separateD [OF heap_stD(9) [OF assms(1)] assms(2)] by simp_all
  then show "u2_rail_box_siz ral (of_nat p) = of_nat s" "u2_rail_box_use ral (of_nat p) = u"
    using boxedD [OF soup_memD(2) [OF heap_stD(7) [OF assms(1)]] assms(2)] loom_vw [of p ral] loom_vw [of "p + 1" ral]
    by (simp_all add: u2_rail_box_siz_def u2_rail_box_use_def add.commute)
qed

text \<open>A box is turned into one in use, or one that is free but not listed.\<close>

lemma reuse_ok:
  assumes ok: "soup_mem rut X B F M" and p: "B p = Some (s, v)" "p \<in> X \<or> v \<noteq> 0"
  shows "soup_mem rut (if u = 0 then insert p X else X - {p}) (B(p \<mapsto> (s, u))) F (M(p + 1 := u))"
proof -
  note b = boxedD [OF soup_memD(2) [OF ok] p(1)] and d = separateD [OF soup_memD(1) [OF ok] p(1)]
  have M: "make_mem p s u M = M(p + 1 := u)" using b d(2) by (intro ext) (auto simp: make_mem_def)
  have one: "soup_mem rut (X - {p}) (B(p := None)) F M" by (rule forget_ok [OF ok]) (use p in auto)
  have "vacant rut (B(p := None)) p s"
    using d soup_memD(1) [OF ok] p(1) unfolding vacant_def separate_def by (auto simp: nat_neq_iff)
  moreover have "soup_mem rut (if u = 0 then insert p X else X - {p}) (B(p := None)) F M"
    using listed_insert [OF one, of p] one by (simp add: insert_absorb)
  ultimately show ?thesis using make_mem_ok [of rut _ "B(p := None)" F M p s u] M by simp
qed

lemma vacant_part:
  assumes "separate rut B" "B p = Some (s, u)" "p \<le> q" "q + t \<le> p + s" "5 \<le> t"
  shows "vacant rut (B(p := None)) q t"
proof -
  have "r + m \<le> q \<or> q + t \<le> r" if "B r = Some (m, v)" "r \<noteq> p" for r m v
  proof -
    have "r + m \<le> p \<or> p + s \<le> r" using assms(1,2) that unfolding separate_def by (meson nat_neq_iff)
    then show ?thesis using assms(3,4) by linarith
  qed
  then show ?thesis using separateD [OF assms(1,2)] assms(3-5) unfolding vacant_def by auto
qed

lemma split_st:
  assumes st: "heap_st ral rut hat {p} B F" and p: "B p = Some (s, 0)" and n: "5 \<le> n" "n + 6 < s"
  shows "\<exists>ral1 ral2 ral3 F'. rl_bloq_make (of_nat (p + n)) (of_nat (s - n)) 0 ral = Inr ral1 \<and> rl_bloq_attach (of_nat (p + n)) ral1 = Inr ral2 \<and>
    rl_bloq_make (of_nat p) (of_nat n) 1 ral2 = Inr ral3 \<and> heap_st ral3 rut hat {} (B(p \<mapsto> (n, 1), p + n \<mapsto> (s - n, 0))) F' \<and>
    frame ral3 = frame ral \<and> only (loose rut B) (vw ral) (vw ral3)"
proof -
  note sep = heap_stD(9) [OF st]
  let ?B = "B(p := None)" and ?L = "loose rut B"
  have none: "B (p + n) = None" by (rule box_inside [OF sep p]) (use n in simp_all)
  have "soup_mem rut ({p} - {p}) ?B F (vw ral)" by (rule forget_ok [OF heap_stD(7) [OF st]]) simp
  then have "soup_mem rut {p + n} ?B F (vw ral)" using listed_insert [of rut "{}" ?B F "vw ral" "p + n"] none n by simp
  moreover have "vacant rut ?B (p + n) (s - n)" by (rule vacant_part [OF sep p]) (use n in auto)
  ultimately obtain ral1 where r1: "rl_bloq_make (of_nat (p + n)) (of_nat (s - n)) 0 ral = Inr ral1" "soup_mem rut {p + n} (?B(p + n \<mapsto> (s - n, 0))) F (vw ral1)"
      "frame ral1 = frame ral" "only {p + n..<p + n + (s - n)} (vw ral) (vw ral1)"
    using make_st [of rut "{p + n}" ?B F ral "p + n" "s - n" 0] by auto
  have "rut_r ral1 = of_nat rut" using frameD(4) [OF r1(3)] heap_stD(1) [OF st] by simp
  then obtain ral2 F' where r2: "rl_bloq_attach (of_nat (p + n)) ral1 = Inr ral2" "soup_mem rut ({p + n} - {p + n}) (?B(p + n \<mapsto> (s - n, 0))) F' (vw ral2)"
      "frame ral2 = frame ral1" "only (loose rut (?B(p + n \<mapsto> (s - n, 0)))) (vw ral1) (vw ral2)"
    using attach_st [OF _ r1(2), of "p + n" "s - n"] by auto
  have "vacant rut (?B(p + n \<mapsto> (s - n, 0))) p n" using vacant_part [OF sep p, of p n] n by (auto simp: vacant_def)
  then obtain ral3 where r3: "rl_bloq_make (of_nat p) (of_nat n) 1 ral2 = Inr ral3" "soup_mem rut {} (?B(p + n \<mapsto> (s - n, 0), p \<mapsto> (n, 1))) F' (vw ral3)"
      "frame ral3 = frame ral2" "only {p..<p + n} (vw ral2) (vw ral3)"
    using make_st [of rut "{}" "?B(p + n \<mapsto> (s - n, 0))" F' ral2 p n 1] r2(2) by auto
  have B: "?B(p + n \<mapsto> (s - n, 0), p \<mapsto> (n, 1)) = B(p \<mapsto> (n, 1), p + n \<mapsto> (s - n, 0))" using n by (auto simp: fun_upd_def)
  have fr: "frame ral3 = frame ral" using r1(3) r2(3) r3(3) by simp
  have box: "{p..<p + s} \<subseteq> ?L" using free_box_loose [of B p s rut] p by blast
  have sub: "{p + n..<p + n + (s - n)} \<subseteq> {p..<p + s}" "{p..<p + n} \<subseteq> {p..<p + s}" using n by auto
  have "loose rut (?B(p + n \<mapsto> (s - n, 0))) \<subseteq> ?L"
  proof (rule loose_mono)
    fix q t a assume q: "(?B(p + n \<mapsto> (s - n, 0))) q = Some (t, 0)" "q \<le> a" "a < q + t"
    then show "a \<in> ?L" using box n loose_in [of B q t a] by (auto split: if_splits)
  qed
  then have "only ?L (vw ral) (vw ral3)"
    using only_mono [OF r1(4), of ?L] only_mono [OF r2(4), of ?L] only_mono [OF r3(4), of ?L] box n only_trans by (metis (no_types, lifting) subset_trans sub)
  moreover have "heap_st ral3 rut hat {} (B(p \<mapsto> (n, 1), p + n \<mapsto> (s - n, 0))) F'"
    by (rule heap_st_step [OF st fr]) (use r3(2) B tiled_split [OF heap_stD(8) [OF st] sep p, of n] n in auto)
  ultimately show ?thesis using r1(1) r2(1) r3(1) fr by blast
qed

text \<open>The result of an allocation: a new box in use, all others in use as they were.\<close>

definition allots :: "nat \<Rightarrow> nat \<Rightarrow> boxes \<Rightarrow> u2_loom_rail \<Rightarrow> u2_ray \<Rightarrow> u2_loom_rail \<Rightarrow> bool" where
  "allots rut n B ral r ral' \<longleftrightarrow>
     (\<exists>p s hat' B' F'. r = of_nat (p + 2) \<and> heap_st ral' rut hat' {} B' F' \<and> n \<le> s \<and> live B p = None \<and> B' p = Some (s, 1) \<and> live B' = (live B)(p \<mapsto> (s, 1)) \<and>
        only (loose rut B \<union> {p..<p + s}) (vw ral) (vw ral') \<and> cap_r ral' = cap_r ral \<and> mat_r ral' = mat_r ral \<and> hat_r ral' \<in> {hat_r ral, hat_r ral + of_nat n})"

lemma allotsI:
  assumes "r = of_nat (p + 2)" "heap_st ral' rut hat' {} B' F'" "n \<le> s" "live B p = None" "B' p = Some (s, 1)" "live B' = (live B)(p \<mapsto> (s, 1))"
    "only (loose rut B \<union> {p..<p + s}) (vw ral) (vw ral')" "cap_r ral' = cap_r ral" "mat_r ral' = mat_r ral" "hat_r ral' \<in> {hat_r ral, hat_r ral + of_nat n}"
  shows "allots rut n B ral r ral'"
  using assms unfolding allots_def by blast

lemma take_ok:
  assumes st: "heap_st ral rut hat {} B F" and F: "F i = ys @ p # zs" and p: "B p = Some (s, 0)" and n: "5 \<le> n" "n \<le> s"
  shows "\<exists>r ral'. rl_bloq_take (of_nat n) (of_nat (if ys = [] then rut + i else last ys + 3)) (of_nat p) ral = Inr (r, ral') \<and> allots rut n B ral r ral'"
proof -
  let ?L = "loose rut B"
  define pfr :: u2_ray where "pfr = of_nat (if ys = [] then rut + i else last ys + 3)"
  note u = unlink_vw [OF heap_stD(1,7) [OF st] F, folded pfr_def] and m = unlink_mem_ok [OF heap_stD(7) [OF st] F]
  define ral1 where "ral1 = (if u2_rail_hut_nex ral (of_nat p) \<noteq> 0 then loom_put (u2_rail_hut_nex ral (of_nat p) + 2) (u2_rail_hut_pre ral (of_nat p))
      (loom_put pfr (u2_rail_hut_nex ral (of_nat p)) ral)
    else loom_put pfr (u2_rail_hut_nex ral (of_nat p)) ral)"
  have v1: "vw ral1 = unlink_mem rut i ys zs (vw ral)" using u(2) by (simp add: ral1_def)
  have f1: "frame ral1 = frame ral" by (simp add: ral1_def)
  have st1: "heap_st ral1 rut hat {p} B (F(i := ys @ zs))" by (rule heap_st_step [OF st f1]) (use m(1) v1 heap_stD(8) [OF st] in auto)
  have o1: "only ?L (vw ral) (vw ral1)" using m(2) v1 by (simp add: only_def)
  note w = box_word [OF st1 p]
  have take: "rl_bloq_take (of_nat n) pfr (of_nat p) ral =
      rbind (if of_nat n + 6 < (of_nat s :: c3_w) then
          rbind (rl_bloq_make (of_nat p + of_nat n) (of_nat s - of_nat n) 0 ral1) (\<lambda>ral. rbind (rl_bloq_attach (of_nat p + of_nat n) ral) (\<lambda>ral.
          rbind (rl_bloq_make (of_nat p) (of_nat n) 1 ral) (\<lambda>ral. Inr (rl_live_grab (of_nat n) ral))))
        else let ral = loom_put (of_nat p + 1) 1 ral1 in Inr (rl_live_grab (u2_rail_box_siz ral (of_nat p)) ral)) (\<lambda>ral. Inr (of_nat p + 2, ral))"
    using u(1) w(1,2) unfolding rl_bloq_take_def Let_def ral1_def [symmetric] by auto
  have lt: "of_nat n + 6 < (of_nat s :: c3_w) \<longleftrightarrow> n + 6 < s" using of_nat_ray_less [of "n + 6" s] w(3) n(2) separateD(3) [OF heap_stD(9) [OF st] p] by simp
  have box: "{p..<p + s} \<subseteq> ?L" using free_box_loose [of B p s rut] p by blast
  have "\<exists>r ral'. rl_bloq_take (of_nat n) pfr (of_nat p) ral = Inr (r, ral') \<and> allots rut n B ral r ral'"
  proof (cases "n + 6 < s")
    case True
    obtain ral2 ral3 ral4 F' where r: "rl_bloq_make (of_nat (p + n)) (of_nat (s - n)) 0 ral1 = Inr ral2" "rl_bloq_attach (of_nat (p + n)) ral2 = Inr ral3"
        "rl_bloq_make (of_nat p) (of_nat n) 1 ral3 = Inr ral4" "heap_st ral4 rut hat {} (B(p \<mapsto> (n, 1), p + n \<mapsto> (s - n, 0))) F'"
        "frame ral4 = frame ral1" "only ?L (vw ral1) (vw ral4)"
      using split_st [OF st1 p n(1) True] by blast
    let ?ral = "rl_live_grab (of_nat n) ral4" and ?B = "B(p \<mapsto> (n, 1), p + n \<mapsto> (s - n, 0))"
    note g = live_grab_vw [OF r(4), of "of_nat n"]
    have none: "B (p + n) = None" by (rule box_inside [OF heap_stD(9) [OF st] p]) (use n True in simp_all)
    have "live ?B = (live B)(p \<mapsto> (n, 1))" using none n by (auto simp: live_upd live_def)
    moreover have "live B p = None" "?B p = Some (n, 1)" using p n by (simp_all add: live_def)
    moreover have "loose rut ?B \<subseteq> ?L"
      by (rule loose_mono) (use box loose_in [of B] True in \<open>auto split: if_splits\<close>)
    moreover have "rl_bloq_take (of_nat n) pfr (of_nat p) ral = Inr (of_nat (p + 2), ?ral)"
    proof -
      have "of_nat p + of_nat n = (of_nat (p + n) :: c3_w)" "of_nat s - of_nat n = (of_nat (s - n) :: c3_w)" using n by (simp_all add: of_nat_diff)
      then show ?thesis unfolding take lt using True r(1-3) by (simp only: if_True rbind_Inr ray_add(2))
    qed
    moreover have "only ?L (vw ral) (vw ?ral)" if "loose rut ?B \<subseteq> ?L" by (rule only_trans [OF o1 only_trans [OF r(6) only_mono [OF g(2) that]]])
    moreover have "frame ?ral = frame ral" using g(3) r(5) f1 by simp
    ultimately have "rl_bloq_take (of_nat n) pfr (of_nat p) ral = Inr (of_nat (p + 2), ?ral)" "allots rut n B ral (of_nat (p + 2)) ?ral"
      using n by (blast, intro allotsI [of _ p ?ral rut hat ?B F' n n]) (auto simp: frame_def only_def g(1))
    then show ?thesis by blast
  next
    case False
    let ?ral = "loom_put (of_nat p + 1) 1 ral1" and ?B = "B(p \<mapsto> (s, 1))"
    have v2: "vw ?ral = (vw ral1)(p + 1 := 1)" using vw_put [of "p + 1"] w(3,4) by (simp add: add.commute)
    have st2: "heap_st ?ral rut hat {} ?B (F(i := ys @ zs))"
      by (rule heap_st_step [OF st1]) (use reuse_ok [OF heap_stD(7) [OF st1] p, of 1] v2 tiled_use [OF heap_stD(8) [OF st] p] in auto)
    let ?ral' = "rl_live_grab (u2_rail_box_siz ?ral (of_nat p)) ?ral"
    note g = live_grab_vw [OF st2, of "u2_rail_box_siz ?ral (of_nat p)"]
    have "live ?B = (live B)(p \<mapsto> (s, 1))" by (simp add: live_upd)
    moreover have "live B p = None" "?B p = Some (s, 1)" using p by (simp_all add: live_def)
    moreover have "loose rut ?B \<subseteq> ?L" by (rule loose_mono) (use loose_in [of B] in \<open>auto split: if_splits\<close>)
    moreover have "rl_bloq_take (of_nat n) pfr (of_nat p) ral = Inr (of_nat (p + 2), ?ral')" unfolding take lt using False by (simp add: Let_def)
    moreover have "p + 1 \<in> ?L" using box w(4) by auto
    then have "only ?L (vw ral1) (vw ?ral)" using v2 by (auto simp: only_def)
    moreover have "frame ?ral' = frame ral" using g(3) f1 by simp
    moreover have "only ?L (vw ral) (vw ?ral')" if "only ?L (vw ral1) (vw ?ral)" "loose rut ?B \<subseteq> ?L" by (rule only_trans [OF o1 only_trans [OF that(1) only_mono [OF g(2) that(2)]]])
    ultimately have "rl_bloq_take (of_nat n) pfr (of_nat p) ral = Inr (of_nat (p + 2), ?ral')" "allots rut n B ral (of_nat (p + 2)) ?ral'"
      using n by (blast, intro allotsI [of _ p ?ral' rut hat ?B "F(i := ys @ zs)" n s]) (auto simp: frame_def only_def g(1))
    then show ?thesis by blast
  qed
  then show ?thesis by (simp only: pfr_def)
qed

lemma ray_b_nat: "unat (u2_ray_b (of_nat h)) = h mod 2 ^ 27" if "h < 2 ^ 32"
proof -
  have "HalfSize - 1 = (mask 27 :: c3_w)" by (simp add: HalfSize_def mask_eq_exp_minus_1)
  then show ?thesis using that by (simp add: u2_ray_b_def take_bit_eq_mask [symmetric] take_bit_eq_mod unat_mod unat_of_nat)
qed

definition room :: "u2_loom_rail \<Rightarrow> nat \<Rightarrow> bool" where
  "room ral n \<longleftrightarrow> n + unat (u2_ray_b (hat_r ral)) + unat (u2_ray_b (cap_r ral)) < 2 ^ 27"

lemma open_room:
  assumes "n < 2 ^ 28" "\<not> ops_mem ral"
  shows "u2_rl_open ral (of_nat n) \<longleftrightarrow> room ral n"
proof -
  have b: "unat (u2_ray_b r) < 2 ^ 27" for r
  proof -
    have "unat r < 2 ^ LENGTH(32)" by (rule unsigned_less)
    then show ?thesis using ray_b_nat [of "unat r"] by simp
  qed
  have "unat (of_nat n + u2_ray_b (hat_r ral) + u2_ray_b (cap_r ral)) = n + unat (u2_ray_b (hat_r ral)) + unat (u2_ray_b (cap_r ral))"
    using assms(1) b [of "hat_r ral"] b [of "cap_r ral"] by (simp add: unat_word_ariths unat_of_nat)
  moreover have "unat HalfSize = 2 ^ 27" by (simp add: HalfSize_def)
  ultimately show ?thesis using assms(2) by (simp add: u2_rl_open_def room_def word_le_nat_alt linorder_not_le [symmetric])
qed

lemma chip_ok:
  assumes st: "heap_st ral rut hat {} B F" and n: "5 \<le> n" "n < 2 ^ 28"
  shows "if room ral n then \<exists>r ral'. rl_bloq_chip (of_nat n) ral = Inr (r, ral') \<and> allots rut n B ral r ral' else rl_bloq_chip (of_nat n) ral = Inl Abort"
proof (cases "room ral n")
  case False
  then show ?thesis using open_room [OF n(2) heap_stD(4) [OF st]] by (simp add: rl_bloq_chip_def)
next
  case True
  note sep = heap_stD(9) [OF st] and t = heap_stD(8) [OF st]
  let ?B = "B(hat \<mapsto> (n, 1))" and ?ral = "ral\<lparr>hat_r := of_nat (hat + n)\<rparr>"
  have hat: "n + hat mod 2 ^ 27 < 2 ^ 27" using True heap_stD(2,5) [OF st] ray_b_nat [of hat] by (simp add: room_def)
  define H where "H = hat div 2 ^ 27"
  have H: "hat = 2 ^ 27 * H + hat mod 2 ^ 27" "H < 2" using heap_stD(5) [OF st] by (simp_all add: H_def less_mult_imp_div_less)
  then have top: "hat + n < 2 ^ 27 * Suc H" using hat by simp
  moreover have "2 ^ 27 * H \<le> hat + n" using H(1) by linarith
  ultimately have quo: "(hat + n) div 2 ^ 27 = rut div 2 ^ 27" using heap_stD(6) [OF st] by (simp add: div_nat_eqI H_def)
  have "H = 0 \<or> H = 1" using H(2) by auto
  then have low: "hat + n < 2 ^ 28" using top by auto
  have none: "B hat = None"
  proof (cases "B hat")
    case (Some x)
    then show ?thesis using tiledD(1) [OF t, of hat "fst x" "snd x"] separate_pos [OF sep, of hat "fst x" "snd x"] by (cases x) simp
  qed simp
  have beg: "rut + 32 \<le> hat" using t by (simp add: tiled_def)
  have "q + m \<le> hat" if "B q = Some (m, v)" for q m v by (rule tiledD(1) [OF t that])
  then have "vacant rut B hat n" using beg low n(1) unfolding vacant_def by auto
  moreover have vw: "vw ?ral = vw ral" by (intro ext) (simp add: vw_def)
  ultimately obtain ral' where r: "rl_bloq_make (of_nat hat) (of_nat n) 1 ?ral = Inr ral'" "soup_mem rut {} ?B F (vw ral')" "frame ral' = frame ?ral"
      "only {hat..<hat + n} (vw ?ral) (vw ral')"
    using make_st [of rut "{}" B F ?ral hat n 1] heap_stD(7) [OF st] by auto
  have st': "heap_st ral' rut (hat + n) {} ?B F"
    using heap_stD [OF st] frameD [OF r(3)] r(2) low quo tiled_chip [OF t none, of n 1] by (simp add: heap_st_def)
  note g = live_grab_vw [OF st', of "of_nat n"]
  have "rl_bloq_chip (of_nat n) ral = Inr (of_nat (hat + 2), rl_live_grab (of_nat n) ral')"
    using True open_room [OF n(2) heap_stD(4) [OF st]] r(1) heap_stD(2) [OF st] by (simp add: rl_bloq_chip_def)
  moreover have "allots rut n B ral (of_nat (hat + 2)) (rl_live_grab (of_nat n) ral')"
  proof (rule allotsI [OF refl g(1), of n n])
    show "live B hat = None" "live ?B = (live B)(hat \<mapsto> (n, 1))" using none by (auto simp: live_def live_upd)
    have "loose rut ?B \<subseteq> loose rut B" by (rule loose_mono) (use loose_in [of B] in \<open>auto split: if_splits\<close>)
    then show "only (loose rut B \<union> {hat..<hat + n}) (vw ral) (vw (rl_live_grab (of_nat n) ral'))" using g(2) r(4) vw by (auto simp: only_def)
    show "cap_r (rl_live_grab (of_nat n) ral') = cap_r ral" "mat_r (rl_live_grab (of_nat n) ral') = mat_r ral"
      using frameD(1,3) [OF g(3)] frameD(1,3) [OF r(3)] by simp_all
    show "hat_r (rl_live_grab (of_nat n) ral') \<in> {hat_r ral, hat_r ral + of_nat n}" using frameD(2) [OF g(3)] frameD(2) [OF r(3)] heap_stD(2) [OF st] by simp
  qed simp_all
  ultimately show ?thesis using True by auto
qed

text \<open>The search ends: at a box that is large enough, or at the hat.\<close>

definition found :: "nat \<Rightarrow> nat \<Rightarrow> boxes \<Rightarrow> (nat \<Rightarrow> nat list) \<Rightarrow> u2_loom_rail \<Rightarrow> (u2_ray \<times> u2_loom_rail) res \<Rightarrow> bool" where
  "found rut n B F ral r \<longleftrightarrow>
     r = rl_bloq_chip (of_nat n) ral \<or>
     (\<exists>i ys p zs s. F i = ys @ p # zs \<and> B p = Some (s, 0) \<and> n \<le> s \<and>
        r = rl_bloq_take (of_nat n) (of_nat (if ys = [] then rut + i else last ys + 3)) (of_nat p) ral)"

lemma search_list:
  assumes st: "heap_st ral rut hat {} B F" and n: "n < 2 ^ 28" and i: "i < 28"
    and next_list: "\<exists>r. (if i < 27 then grab_loop (of_nat n) (i + 1) (of_nat rut + of_nat (i + 1)) ral else Some (rl_bloq_chip (of_nat n) ral)) = Some r \<and> found rut n B F ral r"
  shows "F i = ys @ zs \<Longrightarrow> \<exists>r. grab_loop (of_nat n) i (of_nat (if ys = [] then rut + i else last ys + 3)) ral = Some r \<and> found rut n B F ral r"
proof (induction zs arbitrary: ys)
  case Nil
  note h = soup_memD(4) [OF heap_stD(7) [OF st]]
  have "vw ral (if ys = [] then rut + i else last ys + 3) = 0"
    using threadedD [OF h i] Nil by (cases ys rule: rev_cases) (auto simp: linked_append)
  moreover have "(if ys = [] then rut + i else last ys + 3) < 2 ^ 32"
  proof (cases ys rule: rev_cases)
    case Nil
    then show ?thesis using heap_stD(5,8) [OF st] i by (simp add: tiled_def)
  next
    case (snoc us y)
    then show ?thesis using hut_links(7) [OF heap_stD(7) [OF st], of i us y "[]"] Nil by simp
  qed
  ultimately have "loom ral (of_nat (if ys = [] then rut + i else last ys + 3)) = 0" using loom_vw by metis
  then show ?case using next_list heap_stD(1) [OF st]
    by (subst grab_loop.simps) (cases "i < 27"; simp add: u2_soup_free_no_def Let_def)
next
  case (Cons p zs)
  note h = hut_links [OF heap_stD(7) [OF st] Cons.prems]
  obtain s where s: "B p = Some (s, 0)" using listedD(2) [OF soup_memD(3) [OF heap_stD(7) [OF st]], of p i] Cons.prems by auto
  note w = box_word [OF st s]
  let ?pfr = "if ys = [] then rut + i else last ys + 3"
  have "p \<noteq> 0" using separateD(1) [OF heap_stD(9) [OF st] s] by simp
  moreover have "?pfr < 2 ^ 32" using h(5,8) by (auto simp: final_def split: if_splits)
  then have "loom ral (of_nat ?pfr) = of_nat p" using h(11) loom_vw by metis
  ultimately have here: "loom ral (of_nat ?pfr) = of_nat p" "(of_nat p :: c3_w) \<noteq> 0" using of_nat_ray_0 [of p] h(7) by simp_all
  have less: "(of_nat s :: c3_w) < of_nat n \<longleftrightarrow> s < n" using of_nat_ray_less [of s n] w(3) n by simp
  show ?case
  proof (cases "s < n")
    case True
    have "grab_loop (of_nat n) i (of_nat ?pfr) ral = grab_loop (of_nat n) i (of_nat (p + 3)) ral"
      by (subst grab_loop.simps) (use here w(1) less True in \<open>simp add: Let_def\<close>)
    then show ?thesis using Cons.IH [of "ys @ [p]"] Cons.prems by simp
  next
    case False
    have "grab_loop (of_nat n) i (of_nat ?pfr) ral = Some (rl_bloq_take (of_nat n) (of_nat ?pfr) (of_nat p) ral)"
      by (subst grab_loop.simps) (use here w(1) less False in \<open>simp add: Let_def\<close>)
    moreover have "found rut n B F ral (rl_bloq_take (of_nat n) (of_nat ?pfr) (of_nat p) ral)"
      using Cons.prems s False unfolding found_def by (intro disjI2) (metis not_less)
    ultimately show ?thesis by blast
  qed
qed

lemma search_lists:
  assumes st: "heap_st ral rut hat {} B F" and n: "n < 2 ^ 28" and i: "i < 28"
  shows "\<exists>r. grab_loop (of_nat n) i (of_nat rut + of_nat i) ral = Some r \<and> found rut n B F ral r"
  using i
proof (induction "27 - i" arbitrary: i)
  case 0
  then show ?case using search_list [OF st n, of i "[]" "F i"] by (simp add: found_def)
next
  case (Suc k)
  then have "\<exists>r. grab_loop (of_nat n) (i + 1) (of_nat rut + of_nat (i + 1)) ral = Some r \<and> found rut n B F ral r" by (intro Suc.hyps(1)) simp_all
  moreover have "i < 27" using Suc.hyps(2) by simp
  ultimately show ?case using search_list [OF st n Suc.prems, of "[]" "F i"] by simp
qed

text \<open>
  An allocation of \<open>len\<close> words returns; it gives a box, or there is no room for one on the hat.
\<close>

lemma grab_ok:
  assumes st: "heap_st ral rut hat {} B F" and len: "2 \<le> unat len" "unat len + 3 < 2 ^ 28"
  shows "(\<exists>r ral'. rl_bloq_grab len ral = Some (Inr (r, ral')) \<and> allots rut (unat len + 3) B ral r ral') \<or>
    rl_bloq_grab len ral = Some (Inl Abort) \<and> \<not> room ral (unat len + 3)"
proof -
  let ?n = "unat len + 3" and ?i = "rl_free_select (len + 2 + 1)"
  define j where "j = (if ?i \<noteq> 0 \<and> ?i \<noteq> 27 then ?i + 1 else ?i)"
  have j: "j < 28" using select_less [of "len + 2 + 1"] by (auto simp: j_def)
  have siz: "len + 2 + 1 = of_nat ?n" by simp
  have "c3__rock_w \<noteq> c3__sand_w" by (simp add: c3__rock_w_def c3__sand_w_def c3_s4_def)
  then have "rl_bloq_grab len ral = grab_loop (of_nat ?n) j (of_nat rut + of_nat j) ral"
    using heap_stD(1,3) [OF st] by (simp add: rl_bloq_grab_def u2_soup_free_no_def Let_def j_def siz)
  then obtain r where r: "rl_bloq_grab len ral = Some r" "found rut ?n B F ral r" using search_lists [OF st len(2) j] by auto
  have five: "5 \<le> ?n" using len(1) by simp
  show ?thesis using r(2) unfolding found_def
  proof (elim disjE exE conjE)
    assume "r = rl_bloq_chip (of_nat ?n) ral"
    then show ?thesis using r(1) chip_ok [OF st five len(2)] by (cases "room ral ?n") auto
  next
    fix i ys p zs s assume "F i = ys @ p # zs" "B p = Some (s, 0)" "?n \<le> s"
      "r = rl_bloq_take (of_nat ?n) (of_nat (if ys = [] then rut + i else last ys + 3)) (of_nat p) ral"
    then show ?thesis using r(1) take_ok [OF st _ _ five] by metis
  qed
qed

end
