(* ===== verification/Soup_Free.thy ===== *)
theory Soup_Free
  imports Soup_Heap
begin

text \<open>
  The release of a box: it is cleared, joined with the free boxes beside it, and put on a free list or given back to the hat.
\<close>

section \<open>The box\<close>

lemma clear_vw:
  assumes "e < 2 ^ 32" "b + 1 < 2 ^ 32"
  shows "vw (bloq_clear (of_nat b) (of_nat e) ral) = (\<lambda>q. if b \<le> q \<and> q + 1 < e then 0xdeadbeef else vw ral q) \<and> frame (bloq_clear (of_nat b) (of_nat e) ral) = frame ral"
  using assms(2)
proof (induction "e - b" arbitrary: b ral rule: less_induct)
  case less
  show ?case
  proof (cases "b + 1 < e")
    case True
    then have "of_nat b + 1 < (of_nat e :: c3_w)" using of_nat_ray_less [of "b + 1" e] assms(1) by (simp add: add.commute)
    then have "bloq_clear (of_nat b) (of_nat e) ral = bloq_clear (of_nat (b + 1)) (of_nat e) (loom_put (of_nat b) 0xdeadbeef ral)"
      by (subst bloq_clear.simps) (simp add: add.commute)
    moreover have "vw (loom_put (of_nat b) 0xdeadbeef ral) = (vw ral)(b := 0xdeadbeef)" by (rule vw_put) (use less.prems in simp)
    ultimately show ?thesis using less.hyps [of "b + 1" "loom_put (of_nat b) 0xdeadbeef ral"] True assms(1) by (auto simp: fun_eq_iff)
  next
    case False
    then have "\<not> of_nat b + 1 < (of_nat e :: c3_w)"
      using of_nat_ray_less [of "b + 1" e] assms(1) less.prems by (simp add: add.commute)
    then have "bloq_clear (of_nat b) (of_nat e) ral = ral" by (subst bloq_clear.simps) simp
    then show ?thesis using False by (auto simp: fun_eq_iff)
  qed
qed

lemma clear_ok:
  assumes ok: "soup_mem rut X B F M" and p: "B p = Some (s, v)" "p \<in> X \<or> v \<noteq> 0" and M': "only {p + 2..<p + s - 1} M M'"
  shows "soup_mem rut X B F M'"
proof -
  note sep = soup_memD(1) [OF ok] and thr = threadedD [OF soup_memD(4) [OF ok]] and lst = listedD [OF soup_memD(3) [OF ok]] and d = separateD [OF soup_memD(1) [OF ok] p(1)]
  have other: "M' (q + k) = M (q + k)" if q: "B q = Some (t, w)" "q \<noteq> p" "k < t" for q t w k
  proof -
    have "p + (q + k - p) \<noteq> q + k" if "q + k \<in> {p + 2..<p + s - 1}" by (rule apart [OF sep p(1) q(1)]) (use q(2,3) that in auto)
    then have "q + k \<notin> {p + 2..<p + s - 1}" by auto
    then show ?thesis using M' by (simp add: only_def)
  qed
  have "boxed M' B" unfolding boxed_def
  proof (intro allI impI)
    fix q t w assume q: "B q = Some (t, w)"
    note b = boxedD [OF soup_memD(2) [OF ok] q]
    have "5 \<le> t" by (rule separateD(2) [OF sep q])
    then show "M' q = of_nat t \<and> M' (q + 1) = w \<and> M' (q + t - 1) = of_nat t"
      using other [OF q, of 0] other [OF q, of 1] other [OF q, of "t - 1"] b M' p q by (cases "q = p") (auto simp: only_def)
  qed
  moreover have "threaded rut M' F" unfolding threaded_def
  proof (intro allI impI conjI)
    fix i :: nat assume i: "i < 28"
    have "rut + i \<notin> {p + 2..<p + s - 1}" using d(1) i by simp
    then show "M' (rut + i) = of_nat (first (F i))" using thr(1) [OF i] M' by (simp add: only_def)
    have "linked M' 0 (F i) 0 = linked M 0 (F i) 0"
    proof (rule linked_cong)
      fix q assume "q \<in> set (F i)"
      then obtain t where t: "B q = Some (t, 0)" "q \<noteq> p" using lst(2) p by fastforce
      then show "M' (q + 2) = M (q + 2) \<and> M' (q + 3) = M (q + 3)" using other [OF t, of 2] other [OF t, of 3] separateD(2) [OF sep t(1)] by simp
    qed
    then show "linked M' 0 (F i) 0" using thr(2) [OF i] by simp
  qed
  ultimately show ?thesis using sep soup_memD(3) [OF ok] by (simp add: soup_mem_def)
qed

lemma ray_a_nat: "unat (u2_ray_a (of_nat p)) = p div 2 ^ 27" if "p < 2 ^ 32"
  using that by (simp add: u2_ray_a_def drop_bit_eq_div unat_div unat_of_nat)

section \<open>Joining\<close>

text \<open>Two boxes beside each other that are not listed become one.\<close>

lemma pair_loose:
  assumes "B q = Some (t, 0)" "B (q + t) = Some (s, 0)"
  shows "{q..<q + (t + s)} \<subseteq> loose rut B"
proof
  fix a assume "a \<in> {q..<q + (t + s)}"
  then show "a \<in> loose rut B" using loose_in [of B q t a rut] loose_in [of B "q + t" s a rut] assms by (cases "a < q + t") auto
qed

lemma join_st:
  assumes st: "heap_st ral rut hat {q, q + t} B F" and q: "B q = Some (t, 0)" and p: "B (q + t) = Some (s, 0)"
  shows "\<exists>ral'. rl_bloq_make (of_nat q) (of_nat (t + s)) 0 ral = Inr ral' \<and> heap_st ral' rut hat {q} (B(q + t := None, q \<mapsto> (t + s, 0))) F \<and>
    frame ral' = frame ral \<and> only (loose rut B) (vw ral) (vw ral')"
proof -
  note sep = heap_stD(9) [OF st]
  have pos: "5 \<le> t" "5 \<le> s" "q + t + s \<le> 2 ^ 28" "rut + 32 \<le> q" using separateD [OF sep q] separateD [OF sep p] by auto
  let ?B = "B(q + t := None)" and ?C = "B(q + t := None, q := None)"
  have "soup_mem rut {q} ?B F (vw ral)" using forget_ok [OF heap_stD(7) [OF st], of "q + t"] pos(1) by (simp add: insert_Diff_if)
  then have "soup_mem rut {} ?C F (vw ral)" using forget_ok [of rut "{q}" ?B F "vw ral" q] by simp
  then have one: "soup_mem rut {q} ?C F (vw ral)" using listed_insert [of rut "{}" ?C F "vw ral" q] by simp
  have "r + m \<le> q \<or> q + (t + s) \<le> r" if r: "B r = Some (m, v)" "r \<noteq> q" "r \<noteq> q + t" for r m v
  proof -
    have "r + m \<le> q \<or> q + t \<le> r" "r + m \<le> q + t \<or> q + t + s \<le> r" using sep q p r unfolding separate_def by (meson nat_neq_iff)+
    then show ?thesis using r(3) separateD(2) [OF sep r(1)] by linarith
  qed
  then have "vacant rut ?C q (t + s)" using pos unfolding vacant_def by (auto split: if_splits)
  then obtain ral' where r: "rl_bloq_make (of_nat q) (of_nat (t + s)) 0 ral = Inr ral'" "soup_mem rut {q} (?C(q \<mapsto> (t + s, 0))) F (vw ral')"
      "frame ral' = frame ral" "only {q..<q + (t + s)} (vw ral) (vw ral')"
    using make_st [OF one, of q "t + s" 0] by auto
  have "tiled (rut + 32) hat (B(q + t := None, q \<mapsto> (t + s, 0)))" by (rule tiled_join [OF heap_stD(8) [OF st] sep q p pos(4)])
  then have "heap_st ral' rut hat {q} (B(q + t := None, q \<mapsto> (t + s, 0))) F" using heap_st_step [OF st r(3)] r(2) by simp
  moreover have "{q..<q + (t + s)} \<subseteq> loose rut B" by (rule pair_loose [of B, OF q p])
  ultimately show ?thesis using r only_mono by blast
qed

lemma join_loose:
  assumes "B q = Some (t, 0)" "B (q + t) = Some (s, 0)"
  shows "loose rut (B(q + t := None, q \<mapsto> (t + s, 0))) \<subseteq> loose rut B" "live (B(q + t := None, q \<mapsto> (t + s, 0))) = live B"
proof -
  show "loose rut (B(q + t := None, q \<mapsto> (t + s, 0))) \<subseteq> loose rut B"
  proof (rule loose_mono)
    fix r m a assume r: "(B(q + t := None, q \<mapsto> (t + s, 0))) r = Some (m, 0)" "r \<le> a" "a < r + m"
    then show "a \<in> loose rut B"
      using pair_loose [of B q t s rut] assms loose_in [of B r m a rut] by (cases "r = q") (auto split: if_splits)
  qed
  show "live (B(q + t := None, q \<mapsto> (t + s, 0))) = live B" using assms by (auto simp: live_upd live_def fun_eq_iff)
qed

lemma prev_ok:
  assumes st: "heap_st ral rut hat {p} B F" and p: "B p = Some (s, 0)"
  shows "\<exists>b n ral' B' F'. bloq_join_prev (of_nat p) ral = Inr (of_nat b, ral') \<and> heap_st ral' rut hat {b} B' F' \<and> B' b = Some (n, 0) \<and> live B' = live B \<and>
    loose rut B' \<subseteq> loose rut B \<and> only (loose rut B) (vw ral) (vw ral') \<and> frame ral' = frame ral"
proof (cases "p = rut + 32")
  case True
  then have "bloq_join_prev (of_nat p) ral = Inr (of_nat p, ral)" using heap_stD(1) [OF st] by (simp add: bloq_join_prev_def)
  then show ?thesis using st p by (intro exI conjI) auto
next
  case False
  note sep = heap_stD(9) [OF st] and t = heap_stD(8) [OF st] and w = box_word [OF st p]
  have hi: "p + s \<le> hat" "rut + 32 \<le> p" by (rule tiledD(1) [OF t p], rule separateD(1) [OF sep p])
  then obtain q m v where q: "B q = Some (m, v)" "p = q + m" using tiledD(3) [OF t p] False w(4) by auto
  have qp: "q \<noteq> p" "5 \<le> m" using separateD(2) [OF sep q(1)] q(2) by auto
  note wq = box_word [OF st q(1)]
  have las: "loom ral (of_nat p - 1) = of_nat m"
  proof -
    have "of_nat p - (1 :: c3_w) = of_nat (p - 1)" using hi(2) by (simp add: of_nat_diff)
    then show ?thesis using boxedD(3) [OF soup_memD(2) [OF heap_stD(7) [OF st]] q(1)] q(2) loom_vw [of "p - 1" ral] w(3) by simp
  qed
  have tod: "of_nat p - of_nat m = (of_nat q :: c3_w)" using q(2) by simp
  have beg: "of_nat p \<noteq> (of_nat rut + 32 :: c3_w)" using of_nat_ray_eq [of p "rut + 32"] False w(3) hi(2) by simp
  show ?thesis
  proof (cases "v = 0")
    case False
    then have "bloq_join_prev (of_nat p) ral = Inr (of_nat p, ral)" using heap_stD(1) [OF st] beg wq(2) by (simp add: bloq_join_prev_def las tod)
    then show ?thesis using st p by (intro exI conjI) auto
  next
    case True
    obtain F1 where d: "soup_mem rut {q, p} B F1 (vw (rl_bloq_detach (of_nat q) ral))" "frame (rl_bloq_detach (of_nat q) ral) = frame ral"
        "only (loose rut B) (vw ral) (vw (rl_bloq_detach (of_nat q) ral))"
      using detach_st [OF heap_stD(1,7) [OF st], of q m] q(1) True qp(1) by auto
    have st1: "heap_st (rl_bloq_detach (of_nat q) ral) rut hat {q, q + m} B F1" using heap_st_step [OF st d(2) d(1) t] q(2) by simp
    obtain ral' where r: "rl_bloq_make (of_nat q) (of_nat (m + s)) 0 (rl_bloq_detach (of_nat q) ral) = Inr ral'"
        "heap_st ral' rut hat {q} (B(q + m := None, q \<mapsto> (m + s, 0))) F1" "frame ral' = frame (rl_bloq_detach (of_nat q) ral)"
        "only (loose rut B) (vw (rl_bloq_detach (of_nat q) ral)) (vw ral')"
      using join_st [OF st1] q True p by auto
    have "u2_rail_box_siz (rl_bloq_detach (of_nat q) ral) (of_nat p) = of_nat s" by (rule box_word(1) [OF st1 p])
    then have "bloq_join_prev (of_nat p) ral = Inr (of_nat q, ral')"
      using heap_stD(1) [OF st] beg wq(2) True r(1) by (simp add: bloq_join_prev_def las tod Let_def)
    moreover have "frame ral' = frame ral" using r(3) d(2) by simp
    moreover have "only (loose rut B) (vw ral) (vw ral')" by (rule only_trans [OF d(3) r(4)])
    ultimately show ?thesis using r(2) join_loose(1) [of B q m s rut] join_loose(2) [of B q m s] q True p
      by (intro exI [of _ q] exI [of _ "m + s"] exI [of _ ral'] exI [of _ "B(q + m := None, q \<mapsto> (m + s, 0))"] exI [of _ F1]) simp
  qed
qed

lemma hat_back:
  assumes st: "heap_st ral rut hat {b} B F" and b: "B b = Some (n, 0)" "b + n = hat"
  shows "heap_st (ral\<lparr>hat_r := of_nat b\<rparr>) rut b {} (B(b := None)) F"
proof -
  have lo: "rut + 32 \<le> b" by (rule separateD(1) [OF heap_stD(9) [OF st] b(1)])
  have "b div 2 ^ 27 = rut div 2 ^ 27"
  proof (rule antisym)
    show "b div 2 ^ 27 \<le> rut div 2 ^ 27" using div_le_mono [of b hat "2 ^ 27"] b(2) heap_stD(6) [OF st] by simp
    show "rut div 2 ^ 27 \<le> b div 2 ^ 27" by (rule div_le_mono) (use lo in simp)
  qed
  moreover have "soup_mem rut {} (B(b := None)) F (vw ral)" using forget_ok [OF heap_stD(7) [OF st], of b] by simp
  moreover have "vw (ral\<lparr>hat_r := of_nat b\<rparr>) = vw ral" by (intro ext) (simp add: vw_def)
  moreover have "tiled (rut + 32) b (B(b := None))" by (rule tiled_drop [OF heap_stD(8,9) [OF st] b lo])
  ultimately show ?thesis using heap_stD [OF st] b(2) by (simp add: heap_st_def)
qed

lemma attach_heap:
  assumes st: "heap_st ral rut hat {b} B F" and b: "B b = Some (n, 0)"
  shows "\<exists>ral' F'. rl_bloq_attach (of_nat b) ral = Inr ral' \<and> heap_st ral' rut hat {} B F' \<and> frame ral' = frame ral \<and> only (loose rut B) (vw ral) (vw ral')"
proof -
  obtain ral' F' where "rl_bloq_attach (of_nat b) ral = Inr ral'" "soup_mem rut {} B F' (vw ral')" "frame ral' = frame ral" "only (loose rut B) (vw ral) (vw ral')"
    using attach_st [OF heap_stD(1,7) [OF st] b] by auto
  then show ?thesis using heap_st_step [OF st _ _ heap_stD(8) [OF st]] by blast
qed

lemma hob_ok:
  assumes st: "heap_st ral rut hat {b} B F" and b: "B b = Some (n, 0)" and h: "B (b + n) = Some (m, v)"
  shows "\<exists>ral' B' F' k. (if v = 0 then rl_bloq_make (of_nat b) (of_nat n + u2_rail_box_siz (rl_bloq_detach (of_nat (b + n)) ral) (of_nat (b + n))) 0 (rl_bloq_detach (of_nat (b + n)) ral) else Inr ral) = Inr ral' \<and>
    heap_st ral' rut hat {b} B' F' \<and> B' b = Some (k, 0) \<and> live B' = live B \<and> loose rut B' \<subseteq> loose rut B \<and> only (loose rut B) (vw ral) (vw ral') \<and> frame ral' = frame ral"
proof (cases "v = 0")
  case False
  then show ?thesis using st b by (intro exI [of _ ral] exI [of _ B] exI [of _ F] exI [of _ n]) simp
next
  case True
  let ?d = "rl_bloq_detach (of_nat (b + n)) ral" and ?B = "B(b + n := None, b \<mapsto> (n + m, 0))"
  have ne: "b + n \<noteq> b" using separateD(2) [OF heap_stD(9) [OF st] b] by simp
  obtain F1 where d: "soup_mem rut {b + n, b} B F1 (vw ?d)" "frame ?d = frame ral" "only (loose rut B) (vw ral) (vw ?d)"
    using detach_st [OF heap_stD(1,7) [OF st], of "b + n" m] h True ne by auto
  have st1: "heap_st ?d rut hat {b, b + n} B F1" using heap_st_step [OF st d(2) d(1) heap_stD(8) [OF st]] by (simp add: insert_commute)
  obtain ral' where r: "rl_bloq_make (of_nat b) (of_nat (n + m)) 0 ?d = Inr ral'" "heap_st ral' rut hat {b} ?B F1" "frame ral' = frame ?d" "only (loose rut B) (vw ?d) (vw ral')"
    using join_st [OF st1 b] h True by auto
  have "u2_rail_box_siz ?d (of_nat (b + n)) = of_nat m" by (rule box_word(1) [OF st1 h])
  moreover have "only (loose rut B) (vw ral) (vw ral')" by (rule only_trans [OF d(3) r(4)])
  ultimately show ?thesis using True r d(2) join_loose(1) [of B b n m rut] join_loose(2) [of B b n m] b h
    by (intro exI [of _ ral'] exI [of _ ?B] exI [of _ F1] exI [of _ "n + m"]) simp
qed

lemma next_ok:
  assumes st: "heap_st ral rut hat {b} B F" and b: "B b = Some (n, 0)"
  shows "\<exists>ral' hat' B' F'. bloq_join_next (of_nat b) ral = Inr ral' \<and> hat' \<le> hat \<and> heap_st ral' rut hat' {} B' F' \<and> live B' = live B \<and>
    only (loose rut B) (vw ral) (vw ral') \<and> cap_r ral' = cap_r ral \<and> mat_r ral' = mat_r ral"
proof (cases "b + n = hat")
  case True
  then have "of_nat b + u2_rail_box_siz ral (of_nat b) = hat_r ral" using box_word(1) [OF st b] heap_stD(2) [OF st] by auto
  then have "bloq_join_next (of_nat b) ral = Inr (ral\<lparr>hat_r := of_nat b\<rparr>)" by (simp add: bloq_join_next_def)
  moreover have "live (B(b := None)) = live B" using b by (auto simp: live_upd live_def)
  moreover have "vw (ral\<lparr>hat_r := of_nat b\<rparr>) = vw ral" by (intro ext) (simp add: vw_def)
  ultimately show ?thesis using hat_back [OF st b True] True
    by (intro exI [of _ "ral\<lparr>hat_r := of_nat b\<rparr>"] exI [of _ b] exI [of _ "B(b := None)"] exI [of _ F]) simp
next
  case False
  have lo: "rut + 32 \<le> b" "5 \<le> n" using separateD [OF heap_stD(9) [OF st] b] by simp_all
  then obtain m v where h: "B (b + n) = Some (m, v)" using tiledD(2) [OF heap_stD(8) [OF st] b] False by auto
  let ?d = "rl_bloq_detach (of_nat (b + n)) ral"
  obtain ral1 B1 F1 k where r: "(if v = 0 then rl_bloq_make (of_nat b) (of_nat n + u2_rail_box_siz ?d (of_nat (b + n))) 0 ?d else Inr ral) = Inr ral1"
      "heap_st ral1 rut hat {b} B1 F1" "B1 b = Some (k, 0)" "live B1 = live B" "loose rut B1 \<subseteq> loose rut B" "only (loose rut B) (vw ral) (vw ral1)" "frame ral1 = frame ral"
    using hob_ok [OF st b h] by blast
  obtain ral2 F2 where a: "rl_bloq_attach (of_nat b) ral1 = Inr ral2" "heap_st ral2 rut hat {} B1 F2" "frame ral2 = frame ral1" "only (loose rut B1) (vw ral1) (vw ral2)"
    using attach_heap [OF r(2,3)] by blast
  have "of_nat (b + n) \<noteq> (of_nat hat :: c3_w)" using of_nat_ray_eq [of "b + n" hat] False box_word(3) [OF st b] heap_stD(5) [OF st] by simp
  then have "bloq_join_next (of_nat b) ral = Inr ral2"
    using r(1) a(1) box_word(1) [OF st b] box_word(2) [OF st h] heap_stD(2) [OF st]
    unfolding bloq_join_next_def Let_def by (simp only: ray_add if_False rbind_Inr)
  moreover have "only (loose rut B) (vw ral) (vw ral2)" by (rule only_trans [OF r(6) only_mono [OF a(4) r(5)]])
  ultimately show ?thesis using a(2) r(4) frameD [OF a(3)] frameD [OF r(7)]
    by (intro exI [of _ ral2] exI [of _ hat] exI [of _ B1] exI [of _ F2]) simp
qed

section \<open>The release of a box in use\<close>

lemma beam_eq: "hat div 2 ^ 27 = rut div 2 ^ 27 \<Longrightarrow> rut \<le> p \<Longrightarrow> p \<le> hat \<Longrightarrow> p div 2 ^ 27 = rut div (2 :: nat) ^ 27"
  using div_le_mono [of p hat "2 ^ 27"] div_le_mono [of rut p "2 ^ 27"] by simp

lemma free_loose:
  assumes "B p = Some (s, u)"
  shows "loose rut (B(p \<mapsto> (s, 0))) \<subseteq> loose rut B \<union> {p..<p + s}"
proof
  fix a assume "a \<in> loose rut (B(p \<mapsto> (s, 0)))"
  then show "a \<in> loose rut B \<union> {p..<p + s}" by (auto simp: loose_def split: if_splits)
qed

lemma free_ok:
  assumes st: "heap_st ral rut hat {p} B F" and p: "B p = Some (s, 0)"
  shows "\<exists>ral' hat' B' F'. rl_bloq_free (of_nat p) ral = Inr ral' \<and> hat' \<le> hat \<and> heap_st ral' rut hat' {} B' F' \<and> live B' = live B \<and>
    only (loose rut B) (vw ral) (vw ral') \<and> cap_r ral' = cap_r ral \<and> mat_r ral' = mat_r ral"
proof -
  note w = box_word [OF st p] and d = separateD [OF heap_stD(9) [OF st] p]
  have hi: "p + s \<le> hat" by (rule tiledD(1) [OF heap_stD(8) [OF st] p])
  have "unat (u2_ray_a (of_nat p)) = unat (u2_ray_a (rut_r ral))"
    using ray_a_nat [of p] ray_a_nat [of rut] beam_eq [OF heap_stD(6) [OF st], of p] heap_stD(1,5) [OF st] d(1) hi by simp
  then have beam: "u2_ray_a (of_nat p) = u2_ray_a (rut_r ral)" by (simp only: word_unat_eq_iff)
  have above: "\<not> of_nat p < rut_r ral" using of_nat_ray_less [of p rut] heap_stD(1,5) [OF st] d(1) hi by simp
  let ?c = "bloq_clear (of_nat p + 2) (of_nat p + u2_rail_box_siz ral (of_nat p)) ral"
  have c: "vw ?c = (\<lambda>q. if p + 2 \<le> q \<and> q + 1 < p + s then 0xdeadbeef else vw ral q)" "frame ?c = frame ral"
    using clear_vw [of "p + s" "p + 2" ral] w(1,3,4) by (simp_all add: ray_add del: of_nat_add add_2_eq_Suc')
  have oc: "only {p + 2..<p + s - 1} (vw ral) (vw ?c)" unfolding c(1) only_def by auto
  have stc: "heap_st ?c rut hat {p} B F" by (rule heap_st_step [OF st c(2) clear_ok [OF heap_stD(7) [OF st] p _ oc] heap_stD(8) [OF st]]) simp
  let ?g = "rl_live_grab (- u2_rail_box_siz ?c (of_nat p)) ?c"
  note g = live_grab_vw [OF stc, of "- u2_rail_box_siz ?c (of_nat p)"]
  obtain b n ral1 B1 F1 where r1: "bloq_join_prev (of_nat p) ?g = Inr (of_nat b, ral1)" "heap_st ral1 rut hat {b} B1 F1" "B1 b = Some (n, 0)" "live B1 = live B"
      "loose rut B1 \<subseteq> loose rut B" "only (loose rut B) (vw ?g) (vw ral1)" "frame ral1 = frame ?g"
    using prev_ok [OF g(1) p] by blast
  obtain ral2 hat2 B2 F2 where r2: "bloq_join_next (of_nat b) ral1 = Inr ral2" "hat2 \<le> hat" "heap_st ral2 rut hat2 {} B2 F2" "live B2 = live B1"
      "only (loose rut B1) (vw ral1) (vw ral2)" "cap_r ral2 = cap_r ral1" "mat_r ral2 = mat_r ral1"
    using next_ok [OF r1(2,3)] by blast
  have "{p + 2..<p + s - 1} \<subseteq> loose rut B" by (rule subset_trans [OF _ free_box_loose [of B, OF p]]) auto
  then have "only (loose rut B) (vw ral) (vw ral2)"
    by (intro only_trans [OF only_mono [OF oc] only_trans [OF g(2) only_trans [OF r1(6) only_mono [OF r2(5) r1(5)]]]])
  moreover have "rl_bloq_free (of_nat p) ral = Inr ral2"
    using heap_stD(3) [OF st] w(2) beam above r1(1) r2(1) by (simp add: rl_bloq_free_def Let_def)
  ultimately show ?thesis using r2 r1(4) frameD(1,3) [OF r1(7)] frameD(1,3) [OF g(3)] frameD(1,3) [OF c(2)]
    by (intro exI [of _ ral2] exI [of _ hat2] exI [of _ B2] exI [of _ F2]) simp
qed

text \<open>The use counts of free boxes are 0; a box with another count than 1 is refused.\<close>

lemma rfree_ok:
  assumes st: "heap_st ral rut hat {} B F" and p: "B p = Some (s, 1)"
  shows "\<exists>ral' hat' B' F'. u2_rl_rfree (of_nat (p + 2)) ral = Inr ral' \<and> hat' \<le> hat \<and> heap_st ral' rut hat' {} B' F' \<and> live B' = (live B)(p := None) \<and>
    only (loose rut B \<union> {p..<p + s}) (vw ral) (vw ral') \<and> cap_r ral' = cap_r ral \<and> mat_r ral' = mat_r ral"
proof -
  note w = box_word [OF st p]
  let ?B = "B(p \<mapsto> (s, 0))" and ?ral = "loom_put (of_nat p + 1) 0 ral"
  have v: "vw ?ral = (vw ral)(p + 1 := 0)" using vw_put [of "p + 1"] w(3,4) by (simp add: add.commute)
  have st1: "heap_st ?ral rut hat {p} ?B F"
    by (rule heap_st_step [OF st]) (use reuse_ok [OF heap_stD(7) [OF st] p, of 0] v tiled_use [OF heap_stD(8) [OF st] p] in auto)
  obtain ral' hat' B' F' where r: "rl_bloq_free (of_nat p) ?ral = Inr ral'" "hat' \<le> hat" "heap_st ral' rut hat' {} B' F'" "live B' = live ?B"
      "only (loose rut ?B) (vw ?ral) (vw ral')" "cap_r ral' = cap_r ?ral" "mat_r ral' = mat_r ?ral"
    using free_ok [OF st1, of s] by auto
  have "only (loose rut B \<union> {p..<p + s}) (vw ral) (vw ?ral)" using v w(4) by (auto simp: only_def)
  then have "only (loose rut B \<union> {p..<p + s}) (vw ral) (vw ral')" by (rule only_trans) (rule only_mono [OF r(5) free_loose [of B, OF p]])
  moreover have "u2_rl_rfree (of_nat (p + 2)) ral = Inr ral'" using r(1) w(2) heap_stD(3) [OF st] by (simp add: u2_rl_rfree_def)
  ultimately show ?thesis using r by (intro exI [of _ ral'] exI [of _ hat'] exI [of _ B'] exI [of _ F']) (simp add: live_upd)
qed

end
