(* ===== verification/Soup_Run.thy ===== *)
theory Soup_Run
  imports Soup_Free
begin

text \<open>
  The promises of the allocator: a map of the boxes in use is all a client needs to know. An allocation adds a box to it, a release
  takes one away, and the words of all other boxes stay as they are. Work in a leap leaves the boxes of the frame outside alone.
\<close>

section \<open>Boxes in use\<close>

definition soup_ok :: "u2_loom_rail \<Rightarrow> boxes \<Rightarrow> bool" where
  "soup_ok ral L \<longleftrightarrow> (\<exists>B F. heap_st ral (unat (rut_r ral)) (unat (hat_r ral)) {} B F \<and> live B = L)"

text \<open>The words of the boxes are not changed.\<close>

definition keeps_words :: "boxes \<Rightarrow> u2_loom_rail \<Rightarrow> u2_loom_rail \<Rightarrow> bool" where
  "keeps_words L ral ral' \<longleftrightarrow> (\<forall>q t u k. L q = Some (t, u) \<longrightarrow> k < t \<longrightarrow> loom ral' (of_nat (q + k)) = loom ral (of_nat (q + k)))"

definition disjoint_box :: "boxes \<Rightarrow> nat \<Rightarrow> nat \<Rightarrow> bool" where
  "disjoint_box L p s \<longleftrightarrow> (\<forall>q t u. L q = Some (t, u) \<longrightarrow> p + s \<le> q \<or> q + t \<le> p)"

text \<open>The words of the beam from \<open>r\<close> on.\<close>

definition beam_from :: "nat \<Rightarrow> nat set" where
  "beam_from r = {a. r \<le> a \<and> a div 2 ^ 27 = r div 2 ^ 27}"

lemma live_Some: "live B p = Some (s, u) \<longleftrightarrow> B p = Some (s, u) \<and> u \<noteq> 0"
  by (auto simp: live_def split: option.splits if_splits)

lemma liveD: "live B = L \<Longrightarrow> L q = Some (t, u) \<Longrightarrow> B q = Some (t, u) \<and> u \<noteq> 0"
  by (auto simp: live_Some)

lemma heap_pos:
  assumes "heap_st ral rut hat X B F"
  shows "unat (rut_r ral) = rut" "unat (hat_r ral) = hat" "rut + 32 \<le> hat"
proof -
  show "rut + 32 \<le> hat" using heap_stD(8) [OF assms] by (simp add: tiled_def)
  then show "unat (rut_r ral) = rut" "unat (hat_r ral) = hat" using heap_stD(1,2,5) [OF assms] by (simp_all add: unat_of_nat)
qed

lemma soup_okI: "heap_st ral rut hat {} B F \<Longrightarrow> live B = L \<Longrightarrow> soup_ok ral L"
  using heap_pos [of ral rut hat "{}" B F] unfolding soup_ok_def by blast

lemma soup_okE:
  assumes "soup_ok ral L"
  obtains rut hat B F where "heap_st ral rut hat {} B F" "live B = L" "rut = unat (rut_r ral)" "hat = unat (hat_r ral)"
  using assms unfolding soup_ok_def by blast

lemma only_keeps:
  assumes st: "heap_st ral rut hat X B F" and o: "only K (vw ral) (vw ral')"
    and K: "\<And>q t u k. L q = Some (t, u) \<Longrightarrow> k < t \<Longrightarrow> q + k \<notin> K" and L: "\<And>q t u. L q = Some (t, u) \<Longrightarrow> B q = Some (t, u)"
  shows "keeps_words L ral ral'"
  unfolding keeps_words_def
proof (intro allI impI)
  fix q t u k assume q: "L q = Some (t, u)" "k < t"
  have "q + k < 2 ^ 32" using separateD(3) [OF heap_stD(9) [OF st] L [OF q(1)]] q(2) by simp
  moreover have "vw ral' (q + k) = vw ral (q + k)" using o K [OF q] by (simp add: only_def)
  ultimately show "loom ral' (of_nat (q + k)) = loom ral (of_nat (q + k))" by (simp only: loom_vw)
qed

lemma apart_box:
  assumes "separate rut B" "B p = Some (s, u)" "B q = Some (t, v)" "q \<noteq> p" "k < t"
  shows "q + k \<notin> {p..<p + s}"
  using apart [OF assms(1-3), of "q + k - p" k] assms(4,5) less_diff_conv2 [of p "q + k" s] by auto

lemma live_not_loose:
  assumes sep: "separate rut B" and q: "live B q = Some (t, u)" "k < t"
  shows "q + k \<notin> loose rut B"
proof
  have q': "B q = Some (t, u)" "u \<noteq> 0" using q(1) by (simp_all add: live_Some)
  assume "q + k \<in> loose rut B"
  then consider "q + k < rut + 32" | r m where "B r = Some (m, 0)" "r \<le> q + k" "q + k < r + m" by (auto simp: loose_def)
  then show False
  proof cases
    case 1
    then show False using separateD(1) [OF sep q'(1)] by simp
  next
    case 2
    then have "r \<noteq> q" using q' by auto
    then show False using apart_box [OF sep 2(1) q'(1), of k] 2 q(2) by simp
  qed
qed

lemma loose_beam:
  assumes st: "heap_st ral rut hat X B F"
  shows "loose rut B \<subseteq> beam_from rut" "B p = Some (s, u) \<Longrightarrow> {p..<p + s} \<subseteq> beam_from rut"
proof -
  have in_beam: "a \<in> beam_from rut" if "rut \<le> a" "a < hat" for a
    using beam_eq [OF heap_stD(6) [OF st], of a] that by (simp add: beam_from_def)
  show box: "{p..<p + s} \<subseteq> beam_from rut" if "B p = Some (s, u)" for p s u
    using in_beam tiledD(1) [OF heap_stD(8) [OF st] that] separateD(1) [OF heap_stD(9) [OF st] that] by auto
  show "loose rut B \<subseteq> beam_from rut"
  proof
    fix a assume "a \<in> loose rut B"
    then consider "rut \<le> a" "a < rut + 32" | q t where "B q = Some (t, 0)" "a \<in> {q..<q + t}" by (auto simp: loose_def)
    then show "a \<in> beam_from rut"
    proof cases
      case 1
      then show ?thesis using in_beam heap_pos(3) [OF st] by simp
    next
      case 2
      then show ?thesis using box by blast
    qed
  qed
qed

section \<open>Allocation and release\<close>

text \<open>What a step of the allocator leaves of the rail: its frame but for the hat, and every word outside the beam from the rut.\<close>

definition within :: "u2_loom_rail \<Rightarrow> u2_loom_rail \<Rightarrow> bool" where
  "within ral ral' \<longleftrightarrow> cap_r ral' = cap_r ral \<and> mat_r ral' = mat_r ral \<and> rut_r ral' = rut_r ral \<and> only (beam_from (unat (rut_r ral))) (vw ral) (vw ral')"

lemma withinI:
  assumes "only K (vw ral) (vw ral')" "K \<subseteq> beam_from (unat (rut_r ral))" "cap_r ral' = cap_r ral" "mat_r ral' = mat_r ral" "rut_r ral' = rut_r ral"
  shows "within ral ral'"
  using only_mono [OF assms(1,2)] assms(3-5) by (simp add: within_def)

lemma ralloc_law:
  assumes ok: "soup_ok ral L" and len: "2 \<le> unat len" "unat len + 3 < 2 ^ 28"
  shows "(\<exists>p s ral'. u2_rl_ralloc len ral = Some (Inr (of_nat (p + 2), ral')) \<and> unat len + 3 \<le> s \<and> p + s < 2 ^ 28 \<and> L p = None \<and> disjoint_box L p s \<and>
      soup_ok ral' (L(p \<mapsto> (s, 1))) \<and> keeps_words L ral ral' \<and> within ral ral' \<and> hat_r ral' \<in> {hat_r ral, hat_r ral + of_nat (unat len + 3)}) \<or>
    u2_rl_ralloc len ral = Some (Inl Abort) \<and> \<not> room ral (unat len + 3)"
proof -
  obtain rut hat B F where st: "heap_st ral rut hat {} B F" and L: "live B = L" and rut: "rut = unat (rut_r ral)" using ok by (rule soup_okE)
  from grab_ok [OF st len] show ?thesis
  proof (elim disjE exE conjE)
    fix r ral' assume r: "rl_bloq_grab len ral = Some (Inr (r, ral'))" "allots rut (unat len + 3) B ral r ral'"
    obtain p s hat' B' F' where a: "r = of_nat (p + 2)" "heap_st ral' rut hat' {} B' F'" "unat len + 3 \<le> s" "live B p = None" "B' p = Some (s, 1)"
        "live B' = (live B)(p \<mapsto> (s, 1))" "only (loose rut B \<union> {p..<p + s}) (vw ral) (vw ral')" "cap_r ral' = cap_r ral" "mat_r ral' = mat_r ral" "hat_r ral' \<in> {hat_r ral, hat_r ral + of_nat (unat len + 3)}"
      using r(2) unfolding allots_def by blast
    have dis: "p + s \<le> q \<or> q + t \<le> p" if q: "L q = Some (t, u)" for q t u
    proof -
      have "q \<noteq> p" "live B' q = Some (t, u)" using q a(4,6) L by auto
      then have "q \<noteq> p" "B' q = Some (t, u)" by (simp_all add: live_Some)
      then show ?thesis using heap_stD(9) [OF a(2)] a(5) unfolding separate_def by (meson nat_neq_iff)
    qed
    have "keeps_words L ral ral'"
    proof (rule only_keeps [OF st a(7)])
      fix q t u k assume q: "L q = Some (t, u)" "k < t"
      show "q + k \<notin> loose rut B \<union> {p..<p + s}" using live_not_loose [OF heap_stD(9) [OF st], of q t u k] dis [OF q(1)] q L by auto
    next
      show "B q = Some (t, u)" if "L q = Some (t, u)" for q t u using liveD [OF L that] by simp
    qed
    moreover have "rut_r ral' = rut_r ral" using heap_stD(1) [OF st] heap_stD(1) [OF a(2)] by simp
    then have "within ral ral'" by (intro withinI [OF a(7)]) (use loose_beam(1) [OF st] loose_beam(2) [OF a(2,5)] a(8,9) rut [symmetric] in simp_all)
    moreover have "p + s < 2 ^ 28" using tiledD(1) [OF heap_stD(8) [OF a(2)] a(5)] heap_stD(5) [OF a(2)] by simp
    moreover have "disjoint_box L p s" using dis unfolding disjoint_box_def by blast
    ultimately show ?thesis using r(1) a(1,3,4,6,10) L soup_okI [OF a(2)] unfolding u2_rl_ralloc_def
      by (intro disjI1 exI [of _ p] exI [of _ s] exI [of _ ral']) simp
  qed (simp add: u2_rl_ralloc_def)
qed

lemma rfree_law:
  assumes ok: "soup_ok ral L" and p: "L p = Some (s, 1)"
  shows "\<exists>ral'. u2_rl_rfree (of_nat (p + 2)) ral = Inr ral' \<and> soup_ok ral' (L(p := None)) \<and> keeps_words (L(p := None)) ral ral' \<and> within ral ral' \<and> hat_r ral' \<le> hat_r ral"
proof -
  obtain rut hat B F where st: "heap_st ral rut hat {} B F" and L: "live B = L" and rut: "rut = unat (rut_r ral)" "hat = unat (hat_r ral)" using ok by (rule soup_okE)
  have Bp: "B p = Some (s, 1)" using liveD [OF L p] by simp
  obtain ral' hat' B' F' where r: "u2_rl_rfree (of_nat (p + 2)) ral = Inr ral'" "hat' \<le> hat" "heap_st ral' rut hat' {} B' F'" "live B' = (live B)(p := None)"
      "only (loose rut B \<union> {p..<p + s}) (vw ral) (vw ral')" "cap_r ral' = cap_r ral" "mat_r ral' = mat_r ral"
    using rfree_ok [OF st Bp] by blast
  have "keeps_words (L(p := None)) ral ral'"
  proof (rule only_keeps [OF st r(5)])
    fix q t u k assume q: "(L(p := None)) q = Some (t, u)" "k < t"
    then have "q \<noteq> p" "L q = Some (t, u)" by (auto split: if_splits)
    moreover from this have "B q = Some (t, u)" using liveD [OF L] by blast
    ultimately show "q + k \<notin> loose rut B \<union> {p..<p + s}"
      using live_not_loose [OF heap_stD(9) [OF st], of q t u k] apart_box [OF heap_stD(9) [OF st] Bp, of q t u k] q(2) L by simp
  next
    show "B q = Some (t, u)" if "(L(p := None)) q = Some (t, u)" for q t u using that liveD [OF L, of q t u] by (simp split: if_splits)
  qed
  moreover have "rut_r ral' = rut_r ral" using heap_stD(1) [OF st] heap_stD(1) [OF r(3)] by simp
  then have "within ral ral'" by (intro withinI [OF r(5)]) (use loose_beam(1) [OF st] loose_beam(2) [OF st Bp] r(6,7) rut [symmetric] in simp_all)
  moreover have "hat_r ral' \<le> hat_r ral" using heap_pos(2) [OF r(3)] rut(2) r(2) by (simp add: word_le_nat_alt)
  ultimately show ?thesis using r(1) soup_okI [OF r(3)] r(4) L by blast
qed

text \<open>A client may write the words of its boxes but for the two of the header and the last one.\<close>

lemma write_law:
  assumes ok: "soup_ok ral L" and p: "L p = Some (s, u)" "2 \<le> k" "k + 1 < s"
  shows "soup_ok (loom_put (of_nat (p + k)) w ral) L" "keeps_words (L(p := None)) ral (loom_put (of_nat (p + k)) w ral)" "within ral (loom_put (of_nat (p + k)) w ral)"
proof -
  let ?ral = "loom_put (of_nat (p + k)) w ral"
  obtain rut hat B F where st: "heap_st ral rut hat {} B F" and L: "live B = L" and rut: "rut = unat (rut_r ral)" "hat = unat (hat_r ral)" using ok by (rule soup_okE)
  have Bp: "B p = Some (s, u)" "u \<noteq> 0" using liveD [OF L p(1)] by simp_all
  have "p + k < 2 ^ 32" using separateD(3) [OF heap_stD(9) [OF st] Bp(1)] p(3) by simp
  then have v: "vw ?ral = (vw ral)(p + k := w)" by (rule vw_put)
  have o: "only {p + 2..<p + s - 1} (vw ral) (vw ?ral)" using v p by (auto simp: only_def)
  have "heap_st ?ral rut hat {} B F" by (rule heap_st_step [OF st _ clear_ok [OF heap_stD(7) [OF st] Bp(1) _ o] heap_stD(8) [OF st]]) (use Bp(2) in simp_all)
  then show "soup_ok ?ral L" using L by (rule soup_okI)
  show "keeps_words (L(p := None)) ral ?ral"
  proof (rule only_keeps [OF st o])
    fix q t v k assume q: "(L(p := None)) q = Some (t, v)" "k < t"
    then have "q \<noteq> p" "B q = Some (t, v)" using liveD [OF L, of q t v] by (auto split: if_splits)
    then show "q + k \<notin> {p + 2..<p + s - 1}" using apart_box [OF heap_stD(9) [OF st] Bp(1), of q t v k] q(2) by auto
  next
    show "B q = Some (t, u)" if "(L(p := None)) q = Some (t, u)" for q t u using that liveD [OF L, of q t u] by (simp split: if_splits)
  qed
  have "{p + 2..<p + s - 1} \<subseteq> beam_from rut" using loose_beam(2) [OF st Bp(1)] by (auto simp: subset_iff)
  then show "within ral ?ral" using withinI [OF o] rut by simp
qed

section \<open>The interface of a store of boxes\<close>

primrec alloc_all :: "(nat \<Rightarrow> 's \<Rightarrow> (nat \<times> 's) option) \<Rightarrow> nat list \<Rightarrow> 's \<Rightarrow> (nat list \<times> 's) option" where
  "alloc_all alloc [] s = Some ([], s)"
| "alloc_all alloc (n # ns) s =
     (case alloc n s of None \<Rightarrow> None | Some (p, s) \<Rightarrow> (case alloc_all alloc ns s of None \<Rightarrow> None | Some (ps, s) \<Rightarrow> Some (p # ps, s)))"

primrec free_all :: "(nat \<Rightarrow> 's \<Rightarrow> 's option) \<Rightarrow> nat list \<Rightarrow> 's \<Rightarrow> 's option" where
  "free_all free [] s = Some s"
| "free_all free (p # ps) s = (case free p s of None \<Rightarrow> None | Some s \<Rightarrow> free_all free ps s)"

locale box_store =
  fixes ok :: "'s \<Rightarrow> boxes \<Rightarrow> bool" and same :: "boxes \<Rightarrow> 's \<Rightarrow> 's \<Rightarrow> bool"
    and alloc :: "nat \<Rightarrow> 's \<Rightarrow> (nat \<times> 's) option" and free :: "nat \<Rightarrow> 's \<Rightarrow> 's option"
  assumes alloc_ok: "ok s L \<Longrightarrow> alloc n s = Some (p, s') \<Longrightarrow>
      \<exists>m. n \<le> m \<and> L p = None \<and> disjoint_box L p m \<and> ok s' (L(p \<mapsto> (m, 1))) \<and> same L s s'"
    and free_ok: "ok s L \<Longrightarrow> L p = Some (m, 1) \<Longrightarrow> \<exists>s'. free p s = Some s' \<and> ok s' (L(p := None)) \<and> same (L(p := None)) s s'"
    and same_refl: "same L s s"
    and same_trans: "same L s s' \<Longrightarrow> same L s' s'' \<Longrightarrow> same L s s''"
    and same_part: "same L s s' \<Longrightarrow> L' \<subseteq>\<^sub>m L \<Longrightarrow> same L' s s'"
begin

lemma alloc_all_ok:
  "ok s L \<Longrightarrow> alloc_all alloc ns s = Some (ps, s') \<Longrightarrow>
   \<exists>L'. ok s' L' \<and> L \<subseteq>\<^sub>m L' \<and> dom L' = dom L \<union> set ps \<and> dom L \<inter> set ps = {} \<and> distinct ps \<and>
     list_all2 (\<lambda>n p. \<exists>m\<ge>n. L' p = Some (m, 1)) ns ps \<and> same L s s'"
proof (induction ns arbitrary: s L ps)
  case Nil
  then show ?case using same_refl by auto
next
  case (Cons n ns)
  obtain p s1 qs where a: "alloc n s = Some (p, s1)" "alloc_all alloc ns s1 = Some (qs, s')" "ps = p # qs"
    using Cons.prems(2) by (auto split: option.splits prod.splits)
  obtain m where m: "n \<le> m" "L p = None" "ok s1 (L(p \<mapsto> (m, 1)))" "same L s s1" using alloc_ok [OF Cons.prems(1) a(1)] by blast
  obtain L' where L': "ok s' L'" "L(p \<mapsto> (m, 1)) \<subseteq>\<^sub>m L'" "dom L' = dom (L(p \<mapsto> (m, 1))) \<union> set qs" "dom (L(p \<mapsto> (m, 1))) \<inter> set qs = {}"
      "distinct qs" "list_all2 (\<lambda>n p. \<exists>m\<ge>n. L' p = Some (m, 1)) ns qs" "same (L(p \<mapsto> (m, 1))) s1 s'"
    using Cons.IH [OF m(3) a(2)] by blast
  have le: "L \<subseteq>\<^sub>m L(p \<mapsto> (m, 1))" using m(2) by (auto simp: map_le_def)
  have "L' p = Some (m, 1)" using L'(2) by (auto simp: map_le_def dest: bspec [of _ _ p])
  moreover have "same L s s'" by (rule same_trans [OF m(4) same_part [OF L'(7) le]])
  moreover have "L \<subseteq>\<^sub>m L'" by (rule map_le_trans [OF le L'(2)])
  moreover have "p \<notin> dom L" "p \<notin> set qs" "dom L \<inter> set qs = {}" using m(2) L'(4) by auto
  ultimately show ?case using L'(1,3,5,6) m(1) a(3) by (intro exI [of _ L']) auto
qed

lemma free_all_ok:
  "ok s L \<Longrightarrow> distinct ps \<Longrightarrow> \<forall>p\<in>set ps. \<exists>m. L p = Some (m, 1) \<Longrightarrow>
   \<exists>s'. free_all free ps s = Some s' \<and> ok s' (L |` (- set ps)) \<and> same (L |` (- set ps)) s s'"
proof (induction ps arbitrary: s L)
  case Nil
  then show ?case using same_refl by simp
next
  case (Cons p ps)
  obtain m where "L p = Some (m, 1)" using Cons.prems(3) by auto
  then obtain s1 where s1: "free p s = Some s1" "ok s1 (L(p := None))" "same (L(p := None)) s s1" using free_ok [OF Cons.prems(1)] by blast
  have "\<forall>q\<in>set ps. \<exists>m. (L(p := None)) q = Some (m, 1)" using Cons.prems(2,3) by auto
  moreover have L: "L(p := None) |` (- set ps) = L |` (- set (p # ps))" using Cons.prems(2) by (auto simp: restrict_map_def)
  ultimately obtain s' where s': "free_all free ps s1 = Some s'" "ok s' (L |` (- set (p # ps)))" "same (L |` (- set (p # ps))) s1 s'"
    using Cons.IH [OF s1(2)] Cons.prems(2) by (metis distinct.simps(2))
  have "L |` (- set (p # ps)) \<subseteq>\<^sub>m L(p := None)" by (auto simp: map_le_def restrict_map_def)
  then have "same (L |` (- set (p # ps))) s s'" by (rule same_trans [OF same_part [OF s1(3)] s'(3)])
  then show ?case using s1(1) s' by simp
qed

text \<open>Boxes that are released in any order leave the store as it was.\<close>

lemma alloc_free_all:
  assumes ok: "ok s L" and a: "alloc_all alloc ns s = Some (ps, s')" and qs: "distinct qs" "set qs = set ps"
  shows "\<exists>s''. free_all free qs s' = Some s'' \<and> ok s'' L \<and> same L s s''"
proof -
  obtain L' where L': "ok s' L'" "L \<subseteq>\<^sub>m L'" "dom L' = dom L \<union> set ps" "dom L \<inter> set ps = {}"
      "list_all2 (\<lambda>n p. \<exists>m\<ge>n. L' p = Some (m, 1)) ns ps" "same L s s'"
    using alloc_all_ok [OF ok a] by blast
  have "\<forall>p\<in>set qs. \<exists>m. L' p = Some (m, 1)" unfolding qs(2)
  proof
    fix p assume "p \<in> set ps"
    then obtain i where "i < length ps" "p = ps ! i" by (auto simp: in_set_conv_nth)
    then show "\<exists>m. L' p = Some (m, 1)" using list_all2_nthD2 [OF L'(5)] by blast
  qed
  moreover have "L' |` (- set qs) = L"
  proof
    fix p
    have "p \<in> dom L \<Longrightarrow> L' p = L p" "p \<in> dom L' \<longleftrightarrow> p \<in> dom L \<or> p \<in> set qs" "\<not> (p \<in> dom L \<and> p \<in> set qs)" using L'(2-4) qs(2) by (auto simp: map_le_def)
    then show "(L' |` (- set qs)) p = L p" by (cases "L p"; cases "L' p") (auto simp: restrict_map_def dom_def)
  qed
  ultimately obtain s'' where "free_all free qs s' = Some s''" "ok s'' L" "same L s' s''" using free_all_ok [OF L'(1) qs(1)] by metis
  then show ?thesis using same_trans [OF L'(6)] by blast
qed

end

text \<open>The rail as such a store; an address is that of the box, two words before the ray that a client has.\<close>

definition soup_alloc :: "nat \<Rightarrow> u2_loom_rail \<Rightarrow> (nat \<times> u2_loom_rail) option" where
  "soup_alloc n ral =
     (if 2 \<le> n \<and> n + 3 < 2 ^ 28 then case u2_rl_ralloc (of_nat n) ral of Some (Inr (r, ral)) \<Rightarrow> Some (unat r - 2, ral) | _ \<Rightarrow> None else None)"

definition soup_free :: "nat \<Rightarrow> u2_loom_rail \<Rightarrow> u2_loom_rail option" where
  "soup_free p ral = (case u2_rl_rfree (of_nat (p + 2)) ral of Inr ral \<Rightarrow> Some ral | Inl _ \<Rightarrow> None)"

lemma soup_alloc_law:
  assumes ok: "soup_ok ral L" and a: "soup_alloc n ral = Some (p, ral')"
  shows "\<exists>m. n \<le> m \<and> L p = None \<and> disjoint_box L p m \<and> soup_ok ral' (L(p \<mapsto> (m, 1))) \<and> keeps_words L ral ral'"
proof -
  have n: "2 \<le> n" "n + 3 < 2 ^ 28" using a by (auto simp: soup_alloc_def split: if_splits)
  then have len: "unat (of_nat n :: c3_w) = n" by (simp add: unat_of_nat)
  obtain q s ral2 where r: "u2_rl_ralloc (of_nat n) ral = Some (Inr (of_nat (q + 2), ral2))" "n + 3 \<le> s" "q + s < 2 ^ 28" "L q = None" "disjoint_box L q s"
      "soup_ok ral2 (L(q \<mapsto> (s, 1)))" "keeps_words L ral ral2"
    using ralloc_law [OF ok, of "of_nat n"] n a unfolding len by (auto simp: soup_alloc_def)
  then have "unat (of_nat (q + 2) :: c3_w) = q + 2" using n(1) unat_of_nat [of "q + 2", where ?'a = 32] by simp
  then have "p = q" "ral' = ral2" using a r(1) n by (simp_all add: soup_alloc_def del: of_nat_add add_2_eq_Suc')
  then show ?thesis using r by (intro exI [of _ s]) simp
qed

interpretation rail: box_store soup_ok keeps_words soup_alloc soup_free
proof unfold_locales
  show "\<exists>s'. soup_free p s = Some s' \<and> soup_ok s' (L(p := None)) \<and> keeps_words (L(p := None)) s s'" if "soup_ok s L" "L p = Some (m, 1)" for s L p m
    using rfree_law [OF that] by (auto simp: soup_free_def)
  show "keeps_words L' s s'" if "keeps_words L s s'" "L' \<subseteq>\<^sub>m L" for L s s' L' using that unfolding keeps_words_def map_le_def by (metis domI)
qed (simp_all add: soup_alloc_law, simp_all add: keeps_words_def)

end
