(* ===== verification/Soup_Leap.thy ===== *)
theory Soup_Leap
  imports Soup_Run
begin

text \<open>
  The beams of a rail: a new rail has an empty soup, a leap starts one on the other beam, and the fall gives the heap outside back as
  it was, whatever was done in between.
\<close>

section \<open>A new soup\<close>

lemma zeros_vw:
  assumes "rut + n < 2 ^ 32"
  shows "vw (fold (\<lambda>i. loom_put (of_nat rut + of_nat i) 0) [0..<n] ral) = (\<lambda>q. if rut \<le> q \<and> q < rut + n then 0 else vw ral q)"
    "frame (fold (\<lambda>i. loom_put (of_nat rut + of_nat i) 0) [0..<n] ral) = frame ral"
  using assms
proof (induction n)
  case (Suc n)
  case 1
  then show ?case using Suc.IH vw_put [of "rut + n"] by (auto simp: fun_eq_iff)
next
  case (Suc n)
  case 2
  then show ?case using Suc.IH by simp
qed (auto simp: fun_eq_iff)

lemma feed_vw:
  assumes rut: "rut_r ral = of_nat rut" "rut + 32 < 2 ^ 32" and hip: "hip_m ral = c3__rock_w"
  shows "only {rut..<rut + 32} (vw ral) (vw (rl_feed ral))" "i < 28 \<Longrightarrow> vw (rl_feed ral) (rut + i) = 0" "frame (rl_feed ral) = frame (ral\<lparr>hat_r := hat_r ral + 32\<rparr>)"
proof -
  let ?h = "ral\<lparr>hat_r := hat_r ral + 32\<rparr>"
  define z where "z = fold (\<lambda>i. loom_put (of_nat rut + of_nat i) 0) [0..<28] ?h"
  have h: "vw ?h = vw ral" by (intro ext) (simp add: vw_def)
  have z: "vw z = (\<lambda>q. if rut \<le> q \<and> q < rut + 28 then 0 else vw ral q)" "frame z = frame ?h"
    using zeros_vw [of rut 28 ?h] rut(2) unfolding z_def h by simp_all
  have f: "rl_feed ral = loom_put (of_nat (rut + 28)) (push_bit 31 1) (loom_put (of_nat (rut + 31)) 0 z)"
    using hip rut(1) by (simp add: rl_feed_def Let_def z_def u2_soup_free_no_def)
  have v: "vw (rl_feed ral) = (vw z)(rut + 31 := 0, rut + 28 := push_bit 31 1)"
    unfolding f using rut(2) vw_put [of "rut + 28"] vw_put [of "rut + 31"] by (simp del: of_nat_add)
  show "only {rut..<rut + 32} (vw ral) (vw (rl_feed ral))" unfolding only_def v z(1) by auto
  show "vw (rl_feed ral) (rut + i) = 0" if "i < 28" unfolding v z(1) using that by simp
  show "frame (rl_feed ral) = frame ?h" unfolding f using z(2) by simp
qed

lemma new_soup:
  assumes rut: "rut_r ral = of_nat rut" "hat_r ral = of_nat rut" "rut + 32 < 2 ^ 28" "(rut + 32) div 2 ^ 27 = rut div 2 ^ 27"
    and hip: "hip_m ral = c3__rock_w" "\<not> ops_mem ral"
  shows "heap_st (rl_feed ral) rut (rut + 32) {} Map.empty (\<lambda>_. [])"
proof -
  have b: "rut + 32 < 2 ^ 32" using rut(3) by simp
  note f = feed_vw [OF rut(1) b hip(1)]
  have "tiled (rut + 32) (rut + 32) Map.empty" by (simp add: tiled_def ends_def)
  moreover have "soup_mem rut {} Map.empty (\<lambda>_. []) (vw (rl_feed ral))"
    using f(2) by (simp add: soup_mem_def separate_def boxed_def listed_def threaded_def)
  ultimately show ?thesis using frameD [OF f(3)] rut hip by (simp add: heap_st_def)
qed

lemma boot_st:
  "\<exists>ral. u2_rl_boot False lom c3__rock_w = Inr ral \<and> heap_st ral 5 37 {} Map.empty (\<lambda>_. []) \<and> cap_r ral = 2 ^ 27 \<and> mat_r ral = 2 ^ 27"
proof -
  let ?ral = "\<lparr>cap_r = 2 ^ 27, hat_r = 5, mat_r = 2 ^ 27, rut_r = 5, hip_m = c3__rock_w, ops_mem = False, loom = lom\<rparr>"
  have "u2_rl_boot False lom c3__rock_w = Inr (rl_feed ?ral)"
    by (simp add: u2_rl_boot_def u2_rl_init_def u2_ray_of_def u2_ray_a_def u2_ray_b_def u2_ray_open_def u2_ray_fnit_def HalfSize_def)
  moreover have "heap_st (rl_feed ?ral) 5 37 {} Map.empty (\<lambda>_. [])" using new_soup [of ?ral 5] by simp
  moreover have "frame (rl_feed ?ral) = frame (?ral\<lparr>hat_r := hat_r ?ral + 32\<rparr>)" by (rule feed_vw(3) [of _ 5]) simp_all
  ultimately show ?thesis using frameD(1,3) [of "rl_feed ?ral" "?ral\<lparr>hat_r := hat_r ?ral + 32\<rparr>"] by auto
qed

section \<open>Leaps and falls\<close>

definition two_beams :: "u2_loom_rail \<Rightarrow> bool" where
  "two_beams ral \<longleftrightarrow> unat (cap_r ral) < 2 ^ 28 \<and> unat (cap_r ral) div 2 ^ 27 \<noteq> unat (rut_r ral) div 2 ^ 27"

text \<open>Work in a rail, leaps included: it writes from the rut and from the cap on, and the cap only rises.\<close>

definition aside :: "u2_loom_rail \<Rightarrow> u2_loom_rail \<Rightarrow> bool" where
  "aside ral ral' \<longleftrightarrow>
     mat_r ral' = mat_r ral \<and> rut_r ral' = rut_r ral \<and> unat (cap_r ral') \<in> beam_from (unat (cap_r ral)) \<and>
     only (beam_from (unat (rut_r ral)) \<union> beam_from (unat (cap_r ral))) (vw ral) (vw ral')"

lemma beam_from_refl: "r \<in> beam_from r"
  by (simp add: beam_from_def)

lemma beam_from_mono: "q \<in> beam_from r \<Longrightarrow> beam_from q \<subseteq> beam_from r"
  by (auto simp: beam_from_def)

lemma beam_range: "e div 2 ^ 27 = r div (2 :: nat) ^ 27 \<Longrightarrow> {r..<e} \<subseteq> beam_from r"
proof
  fix a assume "e div 2 ^ 27 = r div (2 :: nat) ^ 27" "a \<in> {r..<e}"
  then show "a \<in> beam_from r" using beam_eq [of e r a] by (simp add: beam_from_def)
qed

lemma aside_refl: "aside ral ral"
  by (simp add: aside_def beam_from_refl)

lemma within_aside: "within ral ral' \<Longrightarrow> aside ral ral'"
  using only_mono [of _ "vw ral" "vw ral'"] by (auto simp: within_def aside_def beam_from_refl)

lemma aside_trans:
  assumes "aside ral ral'" "aside ral' ral''"
  shows "aside ral ral''"
proof -
  have "beam_from (unat (cap_r ral')) \<subseteq> beam_from (unat (cap_r ral))" using assms(1) beam_from_mono by (simp add: aside_def)
  then show ?thesis using assms unfolding aside_def by (auto simp: only_def)
qed

lemma aside_beams: "aside ral ral' \<Longrightarrow> two_beams ral \<Longrightarrow> unat (cap_r ral') < 2 ^ 28 \<Longrightarrow> two_beams ral'"
  by (simp add: aside_def two_beams_def beam_from_def)

lemma in_beam: "h mod 2 ^ 27 + n < 2 ^ 27 \<Longrightarrow> (h + n) div 2 ^ 27 = h div (2 :: nat) ^ 27"
  using div_add1_eq [of h n "2 ^ 27"] by simp

lemma in_loom: "h < 2 ^ 28 \<Longrightarrow> (h + n) div 2 ^ 27 = h div (2 :: nat) ^ 27 \<Longrightarrow> h + n < 2 ^ 28"
proof -
  assume h: "h < 2 ^ 28" "(h + n) div 2 ^ 27 = h div (2 :: nat) ^ 27"
  have "h div 2 ^ 27 < 2" using h(1) by (simp add: less_mult_imp_div_less)
  then show "h + n < 2 ^ 28" using h(2) dividend_less_times_div [of "2 ^ 27" "h + n"] by (cases "h div 2 ^ 27 = 0") auto
qed

text \<open>The state after a leap.\<close>

lemma leap_st:
  assumes st: "heap_st ral rut hat X B F" and two: "two_beams ral" and leap: "u2_rl_leap c3__rock_w ral = (True, ral')"
  defines "cap \<equiv> unat (cap_r ral)"
  shows "heap_st ral' cap (cap + 32) {} Map.empty (\<lambda>_. [])" "two_beams ral'" "cap_r ral' = of_nat (hat + 3)" "mat_r ral' = of_nat hat"
    "only ({hat..<hat + 3} \<union> {cap..<cap + 32}) (vw ral) (vw ral')" "vw ral' hat = mat_r ral" "vw ral' (hat + 1) = of_nat rut" "vw ral' (hat + 2) = c3__rock_w"
    "(hat + 3) div 2 ^ 27 = hat div 2 ^ 27" "hat + 3 < 2 ^ 28"
proof -
  have op: "u2_rl_open ral 32" using leap by (simp add: u2_rl_leap_def split: if_splits)
  have cap: "cap_r ral = of_nat cap" "cap < 2 ^ 28" "cap div 2 ^ 27 \<noteq> rut div 2 ^ 27" using two heap_pos(1) [OF st] by (simp_all add: cap_def two_beams_def)
  have "room ral 32" using op open_room [of 32 ral] heap_stD(4) [OF st] by simp
  then have sum: "32 + hat mod 2 ^ 27 + cap mod 2 ^ 27 < 2 ^ 27"
    using ray_b_nat [of hat] ray_b_nat [of cap] heap_stD(2,5) [OF st] cap(1,2) by (simp add: room_def)
  have up: "(hat + 3) div 2 ^ 27 = hat div 2 ^ 27" "(cap + 32) div 2 ^ 27 = cap div 2 ^ 27" using in_beam [of hat 3] in_beam [of cap 32] sum by simp_all
  have top: "hat + 3 < 2 ^ 28" "cap + 32 < 2 ^ 28" using in_loom [OF _ up(1)] in_loom [OF _ up(2)] heap_stD(5) [OF st] cap(2) by simp_all
  define r1 where "r1 = ral\<lparr>cap_r := of_nat (hat + 3), hat_r := of_nat cap, mat_r := of_nat hat, rut_r := of_nat cap, hip_m := c3__rock_w\<rparr>"
  define r2 where "r2 = loom_put (of_nat (hat + 2)) (hip_m ral) (loom_put (of_nat (hat + 1)) (rut_r ral) (loom_put (of_nat hat) (mat_r ral) r1))"
  have ral': "ral' = rl_feed r2"
    using leap op heap_stD(2) [OF st] cap(1) by (simp add: u2_rl_leap_def Let_def r2_def r1_def ac_simps)
  have "vw r1 = vw ral" by (intro ext) (simp add: vw_def r1_def)
  then have v2: "vw r2 = (vw ral)(hat := mat_r ral, hat + 1 := rut_r ral, hat + 2 := hip_m ral)"
    unfolding r2_def using top(1) vw_put [of hat] vw_put [of "hat + 1"] vw_put [of "hat + 2"] by (simp del: of_nat_add of_nat_Suc add_2_eq_Suc' One_nat_def)
  have r2: "rut_r r2 = of_nat cap" "hat_r r2 = of_nat cap" "hip_m r2 = c3__rock_w" "\<not> ops_mem r2" "cap_r r2 = of_nat (hat + 3)" "mat_r r2 = of_nat hat"
    using heap_stD(4) [OF st] by (simp_all add: r2_def r1_def)
  show new: "heap_st ral' cap (cap + 32) {} Map.empty (\<lambda>_. [])" unfolding ral' by (rule new_soup [OF r2(1,2) top(2) up(2) r2(3,4)])
  have b: "cap + 32 < 2 ^ 32" using top(2) by simp
  note f = feed_vw [OF r2(1) b r2(3), folded ral']
  show c: "cap_r ral' = of_nat (hat + 3)" "mat_r ral' = of_nat hat" using frameD [OF f(3)] r2(5,6) by simp_all
  show "two_beams ral'" using c(1) top(1) up(1) heap_pos(1) [OF new] cap(3) heap_stD(6) [OF st] by (simp add: two_beams_def unat_of_nat del: of_nat_add)
  show "(hat + 3) div 2 ^ 27 = hat div 2 ^ 27" "hat + 3 < 2 ^ 28" by fact+
  show "only ({hat..<hat + 3} \<union> {cap..<cap + 32}) (vw ral) (vw ral')" using f(1) v2 by (auto simp: only_def)
  have "a \<notin> {cap..<cap + 32}" if "hat \<le> a" "a < hat + 3" for a
    using beam_eq [OF up(1), of a] beam_eq [OF up(2), of a] that cap(3) heap_stD(6) [OF st] by auto
  then have "vw ral' a = vw r2 a" if "hat \<le> a" "a < hat + 3" for a using f(1) that by (auto simp: only_def)
  then show "vw ral' hat = mat_r ral" "vw ral' (hat + 1) = of_nat rut" "vw ral' (hat + 2) = c3__rock_w"
    using v2 heap_stD(1,3) [OF st] by simp_all
qed

text \<open>A heap depends on the words from the rut to the hat alone.\<close>

lemma soup_mem_cong:
  assumes st: "heap_st ral rut hat X B F" and eq: "\<And>a. rut \<le> a \<Longrightarrow> a < hat \<Longrightarrow> M' a = vw ral a"
  shows "soup_mem rut X B F M'"
proof -
  note ok = heap_stD(7) [OF st] and sep = heap_stD(9) [OF st]
  have box: "M' (p + k) = vw ral (p + k)" if p: "B p = Some (s, u)" "k < s" for p s u k
    by (rule eq) (use separateD(1) [OF sep p(1)] tiledD(1) [OF heap_stD(8) [OF st] p(1)] p(2) in simp_all)
  have "boxed M' B" unfolding boxed_def
  proof (intro allI impI)
    fix p s u assume p: "B p = Some (s, u)"
    show "M' p = of_nat s \<and> M' (p + 1) = u \<and> M' (p + s - 1) = of_nat s"
      using boxedD [OF soup_memD(2) [OF ok] p] box [OF p, of 0] box [OF p, of 1] box [OF p, of "s - 1"] separateD(2) [OF sep p] by simp
  qed
  moreover have "threaded rut M' F" unfolding threaded_def
  proof (intro allI impI conjI)
    fix i :: nat assume i: "i < 28"
    note thr = threadedD [OF soup_memD(4) [OF ok] i]
    show "M' (rut + i) = of_nat (first (F i))" using eq [of "rut + i"] thr(1) heap_pos(3) [OF st] i by simp
    have "linked M' 0 (F i) 0 = linked (vw ral) 0 (F i) 0"
    proof (rule linked_cong)
      fix q assume "q \<in> set (F i)"
      then obtain t where t: "B q = Some (t, 0)" using listedD(2) [OF soup_memD(3) [OF ok]] by blast
      show "M' (q + 2) = vw ral (q + 2) \<and> M' (q + 3) = vw ral (q + 3)" using box [OF t, of 2] box [OF t, of 3] separateD(2) [OF sep t] by simp
    qed
    then show "linked M' 0 (F i) 0" using thr(2) by simp
  qed
  ultimately show ?thesis using soup_memD(1,3) [OF ok] by (simp add: soup_mem_def)
qed

text \<open>What is left to a fall: the words below the pork, and the pork itself.\<close>

lemma leap_aside:
  assumes st: "heap_st ral rut hat {} B F" and two: "two_beams ral" and leap: "u2_rl_leap c3__rock_w ral = (True, ral1)" and work: "aside ral1 ral2"
  shows "mat_r ral2 = of_nat hat" "rut_r ral2 = cap_r ral" "vw ral2 hat = mat_r ral" "vw ral2 (hat + 1) = of_nat rut" "vw ral2 (hat + 2) = c3__rock_w"
    "a < hat \<Longrightarrow> a div 2 ^ 27 = rut div 2 ^ 27 \<Longrightarrow> vw ral2 a = vw ral a" "only (beam_from hat \<union> beam_from (unat (cap_r ral))) (vw ral) (vw ral2)"
proof -
  let ?cap = "unat (cap_r ral)"
  note l = leap_st [OF st two leap]
  have cap: "?cap div 2 ^ 27 \<noteq> rut div 2 ^ 27" using two heap_pos(1) [OF st] by (simp add: two_beams_def)
  have c1: "unat (cap_r ral1) = hat + 3" using l(3,10) by (simp add: unat_of_nat del: of_nat_add)
  have o: "only (beam_from ?cap \<union> beam_from (hat + 3)) (vw ral1) (vw ral2)" and m: "mat_r ral2 = mat_r ral1" "rut_r ral2 = rut_r ral1"
    using work heap_pos(1) [OF l(1)] c1 by (simp_all add: aside_def)
  show "mat_r ral2 = of_nat hat" "rut_r ral2 = cap_r ral" using m l(4) heap_stD(1) [OF l(1)] by simp_all
  have low: "vw ral2 a = vw ral1 a" if "a < hat + 3" "a div 2 ^ 27 = rut div 2 ^ 27" for a
    using o that cap by (auto simp: only_def beam_from_def)
  have "(hat + k) div 2 ^ 27 = rut div 2 ^ 27" if "k < 3" for k
    using beam_eq [OF l(9), of "hat + k"] that heap_stD(6) [OF st] by simp
  then have w: "vw ral2 (hat + k) = vw ral1 (hat + k)" if "k < 3" for k using low [of "hat + k"] that by simp
  show "vw ral2 hat = mat_r ral" "vw ral2 (hat + 1) = of_nat rut" "vw ral2 (hat + 2) = c3__rock_w" using l(6-8) w [of 0] w [of 1] w [of 2] by simp_all
  have caps: "{?cap..<?cap + 32} \<subseteq> beam_from ?cap" by (rule beam_range [OF heap_stD(6) [OF l(1)]])
  show "vw ral2 a = vw ral a" if a: "a < hat" "a div 2 ^ 27 = rut div 2 ^ 27"
  proof -
    have "a \<notin> {hat..<hat + 3} \<union> {?cap..<?cap + 32}" using a cap caps by (auto simp: beam_from_def)
    then show ?thesis using low [of a] l(5) a by (simp add: only_def)
  qed
  have "{hat..<hat + 3} \<subseteq> beam_from hat" by (rule beam_range [OF l(9)])
  moreover have "beam_from (hat + 3) \<subseteq> beam_from hat" using l(9) by (auto simp: beam_from_def)
  ultimately show "only (beam_from hat \<union> beam_from ?cap) (vw ral) (vw ral2)"
    using caps by (intro only_trans [OF only_mono [OF l(5)] only_mono [OF o]]) auto
qed

lemma fall_st:
  assumes st: "heap_st ral rut hat {} B F" and two: "two_beams ral" and leap: "u2_rl_leap c3__rock_w ral = (True, ral1)" and work: "aside ral1 ral2" and ok: "soup_ok ral2 L'"
  shows "heap_st (u2_rl_fall ral2) rut hat {} B F" "mat_r (u2_rl_fall ral2) = mat_r ral" "cap_r (u2_rl_fall ral2) = hat_r ral2" "aside ral (u2_rl_fall ral2)"
    "two_beams (u2_rl_fall ral2)" "a < hat \<Longrightarrow> a div 2 ^ 27 = rut div 2 ^ 27 \<Longrightarrow> vw (u2_rl_fall ral2) a = vw ral a"
proof -
  note l = leap_aside [OF st two leap work] and top = leap_st(10) [OF st two leap]
  let ?r = "u2_rl_fall ral2" and ?cap = "unat (cap_r ral)"
  have pik: "loom ral2 (of_nat hat) = vw ral2 hat" "loom ral2 (of_nat hat + 1) = vw ral2 (hat + 1)" "loom ral2 (of_nat hat + 2) = vw ral2 (hat + 2)"
    using top loom_vw [of hat ral2] loom_vw [of "hat + 1" ral2] loom_vw [of "hat + 2" ral2] by (simp_all add: ac_simps)
  have r: "cap_r ?r = hat_r ral2" "hat_r ?r = of_nat hat" "mat_r ?r = mat_r ral" "rut_r ?r = of_nat rut" "hip_m ?r = c3__rock_w" "ops_mem ?r = ops_mem ral2"
    using l(1,3-5) pik by (simp_all add: u2_rl_fall_def)
  have v: "vw ?r = vw ral2" by (intro ext) (simp add: vw_def u2_rl_fall_def Let_def)
  show "mat_r ?r = mat_r ral" "cap_r ?r = hat_r ral2" by fact+
  show same: "vw ?r a = vw ral a" if "a < hat" "a div 2 ^ 27 = rut div 2 ^ 27" for a unfolding v by (rule l(6) [OF that])
  obtain rut2 hat2 B2 F2 where i: "heap_st ral2 rut2 hat2 {} B2 F2" using ok unfolding soup_ok_def by blast
  have "soup_mem rut {} B F (vw ?r)"
  proof (rule soup_mem_cong [OF st])
    fix a assume a: "rut \<le> a" "a < hat"
    show "vw ?r a = vw ral a" by (rule same [OF a(2) beam_eq [OF heap_stD(6) [OF st] a(1)]]) (use a in simp)
  qed
  then show fin: "heap_st ?r rut hat {} B F" using heap_stD [OF st] heap_stD(4) [OF i] r by (simp add: heap_st_def)
  have rut2: "rut2 = ?cap" using heap_pos(1) [OF i] l(2) by simp
  have hat2: "unat (hat_r ral2) \<in> beam_from ?cap" "unat (hat_r ral2) < 2 ^ 28"
    using heap_pos(2,3) [OF i] heap_stD(5,6) [OF i] rut2 by (simp_all add: beam_from_def)
  have "hat \<in> beam_from rut" using heap_pos(3) [OF st] heap_stD(6) [OF st] by (simp add: beam_from_def)
  then have "only (beam_from rut \<union> beam_from ?cap) (vw ral) (vw ?r)" using only_mono [OF l(7)] beam_from_mono unfolding v by (meson Un_mono subset_refl)
  then show as: "aside ral ?r" using r heap_pos(1) [OF st] heap_stD(1) [OF st] hat2(1) by (simp add: aside_def)
  show "two_beams ?r" by (rule aside_beams [OF as two]) (use r(1) hat2(2) in simp)
qed

section \<open>Work\<close>

text \<open>
  What a client does with a rail, in any order: allocations, releases of boxes it has, writes to the bodies of its boxes, and leaps
  to rock in which it does the same. Leaps to sand, whose frames have no free lists, and the uses of a box beyond its first are not
  part of this work.
\<close>

inductive works :: "u2_loom_rail \<Rightarrow> u2_loom_rail \<Rightarrow> bool" where
  works_stay: "works ral ral"
| works_ralloc: "works ral ral1 \<Longrightarrow> 2 \<le> unat len \<Longrightarrow> unat len + 3 < 2 ^ 28 \<Longrightarrow> u2_rl_ralloc len ral1 = Some (Inr (r, ral2)) \<Longrightarrow> works ral ral2"
| works_rfree: "works ral ral1 \<Longrightarrow> soup_ok ral1 L \<Longrightarrow> L p = Some (s, 1) \<Longrightarrow> u2_rl_rfree (of_nat (p + 2)) ral1 = Inr ral2 \<Longrightarrow> works ral ral2"
| works_write: "works ral ral1 \<Longrightarrow> soup_ok ral1 L \<Longrightarrow> L p = Some (s, u) \<Longrightarrow> 2 \<le> k \<Longrightarrow> k + 1 < s \<Longrightarrow> works ral (loom_put (of_nat (p + k)) w ral1)"
| works_leap: "works ral ral1 \<Longrightarrow> u2_rl_leap c3__rock_w ral1 = (True, ral2) \<Longrightarrow> works ral2 ral3 \<Longrightarrow> works ral (u2_rl_fall ral3)"

definition sound :: "u2_loom_rail \<Rightarrow> bool" where
  "sound ral \<longleftrightarrow> (\<exists>L. soup_ok ral L) \<and> two_beams ral"

lemma within_sound: "sound ral \<Longrightarrow> within ral ral' \<Longrightarrow> soup_ok ral' L \<Longrightarrow> sound ral' \<and> aside ral ral'"
  using aside_beams [OF within_aside] by (auto simp: sound_def within_aside within_def two_beams_def)

lemma works_sound: "works ral ral' \<Longrightarrow> sound ral \<Longrightarrow> sound ral' \<and> aside ral ral'"
proof (induction rule: works.induct)
  case (works_stay ral)
  then show ?case by (simp add: aside_refl)
next
  case (works_ralloc ral ral1 len r ral2)
  then obtain L where L: "soup_ok ral1 L" by (auto simp: sound_def)
  obtain L' where "within ral1 ral2" "soup_ok ral2 L'" using ralloc_law [OF L works_ralloc.hyps(2,3)] works_ralloc.hyps(4) by auto
  then show ?case using works_ralloc.IH [OF works_ralloc.prems] within_sound aside_trans by blast
next
  case (works_rfree ral ral1 L p s ral2)
  then show ?case using rfree_law [OF works_rfree.hyps(2,3)] within_sound aside_trans by (metis sum.inject(2))
next
  case (works_write ral ral1 L p s u k w)
  then show ?case using write_law(1,3) [OF works_write.hyps(2-5)] within_sound aside_trans by blast
next
  case (works_leap ral ral1 ral2 ral3)
  then have s1: "sound ral1" "aside ral ral1" by simp_all
  obtain L rut hat B F where st: "heap_st ral1 rut hat {} B F" and L: "live B = L" and two: "two_beams ral1" using s1(1) unfolding sound_def soup_ok_def by blast
  note l = leap_st [OF st two works_leap.hyps(2)]
  have "sound ral2" using soup_okI [OF l(1) refl] l(2) unfolding sound_def by blast
  then obtain L3 where s3: "soup_ok ral3 L3" "aside ral2 ral3" using works_leap.IH(2) unfolding sound_def by blast
  note f = fall_st [OF st two works_leap.hyps(2) s3(2,1)]
  show ?case using soup_okI [OF f(1) L] f(4,5) aside_trans [OF s1(2)] unfolding sound_def by blast
qed

lemma leap_keeps:
  assumes ok: "soup_ok ral L" and two: "two_beams ral" and leap: "u2_rl_leap c3__rock_w ral = (True, ral1)" and work: "works ral1 ral2"
  shows "soup_ok (u2_rl_fall ral2) L \<and> keeps_words L ral (u2_rl_fall ral2) \<and> cap_r (u2_rl_fall ral2) = hat_r ral2 \<and> hat_r (u2_rl_fall ral2) = hat_r ral \<and>
    mat_r (u2_rl_fall ral2) = mat_r ral \<and> rut_r (u2_rl_fall ral2) = rut_r ral \<and> hip_m (u2_rl_fall ral2) = hip_m ral"
proof -
  obtain rut hat B F where st: "heap_st ral rut hat {} B F" and L: "live B = L" using ok unfolding soup_ok_def by blast
  note l = leap_st [OF st two leap]
  have "sound ral1" using soup_okI [OF l(1) refl] l(2) unfolding sound_def by blast
  then obtain L2 where s2: "soup_ok ral2 L2" "aside ral1 ral2" using works_sound [OF work] unfolding sound_def by blast
  note f = fall_st [OF st two leap s2(2,1)]
  have "only {a. \<not> (a < hat \<and> a div 2 ^ 27 = rut div 2 ^ 27)} (vw ral) (vw (u2_rl_fall ral2))" using f(6) by (auto simp: only_def)
  then have "keeps_words L ral (u2_rl_fall ral2)"
  proof (rule only_keeps [OF st])
    fix q t u k assume q: "L q = Some (t, u)" "k < t"
    have b: "B q = Some (t, u)" using liveD [OF L q(1)] by simp
    have "rut \<le> q + k" "q + k < hat" using separateD(1) [OF heap_stD(9) [OF st] b] tiledD(1) [OF heap_stD(8) [OF st] b] q(2) by simp_all
    then show "q + k \<notin> {a. \<not> (a < hat \<and> a div 2 ^ 27 = rut div 2 ^ 27)}" using beam_eq [OF heap_stD(6) [OF st], of "q + k"] by simp
  next
    show "B q = Some (t, u)" if "L q = Some (t, u)" for q t u using liveD [OF L that] by simp
  qed
  then show ?thesis using soup_okI [OF f(1) L] f(2,3) heap_stD(1-3) [OF st] heap_stD(1-3) [OF f(1)] by simp
qed

end
