(* ===== verification/Soup_Spec.thy ===== *)
theory Soup_Spec
  imports Soup_Leap
begin

text \<open>
  What the allocator of a rail promises to its clients, with a small run of it.
\<close>

section \<open>What the rail promises\<close>

lemma malloc_len:
  assumes "unat sib + 15 < 2 ^ 30"
  shows "unat (max 5 (drop_bit 2 (sib + 3)) :: c3_w) = max 5 ((unat sib + 3) div 4)"
proof -
  have "unat (sib + 3) = unat sib + 3" using assms by (subst unat_add_lem [THEN iffD1]) simp_all
  then have "unat (drop_bit 2 (sib + 3)) = (unat sib + 3) div 4" by (simp add: drop_bit_eq_div unat_div)
  then show ?thesis by (simp add: max_def word_le_nat_alt)
qed

text \<open>
  C7: \<open>u2_rl_malloc\<close> returns for every number of bytes below 2 to the 30: it gives a box that holds them, apart from all boxes
  in use, whose words stay as they are; or it fails, and then the hat and the cap leave no room for the box.
\<close>

theorem malloc_refines:
  assumes "soup_ok ral L" "unat sib + 15 < 2 ^ 30"
  shows "(\<exists>p s ral'. u2_rl_malloc sib ral = Some (Inr (of_nat (p + 2), ral')) \<and> unat sib + 12 \<le> 4 * s \<and> p + s < 2 ^ 28 \<and> L p = None \<and> disjoint_box L p s \<and>
      soup_ok ral' (L(p \<mapsto> (s, 1))) \<and> keeps_words L ral ral' \<and> within ral ral') \<or>
    u2_rl_malloc sib ral = Some (Inl Abort) \<and> \<not> room ral (max 5 ((unat sib + 3) div 4) + 3)"
proof -
  let ?len = "max 5 (drop_bit 2 (sib + 3)) :: c3_w"
  have b: "2 \<le> unat ?len" "unat ?len + 3 < 2 ^ 28" "\<And>s. unat ?len + 3 \<le> s \<Longrightarrow> unat sib + 12 \<le> 4 * s"
    unfolding malloc_len [OF assms(2)] using assms(2) by auto
  from ralloc_law [OF assms(1) b(1,2)] show ?thesis
  proof (elim disjE exE conjE)
    fix p s ral' assume r: "u2_rl_ralloc ?len ral = Some (Inr (of_nat (p + 2), ral'))" "unat ?len + 3 \<le> s" "p + s < 2 ^ 28" "L p = None" "disjoint_box L p s"
      "soup_ok ral' (L(p \<mapsto> (s, 1)))" "keeps_words L ral ral'" "within ral ral'"
    show ?thesis using r(1,3-) b(3) [OF r(2)] by (intro disjI1 exI [of _ p] exI [of _ s] exI [of _ ral']) (simp add: u2_rl_malloc_def)
  next
    assume "u2_rl_ralloc ?len ral = Some (Inl Abort)" "\<not> room ral (unat ?len + 3)"
    then show ?thesis unfolding malloc_len [OF assms(2)] by (simp add: u2_rl_malloc_def)
  qed
qed

text \<open>
  C10: boxes that are allocated from a rail and released in any order leave it with the boxes it had in use, and those with the
  words they had.
\<close>

theorem soup_alloc_free_all:
  assumes "soup_ok ral L" "alloc_all soup_alloc ns ral = Some (ps, ral')" "distinct qs" "set qs = set ps"
  shows "\<exists>ral''. free_all soup_free qs ral' = Some ral'' \<and> soup_ok ral'' L \<and> keeps_words L ral ral''"
  using assms by (rule rail.alloc_free_all)

text \<open>
  C8: after a leap to rock, any work in the new frame, further leaps included, and the fall, the rail has its boxes in use, their words, its
  hat, mat, rut and memory model back; what the work left on the other beam is under the cap.
\<close>

theorem leap_fall:
  assumes "soup_ok ral L" "two_beams ral" "u2_rl_leap c3__rock_w ral = (True, ral1)" "works ral1 ral2"
  shows "soup_ok (u2_rl_fall ral2) L \<and> keeps_words L ral (u2_rl_fall ral2) \<and> cap_r (u2_rl_fall ral2) = hat_r ral2 \<and> hat_r (u2_rl_fall ral2) = hat_r ral \<and>
    mat_r (u2_rl_fall ral2) = mat_r ral \<and> rut_r (u2_rl_fall ral2) = rut_r ral \<and> hip_m (u2_rl_fall ral2) = hip_m ral"
  using assms by (rule leap_keeps)

lemma boot_ok:
  "\<exists>ral. u2_rl_boot False lom c3__rock_w = Inr ral \<and> soup_ok ral Map.empty \<and> two_beams ral \<and> hat_r ral = 37 \<and> cap_r ral = 2 ^ 27"
proof -
  obtain ral where r: "u2_rl_boot False lom c3__rock_w = Inr ral" "heap_st ral 5 37 {} Map.empty (\<lambda>_. [])" "cap_r ral = 2 ^ 27" using boot_st by blast
  have "soup_ok ral Map.empty" by (rule soup_okI [OF r(2)]) (simp add: live_def fun_eq_iff)
  then show ?thesis using r heap_stD(1,2) [OF r(2)] by (simp add: two_beams_def)
qed

text \<open>
  C9: whatever boxes are allocated, written and released on a rail from its boot on, with leaps to rock in between, its heap is sound: free lists, boxes and the hat fit together, and every box with
  one use can be released, which takes this box away, leaves all others and does not raise the hat.
\<close>

theorem works_from_boot:
  assumes "u2_rl_boot False lom c3__rock_w = Inr ral" "works ral ral'"
  shows "\<exists>L. soup_ok ral' L \<and> two_beams ral' \<and>
    (\<forall>p s. L p = Some (s, 1) \<longrightarrow>
      (\<exists>ral''. u2_rl_rfree (of_nat (p + 2)) ral' = Inr ral'' \<and> soup_ok ral'' (L(p := None)) \<and> keeps_words (L(p := None)) ral' ral'' \<and> hat_r ral'' \<le> hat_r ral'))"
proof -
  have "sound ral" using boot_ok [of lom] assms(1) by (auto simp: sound_def)
  then obtain L where "soup_ok ral' L" "two_beams ral'" using works_sound [OF assms(2)] by (auto simp: sound_def)
  then show ?thesis using rfree_law by blast
qed

section \<open>A small run\<close>

lemma room_boot: "room ral n" if "cap_r ral = 2 ^ 27" "unat (hat_r ral) + n < 2 ^ 27"
  using that ray_b_nat [of "unat (hat_r ral)"] ray_b_nat [of "2 ^ 27"] by (simp add: room_def)

lemma boot_alloc:
  "\<exists>ral p s ral1. u2_rl_boot False (\<lambda>_. 0) c3__rock_w = Inr ral \<and> u2_rl_ralloc 4 ral = Some (Inr (of_nat (p + 2), ral1)) \<and> soup_ok ral Map.empty \<and>
     soup_ok ral1 [p \<mapsto> (s, 1)] \<and> two_beams ral1 \<and> unat (hat_r ral1) \<le> 44 \<and> cap_r ral1 = 2 ^ 27 \<and> p + s < 2 ^ 28 \<and> 7 \<le> s"
proof -
  obtain ral where r: "u2_rl_boot False (\<lambda>_. 0) c3__rock_w = Inr ral" "soup_ok ral Map.empty" "two_beams ral" "hat_r ral = 37" "cap_r ral = 2 ^ 27"
    using boot_ok by blast
  have "room ral 7" by (rule room_boot) (simp_all add: r(4,5))
  then obtain p s ral1 where a: "u2_rl_ralloc 4 ral = Some (Inr (of_nat (p + 2), ral1))" "soup_ok ral1 [p \<mapsto> (s, 1)]" "within ral ral1" "7 \<le> s" "p + s < 2 ^ 28"
      "hat_r ral1 \<in> {hat_r ral, hat_r ral + 7}"
    using ralloc_law [OF r(2), of 4] by auto
  moreover have "two_beams ral1" "cap_r ral1 = 2 ^ 27" using a(3) r(3,5) by (simp_all add: within_def two_beams_def)
  moreover have "unat (hat_r ral1) \<le> 44" using a(6) r(4) by auto
  ultimately show ?thesis using r(1,2) by blast
qed

lemma soup_allocI:
  "u2_rl_ralloc (of_nat n) ral = Some (Inr (of_nat (p + 2), ral')) \<Longrightarrow> 2 \<le> n \<Longrightarrow> n + 3 < 2 ^ 28 \<Longrightarrow> p < 2 ^ 28 \<Longrightarrow> soup_alloc n ral = Some (p, ral')"
  using unat_of_nat [of "p + 2", where ?'a = 32] by (simp add: soup_alloc_def del: of_nat_add add_2_eq_Suc')

text \<open>A second box, and a leap with a box in it.\<close>

lemma boot_second:
  "\<exists>ral p q ral2. u2_rl_boot False (\<lambda>_. 0) c3__rock_w = Inr ral \<and> soup_ok ral Map.empty \<and> alloc_all soup_alloc [4, 9] ral = Some ([p, q], ral2) \<and> p \<noteq> q"
proof -
  obtain ral p s ral1 where r: "u2_rl_boot False (\<lambda>_. 0) c3__rock_w = Inr ral" "u2_rl_ralloc 4 ral = Some (Inr (of_nat (p + 2), ral1))" "soup_ok ral Map.empty"
      "soup_ok ral1 [p \<mapsto> (s, 1)]" "unat (hat_r ral1) \<le> 44" "cap_r ral1 = 2 ^ 27" "p + s < 2 ^ 28" "7 \<le> s"
    using boot_alloc by blast
  have "room ral1 12" by (rule room_boot [OF r(6)]) (use r(5) in simp)
  then obtain q t ral2 where a: "u2_rl_ralloc 9 ral1 = Some (Inr (of_nat (q + 2), ral2))" "q + t < 2 ^ 28" "[p \<mapsto> (s, 1 :: c3_w)] q = None"
    using ralloc_law [OF r(4), of 9] by auto
  have "soup_alloc 4 ral = Some (p, ral1)" "soup_alloc 9 ral1 = Some (q, ral2)"
    using soup_allocI [of 4 ral p ral1] soup_allocI [of 9 ral1 q ral2] r(2,7) a(1,2) by simp_all
  then show ?thesis using r(1,3) a(3) by (auto split: if_splits)
qed

lemma boot_leap:
  "\<exists>ral r ral1 p s ral2 r' ral3. u2_rl_boot False (\<lambda>_. 0) c3__rock_w = Inr ral \<and> u2_rl_ralloc 4 ral = Some (Inr (r, ral1)) \<and> soup_ok ral1 [p \<mapsto> (s, 1)] \<and>
     two_beams ral1 \<and> u2_rl_leap c3__rock_w ral1 = (True, ral2) \<and> u2_rl_ralloc 9 ral2 = Some (Inr (r', ral3)) \<and> works ral2 ral3"
proof -
  obtain ral p s ral1 where r: "u2_rl_boot False (\<lambda>_. 0) c3__rock_w = Inr ral" "u2_rl_ralloc 4 ral = Some (Inr (of_nat (p + 2), ral1))"
      "soup_ok ral1 [p \<mapsto> (s, 1)]" "two_beams ral1" "unat (hat_r ral1) \<le> 44" "cap_r ral1 = 2 ^ 27"
    using boot_alloc by blast
  obtain rut hat B F where st: "heap_st ral1 rut hat {} B F" and low: "hat \<le> 44" using r(3,5) unfolding soup_ok_def by blast
  have "room ral1 32" by (rule room_boot [OF r(6)]) (use r(5) in simp)
  then have "u2_rl_open ral1 32" using open_room [of 32 ral1] heap_stD(4) [OF st] by simp
  then obtain ral2 where l: "u2_rl_leap c3__rock_w ral1 = (True, ral2)" by (auto simp: u2_rl_leap_def Let_def)
  note s = leap_st [OF st r(4) l]
  have hat: "hat_r ral2 = of_nat (2 ^ 27 + 32)" "cap_r ral2 = of_nat (hat + 3)" using heap_stD(2) [OF s(1)] s(3) r(6) by simp_all
  have "unat (u2_ray_b (hat_r ral2)) = 32" unfolding hat(1) using ray_b_nat [of "2 ^ 27 + 32"] by (simp del: of_nat_add)
  moreover have "unat (u2_ray_b (cap_r ral2)) = hat + 3" unfolding hat(2) using ray_b_nat [of "hat + 3"] low by (simp del: of_nat_add)
  ultimately have "room ral2 12" using low by (simp add: room_def)
  then obtain r' ral3 where a: "u2_rl_ralloc 9 ral2 = Some (Inr (r', ral3))" using ralloc_law [OF soup_okI [OF s(1) refl], of 9] by auto
  have "works ral2 ral3" by (rule works_ralloc [OF works_stay _ _ a]) simp_all
  then show ?thesis using r l a by blast
qed

theorem malloc_refines_witness:
  "\<exists>ral p s ral'. u2_rl_boot False (\<lambda>_. 0) c3__rock_w = Inr ral \<and> u2_rl_malloc 40 ral = Some (Inr (of_nat (p + 2), ral')) \<and> 52 \<le> 4 * s \<and> soup_ok ral' [p \<mapsto> (s, 1)]"
proof -
  obtain ral where r: "u2_rl_boot False (\<lambda>_. 0) c3__rock_w = Inr ral" "soup_ok ral Map.empty" "hat_r ral = 37" "cap_r ral = 2 ^ 27"
    using boot_ok by blast
  have "room ral 13" by (rule room_boot) (simp_all add: r(3,4))
  then show ?thesis using malloc_refines [OF r(2), of 40] r(1) by auto
qed

theorem soup_alloc_free_all_witness:
  "\<exists>ral p q ral' ral''. u2_rl_boot False (\<lambda>_. 0) c3__rock_w = Inr ral \<and> alloc_all soup_alloc [4, 9] ral = Some ([p, q], ral') \<and> p \<noteq> q \<and>
     free_all soup_free [q, p] ral' = Some ral'' \<and> soup_ok ral'' Map.empty"
proof -
  obtain ral p q ral' where r: "u2_rl_boot False (\<lambda>_. 0) c3__rock_w = Inr ral" "soup_ok ral Map.empty" "alloc_all soup_alloc [4, 9] ral = Some ([p, q], ral')" "p \<noteq> q"
    using boot_second by (elim exE conjE) (rule that)
  then show ?thesis using soup_alloc_free_all [OF r(2,3), of "[q, p]"] by (simp add: insert_commute) blast
qed

theorem leap_fall_witness:
  "\<exists>ral r ral1 p s ral2 r' ral3. u2_rl_boot False (\<lambda>_. 0) c3__rock_w = Inr ral \<and> u2_rl_ralloc 4 ral = Some (Inr (r, ral1)) \<and> u2_rl_leap c3__rock_w ral1 = (True, ral2) \<and>
     u2_rl_ralloc 9 ral2 = Some (Inr (r', ral3)) \<and> soup_ok (u2_rl_fall ral3) [p \<mapsto> (s, 1)] \<and> hat_r (u2_rl_fall ral3) = hat_r ral1"
proof -
  obtain ral r ral1 p s ral2 r' ral3 where r: "u2_rl_boot False (\<lambda>_. 0) c3__rock_w = Inr ral" "u2_rl_ralloc 4 ral = Some (Inr (r, ral1))"
      "soup_ok ral1 [p \<mapsto> (s, 1)]" "two_beams ral1" "u2_rl_leap c3__rock_w ral1 = (True, ral2)" "u2_rl_ralloc 9 ral2 = Some (Inr (r', ral3))" "works ral2 ral3"
    using boot_leap by (elim exE conjE) (rule that)
  show ?thesis using leap_fall [OF r(3-5,7)] r(1,2,5,6) by blast
qed

theorem works_from_boot_witness:
  "\<exists>ral r ral1 ral2 r' ral3 L. u2_rl_boot False (\<lambda>_. 0) c3__rock_w = Inr ral \<and> u2_rl_ralloc 4 ral = Some (Inr (r, ral1)) \<and> u2_rl_leap c3__rock_w ral1 = (True, ral2) \<and>
     u2_rl_ralloc 9 ral2 = Some (Inr (r', ral3)) \<and> soup_ok (u2_rl_fall ral3) L \<and> two_beams (u2_rl_fall ral3)"
proof -
  obtain ral r ral1 ral2 r' ral3 where r: "u2_rl_boot False (\<lambda>_. 0) c3__rock_w = Inr ral" "u2_rl_ralloc 4 ral = Some (Inr (r, ral1))"
      "u2_rl_leap c3__rock_w ral1 = (True, ral2)" "u2_rl_ralloc 9 ral2 = Some (Inr (r', ral3))" "works ral2 ral3"
    using boot_leap by blast
  have "works ral ral1" by (rule works_ralloc [OF works_stay _ _ r(2)]) simp_all
  then have "works ral (u2_rl_fall ral3)" by (rule works_leap [OF _ r(3,5)])
  then show ?thesis using works_from_boot [OF r(1)] r(1-4) by blast
qed

end
