(* ===== verification/Spec2Isabelle.thy ===== *)
theory Spec2Isabelle
  imports Jam Maps Nock_Live Raft_Safe Soup_Spec
begin

text \<open>
  Verification of vere: the noun runtime, the u2 interpreter of \<^verbatim>\<open>src/f\<close> and its jets in \<^verbatim>\<open>src/gen164\<close>, and the consensus
  between its nodes in \<^verbatim>\<open>src/v/raft.c\<close>.

  \<^bold>\<open>The program.\<close> Vere runs Nock: a noun is an atom (a natural number) or a cell of two nouns, and a formula is
  a noun that is run on a subject. \<^verbatim>\<open>f/loom.c\<close> reads nouns in memory, \<^verbatim>\<open>f/rail.c\<close> makes them, \<^verbatim>\<open>f/bail.c\<close> and
  \<^verbatim>\<open>f/coal.c\<close> raise and trap errors. \<^verbatim>\<open>f/nock.c\<close> has two interpreters, one that jumps to a trap when a formula
  fails and one that returns a kode. A program may declare its cores by hints; \<^verbatim>\<open>f/dash.c\<close> records them, and
  \<^verbatim>\<open>f/host.c\<close> runs a jet, a C function, in place of the formula of a declared core. \<^verbatim>\<open>f/cash.c\<close> is the hash
  table behind the dashboard and behind the table of products of a rail, which the memo hint uses.
  The jets are in \<^verbatim>\<open>gen164\<close>: arithmetic, lists, bits, sets and maps, serialisation, and the compiler. Several nodes choose a
  leader by the election of raft, \<^verbatim>\<open>v/raft.c\<close>: they send each other requests and responses over TCP, driven by the callbacks
  of libuv, and keep their term and vote on the disk.

  \<^bold>\<open>The theories.\<close>
  \<^item> \<open>Prelude\<close>: the integer types, the errors (\<open>Bail\<close> for a jump to the trap, \<open>Abort\<close> for a failed assertion,
    \<open>Wild\<close> for an access outside what is allocated), bits and words.
  \<^item> \<open>Noun\<close>, \<open>Atoms\<close>: nouns; \<^verbatim>\<open>u2_met\<close>, \<^verbatim>\<open>u2_bit\<close>, \<^verbatim>\<open>u2_bytes\<close>, \<^verbatim>\<open>u2_chop\<close> and the other readers of atoms,
    on 32-bit words that wrap around. Shown: what they measure and read, and that a chop stays in its slab.
  \<^item> \<open>Rail\<close>: slabs, \<^verbatim>\<open>u2_rl_malt\<close>, \<^verbatim>\<open>u2_rl_words\<close>, \<^verbatim>\<open>u2_rl_bytes\<close>, \<^verbatim>\<open>u2_rl_vint\<close>, \<^verbatim>\<open>u2_rl_cell\<close> and the transfer
    to the bignum library. That library is the record \<open>gmp\<close>, a parameter; the locale \<open>gmp_laws\<close> states its
    documented behaviour and is interpreted on the integers. A number too large for an atom fails the assertion of
    \<^verbatim>\<open>u2_loop_signal_memory\<close>. Shown: round trips, canonical atoms, successors.
  \<^item> \<open>Loom\<close>: heads, tails, axes, \<^verbatim>\<open>u2_frag\<close>, \<^verbatim>\<open>u2_mean\<close>, \<^verbatim>\<open>u2_rl_molt\<close>, the factoring functions and \<^verbatim>\<open>u2_nord\<close>.
    Shown: they agree with tree addressing (\<open>slot\<close>), and where they read wild memory.
  \<^item> \<open>Mug\<close>: the hash of a noun with its cache in an explicit heap, and the equality \<^verbatim>\<open>u2_sing\<close>. Shown: the hash
    search ends, caching keeps the caches right, equality is decided for any right caches.
  \<^item> \<open>Cash\<close>: the hash table, in radix and in collision mode, with the lookups by parts and the functions of the
    rail on its table. Shown: it refines a map; the locale \<open>memo_table\<close> states what clients rely on.
  \<^item> \<open>Dash\<close>: chips, \<^verbatim>\<open>u2_ds_mine\<close>, \<^verbatim>\<open>u2_ds_find\<close>, \<^verbatim>\<open>u2_ds_look\<close>. Shown: a core is registered whenever its clue makes a chip and the
    table has room, and is then found with that chip; what is found matches the core.
  \<^item> \<open>Wire\<close>: the state of the interpreter and the control flow: a run is a function from the wire to an outcome
    and a wire; \<open>nk_ends\<close> is its partial-correctness predicate.
  \<^item> \<open>Nock5\<close>: the definition of Nock of \<^verbatim>\<open>Spec/nock/5.txt\<close>, and direct rules for it with a namespace.
  \<^item> \<open>Nock\<close>: both interpreters, hints, namespace, virtual nock, and jet dispatch.
  \<^item> \<open>Nock_Reach\<close>: the evaluations a run makes (\<open>sub_run\<close>), and formulas that meet no memo hint (\<open>memo_free\<close>).
  \<^item> \<open>Nock_Sound\<close>, \<open>Nock_Run\<close>: what the interpreters return is the product, in two modes: on a wire without a namespace whose
    table of products is right, with all hints; and on any wire, with any namespace, for runs without memo hints. The
    restriction is needed, since a memo hint can keep a virtual failure as a product. The locales \<open>jets_sound\<close> and \<open>jets_for\<close> state what a
    table of jets has to satisfy in these modes and are interpreted on the empty table and on the decrement jet.
  \<^item> \<open>Nock_Live\<close>: formulas that have a product are run to it; the theorems about the interpreter.
  \<^item> \<open>Jets\<close>, \<open>Jets1\<close>, \<open>Jets2\<close>, \<open>Jets3\<close>, \<open>Bitwise\<close>: the jets of parts 1 to 3 with the checks of their samples.
    Shown: they compute the function of the hoon source, and the bails of the C code.
  \<^item> \<open>Bpt\<close>, \<open>Nash\<close>: the Patricia tree of \<^verbatim>\<open>outside/bpt\<close> with its chunks, masks and arrays of children, and the
    nounhash built on it. Shown: insertion and removal keep the invariant of the tree and are updates of a map;
    the nounhash is a map of nouns. The locales \<open>key_tree\<close> and \<open>noun_table\<close> are what their clients rely on.
  \<^item> \<open>Lists3\<close>: the jets \<^verbatim>\<open>can\<close>, \<^verbatim>\<open>rap\<close> and \<^verbatim>\<open>rip\<close>, which put atoms together from lists and take them apart.
  \<^item> \<open>Orders\<close>, \<open>Treaps\<close>, \<open>Sets\<close>, \<open>Maps\<close>: the orders \<^verbatim>\<open>dor\<close>, \<^verbatim>\<open>gor\<close>, \<^verbatim>\<open>hor\<close> and \<^verbatim>\<open>vor\<close>, and the jets of part 4. The locale
    \<open>treap_orders\<close> is the theory of treaps, interpreted on the keys of sets and on those of maps. Shown: the jets of
    sets are the operations on sets and the representation is unique; \<^verbatim>\<open>put\<close>, \<^verbatim>\<open>get\<close>, \<^verbatim>\<open>has\<close> and \<^verbatim>\<open>gas\<close> of maps are the
    operations on maps; where \<^verbatim>\<open>uni\<close> and \<^verbatim>\<open>int\<close> of maps go wrong.
  \<^item> \<open>Jam\<close>: \<^verbatim>\<open>mat\<close>, \<^verbatim>\<open>rub\<close>, \<^verbatim>\<open>jam\<close> and \<^verbatim>\<open>cue\<close> with their nounhashes. Shown: \<^verbatim>\<open>cue\<close> reads back what \<^verbatim>\<open>jam\<close> writes, and
    is safe on every atom of fewer than \<open>2\<^sup>3\<^sup>1\<close> bits.
  \<^item> \<open>Soup\<close>: the memory of a rail: rays, the frame with its two beams, \<^verbatim>\<open>u2_rl_leap\<close> and \<^verbatim>\<open>u2_rl_fall\<close>, and the allocator,
    \<^verbatim>\<open>_rl_bloq_grab\<close> and \<^verbatim>\<open>_rl_bloq_free\<close>, on the words of the loom. \<open>Soup_Mem\<close>: boxes and doubly linked free lists as they are in
    memory, and what each routine writes. \<open>Soup_Heap\<close>: the boxes fill the space up to the hat; allocation. \<open>Soup_Free\<close>: release and
    coalescing. \<open>Soup_Run\<close>: the heap as a map of the boxes in use; the locale \<open>box_store\<close> is the interface its clients rely on,
    interpreted on the rail. \<open>Soup_Leap\<close>: leaps to rock, falls and runs of a client. \<open>Soup_Spec\<close>: the theorems. Shown: the search for a block
    ends; boxes in use never overlap and are never written by the allocator; a fall undoes a leap.
  \<^item> \<open>Rmsg\<close>: the messages of raft, \<^verbatim>\<open>_raft_rmsg_read\<close>, \<^verbatim>\<open>_raft_rmsg_send\<close>, the buffers and the reading loop, on bytes. Shown: messages
    survive the trip in whatever chunks they arrive; which bytes make the reader go wrong.
  \<^item> \<open>Raft\<close>: the state of a node and all its handlers and callbacks. \<open>Raft_Inv\<close>: the events that libuv makes, and the invariant
    of a node, kept by each of them. \<open>Raft_Init\<close>: the option parser and the start. \<open>Raft_Run\<close>: runs of a node, what an election
    needs to succeed, and what goes wrong. \<open>Raft_Step\<close>: each event as a series of effects seen from outside: what is said on a
    connection, what is waited for, whom the node votes for. \<open>Raft_Net\<close>, \<open>Raft_Deliver\<close>, \<open>Raft_Safe\<close>: clusters of nodes with connections
    that carry bytes in order, cut and delayed at will, and broken at any time. Shown: a term has at most one leader. The code
    matches a response with the oldest request that is not answered, and does not answer all of them, so the invariant has to say
    that a response that is on its way never belongs to a request older than the one it is matched with. A node that stops does
    not come back: a restart is the subject of \<open>Raft_Init\<close>.

  \<^bold>\<open>Fuel.\<close> \<open>nock_at n\<close> is the pair of interpreters cut off at \<open>n\<close> nested calls and loop iterations. Products are
  right for every \<open>n\<close>; for formulas in \<open>nock_quiet\<close> some \<open>n\<close> and every larger one give the product.
  \<open>cue_in\<close> has one call per bit of its atom and one more, \<open>rub_loop\<close> two iterations more than there are bits; that
  this is enough is part of what is shown of \<^verbatim>\<open>cue\<close>. The search of the allocator is a partial function, and shown to return. Union and merge of sets have \<open>(s + t)\<^sup>2 + s + t + 1\<close> nested calls
  for trees of \<open>s\<close> and \<open>t\<close> cells, intersection \<open>s + t + 1\<close>: each call has fewer nodes, or as many and a smaller lower tree.

  \<^bold>\<open>Not modelled.\<close> The reference counts of nouns, the copies between frames and the roads of \<^verbatim>\<open>f/meme.c\<close>: nouns are values, and
  outside the \<open>Soup\<close> theories every allocation succeeds, up to the size limits the code tests. The frames of sand that a leap can
  make, where an allocation only raises the hat, are defined but nothing is shown of them. Printing and profiling (\<^verbatim>\<open>f/trac.c\<close>,
  \<^verbatim>\<open>f/benx.c\<close>). The compiler jets of \<^verbatim>\<open>gen164/6\<close> and the jets that call third-party cryptography. The rest of
  \<^verbatim>\<open>src/v\<close>, the event loop, its devices and logs, which are operating system I/O. Vendored code in \<^verbatim>\<open>src/outside\<close>
  but for the Patricia tree.
\<close>

end
